(* ===== verification/Prelude.thy ===== *)
theory Prelude
  imports Main "HOL-Library.Word"
begin

text \<open>
  The vocabulary every theory of the development shares: the exceptions the broker code throws,
  results that are either an exception or a value, and generic facts on lists and machine words
  that the component theories use. The C++ exceptions are values of one datatype; a method that
  throws returns \<open>Inl\<close> of the exception.
\<close>

section \<open>Exceptions and results\<close>

text \<open>
  The exception classes that the modelled code throws (\<open>qpid/framing/reply_exceptions.h\<close>,
  \<open>framing/Buffer.h\<close>, \<open>framing/FieldValue.h\<close>), without their message strings, the failure of an
  \<open>assert\<close>, an operation whose behaviour C++ leaves undefined, a wait that no thread can end, and the end of the fuel that bounds
  the depth of a recursion in the model.
\<close>

datatype qpid_error =
    OutOfBounds
  | IllegalArgumentException
  | InvalidArgumentException
  | FramingErrorException
  | ResourceLimitExceededException
  | InvalidConversionException
  | GeneralException
  | AssertionFailed
  | UndefinedBehaviour
  | TokenException
  | RangeError
  | BadLexicalCast
  | OutOfFuel
  | InternalErrorException
  | ResourceDeletedException
  | ResourceLockedException
  | NotAllowedException
  | NotFoundException
  | IllegalStateException
  | CommandInvalidException
  | DtxTimeoutException
  | Deadlock

type_synonym 'a result = "qpid_error + 'a"

definition res_bind :: "'a result \<Rightarrow> ('a \<Rightarrow> 'b result) \<Rightarrow> 'b result" where
  "res_bind r f = (case r of Inl e \<Rightarrow> Inl e | Inr v \<Rightarrow> f v)"

lemma res_bind_simps [simp]:
  "res_bind (Inl e) f = Inl e"
  "res_bind (Inr v) f = f v"
  by (simp_all add: res_bind_def)

lemma res_bind_eq_Inr: "res_bind r f = Inr y \<longleftrightarrow> (\<exists>x. r = Inr x \<and> f x = Inr y)"
  by (cases r) simp_all

lemma res_bind_eq_Inl:
  "res_bind r f = Inl e \<longleftrightarrow> r = Inl e \<or> (\<exists>x. r = Inr x \<and> f x = Inl e)"
  by (cases r) simp_all

lemma res_bind_cong [fundef_cong]:
  "r = r' \<Longrightarrow> (\<And>x. r' = Inr x \<Longrightarrow> f x = g x) \<Longrightarrow> res_bind r f = res_bind r' g"
  by (cases r') simp_all

text \<open>A check that throws: \<open>if (cond) throw e\<close>.\<close>

definition throw_if :: "bool \<Rightarrow> qpid_error \<Rightarrow> 'a result \<Rightarrow> 'a result" where
  "throw_if c e k = (if c then Inl e else k)"

lemma throw_if_simps [simp]:
  "throw_if True e k = Inl e"
  "throw_if False e k = k"
  by (simp_all add: throw_if_def)

lemma throw_if_eq_Inr: "throw_if c e k = Inr y \<longleftrightarrow> \<not> c \<and> k = Inr y"
  by (simp add: throw_if_def)

named_theorems range_simps "the operations on ranges, read through positions in a window"

end
