(* ===== verification/Sequence_Number.thy ===== *)
theory Sequence_Number
  imports Prelude
begin

text \<open>
  Serial numbers: \<open>qpid::framing::SequenceNumber\<close> (\<open>src/qpid/framing/SequenceNumber.h\<close>), a 32-bit
  counter that wraps around and is compared by the sign of a difference. The comparison is a
  linear order only inside a window of \<open>2 ^ 31\<close> consecutive numbers; the locale \<open>serial_window\<close>
  states what a window offers to the containers built on serial numbers, and its interpretation
  \<open>seq_window\<close> shows that every window of sequence numbers offers it.
\<close>

section \<open>The operations\<close>

text \<open>
  The member \<open>int32_t value\<close> as its 32 bits. \<open>operator<\<close> reads the sign of the 32-bit difference
  \<open>value - other.value\<close>, with the wrap-around the class is documented to have.
\<close>

type_synonym SequenceNumber = "32 word"

definition SequenceNumber_less :: "SequenceNumber \<Rightarrow> SequenceNumber \<Rightarrow> bool" where
  "SequenceNumber_less a b \<longleftrightarrow> sint (a - b) < 0"

definition SequenceNumber_incr :: "SequenceNumber \<Rightarrow> SequenceNumber" where
  "SequenceNumber_incr a = a + 1"

definition SequenceNumber_decr :: "SequenceNumber \<Rightarrow> SequenceNumber" where
  "SequenceNumber_decr a = a - 1"

definition SequenceNumber_minus :: "SequenceNumber \<Rightarrow> SequenceNumber \<Rightarrow> int" where
  "SequenceNumber_minus a b = sint (a - b)"

definition SequenceNumber_plus_int :: "SequenceNumber \<Rightarrow> int \<Rightarrow> SequenceNumber" where
  "SequenceNumber_plus_int a n = a + word_of_int n"

definition SequenceNumber_minus_int :: "SequenceNumber \<Rightarrow> int \<Rightarrow> SequenceNumber" where
  "SequenceNumber_minus_int a n = a - word_of_int n"

section \<open>Windows\<close>

text \<open>
  What a container of serial numbers relies on: inside the domain \<open>D\<close> the comparison \<open>lt\<close> is the
  order of positions, positions identify elements, and the successor moves one position up.
\<close>

locale serial_window =
  fixes lt :: "'a \<Rightarrow> 'a \<Rightarrow> bool"
    and succ :: "'a \<Rightarrow> 'a"
    and pos :: "'a \<Rightarrow> nat"
    and D :: "'a \<Rightarrow> bool"
  assumes less_pos: "D a \<Longrightarrow> D b \<Longrightarrow> lt a b \<longleftrightarrow> pos a < pos b"
    and pos_inj: "D a \<Longrightarrow> D b \<Longrightarrow> pos a = pos b \<Longrightarrow> a = b"
    and succ_pos: "D a \<Longrightarrow> D (succ a) \<Longrightarrow> pos (succ a) = Suc (pos a)"
begin

lemma less_irrefl: "D a \<Longrightarrow> \<not> lt a a"
  by (simp add: less_pos)

lemma less_linear: "D a \<Longrightarrow> D b \<Longrightarrow> lt a b \<or> a = b \<or> lt b a"
  using pos_inj by (auto simp: less_pos)

lemma less_trans: "D a \<Longrightarrow> D b \<Longrightarrow> D c \<Longrightarrow> lt a b \<Longrightarrow> lt b c \<Longrightarrow> lt a c"
  by (simp add: less_pos)

end

definition window_pos :: "SequenceNumber \<Rightarrow> SequenceNumber \<Rightarrow> nat" where
  "window_pos base v = unat (v - base)"

definition in_window :: "SequenceNumber \<Rightarrow> SequenceNumber \<Rightarrow> bool" where
  "in_window base v \<longleftrightarrow> window_pos base v < 2 ^ 31"

lemma sint_word32:
  "sint (w :: 32 word) = (if uint w < 2 ^ 31 then uint w else uint w - 2 ^ 32)"
proof -
  have u: "uint w < 2 ^ 32"
    using uint_lt2p [of w] by simp
  have d: "uint w div 2147483648 = (if uint w < 2 ^ 31 then 0 else 1)"
    using u by (auto simp: div_pos_pos_trivial)
  show ?thesis
    using u by (simp add: sint_uint signed_take_bit_eq_take_bit_minus bit_iff_odd
        take_bit_int_eq_self d)
qed

lemma unat_ge_iff_uint: "numeral k \<le> unat w \<longleftrightarrow> numeral k \<le> uint w"
  using of_nat_le_iff [of "numeral k" "unat w", where 'a = int] by simp

lemma sint_word32_neg_iff: "sint (w :: 32 word) < 0 \<longleftrightarrow> 2 ^ 31 \<le> unat w"
  using uint_lt2p [of w] by (cases "uint w < 2 ^ 31") (auto simp: sint_word32 unat_ge_iff_uint)

lemma sint_eq_unat_small: "unat (w :: 32 word) < 2 ^ 31 \<Longrightarrow> sint w = int (unat w)"
  using uint_lt2p [of w] sint_word32_neg_iff [of w] by (auto simp: sint_word32 split: if_splits)

lemma unat_diff_window:
  fixes a b base :: "32 word"
  shows "int (unat (a - b)) = (int (window_pos base a) - int (window_pos base b)) mod 2 ^ 32"
proof -
  have "a - b = (a - base) - (b - base)" by simp
  then have "uint (a - b) = (uint (a - base) - uint (b - base)) mod 2 ^ 32"
    by (simp add: uint_word_ariths mod_simps)
  then show ?thesis by (simp add: window_pos_def)
qed

lemma SequenceNumber_less_window:
  assumes "in_window base a" and "in_window base b"
  shows "SequenceNumber_less a b \<longleftrightarrow> window_pos base a < window_pos base b"
proof -
  let ?i = "int (window_pos base a)" and ?j = "int (window_pos base b)"
  have ij: "0 \<le> ?i" "?i < 2147483648" "0 \<le> ?j" "?j < 2147483648"
    using assms by (auto simp: in_window_def)
  have "SequenceNumber_less a b \<longleftrightarrow> (2 ^ 31 :: int) \<le> int (unat (a - b))"
    using of_nat_le_iff [of "2 ^ 31" "unat (a - b)", where 'a = int]
    by (simp add: SequenceNumber_less_def sint_word32_neg_iff)
  also have "\<dots> \<longleftrightarrow> 2147483648 \<le> (?i - ?j) mod 4294967296"
    by (subst unat_diff_window [of a b base]) simp
  also have "\<dots> \<longleftrightarrow> ?i < ?j"
  proof (cases "?i < ?j")
    case True
    have "(?i - ?j) mod 4294967296 = (?i - ?j + 4294967296) mod 4294967296"
      by (simp only: mod_add_self2)
    also have "\<dots> = ?i - ?j + 4294967296"
      using True ij by (intro mod_pos_pos_trivial) linarith+
    finally have "(?i - ?j) mod 4294967296 = ?i - ?j + 4294967296" .
    with True ij show ?thesis by linarith
  next
    case False
    then have "(?i - ?j) mod 4294967296 = ?i - ?j"
      using ij by (intro mod_pos_pos_trivial) auto
    with False ij show ?thesis by linarith
  qed
  finally show ?thesis by simp
qed

lemma window_pos_inj: "window_pos base a = window_pos base b \<Longrightarrow> a = b"
  unfolding window_pos_def by (metis diff_add_cancel word_eq_iff_unsigned)

lemma window_pos_base [simp]: "window_pos base base = 0"
  by (simp add: window_pos_def)

lemma in_window_base [simp]: "in_window base base"
  by (simp add: in_window_def)

lemma window_pos_incr:
  assumes "in_window base a"
  shows "window_pos base (SequenceNumber_incr a) = Suc (window_pos base a)"
proof -
  have "unat (a - base) < 2 ^ 31"
    using assms by (simp add: in_window_def window_pos_def)
  then have "unat ((a - base) + 1) = Suc (unat (a - base))"
    by (simp add: unat_word_ariths unat_of_nat)
  then show ?thesis
    by (simp add: window_pos_def SequenceNumber_incr_def algebra_simps)
qed

lemma less_imp_in_window:
  assumes "SequenceNumber_less base c" and "c \<noteq> base + 2 ^ 31"
  shows "in_window base c"
proof -
  let ?d = "base - c"
  have d: "2 ^ 31 \<le> unat ?d"
    using assms(1) by (simp add: SequenceNumber_less_def sint_word32_neg_iff)
  have "?d \<noteq> 2 ^ 31"
  proof
    assume "?d = 2 ^ 31"
    then have "c = base - 2147483648" by (simp add: algebra_simps)
    also have "\<dots> = base + 2147483648 - (2147483648 + 2147483648)" by simp
    also have "(2147483648 + 2147483648 :: 32 word) = 0" by simp
    finally show False using assms(2) by simp
  qed
  then have ne: "uint ?d \<noteq> 2 ^ 31"
    using unsigned_word_eqI [of ?d "2 ^ 31", where 'a = int] by auto
  have "c - base = - ?d" by simp
  then have "uint (c - base) = (- uint ?d) mod 2 ^ 32"
    by (simp only: uint_word_ariths) simp
  moreover have "2147483648 < uint ?d" "uint ?d < 4294967296"
    using d ne uint_lt2p [of ?d] by (simp_all add: unat_ge_iff_uint)
  ultimately have "uint (c - base) = 4294967296 - uint ?d"
    by (simp add: zmod_zminus1_eq_if)
  then show ?thesis
    using \<open>2147483648 < uint ?d\<close> unat_ge_iff_uint [of _ "c - base"]
    by (auto simp: in_window_def window_pos_def simp flip: not_le)
qed

interpretation seq_window:
  serial_window SequenceNumber_less SequenceNumber_incr "window_pos base" "in_window base"
  for base
  by unfold_locales
    (auto simp: SequenceNumber_less_window window_pos_incr dest: window_pos_inj)

section \<open>The comparison outside a window\<close>

text \<open>
  Inside a window of \<open>2 ^ 31\<close> consecutive sequence numbers \<open>operator<\<close> is a strict linear
  order, the order of the distances from the start of the window, also where the window runs over
  the wrap-around from \<open>2 ^ 32 - 1\<close> to \<open>0\<close>.
\<close>

theorem SequenceNumber_less_linear_in_window:
  assumes "in_window base a" and "in_window base b" and "in_window base c"
  shows "(SequenceNumber_less a b \<longleftrightarrow> unat (a - base) < unat (b - base))
    \<and> \<not> SequenceNumber_less a a
    \<and> (SequenceNumber_less a b \<or> a = b \<or> SequenceNumber_less b a)
    \<and> (SequenceNumber_less a b \<longrightarrow> SequenceNumber_less b c \<longrightarrow> SequenceNumber_less a c)"
  using assms SequenceNumber_less_window [of base a b] seq_window.less_irrefl [of base a]
    seq_window.less_linear [of base a b] seq_window.less_trans [of base a b c]
  by (simp add: window_pos_def)

theorem SequenceNumber_less_linear_in_window_witness:
  "SequenceNumber_less 4294967295 0 \<and> \<not> SequenceNumber_less 0 (4294967295 :: SequenceNumber)"
  using SequenceNumber_less_linear_in_window [of 4294967290 4294967295 0 5]
    SequenceNumber_less_linear_in_window [of 4294967290 0 4294967295 5]
  by (simp add: in_window_def window_pos_def)

text \<open>
  The only pairs that \<open>operator<\<close> orders both ways are those exactly \<open>2 ^ 31\<close> apart; every
  other pair of different numbers is ordered one way.
\<close>

theorem SequenceNumber_less_both_ways_iff:
  "SequenceNumber_less a b \<and> SequenceNumber_less b a \<longleftrightarrow> a - b = 2 ^ 31"
proof -
  have "b - a = - (a - b)" by simp
  moreover have "2 ^ 31 \<le> unat d \<and> 2 ^ 31 \<le> unat (- d) \<longleftrightarrow> d = 2 ^ 31" for d :: "32 word"
  proof -
    have "unat d < 2 ^ 32"
      using unsigned_less [of d, where 'a = nat] by simp
    moreover have "unat (- d) = (if d = 0 then 0 else 2 ^ 32 - unat d)"
      using unat_sub_if' [of 0 d] by (simp add: unat_0_iff)
    moreover have "d = 2 ^ 31 \<longleftrightarrow> unat d = 2 ^ 31"
      by unat_arith
    ultimately show ?thesis
      by (auto simp: unat_0_iff)
  qed
  ultimately show ?thesis
    unfolding SequenceNumber_less_def sint_word32_neg_iff by metis
qed

end
