(* ===== verification/Range_Set.thy ===== *)
theory Range_Set
  imports Sequence_Number
begin

text \<open>
  Sets of serial numbers as sorted lists of half-open ranges: the templates \<open>qpid::Range\<close> and
  \<open>qpid::RangeSet\<close> (\<open>src/qpid/RangeSet.h\<close>). The template parameter \<open>T\<close> contributes its
  \<open>operator<\<close> and \<open>operator++\<close>; they are the arguments \<open>lt\<close> and \<open>succ\<close> of the definitions. The
  lemmas are proved once in the locale \<open>serial_window\<close>, and the properties are their instances for
  sequence numbers in a window.
\<close>

section \<open>Ranges\<close>

record 'a Range =
  range_begin :: 'a
  range_end :: 'a

definition std_min :: "('a \<Rightarrow> 'a \<Rightarrow> bool) \<Rightarrow> 'a \<Rightarrow> 'a \<Rightarrow> 'a" where
  "std_min lt a b = (if lt b a then b else a)"

definition std_max :: "('a \<Rightarrow> 'a \<Rightarrow> bool) \<Rightarrow> 'a \<Rightarrow> 'a \<Rightarrow> 'a" where
  "std_max lt a b = (if lt a b then b else a)"

definition Range_makeClosed :: "('a \<Rightarrow> 'a) \<Rightarrow> 'a \<Rightarrow> 'a \<Rightarrow> 'a Range" where
  "Range_makeClosed succ f l = \<lparr>range_begin = f, range_end = succ l\<rparr>"

definition Range_single :: "('a \<Rightarrow> 'a) \<Rightarrow> 'a \<Rightarrow> 'a Range" where
  "Range_single succ t = \<lparr>range_begin = t, range_end = succ t\<rparr>"

definition Range_empty :: "'a Range \<Rightarrow> bool" where
  "Range_empty r \<longleftrightarrow> range_begin r = range_end r"

definition Range_contains :: "('a \<Rightarrow> 'a \<Rightarrow> bool) \<Rightarrow> 'a Range \<Rightarrow> 'a \<Rightarrow> bool" where
  "Range_contains lt r x \<longleftrightarrow> \<not> lt x (range_begin r) \<and> lt x (range_end r)"

definition Range_containsRange :: "('a \<Rightarrow> 'a \<Rightarrow> bool) \<Rightarrow> 'a Range \<Rightarrow> 'a Range \<Rightarrow> bool" where
  "Range_containsRange lt r q \<longleftrightarrow>
     \<not> lt (range_begin q) (range_begin r) \<and> \<not> lt (range_end r) (range_end q)"

definition Range_strictContains :: "('a \<Rightarrow> 'a \<Rightarrow> bool) \<Rightarrow> 'a Range \<Rightarrow> 'a Range \<Rightarrow> bool" where
  "Range_strictContains lt r q \<longleftrightarrow>
     lt (range_begin r) (range_begin q) \<and> lt (range_end q) (range_end r)"

definition Range_less :: "('a \<Rightarrow> 'a \<Rightarrow> bool) \<Rightarrow> 'a Range \<Rightarrow> 'a Range \<Rightarrow> bool" where
  "Range_less lt r q \<longleftrightarrow> lt (range_end r) (range_begin q)"

definition Range_touching :: "('a \<Rightarrow> 'a \<Rightarrow> bool) \<Rightarrow> 'a Range \<Rightarrow> 'a Range \<Rightarrow> bool" where
  "Range_touching lt r q \<longleftrightarrow>
     \<not> lt (std_min lt (range_end r) (range_end q))
           (std_max lt (range_begin r) (range_begin q))"

definition Range_merge :: "('a \<Rightarrow> 'a \<Rightarrow> bool) \<Rightarrow> 'a Range \<Rightarrow> 'a Range \<Rightarrow> 'a Range" where
  "Range_merge lt r q =
     \<lparr>range_begin = std_min lt (range_begin r) (range_begin q),
      range_end = std_max lt (range_end r) (range_end q)\<rparr>"

section \<open>Range sets\<close>

type_synonym 'a RangeSet = "'a Range list"

text \<open>
  \<open>std::lower_bound(ranges.begin(), ranges.end(), r)\<close>: the number of leading elements that are
  \<open>operator<\<close> than \<open>r\<close>. The ranges of a set are partitioned by that comparison (they are sorted),
  which is what makes the position that \<open>lower_bound\<close> returns this one.
\<close>

definition lower_bound :: "('a \<Rightarrow> 'a \<Rightarrow> bool) \<Rightarrow> 'a RangeSet \<Rightarrow> 'a Range \<Rightarrow> nat" where
  "lower_bound lt rs r = length (takeWhile (\<lambda>i. Range_less lt i r) rs)"

definition RangeSet_contains ::
  "('a \<Rightarrow> 'a \<Rightarrow> bool) \<Rightarrow> ('a \<Rightarrow> 'a) \<Rightarrow> 'a RangeSet \<Rightarrow> 'a \<Rightarrow> bool" where
  "RangeSet_contains lt succ rs t =
     (case drop (lower_bound lt rs (Range_single succ t)) rs of
        [] \<Rightarrow> False
      | i # _ \<Rightarrow> Range_contains lt i t)"

definition RangeSet_containsRange ::
  "('a \<Rightarrow> 'a \<Rightarrow> bool) \<Rightarrow> 'a RangeSet \<Rightarrow> 'a Range \<Rightarrow> bool" where
  "RangeSet_containsRange lt rs r =
     (case drop (lower_bound lt rs r) rs of
        [] \<Rightarrow> False
      | i # _ \<Rightarrow> Range_containsRange lt i r)"

text \<open>The loop of \<open>addRange\<close>: merge the following ranges into \<open>i\<close> while they touch it.\<close>

fun addRange_absorb ::
  "('a \<Rightarrow> 'a \<Rightarrow> bool) \<Rightarrow> 'a Range \<Rightarrow> 'a RangeSet \<Rightarrow> 'a RangeSet" where
  "addRange_absorb lt i [] = [i]"
| "addRange_absorb lt i (j # js) =
     (if Range_touching lt i j then addRange_absorb lt (Range_merge lt i j) js
      else i # j # js)"

definition addRange :: "('a \<Rightarrow> 'a \<Rightarrow> bool) \<Rightarrow> 'a RangeSet \<Rightarrow> 'a Range \<Rightarrow> 'a RangeSet" where
  "addRange lt rs r =
     (if Range_empty r then rs
      else let n = lower_bound lt rs r in
        case drop n rs of
          [] \<Rightarrow> take n rs @ [r]
        | i # js \<Rightarrow>
            if \<not> Range_touching lt i r then take n rs @ r # i # js
            else take n rs @ addRange_absorb lt (Range_merge lt i r) js)"

definition addSet :: "('a \<Rightarrow> 'a \<Rightarrow> bool) \<Rightarrow> 'a RangeSet \<Rightarrow> 'a RangeSet \<Rightarrow> 'a RangeSet" where
  "addSet lt rs s = foldl (addRange lt) rs s"

text \<open>The last part of \<open>removeRange\<close>: erase the ranges inside \<open>r\<close>, truncate the one after.\<close>

fun removeRange_erase ::
  "('a \<Rightarrow> 'a \<Rightarrow> bool) \<Rightarrow> 'a Range \<Rightarrow> 'a RangeSet \<Rightarrow> 'a RangeSet" where
  "removeRange_erase lt r [] = []"
| "removeRange_erase lt r (j # js) =
     (if Range_containsRange lt r j then removeRange_erase lt r js
      else if lt (range_begin j) (range_end r)
      then j\<lparr>range_begin := range_end r\<rparr> # js
      else j # js)"

text \<open>\<open>removeRange\<close> from the position \<open>i\<close> that \<open>lower_bound\<close> returned on.\<close>

fun removeRange_at ::
  "('a \<Rightarrow> 'a \<Rightarrow> bool) \<Rightarrow> 'a Range \<Rightarrow> 'a RangeSet \<Rightarrow> 'a RangeSet" where
  "removeRange_at lt r [] = []"
| "removeRange_at lt r (i # js) =
     (if \<not> lt (range_begin i) (range_end r) then i # js
      else if i = r then js
      else if Range_strictContains lt i r
      then \<lparr>range_begin = range_begin i, range_end = range_begin r\<rparr>
             # \<lparr>range_begin = range_end r, range_end = range_end i\<rparr> # js
      else if lt (range_begin i) (range_begin r)
      then i\<lparr>range_end := range_begin r\<rparr> # removeRange_erase lt r js
      else removeRange_erase lt r (i # js))"

definition removeRange :: "('a \<Rightarrow> 'a \<Rightarrow> bool) \<Rightarrow> 'a RangeSet \<Rightarrow> 'a Range \<Rightarrow> 'a RangeSet" where
  "removeRange lt rs r =
     (if Range_empty r then rs
      else let n = lower_bound lt rs r in take n rs @ removeRange_at lt r (drop n rs))"

definition removeSet :: "('a \<Rightarrow> 'a \<Rightarrow> bool) \<Rightarrow> 'a RangeSet \<Rightarrow> 'a RangeSet \<Rightarrow> 'a RangeSet" where
  "removeSet lt rs s = foldl (removeRange lt) rs s"

definition rangeContaining ::
  "('a \<Rightarrow> 'a \<Rightarrow> bool) \<Rightarrow> ('a \<Rightarrow> 'a) \<Rightarrow> 'a RangeSet \<Rightarrow> 'a \<Rightarrow> 'a Range" where
  "rangeContaining lt succ rs t =
     (case drop (lower_bound lt rs (Range_single succ t)) rs of
        [] \<Rightarrow> \<lparr>range_begin = t, range_end = t\<rparr>
      | i # _ \<Rightarrow> if Range_contains lt i t then i else \<lparr>range_begin = t, range_end = t\<rparr>)"

text \<open>
  \<open>front\<close> is the first element; \<open>back\<close> is the end of the last range, one past the last element.
  Both read an element of the vector of ranges, which must not be empty.
\<close>

definition RangeSet_front :: "'a RangeSet \<Rightarrow> 'a option" where
  "RangeSet_front rs = (case rs of [] \<Rightarrow> None | r # _ \<Rightarrow> Some (range_begin r))"

definition RangeSet_back :: "'a RangeSet \<Rightarrow> 'a option" where
  "RangeSet_back rs = (if rs = [] then None else Some (range_end (last rs)))"

text \<open>
  Iteration over the elements. An iterator is the rest of the ranges, starting with the current
  one, and a value; \<open>None\<close> is the \<open>end()\<close> iterator.
\<close>

type_synonym 'a iterator = "('a RangeSet \<times> 'a) option"

definition RangeSet_iterator_begin :: "'a RangeSet \<Rightarrow> 'a iterator" where
  "RangeSet_iterator_begin rs =
     (case rs of [] \<Rightarrow> None | r # _ \<Rightarrow> Some (rs, range_begin r))"

fun iterator_increment :: "('a \<Rightarrow> 'a \<Rightarrow> bool) \<Rightarrow> ('a \<Rightarrow> 'a) \<Rightarrow> 'a iterator \<Rightarrow> 'a iterator" where
  "iterator_increment lt succ None = None"
| "iterator_increment lt succ (Some ([], v)) = None"
| "iterator_increment lt succ (Some (r # rs, v)) =
     (if Range_contains lt r (succ v) then Some (r # rs, succ v)
      else case rs of [] \<Rightarrow> None | q # _ \<Rightarrow> Some (rs, range_begin q))"

text \<open>The first \<open>n\<close> steps of a loop over an iterator: the values it visits and where it ends.\<close>

fun iterator_values ::
  "('a \<Rightarrow> 'a \<Rightarrow> bool) \<Rightarrow> ('a \<Rightarrow> 'a) \<Rightarrow> nat \<Rightarrow> 'a iterator \<Rightarrow> 'a list \<times> 'a iterator" where
  "iterator_values lt succ 0 it = ([], it)"
| "iterator_values lt succ (Suc n) None = ([], None)"
| "iterator_values lt succ (Suc n) (Some (rs, v)) =
     (case iterator_values lt succ n (iterator_increment lt succ (Some (rs, v))) of
        (vs, it) \<Rightarrow> (v # vs, it))"

text \<open>
  The number of elements, for sequence numbers. \<open>Range::size\<close> is the 32-bit difference converted
  to \<open>size_t\<close>; \<open>std::accumulate\<close> starts from the \<open>int\<close> literal \<open>0\<close>, so every sum is stored back
  into a 32-bit \<open>int\<close>, and the last one is converted to \<open>size_t\<close>.
\<close>

definition Range_size :: "SequenceNumber Range \<Rightarrow> 64 word" where
  "Range_size r = word_of_int (SequenceNumber_minus (range_end r) (range_begin r))"

definition RangeSet_size :: "SequenceNumber RangeSet \<Rightarrow> 64 word" where
  "RangeSet_size rs =
     word_of_int (sint (foldl (\<lambda>s r. ucast (word_of_int (sint s) + Range_size r) :: 32 word) 0 rs))"

definition RangeSet_span :: "SequenceNumber RangeSet \<Rightarrow> 32 word" where
  "RangeSet_span rs =
     (if rs = [] then 0
      else word_of_int (SequenceNumber_minus (SequenceNumber_decr (range_end (last rs)))
             (range_begin (hd rs))))"

section \<open>Well-formed range sets\<close>

text \<open>
  The ranges are not empty, sorted, and no two of them touch. \<open>elements\<close> is the set that the
  ranges denote inside a domain.
\<close>

definition RangeSet_inv :: "('a \<Rightarrow> 'a \<Rightarrow> bool) \<Rightarrow> 'a RangeSet \<Rightarrow> bool" where
  "RangeSet_inv lt rs \<longleftrightarrow>
     (\<forall>r \<in> set rs. lt (range_begin r) (range_end r)) \<and>
     sorted_wrt (Range_less lt) rs"

definition Range_in :: "('a \<Rightarrow> bool) \<Rightarrow> 'a Range \<Rightarrow> bool" where
  "Range_in D r \<longleftrightarrow> D (range_begin r) \<and> D (range_end r)"

definition elements :: "('a \<Rightarrow> 'a \<Rightarrow> bool) \<Rightarrow> ('a \<Rightarrow> bool) \<Rightarrow> 'a RangeSet \<Rightarrow> 'a set" where
  "elements lt D rs = {x. D x \<and> (\<exists>r \<in> set rs. Range_contains lt r x)}"

section \<open>Ranges in a window, read through positions\<close>

lemma elements_iff:
  "x \<in> elements lt D rs \<longleftrightarrow> D x \<and> (\<exists>r \<in> set rs. Range_contains lt r x)"
  by (simp add: elements_def)

lemma elements_Nil [simp]: "elements lt D [] = {}"
  by (simp add: elements_def)

lemma elements_append: "elements lt D (rs @ qs) = elements lt D rs \<union> elements lt D qs"
  by (auto simp: elements_def)

lemma elements_Cons: "elements lt D (r # rs) = elements lt D [r] \<union> elements lt D rs"
  by (auto simp: elements_def)

lemma RangeSet_inv_Cons:
  "RangeSet_inv lt (r # rs) \<longleftrightarrow>
     lt (range_begin r) (range_end r) \<and> (\<forall>q \<in> set rs. Range_less lt r q) \<and> RangeSet_inv lt rs"
  by (auto simp: RangeSet_inv_def)

lemma RangeSet_inv_append:
  "RangeSet_inv lt (rs @ qs) \<longleftrightarrow>
     RangeSet_inv lt rs \<and> RangeSet_inv lt qs \<and> (\<forall>r \<in> set rs. \<forall>q \<in> set qs. Range_less lt r q)"
  by (auto simp: RangeSet_inv_def sorted_wrt_append)

lemma RangeSet_inv_Nil [simp]: "RangeSet_inv lt []"
  by (simp add: RangeSet_inv_def)

lemma lower_bound_split:
  "take (lower_bound lt rs r) rs = takeWhile (\<lambda>i. Range_less lt i r) rs"
  "drop (lower_bound lt rs r) rs = dropWhile (\<lambda>i. Range_less lt i r) rs"
  by (simp_all add: lower_bound_def takeWhile_eq_take dropWhile_eq_drop flip: takeWhile_eq_take)

text \<open>
  The two halves that \<open>lower_bound\<close> separates: everything in the first is \<open>operator<\<close> than \<open>r\<close>,
  the head of the second is not.
\<close>

lemma lower_bound_cases:
  obtains pre post where "rs = pre @ post"
    and "take (lower_bound lt rs r) rs = pre" and "drop (lower_bound lt rs r) rs = post"
    and "\<forall>i \<in> set pre. Range_less lt i r"
    and "\<forall>i js. post = i # js \<longrightarrow> \<not> Range_less lt i r"
proof
  show "rs = takeWhile (\<lambda>i. Range_less lt i r) rs @ dropWhile (\<lambda>i. Range_less lt i r) rs"
    by simp
qed (auto simp: lower_bound_split dropWhile_eq_Cons_conv dest: set_takeWhileD)

context serial_window
begin

abbreviation pbegin :: "'a Range \<Rightarrow> nat" where
  "pbegin r \<equiv> pos (range_begin r)"

abbreviation pend :: "'a Range \<Rightarrow> nat" where
  "pend r \<equiv> pos (range_end r)"

lemma std_min_pos [range_simps]:
  "D a \<Longrightarrow> D b \<Longrightarrow> pos (std_min lt a b) = min (pos a) (pos b)"
  "D a \<Longrightarrow> D b \<Longrightarrow> D (std_min lt a b)"
  by (auto simp: std_min_def less_pos)

lemma std_max_pos [range_simps]:
  "D a \<Longrightarrow> D b \<Longrightarrow> pos (std_max lt a b) = max (pos a) (pos b)"
  "D a \<Longrightarrow> D b \<Longrightarrow> D (std_max lt a b)"
  by (auto simp: std_max_def less_pos)

lemma Range_contains_pos [range_simps]:
  "Range_in D r \<Longrightarrow> D x \<Longrightarrow> Range_contains lt r x \<longleftrightarrow> pbegin r \<le> pos x \<and> pos x < pend r"
  by (auto simp: Range_contains_def Range_in_def less_pos)

lemma Range_containsRange_pos [range_simps]:
  "Range_in D r \<Longrightarrow> Range_in D q \<Longrightarrow>
     Range_containsRange lt r q \<longleftrightarrow> pbegin r \<le> pbegin q \<and> pend q \<le> pend r"
  by (auto simp: Range_containsRange_def Range_in_def less_pos)

lemma Range_strictContains_pos [range_simps]:
  "Range_in D r \<Longrightarrow> Range_in D q \<Longrightarrow>
     Range_strictContains lt r q \<longleftrightarrow> pbegin r < pbegin q \<and> pend q < pend r"
  by (auto simp: Range_strictContains_def Range_in_def less_pos)

lemma Range_less_pos [range_simps]:
  "Range_in D r \<Longrightarrow> Range_in D q \<Longrightarrow> Range_less lt r q \<longleftrightarrow> pend r < pbegin q"
  by (auto simp: Range_less_def Range_in_def less_pos)

lemma Range_touching_pos [range_simps]:
  "Range_in D r \<Longrightarrow> Range_in D q \<Longrightarrow>
     Range_touching lt r q \<longleftrightarrow> max (pbegin r) (pbegin q) \<le> min (pend r) (pend q)"
  by (auto simp: Range_touching_def Range_in_def less_pos std_min_pos std_max_pos)

lemma Range_merge_pos [range_simps]:
  assumes "Range_in D r" and "Range_in D q"
  shows "Range_in D (Range_merge lt r q)"
    and "pbegin (Range_merge lt r q) = min (pbegin r) (pbegin q)"
    and "pend (Range_merge lt r q) = max (pend r) (pend q)"
  using assms by (simp_all add: Range_merge_def Range_in_def std_min_pos std_max_pos)

lemma less_range_pos [range_simps]:
  "Range_in D r \<Longrightarrow> Range_in D q \<Longrightarrow> lt (range_begin r) (range_end q) \<longleftrightarrow> pbegin r < pend q"
  "Range_in D r \<Longrightarrow> Range_in D q \<Longrightarrow> lt (range_begin r) (range_begin q) \<longleftrightarrow> pbegin r < pbegin q"
  by (auto simp: Range_in_def less_pos)

text \<open>Membership through positions, and the invariant through positions.\<close>

definition at :: "'a RangeSet \<Rightarrow> nat \<Rightarrow> bool" where
  "at rs p \<longleftrightarrow> (\<exists>r \<in> set rs. pbegin r \<le> p \<and> p < pend r)"

lemma at_simps [simp]:
  "at [] p \<longleftrightarrow> False"
  "at (r # rs) p \<longleftrightarrow> (pbegin r \<le> p \<and> p < pend r) \<or> at rs p"
  "at (rs @ qs) p \<longleftrightarrow> at rs p \<or> at qs p"
  by (auto simp: at_def)

lemma elements_at:
  "\<forall>r \<in> set rs. Range_in D r \<Longrightarrow> x \<in> elements lt D rs \<longleftrightarrow> D x \<and> at rs (pos x)"
  by (auto simp: elements_iff at_def Range_contains_pos)

definition pinv :: "'a RangeSet \<Rightarrow> bool" where
  "pinv rs \<longleftrightarrow> (\<forall>r \<in> set rs. pbegin r < pend r) \<and> sorted_wrt (\<lambda>r q. pend r < pbegin q) rs"

lemma pinv_simps [simp]:
  "pinv []"
  "pinv (r # rs) \<longleftrightarrow> pbegin r < pend r \<and> (\<forall>q \<in> set rs. pend r < pbegin q) \<and> pinv rs"
  "pinv (rs @ qs) \<longleftrightarrow>
     pinv rs \<and> pinv qs \<and> (\<forall>r \<in> set rs. \<forall>q \<in> set qs. pend r < pbegin q)"
  by (auto simp: pinv_def sorted_wrt_append)

lemma RangeSet_inv_pinv:
  "\<forall>r \<in> set rs. Range_in D r \<Longrightarrow> RangeSet_inv lt rs \<longleftrightarrow> pinv rs"
  by (induction rs) (auto simp: RangeSet_inv_Cons range_simps)

lemma pinv_at_less: "pinv (r # rs) \<Longrightarrow> at rs p \<Longrightarrow> pend r < p"
  by (force simp: at_def)

lemma addRange_absorb_correct:
  assumes "Range_in D i" and "\<forall>j \<in> set js. Range_in D j" and "pinv js"
    and "pbegin i < pend i" and "\<forall>j \<in> set js. pbegin i \<le> pbegin j"
  shows "(\<forall>j \<in> set (addRange_absorb lt i js). Range_in D j \<and> pbegin i \<le> pbegin j)
    \<and> pinv (addRange_absorb lt i js)
    \<and> (at (addRange_absorb lt i js) p \<longleftrightarrow> at (i # js) p)"
  using assms
proof (induction js arbitrary: i)
  case Nil
  then show ?case by simp
next
  case (Cons j js)
  show ?case
  proof (cases "Range_touching lt i j")
    case True
    let ?m = "Range_merge lt i j"
    have m: "Range_in D ?m" "pbegin ?m = pbegin i" "pend ?m = max (pend i) (pend j)"
      using Cons.prems by (auto simp: range_simps)
    have "at (?m # js) p \<longleftrightarrow> at (i # j # js) p"
      using True Cons.prems m by (auto simp: range_simps)
    moreover have "\<forall>k \<in> set js. pbegin ?m \<le> pbegin k"
      using Cons.prems m by auto
    ultimately show ?thesis
      using True Cons.IH [of ?m] Cons.prems m by simp
  next
    case False
    then have "pend i < pbegin j"
      using Cons.prems by (auto simp: range_simps)
    with False Cons.prems show ?thesis by auto
  qed
qed

lemma addRange_correct:
  assumes rs: "\<forall>q \<in> set rs. Range_in D q" "pinv rs"
    and r: "Range_in D r" "pbegin r \<le> pend r"
  shows "(\<forall>q \<in> set (addRange lt rs r). Range_in D q) \<and> pinv (addRange lt rs r)
    \<and> (at (addRange lt rs r) p \<longleftrightarrow> at rs p \<or> pbegin r \<le> p \<and> p < pend r)"
proof (cases "Range_empty r")
  case True
  then show ?thesis using rs by (auto simp: addRange_def Range_empty_def)
next
  case False
  then have ne: "pbegin r < pend r"
    using r pos_inj by (auto simp: Range_empty_def Range_in_def le_less)
  obtain pre post where sp: "rs = pre @ post"
    "take (lower_bound lt rs r) rs = pre" "drop (lower_bound lt rs r) rs = post"
    "\<forall>i \<in> set pre. Range_less lt i r" "\<forall>i js. post = i # js \<longrightarrow> \<not> Range_less lt i r"
    by (rule lower_bound_cases [where rs = rs and lt = lt and r = r])
  have pre: "\<forall>i \<in> set pre. pend i < pbegin r"
    using sp rs r by (simp add: range_simps)
  show ?thesis
  proof (cases post)
    case Nil
    with False sp rs r ne pre show ?thesis by (auto simp: addRange_def)
  next
    case (Cons i js)
    have i: "Range_in D i" "pbegin r \<le> pend i" "pbegin i < pend i"
      using Cons sp rs r by (auto simp: range_simps not_less)
    show ?thesis
    proof (cases "Range_touching lt i r")
      case touching: True
      let ?m = "Range_merge lt i r"
      have m: "Range_in D ?m" "pbegin ?m = min (pbegin i) (pbegin r)"
        "pend ?m = max (pend i) (pend r)"
        using i r by (simp_all add: range_simps)
      have ab: "(\<forall>j \<in> set (addRange_absorb lt ?m js). Range_in D j \<and> pbegin ?m \<le> pbegin j)
        \<and> pinv (addRange_absorb lt ?m js)
        \<and> (at (addRange_absorb lt ?m js) p \<longleftrightarrow> at (?m # js) p)"
        by (rule addRange_absorb_correct) (use m i ne Cons sp(1) rs in auto)
      have at_m: "at (?m # js) p \<longleftrightarrow> (pbegin r \<le> p \<and> p < pend r) \<or> at (i # js) p"
        using touching m i r by (auto simp: range_simps)
      have lt_m: "\<forall>q \<in> set pre. pend q < pbegin ?m"
        using m pre Cons sp(1) rs by auto
      have "addRange lt rs r = pre @ addRange_absorb lt ?m js"
        using False sp Cons touching by (simp add: addRange_def Let_def)
      then show ?thesis
        using ab at_m lt_m Cons sp(1) rs by fastforce
    next
      case False': False
      then have "pend r < pbegin i"
        using i r ne by (auto simp: range_simps)
      moreover have "addRange lt rs r = pre @ r # i # js"
        using False False' sp Cons by (simp add: addRange_def Let_def)
      ultimately show ?thesis
        using Cons sp(1) rs r ne pre i by auto
    qed
  qed
qed

text \<open>What removing \<open>r\<close> from the list \<open>js\<close> has to achieve; \<open>k\<close> is the end of the range before.\<close>

definition removed :: "'a Range \<Rightarrow> 'a RangeSet \<Rightarrow> 'a RangeSet \<Rightarrow> bool" where
  "removed r js es \<longleftrightarrow>
     (\<forall>j \<in> set es. Range_in D j) \<and> pinv es
     \<and> (\<forall>p. at es p \<longleftrightarrow> at js p \<and> \<not> (pbegin r \<le> p \<and> p < pend r))
     \<and> (\<forall>k. (\<forall>j \<in> set js. k < pbegin j) \<longrightarrow> (\<forall>j \<in> set es. k < pbegin j))"

lemma pinv_later: "pinv (j # js) \<Longrightarrow> at js p \<Longrightarrow> pend j < p \<and> pbegin j < p"
  by (force simp: at_def)

lemma removeRange_erase_correct:
  assumes "Range_in D r" and "pbegin r < pend r"
    and "\<forall>j \<in> set js. Range_in D j" and "pinv js" and "\<forall>j \<in> set js. pbegin r \<le> pbegin j"
  shows "removed r js (removeRange_erase lt r js)"
  using assms
proof (induction js)
  case Nil
  then show ?case by (simp add: removed_def)
next
  case (Cons j js)
  have later: "\<And>p. at js p \<Longrightarrow> pend j < p"
    using Cons.prems pinv_at_less by blast
  consider (inside) "pend j \<le> pend r" | (cut) "pend r < pend j" "pbegin j < pend r"
    | (beyond) "pend r \<le> pbegin j"
    by linarith
  then show ?case
  proof cases
    case inside
    then have "Range_containsRange lt r j"
      using Cons.prems by (simp add: range_simps)
    then show ?thesis
      using inside Cons.IH Cons.prems by (auto simp: removed_def)
  next
    case cut
    then have "\<not> Range_containsRange lt r j" "lt (range_begin j) (range_end r)"
      using Cons.prems by (simp_all add: range_simps)
    moreover have "Range_in D (j\<lparr>range_begin := range_end r\<rparr>)"
      using Cons.prems by (simp add: Range_in_def)
    ultimately show ?thesis
      using cut Cons.prems by (force simp: removed_def dest: later)
  next
    case beyond
    then have "\<not> Range_containsRange lt r j" "\<not> lt (range_begin j) (range_end r)"
      using Cons.prems by (auto simp: range_simps)
    then show ?thesis
      using beyond Cons.prems by (force simp: removed_def dest: later)
  qed
qed

lemma removeRange_at_correct:
  assumes r: "Range_in D r" "pbegin r < pend r"
    and js: "\<forall>j \<in> set (i # js). Range_in D j" "pinv (i # js)" and i: "pbegin r \<le> pend i"
  shows "removed r (i # js) (removeRange_at lt r (i # js))"
proof -
  have later: "\<And>p. at js p \<Longrightarrow> pend i < p \<and> pbegin i < p"
    using js(2) pinv_later by blast
  consider (out) "pend r \<le> pbegin i"
    | (same) "pbegin i < pend r" "i = r"
    | (split) "pbegin i < pbegin r" "pend r < pend i" "i \<noteq> r"
    | (left) "pbegin i < pend r" "pbegin i < pbegin r" "pend i \<le> pend r" "i \<noteq> r"
    | (right) "pbegin i < pend r" "pbegin r \<le> pbegin i" "i \<noteq> r"
    using r by linarith
  then show ?thesis
  proof cases
    case out
    then show ?thesis using r js by (force simp: removed_def range_simps dest: later)
  next
    case same
    then show ?thesis using r js by (force simp: removed_def range_simps dest: later)
  next
    case split
    have "Range_in D \<lparr>range_begin = range_begin i, range_end = range_begin r\<rparr>"
      "Range_in D \<lparr>range_begin = range_end r, range_end = range_end i\<rparr>"
      using js r by (simp_all add: Range_in_def)
    with split show ?thesis
      using r js by (force simp: removed_def range_simps dest: later)
  next
    case left
    have er: "removed r js (removeRange_erase lt r js)"
      by (rule removeRange_erase_correct) (use r js i in auto)
    moreover have "Range_in D (i\<lparr>range_end := range_begin r\<rparr>)"
      using js r by (simp add: Range_in_def)
    moreover have "\<forall>j \<in> set (removeRange_erase lt r js). pend i < pbegin j"
      using er js by (simp add: removed_def)
    ultimately show ?thesis
      using left r js i by (fastforce simp: removed_def range_simps)
  next
    case right
    then have "removeRange_at lt r (i # js) = removeRange_erase lt r (i # js)"
      using r js by (simp add: range_simps)
    moreover have "removed r (i # js) (removeRange_erase lt r (i # js))"
      by (rule removeRange_erase_correct) (use right r js in auto)
    ultimately show ?thesis by simp
  qed
qed

lemma removeRange_correct:
  assumes rs: "\<forall>q \<in> set rs. Range_in D q" "pinv rs"
    and r: "Range_in D r" "pbegin r \<le> pend r"
  shows "removed r rs (removeRange lt rs r)"
proof (cases "Range_empty r")
  case True
  then show ?thesis using rs by (auto simp: removeRange_def Range_empty_def removed_def)
next
  case False
  then have ne: "pbegin r < pend r"
    using r pos_inj by (auto simp: Range_empty_def Range_in_def le_less)
  obtain pre post where sp: "rs = pre @ post"
    "take (lower_bound lt rs r) rs = pre" "drop (lower_bound lt rs r) rs = post"
    "\<forall>i \<in> set pre. Range_less lt i r" "\<forall>i js. post = i # js \<longrightarrow> \<not> Range_less lt i r"
    by (rule lower_bound_cases [where rs = rs and lt = lt and r = r])
  have pre: "\<forall>i \<in> set pre. pend i < pbegin r"
    using sp rs r by (simp add: range_simps)
  then have at_pre: "\<And>p. at pre p \<Longrightarrow> p < pbegin r"
    by (force simp: at_def)
  have post: "removed r post (removeRange_at lt r post)"
  proof (cases post)
    case Nil
    then show ?thesis by (simp add: removed_def)
  next
    case (Cons i js)
    then show ?thesis
      using removeRange_at_correct [of r i js] rs r ne sp by (auto simp: range_simps not_less)
  qed
  moreover have "removeRange lt rs r = pre @ removeRange_at lt r post"
    using False sp by (simp add: removeRange_def Let_def)
  ultimately show ?thesis
    using rs sp(1) by (fastforce simp: removed_def dest: at_pre)
qed

lemma lower_bound_single:
  assumes rs: "\<forall>q \<in> set rs. Range_in D q" "pinv rs" and t: "D t"
  shows "case drop (lower_bound lt rs (Range_single succ t)) rs of
      [] \<Rightarrow> \<not> at rs (pos t)
    | i # js \<Rightarrow> i \<in> set rs \<and> (at rs (pos t) \<longleftrightarrow> pbegin i \<le> pos t \<and> pos t < pend i)"
proof -
  obtain pre post where sp: "rs = pre @ post"
    "drop (lower_bound lt rs (Range_single succ t)) rs = post"
    "\<forall>i \<in> set pre. Range_less lt i (Range_single succ t)"
    "\<forall>i js. post = i # js \<longrightarrow> \<not> Range_less lt i (Range_single succ t)"
    by (rule lower_bound_cases [where rs = rs and lt = lt and r = "Range_single succ t"])
  have pre: "\<forall>i \<in> set pre. pend i < pos t"
    using sp rs t by (auto simp: Range_less_def Range_single_def less_pos Range_in_def)
  then have "\<not> at pre (pos t)"
    by (force simp: at_def)
  moreover have "pos t \<le> pend i" if "post = i # js" for i js
    using that sp rs t by (auto simp: Range_less_def Range_single_def less_pos Range_in_def)
  ultimately show ?thesis
    using sp(1,2) rs by (force split: list.split dest: pinv_at_less)
qed

lemma RangeSet_contains_correct:
  assumes "\<forall>q \<in> set rs. Range_in D q" "pinv rs" and "D t"
  shows "RangeSet_contains lt succ rs t \<longleftrightarrow> at rs (pos t)"
  using lower_bound_single [OF assms] assms
  by (auto simp: RangeSet_contains_def range_simps split: list.splits)

lemma rangeContaining_correct:
  assumes "\<forall>q \<in> set rs. Range_in D q" "pinv rs" and "D t"
  shows "if at rs (pos t) then rangeContaining lt succ rs t \<in> set rs
        \<and> Range_contains lt (rangeContaining lt succ rs t) t
    else rangeContaining lt succ rs t = \<lparr>range_begin = t, range_end = t\<rparr>"
  using lower_bound_single [OF assms] assms
  by (auto simp: rangeContaining_def range_simps split: list.splits)

lemma addSet_correct:
  assumes "\<forall>q \<in> set rs. Range_in D q" "pinv rs"
    and "\<forall>q \<in> set qs. Range_in D q \<and> pbegin q \<le> pend q"
  shows "(\<forall>q \<in> set (addSet lt rs qs). Range_in D q) \<and> pinv (addSet lt rs qs)
    \<and> (\<forall>p. at (addSet lt rs qs) p \<longleftrightarrow> at rs p \<or> at qs p)"
  using assms
proof (induction qs arbitrary: rs)
  case Nil
  then show ?case by (simp add: addSet_def)
next
  case (Cons q qs)
  have "addSet lt rs (q # qs) = addSet lt (addRange lt rs q) qs"
    by (simp add: addSet_def)
  then show ?case
    using Cons.IH [of "addRange lt rs q"] Cons.prems addRange_correct [of rs q] by auto
qed

lemma removeSet_correct:
  assumes "\<forall>q \<in> set rs. Range_in D q" "pinv rs"
    and "\<forall>q \<in> set qs. Range_in D q \<and> pbegin q \<le> pend q"
  shows "(\<forall>q \<in> set (removeSet lt rs qs). Range_in D q) \<and> pinv (removeSet lt rs qs)
    \<and> (\<forall>p. at (removeSet lt rs qs) p \<longleftrightarrow> at rs p \<and> \<not> at qs p)"
  using assms
proof (induction qs arbitrary: rs)
  case Nil
  then show ?case by (simp add: removeSet_def)
next
  case (Cons q qs)
  have "removeSet lt rs (q # qs) = removeSet lt (removeRange lt rs q) qs"
    by (simp add: removeSet_def)
  then show ?case
    using Cons.IH [of "removeRange lt rs q"] Cons.prems removeRange_correct [of rs q]
    by (auto simp: removed_def)
qed

end

text \<open>A window without gaps: every position below a used one is used, and is reached by \<open>succ\<close>.\<close>

locale dense_window = serial_window +
  assumes pos_onto: "D a \<Longrightarrow> p \<le> pos a \<Longrightarrow> \<exists>x. D x \<and> pos x = p"
    and succ_D: "D a \<Longrightarrow> D b \<Longrightarrow> pos a < pos b \<Longrightarrow> D (succ a)"
begin

lemma at_shape:
  assumes "pinv (r # rs)"
  shows "at (r # rs) (pbegin r)" and "at (r # rs) p \<Longrightarrow> pbegin r \<le> p"
    and "pbegin r \<le> p \<Longrightarrow> p < pend r \<Longrightarrow> at (r # rs) p"
    and "\<not> at (r # rs) (pend r)"
    and "at rs p \<longleftrightarrow> at (r # rs) p \<and> pend r < p"
  using assms by (auto dest: pinv_later [OF assms])

lemma pinv_unique:
  assumes "pinv rs" "pinv qs" "\<forall>r \<in> set rs \<union> set qs. Range_in D r" "\<forall>p. at rs p \<longleftrightarrow> at qs p"
  shows "rs = qs"
  using assms
proof (induction rs arbitrary: qs)
  case Nil
  then show ?case using at_shape(1) by (cases qs) auto
next
  case (Cons r rs)
  then obtain q qs' where qs: "qs = q # qs'"
    using at_shape(1) [of r rs] by (cases qs) auto
  note rq = Cons.prems(1) Cons.prems(2) [unfolded qs]
  have same: "\<And>p. at (r # rs) p \<longleftrightarrow> at (q # qs') p"
    using Cons.prems(4) qs by blast
  have b: "pbegin r = pbegin q"
    using at_shape(1,2) [OF rq(1)] at_shape(1,2) [OF rq(2)] same by (meson order_antisym)
  have "\<not> pend r < pend q"
    using at_shape(3) [OF rq(2), of "pend r"] at_shape(4) [OF rq(1)] same [of "pend r"] b rq(1)
    by auto
  moreover have "\<not> pend q < pend r"
    using at_shape(3) [OF rq(1), of "pend q"] at_shape(4) [OF rq(2)] same [of "pend q"] b rq(2)
    by auto
  ultimately have e: "pend r = pend q" by simp
  have "r = q"
    using b e Cons.prems(3) qs pos_inj by (auto simp: Range_in_def intro!: Range.equality)
  moreover have "at rs p \<longleftrightarrow> at qs' p" for p
    unfolding at_shape(5) [OF rq(1)] at_shape(5) [OF rq(2)] same e by (rule refl)
  then have "rs = qs'"
    using Cons.IH [of qs'] Cons.prems qs by auto
  ultimately show ?case using qs by simp
qed

definition positions :: "'a RangeSet \<Rightarrow> nat list" where
  "positions rs = concat (map (\<lambda>r. [pbegin r ..< pend r]) rs)"

lemma set_positions: "set (positions rs) = {p. at rs p}"
  by (auto simp: positions_def at_def)

lemma sorted_positions: "pinv rs \<Longrightarrow> sorted_wrt (<) (positions rs)"
proof (induction rs)
  case Nil
  then show ?case by (simp add: positions_def)
next
  case (Cons r rs)
  have "positions (r # rs) = [pbegin r ..< pend r] @ positions rs"
    by (simp add: positions_def)
  moreover have "\<forall>p \<in> set (positions rs). pend r < p"
    using pinv_later [OF Cons.prems] by (simp add: set_positions)
  ultimately show ?case
    using Cons by (fastforce simp: sorted_wrt_append)
qed

lemma iterator_values_from:
  assumes "pinv (r # rs)" "\<forall>q \<in> set (r # rs). Range_in D q" "D v"
    and "pbegin r \<le> pos v" "pos v < pend r"
    and "n = (pend r - pos v) + length (positions rs)"
  shows "\<exists>vs. iterator_values lt succ n (Some (r # rs, v)) = (vs, None)
    \<and> map pos vs = [pos v ..< pend r] @ positions rs \<and> list_all D vs"
  using assms
proof (induction n arbitrary: r rs v)
  case 0
  then show ?case by simp
next
  case (Suc n)
  have sv: "D (succ v)" "pos (succ v) = Suc (pos v)"
    using Suc.prems succ_D [of v "range_end r"] succ_pos by (auto simp: Range_in_def)
  have hd: "[pos v ..< pend r] = pos v # [Suc (pos v) ..< pend r]"
    using Suc.prems by (simp add: upt_conv_Cons)
  show ?case
  proof (cases "Suc (pos v) < pend r")
    case True
    then have "iterator_increment lt succ (Some (r # rs, v)) = Some (r # rs, succ v)"
      using Suc.prems sv by (simp add: range_simps)
    moreover have "n = (pend r - pos (succ v)) + length (positions rs)"
      using Suc.prems(6) sv True by simp
    then obtain vs where
      "iterator_values lt succ n (Some (r # rs, succ v)) = (vs, None)"
      "map pos vs = [Suc (pos v) ..< pend r] @ positions rs" "list_all D vs"
      using Suc.IH [of r rs "succ v"] Suc.prems(1-5) sv True by auto
    ultimately show ?thesis
      using Suc.prems(3) hd by simp
  next
    case False
    then have out: "\<not> Range_contains lt r (succ v)" and last: "pend r = Suc (pos v)"
      using Suc.prems sv by (simp_all add: range_simps)
    show ?thesis
    proof (cases rs)
      case Nil
      then show ?thesis
        using out last Suc.prems by (cases n) (simp_all add: positions_def)
    next
      case (Cons q qs)
      have "iterator_increment lt succ (Some (r # rs, v)) = Some (rs, range_begin q)"
        using out Cons by simp
      moreover have "positions rs = [pbegin q ..< pend q] @ positions qs"
        using Cons by (simp add: positions_def)
      ultimately show ?thesis
        using Suc.IH [of q qs "range_begin q"] Suc.prems Cons last
        by (auto simp: Range_in_def split: prod.split)
    qed
  qed
qed

lemma iterator_values_correct:
  assumes "pinv rs" "\<forall>q \<in> set rs. Range_in D q"
  shows "\<exists>vs. iterator_values lt succ (length (positions rs)) (RangeSet_iterator_begin rs) = (vs, None)
    \<and> map pos vs = positions rs \<and> list_all D vs"
proof (cases rs)
  case Nil
  then show ?thesis by (simp add: positions_def RangeSet_iterator_begin_def)
next
  case (Cons r rs')
  then have "positions rs = [pbegin r ..< pend r] @ positions rs'"
    by (simp add: positions_def)
  then show ?thesis
    using iterator_values_from [of r rs' "range_begin r" "length (positions rs)"] assms Cons
    by (simp add: RangeSet_iterator_begin_def Range_in_def)
qed

lemma elements_enumerated:
  assumes "pinv rs" "\<forall>q \<in> set rs. Range_in D q" "map pos vs = positions rs" "list_all D vs"
  shows "set vs = elements lt D rs" and "sorted_wrt lt vs" and "distinct vs"
proof -
  have "x \<in> set vs \<longleftrightarrow> D x \<and> at rs (pos x)" for x
  proof
    assume "x \<in> set vs"
    then show "D x \<and> at rs (pos x)"
      using assms(3,4) set_positions [of rs] by (metis in_set_conv_nth length_map list_all_length
          mem_Collect_eq nth_map nth_mem)
  next
    assume x: "D x \<and> at rs (pos x)"
    then have "pos x \<in> pos ` set vs"
      using assms(3) set_positions [of rs] by (metis image_set mem_Collect_eq)
    then show "x \<in> set vs"
      using x assms(4) pos_inj by (auto simp: list_all_iff)
  qed
  then show "set vs = elements lt D rs"
    using elements_at [OF assms(2)] by blast
  have sorted: "sorted_wrt (\<lambda>a b. pos a < pos b) vs"
    using sorted_positions [OF assms(1)] assms(3) by (metis sorted_wrt_map)
  then show "sorted_wrt lt vs"
    using assms(4) by (auto simp: list_all_iff less_pos intro: sorted_wrt_mono_rel [rotated])
  have "distinct (map pos vs)"
    using sorted_positions [OF assms(1)] assms(3) strict_sorted_iff by metis
  then show "distinct vs" by (simp add: distinct_map)
qed

end

section \<open>Sets of sequence numbers\<close>

abbreviation seq_elements :: "SequenceNumber \<Rightarrow> SequenceNumber RangeSet \<Rightarrow> SequenceNumber set" where
  "seq_elements base \<equiv> elements SequenceNumber_less (in_window base)"

text \<open>A well-formed set of sequence numbers whose range bounds lie in the window at \<open>base\<close>.\<close>

definition seq_set_wf :: "SequenceNumber \<Rightarrow> SequenceNumber RangeSet \<Rightarrow> bool" where
  "seq_set_wf base rs \<longleftrightarrow>
     RangeSet_inv SequenceNumber_less rs \<and> (\<forall>r \<in> set rs. Range_in (in_window base) r)"

lemma in_window_onto:
  assumes "in_window base a" and "p \<le> window_pos base a"
  shows "\<exists>x. in_window base x \<and> window_pos base x = p"
proof -
  have "p < 2 ^ 31"
    using assms by (simp add: in_window_def)
  then have "window_pos base (base + of_nat p) = p"
    by (simp add: window_pos_def unat_of_nat)
  with \<open>p < 2 ^ 31\<close> show ?thesis
    by (metis in_window_def)
qed

interpretation seq_dense:
  dense_window SequenceNumber_less SequenceNumber_incr "window_pos base" "in_window base"
  for base
proof unfold_locales
  show "\<exists>x. in_window base x \<and> window_pos base x = p"
    if "in_window base a" "p \<le> window_pos base a" for a p
    using that by (rule in_window_onto)
  show "in_window base (SequenceNumber_incr a)"
    if "in_window base a" "in_window base b" "window_pos base a < window_pos base b" for a b
    using that by (simp add: in_window_def [of _ "SequenceNumber_incr a"] window_pos_incr)
      (simp add: in_window_def)
qed

lemma seq_set_wfD:
  assumes "seq_set_wf base rs"
  shows "\<forall>r \<in> set rs. Range_in (in_window base) r" and "seq_window.pinv base rs"
  using assms seq_window.RangeSet_inv_pinv [of rs base] by (auto simp: seq_set_wf_def)

lemma seq_set_wfI:
  "\<forall>r \<in> set rs. Range_in (in_window base) r \<Longrightarrow> seq_window.pinv base rs \<Longrightarrow> seq_set_wf base rs"
  using seq_window.RangeSet_inv_pinv [of rs base] by (auto simp: seq_set_wf_def)

lemma seq_elements_at:
  "seq_set_wf base rs \<Longrightarrow>
     x \<in> seq_elements base rs \<longleftrightarrow> in_window base x \<and> seq_window.at base rs (window_pos base x)"
  using seq_window.elements_at [of rs base x] by (simp add: seq_set_wf_def)

lemma seq_elements_range:
  "Range_in (in_window base) r \<Longrightarrow>
     x \<in> seq_elements base [r] \<longleftrightarrow> in_window base x \<and>
       window_pos base (range_begin r) \<le> window_pos base x \<and> window_pos base x < window_pos base (range_end r)"
  using seq_window.elements_at [of "[r]" base x] by auto

lemma Range_ordered_pos:
  "Range_in (in_window base) r \<Longrightarrow> \<not> SequenceNumber_less (range_end r) (range_begin r) \<Longrightarrow>
     window_pos base (range_begin r) \<le> window_pos base (range_end r)"
  by (simp add: Range_in_def SequenceNumber_less_window [of base])

text \<open>
  C17. Adding a range to a well-formed set of sequence numbers in a window (\<open>RangeSet::addRange\<close>,
  \<open>operator+=\<close>) keeps the ranges sorted, non-empty and non-touching, and the set becomes the union
  with the range.
\<close>

theorem addRange_union:
  assumes "seq_set_wf base rs" and "Range_in (in_window base) r"
    and "\<not> SequenceNumber_less (range_end r) (range_begin r)"
  shows "seq_set_wf base (addRange SequenceNumber_less rs r)
    \<and> seq_elements base (addRange SequenceNumber_less rs r)
        = seq_elements base rs \<union> seq_elements base [r]"
proof -
  note wf = seq_set_wfD [OF assms(1)] and ord = Range_ordered_pos [OF assms(2,3)]
  note add = seq_window.addRange_correct [OF wf assms(2) ord]
  have "seq_set_wf base (addRange SequenceNumber_less rs r)"
    using add by (intro seq_set_wfI) auto
  moreover from this have "x \<in> seq_elements base (addRange SequenceNumber_less rs r) \<longleftrightarrow>
      x \<in> seq_elements base rs \<union> seq_elements base [r]" for x
    using add assms by (auto simp: seq_elements_at seq_elements_range)
  ultimately show ?thesis by blast
qed

theorem addRange_union_witness:
  "seq_elements 4294967290
     (addRange SequenceNumber_less [\<lparr>range_begin = 4294967291, range_end = 4294967294\<rparr>]
        \<lparr>range_begin = 4294967294, range_end = 2\<rparr>)
   = seq_elements 4294967290 [\<lparr>range_begin = 4294967291, range_end = 4294967294\<rparr>]
     \<union> seq_elements 4294967290 [\<lparr>range_begin = 4294967294, range_end = 2\<rparr>]"
  using addRange_union [of 4294967290 "[\<lparr>range_begin = 4294967291, range_end = 4294967294\<rparr>]"
      "\<lparr>range_begin = 4294967294, range_end = 2\<rparr>"]
  by (simp add: seq_set_wf_def RangeSet_inv_def Range_in_def in_window_def window_pos_def
      SequenceNumber_less_def)

text \<open>
  C18. Removing a range (\<open>RangeSet::removeRange\<close>, \<open>operator-=\<close>), with its four cases of erasing,
  splitting and truncating ranges, keeps the set well formed, and the set becomes the difference.
\<close>

theorem removeRange_difference:
  assumes "seq_set_wf base rs" and "Range_in (in_window base) r"
    and "\<not> SequenceNumber_less (range_end r) (range_begin r)"
  shows "seq_set_wf base (removeRange SequenceNumber_less rs r)
    \<and> seq_elements base (removeRange SequenceNumber_less rs r)
        = seq_elements base rs - seq_elements base [r]"
proof -
  note wf = seq_set_wfD [OF assms(1)] and ord = Range_ordered_pos [OF assms(2,3)]
  note rem = seq_window.removeRange_correct [OF wf assms(2) ord, unfolded seq_window.removed_def]
  have "seq_set_wf base (removeRange SequenceNumber_less rs r)"
    using rem by (intro seq_set_wfI) auto
  moreover from this have "x \<in> seq_elements base (removeRange SequenceNumber_less rs r) \<longleftrightarrow>
      x \<in> seq_elements base rs - seq_elements base [r]" for x
    using rem assms by (auto simp: seq_elements_at seq_elements_range)
  ultimately show ?thesis by blast
qed

theorem removeRange_difference_witness:
  "seq_elements 0
     (removeRange SequenceNumber_less [\<lparr>range_begin = 1, range_end = 9\<rparr>]
        \<lparr>range_begin = 4, range_end = 6\<rparr>)
   = seq_elements 0 [\<lparr>range_begin = 1, range_end = 9\<rparr>]
     - seq_elements 0 [\<lparr>range_begin = 4, range_end = 6\<rparr>]"
  using removeRange_difference [of 0 "[\<lparr>range_begin = 1, range_end = 9\<rparr>]"
      "\<lparr>range_begin = 4, range_end = 6\<rparr>"]
  by (simp add: seq_set_wf_def RangeSet_inv_def Range_in_def in_window_def window_pos_def
      SequenceNumber_less_def)

text \<open>
  A membership test by binary search (\<open>RangeSet::contains\<close>) answers exactly for the elements
  of the set, and \<open>rangeContaining\<close> returns the range of the set that contains the element, or the
  empty range at it.
\<close>

theorem RangeSet_contains_iff:
  assumes "seq_set_wf base rs" and "in_window base t"
  shows "(RangeSet_contains SequenceNumber_less SequenceNumber_incr rs t
        \<longleftrightarrow> t \<in> seq_elements base rs)
    \<and> (let r = rangeContaining SequenceNumber_less SequenceNumber_incr rs t in
        if t \<in> seq_elements base rs then r \<in> set rs \<and> Range_contains SequenceNumber_less r t
        else r = \<lparr>range_begin = t, range_end = t\<rparr>)"
  using seq_window.RangeSet_contains_correct [OF seq_set_wfD [OF assms(1)] assms(2)]
    seq_window.rangeContaining_correct [OF seq_set_wfD [OF assms(1)] assms(2)]
    seq_elements_at [OF assms(1)] assms(2)
  by (simp add: Let_def)

theorem RangeSet_contains_iff_witness:
  "RangeSet_contains SequenceNumber_less SequenceNumber_incr
     [\<lparr>range_begin = 1, range_end = 3\<rparr>, \<lparr>range_begin = 5, range_end = 9\<rparr>] 7
   \<longleftrightarrow> 7 \<in> seq_elements 0 [\<lparr>range_begin = 1, range_end = 3\<rparr>, \<lparr>range_begin = 5, range_end = 9\<rparr>]"
  using RangeSet_contains_iff [of 0
      "[\<lparr>range_begin = 1, range_end = 3\<rparr>, \<lparr>range_begin = 5, range_end = 9\<rparr>]" 7]
  by (simp add: seq_set_wf_def RangeSet_inv_def Range_in_def Range_less_def in_window_def
      window_pos_def SequenceNumber_less_def)

text \<open>
  The representation is canonical: two well-formed range sets in the same window with the same
  elements have the same ranges, so comparing the ranges (\<open>RangeSet::operator==\<close>) compares the sets.
\<close>

theorem RangeSet_canonical:
  assumes "seq_set_wf base rs" and "seq_set_wf base qs"
  shows "rs = qs \<longleftrightarrow> seq_elements base rs = seq_elements base qs"
proof
  assume eq: "seq_elements base rs = seq_elements base qs"
  note r = seq_set_wfD [OF assms(1)] and q = seq_set_wfD [OF assms(2)]
  have "seq_window.at base rs p \<longleftrightarrow> seq_window.at base qs p" for p
  proof (cases "p < 2 ^ 31")
    case True
    then obtain x where "in_window base x" "window_pos base x = p"
      using in_window_onto [of base "base + of_nat p" p]
      by (auto simp: in_window_def window_pos_def unat_of_nat)
    then show ?thesis
      using eq seq_elements_at [OF assms(1), of x] seq_elements_at [OF assms(2), of x] by auto
  next
    case False
    then show ?thesis
      using r(1) q(1) by (force simp: seq_window.at_def Range_in_def in_window_def)
  qed
  then show "rs = qs"
    using seq_dense.pinv_unique [OF r(2) q(2)] r(1) q(1) by blast
qed simp

theorem RangeSet_canonical_witness:
  "[\<lparr>range_begin = 1, range_end = 3\<rparr>] \<noteq> [\<lparr>range_begin = 1, range_end = (2 :: SequenceNumber)\<rparr>]
   \<and> seq_elements 0 [\<lparr>range_begin = 1, range_end = 3\<rparr>] \<noteq> seq_elements 0 [\<lparr>range_begin = 1, range_end = 2\<rparr>]"
  using RangeSet_canonical [of 0 "[\<lparr>range_begin = 1, range_end = 3\<rparr>]" "[\<lparr>range_begin = 1, range_end = 2\<rparr>]"]
  by (simp add: seq_set_wf_def RangeSet_inv_def Range_in_def in_window_def window_pos_def
      SequenceNumber_less_def)

lemma RangeSet_iterates:
  assumes "seq_set_wf base rs"
  shows "\<exists>vs. iterator_values SequenceNumber_less SequenceNumber_incr
          (card (seq_elements base rs)) (RangeSet_iterator_begin rs) = (vs, None)
      \<and> set vs = seq_elements base rs \<and> distinct vs \<and> sorted_wrt SequenceNumber_less vs"
proof -
  note wf = seq_set_wfD [OF assms]
  obtain vs where vs: "iterator_values SequenceNumber_less SequenceNumber_incr
        (length (seq_dense.positions base rs)) (RangeSet_iterator_begin rs) = (vs, None)"
      "map (window_pos base) vs = seq_dense.positions base rs" "list_all (in_window base) vs"
    using seq_dense.iterator_values_correct [OF wf(2,1)] by blast
  note el = seq_dense.elements_enumerated [OF wf(2,1) vs(2,3)]
  have "length (seq_dense.positions base rs) = card (seq_elements base rs)"
    using el vs(2) by (metis distinct_card length_map)
  then show ?thesis
    using vs(1) el by metis
qed

text \<open>
  Iteration terminates and is complete: stepping an iterator from \<open>begin()\<close> reaches \<open>end()\<close> after
  as many steps as the set has elements, and the values visited are exactly the elements, in
  increasing order and without repetition.
\<close>

theorem RangeSet_iteration:
  assumes "seq_set_wf base rs"
  shows "\<exists>vs. iterator_values SequenceNumber_less SequenceNumber_incr
          (card (seq_elements base rs)) (RangeSet_iterator_begin rs) = (vs, None)
      \<and> set vs = seq_elements base rs \<and> distinct vs \<and> sorted_wrt SequenceNumber_less vs"
  using assms by (rule RangeSet_iterates)

theorem RangeSet_iteration_witness:
  "\<exists>vs. set vs = seq_elements 0 [\<lparr>range_begin = 1, range_end = 3\<rparr>]
     \<and> sorted_wrt SequenceNumber_less vs"
  using RangeSet_iteration [of 0 "[\<lparr>range_begin = 1, range_end = 3\<rparr>]"]
  by (auto simp: seq_set_wf_def RangeSet_inv_def Range_in_def in_window_def window_pos_def
      SequenceNumber_less_def)

section \<open>The size of a set\<close>

lemma Range_size_window:
  assumes "Range_in (in_window base) r"
    and "window_pos base (range_begin r) < window_pos base (range_end r)"
  shows "Range_size r = of_nat (window_pos base (range_end r) - window_pos base (range_begin r))"
proof -
  let ?b = "window_pos base (range_begin r)" and ?e = "window_pos base (range_end r)"
  have small: "?e < 2 ^ 31"
    using assms by (simp add: Range_in_def in_window_def)
  have "int (unat (range_end r - range_begin r)) = (int ?e - int ?b) mod 2 ^ 32"
    by (rule unat_diff_window)
  also have "\<dots> = int (?e - ?b)"
    using assms(2) small by (simp add: of_nat_diff)
  finally have u: "unat (range_end r - range_begin r) = ?e - ?b"
    by (simp only: of_nat_eq_iff)
  then have "sint (range_end r - range_begin r) = int (?e - ?b)"
    using sint_eq_unat_small [of "range_end r - range_begin r"] small by simp
  then show ?thesis
    by (simp add: Range_size_def SequenceNumber_minus_def)
qed

lemma ucast_of_nat_small: "n < 2 ^ 31 \<Longrightarrow> ucast (of_nat n :: 64 word) = (of_nat n :: 32 word)"
  by (simp add: unsigned_of_nat take_bit_nat_eq_self)

text \<open>One step of \<open>std::accumulate\<close>: no 32-bit overflow while the sum stays below \<open>2 ^ 31\<close>.\<close>

lemma accumulate_step:
  fixes s :: "32 word"
  assumes "unat s + d < 2 ^ 31"
  shows "unat (ucast (word_of_int (sint s) + of_nat d :: 64 word) :: 32 word) = unat s + d"
proof -
  have "(word_of_int (sint s) + of_nat d :: 64 word) = of_nat (unat s + d)"
    using sint_eq_unat_small [of s] assms by simp
  then have "ucast (word_of_int (sint s) + of_nat d :: 64 word) = (of_nat (unat s + d) :: 32 word)"
    using assms by (simp only: ucast_of_nat_small)
  then show ?thesis
    using assms by (simp only: unat_of_nat) simp
qed

lemma accumulate_size:
  assumes "\<forall>r \<in> set rs. Range_in (in_window base) r" "seq_window.pinv base rs"
    and "unat s + length (seq_dense.positions base rs) < 2 ^ 31"
  shows "unat (foldl (\<lambda>s r. ucast (word_of_int (sint s) + Range_size r) :: 32 word) s rs)
    = unat s + length (seq_dense.positions base rs)"
  using assms
proof (induction rs arbitrary: s)
  case Nil
  then show ?case by (simp add: seq_dense.positions_def)
next
  case (Cons r rs)
  let ?d = "window_pos base (range_end r) - window_pos base (range_begin r)"
  let ?s = "ucast (word_of_int (sint s) + Range_size r) :: 32 word"
  have len: "length (seq_dense.positions base (r # rs)) = ?d + length (seq_dense.positions base rs)"
    by (simp add: seq_dense.positions_def)
  have "unat ?s = unat s + ?d"
    using accumulate_step [of s ?d] Range_size_window [of base r] Cons.prems len by simp
  then show ?case
    using Cons.IH [of ?s] Cons.prems len by simp
qed

lemma length_positions_bound:
  assumes "seq_set_wf base rs"
  shows "length (seq_dense.positions base rs) < 2 ^ 31"
proof -
  note wf = seq_set_wfD [OF assms]
  have "set (seq_dense.positions base rs) \<subseteq> {..< 2 ^ 31 - 1}"
    using wf(1) by (fastforce simp: seq_dense.set_positions seq_window.at_def Range_in_def in_window_def)
  then have "card (set (seq_dense.positions base rs)) \<le> 2 ^ 31 - 1"
    by (metis card_lessThan card_mono finite_lessThan)
  moreover have "distinct (seq_dense.positions base rs)"
    using seq_dense.sorted_positions [OF wf(2)] strict_sorted_iff by blast
  ultimately show ?thesis by (simp add: distinct_card)
qed

text \<open>
  \<open>RangeSet::size\<close> returns the number of elements: although the sum runs through a 32-bit \<open>int\<close>,
  no window of sequence numbers is large enough to overflow it.
\<close>

theorem RangeSet_size_card:
  assumes "seq_set_wf base rs"
  shows "unat (RangeSet_size rs) = card (seq_elements base rs)"
proof -
  note wf = seq_set_wfD [OF assms] and bound = length_positions_bound [OF assms]
  let ?n = "length (seq_dense.positions base rs)"
  let ?f = "foldl (\<lambda>s r. ucast (word_of_int (sint s) + Range_size r) :: 32 word) 0 rs"
  have u: "unat ?f = ?n"
    using accumulate_size [OF wf, of 0] bound by simp
  then have "RangeSet_size rs = of_nat ?n"
    using sint_eq_unat_small [of ?f] bound by (simp add: RangeSet_size_def)
  then have "unat (RangeSet_size rs) = ?n"
    using bound by (simp only: unat_of_nat) simp
  also have "?n = card (seq_elements base rs)"
    using seq_dense.iterator_values_correct [OF wf(2,1)] seq_dense.elements_enumerated [OF wf(2,1)]
    by (metis distinct_card length_map)
  finally show ?thesis .
qed

theorem RangeSet_size_card_witness:
  "card (seq_elements 4294967290 [\<lparr>range_begin = 4294967294, range_end = 2\<rparr>]) = 4"
  using RangeSet_size_card [of 4294967290 "[\<lparr>range_begin = 4294967294, range_end = 2\<rparr>]"]
  by (simp add: seq_set_wf_def RangeSet_inv_def Range_in_def in_window_def window_pos_def
      SequenceNumber_less_def RangeSet_size_def Range_size_def SequenceNumber_minus_def)

end
