(* ===== verification/Wire_Buffer.thy ===== *)
theory Wire_Buffer
  imports Prelude
begin

unbundle bit_operations_syntax

text \<open>
  The byte buffer that every AMQP 0-10 value is encoded into and decoded from:
  \<open>qpid::framing::Buffer\<close> (\<open>src/qpid/framing/Buffer.h\<close>, \<open>Buffer.cpp\<close>). A method that throws
  \<open>OutOfBounds\<close> or \<open>qpid::Exception\<close> returns \<open>Inl\<close>. The locale \<open>wire_codec\<close> is the contract between a
  pair of put and get operations and the code that uses them; it is interpreted on every pair of
  the class.
\<close>

section \<open>The buffer\<close>

type_synonym byte = "8 word"

record Buffer =
  buf_size :: "32 word"
  buf_data :: "byte list"
  buf_position :: "32 word"

definition Buffer_init :: "byte list \<Rightarrow> 32 word \<Rightarrow> Buffer" where
  "Buffer_init d n = \<lparr>buf_size = n, buf_data = d, buf_position = 0\<rparr>"

definition Buffer_reset :: "Buffer \<Rightarrow> Buffer" where
  "Buffer_reset b = b\<lparr>buf_position := 0\<rparr>"

definition available :: "Buffer \<Rightarrow> nat" where
  "available b = unat (buf_size b - buf_position b)"

definition setPosition :: "Buffer \<Rightarrow> 32 word \<Rightarrow> Buffer" where
  "setPosition b p = b\<lparr>buf_position := p\<rparr>"

definition checkAvailable :: "Buffer \<Rightarrow> nat \<Rightarrow> 'a result \<Rightarrow> 'a result" where
  "checkAvailable b count k = throw_if (available b < count) OutOfBounds k"

text \<open>\<open>data[position++] = i\<close> and \<open>data[position++]\<close>.\<close>

definition put_byte :: "Buffer \<Rightarrow> byte \<Rightarrow> Buffer" where
  "put_byte b i =
     b\<lparr>buf_data := (buf_data b)[unat (buf_position b) := i], buf_position := buf_position b + 1\<rparr>"

definition next_byte :: "Buffer \<Rightarrow> byte" where
  "next_byte b = buf_data b ! unat (buf_position b)"

definition skip_byte :: "Buffer \<Rightarrow> Buffer" where
  "skip_byte b = b\<lparr>buf_position := buf_position b + 1\<rparr>"

text \<open>\<open>memcpy(data + position, s, len); position += len\<close> and the reverse.\<close>

definition put_bytes :: "Buffer \<Rightarrow> byte list \<Rightarrow> Buffer" where
  "put_bytes b s =
     b\<lparr>buf_data := take (unat (buf_position b)) (buf_data b) @ s
          @ drop (unat (buf_position b) + length s) (buf_data b),
       buf_position := buf_position b + of_nat (length s)\<rparr>"

definition get_bytes :: "Buffer \<Rightarrow> nat \<Rightarrow> byte list \<times> Buffer" where
  "get_bytes b len =
     (take len (drop (unat (buf_position b)) (buf_data b)),
      b\<lparr>buf_position := buf_position b + of_nat len\<rparr>)"

section \<open>Unsigned integers\<close>

definition putOctet :: "Buffer \<Rightarrow> 8 word \<Rightarrow> Buffer result" where
  "putOctet b i = checkAvailable b 1 (Inr (put_byte b i))"

definition putShort :: "Buffer \<Rightarrow> 16 word \<Rightarrow> Buffer result" where
  "putShort b i = checkAvailable b 2
     (Inr (put_byte (put_byte b (ucast (0xFF AND drop_bit 8 i))) (ucast (0xFF AND i))))"

definition putLong :: "Buffer \<Rightarrow> 32 word \<Rightarrow> Buffer result" where
  "putLong b i = checkAvailable b 4
     (Inr (put_byte (put_byte (put_byte (put_byte b
        (ucast (0xFF AND drop_bit 24 i))) (ucast (0xFF AND drop_bit 16 i)))
        (ucast (0xFF AND drop_bit 8 i))) (ucast (0xFF AND i))))"

definition putLongLong :: "Buffer \<Rightarrow> 64 word \<Rightarrow> Buffer result" where
  "putLongLong b i = res_bind (putLong b (ucast (drop_bit 32 i))) (\<lambda>b. putLong b (ucast i))"

definition getOctet :: "Buffer \<Rightarrow> (8 word \<times> Buffer) result" where
  "getOctet b = checkAvailable b 1 (Inr (next_byte b, skip_byte b))"

definition getShort :: "Buffer \<Rightarrow> (16 word \<times> Buffer) result" where
  "getShort b = checkAvailable b 2
     (let hi = ucast (next_byte b) :: 16 word; b = skip_byte b;
          lo = ucast (next_byte b) :: 16 word; b = skip_byte b
      in Inr (push_bit 8 hi OR lo, b))"

definition getLong :: "Buffer \<Rightarrow> (32 word \<times> Buffer) result" where
  "getLong b = checkAvailable b 4
     (let x = ucast (next_byte b) :: 32 word; b = skip_byte b;
          y = ucast (next_byte b) :: 32 word; b = skip_byte b;
          z = ucast (next_byte b) :: 32 word; b = skip_byte b;
          w = ucast (next_byte b) :: 32 word; b = skip_byte b
      in Inr (push_bit 24 x OR push_bit 16 y OR push_bit 8 z OR w, b))"

definition getLongLong :: "Buffer \<Rightarrow> (64 word \<times> Buffer) result" where
  "getLongLong b =
     res_bind (getLong b) (\<lambda>(hi, b). res_bind (getLong b) (\<lambda>(lo, b).
       Inr (push_bit 32 (ucast hi) OR ucast lo, b)))"

section \<open>Signed integers and floating point numbers\<close>

text \<open>
  A signed argument is cast to the unsigned type of its width; a signed result is read back as two's
  complement. A \<open>float\<close> or \<open>double\<close> passes through a union with the integer of its width, so it is
  represented here by its bits.
\<close>

definition putInt8 :: "Buffer \<Rightarrow> int \<Rightarrow> Buffer result" where
  "putInt8 b i = checkAvailable b 1 (Inr (put_byte b (word_of_int i)))"

definition putInt16 :: "Buffer \<Rightarrow> int \<Rightarrow> Buffer result" where
  "putInt16 b i = putShort b (word_of_int i)"

definition putInt32 :: "Buffer \<Rightarrow> int \<Rightarrow> Buffer result" where
  "putInt32 b i = putLong b (word_of_int i)"

definition putInt64 :: "Buffer \<Rightarrow> int \<Rightarrow> Buffer result" where
  "putInt64 b i = putLongLong b (word_of_int i)"

definition putFloat :: "Buffer \<Rightarrow> 32 word \<Rightarrow> Buffer result" where
  "putFloat b f = putLong b f"

definition putDouble :: "Buffer \<Rightarrow> 64 word \<Rightarrow> Buffer result" where
  "putDouble b f = putLongLong b f"

definition getInt8 :: "Buffer \<Rightarrow> (int \<times> Buffer) result" where
  "getInt8 b = checkAvailable b 1 (Inr (sint (next_byte b), skip_byte b))"

definition getInt16 :: "Buffer \<Rightarrow> (int \<times> Buffer) result" where
  "getInt16 b = res_bind (getShort b) (\<lambda>(v, b). Inr (sint v, b))"

definition getInt32 :: "Buffer \<Rightarrow> (int \<times> Buffer) result" where
  "getInt32 b = res_bind (getLong b) (\<lambda>(v, b). Inr (sint v, b))"

definition getInt64 :: "Buffer \<Rightarrow> (int \<times> Buffer) result" where
  "getInt64 b = res_bind (getLongLong b) (\<lambda>(v, b). Inr (sint v, b))"

definition getFloat :: "Buffer \<Rightarrow> (32 word \<times> Buffer) result" where
  "getFloat b = getLong b"

definition getDouble :: "Buffer \<Rightarrow> (64 word \<times> Buffer) result" where
  "getDouble b = getLongLong b"

section \<open>Raw data, 16-byte values and strings\<close>

definition putRawData :: "Buffer \<Rightarrow> byte list \<Rightarrow> Buffer result" where
  "putRawData b s = checkAvailable b (length s) (Inr (put_bytes b s))"

definition getRawData :: "Buffer \<Rightarrow> nat \<Rightarrow> (byte list \<times> Buffer) result" where
  "getRawData b len = checkAvailable b len (Inr (get_bytes b len))"

definition putBin128 :: "Buffer \<Rightarrow> byte list \<Rightarrow> Buffer result" where
  "putBin128 b s = checkAvailable b 16 (Inr (put_bytes b (take 16 s)))"

definition getBin128 :: "Buffer \<Rightarrow> (byte list \<times> Buffer) result" where
  "getBin128 b = checkAvailable b 16 (Inr (get_bytes b 16))"

definition putShortString :: "Buffer \<Rightarrow> byte list \<Rightarrow> Buffer result" where
  "putShortString b s =
     (if length s \<le> 255
      then res_bind (putOctet b (of_nat (length s)))
             (\<lambda>b. checkAvailable b (length s) (Inr (put_bytes b s)))
      else Inl GeneralException)"

definition putMediumString :: "Buffer \<Rightarrow> byte list \<Rightarrow> Buffer result" where
  "putMediumString b s =
     (if length s \<le> 65535
      then res_bind (putShort b (of_nat (length s)))
             (\<lambda>b. checkAvailable b (length s) (Inr (put_bytes b s)))
      else Inl GeneralException)"

definition putLongString :: "Buffer \<Rightarrow> byte list \<Rightarrow> Buffer result" where
  "putLongString b s =
     (if length s \<le> 4294967295
      then res_bind (putLong b (of_nat (length s)))
             (\<lambda>b. checkAvailable b (length s) (Inr (put_bytes b s)))
      else Inl GeneralException)"

definition getShortString :: "Buffer \<Rightarrow> (byte list \<times> Buffer) result" where
  "getShortString b =
     res_bind (getOctet b) (\<lambda>(len, b). checkAvailable b (unat len) (Inr (get_bytes b (unat len))))"

definition getMediumString :: "Buffer \<Rightarrow> (byte list \<times> Buffer) result" where
  "getMediumString b =
     res_bind (getShort b) (\<lambda>(len, b). checkAvailable b (unat len) (Inr (get_bytes b (unat len))))"

definition getLongString :: "Buffer \<Rightarrow> (byte list \<times> Buffer) result" where
  "getLongString b =
     res_bind (getLong b) (\<lambda>(len, b). checkAvailable b (unat len) (Inr (get_bytes b (unat len))))"

text \<open>The templates \<open>putUInt<n>\<close> and \<open>getUInt<n>\<close>, for the widths 1, 2, 4 and 8 that are defined.\<close>

definition putUInt :: "nat \<Rightarrow> Buffer \<Rightarrow> 64 word \<Rightarrow> Buffer result" where
  "putUInt n b i =
     (if n = 1 then (if i \<le> 255 then putOctet b (ucast i) else Inl GeneralException)
      else if n = 2 then (if i \<le> 65535 then putShort b (ucast i) else Inl GeneralException)
      else if n = 4 then (if i \<le> 4294967295 then putLong b (ucast i) else Inl GeneralException)
      else putLongLong b i)"

definition getUInt :: "nat \<Rightarrow> Buffer \<Rightarrow> (64 word \<times> Buffer) result" where
  "getUInt n b =
     (if n = 1 then res_bind (getOctet b) (\<lambda>(v, b). Inr (ucast v, b))
      else if n = 2 then res_bind (getShort b) (\<lambda>(v, b). Inr (ucast v, b))
      else if n = 4 then res_bind (getLong b) (\<lambda>(v, b). Inr (ucast v, b))
      else getLongLong b)"

section \<open>Well-formed buffers, their written part and their rest\<close>

definition buf_wf :: "Buffer \<Rightarrow> bool" where
  "buf_wf b \<longleftrightarrow> buf_position b \<le> buf_size b \<and> unat (buf_size b) \<le> length (buf_data b)"

definition buf_rest :: "Buffer \<Rightarrow> byte list" where
  "buf_rest b = drop (unat (buf_position b)) (take (unat (buf_size b)) (buf_data b))"

definition advance :: "Buffer \<Rightarrow> nat \<Rightarrow> Buffer" where
  "advance b n = b\<lparr>buf_position := buf_position b + of_nat n\<rparr>"

lemma available_nat:
  "buf_wf b \<Longrightarrow> available b = unat (buf_size b) - unat (buf_position b)"
  by (simp add: buf_wf_def available_def unat_sub)

lemma length_buf_rest: "buf_wf b \<Longrightarrow> length (buf_rest b) = available b"
  by (simp add: available_nat buf_rest_def buf_wf_def)

lemma buf_wf_bounds:
  assumes "buf_wf b" and "n \<le> available b"
  shows "unat (buf_position b) + n \<le> unat (buf_size b)"
    and "unat (buf_size b) \<le> length (buf_data b)"
  using assms by (auto simp: buf_wf_def word_le_nat_alt available_nat)

lemma unat_position_plus:
  assumes "buf_wf b" and "n \<le> available b"
  shows "unat (buf_position b + of_nat n) = unat (buf_position b) + n"
proof -
  have "unat (buf_size b) < 2 ^ 32"
    using unsigned_less [of "buf_size b", where 'a = nat] by simp
  then have "unat (buf_position b) + n < 2 ^ 32"
    using buf_wf_bounds [OF assms] by simp
  then show ?thesis
    by (simp add: unat_word_ariths unat_of_nat)
qed

lemma advance_wf [simp]:
  assumes "buf_wf b" and "n \<le> available b"
  shows "buf_wf (advance b n)" and "available (advance b n) = available b - n"
    and "buf_rest (advance b n) = drop n (buf_rest b)"
proof -
  note u = unat_position_plus [OF assms]
  show wf: "buf_wf (advance b n)"
    using buf_wf_bounds [OF assms] u by (simp add: buf_wf_def advance_def word_le_nat_alt)
  show "available (advance b n) = available b - n"
    using available_nat [OF assms(1)] available_nat [OF wf] u by (simp add: advance_def)
  show "buf_rest (advance b n) = drop n (buf_rest b)"
    using u by (simp add: buf_rest_def advance_def add.commute)
qed

lemma advance_0 [simp]: "advance b 0 = b"
  by (simp add: advance_def)

lemma advance_advance [simp]: "advance (advance b m) n = advance b (m + n)"
  by (simp add: advance_def add.assoc)

lemma put_bytes_wf [simp]:
  assumes "buf_wf b" and "length s \<le> available b"
  shows "buf_wf (put_bytes b s)" and "available (put_bytes b s) = available b - length s"
    and "buf_rest (put_bytes b s) = drop (length s) (buf_rest b)"
proof -
  note le = buf_wf_bounds [OF assms]
  note u = unat_position_plus [OF assms]
  show wf: "buf_wf (put_bytes b s)"
    using le u by (simp add: buf_wf_def put_bytes_def word_le_nat_alt)
  show "available (put_bytes b s) = available b - length s"
    using available_nat [OF assms(1)] available_nat [OF wf] u by (simp add: put_bytes_def)
  show "buf_rest (put_bytes b s) = drop (length s) (buf_rest b)"
    using u le by (cases s) (auto simp: buf_rest_def put_bytes_def drop_take ac_simps min_def)
qed

lemma put_bytes_append:
  assumes "buf_wf b" and "length xs + length ys \<le> available b"
  shows "put_bytes (put_bytes b xs) ys = put_bytes b (xs @ ys)"
proof -
  have "unat (buf_position b) + length xs \<le> length (buf_data b)"
    using buf_wf_bounds [OF assms] by simp
  then show ?thesis
    using unat_position_plus [of b "length xs"] assms
    by (cases xs) (auto simp: put_bytes_def min_def ac_simps)
qed

lemma put_byte_conv:
  assumes "buf_wf b" and "1 \<le> available b"
  shows "put_byte b x = put_bytes b [x]"
proof -
  have "unat (buf_position b) < length (buf_data b)"
    using buf_wf_bounds [OF assms] by simp
  then show ?thesis
    by (simp add: put_byte_def put_bytes_def upd_conv_take_nth_drop)
qed

lemma skip_byte_conv: "skip_byte b = advance b 1"
  by (simp add: skip_byte_def advance_def)

lemma next_byte_conv: "buf_wf b \<Longrightarrow> buf_rest b = x # xs \<Longrightarrow> next_byte b = x"
  using length_buf_rest [of b] buf_wf_bounds [of b 1]
  by (auto simp: next_byte_def buf_rest_def dest!: arg_cong [where f = "\<lambda>xs. xs ! 0"])

lemma get_bytes_conv:
  assumes "buf_wf b" and "buf_rest b = xs @ ys"
  shows "get_bytes b (length xs) = (xs, advance b (length xs))"
proof -
  have "length xs \<le> unat (buf_size b) - unat (buf_position b)"
    using assms length_buf_rest [of b] available_nat [of b] by simp
  then have "take (length xs) (drop (unat (buf_position b)) (buf_data b)) = take (length xs) (buf_rest b)"
    by (simp add: buf_rest_def drop_take min_def)
  then show ?thesis
    using assms by (simp add: get_bytes_def advance_def)
qed

lemma setPosition_put_bytes:
  assumes "buf_wf b" and "length s \<le> available b"
  shows "buf_wf (setPosition (put_bytes b s) (buf_position b))"
    and "buf_rest (setPosition (put_bytes b s) (buf_position b)) = s @ buf_rest (put_bytes b s)"
    and "advance (setPosition (put_bytes b s) (buf_position b)) (length s) = put_bytes b s"
proof -
  note le = buf_wf_bounds [OF assms]
  show "buf_wf (setPosition (put_bytes b s) (buf_position b))"
    using assms le by (simp add: buf_wf_def put_bytes_def setPosition_def)
  show "buf_rest (setPosition (put_bytes b s) (buf_position b)) = s @ buf_rest (put_bytes b s)"
    using le unat_position_plus [OF assms]
    by (simp add: buf_rest_def setPosition_def put_bytes_def)
  show "advance (setPosition (put_bytes b s) (buf_position b)) (length s) = put_bytes b s"
    by (simp add: advance_def setPosition_def put_bytes_def)
qed

lemma checkAvailable_simps [simp]:
  "n \<le> available b \<Longrightarrow> checkAvailable b n k = k"
  "available b < n \<Longrightarrow> checkAvailable b n k = Inl OutOfBounds"
  by (simp_all add: checkAvailable_def throw_if_def)

section \<open>The contract of a put and a get operation\<close>

text \<open>
  Values \<open>v\<close> with \<open>ok v\<close> have the encoding \<open>enc v\<close>: the put operation writes exactly these bytes or,
  when they do not fit, throws \<open>OutOfBounds\<close>; the get operation reads them back and stops after
  them.
\<close>

locale wire_codec =
  fixes enc :: "'v \<Rightarrow> byte list"
    and put :: "Buffer \<Rightarrow> 'v \<Rightarrow> Buffer result"
    and get :: "Buffer \<Rightarrow> ('v \<times> Buffer) result"
    and ok :: "'v \<Rightarrow> bool"
  assumes put_law: "buf_wf b \<Longrightarrow> ok v \<Longrightarrow>
      put b v = (if length (enc v) \<le> available b then Inr (put_bytes b (enc v)) else Inl OutOfBounds)"
    and get_law: "buf_wf b \<Longrightarrow> ok v \<Longrightarrow> buf_rest b = enc v @ xs \<Longrightarrow>
      get b = Inr (v, advance b (length (enc v)))"
begin

lemma round_trip:
  assumes "buf_wf b" and "ok v" and "put b v = Inr b'"
  shows "get (setPosition b' (buf_position b)) = Inr (v, b')"
proof -
  have len: "length (enc v) \<le> available b" and b': "b' = put_bytes b (enc v)"
    using assms put_law by (auto split: if_splits)
  show ?thesis
    unfolding b' by (subst get_law [of _ v]) (use assms len setPosition_put_bytes in auto)
qed

lemma put_fits: "buf_wf b \<Longrightarrow> ok v \<Longrightarrow> put b v = Inr b' \<Longrightarrow>
    buf_wf b' \<and> available b' + length (enc v) = available b"
  using put_law by (auto split: if_splits)

end

text \<open>Two operations in a row are again such a pair.\<close>

locale wire_pair =
  fst_codec: wire_codec enc1 put1 get1 ok1 + snd_codec: wire_codec enc2 put2 get2 ok2
  for enc1 :: "'u \<Rightarrow> byte list" and put1 get1 ok1
    and enc2 :: "'v \<Rightarrow> byte list" and put2 get2 ok2
begin

lemma pair_codec:
  "wire_codec (\<lambda>(u, v). enc1 u @ enc2 v) (\<lambda>b (u, v). res_bind (put1 b u) (\<lambda>b. put2 b v))
     (\<lambda>b. res_bind (get1 b) (\<lambda>(u, b). res_bind (get2 b) (\<lambda>(v, b). Inr ((u, v), b))))
     (\<lambda>(u, v). ok1 u \<and> ok2 v)"
proof (unfold_locales, goal_cases)
  case (1 b v)
  then show ?case
    by (auto simp: fst_codec.put_law snd_codec.put_law put_bytes_append split: prod.splits)
next
  case (2 b v xs)
  then obtain u w where v: "v = (u, w)" by fastforce
  have "length (enc1 u) \<le> available b"
    using 2 v length_buf_rest [of b] by simp
  then show ?case
    using 2 v fst_codec.get_law [of b u "enc2 w @ xs"]
      snd_codec.get_law [of "advance b (length (enc1 u))" w xs] by simp
qed

end

sublocale wire_pair \<subseteq> pair: wire_codec "\<lambda>(u, v). enc1 u @ enc2 v"
  "\<lambda>b (u, v). res_bind (put1 b u) (\<lambda>b. put2 b v)"
  "\<lambda>b. res_bind (get1 b) (\<lambda>(u, b). res_bind (get2 b) (\<lambda>(v, b). Inr ((u, v), b)))"
  "\<lambda>(u, v). ok1 u \<and> ok2 v"
  by (rule pair_codec)

text \<open>A string after its length: the three string formats differ only in the length field.\<close>

locale string_codec = wire_codec enc put get "\<lambda>_. True"
  for enc :: "'w::len word \<Rightarrow> byte list" and put get +
  fixes puts :: "Buffer \<Rightarrow> byte list \<Rightarrow> Buffer result"
    and gets :: "Buffer \<Rightarrow> (byte list \<times> Buffer) result"
    and limit :: nat
  assumes limit: "limit = 2 ^ LENGTH('w) - 1"
    and puts_def: "length s \<le> limit \<Longrightarrow> puts b s =
      res_bind (put b (of_nat (length s))) (\<lambda>b. checkAvailable b (length s) (Inr (put_bytes b s)))"
    and gets_def: "gets b =
      res_bind (get b) (\<lambda>(len, b). checkAvailable b (unat len) (Inr (get_bytes b (unat len))))"
begin

lemma string_is_codec:
  "wire_codec (\<lambda>s. enc (of_nat (length s)) @ s) puts gets (\<lambda>s. length s \<le> limit)"
proof (unfold_locales, goal_cases)
  case (1 b s)
  then show ?case
    by (auto simp: puts_def put_law put_bytes_append not_le)
next
  case (2 b s xs)
  have "length s < 2 ^ LENGTH('w)"
    using 2 limit by (metis Suc_pred' le_simps(2) zero_less_numeral zero_less_power)
  then have len: "unat (of_nat (length s) :: 'w word) = length s"
    by (simp add: unat_of_nat)
  let ?n = "length (enc (of_nat (length s)))"
  have n: "?n + length s \<le> available b"
    using 2 length_buf_rest [of b] by simp
  then have "get_bytes (advance b ?n) (length s) = (s, advance (advance b ?n) (length s))"
    using 2 by (intro get_bytes_conv [of _ _ xs]) auto
  then show ?case
    using 2 n len get_law [of b "of_nat (length s)" "s @ xs"] by (simp add: gets_def)
qed

end

sublocale string_codec \<subseteq> string: wire_codec
  "\<lambda>s. enc (of_nat (length s)) @ s" puts gets "\<lambda>s. length s \<le> limit"
  by (rule string_is_codec)

section \<open>The operations satisfy the contract\<close>

text \<open>Network byte order.\<close>

definition be16 :: "16 word \<Rightarrow> byte list" where
  "be16 i = [ucast (drop_bit 8 i), ucast i]"

definition be32 :: "32 word \<Rightarrow> byte list" where
  "be32 i = [ucast (drop_bit 24 i), ucast (drop_bit 16 i), ucast (drop_bit 8 i), ucast i]"

definition be64 :: "64 word \<Rightarrow> byte list" where
  "be64 i = be32 (ucast (drop_bit 32 i)) @ be32 (ucast i)"

lemma length_be [simp]: "length (be16 i) = 2" "length (be32 j) = 4" "length (be64 k) = 8"
  by (simp_all add: be16_def be32_def be64_def)

lemma low_byte_mask [simp]:
  "ucast (0xFF AND (i :: 16 word)) = (ucast i :: 8 word)"
  "ucast (0xFF AND (j :: 32 word)) = (ucast j :: 8 word)"
proof -
  have m: "(0xFF :: 16 word) = mask 8" "(0xFF :: 32 word) = mask 8"
    by (simp_all add: mask_eq_exp_minus_1)
  show "ucast (0xFF AND i) = (ucast i :: 8 word)" "ucast (0xFF AND j) = (ucast j :: 8 word)"
    unfolding m by (rule bit_word_eqI, auto simp: bit_simps)+
qed

lemma join16: "push_bit 8 (ucast (ucast (drop_bit 8 i) :: 8 word)) OR ucast (ucast i :: 8 word) = (i :: 16 word)"
  by (rule bit_word_eqI) (auto simp: bit_simps)

lemma join32:
  "push_bit 24 (ucast (ucast (drop_bit 24 i) :: 8 word)) OR push_bit 16 (ucast (ucast (drop_bit 16 i) :: 8 word))
     OR push_bit 8 (ucast (ucast (drop_bit 8 i) :: 8 word)) OR ucast (ucast i :: 8 word) = (i :: 32 word)"
  (is "?j = i")
proof (rule bit_word_eqI)
  fix n
  assume "n < LENGTH(32)"
  then consider "n < 8" | "8 \<le> n" "n < 16" | "16 \<le> n" "n < 24" | "24 \<le> n" "n < 32"
    by fastforce
  then show "bit ?j n \<longleftrightarrow> bit i n"
    by cases (auto simp: bit_simps)
qed

lemma join64:
  "push_bit 32 (ucast (ucast (drop_bit 32 i) :: 32 word)) OR ucast (ucast i :: 32 word) = (i :: 64 word)"
  by (rule bit_word_eqI) (auto simp: bit_simps)

interpretation octet: wire_codec "\<lambda>v. [v]" putOctet getOctet "\<lambda>_. True"
  by unfold_locales
    (auto simp: putOctet_def getOctet_def put_byte_conv next_byte_conv skip_byte_conv not_le
      dest!: arg_cong [where f = length] simp flip: length_buf_rest)

lemma putShort_conv:
  "buf_wf b \<Longrightarrow> putShort b i = checkAvailable b 2 (Inr (put_bytes b (be16 i)))"
  by (cases "2 \<le> available b") (simp_all add: putShort_def be16_def put_byte_conv put_bytes_append)

lemma putLong_conv:
  "buf_wf b \<Longrightarrow> putLong b i = checkAvailable b 4 (Inr (put_bytes b (be32 i)))"
  by (cases "4 \<le> available b") (simp_all add: putLong_def be32_def put_byte_conv put_bytes_append)

text \<open>Reading a byte whose value is known moves the position by one.\<close>

lemma rest_Cons:
  assumes "buf_wf b" and "buf_rest b = x # xs"
  shows "next_byte b = x" and "buf_wf (skip_byte b)" and "buf_rest (skip_byte b) = xs"
    and "available b = Suc (length xs)"
  using assms length_buf_rest [of b] next_byte_conv [of b x xs] by (simp_all add: skip_byte_conv)

interpretation short: wire_codec be16 putShort getShort "\<lambda>_. True"
proof (unfold_locales, goal_cases)
  case (1 b v)
  then show ?case by (simp add: putShort_conv not_le)
next
  case (2 b v xs)
  then have "buf_rest b = ucast (drop_bit 8 v) # ucast v # xs"
    by (simp add: be16_def)
  note r1 = rest_Cons [OF 2(1) this] note r2 = rest_Cons [OF r1(2,3)]
  show ?case
    using r1 r2 by (simp add: getShort_def skip_byte_conv join16 flip: numeral_2_eq_2)
qed

interpretation long: wire_codec be32 putLong getLong "\<lambda>_. True"
proof (unfold_locales, goal_cases)
  case (1 b v)
  then show ?case by (simp add: putLong_conv not_le)
next
  case (2 b v xs)
  then have "buf_rest b = ucast (drop_bit 24 v) # ucast (drop_bit 16 v) # ucast (drop_bit 8 v)
      # ucast v # xs"
    by (simp add: be32_def)
  note r1 = rest_Cons [OF 2(1) this] note r2 = rest_Cons [OF r1(2,3)]
  note r3 = rest_Cons [OF r2(2,3)] note r4 = rest_Cons [OF r3(2,3)]
  show ?case
    using r1 r2 r3 r4 by (simp add: getLong_def skip_byte_conv join32 flip: numeral_2_eq_2)
qed

interpretation long_pair: wire_pair be32 putLong getLong "\<lambda>_. True" be32 putLong getLong "\<lambda>_. True"
  by unfold_locales

interpretation longlong: wire_codec be64 putLongLong getLongLong "\<lambda>_. True"
proof (unfold_locales, goal_cases)
  case (1 b v)
  then show ?case
    using long_pair.pair.put_law [of b "(ucast (drop_bit 32 v), ucast v)"]
    by (simp add: putLongLong_def be64_def)
next
  case (2 b v xs)
  then show ?case
    using long_pair.pair.get_law [of b "(ucast (drop_bit 32 v), ucast v)" xs]
    by (auto simp: getLongLong_def be64_def res_bind_eq_Inr join64)
qed

interpretation short_string: string_codec "\<lambda>v :: 8 word. [v]" putOctet getOctet
    putShortString getShortString 255
  by unfold_locales (simp_all add: putShortString_def getShortString_def)

interpretation medium_string: string_codec be16 putShort getShort
    putMediumString getMediumString 65535
  by unfold_locales (simp_all add: putMediumString_def getMediumString_def)

interpretation long_string: string_codec be32 putLong getLong
    putLongString getLongString 4294967295
  by unfold_locales (simp_all add: putLongString_def getLongString_def)

section \<open>Properties of the buffer\<close>

text \<open>
  Integers survive the wire: after a put of an octet, a short, a long, a long long or a signed
  32 or 64 bit integer at some position, a get from that position returns the same value and leaves
  the buffer where the put left it.
\<close>

theorem integer_round_trip:
  assumes wf: "buf_wf b"
  shows "(putOctet b x1 = Inr b1 \<longrightarrow> getOctet (setPosition b1 (buf_position b)) = Inr (x1, b1))
    \<and> (putShort b x2 = Inr b2 \<longrightarrow> getShort (setPosition b2 (buf_position b)) = Inr (x2, b2))
    \<and> (putLong b x3 = Inr b3 \<longrightarrow> getLong (setPosition b3 (buf_position b)) = Inr (x3, b3))
    \<and> (putLongLong b x4 = Inr b4 \<longrightarrow> getLongLong (setPosition b4 (buf_position b)) = Inr (x4, b4))
    \<and> (putInt32 b i = Inr b5 \<longrightarrow> - (2 ^ 31) \<le> i \<longrightarrow> i < 2 ^ 31 \<longrightarrow>
         getInt32 (setPosition b5 (buf_position b)) = Inr (i, b5))
    \<and> (putInt64 b j = Inr b6 \<longrightarrow> - (2 ^ 63) \<le> j \<longrightarrow> j < 2 ^ 63 \<longrightarrow>
         getInt64 (setPosition b6 (buf_position b)) = Inr (j, b6))"
proof -
  have s32: "- (2 ^ 31) \<le> i \<Longrightarrow> i < 2 ^ 31 \<Longrightarrow> sint (word_of_int i :: 32 word) = i"
    by (simp add: signed_of_int signed_take_bit_int_eq_self)
  have s64: "- (2 ^ 63) \<le> j \<Longrightarrow> j < 2 ^ 63 \<Longrightarrow> sint (word_of_int j :: 64 word) = j"
    by (simp add: signed_of_int signed_take_bit_int_eq_self)
  show ?thesis
    using octet.round_trip [OF wf, of x1 b1] short.round_trip [OF wf, of x2 b2]
      long.round_trip [OF wf, of x3 b3] longlong.round_trip [OF wf, of x4 b4]
      long.round_trip [OF wf, of "word_of_int i" b5] longlong.round_trip [OF wf, of "word_of_int j" b6]
      s32 s64
    by (simp add: putInt32_def getInt32_def putInt64_def getInt64_def)
qed

theorem integer_round_trip_witness:
  "getInt32 (Buffer_init [0xFF, 0xFF, 0xFF, 0xFE, 9] 5)
   = Inr (- 2, \<lparr>buf_size = 5, buf_data = [0xFF, 0xFF, 0xFF, 0xFE, 9], buf_position = 4\<rparr>)"
  using integer_round_trip [of "Buffer_init [0, 0, 0, 0, 9] 5" 0 undefined 0 undefined 0 undefined
      0 undefined "- 2" "\<lparr>buf_size = 5, buf_data = [0xFF, 0xFF, 0xFF, 0xFE, 9], buf_position = 4\<rparr>"]
  by (simp add: Buffer_init_def buf_wf_def putInt32_def putLong_def available_def put_byte_def
      setPosition_def drop_bit_eq_div)

text \<open>
  Strings of bytes survive the wire in all three formats; a string too long for its length
  field is refused with an exception before anything is written.
\<close>

theorem string_round_trip:
  assumes wf: "buf_wf b"
  shows "(putShortString b s = Inr b1 \<longrightarrow> getShortString (setPosition b1 (buf_position b)) = Inr (s, b1))
    \<and> (putMediumString b s = Inr b2 \<longrightarrow> getMediumString (setPosition b2 (buf_position b)) = Inr (s, b2))
    \<and> (putLongString b s = Inr b3 \<longrightarrow> getLongString (setPosition b3 (buf_position b)) = Inr (s, b3))
    \<and> (255 < length s \<longrightarrow> putShortString b s = Inl GeneralException)
    \<and> (65535 < length s \<longrightarrow> putMediumString b s = Inl GeneralException)
    \<and> (4294967295 < length s \<longrightarrow> putLongString b s = Inl GeneralException)"
proof -
  have le: "putShortString b s = Inr b1 \<Longrightarrow> length s \<le> 255"
    "putMediumString b s = Inr b2 \<Longrightarrow> length s \<le> 65535"
    "putLongString b s = Inr b3 \<Longrightarrow> length s \<le> 4294967295"
    by (simp_all add: putShortString_def putMediumString_def putLongString_def split: if_splits)
  have big: "255 < length s \<Longrightarrow> putShortString b s = Inl GeneralException"
    "65535 < length s \<Longrightarrow> putMediumString b s = Inl GeneralException"
    "4294967295 < length s \<Longrightarrow> putLongString b s = Inl GeneralException"
    by (simp_all add: putShortString_def putMediumString_def putLongString_def)
  show ?thesis
    using short_string.string.round_trip [OF wf, of s b1]
      medium_string.string.round_trip [OF wf, of s b2]
      long_string.string.round_trip [OF wf, of s b3] le
      big by blast
qed

theorem string_round_trip_witness:
  "getShortString (Buffer_init [2, 104, 105, 9] 4)
   = Inr ([104, 105], \<lparr>buf_size = 4, buf_data = [2, 104, 105, 9], buf_position = 3\<rparr>)"
  using string_round_trip [of "Buffer_init [0, 0, 0, 9] 4" "[104, 105]"
      "\<lparr>buf_size = 4, buf_data = [2, 104, 105, 9], buf_position = 3\<rparr>", THEN conjunct1]
  by (simp add: Buffer_init_def buf_wf_def putShortString_def putOctet_def available_def put_byte_def
      put_bytes_def setPosition_def)

section \<open>Decoding stays inside the buffer\<close>

text \<open>
  Whatever the bytes are, a safe get operation throws \<open>OutOfBounds\<close> or moves the position forward
  without passing the end.
\<close>

definition safe_get :: "(Buffer \<Rightarrow> ('v \<times> Buffer) result) \<Rightarrow> bool" where
  "safe_get get \<longleftrightarrow> (\<forall>b. buf_wf b \<longrightarrow>
     get b = Inl OutOfBounds \<or> (\<exists>v n. n \<le> available b \<and> get b = Inr (v, advance b n)))"

lemma safe_getI:
  "(\<And>b. buf_wf b \<Longrightarrow> get b = Inl OutOfBounds \<or> (\<exists>v n. n \<le> available b \<and> get b = Inr (v, advance b n)))
     \<Longrightarrow> safe_get get"
  by (simp add: safe_get_def)

lemma safe_get_checked:
  "(\<And>b. get b = checkAvailable b n (Inr (f b, advance b n))) \<Longrightarrow> safe_get get"
  by (rule safe_getI) (metis checkAvailable_simps not_le)

lemma safe_get_bind:
  assumes g: "safe_get g" and h: "\<And>u. safe_get (h u)"
  shows "safe_get (\<lambda>b. res_bind (g b) (\<lambda>(u, b). h u b))"
proof (rule safe_getI)
  fix b
  assume b: "buf_wf b"
  show "res_bind (g b) (\<lambda>(u, b). h u b) = Inl OutOfBounds
    \<or> (\<exists>v n. n \<le> available b \<and> res_bind (g b) (\<lambda>(u, b). h u b) = Inr (v, advance b n))"
  proof (cases "g b = Inl OutOfBounds")
    case False
    then obtain u n where n: "n \<le> available b" "g b = Inr (u, advance b n)"
      using g b by (auto simp: safe_get_def)
    have "h u (advance b n) = Inl OutOfBounds
      \<or> (\<exists>v m. m \<le> available b - n \<and> h u (advance b n) = Inr (v, advance b (n + m)))"
      using h [of u, unfolded safe_get_def, rule_format, of "advance b n"] b n by simp
    then show ?thesis
    proof
      assume "\<exists>v m. m \<le> available b - n \<and> h u (advance b n) = Inr (v, advance b (n + m))"
      then obtain v m where "m \<le> available b - n" "h u (advance b n) = Inr (v, advance b (n + m))"
        by blast
      then show ?thesis
        using n by (auto intro!: exI [of _ "n + m"])
    qed (simp add: n)
  qed simp
qed

lemma safe_get_pure: "safe_get (\<lambda>b. Inr (v, b))"
  by (rule safe_getI) (metis advance_0 le0)

lemma safe_get_map: "safe_get g \<Longrightarrow> safe_get (\<lambda>b. res_bind (g b) (\<lambda>(u, b). Inr (f u, b)))"
  by (erule safe_get_bind) (rule safe_get_pure)

lemma safe_getOctet: "safe_get getOctet"
  by (rule safe_get_checked) (simp add: getOctet_def skip_byte_conv)

lemma safe_getShort: "safe_get getShort"
  by (rule safe_get_checked [of _ 2]) (simp add: getShort_def skip_byte_conv Let_def flip: numeral_2_eq_2)

lemma safe_getLong: "safe_get getLong"
  by (rule safe_get_checked [of _ 4]) (simp add: getLong_def skip_byte_conv Let_def flip: numeral_2_eq_2)

lemma safe_getLongLong: "safe_get getLongLong"
  unfolding getLongLong_def [abs_def] by (intro safe_get_bind safe_get_map safe_getLong)

lemma safe_getRawData: "safe_get (\<lambda>b. getRawData b n)"
  by (rule safe_get_checked) (simp add: getRawData_def get_bytes_def advance_def)

lemma safe_getString:
  assumes "safe_get get"
  shows "safe_get (\<lambda>b. res_bind (get b)
      (\<lambda>(len, b). checkAvailable b (unat len) (Inr (get_bytes b (unat len)))))"
proof (rule safe_get_bind [OF assms])
  show "safe_get (\<lambda>b. checkAvailable b (unat len) (Inr (get_bytes b (unat len))))" for len
    by (rule safe_get_checked [of _ "unat len"]) (simp add: get_bytes_def advance_def)
qed

lemma safe_getBin128: "safe_get getBin128"
  using safe_getRawData [of 16] by (simp add: getBin128_def [abs_def] getRawData_def)

lemma safe_getInt8: "safe_get getInt8"
  by (rule safe_get_checked) (simp add: getInt8_def skip_byte_conv)

lemma safe_get_signed: "safe_get getInt16" "safe_get getInt32" "safe_get getInt64"
  by (simp_all add: getInt16_def [abs_def] getInt32_def [abs_def] getInt64_def [abs_def] safe_get_map
      safe_getShort safe_getLong safe_getLongLong)

lemma safe_getUInt: "safe_get (getUInt w)"
  by (cases "w = 1"; cases "w = 2"; cases "w = 4")
    (simp_all add: getUInt_def [abs_def] safe_get_map safe_getOctet safe_getShort safe_getLong safe_getLongLong)

text \<open>
  C31. Decoding never runs past the end: on any well-formed buffer, whatever bytes a peer sent, each
  get operation (the unsigned and signed integers of every width, \<open>float\<close> and \<open>double\<close>, the 16-byte
  value, the three kinds of string, the integer of a given width and the raw data) either throws
  \<open>OutOfBounds\<close> or ends at a position between the old one and the end of the buffer, with the data
  unchanged.
\<close>

theorem get_operations_safe:
  "safe_get getOctet \<and> safe_get getShort \<and> safe_get getLong \<and> safe_get getLongLong
   \<and> safe_get getShortString \<and> safe_get getMediumString \<and> safe_get getLongString
   \<and> safe_get (getUInt w) \<and> safe_get (\<lambda>b. getRawData b n)
   \<and> safe_get getInt8 \<and> safe_get getInt16 \<and> safe_get getInt32 \<and> safe_get getInt64
   \<and> safe_get getFloat \<and> safe_get getDouble \<and> safe_get getBin128"
proof -
  have "safe_get getShortString" "safe_get getMediumString" "safe_get getLongString"
    using safe_getString [OF safe_getOctet] safe_getString [OF safe_getShort]
      safe_getString [OF safe_getLong]
    by (simp_all add: getShortString_def [abs_def] getMediumString_def [abs_def]
        getLongString_def [abs_def])
  then show ?thesis
    by (simp add: safe_getUInt safe_getOctet safe_getShort safe_getLong safe_getLongLong safe_getRawData
        safe_get_signed safe_getInt8 safe_getBin128 getFloat_def [abs_def] getDouble_def [abs_def])
qed

end
