(* ===== verification/Sequence_Set.thy ===== *)
theory Sequence_Set
  imports Range_Set Wire_Buffer
begin

text \<open>
  \<open>qpid::framing::SequenceSet\<close> (\<open>src/qpid/framing/SequenceSet.cpp\<close>): a range set of sequence numbers
  with operations on closed ranges and an encoding on the wire. Encoding and decoding are shown to
  satisfy the contract \<open>wire_codec\<close>.
\<close>

type_synonym SequenceSet = "SequenceNumber RangeSet"

section \<open>The operations\<close>

definition SequenceSet_contains :: "SequenceSet \<Rightarrow> SequenceNumber \<Rightarrow> bool" where
  "SequenceSet_contains s n = RangeSet_contains SequenceNumber_less SequenceNumber_incr s n"

definition SequenceSet_add_one :: "SequenceSet \<Rightarrow> SequenceNumber \<Rightarrow> SequenceSet" where
  "SequenceSet_add_one s n = addRange SequenceNumber_less s (Range_single SequenceNumber_incr n)"

definition SequenceSet_closed :: "SequenceNumber \<Rightarrow> SequenceNumber \<Rightarrow> SequenceNumber Range" where
  "SequenceSet_closed start finish =
     Range_makeClosed SequenceNumber_incr (std_min SequenceNumber_less start finish)
       (std_max SequenceNumber_less start finish)"

definition SequenceSet_add :: "SequenceSet \<Rightarrow> SequenceNumber \<Rightarrow> SequenceNumber \<Rightarrow> SequenceSet" where
  "SequenceSet_add s start finish = addRange SequenceNumber_less s (SequenceSet_closed start finish)"

definition SequenceSet_add_set :: "SequenceSet \<Rightarrow> SequenceSet \<Rightarrow> SequenceSet" where
  "SequenceSet_add_set s t = addSet SequenceNumber_less s t"

definition SequenceSet_remove_one :: "SequenceSet \<Rightarrow> SequenceNumber \<Rightarrow> SequenceSet" where
  "SequenceSet_remove_one s n =
     removeRange SequenceNumber_less s (Range_single SequenceNumber_incr n)"

definition SequenceSet_remove :: "SequenceSet \<Rightarrow> SequenceNumber \<Rightarrow> SequenceNumber \<Rightarrow> SequenceSet" where
  "SequenceSet_remove s start finish =
     removeRange SequenceNumber_less s (SequenceSet_closed start finish)"

definition SequenceSet_remove_set :: "SequenceSet \<Rightarrow> SequenceSet \<Rightarrow> SequenceSet" where
  "SequenceSet_remove_set s t = removeSet SequenceNumber_less s t"

section \<open>The encoding\<close>

text \<open>\<open>Range::first\<close> and \<open>Range::last\<close>, the bounds of the closed range.\<close>

definition Range_first :: "SequenceNumber Range \<Rightarrow> SequenceNumber" where
  "Range_first r = range_begin r"

definition Range_last :: "SequenceNumber Range \<Rightarrow> SequenceNumber" where
  "Range_last r = SequenceNumber_decr (range_end r)"

fun encode_ranges :: "Buffer \<Rightarrow> SequenceNumber Range list \<Rightarrow> Buffer result" where
  "encode_ranges b [] = Inr b"
| "encode_ranges b (r # rs) =
     res_bind (putLong b (Range_first r)) (\<lambda>b.
     res_bind (putLong b (Range_last r)) (\<lambda>b. encode_ranges b rs))"

text \<open>The size field takes the product of the number of ranges and 8, converted to 16 bits.\<close>

definition SequenceSet_encode :: "Buffer \<Rightarrow> SequenceSet \<Rightarrow> Buffer result" where
  "SequenceSet_encode b s =
     res_bind (putShort b (of_nat (length s * 8))) (\<lambda>b. encode_ranges b s)"

fun decode_ranges :: "nat \<Rightarrow> Buffer \<Rightarrow> SequenceSet \<Rightarrow> (SequenceSet \<times> Buffer) result" where
  "decode_ranges 0 b s = Inr (s, b)"
| "decode_ranges (Suc n) b s =
     res_bind (getLong b) (\<lambda>(start, b). res_bind (getLong b) (\<lambda>(finish, b).
       decode_ranges n b (SequenceSet_add s start finish)))"

definition SequenceSet_decode :: "Buffer \<Rightarrow> (SequenceSet \<times> Buffer) result" where
  "SequenceSet_decode b =
     res_bind (getShort b) (\<lambda>(size, b).
       throw_if (unat size mod 8 \<noteq> 0) IllegalArgumentException
         (decode_ranges (unat size div 8) b []))"

definition SequenceSet_encodedSize :: "SequenceSet \<Rightarrow> 32 word" where
  "SequenceSet_encodedSize s = 2 + of_nat (length s * 8)"

section \<open>Closed ranges in a window\<close>

lemma SequenceSet_closed_pos:
  assumes "in_window base x" "in_window base y" "in_window base (SequenceNumber_incr x)"
    "in_window base (SequenceNumber_incr y)"
  shows "Range_in (in_window base) (SequenceSet_closed x y)"
    and "window_pos base (range_begin (SequenceSet_closed x y))
      = min (window_pos base x) (window_pos base y)"
    and "window_pos base (range_end (SequenceSet_closed x y))
      = Suc (max (window_pos base x) (window_pos base y))"
proof -
  have "in_window base (SequenceNumber_incr (std_max SequenceNumber_less x y))"
    using assms by (simp add: std_max_def)
  then show "Range_in (in_window base) (SequenceSet_closed x y)"
    using assms
    by (simp add: SequenceSet_closed_def Range_makeClosed_def Range_in_def seq_window.std_min_pos)
  show "window_pos base (range_begin (SequenceSet_closed x y))
      = min (window_pos base x) (window_pos base y)"
    using assms by (simp add: SequenceSet_closed_def Range_makeClosed_def seq_window.std_min_pos)
  show "window_pos base (range_end (SequenceSet_closed x y))
      = Suc (max (window_pos base x) (window_pos base y))"
    using assms window_pos_incr [of base "std_max SequenceNumber_less x y"]
    by (simp add: SequenceSet_closed_def Range_makeClosed_def seq_window.std_max_pos)
qed

lemma Range_in_single:
  assumes "in_window base n" "in_window base (SequenceNumber_incr n)"
  shows "Range_in (in_window base) (Range_single SequenceNumber_incr n)"
    and "window_pos base (range_end (Range_single SequenceNumber_incr n))
      = Suc (window_pos base (range_begin (Range_single SequenceNumber_incr n)))"
  using assms by (simp_all add: Range_single_def Range_in_def window_pos_incr)

text \<open>The closed range of the first and last element of a range is the range.\<close>

lemma SequenceSet_closed_first_last:
  assumes "Range_in (in_window base) r"
    and "window_pos base (range_begin r) < window_pos base (range_end r)"
  shows "SequenceSet_closed (Range_first r) (Range_last r) = r"
proof -
  let ?l = "Range_last r"
  have in_e: "window_pos base (range_end r) < 2 ^ 31"
    using assms by (simp add: Range_in_def in_window_def)
  have "unat ((range_end r - base) - 1) = unat (range_end r - base) - 1"
    using assms(2) by (intro unat_minus_one) (auto simp: window_pos_def)
  then have l: "window_pos base ?l = window_pos base (range_end r) - 1"
    by (simp add: Range_last_def SequenceNumber_decr_def window_pos_def algebra_simps)
  then have in_l: "in_window base ?l"
    using in_e by (simp add: in_window_def)
  have le: "window_pos base (range_begin r) \<le> window_pos base ?l"
    using assms(2) l by simp
  have b: "in_window base (range_begin r)"
    using assms(1) by (simp add: Range_in_def)
  have "\<not> SequenceNumber_less ?l (range_begin r)"
    using SequenceNumber_less_window [OF in_l b] le by simp
  moreover have "SequenceNumber_less (range_begin r) ?l \<or> range_begin r = ?l"
    using SequenceNumber_less_window [OF b in_l] le window_pos_inj by (metis le_neq_implies_less)
  moreover have "SequenceNumber_incr ?l = range_end r"
    by (simp add: Range_last_def SequenceNumber_incr_def SequenceNumber_decr_def)
  ultimately show ?thesis
    by (auto simp: SequenceSet_closed_def Range_makeClosed_def Range_first_def std_min_def std_max_def)
qed

lemma rebuild_ranges:
  assumes "\<forall>r \<in> set rs. Range_in (in_window base) r" "seq_window.pinv base rs"
  shows "foldl (\<lambda>s r. SequenceSet_add s (Range_first r) (Range_last r)) [] rs = rs"
proof -
  have "foldl (\<lambda>s r. SequenceSet_add s (Range_first r) (Range_last r)) s rs
      = addSet SequenceNumber_less s rs" for s
    using assms
    by (induction rs arbitrary: s)
      (auto simp: addSet_def SequenceSet_add_def SequenceSet_closed_first_last)
  moreover have "addSet SequenceNumber_less [] rs = rs"
    using seq_window.addSet_correct [of "[]" base rs] assms
    by (intro seq_dense.pinv_unique) (auto simp: seq_window.pinv_def less_imp_le)
  ultimately show ?thesis by simp
qed

section \<open>The encoding satisfies the contract of the wire\<close>

definition enc_range :: "SequenceNumber Range \<Rightarrow> byte list" where
  "enc_range r = be32 (Range_first r) @ be32 (Range_last r)"

definition enc_SequenceSet :: "SequenceSet \<Rightarrow> byte list" where
  "enc_SequenceSet s = be16 (of_nat (length s * 8)) @ concat (map enc_range s)"

text \<open>The sets with an encoding: well formed in some window, and small enough for the size field.\<close>

definition encodable :: "SequenceSet \<Rightarrow> bool" where
  "encodable s \<longleftrightarrow> (\<exists>base. seq_set_wf base s) \<and> length s < 8192"

lemma length_enc_ranges [simp]: "length (concat (map enc_range rs)) = 8 * length rs"
  by (induction rs) (simp_all add: enc_range_def)

lemma encode_ranges_law:
  "buf_wf b \<Longrightarrow> encode_ranges b rs =
     (if 8 * length rs \<le> available b then Inr (put_bytes b (concat (map enc_range rs)))
      else Inl OutOfBounds)"
proof (induction rs arbitrary: b)
  case Nil
  then show ?case by (simp add: put_bytes_def)
next
  case (Cons r rs)
  have two: "encode_ranges b (r # rs) =
      res_bind (res_bind (putLong b (Range_first r)) (\<lambda>b. putLong b (Range_last r)))
        (\<lambda>b. encode_ranges b rs)"
    by (cases "putLong b (Range_first r)") simp_all
  show ?case
    unfolding two using long_pair.pair.put_law [of b "(Range_first r, Range_last r)"] Cons
    by (auto simp: enc_range_def [of r] put_bytes_append not_le)
qed

lemma decode_ranges_law:
  "buf_wf b \<Longrightarrow> buf_rest b = concat (map enc_range rs) @ xs \<Longrightarrow>
     decode_ranges (length rs) b s =
       Inr (foldl (\<lambda>s r. SequenceSet_add s (Range_first r) (Range_last r)) s rs,
            advance b (8 * length rs))"
proof (induction rs arbitrary: b s)
  case Nil
  then show ?case by simp
next
  case (Cons r rs)
  let ?b1 = "advance b 4" and ?b2 = "advance b 8"
  have rest: "buf_rest b = be32 (Range_first r) @ be32 (Range_last r) @ concat (map enc_range rs) @ xs"
    using Cons.prems by (simp add: enc_range_def [of r])
  then have av: "8 \<le> available b"
    using length_buf_rest [OF Cons.prems(1)] by simp
  have g1: "getLong b = Inr (Range_first r, ?b1)"
    using long.get_law [OF Cons.prems(1) _ rest] by simp
  have g2: "getLong ?b1 = Inr (Range_last r, ?b2)"
    using long.get_law [of ?b1 "Range_last r" "concat (map enc_range rs) @ xs"]
      Cons.prems(1) av rest by simp
  have "buf_rest ?b2 = concat (map enc_range rs) @ xs" "buf_wf ?b2"
    using Cons.prems(1) av rest by simp_all
  then show ?case
    using Cons.IH [of ?b2 "SequenceSet_add s (Range_first r) (Range_last r)"] g1 g2 by simp
qed

interpretation sequence_set: wire_codec enc_SequenceSet SequenceSet_encode SequenceSet_decode encodable
proof (unfold_locales, goal_cases)
  case (1 b v)
  then show ?case
    using short.put_law [of b "of_nat (length v * 8)"]
    by (auto simp: SequenceSet_encode_def enc_SequenceSet_def encode_ranges_law put_bytes_append)
next
  case (2 b v xs)
  obtain base where wf: "seq_set_wf base v"
    using 2 by (auto simp: encodable_def)
  have "length v * 8 < 2 ^ 16"
    using 2 by (simp add: encodable_def)
  then have size: "unat (of_nat (length v * 8) :: 16 word) = length v * 8"
    by (simp only: unat_of_nat) simp
  have av: "2 \<le> available b"
    using 2 length_buf_rest [of b] by (simp add: enc_SequenceSet_def)
  have "getShort b = Inr (of_nat (length v * 8), advance b 2)"
    using short.get_law [of b "of_nat (length v * 8)" "concat (map enc_range v) @ xs"] 2
    by (simp add: enc_SequenceSet_def)
  moreover have "decode_ranges (length v) (advance b 2) [] = Inr (v, advance b (2 + 8 * length v))"
    using decode_ranges_law [of "advance b 2" v xs "[]"] 2 av rebuild_ranges [OF seq_set_wfD [OF wf]]
    by (simp add: enc_SequenceSet_def)
  ultimately show ?case
    by (simp only: SequenceSet_decode_def res_bind_simps prod.case size)
      (simp add: enc_SequenceSet_def)
qed

text \<open>
  C32. A sequence set of at most 8191 ranges survives the wire: the bytes that \<open>encode\<close> wrote decode
  to the same set, with the buffer at the same position, and \<open>encodedSize\<close> is the number of bytes
  written.
\<close>

theorem SequenceSet_round_trip:
  assumes "buf_wf b" and "seq_set_wf base s" and "length s < 8192"
    and "SequenceSet_encode b s = Inr b'"
  shows "SequenceSet_decode (setPosition b' (buf_position b)) = Inr (s, b')
    \<and> available b' + unat (SequenceSet_encodedSize s) = available b"
proof -
  have ok: "encodable s"
    using assms by (auto simp: encodable_def)
  have "2 + length s * 8 < 2 ^ 32"
    using assms(3) by simp
  then have "unat (of_nat (2 + length s * 8) :: 32 word) = length (enc_SequenceSet s)"
    by (simp only: unat_of_nat) (simp add: enc_SequenceSet_def)
  then show ?thesis
    using sequence_set.round_trip [OF assms(1) ok assms(4)] sequence_set.put_fits [OF assms(1) ok assms(4)]
    by (simp add: SequenceSet_encodedSize_def)
qed

theorem SequenceSet_round_trip_witness:
  "SequenceSet_decode (Buffer_init [0, 8, 0, 0, 0, 5, 0, 0, 0, 7] 10)
   = Inr ([\<lparr>range_begin = 5, range_end = 8\<rparr>],
       \<lparr>buf_size = 10, buf_data = [0, 8, 0, 0, 0, 5, 0, 0, 0, 7], buf_position = 10\<rparr>)"
  using SequenceSet_round_trip [of "Buffer_init [0, 0, 0, 0, 0, 0, 0, 0, 0, 0] 10" 0
      "[\<lparr>range_begin = 5, range_end = 8\<rparr>]"
      "\<lparr>buf_size = 10, buf_data = [0, 8, 0, 0, 0, 5, 0, 0, 0, 7], buf_position = 10\<rparr>"]
  by (simp add: Buffer_init_def buf_wf_def seq_set_wf_def RangeSet_inv_def Range_in_def in_window_def
      window_pos_def SequenceNumber_less_def SequenceSet_encode_def putShort_def putLong_def
      available_def put_byte_def setPosition_def drop_bit_eq_div Range_first_def Range_last_def
      SequenceNumber_decr_def)

lemma encode_short_size:
  assumes "buf_wf b" and "length s = 8192"
  shows "SequenceSet_encode b s =
    (if length (be16 0 @ concat (map enc_range s)) \<le> available b
     then Inr (put_bytes b (be16 0 @ concat (map enc_range s))) else Inl OutOfBounds)"
proof -
  have "of_nat (length s * 8) = (0 :: 16 word)"
    using assms(2) by simp
  then have "SequenceSet_encode b s = res_bind (putShort b 0) (\<lambda>b. encode_ranges b s)"
    by (simp only: SequenceSet_encode_def)
  then show ?thesis
    using short.put_law [OF assms(1), of 0] assms
    by (auto simp: encode_ranges_law put_bytes_append)
qed

text \<open>
  The size field is not checked: a set of exactly 8192 ranges (or any multiple) is written with
  size 0, so that decoding the bytes returns the empty set.
\<close>

theorem SequenceSet_size_field_overflow:
  assumes "buf_wf b" and "length s = 8192" and "SequenceSet_encode b s = Inr b'"
  shows "SequenceSet_decode (setPosition b' (buf_position b)) = Inr ([], advance b 2 \<lparr>buf_data := buf_data b'\<rparr>)"
proof -
  let ?bs = "concat (map enc_range s)"
  note enc = encode_short_size [OF assms(1,2)]
  have len: "length (be16 0 @ ?bs) \<le> available b" and b': "b' = put_bytes b (be16 0 @ ?bs)"
    using enc assms(3) by (auto split: if_splits)
  let ?c = "setPosition b' (buf_position b)"
  have "buf_wf ?c" "buf_rest ?c = be16 0 @ (?bs @ buf_rest b')"
    using setPosition_put_bytes [OF assms(1) len] b' by simp_all
  then have "getShort ?c = Inr (0, advance ?c 2)"
    using short.get_law [of ?c 0] by simp
  moreover have "advance ?c 2 = advance b 2 \<lparr>buf_data := buf_data b'\<rparr>"
    using b' by (simp add: advance_def setPosition_def put_bytes_def)
  ultimately show ?thesis
    by (simp add: SequenceSet_decode_def)
qed

theorem SequenceSet_size_field_overflow_witness:
  "\<exists>b'. SequenceSet_encode (Buffer_init (replicate 65538 0) 65538)
        (replicate 8192 \<lparr>range_begin = 1, range_end = 2\<rparr>) = Inr b'
    \<and> SequenceSet_decode (setPosition b' 0)
      = Inr ([], advance (Buffer_init (replicate 65538 0) 65538) 2 \<lparr>buf_data := buf_data b'\<rparr>)"
proof -
  let ?b = "Buffer_init (replicate 65538 0) 65538"
  let ?s = "replicate 8192 (\<lparr>range_begin = 1, range_end = 2\<rparr> :: SequenceNumber Range)"
  have b: "buf_wf ?b" "available ?b = 65538" "buf_position ?b = 0"
    by (simp_all add: buf_wf_def Buffer_init_def available_def)
  have l: "length ?s = 8192"
    by (rule length_replicate)
  have fits: "length (be16 0 @ concat (map enc_range ?s)) \<le> available ?b"
    using b(2) l by (simp only: length_append length_enc_ranges length_be)
  obtain b' where "SequenceSet_encode ?b ?s = Inr b'"
    using encode_short_size [OF b(1) l] fits by (simp only: if_True)
  with l show ?thesis
    using SequenceSet_size_field_overflow [OF b(1), of ?s b'] b(3) by metis
qed

end
