(* ===== verification/AMQ_Frame.thy ===== *)
theory AMQ_Frame
  imports Wire_Buffer
begin

unbundle bit_operations_syntax

text \<open>
  Frames: \<open>qpid::framing::AMQFrame\<close> (\<open>AMQFrame.h\<close>, \<open>AMQFrame.cpp\<close>), the bodies of content and
  heartbeat frames, the incremental \<open>FrameDecoder\<close> (\<open>FrameDecoder.cpp\<close>) and the protocol header
  \<open>ProtocolInitiation\<close> (\<open>ProtocolInitiation.cpp\<close>), all under \<open>src/qpid/framing\<close>. The classes of the
  method bodies are generated when the program is built; with the header body, which is a component of
  its own (theory \<open>AMQ_Header_Body\<close>), they are the record \<open>bodies\<close> of functions, an argument of the
  definitions, and what is relied on is the predicate \<open>bodies_ok\<close>. \<open>AMQ_Header_Body\<close> builds this record
  from the generated code and the modelled \<open>AMQHeaderBody\<close>, and shows its part of \<open>bodies_ok\<close>.
\<close>

section \<open>Bodies\<close>

text \<open>
  The generated code of the methods: class and method id and segment type of a method, its encoding,
  and \<open>MethodBodyFactory::create(c, m)\<close> followed by \<open>decode\<close>. Then the operations of \<open>AMQHeaderBody\<close>,
  whose \<open>decode\<close> gets the size of the body.
\<close>

record 'm methods =
  amqpClassId :: "'m \<Rightarrow> 8 word"
  amqpMethodId :: "'m \<Rightarrow> 8 word"
  method_type :: "'m \<Rightarrow> 8 word"
  method_encodedSize :: "'m \<Rightarrow> nat"
  method_encode :: "Buffer \<Rightarrow> 'm \<Rightarrow> Buffer result"
  method_decode :: "8 word \<Rightarrow> 8 word \<Rightarrow> nat \<Rightarrow> Buffer \<Rightarrow> ('m \<times> Buffer) result"

record ('m, 'h) bodies = "'m methods" +
  header_encodedSize :: "'h \<Rightarrow> nat"
  header_encode :: "Buffer \<Rightarrow> 'h \<Rightarrow> Buffer result"
  header_decode :: "nat \<Rightarrow> Buffer \<Rightarrow> ('h \<times> Buffer) result"

datatype ('m, 'h) AMQBody =
    AMQMethodBody 'm
  | AMQHeaderBody 'h
  | AMQContentBody "byte list"
  | AMQHeartbeatBody

fun body_type :: "('m, 'h) bodies \<Rightarrow> ('m, 'h) AMQBody \<Rightarrow> 8 word" where
  "body_type B (AMQMethodBody m) = method_type B m"
| "body_type B (AMQHeaderBody h) = 2"
| "body_type B (AMQContentBody d) = 3"
| "body_type B AMQHeartbeatBody = 8"

fun body_encodedSize :: "('m, 'h) bodies \<Rightarrow> ('m, 'h) AMQBody \<Rightarrow> nat" where
  "body_encodedSize B (AMQMethodBody m) = method_encodedSize B m"
| "body_encodedSize B (AMQHeaderBody h) = header_encodedSize B h"
| "body_encodedSize B (AMQContentBody d) = length d"
| "body_encodedSize B AMQHeartbeatBody = 0"

fun body_encode :: "('m, 'h) bodies \<Rightarrow> Buffer \<Rightarrow> ('m, 'h) AMQBody \<Rightarrow> Buffer result" where
  "body_encode B b (AMQMethodBody m) = method_encode B b m"
| "body_encode B b (AMQHeaderBody h) = header_encode B b h"
| "body_encode B b (AMQContentBody d) = putRawData b d"
| "body_encode B b AMQHeartbeatBody = Inr b"

section \<open>Frames\<close>

record ('m, 'h) AMQFrame =
  frame_body :: "('m, 'h) AMQBody"
  channel :: "16 word"
  subchannel :: "8 word"
  bof :: bool
  eof :: bool
  bos :: bool
  eos :: bool

definition AMQFrame_init :: "('m, 'h) AMQBody \<Rightarrow> ('m, 'h) AMQFrame" where
  "AMQFrame_init body = \<lparr>frame_body = body, channel = 0, subchannel = 0,
     bof = True, eof = True, bos = True, eos = True\<rparr>"

definition getMethod :: "('m, 'h) AMQFrame \<Rightarrow> 'm option" where
  "getMethod f = (case frame_body f of AMQMethodBody m \<Rightarrow> Some m | _ \<Rightarrow> None)"

definition frameOverhead :: nat where
  "frameOverhead = 12"

definition AMQFrame_encodedSize :: "('m, 'h) bodies \<Rightarrow> ('m, 'h) AMQFrame \<Rightarrow> nat" where
  "AMQFrame_encodedSize B f =
     frameOverhead + body_encodedSize B (frame_body f) + (if getMethod f \<noteq> None then 2 else 0)"

definition decodeSize :: "byte list \<Rightarrow> 16 word result" where
  "decodeSize d = res_bind (getShort (Buffer_init (drop 2 d) 4)) (\<lambda>(n, _). Inr n)"

definition frame_flags :: "('m, 'h) AMQFrame \<Rightarrow> 8 word" where
  "frame_flags f = (if bof f then 8 else 0) OR (if eof f then 4 else 0)
     OR (if bos f then 2 else 0) OR (if eos f then 1 else 0)"

definition AMQFrame_encode :: "('m, 'h) bodies \<Rightarrow> Buffer \<Rightarrow> ('m, 'h) AMQFrame \<Rightarrow> Buffer result" where
  "AMQFrame_encode B b f =
     (let track = (if body_type B (frame_body f) \<noteq> 0 then 1 else 0) :: 8 word in
      res_bind (putOctet b (frame_flags f)) (\<lambda>b.
      res_bind (putOctet b (body_type B (frame_body f))) (\<lambda>b.
      res_bind (putShort b (of_nat (AMQFrame_encodedSize B f))) (\<lambda>b.
      res_bind (putOctet b 0) (\<lambda>b.
      res_bind (putOctet b (0x0F AND track)) (\<lambda>b.
      res_bind (putShort b (channel f)) (\<lambda>b.
      res_bind (putLong b 0) (\<lambda>b.
      res_bind (case getMethod f of
          None \<Rightarrow> Inr b
        | Some m \<Rightarrow> res_bind (putOctet b (amqpClassId B m)) (\<lambda>b. putOctet b (amqpMethodId B m)))
        (\<lambda>b. body_encode B b (frame_body f))))))))))"

text \<open>The part of \<open>decode\<close> after the header: create the body for the type and decode it.\<close>

definition decode_body ::
  "('m, 'h) bodies \<Rightarrow> 8 word \<Rightarrow> nat \<Rightarrow> Buffer \<Rightarrow> (('m, 'h) AMQBody \<times> Buffer) result" where
  "decode_body B type body_size b =
     (if type = 0 \<or> type = 1
      then res_bind (getOctet b) (\<lambda>(c, b). res_bind (getOctet b) (\<lambda>(m, b).
             res_bind (method_decode B c m body_size b) (\<lambda>(m, b). Inr (AMQMethodBody m, b))))
      else if type = 2
      then res_bind (header_decode B body_size b) (\<lambda>(h, b). Inr (AMQHeaderBody h, b))
      else if type = 3
      then res_bind (getRawData b body_size) (\<lambda>(d, b). Inr (AMQContentBody d, b))
      else if type = 8 then Inr (AMQHeartbeatBody, b)
      else Inl IllegalArgumentException)"

text \<open>
  \<open>decode\<close> returns \<open>false\<close> (here \<open>None\<close>) when the buffer does not hold the whole frame, and the position
  is then where it was.
\<close>

definition AMQFrame_decode ::
  "('m, 'h) bodies \<Rightarrow> Buffer \<Rightarrow> (('m, 'h) AMQFrame option \<times> Buffer) result" where
  "AMQFrame_decode B b =
     (if available b < frameOverhead then Inr (None, b)
      else let pos = buf_position b in
      res_bind (getOctet b) (\<lambda>(flags, b).
      throw_if (drop_bit 6 (flags AND 0xC0) \<noteq> 0) FramingErrorException
      (res_bind (getOctet b) (\<lambda>(type, b).
       res_bind (getShort b) (\<lambda>(frame_size, b).
       throw_if (unat frame_size < frameOverhead) FramingErrorException
       (res_bind (getOctet b) (\<lambda>(reserved1, b).
        res_bind (getOctet b) (\<lambda>(field1, b).
        res_bind (getShort b) (\<lambda>(chan, b).
        res_bind (getLong b) (\<lambda>(reserved2, b).
        throw_if (flags AND 0x30 \<noteq> 0 \<or> reserved1 \<noteq> 0 \<or> field1 AND 0xF0 \<noteq> 0) FramingErrorException
        (let body_size = unat frame_size - frameOverhead in
         if available b < body_size then Inr (None, setPosition b pos)
         else res_bind (decode_body B type body_size b) (\<lambda>(body, b).
           Inr (Some \<lparr>frame_body = body, channel = chan, subchannel = field1 AND 0x0F,
                  bof = flags AND 8 \<noteq> 0, eof = flags AND 4 \<noteq> 0,
                  bos = flags AND 2 \<noteq> 0, eos = flags AND 1 \<noteq> 0\<rparr>, b)))))))))))))"

section \<open>The frame decoder\<close>

record ('m, 'h) FrameDecoder =
  fragment :: "byte list"
  decoded :: "('m, 'h) AMQFrame option"

text \<open>\<open>append(bytes, buffer, n)\<close>: up to \<open>n\<close> bytes from the buffer to the end of \<open>bytes\<close>.\<close>

definition append_fragment :: "byte list \<Rightarrow> Buffer \<Rightarrow> nat \<Rightarrow> (byte list \<times> Buffer) result" where
  "append_fragment bytes b n =
     (let n = min n (available b) in
      if n = 0 then Inr (bytes, b)
      else res_bind (getRawData b n) (\<lambda>(d, b). Inr (bytes @ d, b)))"

definition DECODE_SIZE_MIN :: nat where
  "DECODE_SIZE_MIN = 4"

definition FrameDecoder_decode ::
  "('m, 'h) bodies \<Rightarrow> ('m, 'h) FrameDecoder \<Rightarrow> Buffer
     \<Rightarrow> (bool \<times> ('m, 'h) FrameDecoder \<times> Buffer) result" where
  "FrameDecoder_decode B d b =
     (if available b = 0 then Inr (False, d, b)
      else if fragment d = []
      then res_bind (AMQFrame_decode B b) (\<lambda>(f, b).
             case f of
               Some f \<Rightarrow> Inr (True, d\<lparr>decoded := Some f\<rparr>, b)
             | None \<Rightarrow> res_bind (append_fragment [] b (available b)) (\<lambda>(fr, b).
                 Inr (False, d\<lparr>fragment := fr\<rparr>, b)))
      else res_bind (if length (fragment d) < DECODE_SIZE_MIN
             then append_fragment (fragment d) b (DECODE_SIZE_MIN - length (fragment d))
             else Inr (fragment d, b)) (\<lambda>(fr, b).
           if length fr < DECODE_SIZE_MIN then Inr (False, d\<lparr>fragment := fr\<rparr>, b)
           else res_bind (decodeSize fr) (\<lambda>sz.
             throw_if (unat sz \<le> length fr) FramingErrorException
             (res_bind (append_fragment fr b (unat sz - length fr)) (\<lambda>(fr, b).
              res_bind (AMQFrame_decode B (Buffer_init fr (of_nat (length fr)))) (\<lambda>(f, b').
                case f of
                  None \<Rightarrow> Inr (False, d\<lparr>fragment := fr\<rparr>, b)
                | Some f \<Rightarrow>
                    throw_if (available b' \<noteq> 0) AssertionFailed
                      (Inr (True, d\<lparr>fragment := [], decoded := Some f\<rparr>, b))))))))"

section \<open>The protocol header\<close>

record ProtocolVersion =
  version_major :: "8 word"
  version_minor :: "8 word"
  version_protocol :: "8 word"

text \<open>The octets \<open>'A'\<close>, \<open>'M'\<close>, \<open>'Q'\<close>, \<open>'P'\<close> are 65, 77, 81, 80.\<close>

definition ProtocolInitiation_encode :: "Buffer \<Rightarrow> ProtocolVersion \<Rightarrow> Buffer result" where
  "ProtocolInitiation_encode b v =
     res_bind (putOctet b 65) (\<lambda>b. res_bind (putOctet b 77) (\<lambda>b.
     res_bind (putOctet b 81) (\<lambda>b. res_bind (putOctet b 80) (\<lambda>b.
       if version_major v = 1
       then res_bind (putOctet b (version_protocol v)) (\<lambda>b.
            res_bind (putOctet b (version_major v)) (\<lambda>b.
            res_bind (putOctet b (version_minor v)) (\<lambda>b. putOctet b 0)))
       else res_bind (putOctet b 1) (\<lambda>b. res_bind (putOctet b 1) (\<lambda>b.
            res_bind (putOctet b (version_major v)) (\<lambda>b. putOctet b (version_minor v))))))))"

definition ProtocolInitiation_decode :: "Buffer \<Rightarrow> (ProtocolVersion option \<times> Buffer) result" where
  "ProtocolInitiation_decode b =
     (if 8 \<le> available b
      then res_bind (getOctet b) (\<lambda>(_, b). res_bind (getOctet b) (\<lambda>(_, b).
           res_bind (getOctet b) (\<lambda>(_, b). res_bind (getOctet b) (\<lambda>(_, b).
           res_bind (getOctet b) (\<lambda>(protocolClass, b).
             if protocolClass = 1
             then res_bind (getOctet b) (\<lambda>(_, b). res_bind (getOctet b) (\<lambda>(ma, b).
                  res_bind (getOctet b) (\<lambda>(mi, b).
                    Inr (Some \<lparr>version_major = ma, version_minor = mi,
                      version_protocol = protocolClass\<rparr>, b))))
             else res_bind (getOctet b) (\<lambda>(ma, b). res_bind (getOctet b) (\<lambda>(mi, b).
                  res_bind (getOctet b) (\<lambda>(_, b).
                    Inr (Some \<lparr>version_major = ma, version_minor = mi,
                      version_protocol = protocolClass\<rparr>, b)))))))))
      else Inr (None, b))"

section \<open>What is relied on for the bodies\<close>

text \<open>
  Methods and header bodies have encodings \<open>encm\<close> and \<open>ench\<close> of the announced size that \<open>encode\<close>
  writes and \<open>decode\<close> reads back; the type of a method is \<open>0\<close> (control) or \<open>1\<close> (command). A header body
  is decoded behind the 12 bytes of its frame's header.
\<close>

definition methods_ok :: "('m, 'z) methods_scheme \<Rightarrow> ('m \<Rightarrow> byte list) \<Rightarrow> bool" where
  "methods_ok B encm \<longleftrightarrow>
     (\<forall>m. (method_type B m = 0 \<or> method_type B m = 1) \<and> method_encodedSize B m = length (encm m)
        \<and> (\<forall>b. buf_wf b \<longrightarrow> length (encm m) \<le> available b \<longrightarrow>
             method_encode B b m = Inr (put_bytes b (encm m)))
        \<and> (\<forall>b xs. buf_wf b \<longrightarrow> buf_rest b = encm m @ xs \<longrightarrow>
             method_decode B (amqpClassId B m) (amqpMethodId B m) (length (encm m) + 2) b
               = Inr (m, advance b (length (encm m)))))"

definition bodies_ok ::
  "('m, 'h) bodies \<Rightarrow> ('m \<Rightarrow> byte list) \<Rightarrow> ('h \<Rightarrow> byte list) \<Rightarrow> bool" where
  "bodies_ok B encm ench \<longleftrightarrow> methods_ok B encm
     \<and> (\<forall>h. header_encodedSize B h = length (ench h)
        \<and> (\<forall>b. buf_wf b \<longrightarrow> length (ench h) \<le> available b \<longrightarrow>
             header_encode B b h = Inr (put_bytes b (ench h)))
        \<and> (\<forall>b xs. buf_wf b \<longrightarrow> available b + 12 < 2 ^ 32 \<longrightarrow> buf_rest b = ench h @ xs \<longrightarrow>
             header_decode B (length (ench h)) b = Inr (h, advance b (length (ench h)))))"

lemmas bodies_ok_defs = bodies_ok_def methods_ok_def

fun enc_body :: "('m, 'h) bodies \<Rightarrow> ('m \<Rightarrow> byte list) \<Rightarrow> ('h \<Rightarrow> byte list) \<Rightarrow> ('m, 'h) AMQBody \<Rightarrow> byte list" where
  "enc_body B encm ench (AMQMethodBody m) = [amqpClassId B m, amqpMethodId B m] @ encm m"
| "enc_body B encm ench (AMQHeaderBody h) = ench h"
| "enc_body B encm ench (AMQContentBody d) = d"
| "enc_body B encm ench AMQHeartbeatBody = []"

definition frame_track :: "('m, 'h) bodies \<Rightarrow> ('m, 'h) AMQFrame \<Rightarrow> 8 word" where
  "frame_track B f = (if body_type B (frame_body f) \<noteq> 0 then 1 else 0)"

definition enc_header :: "8 word \<Rightarrow> 8 word \<Rightarrow> 16 word \<Rightarrow> 8 word \<Rightarrow> 16 word \<Rightarrow> byte list" where
  "enc_header flags type sz track chan =
     [flags, type] @ be16 sz @ [0, track] @ be16 chan @ be32 0"

definition enc_frame ::
  "('m, 'h) bodies \<Rightarrow> ('m \<Rightarrow> byte list) \<Rightarrow> ('h \<Rightarrow> byte list) \<Rightarrow> ('m, 'h) AMQFrame \<Rightarrow> byte list" where
  "enc_frame B encm ench f =
     enc_header (frame_flags f) (body_type B (frame_body f)) (of_nat (AMQFrame_encodedSize B f))
       (frame_track B f) (channel f) @ enc_body B encm ench (frame_body f)"

lemma length_enc_header [simp]: "length (enc_header a b c d e) = 12"
  by (simp add: enc_header_def)

lemma frame_flags_bits [simp]:
  "drop_bit 6 (frame_flags f) = 0" "frame_flags f AND 0x30 = 0"
  "frame_flags f AND 8 \<noteq> 0 \<longleftrightarrow> bof f" "frame_flags f AND 4 \<noteq> 0 \<longleftrightarrow> eof f"
  "frame_flags f AND 2 \<noteq> 0 \<longleftrightarrow> bos f" "frame_flags f AND 1 \<noteq> 0 \<longleftrightarrow> eos f"
  by (cases "bof f"; cases "eof f"; cases "bos f"; cases "eos f"; simp add: frame_flags_def)+

lemma frame_track_bits [simp]:
  "0x0F AND frame_track B f = frame_track B f" "frame_track B f AND 0x0F = frame_track B f"
  "frame_track B f AND 0xF0 = 0"
  by (simp_all add: frame_track_def)

section \<open>Encoding and decoding of frames\<close>

lemma put_header:
  assumes "buf_wf b" and "12 \<le> available b"
  shows "res_bind (putOctet b flags) (\<lambda>b. res_bind (putOctet b type) (\<lambda>b.
      res_bind (putShort b sz) (\<lambda>b. res_bind (putOctet b 0) (\<lambda>b.
      res_bind (putOctet b track) (\<lambda>b. res_bind (putShort b chan) (\<lambda>b.
      res_bind (putLong b 0) k)))))) = k (put_bytes b (enc_header flags type sz track chan))"
  using assms
  by (auto simp: octet.put_law short.put_law long.put_law put_bytes_append enc_header_def)

lemma AMQFrame_encode_law:
  assumes ok: "bodies_ok B encm ench" and b: "buf_wf b" "length (enc_frame B encm ench f) \<le> available b"
  shows "AMQFrame_encode B b f = Inr (put_bytes b (enc_frame B encm ench f))"
proof -
  let ?h = "enc_header (frame_flags f) (body_type B (frame_body f))
    (of_nat (AMQFrame_encodedSize B f)) (frame_track B f) (channel f)"
  have len: "12 + length (enc_body B encm ench (frame_body f)) \<le> available b"
    using b by (simp add: enc_frame_def)
  have tail: "res_bind (case getMethod f of
          None \<Rightarrow> Inr (put_bytes b ?h)
        | Some m \<Rightarrow> res_bind (putOctet (put_bytes b ?h) (amqpClassId B m))
            (\<lambda>b. putOctet b (amqpMethodId B m)))
        (\<lambda>b. body_encode B b (frame_body f))
      = Inr (put_bytes b (?h @ enc_body B encm ench (frame_body f)))"
    using ok b len
    by (cases "frame_body f")
      (auto simp: getMethod_def bodies_ok_defs octet.put_law put_bytes_append putRawData_def)
  show ?thesis
    unfolding AMQFrame_encode_def Let_def frame_track_def [symmetric] frame_track_bits enc_frame_def
    by (subst put_header [OF b(1)]) (use len tail in simp_all)
qed

lemma AMQFrame_decode_header:
  assumes b: "buf_wf b" "buf_rest b = enc_header (frame_flags f) type sz (frame_track B f) chan @ xs"
    and size: "12 \<le> unat sz"
  shows "AMQFrame_decode B b =
    (if length xs < unat sz - 12 then Inr (None, b)
     else res_bind (decode_body B type (unat sz - 12) (advance b 12)) (\<lambda>(body, b).
       Inr (Some \<lparr>frame_body = body, channel = chan, subchannel = frame_track B f,
         bof = bof f, eof = eof f, bos = bos f, eos = eos f\<rparr>, b)))"
proof -
  have av: "available b = 12 + length xs"
    using length_buf_rest [OF b(1)] b(2) by simp
  have rest: "buf_rest b = frame_flags f # type # be16 sz @ 0 # frame_track B f # be16 chan @ be32 0 @ xs"
    using b(2) by (simp add: enc_header_def)
  have "getOctet b = Inr (frame_flags f, advance b 1)"
    "getOctet (advance b 1) = Inr (type, advance b 2)"
    "getShort (advance b 2) = Inr (sz, advance b 4)"
    "getOctet (advance b 4) = Inr (0, advance b 5)"
    "getOctet (advance b 5) = Inr (frame_track B f, advance b 6)"
    "getShort (advance b 6) = Inr (chan, advance b 8)"
    "getLong (advance b 8) = Inr (0, advance b 12)"
    using octet.get_law [of b "frame_flags f"] octet.get_law [of "advance b 1" type]
      short.get_law [of "advance b 2" sz] octet.get_law [of "advance b 4" 0]
      octet.get_law [of "advance b 5" "frame_track B f"] short.get_law [of "advance b 6" chan]
      long.get_law [of "advance b 8" 0] b(1) av rest
    by (simp_all add: eval_nat_numeral drop_Cons')
  moreover have "setPosition (advance b 12) (buf_position b) = b"
    by (simp add: setPosition_def advance_def)
  ultimately show ?thesis
    using b(1) av size by (simp add: AMQFrame_decode_def frameOverhead_def Let_def not_less)
qed

lemma AMQFrame_encodedSize_conv:
  "bodies_ok B encm ench \<Longrightarrow> AMQFrame_encodedSize B f = length (enc_frame B encm ench f)"
  by (cases "frame_body f")
    (simp_all add: AMQFrame_encodedSize_def enc_frame_def frameOverhead_def getMethod_def bodies_ok_defs)

lemma length_enc_frame:
  "length (enc_frame B encm ench f) = 12 + length (enc_body B encm ench (frame_body f))"
  by (simp add: enc_frame_def)

lemma frame_size_field:
  assumes "bodies_ok B encm ench" and "length (enc_frame B encm ench f) < 65536"
  shows "unat (of_nat (AMQFrame_encodedSize B f) :: 16 word)
    = 12 + length (enc_body B encm ench (frame_body f))"
  unfolding AMQFrame_encodedSize_conv [OF assms(1)]
  using assms(2) by (simp only: unat_of_nat) (simp add: length_enc_frame)

lemma available_bound: "buf_wf b \<Longrightarrow> available b < 2 ^ 32"
  using available_nat [of b] unsigned_less [of "buf_size b", where 'a = nat] by simp

lemma decode_body_law:
  assumes ok: "bodies_ok B encm ench" and b: "buf_wf b" "available b + 12 < 2 ^ 32" "buf_rest b = enc_body B encm ench body @ xs"
  shows "decode_body B (body_type B body) (length (enc_body B encm ench body)) b
    = Inr (body, advance b (length (enc_body B encm ench body)))"
proof (cases body)
  case (AMQMethodBody m)
  have av: "2 + length (encm m) \<le> available b"
    using length_buf_rest [OF b(1)] b(3) AMQMethodBody by simp
  have "getOctet b = Inr (amqpClassId B m, advance b 1)"
    "getOctet (advance b 1) = Inr (amqpMethodId B m, advance b 2)"
    using octet.get_law [of b "amqpClassId B m"] octet.get_law [of "advance b 1" "amqpMethodId B m"]
      b av AMQMethodBody by (simp_all add: numeral_2_eq_2)
  moreover have "method_decode B (amqpClassId B m) (amqpMethodId B m) (length (encm m) + 2) (advance b 2)
      = Inr (m, advance b (length (encm m) + 2))"
    using ok b av AMQMethodBody
    by (fastforce simp: bodies_ok_defs numeral_2_eq_2)
  ultimately show ?thesis
    using ok AMQMethodBody by (auto simp: decode_body_def bodies_ok_defs)
next
  case (AMQContentBody d)
  then show ?thesis
    using b length_buf_rest [OF b(1)] get_bytes_conv [of b d]
    by (simp add: decode_body_def getRawData_def)
qed (use ok b in \<open>auto simp: decode_body_def bodies_ok_defs\<close>)

text \<open>What \<open>decode\<close> returns for the encoding of \<open>f\<close>: the frame, with the track it was sent on.\<close>

definition received :: "('m, 'h) bodies \<Rightarrow> ('m, 'h) AMQFrame \<Rightarrow> ('m, 'h) AMQFrame" where
  "received B f = f\<lparr>subchannel := frame_track B f\<rparr>"

lemma AMQFrame_decode_law:
  assumes ok: "bodies_ok B encm ench" and len: "length (enc_frame B encm ench f) < 65536"
    and b: "buf_wf b" "buf_rest b = enc_frame B encm ench f @ xs"
  shows "AMQFrame_decode B b = Inr (Some (received B f), advance b (length (enc_frame B encm ench f)))"
proof -
  let ?body = "enc_body B encm ench (frame_body f)"
  have sz: "unat (of_nat (AMQFrame_encodedSize B f) :: 16 word) = 12 + length ?body"
    by (rule frame_size_field [OF ok len])
  have "12 + length ?body \<le> available b" and rest: "buf_rest (advance b 12) = ?body @ xs"
    using length_buf_rest [OF b(1)] b by (simp_all add: enc_frame_def)
  then have "decode_body B (body_type B (frame_body f)) (length ?body) (advance b 12)
      = Inr (frame_body f, advance b (12 + length ?body))"
    using decode_body_law [OF ok _ _ rest] available_bound [OF b(1)] b(1) by simp
  note body = this
  have rest: "buf_rest b = enc_header (frame_flags f) (body_type B (frame_body f))
      (of_nat (AMQFrame_encodedSize B f)) (frame_track B f) (channel f) @ ?body @ xs"
    using b by (simp add: enc_frame_def)
  have size: "12 \<le> unat (of_nat (AMQFrame_encodedSize B f) :: 16 word)"
    by (simp only: sz)
  show ?thesis
    using AMQFrame_decode_header [OF b(1) rest size, unfolded sz] body
    by (simp add: received_def enc_frame_def)
qed

lemma AMQFrame_decode_partial:
  assumes ok: "bodies_ok B encm ench" and len: "length (enc_frame B encm ench f) < 65536"
    and b: "buf_wf b" "buf_rest b = take n (enc_frame B encm ench f)"
    and n: "n < length (enc_frame B encm ench f)"
  shows "AMQFrame_decode B b = Inr (None, b)"
proof (cases "n < 12")
  case True
  then show ?thesis
    using length_buf_rest [OF b(1)] b(2) n by (simp add: AMQFrame_decode_def frameOverhead_def)
next
  case False
  let ?body = "enc_body B encm ench (frame_body f)"
  have sz: "unat (of_nat (AMQFrame_encodedSize B f) :: 16 word) = 12 + length ?body"
    by (rule frame_size_field [OF ok len])
  have rest: "buf_rest b = enc_header (frame_flags f) (body_type B (frame_body f))
      (of_nat (AMQFrame_encodedSize B f)) (frame_track B f) (channel f) @ take (n - 12) ?body"
    using b False by (simp add: enc_frame_def)
  have size: "12 \<le> unat (of_nat (AMQFrame_encodedSize B f) :: 16 word)"
    by (simp only: sz)
  show ?thesis
    using AMQFrame_decode_header [OF b(1) rest size, unfolded sz] n False
    by (auto simp: length_enc_frame)
qed

section \<open>The frame decoder on a frame that arrives in pieces\<close>

lemma append_fragment_conv:
  assumes "buf_wf b" and "n = min k (available b)"
  shows "append_fragment bytes b k = Inr (bytes @ take n (buf_rest b), advance b n)"
proof (cases "n = 0")
  case False
  have "get_bytes b n = (take n (buf_rest b), advance b n)"
    using get_bytes_conv [of b "take n (buf_rest b)" "drop n (buf_rest b)"] assms
      length_buf_rest [of b] by (simp add: min_def split: if_splits)
  then show ?thesis
    using assms False by (auto simp: append_fragment_def getRawData_def Let_def)
qed (use assms in \<open>auto simp: append_fragment_def\<close>)

lemma Buffer_init_conv:
  assumes "length bytes < 2 ^ 32"
  shows "buf_wf (Buffer_init bytes (of_nat (length bytes)))"
    and "buf_rest (Buffer_init bytes (of_nat (length bytes))) = bytes"
    and "available (Buffer_init bytes (of_nat (length bytes))) = length bytes"
proof -
  have u: "unat (of_nat (length bytes) :: 32 word) = length bytes"
    using assms by (simp only: unat_of_nat) simp
  then show "buf_wf (Buffer_init bytes (of_nat (length bytes)))"
    and "buf_rest (Buffer_init bytes (of_nat (length bytes))) = bytes"
    by (simp_all add: buf_wf_def buf_rest_def Buffer_init_def word_le_nat_alt)
  then show "available (Buffer_init bytes (of_nat (length bytes))) = length bytes"
    using length_buf_rest by metis
qed

lemma decodeSize_law:
  assumes "length bytes \<ge> 4" and "take 2 (drop 2 bytes) = be16 sz"
  shows "decodeSize bytes = Inr sz"
proof -
  have "drop 2 bytes ! 0 = ucast (drop_bit 8 sz)" "drop 2 bytes ! 1 = ucast sz"
    using arg_cong [OF assms(2), of "\<lambda>xs. xs ! 0"] arg_cong [OF assms(2), of "\<lambda>xs. xs ! 1"]
    by (simp_all add: be16_def)
  then show ?thesis
    by (simp add: decodeSize_def getShort_def Buffer_init_def next_byte_def skip_byte_def
        available_def join16)
qed

lemma enc_frame_size_bytes:
  "take 2 (drop 2 (enc_frame B encm ench f)) = be16 (of_nat (AMQFrame_encodedSize B f))"
  by (simp add: enc_frame_def enc_header_def)

text \<open>The decoder holds the first \<open>k\<close> bytes of the encoding of \<open>f\<close>.\<close>

definition holds_prefix ::
  "('m, 'h) bodies \<Rightarrow> ('m \<Rightarrow> byte list) \<Rightarrow> ('h \<Rightarrow> byte list) \<Rightarrow> ('m, 'h) AMQFrame \<Rightarrow> nat
     \<Rightarrow> ('m, 'h) FrameDecoder \<Rightarrow> bool" where
  "holds_prefix B encm ench f k d \<longleftrightarrow>
     k < length (enc_frame B encm ench f) \<and> fragment d = take k (enc_frame B encm ench f)"

lemma FrameDecoder_start:
  assumes ok: "bodies_ok B encm ench" and len: "length (enc_frame B encm ench f) < 65536"
    and d: "fragment d = []" and b: "buf_wf b" "buf_rest b = take n (enc_frame B encm ench f @ ys)"
    and n: "n = available b"
  shows "FrameDecoder_decode B d b =
    (if n < length (enc_frame B encm ench f)
     then Inr (False, d\<lparr>fragment := take n (enc_frame B encm ench f)\<rparr>, advance b n)
     else Inr (True, d\<lparr>fragment := [], decoded := Some (received B f)\<rparr>,
            advance b (length (enc_frame B encm ench f))))"
proof -
  let ?e = "enc_frame B encm ench f"
  consider "n = 0" | "0 < n" "n < length ?e" | "length ?e \<le> n" by linarith
  then show ?thesis
  proof cases
    case 1
    then show ?thesis
      using d n by (cases d) (simp add: FrameDecoder_decode_def length_enc_frame)
  next
    case 2
    then have rest: "buf_rest b = take n ?e" using b by simp
    then have "append_fragment [] b (available b) = Inr (take n ?e, advance b n)"
      using append_fragment_conv [OF b(1), of n] n by simp
    then show ?thesis
      using AMQFrame_decode_partial [OF ok len b(1) rest 2(2)] 2 d n
      by (simp add: FrameDecoder_decode_def)
  next
    case 3
    then have "buf_rest b = ?e @ take (n - length ?e) ys" using b by simp
    then have "AMQFrame_decode B b = Inr (Some (received B f), advance b (length ?e))"
      using AMQFrame_decode_law [OF ok len b(1)] by blast
    moreover have "available b \<noteq> 0" using 3 n by (simp add: length_enc_frame)
    ultimately show ?thesis
      using 3 d by (cases d) (simp add: FrameDecoder_decode_def)
  qed
qed

lemma append_prefix:
  assumes "buf_wf b" and "buf_rest b = take (available b) (drop k e @ ys)" and "k + m \<le> length e"
    and "j = min m (available b)"
  shows "append_fragment (take k e) b m = Inr (take (k + j) e, advance b j)"
    and "buf_rest (advance b j) = take (available (advance b j)) (drop (k + j) e @ ys)"
proof -
  show "append_fragment (take k e) b m = Inr (take (k + j) e, advance b j)"
    using append_fragment_conv [OF assms(1), of j m "take k e"] assms
    by (simp add: take_add)
  show "buf_rest (advance b j) = take (available (advance b j)) (drop (k + j) e @ ys)"
    using assms by (simp add: drop_take add.commute)
qed

lemma FrameDecoder_finish:
  assumes ok: "bodies_ok B encm ench" and len: "length (enc_frame B encm ench f) < 65536"
    and k: "4 \<le> k" "k < length (enc_frame B encm ench f)"
    and b: "buf_wf b" "buf_rest b = take (available b) (drop k (enc_frame B encm ench f) @ ys)"
  shows "res_bind (decodeSize (take k (enc_frame B encm ench f))) (\<lambda>sz.
      throw_if (unat sz \<le> length (take k (enc_frame B encm ench f))) FramingErrorException
      (res_bind (append_fragment (take k (enc_frame B encm ench f)) b
          (unat sz - length (take k (enc_frame B encm ench f)))) (\<lambda>(fr, b).
       res_bind (AMQFrame_decode B (Buffer_init fr (of_nat (length fr)))) (\<lambda>(g, b').
         case g of
           None \<Rightarrow> Inr (False, d\<lparr>fragment := fr\<rparr>, b)
         | Some g \<Rightarrow> throw_if (available b' \<noteq> 0) AssertionFailed
             (Inr (True, d\<lparr>fragment := [], decoded := Some g\<rparr>, b))))))
    = (if k + available b < length (enc_frame B encm ench f)
       then Inr (False, d\<lparr>fragment := take (k + available b) (enc_frame B encm ench f)\<rparr>,
              advance b (available b))
       else Inr (True, d\<lparr>fragment := [], decoded := Some (received B f)\<rparr>,
              advance b (length (enc_frame B encm ench f) - k)))"
proof -
  let ?e = "enc_frame B encm ench f" and ?j = "min (length (enc_frame B encm ench f) - k) (available b)"
  have sz: "unat (of_nat (AMQFrame_encodedSize B f) :: 16 word) = length ?e"
    using frame_size_field [OF ok len] by (simp add: length_enc_frame)
  have "take 2 (drop 2 (take k ?e)) = take 2 (drop 2 ?e)"
    using k by (simp add: drop_take)
  then have size: "decodeSize (take k ?e) = Inr (of_nat (AMQFrame_encodedSize B f))"
    using k enc_frame_size_bytes by (intro decodeSize_law) auto
  have app: "append_fragment (take k ?e) b (length ?e - k) = Inr (take (k + ?j) ?e, advance b ?j)"
    using append_prefix(1) [OF b _ refl, of "length ?e - k"] k by simp
  have "length (take (k + ?j) ?e) < 2 ^ 32" using len by simp
  note init = Buffer_init_conv [OF this]
  let ?B = "Buffer_init (take (k + ?j) ?e) (of_nat (length (take (k + ?j) ?e)))"
  have dec: "AMQFrame_decode B ?B = (if k + available b < length ?e then Inr (None, ?B)
      else Inr (Some (received B f), advance ?B (length ?e)))"
  proof (cases "k + available b < length ?e")
    case True
    then show ?thesis
      using AMQFrame_decode_partial [OF ok len init(1,2)] by simp
  next
    case False
    then have full: "take (k + ?j) ?e = ?e" using k by simp
    show ?thesis
      using AMQFrame_decode_law [OF ok len, of ?B "[]"] init False unfolding full by simp
  qed
  have "available (advance ?B (length ?e)) = 0" if "\<not> k + available b < length ?e"
    using init that k by simp
  then show ?thesis
    using k app dec size sz by (auto simp: min_def)
qed

lemma FrameDecoder_continue:
  assumes ok: "bodies_ok B encm ench" and len: "length (enc_frame B encm ench f) < 65536"
    and d: "holds_prefix B encm ench f k d" and k: "0 < k"
    and b: "buf_wf b" "buf_rest b = take (available b) (drop k (enc_frame B encm ench f) @ ys)"
  shows "FrameDecoder_decode B d b =
    (if k + available b < length (enc_frame B encm ench f)
     then Inr (False, d\<lparr>fragment := take (k + available b) (enc_frame B encm ench f)\<rparr>,
            advance b (available b))
     else Inr (True, d\<lparr>fragment := [], decoded := Some (received B f)\<rparr>,
            advance b (length (enc_frame B encm ench f) - k)))"
proof -
  let ?e = "enc_frame B encm ench f" and ?j = "min (4 - k) (available b)"
  have fr: "fragment d = take k ?e" "fragment d \<noteq> []" and kl: "k < length ?e"
    using d k unfolding holds_prefix_def by auto
  have app: "append_fragment (take k ?e) b (4 - k) = Inr (take (k + ?j) ?e, advance b ?j)"
    and rest: "buf_rest (advance b ?j) = take (available (advance b ?j)) (drop (k + ?j) ?e @ ys)"
    using append_prefix [OF b _ refl, of "4 - k"] kl by (simp_all add: length_enc_frame)
  have wf: "buf_wf (advance b ?j)" using b by simp
  note dec = FrameDecoder_decode_def [of B d b, unfolded DECODE_SIZE_MIN_def]
  consider "available b = 0" | "0 < available b" "4 \<le> k"
    | "0 < available b" "k < 4" "k + available b < 4" | "0 < available b" "k < 4" "4 \<le> k + available b"
    by linarith
  then show ?thesis
  proof cases
    case 1
    then show ?thesis using fr kl by (cases d) (simp add: FrameDecoder_decode_def)
  next
    case 2
    then show ?thesis
      using FrameDecoder_finish [OF ok len 2(2) kl b, of d] fr kl by (simp add: dec)
  next
    case 3
    then show ?thesis using fr kl app by (simp add: dec length_enc_frame min_def)
  next
    case 4
    then have j: "k + ?j = 4" by simp
    show ?thesis
      using FrameDecoder_finish [OF ok len _ _ wf rest, of d] 4 j fr kl b app
      by (simp add: dec length_enc_frame add.commute)
  qed
qed

text \<open>
  C21. A frame that arrives in pieces. While the decoder holds the first \<open>k\<close> bytes of the encoding of a
  frame (none of them at the start), a buffer with the following bytes of the stream is consumed as far
  as the frame reaches: if the frame is still incomplete, everything is kept and \<open>decode\<close> answers false;
  otherwise it answers true with exactly the frame that was encoded (on the track of its type), keeps
  nothing, and leaves the bytes after the frame in the buffer. It never throws and its assertion holds,
  wherever the stream is cut. The bodies are decoded from what they are encoded as, the size of the frame is below
  \<open>2 ^ 16\<close>.
\<close>

theorem FrameDecoder_fragments:
  assumes "bodies_ok B encm ench" and "AMQFrame_encodedSize B f < 65536"
    and "holds_prefix B encm ench f k d"
    and "buf_wf b" and "buf_rest b = take (available b) (drop k (enc_frame B encm ench f) @ ys)"
  shows "FrameDecoder_decode B d b =
    (if k + available b < AMQFrame_encodedSize B f
     then Inr (False, d\<lparr>fragment := take (k + available b) (enc_frame B encm ench f)\<rparr>,
            advance b (available b))
     else Inr (True, \<lparr>fragment = [], decoded = Some (f\<lparr>subchannel := frame_track B f\<rparr>)\<rparr>,
            advance b (AMQFrame_encodedSize B f - k)))"
proof -
  have len: "length (enc_frame B encm ench f) < 65536"
    using assms(1,2) by (simp add: AMQFrame_encodedSize_conv)
  have "FrameDecoder_decode B d b =
    (if k + available b < length (enc_frame B encm ench f)
     then Inr (False, d\<lparr>fragment := take (k + available b) (enc_frame B encm ench f)\<rparr>,
            advance b (available b))
     else Inr (True, d\<lparr>fragment := [], decoded := Some (received B f)\<rparr>,
            advance b (length (enc_frame B encm ench f) - k)))"
  proof (cases "k = 0")
    case True
    then show ?thesis
      using FrameDecoder_start [OF assms(1) len _ assms(4), of d "available b" ys] assms(3,5)
      by (simp add: holds_prefix_def)
  next
    case False
    then show ?thesis using FrameDecoder_continue [OF assms(1) len assms(3) _ assms(4,5)] by simp
  qed
  then show ?thesis
    using AMQFrame_encodedSize_conv [OF assms(1)] by (cases d) (simp add: received_def)
qed

text \<open>
  Bodies for the witnesses: a method is its type, class and method octet with one argument octet, the
  header properties are one octet.
\<close>

definition tiny_bodies :: "(bool \<times> 8 word \<times> 8 word \<times> 8 word, 8 word) bodies" where
  "tiny_bodies = \<lparr>amqpClassId = (\<lambda>(_, c, _). c), amqpMethodId = (\<lambda>(_, _, m, _). m),
     method_type = (\<lambda>(_, c, _). if c < 4 then 0 else 1), method_encodedSize = (\<lambda>_. 2),
     method_encode = (\<lambda>b (t, _, _, a). res_bind (putOctet b (if t then 1 else 0)) (\<lambda>b. putOctet b a)),
     method_decode = (\<lambda>c m _ b. res_bind (getOctet b) (\<lambda>(t, b). res_bind (getOctet b) (\<lambda>(a, b).
       Inr ((t = 1, c, m, a), b)))),
     header_encodedSize = (\<lambda>_. 1), header_encode = putOctet, header_decode = (\<lambda>_. getOctet)\<rparr>"

lemma get_two:
  assumes "buf_wf b" and "buf_rest b = x # y # xs"
  shows "getOctet b = Inr (x, advance b 1)" and "getOctet (advance b 1) = Inr (y, advance b 2)"
  using octet.get_law [of b x] octet.get_law [of "advance b 1" y] assms
    length_buf_rest [OF assms(1)] by (simp_all add: numeral_2_eq_2)

lemma tiny_bodies_ok:
  "bodies_ok tiny_bodies (\<lambda>(t, _, _, a). [if t then 1 else 0, a]) (\<lambda>h. [h])"
  unfolding bodies_ok_defs
  by (auto simp: tiny_bodies_def octet.put_law put_bytes_append octet.get_law
      get_two get_two(2) [unfolded One_nat_def]
      simp flip: numeral_2_eq_2)

text \<open>A method frame of 16 bytes, of which 3 are held, and a buffer with the other 13 and two more.\<close>

theorem FrameDecoder_fragments_witness:
  "FrameDecoder_decode tiny_bodies \<lparr>fragment = [15, 1, 0], decoded = None\<rparr>
      (Buffer_init [16, 0, 1, 0, 5, 0, 0, 0, 0, 4, 7, 1, 9, 15, 3] 15)
    = Inr (True, \<lparr>fragment = [],
        decoded = Some ((AMQFrame_init (AMQMethodBody (True, 4, 7, 9)))\<lparr>channel := 5, subchannel := 1\<rparr>)\<rparr>,
        \<lparr>buf_size = 15, buf_data = [16, 0, 1, 0, 5, 0, 0, 0, 0, 4, 7, 1, 9, 15, 3], buf_position = 13\<rparr>)"
  using FrameDecoder_fragments [OF tiny_bodies_ok,
    of "(AMQFrame_init (AMQMethodBody (True, 4, 7, 9)))\<lparr>channel := 5\<rparr>" 3
      "\<lparr>fragment = [15, 1, 0], decoded = None\<rparr>"
      "Buffer_init [16, 0, 1, 0, 5, 0, 0, 0, 0, 4, 7, 1, 9, 15, 3] 15" "[15, 3]"]
  by (simp add: AMQFrame_init_def AMQFrame_encodedSize_def frameOverhead_def getMethod_def
      tiny_bodies_def holds_prefix_def enc_frame_def enc_header_def frame_flags_def frame_track_def
      be16_def be32_def Buffer_init_def buf_wf_def buf_rest_def available_def advance_def)

text \<open>
  C33. The frame round trip, for bodies that are decoded from what they are encoded as (for the header body this is
  shown in \<open>AMQ_Header_Body\<close>, from the generated property structs): a frame whose size fits the 16-bit size field and the buffer is encoded
  in exactly \<open>encodedSize\<close> bytes, and \<open>decode\<close> from there returns it (on the track of its type) and
  consumes exactly those bytes.
\<close>

theorem AMQFrame_round_trip:
  assumes "bodies_ok B encm ench" and "AMQFrame_encodedSize B f < 65536"
    and "buf_wf b" and "AMQFrame_encodedSize B f \<le> available b"
  shows "\<exists>b'. AMQFrame_encode B b f = Inr b' \<and> buf_wf b'
    \<and> available b' = available b - AMQFrame_encodedSize B f
    \<and> AMQFrame_decode B (setPosition b' (buf_position b))
        = Inr (Some (f\<lparr>subchannel := frame_track B f\<rparr>), b')"
proof -
  let ?e = "enc_frame B encm ench f"
  have len: "length ?e \<le> available b" "length ?e < 65536"
    using assms by (simp_all add: AMQFrame_encodedSize_conv)
  note put = setPosition_put_bytes [OF assms(3) len(1)]
  have "AMQFrame_decode B (setPosition (put_bytes b ?e) (buf_position b))
      = Inr (Some (received B f), put_bytes b ?e)"
    using AMQFrame_decode_law [OF assms(1) len(2)] put by metis
  then show ?thesis
    using AMQFrame_encode_law [OF assms(1,3) len(1)] len assms(3) AMQFrame_encodedSize_conv [OF assms(1)]
    by (simp add: received_def)
qed

theorem AMQFrame_round_trip_witness:
  "AMQFrame_decode tiny_bodies (Buffer_init [14, 3, 0, 14, 0, 1, 0, 2, 0, 0, 0, 0, 104, 105, 99] 15)
    = Inr (Some \<lparr>frame_body = AMQContentBody [104, 105], channel = 2, subchannel = 1,
        bof = True, eof = True, bos = True, eos = False\<rparr>,
      \<lparr>buf_size = 15, buf_data = [14, 3, 0, 14, 0, 1, 0, 2, 0, 0, 0, 0, 104, 105, 99],
        buf_position = 14\<rparr>)"
  using AMQFrame_round_trip [OF tiny_bodies_ok,
    of "(AMQFrame_init (AMQContentBody [104, 105]))\<lparr>channel := 2, eos := False\<rparr>"
      "Buffer_init [0, 0, 0, 0, 0, 0, 0, 0, 0, 0, 0, 0, 0, 0, 99] 15"]
  by (simp add: AMQFrame_init_def AMQFrame_encodedSize_def frameOverhead_def getMethod_def
      AMQFrame_encode_def putOctet_def putShort_def putLong_def put_byte_def putRawData_def put_bytes_def
      frame_flags_def frame_track_def Buffer_init_def buf_wf_def available_def setPosition_def)

lemma getOctet_nth:
  assumes "buf_wf b" and "n < available b"
  shows "getOctet (advance b n) = Inr (buf_rest b ! n, advance b (Suc n))"
proof -
  have "buf_rest (advance b n) = [buf_rest b ! n] @ drop (Suc n) (buf_rest b)"
    using assms by (simp add: Cons_nth_drop_Suc length_buf_rest)
  then show ?thesis
    using octet.get_law [of "advance b n" "buf_rest b ! n"] assms by simp
qed

definition enc_version :: "ProtocolVersion \<Rightarrow> byte list" where
  "enc_version v = [65, 77, 81, 80] @
     (if version_major v = 1 then [version_protocol v, version_major v, version_minor v, 0]
      else [1, 1, version_major v, version_minor v])"

lemma length_enc_version [simp]: "length (enc_version v) = 8"
  by (simp add: enc_version_def)

lemma ProtocolInitiation_encode_law:
  assumes "buf_wf b"
  shows "ProtocolInitiation_encode b v =
    (if 8 \<le> available b then Inr (put_bytes b (enc_version v)) else Inl OutOfBounds)"
  using assms
  by (auto simp: ProtocolInitiation_encode_def enc_version_def octet.put_law put_bytes_append
      split: if_splits)

lemma ProtocolInitiation_decode_law:
  assumes "buf_wf b" and "buf_rest b = enc_version v @ xs"
    and "version_major v = 1 \<longrightarrow> version_protocol v \<noteq> 1"
  shows "ProtocolInitiation_decode b
    = Inr (Some (if version_major v = 1 then v else v\<lparr>version_protocol := 1\<rparr>), advance b 8)"
proof -
  have av: "8 \<le> available b"
    using length_buf_rest [OF assms(1)] assms(2) by simp
  then have get: "n < 8 \<Longrightarrow> getOctet (advance b n) = Inr (enc_version v ! n, advance b (Suc n))" for n
    using getOctet_nth [OF assms(1), of n] assms(2) by (simp add: nth_append)
  show ?thesis
    using get [of 0] get [of 1] get [of 2] get [of 3] get [of 4] get [of 5] get [of 6] get [of 7] av assms(3)
    by (cases v) (simp add: ProtocolInitiation_decode_def enc_version_def numeral_nat split: if_splits)
qed

text \<open>
  The protocol header round trips: its eight bytes give back the version, and with fewer than
  eight bytes nothing is written or read. The protocol id survives only for major version 1 (where it
  must not be 1, the class of the older header); for every other version \<open>decode\<close> returns 1, which
  \<open>ProtocolVersion::operator==\<close> does not compare.
\<close>

theorem ProtocolInitiation_round_trip:
  assumes "buf_wf b" and "version_major v = 1 \<longrightarrow> version_protocol v \<noteq> 1"
  shows "if available b < 8
    then ProtocolInitiation_encode b v = Inl OutOfBounds \<and> ProtocolInitiation_decode b = Inr (None, b)
    else \<exists>b'. ProtocolInitiation_encode b v = Inr b' \<and> available b' = available b - 8
      \<and> ProtocolInitiation_decode (setPosition b' (buf_position b))
          = Inr (Some (if version_major v = 1 then v else v\<lparr>version_protocol := 1\<rparr>), b')"
proof (cases "available b < 8")
  case True
  then show ?thesis
    using ProtocolInitiation_encode_law [OF assms(1)] by (simp add: ProtocolInitiation_decode_def)
next
  case False
  have fits: "length (enc_version v) \<le> available b" using False by simp
  note put = setPosition_put_bytes [OF assms(1) fits]
  show ?thesis
    using ProtocolInitiation_encode_law [OF assms(1), of v] False put_bytes_wf [OF assms(1) fits]
      ProtocolInitiation_decode_law [OF put(1,2) assms(2)] put(3) by simp
qed

theorem ProtocolInitiation_round_trip_witness:
  "ProtocolInitiation_decode (Buffer_init [65, 77, 81, 80, 1, 1, 0, 10] 8)
    = Inr (Some \<lparr>version_major = 0, version_minor = 10, version_protocol = 1\<rparr>,
        \<lparr>buf_size = 8, buf_data = [65, 77, 81, 80, 1, 1, 0, 10], buf_position = 8\<rparr>)"
  using ProtocolInitiation_round_trip [of "Buffer_init [0, 0, 0, 0, 0, 0, 0, 0] 8"
      "\<lparr>version_major = 0, version_minor = 10, version_protocol = 0\<rparr>"]
  by (simp add: Buffer_init_def buf_wf_def available_def ProtocolInitiation_encode_def putOctet_def
      put_byte_def setPosition_def)

end
