(* ===== verification/Session_State.thy ===== *)
theory Session_State
  imports Sequence_Set AMQ_Frame
begin

text \<open>
  Session state for replay and duplicate detection: \<open>qpid::SessionPoint\<close> and \<open>qpid::SessionState\<close>
  (\<open>src/qpid/SessionState.h\<close>, \<open>src/qpid/SessionState.cpp\<close>). The sender keeps the frames that the peer has
  not confirmed and can replay them from a command boundary; the receiver tells frames it sees for
  the first time from replayed ones and keeps the sets of incomplete and completed commands. Byte
  counts are \<open>size_t\<close>, 64-bit words. An operation that may throw after it has changed the state returns
  the state together with the exception, if any. The session id and the log are left out.
\<close>

type_synonym 's outcome = "qpid_error option \<times> 's"

section \<open>Points in a session\<close>

record SessionPoint =
  command :: SequenceNumber
  offset :: "64 word"

definition isControl :: "('m, 'h) bodies \<Rightarrow> ('m, 'h) AMQFrame \<Rightarrow> bool" where
  "isControl B f = (case getMethod f of None \<Rightarrow> False | Some m \<Rightarrow> method_type B m = 0)"

definition isCommand :: "('m, 'h) bodies \<Rightarrow> ('m, 'h) AMQFrame \<Rightarrow> bool" where
  "isCommand B f = (case getMethod f of None \<Rightarrow> False | Some m \<Rightarrow> method_type B m = 1)"

abbreviation frame_size :: "('m, 'h) bodies \<Rightarrow> ('m, 'h) AMQFrame \<Rightarrow> 64 word" where
  "frame_size B f \<equiv> of_nat (AMQFrame_encodedSize B f)"

definition SessionPoint_advance ::
  "('m, 'h) bodies \<Rightarrow> SessionPoint \<Rightarrow> ('m, 'h) AMQFrame \<Rightarrow> SessionPoint result" where
  "SessionPoint_advance B p f =
     (if isControl B f then Inr p
      else if bof f \<and> bos f
      then if offset p \<noteq> 0 then Inl FramingErrorException
           else if \<not> isCommand B f then Inl FramingErrorException
           else if eof f \<and> eos f then Inr (p\<lparr>command := SequenceNumber_incr (command p)\<rparr>)
           else Inr (p\<lparr>offset := offset p + frame_size B f\<rparr>)
      else if offset p = 0 then Inl FramingErrorException
           else if eof f \<and> eos f then Inr \<lparr>command = SequenceNumber_incr (command p), offset = 0\<rparr>
           else Inr (p\<lparr>offset := offset p + frame_size B f\<rparr>))"

definition SessionPoint_less :: "SessionPoint \<Rightarrow> SessionPoint \<Rightarrow> bool" where
  "SessionPoint_less p q \<longleftrightarrow> SequenceNumber_less (command p) (command q)
     \<or> (command p = command q \<and> offset p < offset q)"

section \<open>The state\<close>

record ('m, 'h) SendState =
  replayPoint :: SessionPoint
  flushPoint :: SessionPoint
  sendPoint :: SessionPoint
  replayList :: "('m, 'h) AMQFrame list"
  unflushedSize :: "64 word"
  replaySize :: "64 word"
  sent_incomplete :: SequenceSet
  sent_bytesSinceKnownCompleted :: "64 word"

record ReceiveState =
  expected :: SessionPoint
  received_to :: SessionPoint
  unknownCompleted :: SequenceSet
  incomplete :: SequenceSet
  bytesSinceKnownCompleted :: "64 word"

record ('m, 'h) SessionState =
  sender :: "('m, 'h) SendState"
  receiver :: ReceiveState
  timeout :: "32 word"
  replayFlushLimit :: "64 word"
  replayHardLimit :: "64 word"
  stateful :: bool
  receiverTrackingDisabled :: bool

definition point0 :: SessionPoint where
  "point0 = \<lparr>command = 0, offset = 0\<rparr>"

definition SessionState_init :: "64 word \<Rightarrow> 64 word \<Rightarrow> ('m, 'h) SessionState" where
  "SessionState_init flush hard =
     \<lparr>sender = \<lparr>replayPoint = point0, flushPoint = point0, sendPoint = point0, replayList = [],
        unflushedSize = 0, replaySize = 0, sent_incomplete = [], sent_bytesSinceKnownCompleted = 0\<rparr>,
      receiver = \<lparr>expected = point0, received_to = point0, unknownCompleted = [], incomplete = [],
        bytesSinceKnownCompleted = 0\<rparr>,
      timeout = 0, replayFlushLimit = flush, replayHardLimit = hard, stateful = False,
      receiverTrackingDisabled = False\<rparr>"

definition setTimeout :: "('m, 'h) SessionState \<Rightarrow> 32 word \<Rightarrow> ('m, 'h) SessionState" where
  "setTimeout s seconds = s\<lparr>timeout := seconds\<rparr>"

definition hasState :: "('m, 'h) SessionState \<Rightarrow> bool" where
  "hasState s = stateful s"

section \<open>The sender\<close>

text \<open>The loop of \<open>senderExpected\<close>: the point reached and the rest of the list.\<close>

fun expected_loop ::
  "('m, 'h) bodies \<Rightarrow> SessionPoint \<Rightarrow> SessionPoint \<Rightarrow> ('m, 'h) AMQFrame list
     \<Rightarrow> (SessionPoint \<times> ('m, 'h) AMQFrame list) result" where
  "expected_loop B expect p [] = Inr (p, [])"
| "expected_loop B expect p (f # fs) =
     (if SequenceNumber_less (command p) (command expect)
      then res_bind (SessionPoint_advance B p f) (\<lambda>p. expected_loop B expect p fs)
      else Inr (p, f # fs))"

definition senderExpected ::
  "('m, 'h) bodies \<Rightarrow> ('m, 'h) SessionState \<Rightarrow> SessionPoint \<Rightarrow> ('m, 'h) AMQFrame list result" where
  "senderExpected B s expect =
     throw_if (SessionPoint_less expect (replayPoint (sender s))
         \<or> SessionPoint_less (sendPoint (sender s)) expect) InvalidArgumentException
       (res_bind (expected_loop B expect (replayPoint (sender s)) (replayList (sender s))) (\<lambda>(p, rest).
          throw_if (command p \<noteq> command expect) AssertionFailed (Inr rest)))"

definition senderRecord ::
  "('m, 'h) bodies \<Rightarrow> ('m, 'h) SessionState \<Rightarrow> ('m, 'h) AMQFrame \<Rightarrow> ('m, 'h) SessionState outcome" where
  "senderRecord B s f =
     (if isControl B f then (None, s)
      else let q = sender s;
        q = (if timeout s \<noteq> 0 then q\<lparr>replayList := replayList q @ [f]\<rparr> else q);
        q = q\<lparr>unflushedSize := unflushedSize q + frame_size B f,
              sent_bytesSinceKnownCompleted := sent_bytesSinceKnownCompleted q + frame_size B f,
              replaySize := replaySize q + frame_size B f,
              sent_incomplete := SequenceSet_add_one (sent_incomplete q) (command (sendPoint q))\<rparr>
      in (case SessionPoint_advance B (sendPoint q) f of
            Inl e \<Rightarrow> (Some e, s\<lparr>stateful := True, sender := q\<rparr>)
          | Inr p \<Rightarrow>
              (if replayHardLimit s \<noteq> 0 \<and> replayHardLimit s < replaySize q
               then Some ResourceLimitExceededException else None,
               s\<lparr>stateful := True, sender := q\<lparr>sendPoint := p\<rparr>\<rparr>)))"

definition senderNeedFlush :: "('m, 'h) SessionState \<Rightarrow> bool" where
  "senderNeedFlush s \<longleftrightarrow> command (sendPoint (sender s)) mod 65536 = 0
     \<or> (replayFlushLimit s \<noteq> 0 \<and> replayFlushLimit s \<le> unflushedSize (sender s))"

definition senderRecordFlush :: "('m, 'h) SessionState \<Rightarrow> ('m, 'h) SessionState" where
  "senderRecordFlush s =
     s\<lparr>sender := (sender s)\<lparr>flushPoint := sendPoint (sender s), unflushedSize := 0\<rparr>\<rparr>"

definition senderNeedKnownCompleted :: "('m, 'h) SessionState \<Rightarrow> bool" where
  "senderNeedKnownCompleted s \<longleftrightarrow> replayFlushLimit s \<noteq> 0
     \<and> replayFlushLimit s \<le> sent_bytesSinceKnownCompleted (sender s)"

definition senderRecordKnownCompleted :: "('m, 'h) SessionState \<Rightarrow> ('m, 'h) SessionState" where
  "senderRecordKnownCompleted s = s\<lparr>sender := (sender s)\<lparr>sent_bytesSinceKnownCompleted := 0\<rparr>\<rparr>"

text \<open>The loop of \<open>senderConfirmed\<close>: the iterator is the rest of the list.\<close>

fun confirm_loop ::
  "('m, 'h) bodies \<Rightarrow> SequenceNumber \<Rightarrow> ('m, 'h) SendState \<Rightarrow> ('m, 'h) AMQFrame list
     \<Rightarrow> (qpid_error option \<times> ('m, 'h) SendState \<times> ('m, 'h) AMQFrame list)" where
  "confirm_loop B confirmed q [] = (None, q, [])"
| "confirm_loop B confirmed q (f # fs) =
     (if SequenceNumber_less (command (replayPoint q)) confirmed
      then (case SessionPoint_advance B (replayPoint q) f of
          Inl e \<Rightarrow> (Some e, q, f # fs)
        | Inr p \<Rightarrow>
            if SessionPoint_less (sendPoint q) p then (Some AssertionFailed, q\<lparr>replayPoint := p\<rparr>, f # fs)
            else let q = q\<lparr>replayPoint := p, replaySize := replaySize q - frame_size B f\<rparr>;
                     q = (if SessionPoint_less (flushPoint q) p
                          then q\<lparr>unflushedSize := unflushedSize q - frame_size B f\<rparr> else q)
                 in confirm_loop B confirmed q fs)
      else (None, q, f # fs))"

definition senderConfirmed ::
  "('m, 'h) bodies \<Rightarrow> ('m, 'h) SessionState \<Rightarrow> SessionPoint \<Rightarrow> ('m, 'h) SessionState outcome" where
  "senderConfirmed B s confirmed =
     (if SessionPoint_less (sendPoint (sender s)) confirmed then (Some InvalidArgumentException, s)
      else (case confirm_loop B (command confirmed) (sender s) (replayList (sender s)) of
          (Some e, q, _) \<Rightarrow> (Some e, s\<lparr>sender := q\<rparr>)
        | (None, q, rest) \<Rightarrow>
            let q = (if SessionPoint_less (flushPoint q) (replayPoint q)
                     then q\<lparr>flushPoint := replayPoint q\<rparr> else q);
                q = q\<lparr>replayList := rest\<rparr>
            in (if offset (replayPoint q) \<noteq> 0 then Some AssertionFailed else None, s\<lparr>sender := q\<rparr>)))"

definition senderCompleted ::
  "('m, 'h) bodies \<Rightarrow> ('m, 'h) SessionState \<Rightarrow> SequenceSet \<Rightarrow> ('m, 'h) SessionState outcome" where
  "senderCompleted B s commands =
     (case commands of
        [] \<Rightarrow> (None, s)
      | r # _ \<Rightarrow> senderConfirmed B
          (s\<lparr>sender := (sender s)\<lparr>sent_incomplete := SequenceSet_remove_set (sent_incomplete (sender s)) commands\<rparr>\<rparr>)
          \<lparr>command = range_end r, offset = 0\<rparr>)"

section \<open>The receiver\<close>

definition receiverSetCommandPoint ::
  "('m, 'h) SessionState \<Rightarrow> SessionPoint \<Rightarrow> ('m, 'h) SessionState result" where
  "receiverSetCommandPoint s point =
     throw_if (hasState s \<and> SessionPoint_less (received_to (receiver s)) point) InvalidArgumentException
       (let r = (receiver s)\<lparr>expected := point\<rparr>;
            r = (if SessionPoint_less (received_to r) (expected r) then r\<lparr>received_to := expected r\<rparr> else r)
        in Inr (s\<lparr>receiver := r\<rparr>))"

definition receiverGetCurrent :: "ReceiveState \<Rightarrow> SequenceNumber" where
  "receiverGetCurrent r =
     (if offset (expected r) = 0 then SequenceNumber_decr (command (expected r)) else command (expected r))"

text \<open>The result \<open>true\<close> means that the frame is to be processed, \<open>false\<close> that it is a duplicate.\<close>

definition receiverRecord ::
  "('m, 'h) bodies \<Rightarrow> ('m, 'h) SessionState \<Rightarrow> ('m, 'h) AMQFrame
     \<Rightarrow> (bool result \<times> ('m, 'h) SessionState)" where
  "receiverRecord B s f =
     (if receiverTrackingDisabled s then (Inr True, s)
      else if isControl B f then (Inr True, s)
      else let s = s\<lparr>stateful := True\<rparr> in
        (case SessionPoint_advance B (expected (receiver s)) f of
           Inl e \<Rightarrow> (Inl e, s)
         | Inr p \<Rightarrow>
             let r = (receiver s)\<lparr>expected := p,
                   bytesSinceKnownCompleted := bytesSinceKnownCompleted (receiver s) + frame_size B f\<rparr>;
                 firstTime = SessionPoint_less (received_to r) (expected r);
                 r = (if firstTime
                      then let r = r\<lparr>received_to := expected r\<rparr>
                           in r\<lparr>incomplete := SequenceSet_add_one (incomplete r) (receiverGetCurrent r)\<rparr>
                      else r)
             in (Inr firstTime, s\<lparr>receiver := r\<rparr>)))"

definition receiverCompleted ::
  "('m, 'h) SessionState \<Rightarrow> SequenceNumber \<Rightarrow> bool \<Rightarrow> ('m, 'h) SessionState result" where
  "receiverCompleted s cmd cumulative =
     (if receiverTrackingDisabled s then Inr s
      else let r = receiver s in
        throw_if (\<not> SequenceSet_contains (incomplete r) cmd) AssertionFailed
          (let first = (if cumulative then range_begin (hd (incomplete r)) else cmd)
           in Inr (s\<lparr>receiver := r\<lparr>unknownCompleted := SequenceSet_add (unknownCompleted r) first cmd,
                incomplete := SequenceSet_remove (incomplete r) first cmd\<rparr>\<rparr>)))"

definition receiverKnownCompleted ::
  "('m, 'h) SessionState \<Rightarrow> SequenceSet \<Rightarrow> ('m, 'h) SessionState result" where
  "receiverKnownCompleted s commands =
     throw_if (commands \<noteq> [] \<and> SequenceNumber_less (command (received_to (receiver s)))
         (range_end (last commands))) InvalidArgumentException
       (Inr (s\<lparr>receiver := (receiver s)\<lparr>bytesSinceKnownCompleted := 0,
          unknownCompleted := SequenceSet_remove_set (unknownCompleted (receiver s)) commands\<rparr>\<rparr>))"

definition receiverNeedKnownCompleted :: "('m, 'h) SessionState \<Rightarrow> bool" where
  "receiverNeedKnownCompleted s \<longleftrightarrow> command (expected (receiver s)) mod 65536 = 0
     \<or> (replayFlushLimit s \<noteq> 0 \<and> replayFlushLimit s \<le> bytesSinceKnownCompleted (receiver s))"

definition SessionState_setState ::
  "('m, 'h) SessionState \<Rightarrow> SequenceNumber \<Rightarrow> SequenceNumber \<Rightarrow> SequenceSet
     \<Rightarrow> SequenceNumber \<Rightarrow> SequenceNumber \<Rightarrow> SequenceSet \<Rightarrow> SequenceSet \<Rightarrow> ('m, 'h) SessionState" where
  "SessionState_setState s replayStart sendCommandPoint sentIncomplete expect recvd unknown recvdIncomplete =
     s\<lparr>sender := (sender s)\<lparr>replayPoint := \<lparr>command = replayStart, offset = 0\<rparr>,
         flushPoint := \<lparr>command = sendCommandPoint, offset = 0\<rparr>,
         sendPoint := \<lparr>command = sendCommandPoint, offset = 0\<rparr>, unflushedSize := 0, replaySize := 0,
         sent_incomplete := sentIncomplete, sent_bytesSinceKnownCompleted := 0\<rparr>,
       receiver := (receiver s)\<lparr>expected := \<lparr>command = expect, offset = 0\<rparr>,
         received_to := \<lparr>command = recvd, offset = 0\<rparr>, unknownCompleted := unknown,
         incomplete := recvdIncomplete, bytesSinceKnownCompleted := 0\<rparr>\<rparr>"

definition disableReceiverTracking :: "('m, 'h) SessionState \<Rightarrow> ('m, 'h) SessionState" where
  "disableReceiverTracking s = s\<lparr>receiverTrackingDisabled := True\<rparr>"

definition enableReceiverTracking :: "('m, 'h) SessionState \<Rightarrow> ('m, 'h) SessionState" where
  "enableReceiverTracking s = s\<lparr>receiverTrackingDisabled := False\<rparr>"

section \<open>The order of points and chains of frames\<close>

fun advance_all ::
  "('m, 'h) bodies \<Rightarrow> SessionPoint \<Rightarrow> ('m, 'h) AMQFrame list \<Rightarrow> SessionPoint result" where
  "advance_all B p [] = Inr p"
| "advance_all B p (f # fs) = res_bind (SessionPoint_advance B p f) (\<lambda>p. advance_all B p fs)"

definition bytes :: "('m, 'h) bodies \<Rightarrow> ('m, 'h) AMQFrame list \<Rightarrow> nat" where
  "bytes B fs = sum_list (map (AMQFrame_encodedSize B) fs)"

lemma bytes_simps [simp]:
  "bytes B [] = 0" "bytes B (f # fs) = AMQFrame_encodedSize B f + bytes B fs"
  "bytes B (fs @ gs) = bytes B fs + bytes B gs"
  by (simp_all add: bytes_def)

lemma advance_all_append:
  "advance_all B p (fs @ gs) = res_bind (advance_all B p fs) (\<lambda>p. advance_all B p gs)"
  by (induction fs arbitrary: p) (auto simp: res_bind_def split: sum.split)

text \<open>There is room for \<open>k\<close> more commands in the window and for \<open>m\<close> more bytes in the offset.\<close>

definition room :: "SequenceNumber \<Rightarrow> nat \<Rightarrow> nat \<Rightarrow> SessionPoint \<Rightarrow> bool" where
  "room base k m p \<longleftrightarrow> window_pos base (command p) + k < 2 ^ 31 \<and> unat (offset p) + m < 2 ^ 64"

lemma room_in_window: "room base k m p \<Longrightarrow> in_window base (command p)"
  by (simp add: room_def in_window_def)

lemma room_mono: "room base k m p \<Longrightarrow> k' \<le> k \<Longrightarrow> m' \<le> m \<Longrightarrow> room base k' m' p"
  by (simp add: room_def)

lemma SessionPoint_less_window:
  assumes "in_window base (command p)" and "in_window base (command q)"
  shows "SessionPoint_less p q \<longleftrightarrow> window_pos base (command p) < window_pos base (command q)
    \<or> (window_pos base (command p) = window_pos base (command q) \<and> offset p < offset q)"
  using SequenceNumber_less_window [OF assms] window_pos_inj [of base "command p" "command q"]
  by (auto simp: SessionPoint_less_def)

lemma encodedSize_pos: "0 < AMQFrame_encodedSize B f"
  by (simp add: AMQFrame_encodedSize_def frameOverhead_def)

lemma advance_step:
  assumes adv: "SessionPoint_advance B p f = Inr p'" and ctl: "\<not> isControl B f"
    and room: "room base (Suc k) (AMQFrame_encodedSize B f + m) p"
  shows "SessionPoint_less p p'" and "room base k m p'"
    and "command p' = SequenceNumber_incr (command p) \<and> offset p' = 0 \<or> command p' = command p"
proof -
  let ?n = "AMQFrame_encodedSize B f"
  consider "command p' = SequenceNumber_incr (command p)" "offset p' = 0"
    | "command p' = command p" "offset p' = offset p + frame_size B f"
    using adv ctl by (auto simp: SessionPoint_advance_def split: if_splits)
  then have "SessionPoint_less p p' \<and> room base k m p'
    \<and> (command p' = SequenceNumber_incr (command p) \<and> offset p' = 0 \<or> command p' = command p)"
  proof cases
    case 1
    have "window_pos base (command p') = Suc (window_pos base (command p))"
      using room window_pos_incr [of base "command p"] 1 by (simp add: room_def in_window_def)
    then show ?thesis
      using room 1 SessionPoint_less_window [of base p p'] by (simp add: room_def in_window_def)
  next
    case 2
    have "unat (of_nat ?n :: 64 word) = ?n"
      using room by (simp only: unat_of_nat room_def) simp
    then have "unat (offset p') = unat (offset p) + ?n"
      using room 2 by (simp add: room_def unat_word_ariths)
    then show ?thesis
      using room 2 encodedSize_pos [of B f] by (simp add: room_def SessionPoint_less_def word_less_nat_alt)
  qed
  then show "SessionPoint_less p p'" and "room base k m p'"
    and "command p' = SequenceNumber_incr (command p) \<and> offset p' = 0 \<or> command p' = command p"
    by blast+
qed

text \<open>
  A chain: the frames \<open>fs\<close>, none of them a control, lead from point \<open>p\<close> to point \<open>q\<close>, and the commands
  stay in the window and the offsets below \<open>2 ^ 64\<close>.
\<close>

definition chain ::
  "('m, 'h) bodies \<Rightarrow> SequenceNumber \<Rightarrow> SessionPoint \<Rightarrow> ('m, 'h) AMQFrame list \<Rightarrow> SessionPoint \<Rightarrow> bool" where
  "chain B base p fs q \<longleftrightarrow> advance_all B p fs = Inr q \<and> room base (length fs) (bytes B fs) p
     \<and> (\<forall>f\<in>set fs. \<not> isControl B f)"

lemma chain_Nil [simp]: "chain B base p [] q \<longleftrightarrow> q = p \<and> room base 0 0 p"
  by (auto simp: chain_def)

lemma chain_ConsE:
  assumes "chain B base p (f # fs) q"
  obtains p' where "SessionPoint_advance B p f = Inr p'" and "\<not> isControl B f"
    and "SessionPoint_less p p'" and "chain B base p' fs q"
    and "command p' = SequenceNumber_incr (command p) \<and> offset p' = 0 \<or> command p' = command p"
proof -
  from assms obtain p' where p': "SessionPoint_advance B p f = Inr p'" "advance_all B p' fs = Inr q"
    by (auto simp: chain_def res_bind_eq_Inr)
  have "\<not> isControl B f" "room base (Suc (length fs)) (AMQFrame_encodedSize B f + bytes B fs) p"
    using assms by (auto simp: chain_def)
  from advance_step [OF p'(1) this] show thesis
    using that p' assms by (auto simp: chain_def)
qed

lemma chain_in_window: "chain B base p fs q \<Longrightarrow> in_window base (command p)"
  by (auto simp: chain_def intro: room_in_window)

lemma chain_end: "chain B base p fs q \<Longrightarrow> room base 0 0 q"
  by (induction fs arbitrary: p) (auto elim: chain_ConsE)

lemma chain_split:
  assumes "chain B base p (fs @ gs) q"
  obtains r where "chain B base p fs r" and "chain B base r gs q"
  using assms
proof (induction fs arbitrary: p thesis)
  case Nil
  then show ?case by (auto simp: chain_def room_def)
next
  case (Cons f fs)
  obtain p' where p': "SessionPoint_advance B p f = Inr p'" "chain B base p' (fs @ gs) q"
    using Cons(3) by (auto elim: chain_ConsE)
  obtain r where r: "chain B base p' fs r" "chain B base r gs q"
    using Cons(1) [OF _ p'(2)] by blast
  have "chain B base p (f # fs) r"
    using Cons(3) r(1) p'(1) by (auto simp: chain_def elim: room_mono)
  then show ?case using Cons(2) r(2) by blast
qed

lemma chain_advance: "chain B base p fs q \<Longrightarrow> advance_all B p fs = Inr q"
  by (simp add: chain_def)

lemma SessionPoint_less_trans:
  assumes "in_window base (command p)" "in_window base (command q)" "in_window base (command r)"
    and "SessionPoint_less p q" "SessionPoint_less q r"
  shows "SessionPoint_less p r"
  using assms by (auto simp: SessionPoint_less_window)

lemma SessionPoint_less_antisym:
  assumes "in_window base (command p)" "in_window base (command q)" and "SessionPoint_less p q"
  shows "\<not> SessionPoint_less q p"
  using assms by (auto simp: SessionPoint_less_window)

lemma SessionPoint_less_irrefl [simp]: "\<not> SessionPoint_less p p"
  by (simp add: SessionPoint_less_def SequenceNumber_less_def)

lemma chain_less:
  assumes "chain B base p fs q" and "fs \<noteq> []"
  shows "SessionPoint_less p q"
  using assms
proof (induction fs arbitrary: p)
  case (Cons f fs)
  from Cons(2) obtain p' where p': "SessionPoint_less p p'" "chain B base p' fs q"
    by (auto elim: chain_ConsE)
  have w: "in_window base (command p)" "in_window base (command p')" "in_window base (command q)"
    using Cons(2) p'(2) chain_in_window chain_end room_in_window by blast+
  show ?case
  proof (cases "fs = []")
    case True
    then show ?thesis using p' by simp
  next
    case False
    then show ?thesis using Cons(1) p' SessionPoint_less_trans [OF w] by blast
  qed
qed simp

lemma chain_not_greater: "chain B base p fs q \<Longrightarrow> \<not> SessionPoint_less q p"
  using chain_less chain_in_window chain_end room_in_window SessionPoint_less_antisym
  by (metis SessionPoint_less_irrefl chain_Nil)

lemma chain_splitD:
  assumes "chain B base p (fs @ gs) q" and "advance_all B p fs = Inr r"
  shows "chain B base p fs r" and "chain B base r gs q"
proof -
  obtain r' where r': "chain B base p fs r'" "chain B base r' gs q"
    using assms(1) by (rule chain_split)
  then have "r' = r" using assms(2) chain_advance by fastforce
  then show "chain B base p fs r" and "chain B base r gs q" using r' by simp_all
qed

text \<open>A point of a chain is passed only once.\<close>

lemma chain_prefix_unique:
  assumes ch: "chain B base p fs q" and "fs = a @ b" "advance_all B p a = Inr r"
    and "fs = c @ d" "advance_all B p c = Inr r"
  shows "c = a"
proof -
  have nil: "x = []" if "fs = (u @ x) @ v" "advance_all B p u = Inr r" "advance_all B p (u @ x) = Inr r" for u x v
  proof -
    have "chain B base p (u @ x) r"
      using chain_splitD(1) [OF ch [unfolded that(1)] that(3)] .
    then have "chain B base r x r" using chain_splitD(2) that(2) by blast
    then show "x = []" using chain_less SessionPoint_less_irrefl by blast
  qed
  have "a @ b = c @ d" using assms(2,4) by simp
  then consider us where "a = c @ us" | us where "c = a @ us"
    by (auto simp: append_eq_append_conv2)
  then show ?thesis
    by cases (use nil assms(2-5) in blast)+
qed

text \<open>
  Both loops stop at the boundary of the command \<open>c\<close>: walking from \<open>p\<close> towards \<open>q\<close> until the command is
  not below \<open>c\<close> ends at \<open>p\<close> itself or at offset 0 of command \<open>c\<close>.
\<close>

lemma expected_loop_chain:
  assumes "chain B base p fs q" and "in_window base (command e)"
    and "window_pos base (command e) \<le> window_pos base (command q)"
  shows "\<exists>fs1 fs2 p'. fs = fs1 @ fs2 \<and> expected_loop B e p fs = Inr (p', fs2)
    \<and> advance_all B p fs1 = Inr p'
    \<and> (if window_pos base (command p) < window_pos base (command e)
       then fs1 \<noteq> [] \<and> p' = \<lparr>command = command e, offset = 0\<rparr> else fs1 = [])"
  using assms(1)
proof (induction fs arbitrary: p)
  case Nil
  then show ?case using assms(3) by auto
next
  case (Cons f fs)
  have w: "SequenceNumber_less (command p) (command e) \<longleftrightarrow> window_pos base (command p) < window_pos base (command e)"
    by (rule SequenceNumber_less_window [OF chain_in_window [OF Cons(2)] assms(2)])
  show ?case
  proof (cases "window_pos base (command p) < window_pos base (command e)")
    case False
    then show ?thesis using w by auto
  next
    case True
    obtain p1 where p1: "SessionPoint_advance B p f = Inr p1" "chain B base p1 fs q"
      and step: "command p1 = SequenceNumber_incr (command p) \<and> offset p1 = 0 \<or> command p1 = command p"
      using Cons(2) by (elim chain_ConsE)
    obtain fs1 fs2 p' where IH: "fs = fs1 @ fs2" "expected_loop B e p1 fs = Inr (p', fs2)"
        "advance_all B p1 fs1 = Inr p'"
        "if window_pos base (command p1) < window_pos base (command e)
         then fs1 \<noteq> [] \<and> p' = \<lparr>command = command e, offset = 0\<rparr> else fs1 = []"
      using Cons(1) [OF p1(2)] by blast
    have "p' = \<lparr>command = command e, offset = 0\<rparr>"
    proof (cases "window_pos base (command p1) < window_pos base (command e)")
      case False
      then have "window_pos base (command p1) = window_pos base (command e)" "offset p1 = 0"
        using step True window_pos_incr [OF chain_in_window [OF Cons(2)]] by auto
      then show ?thesis
        using False IH(3,4) window_pos_inj by (cases p1) force
    qed (use IH in simp)
    then show ?thesis
      using True w p1 IH by (intro exI [of _ "f # fs1"] exI [of _ fs2] exI [of _ p']) simp
  qed
qed

text \<open>
  During the loop of \<open>senderConfirmed\<close>: the last flush is still ahead in the list, or it has been passed
  and everything left is unflushed.
\<close>

definition flush_ok ::
  "('m, 'h) bodies \<Rightarrow> SequenceNumber \<Rightarrow> ('m, 'h) SendState \<Rightarrow> ('m, 'h) AMQFrame list \<Rightarrow> bool" where
  "flush_ok B base q fs \<longleftrightarrow>
     (\<exists>a b. fs = a @ b \<and> advance_all B (replayPoint q) a = Inr (flushPoint q)
        \<and> unflushedSize q = of_nat (bytes B b))
     \<or> (SessionPoint_less (flushPoint q) (replayPoint q) \<and> in_window base (command (flushPoint q))
        \<and> unflushedSize q = of_nat (bytes B fs))"

lemma flush_ok_step:
  assumes c: "chain B base (replayPoint q) (f # fs) e" and fl: "flush_ok B base q (f # fs)"
    and p: "SessionPoint_advance B (replayPoint q) f = Inr p"
    and q': "replayPoint q' = p" "flushPoint q' = flushPoint q"
      "unflushedSize q' = (if SessionPoint_less (flushPoint q) p
         then unflushedSize q - frame_size B f else unflushedSize q)"
  shows "flush_ok B base q' fs"
proof -
  obtain lt: "SessionPoint_less (replayPoint q) p" and ch: "chain B base p fs e"
    using c p by (auto elim: chain_ConsE)
  have w: "in_window base (command (replayPoint q))" "in_window base (command p)"
    using c ch chain_in_window by blast+
  consider b where "f # fs = [] @ b" "flushPoint q = replayPoint q" "unflushedSize q = of_nat (bytes B b)"
    | a b where "fs = a @ b" "advance_all B p a = Inr (flushPoint q)" "unflushedSize q = of_nat (bytes B b)"
    | "SessionPoint_less (flushPoint q) (replayPoint q)" "in_window base (command (flushPoint q))"
      "unflushedSize q = of_nat (bytes B (f # fs))"
    using fl p by (fastforce simp: flush_ok_def append_eq_Cons_conv Cons_eq_append_conv)
  then show ?thesis
  proof cases
    case 1
    then show ?thesis using lt w q' by (auto simp: flush_ok_def)
  next
    case (2 a b)
    then have "\<not> SessionPoint_less (flushPoint q) p"
      using chain_not_greater chain_splitD(1) ch by metis
    then show ?thesis using 2 q' by (auto simp: flush_ok_def)
  next
    case 3
    then have "SessionPoint_less (flushPoint q) p" using lt w SessionPoint_less_trans by blast
    then show ?thesis using 3 q' by (auto simp: flush_ok_def)
  qed
qed

lemma confirm_loop_chain:
  assumes "chain B base (replayPoint q) fs (sendPoint q)" and "in_window base c"
    and "window_pos base c \<le> window_pos base (command (sendPoint q))"
    and "flush_ok B base q fs" and "replaySize q = of_nat (bytes B fs)"
  shows "\<exists>fs1 fs2 q'. fs = fs1 @ fs2 \<and> confirm_loop B c q fs = (None, q', fs2)
    \<and> advance_all B (replayPoint q) fs1 = Inr (replayPoint q')
    \<and> (if window_pos base (command (replayPoint q)) < window_pos base c
       then replayPoint q' = \<lparr>command = c, offset = 0\<rparr> else fs1 = [])
    \<and> flush_ok B base q' fs2 \<and> replaySize q' = of_nat (bytes B fs2)
    \<and> sendPoint q' = sendPoint q \<and> flushPoint q' = flushPoint q \<and> sent_incomplete q' = sent_incomplete q"
  using assms(1,3-)
proof (induction fs arbitrary: q)
  case Nil
  then show ?case by auto
next
  case (Cons f fs)
  let ?p = "replayPoint q"
  have w: "SequenceNumber_less (command ?p) c \<longleftrightarrow> window_pos base (command ?p) < window_pos base c"
    by (rule SequenceNumber_less_window [OF chain_in_window [OF Cons(2)] assms(2)])
  show ?case
  proof (cases "window_pos base (command ?p) < window_pos base c")
    case False
    then show ?thesis using w Cons(4,5) by auto
  next
    case True
    obtain p1 where p1: "SessionPoint_advance B ?p f = Inr p1" "chain B base p1 fs (sendPoint q)"
      and step: "command p1 = SequenceNumber_incr (command ?p) \<and> offset p1 = 0 \<or> command p1 = command ?p"
      using Cons(2) by (elim chain_ConsE)
    let ?u = "if SessionPoint_less (flushPoint q) p1 then unflushedSize q - frame_size B f else unflushedSize q"
    let ?q = "q\<lparr>replayPoint := p1, replaySize := replaySize q - frame_size B f, unflushedSize := ?u\<rparr>"
    have loop: "confirm_loop B c q (f # fs) = confirm_loop B c ?q fs"
      using True w p1(1) chain_not_greater [OF p1(2)] by (cases q) simp
    have "flush_ok B base ?q fs"
      by (rule flush_ok_step [OF Cons(2,4) p1(1)]) simp_all
    then obtain fs1 fs2 q' where IH: "fs = fs1 @ fs2" "confirm_loop B c ?q fs = (None, q', fs2)"
        "advance_all B p1 fs1 = Inr (replayPoint q')"
        "if window_pos base (command p1) < window_pos base c
         then replayPoint q' = \<lparr>command = c, offset = 0\<rparr> else fs1 = []"
        "flush_ok B base q' fs2" "replaySize q' = of_nat (bytes B fs2)"
        "sendPoint q' = sendPoint q" "flushPoint q' = flushPoint q" "sent_incomplete q' = sent_incomplete q"
      using Cons(1) [of ?q] p1(2) Cons(3,5) by auto
    have "replayPoint q' = \<lparr>command = c, offset = 0\<rparr>"
    proof (cases "window_pos base (command p1) < window_pos base c")
      case False
      then have "window_pos base (command p1) = window_pos base c" "offset p1 = 0"
        using step True window_pos_incr [OF chain_in_window [OF Cons(2)]] by auto
      then show ?thesis
        using False IH(3,4) window_pos_inj by (cases p1) force
    qed (use IH in simp)
    then show ?thesis
      using True p1 IH loop by (intro exI [of _ "f # fs1"] exI [of _ fs2] exI [of _ q']) simp
  qed
qed

section \<open>The invariant of the sender\<close>

definition sender_inv :: "('m, 'h) bodies \<Rightarrow> ('m, 'h) SessionState \<Rightarrow> bool" where
  "sender_inv B s \<longleftrightarrow> timeout s \<noteq> 0 \<and> offset (replayPoint (sender s)) = 0
     \<and> chain B (command (replayPoint (sender s))) (replayPoint (sender s)) (replayList (sender s))
         (sendPoint (sender s))
     \<and> replaySize (sender s) = of_nat (bytes B (replayList (sender s)))
     \<and> (\<exists>a b. replayList (sender s) = a @ b
          \<and> advance_all B (replayPoint (sender s)) a = Inr (flushPoint (sender s))
          \<and> unflushedSize (sender s) = of_nat (bytes B b))"

lemma chain_rebase: "chain B base p fs q \<Longrightarrow> chain B (command p) p fs q"
  by (auto simp: chain_def room_def window_pos_def)

lemma chain_snoc:
  assumes "chain B base p fs q" and "SessionPoint_advance B q f = Inr q'" and "\<not> isControl B f"
    and "room base (length (fs @ [f])) (bytes B (fs @ [f])) p"
  shows "chain B base p (fs @ [f]) q'"
  using assms by (auto simp: chain_def advance_all_append)

lemma senderRecord_inv:
  assumes inv: "sender_inv B s" and rec: "senderRecord B s f = (e, s')"
    and ok: "e = None \<or> e = Some ResourceLimitExceededException"
    and room: "Suc (length (replayList (sender s))) < 2 ^ 31"
      "bytes B (replayList (sender s)) + AMQFrame_encodedSize B f < 2 ^ 64"
  shows "sender_inv B s'"
proof (cases "isControl B f")
  case True
  then show ?thesis using inv rec by (simp add: senderRecord_def)
next
  case False
  let ?q = "sender s"
  obtain p where p: "SessionPoint_advance B (sendPoint ?q) f = Inr p"
    using rec ok False
    by (auto simp: senderRecord_def Let_def SessionPoint_advance_def split: sum.splits if_splits)
  have q': "replayPoint (sender s') = replayPoint ?q" "flushPoint (sender s') = flushPoint ?q"
    "sendPoint (sender s') = p" "replayList (sender s') = replayList ?q @ [f]" "timeout s' = timeout s"
    "unflushedSize (sender s') = unflushedSize ?q + frame_size B f"
    "replaySize (sender s') = replaySize ?q + frame_size B f"
    using rec False p inv by (auto simp: senderRecord_def Let_def sender_inv_def)
  have "chain B (command (replayPoint ?q)) (replayPoint ?q) (replayList ?q @ [f]) p"
    using inv p False room by (intro chain_snoc) (auto simp: sender_inv_def room_def window_pos_def)
  moreover obtain a b where "replayList ?q = a @ b" "advance_all B (replayPoint ?q) a = Inr (flushPoint ?q)"
    "unflushedSize ?q = of_nat (bytes B b)"
    using inv by (auto simp: sender_inv_def)
  then have "replayList ?q @ [f] = a @ (b @ [f])" "unflushedSize ?q + frame_size B f = of_nat (bytes B (b @ [f]))"
    by simp_all
  then have "\<exists>a b. replayList (sender s') = a @ b
      \<and> advance_all B (replayPoint (sender s')) a = Inr (flushPoint (sender s'))
      \<and> unflushedSize (sender s') = of_nat (bytes B b)"
    using q' \<open>advance_all B (replayPoint ?q) a = Inr (flushPoint ?q)\<close>
    by (intro exI [of _ a] exI [of _ "b @ [f]"]) simp
  ultimately show ?thesis
    using inv q' unfolding sender_inv_def by (auto simp: add.commute)
qed

lemma senderRecordFlush_inv:
  assumes "sender_inv B s"
  shows "sender_inv B (senderRecordFlush s)"
proof -
  have "\<exists>a b. replayList (sender s) = a @ b \<and> advance_all B (replayPoint (sender s)) a = Inr (sendPoint (sender s))
      \<and> (0 :: 64 word) = of_nat (bytes B b)"
    using assms by (intro exI [of _ "replayList (sender s)"] exI [of _ "[]"]) (auto simp: sender_inv_def chain_def)
  then show ?thesis
    using assms by (auto simp: sender_inv_def senderRecordFlush_def)
qed

text \<open>
  Confirmation: everything before the confirmed command leaves the replay list, and the replay point
  becomes the confirmed boundary; an older confirmation changes nothing.
\<close>

lemma senderConfirmed_correct:
  assumes inv: "sender_inv B s" and c: "command c \<noteq> command (replayPoint (sender s)) + 2 ^ 31"
    and le: "\<not> SessionPoint_less (sendPoint (sender s)) c"
  shows "\<exists>s' gone. senderConfirmed B s c = (None, s') \<and> sender_inv B s'
    \<and> replayList (sender s) = gone @ replayList (sender s')
    \<and> advance_all B (replayPoint (sender s)) gone = Inr (replayPoint (sender s'))
    \<and> sendPoint (sender s') = sendPoint (sender s)
    \<and> (if SequenceNumber_less (command (replayPoint (sender s))) (command c)
       then replayPoint (sender s') = \<lparr>command = command c, offset = 0\<rparr> else gone = [])"
proof -
  let ?q = "sender s"
  let ?base = "command (replayPoint ?q)"
  have ch: "chain B ?base (replayPoint ?q) (replayList ?q) (sendPoint ?q)"
    and fl: "flush_ok B ?base ?q (replayList ?q)" and o: "offset (replayPoint ?q) = 0"
    and size: "replaySize ?q = of_nat (bytes B (replayList ?q))"
    using inv by (auto simp: sender_inv_def flush_ok_def)
  have "\<exists>fs1 fs2 q'. replayList ?q = fs1 @ fs2
    \<and> confirm_loop B (command c) ?q (replayList ?q) = (None, q', fs2)
    \<and> advance_all B (replayPoint ?q) fs1 = Inr (replayPoint q')
    \<and> (if SequenceNumber_less ?base (command c)
       then replayPoint q' = \<lparr>command = command c, offset = 0\<rparr> else fs1 = [])
    \<and> flush_ok B ?base q' fs2 \<and> replaySize q' = of_nat (bytes B fs2)
    \<and> sendPoint q' = sendPoint ?q \<and> flushPoint q' = flushPoint ?q \<and> sent_incomplete q' = sent_incomplete ?q"
  proof (cases "SequenceNumber_less ?base (command c)")
    case False
    then have "confirm_loop B (command c) ?q (replayList ?q) = (None, ?q, replayList ?q)"
      by (cases "replayList ?q") simp_all
    then show ?thesis using False fl size by auto
  next
    case True
    note w = less_imp_in_window [OF True c]
    have send: "in_window ?base (command (sendPoint ?q))"
      using chain_end [OF ch] room_in_window by blast
    have "window_pos ?base (command c) \<le> window_pos ?base (command (sendPoint ?q))"
      using le SessionPoint_less_window [OF send w] by auto
    from confirm_loop_chain [OF ch w this fl size] show ?thesis
      using True SequenceNumber_less_window [OF in_window_base w] by simp
  qed
  then obtain gone rest q' where list: "replayList ?q = gone @ rest"
    and loop: "confirm_loop B (command c) ?q (replayList ?q) = (None, q', rest)"
    and adv: "advance_all B (replayPoint ?q) gone = Inr (replayPoint q')"
    and pt: "if SequenceNumber_less ?base (command c)
       then replayPoint q' = \<lparr>command = command c, offset = 0\<rparr> else gone = []"
    and fl': "flush_ok B ?base q' rest" and q': "replaySize q' = of_nat (bytes B rest)"
      "sendPoint q' = sendPoint ?q"
    by blast
  have ch': "chain B ?base (replayPoint q') rest (sendPoint ?q)"
    using chain_splitD(2) [OF ch [unfolded list] adv] .
  have o': "offset (replayPoint q') = 0"
    using pt adv o by (auto split: if_splits)
  let ?q' = "q'\<lparr>flushPoint := (if SessionPoint_less (flushPoint q') (replayPoint q')
    then replayPoint q' else flushPoint q'), replayList := rest\<rparr>"
  have res: "senderConfirmed B s c = (None, s\<lparr>sender := ?q'\<rparr>)"
    using le loop o' by (cases q') (simp add: senderConfirmed_def Let_def)
  have "\<exists>a b. rest = a @ b \<and> advance_all B (replayPoint q') a = Inr (flushPoint ?q')
      \<and> unflushedSize ?q' = of_nat (bytes B b)"
  proof (cases "SessionPoint_less (flushPoint q') (replayPoint q')")
    case True
    then have "\<nexists>a b. rest = a @ b \<and> advance_all B (replayPoint q') a = Inr (flushPoint q')"
      using chain_splitD(1) chain_not_greater ch' by blast
    then show ?thesis
      using fl' True by (intro exI [of _ "[]"] exI [of _ rest]) (auto simp: flush_ok_def)
  qed (use fl' in \<open>auto simp: flush_ok_def\<close>)
  moreover have "timeout s \<noteq> 0" using inv by (simp add: sender_inv_def)
  ultimately have "sender_inv B (s\<lparr>sender := ?q'\<rparr>)"
    using chain_rebase [OF ch'] o' q' by (simp add: sender_inv_def)
  then show ?thesis
    using res list adv pt q' by (intro exI [of _ "s\<lparr>sender := ?q'\<rparr>"] exI [of _ gone]) auto
qed

text \<open>
  The sender of a session that keeps frames for replay: created, given a timeout, and then any
  sequence of the operations. A frame is recorded while the list has fewer than \<open>2 ^ 31\<close> frames and
  \<open>2 ^ 64\<close> bytes, and no confirmation is exactly \<open>2 ^ 31\<close> commands ahead of the replay point; a call may
  fail with an exception, except that a frame is not recorded out of sequence.
\<close>

inductive sender_reachable :: "('m, 'h) bodies \<Rightarrow> ('m, 'h) SessionState \<Rightarrow> bool" for B where
  init: "seconds \<noteq> 0 \<Longrightarrow> sender_reachable B (setTimeout (SessionState_init flush hard) seconds)"
| recorded: "sender_reachable B s \<Longrightarrow> senderRecord B s f = (e, s')
    \<Longrightarrow> e = None \<or> e = Some ResourceLimitExceededException
    \<Longrightarrow> Suc (length (replayList (sender s))) < 2 ^ 31
    \<Longrightarrow> bytes B (replayList (sender s)) + AMQFrame_encodedSize B f < 2 ^ 64 \<Longrightarrow> sender_reachable B s'"
| flush: "sender_reachable B s \<Longrightarrow> sender_reachable B (senderRecordFlush s)"
| known: "sender_reachable B s \<Longrightarrow> sender_reachable B (senderRecordKnownCompleted s)"
| confirmed: "sender_reachable B s \<Longrightarrow> senderConfirmed B s p = (e, s')
    \<Longrightarrow> command p \<noteq> command (replayPoint (sender s)) + 2 ^ 31 \<Longrightarrow> sender_reachable B s'"
| completed: "sender_reachable B s \<Longrightarrow> senderCompleted B s cs = (e, s')
    \<Longrightarrow> cs = [] \<or> range_end (hd cs) \<noteq> command (replayPoint (sender s)) + 2 ^ 31 \<Longrightarrow> sender_reachable B s'"

lemma senderConfirmed_inv:
  assumes "sender_inv B s" and "senderConfirmed B s p = (e, s')"
    and "command p \<noteq> command (replayPoint (sender s)) + 2 ^ 31"
  shows "sender_inv B s' \<and> (e = None \<or> e = Some InvalidArgumentException \<and> s' = s)"
proof (cases "SessionPoint_less (sendPoint (sender s)) p")
  case True
  then show ?thesis using assms by (simp add: senderConfirmed_def)
next
  case False
  then show ?thesis using senderConfirmed_correct [OF assms(1,3)] assms(2) by fastforce
qed

lemma sender_reachable_inv: "sender_reachable B s \<Longrightarrow> sender_inv B s"
proof (induction rule: sender_reachable.induct)
  case (init seconds flush hard)
  then show ?case
    by (simp add: sender_inv_def setTimeout_def SessionState_init_def point0_def room_def window_pos_def)
next
  case (recorded s f e s')
  then show ?case using senderRecord_inv by blast
next
  case (flush s)
  show ?case by (rule senderRecordFlush_inv [OF flush.IH])
next
  case (known s)
  then show ?case by (simp add: sender_inv_def senderRecordKnownCompleted_def)
next
  case (confirmed s p e s')
  then show ?case using senderConfirmed_inv by blast
next
  case (completed s cs e s')
  show ?case
  proof (cases cs)
    case Nil
    then show ?thesis using completed by (simp add: senderCompleted_def)
  next
    case (Cons r rs)
    let ?s = "s\<lparr>sender := (sender s)\<lparr>sent_incomplete := SequenceSet_remove_set (sent_incomplete (sender s)) cs\<rparr>\<rparr>"
    have "sender_inv B ?s" using completed.IH by (simp add: sender_inv_def)
    moreover have "senderConfirmed B ?s \<lparr>command = range_end r, offset = 0\<rparr> = (e, s')"
      using completed(2) Cons by (simp add: senderCompleted_def)
    ultimately show ?thesis
      using senderConfirmed_inv [of B ?s] completed(3) Cons by auto
  qed
qed

text \<open>
  C34. The documented invariant of the sender, for a session that keeps frames for replay (its timeout is
  not 0) and every sequence of operations of \<open>sender_reachable\<close>, in which frames are recorded in
  sequence, the replay list stays below \<open>2 ^ 31\<close> frames and \<open>2 ^ 64\<close> bytes, and no confirmation is
  exactly \<open>2 ^ 31\<close> commands ahead: the replay point is at a command boundary and not after the flush
  point, which is not after the send point; the frames of the replay list lead from the replay point
  over the flush point to the send point; \<open>replaySize\<close> is the number of bytes in the list and
  \<open>unflushedSize\<close> the number of bytes after the flush point. With timeout 0 the sizes count frames that
  are not in the list (\<open>replay_limit_without_replay\<close>).
\<close>

theorem sender_points_ordered:
  assumes "sender_reachable B s"
  shows "\<not> SessionPoint_less (flushPoint (sender s)) (replayPoint (sender s))
    \<and> \<not> SessionPoint_less (sendPoint (sender s)) (flushPoint (sender s))
    \<and> offset (replayPoint (sender s)) = 0
    \<and> (\<exists>a b. replayList (sender s) = a @ b
         \<and> advance_all B (replayPoint (sender s)) a = Inr (flushPoint (sender s))
         \<and> advance_all B (flushPoint (sender s)) b = Inr (sendPoint (sender s))
         \<and> replaySize (sender s) = of_nat (bytes B (a @ b)) \<and> unflushedSize (sender s) = of_nat (bytes B b))"
proof -
  note inv = sender_reachable_inv [OF assms, unfolded sender_inv_def]
  then obtain a b where ab: "replayList (sender s) = a @ b"
    "advance_all B (replayPoint (sender s)) a = Inr (flushPoint (sender s))"
    "unflushedSize (sender s) = of_nat (bytes B b)"
    by blast
  have "chain B (command (replayPoint (sender s))) (replayPoint (sender s)) (a @ b) (sendPoint (sender s))"
    using inv ab by simp
  note ch = chain_splitD [OF this ab(2)]
  show ?thesis
    using chain_not_greater [OF ch(1)] chain_not_greater [OF ch(2)] chain_advance [OF ch(2)] inv ab by auto
qed

text \<open>
  A confirmation up to a point that was sent succeeds (no exception, no failed assertion),
  removes from the replay list exactly the frames of the commands before the confirmed one and moves
  the replay point to that boundary; a confirmation of something older changes neither; one beyond
  what was sent is refused without any change.
\<close>

theorem senderConfirmed_trims:
  assumes "sender_reachable B s" and "command c \<noteq> command (replayPoint (sender s)) + 2 ^ 31"
  shows "if SessionPoint_less (sendPoint (sender s)) c
    then senderConfirmed B s c = (Some InvalidArgumentException, s)
    else \<exists>s' gone. senderConfirmed B s c = (None, s')
      \<and> replayList (sender s) = gone @ replayList (sender s')
      \<and> advance_all B (replayPoint (sender s)) gone = Inr (replayPoint (sender s'))
      \<and> sendPoint (sender s') = sendPoint (sender s)
      \<and> (if SequenceNumber_less (command (replayPoint (sender s))) (command c)
         then replayPoint (sender s') = \<lparr>command = command c, offset = 0\<rparr> else gone = [])"
proof (cases "SessionPoint_less (sendPoint (sender s)) c")
  case True
  then show ?thesis by (simp add: senderConfirmed_def)
next
  case False
  from senderConfirmed_correct [OF sender_reachable_inv [OF assms(1)] assms(2) this] show ?thesis
    unfolding if_not_P [OF False] by blast
qed

lemma senderExpected_correct:
  assumes inv: "sender_inv B s"
    and pre: "replayList (sender s) = pre @ rest"
    and bnd: "advance_all B (replayPoint (sender s)) pre = Inr \<lparr>command = c, offset = 0\<rparr>"
  shows "senderExpected B s \<lparr>command = c, offset = 0\<rparr> = Inr rest"
proof -
  let ?q = "sender s" and ?e = "\<lparr>command = c, offset = 0 :: 64 word\<rparr>"
  let ?base = "command (replayPoint ?q)"
  have ch: "chain B ?base (replayPoint ?q) (pre @ rest) (sendPoint ?q)"
    using inv pre by (simp add: sender_inv_def)
  note ch1 = chain_splitD(1) [OF ch bnd] and ch2 = chain_splitD(2) [OF ch bnd]
  have w: "in_window ?base c" "in_window ?base (command (sendPoint ?q))"
    using chain_in_window [OF ch2] chain_end [OF ch] room_in_window by auto
  have le: "\<not> SessionPoint_less ?e (replayPoint ?q)" "\<not> SessionPoint_less (sendPoint ?q) ?e"
    using chain_not_greater [OF ch1] chain_not_greater [OF ch2] by blast+
  have "window_pos ?base c \<le> window_pos ?base (command (sendPoint ?q))"
    using le(2) SessionPoint_less_window [of ?base "sendPoint ?q" ?e] w by simp
  then obtain fs1 fs2 p' where loop: "pre @ rest = fs1 @ fs2"
      "expected_loop B ?e (replayPoint ?q) (pre @ rest) = Inr (p', fs2)"
      "advance_all B (replayPoint ?q) fs1 = Inr p'"
      "if 0 < window_pos ?base c then fs1 \<noteq> [] \<and> p' = ?e else fs1 = []"
    using expected_loop_chain [OF ch, of ?e] w by auto
  have p': "p' = ?e"
  proof (cases "0 < window_pos ?base c")
    case False
    then have "c = ?base" using window_pos_inj [of ?base c ?base] by simp
    moreover have "replayPoint ?q = \<lparr>command = ?base, offset = 0\<rparr>"
      using inv by (cases "replayPoint ?q") (auto simp: sender_inv_def)
    ultimately show ?thesis using loop False by simp
  qed (use loop in simp)
  have "fs1 = pre"
    by (rule chain_prefix_unique [OF ch refl bnd loop(1) loop(3) [unfolded p']])
  then have "fs2 = rest" using loop(1) by simp
  then show ?thesis
    using loop(2) le p' pre by (simp add: senderExpected_def)
qed

section \<open>The receiver\<close>

fun receiver_record_all ::
  "('m, 'h) bodies \<Rightarrow> ('m, 'h) SessionState \<Rightarrow> ('m, 'h) AMQFrame list
     \<Rightarrow> (bool result list \<times> ('m, 'h) SessionState)" where
  "receiver_record_all B s [] = ([], s)"
| "receiver_record_all B s (f # fs) =
     (let (r, s) = receiverRecord B s f; (rs, s) = receiver_record_all B s fs in (r # rs, s))"

lemma receiver_record_all_append:
  "receiver_record_all B s (fs @ gs) =
     (let (r1, s1) = receiver_record_all B s fs; (r2, s2) = receiver_record_all B s1 gs in (r1 @ r2, s2))"
  by (induction fs arbitrary: s) (simp_all add: split_beta Let_def)

lemma receiverRecord_step:
  assumes "\<not> receiverTrackingDisabled s" and "\<not> isControl B f"
    and "SessionPoint_advance B (expected (receiver s)) f = Inr p"
    and "receiverRecord B s f = (r, s')"
  shows "r = Inr (SessionPoint_less (received_to (receiver s)) p)"
    and "expected (receiver s') = p" and "\<not> receiverTrackingDisabled s'"
    and "received_to (receiver s')
      = (if SessionPoint_less (received_to (receiver s)) p then p else received_to (receiver s))"
  using assms by (auto simp: receiverRecord_def Let_def split: if_splits)

lemma receiver_new_frames:
  assumes "chain B base p fs q" and "\<not> receiverTrackingDisabled s"
    and "expected (receiver s) = p" and "received_to (receiver s) = p"
  shows "\<exists>s'. receiver_record_all B s fs = (map (\<lambda>_. Inr True) fs, s') \<and> \<not> receiverTrackingDisabled s'
    \<and> expected (receiver s') = q \<and> received_to (receiver s') = q"
  using assms
proof (induction fs arbitrary: p s)
  case (Cons f fs)
  obtain p' where p': "SessionPoint_advance B p f = Inr p'" "\<not> isControl B f"
    "SessionPoint_less p p'" "chain B base p' fs q"
    using Cons(2) by (elim chain_ConsE)
  obtain r s1 where r: "receiverRecord B s f = (r, s1)" by fastforce
  note step = receiverRecord_step [OF Cons(3) p'(2) _ r, of p']
  have "r = Inr True" "expected (receiver s1) = p'" "\<not> receiverTrackingDisabled s1"
    "received_to (receiver s1) = p'"
    using step p' Cons(4,5) by simp_all
  then show ?case using Cons(1) [OF p'(4), of s1] r by auto
qed auto

lemma receiver_old_frames:
  assumes "chain B base p fs q" and "\<not> receiverTrackingDisabled s"
    and "expected (receiver s) = p" and "received_to (receiver s) = q"
  shows "\<exists>s'. receiver_record_all B s fs = (map (\<lambda>_. Inr False) fs, s') \<and> \<not> receiverTrackingDisabled s'
    \<and> expected (receiver s') = q \<and> received_to (receiver s') = q"
  using assms
proof (induction fs arbitrary: p s)
  case (Cons f fs)
  obtain p' where p': "SessionPoint_advance B p f = Inr p'" "\<not> isControl B f" "chain B base p' fs q"
    using Cons(2) by (elim chain_ConsE)
  obtain r s1 where r: "receiverRecord B s f = (r, s1)" by fastforce
  note step = receiverRecord_step [OF Cons(3) p'(2) _ r, of p']
  have "r = Inr False" "expected (receiver s1) = p'" "\<not> receiverTrackingDisabled s1"
    "received_to (receiver s1) = q"
    using step p' Cons(4,5) chain_not_greater [OF p'(3)] by simp_all
  then show ?case using Cons(1) [OF p'(3), of s1] r by auto
qed auto

text \<open>
  C1. Resuming a session delivers every frame exactly once. The replay list of the sender is
  \<open>pre @ seen @ new\<close>; the receiver has taken the frames of \<open>pre\<close> and \<open>seen\<close> and then, after the connection
  was lost, asks to go on from the command boundary \<open>c\<close> after \<open>pre\<close>. The sender's \<open>senderExpected\<close> returns
  exactly \<open>seen @ new\<close>; replayed to the receiver, the frames of \<open>seen\<close> are recognised as duplicates and
  those of \<open>new\<close> are processed, and the receiver ends at the sender's send point.
\<close>

theorem session_resume_exactly_once:
  assumes "sender_reachable B s" and "replayList (sender s) = pre @ seen @ new"
    and "advance_all B (replayPoint (sender s)) pre = Inr \<lparr>command = c, offset = 0\<rparr>"
    and "\<not> receiverTrackingDisabled r"
    and "expected (receiver r) = replayPoint (sender s)" "received_to (receiver r) = replayPoint (sender s)"
  shows "senderExpected B s \<lparr>command = c, offset = 0\<rparr> = Inr (seen @ new)
    \<and> (\<exists>r1 r2 r3. receiver_record_all B r (pre @ seen) = (map (\<lambda>_. Inr True) (pre @ seen), r1)
       \<and> receiverSetCommandPoint r1 \<lparr>command = c, offset = 0\<rparr> = Inr r2
       \<and> receiver_record_all B r2 (seen @ new) = (map (\<lambda>_. Inr False) seen @ map (\<lambda>_. Inr True) new, r3)
       \<and> expected (receiver r3) = sendPoint (sender s) \<and> received_to (receiver r3) = sendPoint (sender s))"
proof -
  let ?base = "command (replayPoint (sender s))" and ?e = "\<lparr>command = c, offset = 0 :: 64 word\<rparr>"
  note inv = sender_reachable_inv [OF assms(1)]
  have ch: "chain B ?base (replayPoint (sender s)) (pre @ seen @ new) (sendPoint (sender s))"
    using inv assms(2) by (simp add: sender_inv_def)
  note c1 = chain_splitD(2) [OF ch assms(3)]
  obtain m where m: "chain B ?base ?e seen m" "chain B ?base m new (sendPoint (sender s))"
    using c1 by (rule chain_split)
  obtain m' where m': "chain B ?base (replayPoint (sender s)) (pre @ seen) m'"
    using ch unfolding append_assoc [symmetric] by (rule chain_split)
  then have "m' = m"
    using chain_advance [OF m(1)] chain_advance [OF m'] assms(3) by (simp add: advance_all_append)
  then obtain r1 where r1: "receiver_record_all B r (pre @ seen) = (map (\<lambda>_. Inr True) (pre @ seen), r1)"
    "\<not> receiverTrackingDisabled r1" "expected (receiver r1) = m" "received_to (receiver r1) = m"
    using receiver_new_frames [OF m' assms(4-6)] by auto
  let ?r2 = "r1\<lparr>receiver := (receiver r1)\<lparr>expected := ?e\<rparr>\<rparr>"
  have set: "receiverSetCommandPoint r1 ?e = Inr ?r2"
    using chain_not_greater [OF m(1)] r1(4) by (simp add: receiverSetCommandPoint_def)
  obtain r' where r': "receiver_record_all B ?r2 seen = (map (\<lambda>_. Inr False) seen, r')"
    "\<not> receiverTrackingDisabled r'" "expected (receiver r') = m" "received_to (receiver r') = m"
    using receiver_old_frames [OF m(1), of ?r2] r1 by auto
  obtain r3 where r3: "receiver_record_all B r' new = (map (\<lambda>_. Inr True) new, r3)"
    "expected (receiver r3) = sendPoint (sender s)" "received_to (receiver r3) = sendPoint (sender s)"
    using receiver_new_frames [OF m(2) r'(2-4)] by auto
  show ?thesis
    using senderExpected_correct [OF inv, of pre "seen @ new" c] assms(2,3) r1(1) set r' r3
    by (auto simp: receiver_record_all_append)
qed

section \<open>A session of two commands\<close>

definition demo_frame :: "8 word \<Rightarrow> (bool \<times> 8 word \<times> 8 word \<times> 8 word, 8 word) AMQFrame" where
  "demo_frame x = AMQFrame_init (AMQMethodBody (True, 4, 7, x))"

definition demo_session ::
  "(bool \<times> 8 word \<times> 8 word \<times> 8 word, 8 word) AMQFrame list
     \<Rightarrow> (bool \<times> 8 word \<times> 8 word \<times> 8 word, 8 word) SessionState" where
  "demo_session fs = foldl (\<lambda>s f. snd (senderRecord tiny_bodies s f)) (setTimeout (SessionState_init 0 0) 60) fs"

lemma demo_frame_simps [simp]:
  "isControl tiny_bodies (demo_frame x) = False" "isCommand tiny_bodies (demo_frame x) = True"
  "AMQFrame_encodedSize tiny_bodies (demo_frame x) = 16"
  "bof (demo_frame x)" "bos (demo_frame x)" "eof (demo_frame x)" "eos (demo_frame x)"
  by (simp_all add: demo_frame_def isControl_def isCommand_def getMethod_def AMQFrame_init_def tiny_bodies_def
      AMQFrame_encodedSize_def frameOverhead_def)

lemma demo_sender:
  "sender (demo_session [demo_frame 1]) = \<lparr>replayPoint = point0, flushPoint = point0,
     sendPoint = \<lparr>command = 1, offset = 0\<rparr>, replayList = [demo_frame 1], unflushedSize = 16,
     replaySize = 16, sent_incomplete = SequenceSet_add_one [] 0, sent_bytesSinceKnownCompleted = 16\<rparr>"
  "sender (demo_session [demo_frame 1, demo_frame 2]) = \<lparr>replayPoint = point0, flushPoint = point0,
     sendPoint = \<lparr>command = 2, offset = 0\<rparr>, replayList = [demo_frame 1, demo_frame 2], unflushedSize = 32,
     replaySize = 32, sent_incomplete = SequenceSet_add_one (SequenceSet_add_one [] 0) 1,
     sent_bytesSinceKnownCompleted = 32\<rparr>"
  by (simp_all add: demo_session_def setTimeout_def SessionState_init_def senderRecord_def point0_def
      SessionPoint_advance_def SequenceNumber_incr_def)

lemma demo_reachable: "sender_reachable tiny_bodies (demo_session [demo_frame 1, demo_frame 2])"
proof -
  have 0: "sender_reachable tiny_bodies (setTimeout (SessionState_init 0 0) 60)"
    by (rule sender_reachable.init) simp
  have 1: "sender_reachable tiny_bodies (demo_session [demo_frame 1])"
    by (rule sender_reachable.recorded [OF 0, of "demo_frame 1" None])
      (simp_all add: demo_session_def setTimeout_def SessionState_init_def senderRecord_def point0_def
        SessionPoint_advance_def)
  show ?thesis
    by (rule sender_reachable.recorded [OF 1, of "demo_frame 2" None])
      (simp_all add: demo_session_def setTimeout_def SessionState_init_def senderRecord_def point0_def
        SessionPoint_advance_def)
qed

theorem sender_points_ordered_witness:
  "\<not> SessionPoint_less (flushPoint (sender (demo_session [demo_frame 1, demo_frame 2])))
      (replayPoint (sender (demo_session [demo_frame 1, demo_frame 2])))"
  using sender_points_ordered [OF demo_reachable] by blast

theorem senderConfirmed_trims_witness:
  "\<exists>s'. senderConfirmed tiny_bodies (demo_session [demo_frame 1, demo_frame 2]) \<lparr>command = 1, offset = 0\<rparr>
      = (None, s') \<and> replayPoint (sender s') = \<lparr>command = 1, offset = 0\<rparr>"
  using senderConfirmed_trims [OF demo_reachable, of "\<lparr>command = 1, offset = 0\<rparr>"]
  by (auto simp: demo_sender point0_def SessionPoint_less_def SequenceNumber_less_def)

theorem session_resume_exactly_once_witness:
  "senderExpected tiny_bodies (demo_session [demo_frame 1, demo_frame 2]) point0
    = Inr ([demo_frame 1] @ [demo_frame 2])"
  using session_resume_exactly_once [OF demo_reachable, of "[]" "[demo_frame 1]" "[demo_frame 2]" 0
      "SessionState_init 0 0"]
  by (simp add: demo_sender SessionState_init_def point0_def)

section \<open>Completion\<close>

definition closed_between :: "SequenceNumber \<Rightarrow> SequenceNumber \<Rightarrow> SequenceNumber \<Rightarrow> SequenceNumber set" where
  "closed_between base a b =
     {x. in_window base x \<and> window_pos base a \<le> window_pos base x \<and> window_pos base x \<le> window_pos base b}"

lemma closed_range_elements:
  assumes "in_window base a" "in_window base (SequenceNumber_incr b)" "in_window base b"
    "window_pos base a \<le> window_pos base b"
  shows "Range_in (in_window base) (SequenceSet_closed a b)"
    and "window_pos base (range_begin (SequenceSet_closed a b)) \<le> window_pos base (range_end (SequenceSet_closed a b))"
    and "x \<in> seq_elements base [SequenceSet_closed a b] \<longleftrightarrow> x \<in> closed_between base a b"
proof -
  have "in_window base (SequenceNumber_incr a)"
    using assms window_pos_incr [of base a] window_pos_incr [of base b] by (simp add: in_window_def)
  note pos = SequenceSet_closed_pos [OF assms(1,3) this assms(2)]
  show "Range_in (in_window base) (SequenceSet_closed a b)" by (rule pos(1))
  show "window_pos base (range_begin (SequenceSet_closed a b)) \<le> window_pos base (range_end (SequenceSet_closed a b))"
    using pos(2,3) by simp
  show "x \<in> seq_elements base [SequenceSet_closed a b] \<longleftrightarrow> x \<in> closed_between base a b"
    unfolding seq_elements_range [OF pos(1)] pos(2,3) closed_between_def mem_Collect_eq less_Suc_eq_le
      min_absorb1 [OF assms(4)] max_absorb2 [OF assms(4)] by (rule refl)
qed

lemma SequenceSet_add_elements:
  assumes "seq_set_wf base s" and "in_window base a" "in_window base (SequenceNumber_incr b)" "in_window base b"
    "window_pos base a \<le> window_pos base b"
  shows "seq_set_wf base (SequenceSet_add s a b)"
    and "seq_elements base (SequenceSet_add s a b) = seq_elements base s \<union> closed_between base a b"
proof -
  note cl = closed_range_elements [OF assms(2-5)]
  note add = seq_window.addRange_correct [OF seq_set_wfD [OF assms(1)] cl(1,2)]
  show wf: "seq_set_wf base (SequenceSet_add s a b)"
    unfolding SequenceSet_add_def using add by (intro seq_set_wfI) auto
  show "seq_elements base (SequenceSet_add s a b) = seq_elements base s \<union> closed_between base a b"
  proof -
    have "x \<in> seq_elements base (SequenceSet_add s a b)
        \<longleftrightarrow> x \<in> seq_elements base s \<or> x \<in> seq_elements base [SequenceSet_closed a b]" for x
      unfolding seq_elements_at [OF wf] seq_elements_at [OF assms(1)] seq_elements_range [OF cl(1)]
      unfolding SequenceSet_add_def using add by blast
    then show ?thesis using cl(3) by blast
  qed
qed

lemma SequenceSet_remove_elements:
  assumes "seq_set_wf base s" and "in_window base a" "in_window base (SequenceNumber_incr b)" "in_window base b"
    "window_pos base a \<le> window_pos base b"
  shows "seq_set_wf base (SequenceSet_remove s a b)"
    and "seq_elements base (SequenceSet_remove s a b) = seq_elements base s - closed_between base a b"
proof -
  note cl = closed_range_elements [OF assms(2-5)]
  note rem = seq_window.removeRange_correct [OF seq_set_wfD [OF assms(1)] cl(1,2), unfolded seq_window.removed_def]
  show wf: "seq_set_wf base (SequenceSet_remove s a b)"
    unfolding SequenceSet_remove_def using rem by (intro seq_set_wfI) auto
  show "seq_elements base (SequenceSet_remove s a b) = seq_elements base s - closed_between base a b"
  proof -
    have "x \<in> seq_elements base (SequenceSet_remove s a b)
        \<longleftrightarrow> x \<in> seq_elements base s \<and> x \<notin> seq_elements base [SequenceSet_closed a b]" for x
      unfolding seq_elements_at [OF wf] seq_elements_at [OF assms(1)] seq_elements_range [OF cl(1)]
      unfolding SequenceSet_remove_def using rem by blast
    then show ?thesis using cl(3) by blast
  qed
qed

lemma front_least:
  assumes "seq_set_wf base s" and "x \<in> seq_elements base s"
  shows "in_window base (range_begin (hd s))"
    and "window_pos base (range_begin (hd s)) \<le> window_pos base x"
proof -
  have x: "seq_window.at base s (window_pos base x)"
    using assms seq_elements_at by blast
  then obtain r rs where s: "s = r # rs" by (cases s) (auto simp: seq_window.at_def)
  show "in_window base (range_begin (hd s))"
    using seq_set_wfD(1) [OF assms(1)] s by (simp add: Range_in_def)
  show "window_pos base (range_begin (hd s)) \<le> window_pos base x"
    using seq_set_wfD(2) [OF assms(1)] x s by (force simp: seq_window.at_def)
qed

text \<open>
  Completing a command that is incomplete at the receiver. Not cumulative: it moves from the set
  of incomplete commands to the set of completed ones the peer may not know about. Cumulative: every
  incomplete command up to it leaves the set, exactly those, and they are all recorded as completed.
  Completing a command that is not incomplete fails the assertion.
\<close>

theorem receiverCompleted_moves:
  assumes "seq_set_wf base (incomplete (receiver s))" and "seq_set_wf base (unknownCompleted (receiver s))"
    and "in_window base cmd" and "in_window base (SequenceNumber_incr cmd)"
    and "\<not> receiverTrackingDisabled s"
  shows "if cmd \<in> seq_elements base (incomplete (receiver s))
    then \<exists>s'. receiverCompleted s cmd cumulative = Inr s'
      \<and> seq_set_wf base (incomplete (receiver s')) \<and> seq_set_wf base (unknownCompleted (receiver s'))
      \<and> (if cumulative
         then seq_elements base (incomplete (receiver s'))
             = {x \<in> seq_elements base (incomplete (receiver s)). SequenceNumber_less cmd x}
           \<and> seq_elements base (unknownCompleted (receiver s)) \<union>
             {x \<in> seq_elements base (incomplete (receiver s)). \<not> SequenceNumber_less cmd x}
             \<subseteq> seq_elements base (unknownCompleted (receiver s'))
         else seq_elements base (incomplete (receiver s')) = seq_elements base (incomplete (receiver s)) - {cmd}
           \<and> seq_elements base (unknownCompleted (receiver s'))
             = insert cmd (seq_elements base (unknownCompleted (receiver s))))
    else receiverCompleted s cmd cumulative = Inl AssertionFailed"
proof -
  let ?i = "incomplete (receiver s)" and ?u = "unknownCompleted (receiver s)"
  have mem: "SequenceSet_contains ?i cmd \<longleftrightarrow> cmd \<in> seq_elements base ?i"
    using seq_window.RangeSet_contains_correct [OF seq_set_wfD [OF assms(1)] assms(3)]
      seq_elements_at [OF assms(1)] assms(3) by (simp add: SequenceSet_contains_def)
  show ?thesis
  proof (cases "cmd \<in> seq_elements base ?i")
    case False
    then show ?thesis using mem assms(5) by (simp add: receiverCompleted_def Let_def)
  next
    case True
    define first where "first = (if cumulative then range_begin (hd ?i) else cmd)"
    have first: "in_window base first" "window_pos base first \<le> window_pos base cmd"
      using front_least [OF assms(1) True] assms(3) by (auto simp: first_def)
    note add = SequenceSet_add_elements [OF assms(2) first(1) assms(4,3) first(2)]
    note rem = SequenceSet_remove_elements [OF assms(1) first(1) assms(4,3) first(2)]
    let ?s = "s\<lparr>receiver := (receiver s)\<lparr>unknownCompleted := SequenceSet_add ?u first cmd,
      incomplete := SequenceSet_remove ?i first cmd\<rparr>\<rparr>"
    have res: "receiverCompleted s cmd cumulative = Inr ?s"
      using mem True assms(5) by (simp add: receiverCompleted_def Let_def first_def)
    have single: "closed_between base cmd cmd = {cmd}"
      using assms(3) window_pos_inj by (force simp: closed_between_def)
    have low: "x \<in> closed_between base first cmd \<longleftrightarrow> \<not> SequenceNumber_less cmd x"
      if "x \<in> seq_elements base ?i" cumulative for x
      using front_least(2) [OF assms(1) that(1)] that seq_elements_at [OF assms(1), of x]
        SequenceNumber_less_window [OF assms(3), of x] by (auto simp: closed_between_def first_def)
    have "if cumulative
       then seq_elements base (SequenceSet_remove ?i first cmd) = {x \<in> seq_elements base ?i. SequenceNumber_less cmd x}
         \<and> seq_elements base ?u \<union> {x \<in> seq_elements base ?i. \<not> SequenceNumber_less cmd x}
           \<subseteq> seq_elements base (SequenceSet_add ?u first cmd)
       else seq_elements base (SequenceSet_remove ?i first cmd) = seq_elements base ?i - {cmd}
         \<and> seq_elements base (SequenceSet_add ?u first cmd) = insert cmd (seq_elements base ?u)"
      using low single unfolding add(2) rem(2) by (cases cumulative) (auto simp: first_def)
    then show ?thesis
      using True res add(1) rem(1) by auto
  qed
qed


theorem receiverCompleted_moves_witness:
  "\<exists>s'. receiverCompleted ((SessionState_init 0 0 :: (unit, unit) SessionState)\<lparr>receiver :=
      (receiver (SessionState_init 0 0 :: (unit, unit) SessionState))\<lparr>incomplete := [\<lparr>range_begin = 0, range_end = 3\<rparr>]\<rparr>\<rparr>) 1 False
      = Inr s' \<and> seq_elements 0 (incomplete (receiver s')) = seq_elements 0 [\<lparr>range_begin = 0, range_end = 3\<rparr>] - {1}"
proof -
  have "(1 :: SequenceNumber) \<in> seq_elements 0 [\<lparr>range_begin = 0, range_end = 3\<rparr>]"
    by (subst seq_elements_range) (simp_all add: Range_in_def in_window_def window_pos_def)
  then show ?thesis
    using receiverCompleted_moves [of 0 "(SessionState_init 0 0)\<lparr>receiver :=
      (receiver (SessionState_init 0 0))\<lparr>incomplete := [\<lparr>range_begin = 0, range_end = 3\<rparr>]\<rparr>\<rparr>" 1 False]
    by (auto simp: SessionState_init_def seq_set_wf_def RangeSet_inv_def Range_in_def in_window_def
        window_pos_def SequenceNumber_less_def SequenceNumber_incr_def)
qed

section \<open>Sessions that are not replayed\<close>

text \<open>A session with timeout 0 keeps no frames. Frames sent and confirmations received, in any order:\<close>

datatype ('m, 'h) sender_event = Sent "('m, 'h) AMQFrame" | Confirmed SessionPoint

fun sender_run ::
  "('m, 'h) bodies \<Rightarrow> ('m, 'h) SessionState \<Rightarrow> ('m, 'h) sender_event list \<Rightarrow> ('m, 'h) SessionState" where
  "sender_run B s [] = s"
| "sender_run B s (Sent f # es) = sender_run B (snd (senderRecord B s f)) es"
| "sender_run B s (Confirmed p # es) = sender_run B (snd (senderConfirmed B s p)) es"

fun sent_frames :: "('m, 'h) bodies \<Rightarrow> ('m, 'h) sender_event list \<Rightarrow> ('m, 'h) AMQFrame list" where
  "sent_frames B [] = []"
| "sent_frames B (Sent f # es) = (if isControl B f then [] else [f]) @ sent_frames B es"
| "sent_frames B (Confirmed p # es) = sent_frames B es"

lemma senderRecord_no_replay:
  assumes "timeout s = 0" and "replayList (sender s) = []"
  shows "timeout (snd (senderRecord B s f)) = 0" "replayList (sender (snd (senderRecord B s f))) = []"
    "replayHardLimit (snd (senderRecord B s f)) = replayHardLimit s"
    "replaySize (sender (snd (senderRecord B s f)))
      = replaySize (sender s) + (if isControl B f then 0 else frame_size B f)"
  using assms by (auto simp: senderRecord_def Let_def split: sum.splits)

lemma senderConfirmed_no_replay:
  assumes "timeout s = 0" and "replayList (sender s) = []"
  shows "timeout (snd (senderConfirmed B s p)) = 0" "replayList (sender (snd (senderConfirmed B s p))) = []"
    "replayHardLimit (snd (senderConfirmed B s p)) = replayHardLimit s"
    "replaySize (sender (snd (senderConfirmed B s p))) = replaySize (sender s)"
  using assms by (auto simp: senderConfirmed_def Let_def)

lemma sender_run_no_replay:
  assumes "timeout s = 0" and "replayList (sender s) = []"
  shows "timeout (sender_run B s es) = 0 \<and> replayList (sender (sender_run B s es)) = []
    \<and> replayHardLimit (sender_run B s es) = replayHardLimit s
    \<and> replaySize (sender (sender_run B s es)) = replaySize (sender s) + of_nat (bytes B (sent_frames B es))"
  using assms
proof (induction B s es rule: sender_run.induct)
  case (2 B s f es)
  then show ?case using senderRecord_no_replay [of s B f] by (simp add: add.assoc)
next
  case (3 B s p es)
  then show ?case using senderConfirmed_no_replay [of s B p] by simp
qed simp

text \<open>
  In a session with timeout 0 the replay list stays empty, but \<open>replaySize\<close>, documented as the bytes
  in the replay list, counts every byte ever sent, whatever is confirmed: once the total exceeds the
  hard limit, sending any further command fails, although nothing is kept for replay.
\<close>

theorem replay_limit_without_replay:
  assumes "hard \<noteq> 0" and "\<not> isControl B f"
    and "bytes B (sent_frames B es) + AMQFrame_encodedSize B f < 2 ^ 64"
    and "unat hard < bytes B (sent_frames B es) + AMQFrame_encodedSize B f"
  shows "replayList (sender (sender_run B (SessionState_init flush hard) es)) = []
    \<and> fst (senderRecord B (sender_run B (SessionState_init flush hard) es) f) \<noteq> None"
proof -
  let ?s = "sender_run B (SessionState_init flush hard) es"
  let ?n = "bytes B (sent_frames B es) + AMQFrame_encodedSize B f"
  have s: "timeout ?s = 0" "replayList (sender ?s) = []" "replayHardLimit ?s = hard"
    "replaySize (sender ?s) = of_nat (bytes B (sent_frames B es))"
    using sender_run_no_replay [of "SessionState_init flush hard" B es] by (simp_all add: SessionState_init_def)
  have "unat (of_nat ?n :: 64 word) = ?n"
    using assms(3) by (simp only: unat_of_nat) simp
  then have "hard < replaySize (sender ?s) + frame_size B f"
    using assms(4) s(4) by (simp add: word_less_nat_alt)
  then show ?thesis
    using s assms(1,2) by (simp add: senderRecord_def Let_def split: sum.split)
qed

theorem replay_limit_without_replay_witness:
  "fst (senderRecord tiny_bodies (sender_run tiny_bodies (SessionState_init 0 20)
      [Sent (demo_frame 1), Confirmed \<lparr>command = 1, offset = 0\<rparr>]) (demo_frame 2)) \<noteq> None"
  using replay_limit_without_replay [of 20 tiny_bodies "demo_frame 2"
      "[Sent (demo_frame 1), Confirmed \<lparr>command = 1, offset = 0\<rparr>]" 0] by simp

end
