(* ===== verification/AMQ_Header_Body.thy ===== *)
theory AMQ_Header_Body
  imports AMQ_Frame
begin

text \<open>
  The body of a header frame: \<open>qpid::framing::AMQHeaderBody\<close> (\<open>src/qpid/framing/AMQHeaderBody.h\<close> and
  \<open>AMQHeaderBody.cpp\<close>), a set of optional property structs. The structs, \<open>DeliveryProperties\<close> and
  \<open>MessageProperties\<close>, are generated when the program is built: they are arguments of the definitions,
  and what is relied on is \<open>struct_ok\<close>. The operations of the header body are then shown to keep what
  \<open>bodies_ok\<close> asks of them.
\<close>

section \<open>The properties\<close>

text \<open>
  The generated code of a struct: its type code, \<open>encodedSize\<close>, \<open>encode\<close>, which writes the size and the
  type code before the fields, and \<open>decodeStructBody\<close> on a new struct.
\<close>

record 'a StructCode =
  struct_TYPE :: "16 word"
  struct_encodedSize :: "'a \<Rightarrow> nat"
  struct_encode :: "Buffer \<Rightarrow> 'a \<Rightarrow> Buffer result"
  decodeStructBody :: "Buffer \<Rightarrow> 32 word \<Rightarrow> ('a \<times> Buffer) result"

record ('d, 'p) Properties =
  delivery_props :: "'d option"
  message_props :: "'p option"

definition Properties_init :: "('d, 'p) Properties" where
  "Properties_init = \<lparr>delivery_props = None, message_props = None\<rparr>"

text \<open>
  \<open>PropSet<PropSet<Empty, DeliveryProperties>, MessageProperties>\<close>: the outer set has the message
  properties and does its own part first.
\<close>

definition PropSet_encodedSize :: "'a StructCode \<Rightarrow> 'a option \<Rightarrow> nat \<Rightarrow> nat" where
  "PropSet_encodedSize T p base = (case p of None \<Rightarrow> 0 | Some v \<Rightarrow> struct_encodedSize T v) + base"

definition PropSet_encode :: "'a StructCode \<Rightarrow> 'a option \<Rightarrow> (Buffer \<Rightarrow> Buffer result) \<Rightarrow> Buffer \<Rightarrow> Buffer result" where
  "PropSet_encode T p base b = res_bind (case p of None \<Rightarrow> Inr b | Some v \<Rightarrow> struct_encode T b v) base"

definition PropSet_decode ::
  "'a StructCode \<Rightarrow> ('a \<Rightarrow> 'h) \<Rightarrow> (Buffer \<Rightarrow> ('h option \<times> Buffer) result) \<Rightarrow> 32 word \<Rightarrow> 16 word \<Rightarrow> Buffer \<Rightarrow> ('h option \<times> Buffer) result" where
  "PropSet_decode T put base len type b =
     (if type = struct_TYPE T then res_bind (decodeStructBody T b len) (\<lambda>(v, b). Inr (Some (put v), b)) else base b)"

definition Properties_decode ::
  "'d StructCode \<Rightarrow> 'p StructCode \<Rightarrow> ('d, 'p) Properties \<Rightarrow> 32 word \<Rightarrow> 16 word \<Rightarrow> Buffer \<Rightarrow> (('d, 'p) Properties option \<times> Buffer) result" where
  "Properties_decode D M h len type =
     PropSet_decode M (\<lambda>v. h\<lparr>message_props := Some v\<rparr>)
       (PropSet_decode D (\<lambda>v. h\<lparr>delivery_props := Some v\<rparr>) (\<lambda>b. Inr (None, b)) len type) len type"

section \<open>The header body\<close>

definition AMQHeaderBody_encodedSize :: "'d StructCode \<Rightarrow> 'p StructCode \<Rightarrow> ('d, 'p) Properties \<Rightarrow> nat" where
  "AMQHeaderBody_encodedSize D M h = PropSet_encodedSize M (message_props h) (PropSet_encodedSize D (delivery_props h) 0)"

definition AMQHeaderBody_encode :: "'d StructCode \<Rightarrow> 'p StructCode \<Rightarrow> Buffer \<Rightarrow> ('d, 'p) Properties \<Rightarrow> Buffer result" where
  "AMQHeaderBody_encode D M b h = PropSet_encode M (message_props h) (PropSet_encode D (delivery_props h) Inr) b"

text \<open>
  The loop of \<open>decode\<close>, in the 32-bit arithmetic of the code. Each turn reads six bytes before the
  struct, so one turn more than there are bytes is enough as long as a struct does not move the
  position back.
\<close>

fun header_loop ::
  "nat \<Rightarrow> 'd StructCode \<Rightarrow> 'p StructCode \<Rightarrow> 32 word \<Rightarrow> ('d, 'p) Properties \<Rightarrow> Buffer \<Rightarrow> (('d, 'p) Properties \<times> Buffer) result" where
  "header_loop 0 D M limit h b = Inl GeneralException"
| "header_loop (Suc fuel) D M limit h b =
     (if limit + 2 < of_nat (available b)
      then res_bind (getLong b) (\<lambda>(len, b). res_bind (getShort b) (\<lambda>(type, b).
             res_bind (Properties_decode D M h len type b) (\<lambda>(h', b).
               case h' of None \<Rightarrow> Inl GeneralException | Some h \<Rightarrow> header_loop fuel D M limit h b)))
      else Inr (h, b))"

definition AMQHeaderBody_decode ::
  "'d StructCode \<Rightarrow> 'p StructCode \<Rightarrow> ('d, 'p) Properties \<Rightarrow> nat \<Rightarrow> Buffer \<Rightarrow> (('d, 'p) Properties \<times> Buffer) result" where
  "AMQHeaderBody_decode D M h body_size b = header_loop (Suc (available b)) D M (of_nat (available b) - of_nat body_size) h b"

text \<open>The bodies of frames, from the generated methods and structs.\<close>

definition frame_bodies :: "'m methods \<Rightarrow> 'd StructCode \<Rightarrow> 'p StructCode \<Rightarrow> ('m, ('d, 'p) Properties) bodies" where
  "frame_bodies G D M =
     \<lparr>amqpClassId = amqpClassId G, amqpMethodId = amqpMethodId G, method_type = method_type G,
      method_encodedSize = method_encodedSize G, method_encode = method_encode G, method_decode = method_decode G,
      header_encodedSize = AMQHeaderBody_encodedSize D M, header_encode = AMQHeaderBody_encode D M,
      header_decode = AMQHeaderBody_decode D M Properties_init\<rparr>"

section \<open>The turns of the loop\<close>

lemma get_moves:
  assumes "buf_wf b"
  shows "getLong b = Inr (v, b') \<Longrightarrow> buf_wf b' \<and> available b' < available b"
    and "getShort b = Inr (w, b') \<Longrightarrow> buf_wf b' \<and> available b' < available b"
  using assms by (auto simp: getLong_def getShort_def checkAvailable_def throw_if_eq_Inr Let_def skip_byte_conv)

lemma Properties_decode_struct:
  "Properties_decode D M h len type b = Inr (Some h', b') \<Longrightarrow>
     (\<exists>v. decodeStructBody M b len = Inr (v, b')) \<or> (\<exists>v. decodeStructBody D b len = Inr (v, b'))"
  by (auto simp: Properties_decode_def PropSet_decode_def res_bind_eq_Inr split: if_splits)

lemma header_loop_enough:
  assumes "buf_wf b" "available b < fuel"
    and D: "\<And>b n v b'. buf_wf b \<Longrightarrow> decodeStructBody D b n = Inr (v, b') \<Longrightarrow> buf_wf b' \<and> available b' \<le> available b"
    and M: "\<And>b n v b'. buf_wf b \<Longrightarrow> decodeStructBody M b n = Inr (v, b') \<Longrightarrow> buf_wf b' \<and> available b' \<le> available b"
  shows "header_loop (Suc fuel) D M limit h b = header_loop fuel D M limit h b"
  using assms(1,2)
proof (induction fuel arbitrary: h b)
  case (Suc fuel)
  have turn: "header_loop (Suc fuel) D M limit h' b3 = header_loop fuel D M limit h' b3"
    if "getLong b = Inr (len, b1)" "getShort b1 = Inr (type, b2)" "Properties_decode D M h len type b2 = Inr (Some h', b3)" for len b1 type b2 h' b3
  proof (rule Suc.IH)
    have "buf_wf b2 \<and> available b2 < available b"
      using get_moves(1) [OF Suc.prems(1) that(1)] get_moves(2) [OF _ that(2)] by auto
    moreover from this have "buf_wf b3 \<and> available b3 \<le> available b2"
      using Properties_decode_struct [OF that(3)] D M by blast
    ultimately show "buf_wf b3" "available b3 < fuel"
      using Suc.prems(2) by simp_all
  qed
  show ?case
    unfolding header_loop.simps(2) [of "Suc fuel"] by (subst (2) header_loop.simps(2)) (auto intro!: res_bind_cong dest: turn split: option.splits simp del: header_loop.simps)
qed simp

section \<open>What the header body promises\<close>

text \<open>
  A struct has a type code and an encoding \<open>body\<close> of its fields; its \<open>encode\<close> puts the size, of type code
  and fields, and the type code before it, and \<open>decodeStructBody\<close> reads the fields back.
\<close>

definition enc_struct :: "'a StructCode \<Rightarrow> ('a \<Rightarrow> byte list) \<Rightarrow> 'a \<Rightarrow> byte list" where
  "enc_struct T body v = be32 (of_nat (length (body v) + 2)) @ be16 (struct_TYPE T) @ body v"

definition struct_ok :: "'a StructCode \<Rightarrow> ('a \<Rightarrow> byte list) \<Rightarrow> bool" where
  "struct_ok T body \<longleftrightarrow>
     (\<forall>v. struct_encodedSize T v = 6 + length (body v)
        \<and> (\<forall>b. buf_wf b \<longrightarrow> 6 + length (body v) \<le> available b \<longrightarrow> struct_encode T b v = Inr (put_bytes b (enc_struct T body v)))
        \<and> (\<forall>b xs n. buf_wf b \<longrightarrow> buf_rest b = body v @ xs \<longrightarrow> decodeStructBody T b n = Inr (v, advance b (length (body v)))))"

definition enc_props :: "'a StructCode \<Rightarrow> ('a \<Rightarrow> byte list) \<Rightarrow> 'a option \<Rightarrow> byte list" where
  "enc_props T body p = (case p of None \<Rightarrow> [] | Some v \<Rightarrow> enc_struct T body v)"

definition enc_properties ::
  "'d StructCode \<Rightarrow> 'p StructCode \<Rightarrow> ('d \<Rightarrow> byte list) \<Rightarrow> ('p \<Rightarrow> byte list) \<Rightarrow> ('d, 'p) Properties \<Rightarrow> byte list" where
  "enc_properties D M bd bm h = enc_props M bm (message_props h) @ enc_props D bd (delivery_props h)"

lemma length_enc_struct [simp]: "length (enc_struct T body v) = 6 + length (body v)"
  by (simp add: enc_struct_def be32_def be16_def)

lemma header_encodedSize_law:
  "struct_ok D bd \<Longrightarrow> struct_ok M bm \<Longrightarrow> AMQHeaderBody_encodedSize D M h = length (enc_properties D M bd bm h)"
  by (auto simp: AMQHeaderBody_encodedSize_def PropSet_encodedSize_def enc_properties_def enc_props_def struct_ok_def split: option.splits)

lemma put_bytes_Nil: "put_bytes b [] = b"
  by (simp add: put_bytes_def)

lemma header_encode_law:
  assumes "struct_ok D bd" "struct_ok M bm" "buf_wf b" "length (enc_properties D M bd bm h) \<le> available b"
  shows "AMQHeaderBody_encode D M b h = Inr (put_bytes b (enc_properties D M bd bm h))"
  using assms
  by (cases "message_props h"; cases "delivery_props h")
    (auto simp: AMQHeaderBody_encode_def PropSet_encode_def enc_properties_def enc_props_def struct_ok_def put_bytes_append put_bytes_Nil)

text \<open>One turn of the loop, and when it is taken: \<open>k\<close> bytes follow the header body.\<close>

lemma struct_decode:
  "struct_ok T body \<Longrightarrow> buf_wf b \<Longrightarrow> buf_rest b = body v @ xs \<Longrightarrow> decodeStructBody T b n = Inr (v, advance b (length (body v)))"
  unfolding struct_ok_def by blast

lemma struct_turn:
  assumes ok: "struct_ok T body" and b: "buf_wf b" "buf_rest b = enc_struct T body v @ xs"
  shows "getLong b = Inr (of_nat (length (body v) + 2), advance b 4)"
    and "getShort (advance b 4) = Inr (struct_TYPE T, advance b 6)"
    and "decodeStructBody T (advance b 6) n = Inr (v, advance b (6 + length (body v)))"
proof -
  have av: "6 + length (body v) \<le> available b"
    using length_buf_rest [OF b(1)] b(2) by simp
  have l: "length (be32 x) = 4" "length (be16 y) = 2" for x y
    by (simp_all add: be32_def be16_def)
  show "getLong b = Inr (of_nat (length (body v) + 2), advance b 4)"
    using long.get_law [OF b(1) _ b(2) [unfolded enc_struct_def append_assoc]] by (simp add: l)
  have r: "buf_wf (advance b 4)" "buf_rest (advance b 4) = be16 (struct_TYPE T) @ body v @ xs"
    using b av by (simp_all add: enc_struct_def l)
  show "getShort (advance b 4) = Inr (struct_TYPE T, advance b 6)"
    using short.get_law [OF r(1) _ r(2)] by (simp add: l)
  have "buf_wf (advance b 6)" "buf_rest (advance b 6) = body v @ xs"
    using b av by (simp_all add: enc_struct_def l)
  then show "decodeStructBody T (advance b 6) n = Inr (v, advance b (6 + length (body v)))"
    using struct_decode [OF ok] by fastforce
qed

lemma turn_taken: "k + n + 12 < 2 ^ 32 \<Longrightarrow> (of_nat k + 2 < (of_nat (k + n) :: 32 word)) \<longleftrightarrow> 2 < n"
proof -
  assume a: "k + n + 12 < 2 ^ 32"
  have "of_nat k + 2 = (of_nat (k + 2) :: 32 word)"
    by simp
  moreover have "unat (of_nat (k + 2) :: 32 word) = k + 2" "unat (of_nat (k + n) :: 32 word) = k + n"
    using a by (simp_all only: unat_of_nat) simp_all
  ultimately show ?thesis
    by (simp only: word_less_nat_alt) simp
qed

lemma header_loop_message:
  assumes "struct_ok M bm" "buf_wf b" "available b + 12 < 2 ^ 32" "buf_rest b = enc_struct M bm v @ xs" "available b = k + length (enc_struct M bm v) + n"
  shows "header_loop (Suc fuel) D M (of_nat k) h b = header_loop fuel D M (of_nat k) (h\<lparr>message_props := Some v\<rparr>) (advance b (6 + length (bm v)))"
  using struct_turn [OF assms(1,2,4)] turn_taken [of k "length (enc_struct M bm v) + n"] assms(3,5)
  by (simp add: Properties_decode_def PropSet_decode_def add.assoc)

lemma header_loop_delivery:
  assumes "struct_ok D bd" "struct_TYPE D \<noteq> struct_TYPE M" "buf_wf b" "available b + 12 < 2 ^ 32" "buf_rest b = enc_struct D bd v @ xs"
    "available b = k + length (enc_struct D bd v)"
  shows "header_loop (Suc fuel) D M (of_nat k) h b = header_loop fuel D M (of_nat k) (h\<lparr>delivery_props := Some v\<rparr>) (advance b (6 + length (bd v)))"
  using struct_turn [OF assms(1,3,5)] turn_taken [of k "length (enc_struct D bd v)"] assms(2,4,6)
  by (simp add: Properties_decode_def PropSet_decode_def)

lemma header_loop_end:
  assumes "available b + 12 < 2 ^ 32"
  shows "header_loop (Suc fuel) D M (of_nat (available b)) h b = Inr (h, b)"
  using turn_taken [of "available b" 0] assms by simp

lemma header_decode_law:
  assumes ok: "struct_ok D bd" "struct_ok M bm" "struct_TYPE D \<noteq> struct_TYPE M"
    and b: "buf_wf b" "available b + 12 < 2 ^ 32" "buf_rest b = enc_properties D M bd bm h @ xs"
  shows "AMQHeaderBody_decode D M Properties_init (length (enc_properties D M bd bm h)) b
    = Inr (h, advance b (length (enc_properties D M bd bm h)))"
proof -
  let ?m = "enc_props M bm (message_props h)" and ?d = "enc_props D bd (delivery_props h)" and ?k = "length xs"
  let ?b = "advance b (length ?m)" and ?h = "\<lparr>delivery_props = None, message_props = message_props h\<rparr>"
  have av: "available b = ?k + length ?m + length ?d"
    using length_buf_rest [OF b(1)] b(3) by (simp add: enc_properties_def)
  have limit: "(of_nat (available b) - of_nat (length (enc_properties D M bd bm h)) :: 32 word) = of_nat ?k"
    by (simp add: av enc_properties_def)
  have b': "buf_wf ?b" "available ?b = ?k + length ?d" "buf_rest ?b = ?d @ xs"
    using b av by (simp_all add: enc_properties_def)
  have d: "header_loop fuel D M (of_nat ?k) ?h ?b = Inr (h, advance ?b (length ?d))" if fuel: "available ?b < fuel" for fuel
  proof (cases "delivery_props h")
    case None
    then have "?h = h" "available ?b = ?k" "length ?d = 0"
      using b' by (cases h, simp_all add: enc_props_def)
    then show ?thesis
      using header_loop_end [of ?b "fuel - 1" D M h] fuel b(2) av by (simp del: header_loop.simps)
  next
    case (Some v)
    obtain n where n: "fuel = Suc (Suc n)"
      using fuel b'(2) Some by (cases fuel; cases "fuel - 1") (simp_all add: enc_props_def)
    have d: "?d = enc_struct D bd v" "?h\<lparr>delivery_props := Some v\<rparr> = h"
      using Some by (cases h, simp_all add: enc_props_def)
    have fin: "available (advance ?b (6 + length (bd v))) = ?k"
      using advance_wf(2) [OF b'(1), of "6 + length (bd v)"] b'(2) d(1) by (simp del: advance_advance)
    show ?thesis
      using header_loop_delivery [OF ok(1,3) b'(1), of v xs ?k "Suc n" ?h] header_loop_end [of "advance ?b (6 + length (bd v))" n D M h]
        b' b(2) av unfolding n d fin by (simp del: header_loop.simps)
  qed
  show ?thesis
  proof (cases "message_props h")
    case None
    then have "Properties_init = ?h" "?b = b"
      by (simp_all add: Properties_init_def enc_props_def)
    then show ?thesis
      using d [of "Suc (available b)"] None unfolding AMQHeaderBody_decode_def limit
      by (simp del: header_loop.simps add: enc_properties_def enc_props_def Properties_init_def)
  next
    case (Some v)
    have m: "?m = enc_struct M bm v" "Properties_init\<lparr>message_props := Some v\<rparr> = ?h"
      using Some by (simp_all add: Properties_init_def enc_props_def)
    have "header_loop (Suc (available b)) D M (of_nat ?k) Properties_init b = header_loop (available b) D M (of_nat ?k) ?h ?b"
      using header_loop_message [OF ok(2) b(1,2), of v "?d @ xs" ?k "length ?d" "available b" D Properties_init] b(3) av
      unfolding m(2) m(1) by (simp del: header_loop.simps add: enc_properties_def m(1))
    then show ?thesis
      using d [of "available b"] av b'(2) unfolding AMQHeaderBody_decode_def limit
      by (simp del: header_loop.simps add: enc_properties_def m(1))
  qed
qed

text \<open>With the generated code as it should be, the bodies of frames are as the frames rely on.\<close>

lemma frame_bodies_ok:
  assumes "methods_ok G encm" "struct_ok D bd" "struct_ok M bm" "struct_TYPE D \<noteq> struct_TYPE M"
  shows "bodies_ok (frame_bodies G D M) encm (enc_properties D M bd bm)"
proof -
  have "methods_ok (frame_bodies G D M) encm"
    using assms(1) by (simp add: methods_ok_def frame_bodies_def)
  then show ?thesis
    using header_encodedSize_law [OF assms(2,3)] header_encode_law [OF assms(2,3)] header_decode_law [OF assms(2-4)]
    by (auto simp: bodies_ok_def frame_bodies_def)
qed

text \<open>A small instance of the generated code: the methods of \<open>tiny_bodies\<close> and structs of one octet.\<close>

definition tiny_methods :: "(bool \<times> 8 word \<times> 8 word \<times> 8 word) methods" where
  "tiny_methods = methods.truncate tiny_bodies"

definition tiny_struct :: "16 word \<Rightarrow> 8 word StructCode" where
  "tiny_struct type = \<lparr>struct_TYPE = type, struct_encodedSize = (\<lambda>_. 7),
     struct_encode = (\<lambda>b v. res_bind (putLong b 3) (\<lambda>b. res_bind (putShort b type) (\<lambda>b. putOctet b v))),
     decodeStructBody = (\<lambda>b _. getOctet b)\<rparr>"

definition tiny_frame_bodies :: "(bool \<times> 8 word \<times> 8 word \<times> 8 word, (8 word, 8 word) Properties) bodies" where
  "tiny_frame_bodies = frame_bodies tiny_methods (tiny_struct 1025) (tiny_struct 1027)"

lemma tiny_struct_ok: "struct_ok (tiny_struct type) (\<lambda>v. [v])"
proof -
  have l: "length (be32 x) = 4" "length (be16 y) = 2" for x y
    by (simp_all add: be32_def be16_def)
  have "res_bind (putLong b 3) (\<lambda>b. res_bind (putShort b type) (\<lambda>b. putOctet b v)) = Inr (put_bytes b (be32 3 @ be16 type @ [v]))"
    if "buf_wf b" "7 \<le> available b" for b v
    using that by (auto simp: long.put_law short.put_law octet.put_law put_bytes_append l)
  then show ?thesis
    using octet.get_law by (auto simp: struct_ok_def tiny_struct_def enc_struct_def)
qed

lemma tiny_frame_bodies_ok:
  "bodies_ok tiny_frame_bodies (\<lambda>(t, _, _, a). [if t then 1 else 0, a])
     (enc_properties (tiny_struct 1025) (tiny_struct 1027) (\<lambda>v. [v]) (\<lambda>v. [v]))"
proof -
  have "methods_ok tiny_methods (\<lambda>(t, _, _, a). [if t then 1 else 0, a])"
    using tiny_bodies_ok unfolding bodies_ok_def by (simp add: methods_ok_def tiny_methods_def methods.defs)
  then show ?thesis
    unfolding tiny_frame_bodies_def by (rule frame_bodies_ok [OF _ tiny_struct_ok tiny_struct_ok]) (simp add: tiny_struct_def)
qed

end
