(* ===== verification/AMQ_Connection.thy ===== *)
theory AMQ_Connection
  imports AMQ_Header_Body
begin

text \<open>
  The 0-10 connection codec \<open>qpid::amqp_0_10::Connection\<close> (\<open>src/qpid/amqp_0_10/Connection.cpp\<close>): the
  queue of outgoing frames, \<open>encode\<close>, which fills a buffer with whole frames, and \<open>decode\<close>, which reads
  the protocol header and then whole frames. The lock and the log are left out: every operation is one
  step. The frames that \<open>connection->doOutput()\<close> pushes during \<open>encode\<close> are an argument, one list for each
  call; the frames handed to \<open>connection->received\<close> are a result.
\<close>

section \<open>State and operations\<close>

record ('m, 'h) Connection =
  frameQueue :: "('m, 'h) AMQFrame list"
  pushClosed :: bool
  popClosed :: bool
  initialized :: bool
  isClient :: bool
  buffered :: "64 word"
  version :: ProtocolVersion

definition Connection_init :: "bool \<Rightarrow> ('m, 'h) Connection" where
  "Connection_init client = \<lparr>frameQueue = [], pushClosed = False, popClosed = False,
     initialized = False, isClient = client, buffered = 0,
     version = \<lparr>version_major = 0, version_minor = 10, version_protocol = 0\<rparr>\<rparr>"

definition ProtocolVersion_eq :: "ProtocolVersion \<Rightarrow> ProtocolVersion \<Rightarrow> bool" where
  "ProtocolVersion_eq v w \<longleftrightarrow> version_major v = version_major w \<and> version_minor v = version_minor w"

definition Connection_handle ::
  "('m, 'h) bodies \<Rightarrow> ('m, 'h) Connection \<Rightarrow> ('m, 'h) AMQFrame \<Rightarrow> ('m, 'h) Connection" where
  "Connection_handle B c f =
     (let c = (if \<not> pushClosed c then c\<lparr>frameQueue := frameQueue c @ [f]\<rparr> else c)
      in c\<lparr>buffered := buffered c + of_nat (AMQFrame_encodedSize B f)\<rparr>)"

text \<open>A call of \<open>doOutput\<close> that hands the frames \<open>fs\<close> to the connection.\<close>

definition doOutput ::
  "('m, 'h) bodies \<Rightarrow> ('m, 'h) Connection \<Rightarrow> ('m, 'h) AMQFrame list \<Rightarrow> ('m, 'h) Connection" where
  "doOutput B c fs = foldl (Connection_handle B) c fs"

definition Connection_close :: "('m, 'h) Connection \<Rightarrow> ('m, 'h) Connection" where
  "Connection_close c = c\<lparr>pushClosed := True\<rparr>"

definition Connection_isClosed :: "('m, 'h) Connection \<Rightarrow> bool" where
  "Connection_isClosed c \<longleftrightarrow> pushClosed c \<and> popClosed c"

definition canEncode ::
  "('m, 'h) bodies \<Rightarrow> ('m, 'h) Connection \<Rightarrow> ('m, 'h) AMQFrame list \<Rightarrow> bool \<times> ('m, 'h) Connection" where
  "canEncode B c fs =
     (let c = (if \<not> popClosed c then doOutput B c fs else c)
      in (\<not> popClosed c \<and> ((\<not> isClient c \<and> \<not> initialized c) \<or> frameQueue c \<noteq> []), c))"

text \<open>
  The loop of \<open>encode\<close>. \<open>work\<close> is the work queue, \<open>outs\<close> the frames of the calls of \<open>doOutput\<close> still to
  come (a call after those hands over nothing); the connection's own queue is the one that \<open>doOutput\<close>
  fills.
\<close>

function encode_loop ::
  "('m, 'h) bodies \<Rightarrow> ('m, 'h) Connection \<Rightarrow> ('m, 'h) AMQFrame list \<Rightarrow> ('m, 'h) AMQFrame list list
     \<Rightarrow> Buffer \<Rightarrow> nat \<Rightarrow> (('m, 'h) Connection \<times> ('m, 'h) AMQFrame list \<times> Buffer \<times> nat) result" where
  "encode_loop B c [] outs b encoded = Inr (c, [], b, encoded)"
| "encode_loop B c (f # work) outs b encoded =
     (if AMQFrame_encodedSize B f \<le> available b
      then res_bind (AMQFrame_encode B b f) (\<lambda>b.
        if work = [] \<and> 0 < available b
        then let c' = doOutput B c (concat (take 1 outs))
             in encode_loop B (c'\<lparr>frameQueue := []\<rparr>) (frameQueue c') (drop 1 outs) b
                  (encoded + AMQFrame_encodedSize B f)
        else encode_loop B c work outs b (encoded + AMQFrame_encodedSize B f))
      else Inr (c, f # work, b, encoded))"
  by pat_completeness auto

lemma doOutput_queue:
  "frameQueue (doOutput B c fs) = frameQueue c @ (if pushClosed c then [] else fs)
    \<and> pushClosed (doOutput B c fs) = pushClosed c \<and> popClosed (doOutput B c fs) = popClosed c
    \<and> initialized (doOutput B c fs) = initialized c \<and> isClient (doOutput B c fs) = isClient c"
  unfolding doOutput_def by (induction fs arbitrary: c) (auto simp: Connection_handle_def Let_def)

termination encode_loop
proof (relation "measure (\<lambda>(B, c, work, outs, b, encoded).
    length work + length (frameQueue c) + length (concat outs))", goal_cases)
  case (2 B c f work outs b encoded x xa)
  then show ?case by (cases outs) (auto simp: doOutput_queue)
qed auto

definition Connection_encode ::
  "('m, 'h) bodies \<Rightarrow> ('m, 'h) Connection \<Rightarrow> ('m, 'h) AMQFrame list list \<Rightarrow> Buffer
     \<Rightarrow> (('m, 'h) Connection \<times> Buffer) result" where
  "Connection_encode B c outs out =
     (if popClosed c then Inr (c, out)
      else let work = frameQueue c; size0 = available out; c = c\<lparr>frameQueue := []\<rparr> in
      res_bind (if \<not> isClient c \<and> \<not> initialized c then ProtocolInitiation_encode out (version c) else Inr out)
        (\<lambda>out. let c = (if \<not> isClient c \<and> \<not> initialized c then c\<lparr>initialized := True\<rparr> else c) in
      res_bind (encode_loop B c work outs out 0) (\<lambda>(c, work, out, encoded).
        throw_if (work \<noteq> [] \<and> size0 < AMQFrame_encodedSize B (hd work)) AssertionFailed
        (let c = c\<lparr>buffered := buffered c - of_nat encoded, frameQueue := work @ frameQueue c\<rparr>
         in Inr (if frameQueue c = [] \<and> pushClosed c then c\<lparr>popClosed := True\<rparr> else c, out)))))"

text \<open>
  The loop \<open>while(frame.decode(in)) connection->received(frame)\<close>: the frames received and the buffer or
  the exception that ended the loop.
\<close>

partial_function (option) decode_loop ::
  "('m, 'h) bodies \<Rightarrow> Buffer \<Rightarrow> (('m, 'h) AMQFrame list \<times> Buffer result) option" where
  "decode_loop B b =
     (case AMQFrame_decode B b of
        Inl e \<Rightarrow> Some ([], Inl e)
      | Inr (f, b) \<Rightarrow>
          (case f of
             None \<Rightarrow> Some ([], Inr b)
           | Some f \<Rightarrow> Option.bind (decode_loop B b) (\<lambda>(fs, r). Some (f # fs, r))))"

definition Connection_decode ::
  "('m, 'h) bodies \<Rightarrow> ('m, 'h) Connection \<Rightarrow> Buffer
     \<Rightarrow> (('m, 'h) Connection \<times> ('m, 'h) AMQFrame list \<times> Buffer result) option" where
  "Connection_decode B c b =
     (case (if isClient c \<and> \<not> initialized c
            then res_bind (ProtocolInitiation_decode b) (\<lambda>(pi, b).
              case pi of
                None \<Rightarrow> Inr (c\<lparr>initialized := True\<rparr>, b)
              | Some v \<Rightarrow> throw_if (\<not> ProtocolVersion_eq v (version c)) GeneralException
                  (Inr (c\<lparr>initialized := True\<rparr>, b)))
            else Inr (c, b)) of
        Inl e \<Rightarrow> Some (c, [], Inl e)
      | Inr (c, b) \<Rightarrow> Option.bind (decode_loop B b) (\<lambda>(fs, r). Some (c, fs, r)))"

section \<open>Sending and receiving\<close>

abbreviation enc_frames ::
  "('m, 'h) bodies \<Rightarrow> ('m \<Rightarrow> byte list) \<Rightarrow> ('h \<Rightarrow> byte list) \<Rightarrow> ('m, 'h) AMQFrame list \<Rightarrow> byte list" where
  "enc_frames B encm ench fs \<equiv> concat (map (enc_frame B encm ench) fs)"

text \<open>What the loop does: it writes the encodings of some of the frames, in order, and keeps the rest.\<close>

definition loop_post ::
  "('m, 'h) bodies \<Rightarrow> ('m \<Rightarrow> byte list) \<Rightarrow> ('h \<Rightarrow> byte list) \<Rightarrow> ('m, 'h) Connection
     \<Rightarrow> ('m, 'h) AMQFrame list \<Rightarrow> ('m, 'h) AMQFrame list list \<Rightarrow> Buffer \<Rightarrow> nat
     \<Rightarrow> (('m, 'h) Connection \<times> ('m, 'h) AMQFrame list \<times> Buffer \<times> nat) result \<Rightarrow> bool" where
  "loop_post B encm ench c work outs b encoded r \<longleftrightarrow> (\<exists>sent k c' work'.
     r = Inr (c', work', put_bytes b (enc_frames B encm ench sent),
           encoded + length (enc_frames B encm ench sent))
     \<and> length (enc_frames B encm ench sent) \<le> available b
     \<and> sent @ work' = work @ (if pushClosed c then [] else concat (take k outs))
     \<and> (work' \<noteq> [] \<longrightarrow> available b
          < length (enc_frames B encm ench sent) + AMQFrame_encodedSize B (hd work'))
     \<and> frameQueue c' = [] \<and> pushClosed c' = pushClosed c \<and> popClosed c' = popClosed c
     \<and> initialized c' = initialized c \<and> isClient c' = isClient c)"

lemma loop_post_sent:
  assumes "loop_post B encm ench c2 work2 outs2 (put_bytes b (enc_frame B encm ench f))
      (encoded + length (enc_frame B encm ench f)) r"
    and "buf_wf b" and "length (enc_frame B encm ench f) \<le> available b"
    and "pushClosed c2 = pushClosed c" "popClosed c2 = popClosed c"
      "initialized c2 = initialized c" "isClient c2 = isClient c"
    and "\<And>k. \<exists>j. work2 @ (if pushClosed c then [] else concat (take k outs2))
      = work @ (if pushClosed c then [] else concat (take j outs))"
  shows "loop_post B encm ench c (f # work) outs b encoded r"
proof -
  let ?e = "enc_frame B encm ench f"
  have "available (put_bytes b ?e) = available b - length ?e"
    using assms(2,3) by simp
  then obtain sent k c' work' where r: "r = Inr (c', work', put_bytes (put_bytes b ?e) (enc_frames B encm ench sent),
        encoded + length ?e + length (enc_frames B encm ench sent))"
      "length (enc_frames B encm ench sent) \<le> available b - length ?e"
      "sent @ work' = work2 @ (if pushClosed c then [] else concat (take k outs2))"
      "work' \<noteq> [] \<longrightarrow> available b - length ?e
         < length (enc_frames B encm ench sent) + AMQFrame_encodedSize B (hd work')"
    and c': "frameQueue c' = []" "pushClosed c' = pushClosed c" "popClosed c' = popClosed c"
      "initialized c' = initialized c" "isClient c' = isClient c"
    using assms(1) assms(4-7) unfolding loop_post_def
    by - (elim exE conjE, rule that, assumption, simp_all only: simp_thms)
  obtain j where "sent @ work' = work @ (if pushClosed c then [] else concat (take j outs))"
    using assms(8) [of k] r(3) by auto
  then have "(f # sent) @ work' = (f # work) @ (if pushClosed c then [] else concat (take j outs))"
    by simp
  moreover have "r = Inr (c', work', put_bytes b (enc_frames B encm ench (f # sent)),
      encoded + length (enc_frames B encm ench (f # sent)))"
    using r(1,2) assms(2,3) by (simp add: put_bytes_append)
  moreover have "length (enc_frames B encm ench (f # sent)) \<le> available b"
    and "work' \<noteq> [] \<longrightarrow> available b
      < length (enc_frames B encm ench (f # sent)) + AMQFrame_encodedSize B (hd work')"
    using r(2,4) assms(3) by auto
  ultimately show ?thesis
    unfolding loop_post_def using c'
    by (intro exI [of _ "f # sent"] exI [of _ j] exI [of _ c'] exI [of _ work'] conjI)
qed

lemma concat_take_Suc: "concat (take 1 outs) @ concat (take k (drop 1 outs)) = concat (take (Suc k) outs)"
  by (cases outs) simp_all

lemma encode_loop_law:
  assumes "bodies_ok B encm ench" and "buf_wf b" and "frameQueue c = []"
  shows "loop_post B encm ench c work outs b encoded (encode_loop B c work outs b encoded)"
  using assms
proof (induction B c work outs b encoded rule: encode_loop.induct)
  case (1 B c outs b encoded)
  then show ?case
    unfolding loop_post_def
    by (intro exI [of _ "[]"] exI [of _ 0] exI [of _ c]) (simp add: put_bytes_def)
next
  case (2 B c f work outs b encoded)
  let ?e = "enc_frame B encm ench f" and ?c = "doOutput B c (concat (take 1 outs))"
  note size = AMQFrame_encodedSize_conv [OF 2(3)]
  show ?case
  proof (cases "length ?e \<le> available b")
    case False
    then show ?thesis
      unfolding loop_post_def using 2(5)
      by (intro exI [of _ "[]"] exI [of _ 0] exI [of _ c] exI [of _ "f # work"])
        (simp add: size put_bytes_def)
  next
    case True
    note enc = AMQFrame_encode_law [OF 2(3,4) True]
    have wf: "buf_wf (put_bytes b ?e)" using 2(4) True by simp
    show ?thesis
    proof (cases "work = [] \<and> 0 < available (put_bytes b ?e)")
      case last: True
      have "loop_post B encm ench (?c\<lparr>frameQueue := []\<rparr>) (frameQueue ?c) (drop 1 outs) (put_bytes b ?e)
          (encoded + length ?e) (encode_loop B (?c\<lparr>frameQueue := []\<rparr>) (frameQueue ?c) (drop 1 outs)
            (put_bytes b ?e) (encoded + length ?e))"
        using 2(1) [OF _ enc last refl 2(3) wf] True by (simp add: size)
      note post = this
      have queue: "\<exists>j. frameQueue ?c @ (if pushClosed c then [] else concat (take k (drop 1 outs)))
          = work @ (if pushClosed c then [] else concat (take j outs))" for k
        using last 2(5) concat_take_Suc [of outs k] by (intro exI [of _ "Suc k"]) (simp add: doOutput_queue)
      have "loop_post B encm ench c (f # work) outs b encoded
          (encode_loop B (?c\<lparr>frameQueue := []\<rparr>) (frameQueue ?c) (drop 1 outs) (put_bytes b ?e)
            (encoded + length ?e))"
        by (rule loop_post_sent [OF post 2(4) True _ _ _ _ queue]) (simp_all add: doOutput_queue)
      then show ?thesis
        using enc True last by (simp add: size Let_def)
    next
      case False
      have "loop_post B encm ench c work outs (put_bytes b ?e) (encoded + length ?e)
          (encode_loop B c work outs (put_bytes b ?e) (encoded + length ?e))"
        using 2(2) [OF _ enc False 2(3) wf 2(5)] True by (simp add: size)
      then have "loop_post B encm ench c (f # work) outs b encoded
          (encode_loop B c work outs (put_bytes b ?e) (encoded + length ?e))"
        by (rule loop_post_sent [OF _ 2(4) True]) auto
      then show ?thesis
        using enc True False by (auto simp: size)
    qed
  qed
qed

lemma decode_loop_law:
  assumes ok: "bodies_ok B encm ench"
    and tail: "\<And>b. buf_wf b \<Longrightarrow> buf_rest b = xs \<Longrightarrow> AMQFrame_decode B b = Inr (None, b)"
    and "\<forall>f\<in>set fs. AMQFrame_encodedSize B f < 65536"
    and "buf_wf b" and "buf_rest b = enc_frames B encm ench fs @ xs"
  shows "decode_loop B b
    = Some (map (received B) fs, Inr (advance b (length (enc_frames B encm ench fs))))"
  using assms(3-)
proof (induction fs arbitrary: b)
  case Nil
  then show ?case using tail by (subst decode_loop.simps) simp
next
  case (Cons f fs)
  let ?e = "enc_frame B encm ench f"
  have len: "length ?e < 65536" "length ?e \<le> available b"
    using Cons(2-4) length_buf_rest [OF Cons(3)] by (simp_all add: AMQFrame_encodedSize_conv [OF ok])
  have "AMQFrame_decode B b = Inr (Some (received B f), advance b (length ?e))"
    using AMQFrame_decode_law [OF ok len(1) Cons(3)] Cons(4) by simp
  moreover have "decode_loop B (advance b (length ?e)) = Some (map (received B) fs,
      Inr (advance (advance b (length ?e)) (length (enc_frames B encm ench fs))))"
    using Cons len by (intro Cons(1)) simp_all
  ultimately show ?case by (subst decode_loop.simps) simp
qed

lemma decode_nothing:
  "available b < 12 \<Longrightarrow> AMQFrame_decode B b = Inr (None, b)"
  by (simp add: AMQFrame_decode_def frameOverhead_def)

text \<open>The bytes that were written between two states of a buffer.\<close>

definition written :: "Buffer \<Rightarrow> Buffer \<Rightarrow> byte list" where
  "written b b' = take (unat (buf_position b' - buf_position b)) (buf_rest (setPosition b' (buf_position b)))"

lemma written_put_bytes:
  assumes "buf_wf b" and "length s \<le> available b"
  shows "written b (put_bytes b s) = s"
proof -
  have "unat (of_nat (length s) :: 32 word) = length s"
    using assms available_nat [OF assms(1)] unsigned_less [of "buf_size b", where 'a = nat]
    by (simp add: unat_of_nat)
  then show ?thesis
    using setPosition_put_bytes(2) [OF assms] by (simp add: written_def put_bytes_def)
qed

definition header_due :: "('m, 'h) Connection \<Rightarrow> bool" where
  "header_due c \<longleftrightarrow> \<not> isClient c \<and> \<not> initialized c"

lemma Connection_encode_alt:
  "\<not> popClosed c \<Longrightarrow> Connection_encode B c outs out =
     res_bind (if header_due c then ProtocolInitiation_encode out (version c) else Inr out) (\<lambda>b.
     res_bind (encode_loop B (if header_due c then c\<lparr>frameQueue := [], initialized := True\<rparr>
         else c\<lparr>frameQueue := []\<rparr>) (frameQueue c) outs b 0) (\<lambda>(c, work, b, encoded).
       throw_if (work \<noteq> [] \<and> available out < AMQFrame_encodedSize B (hd work)) AssertionFailed
       (Inr (if work @ frameQueue c = [] \<and> pushClosed c
             then c\<lparr>buffered := buffered c - of_nat encoded, frameQueue := work @ frameQueue c,
               popClosed := True\<rparr>
             else c\<lparr>buffered := buffered c - of_nat encoded, frameQueue := work @ frameQueue c\<rparr>, b))))"
  unfolding Connection_encode_def header_due_def Let_def by simp

lemma Connection_encode_law:
  assumes ok: "bodies_ok B encm ench" and b: "buf_wf b" "header_due c \<longrightarrow> 8 \<le> available b"
    and pc: "\<not> popClosed c"
    and fit: "\<forall>f\<in>set (frameQueue c) \<union> set (concat outs). AMQFrame_encodedSize B f \<le> available b"
  shows "\<exists>sent k c' hdr. hdr = (if header_due c then enc_version (version c) else [])
    \<and> length (hdr @ enc_frames B encm ench sent) \<le> available b
    \<and> Connection_encode B c outs b = Inr (c', put_bytes b (hdr @ enc_frames B encm ench sent))
    \<and> sent @ frameQueue c' = frameQueue c @ (if pushClosed c then [] else concat (take k outs))
    \<and> (frameQueue c' \<noteq> [] \<longrightarrow> available b < length (hdr @ enc_frames B encm ench sent)
         + AMQFrame_encodedSize B (hd (frameQueue c')))
    \<and> initialized c' = (initialized c \<or> header_due c) \<and> isClient c' = isClient c
    \<and> pushClosed c' = pushClosed c \<and> popClosed c' = (pushClosed c \<and> frameQueue c' = [])"
proof -
  let ?hdr = "if header_due c then enc_version (version c) else []"
  let ?c = "c\<lparr>frameQueue := [], initialized := initialized c \<or> header_due c\<rparr>"
  let ?b = "put_bytes b ?hdr"
  have wf: "buf_wf ?b" "available ?b = available b - length ?hdr" "length ?hdr \<le> available b"
    using b by auto
  have "loop_post B encm ench ?c (frameQueue c) outs ?b 0 (encode_loop B ?c (frameQueue c) outs ?b 0)"
    by (rule encode_loop_law [OF ok wf(1)]) simp
  then obtain sent k c' work' where
    r: "encode_loop B ?c (frameQueue c) outs ?b 0 = Inr (c', work',
          put_bytes ?b (enc_frames B encm ench sent), length (enc_frames B encm ench sent))"
      "length (enc_frames B encm ench sent) \<le> available ?b"
      "sent @ work' = frameQueue c @ (if pushClosed c then [] else concat (take k outs))"
      "work' \<noteq> [] \<longrightarrow> available ?b < length (enc_frames B encm ench sent) + AMQFrame_encodedSize B (hd work')"
    and c': "frameQueue c' = []" "pushClosed c' = pushClosed c" "popClosed c' = popClosed c"
      "initialized c' = (initialized c \<or> header_due c)" "isClient c' = isClient c"
    unfolding loop_post_def by auto
  have "set work' \<subseteq> set (frameQueue c) \<union> set (concat outs)"
  proof -
    have "set work' \<subseteq> set (sent @ work')" by simp
    also have "\<dots> \<subseteq> set (frameQueue c) \<union> set (concat outs)"
      unfolding r(3) by (auto dest: in_set_takeD)
    finally show ?thesis .
  qed
  then have small: "\<not> (work' \<noteq> [] \<and> available b < AMQFrame_encodedSize B (hd work'))"
    using fit by (metis hd_in_set in_mono not_le)
  have hdr: "(if header_due c then ProtocolInitiation_encode b (version c) else Inr b) = Inr ?b"
    using ProtocolInitiation_encode_law [OF b(1)] b by (simp add: put_bytes_def)
  have init: "(if header_due c then c\<lparr>frameQueue := [], initialized := True\<rparr> else c\<lparr>frameQueue := []\<rparr>) = ?c"
    by (cases c) (simp add: header_due_def)
  let ?c' = "c'\<lparr>buffered := buffered c' - of_nat (length (enc_frames B encm ench sent)), frameQueue := work'\<rparr>"
  let ?last = "if work' = [] \<and> pushClosed c then ?c'\<lparr>popClosed := True\<rparr> else ?c'"
  have "Connection_encode B c outs b = Inr (?last, put_bytes ?b (enc_frames B encm ench sent))"
    unfolding Connection_encode_alt [OF pc] hdr init res_bind_simps r(1)
    using c' small by auto
  also have "put_bytes ?b (enc_frames B encm ench sent) = put_bytes b (?hdr @ enc_frames B encm ench sent)"
    by (rule put_bytes_append [OF b(1)]) (use r(2) wf in simp)
  finally have enc: "Connection_encode B c outs b = Inr (?last, put_bytes b (?hdr @ enc_frames B encm ench sent))" .
  have fields: "frameQueue ?last = work'" "initialized ?last = (initialized c \<or> header_due c)"
    "isClient ?last = isClient c" "pushClosed ?last = pushClosed c"
    "popClosed ?last = (pushClosed c \<and> work' = [])"
    using c' pc by auto
  have len: "length (?hdr @ enc_frames B encm ench sent) \<le> available b"
    and nx: "work' \<noteq> [] \<longrightarrow> available b < length (?hdr @ enc_frames B encm ench sent)
      + AMQFrame_encodedSize B (hd work')"
    using r(2,4) unfolding wf(2) length_append using wf(3) by linarith+
  show ?thesis
    by (intro exI [of _ sent] exI [of _ k] exI [of _ ?last] exI [of _ ?hdr] conjI)
      (simp_all only: fields enc len r(3) simp_thms, rule nx)
qed

lemma Connection_decode_law:
  assumes ok: "bodies_ok B encm ench" and small: "\<forall>f\<in>set fs. AMQFrame_encodedSize B f < 65536"
    and v: "version_major (version c) \<noteq> 1" "ProtocolVersion_eq (version c) (version p)"
    and p: "(isClient p \<and> \<not> initialized p) = hdr"
    and d: "buf_wf d" "buf_rest d = (if hdr then enc_version (version c) else []) @ enc_frames B encm ench fs"
  shows "Connection_decode B p d
    = Some (if hdr then p\<lparr>initialized := True\<rparr> else p, map (received B) fs, Inr (advance d (available d)))"
proof -
  have tail: "AMQFrame_decode B b = Inr (None, b)" if "buf_wf b" "buf_rest b = []" for b
    using length_buf_rest [OF that(1)] that(2) by (intro decode_nothing) simp
  have av: "available d = length (buf_rest d)" using length_buf_rest [OF d(1)] by simp
  show ?thesis
  proof (cases hdr)
    case True
    let ?v = "(version c)\<lparr>version_protocol := 1\<rparr>"
    have "ProtocolInitiation_decode d = Inr (Some ?v, advance d 8)"
      using ProtocolInitiation_decode_law [OF d(1), of "version c"] d(2) v(1) True by simp
    moreover have "ProtocolVersion_eq ?v (version p)" using v(2) by (simp add: ProtocolVersion_eq_def)
    moreover have "decode_loop B (advance d 8) = Some (map (received B) fs,
        Inr (advance (advance d 8) (length (enc_frames B encm ench fs))))"
      using decode_loop_law [OF ok tail small, where b = "advance d 8"] d av True by simp
    ultimately show ?thesis
      using p True av d(2) by (simp add: Connection_decode_def)
  next
    case False
    have "decode_loop B d = Some (map (received B) fs, Inr (advance d (length (enc_frames B encm ench fs))))"
      using decode_loop_law [OF ok tail small d(1)] d False by simp
    then show ?thesis
      using p False av d(2) by (auto simp: Connection_decode_def)
  qed
qed

text \<open>
  C6. From one connection to the other, for bodies that are decoded from what they are encoded as, as those of
  \<open>frame_bodies\<close> are when the generated methods and property structs are. \<open>encode\<close> succeeds when every frame fits the whole buffer; it
  takes frames from the front of the queue (and of what \<open>doOutput\<close> added, unless the connection was
  closed for pushing) until the next one does not fit or none is left, keeps the others in order, and
  the peer's \<open>decode\<close> of the bytes written, with the protocol header first if it was due, receives
  exactly the frames taken, in order, and leaves no byte. The codec becomes closed for popping
  exactly when it was closed for pushing and the queue has been drained.
\<close>

theorem Connection_transfer:
  assumes "bodies_ok B encm ench" and "buf_wf b" and "header_due c \<longrightarrow> 8 \<le> available b"
    and "\<not> popClosed c"
    and "\<forall>f\<in>set (frameQueue c) \<union> set (concat outs).
      AMQFrame_encodedSize B f \<le> available b \<and> AMQFrame_encodedSize B f < 65536"
    and "version_major (version c) \<noteq> 1" and "ProtocolVersion_eq (version c) (version p)"
    and "(isClient p \<and> \<not> initialized p) = header_due c"
  shows "\<exists>c' b' sent k. Connection_encode B c outs b = Inr (c', b')
    \<and> sent @ frameQueue c' = frameQueue c @ (if pushClosed c then [] else concat (take k outs))
    \<and> (frameQueue c' \<noteq> [] \<longrightarrow> available b' < AMQFrame_encodedSize B (hd (frameQueue c')))
    \<and> (initialized c' \<longleftrightarrow> initialized c \<or> header_due c)
    \<and> (Connection_isClosed c' \<longleftrightarrow> pushClosed c \<and> frameQueue c' = [])
    \<and> (\<forall>d. buf_wf d \<longrightarrow> buf_rest d = written b b' \<longrightarrow> Connection_decode B p d
         = Some (if header_due c then p\<lparr>initialized := True\<rparr> else p,
             map (\<lambda>f. f\<lparr>subchannel := frame_track B f\<rparr>) sent, Inr (advance d (available d))))"
proof -
  have fit: "\<forall>f\<in>set (frameQueue c) \<union> set (concat outs). AMQFrame_encodedSize B f \<le> available b"
    using assms(5) by blast
  obtain sent k c' hdr where hdr: "hdr = (if header_due c then enc_version (version c) else [])"
    and len: "length (hdr @ enc_frames B encm ench sent) \<le> available b"
    and enc: "Connection_encode B c outs b = Inr (c', put_bytes b (hdr @ enc_frames B encm ench sent))"
    and sent: "sent @ frameQueue c' = frameQueue c @ (if pushClosed c then [] else concat (take k outs))"
    and nx: "frameQueue c' \<noteq> [] \<longrightarrow> available b < length (hdr @ enc_frames B encm ench sent)
         + AMQFrame_encodedSize B (hd (frameQueue c'))"
    and c': "initialized c' = (initialized c \<or> header_due c)"
      "pushClosed c' = pushClosed c" "popClosed c' = (pushClosed c \<and> frameQueue c' = [])"
    using Connection_encode_law [OF assms(1-4) fit] by (elim exE conjE) (rule that)
  let ?b' = "put_bytes b (hdr @ enc_frames B encm ench sent)"
  have "set sent \<subseteq> set (sent @ frameQueue c')" by simp
  also have "\<dots> \<subseteq> set (frameQueue c) \<union> set (concat outs)"
    unfolding sent by (auto dest: in_set_takeD)
  finally have small: "\<forall>f\<in>set sent. AMQFrame_encodedSize B f < 65536" using assms(5) by blast
  have "frameQueue c' \<noteq> [] \<longrightarrow> available ?b' < AMQFrame_encodedSize B (hd (frameQueue c'))"
    using put_bytes_wf(2) [OF assms(2) len] nx len by auto
  moreover have "\<forall>d. buf_wf d \<longrightarrow> buf_rest d = written b ?b' \<longrightarrow> Connection_decode B p d
         = Some (if header_due c then p\<lparr>initialized := True\<rparr> else p,
             map (\<lambda>f. f\<lparr>subchannel := frame_track B f\<rparr>) sent, Inr (advance d (available d)))"
    unfolding hdr written_put_bytes [OF assms(2) len [unfolded hdr]] received_def [symmetric]
    by (intro allI impI) (rule Connection_decode_law [OF assms(1) small assms(6-8)])
  moreover have "initialized c' \<longleftrightarrow> initialized c \<or> header_due c"
    and "Connection_isClosed c' \<longleftrightarrow> pushClosed c \<and> frameQueue c' = []"
    using c' by (auto simp: Connection_isClosed_def)
  ultimately show ?thesis
    using enc sent by (intro exI [of _ c'] exI [of _ ?b'] exI [of _ sent] exI [of _ k] conjI)
qed

definition tiny_frame :: "(bool \<times> 8 word \<times> 8 word \<times> 8 word, (8 word, 8 word) Properties) AMQFrame" where
  "tiny_frame = AMQFrame_init (AMQHeaderBody \<lparr>delivery_props = None, message_props = Some 7\<rparr>)"

text \<open>A server with two frames of 19 bytes, a buffer of 30 bytes and a client that was just created.\<close>

theorem Connection_transfer_witness:
  "\<exists>c' b' sent. Connection_encode tiny_frame_bodies
      ((Connection_init False)\<lparr>frameQueue := [tiny_frame, tiny_frame]\<rparr>) [] (Buffer_init (replicate 30 0) 30)
      = Inr (c', b')
    \<and> sent @ frameQueue c' = [tiny_frame, tiny_frame] \<and> \<not> Connection_isClosed c'
    \<and> (\<forall>d. buf_wf d \<longrightarrow> buf_rest d = written (Buffer_init (replicate 30 0) 30) b' \<longrightarrow>
         Connection_decode tiny_frame_bodies (Connection_init True) d
         = Some ((Connection_init True)\<lparr>initialized := True\<rparr>,
             map (\<lambda>f. f\<lparr>subchannel := frame_track tiny_frame_bodies f\<rparr>) sent, Inr (advance d (available d))))"
proof -
  have "AMQFrame_encodedSize tiny_frame_bodies tiny_frame = 19"
    by (simp add: AMQFrame_encodedSize_def tiny_frame_def AMQFrame_init_def getMethod_def frameOverhead_def
        AMQHeaderBody_encodedSize_def
        PropSet_encodedSize_def tiny_frame_bodies_def frame_bodies_def tiny_struct_def)
  then show ?thesis
    using Connection_transfer [OF tiny_frame_bodies_ok, of "Buffer_init (replicate 30 0) 30"
        "(Connection_init False)\<lparr>frameQueue := [tiny_frame, tiny_frame]\<rparr>" "[]" "Connection_init True"]
    by (simp add: Connection_init_def header_due_def Buffer_init_def buf_wf_def available_def
        ProtocolVersion_eq_def) fast
qed

text \<open>
  A client connection that gets less than the eight bytes of the protocol header marks itself
  initialised without having read it: when the header is complete, its bytes are taken for a frame
  and the connection fails with a framing error.
\<close>

theorem Connection_header_in_two_parts:
  assumes "isClient c" and "\<not> initialized c"
    and "buf_wf b1" and "buf_rest b1 = take n (enc_version v)" and "n < 8"
    and "buf_wf b2" and "buf_rest b2 = enc_version v @ xs" and "4 \<le> length xs"
  shows "Connection_decode B c b1 = Some (c\<lparr>initialized := True\<rparr>, [], Inr b1)
    \<and> Connection_decode B (c\<lparr>initialized := True\<rparr>) b2
      = Some (c\<lparr>initialized := True\<rparr>, [], Inl FramingErrorException)"
proof -
  have "available b1 < 8" using length_buf_rest [OF assms(3)] assms(4,5) by simp
  then have "ProtocolInitiation_decode b1 = Inr (None, b1)" "AMQFrame_decode B b1 = Inr (None, b1)"
    by (simp_all add: ProtocolInitiation_decode_def decode_nothing)
  then have "Connection_decode B c b1 = Some (c\<lparr>initialized := True\<rparr>, [], Inr b1)"
    using assms(1,2) by (simp add: Connection_decode_def decode_loop.simps)
  moreover have "AMQFrame_decode B b2 = Inl FramingErrorException"
  proof -
    have "12 \<le> available b2" using length_buf_rest [OF assms(6)] assms(7,8) by simp
    moreover have "getOctet b2 = Inr (65, advance b2 1)"
      using octet.get_law [OF assms(6), of 65] assms(7) by (simp add: enc_version_def)
    ultimately show ?thesis by (simp add: AMQFrame_decode_def frameOverhead_def)
  qed
  ultimately show ?thesis
    by (simp add: Connection_decode_def decode_loop.simps)
qed

theorem Connection_header_in_two_parts_witness:
  "Connection_decode tiny_bodies (Connection_init True) (Buffer_init [65, 77, 81, 80] 4)
      = Some ((Connection_init True)\<lparr>initialized := True\<rparr>, [], Inr (Buffer_init [65, 77, 81, 80] 4))
    \<and> Connection_decode tiny_bodies ((Connection_init True)\<lparr>initialized := True\<rparr>)
        (Buffer_init [65, 77, 81, 80, 1, 1, 0, 10, 15, 0, 0, 12] 12)
      = Some ((Connection_init True)\<lparr>initialized := True\<rparr>, [], Inl FramingErrorException)"
  using Connection_header_in_two_parts [of "Connection_init True" "Buffer_init [65, 77, 81, 80] 4" 4
      "\<lparr>version_major = 0, version_minor = 10, version_protocol = 0\<rparr>"
      "Buffer_init [65, 77, 81, 80, 1, 1, 0, 10, 15, 0, 0, 12] 12" "[15, 0, 0, 12]" tiny_bodies]
  by (simp add: Connection_init_def Buffer_init_def buf_wf_def buf_rest_def enc_version_def)

end
