(* ===== verification/Broker_Messages.thy ===== *)
theory Broker_Messages
  imports Sequence_Number Prelude
begin

text \<open>
  The messages of a broker queue (\<open>src/qpid/broker\<close>): cursors (\<open>QueueCursor.cpp\<close>), the deque with index
  (\<open>IndexedDeque.h\<close>) that \<open>MessageDeque\<close> is made of, and the last-value map \<open>MessageMap\<close>
  (\<open>MessageMap.cpp\<close>). \<open>IndexedDeque\<close> is a template over the item; here the accessors of the item and the
  padding are the record \<open>item_ops\<close>. Locking is done by the queue and is left out, as is logging.
  \<open>Messages.h\<close> is the interface that both implement; its contract is the locale \<open>message_container\<close>.
\<close>

section \<open>Cursors\<close>

datatype MessageState = AVAILABLE | ACQUIRED | DELETED | UNAVAILABLE

datatype SubscriptionType = CONSUMER | BROWSER | PURGE | REPLICATOR

text \<open>\<open>position\<close> and \<open>version\<close> are \<open>int32_t\<close>; a position is compared as a sequence number.\<close>

record QueueCursor =
  cursor_type :: SubscriptionType
  position :: SequenceNumber
  cursor_version :: "32 word"
  valid :: bool

definition QueueCursor_init :: "SubscriptionType \<Rightarrow> QueueCursor" where
  "QueueCursor_init t = \<lparr>cursor_type = t, position = 0, cursor_version = 0, valid = False\<rparr>"

definition cursor_setPosition :: "QueueCursor \<Rightarrow> SequenceNumber \<Rightarrow> 32 word \<Rightarrow> QueueCursor" where
  "cursor_setPosition c p v = c\<lparr>position := p, cursor_version := v, valid := True\<rparr>"

definition cursor_check :: "QueueCursor \<Rightarrow> MessageState \<Rightarrow> bool" where
  "cursor_check c s \<longleftrightarrow> s = AVAILABLE
     \<or> ((cursor_type c = REPLICATOR \<or> cursor_type c = PURGE) \<and> s = ACQUIRED)"

section \<open>The indexed deque\<close>

record 't item_ops =
  getSequence :: "'t \<Rightarrow> SequenceNumber"
  getState :: "'t \<Rightarrow> MessageState"
  setState :: "MessageState \<Rightarrow> 't \<Rightarrow> 't"
  padding :: "SequenceNumber \<Rightarrow> 't"

record 't IndexedDeque =
  messages :: "'t list"
  head :: nat
  version :: "32 word"

definition IndexedDeque_init :: "'t IndexedDeque" where
  "IndexedDeque_init = \<lparr>messages = [], head = 0, version = 0\<rparr>"

text \<open>
  \<open>index(position, i)\<close>: whether there is a message and the value of \<open>i\<close> afterwards, which was \<open>i0\<close> before.
\<close>

definition index_seq :: "'t item_ops \<Rightarrow> 't IndexedDeque \<Rightarrow> SequenceNumber \<Rightarrow> nat \<Rightarrow> bool \<times> nat" where
  "index_seq G d pos i0 =
     (case messages d of
        [] \<Rightarrow> (False, i0)
      | m # _ \<Rightarrow>
          let front = getSequence G m in
          if SequenceNumber_less pos front then (False, 0)
          else let i = nat (SequenceNumber_minus pos front) in (i < length (messages d), i))"

definition index_cursor :: "'t item_ops \<Rightarrow> 't IndexedDeque \<Rightarrow> QueueCursor \<Rightarrow> nat \<Rightarrow> bool \<times> nat" where
  "index_cursor G d c i0 = (if valid c then index_seq G d (position c + 1) i0 else (False, i0))"

fun clean_loop :: "'t item_ops \<Rightarrow> nat \<Rightarrow> 't list \<Rightarrow> nat \<times> 't list" where
  "clean_loop G count [] = (count, [])"
| "clean_loop G count (m # ms) =
     (if getState G m = DELETED \<and> count < 10 then clean_loop G (count + 1) ms else (count, m # ms))"

definition clean :: "'t item_ops \<Rightarrow> 't IndexedDeque \<Rightarrow> 't IndexedDeque" where
  "clean G d = (let (count, ms) = clean_loop G 0 (messages d)
     in d\<lparr>messages := ms, head := (if count < head d then head d - count else 0)\<rparr>)"

definition deque_deleted :: "'t item_ops \<Rightarrow> 't IndexedDeque \<Rightarrow> QueueCursor \<Rightarrow> bool \<times> 't IndexedDeque" where
  "deque_deleted G d c =
     (let (found, i) = index_seq G d (position c) 0 in
      if valid c \<and> found
      then (True, clean G (d\<lparr>messages := (messages d)[i := setState G DELETED (messages d ! i)]\<rparr>))
      else (False, d))"

text \<open>The two loops of \<open>publish\<close>, on the reversed deque and on the last sequence.\<close>

fun pop_deleted :: "'t item_ops \<Rightarrow> SequenceNumber \<Rightarrow> 't list \<Rightarrow> 't list" where
  "pop_deleted G s [] = []"
| "pop_deleted G s (m # ms) =
     (if \<not> SequenceNumber_less (getSequence G m) s \<and> getState G m = DELETED then pop_deleted G s ms
      else m # ms)"

text \<open>\<open>while (added - back > 1) push_back(padding(back + 1))\<close>, from the difference \<open>n\<close> on.\<close>

fun pad_loop :: "'t item_ops \<Rightarrow> nat \<Rightarrow> SequenceNumber \<Rightarrow> 't list" where
  "pad_loop G 0 back = []"
| "pad_loop G (Suc 0) back = []"
| "pad_loop G (Suc (Suc n)) back =
     padding G (SequenceNumber_plus_int back 1) # pad_loop G (Suc n) (SequenceNumber_plus_int back 1)"

definition deque_publish :: "'t item_ops \<Rightarrow> 't IndexedDeque \<Rightarrow> 't \<Rightarrow> 't IndexedDeque result" where
  "deque_publish G d added =
     (let d = clean G d; s = getSequence G added;
          ms = rev (pop_deleted G s (rev (messages d)))
      in throw_if (ms \<noteq> [] \<and> \<not> SequenceNumber_less (getSequence G (last ms)) s) GeneralException
         (let pad = (if ms = [] then []
                     else pad_loop G (nat (SequenceNumber_minus s (getSequence G (last ms))))
                            (getSequence G (last ms)));
              ms = ms @ pad @ [setState G AVAILABLE added]
          in Inr (d\<lparr>messages := ms, head := (if length ms \<le> head d then length ms - 1 else head d)\<rparr>)))"

definition deque_release :: "'t item_ops \<Rightarrow> 't IndexedDeque \<Rightarrow> QueueCursor \<Rightarrow> 't option \<times> 't IndexedDeque" where
  "deque_release G d c =
     (let (found, i) = index_seq G d (position c) 0 in
      if valid c \<and> found
      then (let m = setState G AVAILABLE (messages d ! i)
            in (Some m, d\<lparr>messages := (messages d)[i := m], version := version d + 1\<rparr>))
      else (None, d))"

definition deque_reset :: "'t IndexedDeque \<Rightarrow> QueueCursor \<Rightarrow> bool" where
  "deque_reset d c \<longleftrightarrow> \<not> valid c \<or> (cursor_type c = CONSUMER \<and> cursor_version c \<noteq> version d)"

fun next_loop :: "'t item_ops \<Rightarrow> 32 word \<Rightarrow> QueueCursor \<Rightarrow> 't list \<Rightarrow> 't option \<times> QueueCursor" where
  "next_loop G v c [] = (None, c)"
| "next_loop G v c (m # ms) =
     (if getState G m = DELETED then next_loop G v c ms
      else let c = cursor_setPosition c (getSequence G m) v in
           if cursor_check c (getState G m) then (Some m, c) else next_loop G v c ms)"

definition deque_next :: "'t item_ops \<Rightarrow> 't IndexedDeque \<Rightarrow> QueueCursor \<Rightarrow> 't option \<times> QueueCursor" where
  "deque_next G d c =
     (let i = (if deque_reset d c then head d else snd (index_cursor G d c 0))
      in next_loop G (version d) c (drop i (messages d)))"

definition deque_size :: "'t item_ops \<Rightarrow> 't IndexedDeque \<Rightarrow> nat" where
  "deque_size G d = length (filter (\<lambda>m. getState G m = AVAILABLE) (drop (head d) (messages d)))"

text \<open>The cursor argument of \<open>find\<close> is a pointer that may be null; it is returned updated.\<close>

definition deque_find ::
  "'t item_ops \<Rightarrow> 't IndexedDeque \<Rightarrow> SequenceNumber \<Rightarrow> QueueCursor option \<Rightarrow> 't option \<times> QueueCursor option" where
  "deque_find G d pos c =
     (let (found, i) = index_seq G d pos 0 in
      if found
      then (if getState G (messages d ! i) = AVAILABLE \<or> getState G (messages d ! i) = ACQUIRED
            then Some (messages d ! i) else None,
            map_option (\<lambda>c. cursor_setPosition c pos (version d)) c)
      else (None, map_option (\<lambda>c. if length (messages d) \<le> i then cursor_setPosition c pos (version d)
                                  else if i = 0 then c\<lparr>valid := False\<rparr> else c) c))"

definition deque_find_cursor :: "'t item_ops \<Rightarrow> 't IndexedDeque \<Rightarrow> QueueCursor \<Rightarrow> 't option" where
  "deque_find_cursor G d c = (if valid c then fst (deque_find G d (position c) None) else None)"

definition deque_foreach :: "'t item_ops \<Rightarrow> ('t \<Rightarrow> 't) \<Rightarrow> 't IndexedDeque \<Rightarrow> 't IndexedDeque" where
  "deque_foreach G f d =
     clean G (d\<lparr>messages := map (\<lambda>m. if getState G m = AVAILABLE then f m else m) (messages d)\<rparr>)"

definition resetCursors :: "'t IndexedDeque \<Rightarrow> 't IndexedDeque" where
  "resetCursors d = d\<lparr>version := version d + 1\<rparr>"

section \<open>Contiguous sequences\<close>

text \<open>What the deque relies on for its items.\<close>

locale deque_items =
  fixes G :: "'t item_ops"
  assumes getState_setState [simp]: "getState G (setState G s m) = s"
    and getSequence_setState [simp]: "getSequence G (setState G s m) = getSequence G m"
    and getSequence_padding [simp]: "getSequence G (padding G p) = p"
    and getState_padding [simp]: "getState G (padding G p) = DELETED"

definition contiguous :: "'t item_ops \<Rightarrow> 't list \<Rightarrow> bool" where
  "contiguous G ms \<longleftrightarrow> length ms < 2 ^ 31
     \<and> (\<forall>i < length ms. getSequence G (ms ! i) = getSequence G (ms ! 0) + of_nat i)"

definition deque_inv :: "'t item_ops \<Rightarrow> 't IndexedDeque \<Rightarrow> bool" where
  "deque_inv G d \<longleftrightarrow> contiguous G (messages d) \<and> head d = 0"

definition live :: "'t item_ops \<Rightarrow> 't list \<Rightarrow> 't list" where
  "live G ms = filter (\<lambda>m. getState G m \<noteq> DELETED) ms"

lemma contiguousD:
  "contiguous G ms \<Longrightarrow> i < length ms \<Longrightarrow> getSequence G (ms ! i) = getSequence G (ms ! 0) + of_nat i"
  unfolding contiguous_def by blast

lemma contiguousI:
  "length ms < 2 ^ 31 \<Longrightarrow> (\<And>i. i < length ms \<Longrightarrow> getSequence G (ms ! i) = getSequence G (ms ! 0) + of_nat i)
    \<Longrightarrow> contiguous G ms"
  unfolding contiguous_def by blast

lemma contiguous_nth:
  assumes "contiguous G ms" and "i < length ms" and "j < length ms"
  shows "getSequence G (ms ! j) = getSequence G (ms ! i) + (of_nat j - of_nat i)"
  using assms by (simp add: contiguous_def)

lemma contiguous_drop: "contiguous G ms \<Longrightarrow> contiguous G (drop n ms)"
  unfolding contiguous_def
proof (intro conjI allI impI)
  fix i
  assume c: "length ms < 2 ^ 31 \<and> (\<forall>i<length ms. getSequence G (ms ! i) = getSequence G (ms ! 0) + of_nat i)"
    and i: "i < length (drop n ms)"
  then have "getSequence G (ms ! (n + i)) = getSequence G (ms ! 0) + of_nat (n + i)"
    "getSequence G (ms ! n) = getSequence G (ms ! 0) + of_nat n" by auto
  then show "getSequence G (drop n ms ! i) = getSequence G (drop n ms ! 0) + of_nat i"
    using i by simp
qed auto

lemma contiguous_take: "contiguous G ms \<Longrightarrow> contiguous G (take n ms)"
  by (auto simp: contiguous_def)

lemma unat_of_nat32: "i < 2 ^ 31 \<Longrightarrow> unat (of_nat i :: 32 word) = i"
  by (simp only: unat_of_nat) simp

lemma of_nat_word32_inj: "i < 2 ^ 31 \<Longrightarrow> j < 2 ^ 31 \<Longrightarrow> (of_nat i :: 32 word) = of_nat j \<longleftrightarrow> i = j"
  using unat_of_nat32 by metis

lemma contiguous_distinct:
  assumes "contiguous G ms" and "i < length ms" and "j < length ms"
    and "getSequence G (ms ! i) = getSequence G (ms ! j)"
  shows "i = j"
  using assms of_nat_word32_inj [of i j] by (simp add: contiguous_def)

lemma nat_minus_small:
  assumes "i < 2 ^ 31"
  shows "nat (SequenceNumber_minus (f + of_nat i) f) = i" "\<not> SequenceNumber_less (f + of_nat i) f"
proof -
  have "sint (of_nat i :: 32 word) = int i"
    using sint_eq_unat_small [of "of_nat i"] unat_of_nat32 [OF assms] assms by simp
  then show "nat (SequenceNumber_minus (f + of_nat i) f) = i" "\<not> SequenceNumber_less (f + of_nat i) f"
    by (simp_all add: SequenceNumber_minus_def SequenceNumber_less_def)
qed

lemma not_less_offset:
  assumes "\<not> SequenceNumber_less p f" and "i = nat (SequenceNumber_minus p f)"
  shows "p = f + of_nat i"
proof -
  have "int i = sint (p - f)"
    using assms by (simp add: SequenceNumber_less_def SequenceNumber_minus_def)
  then have "word_of_int (int i) = (word_of_int (sint (p - f)) :: 32 word)" by simp
  then show ?thesis by (simp add: algebra_simps)
qed

lemma index_seq_found:
  assumes "contiguous G (messages d)"
  shows "index_seq G d p i0 = (True, i) \<longleftrightarrow> i < length (messages d) \<and> getSequence G (messages d ! i) = p"
proof (cases "messages d")
  case (Cons m ms)
  let ?f = "getSequence G m"
  show ?thesis
  proof
    assume "index_seq G d p i0 = (True, i)"
    then have i: "\<not> SequenceNumber_less p ?f" "i = nat (SequenceNumber_minus p ?f)" "i < length (messages d)"
      using Cons by (auto simp: index_seq_def Let_def split: if_splits)
    then show "i < length (messages d) \<and> getSequence G (messages d ! i) = p"
      using not_less_offset [OF i(1,2)] assms Cons unfolding contiguous_def by (metis nth_Cons_0)
  next
    assume i: "i < length (messages d) \<and> getSequence G (messages d ! i) = p"
    then have "p = ?f + of_nat i" "i < 2 ^ 31"
      using assms Cons unfolding contiguous_def by auto
    then show "index_seq G d p i0 = (True, i)"
      using nat_minus_small [of i ?f] i Cons by (simp add: index_seq_def Let_def)
  qed
qed (simp add: index_seq_def)

lemma index_seq_missing:
  assumes "contiguous G (messages d)" and "\<not> fst (index_seq G d p i0)" and "m \<in> set (messages d)"
  shows "getSequence G m \<noteq> p"
proof
  assume "getSequence G m = p"
  then obtain i where "i < length (messages d)" "getSequence G (messages d ! i) = p"
    using assms(3) by (auto simp: in_set_conv_nth)
  then have "index_seq G d p i0 = (True, i)" using index_seq_found [OF assms(1)] by blast
  then show False using assms(2) by simp
qed

lemma clean_loop_drop:
  "\<exists>k. clean_loop G n ms = (n + k, drop k ms) \<and> (\<forall>m\<in>set (take k ms). getState G m = DELETED)"
proof (induction G n ms rule: clean_loop.induct)
  case (2 G n m ms)
  show ?case
  proof (cases "getState G m = DELETED \<and> n < 10")
    case True
    then obtain k where "clean_loop G (n + 1) ms = (n + 1 + k, drop k ms)"
      "\<forall>m\<in>set (take k ms). getState G m = DELETED"
      using 2 by blast
    then show ?thesis using True by (intro exI [of _ "Suc k"]) auto
  next
    case False
    then show ?thesis by (intro exI [of _ 0]) auto
  qed
qed simp

lemma live_append [simp]: "live G (xs @ ys) = live G xs @ live G ys"
  by (simp add: live_def)

lemma live_deleted: "\<forall>m\<in>set ms. getState G m = DELETED \<Longrightarrow> live G ms = []"
  by (simp add: live_def)

lemma clean_correct:
  assumes "deque_inv G d"
  shows "deque_inv G (clean G d)" "live G (messages (clean G d)) = live G (messages d)"
    "\<exists>k. messages (clean G d) = drop k (messages d)" "version (clean G d) = version d"
proof -
  obtain k where k: "clean_loop G 0 (messages d) = (k, drop k (messages d))"
    "\<forall>m\<in>set (take k (messages d)). getState G m = DELETED"
    using clean_loop_drop [of G 0 "messages d"] by auto
  then have ms: "messages (clean G d) = drop k (messages d)"
    by (simp add: clean_def)
  have "live G (messages d) = live G (take k (messages d)) @ live G (drop k (messages d))"
    unfolding live_append [symmetric] by simp
  then show "live G (messages (clean G d)) = live G (messages d)"
    using live_deleted [OF k(2)] ms by simp
  show "deque_inv G (clean G d)"
    using assms k(1) contiguous_drop by (auto simp: deque_inv_def clean_def)
  show "\<exists>k. messages (clean G d) = drop k (messages d)" using ms by blast
  show "version (clean G d) = version d" by (simp add: clean_def split_beta Let_def)
qed

lemma pop_deleted_suffix:
  "\<exists>popped. ms = popped @ pop_deleted G s ms \<and> (\<forall>m\<in>set popped. getState G m = DELETED)"
proof (induction G s ms rule: pop_deleted.induct)
  case (2 G s m ms)
  show ?case
  proof (cases "\<not> SequenceNumber_less (getSequence G m) s \<and> getState G m = DELETED")
    case True
    then obtain popped where "ms = popped @ pop_deleted G s ms" "\<forall>m\<in>set popped. getState G m = DELETED"
      using 2 by blast
    then show ?thesis using True by (intro exI [of _ "m # popped"]) auto
  next
    case False
    then show ?thesis by auto
  qed
qed simp

lemma pop_deleted_subset: "set (pop_deleted G s ms) \<subseteq> set ms"
  by (induction ms) auto

lemma length_pad_loop [simp]: "length (pad_loop G (Suc n) b) = n"
  by (induction n arbitrary: b) simp_all

lemma contiguous_snoc:
  assumes "contiguous G ms" and "length ms < 2 ^ 31 - 1"
    and "ms \<noteq> [] \<Longrightarrow> getSequence G x = getSequence G (last ms) + 1"
  shows "contiguous G (ms @ [x])"
proof (cases "ms = []")
  case False
  then have "getSequence G (last ms) = getSequence G (ms ! 0) + of_nat (length ms - 1)"
    using contiguousD [OF assms(1), of "length ms - 1"] by (simp add: last_conv_nth)
  then have x: "getSequence G x = getSequence G (ms ! 0) + of_nat (length ms)"
    using assms(3) False by (cases "length ms") simp_all
  show ?thesis
  proof (rule contiguousI)
    show "length (ms @ [x]) < 2 ^ 31" using assms(2) by simp
    fix i
    assume "i < length (ms @ [x])"
    then consider "i < length ms" | "i = length ms" by fastforce
    then show "getSequence G ((ms @ [x]) ! i) = getSequence G ((ms @ [x]) ! 0) + of_nat i"
    proof cases
      case 1
      then show ?thesis using contiguousD [OF assms(1) 1] False by (simp only: nth_append) simp
    next
      case 2
      then show ?thesis using x False by (simp only: nth_append) simp
    qed
  qed
qed (simp add: contiguous_def)

context deque_items
begin

lemma contiguous_pad:
  assumes "contiguous G ms" and "ms \<noteq> []" and "length ms + n < 2 ^ 31" and "getSequence G (last ms) = b"
  shows "contiguous G (ms @ pad_loop G (Suc n) b)
    \<and> getSequence G (last (ms @ pad_loop G (Suc n) b)) = b + of_nat n
    \<and> live G (pad_loop G (Suc n) b) = []"
  using assms
proof (induction n arbitrary: ms b)
  case (Suc n)
  let ?p = "padding G (b + 1)"
  have "contiguous G (ms @ [?p])"
    using Suc(2-5) by (intro contiguous_snoc) auto
  with Suc(1) [of "ms @ [?p]" "b + 1"] Suc(4) show ?case
    by (simp add: SequenceNumber_plus_int_def live_def add.assoc)
qed (simp add: live_def)

lemma pad_and_push:
  assumes cont: "contiguous G ms" and "ms \<noteq> []" and lt: "SequenceNumber_less (getSequence G (last ms)) s"
    and ne: "s \<noteq> getSequence G (last ms) + 2 ^ 31" and x: "getSequence G x = s"
    and pad: "pad = pad_loop G (nat (SequenceNumber_minus s (getSequence G (last ms)))) (getSequence G (last ms))"
    and room: "length (ms @ pad @ [x]) < 2 ^ 31"
  shows "contiguous G (ms @ pad @ [x])" and "live G pad = []"
proof -
  let ?b = "getSequence G (last ms)"
  have w: "in_window ?b s" by (rule less_imp_in_window [OF lt ne])
  then have "unat (s - ?b) < 2 ^ 31" by (simp add: in_window_def window_pos_def)
  then have "SequenceNumber_minus s ?b = int (unat (s - ?b))"
    by (simp add: SequenceNumber_minus_def sint_eq_unat_small)
  moreover have "unat (s - ?b) \<noteq> 0"
    using lt by (auto simp: SequenceNumber_less_def unat_eq_0)
  ultimately obtain n where n: "nat (SequenceNumber_minus s ?b) = Suc n" "unat (s - ?b) = Suc n"
    by (cases "unat (s - ?b)") auto
  note p = contiguous_pad [OF cont assms(2) _ refl, of n]
  have len: "length ms + n < 2 ^ 31 - 1"
    using room unfolding pad n(1) by simp
  have "getSequence G x = getSequence G (last (ms @ pad)) + 1"
  proof -
    have "s = ?b + of_nat (unat (s - ?b))" by simp
    also have "\<dots> = ?b + of_nat n + 1" unfolding n(2) by (simp add: algebra_simps)
    finally show ?thesis using p len x unfolding pad n(1) by simp
  qed
  then show "contiguous G (ms @ pad @ [x])"
    using contiguous_snoc [of G "ms @ pad" x] p len unfolding pad n(1) by simp
  show "live G pad = []" using p len unfolding pad n(1) by simp
qed

lemma publish_correct:
  assumes inv: "deque_inv G d" and ok: "deque_publish G d added = Inr d'"
    and room: "length (messages d') < 2 ^ 31"
    and ne: "\<forall>m\<in>set (messages d). getSequence G added \<noteq> getSequence G m + 2 ^ 31"
  shows "deque_inv G d'" and "live G (messages d') = live G (messages d) @ [setState G AVAILABLE added]"
    and "version d' = version d"
proof -
  let ?d = "clean G d" and ?s = "getSequence G added" and ?x = "setState G AVAILABLE added"
  define ms where "ms = rev (pop_deleted G ?s (rev (messages ?d)))"
  obtain popped where e: "rev (messages ?d) = popped @ pop_deleted G ?s (rev (messages ?d))"
    and del: "\<forall>m\<in>set popped. getState G m = DELETED"
    using pop_deleted_suffix [of "rev (messages ?d)" G ?s] by (elim exE conjE) (rule that)
  have split: "messages ?d = ms @ rev popped"
    unfolding ms_def rev_append [symmetric] e [symmetric] by simp
  then have "ms = take (length ms) (messages ?d)" by simp
  then have cont: "contiguous G ms"
    using clean_correct(1) [OF inv] contiguous_take unfolding deque_inv_def by metis
  have live: "live G ms = live G (messages d)"
    using clean_correct(2) [OF inv] split live_deleted [of "rev popped" G] del by simp
  let ?pad = "if ms = [] then []
    else pad_loop G (nat (SequenceNumber_minus ?s (getSequence G (last ms)))) (getSequence G (last ms))"
  have h: "head ?d = 0" using clean_correct(1) [OF inv] by (simp add: deque_inv_def)
  have lt: "ms \<noteq> [] \<longrightarrow> SequenceNumber_less (getSequence G (last ms)) ?s"
    and d': "d' = ?d\<lparr>messages := ms @ ?pad @ [?x],
      head := if length (ms @ ?pad @ [?x]) \<le> head ?d then length (ms @ ?pad @ [?x]) - 1 else head ?d\<rparr>"
    using ok unfolding deque_publish_def Let_def ms_def [symmetric] throw_if_eq_Inr by (blast, simp)
  then have msg: "messages d' = ms @ ?pad @ [?x]" and "head d' = 0" and "version d' = version d"
    using h clean_correct(4) [OF inv] by auto
  have "set ms \<subseteq> set (messages d)"
    using clean_correct(3) [OF inv] split set_drop_subset by (metis Un_subset_iff set_append)
  then have "contiguous G (messages d') \<and> live G ?pad = []"
  proof (cases "ms = []")
    case False
    then have "?s \<noteq> getSequence G (last ms) + 2 ^ 31" using ne \<open>set ms \<subseteq> set (messages d)\<close> last_in_set [OF False] by blast
    from pad_and_push [OF cont False _ this _ refl] show ?thesis
      using False lt room msg by simp
  qed (use msg in \<open>simp add: contiguous_def live_def\<close>)
  then show "deque_inv G d'" and "live G (messages d') = live G (messages d) @ [?x]"
    using \<open>head d' = 0\<close> live msg by (simp_all add: deque_inv_def live_def)
  show "version d' = version d" by fact
qed

lemma contiguous_update:
  "contiguous G ms \<Longrightarrow> contiguous G (ms[i := setState G s (ms ! i)])"
proof (rule contiguousI)
  assume c: "contiguous G ms"
  then show "length (ms[i := setState G s (ms ! i)]) < 2 ^ 31" by (simp add: contiguous_def)
  have same: "getSequence G (ms[i := setState G s (ms ! i)] ! j) = getSequence G (ms ! j)" if "j < length ms" for j
    using that by (cases "j = i") simp_all
  fix j
  assume "j < length (ms[i := setState G s (ms ! i)])"
  then have "j < length ms" "0 < length ms" by auto
  then show "getSequence G (ms[i := setState G s (ms ! i)] ! j)
      = getSequence G (ms[i := setState G s (ms ! i)] ! 0) + of_nat j"
    using same contiguousD [OF c] by metis
qed

lemma update_conv:
  assumes "contiguous G ms" and "i < length ms" and "getSequence G (ms ! i) = p"
  shows "ms[i := f (ms ! i)] = map (\<lambda>m. if getSequence G m = p then f m else m) ms"
proof (rule nth_equalityI)
  fix j
  assume j: "j < length (ms[i := f (ms ! i)])"
  then have "getSequence G (ms ! j) = p \<longleftrightarrow> j = i"
    using contiguous_distinct [OF assms(1), of j i] assms(2,3) by auto
  then show "ms[i := f (ms ! i)] ! j = map (\<lambda>m. if getSequence G m = p then f m else m) ms ! j"
    using j by (auto simp: nth_list_update)
qed simp

lemma live_delete:
  "live G (map (\<lambda>m. if getSequence G m = p then setState G DELETED m else m) ms)
    = filter (\<lambda>m. getSequence G m \<noteq> p) (live G ms)"
  by (induction ms) (auto simp: live_def)

lemma deleted_correct:
  assumes inv: "deque_inv G d" and v: "valid c"
  shows "deque_inv G (snd (deque_deleted G d c))"
    and "live G (messages (snd (deque_deleted G d c)))
      = filter (\<lambda>m. getSequence G m \<noteq> position c) (live G (messages d))"
    and "m \<in> set (messages d) \<Longrightarrow> getSequence G m = position c \<Longrightarrow> fst (deque_deleted G d c)"
proof -
  have cont: "contiguous G (messages d)" using inv by (simp add: deque_inv_def)
  obtain found i where ix: "index_seq G d (position c) 0 = (found, i)" by fastforce
  have "deque_inv G (snd (deque_deleted G d c))
      \<and> live G (messages (snd (deque_deleted G d c)))
        = filter (\<lambda>m. getSequence G m \<noteq> position c) (live G (messages d))
      \<and> (found \<longrightarrow> fst (deque_deleted G d c))"
  proof (cases found)
    case True
    then have i: "i < length (messages d)" "getSequence G (messages d ! i) = position c"
      using ix index_seq_found [OF cont] by auto
    let ?d = "d\<lparr>messages := (messages d)[i := setState G DELETED (messages d ! i)]\<rparr>"
    have "deque_inv G ?d"
      using inv contiguous_update by (simp add: deque_inv_def)
    moreover have "live G (messages ?d) = filter (\<lambda>m. getSequence G m \<noteq> position c) (live G (messages d))"
      using update_conv [OF cont i, of "setState G DELETED"] live_delete by simp
    ultimately show ?thesis
      using ix True v clean_correct(1,2) [of G ?d] by (simp add: deque_deleted_def)
  next
    case False
    then have "\<forall>m\<in>set (messages d). getSequence G m \<noteq> position c"
      using index_seq_missing [OF cont, of "position c" 0] ix by auto
    then have "filter (\<lambda>m. getSequence G m \<noteq> position c) (live G (messages d)) = live G (messages d)"
      by (intro filter_True) (simp add: live_def)
    then show ?thesis using ix False inv by (simp add: deque_deleted_def)
  qed
  then show "deque_inv G (snd (deque_deleted G d c))"
    and "live G (messages (snd (deque_deleted G d c)))
      = filter (\<lambda>m. getSequence G m \<noteq> position c) (live G (messages d))"
    and "m \<in> set (messages d) \<Longrightarrow> getSequence G m = position c \<Longrightarrow> fst (deque_deleted G d c)"
    using index_seq_missing [OF cont, of "position c" 0] ix by auto
qed

lemma release_correct:
  assumes inv: "deque_inv G d" and v: "valid c"
    and m: "m \<in> set (messages d)" "getSequence G m = position c"
  shows "fst (deque_release G d c) = Some (setState G AVAILABLE m)"
    and "deque_inv G (snd (deque_release G d c))"
    and "messages (snd (deque_release G d c))
      = map (\<lambda>m. if getSequence G m = position c then setState G AVAILABLE m else m) (messages d)"
proof -
  have cont: "contiguous G (messages d)" using inv by (simp add: deque_inv_def)
  obtain i where i: "i < length (messages d)" "messages d ! i = m" using m(1) by (auto simp: in_set_conv_nth)
  then have "index_seq G d (position c) 0 = (True, i)"
    using index_seq_found [OF cont] m(2) by simp
  then have rel: "deque_release G d c = (Some (setState G AVAILABLE m),
      d\<lparr>messages := (messages d)[i := setState G AVAILABLE (messages d ! i)], version := version d + 1\<rparr>)"
    using v i by (simp add: deque_release_def Let_def)
  then show "fst (deque_release G d c) = Some (setState G AVAILABLE m)" by simp
  show "deque_inv G (snd (deque_release G d c))"
    using rel inv contiguous_update by (simp add: deque_inv_def)
  show "messages (snd (deque_release G d c))
      = map (\<lambda>m. if getSequence G m = position c then setState G AVAILABLE m else m) (messages d)"
    using rel update_conv [OF cont i(1), of "position c" "setState G AVAILABLE"] i m(2) by simp
qed

lemma find_correct:
  assumes "deque_inv G d" and "valid c"
  shows "m \<in> set (messages d) \<Longrightarrow> getSequence G m = position c \<Longrightarrow>
      deque_find_cursor G d c = (if getState G m = AVAILABLE \<or> getState G m = ACQUIRED then Some m else None)"
    and "\<forall>m\<in>set (live G (messages d)). getSequence G m \<noteq> position c \<Longrightarrow> deque_find_cursor G d c = None"
proof -
  have cont: "contiguous G (messages d)" using assms(1) by (simp add: deque_inv_def)
  show found: "deque_find_cursor G d c = (if getState G m = AVAILABLE \<or> getState G m = ACQUIRED then Some m else None)"
    if m: "m \<in> set (messages d)" "getSequence G m = position c" for m
  proof -
    obtain i where i: "i < length (messages d)" "messages d ! i = m"
      using m(1) by (auto simp: in_set_conv_nth)
    then have "index_seq G d (position c) 0 = (True, i)"
      using index_seq_found [OF cont] m(2) by simp
    then show ?thesis using i assms(2) by (simp add: deque_find_cursor_def deque_find_def)
  qed
  show "deque_find_cursor G d c = None"
    if none: "\<forall>m\<in>set (live G (messages d)). getSequence G m \<noteq> position c"
  proof (cases "\<exists>m\<in>set (messages d). getSequence G m = position c")
    case True
    then show ?thesis using found none by (auto simp: live_def)
  next
    case False
    then obtain i where "index_seq G d (position c) 0 = (False, i)"
      using index_seq_found [OF cont, of "position c" 0]
      by (cases "index_seq G d (position c) 0") (metis (full_types) nth_mem)
    then show ?thesis using assms(2) by (simp add: deque_find_cursor_def deque_find_def)
  qed
qed

end

section \<open>Browsing\<close>

text \<open>A message that \<open>next\<close> returns for a cursor; deleted messages never are.\<close>

definition viewable :: "'t item_ops \<Rightarrow> SubscriptionType \<Rightarrow> 't \<Rightarrow> bool" where
  "viewable G t m \<longleftrightarrow> getState G m = AVAILABLE \<or> ((t = REPLICATOR \<or> t = PURGE) \<and> getState G m = ACQUIRED)"

lemma next_loop_step:
  "next_loop G v c (m # ms) =
     (if viewable G (cursor_type c) m then (Some m, cursor_setPosition c (getSequence G m) v)
      else next_loop G v (if getState G m = DELETED then c else cursor_setPosition c (getSequence G m) v) ms)"
  by (auto simp: viewable_def cursor_check_def cursor_setPosition_def Let_def)

lemma cursor_type_setPosition [simp]: "cursor_type (cursor_setPosition c p v) = cursor_type c"
  by (simp add: cursor_setPosition_def)

lemma next_loop_none:
  "filter (viewable G (cursor_type c)) ms = [] \<Longrightarrow> fst (next_loop G v c ms) = None"
  by (induction ms arbitrary: c) (simp_all add: next_loop_step del: next_loop.simps(2) split: if_splits)

lemma next_loop_some:
  "filter (viewable G (cursor_type c)) ms = x # xs \<Longrightarrow>
     \<exists>c'. next_loop G v c ms = (Some x, c') \<and> valid c' \<and> position c' = getSequence G x
       \<and> cursor_version c' = v \<and> cursor_type c' = cursor_type c"
proof (induction ms arbitrary: c)
  case (Cons m ms)
  let ?c = "if getState G m = DELETED then c else cursor_setPosition c (getSequence G m) v"
  show ?case
  proof (cases "viewable G (cursor_type c) m")
    case True
    then show ?thesis using Cons(2) by (simp add: next_loop_step cursor_setPosition_def del: next_loop.simps)
  next
    case False
    have "cursor_type ?c = cursor_type c" by simp
    from Cons(1) [of ?c, unfolded this] show ?thesis
      using Cons(2) False by (simp only: next_loop_step filter.simps if_False)
  qed
qed simp

lemma next_from:
  assumes inv: "deque_inv G d" and k: "k < length (messages d)"
    and c: "valid c" "position c = getSequence G (messages d ! k)" "cursor_version c = version d"
  shows "deque_next G d c = next_loop G (version d) c (drop (Suc k) (messages d))"
proof -
  have cont: "contiguous G (messages d)" using inv by (simp add: deque_inv_def)
  have "snd (index_seq G d (position c + 1) 0) = Suc k"
  proof (cases "Suc k < length (messages d)")
    case True
    then have "getSequence G (messages d ! Suc k) = position c + 1"
      using contiguousD [OF cont k] contiguousD [OF cont True] c(2) by simp
    then have "index_seq G d (position c + 1) 0 = (True, Suc k)"
      using index_seq_found [OF cont] True by blast
    then show ?thesis by simp
  next
    case False
    obtain m ms where ms: "messages d = m # ms" using k by (cases "messages d") auto
    have "position c + 1 = getSequence G m + of_nat (Suc k)" "Suc k < 2 ^ 31"
      using contiguousD [OF cont k] c(2) ms False k cont by (auto simp: contiguous_def)
    then show ?thesis
      using nat_minus_small [of "Suc k" "getSequence G m"] ms
      by (simp only: index_seq_def list.case Let_def if_False snd_conv)
  qed
  then show ?thesis
    using c by (simp add: deque_next_def deque_reset_def index_cursor_def)
qed

fun browse :: "'t item_ops \<Rightarrow> 't IndexedDeque \<Rightarrow> nat \<Rightarrow> QueueCursor \<Rightarrow> 't list" where
  "browse G d 0 c = []"
| "browse G d (Suc n) c = (case deque_next G d c of (None, _) \<Rightarrow> [] | (Some m, c) \<Rightarrow> m # browse G d n c)"

lemma browse_loop:
  assumes "deque_inv G d" and "deque_next G d c = next_loop G (version d) c (drop j (messages d))"
    and "length (filter (viewable G (cursor_type c)) (drop j (messages d))) < n"
  shows "browse G d n c = filter (viewable G (cursor_type c)) (drop j (messages d))"
  using assms(2,3)
proof (induction n arbitrary: c j)
  case (Suc n)
  show ?case
  proof (cases "filter (viewable G (cursor_type c)) (drop j (messages d))")
    case Nil
    then show ?thesis
      using Suc(2) next_loop_none [OF Nil, of "version d"]
      by (cases "next_loop G (version d) c (drop j (messages d))") simp
  next
    case (Cons x xs)
    obtain c' where c': "next_loop G (version d) c (drop j (messages d)) = (Some x, c')" "valid c'"
      "position c' = getSequence G x" "cursor_version c' = version d" "cursor_type c' = cursor_type c"
      using next_loop_some [OF Cons] by blast
    obtain us vs where split: "drop j (messages d) = us @ x # vs"
      and vs: "filter (viewable G (cursor_type c)) vs = xs"
      using Cons by (auto simp: filter_eq_Cons_iff)
    let ?k = "j + length us"
    have len: "length (messages d) - j = length us + Suc (length vs)"
      using arg_cong [OF split, of length] by simp
    then have k: "?k < length (messages d)" by simp
    have "messages d ! ?k = drop j (messages d) ! length us" using len by simp
    then have x: "messages d ! ?k = x" using split by simp
    have "drop (Suc ?k) (messages d) = drop (Suc (length us)) (drop j (messages d))" by (simp add: add.commute)
    then have rest: "drop (Suc ?k) (messages d) = vs" using split by simp
    have "deque_next G d c' = next_loop G (version d) c' (drop (Suc ?k) (messages d))"
      using next_from [OF assms(1) k c'(2) _ c'(4)] c'(3) x by simp
    then have "browse G d n c' = xs"
      using Suc(1) [of c' "Suc ?k"] Suc(3) Cons rest vs c'(5) by simp
    then show ?thesis using Suc(2) c'(1) Cons by simp
  qed
qed simp

section \<open>The deque of messages\<close>

record 'c Message =
  msg_sequence :: SequenceNumber
  msg_state :: MessageState
  msg_content :: 'c

text \<open>\<open>MessageDeque\<close> is the indexed deque of messages; a padding message has the empty content \<open>e\<close>.\<close>

definition message_padding :: "'c \<Rightarrow> SequenceNumber \<Rightarrow> 'c Message" where
  "message_padding e i = \<lparr>msg_sequence = i, msg_state = DELETED, msg_content = e\<rparr>"

definition message_ops :: "'c \<Rightarrow> 'c Message item_ops" where
  "message_ops e = \<lparr>getSequence = msg_sequence, getState = msg_state,
     setState = (\<lambda>s m. m\<lparr>msg_state := s\<rparr>), padding = message_padding e\<rparr>"

definition MessageDeque_deleted :: "'c \<Rightarrow> 'c Message IndexedDeque \<Rightarrow> QueueCursor \<Rightarrow> bool \<times> 'c Message IndexedDeque" where
  "MessageDeque_deleted e = deque_deleted (message_ops e)"

definition MessageDeque_publish ::
  "'c \<Rightarrow> 'c Message IndexedDeque \<Rightarrow> 'c Message \<Rightarrow> 'c Message IndexedDeque result" where
  "MessageDeque_publish e = deque_publish (message_ops e)"

definition MessageDeque_release ::
  "'c \<Rightarrow> 'c Message IndexedDeque \<Rightarrow> QueueCursor \<Rightarrow> 'c Message option \<times> 'c Message IndexedDeque" where
  "MessageDeque_release e = deque_release (message_ops e)"

definition MessageDeque_next ::
  "'c \<Rightarrow> 'c Message IndexedDeque \<Rightarrow> QueueCursor \<Rightarrow> 'c Message option \<times> QueueCursor" where
  "MessageDeque_next e = deque_next (message_ops e)"

definition MessageDeque_size :: "'c \<Rightarrow> 'c Message IndexedDeque \<Rightarrow> nat" where
  "MessageDeque_size e = deque_size (message_ops e)"

definition MessageDeque_find :: "'c \<Rightarrow> 'c Message IndexedDeque \<Rightarrow> QueueCursor \<Rightarrow> 'c Message option" where
  "MessageDeque_find e = deque_find_cursor (message_ops e)"

interpretation message_items: deque_items "message_ops e" for e
  by unfold_locales (simp_all add: message_ops_def message_padding_def)

section \<open>The contract of a message container\<close>

text \<open>
  What the queue relies on, for a container whose messages that are not deleted are \<open>contents\<close>: distinct
  sequence numbers; \<open>deleted\<close> removes exactly the message of the cursor; \<open>release\<close> makes a message that is
  still there available without moving it; \<open>find\<close> returns the message of the cursor if it is available or
  acquired; \<open>size\<close> counts the available ones.
\<close>

locale message_container =
  fixes inv :: "'q \<Rightarrow> bool"
    and contents :: "'q \<Rightarrow> 'c Message list"
    and deleted :: "'q \<Rightarrow> QueueCursor \<Rightarrow> bool \<times> 'q"
    and release :: "'q \<Rightarrow> QueueCursor \<Rightarrow> 'c Message option \<times> 'q"
    and find :: "'q \<Rightarrow> QueueCursor \<Rightarrow> 'c Message option"
    and size_of :: "'q \<Rightarrow> nat"
  assumes distinct_contents: "inv q \<Longrightarrow> distinct (map msg_sequence (contents q))"
    and deleted_law: "inv q \<Longrightarrow> valid c \<Longrightarrow> inv (snd (deleted q c))
      \<and> contents (snd (deleted q c)) = filter (\<lambda>m. msg_sequence m \<noteq> position c) (contents q)"
    and release_law: "inv q \<Longrightarrow> valid c \<Longrightarrow> m \<in> set (contents q) \<Longrightarrow> msg_sequence m = position c \<Longrightarrow>
      fst (release q c) = Some (m\<lparr>msg_state := AVAILABLE\<rparr>) \<and> inv (snd (release q c))
      \<and> contents (snd (release q c))
        = map (\<lambda>m. if msg_sequence m = position c then m\<lparr>msg_state := AVAILABLE\<rparr> else m) (contents q)"
    and find_law: "inv q \<Longrightarrow> valid c \<Longrightarrow> m \<in> set (contents q) \<Longrightarrow> msg_sequence m = position c \<Longrightarrow>
      msg_state m = AVAILABLE \<or> msg_state m = ACQUIRED \<Longrightarrow> find q c = Some m"
    and find_none: "inv q \<Longrightarrow> valid c \<Longrightarrow> \<forall>m\<in>set (contents q). msg_sequence m \<noteq> position c \<Longrightarrow> find q c = None"
    and size_law: "inv q \<Longrightarrow> size_of q = length (filter (\<lambda>m. msg_state m = AVAILABLE) (contents q))"
begin

lemma deleted_not_found: "inv q \<Longrightarrow> valid c \<Longrightarrow> find (snd (deleted q c)) c = None"
  using deleted_law [of q c] find_none [of "snd (deleted q c)" c] by auto

lemma deleted_keeps_others:
  assumes "inv q" "valid c" "valid c'" "position c' \<noteq> position c" "m \<in> set (contents q)"
    "msg_sequence m = position c'" "msg_state m = AVAILABLE \<or> msg_state m = ACQUIRED"
  shows "find (snd (deleted q c)) c' = Some m"
  using deleted_law [of q c] find_law [of "snd (deleted q c)" c' m] assms by auto

lemma unique_message:
  assumes "inv q" "m \<in> set (contents q)" "x \<in> set (contents q)" "msg_sequence x = msg_sequence m"
  shows "x = m"
  using distinct_contents [OF assms(1)] assms by (auto simp: distinct_map dest: inj_onD)

lemma count_except:
  assumes "inv q" "m \<in> set (contents q)"
  shows "length (filter P (contents q))
    = length (filter P (filter (\<lambda>x. msg_sequence x \<noteq> msg_sequence m) (contents q))) + (if P m then 1 else 0)"
proof -
  obtain us vs where s: "contents q = us @ m # vs" using assms(2) by (auto simp: in_set_conv_decomp)
  have "msg_sequence m \<notin> msg_sequence ` (set us \<union> set vs)"
    using distinct_contents [OF assms(1)] unfolding s by auto
  then have "\<forall>x\<in>set us \<union> set vs. msg_sequence x \<noteq> msg_sequence m" by (metis image_eqI)
  then have "filter (\<lambda>x. msg_sequence x \<noteq> msg_sequence m) us = us"
    "filter (\<lambda>x. msg_sequence x \<noteq> msg_sequence m) vs = vs" by (auto intro: filter_True)
  then show ?thesis using s by simp
qed

lemma size_deleted:
  assumes "inv q" "valid c" "m \<in> set (contents q)" "msg_sequence m = position c"
  shows "size_of q = size_of (snd (deleted q c)) + (if msg_state m = AVAILABLE then 1 else 0)"
  using deleted_law [OF assms(1,2)] count_except [OF assms(1,3), of "\<lambda>m. msg_state m = AVAILABLE"] assms
  by (simp add: size_law)

lemma size_released:
  assumes "inv q" "valid c" "m \<in> set (contents q)" "msg_sequence m = position c"
  shows "size_of (snd (release q c)) = size_of q + (if msg_state m = AVAILABLE then 0 else 1)"
proof -
  let ?f = "\<lambda>x :: 'c Message. if msg_sequence x = position c then x\<lparr>msg_state := AVAILABLE\<rparr> else x"
  have law: "inv (snd (release q c))" "contents (snd (release q c)) = map ?f (contents q)"
    using release_law [OF assms] by auto
  have "m\<lparr>msg_state := AVAILABLE\<rparr> \<in> set (contents (snd (release q c)))"
    using law(2) assms by force
  note c1 = count_except [OF law(1) this, of "\<lambda>m. msg_state m = AVAILABLE"]
  have "filter (\<lambda>x. msg_state x = AVAILABLE) (filter (\<lambda>x. msg_sequence x \<noteq> position c) (map ?f xs))
      = filter (\<lambda>x. msg_state x = AVAILABLE) (filter (\<lambda>x. msg_sequence x \<noteq> position c) xs)" for xs
    by (induction xs) auto
  then show ?thesis
    using c1 count_except [OF assms(1,3), of "\<lambda>m. msg_state m = AVAILABLE"] law assms(4)
    by (simp add: size_law [OF assms(1)] size_law [OF law(1)])
qed

end

lemma contiguous_distinct_sequences: "contiguous G ms \<Longrightarrow> distinct (map (getSequence G) ms)"
  using contiguous_distinct [of G ms] by (auto simp: distinct_conv_nth)

lemma message_ops_simps [simp]:
  "getSequence (message_ops e) = msg_sequence" "getState (message_ops e) = msg_state"
  "setState (message_ops e) s m = m\<lparr>msg_state := s\<rparr>"
  by (simp_all add: message_ops_def)

lemma live_release:
  assumes "m \<in> set (live (message_ops e) ms)" and "distinct (map msg_sequence ms)"
  shows "live (message_ops e) (map (\<lambda>x. if msg_sequence x = msg_sequence m then x\<lparr>msg_state := AVAILABLE\<rparr> else x) ms)
    = map (\<lambda>x. if msg_sequence x = msg_sequence m then x\<lparr>msg_state := AVAILABLE\<rparr> else x) (live (message_ops e) ms)"
proof -
  have "x = m" if "x \<in> set ms" "msg_sequence x = msg_sequence m" for x
    using that assms by (auto simp: live_def distinct_map dest: inj_onD)
  then show ?thesis
    using assms(1) unfolding live_def filter_map
    by (intro arg_cong [of _ _ "map _"] filter_cong) auto
qed

interpretation message_deque: message_container "deque_inv (message_ops e)"
  "\<lambda>d. live (message_ops e) (messages d)" "MessageDeque_deleted e" "MessageDeque_release e"
  "MessageDeque_find e" "MessageDeque_size e" for e
proof (unfold_locales, goal_cases)
  case (1 q)
  then show ?case
    using contiguous_distinct_sequences [of "message_ops e" "messages q"]
    by (simp add: deque_inv_def live_def distinct_map_filter)
next
  case (2 q c)
  then show ?case
    using message_items.deleted_correct(1,2) [of e q c] by (simp add: MessageDeque_deleted_def)
next
  case (3 q c m)
  have m: "m \<in> set (messages q)" using 3(3) by (simp add: live_def)
  note rel = message_items.release_correct [OF 3(1,2) m]
  have "distinct (map msg_sequence (messages q))"
    using contiguous_distinct_sequences [of "message_ops e"] 3(1) by (simp add: deque_inv_def)
  then show ?case
    using rel 3(4) live_release [OF 3(3)] by (simp add: MessageDeque_release_def cong: if_cong)
next
  case (4 q c m)
  then show ?case
    using message_items.find_correct(1) [of e q c m] by (auto simp: MessageDeque_find_def live_def)
next
  case (5 q c)
  then show ?case
    using message_items.find_correct(2) [of e q c] by (simp add: MessageDeque_find_def)
next
  case (6 q)
  have "filter (\<lambda>m. msg_state m = AVAILABLE) ms
      = filter (\<lambda>m. msg_state m = AVAILABLE) (filter (\<lambda>m. msg_state m \<noteq> DELETED) ms)" for ms :: "'a Message list"
    by (induction ms) auto
  with 6 show ?case
    by (simp add: MessageDeque_size_def deque_size_def deque_inv_def live_def)
qed

section \<open>What the deque guarantees\<close>

text \<open>
  C22. Publishing. A message with a later sequence number is added available at the end of the
  messages that are not deleted, whatever tail of deleted records is dropped, front is cleaned or gap
  is filled with padding, and the sequence numbers stay without gaps, so that the index calculation
  stays right; a message that is not later than the last live one is refused.
\<close>

theorem MessageDeque_publish_appends:
  assumes "deque_inv (message_ops e) d"
    and "\<forall>m\<in>set (messages d). msg_sequence added \<noteq> msg_sequence m + 2 ^ 31"
  shows "case MessageDeque_publish e d added of
      Inl err \<Rightarrow> err = GeneralException \<and> (\<exists>m\<in>set (messages d).
          \<not> SequenceNumber_less (msg_sequence m) (msg_sequence added))
    | Inr d' \<Rightarrow> length (messages d') < 2 ^ 31 \<longrightarrow>
        deque_inv (message_ops e) d'
        \<and> live (message_ops e) (messages d')
          = live (message_ops e) (messages d) @ [added\<lparr>msg_state := AVAILABLE\<rparr>]"
proof (cases "MessageDeque_publish e d added")
  case (Inr d')
  then show ?thesis
    using message_items.publish_correct [OF assms(1), of added d'] assms(2)
    by (simp add: MessageDeque_publish_def)
next
  case (Inl err)
  let ?d = "clean (message_ops e) d"
  let ?ms = "rev (pop_deleted (message_ops e) (msg_sequence added) (rev (messages ?d)))"
  have err: "err = GeneralException" and last: "?ms \<noteq> []"
    "\<not> SequenceNumber_less (msg_sequence (last ?ms)) (msg_sequence added)"
    using Inl by (auto simp: MessageDeque_publish_def deque_publish_def Let_def throw_if_def split: if_splits)
  have "set (messages ?d) \<subseteq> set (messages d)"
    using clean_correct(3) [OF assms(1)] set_drop_subset by fastforce
  moreover have "set ?ms \<subseteq> set (messages ?d)"
    using pop_deleted_subset [of "message_ops e" "msg_sequence added" "rev (messages ?d)"] by simp
  ultimately have "last ?ms \<in> set (messages d)"
    using last_in_set [OF last(1)] by blast
  then show ?thesis using Inl err last by auto
qed

theorem MessageDeque_publish_appends_witness:
  "\<exists>d'. MessageDeque_publish (0 :: nat)
      \<lparr>messages = [\<lparr>msg_sequence = 4294967295, msg_state = ACQUIRED, msg_content = 5\<rparr>], head = 0, version = 0\<rparr>
      \<lparr>msg_sequence = 2, msg_state = UNAVAILABLE, msg_content = 6\<rparr> = Inr d'
    \<and> length (messages d') = 4
    \<and> live (message_ops 0) (messages d')
      = live (message_ops 0) [\<lparr>msg_sequence = 4294967295, msg_state = ACQUIRED, msg_content = 5\<rparr>]
        @ [\<lparr>msg_sequence = 2, msg_state = AVAILABLE, msg_content = 6\<rparr>]"
  using MessageDeque_publish_appends [of "0 :: nat"
      "\<lparr>messages = [\<lparr>msg_sequence = 4294967295, msg_state = ACQUIRED, msg_content = 5\<rparr>], head = 0, version = 0\<rparr>"
      "\<lparr>msg_sequence = 2, msg_state = UNAVAILABLE, msg_content = 6\<rparr>"]
  by (simp add: deque_inv_def contiguous_def MessageDeque_publish_def deque_publish_def clean_def
      message_ops_def SequenceNumber_less_def SequenceNumber_minus_def SequenceNumber_plus_int_def numeral_3_eq_3)

text \<open>
  A cursor that starts afresh visits every available message exactly once, in the order of the
  queue, and then reports the end; a replicating or purging cursor visits the acquired messages too.
\<close>

theorem MessageDeque_browse:
  assumes "deque_inv (message_ops e) d" and "length (messages d) < n"
  shows "browse (message_ops e) d n (QueueCursor_init t)
    = filter (\<lambda>m. msg_state m = AVAILABLE \<or> ((t = REPLICATOR \<or> t = PURGE) \<and> msg_state m = ACQUIRED))
        (messages d)"
proof -
  have "deque_next (message_ops e) d (QueueCursor_init t)
      = next_loop (message_ops e) (version d) (QueueCursor_init t) (drop 0 (messages d))"
    using assms(1) by (simp add: deque_next_def deque_reset_def QueueCursor_init_def deque_inv_def)
  from browse_loop [OF assms(1) this, of n] show ?thesis
    using assms(2) order_le_less_trans [OF length_filter_le assms(2)]
    by (simp add: viewable_def [abs_def] QueueCursor_init_def)
qed

theorem MessageDeque_browse_witness:
  "browse (message_ops ()) \<lparr>messages = [\<lparr>msg_sequence = 7, msg_state = DELETED, msg_content = ()\<rparr>,
      \<lparr>msg_sequence = 8, msg_state = ACQUIRED, msg_content = ()\<rparr>,
      \<lparr>msg_sequence = 9, msg_state = AVAILABLE, msg_content = ()\<rparr>], head = 0, version = 0\<rparr> 4 (QueueCursor_init PURGE)
    = [\<lparr>msg_sequence = 8, msg_state = ACQUIRED, msg_content = ()\<rparr>,
       \<lparr>msg_sequence = 9, msg_state = AVAILABLE, msg_content = ()\<rparr>]"
  by (subst MessageDeque_browse) (auto simp: deque_inv_def contiguous_def less_Suc_eq message_ops_def)

text \<open>
  Deleting through a cursor removes exactly its message (it is not found any more, every other
  message that was found still is, the number of available messages shrinks by one if it was
  available), and releasing a message that is still there only makes it available.
\<close>

theorem MessageDeque_delete_release:
  assumes "deque_inv (message_ops e) d" and "valid c"
    and "m \<in> set (live (message_ops e) (messages d))" and "msg_sequence m = position c"
  shows "MessageDeque_find e (snd (MessageDeque_deleted e d c)) c = None
    \<and> (\<forall>c' m'. valid c' \<and> m' \<in> set (live (message_ops e) (messages d)) \<and> msg_sequence m' = position c'
         \<and> position c' \<noteq> position c \<and> (msg_state m' = AVAILABLE \<or> msg_state m' = ACQUIRED)
         \<longrightarrow> MessageDeque_find e (snd (MessageDeque_deleted e d c)) c' = Some m')
    \<and> MessageDeque_size e d
      = MessageDeque_size e (snd (MessageDeque_deleted e d c)) + (if msg_state m = AVAILABLE then 1 else 0)
    \<and> fst (MessageDeque_release e d c) = Some (m\<lparr>msg_state := AVAILABLE\<rparr>)
    \<and> MessageDeque_size e (snd (MessageDeque_release e d c))
      = MessageDeque_size e d + (if msg_state m = AVAILABLE then 0 else 1)"
  using message_deque.deleted_not_found [OF assms(1,2)] message_deque.deleted_keeps_others [OF assms(1,2)]
    message_deque.size_deleted [OF assms] message_deque.size_released [OF assms]
    message_deque.release_law [OF assms] by blast

text \<open>
  \<open>release\<close> does not look at the state: a message that was deleted and whose record is still in the
  middle of the deque is made available again, although \<open>Messages.h\<close> promises a null pointer for it.
\<close>

theorem MessageDeque_release_revives:
  assumes "deque_inv (message_ops e) d" and "valid c"
    and "m \<in> set (messages d)" and "msg_sequence m = position c" and "msg_state m = DELETED"
  shows "fst (MessageDeque_release e d c) = Some (m\<lparr>msg_state := AVAILABLE\<rparr>)
    \<and> m\<lparr>msg_state := AVAILABLE\<rparr> \<in> set (live (message_ops e) (messages (snd (MessageDeque_release e d c))))"
proof -
  note rel = message_items.release_correct [OF assms(1,2,3)]
  have "m\<lparr>msg_state := AVAILABLE\<rparr> \<in> set (messages (snd (MessageDeque_release e d c)))"
    using rel(3) assms(3,4) by (force simp: MessageDeque_release_def)
  then show ?thesis using rel(1) assms(4) by (simp add: MessageDeque_release_def live_def)
qed

theorem MessageDeque_delete_release_witness:
  "MessageDeque_find () (snd (MessageDeque_deleted () \<lparr>messages = [\<lparr>msg_sequence = 8, msg_state = AVAILABLE, msg_content = ()\<rparr>,
      \<lparr>msg_sequence = 9, msg_state = ACQUIRED, msg_content = ()\<rparr>], head = 0, version = 0\<rparr>
      \<lparr>cursor_type = CONSUMER, position = 9, cursor_version = 0, valid = True\<rparr>))
      \<lparr>cursor_type = CONSUMER, position = 9, cursor_version = 0, valid = True\<rparr> = None"
  using MessageDeque_delete_release [of "()" "\<lparr>messages = [\<lparr>msg_sequence = 8, msg_state = AVAILABLE, msg_content = ()\<rparr>,
      \<lparr>msg_sequence = 9, msg_state = ACQUIRED, msg_content = ()\<rparr>], head = 0, version = 0\<rparr>"
      "\<lparr>cursor_type = CONSUMER, position = 9, cursor_version = 0, valid = True\<rparr>"
      "\<lparr>msg_sequence = 9, msg_state = ACQUIRED, msg_content = ()\<rparr>"]
  by (simp add: deque_inv_def contiguous_def live_def less_Suc_eq)

theorem MessageDeque_release_revives_witness:
  "fst (MessageDeque_release () \<lparr>messages = [\<lparr>msg_sequence = 8, msg_state = AVAILABLE, msg_content = ()\<rparr>,
      \<lparr>msg_sequence = 9, msg_state = DELETED, msg_content = ()\<rparr>], head = 0, version = 0\<rparr>
      \<lparr>cursor_type = CONSUMER, position = 9, cursor_version = 0, valid = True\<rparr>)
    = Some \<lparr>msg_sequence = 9, msg_state = AVAILABLE, msg_content = ()\<rparr>"
  using MessageDeque_release_revives [of "()" "\<lparr>messages = [\<lparr>msg_sequence = 8, msg_state = AVAILABLE, msg_content = ()\<rparr>,
      \<lparr>msg_sequence = 9, msg_state = DELETED, msg_content = ()\<rparr>], head = 0, version = 0\<rparr>"
      "\<lparr>cursor_type = CONSUMER, position = 9, cursor_version = 0, valid = True\<rparr>"
      "\<lparr>msg_sequence = 9, msg_state = DELETED, msg_content = ()\<rparr>"]
  by (simp add: deque_inv_def contiguous_def live_def less_Suc_eq)

end
