(* ===== verification/Message_Map.thy ===== *)
theory Message_Map
  imports Broker_Messages
begin

text \<open>
  The messages of a last-value queue, \<open>qpid::broker::MessageMap\<close> (\<open>src/qpid/broker/MessageMap.cpp\<close>): at
  most one message per key, ordered by sequence number. \<open>Ordering\<close>, a \<open>std::map\<close> over sequence numbers, is
  the list of its entries in order; \<open>Index\<close>, a \<open>std::map\<close> over strings, is a map. The key of a message is
  a property of its content, given by the argument \<open>key\<close>. It satisfies the same contract as the deque.
\<close>

section \<open>Operations\<close>

type_synonym 'c Ordering = "(SequenceNumber \<times> 'c Message) list"

record 'c MessageMap =
  map_index :: "string \<Rightarrow> 'c Message option"
  map_messages :: "'c Ordering"
  map_version :: "32 word"

definition MessageMap_init :: "'c MessageMap" where
  "MessageMap_init = \<lparr>map_index = (\<lambda>_. None), map_messages = [], map_version = 0\<rparr>"

definition getKey :: "('c \<Rightarrow> string) \<Rightarrow> 'c Message \<Rightarrow> string" where
  "getKey key m = key (msg_content m)"

text \<open>\<open>std::map\<close>: \<open>lower_bound\<close> and \<open>upper_bound\<close> as the rest of the entries, \<open>find\<close>, \<open>insert\<close>, \<open>erase\<close>.\<close>

definition lower_bound :: "'c Ordering \<Rightarrow> SequenceNumber \<Rightarrow> 'c Ordering" where
  "lower_bound os p = dropWhile (\<lambda>(k, _). SequenceNumber_less k p) os"

definition upper_bound :: "'c Ordering \<Rightarrow> SequenceNumber \<Rightarrow> 'c Ordering" where
  "upper_bound os p = dropWhile (\<lambda>(k, _). \<not> SequenceNumber_less p k) os"

definition ordering_find :: "'c Ordering \<Rightarrow> SequenceNumber \<Rightarrow> 'c Message option" where
  "ordering_find os p = (case lower_bound os p of
       [] \<Rightarrow> None
     | (k, m) # _ \<Rightarrow> if SequenceNumber_less p k then None else Some m)"

definition ordering_erase :: "'c Ordering \<Rightarrow> SequenceNumber \<Rightarrow> 'c Ordering" where
  "ordering_erase os p = filter (\<lambda>(k, _). SequenceNumber_less k p \<or> SequenceNumber_less p k) os"

definition ordering_update :: "'c Ordering \<Rightarrow> SequenceNumber \<Rightarrow> ('c Message \<Rightarrow> 'c Message) \<Rightarrow> 'c Ordering" where
  "ordering_update os p f =
     map (\<lambda>(k, m). (k, if SequenceNumber_less k p \<or> SequenceNumber_less p k then m else f m)) os"

fun ordering_insert :: "'c Ordering \<Rightarrow> SequenceNumber \<Rightarrow> 'c Message \<Rightarrow> 'c Ordering" where
  "ordering_insert [] p m = [(p, m)]"
| "ordering_insert ((k, x) # os) p m =
     (if SequenceNumber_less k p then (k, x) # ordering_insert os p m
      else if SequenceNumber_less p k then (p, m) # (k, x) # os
      else (k, x) # os)"

abbreviation make_available :: "'c Message \<Rightarrow> 'c Message" where
  "make_available m \<equiv> m\<lparr>msg_state := AVAILABLE\<rparr>"

definition MessageMap_size :: "'c MessageMap \<Rightarrow> nat" where
  "MessageMap_size q = length (filter (\<lambda>(_, m). msg_state m = AVAILABLE) (map_messages q))"

definition MessageMap_empty :: "'c MessageMap \<Rightarrow> bool" where
  "MessageMap_empty q \<longleftrightarrow> MessageMap_size q = 0"

definition MessageMap_erase :: "('c \<Rightarrow> string) \<Rightarrow> 'c MessageMap \<Rightarrow> SequenceNumber \<Rightarrow> 'c Message \<Rightarrow> 'c MessageMap" where
  "MessageMap_erase key q p m = q\<lparr>map_index := (map_index q)(getKey key m := None),
     map_messages := ordering_erase (map_messages q) p\<rparr>"

definition MessageMap_deleted :: "('c \<Rightarrow> string) \<Rightarrow> 'c MessageMap \<Rightarrow> QueueCursor \<Rightarrow> bool \<times> 'c MessageMap" where
  "MessageMap_deleted key q c =
     (case ordering_find (map_messages q) (position c) of
        Some m \<Rightarrow> (True, MessageMap_erase key q (position c) m)
      | None \<Rightarrow> (False, q))"

definition MessageMap_find_position ::
  "'c MessageMap \<Rightarrow> SequenceNumber \<Rightarrow> QueueCursor option \<Rightarrow> 'c Message option \<times> QueueCursor option" where
  "MessageMap_find_position q p c =
     (case lower_bound (map_messages q) p of
        (k, m) # _ \<Rightarrow> (if k = p then Some m else None, map_option (\<lambda>c. cursor_setPosition c k (map_version q)) c)
      | [] \<Rightarrow> (None, map_option (\<lambda>c. cursor_setPosition c p (map_version q)) c))"

definition MessageMap_find :: "'c MessageMap \<Rightarrow> QueueCursor \<Rightarrow> 'c Message option" where
  "MessageMap_find q c = (if valid c then fst (MessageMap_find_position q (position c) None) else None)"

fun map_next_loop :: "32 word \<Rightarrow> QueueCursor \<Rightarrow> 'c Ordering \<Rightarrow> 'c Message option \<times> QueueCursor" where
  "map_next_loop v c [] = (None, c)"
| "map_next_loop v c ((k, m) # os) =
     (let c = cursor_setPosition c (msg_sequence m) v in
      if cursor_check c (msg_state m) then (Some m, c) else map_next_loop v c os)"

definition MessageMap_next :: "'c MessageMap \<Rightarrow> QueueCursor \<Rightarrow> 'c Message option \<times> QueueCursor" where
  "MessageMap_next q c = map_next_loop (map_version q) c
     (if \<not> valid c then map_messages q else upper_bound (map_messages q) (position c))"

text \<open>\<open>replace\<close>: the entry of the update, made available.\<close>

definition MessageMap_replace :: "'c Ordering \<Rightarrow> 'c Message \<Rightarrow> 'c Message \<Rightarrow> 'c Message option \<times> 'c Ordering" where
  "MessageMap_replace os original upd =
     (let os = ordering_erase os (msg_sequence original);
          os = ordering_insert os (msg_sequence upd) upd;
          os = ordering_update os (msg_sequence upd) make_available
      in (ordering_find os (msg_sequence upd), os))"

text \<open>\<open>update\<close> returns the message it displaced, if any (the result \<open>true\<close> and the argument \<open>removed\<close>).\<close>

definition MessageMap_update ::
  "('c \<Rightarrow> string) \<Rightarrow> 'c MessageMap \<Rightarrow> 'c Message \<Rightarrow> 'c Message option \<times> 'c MessageMap" where
  "MessageMap_update key q added =
     (case map_index q (getKey key added) of
        None \<Rightarrow> (None, q\<lparr>map_index := (map_index q)(getKey key added \<mapsto> added),
          map_messages := ordering_update (ordering_insert (map_messages q) (msg_sequence added) added)
            (msg_sequence added) make_available\<rparr>)
      | Some old \<Rightarrow>
          let (entry, os) = MessageMap_replace (map_messages q) old added
          in (Some old, q\<lparr>map_index := (map_index q)(getKey key added := map_option make_available entry),
                map_messages := os\<rparr>))"

definition MessageMap_publish :: "('c \<Rightarrow> string) \<Rightarrow> 'c MessageMap \<Rightarrow> 'c Message \<Rightarrow> 'c MessageMap" where
  "MessageMap_publish key q added = snd (MessageMap_update key q added)"

definition MessageMap_release :: "'c MessageMap \<Rightarrow> QueueCursor \<Rightarrow> 'c Message option \<times> 'c MessageMap" where
  "MessageMap_release q c =
     (case ordering_find (map_messages q) (position c) of
        Some m \<Rightarrow> (Some (make_available m),
          q\<lparr>map_messages := ordering_update (map_messages q) (position c) make_available\<rparr>)
      | None \<Rightarrow> (None, q))"

definition MessageMap_foreach :: "('c Message \<Rightarrow> 'c Message) \<Rightarrow> 'c MessageMap \<Rightarrow> 'c MessageMap" where
  "MessageMap_foreach f q =
     q\<lparr>map_messages := map (\<lambda>(k, m). (k, if msg_state m = AVAILABLE then f m else m)) (map_messages q)\<rparr>"

section \<open>Sequence numbers of a window as keys\<close>

text \<open>Two sequence numbers neither of which is less are equal, so a search never mistakes one.\<close>

lemma not_less_both:
  assumes "\<not> SequenceNumber_less a b" and "\<not> SequenceNumber_less b a"
  shows "a = b"
proof -
  have "in_window b a"
    using assms(1) by (simp add: SequenceNumber_less_def sint_word32_neg_iff in_window_def window_pos_def not_le)
  then have "window_pos b a = 0"
    using SequenceNumber_less_window [OF in_window_base, of b a] assms(2) by simp
  then show ?thesis using window_pos_inj [of b a b] by simp
qed

lemma less_or_less: "SequenceNumber_less a b \<or> SequenceNumber_less b a \<longleftrightarrow> a \<noteq> b"
  using not_less_both by (auto simp: SequenceNumber_less_def)

lemma ordering_erase_conv: "ordering_erase os p = filter (\<lambda>(k, _). k \<noteq> p) os"
  by (simp add: ordering_erase_def less_or_less)

lemma ordering_update_conv: "ordering_update os p f = map (\<lambda>(k, m). (k, if k = p then f m else m)) os"
  by (auto simp: ordering_update_def less_or_less)

definition ordering_inv :: "SequenceNumber \<Rightarrow> 'c Ordering \<Rightarrow> bool" where
  "ordering_inv base os \<longleftrightarrow> (\<forall>(k, m)\<in>set os. in_window base k \<and> msg_sequence m = k)
     \<and> sorted_wrt (\<lambda>(j, _) (k, _). window_pos base j < window_pos base k) os"

lemma lower_bound_window:
  assumes "ordering_inv base os" and "(p, m) \<in> set os"
  shows "\<exists>rest. lower_bound os p = (p, m) # rest"
  using assms
proof (induction os)
  case (Cons e os)
  obtain k x where e: "e = (k, x)" by fastforce
  show ?case
  proof (cases "(p, m) = e")
    case True
    then have "e = (p, m)" by simp
    then show ?thesis
      by (simp add: lower_bound_def SequenceNumber_less_def)
  next
    case False
    then have "(p, m) \<in> set os" using Cons(3) by simp
    moreover from this have "window_pos base k < window_pos base p" "in_window base k" "in_window base p"
      using Cons(2) e by (auto simp: ordering_inv_def)
    ultimately show ?thesis
      using Cons(1,2) e SequenceNumber_less_window [of base k p]
      by (auto simp: lower_bound_def ordering_inv_def)
  qed
qed simp

lemma ordering_find_Some:
  "ordering_inv base os \<Longrightarrow> (p, m) \<in> set os \<Longrightarrow> ordering_find os p = Some m"
  using lower_bound_window [of base os p m] by (auto simp: ordering_find_def SequenceNumber_less_def)

lemma lower_bound_subset: "set (lower_bound os p) \<subseteq> set os"
  unfolding lower_bound_def using set_dropWhileD by fast

lemma lower_bound_head: "lower_bound os p = (k, m) # rest \<Longrightarrow> \<not> SequenceNumber_less k p \<and> (k, m) \<in> set os"
  using hd_dropWhile [of "\<lambda>(k, _). SequenceNumber_less k p" os] lower_bound_subset [of os p]
  by (auto simp: lower_bound_def)

lemma ordering_find_mem: "ordering_find os p = Some m \<Longrightarrow> (p, m) \<in> set os"
  using lower_bound_head [of os p] not_less_both
  by (fastforce simp: ordering_find_def split: list.splits prod.splits if_splits)

lemma ordering_find_None: "ordering_inv base os \<Longrightarrow> ordering_find os p = None \<longleftrightarrow> (\<forall>m. (p, m) \<notin> set os)"
  using ordering_find_Some ordering_find_mem by (metis not_Some_eq)

lemma ordering_find_pair:
  "ordering_inv base os \<Longrightarrow> ordering_find os p = Some m \<Longrightarrow> msg_sequence m = p \<and> m \<in> set (map snd os)"
  using ordering_find_mem [of os p m] by (force simp: ordering_inv_def)

lemma MessageMap_find_conv:
  "valid c \<Longrightarrow> MessageMap_find q c = ordering_find (map_messages q) (position c)"
  using lower_bound_head [of "map_messages q" "position c"] not_less_both
  by (auto simp: MessageMap_find_def MessageMap_find_position_def ordering_find_def SequenceNumber_less_def
      split: list.split)

lemma ordering_insert_last:
  assumes "ordering_inv base os" and "in_window base p"
    and "\<forall>(k, _)\<in>set os. window_pos base k < window_pos base p"
  shows "ordering_insert os p m = os @ [(p, m)]"
  using assms
proof (induction os)
  case (Cons e os)
  then show ?case
    using SequenceNumber_less_window [of base "fst e" p] by (cases e) (auto simp: ordering_inv_def)
qed simp

lemma ordering_inv_filter: "ordering_inv base os \<Longrightarrow> ordering_inv base (filter P os)"
  by (auto simp: ordering_inv_def sorted_wrt_filter)

lemma ordering_inv_distinct:
  assumes "ordering_inv base os"
  shows "distinct (map fst os)" and "map fst os = map (msg_sequence \<circ> snd) os"
proof -
  show "distinct (map fst os)" using assms
    by (induction os) (force simp: ordering_inv_def)+
  show "map fst os = map (msg_sequence \<circ> snd) os" using assms by (auto simp: ordering_inv_def)
qed

section \<open>The invariant and the contract\<close>

definition map_contents :: "'c MessageMap \<Rightarrow> 'c Message list" where
  "map_contents q = map snd (map_messages q)"

text \<open>The index knows, for every key, the sequence number of the only message with that key.\<close>

definition map_inv :: "('c \<Rightarrow> string) \<Rightarrow> SequenceNumber \<Rightarrow> 'c MessageMap \<Rightarrow> bool" where
  "map_inv key base q \<longleftrightarrow> ordering_inv base (map_messages q)
     \<and> (\<forall>k. map_option msg_sequence (map_index q k)
          = map_option msg_sequence (List.find (\<lambda>m. getKey key m = k) (map_contents q)))
     \<and> distinct (map (getKey key) (map_contents q))
     \<and> (\<forall>m\<in>set (map_contents q). msg_state m \<noteq> DELETED)"

lemma mem_contents: "ordering_inv base (map_messages q) \<Longrightarrow>
    m \<in> set (map_contents q) \<longleftrightarrow> (msg_sequence m, m) \<in> set (map_messages q)"
  by (force simp: map_contents_def ordering_inv_def)

lemma distinct_sequences: "ordering_inv base (map_messages q) \<Longrightarrow> distinct (map msg_sequence (map_contents q))"
  using ordering_inv_distinct [of base "map_messages q"] by (simp add: map_contents_def)

lemma contents_erase:
  assumes "ordering_inv base os"
  shows "map snd (ordering_erase os p) = filter (\<lambda>m. msg_sequence m \<noteq> p) (map snd os)"
  using assms by (induction os) (auto simp: ordering_erase_conv ordering_inv_def)

lemma contents_update:
  assumes "ordering_inv base os"
  shows "map snd (ordering_update os p f) = map (\<lambda>m. if msg_sequence m = p then f m else m) (map snd os)"
  using assms by (induction os) (auto simp: ordering_update_conv ordering_inv_def)

lemma ordering_inv_update:
  assumes "ordering_inv base os"
  shows "ordering_inv base (ordering_update os p make_available)"
  using assms by (auto simp: ordering_inv_def ordering_update_conv sorted_wrt_map case_prod_unfold)

lemma find_distinct:
  "distinct (map f xs) \<Longrightarrow> x \<in> set xs \<Longrightarrow> List.find (\<lambda>y. f y = f x) xs = Some x"
  by (induction xs) force+

lemma find_filter_other:
  assumes "\<And>x. x \<in> set xs \<Longrightarrow> P x \<Longrightarrow> Q x"
  shows "List.find P (filter Q xs) = List.find P xs"
  using assms by (induction xs) auto

lemma map_deleted_correct:
  assumes inv: "map_inv key base q" and v: "valid c"
  shows "map_inv key base (snd (MessageMap_deleted key q c))"
    and "map_contents (snd (MessageMap_deleted key q c)) = filter (\<lambda>m. msg_sequence m \<noteq> position c) (map_contents q)"
proof -
  have ord: "ordering_inv base (map_messages q)" using inv by (simp add: map_inv_def)
  show contents: "map_contents (snd (MessageMap_deleted key q c))
      = filter (\<lambda>m. msg_sequence m \<noteq> position c) (map_contents q)"
  proof (cases "ordering_find (map_messages q) (position c)")
    case None
    then have "\<forall>m\<in>set (map_contents q). msg_sequence m \<noteq> position c"
      using ordering_find_None [OF ord] mem_contents [OF ord] by metis
    then show ?thesis using None by (simp add: MessageMap_deleted_def filter_id_conv)
  next
    case (Some m)
    then show ?thesis
      using contents_erase [OF ord] by (simp add: MessageMap_deleted_def MessageMap_erase_def map_contents_def)
  qed
  show "map_inv key base (snd (MessageMap_deleted key q c))"
  proof (cases "ordering_find (map_messages q) (position c)")
    case None
    then show ?thesis using inv by (simp add: MessageMap_deleted_def)
  next
    case (Some m)
    let ?q = "snd (MessageMap_deleted key q c)"
    have m: "m \<in> set (map_contents q)" "msg_sequence m = position c"
      using ordering_find_mem [OF Some] ord by (force simp: map_contents_def ordering_inv_def)+
    have eq: "map_index ?q = (map_index q)(getKey key m := None)"
      "map_messages ?q = ordering_erase (map_messages q) (position c)"
      using Some by (simp_all add: MessageMap_deleted_def MessageMap_erase_def)
    have "map_option msg_sequence (map_index ?q k)
        = map_option msg_sequence (List.find (\<lambda>m. getKey key m = k) (map_contents ?q))" for k
    proof (cases "k = getKey key m")
      case True
      have "x = m" if "x \<in> set (map_contents q)" "getKey key x = getKey key m" for x
        using inv that m(1) by (auto simp: map_inv_def distinct_map dest: inj_onD)
      then have "List.find (\<lambda>x. getKey key x = k) (map_contents ?q) = None"
        unfolding contents find_None_iff using m(2) True by auto
      then show ?thesis using True eq by simp
    next
      case False
      have "List.find (\<lambda>x. getKey key x = k) (map_contents ?q) = List.find (\<lambda>x. getKey key x = k) (map_contents q)"
        unfolding contents
      proof (rule find_filter_other)
        fix x
        assume "x \<in> set (map_contents q)" "getKey key x = k"
        then show "msg_sequence x \<noteq> position c"
          using m False distinct_sequences [OF ord] unfolding distinct_map by (metis inj_onD)
      qed
      then show ?thesis using False eq inv by (simp add: map_inv_def)
    qed
    moreover have "ordering_inv base (map_messages ?q)"
      using eq ord ordering_inv_filter by (simp add: ordering_erase_conv)
    ultimately show ?thesis
      using inv contents by (auto simp: map_inv_def distinct_map_filter)
  qed
qed

lemma map_release_correct:
  assumes inv: "map_inv key base q" and m: "m \<in> set (map_contents q)" "msg_sequence m = position c"
  shows "fst (MessageMap_release q c) = Some (make_available m)"
    and "map_inv key base (snd (MessageMap_release q c))"
    and "map_contents (snd (MessageMap_release q c))
      = map (\<lambda>m. if msg_sequence m = position c then make_available m else m) (map_contents q)"
proof -
  have ord: "ordering_inv base (map_messages q)" using inv by (simp add: map_inv_def)
  have "ordering_find (map_messages q) (position c) = Some m"
    using ordering_find_Some [OF ord] mem_contents [OF ord] m by metis
  then have rel: "MessageMap_release q c = (Some (make_available m),
      q\<lparr>map_messages := ordering_update (map_messages q) (position c) make_available\<rparr>)"
    by (simp add: MessageMap_release_def)
  then show "fst (MessageMap_release q c) = Some (make_available m)" by simp
  let ?f = "\<lambda>m :: 'a Message. if msg_sequence m = position c then make_available m else m"
  show contents: "map_contents (snd (MessageMap_release q c)) = map ?f (map_contents q)"
    using rel contents_update [OF ord] by (simp add: map_contents_def)
  have f: "getKey key (?f x) = getKey key x" "msg_sequence (?f x) = msg_sequence x" for x
    by (simp_all add: getKey_def)
  have "map_option msg_sequence (List.find (\<lambda>m. getKey key m = k) (map ?f xs))
      = map_option msg_sequence (List.find (\<lambda>m. getKey key m = k) xs)" for k xs
    by (induction xs) (simp_all add: f del: if_split)
  moreover have keys: "map (getKey key) (map ?f (map_contents q)) = map (getKey key) (map_contents q)"
    by (simp add: f del: if_split)
  ultimately show "map_inv key base (snd (MessageMap_release q c))"
    using inv rel ordering_inv_update [OF ord] unfolding map_inv_def contents keys by auto
qed

text \<open>Adding at the end, after the entry with the same key has gone.\<close>

definition append_entry :: "'c Ordering \<Rightarrow> 'c Message \<Rightarrow> 'c Ordering" where
  "append_entry os m = ordering_update (ordering_insert os (msg_sequence m) m) (msg_sequence m) make_available"

lemma append_entry_conv:
  assumes "ordering_inv base os" and "in_window base (msg_sequence m)"
    and "\<forall>(k, _)\<in>set os. window_pos base k < window_pos base (msg_sequence m)"
  shows "append_entry os m = os @ [(msg_sequence m, make_available m)]"
    and "ordering_inv base (append_entry os m)"
    and "ordering_find (append_entry os m) (msg_sequence m) = Some (make_available m)"
proof -
  have "ordering_update os (msg_sequence m) make_available = os"
    unfolding ordering_update_conv using assms(3) by (intro map_idI) auto
  then show conv: "append_entry os m = os @ [(msg_sequence m, make_available m)]"
    using ordering_insert_last [OF assms] by (simp add: append_entry_def ordering_update_conv)
  show inv: "ordering_inv base (append_entry os m)"
    unfolding conv using assms by (auto simp: ordering_inv_def sorted_wrt_append case_prod_unfold)
  show "ordering_find (append_entry os m) (msg_sequence m) = Some (make_available m)"
    by (rule ordering_find_Some [OF inv]) (simp add: conv)
qed

lemma MessageMap_update_conv:
  assumes inv: "map_inv key base q" and w: "in_window base (msg_sequence added)"
    and less: "\<forall>m\<in>set (map_contents q). SequenceNumber_less (msg_sequence m) (msg_sequence added)"
  shows "\<exists>os x. map snd os = filter (\<lambda>m. getKey key m \<noteq> getKey key added) (map_contents q)
    \<and> snd (MessageMap_update key q added) = q\<lparr>map_index := (map_index q)(getKey key added \<mapsto> x),
        map_messages := os @ [(msg_sequence added, make_available added)]\<rparr>
    \<and> msg_sequence x = msg_sequence added
    \<and> ordering_inv base (os @ [(msg_sequence added, make_available added)])"
proof -
  let ?k = "getKey key added"
  have ord: "ordering_inv base (map_messages q)" and keys: "distinct (map (getKey key) (map_contents q))"
    and idx: "map_option msg_sequence (map_index q ?k)
      = map_option msg_sequence (List.find (\<lambda>m. getKey key m = ?k) (map_contents q))"
    using inv by (simp_all add: map_inv_def)
  have pos: "\<forall>(k, _)\<in>set (map_messages q). window_pos base k < window_pos base (msg_sequence added)"
    using less w ord SequenceNumber_less_window by (fastforce simp: ordering_inv_def map_contents_def)
  show ?thesis
  proof (cases "map_index q ?k")
    case None
    then have "List.find (\<lambda>m. getKey key m = ?k) (map_contents q) = None" using idx by simp
    then have "filter (\<lambda>m. getKey key m \<noteq> ?k) (map_contents q) = map_contents q"
      by (auto simp: find_None_iff filter_id_conv)
    then show ?thesis
      using None append_entry_conv [OF ord w pos]
      by (intro exI [of _ "map_messages q"] exI [of _ added])
        (simp add: MessageMap_update_def map_contents_def append_entry_def)
  next
    case (Some old)
    then obtain m where m: "List.find (\<lambda>m. getKey key m = ?k) (map_contents q) = Some m"
      "msg_sequence m = msg_sequence old"
      using idx by (auto simp: map_option_case split: option.splits)
    then have mk: "m \<in> set (map_contents q)" "getKey key m = ?k"
      by (auto simp: find_Some_iff)
    let ?os = "ordering_erase (map_messages q) (msg_sequence old)"
    have "filter (\<lambda>x. msg_sequence x \<noteq> msg_sequence m) (map_contents q)
        = filter (\<lambda>x. getKey key x \<noteq> ?k) (map_contents q)"
    proof (rule filter_cong [OF refl])
      fix x
      assume "x \<in> set (map_contents q)"
      then show "msg_sequence x \<noteq> msg_sequence m \<longleftrightarrow> getKey key x \<noteq> ?k"
        using mk keys distinct_sequences [OF ord] unfolding distinct_map by (metis inj_onD)
    qed
    then have os: "map snd ?os = filter (\<lambda>x. getKey key x \<noteq> ?k) (map_contents q)"
      using contents_erase [OF ord] m(2) by (simp add: map_contents_def)
    have "ordering_inv base ?os" "\<forall>(k, _)\<in>set ?os. window_pos base k < window_pos base (msg_sequence added)"
      using ord pos ordering_inv_filter by (auto simp: ordering_erase_conv)
    note app = append_entry_conv [OF this(1) w this(2)]
    have "MessageMap_replace (map_messages q) old added
        = (Some (make_available added), ?os @ [(msg_sequence added, make_available added)])"
      using app by (simp add: MessageMap_replace_def append_entry_def Let_def)
    then show ?thesis
      using Some os app by (intro exI [of _ ?os] exI [of _ "make_available added"]) (simp add: MessageMap_update_def)
  qed
qed


interpretation message_map: message_container "map_inv key base" map_contents "MessageMap_deleted key"
  MessageMap_release MessageMap_find MessageMap_size for key base
proof (unfold_locales, goal_cases)
  case (1 q)
  then show ?case using distinct_sequences by (auto simp: map_inv_def)
next
  case (2 q c)
  then show ?case using map_deleted_correct by blast
next
  case (3 q c m)
  then show ?case using map_release_correct by blast
next
  case (4 q c m)
  then have ord: "ordering_inv base (map_messages q)" by (simp add: map_inv_def)
  then show ?case
    using 4 mem_contents [OF ord] ordering_find_Some [OF ord] MessageMap_find_conv by metis
next
  case (5 q c)
  then have ord: "ordering_inv base (map_messages q)" by (simp add: map_inv_def)
  then have "ordering_find (map_messages q) (position c) = None"
    using 5(3) ordering_find_pair [OF ord, of "position c"]
    by (cases "ordering_find (map_messages q) (position c)") (auto simp: map_contents_def)
  then show ?case using 5(2) MessageMap_find_conv by metis
next
  case (6 q)
  then show ?case
    by (simp add: MessageMap_size_def map_contents_def filter_map comp_def case_prod_unfold)
qed

text \<open>
  C29. The last value per key. Updating with a message later than all others displaces the message
  with the same key, if there is one, and only that; the others stay in order with the new one,
  available, at the end; what is returned is the displaced message as it was indexed.
\<close>

theorem MessageMap_update_last_value:
  assumes "map_inv key base q" and "in_window base (msg_sequence added)"
    and "\<forall>m\<in>set (map_contents q). SequenceNumber_less (msg_sequence m) (msg_sequence added)"
  shows "map_inv key base (snd (MessageMap_update key q added))
    \<and> map_contents (snd (MessageMap_update key q added))
      = filter (\<lambda>m. getKey key m \<noteq> getKey key added) (map_contents q) @ [added\<lparr>msg_state := AVAILABLE\<rparr>]
    \<and> map_option msg_sequence (fst (MessageMap_update key q added))
      = map_option msg_sequence (List.find (\<lambda>m. getKey key m = getKey key added) (map_contents q))"
proof -
  let ?k = "getKey key added" and ?q = "snd (MessageMap_update key q added)"
  obtain os x where os: "map snd os = filter (\<lambda>m. getKey key m \<noteq> ?k) (map_contents q)"
    and q: "?q = q\<lparr>map_index := (map_index q)(?k \<mapsto> x),
      map_messages := os @ [(msg_sequence added, make_available added)]\<rparr>"
    and x: "msg_sequence x = msg_sequence added"
    and ord: "ordering_inv base (os @ [(msg_sequence added, make_available added)])"
    using MessageMap_update_conv [OF assms] by blast
  have contents: "map_contents ?q = filter (\<lambda>m. getKey key m \<noteq> ?k) (map_contents q) @ [make_available added]"
    using os q by (simp add: map_contents_def)
  have find: "map_option msg_sequence (map_index ?q k)
      = map_option msg_sequence (List.find (\<lambda>m. getKey key m = k) (map_contents ?q))" for k
  proof (cases "k = ?k")
    case True
    have "List.find (\<lambda>m. getKey key m = ?k) (filter (\<lambda>m. getKey key m \<noteq> ?k) xs @ [make_available added])
        = Some (make_available added)" for xs
      by (induction xs) (auto simp: getKey_def)
    then show ?thesis using True q x unfolding contents by simp
  next
    case False
    have "List.find (\<lambda>m. getKey key m = k) (filter (\<lambda>m. getKey key m \<noteq> ?k) xs @ [make_available added])
        = List.find (\<lambda>m. getKey key m = k) xs" for xs
      using False by (induction xs) (auto simp: getKey_def)
    then show ?thesis using False q assms(1) unfolding contents by (simp add: map_inv_def)
  qed
  have "map_inv key base ?q"
    using find ord q assms(1) unfolding map_inv_def contents
    by (auto simp: distinct_map_filter getKey_def)
  moreover have "map_option msg_sequence (fst (MessageMap_update key q added))
      = map_option msg_sequence (List.find (\<lambda>m. getKey key m = ?k) (map_contents q))"
  proof -
    have "fst (MessageMap_update key q added) = map_index q ?k"
      by (cases "map_index q ?k") (simp_all add: MessageMap_update_def case_prod_unfold Let_def)
    then show ?thesis using assms(1) by (simp add: map_inv_def)
  qed
  ultimately show ?thesis using contents by simp
qed

theorem MessageMap_update_last_value_witness:
  "map_contents (snd (MessageMap_update (\<lambda>s. s)
      \<lparr>map_index = [''a'' \<mapsto> \<lparr>msg_sequence = 1, msg_state = AVAILABLE, msg_content = ''a''\<rparr>],
        map_messages = [(1, \<lparr>msg_sequence = 1, msg_state = ACQUIRED, msg_content = ''a''\<rparr>)], map_version = 0\<rparr>
      \<lparr>msg_sequence = 2, msg_state = UNAVAILABLE, msg_content = ''a''\<rparr>))
    = [\<lparr>msg_sequence = 2, msg_state = AVAILABLE, msg_content = ''a''\<rparr>]"
  using MessageMap_update_last_value [of "\<lambda>s. s" 0
      "\<lparr>map_index = [''a'' \<mapsto> \<lparr>msg_sequence = 1, msg_state = AVAILABLE, msg_content = ''a''\<rparr>],
        map_messages = [(1, \<lparr>msg_sequence = 1, msg_state = ACQUIRED, msg_content = ''a''\<rparr>)], map_version = 0\<rparr>"
      "\<lparr>msg_sequence = 2, msg_state = UNAVAILABLE, msg_content = ''a''\<rparr>"]
  by (simp add: map_inv_def map_contents_def ordering_inv_def in_window_def window_pos_def getKey_def
      SequenceNumber_less_def)

text \<open>
  The last-value map keeps the contract of \<open>Messages\<close> for deletion and release, like the deque: a
  deleted message is not found any more, the others still are, the count of available messages
  follows, and releasing only makes the message available.
\<close>

theorem MessageMap_delete_release:
  assumes "map_inv key base q" and "valid c" and "m \<in> set (map_contents q)" and "msg_sequence m = position c"
  shows "MessageMap_find (snd (MessageMap_deleted key q c)) c = None
    \<and> (\<forall>c' m'. valid c' \<and> m' \<in> set (map_contents q) \<and> msg_sequence m' = position c'
         \<and> position c' \<noteq> position c \<and> (msg_state m' = AVAILABLE \<or> msg_state m' = ACQUIRED)
         \<longrightarrow> MessageMap_find (snd (MessageMap_deleted key q c)) c' = Some m')
    \<and> MessageMap_size q
      = MessageMap_size (snd (MessageMap_deleted key q c)) + (if msg_state m = AVAILABLE then 1 else 0)
    \<and> fst (MessageMap_release q c) = Some (m\<lparr>msg_state := AVAILABLE\<rparr>)
    \<and> MessageMap_size (snd (MessageMap_release q c))
      = MessageMap_size q + (if msg_state m = AVAILABLE then 0 else 1)"
  using message_map.deleted_not_found [OF assms(1,2)] message_map.deleted_keeps_others [OF assms(1,2)]
    message_map.size_deleted [OF assms] message_map.size_released [OF assms]
    message_map.release_law [OF assms] by blast

theorem MessageMap_delete_release_witness:
  "MessageMap_find (snd (MessageMap_deleted (\<lambda>s. s)
      \<lparr>map_index = [''a'' \<mapsto> \<lparr>msg_sequence = 1, msg_state = AVAILABLE, msg_content = ''a''\<rparr>],
        map_messages = [(1, \<lparr>msg_sequence = 1, msg_state = ACQUIRED, msg_content = ''a''\<rparr>)], map_version = 0\<rparr>
      \<lparr>cursor_type = CONSUMER, position = 1, cursor_version = 0, valid = True\<rparr>))
      \<lparr>cursor_type = CONSUMER, position = 1, cursor_version = 0, valid = True\<rparr> = None"
  using MessageMap_delete_release [of "\<lambda>s. s" 0
      "\<lparr>map_index = [''a'' \<mapsto> \<lparr>msg_sequence = 1, msg_state = AVAILABLE, msg_content = ''a''\<rparr>],
        map_messages = [(1, \<lparr>msg_sequence = 1, msg_state = ACQUIRED, msg_content = ''a''\<rparr>)], map_version = 0\<rparr>"
      "\<lparr>cursor_type = CONSUMER, position = 1, cursor_version = 0, valid = True\<rparr>"
      "\<lparr>msg_sequence = 1, msg_state = ACQUIRED, msg_content = ''a''\<rparr>"]
  by (simp add: map_inv_def map_contents_def ordering_inv_def in_window_def window_pos_def getKey_def)

end
