(* ===== verification/Selector_Token.thy ===== *)
theory Selector_Token
  imports Prelude "HOL-Library.List_Lexorder"
begin

text \<open>
  Message selectors, tokens: \<open>src/qpid/broker/SelectorToken.h\<close> and \<open>SelectorToken.cpp\<close>. An iterator into the
  selector is the part of it that is still to be read, so that \<open>tokenStart\<close> and \<open>inp\<close> are strings; \<open>tokenise\<close>
  returns the token with the advanced iterator, or nothing. The character classes of \<open>cctype\<close> are those of the
  \<open>C\<close> locale.
\<close>

section \<open>Characters\<close>

definition schar :: "char \<Rightarrow> int" where
  "schar c = (let n = of_char c in if n < 128 then n else n - 256)"

definition isspace :: "char \<Rightarrow> bool" where
  "isspace c \<longleftrightarrow> c = CHR '' '' \<or> (9 \<le> schar c \<and> schar c \<le> 13)"

definition isdigit :: "char \<Rightarrow> bool" where
  "isdigit c \<longleftrightarrow> 48 \<le> schar c \<and> schar c \<le> 57"

definition isalpha :: "char \<Rightarrow> bool" where
  "isalpha c \<longleftrightarrow> (65 \<le> schar c \<and> schar c \<le> 90) \<or> (97 \<le> schar c \<and> schar c \<le> 122)"

definition tolower :: "char \<Rightarrow> int" where
  "tolower c = (if 65 \<le> schar c \<and> schar c \<le> 90 then schar c + 32 else schar c)"

definition quote :: char where
  "quote = CHR 0x27"

definition isIdentifierStart :: "char \<Rightarrow> bool" where
  "isIdentifierStart c \<longleftrightarrow> isalpha c \<or> c = CHR ''_'' \<or> c = CHR ''$''"

definition isIdentifierPart :: "char \<Rightarrow> bool" where
  "isIdentifierPart c \<longleftrightarrow> isalpha c \<or> isdigit c \<or> c = CHR ''_'' \<or> c = CHR ''$'' \<or> c = CHR ''.''"

section \<open>Tokens\<close>

datatype TokenType =
    T_EOS | T_NULL | T_TRUE | T_FALSE | T_NOT | T_AND | T_OR | T_IN | T_IS | T_BETWEEN | T_LIKE | T_ESCAPE
  | T_IDENTIFIER | T_STRING | T_NUMERIC_EXACT | T_NUMERIC_APPROX | T_LPAREN | T_RPAREN | T_COMMA
  | T_PLUS | T_MINUS | T_MULT | T_DIV | T_EQUAL | T_NEQ | T_LESS | T_GRT | T_LSEQ | T_GREQ

record Token =
  token_type :: TokenType
  token_val :: string
  tokenStart :: string

definition Token_of :: "TokenType \<Rightarrow> string \<Rightarrow> string \<Rightarrow> Token" where
  "Token_of t s v = \<lparr> token_type = t, token_val = v, tokenStart = s \<rparr>"

text \<open>The constructor from two iterators: the value is what lies between them.\<close>

definition Token_between :: "TokenType \<Rightarrow> string \<Rightarrow> string \<Rightarrow> Token" where
  "Token_between t s e = Token_of t s (take (length s - length e) s)"

definition Token_equal :: "Token \<Rightarrow> Token \<Rightarrow> bool" where
  "Token_equal l r \<longleftrightarrow> (token_type l = T_EOS \<and> token_type r = T_EOS)
     \<or> (token_type l = token_type r \<and> token_val l = token_val r)"

fun skipWS :: "string \<Rightarrow> string" where
  "skipWS [] = []"
| "skipWS (c # s) = (if isspace c then skipWS s else c # s)"

section \<open>Reserved words\<close>

text \<open>The comparison of two C strings; the end of a string is its null character.\<close>

fun caseless :: "string \<Rightarrow> string \<Rightarrow> bool" where
  "caseless [] [] = False"
| "caseless [] (y # ys) = (0 < tolower y)"
| "caseless (x # xs) [] = (tolower x < 0)"
| "caseless (x # xs) (y # ys) =
     (if tolower x < tolower y then True else if tolower y < tolower x then False else caseless xs ys)"

definition reserved :: "(string \<times> TokenType) list" where
  "reserved =
     [(''and'', T_AND), (''between'', T_BETWEEN), (''escape'', T_ESCAPE), (''false'', T_FALSE), (''in'', T_IN),
      (''is'', T_IS), (''like'', T_LIKE), (''not'', T_NOT), (''null'', T_NULL), (''or'', T_OR), (''true'', T_TRUE)]"

text \<open>\<open>std::equal_range\<close>, on an interval that is partitioned by the comparison with \<open>x\<close>.\<close>

definition equal_range :: "('a \<Rightarrow> 'a \<Rightarrow> bool) \<Rightarrow> 'a list \<Rightarrow> 'a \<Rightarrow> 'a list" where
  "equal_range ls xs x = takeWhile (\<lambda>y. \<not> ls x y) (dropWhile (\<lambda>y. ls y x) xs)"

definition tokeniseReservedWord :: "Token \<Rightarrow> Token" where
  "tokeniseReservedWord tok =
     (if token_type tok \<noteq> T_IDENTIFIER then tok
      else case equal_range (\<lambda>l r. caseless (fst l) (fst r)) reserved (token_val tok, T_EOS) of
        [] \<Rightarrow> tok
      | r # _ \<Rightarrow> tok \<lparr> token_type := snd r \<rparr>)"

section \<open>The tokeniser's state machine\<close>

text \<open>\<open>std::find\<close> for a quote: what is before it and what is after it.\<close>

fun find_quote :: "string \<Rightarrow> (string \<times> string) option" where
  "find_quote [] = None"
| "find_quote (c # s) =
     (if c = quote then Some ([], s) else map_option (\<lambda>(a, b). (c # a, b)) (find_quote s))"

lemma find_quote_length: "find_quote s = Some (a, b) \<Longrightarrow> length b < length s"
  by (induction s arbitrary: a b) (auto split: if_splits intro: less_SucI)

function (sequential) string_loop :: "string \<Rightarrow> string \<Rightarrow> (string \<times> string) option" where
  "string_loop content (c # p) =
     (if c = quote
      then case find_quote p of None \<Rightarrow> None | Some (a, q) \<Rightarrow> string_loop (content @ c # a) q
      else Some (content, c # p))"
| "string_loop content [] = Some (content, [])"
  by pat_completeness auto
termination
  by (relation "measure (\<lambda>(content, q). length q)") (auto dest: find_quote_length)

definition processString :: "string \<Rightarrow> (Token \<times> string) option" where
  "processString s = (case find_quote (tl s) of
      None \<Rightarrow> None
    | Some (content, q) \<Rightarrow> map_option (\<lambda>(content', q'). (Token_of T_STRING s content', q')) (string_loop content q))"

datatype RecogniserState =
    START | REJECT | IDENTIFIER | DIGIT | DECIMAL_START | DECIMAL | EXPONENT_SIGN | EXPONENT_START | EXPONENT
  | ACCEPT_IDENTIFIER | ACCEPT_INC | ACCEPT_NOINC

text \<open>The tokens that consist of a single character.\<close>

definition single_token :: "char \<Rightarrow> TokenType option" where
  "single_token c =
     (if c = CHR ''('' then Some T_LPAREN
      else if c = CHR '')'' then Some T_RPAREN
      else if c = CHR '','' then Some T_COMMA
      else if c = CHR ''+'' then Some T_PLUS
      else if c = CHR ''-'' then Some T_MINUS
      else if c = CHR ''*'' then Some T_MULT
      else if c = CHR ''/'' then Some T_DIV
      else if c = CHR ''='' then Some T_EQUAL
      else None)"

definition END :: string where
  "END = ''<END>''"

text \<open>
  One turn of the loop: \<open>Inr\<close> the next state with the token type and the iterator \<open>t\<close>, or \<open>Inl\<close> what the
  function returns.
\<close>

definition start_step ::
  "string \<Rightarrow> TokenType \<Rightarrow> string \<Rightarrow> (Token \<times> string) option + (RecogniserState \<times> TokenType \<times> string)" where
  "start_step s tokType t =
     (case t of
        [] \<Rightarrow> Inl (Some (Token_of T_EOS s END, s))
      | c # u \<Rightarrow>
          (case single_token c of
             Some ty \<Rightarrow> Inr (ACCEPT_INC, ty, c # u)
           | None \<Rightarrow>
               if c = CHR ''<'' then
                 (if u = [] \<or> (hd u \<noteq> CHR ''>'' \<and> hd u \<noteq> CHR ''='') then Inr (ACCEPT_NOINC, T_LESS, u)
                  else Inr (ACCEPT_INC, if hd u = CHR ''>'' then T_NEQ else T_LSEQ, u))
               else if c = CHR ''>'' then
                 (if u = [] \<or> hd u \<noteq> CHR ''='' then Inr (ACCEPT_NOINC, T_GRT, u) else Inr (ACCEPT_INC, T_GREQ, u))
               else if isIdentifierStart c then Inr (IDENTIFIER, tokType, u)
               else if c = quote then Inl (processString s)
               else if isdigit c then Inr (DIGIT, tokType, u)
               else if c = CHR ''.'' then Inr (DECIMAL_START, tokType, u)
               else Inr (REJECT, tokType, c # u)))"

fun recogniser_step ::
  "string \<Rightarrow> RecogniserState \<Rightarrow> TokenType \<Rightarrow> string \<Rightarrow>
     (Token \<times> string) option + (RecogniserState \<times> TokenType \<times> string)" where
  "recogniser_step s START ty t = start_step s ty t"
| "recogniser_step s IDENTIFIER ty t =
     (case t of [] \<Rightarrow> Inr (ACCEPT_IDENTIFIER, ty, t)
      | c # u \<Rightarrow> if isIdentifierPart c then Inr (IDENTIFIER, ty, u) else Inr (ACCEPT_IDENTIFIER, ty, t))"
| "recogniser_step s DECIMAL_START ty t =
     (case t of [] \<Rightarrow> Inr (REJECT, ty, t)
      | c # u \<Rightarrow> if isdigit c then Inr (DECIMAL, ty, u) else Inr (REJECT, ty, t))"
| "recogniser_step s EXPONENT_SIGN ty t =
     (case t of [] \<Rightarrow> Inr (REJECT, ty, t)
      | c # u \<Rightarrow> if c = CHR ''-'' \<or> c = CHR ''+'' then Inr (EXPONENT_START, ty, u)
          else if isdigit c then Inr (EXPONENT, ty, u) else Inr (REJECT, ty, t))"
| "recogniser_step s EXPONENT_START ty t =
     (case t of [] \<Rightarrow> Inr (REJECT, ty, t)
      | c # u \<Rightarrow> if isdigit c then Inr (EXPONENT, ty, u) else Inr (REJECT, ty, t))"
| "recogniser_step s DIGIT ty t =
     (case t of [] \<Rightarrow> Inr (ACCEPT_NOINC, T_NUMERIC_EXACT, t)
      | c # u \<Rightarrow> if isdigit c then Inr (DIGIT, ty, u)
          else if c = CHR ''.'' then Inr (DECIMAL, ty, u)
          else if c = CHR ''e'' \<or> c = CHR ''E'' then Inr (EXPONENT_SIGN, ty, u)
          else Inr (ACCEPT_NOINC, T_NUMERIC_EXACT, t))"
| "recogniser_step s DECIMAL ty t =
     (case t of [] \<Rightarrow> Inr (ACCEPT_NOINC, T_NUMERIC_APPROX, t)
      | c # u \<Rightarrow> if isdigit c then Inr (DECIMAL, ty, u)
          else if c = CHR ''e'' \<or> c = CHR ''E'' then Inr (EXPONENT_SIGN, ty, u)
          else Inr (ACCEPT_NOINC, T_NUMERIC_APPROX, t))"
| "recogniser_step s EXPONENT ty t =
     (case t of [] \<Rightarrow> Inr (ACCEPT_NOINC, T_NUMERIC_APPROX, t)
      | c # u \<Rightarrow> if isdigit c then Inr (EXPONENT, ty, u) else Inr (ACCEPT_NOINC, T_NUMERIC_APPROX, t))"
| "recogniser_step s ACCEPT_INC ty t = Inl (Some (Token_between ty s (tl t), tl t))"
| "recogniser_step s ACCEPT_NOINC ty t = Inl (Some (Token_between ty s t, t))"
| "recogniser_step s ACCEPT_IDENTIFIER ty t = Inl (Some (tokeniseReservedWord (Token_between T_IDENTIFIER s t), t))"
| "recogniser_step s REJECT ty t = Inl None"

text \<open>The loop ends: a step consumes a character or leads to a state from which the function returns.\<close>

definition accepting :: "RecogniserState \<Rightarrow> bool" where
  "accepting q \<longleftrightarrow> q \<in> {REJECT, ACCEPT_IDENTIFIER, ACCEPT_INC, ACCEPT_NOINC}"

lemma recogniser_step_decreases:
  "recogniser_step s q ty t = Inr (q', ty', t') \<Longrightarrow>
     2 * length t' + (if accepting q' then 0 else 1) < 2 * length t + (if accepting q then 0 else (1 :: nat))"
  by (cases q) (auto simp: start_step_def accepting_def split: list.splits if_splits option.splits)

function tokenise_loop :: "string \<Rightarrow> RecogniserState \<Rightarrow> TokenType \<Rightarrow> string \<Rightarrow> (Token \<times> string) option" where
  "tokenise_loop s q ty t =
     (case recogniser_step s q ty t of
        Inl r \<Rightarrow> r
      | Inr (q', ty', t') \<Rightarrow> tokenise_loop s q' ty' t')"
  by pat_completeness auto
termination
  by (relation "measure (\<lambda>(s, q, ty, t). 2 * length t + (if accepting q then 0 else 1))")
    (auto dest: recogniser_step_decreases)

declare tokenise_loop.simps [simp del]

definition tokenise :: "string \<Rightarrow> (Token \<times> string) option" where
  "tokenise s = tokenise_loop s START T_EOS s"

section \<open>The token stream\<close>

record Tokeniser =
  tokens :: "Token list"
  tokp :: nat
  inp :: string

definition Tokeniser_init :: "string \<Rightarrow> Tokeniser" where
  "Tokeniser_init s = \<lparr> tokens = [], tokp = 0, inp = s \<rparr>"

definition nextToken :: "Tokeniser \<Rightarrow> (Token \<times> Tokeniser) result" where
  "nextToken tk =
     (if tokp tk < length (tokens tk) then Inr (tokens tk ! tokp tk, tk \<lparr> tokp := tokp tk + 1 \<rparr>)
      else if 0 < tokp tk \<and> token_type (tokens tk ! (tokp tk - 1)) = T_EOS then Inr (tokens tk ! (tokp tk - 1), tk)
      else case tokenise (skipWS (inp tk)) of
          Some (tok, rest) \<Rightarrow> Inr (tok, tk \<lparr> tokens := tokens tk @ [tok], tokp := tokp tk + 1, inp := rest \<rparr>)
        | None \<Rightarrow> Inl TokenException)"

definition returnTokens :: "nat \<Rightarrow> Tokeniser \<Rightarrow> Tokeniser result" where
  "returnTokens n tk = throw_if (\<not> n \<le> tokp tk) AssertionFailed (Inr (tk \<lparr> tokp := tokp tk - n \<rparr>))"

definition remaining :: "Tokeniser \<Rightarrow> string result" where
  "remaining tk = throw_if (length (tokens tk) \<le> tokp tk) UndefinedBehaviour (Inr (tokenStart (tokens tk ! tokp tk)))"

section \<open>Reserved words are found without regard to case\<close>

definition word_key :: "string \<Rightarrow> int list" where
  "word_key = map tolower"

definition plain_word :: "string \<Rightarrow> bool" where
  "plain_word w \<longleftrightarrow> list_all (\<lambda>c. 0 < schar c) w"

lemma tolower_pos: "0 < schar c \<Longrightarrow> 0 < tolower c"
  by (simp add: tolower_def)

lemma caseless_iff: "plain_word v \<Longrightarrow> plain_word w \<Longrightarrow> caseless v w \<longleftrightarrow> word_key v < word_key w"
  by (induction v w rule: caseless.induct) (auto simp: plain_word_def word_key_def dest: tolower_pos)

lemma equal_range_filter:
  fixes key :: "'a \<Rightarrow> 'k :: linorder"
  assumes "sorted (map key xs)"
  shows "equal_range (\<lambda>l r. key l < key r) xs x = filter (\<lambda>y. key y = key x) xs"
  using assms
proof (induction xs)
  case (Cons y ys)
  have above: "filter (\<lambda>z. key z = k) zs = []" if "sorted (k' # map key zs)" "k < k'" for zs k k'
    using that by (auto simp: filter_empty_conv)
  have tw: "sorted (k # map key zs) \<Longrightarrow> takeWhile (\<lambda>z. \<not> k < key z) zs = filter (\<lambda>z. key z = k) zs" for zs k
  proof (induction zs)
    case (Cons z zs)
    then show ?case using above [of "key z" zs k] by auto
  qed simp
  show ?case
  proof (cases "key x" "key y" rule: linorder_cases)
    case less
    then show ?thesis using above [of "key y" ys "key x"] Cons.prems by (auto simp: equal_range_def)
  next
    case equal
    then show ?thesis using tw [of "key x" ys] Cons.prems by (simp add: equal_range_def)
  next
    case greater
    then show ?thesis using Cons by (simp add: equal_range_def)
  qed
qed (simp add: equal_range_def)

definition word_type :: "string \<Rightarrow> TokenType" where
  "word_type w = (case filter (\<lambda>(r, ty). word_key r = word_key w) reserved of [] \<Rightarrow> T_IDENTIFIER | r # _ \<Rightarrow> snd r)"

lemma reserved_plain: "list_all (\<lambda>(r, ty). plain_word r) reserved"
  by (simp add: reserved_def plain_word_def schar_def)

lemma reserved_sorted: "sorted (map (\<lambda>r. word_key (fst r)) reserved)"
  by (simp add: reserved_def word_key_def tolower_def schar_def)

lemma equal_range_cong:
  "(\<And>y. y \<in> set xs \<Longrightarrow> ls y x = ls' y x) \<Longrightarrow> (\<And>y. y \<in> set xs \<Longrightarrow> ls x y = ls' x y) \<Longrightarrow>
     equal_range ls xs x = equal_range ls' xs x"
  unfolding equal_range_def
  by (metis (mono_tags, lifting) dropWhile_cong set_dropWhileD takeWhile_cong)

lemma tokeniseReservedWord_type:
  assumes "plain_word (token_val tok)" "token_type tok = T_IDENTIFIER"
  shows "tokeniseReservedWord tok = tok \<lparr> token_type := word_type (token_val tok) \<rparr>"
proof -
  have "equal_range (\<lambda>l r. caseless (fst l) (fst r)) reserved (token_val tok, T_EOS) =
      equal_range (\<lambda>l r. word_key (fst l) < word_key (fst r)) reserved (token_val tok, T_EOS)"
    using reserved_plain assms(1) by (intro equal_range_cong) (auto simp: list_all_iff caseless_iff)
  also have "\<dots> = filter (\<lambda>(r, ty). word_key r = word_key (token_val tok)) reserved"
    using equal_range_filter [OF reserved_sorted, of "(token_val tok, T_EOS)"] by (simp add: case_prod_unfold)
  finally show ?thesis using assms(2) by (auto simp: tokeniseReservedWord_def word_type_def split: list.splits)
qed

section \<open>The lexical grammar\<close>

text \<open>The lexical productions of the comment at the head of \<open>SelectorExpression.cpp\<close>.\<close>

definition digit_string :: "string \<Rightarrow> bool" where
  "digit_string v \<longleftrightarrow> v \<noteq> [] \<and> list_all isdigit v"

definition mantissa :: "string \<Rightarrow> bool" where
  "mantissa v \<longleftrightarrow> (\<exists>a b. v = a @ CHR ''.'' # b \<and> list_all isdigit a \<and> list_all isdigit b \<and> (a \<noteq> [] \<or> b \<noteq> []))"

definition exponent_head :: "string \<Rightarrow> bool" where
  "exponent_head v \<longleftrightarrow> (\<exists>m e. v = m @ [e] \<and> (mantissa m \<or> digit_string m) \<and> (e = CHR ''e'' \<or> e = CHR ''E''))"

definition exponent_number :: "string \<Rightarrow> bool" where
  "exponent_number v \<longleftrightarrow>
     (\<exists>h sg d. v = h @ sg @ d \<and> exponent_head h \<and> (sg = [] \<or> sg = ''-'' \<or> sg = ''+'') \<and> digit_string d)"

definition identifier_word :: "string \<Rightarrow> bool" where
  "identifier_word v \<longleftrightarrow> v \<noteq> [] \<and> isIdentifierStart (hd v) \<and> list_all isIdentifierPart v"

definition operators :: "(TokenType \<times> string) list" where
  "operators = [(T_LPAREN, ''(''), (T_RPAREN, '')''), (T_COMMA, '',''), (T_PLUS, ''+''), (T_MINUS, ''-''),
     (T_MULT, ''*''), (T_DIV, ''/''), (T_EQUAL, ''=''), (T_NEQ, ''<>''), (T_LESS, ''<''), (T_GRT, ''>''),
     (T_LSEQ, ''<=''), (T_GREQ, ''>='')]"

text \<open>A text of a token type, and what may not follow it since it would make the text longer.\<close>

definition lexeme :: "TokenType \<Rightarrow> string \<Rightarrow> bool" where
  "lexeme ty v \<longleftrightarrow>
     (if ty = T_NUMERIC_EXACT then digit_string v
      else if ty = T_NUMERIC_APPROX then mantissa v \<or> exponent_number v
      else if ty = T_EOS \<or> ty = T_STRING then False
      else (ty, v) \<in> set operators \<or> (identifier_word v \<and> ty = word_type v))"

definition has_exponent :: "string \<Rightarrow> bool" where
  "has_exponent v \<longleftrightarrow> list_ex (\<lambda>c. c = CHR ''e'' \<or> c = CHR ''E'') v"

definition continues :: "TokenType \<Rightarrow> string \<Rightarrow> char \<Rightarrow> bool" where
  "continues ty v c \<longleftrightarrow>
     (if ty = T_NUMERIC_EXACT then isdigit c \<or> c = CHR ''.'' \<or> c = CHR ''e'' \<or> c = CHR ''E''
      else if ty = T_NUMERIC_APPROX then isdigit c \<or> \<not> has_exponent v \<and> (c = CHR ''e'' \<or> c = CHR ''E'')
      else if ty = T_LESS then c = CHR ''>'' \<or> c = CHR ''=''
      else if ty = T_GRT then c = CHR ''=''
      else if ty \<in> fst ` set operators then False
      else isIdentifierPart c)"

definition stops :: "TokenType \<Rightarrow> string \<Rightarrow> string \<Rightarrow> bool" where
  "stops ty v t \<longleftrightarrow> t = [] \<or> \<not> continues ty v (hd t)"

text \<open>What the recogniser has read, \<open>u\<close>, in each of its states.\<close>

fun recognised :: "RecogniserState \<Rightarrow> TokenType \<Rightarrow> string \<Rightarrow> string \<Rightarrow> bool" where
  "recognised START ty u t \<longleftrightarrow> u = []"
| "recognised REJECT ty u t \<longleftrightarrow> True"
| "recognised IDENTIFIER ty u t \<longleftrightarrow> identifier_word u"
| "recognised DIGIT ty u t \<longleftrightarrow> digit_string u"
| "recognised DECIMAL_START ty u t \<longleftrightarrow> u = ''.''"
| "recognised DECIMAL ty u t \<longleftrightarrow> mantissa u"
| "recognised EXPONENT_SIGN ty u t \<longleftrightarrow> exponent_head u"
| "recognised EXPONENT_START ty u t \<longleftrightarrow> (\<exists>h. exponent_head h \<and> (u = h @ ''-'' \<or> u = h @ ''+''))"
| "recognised EXPONENT ty u t \<longleftrightarrow> exponent_number u"
| "recognised ACCEPT_IDENTIFIER ty u t \<longleftrightarrow> identifier_word u \<and> (t = [] \<or> \<not> isIdentifierPart (hd t))"
| "recognised ACCEPT_INC ty u t \<longleftrightarrow> t \<noteq> [] \<and> (ty, u @ [hd t]) \<in> set operators \<and> ty \<noteq> T_LESS \<and> ty \<noteq> T_GRT"
| "recognised ACCEPT_NOINC ty u t \<longleftrightarrow> lexeme ty u \<and> stops ty u t \<and> u \<noteq> []"

lemma digit_string_snoc: "list_all isdigit u \<Longrightarrow> isdigit c \<Longrightarrow> digit_string (u @ [c])"
  by (simp add: digit_string_def)

lemma mantissa_snoc: "mantissa u \<Longrightarrow> isdigit c \<Longrightarrow> mantissa (u @ [c])"
proof -
  assume c: "isdigit c" and "mantissa u"
  then obtain a b where "u = a @ CHR ''.'' # b" "list_all isdigit a" "list_all isdigit b" unfolding mantissa_def by blast
  with c show ?thesis unfolding mantissa_def by (intro exI [of _ a] exI [of _ "b @ [c]"]) simp
qed

lemma mantissa_dot: "digit_string u \<Longrightarrow> mantissa (u @ ''.'')"
  unfolding mantissa_def digit_string_def by (metis list.pred_inject(1))

lemma mantissa_dot_digit: "isdigit c \<Longrightarrow> mantissa [CHR ''.'', c]"
  unfolding mantissa_def by (rule exI [of _ "[]"], rule exI [of _ "[c]"]) simp

lemma exponent_head_snoc:
  "mantissa u \<or> digit_string u \<Longrightarrow> c = CHR ''e'' \<or> c = CHR ''E'' \<Longrightarrow> exponent_head (u @ [c])"
  by (auto simp: exponent_head_def)

lemma exponent_number_start:
  "exponent_head h \<Longrightarrow> sg = [] \<or> sg = ''-'' \<or> sg = ''+'' \<Longrightarrow> isdigit c \<Longrightarrow> exponent_number (h @ sg @ [c])"
  unfolding exponent_number_def by (intro exI [of _ h] exI [of _ sg] exI [of _ "[c]"]) (simp add: digit_string_def)

lemma exponent_number_snoc: "exponent_number u \<Longrightarrow> isdigit c \<Longrightarrow> exponent_number (u @ [c])"
  unfolding exponent_number_def by (metis append_assoc digit_string_def digit_string_snoc)

lemma identifier_word_snoc: "identifier_word u \<Longrightarrow> isIdentifierPart c \<Longrightarrow> identifier_word (u @ [c])"
  by (cases u) (auto simp: identifier_word_def)

lemma isIdentifierStart_Part: "isIdentifierStart c \<Longrightarrow> isIdentifierPart c"
  by (auto simp: isIdentifierStart_def isIdentifierPart_def)

lemmas recognised_intros = digit_string_snoc mantissa_snoc mantissa_dot mantissa_dot_digit exponent_head_snoc
  exponent_number_start [where sg = "[]", simplified] exponent_number_snoc identifier_word_snoc isIdentifierStart_Part

lemma single_token_operators: "single_token c = Some ty \<Longrightarrow> (ty, [c]) \<in> set operators \<and> ty \<noteq> T_LESS \<and> ty \<noteq> T_GRT"
  by (auto simp: single_token_def operators_def split: if_splits)

lemma number_nonempty:
  "digit_string u \<Longrightarrow> u \<noteq> []" "mantissa u \<Longrightarrow> u \<noteq> []" "exponent_number u \<Longrightarrow> u \<noteq> []" "identifier_word u \<Longrightarrow> u \<noteq> []"
  by (auto simp: digit_string_def mantissa_def exponent_number_def identifier_word_def)

lemma accept_less: "u = [] \<or> (hd u \<noteq> CHR ''>'' \<and> hd u \<noteq> CHR ''='') \<Longrightarrow> recognised ACCEPT_NOINC T_LESS ''<'' u"
  by (auto simp: lexeme_def stops_def continues_def operators_def)

lemma accept_greater: "u = [] \<or> hd u \<noteq> CHR ''='' \<Longrightarrow> recognised ACCEPT_NOINC T_GRT ''>'' u"
  by (auto simp: lexeme_def stops_def continues_def operators_def)

lemma accept_two:
  "u \<noteq> [] \<Longrightarrow> hd u = CHR ''>'' \<Longrightarrow> recognised ACCEPT_INC T_NEQ ''<'' u"
  "u \<noteq> [] \<Longrightarrow> hd u = CHR ''='' \<Longrightarrow> recognised ACCEPT_INC T_LSEQ ''<'' u"
  "u \<noteq> [] \<Longrightarrow> hd u = CHR ''='' \<Longrightarrow> recognised ACCEPT_INC T_GREQ ''>'' u"
  by (auto simp: operators_def)

lemma accept_single: "single_token c = Some ty \<Longrightarrow> recognised ACCEPT_INC ty [] (c # u)"
  using single_token_operators by simp

lemma accept_first:
  "isIdentifierStart c \<Longrightarrow> identifier_word [c]" "isdigit c \<Longrightarrow> digit_string [c]"
  by (simp_all add: identifier_word_def isIdentifierStart_Part digit_string_def)

lemma start_step_recognised:
  assumes "start_step s ty t = Inr (q, ty', t')"
  shows "\<exists>w. t = w @ t' \<and> recognised q ty' w t'"
proof -
  obtain c u where t: "t = c # u" using assms by (cases t) (simp_all add: start_step_def)
  show ?thesis
  proof (cases "single_token c")
    case (Some ty'')
    with assms have "q = ACCEPT_INC" "t' = t" "ty' = ty''" by (simp_all add: start_step_def t)
    then show ?thesis using accept_single [OF Some] t by (metis append_Nil)
  next
    case None
    have *: "(t' = u \<and> recognised q ty' [c] u) \<or> (t' = t \<and> q = REJECT)"
      using assms None accept_less [of u] accept_greater [of u] accept_two [of u] accept_first [of c]
      by (auto simp add: start_step_def t simp del: recognised.simps(11,12) split: if_splits)
    then show ?thesis using t by (metis append_Cons append_Nil recognised.simps(2))
  qed
qed

lemma accept_number:
  "digit_string u \<Longrightarrow> stops T_NUMERIC_EXACT u t \<Longrightarrow> recognised ACCEPT_NOINC T_NUMERIC_EXACT u t"
  "mantissa u \<Longrightarrow> stops T_NUMERIC_APPROX u t \<Longrightarrow> recognised ACCEPT_NOINC T_NUMERIC_APPROX u t"
  "exponent_number u \<Longrightarrow> stops T_NUMERIC_APPROX u t \<Longrightarrow> recognised ACCEPT_NOINC T_NUMERIC_APPROX u t"
  by (auto simp: lexeme_def dest: number_nonempty)

lemma exponent_letter: "c = CHR ''e'' \<or> c = CHR ''E'' \<Longrightarrow> \<not> isdigit c \<and> c \<noteq> CHR ''.''"
  by (auto simp: isdigit_def schar_def)

lemma number_exponent: "mantissa u \<Longrightarrow> \<not> has_exponent u" "exponent_number u \<Longrightarrow> has_exponent u"
proof -
  show "\<not> has_exponent u" if "mantissa u"
    using that exponent_letter by (fastforce simp: mantissa_def has_exponent_def list_all_iff list_ex_iff)
  show "has_exponent u" if "exponent_number u"
    using that by (auto simp: exponent_number_def exponent_head_def has_exponent_def)
qed

lemma stops_number:
  "stops T_NUMERIC_EXACT u []" "stops T_NUMERIC_APPROX u []"
  "stops T_NUMERIC_EXACT u (c # t) \<longleftrightarrow> \<not> (isdigit c \<or> c = CHR ''.'' \<or> c = CHR ''e'' \<or> c = CHR ''E'')"
  "mantissa u \<Longrightarrow> stops T_NUMERIC_APPROX u (c # t) \<longleftrightarrow> \<not> (isdigit c \<or> c = CHR ''e'' \<or> c = CHR ''E'')"
  "exponent_number u \<Longrightarrow> stops T_NUMERIC_APPROX u (c # t) \<longleftrightarrow> \<not> isdigit c"
  by (auto simp: stops_def continues_def number_exponent)

lemma digit_string_digits: "digit_string u \<Longrightarrow> list_all isdigit u"
  by (simp add: digit_string_def)

lemma recogniser_step_recognised:
  assumes "recogniser_step s q ty t = Inr (q', ty', t')" "recognised q ty u t"
  shows "\<exists>w. t = w @ t' \<and> recognised q' ty' (u @ w) t'"
proof (cases "q = START")
  case True
  then show ?thesis using assms start_step_recognised by auto
next
  case False
  have "(t' = t \<and> recognised q' ty' u t) \<or> (\<exists>c. t = c # t' \<and> recognised q' ty' (u @ [c]) t')"
    using assms False exponent_number_start [of _ "''-''"] exponent_number_start [of _ "''+''"]
    by (cases q) (auto simp: stops_number intro: recognised_intros accept_number digit_string_digits
        simp del: recognised.simps(12) split: list.splits if_splits)
  then show ?thesis by auto
qed

text \<open>A string as it is written in a selector: between quotes, with the quotes in it doubled.\<close>

primrec quoted :: "string \<Rightarrow> string" where
  "quoted [] = []"
| "quoted (c # s) = (if c = quote then [quote, quote] else [c]) @ quoted s"

lemma quoted_append [simp]: "quoted (a @ b) = quoted a @ quoted b"
  by (induction a) simp_all

lemma quoted_plain: "quote \<notin> set a \<Longrightarrow> quoted a = a"
  by (induction a) auto

lemma find_quote_Some: "find_quote s = Some (a, b) \<longleftrightarrow> quote \<notin> set a \<and> s = a @ quote # b"
  by (induction s arbitrary: a b) (auto simp: Cons_eq_append_conv)

lemma string_loop_sound:
  "string_loop content q = Some (v, rest) \<Longrightarrow>
     \<exists>w. v = content @ w \<and> quote # q = quoted w @ quote # rest \<and> (rest = [] \<or> hd rest \<noteq> quote)"
proof (induction content q rule: string_loop.induct)
  case (1 content c p)
  show ?case
  proof (cases "c = quote")
    case True
    with 1 obtain a q where f: "find_quote p = Some (a, q)"
      and l: "string_loop (content @ c # a) q = Some (v, rest)" by (auto split: option.splits)
    from "1.IH" [OF True f refl l] obtain w where
      "v = (content @ c # a) @ w" "quote # q = quoted w @ quote # rest" "rest = [] \<or> hd rest \<noteq> quote" by blast
    then show ?thesis using f True
      by (intro exI [of _ "c # a @ w"]) (simp add: find_quote_Some quoted_plain)
  qed (use 1 in auto)
qed simp

lemma string_loop_complete:
  "quote # q = quoted w @ quote # rest \<Longrightarrow> rest = [] \<or> hd rest \<noteq> quote \<Longrightarrow>
     string_loop content q = Some (content @ w, rest)"
proof (induction w arbitrary: q content rule: length_induct)
  case (1 w)
  show ?case
  proof (cases w)
    case Nil
    then show ?thesis using 1(2,3) by (cases rest) simp_all
  next
    case (Cons c w1)
    with 1(2) have c: "c = quote" by (auto split: if_splits)
    define a where "a = takeWhile (\<lambda>x. x \<noteq> quote) w1"
    define w2 where "w2 = dropWhile (\<lambda>x. x \<noteq> quote) w1"
    have w1: "w1 = a @ w2" and a: "quote \<notin> set a" by (auto simp: a_def w2_def dest: set_takeWhileD)
    obtain q' where q': "quote # q' = quoted w2 @ quote # rest"
    proof (cases w2)
      case Nil
      then show ?thesis using that by simp
    next
      case (Cons d w3)
      then have "d = quote" using hd_dropWhile [of "\<lambda>x. x \<noteq> quote" w1] by (simp add: w2_def)
      then show ?thesis using that Cons by simp
    qed
    have q: "q = quote # a @ quote # q'" using 1(2) Cons c w1 a q' by (simp add: quoted_plain)
    have "find_quote (a @ quote # q') = Some (a, q')" using a by (simp add: find_quote_Some)
    moreover have "string_loop (content @ quote # a) q' = Some ((content @ quote # a) @ w2, rest)"
      using 1(1,3) q' Cons w1 by (metis length_Cons length_append less_Suc_eq_le le_add2)
    ultimately show ?thesis using Cons c w1 q by simp
  qed
qed

lemma processString_iff:
  "processString (quote # s) = Some (tok, rest) \<longleftrightarrow>
     (\<exists>v. tok = Token_of T_STRING (quote # s) v \<and> s = quoted v @ quote # rest \<and> (rest = [] \<or> hd rest \<noteq> quote))"
proof
  assume "processString (quote # s) = Some (tok, rest)"
  then obtain a q v where f: "find_quote s = Some (a, q)" and l: "string_loop a q = Some (v, rest)"
    and tok: "tok = Token_of T_STRING (quote # s) v" by (auto simp: processString_def split: option.splits)
  from string_loop_sound [OF l] obtain w where
    "v = a @ w" "quote # q = quoted w @ quote # rest" "rest = [] \<or> hd rest \<noteq> quote" by blast
  with f tok show "\<exists>v. tok = Token_of T_STRING (quote # s) v \<and> s = quoted v @ quote # rest \<and> (rest = [] \<or> hd rest \<noteq> quote)"
    by (auto simp: find_quote_Some quoted_plain)
next
  assume "\<exists>v. tok = Token_of T_STRING (quote # s) v \<and> s = quoted v @ quote # rest \<and> (rest = [] \<or> hd rest \<noteq> quote)"
  then obtain v where tok: "tok = Token_of T_STRING (quote # s) v" and s: "s = quoted v @ quote # rest"
    and rest: "rest = [] \<or> hd rest \<noteq> quote" by blast
  have "string_loop [] (quote # s) = Some (quote # v, rest)"
    using string_loop_complete [of "quote # s" "quote # v" rest "[]"] s rest by simp
  then obtain a q where f: "find_quote s = Some (a, q)" and l: "string_loop (quote # a) q = Some (quote # v, rest)"
    by (auto split: option.splits)
  from string_loop_sound [OF l] obtain w where w: "v = a @ w" "quote # q = quoted w @ quote # rest" by auto
  have "string_loop a q = Some (a @ w, rest)" using w(2) rest by (rule string_loop_complete)
  then show "processString (quote # s) = Some (tok, rest)" using f w(1) tok by (simp add: processString_def)
qed

section \<open>The tokeniser follows the lexical grammar\<close>

definition token_ok :: "string \<Rightarrow> Token \<Rightarrow> string \<Rightarrow> bool" where
  "token_ok s tok rest \<longleftrightarrow> tokenStart tok = s \<and>
     (if token_type tok = T_EOS then s = [] \<and> rest = [] \<and> token_val tok = END
      else if token_type tok = T_STRING
      then s = quote # quoted (token_val tok) @ quote # rest \<and> (rest = [] \<or> hd rest \<noteq> quote)
      else s = token_val tok @ rest \<and> lexeme (token_type tok) (token_val tok) \<and> stops (token_type tok) (token_val tok) rest)"

lemma word_type_cases: "word_type w = T_IDENTIFIER \<or> word_type w \<in> snd ` set reserved"
proof -
  have "x \<in> set reserved" if "filter P reserved = x # xs" for x xs P
    using that by (metis filter_is_subset list.set_intros(1) subsetD)
  then show ?thesis by (force simp: word_type_def split: list.splits)
qed

lemma word_type_continues: "continues (word_type w) v c \<longleftrightarrow> isIdentifierPart c"
  using word_type_cases [of w] by (auto simp: continues_def reserved_def operators_def)

lemma word_type_lexeme: "lexeme (word_type w) v \<longleftrightarrow> (word_type w, v) \<in> set operators \<or> identifier_word v \<and> word_type w = word_type v"
  using word_type_cases [of w] by (auto simp: lexeme_def reserved_def)

lemma identifier_word_plain: "identifier_word w \<Longrightarrow> plain_word w"
  by (auto simp: identifier_word_def plain_word_def list_all_iff isIdentifierPart_def isalpha_def isdigit_def schar_def)

lemma operator_lexeme: "(ty, v) \<in> set operators \<Longrightarrow> ty \<noteq> T_LESS \<Longrightarrow> ty \<noteq> T_GRT \<Longrightarrow>
    lexeme ty v \<and> stops ty v t \<and> ty \<noteq> T_EOS \<and> ty \<noteq> T_STRING \<and> v \<noteq> []"
  by (auto simp: lexeme_def stops_def continues_def operators_def)

lemma lexeme_type: "lexeme ty v \<Longrightarrow> ty \<noteq> T_EOS \<and> ty \<noteq> T_STRING \<and> v \<noteq> []"
  by (auto simp: lexeme_def operators_def dest: number_nonempty split: if_splits)

lemma accept_token_ok:
  assumes "recogniser_step (u @ t) q ty t = Inl (Some (tok, rest))" "recognised q ty u t" "q \<noteq> START"
  shows "token_ok (u @ t) tok rest"
proof (cases q)
  case ACCEPT_INC
  then obtain c w where "t = c # w" using assms(2) by (cases t) auto
  then show ?thesis using assms ACCEPT_INC operator_lexeme [of ty "u @ [c]" w]
    by (auto simp: token_ok_def Token_between_def Token_of_def)
next
  case ACCEPT_NOINC
  then show ?thesis using assms lexeme_type [of ty u]
    by (auto simp: token_ok_def Token_between_def Token_of_def)
next
  case ACCEPT_IDENTIFIER
  then have "identifier_word u" "t = [] \<or> \<not> isIdentifierPart (hd t)" using assms(2) by auto
  moreover have "tok = \<lparr> token_type = word_type u, token_val = u, tokenStart = u @ t \<rparr>" "rest = t"
    using assms(1) ACCEPT_IDENTIFIER calculation(1)
    by (auto simp add: Token_between_def Token_of_def tokeniseReservedWord_type identifier_word_plain)
  moreover have "lexeme (word_type u) u" using calculation(1) by (simp add: word_type_lexeme)
  ultimately show ?thesis using lexeme_type [of "word_type u" u]
    by (simp add: token_ok_def stops_def word_type_continues)
qed (use assms in \<open>auto split: list.splits if_splits\<close>)

lemma start_token_ok: "start_step s ty s = Inl (Some (tok, rest)) \<Longrightarrow> token_ok s tok rest"
  by (cases s) (auto simp: start_step_def token_ok_def Token_of_def processString_iff split: option.splits if_splits)

lemma tokenise_loop_ok:
  "tokenise_loop s q ty t = Some (tok, rest) \<Longrightarrow> s = u @ t \<Longrightarrow> recognised q ty u t \<Longrightarrow> token_ok s tok rest"
proof (induction s q ty t arbitrary: u rule: tokenise_loop.induct)
  case (1 s q ty t)
  show ?case
  proof (cases "recogniser_step s q ty t")
    case (Inl r)
    with 1(2) have r: "recogniser_step (u @ t) q ty t = Inl (Some (tok, rest))"
      using 1(3) tokenise_loop.simps [of s q ty t] by simp
    show ?thesis
    proof (cases "q = START")
      case True
      then show ?thesis using r 1(3,4) by (simp add: start_token_ok)
    next
      case False
      then show ?thesis using accept_token_ok [OF r 1(4)] 1(3) by simp
    qed
  next
    case (Inr x)
    obtain q' ty' t' where x: "x = (q', ty', t')" by (cases x) auto
    from recogniser_step_recognised [OF Inr [unfolded x] 1(4)] obtain w where
      w: "t = w @ t'" "recognised q' ty' (u @ w) t'" by blast
    have "tokenise_loop s q' ty' t' = Some (tok, rest)"
      using 1(2) Inr x tokenise_loop.simps [of s q ty t] by simp
    then show ?thesis using "1.IH" [OF Inr x [symmetric] refl, of "u @ w"] w 1(3) by simp
  qed
qed

lemma tokenise_ok: "tokenise s = Some (tok, rest) \<Longrightarrow> token_ok s tok rest"
  unfolding tokenise_def by (erule tokenise_loop_ok [where u = "[]"]) simp_all

lemma quote_start: "single_token quote = None" "quote \<noteq> CHR ''<''" "quote \<noteq> CHR ''>''" "\<not> isIdentifierStart quote"
  by (simp_all add: single_token_def quote_def isIdentifierStart_def isalpha_def schar_def)

section \<open>Every token of the grammar is recognised\<close>

lemma digit_start:
  assumes "isdigit c"
  shows "single_token c = None" "c \<noteq> CHR ''<''" "c \<noteq> CHR ''>''" "\<not> isIdentifierStart c" "c \<noteq> quote"
  using assms by (auto simp: isdigit_def schar_def single_token_def isIdentifierStart_def isalpha_def quote_def split: if_splits)

lemma letter_start:
  assumes "isIdentifierStart c"
  shows "single_token c = None" "c \<noteq> CHR ''<''" "c \<noteq> CHR ''>''"
  using assms by (auto simp: schar_def single_token_def isIdentifierStart_def isalpha_def split: if_splits)

lemma dot_start: "single_token (CHR ''.'') = None" "\<not> isIdentifierStart (CHR ''.'')" "\<not> isdigit (CHR ''.'')" "CHR ''.'' \<noteq> quote"
  by (simp_all add: single_token_def isIdentifierStart_def isalpha_def isdigit_def schar_def quote_def)

text \<open>How the recogniser reads a run of characters of one kind.\<close>

lemma loop_runs:
  "list_all isdigit ds \<Longrightarrow> tokenise_loop s DIGIT ty (ds @ t) = tokenise_loop s DIGIT ty t"
  "list_all isdigit ds \<Longrightarrow> tokenise_loop s DECIMAL ty (ds @ t) = tokenise_loop s DECIMAL ty t"
  "list_all isdigit ds \<Longrightarrow> tokenise_loop s EXPONENT ty (ds @ t) = tokenise_loop s EXPONENT ty t"
  "list_all isIdentifierPart ds \<Longrightarrow> tokenise_loop s IDENTIFIER ty (ds @ t) = tokenise_loop s IDENTIFIER ty t"
  by (induction ds) (simp_all add: tokenise_loop.simps [of s _ ty "_ # _"])

lemma loop_digits: "digit_string m \<Longrightarrow> tokenise_loop s START ty (m @ t) = tokenise_loop s DIGIT ty t"
  by (cases m) (simp_all add: digit_string_def tokenise_loop.simps [of s START] start_step_def digit_start loop_runs)

lemma loop_dot:
  "tokenise_loop s DIGIT ty (CHR ''.'' # t) = tokenise_loop s DECIMAL ty t"
  "isdigit c \<Longrightarrow> tokenise_loop s START ty (CHR ''.'' # c # t) = tokenise_loop s DECIMAL ty t"
  by (simp_all add: tokenise_loop.simps [of s DIGIT] tokenise_loop.simps [of s START] tokenise_loop.simps [of s DECIMAL_START]
      start_step_def dot_start)

lemma loop_mantissa:
  assumes "mantissa m"
  shows "tokenise_loop s START ty (m @ t) = tokenise_loop s DECIMAL ty t"
proof -
  obtain a b where m: "m = a @ CHR ''.'' # b" "list_all isdigit a" "list_all isdigit b" "a \<noteq> [] \<or> b \<noteq> []"
    using assms by (auto simp: mantissa_def)
  show ?thesis
  proof (cases "a = []")
    case True
    then obtain c b' where "b = c # b'" using m(4) by (cases b) auto
    then show ?thesis using m True by (simp add: loop_dot loop_runs)
  next
    case False
    then show ?thesis using m loop_digits [of a s ty "CHR ''.'' # b @ t"] by (simp add: digit_string_def loop_dot loop_runs)
  qed
qed

lemma loop_exponent:
  assumes "exponent_number v"
  shows "tokenise_loop s START ty (v @ t) = tokenise_loop s EXPONENT ty t"
proof -
  obtain m e sg d where v: "v = (m @ [e]) @ sg @ d" "mantissa m \<or> digit_string m" "e = CHR ''e'' \<or> e = CHR ''E''"
    "sg = [] \<or> sg = ''-'' \<or> sg = ''+''" "digit_string d"
    using assms unfolding exponent_number_def exponent_head_def by blast
  obtain c ds where d: "d = c # ds" "isdigit c" "list_all isdigit ds" using v(5) by (cases d) (auto simp: digit_string_def)
  have c: "c \<noteq> CHR ''-''" "c \<noteq> CHR ''+''" using d(2) by (auto simp: isdigit_def schar_def)
  have "tokenise_loop s START ty (m @ e # u) = tokenise_loop s EXPONENT_SIGN ty u" for u
    using v(2,3) exponent_letter [of e]
    by (auto simp: loop_mantissa loop_digits tokenise_loop.simps [of s DIGIT] tokenise_loop.simps [of s DECIMAL])
  moreover have "tokenise_loop s EXPONENT_SIGN ty (sg @ c # u) = tokenise_loop s EXPONENT ty u" for u
    using v(4) d(2) c by (auto simp: tokenise_loop.simps [of s EXPONENT_SIGN] tokenise_loop.simps [of s EXPONENT_START])
  ultimately show ?thesis using v(1) d by (simp add: loop_runs)
qed

lemma loop_identifier: "identifier_word v \<Longrightarrow> tokenise_loop s START ty (v @ t) = tokenise_loop s IDENTIFIER ty t"
  by (cases v) (simp_all add: identifier_word_def tokenise_loop.simps [of s START] start_step_def letter_start loop_runs)

text \<open>How it ends where the text stops.\<close>

lemma number_ends:
  "stops T_NUMERIC_EXACT v t \<Longrightarrow> tokenise_loop s DIGIT ty t = Some (Token_between T_NUMERIC_EXACT s t, t)"
  "mantissa v \<Longrightarrow> stops T_NUMERIC_APPROX v t \<Longrightarrow> tokenise_loop s DECIMAL ty t = Some (Token_between T_NUMERIC_APPROX s t, t)"
  "exponent_number v \<Longrightarrow> stops T_NUMERIC_APPROX v t \<Longrightarrow> tokenise_loop s EXPONENT ty t = Some (Token_between T_NUMERIC_APPROX s t, t)"
  by (cases t; simp add: stops_number tokenise_loop.simps [of s])+

lemma word_ends:
  assumes "identifier_word v" "stops (word_type v) v t"
  shows "tokenise_loop (v @ t) IDENTIFIER ty t = Some (Token_of (word_type v) (v @ t) v, t)"
  using assms
  by (cases t) (simp_all add: tokenise_loop.simps [of "v @ _"] tokenise_loop.simps [of v] stops_def word_type_continues Token_between_def Token_of_def
      tokeniseReservedWord_type identifier_word_plain)

lemma operator_read:
  assumes "(ty, v) \<in> set operators" "stops ty v t"
  shows "tokenise (v @ t) = Some (Token_of ty (v @ t) v, t)"
  using assms
  by (cases t) (auto simp: operators_def tokenise_def tokenise_loop.simps start_step_def single_token_def stops_def continues_def
      Token_between_def split: if_splits)

lemma lexeme_read:
  assumes "lexeme ty v" "stops ty v t"
  shows "tokenise (v @ t) = Some (Token_of ty (v @ t) v, t)"
proof -
  consider "ty = T_NUMERIC_EXACT" "digit_string v" | "ty = T_NUMERIC_APPROX" "mantissa v"
    | "ty = T_NUMERIC_APPROX" "exponent_number v" | "(ty, v) \<in> set operators" | "identifier_word v" "ty = word_type v"
    using assms(1) by (auto simp: lexeme_def split: if_splits)
  then show ?thesis
  proof cases
    case 4
    then show ?thesis using operator_read assms(2) by blast
  qed (use assms(2) in \<open>simp_all add: tokenise_def loop_digits loop_mantissa loop_exponent loop_identifier number_ends
      word_ends Token_between_def\<close>)
qed

lemma string_read:
  assumes "rest = [] \<or> hd rest \<noteq> quote"
  shows "tokenise (quote # quoted v @ quote # rest) =
     Some (Token_of T_STRING (quote # quoted v @ quote # rest) v, rest)"
proof -
  let ?s = "quote # quoted v @ quote # rest"
  have "processString ?s = Some (Token_of T_STRING ?s v, rest)" using assms by (auto simp: processString_iff)
  then show ?thesis
    unfolding tokenise_def by (simp add: tokenise_loop.simps [of _ START] start_step_def quote_start)
qed

lemma tokenise_complete:
  assumes "token_ok s tok rest"
  shows "tokenise s = Some (tok, rest)"
proof -
  have tok: "tok = Token_of (token_type tok) s (token_val tok)"
    using assms by (cases tok) (simp add: token_ok_def Token_of_def)
  consider "token_type tok = T_EOS" "s = []" "rest = []" "token_val tok = END"
    | "token_type tok = T_STRING" "s = quote # quoted (token_val tok) @ quote # rest" "rest = [] \<or> hd rest \<noteq> quote"
    | "s = token_val tok @ rest" "lexeme (token_type tok) (token_val tok)" "stops (token_type tok) (token_val tok) rest"
    using assms unfolding token_ok_def by (metis (full_types))
  then show ?thesis
  proof cases
    case 1
    then show ?thesis using tok by (simp add: tokenise_def tokenise_loop.simps start_step_def)
  next
    case 2
    then show ?thesis using tok string_read by metis
  next
    case 3
    then show ?thesis using tok lexeme_read by metis
  qed
qed

text \<open>
  C30. The tokeniser returns a token exactly where the lexical grammar of selectors has one, and then that token,
  which starts where the input does. At the end of the input it is the end token. A string token is the text between
  quotes with doubled quotes read as one. Any other token is a text of its type: an operator, a number, an
  identifier, or a reserved word in whatever case, and it is the longest such text: what follows it does not
  continue it, where an \<open>e\<close> continues a number without exponent. In particular nothing is returned for a
  number that breaks off in its exponent, an unterminated string or a character that starts no token.
\<close>

theorem tokenise_lexical:
  "tokenise s = Some (tok, rest) \<longleftrightarrow> tokenStart tok = s \<and>
     (if token_type tok = T_EOS then s = [] \<and> rest = [] \<and> token_val tok = END
      else if token_type tok = T_STRING
      then s = quote # quoted (token_val tok) @ quote # rest \<and> (rest = [] \<or> hd rest \<noteq> quote)
      else s = token_val tok @ rest \<and> lexeme (token_type tok) (token_val tok) \<and>
        stops (token_type tok) (token_val tok) rest)"
  using tokenise_ok [of s tok rest] tokenise_complete [of s tok rest] unfolding token_ok_def by blast

lemmas tokenise_evaluate = tokenise_def tokenise_loop.simps start_step_def single_token_def isIdentifierStart_def isalpha_def
  isdigit_def isIdentifierPart_def schar_def quote_def Token_between_def Token_of_def

theorem tokenise_lexical_witness:
  "tokenise ''1.5e3<=5'' = Some (Token_of T_NUMERIC_APPROX ''1.5e3<=5'' ''1.5e3'', ''<=5'')"
proof -
  let ?tok = "Token_of T_NUMERIC_APPROX ''1.5e3<=5'' ''1.5e3''"
  have "mantissa ''1.5''"
    unfolding mantissa_def by (rule exI [of _ "''1''"], rule exI [of _ "''5''"]) (simp add: isdigit_def schar_def)
  then have "exponent_head ''1.5e''"
    unfolding exponent_head_def by (intro exI [of _ "''1.5''"] exI [of _ "CHR ''e''"]) simp
  then have "exponent_number ''1.5e3''"
    unfolding exponent_number_def
    by (intro exI [of _ "''1.5e''"] exI [of _ "[]"] exI [of _ "''3''"]) (simp add: digit_string_def isdigit_def schar_def)
  then show ?thesis
    using tokenise_lexical [of "''1.5e3<=5''" ?tok "''<=5''"]
    by (simp add: Token_of_def lexeme_def stops_def continues_def isdigit_def schar_def has_exponent_def)
qed

text \<open>
  Every string can be written in a selector: with its quotes doubled and put between quotes it is read back
  as itself, and the input after it is left.
\<close>

theorem tokenise_string_literal:
  assumes "rest = [] \<or> hd rest \<noteq> quote"
  shows "tokenise (quote # quoted v @ quote # rest) =
     Some (Token_of T_STRING (quote # quoted v @ quote # rest) v, rest)"
  using assms by (rule string_read)

theorem tokenise_string_literal_witness:
  "tokenise (quote # quoted (''it'' @ [quote] @ ''s'') @ quote # '' AND'') =
     Some (Token_of T_STRING (quote # ''it'' @ [quote, quote] @ ''s'' @ quote # '' AND'') (''it'' @ [quote] @ ''s''), '' AND'')"
  using tokenise_string_literal [of "'' AND''" "''it'' @ [quote] @ ''s''"] by (simp add: quote_def)

end
