(* ===== verification/Selector_Expression.thy ===== *)
theory Selector_Expression
  imports Prelude
begin

text \<open>
  Message selectors, values and expressions: \<open>qpid::broker::Value\<close> (\<open>SelectorValue.h\<close>, \<open>SelectorValue.cpp\<close>)
  and the expression classes of \<open>SelectorExpression.cpp\<close>, under \<open>src/qpid/broker\<close>. A selector is evaluated
  in three-valued logic over the properties of a message. The arithmetic of \<open>double\<close> is the record \<open>doubles\<close>
  of its operations, POSIX regular expressions (\<open>qpid::sys::regex\<close>) are the argument \<open>R\<close> of the evaluation;
  \<open>int64_t\<close> is a 64-bit word whose sums, differences and products wrap around, as they do in two's complement,
  and division by zero, which the program does not survive, is the error \<open>UndefinedBehaviour\<close>. Strings are
  copied instead of pointed to.
\<close>

section \<open>Values\<close>

datatype BoolOrNone = BN_FALSE | BN_TRUE | BN_UNKNOWN

datatype 'x Value =
    Value_UNKNOWN
  | Value_BOOL bool
  | Value_STRING string
  | Value_EXACT "64 word"
  | Value_INEXACT 'x

record 'x doubles =
  d_of_int :: "int \<Rightarrow> 'x"
  d_add :: "'x \<Rightarrow> 'x \<Rightarrow> 'x"
  d_sub :: "'x \<Rightarrow> 'x \<Rightarrow> 'x"
  d_mul :: "'x \<Rightarrow> 'x \<Rightarrow> 'x"
  d_div :: "'x \<Rightarrow> 'x \<Rightarrow> 'x"
  d_neg :: "'x \<Rightarrow> 'x"
  d_eq :: "'x \<Rightarrow> 'x \<Rightarrow> bool"
  d_lt :: "'x \<Rightarrow> 'x \<Rightarrow> bool"
  d_le :: "'x \<Rightarrow> 'x \<Rightarrow> bool"
  d_show :: "'x \<Rightarrow> string"
  d_parse :: "string \<Rightarrow> 'x option"

definition of_bn :: "BoolOrNone \<Rightarrow> 'x Value" where
  "of_bn bn = (case bn of BN_FALSE \<Rightarrow> Value_BOOL False | BN_TRUE \<Rightarrow> Value_BOOL True | BN_UNKNOWN \<Rightarrow> Value_UNKNOWN)"

definition bn_of_bool :: "bool \<Rightarrow> BoolOrNone" where
  "bn_of_bool b = (if b then BN_TRUE else BN_FALSE)"

definition unknown :: "'x Value \<Rightarrow> bool" where
  "unknown v \<longleftrightarrow> v = Value_UNKNOWN"

definition numeric :: "'x Value \<Rightarrow> bool" where
  "numeric v \<longleftrightarrow> (case v of Value_EXACT _ \<Rightarrow> True | Value_INEXACT _ \<Rightarrow> True | _ \<Rightarrow> False)"

text \<open>A \<open>NumericPair\<close> of \<open>int64_t\<close> or of \<open>double\<close>.\<close>

datatype 'x NumericPair = IntPair "64 word" "64 word" | DoublePair 'x 'x

definition promoteNumeric :: "'x doubles \<Rightarrow> 'x Value \<Rightarrow> 'x Value \<Rightarrow> 'x NumericPair option" where
  "promoteNumeric D v1 v2 =
     (case (v1, v2) of
        (Value_INEXACT x, Value_EXACT i) \<Rightarrow> Some (DoublePair x (d_of_int D (sint i)))
      | (Value_EXACT i, Value_INEXACT x) \<Rightarrow> Some (DoublePair (d_of_int D (sint i)) x)
      | (Value_INEXACT x, Value_INEXACT y) \<Rightarrow> Some (DoublePair x y)
      | (Value_EXACT i, Value_EXACT j) \<Rightarrow> Some (IntPair i j)
      | _ \<Rightarrow> None)"

definition int_div :: "64 word \<Rightarrow> 64 word \<Rightarrow> 64 word result" where
  "int_div i j = throw_if (j = 0 \<or> (j = - 1 \<and> sint i = - (2 ^ 63))) UndefinedBehaviour
     (Inr (word_of_int (sgn (sint i * sint j) * (\<bar>sint i\<bar> div \<bar>sint j\<bar>))))"

fun pair_add :: "'x doubles \<Rightarrow> 'x NumericPair \<Rightarrow> 'x Value" where
  "pair_add D (IntPair i j) = Value_EXACT (i + j)"
| "pair_add D (DoublePair x y) = Value_INEXACT (d_add D x y)"

fun pair_sub :: "'x doubles \<Rightarrow> 'x NumericPair \<Rightarrow> 'x Value" where
  "pair_sub D (IntPair i j) = Value_EXACT (i - j)"
| "pair_sub D (DoublePair x y) = Value_INEXACT (d_sub D x y)"

fun pair_mul :: "'x doubles \<Rightarrow> 'x NumericPair \<Rightarrow> 'x Value" where
  "pair_mul D (IntPair i j) = Value_EXACT (i * j)"
| "pair_mul D (DoublePair x y) = Value_INEXACT (d_mul D x y)"

fun pair_div :: "'x doubles \<Rightarrow> 'x NumericPair \<Rightarrow> 'x Value result" where
  "pair_div D (IntPair i j) = res_bind (int_div i j) (\<lambda>k. Inr (Value_EXACT k))"
| "pair_div D (DoublePair x y) = Inr (Value_INEXACT (d_div D x y))"

fun pair_eq :: "'x doubles \<Rightarrow> 'x NumericPair \<Rightarrow> bool" where
  "pair_eq D (IntPair i j) = (i = j)"
| "pair_eq D (DoublePair x y) = d_eq D x y"

fun pair_ls :: "'x doubles \<Rightarrow> 'x NumericPair \<Rightarrow> bool" where
  "pair_ls D (IntPair i j) = (sint i < sint j)"
| "pair_ls D (DoublePair x y) = d_lt D x y"

fun pair_le :: "'x doubles \<Rightarrow> 'x NumericPair \<Rightarrow> bool" where
  "pair_le D (IntPair i j) = (sint i \<le> sint j)"
| "pair_le D (DoublePair x y) = d_le D x y"

fun pair_swap :: "'x NumericPair \<Rightarrow> 'x NumericPair" where
  "pair_swap (IntPair i j) = IntPair j i"
| "pair_swap (DoublePair x y) = DoublePair y x"

text \<open>\<open>ne\<close>, \<open>gr\<close> and \<open>ge\<close> of a pair, by the rules of the C++ operators on \<open>int64_t\<close> and \<open>double\<close>.\<close>

definition pair_ne :: "'x doubles \<Rightarrow> 'x NumericPair \<Rightarrow> bool" where
  "pair_ne D p \<longleftrightarrow> \<not> pair_eq D p"

definition pair_gr :: "'x doubles \<Rightarrow> 'x NumericPair \<Rightarrow> bool" where
  "pair_gr D p = pair_ls D (pair_swap p)"

definition pair_ge :: "'x doubles \<Rightarrow> 'x NumericPair \<Rightarrow> bool" where
  "pair_ge D p = pair_le D (pair_swap p)"

definition Value_eq :: "'x doubles \<Rightarrow> 'x Value \<Rightarrow> 'x Value \<Rightarrow> bool" where
  "Value_eq D v1 v2 =
     (case promoteNumeric D v1 v2 of
        Some p \<Rightarrow> pair_eq D p
      | None \<Rightarrow> (case (v1, v2) of
            (Value_BOOL a, Value_BOOL b) \<Rightarrow> a = b
          | (Value_STRING s, Value_STRING t) \<Rightarrow> s = t
          | _ \<Rightarrow> False))"

definition Value_ne :: "'x doubles \<Rightarrow> 'x Value \<Rightarrow> 'x Value \<Rightarrow> bool" where
  "Value_ne D v1 v2 =
     (case promoteNumeric D v1 v2 of
        Some p \<Rightarrow> pair_ne D p
      | None \<Rightarrow> (case (v1, v2) of
            (Value_BOOL a, Value_BOOL b) \<Rightarrow> a \<noteq> b
          | (Value_STRING s, Value_STRING t) \<Rightarrow> s \<noteq> t
          | _ \<Rightarrow> False))"

definition Value_ls :: "'x doubles \<Rightarrow> 'x Value \<Rightarrow> 'x Value \<Rightarrow> bool" where
  "Value_ls D v1 v2 = (case promoteNumeric D v1 v2 of Some p \<Rightarrow> pair_ls D p | None \<Rightarrow> False)"

definition Value_gr :: "'x doubles \<Rightarrow> 'x Value \<Rightarrow> 'x Value \<Rightarrow> bool" where
  "Value_gr D v1 v2 = (case promoteNumeric D v1 v2 of Some p \<Rightarrow> pair_gr D p | None \<Rightarrow> False)"

definition Value_le :: "'x doubles \<Rightarrow> 'x Value \<Rightarrow> 'x Value \<Rightarrow> bool" where
  "Value_le D v1 v2 = (case promoteNumeric D v1 v2 of Some p \<Rightarrow> pair_le D p | None \<Rightarrow> False)"

definition Value_ge :: "'x doubles \<Rightarrow> 'x Value \<Rightarrow> 'x Value \<Rightarrow> bool" where
  "Value_ge D v1 v2 = (case promoteNumeric D v1 v2 of Some p \<Rightarrow> pair_ge D p | None \<Rightarrow> False)"

definition Value_add :: "'x doubles \<Rightarrow> 'x Value \<Rightarrow> 'x Value \<Rightarrow> 'x Value" where
  "Value_add D v1 v2 = (case promoteNumeric D v1 v2 of Some p \<Rightarrow> pair_add D p | None \<Rightarrow> Value_UNKNOWN)"

definition Value_sub :: "'x doubles \<Rightarrow> 'x Value \<Rightarrow> 'x Value \<Rightarrow> 'x Value" where
  "Value_sub D v1 v2 = (case promoteNumeric D v1 v2 of Some p \<Rightarrow> pair_sub D p | None \<Rightarrow> Value_UNKNOWN)"

definition Value_mul :: "'x doubles \<Rightarrow> 'x Value \<Rightarrow> 'x Value \<Rightarrow> 'x Value" where
  "Value_mul D v1 v2 = (case promoteNumeric D v1 v2 of Some p \<Rightarrow> pair_mul D p | None \<Rightarrow> Value_UNKNOWN)"

definition Value_div :: "'x doubles \<Rightarrow> 'x Value \<Rightarrow> 'x Value \<Rightarrow> 'x Value result" where
  "Value_div D v1 v2 = (case promoteNumeric D v1 v2 of Some p \<Rightarrow> pair_div D p | None \<Rightarrow> Inr Value_UNKNOWN)"

definition Value_neg :: "'x doubles \<Rightarrow> 'x Value \<Rightarrow> 'x Value" where
  "Value_neg D v = (case v of Value_EXACT i \<Rightarrow> Value_EXACT (- i) | Value_INEXACT x \<Rightarrow> Value_INEXACT (d_neg D x)
     | _ \<Rightarrow> Value_UNKNOWN)"

text \<open>\<open>operator<<\<close> for values.\<close>

fun show_nat :: "nat \<Rightarrow> string" where
  "show_nat n = (if n < 10 then [char_of (48 + n)] else show_nat (n div 10) @ [char_of (48 + n mod 10)])"

definition show_int :: "int \<Rightarrow> string" where
  "show_int i = (if i < 0 then ''-'' @ show_nat (nat (- i)) else show_nat (nat i))"

definition Value_show :: "'x doubles \<Rightarrow> 'x Value \<Rightarrow> string" where
  "Value_show D v = (case v of
       Value_UNKNOWN \<Rightarrow> ''UNKNOWN''
     | Value_BOOL b \<Rightarrow> ''BOOL:'' @ (if b then ''true'' else ''false'')
     | Value_EXACT i \<Rightarrow> ''EXACT:'' @ show_int (sint i)
     | Value_INEXACT x \<Rightarrow> ''APPROX:'' @ d_show D x
     | Value_STRING s \<Rightarrow> ''STRING:'' @ [CHR 0x27] @ s @ [CHR 0x27])"

section \<open>Expressions\<close>

datatype ComparisonOperator = Eq | Neq | Ls | Gr | Lseq | Greq
datatype UnaryBooleanOperator = IsNull | IsNonNull | Not
datatype ArithmeticOperator = Add | Sub | Mult | Div
datatype UnaryArithmeticOperator = Negate

datatype 'x Expression =
    ComparisonExpression ComparisonOperator "'x Expression" "'x Expression"
  | OrExpression "'x Expression" "'x Expression"
  | AndExpression "'x Expression" "'x Expression"
  | UnaryBooleanExpression UnaryBooleanOperator "'x Expression"
  | LikeExpression "'x Expression" string
  | BetweenExpression "'x Expression" "'x Expression" "'x Expression"
  | InExpression "'x Expression" "'x Expression list"
  | ArithmeticExpression ArithmeticOperator "'x Expression" "'x Expression"
  | UnaryArithExpression UnaryArithmeticOperator "'x Expression"
  | Literal "'x Value"
  | StringLiteral string
  | Identifier string

text \<open>
  \<open>LikeExpression::toRegex\<close>: the pattern of LIKE as a regular expression. The escape is a string of at
  most one character, the null character if it is empty.
\<close>

definition toRegex_char :: "char \<Rightarrow> bool \<Rightarrow> string" where
  "toRegex_char c doEscape =
     (if c = CHR ''%'' then if doEscape then [c] else ''.*''
      else if c = CHR ''_'' then if doEscape then [c] else ''.''
      else if c = CHR '']'' then ''[]]''
      else if c = CHR ''-'' then ''[-]''
      else if c = CHR 0x5C \<or> c = CHR ''^'' \<or> c = CHR ''$'' \<or> c = CHR ''.'' \<or> c = CHR ''*'' \<or> c = CHR ''[''
      then [CHR 0x5C, c]
      else [c])"

fun toRegex_loop :: "char \<Rightarrow> bool \<Rightarrow> string \<Rightarrow> string" where
  "toRegex_loop e doEscape [] = []"
| "toRegex_loop e doEscape (c # s) =
     (if e \<noteq> CHR 0x00 \<and> c = e then toRegex_loop e True s
      else toRegex_char c doEscape @ toRegex_loop e False s)"

definition toRegex :: "string \<Rightarrow> string \<Rightarrow> string result" where
  "toRegex s escape = throw_if (1 < length escape) GeneralException
     (Inr (''^'' @ toRegex_loop (if length escape = 1 then hd escape else CHR 0x00) False s @ ''$''))"

section \<open>Evaluation\<close>

definition as_bn :: "'x Value \<Rightarrow> BoolOrNone" where
  "as_bn v = (case v of Value_BOOL b \<Rightarrow> bn_of_bool b | _ \<Rightarrow> BN_UNKNOWN)"

text \<open>\<open>booleval\<close>: the second operand is not evaluated when the first is unknown.\<close>

definition booleval ::
  "('x Value \<Rightarrow> 'x Value \<Rightarrow> bool) \<Rightarrow> 'x Value result \<Rightarrow> 'x Value result \<Rightarrow> BoolOrNone result" where
  "booleval op r1 r2 =
     res_bind r1 (\<lambda>v1. if unknown v1 then Inr BN_UNKNOWN
       else res_bind r2 (\<lambda>v2. if unknown v2 then Inr BN_UNKNOWN else Inr (bn_of_bool (op v1 v2))))"

fun comparison_eval ::
  "'x doubles \<Rightarrow> ComparisonOperator \<Rightarrow> 'x Value result \<Rightarrow> 'x Value result \<Rightarrow> BoolOrNone result" where
  "comparison_eval D Eq = booleval (Value_eq D)"
| "comparison_eval D Neq = booleval (Value_ne D)"
| "comparison_eval D Ls = booleval (Value_ls D)"
| "comparison_eval D Gr = booleval (Value_gr D)"
| "comparison_eval D Lseq = booleval (Value_le D)"
| "comparison_eval D Greq = booleval (Value_ge D)"

fun unary_eval :: "UnaryBooleanOperator \<Rightarrow> 'x Value \<Rightarrow> BoolOrNone" where
  "unary_eval IsNull v = bn_of_bool (unknown v)"
| "unary_eval IsNonNull v = bn_of_bool (\<not> unknown v)"
| "unary_eval Not v = (case as_bn v of BN_UNKNOWN \<Rightarrow> BN_UNKNOWN | bn \<Rightarrow> bn_of_bool (bn \<noteq> BN_TRUE))"

fun arithmetic_eval :: "'x doubles \<Rightarrow> ArithmeticOperator \<Rightarrow> 'x Value \<Rightarrow> 'x Value \<Rightarrow> 'x Value result" where
  "arithmetic_eval D Add v1 v2 = Inr (Value_add D v1 v2)"
| "arithmetic_eval D Sub v1 v2 = Inr (Value_sub D v1 v2)"
| "arithmetic_eval D Mult v1 v2 = Inr (Value_mul D v1 v2)"
| "arithmetic_eval D Div v1 v2 = Value_div D v1 v2"

definition or_eval :: "BoolOrNone result \<Rightarrow> BoolOrNone result \<Rightarrow> BoolOrNone result" where
  "or_eval r1 r2 =
     res_bind r1 (\<lambda>bn1. if bn1 = BN_TRUE then Inr BN_TRUE
       else res_bind r2 (\<lambda>bn2. if bn2 = BN_TRUE then Inr BN_TRUE
         else if bn1 = BN_FALSE \<and> bn2 = BN_FALSE then Inr BN_FALSE else Inr BN_UNKNOWN))"

definition and_eval :: "BoolOrNone result \<Rightarrow> BoolOrNone result \<Rightarrow> BoolOrNone result" where
  "and_eval r1 r2 =
     res_bind r1 (\<lambda>bn1. if bn1 = BN_FALSE then Inr BN_FALSE
       else res_bind r2 (\<lambda>bn2. if bn2 = BN_FALSE then Inr BN_FALSE
         else if bn1 = BN_TRUE \<and> bn2 = BN_TRUE then Inr BN_TRUE else Inr BN_UNKNOWN))"

definition between_eval ::
  "'x doubles \<Rightarrow> 'x Value result \<Rightarrow> 'x Value result \<Rightarrow> 'x Value result \<Rightarrow> BoolOrNone result" where
  "between_eval D r l u =
     res_bind r (\<lambda>ve. if unknown ve then Inr BN_UNKNOWN
       else res_bind l (\<lambda>vl. if \<not> unknown vl \<and> Value_ls D ve vl then Inr BN_FALSE
         else res_bind u (\<lambda>vu. if \<not> unknown vu \<and> Value_gr D ve vu then Inr BN_FALSE
           else if unknown vl \<or> unknown vu then Inr BN_UNKNOWN else Inr BN_TRUE)))"

text \<open>The loop of \<open>InExpression\<close>; an element after a match is not evaluated.\<close>

fun in_loop :: "'x doubles \<Rightarrow> 'x Value \<Rightarrow> BoolOrNone \<Rightarrow> 'x Value result list \<Rightarrow> BoolOrNone result" where
  "in_loop D ve r [] = Inr r"
| "in_loop D ve r (l # ls) =
     res_bind l (\<lambda>li. if unknown li then in_loop D ve BN_UNKNOWN ls
       else if Value_eq D ve li then Inr BN_TRUE else in_loop D ve r ls)"

text \<open>
  \<open>eval\<close>. For a boolean expression \<open>eval\<close> is the value of \<open>eval_bool\<close>, and \<open>eval_bool\<close> of any expression is
  the boolean of its value, or unknown.
\<close>

fun eval ::
  "'x doubles \<Rightarrow> (string \<Rightarrow> string \<Rightarrow> bool) \<Rightarrow> (string \<Rightarrow> 'x Value) \<Rightarrow> 'x Expression \<Rightarrow> 'x Value result" where
  "eval D R env (ComparisonExpression op e1 e2) =
     res_bind (comparison_eval D op (eval D R env e1) (eval D R env e2)) (\<lambda>bn. Inr (of_bn bn))"
| "eval D R env (OrExpression e1 e2) =
     res_bind (or_eval (res_bind (eval D R env e1) (\<lambda>v. Inr (as_bn v)))
       (res_bind (eval D R env e2) (\<lambda>v. Inr (as_bn v)))) (\<lambda>bn. Inr (of_bn bn))"
| "eval D R env (AndExpression e1 e2) =
     res_bind (and_eval (res_bind (eval D R env e1) (\<lambda>v. Inr (as_bn v)))
       (res_bind (eval D R env e2) (\<lambda>v. Inr (as_bn v)))) (\<lambda>bn. Inr (of_bn bn))"
| "eval D R env (UnaryBooleanExpression op e) =
     res_bind (eval D R env e) (\<lambda>v. Inr (of_bn (unary_eval op v)))"
| "eval D R env (LikeExpression e re) =
     res_bind (eval D R env e) (\<lambda>v. Inr (of_bn (case v of
       Value_STRING s \<Rightarrow> bn_of_bool (R re s) | _ \<Rightarrow> BN_UNKNOWN)))"
| "eval D R env (BetweenExpression e l u) =
     res_bind (between_eval D (eval D R env e) (eval D R env l) (eval D R env u)) (\<lambda>bn. Inr (of_bn bn))"
| "eval D R env (InExpression e l) =
     res_bind (eval D R env e) (\<lambda>ve. if unknown ve then Inr Value_UNKNOWN
       else res_bind (in_loop D ve BN_FALSE (map (eval D R env) l)) (\<lambda>bn. Inr (of_bn bn)))"
| "eval D R env (ArithmeticExpression op e1 e2) =
     res_bind (eval D R env e1) (\<lambda>v1. res_bind (eval D R env e2) (\<lambda>v2. arithmetic_eval D op v1 v2))"
| "eval D R env (UnaryArithExpression Negate e) = res_bind (eval D R env e) (\<lambda>v. Inr (Value_neg D v))"
| "eval D R env (Literal v) = Inr v"
| "eval D R env (StringLiteral s) = Inr (Value_STRING s)"
| "eval D R env (Identifier i) = Inr (env i)"

definition eval_bool ::
  "'x doubles \<Rightarrow> (string \<Rightarrow> string \<Rightarrow> bool) \<Rightarrow> (string \<Rightarrow> 'x Value) \<Rightarrow> 'x Expression \<Rightarrow> BoolOrNone result" where
  "eval_bool D R env e = res_bind (eval D R env e) (\<lambda>v. Inr (as_bn v))"

text \<open>\<open>TopBoolExpression::eval\<close>: the selector accepts a message only when it is true.\<close>

definition TopBoolExpression_eval ::
  "'x doubles \<Rightarrow> (string \<Rightarrow> string \<Rightarrow> bool) \<Rightarrow> (string \<Rightarrow> 'x Value) \<Rightarrow> 'x Expression \<Rightarrow> bool result" where
  "TopBoolExpression_eval D R env e = res_bind (eval_bool D R env e) (\<lambda>bn. Inr (bn = BN_TRUE))"

section \<open>Printing\<close>

fun op_repr :: "ComparisonOperator \<Rightarrow> string" where
  "op_repr Eq = ''=''" | "op_repr Neq = ''<>''" | "op_repr Ls = ''<''" | "op_repr Gr = ''>''"
| "op_repr Lseq = ''<=''" | "op_repr Greq = ''>=''"

fun unary_repr :: "UnaryBooleanOperator \<Rightarrow> string" where
  "unary_repr IsNull = ''IsNull''" | "unary_repr IsNonNull = ''IsNonNull''" | "unary_repr Not = ''NOT''"

fun arith_repr :: "ArithmeticOperator \<Rightarrow> string" where
  "arith_repr Add = ''+''" | "arith_repr Sub = ''-''" | "arith_repr Mult = ''*''" | "arith_repr Div = ''/''"

fun repr :: "'x doubles \<Rightarrow> 'x Expression \<Rightarrow> string" where
  "repr D (ComparisonExpression op e1 e2) = ''('' @ repr D e1 @ op_repr op @ repr D e2 @ '')''"
| "repr D (OrExpression e1 e2) = ''('' @ repr D e1 @ '' OR '' @ repr D e2 @ '')''"
| "repr D (AndExpression e1 e2) = ''('' @ repr D e1 @ '' AND '' @ repr D e2 @ '')''"
| "repr D (UnaryBooleanExpression op e) = unary_repr op @ ''('' @ repr D e @ '')''"
| "repr D (LikeExpression e re) = repr D e @ '' REGEX_MATCH '' @ [CHR 0x27] @ re @ [CHR 0x27]"
| "repr D (BetweenExpression e l u) = repr D e @ '' BETWEEN '' @ repr D l @ '' AND '' @ repr D u"
| "repr D (InExpression e l) = repr D e @ '' IN ('' @
     concat (map (\<lambda>(i, r). r @ (if i < length l - 1 then '', '' else '')'')) (enumerate 0 (map (repr D) l)))"
| "repr D (ArithmeticExpression op e1 e2) = ''('' @ repr D e1 @ arith_repr op @ repr D e2 @ '')''"
| "repr D (UnaryArithExpression Negate e) = ''-('' @ repr D e @ '')''"
| "repr D (Literal v) = Value_show D v"
| "repr D (StringLiteral s) = [CHR 0x27] @ s @ [CHR 0x27]"
| "repr D (Identifier i) = ''I:'' @ i"

section \<open>Three-valued logic\<close>

text \<open>
  The truth values ordered by how true they are. AND is then the minimum and OR the maximum of its operands,
  as in Kleene's logic, which is the logic that JMS prescribes for selectors.
\<close>

instantiation BoolOrNone :: linorder
begin

fun less_eq_BoolOrNone :: "BoolOrNone \<Rightarrow> BoolOrNone \<Rightarrow> bool" where
  "less_eq_BoolOrNone BN_FALSE b \<longleftrightarrow> True"
| "less_eq_BoolOrNone BN_UNKNOWN b \<longleftrightarrow> b \<noteq> BN_FALSE"
| "less_eq_BoolOrNone BN_TRUE b \<longleftrightarrow> b = BN_TRUE"

definition less_BoolOrNone :: "BoolOrNone \<Rightarrow> BoolOrNone \<Rightarrow> bool" where
  "less_BoolOrNone a b \<longleftrightarrow> a \<le> b \<and> \<not> b \<le> (a :: BoolOrNone)"

instance
proof
  fix x y z :: BoolOrNone
  show "x < y \<longleftrightarrow> x \<le> y \<and> \<not> y \<le> x" by (rule less_BoolOrNone_def)
  show "x \<le> x" by (cases x) simp_all
  show "x \<le> z" if "x \<le> y" "y \<le> z" using that by (cases x; cases y; cases z) simp_all
  show "x = y" if "x \<le> y" "y \<le> x" using that by (cases x; cases y) simp_all
  show "x \<le> y \<or> y \<le> x" by (cases x; cases y) simp_all
qed

end

fun bn_not :: "BoolOrNone \<Rightarrow> BoolOrNone" where
  "bn_not BN_FALSE = BN_TRUE" | "bn_not BN_TRUE = BN_FALSE" | "bn_not BN_UNKNOWN = BN_UNKNOWN"

lemma bn_not_involutive [simp]: "bn_not (bn_not b) = b"
  by (cases b) simp_all

lemma bn_not_antimono: "bn_not a \<le> bn_not b \<longleftrightarrow> b \<le> a"
  by (cases a; cases b) simp_all

lemma bn_not_min: "bn_not (min a b) = max (bn_not a) (bn_not b)"
  by (simp add: min_def max_def bn_not_antimono) (cases a; cases b; simp)

lemma bn_bounds [simp]:
  "min BN_FALSE b = BN_FALSE" "min b BN_FALSE = BN_FALSE" "max BN_TRUE b = BN_TRUE" "max b BN_TRUE = BN_TRUE"
  "max BN_FALSE b = b" "max b BN_FALSE = b" "min BN_TRUE b = b" "min b BN_TRUE = b"
  by (cases b; simp add: min_def max_def)+

lemma as_bn_of_bn [simp]: "as_bn (of_bn b) = b"
  by (cases b) (simp_all add: as_bn_def of_bn_def bn_of_bool_def)

lemma and_eval_min: "and_eval (Inr a) (Inr b) = Inr (min a b)"
  by (cases a; cases b) (simp_all add: and_eval_def min_def)

lemma or_eval_max: "or_eval (Inr a) (Inr b) = Inr (max a b)"
  by (cases a; cases b) (simp_all add: or_eval_def max_def)

lemma unary_eval_Not: "unary_eval Not v = bn_not (as_bn v)"
  by (cases v) (simp_all add: as_bn_def bn_of_bool_def)

lemma eval_bool_And: "eval_bool D R env (AndExpression e1 e2) = and_eval (eval_bool D R env e1) (eval_bool D R env e2)"
  by (cases "and_eval (eval_bool D R env e1) (eval_bool D R env e2)") (simp_all add: eval_bool_def)

lemma eval_bool_Or: "eval_bool D R env (OrExpression e1 e2) = or_eval (eval_bool D R env e1) (eval_bool D R env e2)"
  by (cases "or_eval (eval_bool D R env e1) (eval_bool D R env e2)") (simp_all add: eval_bool_def)

lemma eval_bool_Not:
  "eval_bool D R env (UnaryBooleanExpression Not e) = res_bind (eval_bool D R env e) (\<lambda>b. Inr (bn_not b))"
  by (cases "eval D R env e") (simp_all add: eval_bool_def unary_eval_Not del: unary_eval.simps)

lemma eval_bool_Comparison:
  "eval_bool D R env (ComparisonExpression op e1 e2) = comparison_eval D op (eval D R env e1) (eval D R env e2)"
  by (cases "comparison_eval D op (eval D R env e1) (eval D R env e2)") (simp_all add: eval_bool_def)

lemma eval_bool_Between:
  "eval_bool D R env (BetweenExpression e l u) = between_eval D (eval D R env e) (eval D R env l) (eval D R env u)"
  by (cases "between_eval D (eval D R env e) (eval D R env l) (eval D R env u)") (simp_all add: eval_bool_def)

lemmas eval_bool_simps = eval_bool_And eval_bool_Or eval_bool_Not eval_bool_Comparison eval_bool_Between

text \<open>
  C28. The connectives of a selector are those of Kleene's three-valued logic. When both operands evaluate, AND
  is the minimum and OR the maximum of their truth values, NOT exchanges true and false and keeps unknown, and De
  Morgan's law holds; a false first operand of
  AND and a true first operand of OR decide the result even when evaluating the second one would fail.
\<close>

theorem selector_connectives:
  "(eval_bool D R env e1 = Inr a \<and> eval_bool D R env e2 = Inr b \<longrightarrow>
      eval_bool D R env (AndExpression e1 e2) = Inr (min a b)
    \<and> eval_bool D R env (OrExpression e1 e2) = Inr (max a b)
    \<and> eval_bool D R env (UnaryBooleanExpression Not (AndExpression e1 e2)) =
        eval_bool D R env (OrExpression (UnaryBooleanExpression Not e1) (UnaryBooleanExpression Not e2)))
   \<and> (eval_bool D R env e1 = Inr a \<longrightarrow> eval_bool D R env (UnaryBooleanExpression Not e1) =
        Inr (case a of BN_TRUE \<Rightarrow> BN_FALSE | BN_FALSE \<Rightarrow> BN_TRUE | BN_UNKNOWN \<Rightarrow> BN_UNKNOWN))
   \<and> (eval_bool D R env e1 = Inr BN_FALSE \<longrightarrow> eval_bool D R env (AndExpression e1 e2) = Inr BN_FALSE)
   \<and> (eval_bool D R env e1 = Inr BN_TRUE \<longrightarrow> eval_bool D R env (OrExpression e1 e2) = Inr BN_TRUE)"
proof (intro conjI impI; (elim conjE)?)
  assume e: "eval_bool D R env e1 = Inr a" "eval_bool D R env e2 = Inr b"
  show "eval_bool D R env (AndExpression e1 e2) = Inr (min a b)" by (simp add: e eval_bool_And and_eval_min)
  show "eval_bool D R env (OrExpression e1 e2) = Inr (max a b)" by (simp add: e eval_bool_Or or_eval_max)
  show "eval_bool D R env (UnaryBooleanExpression Not (AndExpression e1 e2)) =
        eval_bool D R env (OrExpression (UnaryBooleanExpression Not e1) (UnaryBooleanExpression Not e2))"
    by (simp add: e eval_bool_simps and_eval_min or_eval_max bn_not_min)
next
  assume "eval_bool D R env e1 = Inr a"
  then show "eval_bool D R env (UnaryBooleanExpression Not e1) =
      Inr (case a of BN_TRUE \<Rightarrow> BN_FALSE | BN_FALSE \<Rightarrow> BN_TRUE | BN_UNKNOWN \<Rightarrow> BN_UNKNOWN)"
    by (cases a) (simp_all add: eval_bool_Not)
next
  assume "eval_bool D R env e1 = Inr BN_FALSE"
  then show "eval_bool D R env (AndExpression e1 e2) = Inr BN_FALSE" by (simp add: eval_bool_And and_eval_def)
next
  assume "eval_bool D R env e1 = Inr BN_TRUE"
  then show "eval_bool D R env (OrExpression e1 e2) = Inr BN_TRUE" by (simp add: eval_bool_Or or_eval_def)
qed

text \<open>A small instance of the operations on \<open>double\<close>, for concrete evaluations: the integers.\<close>

definition int_doubles :: "int doubles" where
  "int_doubles = \<lparr> d_of_int = id, d_add = (+), d_sub = (-), d_mul = (*), d_div = (div), d_neg = uminus,
     d_eq = (=), d_lt = (<), d_le = (\<le>), d_show = show_int, d_parse = (\<lambda>s. None) \<rparr>"

theorem selector_connectives_witness:
  "eval_bool int_doubles (\<lambda>re s. True) (\<lambda>i. Value_UNKNOWN)
     (AndExpression (Literal (Value_BOOL True)) (Identifier ''colour'')) = Inr BN_UNKNOWN
   \<and> eval_bool int_doubles (\<lambda>re s. True) (\<lambda>i. Value_UNKNOWN)
     (OrExpression (Literal (Value_BOOL True)) (Identifier ''colour'')) = Inr BN_TRUE
   \<and> eval_bool int_doubles (\<lambda>re s. True) (\<lambda>i. Value_UNKNOWN)
     (UnaryBooleanExpression Not (Literal (Value_BOOL True))) = Inr BN_FALSE"
  using selector_connectives [of int_doubles "\<lambda>re s. True" "\<lambda>i. Value_UNKNOWN" "Literal (Value_BOOL True)" BN_TRUE
      "Identifier ''colour''" BN_UNKNOWN]
  by (simp add: eval_bool_def as_bn_def bn_of_bool_def)

section \<open>BETWEEN and IN\<close>

lemma exact_compare:
  "Value_ls D (Value_EXACT i) (Value_EXACT j) \<longleftrightarrow> sint i < sint j"
  "Value_gr D (Value_EXACT i) (Value_EXACT j) \<longleftrightarrow> sint j < sint i"
  "Value_le D (Value_EXACT i) (Value_EXACT j) \<longleftrightarrow> sint i \<le> sint j"
  "Value_ge D (Value_EXACT i) (Value_EXACT j) \<longleftrightarrow> sint j \<le> sint i"
  "Value_eq D (Value_EXACT i) (Value_EXACT j) \<longleftrightarrow> i = j"
  "Value_ne D (Value_EXACT i) (Value_EXACT j) \<longleftrightarrow> i \<noteq> j"
  by (simp_all add: Value_ls_def Value_gr_def Value_le_def Value_ge_def Value_eq_def Value_ne_def promoteNumeric_def
      pair_gr_def pair_ge_def pair_ne_def)

definition exact_or_unknown :: "'x Value \<Rightarrow> bool" where
  "exact_or_unknown v = (case v of Value_EXACT _ \<Rightarrow> True | Value_UNKNOWN \<Rightarrow> True | _ \<Rightarrow> False)"

lemma between_eval_exact:
  assumes "exact_or_unknown v" "exact_or_unknown vl" "exact_or_unknown vu"
  shows "between_eval D (Inr v) (Inr vl) (Inr vu) =
    and_eval (booleval (Value_ge D) (Inr v) (Inr vl)) (booleval (Value_le D) (Inr v) (Inr vu))"
  using assms
  by (cases v; cases vl; cases vu)
    (auto simp add: exact_or_unknown_def between_eval_def and_eval_def booleval_def unknown_def exact_compare bn_of_bool_def)

text \<open>\<open>x IN (y, z)\<close> as the truth values of the equations \<open>x = y\<close> and \<open>x = z\<close>.\<close>

definition in_truth :: "'x doubles \<Rightarrow> 'x Value \<Rightarrow> 'x Value \<Rightarrow> BoolOrNone" where
  "in_truth D v y = (if unknown y then BN_UNKNOWN else bn_of_bool (Value_eq D v y))"

lemma in_loop_max:
  "r \<noteq> BN_TRUE \<Longrightarrow> in_loop D v r (map Inr ys) = Inr (fold max (map (in_truth D v) ys) r)"
proof (induction ys arbitrary: r)
  case (Cons y ys)
  have T: "fold max xs BN_TRUE = BN_TRUE" for xs by (induction xs) simp_all
  consider "in_truth D v y = BN_UNKNOWN" "unknown y" | "in_truth D v y = BN_TRUE" "\<not> unknown y" "Value_eq D v y"
    | "in_truth D v y = BN_FALSE" "\<not> unknown y" "\<not> Value_eq D v y"
    by (auto simp: in_truth_def bn_of_bool_def split: if_splits)
  then show ?case
  proof cases
    case 1
    moreover have "max BN_UNKNOWN r = BN_UNKNOWN" using Cons.prems by (cases r) (simp_all add: max_def)
    ultimately show ?thesis using Cons.IH [of BN_UNKNOWN] by simp
  qed (use Cons in \<open>simp_all add: T\<close>)
qed simp

text \<open>
  \<open>e BETWEEN l AND u\<close> is \<open>e >= l AND e <= u\<close> when the three operands are exact numbers or unknown, and
  \<open>e IN (l1, ..., ln)\<close> is the disjunction of the equations \<open>e = li\<close> when \<open>e\<close> is known. On operands that do not
  compare, BETWEEN differs from the conjunction: a string is BETWEEN any two numbers.
\<close>

theorem selector_between_in:
  "(eval D R env e = Inr v \<and> eval D R env l = Inr vl \<and> eval D R env u = Inr vu
      \<and> exact_or_unknown v \<and> exact_or_unknown vl \<and> exact_or_unknown vu \<longrightarrow>
      eval_bool D R env (BetweenExpression e l u) =
        eval_bool D R env (AndExpression (ComparisonExpression Greq e l) (ComparisonExpression Lseq e u)))
   \<and> (eval D R env e = Inr v \<and> \<not> unknown v \<and> map (eval D R env) es = map Inr ys \<longrightarrow>
      eval_bool D R env (InExpression e es) = Inr (fold max (map (in_truth D v) ys) BN_FALSE))
   \<and> eval_bool D R env (BetweenExpression (StringLiteral s) (Literal (Value_EXACT i)) (Literal (Value_EXACT j))) =
       Inr BN_TRUE
   \<and> eval_bool D R env (AndExpression (ComparisonExpression Greq (StringLiteral s) (Literal (Value_EXACT i)))
       (ComparisonExpression Lseq (StringLiteral s) (Literal (Value_EXACT j)))) = Inr BN_FALSE"
proof (intro conjI impI; (elim conjE)?)
  assume "eval D R env e = Inr v" "eval D R env l = Inr vl" "eval D R env u = Inr vu"
    "exact_or_unknown v" "exact_or_unknown vl" "exact_or_unknown vu"
  then show "eval_bool D R env (BetweenExpression e l u) =
      eval_bool D R env (AndExpression (ComparisonExpression Greq e l) (ComparisonExpression Lseq e u))"
    by (simp add: eval_bool_simps between_eval_exact)
next
  assume "eval D R env e = Inr v" "\<not> unknown v" "map (eval D R env) es = map Inr ys"
  then show "eval_bool D R env (InExpression e es) = Inr (fold max (map (in_truth D v) ys) BN_FALSE)"
    by (simp add: eval_bool_def in_loop_max)
qed (simp_all add: eval_bool_simps between_eval_def and_eval_def booleval_def unknown_def Value_ls_def Value_gr_def
    Value_ge_def promoteNumeric_def bn_of_bool_def)

theorem selector_between_in_witness:
  "eval_bool int_doubles (\<lambda>re s. True) (\<lambda>i. Value_EXACT 5)
     (BetweenExpression (Identifier ''weight'') (Literal (Value_EXACT 1)) (Literal (Value_EXACT 7))) = Inr BN_TRUE
   \<and> eval_bool int_doubles (\<lambda>re s. True) (\<lambda>i. Value_EXACT 5)
     (InExpression (Identifier ''weight'') [Literal (Value_EXACT 1), Literal Value_UNKNOWN]) = Inr BN_UNKNOWN"
  using selector_between_in [of int_doubles "\<lambda>re s. True" "\<lambda>i. Value_EXACT 5" "Identifier ''weight''" "Value_EXACT 5"
      "Literal (Value_EXACT 1)" "Value_EXACT 1" "Literal (Value_EXACT 7)" "Value_EXACT 7"
      "[Literal (Value_EXACT 1), Literal Value_UNKNOWN]" "[Value_EXACT 1, Value_UNKNOWN]"]
  by (simp add: exact_or_unknown_def eval_bool_simps and_eval_def booleval_def unknown_def exact_compare bn_of_bool_def
      in_truth_def max_def)

section \<open>Division\<close>

primrec division_free :: "'x Expression \<Rightarrow> bool" where
  "division_free (ComparisonExpression op e1 e2) \<longleftrightarrow> division_free e1 \<and> division_free e2"
| "division_free (OrExpression e1 e2) \<longleftrightarrow> division_free e1 \<and> division_free e2"
| "division_free (AndExpression e1 e2) \<longleftrightarrow> division_free e1 \<and> division_free e2"
| "division_free (UnaryBooleanExpression op e) \<longleftrightarrow> division_free e"
| "division_free (LikeExpression e re) \<longleftrightarrow> division_free e"
| "division_free (BetweenExpression e l u) \<longleftrightarrow> division_free e \<and> division_free l \<and> division_free u"
| "division_free (InExpression e l) \<longleftrightarrow> division_free e \<and> list_all id (map division_free l)"
| "division_free (ArithmeticExpression op e1 e2) \<longleftrightarrow> op \<noteq> Div \<and> division_free e1 \<and> division_free e2"
| "division_free (UnaryArithExpression op e) \<longleftrightarrow> division_free e"
| "division_free (Literal v) \<longleftrightarrow> True"
| "division_free (StringLiteral s) \<longleftrightarrow> True"
| "division_free (Identifier i) \<longleftrightarrow> True"

lemma in_loop_total: "list_all (\<lambda>r. \<exists>v. r = Inr v) rs \<Longrightarrow> \<exists>b. in_loop D v r rs = Inr b"
  by (induction rs arbitrary: r) auto

lemma comparison_eval_total: "\<exists>b. comparison_eval D op (Inr v1) (Inr v2) = Inr b"
  by (cases op) (simp_all add: booleval_def)

lemma eval_total: "division_free e \<Longrightarrow> \<exists>v. eval D R env e = Inr v"
proof (induction e)
  case (ComparisonExpression op e1 e2)
  then obtain v1 v2 where "eval D R env e1 = Inr v1" "eval D R env e2 = Inr v2" by auto
  then show ?case using comparison_eval_total [of D op v1 v2] by auto
next
  case (OrExpression e1 e2)
  then show ?case by (auto simp: or_eval_max)
next
  case (AndExpression e1 e2)
  then show ?case by (auto simp: and_eval_min)
next
  case (BetweenExpression e l u)
  then obtain v vl vu where "eval D R env e = Inr v" "eval D R env l = Inr vl" "eval D R env u = Inr vu" by auto
  then show ?case by (simp add: between_eval_def)
next
  case (InExpression e l)
  then obtain v where v: "eval D R env e = Inr v" by auto
  have "list_all (\<lambda>r. \<exists>v. r = Inr v) (map (eval D R env) l)"
    using InExpression by (auto simp: list_all_iff)
  then obtain b where "in_loop D v BN_FALSE (map (eval D R env) l) = Inr b" using in_loop_total by blast
  then show ?case by (simp add: v)
next
  case (ArithmeticExpression op e1 e2)
  then show ?case by (cases op) auto
next
  case (UnaryArithExpression op e)
  then show ?case by (cases op) auto
qed (auto)

text \<open>
  The only way for an evaluation to fail is division: a selector without \<open>/\<close> has a value in every
  environment. An exact division truncates towards zero, and by zero, or of the least number by \<open>-1\<close>, it is
  undefined behaviour in C++; the code has no guard, so that the selector \<open>i / 0 = j\<close> makes every evaluation
  undefined.
\<close>

theorem selector_division:
  "(division_free e \<longrightarrow> (\<exists>v. eval D R env e = Inr v))
   \<and> (j \<noteq> 0 \<and> \<not> (j = - 1 \<and> sint i = - (2 ^ 63)) \<longrightarrow>
       eval D R env (ArithmeticExpression Div (Literal (Value_EXACT i)) (Literal (Value_EXACT j))) =
         Inr (Value_EXACT (word_of_int (sgn (sint i * sint j) * (\<bar>sint i\<bar> div \<bar>sint j\<bar>)))))
   \<and> TopBoolExpression_eval D R env (ComparisonExpression Eq
        (ArithmeticExpression Div (Literal (Value_EXACT i)) (Literal (Value_EXACT 0))) e') = Inl UndefinedBehaviour"
proof (intro conjI impI)
  show "\<exists>v. eval D R env e = Inr v" if "division_free e" using that by (rule eval_total)
next
  assume "j \<noteq> 0 \<and> \<not> (j = - 1 \<and> sint i = - (2 ^ 63))"
  then show "eval D R env (ArithmeticExpression Div (Literal (Value_EXACT i)) (Literal (Value_EXACT j))) =
         Inr (Value_EXACT (word_of_int (sgn (sint i * sint j) * (\<bar>sint i\<bar> div \<bar>sint j\<bar>))))"
    by (auto simp add: Value_div_def promoteNumeric_def int_div_def)
next
  show "TopBoolExpression_eval D R env (ComparisonExpression Eq
      (ArithmeticExpression Div (Literal (Value_EXACT i)) (Literal (Value_EXACT 0))) e') = Inl UndefinedBehaviour"
    by (simp add: TopBoolExpression_eval_def eval_bool_def Value_div_def promoteNumeric_def int_div_def booleval_def)
qed

theorem selector_division_witness:
  "(\<exists>v. eval int_doubles (\<lambda>re s. True) (\<lambda>i. Value_EXACT 5) (Identifier ''weight'') = Inr v)
   \<and> eval int_doubles (\<lambda>re s. True) (\<lambda>i. Value_EXACT 5)
       (ArithmeticExpression Div (Literal (Value_EXACT (- 7))) (Literal (Value_EXACT 2))) = Inr (Value_EXACT (- 3))"
  using selector_division [of "Identifier ''weight''" int_doubles "\<lambda>re s. True" "\<lambda>i. Value_EXACT 5" 2 "- 7"]
  by simp

end
