(* ===== verification/Selector_Parse.thy ===== *)
theory Selector_Parse
  imports Selector_Token Selector_Expression
begin

text \<open>
  Message selectors, the parser: \<open>throwParseError\<close>, \<open>class Parse\<close> and \<open>TopExpression::parse\<close> of
  \<open>src/qpid/broker/SelectorExpression.cpp\<close>. A parsing method takes the tokeniser and returns an expression, or
  nothing for a null pointer, with the tokeniser it leaves. The descent is bounded by fuel; \<open>parse\<close> starts with
  fuel that is proportional to the length of the selector, and it is shown below that this is enough. The message
  that a method stores in \<open>error\<close> is left out. Compiling a regular expression (\<open>qpid::sys::regex\<close>) is the
  argument \<open>C\<close>, which tells whether it succeeds.
\<close>

type_synonym 'a parser = "Tokeniser \<Rightarrow> ('a \<times> Tokeniser) result"

definition p_bind :: "'a parser \<Rightarrow> ('a \<Rightarrow> 'b parser) \<Rightarrow> 'b parser" where
  "p_bind m f tk = res_bind (m tk) (\<lambda>(a, tk'). f a tk')"

definition p_return :: "'a \<Rightarrow> 'a parser" where
  "p_return a tk = Inr (a, tk)"

definition p_throw :: "qpid_error \<Rightarrow> 'a parser" where
  "p_throw e tk = Inl e"

text \<open>\<open>if (!e.get()) return 0;\<close> after a call.\<close>

definition p_some :: "'a option parser \<Rightarrow> ('a \<Rightarrow> 'b option parser) \<Rightarrow> 'b option parser" where
  "p_some m f = p_bind m (\<lambda>e. case e of None \<Rightarrow> p_return None | Some e \<Rightarrow> f e)"

text \<open>\<open>tokeniser.nextToken()\<close> and \<open>tokeniser.returnTokens()\<close>, each followed by the rest of the method.\<close>

definition p_next :: "(Token \<Rightarrow> 'b parser) \<Rightarrow> 'b parser" where
  "p_next f = p_bind nextToken f"

definition p_back :: "'b parser \<Rightarrow> 'b parser" where
  "p_back f = p_bind (\<lambda>tk. res_bind (returnTokens 1 tk) (\<lambda>tk'. Inr ((), tk'))) (\<lambda>u. f)"

definition throwParseError :: "'a parser" where
  "throwParseError = p_back (p_next (\<lambda>t. p_throw RangeError))"

section \<open>Primary expressions\<close>

text \<open>\<open>boost::lexical_cast<int64_t>\<close> on a string of digits.\<close>

definition digits_value :: "string \<Rightarrow> nat" where
  "digits_value v = foldl (\<lambda>n c. 10 * n + (of_char c - 48)) 0 v"

definition lexical_cast_int64 :: "string \<Rightarrow> 64 word result" where
  "lexical_cast_int64 v = throw_if (2 ^ 63 \<le> digits_value v) BadLexicalCast (Inr (of_nat (digits_value v)))"

definition primary_of :: "'x doubles \<Rightarrow> Token \<Rightarrow> 'x Expression option result" where
  "primary_of D t = (case token_type t of
      T_IDENTIFIER \<Rightarrow> Inr (Some (Identifier (token_val t)))
    | T_STRING \<Rightarrow> Inr (Some (StringLiteral (token_val t)))
    | T_FALSE \<Rightarrow> Inr (Some (Literal (Value_BOOL False)))
    | T_TRUE \<Rightarrow> Inr (Some (Literal (Value_BOOL True)))
    | T_NUMERIC_EXACT \<Rightarrow> res_bind (lexical_cast_int64 (token_val t)) (\<lambda>i. Inr (Some (Literal (Value_EXACT i))))
    | T_NUMERIC_APPROX \<Rightarrow> (case d_parse D (token_val t) of
          None \<Rightarrow> Inl BadLexicalCast
        | Some x \<Rightarrow> Inr (Some (Literal (Value_INEXACT x))))
    | _ \<Rightarrow> Inr None)"

definition primaryExpression :: "'x doubles \<Rightarrow> 'x Expression option parser" where
  "primaryExpression D = p_next (\<lambda>t tk. res_bind (primary_of D t) (\<lambda>e. Inr (e, tk)))"

definition LikeExpression_new :: "(string \<Rightarrow> bool) \<Rightarrow> 'x Expression \<Rightarrow> string \<Rightarrow> string \<Rightarrow> 'x Expression option parser" where
  "LikeExpression_new C e like escape tk =
     res_bind (toRegex like escape) (\<lambda>re. if C re then Inr (Some (LikeExpression e re), tk) else Inl GeneralException)"

fun comparison_op :: "TokenType \<Rightarrow> ComparisonOperator option" where
  "comparison_op T_EQUAL = Some Eq" | "comparison_op T_NEQ = Some Neq" | "comparison_op T_LESS = Some Ls"
| "comparison_op T_GRT = Some Gr" | "comparison_op T_LSEQ = Some Lseq" | "comparison_op T_GREQ = Some Greq"
| "comparison_op _ = None"

fun add_op :: "TokenType \<Rightarrow> ArithmeticOperator option" where
  "add_op T_PLUS = Some Add" | "add_op T_MINUS = Some Sub" | "add_op _ = None"

fun mult_op :: "TokenType \<Rightarrow> ArithmeticOperator option" where
  "mult_op T_MULT = Some Mult" | "mult_op T_DIV = Some Div" | "mult_op _ = None"

section \<open>The descent\<close>

text \<open>
  The methods call one another. A method is defined over the record \<open>Parse\<close> of the methods it may call, and
  \<open>Parse_methods n\<close> is this record for a descent of depth \<open>n\<close>. A loop is a method that calls itself.
\<close>

record 'x Parse =
  m_orExpression :: "'x Expression option parser"
  m_or_loop :: "'x Expression \<Rightarrow> 'x Expression option parser"
  m_andExpression :: "'x Expression option parser"
  m_and_loop :: "'x Expression \<Rightarrow> 'x Expression option parser"
  m_specialComparisons :: "'x Expression \<Rightarrow> 'x Expression option parser"
  m_in_list_loop :: "'x Expression list \<Rightarrow> 'x Expression list option parser"
  m_comparisonExpression :: "'x Expression option parser"
  m_addExpression :: "'x Expression option parser"
  m_add_loop :: "'x Expression \<Rightarrow> 'x Expression option parser"
  m_multiplyExpression :: "'x Expression option parser"
  m_mult_loop :: "'x Expression \<Rightarrow> 'x Expression option parser"
  m_unaryArithExpression :: "'x Expression option parser"

definition orExpression :: "'x Parse \<Rightarrow> 'x Expression option parser" where
  "orExpression P = p_some (m_andExpression P) (m_or_loop P)"

definition or_loop :: "'x Parse \<Rightarrow> 'x Expression \<Rightarrow> 'x Expression option parser" where
  "or_loop P e =
     p_next (\<lambda>t. if token_type t = T_OR
       then p_some (m_andExpression P) (\<lambda>e2. m_or_loop P (OrExpression e e2))
       else p_back (p_return (Some e)))"

definition andExpression :: "'x Parse \<Rightarrow> 'x Expression option parser" where
  "andExpression P = p_some (m_comparisonExpression P) (m_and_loop P)"

definition and_loop :: "'x Parse \<Rightarrow> 'x Expression \<Rightarrow> 'x Expression option parser" where
  "and_loop P e =
     p_next (\<lambda>t. if token_type t = T_AND
       then p_some (m_comparisonExpression P) (\<lambda>e2. m_and_loop P (AndExpression e e2))
       else p_back (p_return (Some e)))"

definition specialComparisons :: "(string \<Rightarrow> bool) \<Rightarrow> 'x Parse \<Rightarrow> 'x Expression \<Rightarrow> 'x Expression option parser" where
  "specialComparisons C P e1 =
     p_next (\<lambda>t0. case token_type t0 of
         T_LIKE \<Rightarrow>
           p_next (\<lambda>t. if token_type t \<noteq> T_STRING then p_return None
             else p_next (\<lambda>t'. if token_type t' = T_ESCAPE
               then p_next (\<lambda>e. if token_type e \<noteq> T_STRING then p_return None
                 else if 1 < length (token_val e) then throwParseError
                 else LikeExpression_new C e1 (token_val t) (token_val e))
               else p_back (LikeExpression_new C e1 (token_val t) [])))
       | T_BETWEEN \<Rightarrow>
           p_some (m_addExpression P) (\<lambda>lower.
             p_next (\<lambda>t. if token_type t \<noteq> T_AND then p_return None
               else p_some (m_addExpression P) (\<lambda>upper. p_return (Some (BetweenExpression e1 lower upper)))))
       | T_IN \<Rightarrow>
           p_next (\<lambda>t. if token_type t \<noteq> T_LPAREN then p_return None
             else p_some (m_in_list_loop P []) (\<lambda>l. p_back (p_next (\<lambda>t'.
               if token_type t' \<noteq> T_RPAREN then p_return None else p_return (Some (InExpression e1 l))))))
       | _ \<Rightarrow> p_return None)"

definition in_list_loop :: "'x Parse \<Rightarrow> 'x Expression list \<Rightarrow> 'x Expression list option parser" where
  "in_list_loop P l =
     p_some (m_addExpression P) (\<lambda>e.
       p_next (\<lambda>t. if token_type t = T_COMMA then m_in_list_loop P (l @ [e]) else p_return (Some (l @ [e]))))"

definition comparisonExpression :: "'x Parse \<Rightarrow> 'x Expression option parser" where
  "comparisonExpression P =
     p_next (\<lambda>t. if token_type t = T_NOT
       then p_some (m_comparisonExpression P) (\<lambda>e. p_return (Some (UnaryBooleanExpression Not e)))
       else p_back (p_some (m_addExpression P) (\<lambda>e1.
         p_next (\<lambda>t1. case token_type t1 of
             T_IS \<Rightarrow>
               p_next (\<lambda>t2. if token_type t2 = T_NULL then p_return (Some (UnaryBooleanExpression IsNull e1))
                 else if token_type t2 = T_NOT
                 then p_next (\<lambda>t3. if token_type t3 = T_NULL
                   then p_return (Some (UnaryBooleanExpression IsNonNull e1)) else p_return None)
                 else p_return None)
           | T_NOT \<Rightarrow> p_some (m_specialComparisons P e1) (\<lambda>e. p_return (Some (UnaryBooleanExpression Not e)))
           | T_BETWEEN \<Rightarrow> p_back (m_specialComparisons P e1)
           | T_LIKE \<Rightarrow> p_back (m_specialComparisons P e1)
           | T_IN \<Rightarrow> p_back (m_specialComparisons P e1)
           | _ \<Rightarrow> p_back (p_next (\<lambda>t2. case comparison_op (token_type t2) of
                 None \<Rightarrow> p_back (p_return (Some e1))
               | Some op \<Rightarrow> p_some (m_addExpression P) (\<lambda>e2.
                   p_return (Some (ComparisonExpression op e1 e2)))))))))"

definition addExpression :: "'x Parse \<Rightarrow> 'x Expression option parser" where
  "addExpression P = p_some (m_multiplyExpression P) (m_add_loop P)"

definition add_loop :: "'x Parse \<Rightarrow> 'x Expression \<Rightarrow> 'x Expression option parser" where
  "add_loop P e =
     p_next (\<lambda>t. case add_op (token_type t) of
         Some op \<Rightarrow> p_some (m_multiplyExpression P) (\<lambda>e2. m_add_loop P (ArithmeticExpression op e e2))
       | None \<Rightarrow> p_back (p_return (Some e)))"

definition multiplyExpression :: "'x Parse \<Rightarrow> 'x Expression option parser" where
  "multiplyExpression P = p_some (m_unaryArithExpression P) (m_mult_loop P)"

definition mult_loop :: "'x Parse \<Rightarrow> 'x Expression \<Rightarrow> 'x Expression option parser" where
  "mult_loop P e =
     p_next (\<lambda>t. case mult_op (token_type t) of
         Some op \<Rightarrow> p_some (m_unaryArithExpression P) (\<lambda>e2. m_mult_loop P (ArithmeticExpression op e e2))
       | None \<Rightarrow> p_back (p_return (Some e)))"

definition unaryArithExpression :: "'x doubles \<Rightarrow> 'x Parse \<Rightarrow> 'x Expression option parser" where
  "unaryArithExpression D P =
     p_next (\<lambda>t. case token_type t of
         T_LPAREN \<Rightarrow>
           p_some (m_orExpression P) (\<lambda>e.
             p_next (\<lambda>t'. if token_type t' \<noteq> T_RPAREN then p_return None else p_return (Some e)))
       | T_MINUS \<Rightarrow> p_some (m_unaryArithExpression P) (\<lambda>e. p_return (Some (UnaryArithExpression Negate e)))
       | _ \<Rightarrow> p_back (primaryExpression D))"

text \<open>Without fuel, every method fails.\<close>

definition Parse_empty :: "'x Parse" where
  "Parse_empty = \<lparr> m_orExpression = p_throw OutOfFuel,
     m_or_loop = (\<lambda>e. p_throw OutOfFuel),
     m_andExpression = p_throw OutOfFuel,
     m_and_loop = (\<lambda>e. p_throw OutOfFuel),
     m_specialComparisons = (\<lambda>e. p_throw OutOfFuel),
     m_in_list_loop = (\<lambda>e. p_throw OutOfFuel),
     m_comparisonExpression = p_throw OutOfFuel,
     m_addExpression = p_throw OutOfFuel,
     m_add_loop = (\<lambda>e. p_throw OutOfFuel),
     m_multiplyExpression = p_throw OutOfFuel,
     m_mult_loop = (\<lambda>e. p_throw OutOfFuel),
     m_unaryArithExpression = p_throw OutOfFuel \<rparr>"

definition Parse_step :: "'x doubles \<Rightarrow> (string \<Rightarrow> bool) \<Rightarrow> 'x Parse \<Rightarrow> 'x Parse" where
  "Parse_step D C P = \<lparr> m_orExpression = orExpression P,
     m_or_loop = or_loop P,
     m_andExpression = andExpression P,
     m_and_loop = and_loop P,
     m_specialComparisons = specialComparisons C P,
     m_in_list_loop = in_list_loop P,
     m_comparisonExpression = comparisonExpression P,
     m_addExpression = addExpression P,
     m_add_loop = add_loop P,
     m_multiplyExpression = multiplyExpression P,
     m_mult_loop = mult_loop P,
     m_unaryArithExpression = unaryArithExpression D P \<rparr>"

primrec Parse_methods :: "'x doubles \<Rightarrow> (string \<Rightarrow> bool) \<Rightarrow> nat \<Rightarrow> 'x Parse" where
  "Parse_methods D C 0 = Parse_empty"
| "Parse_methods D C (Suc n) = Parse_step D C (Parse_methods D C n)"

text \<open>
  The fuel for a selector: between two tokens the descent is at most six calls deep.
\<close>

definition parse_fuel :: "string \<Rightarrow> nat" where
  "parse_fuel s = 6 * length s + 6"

definition parse :: "'x doubles \<Rightarrow> (string \<Rightarrow> bool) \<Rightarrow> string \<Rightarrow> 'x Expression result" where
  "parse D C s =
     res_bind (p_bind (m_orExpression (Parse_methods D C (parse_fuel s)))
        (\<lambda>b. case b of
            None \<Rightarrow> throwParseError
          | Some e \<Rightarrow> p_next (\<lambda>t. if token_type t \<noteq> T_EOS then throwParseError else p_return e))
        (Tokeniser_init s))
      (\<lambda>(e, tk). Inr e)"

section \<open>The grammar\<close>

text \<open>
  The grammar of selectors, from the comment at the head of \<open>SelectorExpression.cpp\<close>, as the relation between
  sequences of tokens and expressions. It departs from the comment where the comment is silent or wrong: IN is
  added, the operators of a product are \<open>*\<close> and \<open>/\<close>, and a unary sign is only \<open>-\<close>, before a unary expression.
  \<open>derives_special\<close> is what follows the first operand of LIKE, BETWEEN and IN.
\<close>

datatype grammar_symbol = NT_or | NT_and | NT_comparison | NT_add | NT_multiply | NT_unary

inductive derives :: "'x doubles \<Rightarrow> grammar_symbol \<Rightarrow> Token list \<Rightarrow> 'x Expression \<Rightarrow> bool"
  and derives_list :: "'x doubles \<Rightarrow> Token list \<Rightarrow> 'x Expression list \<Rightarrow> bool"
  and derives_special :: "'x doubles \<Rightarrow> 'x Expression \<Rightarrow> Token list \<Rightarrow> 'x Expression \<Rightarrow> bool"
  for D :: "'x doubles"
where
  g_or: "derives D NT_and ts e \<Longrightarrow> derives D NT_or ts e"
| g_or_or: "derives D NT_or ts e \<Longrightarrow> token_type t = T_OR \<Longrightarrow> derives D NT_and us e2 \<Longrightarrow>
    derives D NT_or (ts @ [t] @ us) (OrExpression e e2)"
| g_and: "derives D NT_comparison ts e \<Longrightarrow> derives D NT_and ts e"
| g_and_and: "derives D NT_and ts e \<Longrightarrow> token_type t = T_AND \<Longrightarrow> derives D NT_comparison us e2 \<Longrightarrow>
    derives D NT_and (ts @ [t] @ us) (AndExpression e e2)"
| g_not: "token_type t = T_NOT \<Longrightarrow> derives D NT_comparison ts e \<Longrightarrow>
    derives D NT_comparison (t # ts) (UnaryBooleanExpression Not e)"
| g_is_null: "derives D NT_add ts e \<Longrightarrow> token_type t = T_IS \<Longrightarrow> token_type u = T_NULL \<Longrightarrow>
    derives D NT_comparison (ts @ [t, u]) (UnaryBooleanExpression IsNull e)"
| g_is_not_null: "derives D NT_add ts e \<Longrightarrow> token_type t = T_IS \<Longrightarrow> token_type n = T_NOT \<Longrightarrow> token_type u = T_NULL \<Longrightarrow>
    derives D NT_comparison (ts @ [t, n, u]) (UnaryBooleanExpression IsNonNull e)"
| g_special: "derives D NT_add ts e1 \<Longrightarrow> derives_special D e1 us e \<Longrightarrow> derives D NT_comparison (ts @ us) e"
| g_not_special: "derives D NT_add ts e1 \<Longrightarrow> token_type n = T_NOT \<Longrightarrow> derives_special D e1 us e \<Longrightarrow>
    derives D NT_comparison (ts @ [n] @ us) (UnaryBooleanExpression Not e)"
| g_compare: "derives D NT_add ts e1 \<Longrightarrow> comparison_op (token_type t) = Some op \<Longrightarrow> derives D NT_add us e2 \<Longrightarrow>
    derives D NT_comparison (ts @ [t] @ us) (ComparisonExpression op e1 e2)"
| g_comparison: "derives D NT_add ts e \<Longrightarrow> derives D NT_comparison ts e"
| g_add: "derives D NT_multiply ts e \<Longrightarrow> derives D NT_add ts e"
| g_add_add: "derives D NT_add ts e \<Longrightarrow> add_op (token_type t) = Some op \<Longrightarrow> derives D NT_multiply us e2 \<Longrightarrow>
    derives D NT_add (ts @ [t] @ us) (ArithmeticExpression op e e2)"
| g_multiply: "derives D NT_unary ts e \<Longrightarrow> derives D NT_multiply ts e"
| g_multiply_multiply: "derives D NT_multiply ts e \<Longrightarrow> mult_op (token_type t) = Some op \<Longrightarrow> derives D NT_unary us e2 \<Longrightarrow>
    derives D NT_multiply (ts @ [t] @ us) (ArithmeticExpression op e e2)"
| g_parentheses: "token_type l = T_LPAREN \<Longrightarrow> derives D NT_or ts e \<Longrightarrow> token_type r = T_RPAREN \<Longrightarrow>
    derives D NT_unary ([l] @ ts @ [r]) e"
| g_minus: "token_type t = T_MINUS \<Longrightarrow> derives D NT_unary ts e \<Longrightarrow>
    derives D NT_unary (t # ts) (UnaryArithExpression Negate e)"
| g_primary: "primary_of D t = Inr (Some e) \<Longrightarrow> derives D NT_unary [t] e"
| g_one: "derives D NT_add ts e \<Longrightarrow> derives_list D ts [e]"
| g_more: "derives_list D ts es \<Longrightarrow> token_type t = T_COMMA \<Longrightarrow> derives D NT_add us e \<Longrightarrow>
    derives_list D (ts @ [t] @ us) (es @ [e])"
| g_like: "token_type l = T_LIKE \<Longrightarrow> token_type t = T_STRING \<Longrightarrow> toRegex (token_val t) [] = Inr re \<Longrightarrow>
    derives_special D e1 [l, t] (LikeExpression e1 re)"
| g_like_escape: "token_type l = T_LIKE \<Longrightarrow> token_type t = T_STRING \<Longrightarrow> token_type k = T_ESCAPE \<Longrightarrow> token_type u = T_STRING \<Longrightarrow>
    toRegex (token_val t) (token_val u) = Inr re \<Longrightarrow> derives_special D e1 [l, t, k, u] (LikeExpression e1 re)"
| g_between: "token_type b = T_BETWEEN \<Longrightarrow> derives D NT_add ts lower \<Longrightarrow> token_type a = T_AND \<Longrightarrow> derives D NT_add us upper \<Longrightarrow>
    derives_special D e1 ([b] @ ts @ [a] @ us) (BetweenExpression e1 lower upper)"
| g_in: "token_type i = T_IN \<Longrightarrow> token_type l = T_LPAREN \<Longrightarrow> derives_list D ts es \<Longrightarrow> token_type r = T_RPAREN \<Longrightarrow>
    derives_special D e1 ([i, l] @ ts @ [r]) (InExpression e1 es)"

section \<open>The tokeniser as a stream\<close>

text \<open>\<open>chain s ts r\<close>: reading the tokens \<open>ts\<close> from the input \<open>s\<close> leaves \<open>r\<close>.\<close>

fun chain :: "string \<Rightarrow> Token list \<Rightarrow> string \<Rightarrow> bool" where
  "chain s [] r \<longleftrightarrow> s = r"
| "chain s (t # ts) r \<longleftrightarrow> (\<exists>m. tokenise (skipWS s) = Some (t, m) \<and> chain m ts r)"

lemma chain_append: "chain s (ts @ us) r \<longleftrightarrow> (\<exists>m. chain s ts m \<and> chain m us r)"
  by (induction ts arbitrary: s) auto

definition proper :: "Token \<Rightarrow> bool" where
  "proper t \<longleftrightarrow> token_type t \<noteq> T_EOS"

definition wf_tk :: "Tokeniser \<Rightarrow> bool" where
  "wf_tk tk \<longleftrightarrow> tokp tk \<le> length (tokens tk)"

definition fresh :: "Tokeniser \<Rightarrow> bool" where
  "fresh tk \<longleftrightarrow> tokp tk = 0 \<or> proper (tokens tk ! (tokp tk - 1))"

text \<open>A bound on the tokens that can still be read.\<close>

definition left :: "Tokeniser \<Rightarrow> nat" where
  "left tk = length (filter proper (drop (tokp tk) (tokens tk))) + length (inp tk)"

definition moves :: "Tokeniser \<Rightarrow> Token list \<Rightarrow> Tokeniser \<Rightarrow> bool" where
  "moves tk ts tk' \<longleftrightarrow> wf_tk tk' \<and> tokp tk' = tokp tk + length ts
     \<and> (\<exists>new. tokens tk' = tokens tk @ new \<and> chain (inp tk) new (inp tk'))
     \<and> take (length ts) (drop (tokp tk) (tokens tk')) = ts
     \<and> left tk' + length (filter proper ts) \<le> left tk"

lemma skipWS_length: "length (skipWS s) \<le> length s"
  by (induction s) simp_all

lemma tokenise_consumes:
  assumes "tokenise s = Some (t, r)"
  shows "length r + (if proper t then 1 else 0) \<le> length s"
proof -
  consider "token_type t = T_EOS" "r = []"
    | v where "s = quote # quoted v @ quote # r"
    | v where "v \<noteq> []" "s = v @ r"
    using tokenise_ok [OF assms] lexeme_type [of "token_type t" "token_val t"]
    unfolding token_ok_def by metis
  then show ?thesis
  proof cases
    case 3
    then show ?thesis by (cases v) simp_all
  qed (simp_all add: proper_def)
qed

lemma moves_refl: "wf_tk tk \<Longrightarrow> moves tk [] tk"
  by (simp add: moves_def)

lemma nextToken_moves:
  assumes "nextToken tk = Inr (t, tk')" "wf_tk tk" "fresh tk"
  shows "moves tk [t] tk'"
proof (cases "tokp tk < length (tokens tk)")
  case True
  then have r: "t = tokens tk ! tokp tk" "tk' = tk \<lparr> tokp := tokp tk + 1 \<rparr>" using assms(1) by (auto simp: nextToken_def)
  have d: "drop (tokp tk) (tokens tk) = t # drop (Suc (tokp tk)) (tokens tk)"
    using True r(1) by (simp add: Cons_nth_drop_Suc)
  then have "left tk' + (if proper t then 1 else 0) = left tk" by (simp add: left_def r(2))
  then show ?thesis using True d by (auto simp: moves_def wf_tk_def r(2))
next
  case False
  then have len: "length (tokens tk) = tokp tk" using assms(2) by (simp add: wf_tk_def)
  moreover have "\<not> (0 < tokp tk \<and> token_type (tokens tk ! (tokp tk - 1)) = T_EOS)"
    using assms(3) by (auto simp: fresh_def proper_def)
  ultimately obtain r where r: "tokenise (skipWS (inp tk)) = Some (t, r)"
    and tk': "tk' = tk \<lparr> tokens := tokens tk @ [t], tokp := tokp tk + 1, inp := r \<rparr>"
    using assms(1) by (auto simp: nextToken_def split: option.splits)
  show ?thesis
    using tokenise_consumes [OF r] skipWS_length [of "inp tk"] r
    by (auto simp: moves_def wf_tk_def left_def tk' len)
qed

lemma moves_trans:
  assumes "moves tk ts tk'" "moves tk' us tk''"
  shows "moves tk (ts @ us) tk''"
proof -
  obtain new new' where n: "tokens tk' = tokens tk @ new" "chain (inp tk) new (inp tk')"
    "tokens tk'' = tokens tk' @ new'" "chain (inp tk') new' (inp tk'')"
    using assms by (auto simp: moves_def)
  have w: "tokp tk + length ts \<le> length (tokens tk')" using assms by (auto simp: moves_def wf_tk_def)
  have "take (length ts) (drop (tokp tk) (tokens tk'')) = ts"
    using assms(1) w n(3) by (auto simp: moves_def)
  moreover have "take (length us) (drop (length ts) (drop (tokp tk) (tokens tk''))) = us"
    using assms by (auto simp: moves_def add.commute)
  ultimately have "take (length (ts @ us)) (drop (tokp tk) (tokens tk'')) = ts @ us"
    by (metis length_append take_add)
  then show ?thesis using assms n by (auto simp: moves_def chain_append)
qed

lemma returnTokens_moves:
  assumes "moves tk (ts @ [t]) tk'"
  shows "\<exists>tk''. returnTokens 1 tk' = Inr tk'' \<and> moves tk ts tk''"
proof -
  have p: "tokp tk' = Suc (tokp tk + length ts)" and w: "tokp tk' \<le> length (tokens tk')"
    and tk: "take (Suc (length ts)) (drop (tokp tk) (tokens tk')) = ts @ [t]"
    using assms by (auto simp: moves_def wf_tk_def)
  define i where "i = tokp tk + length ts"
  have i: "i < length (tokens tk')" using p w by (simp add: i_def)
  have t: "tokens tk' ! i = t"
    using arg_cong [OF tk, of "\<lambda>xs. xs ! length ts"] i by (simp add: i_def nth_append)
  have ts: "take (length ts) (drop (tokp tk) (tokens tk')) = ts"
    using arg_cong [OF tk, of "take (length ts)"] by (simp add: min_def)
  have d: "drop i (tokens tk') = t # drop (Suc i) (tokens tk')" using i t by (metis Cons_nth_drop_Suc)
  let ?tk = "tk' \<lparr> tokp := tokp tk' - 1 \<rparr>"
  have "left ?tk = left tk' + (if proper t then 1 else 0)"
    using p d by (simp add: left_def i_def)
  then have "moves tk ts ?tk" using assms ts p i by (auto simp: moves_def wf_tk_def i_def)
  then show ?thesis using p by (simp add: returnTokens_def)
qed

lemma moves_fresh:
  assumes "moves tk ts tk'" "wf_tk tk" "fresh tk" "list_all proper ts"
  shows "fresh tk'"
proof (cases ts rule: rev_cases)
  case Nil
  then obtain new where "tokp tk' = tokp tk" "tokens tk' = tokens tk @ new" using assms by (auto simp: moves_def)
  then show ?thesis using assms(2,3) by (auto simp: fresh_def nth_append wf_tk_def)
next
  case (snoc us t)
  then have p: "tokp tk' = Suc (tokp tk + length us)" and w: "tokp tk' \<le> length (tokens tk')"
    and tk: "take (Suc (length us)) (drop (tokp tk) (tokens tk')) = us @ [t]"
    using assms by (auto simp: moves_def wf_tk_def)
  have "tokens tk' ! (tokp tk + length us) = t"
    using arg_cong [OF tk, of "\<lambda>xs. xs ! length us"] p w by (simp add: nth_append)
  then show ?thesis using p assms(4) snoc by (simp add: fresh_def)
qed

section \<open>Total correctness of a parsing method\<close>

text \<open>
  \<open>allowed\<close> are the exceptions that the parser throws on purpose: \<open>TokenException\<close>, the \<open>std::range_error\<close> of
  \<open>throwParseError\<close>, a number that does not fit, and a regular expression that does not compile.
\<close>

definition allowed :: "(string \<Rightarrow> bool) \<Rightarrow> qpid_error \<Rightarrow> bool" where
  "allowed C e \<longleftrightarrow> e \<in> {TokenException, RangeError, BadLexicalCast} \<or> (e = GeneralException \<and> (\<exists>re. \<not> C re))"

definition runs :: "(string \<Rightarrow> bool) \<Rightarrow> 'a parser \<Rightarrow> Tokeniser \<Rightarrow> ('a \<Rightarrow> Tokeniser \<Rightarrow> bool) \<Rightarrow> bool" where
  "runs C m tk Q \<longleftrightarrow> (case m tk of Inl e \<Rightarrow> allowed C e | Inr (a, tk') \<Rightarrow> Q a tk')"

lemma runs_bind: "runs C m tk R \<Longrightarrow> (\<And>a tk'. R a tk' \<Longrightarrow> runs C (f a) tk' Q) \<Longrightarrow> runs C (p_bind m f) tk Q"
  by (fastforce simp: runs_def p_bind_def split: sum.splits prod.splits)

lemma runs_return [simp]: "runs C (p_return a) tk Q \<longleftrightarrow> Q a tk"
  by (simp add: runs_def p_return_def)

lemma runs_throw [simp]: "runs C (p_throw e) tk Q \<longleftrightarrow> allowed C e"
  by (simp add: runs_def p_throw_def)

text \<open>The parser has read the proper tokens \<open>ts\<close> since \<open>org\<close>.\<close>

definition at :: "Tokeniser \<Rightarrow> Token list \<Rightarrow> Tokeniser \<Rightarrow> bool" where
  "at org ts tk \<longleftrightarrow> wf_tk org \<and> fresh org \<and> moves org ts tk \<and> list_all proper ts"

lemma at_start: "wf_tk tk \<Longrightarrow> fresh tk \<Longrightarrow> at tk [] tk"
  by (simp add: at_def moves_refl)

lemma at_left: "at org ts tk \<Longrightarrow> left tk + length ts \<le> left org"
  by (auto simp: at_def moves_def list_all_iff)

lemma moves_wf: "moves tk ts tk' \<Longrightarrow> wf_tk tk'"
  by (simp add: moves_def)

lemma at_state: "at org ts tk \<Longrightarrow> wf_tk tk \<and> fresh tk"
  by (auto simp: at_def intro: moves_fresh moves_wf)

lemma at_trans: "at org ts tk \<Longrightarrow> at tk us tk' \<Longrightarrow> at org (ts @ us) tk'"
  by (auto simp: at_def intro: moves_trans)

definition past :: "Tokeniser \<Rightarrow> Token list \<Rightarrow> Token \<Rightarrow> Tokeniser \<Rightarrow> bool" where
  "past org ts t tk \<longleftrightarrow> wf_tk org \<and> fresh org \<and> moves org (ts @ [t]) tk \<and> list_all proper ts"

lemma past_at: "past org ts t tk \<Longrightarrow> token_type t \<noteq> T_EOS \<Longrightarrow> at org (ts @ [t]) tk"
  by (simp add: past_def at_def proper_def)

lemma past_position: "past org ts t tk \<Longrightarrow> 0 < tokp tk"
  by (simp add: past_def moves_def)

lemma runs_next:
  assumes "at org ts tk" "\<And>t tk'. past org ts t tk' \<Longrightarrow> runs C (f t) tk' Q"
  shows "runs C (p_next f) tk Q"
proof -
  have "runs C nextToken tk (\<lambda>t tk'. past org ts t tk')"
  proof (cases "nextToken tk")
    case (Inl e)
    then have "e = TokenException" by (auto simp: nextToken_def split: if_splits option.splits)
    then show ?thesis using Inl by (simp add: runs_def allowed_def)
  next
    case (Inr p)
    obtain t tk' where p: "p = (t, tk')" by (cases p)
    have "moves org (ts @ [t]) tk'"
      using nextToken_moves [of tk t tk'] Inr p assms(1) at_state [OF assms(1)] by (auto simp: at_def intro: moves_trans)
    then show ?thesis using Inr p assms(1) by (simp add: runs_def past_def at_def)
  qed
  then show ?thesis unfolding p_next_def by (rule runs_bind) (rule assms(2))
qed

lemma runs_back:
  assumes "past org ts t tk" "\<And>tk'. at org ts tk' \<Longrightarrow> runs C f tk' Q"
  shows "runs C (p_back f) tk Q"
proof -
  obtain tk' where "returnTokens 1 tk = Inr tk'" "moves org ts tk'"
    using returnTokens_moves [of org ts t tk] assms(1) unfolding past_def by blast
  then show ?thesis using assms by (auto simp: runs_def p_back_def p_bind_def at_def past_def)
qed

lemma runs_throwParseError:
  assumes "0 < tokp tk" "wf_tk tk"
  shows "runs C throwParseError tk Q"
proof -
  have "tokp tk - 1 < length (tokens tk)" using assms by (simp add: wf_tk_def)
  then show ?thesis
    using assms by (simp add: runs_def throwParseError_def p_back_def p_bind_def p_next_def p_throw_def
      returnTokens_def nextToken_def allowed_def)
qed

text \<open>
  A method with fuel for its rank \<open>r\<close> either throws an allowed exception, or returns a null pointer after it
  has read something, or returns an expression that is right for the tokens it has read.
\<close>

definition outcome ::
  "Tokeniser \<Rightarrow> (Token list \<Rightarrow> 'a \<Rightarrow> bool) \<Rightarrow> 'a option \<Rightarrow> Tokeniser \<Rightarrow> bool" where
  "outcome org P e tk \<longleftrightarrow> (case e of
       None \<Rightarrow> 0 < tokp tk \<and> wf_tk tk
     | Some x \<Rightarrow> \<exists>ts. at org ts tk \<and> P ts x)"

definition meets ::
  "(string \<Rightarrow> bool) \<Rightarrow> nat \<Rightarrow> nat \<Rightarrow> 'a option parser \<Rightarrow> (Token list \<Rightarrow> 'a \<Rightarrow> bool) \<Rightarrow> bool" where
  "meets C n r m P \<longleftrightarrow>
     (\<forall>tk. wf_tk tk \<and> fresh tk \<and> 6 * left tk + r \<le> n \<longrightarrow> runs C m tk (outcome tk P))"

lemma outcome_None: "past org ts t tk \<Longrightarrow> outcome orgn P None tk"
  by (simp add: outcome_def past_def moves_def)

lemma outcome_Some: "at org ts tk \<Longrightarrow> P ts x \<Longrightarrow> outcome org P (Some x) tk"
  by (auto simp: outcome_def)

lemma runs_call:
  assumes "meets C n r m P" "at org ts tk" "6 * left org + r \<le> n + 6 * length ts"
    and "\<And>x us tk'. at org (ts @ us) tk' \<Longrightarrow> P us x \<Longrightarrow> runs C (f x) tk' (outcome orgn R)"
  shows "runs C (p_some m f) tk (outcome orgn R)"
proof -
  have "6 * left tk + r \<le> n" using assms(3) at_left [OF assms(2)] by linarith
  then have "runs C m tk (outcome tk P)" using assms(1) at_state [OF assms(2)] by (simp add: meets_def)
  then show ?thesis
    unfolding p_some_def
  proof (rule runs_bind)
    fix e tk'
    assume o: "outcome tk P e tk'"
    show "runs C (case e of None \<Rightarrow> p_return None | Some x \<Rightarrow> f x) tk' (outcome orgn R)"
    proof (cases e)
      case None
      then show ?thesis using o by (simp add: outcome_def)
    next
      case (Some x)
      with o obtain us where "at tk us tk'" "P us x" by (auto simp: outcome_def)
      then show ?thesis using Some assms(4) [OF at_trans [OF assms(2)]] by simp
    qed
  qed
qed

lemma meetsI:
  "(\<And>tk. at tk [] tk \<Longrightarrow> 6 * left tk + r \<le> n \<Longrightarrow> runs C m tk (outcome tk P)) \<Longrightarrow> meets C n r m P"
  by (simp add: meets_def at_start)

lemma runs_tail:
  assumes "meets C n r m P" "at org ts tk" "6 * left org + r \<le> n + 6 * length ts" "\<And>us x. P us x \<Longrightarrow> R (ts @ us) x"
  shows "runs C m tk (outcome org R)"
proof -
  have "p_some m (\<lambda>x. p_return (Some x)) = m"
    by (auto simp: p_some_def p_bind_def p_return_def res_bind_def fun_eq_iff split: sum.splits option.splits)
  moreover have "runs C (p_some m (\<lambda>x. p_return (Some x))) tk (outcome org R)"
    by (rule runs_call [OF assms(1-3)]) (auto intro: outcome_Some assms(4))
  ultimately show ?thesis by simp
qed

text \<open>What the methods of the record promise, each at its rank.\<close>

definition list_prefix :: "'x doubles \<Rightarrow> Token list \<Rightarrow> 'x Expression list \<Rightarrow> bool" where
  "list_prefix D pre l \<longleftrightarrow> (pre = [] \<and> l = []) \<or> (\<exists>us t. pre = us @ [t] \<and> token_type t = T_COMMA \<and> derives_list D us l)"

definition list_outcome ::
  "'x doubles \<Rightarrow> Token list \<Rightarrow> Tokeniser \<Rightarrow> 'x Expression list option \<Rightarrow> Tokeniser \<Rightarrow> bool" where
  "list_outcome D pre org e tk \<longleftrightarrow> (case e of
       None \<Rightarrow> 0 < tokp tk \<and> wf_tk tk
     | Some l \<Rightarrow> \<exists>ts t. past org ts t tk \<and> derives_list D (pre @ ts) l)"

definition list_meets :: "'x doubles \<Rightarrow> (string \<Rightarrow> bool) \<Rightarrow> nat \<Rightarrow> ('x Expression list \<Rightarrow> 'x Expression list option parser) \<Rightarrow> bool" where
  "list_meets D C n m \<longleftrightarrow> (\<forall>pre l tk. list_prefix D pre l \<and> wf_tk tk \<and> fresh tk \<and> 6 * left tk + 4 \<le> n \<longrightarrow>
     runs C (m l) tk (list_outcome D pre tk))"

definition loop_meets ::
  "'x doubles \<Rightarrow> (string \<Rightarrow> bool) \<Rightarrow> nat \<Rightarrow> grammar_symbol \<Rightarrow> ('x Expression \<Rightarrow> 'x Expression option parser) \<Rightarrow> bool" where
  "loop_meets D C n N m \<longleftrightarrow> (\<forall>pre e. derives D N pre e \<longrightarrow> meets C n 1 (m e) (\<lambda>ts. derives D N (pre @ ts)))"

definition Parse_ok :: "'x doubles \<Rightarrow> (string \<Rightarrow> bool) \<Rightarrow> nat \<Rightarrow> 'x Parse \<Rightarrow> bool" where
  "Parse_ok D C n P \<longleftrightarrow>
     meets C n 6 (m_orExpression P) (derives D NT_or) \<and> loop_meets D C n NT_or (m_or_loop P)
   \<and> meets C n 5 (m_andExpression P) (derives D NT_and) \<and> loop_meets D C n NT_and (m_and_loop P)
   \<and> (\<forall>e1. meets C n 1 (m_specialComparisons P e1) (derives_special D e1)) \<and> list_meets D C n (m_in_list_loop P)
   \<and> meets C n 4 (m_comparisonExpression P) (derives D NT_comparison)
   \<and> meets C n 3 (m_addExpression P) (derives D NT_add) \<and> loop_meets D C n NT_add (m_add_loop P)
   \<and> meets C n 2 (m_multiplyExpression P) (derives D NT_multiply) \<and> loop_meets D C n NT_multiply (m_mult_loop P)
   \<and> meets C n 1 (m_unaryArithExpression P) (derives D NT_unary)"

text \<open>The four binary levels have the same form.\<close>

lemma level_meets:
  assumes "meets C n r m (derives D M)" "loop_meets D C n N lp" "1 \<le> r" "\<And>ts e. derives D M ts e \<Longrightarrow> derives D N ts e"
  shows "meets C (Suc n) (Suc r) (p_some m lp) (derives D N)"
proof (rule meetsI)
  fix tk
  assume tk: "at tk [] tk" "6 * left tk + Suc r \<le> Suc n"
  show "runs C (p_some m lp) tk (outcome tk (derives D N))"
  proof (rule runs_call [OF assms(1) tk(1)])
    fix x us tk'
    assume "at tk ([] @ us) tk'" "derives D M us x"
    then show "runs C (lp x) tk' (outcome tk (derives D N))"
      using runs_tail [of C n 1 "lp x" "\<lambda>ts. derives D N (us @ ts)" tk us tk' "derives D N"] assms(2-4) tk(2)
      by (auto simp: loop_meets_def)
  qed (use tk in simp)
qed

lemma loop_step_meets:
  assumes "meets C n r m (derives D M)" "loop_meets D C n N lp" "r \<le> 6"
    and "\<And>t op. sel t = Some op \<Longrightarrow> token_type t \<noteq> T_EOS"
    and "\<And>pre e t op us e2. derives D N pre e \<Longrightarrow> sel t = Some op \<Longrightarrow> derives D M us e2 \<Longrightarrow>
      derives D N (pre @ [t] @ us) (mk op e e2)"
  shows "loop_meets D C (Suc n) N (\<lambda>e. p_next (\<lambda>t. case sel t of
     Some op \<Rightarrow> p_some m (\<lambda>e2. lp (mk op e e2)) | None \<Rightarrow> p_back (p_return (Some e))))"
  unfolding loop_meets_def
proof (intro allI impI meetsI)
  fix pre e tk
  assume e: "derives D N pre e" and tk: "at tk [] tk" "6 * left tk + 1 \<le> Suc n"
  show "runs C (p_next (\<lambda>t. case sel t of Some op \<Rightarrow> p_some m (\<lambda>e2. lp (mk op e e2)) | None \<Rightarrow> p_back (p_return (Some e))))
      tk (outcome tk (\<lambda>ts. derives D N (pre @ ts)))"
  proof (rule runs_next [OF tk(1)])
    fix t tk'
    assume t: "past tk [] t tk'"
    show "runs C (case sel t of Some op \<Rightarrow> p_some m (\<lambda>e2. lp (mk op e e2)) | None \<Rightarrow> p_back (p_return (Some e)))
      tk' (outcome tk (\<lambda>ts. derives D N (pre @ ts)))"
    proof (cases "sel t")
      case None
      then show ?thesis by (auto intro!: runs_back [OF t] outcome_Some simp: e)
    next
      case (Some op)
      have at': "at tk [t] tk'" using past_at [OF t] assms(4) [OF Some] by simp
      have "runs C (p_some m (\<lambda>e2. lp (mk op e e2))) tk' (outcome tk (\<lambda>ts. derives D N (pre @ ts)))"
      proof (rule runs_call [OF assms(1) at'])
        fix x us tk''
        assume us: "at tk ([t] @ us) tk''" and x: "derives D M us x"
        have "meets C n 1 (lp (mk op e x)) (\<lambda>ts. derives D N ((pre @ [t] @ us) @ ts))"
          using assms(2) assms(5) [OF e Some x] unfolding loop_meets_def by blast
        then show "runs C (lp (mk op e x)) tk'' (outcome tk (\<lambda>ts. derives D N (pre @ ts)))"
          by (rule runs_tail [OF _ us]) (use tk in simp_all)
      qed (use tk assms(3) in simp)
      then show ?thesis using Some by simp
    qed
  qed
qed

lemma Parse_okD:
  assumes "Parse_ok D C n P"
  shows "meets C n 6 (m_orExpression P) (derives D NT_or)" "loop_meets D C n NT_or (m_or_loop P)"
    "meets C n 5 (m_andExpression P) (derives D NT_and)" "loop_meets D C n NT_and (m_and_loop P)"
    "meets C n 1 (m_specialComparisons P e1) (derives_special D e1)" "list_meets D C n (m_in_list_loop P)"
    "meets C n 4 (m_comparisonExpression P) (derives D NT_comparison)"
    "meets C n 3 (m_addExpression P) (derives D NT_add)" "loop_meets D C n NT_add (m_add_loop P)"
    "meets C n 2 (m_multiplyExpression P) (derives D NT_multiply)" "loop_meets D C n NT_multiply (m_mult_loop P)"
    "meets C n 1 (m_unaryArithExpression P) (derives D NT_unary)"
  using assms unfolding Parse_ok_def by blast+

lemma levels_meet:
  assumes "Parse_ok D C n P"
  shows "meets C (Suc n) 6 (orExpression P) (derives D NT_or)" "meets C (Suc n) 5 (andExpression P) (derives D NT_and)"
    "meets C (Suc n) 3 (addExpression P) (derives D NT_add)" "meets C (Suc n) 2 (multiplyExpression P) (derives D NT_multiply)"
proof -
  note ok = Parse_okD [OF assms]
  show "meets C (Suc n) 6 (orExpression P) (derives D NT_or)"
    unfolding orExpression_def using level_meets [OF ok(3) ok(2) _ g_or] by simp
  show "meets C (Suc n) 5 (andExpression P) (derives D NT_and)"
    unfolding andExpression_def using level_meets [OF ok(7) ok(4) _ g_and] by simp
  show "meets C (Suc n) 3 (addExpression P) (derives D NT_add)"
    unfolding addExpression_def using level_meets [OF ok(10) ok(9) _ g_add] by simp
  show "meets C (Suc n) 2 (multiplyExpression P) (derives D NT_multiply)"
    unfolding multiplyExpression_def using level_meets [OF ok(12) ok(11) _ g_multiply] by (simp add: numeral_2_eq_2)
qed

lemma case_if_Some: "(case (if b then Some () else None) of Some op \<Rightarrow> x | None \<Rightarrow> y) = (if b then x else y)"
  by simp

lemma loops_meet:
  assumes "Parse_ok D C n P"
  shows "loop_meets D C (Suc n) NT_or (or_loop P)" "loop_meets D C (Suc n) NT_and (and_loop P)"
    "loop_meets D C (Suc n) NT_add (add_loop P)" "loop_meets D C (Suc n) NT_multiply (mult_loop P)"
proof -
  note ok = Parse_okD [OF assms]
  have "loop_meets D C (Suc n) NT_or (\<lambda>e. p_next (\<lambda>t. case if token_type t = T_OR then Some () else None of
      Some op \<Rightarrow> p_some (m_andExpression P) (\<lambda>e2. m_or_loop P (OrExpression e e2))
    | None \<Rightarrow> p_back (p_return (Some e))))"
    by (rule loop_step_meets [OF ok(3) ok(2)]) (auto intro: g_or_or [simplified] split: if_splits)
  then show "loop_meets D C (Suc n) NT_or (or_loop P)" unfolding or_loop_def [abs_def] case_if_Some .
  have "loop_meets D C (Suc n) NT_and (\<lambda>e. p_next (\<lambda>t. case if token_type t = T_AND then Some () else None of
      Some op \<Rightarrow> p_some (m_comparisonExpression P) (\<lambda>e2. m_and_loop P (AndExpression e e2))
    | None \<Rightarrow> p_back (p_return (Some e))))"
    by (rule loop_step_meets [OF ok(7) ok(4)]) (auto intro: g_and_and [simplified] split: if_splits)
  then show "loop_meets D C (Suc n) NT_and (and_loop P)" unfolding and_loop_def [abs_def] case_if_Some .
  show "loop_meets D C (Suc n) NT_add (add_loop P)"
    unfolding add_loop_def [abs_def]
    by (rule loop_step_meets [OF ok(10) ok(9)]) (auto intro: g_add_add [simplified])
  show "loop_meets D C (Suc n) NT_multiply (mult_loop P)"
    unfolding mult_loop_def [abs_def]
    by (rule loop_step_meets [OF ok(12) ok(11)]) (auto intro: g_multiply_multiply [simplified])
qed

lemma runs_cases_token:
  "past org ts t tk \<Longrightarrow> runs C (p_return None) tk (outcome orgn P)"
  by (simp add: outcome_None)

lemma primary_of_error: "primary_of D t = Inl e \<Longrightarrow> allowed C e"
  by (auto simp: primary_of_def lexical_cast_int64_def throw_if_def allowed_def split: TokenType.splits if_splits option.splits)

lemma primary_of_proper: "primary_of D t = Inr (Some e) \<Longrightarrow> token_type t \<noteq> T_EOS"
  by (auto simp: primary_of_def)

lemma primary_meets: "meets C n 1 (primaryExpression D) (\<lambda>ts e. \<exists>t. ts = [t] \<and> primary_of D t = Inr (Some e))"
proof (rule meetsI)
  fix tk
  assume tk: "at tk [] tk"
  show "runs C (primaryExpression D) tk (outcome tk (\<lambda>ts e. \<exists>t. ts = [t] \<and> primary_of D t = Inr (Some e)))"
    unfolding primaryExpression_def
  proof (rule runs_next [OF tk])
    fix t tk'
    assume t: "past tk [] t tk'"
    show "runs C (\<lambda>tk. res_bind (primary_of D t) (\<lambda>e. Inr (e, tk))) tk'
        (outcome tk (\<lambda>ts e. \<exists>t. ts = [t] \<and> primary_of D t = Inr (Some e)))"
    proof (cases "primary_of D t")
      case (Inl e)
      then show ?thesis using primary_of_error [OF Inl] by (simp add: runs_def)
    next
      case (Inr x)
      then show ?thesis
        using outcome_None [OF t] past_at [OF t] primary_of_proper [of D t]
        by (cases x) (auto simp: runs_def intro: outcome_Some)
    qed
  qed
qed

lemma unary_meets:
  assumes "Parse_ok D C n P"
  shows "meets C (Suc n) 1 (unaryArithExpression D P) (derives D NT_unary)"
  unfolding unaryArithExpression_def
proof (rule meetsI, rule runs_next)
  fix tk t tk'
  assume tk: "at tk [] tk" "6 * left tk + 1 \<le> Suc n" and t: "past tk [] t tk'"
  note ok = Parse_okD [OF assms]
  have lp: "runs C (p_some (m_orExpression P) (\<lambda>e. p_next (\<lambda>t'. if token_type t' \<noteq> T_RPAREN then p_return None else p_return (Some e))))
      tk' (outcome tk (derives D NT_unary))" if l: "token_type t = T_LPAREN"
  proof (rule runs_call [OF ok(1), where ts = "[t]" and org = tk])
    fix e us tk''
    assume us: "at tk ([t] @ us) tk''" "derives D NT_or us e"
    show "runs C (p_next (\<lambda>t'. if token_type t' \<noteq> T_RPAREN then p_return None else p_return (Some e))) tk''
        (outcome tk (derives D NT_unary))"
    proof (rule runs_next [OF us(1)])
      fix t' tk3
      assume t': "past tk ([t] @ us) t' tk3"
      show "runs C (if token_type t' \<noteq> T_RPAREN then p_return None else p_return (Some e)) tk3 (outcome tk (derives D NT_unary))"
        using outcome_None [OF t'] past_at [OF t'] g_parentheses [OF l us(2), of t'] by (auto intro: outcome_Some)
    qed
  qed (use past_at [OF t] l tk in simp_all)
  have mn: "runs C (p_some (m_unaryArithExpression P) (\<lambda>e. p_return (Some (UnaryArithExpression Negate e))))
      tk' (outcome tk (derives D NT_unary))" if m: "token_type t = T_MINUS"
    by (rule runs_call [OF ok(12), where ts = "[t]" and org = tk])
      (use past_at [OF t] m tk in \<open>auto intro!: outcome_Some intro: g_minus\<close>)
  have pr: "runs C (p_back (primaryExpression D)) tk' (outcome tk (derives D NT_unary))"
    by (rule runs_back [OF t], rule runs_tail [OF primary_meets [of C "6 * left tk + 1"], where ts = "[]" and org = tk])
      (auto intro: g_primary)
  show "runs C (case token_type t of
         T_LPAREN \<Rightarrow>
           p_some (m_orExpression P) (\<lambda>e.
             p_next (\<lambda>t'. if token_type t' \<noteq> T_RPAREN then p_return None else p_return (Some e)))
       | T_MINUS \<Rightarrow> p_some (m_unaryArithExpression P) (\<lambda>e. p_return (Some (UnaryArithExpression Negate e)))
       | _ \<Rightarrow> p_back (primaryExpression D)) tk' (outcome tk (derives D NT_unary))"
    using lp mn pr by (simp split: TokenType.split)
qed

lemma in_list_meets:
  assumes "Parse_ok D C n P"
  shows "list_meets D C (Suc n) (in_list_loop P)"
  unfolding list_meets_def
proof (intro allI impI, elim conjE)
  fix pre l tk
  assume pre: "list_prefix D pre l" and tk: "wf_tk tk" "fresh tk" "6 * left tk + 4 \<le> Suc n"
  note ok = Parse_okD [OF assms]
  have start: "at tk [] tk" using tk by (simp add: at_start)
  have "runs C (m_addExpression P) tk (outcome tk (derives D NT_add))"
    using ok(8) tk by (simp add: meets_def)
  then show "runs C (in_list_loop P l) tk (list_outcome D pre tk)"
    unfolding in_list_loop_def p_some_def
  proof (rule runs_bind)
    fix e tk'
    assume e: "outcome tk (derives D NT_add) e tk'"
    have rest: "runs C (p_next (\<lambda>t. if token_type t = T_COMMA then m_in_list_loop P (l @ [x]) else p_return (Some (l @ [x]))))
        tk' (list_outcome D pre tk)" if us: "at tk us tk'" "derives D NT_add us x" for us x
    proof (rule runs_next [OF us(1)])
      fix t tk''
      assume t: "past tk us t tk''"
      have dl: "derives_list D (pre @ us) (l @ [x])"
        using pre us(2) by (auto simp: list_prefix_def intro: g_one g_more [simplified])
      show "runs C (if token_type t = T_COMMA then m_in_list_loop P (l @ [x]) else p_return (Some (l @ [x]))) tk''
          (list_outcome D pre tk)"
      proof (cases "token_type t = T_COMMA")
        case True
        then have at': "at tk (us @ [t]) tk''" using past_at [OF t] by simp
        have "list_prefix D (pre @ us @ [t]) (l @ [x])" using dl True by (auto simp: list_prefix_def)
        moreover have "6 * left tk'' + 4 \<le> n" using at_left [OF at'] tk(3) by simp
        ultimately have *: "runs C (m_in_list_loop P (l @ [x])) tk'' (list_outcome D (pre @ us @ [t]) tk'')"
          using ok(6) at_state [OF at'] unfolding list_meets_def by blast
        have "list_outcome D pre tk r tk3" if "list_outcome D (pre @ us @ [t]) tk'' r tk3" for r tk3
        proof (cases r)
          case (Some l')
          with that obtain vs v where "past tk'' vs v tk3" "derives_list D ((pre @ us @ [t]) @ vs) l'"
            by (auto simp: list_outcome_def)
          moreover have "past tk ((us @ [t]) @ vs) v tk3"
            using at' calculation(1) moves_trans [of tk "us @ [t]" tk'' "vs @ [v]" tk3] by (simp add: past_def at_def)
          ultimately show ?thesis using Some by (fastforce simp: list_outcome_def)
        qed (use that in \<open>simp add: list_outcome_def\<close>)
        then show ?thesis using * True by (auto simp: runs_def split: sum.splits prod.splits)
      next
        case False
        then show ?thesis using t dl by (auto simp: list_outcome_def)
      qed
    qed
    show "runs C (case e of None \<Rightarrow> p_return None
        | Some e \<Rightarrow> p_next (\<lambda>t. if token_type t = T_COMMA then m_in_list_loop P (l @ [e]) else p_return (Some (l @ [e]))))
        tk' (list_outcome D pre tk)"
    proof (cases e)
      case None
      then show ?thesis using e by (simp add: outcome_def list_outcome_def)
    next
      case (Some x)
      then show ?thesis using e rest by (auto simp: outcome_def)
    qed
  qed
qed

lemma toRegex_short: "length escape \<le> 1 \<Longrightarrow> \<exists>re. toRegex like escape = Inr re"
  by (simp add: toRegex_def)

lemma runs_like:
  assumes "length escape \<le> 1" "\<And>re. toRegex like escape = Inr re \<Longrightarrow> Q (Some (LikeExpression e re)) tk"
  shows "runs C (LikeExpression_new C e like escape) tk Q"
proof -
  obtain re where "toRegex like escape = Inr re" using toRegex_short [OF assms(1)] by blast
  then show ?thesis using assms(2) by (auto simp: runs_def LikeExpression_new_def allowed_def)
qed

lemma like_runs:
  assumes "at org [l] tk" "token_type l = T_LIKE"
  shows "runs C (p_next (\<lambda>t. if token_type t \<noteq> T_STRING then p_return None
     else p_next (\<lambda>t'. if token_type t' = T_ESCAPE
       then p_next (\<lambda>e. if token_type e \<noteq> T_STRING then p_return None
         else if 1 < length (token_val e) then throwParseError
         else LikeExpression_new C e1 (token_val t) (token_val e))
       else p_back (LikeExpression_new C e1 (token_val t) [])))) tk (outcome org (derives_special D e1))"
proof (rule runs_next [OF assms(1)])
  fix t tk1
  assume t: "past org [l] t tk1"
  have "runs C (p_next (\<lambda>t'. if token_type t' = T_ESCAPE
       then p_next (\<lambda>e. if token_type e \<noteq> T_STRING then p_return None
         else if 1 < length (token_val e) then throwParseError
         else LikeExpression_new C e1 (token_val t) (token_val e))
       else p_back (LikeExpression_new C e1 (token_val t) []))) tk1 (outcome org (derives_special D e1))"
    if s: "token_type t = T_STRING"
  proof (rule runs_next [of org "[l, t]"])
    show "at org [l, t] tk1" using past_at [OF t] s by simp
    fix k tk2
    assume k: "past org [l, t] k tk2"
    have esc: "runs C (p_next (\<lambda>e. if token_type e \<noteq> T_STRING then p_return None
         else if 1 < length (token_val e) then throwParseError
         else LikeExpression_new C e1 (token_val t) (token_val e))) tk2 (outcome org (derives_special D e1))"
      if ke: "token_type k = T_ESCAPE"
    proof (rule runs_next [of org "[l, t, k]"])
      show "at org [l, t, k] tk2" using past_at [OF k] ke by simp
      fix u tk3
      assume u: "past org [l, t, k] u tk3"
      have "runs C (LikeExpression_new C e1 (token_val t) (token_val u)) tk3 (outcome org (derives_special D e1))"
        if "token_type u = T_STRING" "length (token_val u) \<le> 1"
        by (rule runs_like [OF that(2)])
          (use past_at [OF u] assms(2) s ke that(1) in \<open>auto intro!: outcome_Some g_like_escape\<close>)
      moreover have "runs C throwParseError tk3 (outcome org (derives_special D e1))"
        using u by (intro runs_throwParseError) (auto simp: past_def moves_def)
      ultimately show "runs C (if token_type u \<noteq> T_STRING then p_return None
         else if 1 < length (token_val u) then throwParseError
         else LikeExpression_new C e1 (token_val t) (token_val u)) tk3 (outcome org (derives_special D e1))"
        by (simp add: outcome_None [OF u])
    qed
    have "runs C (p_back (LikeExpression_new C e1 (token_val t) [])) tk2 (outcome org (derives_special D e1))"
      by (rule runs_back [OF k], rule runs_like) (use assms(2) s in \<open>auto intro!: outcome_Some g_like\<close>)
    with esc show "runs C (if token_type k = T_ESCAPE
       then p_next (\<lambda>e. if token_type e \<noteq> T_STRING then p_return None
         else if 1 < length (token_val e) then throwParseError
         else LikeExpression_new C e1 (token_val t) (token_val e))
       else p_back (LikeExpression_new C e1 (token_val t) [])) tk2 (outcome org (derives_special D e1))" by simp
  qed
  then show "runs C (if token_type t \<noteq> T_STRING then p_return None
     else p_next (\<lambda>t'. if token_type t' = T_ESCAPE
       then p_next (\<lambda>e. if token_type e \<noteq> T_STRING then p_return None
         else if 1 < length (token_val e) then throwParseError
         else LikeExpression_new C e1 (token_val t) (token_val e))
       else p_back (LikeExpression_new C e1 (token_val t) []))) tk1 (outcome org (derives_special D e1))"
    by (simp add: outcome_None [OF t])
qed

lemma between_runs:
  assumes "Parse_ok D C n P" "at org [b] tk" "token_type b = T_BETWEEN" "6 * left org + 1 \<le> Suc n"
  shows "runs C (p_some (m_addExpression P) (\<lambda>lower.
     p_next (\<lambda>t. if token_type t \<noteq> T_AND then p_return None
       else p_some (m_addExpression P) (\<lambda>upper. p_return (Some (BetweenExpression e1 lower upper)))))) tk
     (outcome org (derives_special D e1))"
proof (rule runs_call [OF Parse_okD(8) [OF assms(1)] assms(2)])
  show "6 * left org + 3 \<le> n + 6 * length [b]" using assms(4) by simp
  fix lower ts tk1
  assume ts: "at org ([b] @ ts) tk1" "derives D NT_add ts lower"
  show "runs C (p_next (\<lambda>t. if token_type t \<noteq> T_AND then p_return None
       else p_some (m_addExpression P) (\<lambda>upper. p_return (Some (BetweenExpression e1 lower upper))))) tk1
     (outcome org (derives_special D e1))"
  proof (rule runs_next [OF ts(1)])
    fix a tk2
    assume a: "past org ([b] @ ts) a tk2"
    have "runs C (p_some (m_addExpression P) (\<lambda>upper. p_return (Some (BetweenExpression e1 lower upper)))) tk2
      (outcome org (derives_special D e1))" if aa: "token_type a = T_AND"
    proof (rule runs_call [OF Parse_okD(8) [OF assms(1)], of org "([b] @ ts) @ [a]"])
      show "at org (([b] @ ts) @ [a]) tk2" using past_at [OF a] aa by simp
      show "6 * left org + 3 \<le> n + 6 * length (([b] @ ts) @ [a])" using assms(4) by simp
      fix upper us tk3
      assume us: "at org ((([b] @ ts) @ [a]) @ us) tk3" "derives D NT_add us upper"
      then show "runs C (p_return (Some (BetweenExpression e1 lower upper))) tk3 (outcome org (derives_special D e1))"
        using g_between [OF assms(3) ts(2) aa us(2), of e1] by (auto intro: outcome_Some)
    qed
    then show "runs C (if token_type a \<noteq> T_AND then p_return None
       else p_some (m_addExpression P) (\<lambda>upper. p_return (Some (BetweenExpression e1 lower upper)))) tk2
      (outcome org (derives_special D e1))" by (simp add: outcome_None [OF a])
  qed
qed

lemma in_runs:
  assumes "Parse_ok D C n P" "at org [i] tk" "token_type i = T_IN" "6 * left org + 1 \<le> Suc n"
  shows "runs C (p_next (\<lambda>t. if token_type t \<noteq> T_LPAREN then p_return None
     else p_some (m_in_list_loop P []) (\<lambda>l. p_back (p_next (\<lambda>t'.
       if token_type t' \<noteq> T_RPAREN then p_return None else p_return (Some (InExpression e1 l))))))) tk
     (outcome org (derives_special D e1))"
proof (rule runs_next [OF assms(2)])
  fix l tk1
  assume l: "past org [i] l tk1"
  let ?tail = "\<lambda>es. p_back (p_next (\<lambda>t'. if token_type t' \<noteq> T_RPAREN then p_return None else p_return (Some (InExpression e1 es))))"
  have "runs C (p_some (m_in_list_loop P []) ?tail) tk1 (outcome org (derives_special D e1))"
    if lp: "token_type l = T_LPAREN"
  proof -
    have at1: "at org [i, l] tk1" using past_at [OF l] lp by simp
    have "6 * left tk1 + 4 \<le> n" using at_left [OF at1] assms(4) by simp
    then have "runs C (m_in_list_loop P []) tk1 (list_outcome D [] tk1)"
      using Parse_okD(6) [OF assms(1)] at_state [OF at1] by (simp add: list_meets_def list_prefix_def)
    then show ?thesis
      unfolding p_some_def
    proof (rule runs_bind)
      fix r tk2
      assume r: "list_outcome D [] tk1 r tk2"
      show "runs C (case r of None \<Rightarrow> p_return None | Some es \<Rightarrow> ?tail es) tk2 (outcome org (derives_special D e1))"
      proof (cases r)
        case (Some es)
        with r obtain us u where us: "past tk1 us u tk2" "derives_list D us es" by (auto simp: list_outcome_def)
        have p2: "past org ([i, l] @ us) u tk2"
          using at1 us(1) moves_trans [of org "[i, l]" tk1 "us @ [u]" tk2] by (simp add: past_def at_def)
        have "runs C (?tail es) tk2 (outcome org (derives_special D e1))"
        proof (rule runs_back [OF p2], rule runs_next)
          fix tk3 v tk4
          assume v: "past org ([i, l] @ us) v tk4"
          show "runs C (if token_type v \<noteq> T_RPAREN then p_return None else p_return (Some (InExpression e1 es))) tk4
              (outcome org (derives_special D e1))"
            using past_at [OF v] g_in [OF assms(3) lp us(2), of v e1]
            by (auto simp: outcome_None [OF v] intro: outcome_Some)
        qed
        then show ?thesis using Some by simp
      qed (use r in \<open>simp add: list_outcome_def outcome_def\<close>)
    qed
  qed
  then show "runs C (if token_type l \<noteq> T_LPAREN then p_return None else p_some (m_in_list_loop P []) ?tail) tk1
     (outcome org (derives_special D e1))" by (simp add: outcome_None [OF l])
qed

lemma special_meets:
  assumes "Parse_ok D C n P"
  shows "meets C (Suc n) 1 (specialComparisons C P e1) (derives_special D e1)"
  unfolding specialComparisons_def
proof (rule meetsI, rule runs_next, assumption)
  fix tk t tk'
  assume tk: "at tk [] tk" "6 * left tk + 1 \<le> Suc n" and t: "past tk [] t tk'"
  have at': "token_type t \<noteq> T_EOS \<Longrightarrow> at tk [t] tk'" using past_at [OF t] by simp
  show "runs C (case token_type t of
         T_LIKE \<Rightarrow>
           p_next (\<lambda>t. if token_type t \<noteq> T_STRING then p_return None
             else p_next (\<lambda>t'. if token_type t' = T_ESCAPE
               then p_next (\<lambda>e. if token_type e \<noteq> T_STRING then p_return None
                 else if 1 < length (token_val e) then throwParseError
                 else LikeExpression_new C e1 (token_val t) (token_val e))
               else p_back (LikeExpression_new C e1 (token_val t) [])))
       | T_BETWEEN \<Rightarrow>
           p_some (m_addExpression P) (\<lambda>lower.
             p_next (\<lambda>t. if token_type t \<noteq> T_AND then p_return None
               else p_some (m_addExpression P) (\<lambda>upper. p_return (Some (BetweenExpression e1 lower upper)))))
       | T_IN \<Rightarrow>
           p_next (\<lambda>t. if token_type t \<noteq> T_LPAREN then p_return None
             else p_some (m_in_list_loop P []) (\<lambda>l. p_back (p_next (\<lambda>t'.
               if token_type t' \<noteq> T_RPAREN then p_return None else p_return (Some (InExpression e1 l))))))
       | _ \<Rightarrow> p_return None) tk' (outcome tk (derives_special D e1))"
    using like_runs [OF at', of C e1 D] between_runs [OF assms at' _ tk(2), of e1] in_runs [OF assms at' _ tk(2), of e1]
      outcome_None [OF t, of tk "derives_special D e1"]
    by (cases "token_type t") (simp_all del: One_nat_def)
qed

text \<open>What follows the first operand of a comparison.\<close>

definition comparison_rest :: "'x Parse \<Rightarrow> 'x Expression \<Rightarrow> 'x Expression option parser" where
  "comparison_rest P e1 = p_next (\<lambda>t1. case token_type t1 of
     T_IS \<Rightarrow>
       p_next (\<lambda>t2. if token_type t2 = T_NULL then p_return (Some (UnaryBooleanExpression IsNull e1))
         else if token_type t2 = T_NOT
         then p_next (\<lambda>t3. if token_type t3 = T_NULL
           then p_return (Some (UnaryBooleanExpression IsNonNull e1)) else p_return None)
         else p_return None)
   | T_NOT \<Rightarrow> p_some (m_specialComparisons P e1) (\<lambda>e. p_return (Some (UnaryBooleanExpression Not e)))
   | T_BETWEEN \<Rightarrow> p_back (m_specialComparisons P e1)
   | T_LIKE \<Rightarrow> p_back (m_specialComparisons P e1)
   | T_IN \<Rightarrow> p_back (m_specialComparisons P e1)
   | _ \<Rightarrow> p_back (p_next (\<lambda>t2. case comparison_op (token_type t2) of
         None \<Rightarrow> p_back (p_return (Some e1))
       | Some op \<Rightarrow> p_some (m_addExpression P) (\<lambda>e2. p_return (Some (ComparisonExpression op e1 e2))))))"

lemma comparison_unfold:
  "comparisonExpression P =
     p_next (\<lambda>t. if token_type t = T_NOT
       then p_some (m_comparisonExpression P) (\<lambda>e. p_return (Some (UnaryBooleanExpression Not e)))
       else p_back (p_some (m_addExpression P) (comparison_rest P)))"
  unfolding comparisonExpression_def comparison_rest_def [abs_def] ..

lemma is_null_runs:
  assumes "at org (ts @ [i]) tk" "derives D NT_add ts e1" "token_type i = T_IS"
  shows "runs C (p_next (\<lambda>t2. if token_type t2 = T_NULL then p_return (Some (UnaryBooleanExpression IsNull e1))
         else if token_type t2 = T_NOT
         then p_next (\<lambda>t3. if token_type t3 = T_NULL
           then p_return (Some (UnaryBooleanExpression IsNonNull e1)) else p_return None)
         else p_return None)) tk (outcome org (derives D NT_comparison))"
proof (rule runs_next [OF assms(1)])
  fix t tk1
  assume t: "past org (ts @ [i]) t tk1"
  have "runs C (p_next (\<lambda>t3. if token_type t3 = T_NULL
      then p_return (Some (UnaryBooleanExpression IsNonNull e1)) else p_return None)) tk1 (outcome org (derives D NT_comparison))"
    if n: "token_type t = T_NOT"
  proof (rule runs_next [of org "ts @ [i, t]"])
    show "at org (ts @ [i, t]) tk1" using past_at [OF t] n by simp
    fix u tk2
    assume u: "past org (ts @ [i, t]) u tk2"
    show "runs C (if token_type u = T_NULL then p_return (Some (UnaryBooleanExpression IsNonNull e1)) else p_return None) tk2
        (outcome org (derives D NT_comparison))"
      using past_at [OF u] g_is_not_null [OF assms(2,3) n, of u]
      by (auto simp: outcome_None [OF u] intro: outcome_Some)
  qed
  then show "runs C (if token_type t = T_NULL then p_return (Some (UnaryBooleanExpression IsNull e1))
         else if token_type t = T_NOT
         then p_next (\<lambda>t3. if token_type t3 = T_NULL
           then p_return (Some (UnaryBooleanExpression IsNonNull e1)) else p_return None)
         else p_return None) tk1 (outcome org (derives D NT_comparison))"
    using past_at [OF t] g_is_null [OF assms(2,3), of t] by (auto simp: outcome_None [OF t] intro: outcome_Some)
qed

lemma compare_runs:
  assumes "Parse_ok D C n P" "at org ts tk" "derives D NT_add ts e1" "6 * left org + 3 \<le> n"
  shows "runs C (p_next (\<lambda>t2. case comparison_op (token_type t2) of
         None \<Rightarrow> p_back (p_return (Some e1))
       | Some op \<Rightarrow> p_some (m_addExpression P) (\<lambda>e2. p_return (Some (ComparisonExpression op e1 e2))))) tk
     (outcome org (derives D NT_comparison))"
proof (rule runs_next [OF assms(2)])
  fix t tk1
  assume t: "past org ts t tk1"
  show "runs C (case comparison_op (token_type t) of
         None \<Rightarrow> p_back (p_return (Some e1))
       | Some op \<Rightarrow> p_some (m_addExpression P) (\<lambda>e2. p_return (Some (ComparisonExpression op e1 e2)))) tk1
     (outcome org (derives D NT_comparison))"
  proof (cases "comparison_op (token_type t)")
    case None
    then show ?thesis using assms(3) by (auto intro!: runs_back [OF t] outcome_Some g_comparison)
  next
    case (Some op)
    have "runs C (p_some (m_addExpression P) (\<lambda>e2. p_return (Some (ComparisonExpression op e1 e2)))) tk1
        (outcome org (derives D NT_comparison))"
    proof (rule runs_call [OF Parse_okD(8) [OF assms(1)], of org "ts @ [t]"])
      have "token_type t \<noteq> T_EOS" using Some by (cases "token_type t") simp_all
      then show "at org (ts @ [t]) tk1" by (rule past_at [OF t])
      show "6 * left org + 3 \<le> n + 6 * length (ts @ [t])" using assms(4) by simp
      fix e2 us tk2
      assume "at org ((ts @ [t]) @ us) tk2" "derives D NT_add us e2"
      then show "runs C (p_return (Some (ComparisonExpression op e1 e2))) tk2 (outcome org (derives D NT_comparison))"
        using g_compare [OF assms(3) Some, of us e2] by (auto intro: outcome_Some)
    qed
    then show ?thesis using Some by simp
  qed
qed

lemma comparison_rest_runs:
  assumes "Parse_ok D C n P" "at org ts tk" "derives D NT_add ts e1" "6 * left org + 3 \<le> n"
  shows "runs C (comparison_rest P e1) tk (outcome org (derives D NT_comparison))"
  unfolding comparison_rest_def
proof (rule runs_next [OF assms(2)])
  fix t tk1
  assume t: "past org ts t tk1"
  note special = Parse_okD(5) [OF assms(1), of e1]
  have isn: "token_type t = T_IS \<Longrightarrow> at org (ts @ [t]) tk1" using past_at [OF t] by simp
  have sp: "runs C (p_back (m_specialComparisons P e1)) tk1 (outcome org (derives D NT_comparison))"
    by (rule runs_back [OF t], rule runs_tail [OF special, where ts = ts])
      (use assms in \<open>auto intro: g_special\<close>)
  have ns: "runs C (p_some (m_specialComparisons P e1) (\<lambda>e. p_return (Some (UnaryBooleanExpression Not e)))) tk1
      (outcome org (derives D NT_comparison))" if "token_type t = T_NOT"
    by (rule runs_call [OF special, of org "ts @ [t]"])
      (use past_at [OF t] assms that in \<open>auto intro!: outcome_Some g_not_special [simplified]\<close>)
  have cmp: "runs C (p_back (p_next (\<lambda>t2. case comparison_op (token_type t2) of
         None \<Rightarrow> p_back (p_return (Some e1))
       | Some op \<Rightarrow> p_some (m_addExpression P) (\<lambda>e2. p_return (Some (ComparisonExpression op e1 e2)))))) tk1
     (outcome org (derives D NT_comparison))"
    by (rule runs_back [OF t]) (rule compare_runs [OF assms(1) _ assms(3,4)])
  show "runs C (case token_type t of
     T_IS \<Rightarrow>
       p_next (\<lambda>t2. if token_type t2 = T_NULL then p_return (Some (UnaryBooleanExpression IsNull e1))
         else if token_type t2 = T_NOT
         then p_next (\<lambda>t3. if token_type t3 = T_NULL
           then p_return (Some (UnaryBooleanExpression IsNonNull e1)) else p_return None)
         else p_return None)
   | T_NOT \<Rightarrow> p_some (m_specialComparisons P e1) (\<lambda>e. p_return (Some (UnaryBooleanExpression Not e)))
   | T_BETWEEN \<Rightarrow> p_back (m_specialComparisons P e1)
   | T_LIKE \<Rightarrow> p_back (m_specialComparisons P e1)
   | T_IN \<Rightarrow> p_back (m_specialComparisons P e1)
   | _ \<Rightarrow> p_back (p_next (\<lambda>t2. case comparison_op (token_type t2) of
         None \<Rightarrow> p_back (p_return (Some e1))
       | Some op \<Rightarrow> p_some (m_addExpression P) (\<lambda>e2. p_return (Some (ComparisonExpression op e1 e2)))))) tk1
     (outcome org (derives D NT_comparison))"
    using is_null_runs [OF isn assms(3), of C] sp ns cmp by (cases "token_type t") simp_all
qed

lemma comparison_meets:
  assumes "Parse_ok D C n P"
  shows "meets C (Suc n) 4 (comparisonExpression P) (derives D NT_comparison)"
  unfolding comparison_unfold
proof (rule meetsI, rule runs_next, assumption)
  fix tk t tk'
  assume tk: "at tk [] tk" "6 * left tk + 4 \<le> Suc n" and t: "past tk [] t tk'"
  note ok = Parse_okD [OF assms]
  have "runs C (p_some (m_comparisonExpression P) (\<lambda>e. p_return (Some (UnaryBooleanExpression Not e)))) tk'
      (outcome tk (derives D NT_comparison))" if "token_type t = T_NOT"
    by (rule runs_call [OF ok(7), of tk "[t]"])
      (use past_at [OF t] that tk in \<open>auto intro!: outcome_Some intro: g_not\<close>)
  moreover have "runs C (p_back (p_some (m_addExpression P) (comparison_rest P))) tk' (outcome tk (derives D NT_comparison))"
  proof (rule runs_back [OF t], rule runs_call [OF ok(8)], assumption)
    fix tk2 x us tk3
    assume "at tk ([] @ us) tk3" "derives D NT_add us x"
    then show "runs C (comparison_rest P x) tk3 (outcome tk (derives D NT_comparison))"
      using comparison_rest_runs [OF assms] tk by simp
  qed (use tk in simp)
  ultimately show "runs C (if token_type t = T_NOT
       then p_some (m_comparisonExpression P) (\<lambda>e. p_return (Some (UnaryBooleanExpression Not e)))
       else p_back (p_some (m_addExpression P) (comparison_rest P))) tk' (outcome tk (derives D NT_comparison))" by simp
qed

lemma Parse_methods_ok: "Parse_ok D C n (Parse_methods D C n)"
proof (induction n)
  case 0
  show ?case by (simp add: Parse_ok_def meets_def loop_meets_def list_meets_def)
next
  case (Suc n)
  note all = levels_meet [OF Suc] loops_meet [OF Suc] unary_meets [OF Suc] in_list_meets [OF Suc]
    special_meets [OF Suc] comparison_meets [OF Suc]
  show ?case unfolding Parse_ok_def Parse_methods.simps Parse_step_def Parse.select_convs
    by (intro conjI allI all)
qed

section \<open>Parsing a selector\<close>

definition selector_derives :: "'x doubles \<Rightarrow> string \<Rightarrow> 'x Expression \<Rightarrow> bool" where
  "selector_derives D s e \<longleftrightarrow>
     (\<exists>ts eos r. chain s (ts @ [eos]) r \<and> token_type eos = T_EOS \<and> derives D NT_or ts e)"

lemma moves_chain: "moves (Tokeniser_init s) ts tk \<Longrightarrow> \<exists>r. chain s ts r"
proof -
  assume "moves (Tokeniser_init s) ts tk"
  then have "take (length ts) (tokens tk) = ts" "chain s (tokens tk) (inp tk)"
    by (auto simp: moves_def Tokeniser_init_def)
  then show ?thesis by (metis append_take_drop_id chain_append)
qed

lemma parse_runs:
  "case parse D C s of Inl e \<Rightarrow> allowed C e | Inr e \<Rightarrow> selector_derives D s e"
proof -
  let ?tk = "Tokeniser_init s"
  have start: "at ?tk [] ?tk" by (simp add: at_start wf_tk_def fresh_def Tokeniser_init_def)
  have "6 * left ?tk + 6 \<le> parse_fuel s" by (simp add: left_def Tokeniser_init_def parse_fuel_def)
  then have o: "runs C (m_orExpression (Parse_methods D C (parse_fuel s))) ?tk (outcome ?tk (derives D NT_or))"
    using Parse_okD(1) [OF Parse_methods_ok [of D C "parse_fuel s"]] at_state [OF start] by (simp add: meets_def)
  have "runs C (p_bind (m_orExpression (Parse_methods D C (parse_fuel s)))
        (\<lambda>b. case b of
            None \<Rightarrow> throwParseError
          | Some e \<Rightarrow> p_next (\<lambda>t. if token_type t \<noteq> T_EOS then throwParseError else p_return e))) ?tk
        (\<lambda>e tk. selector_derives D s e)"
  proof (rule runs_bind [OF o])
    fix b tk
    assume b: "outcome ?tk (derives D NT_or) b tk"
    show "runs C (case b of None \<Rightarrow> throwParseError
          | Some e \<Rightarrow> p_next (\<lambda>t. if token_type t \<noteq> T_EOS then throwParseError else p_return e)) tk
        (\<lambda>e tk. selector_derives D s e)"
    proof (cases b)
      case None
      then show ?thesis using b by (auto simp: outcome_def intro: runs_throwParseError)
    next
      case (Some e)
      with b obtain ts where ts: "at ?tk ts tk" "derives D NT_or ts e" by (auto simp: outcome_def)
      have "runs C (p_next (\<lambda>t. if token_type t \<noteq> T_EOS then throwParseError else p_return e)) tk (\<lambda>e tk. selector_derives D s e)"
      proof (rule runs_next [OF ts(1)])
        fix t tk'
        assume t: "past ?tk ts t tk'"
        have "\<exists>r. chain s (ts @ [t]) r" using t moves_chain by (auto simp: past_def)
        then have "token_type t = T_EOS \<Longrightarrow> selector_derives D s e" using ts(2) by (auto simp: selector_derives_def)
        moreover have "runs C throwParseError tk' Q" for Q :: "'a Expression \<Rightarrow> Tokeniser \<Rightarrow> bool"
          using past_position [OF t] t by (auto simp: past_def intro: runs_throwParseError moves_wf)
        ultimately show "runs C (if token_type t \<noteq> T_EOS then throwParseError else p_return e) tk' (\<lambda>e tk. selector_derives D s e)"
          by simp
      qed
      then show ?thesis using Some by simp
    qed
  qed
  then show ?thesis
    unfolding runs_def parse_def
    by (auto simp: res_bind_def split: sum.splits prod.splits)
qed

text \<open>
  C35. Parsing ends on every selector, within fuel proportional to its length, and no assertion of the tokeniser
  fails: the result is an expression, or one of the exceptions that the code throws for an illegal selector
  (an illegal character, a syntax error, a number out of range, or a regular expression that does not compile).
\<close>

theorem parse_total:
  "(\<exists>e. parse D C s = Inr e) \<or> parse D C s = Inl TokenException \<or> parse D C s = Inl RangeError
     \<or> parse D C s = Inl BadLexicalCast \<or> (parse D C s = Inl GeneralException \<and> (\<exists>re. \<not> C re))"
  using parse_runs [of C D s] by (cases "parse D C s") (auto simp: allowed_def)

text \<open>
  C16. The parser follows the grammar. When a selector parses, its tokens up to the end of the input derive the
  expression: OR binds weaker than AND, AND weaker than NOT and the comparisons, then sums, products and signs,
  and the binary operators associate to the left.
\<close>

theorem parse_sound:
  assumes "parse D C s = Inr e"
  shows "\<exists>ts eos r. chain s (ts @ [eos]) r \<and> token_type eos = T_EOS \<and> derives D NT_or ts e"
  using parse_runs [of C D s] assms by (simp add: selector_derives_def)

text \<open>Equations that evaluate a parser on a concrete tokeniser, one call at a time.\<close>

lemma res_bind_weak: "r = r' \<Longrightarrow> res_bind r f = res_bind r' f"
  by simp

lemma Parse_methods_call:
  "m_orExpression (Parse_methods D C (Suc n)) tk = orExpression (Parse_methods D C n) tk"
  "m_or_loop (Parse_methods D C (Suc n)) e tk = or_loop (Parse_methods D C n) e tk"
  "m_andExpression (Parse_methods D C (Suc n)) tk = andExpression (Parse_methods D C n) tk"
  "m_and_loop (Parse_methods D C (Suc n)) e tk = and_loop (Parse_methods D C n) e tk"
  "m_specialComparisons (Parse_methods D C (Suc n)) e tk = specialComparisons C (Parse_methods D C n) e tk"
  "m_in_list_loop (Parse_methods D C (Suc n)) es tk = in_list_loop (Parse_methods D C n) es tk"
  "m_comparisonExpression (Parse_methods D C (Suc n)) tk = comparisonExpression (Parse_methods D C n) tk"
  "m_addExpression (Parse_methods D C (Suc n)) tk = addExpression (Parse_methods D C n) tk"
  "m_add_loop (Parse_methods D C (Suc n)) e tk = add_loop (Parse_methods D C n) e tk"
  "m_multiplyExpression (Parse_methods D C (Suc n)) tk = multiplyExpression (Parse_methods D C n) tk"
  "m_mult_loop (Parse_methods D C (Suc n)) e tk = mult_loop (Parse_methods D C n) e tk"
  "m_unaryArithExpression (Parse_methods D C (Suc n)) tk = unaryArithExpression D (Parse_methods D C n) tk"
  by (simp_all add: Parse_step_def)

lemma p_some_call: "p_some m f tk = res_bind (m tk) (\<lambda>(e, tk'). case e of None \<Rightarrow> Inr (None, tk') | Some x \<Rightarrow> f x tk')"
  by (auto simp: p_some_def p_bind_def p_return_def fun_eq_iff intro!: arg_cong2 [where f = res_bind] split: option.splits)

lemma p_next_call: "p_next f tk = res_bind (nextToken tk) (\<lambda>(t, tk'). f t tk')"
  by (simp add: p_next_def p_bind_def)

lemma p_back_call: "p_back f tk = res_bind (returnTokens 1 tk) f"
  by (cases "returnTokens 1 tk") (simp_all add: p_back_def p_bind_def)

lemmas parse_evaluate = Parse_methods_call p_some_call p_next_call p_back_call p_return_def p_throw_def
  orExpression_def or_loop_def andExpression_def and_loop_def comparisonExpression_def addExpression_def add_loop_def
  multiplyExpression_def mult_loop_def unaryArithExpression_def primaryExpression_def primary_of_def
  nextToken_def returnTokens_def Tokeniser_init_def tokenise_evaluate isspace_def
  tokeniseReservedWord_def reserved_def equal_range_def tolower_def END_def

theorem parse_sound_witness:
  "parse int_doubles (\<lambda>re. True) ''NOT a=b'' = Inr (UnaryBooleanExpression Not (ComparisonExpression Eq (Identifier ''a'') (Identifier ''b'')))
   \<and> (\<exists>ts eos r. chain ''NOT a=b'' (ts @ [eos]) r \<and> token_type eos = T_EOS \<and> derives int_doubles NT_or ts (UnaryBooleanExpression Not (ComparisonExpression Eq (Identifier ''a'') (Identifier ''b''))))"
proof -
  have p: "parse int_doubles (\<lambda>re. True) ''NOT a=b'' = Inr (UnaryBooleanExpression Not (ComparisonExpression Eq (Identifier ''a'') (Identifier ''b'')))"
    unfolding parse_def parse_fuel_def p_bind_def
    by (simp add: parse_evaluate eval_nat_numeral del: Parse_methods.simps cong: res_bind_weak)
  then show ?thesis using parse_sound [OF p] by simp
qed

lemma derives_no_plus:
  "derives D N ts e \<Longrightarrow> ts \<noteq> [] \<and> token_type (hd ts) \<noteq> T_PLUS"
  "derives_list D ts es \<Longrightarrow> True"
  "derives_special D e1 ts e \<Longrightarrow> True"
proof (induction rule: derives_derives_list_derives_special.inducts)
  case (g_primary t e)
  then show ?case by (auto simp: primary_of_def)
qed auto

text \<open>
  A unary plus is a syntax error. The grammar in the source has it and the code says that it is no operation,
  but it hands the sign back to the parser of literals and identifiers, which refuses it: no selector that
  starts with \<open>+\<close> parses.
\<close>

theorem parse_unary_plus: "parse D C (CHR ''+'' # s) \<noteq> Inr e"
proof
  assume "parse D C (CHR ''+'' # s) = Inr e"
  then obtain ts eos r where c: "chain (CHR ''+'' # s) (ts @ [eos]) r" and d: "derives D NT_or ts e"
    using parse_runs [of C D "CHR ''+'' # s"] by (auto simp: selector_derives_def)
  obtain t us where ts: "ts = t # us" using derives_no_plus(1) [OF d] by (cases ts) auto
  have "tokenise (CHR ''+'' # s) = Some (Token_of T_PLUS (CHR ''+'' # s) ''+'', s)"
    by (simp add: tokenise_def tokenise_loop.simps start_step_def single_token_def Token_between_def)
  then have "token_type t = T_PLUS" using c ts by (auto simp: isspace_def schar_def Token_of_def)
  then show False using derives_no_plus(1) [OF d] ts by simp
qed

end
