(* ===== verification/Map_Handler.thy ===== *)
theory Map_Handler
  imports Main "HOL-Library.Word"
begin

text \<open>
  The properties of a message as they are given to a \<open>MapHandler\<close> (\<open>src/qpid/amqp/MapHandler.h\<close>), which the selectors
  and the headers exchange implement. Floating point numbers are values of a type \<open>'x\<close>; a \<open>float\<close> is already
  converted to \<open>double\<close>.
\<close>

text \<open>One call of a \<open>MapHandler\<close>, by the type of the property.\<close>

datatype 'x map_call =
    MC_Void
  | MC_Bool bool
  | MC_Uint8 "8 word"
  | MC_Uint16 "16 word"
  | MC_Uint32 "32 word"
  | MC_Uint64 "64 word"
  | MC_Int8 "8 word"
  | MC_Int16 "16 word"
  | MC_Int32 "32 word"
  | MC_Int64 "64 word"
  | MC_Float 'x
  | MC_Double 'x
  | MC_String string

end
