(* ===== verification/Selector_Env.thy ===== *)
theory Selector_Env
  imports Selector_Parse Map_Handler
begin

text \<open>
  Message selectors, filtering: \<open>MessageSelectorEnv\<close>, \<open>ValueHandler\<close> and \<open>Selector\<close> of
  \<open>src/qpid/broker/Selector.cpp\<close>. The environment looks identifiers up in a message and caches what it finds. The
  message is the record of what its encoding answers; the properties come as the calls that
  \<open>processProperties\<close> makes to the handler. It is shown that the cache cannot be observed unless a property has a
  name with the reserved prefix \<open>amqp.\<close>, so that \<open>Selector_filter\<close> evaluates over a plain function.
\<close>

section \<open>Messages and their properties\<close>

record 'x selected_message =
  persistent :: bool
  deliveryCount :: "32 word"
  priority :: "8 word"
  correlationId :: "string option"
  messageId :: "string option"
  expiration :: "64 word"
  timestamp :: "64 word"
  jms_type :: string
  properties :: "(string \<times> 'x map_call) list"

definition FAR_FUTURE :: "64 word" where
  "FAR_FUTURE = 2 ^ 63 - 1"

text \<open>The value that the handler stores; for a void property it stores nothing.\<close>

fun handled_value :: "'x doubles \<Rightarrow> 'x map_call \<Rightarrow> 'x Value option" where
  "handled_value D MC_Void = None"
| "handled_value D (MC_Bool b) = Some (Value_BOOL b)"
| "handled_value D (MC_Uint8 w) = Some (Value_EXACT (ucast w))"
| "handled_value D (MC_Uint16 w) = Some (Value_EXACT (ucast w))"
| "handled_value D (MC_Uint32 w) = Some (Value_EXACT (ucast w))"
| "handled_value D (MC_Uint64 w) =
     (if 2 ^ 63 - 1 < w then Some (Value_INEXACT (d_of_int D (uint w))) else Some (Value_EXACT w))"
| "handled_value D (MC_Int8 w) = Some (Value_EXACT (scast w))"
| "handled_value D (MC_Int16 w) = Some (Value_EXACT (scast w))"
| "handled_value D (MC_Int32 w) = Some (Value_EXACT (scast w))"
| "handled_value D (MC_Int64 w) = Some (Value_EXACT w)"
| "handled_value D (MC_Float x) = Some (Value_INEXACT x)"
| "handled_value D (MC_Double x) = Some (Value_INEXACT x)"
| "handled_value D (MC_String s) = Some (Value_STRING s)"

definition ValueHandler_handle ::
  "'x doubles \<Rightarrow> string \<times> 'x map_call \<Rightarrow> (string \<rightharpoonup> 'x Value) \<Rightarrow> (string \<rightharpoonup> 'x Value)" where
  "ValueHandler_handle D p values = (case handled_value D (snd p) of None \<Rightarrow> values | Some v \<Rightarrow> values(fst p \<mapsto> v))"

section \<open>The environment\<close>

text \<open>\<open>TIME_MSEC\<close> is a million nanoseconds; the division of durations truncates towards zero.\<close>

definition expiry_msec :: "64 word \<Rightarrow> 64 word" where
  "expiry_msec t = word_of_int (sgn (sint t) * (\<bar>sint t\<bar> div 1000000))"

definition specialValue :: "'x selected_message \<Rightarrow> string \<Rightarrow> 'x Value" where
  "specialValue m i =
     (if i = ''delivery_mode'' then Value_STRING (if persistent m then ''PERSISTENT'' else ''NON_PERSISTENT'')
      else if i = ''redelivered'' then Value_BOOL (0 < sint (deliveryCount m))
      else if i = ''priority'' then Value_EXACT (ucast (priority m))
      else if i = ''correlation_id'' then (case correlationId m of None \<Rightarrow> Value_UNKNOWN | Some s \<Rightarrow> Value_STRING s)
      else if i = ''message_id'' then (case messageId m of None \<Rightarrow> Value_UNKNOWN | Some s \<Rightarrow> Value_STRING s)
      else if i = ''to'' then Value_STRING []
      else if i = ''reply_to'' then Value_STRING []
      else if i = ''absolute_expiry_time''
      then Value_EXACT (if expiration m = FAR_FUTURE then 0 else expiry_msec (expiration m))
      else if i = ''creation_time'' then Value_EXACT (timestamp m * 1000)
      else if i = ''jms_type'' then (if jms_type m \<noteq> [] then Value_STRING (jms_type m) else Value_UNKNOWN)
      else Value_UNKNOWN)"

record 'x MessageSelectorEnv =
  msg :: "'x selected_message"
  returnedValues :: "string \<rightharpoonup> 'x Value"
  valuesLookedup :: bool

definition MessageSelectorEnv_init :: "'x selected_message \<Rightarrow> 'x MessageSelectorEnv" where
  "MessageSelectorEnv_init m = \<lparr> msg = m, returnedValues = Map.empty, valuesLookedup = False \<rparr>"

text \<open>\<open>MessageSelectorEnv::value\<close> first fills the cache, with the special value or with all properties.\<close>

definition env_fill :: "'x doubles \<Rightarrow> string \<Rightarrow> 'x MessageSelectorEnv \<Rightarrow> 'x MessageSelectorEnv" where
  "env_fill D i env =
     (if take 5 i = ''amqp.''
      then if returnedValues env i = None
           then env \<lparr> returnedValues := (returnedValues env)(i \<mapsto> specialValue (msg env) (drop 5 i)) \<rparr>
           else env
      else if \<not> valuesLookedup env
      then env \<lparr> returnedValues := fold (ValueHandler_handle D) (properties (msg env)) (returnedValues env),
             valuesLookedup := True \<rparr>
      else env)"

text \<open>\<open>returnedValues[identifier]\<close> at its end inserts an unknown value for a key that is not there.\<close>

definition env_value :: "'x doubles \<Rightarrow> string \<Rightarrow> 'x MessageSelectorEnv \<Rightarrow> 'x Value \<times> 'x MessageSelectorEnv" where
  "env_value D i env =
     (let env1 = env_fill D i env
      in case returnedValues env1 i of
           Some v \<Rightarrow> (v, env1)
         | None \<Rightarrow> (Value_UNKNOWN, env1 \<lparr> returnedValues := (returnedValues env1)(i \<mapsto> Value_UNKNOWN) \<rparr>))"

text \<open>A selector: its text and the expression it was parsed to.\<close>

record 'x Selector =
  selector_parse :: "'x Expression"
  selector_expression :: string

definition Selector_new :: "'x doubles \<Rightarrow> (string \<Rightarrow> bool) \<Rightarrow> string \<Rightarrow> 'x Selector result" where
  "Selector_new D C s = res_bind (parse D C s) (\<lambda>e. Inr \<lparr> selector_parse = e, selector_expression = s \<rparr>)"

definition Selector_eval ::
  "'x doubles \<Rightarrow> (string \<Rightarrow> string \<Rightarrow> bool) \<Rightarrow> (string \<Rightarrow> 'x Value) \<Rightarrow> 'x Selector \<Rightarrow> bool result" where
  "Selector_eval D R env s = TopBoolExpression_eval D R env (selector_parse s)"

definition Selector_filter ::
  "'x doubles \<Rightarrow> (string \<Rightarrow> string \<Rightarrow> bool) \<Rightarrow> 'x selected_message \<Rightarrow> 'x Selector \<Rightarrow> bool result" where
  "Selector_filter D R m s = Selector_eval D R (\<lambda>i. fst (env_value D i (MessageSelectorEnv_init m))) s"

definition returnSelector :: "'x doubles \<Rightarrow> (string \<Rightarrow> bool) \<Rightarrow> string \<Rightarrow> 'x Selector option result" where
  "returnSelector D C s = (if s = [] then Inr None else res_bind (Selector_new D C s) (\<lambda>sel. Inr (Some sel)))"

section \<open>The cache cannot be observed\<close>

definition message_values :: "'x doubles \<Rightarrow> 'x selected_message \<Rightarrow> string \<Rightarrow> 'x Value option" where
  "message_values D m = fold (ValueHandler_handle D) (properties m) Map.empty"

text \<open>What an identifier means for a message.\<close>

definition identifier_value :: "'x doubles \<Rightarrow> 'x selected_message \<Rightarrow> string \<Rightarrow> 'x Value" where
  "identifier_value D m i =
     (if take 5 i = ''amqp.'' then specialValue m (drop 5 i)
      else case message_values D m i of None \<Rightarrow> Value_UNKNOWN | Some v \<Rightarrow> v)"

definition no_reserved_names :: "'x selected_message \<Rightarrow> bool" where
  "no_reserved_names m \<longleftrightarrow> list_all (\<lambda>p. take 5 (fst p) \<noteq> ''amqp.'') (properties m)"

definition env_ok :: "'x doubles \<Rightarrow> 'x MessageSelectorEnv \<Rightarrow> bool" where
  "env_ok D env \<longleftrightarrow> (\<forall>i. case returnedValues env i of
       Some v \<Rightarrow> v = identifier_value D (msg env) i \<and> (take 5 i \<noteq> ''amqp.'' \<longrightarrow> valuesLookedup env)
     | None \<Rightarrow> take 5 i \<noteq> ''amqp.'' \<and> valuesLookedup env \<longrightarrow> identifier_value D (msg env) i = Value_UNKNOWN)"

lemma fold_handle:
  "fold (ValueHandler_handle D) ps values i =
     (case fold (ValueHandler_handle D) ps Map.empty i of None \<Rightarrow> values i | Some v \<Rightarrow> Some v)"
proof (induction ps rule: rev_induct)
  case (snoc p ps)
  then show ?case by (auto simp: ValueHandler_handle_def split: option.splits)
qed simp

lemma fold_handle_reserved:
  "list_all (\<lambda>p. take 5 (fst p) \<noteq> ''amqp.'') ps \<Longrightarrow> take 5 i = ''amqp.'' \<Longrightarrow> fold (ValueHandler_handle D) ps Map.empty i = None"
  by (induction ps rule: rev_induct) (auto simp: ValueHandler_handle_def split: option.splits)

lemma env_value_fill:
  "env_value D i env = (case returnedValues (env_fill D i env) i of
       Some v \<Rightarrow> (v, env_fill D i env)
     | None \<Rightarrow> (Value_UNKNOWN, (env_fill D i env) \<lparr> returnedValues := (returnedValues (env_fill D i env))(i \<mapsto> Value_UNKNOWN) \<rparr>))"
  by (simp add: env_value_def Let_def)

lemma env_fill_msg [simp]: "msg (env_fill D i env) = msg env"
  by (simp add: env_fill_def)

lemma env_okD:
  assumes "env_ok D env"
  shows "returnedValues env i = Some v \<Longrightarrow> v = identifier_value D (msg env) i"
    and "returnedValues env i = Some v \<Longrightarrow> take 5 i \<noteq> ''amqp.'' \<Longrightarrow> valuesLookedup env"
    and "returnedValues env i = None \<Longrightarrow> take 5 i \<noteq> ''amqp.'' \<Longrightarrow> valuesLookedup env \<Longrightarrow>
      identifier_value D (msg env) i = Value_UNKNOWN"
  using assms unfolding env_ok_def by (auto split: option.splits dest: spec [of _ i])

lemma env_okI:
  assumes "\<And>i v. returnedValues env i = Some v \<Longrightarrow> v = identifier_value D (msg env) i"
    and "\<And>i v. returnedValues env i = Some v \<Longrightarrow> take 5 i \<noteq> ''amqp.'' \<Longrightarrow> valuesLookedup env"
    and "\<And>i. returnedValues env i = None \<Longrightarrow> take 5 i \<noteq> ''amqp.'' \<Longrightarrow> valuesLookedup env \<Longrightarrow>
      identifier_value D (msg env) i = Value_UNKNOWN"
  shows "env_ok D env"
  using assms unfolding env_ok_def by (auto split: option.splits)

lemma env_fill_properties:
  assumes "env_ok D env" "no_reserved_names (msg env)" "\<not> valuesLookedup env"
  shows "fold (ValueHandler_handle D) (properties (msg env)) (returnedValues env) j =
     (if take 5 j = ''amqp.'' then returnedValues env j else message_values D (msg env) j)"
proof (cases "take 5 j = ''amqp.''")
  case True
  then show ?thesis
    using fold_handle [of D "properties (msg env)" "returnedValues env" j] fold_handle_reserved [OF _ True, of "properties (msg env)" D] assms(2)
    by (simp add: no_reserved_names_def)
next
  case False
  have "returnedValues env j = None" using env_okD(2) [OF assms(1), of j] False assms(3) by (cases "returnedValues env j") auto
  then show ?thesis using False fold_handle [of D "properties (msg env)" "returnedValues env" j]
    by (auto simp: message_values_def split: option.splits)
qed

lemma identifier_special: "take 5 i = ''amqp.'' \<Longrightarrow> identifier_value D m i = specialValue m (drop 5 i)"
  by (simp add: identifier_value_def)

lemma identifier_plain:
  "take 5 i \<noteq> ''amqp.'' \<Longrightarrow> identifier_value D m i = (case message_values D m i of None \<Rightarrow> Value_UNKNOWN | Some v \<Rightarrow> v)"
  by (simp add: identifier_value_def)

lemma env_fill_ok:
  assumes "env_ok D env" "no_reserved_names (msg env)"
  shows "env_ok D (env_fill D i env)"
    and "returnedValues (env_fill D i env) i = None \<Longrightarrow> take 5 i \<noteq> ''amqp.'' \<and> valuesLookedup (env_fill D i env)"
proof -
  note ok = env_okD [OF assms(1)]
  show "env_ok D (env_fill D i env)"
  proof (cases "take 5 i = ''amqp.''")
    case True
    then show ?thesis using assms(1) ok
      by (auto simp: env_fill_def identifier_special intro!: env_okI split: if_splits)
  next
    case False
    note fill = env_fill_properties [OF assms]
    show ?thesis
    proof (cases "valuesLookedup env")
      case True
      then show ?thesis using False assms(1) by (simp add: env_fill_def)
    next
      case nl: False
      show ?thesis
        using ok(1) by (auto simp: env_fill_def False nl fill identifier_plain intro!: env_okI split: if_splits)
    qed
  qed
  show "take 5 i \<noteq> ''amqp.'' \<and> valuesLookedup (env_fill D i env)" if "returnedValues (env_fill D i env) i = None"
    using that by (auto simp: env_fill_def split: if_splits)
qed

lemma env_value_ok:
  assumes "env_ok D env" "no_reserved_names (msg env)"
  shows "fst (env_value D i env) = identifier_value D (msg env) i"
    and "env_ok D (snd (env_value D i env))" and "msg (snd (env_value D i env)) = msg env"
proof -
  note ok = env_okD [OF env_fill_ok(1) [OF assms, of i]]
  let ?e = "env_fill D i env"
  have unk: "identifier_value D (msg env) i = Value_UNKNOWN" if "returnedValues ?e i = None"
    using env_fill_ok(2) [OF assms that] ok(3) [OF that] by simp
  show "fst (env_value D i env) = identifier_value D (msg env) i"
    using ok(1) [of i] unk by (auto simp: env_value_fill split: option.splits)
  show "msg (snd (env_value D i env)) = msg env" by (simp add: env_value_fill split: option.splits)
  show "env_ok D (snd (env_value D i env))"
  proof (cases "returnedValues ?e i")
    case None
    then show ?thesis using unk env_fill_ok(2) [OF assms None] ok
      by (auto simp: env_value_fill intro!: env_okI split: if_splits)
  next
    case (Some v)
    then show ?thesis using env_fill_ok(1) [OF assms] by (simp add: env_value_fill)
  qed
qed

text \<open>The state after a sequence of lookups.\<close>

definition env_after :: "'x doubles \<Rightarrow> 'x selected_message \<Rightarrow> string list \<Rightarrow> 'x MessageSelectorEnv" where
  "env_after D m is = fold (\<lambda>i env. snd (env_value D i env)) is (MessageSelectorEnv_init m)"

lemma env_init_ok: "env_ok D (MessageSelectorEnv_init m)"
  by (rule env_okI) (simp_all add: MessageSelectorEnv_init_def)

lemma env_after_ok: "no_reserved_names m \<Longrightarrow> env_ok D (env_after D m is) \<and> msg (env_after D m is) = m"
proof (induction "is" rule: rev_induct)
  case Nil
  then show ?case using env_init_ok [of D m] by (simp add: env_after_def MessageSelectorEnv_init_def)
next
  case (snoc i "is")
  then show ?case using env_value_ok [of D "env_after D m is" i] by (simp add: env_after_def)
qed

text \<open>
  C36. Looking up an identifier in a message gives the same value whatever was looked up before: the special
  value for the prefix \<open>amqp.\<close>, and otherwise the value of the last property with that name, or unknown. This
  needs that no property has a name with the prefix.
\<close>

theorem env_value_pure:
  assumes "no_reserved_names m"
  shows "fst (env_value D i (env_after D m is)) = identifier_value D m i"
  using env_after_ok [OF assms, of D "is"] env_value_ok(1) assms by metis

definition plain_message :: "(string \<times> int map_call) list \<Rightarrow> int selected_message" where
  "plain_message ps = \<lparr> persistent = True, deliveryCount = - 1, priority = 4, correlationId = None, messageId = None,
     expiration = FAR_FUTURE, timestamp = 0, jms_type = [], properties = ps \<rparr>"

theorem env_value_pure_witness:
  "fst (env_value int_doubles ''colour'' (env_after int_doubles (plain_message [(''colour'', MC_String ''red'')])
     [''amqp.priority'', ''size''])) = Value_STRING ''red''"
  using env_value_pure [of "plain_message [(''colour'', MC_String ''red'')]" int_doubles "''colour''" "[''amqp.priority'', ''size'']"]
  by (simp add: no_reserved_names_def plain_message_def identifier_value_def message_values_def ValueHandler_handle_def)

text \<open>
  With such a name the cache shows. A message with priority 4 and a property called \<open>amqp.priority\<close> has two
  values for that identifier: the priority, or the property once any other identifier has been looked up. The
  selectors \<open>amqp.priority=4 AND size IS NULL\<close> and \<open>size IS NULL AND amqp.priority=4\<close> so differ.
\<close>

lemma env_value_reserved_name:
  "let m = plain_message [(''amqp.priority'', MC_String ''high'')] in
     fst (env_value int_doubles ''amqp.priority'' (env_after int_doubles m [])) = Value_EXACT 4
   \<and> fst (env_value int_doubles ''amqp.priority'' (env_after int_doubles m [''size''])) = Value_STRING ''high''"
  by (simp add: plain_message_def env_after_def env_value_def env_fill_def MessageSelectorEnv_init_def Let_def
      ValueHandler_handle_def specialValue_def)

end
