(* ===== verification/Std_Containers.thy ===== *)
theory Std_Containers
  imports Main "HOL-Library.List_Lexorder" "HOL-Library.Char_ord"
begin

text \<open>
  Containers that several components share: \<open>std::map\<close>, whose iteration goes in the order of the keys (strings
  compare as lists of unsigned octets), and \<open>CopyOnWriteArray\<close> (\<open>src/qpid/sys/CopyOnWriteArray.h\<close>).
\<close>

section \<open>\<open>std::map\<close>\<close>

text \<open>A map is the association list of its entries in the order of the keys; it is searched with \<open>map_of\<close>.\<close>

fun map_put :: "'k::linorder \<Rightarrow> 'v \<Rightarrow> ('k \<times> 'v) list \<Rightarrow> ('k \<times> 'v) list" where
  "map_put k v [] = [(k, v)]"
| "map_put k v ((k', v') # cs) =
     (if k = k' then (k, v) # cs else if k < k' then (k, v) # (k', v') # cs else (k', v') # map_put k v cs)"

definition map_erase :: "'k \<Rightarrow> ('k \<times> 'v) list \<Rightarrow> ('k \<times> 'v) list" where
  "map_erase k cs = filter (\<lambda>c. fst c \<noteq> k) cs"

lemma map_of_put: "map_of (map_put k v cs) = (map_of cs)(k \<mapsto> v)"
  by (induction k v cs rule: map_put.induct) (auto simp: fun_eq_iff)

lemma map_put_keys: "fst ` set (map_put k v cs) = insert k (fst ` set cs)"
  by (induction k v cs rule: map_put.induct) auto

lemma map_put_sorted:
  "distinct (map fst cs) \<Longrightarrow> sorted (map fst cs) \<Longrightarrow> distinct (map fst (map_put k v cs)) \<and> sorted (map fst (map_put k v cs))"
proof (induction k v cs rule: map_put.induct)
  case (2 k v k' v' cs)
  have k: "set (map fst (map_put k v cs)) = insert k (set (map fst cs))" using map_put_keys [of k v cs] by simp
  have "distinct (map fst (map_put k v cs)) \<and> sorted (map fst (map_put k v cs))" if "k \<noteq> k'" "\<not> k < k'" using 2 that by simp
  then show ?case using 2(2,3) k by (auto simp del: set_map simp: less_imp_le)
qed simp

lemma map_of_erase: "map_of (map_erase k cs) = (map_of cs)(k := None)"
  by (induction cs) (auto simp: map_erase_def fun_eq_iff)

lemma map_erase_keys:
  "fst ` set (map_erase t cs) \<subseteq> fst ` set cs"
  "distinct (map fst cs) \<Longrightarrow> distinct (map fst (map_erase t cs))"
  "sorted (map fst cs) \<Longrightarrow> sorted (map fst (map_erase t cs))"
  by (auto simp: map_erase_def distinct_map_filter sorted_filter)

lemma map_put_nonempty [simp]: "map_put k v cs \<noteq> []"
  by (induction k v cs rule: map_put.induct) auto

section \<open>\<open>CopyOnWriteArray\<close>\<close>

text \<open>
  A pointer to an immutable vector that is replaced by a changed copy, null at first. A snapshot is the pointer
  itself.
\<close>

type_synonym 'a CopyOnWriteArray = "'a list option"

definition array_items :: "'a CopyOnWriteArray \<Rightarrow> 'a list" where
  "array_items a = (case a of None \<Rightarrow> [] | Some xs \<Rightarrow> xs)"

definition array_empty :: "'a CopyOnWriteArray \<Rightarrow> bool" where
  "array_empty a = (case a of None \<Rightarrow> True | Some xs \<Rightarrow> xs = [])"

definition array_add :: "'a \<Rightarrow> 'a CopyOnWriteArray \<Rightarrow> 'a CopyOnWriteArray" where
  "array_add t a = Some ((case a of None \<Rightarrow> [] | Some xs \<Rightarrow> xs) @ [t])"

definition array_remove :: "'a \<Rightarrow> 'a CopyOnWriteArray \<Rightarrow> bool \<times> 'a CopyOnWriteArray" where
  "array_remove t a = (case a of None \<Rightarrow> (False, a) | Some xs \<Rightarrow> if t \<in> set xs then (True, Some (remove1 t xs)) else (False, a))"

definition array_clear :: "'a CopyOnWriteArray \<Rightarrow> bool \<times> 'a CopyOnWriteArray" where
  "array_clear a = (case a of None \<Rightarrow> (False, a) | Some xs \<Rightarrow> if xs \<noteq> [] then (True, None) else (False, a))"

definition add_unless :: "'a \<Rightarrow> ('a \<Rightarrow> bool) \<Rightarrow> 'a CopyOnWriteArray \<Rightarrow> bool \<times> 'a CopyOnWriteArray" where
  "add_unless t f a =
     (case a of
        Some xs \<Rightarrow> if list_ex f xs then (False, a) else (True, Some (xs @ [t]))
      | None \<Rightarrow> (True, Some [t]))"

definition remove_if :: "('a \<Rightarrow> bool) \<Rightarrow> 'a CopyOnWriteArray \<Rightarrow> bool \<times> 'a CopyOnWriteArray" where
  "remove_if f a =
     (case a of
        Some xs \<Rightarrow> if list_ex f xs then (True, Some (filter (\<lambda>x. \<not> f x) xs)) else (False, a)
      | None \<Rightarrow> (False, a))"

text \<open>\<open>modify_if\<close> applies a modifier, which has a state of its own, to the first element that passes the test.\<close>

fun modify_first :: "('a \<Rightarrow> bool) \<Rightarrow> ('a \<Rightarrow> 'm \<Rightarrow> 'a \<times> 'm) \<Rightarrow> 'a list \<Rightarrow> 'm \<Rightarrow> 'a list \<times> 'm" where
  "modify_first f g [] m = ([], m)"
| "modify_first f g (x # xs) m =
     (if f x then (case g x m of (x', m') \<Rightarrow> (x' # xs, m'))
      else case modify_first f g xs m of (xs', m') \<Rightarrow> (x # xs', m'))"

definition modify_if :: "('a \<Rightarrow> bool) \<Rightarrow> ('a \<Rightarrow> 'm \<Rightarrow> 'a \<times> 'm) \<Rightarrow> 'a CopyOnWriteArray \<Rightarrow> 'm \<Rightarrow> bool \<times> 'a CopyOnWriteArray \<times> 'm" where
  "modify_if f g a m =
     (case a of
        Some xs \<Rightarrow> if list_ex f xs then (case modify_first f g xs m of (xs', m') \<Rightarrow> (True, Some xs', m')) else (False, a, m)
      | None \<Rightarrow> (False, a, m))"

lemma array_empty_items: "array_empty a \<longleftrightarrow> array_items a = []"
  by (simp add: array_empty_def array_items_def split: option.splits)

lemma add_unless_items:
  "add_unless t f a = (b, a') \<Longrightarrow> (b \<longleftrightarrow> \<not> list_ex f (array_items a)) \<and> array_items a' = (if b then array_items a @ [t] else array_items a)"
  by (auto simp: add_unless_def array_items_def split: option.splits if_splits)

lemma remove_if_items:
  "remove_if f a = (b, a') \<Longrightarrow> (b \<longleftrightarrow> list_ex f (array_items a)) \<and> array_items a' = filter (\<lambda>x. \<not> f x) (array_items a)"
  by (auto simp: remove_if_def array_items_def list_ex_iff filter_id_conv split: option.splits if_splits)

lemma array_clear_items: "array_items (snd (array_clear a)) = []"
  by (simp add: array_clear_def array_items_def split: option.splits)

end
