(* ===== verification/Topic_Tree.thy ===== *)
theory Topic_Tree
  imports Prelude Std_Containers
begin

text \<open>
  Topic matching: \<open>TokenIterator\<close> and the binding tree \<open>TopicKeyNode\<close> of \<open>src/qpid/broker/TopicKeyNode.h\<close>. A binding
  key such as \<open>a.*.#\<close> is a path of the tree, \<open>*\<close> stands for one token of a routing key and \<open>#\<close> for any number of
  them. A token iterator is the list of the tokens from the current one on. The pointer to the value of a node that
  \<open>add\<close> and \<open>get\<close> return is the path to it: \<open>node_get\<close> reads and \<open>node_set\<close> writes through it. The value of a node is
  a type \<open>'b\<close>, the template parameter, with its default value and a test whether it holds no binding.
\<close>

section \<open>Tokens\<close>

definition STAR :: string where "STAR = ''*''"
definition HASH :: string where "HASH = ''#''"

fun TokenIterator :: "string \<Rightarrow> string list" where
  "TokenIterator [] = [[]]"
| "TokenIterator (c # s) =
     (if c = CHR ''.'' then [] # TokenIterator s
      else case TokenIterator s of [] \<Rightarrow> [[c]] | t # ts \<Rightarrow> (c # t) # ts)"

section \<open>The tree\<close>

datatype 'b TopicKeyNode =
  TopicKeyNode (routePattern: string) (node_bindings: 'b) (node_token: string)
    (childTokens: "(string \<times> 'b TopicKeyNode) list")
    (starChild: "'b TopicKeyNode option") (hashChild: "'b TopicKeyNode option")

record 'b node_ops =
  no_bindings :: 'b
  is_unbound :: "'b \<Rightarrow> bool"

definition new_node :: "'b node_ops \<Rightarrow> string \<Rightarrow> 'b TopicKeyNode" where
  "new_node G t = TopicKeyNode [] (no_bindings G) t [] None None"

fun set_routePattern :: "string \<Rightarrow> 'b TopicKeyNode \<Rightarrow> 'b TopicKeyNode" where
  "set_routePattern p (TopicKeyNode r b t cs s h) = TopicKeyNode p b t cs s h"
fun set_bindings :: "'b \<Rightarrow> 'b TopicKeyNode \<Rightarrow> 'b TopicKeyNode" where
  "set_bindings b' (TopicKeyNode r b t cs s h) = TopicKeyNode r b' t cs s h"
fun set_children :: "(string \<times> 'b TopicKeyNode) list \<Rightarrow> 'b TopicKeyNode \<Rightarrow> 'b TopicKeyNode" where
  "set_children cs' (TopicKeyNode r b t cs s h) = TopicKeyNode r b t cs' s h"
fun set_star :: "'b TopicKeyNode option \<Rightarrow> 'b TopicKeyNode \<Rightarrow> 'b TopicKeyNode" where
  "set_star s' (TopicKeyNode r b t cs s h) = TopicKeyNode r b t cs s' h"
fun set_hash :: "'b TopicKeyNode option \<Rightarrow> 'b TopicKeyNode \<Rightarrow> 'b TopicKeyNode" where
  "set_hash h' (TopicKeyNode r b t cs s h) = TopicKeyNode r b t cs s h'"

text \<open>\<open>ChildMap\<close> is a \<open>std::map\<close> over strings.\<close>

text \<open>The child for a token, and the node with that child changed or removed.\<close>

definition node_child :: "string \<Rightarrow> 'b TopicKeyNode \<Rightarrow> 'b TopicKeyNode option" where
  "node_child t n = (if t = STAR then starChild n else if t = HASH then hashChild n else map_of (childTokens n) t)"

definition node_put :: "string \<Rightarrow> 'b TopicKeyNode \<Rightarrow> 'b TopicKeyNode \<Rightarrow> 'b TopicKeyNode" where
  "node_put t c n = (if t = STAR then set_star (Some c) n else if t = HASH then set_hash (Some c) n
     else set_children (map_put t c (childTokens n)) n)"

definition node_erase :: "string \<Rightarrow> 'b TopicKeyNode \<Rightarrow> 'b TopicKeyNode" where
  "node_erase t n = (if t = STAR then set_star None n else if t = HASH then set_hash None n
     else set_children (map_erase t (childTokens n)) n)"

definition getChildCount :: "'b TopicKeyNode \<Rightarrow> nat" where
  "getChildCount n = length (childTokens n) + (if starChild n = None then 0 else 1) + (if hashChild n = None then 0 else 1)"

fun node_add :: "'b node_ops \<Rightarrow> string \<Rightarrow> string list \<Rightarrow> 'b TopicKeyNode \<Rightarrow> 'b TopicKeyNode result" where
  "node_add G full [] n =
     (if routePattern n = [] then Inr (set_routePattern full n)
      else throw_if (routePattern n \<noteq> full) AssertionFailed (Inr n))"
| "node_add G full (t # ts) n =
     res_bind (node_add G full ts (case node_child t n of None \<Rightarrow> new_node G t | Some c \<Rightarrow> c))
       (\<lambda>c. Inr (node_put t c n))"

text \<open>The result tells the parent whether it can delete the node.\<close>

fun node_remove :: "'b node_ops \<Rightarrow> string list \<Rightarrow> 'b TopicKeyNode \<Rightarrow> bool \<times> 'b TopicKeyNode" where
  "node_remove G [] n = (getChildCount n = 0 \<and> is_unbound G (node_bindings n), n)"
| "node_remove G (t # ts) n =
     (let n' = (case node_child t n of
          None \<Rightarrow> n
        | Some c \<Rightarrow> (case node_remove G ts c of (rm, c') \<Rightarrow> if rm then node_erase t n else node_put t c' n))
      in (getChildCount n' = 0 \<and> is_unbound G (node_bindings n'), n'))"

fun node_at :: "string list \<Rightarrow> 'b TopicKeyNode \<Rightarrow> 'b TopicKeyNode option" where
  "node_at [] n = Some n"
| "node_at (t # ts) n = (case node_child t n of None \<Rightarrow> None | Some c \<Rightarrow> node_at ts c)"

definition node_get :: "string list \<Rightarrow> 'b TopicKeyNode \<Rightarrow> 'b option" where
  "node_get ts n = map_option node_bindings (node_at ts n)"

fun node_set :: "string list \<Rightarrow> 'b \<Rightarrow> 'b TopicKeyNode \<Rightarrow> 'b TopicKeyNode" where
  "node_set [] b n = set_bindings b n"
| "node_set (t # ts) b n = (case node_child t n of None \<Rightarrow> n | Some c \<Rightarrow> node_put t (node_set ts b c) n)"

section \<open>Iteration\<close>

text \<open>
  A \<open>TreeIterator\<close> is a function on a state of its own, which tells whether to go on. \<open>andThen\<close> is the pattern
  \<open>if (!...) return false;\<close>.
\<close>

type_synonym ('b, 's) visitor = "'b TopicKeyNode \<Rightarrow> 's \<Rightarrow> bool \<times> 's"

definition andThen :: "('s \<Rightarrow> bool \<times> 's) \<Rightarrow> ('s \<Rightarrow> bool \<times> 's) \<Rightarrow> 's \<Rightarrow> bool \<times> 's" where
  "andThen f g s = (case f s of (go, s') \<Rightarrow> if go then g s' else (False, s'))"

lemma map_of_size:
  "map_of cs t = Some c \<Longrightarrow> size c < Suc (size_list (size_prod (\<lambda>x. 0) size) cs)"
  by (induction cs) (auto split: if_splits)

lemma child_size:
  "starChild n = Some c \<Longrightarrow> size c < size n"
  "hashChild n = Some c \<Longrightarrow> size c < size n"
  "map_of (childTokens n) t = Some c \<Longrightarrow> size c < size n"
  "(t, c) \<in> set (childTokens n) \<Longrightarrow> size c < size n"
     apply (cases n; simp)
    apply (cases n; simp)
   apply (cases n; simp; frule map_of_size; simp)
  apply (cases n; simp)
  apply (drule size_list_estimation' [where f = "size_prod (\<lambda>x. 0) size" and y = "size c"])
  apply simp_all
  done

definition visit_bound :: "'b node_ops \<Rightarrow> ('b, 's) visitor \<Rightarrow> 'b TopicKeyNode \<Rightarrow> 's \<Rightarrow> bool \<times> 's" where
  "visit_bound G v n s = (if is_unbound G (node_bindings n) then (True, s) else v n s)"

function (sequential) iterateMatch ::
    "'b node_ops \<Rightarrow> ('b, 's) visitor \<Rightarrow> 'b TopicKeyNode \<Rightarrow> string list \<Rightarrow> 's \<Rightarrow> bool \<times> 's"
  and iterateMatchHash ::
    "'b node_ops \<Rightarrow> ('b, 's) visitor \<Rightarrow> 'b TopicKeyNode \<Rightarrow> string list \<Rightarrow> 's \<Rightarrow> bool \<times> 's"
  and iterateMatchChildren ::
    "'b node_ops \<Rightarrow> ('b, 's) visitor \<Rightarrow> 'b TopicKeyNode \<Rightarrow> string list \<Rightarrow> 's \<Rightarrow> bool \<times> 's"
where
  "iterateMatch G v n key s =
     (if node_token n = STAR
      then (case key of
          [] \<Rightarrow> (True, s)
        | k # rest \<Rightarrow> andThen (if rest = [] then visit_bound G v n else Pair True) (iterateMatchChildren G v n rest) s)
      else if node_token n = HASH then iterateMatchHash G v n key s
      else andThen (if key = [] then visit_bound G v n else Pair True) (iterateMatchChildren G v n key) s)"
| "iterateMatchHash G v n [] s = visit_bound G v n s"
| "iterateMatchHash G v n (k # rest) s = andThen (iterateMatchChildren G v n (k # rest)) (iterateMatchHash G v n rest) s"
| "iterateMatchChildren G v n key s =
     andThen (\<lambda>s. case hashChild n of None \<Rightarrow> (True, s) | Some c \<Rightarrow> iterateMatch G v c key s)
       (\<lambda>s. case key of
           [] \<Rightarrow> (True, s)
         | k # rest \<Rightarrow>
             andThen (\<lambda>s. case starChild n of None \<Rightarrow> (True, s) | Some c \<Rightarrow> iterateMatch G v c key s)
               (\<lambda>s. case map_of (childTokens n) k of None \<Rightarrow> (True, s) | Some c \<Rightarrow> iterateMatch G v c rest s) s) s"
  by pat_completeness auto
termination
  by (relation "measures [\<lambda>x. case x of Inl (G, v, n, key, s) \<Rightarrow> size n | Inr (Inl (G, v, n, key, s)) \<Rightarrow> size n
       | Inr (Inr (G, v, n, key, s)) \<Rightarrow> size n,
     \<lambda>x. case x of Inl (G, v, n, key, s) \<Rightarrow> 2 | Inr (Inl (G, v, n, key, s)) \<Rightarrow> 1 | Inr (Inr (G, v, n, key, s)) \<Rightarrow> 0,
     \<lambda>x. case x of Inl (G, v, n, key, s) \<Rightarrow> 0 | Inr (Inl (G, v, n, key, s)) \<Rightarrow> length key
       | Inr (Inr (G, v, n, key, s)) \<Rightarrow> 0]")
    (auto dest: child_size)

declare iterateMatch.simps [simp del] iterateMatchHash.simps [simp del] iterateMatchChildren.simps [simp del]

lemma children_size: "size_list (size \<circ> snd) (childTokens n) \<le> size n"
proof (cases n)
  case (TopicKeyNode r b t cs s h)
  have "size_list (size \<circ> snd) cs \<le> size_list (size_prod (\<lambda>x. 0) size) cs" by (induction cs) auto
  then show ?thesis by (simp add: TopicKeyNode)
qed

function (sequential) iterateAll :: "('b, 's) visitor \<Rightarrow> 'b TopicKeyNode \<Rightarrow> 's \<Rightarrow> bool \<times> 's"
  and iterateAll_children :: "('b, 's) visitor \<Rightarrow> 'b TopicKeyNode list \<Rightarrow> 's \<Rightarrow> bool \<times> 's"
where
  "iterateAll v n s =
     andThen (v n)
       (andThen (\<lambda>s. case starChild n of None \<Rightarrow> (True, s) | Some c \<Rightarrow> iterateAll v c s)
         (andThen (\<lambda>s. case hashChild n of None \<Rightarrow> (True, s) | Some c \<Rightarrow> iterateAll v c s)
           (\<lambda>s. iterateAll_children v (map snd (childTokens n)) s))) s"
| "iterateAll_children v [] s = (True, s)"
| "iterateAll_children v (c # cs) s = andThen (iterateAll v c) (iterateAll_children v cs) s"
  by pat_completeness auto
termination
  by (relation "measure (\<lambda>x. case x of Inl (v, n, s) \<Rightarrow> 2 * size n + 1 | Inr (v, cs, s) \<Rightarrow> 2 * size_list size cs)")
    (auto simp: children_size less_Suc_eq_le dest!: child_size)

declare iterateAll.simps [simp del]

section \<open>Topic patterns\<close>

text \<open>What a pattern means, as the specification of topic exchanges has it.\<close>

fun topic_match :: "string list \<Rightarrow> string list \<Rightarrow> bool" where
  "topic_match [] ks \<longleftrightarrow> ks = []"
| "topic_match (p # ps) [] \<longleftrightarrow> p = HASH \<and> topic_match ps []"
| "topic_match (p # ps) (k # ks) \<longleftrightarrow>
     (if p = HASH then topic_match ps (k # ks) \<or> topic_match (p # ps) ks
      else (p = STAR \<or> p = k) \<and> topic_match ps ks)"

lemma HASH_STAR [simp]: "HASH \<noteq> STAR" "STAR \<noteq> HASH"
  by (simp_all add: HASH_def STAR_def)

lemma topic_match_hash: "topic_match (HASH # ps) ks \<longleftrightarrow> (\<exists>i \<le> length ks. topic_match ps (drop i ks))"
proof (induction ks)
  case (Cons k ks)
  have "(\<exists>i \<le> length (k # ks). topic_match ps (drop i (k # ks))) \<longleftrightarrow>
      topic_match ps (k # ks) \<or> (\<exists>i \<le> length ks. topic_match ps (drop i ks))"
  proof (intro iffI)
    assume "\<exists>i \<le> length (k # ks). topic_match ps (drop i (k # ks))"
    then obtain i where i: "i \<le> length (k # ks)" "topic_match ps (drop i (k # ks))" by blast
    then show "topic_match ps (k # ks) \<or> (\<exists>i \<le> length ks. topic_match ps (drop i ks))" by (cases i) auto
  next
    assume "topic_match ps (k # ks) \<or> (\<exists>i \<le> length ks. topic_match ps (drop i ks))"
    then show "\<exists>i \<le> length (k # ks). topic_match ps (drop i (k # ks))"
      by (metis Suc_le_mono drop0 drop_Suc_Cons length_Cons zero_le)
  qed
  then show ?case using Cons by simp
qed simp

section \<open>Well-formed trees\<close>

inductive tree_wf :: "'b TopicKeyNode \<Rightarrow> bool" where
  tree_wfI: "(\<And>t c. node_child t n = Some c \<Longrightarrow> node_token c = t \<and> tree_wf c \<and> (t = HASH \<longrightarrow> hashChild c = None)) \<Longrightarrow>
    STAR \<notin> fst ` set (childTokens n) \<Longrightarrow> HASH \<notin> fst ` set (childTokens n) \<Longrightarrow> distinct (map fst (childTokens n)) \<Longrightarrow>
    sorted (map fst (childTokens n)) \<Longrightarrow> tree_wf n"

inductive_cases tree_wfE: "tree_wf n"

lemma tree_wf_child: "tree_wf n \<Longrightarrow> node_child t n = Some c \<Longrightarrow> node_token c = t \<and> tree_wf c \<and> (t = HASH \<longrightarrow> hashChild c = None)"
  by (erule tree_wfE) blast

lemma tree_wf_keys: "tree_wf n \<Longrightarrow> STAR \<notin> fst ` set (childTokens n) \<and> HASH \<notin> fst ` set (childTokens n) \<and> distinct (map fst (childTokens n))
    \<and> sorted (map fst (childTokens n))"
  by (erule tree_wfE) blast

lemma node_child_simps:
  "node_child STAR n = starChild n" "node_child HASH n = hashChild n"
  by (simp_all add: node_child_def)

lemma tree_wf_map_of: "tree_wf n \<Longrightarrow> map_of (childTokens n) t = (if t = STAR \<or> t = HASH then None else node_child t n)"
  using tree_wf_keys [of n] by (auto simp: node_child_def map_of_eq_None_iff)

lemma node_child_size: "node_child t n = Some c \<Longrightarrow> size c < size n"
  by (auto simp: node_child_def child_size split: if_splits)

section \<open>Matching is correct\<close>

text \<open>The nodes below \<open>n\<close> that are bound and whose path matches the key.\<close>

definition matching :: "'b node_ops \<Rightarrow> 'b TopicKeyNode \<Rightarrow> (string list \<Rightarrow> bool) \<Rightarrow> 'b TopicKeyNode set" where
  "matching G n P = {c. \<exists>ts. node_at ts n = Some c \<and> \<not> is_unbound G (node_bindings c) \<and> P ts}"

text \<open>The tokens of a key that the node itself has still to match: \<open>*\<close> and \<open>#\<close> nodes get the whole rest.\<close>

definition own_token :: "'b TopicKeyNode \<Rightarrow> string list" where
  "own_token n = (if node_token n = STAR \<or> node_token n = HASH then [node_token n] else [])"

text \<open>A visitor that never stops the iteration.\<close>

definition collects :: "('s \<Rightarrow> bool \<times> 's) \<Rightarrow> ('b TopicKeyNode \<Rightarrow> 's \<Rightarrow> 's) \<Rightarrow> 's \<Rightarrow> 'b TopicKeyNode set \<Rightarrow> bool" where
  "collects g f s A \<longleftrightarrow> (\<exists>L. g s = (True, fold f L s) \<and> set L = A)"

lemma collects_andThen:
  assumes "collects g f s A" "\<And>s. collects h f s B"
  shows "collects (andThen g h) f s (A \<union> B)"
proof -
  obtain L where L: "g s = (True, fold f L s)" "set L = A" using assms(1) by (auto simp: collects_def)
  obtain M where M: "h (fold f L s) = (True, fold f M (fold f L s))" "set M = B"
    using assms(2) by (auto simp: collects_def)
  have "andThen g h s = (True, fold f (L @ M) s)" by (simp add: andThen_def L M)
  then show ?thesis using L M unfolding collects_def by (metis set_append)
qed

lemma collects_none: "collects (Pair True) f s {}"
  unfolding collects_def by (rule exI [of _ "[]"]) simp

lemma collects_visit:
  "collects (visit_bound G (\<lambda>n s. (True, f n s)) n) f s (if is_unbound G (node_bindings n) then {} else {n})"
  unfolding collects_def by (rule exI [of _ "if is_unbound G (node_bindings n) then [] else [n]"]) (simp add: visit_bound_def)

lemma collects_cong: "collects g f s A \<Longrightarrow> g s = h s \<Longrightarrow> A = B \<Longrightarrow> collects h f s B"
  by (simp add: collects_def)

definition below :: "'b node_ops \<Rightarrow> 'b TopicKeyNode \<Rightarrow> string \<Rightarrow> (string list \<Rightarrow> bool) \<Rightarrow> 'b TopicKeyNode set" where
  "below G n t P = (case node_child t n of None \<Rightarrow> {} | Some c \<Rightarrow> matching G c P)"

lemma in_below: "c \<in> below G n t P \<longleftrightarrow>
    (\<exists>d ts. node_child t n = Some d \<and> node_at ts d = Some c \<and> \<not> is_unbound G (node_bindings c) \<and> P ts)"
  by (auto simp: below_def matching_def split: option.splits)

lemma matching_split:
  "matching G n P = (if \<not> is_unbound G (node_bindings n) \<and> P [] then {n} else {}) \<union> (\<Union>t. below G n t (\<lambda>ts. P (t # ts)))"
proof (intro equalityI subsetI)
  fix c
  assume "c \<in> matching G n P"
  then obtain ts where ts: "node_at ts n = Some c" "\<not> is_unbound G (node_bindings c)" "P ts" by (auto simp: matching_def)
  then show "c \<in> (if \<not> is_unbound G (node_bindings n) \<and> P [] then {n} else {}) \<union> (\<Union>t. below G n t (\<lambda>ts. P (t # ts)))"
  proof (cases ts)
    case (Cons t us)
    with ts obtain d where "node_child t n = Some d" "node_at us d = Some c" by (auto split: option.splits)
    then have "c \<in> below G n t (\<lambda>ts. P (t # ts))" using ts Cons by (auto simp: below_def matching_def)
    then show ?thesis by blast
  qed (use ts in auto)
next
  fix c
  assume "c \<in> (if \<not> is_unbound G (node_bindings n) \<and> P [] then {n} else {}) \<union> (\<Union>t. below G n t (\<lambda>ts. P (t # ts)))"
  then consider "c = n" "\<not> is_unbound G (node_bindings n)" "P []" | t where "c \<in> below G n t (\<lambda>ts. P (t # ts))"
    by (auto split: if_splits)
  then show "c \<in> matching G n P"
  proof cases
    case 1
    then show ?thesis unfolding matching_def by (intro CollectI exI [of _ "[]"]) simp
  next
    case (2 t)
    then obtain d ts where "node_child t n = Some d" "node_at ts d = Some c" "\<not> is_unbound G (node_bindings c)" "P (t # ts)"
      by (auto simp: below_def matching_def split: option.splits)
    then show ?thesis unfolding matching_def by (intro CollectI exI [of _ "t # ts"]) simp
  qed
qed

lemma matching_cong: "(\<And>ts. P ts = Q ts) \<Longrightarrow> matching G n P = matching G n Q"
  by (simp add: matching_def)

lemma below_False: "below G n t (\<lambda>ts. False) = {}"
  by (simp add: below_def matching_def split: option.splits)

text \<open>The children of a node that match a key.\<close>

definition child_matches :: "'b node_ops \<Rightarrow> 'b TopicKeyNode \<Rightarrow> string list \<Rightarrow> 'b TopicKeyNode set" where
  "child_matches G n key = (\<Union>t. below G n t (\<lambda>ts. topic_match (t # ts) key))"

lemma child_matches_Nil: "child_matches G n [] = below G n HASH (\<lambda>ts. topic_match (HASH # ts) [])"
proof -
  have "below G n t (\<lambda>ts. topic_match (t # ts) []) = (if t = HASH then below G n HASH (\<lambda>ts. topic_match (HASH # ts) []) else {})" for t
    by (simp add: below_False)
  then show ?thesis unfolding child_matches_def by (auto split: if_splits)
qed

lemma child_matches_Cons:
  "child_matches G n (k # ks) = below G n HASH (\<lambda>ts. topic_match (HASH # ts) (k # ks))
     \<union> below G n STAR (\<lambda>ts. topic_match ts ks) \<union> (if k = STAR \<or> k = HASH then {} else below G n k (\<lambda>ts. topic_match ts ks))"
proof -
  have "below G n t (\<lambda>ts. topic_match (t # ts) (k # ks)) =
      (if t = HASH then below G n HASH (\<lambda>ts. topic_match (HASH # ts) (k # ks))
       else if t = STAR then below G n STAR (\<lambda>ts. topic_match ts ks)
       else if t = k then below G n k (\<lambda>ts. topic_match ts ks) else {})" for t
    by (auto simp add: below_False simp del: topic_match.simps(1,2))
  then show ?thesis unfolding child_matches_def by (auto split: if_splits)
qed

lemma child_collects:
  assumes "\<And>c s. node_child t n = Some c \<Longrightarrow> collects (h c) f s (matching G c P)"
  shows "collects (\<lambda>s. case node_child t n of None \<Rightarrow> (True, s) | Some c \<Rightarrow> h c s) f s (below G n t P)"
proof (cases "node_child t n")
  case None
  then show ?thesis using collects_none [of f s] by (simp add: below_def collects_def)
next
  case (Some c)
  then show ?thesis using assms [OF Some, of s] by (simp add: below_def collects_def)
qed

lemma hash_matching:
  assumes "hashChild n = None"
  shows "matching G n (\<lambda>ts. topic_match (HASH # ts) key) =
    (\<Union>i < length key. child_matches G n (drop i key)) \<union> (if is_unbound G (node_bindings n) then {} else {n})"
proof -
  have empty: "child_matches G n [] = {}"
    unfolding child_matches_Nil using assms by (simp add: below_def node_child_def)
  have "matching G n (\<lambda>ts. topic_match (HASH # ts) key) = (if \<not> is_unbound G (node_bindings n) then {n} else {})
      \<union> (\<Union>t. below G n t (\<lambda>ts. \<exists>i \<le> length key. topic_match (t # ts) (drop i key)))"
    unfolding matching_split [of G n] topic_match_hash by auto
  also have "(\<Union>t. below G n t (\<lambda>ts. \<exists>i \<le> length key. topic_match (t # ts) (drop i key))) =
      (\<Union>i \<le> length key. child_matches G n (drop i key))"
    unfolding child_matches_def set_eq_iff UN_iff in_below atMost_iff by blast
  also have "\<dots> = (\<Union>i < length key. child_matches G n (drop i key))"
  proof -
    have "{..length key} = insert (length key) {..<length key}" by auto
    then show ?thesis using empty by simp
  qed
  finally show ?thesis by auto
qed

lemma drop_union:
  "(\<Union>i < length (k # ks). F (drop i (k # ks))) = F (k # ks) \<union> (\<Union>i < length ks. F (drop i ks))"
proof -
  have "{..<length (k # ks)} = insert 0 (Suc ` {..<length ks})" by (simp add: lessThan_Suc_eq_insert_0)
  then show ?thesis by simp
qed

lemma matching_Nil_False: "\<not> P [] \<Longrightarrow> matching G n P = (\<Union>t. below G n t (\<lambda>ts. P (t # ts)))"
  by (subst matching_split) simp

text \<open>The statement for one node, and for what it calls on itself.\<close>

definition match_ok :: "'b node_ops \<Rightarrow> ('b TopicKeyNode \<Rightarrow> 's \<Rightarrow> 's) \<Rightarrow> 'b TopicKeyNode \<Rightarrow> bool" where
  "match_ok G f n \<longleftrightarrow> (\<forall>key s. collects (iterateMatch G (\<lambda>n s. (True, f n s)) n key) f s
     (matching G n (\<lambda>ts. topic_match (own_token n @ ts) key)))"

lemma children_match:
  fixes f :: "'b TopicKeyNode \<Rightarrow> 's \<Rightarrow> 's"
  assumes "tree_wf n" "\<And>t c. node_child t n = Some c \<Longrightarrow> match_ok G f c"
  shows "collects (iterateMatchChildren G (\<lambda>n s. (True, f n s)) n key) f s (child_matches G n key)"
proof -
  let ?v = "\<lambda>n s. (True, f n s)"
  have child: "collects (\<lambda>s. case node_child t n of None \<Rightarrow> (True, s) | Some c \<Rightarrow> iterateMatch G ?v c key s) f s
      (below G n t (\<lambda>ts. topic_match ((if t = STAR \<or> t = HASH then [t] else []) @ ts) key))" for t key s
  proof (rule child_collects)
    fix c s
    assume c: "node_child t n = Some c"
    have "own_token c = (if t = STAR \<or> t = HASH then [t] else [])"
      using tree_wf_child [OF assms(1) c] by (simp add: own_token_def)
    then show "collects (iterateMatch G ?v c key) f s
        (matching G c (\<lambda>ts. topic_match ((if t = STAR \<or> t = HASH then [t] else []) @ ts) key))"
      using assms(2) [OF c, unfolded match_ok_def, rule_format, of key s] by simp
  qed
  have hash: "collects (\<lambda>s. case hashChild n of None \<Rightarrow> (True, s) | Some c \<Rightarrow> iterateMatch G ?v c key s) f s
      (below G n HASH (\<lambda>ts. topic_match (HASH # ts) key))" for s
    using child [where t = HASH and key = key and s = s] by (simp add: node_child_simps)
  show ?thesis
  proof (cases key)
    case Nil
    have "collects (andThen (\<lambda>s. case hashChild n of None \<Rightarrow> (True, s) | Some c \<Rightarrow> iterateMatch G ?v c [] s) (Pair True)) f s
        (below G n HASH (\<lambda>ts. topic_match (HASH # ts) []) \<union> {})"
      using hash unfolding Nil by (rule collects_andThen) (rule collects_none)
    then show ?thesis
      unfolding Nil child_matches_Nil by (rule collects_cong) (simp_all add: iterateMatchChildren.simps)
  next
    case (Cons k ks)
    have star: "collects (\<lambda>s. case starChild n of None \<Rightarrow> (True, s) | Some c \<Rightarrow> iterateMatch G ?v c (k # ks) s) f s
        (below G n STAR (\<lambda>ts. topic_match ts ks))" for s
      using child [where t = STAR and key = "k # ks" and s = s] by (simp add: node_child_simps)
    have str: "collects (\<lambda>s. case map_of (childTokens n) k of None \<Rightarrow> (True, s) | Some c \<Rightarrow> iterateMatch G ?v c ks s) f s
        (if k = STAR \<or> k = HASH then {} else below G n k (\<lambda>ts. topic_match ts ks))" for s
      using child [where t = k and key = ks and s = s] collects_none [of f s] by (auto simp: tree_wf_map_of [OF assms(1)] collects_def)
    have "collects (andThen (\<lambda>s. case hashChild n of None \<Rightarrow> (True, s) | Some c \<Rightarrow> iterateMatch G ?v c (k # ks) s)
        (andThen (\<lambda>s. case starChild n of None \<Rightarrow> (True, s) | Some c \<Rightarrow> iterateMatch G ?v c (k # ks) s)
          (\<lambda>s. case map_of (childTokens n) k of None \<Rightarrow> (True, s) | Some c \<Rightarrow> iterateMatch G ?v c ks s))) f s
        (below G n HASH (\<lambda>ts. topic_match (HASH # ts) (k # ks)) \<union> (below G n STAR (\<lambda>ts. topic_match ts ks)
          \<union> (if k = STAR \<or> k = HASH then {} else below G n k (\<lambda>ts. topic_match ts ks))))"
      by (intro collects_andThen star str hash [unfolded Cons])
    then show ?thesis
      unfolding Cons child_matches_Cons
      by (rule collects_cong) (simp_all add: iterateMatchChildren.simps Un_assoc)
  qed
qed

lemma hash_match:
  assumes "hashChild n = None"
    and "\<And>key s. collects (iterateMatchChildren G (\<lambda>n s. (True, f n s)) n key) f s (child_matches G n key)"
  shows "collects (iterateMatchHash G (\<lambda>n s. (True, f n s)) n key) f s (matching G n (\<lambda>ts. topic_match (HASH # ts) key))"
  unfolding hash_matching [OF assms(1)]
proof (induction key arbitrary: s)
  case Nil
  show ?case using collects_visit [of G f n s] by (simp add: collects_def iterateMatchHash.simps)
next
  case (Cons k ks)
  have "collects (andThen (iterateMatchChildren G (\<lambda>n s. (True, f n s)) n (k # ks)) (iterateMatchHash G (\<lambda>n s. (True, f n s)) n ks)) f s
      (child_matches G n (k # ks) \<union> ((\<Union>i < length ks. child_matches G n (drop i ks)) \<union> (if is_unbound G (node_bindings n) then {} else {n})))"
    by (intro collects_andThen assms(2) Cons)
  then show ?case unfolding drop_union by (rule collects_cong) (simp_all add: iterateMatchHash.simps Un_assoc)
qed

lemma node_match:
  fixes f :: "'b TopicKeyNode \<Rightarrow> 's \<Rightarrow> 's"
  assumes "tree_wf n" "node_token n = HASH \<longrightarrow> hashChild n = None"
  shows "match_ok G f n"
  using assms
proof (induction n rule: measure_induct_rule [of size])
  case (less n)
  let ?v = "\<lambda>n s. (True, f n s)"
  have "match_ok G f c" if c: "node_child t n = Some c" for t c
    using less.IH [OF node_child_size [OF c]] tree_wf_child [OF less.prems(1) c] by blast
  then have children: "collects (iterateMatchChildren G ?v n key) f s (child_matches G n key)" for key s
    by (rule children_match [OF less.prems(1)])
  have visit: "collects (andThen (if b then visit_bound G ?v n else Pair True) (iterateMatchChildren G ?v n key)) f s
      ((if b \<and> \<not> is_unbound G (node_bindings n) then {n} else {}) \<union> child_matches G n key)" for b key s
    using collects_visit [of G f n s] collects_none [of f s]
    by (intro collects_andThen children) (cases b; cases "is_unbound G (node_bindings n)"; simp)
  show ?case
    unfolding match_ok_def
  proof (intro allI)
    fix key s
    show "collects (iterateMatch G ?v n key) f s (matching G n (\<lambda>ts. topic_match (own_token n @ ts) key))"
    proof (cases "node_token n = HASH")
      case True
      then show ?thesis using hash_match [OF _ children, of key s] less.prems(2)
        by (auto simp: own_token_def collects_def iterateMatch.simps)
    next
      case nh: False
      show ?thesis
      proof (cases "node_token n = STAR")
        case True
        show ?thesis
        proof (cases key)
          case Nil
          then show ?thesis using collects_none [of f s] True
            by (auto simp: own_token_def collects_def iterateMatch.simps matching_def)
        next
          case (Cons k rest)
          have "matching G n (\<lambda>ts. topic_match (own_token n @ ts) key) =
              (if rest = [] \<and> \<not> is_unbound G (node_bindings n) then {n} else {}) \<union> child_matches G n rest"
            unfolding matching_split [of G n] child_matches_def by (auto simp: own_token_def True Cons)
          then show ?thesis using visit [of "rest = []" rest s] True Cons
            by (simp add: collects_def iterateMatch.simps)
        qed
      next
        case False
        have "matching G n (\<lambda>ts. topic_match (own_token n @ ts) key) =
            (if key = [] \<and> \<not> is_unbound G (node_bindings n) then {n} else {}) \<union> child_matches G n key"
          unfolding matching_split [of G n] child_matches_def by (auto simp: own_token_def False nh)
        then show ?thesis using visit [of "key = []" key s] False nh
          by (simp add: collects_def iterateMatch.simps)
      qed
    qed
  qed
qed

section \<open>Changing the tree\<close>

lemma set_simps [simp]:
  "node_bindings (set_routePattern p n) = node_bindings n" "node_token (set_routePattern p n) = node_token n"
  "childTokens (set_routePattern p n) = childTokens n" "starChild (set_routePattern p n) = starChild n"
  "hashChild (set_routePattern p n) = hashChild n" "routePattern (set_routePattern p n) = p"
  "node_bindings (set_bindings b n) = b" "node_token (set_bindings b n) = node_token n"
  "childTokens (set_bindings b n) = childTokens n" "starChild (set_bindings b n) = starChild n"
  "hashChild (set_bindings b n) = hashChild n" "routePattern (set_bindings b n) = routePattern n"
  "node_bindings (set_children cs n) = node_bindings n" "node_token (set_children cs n) = node_token n"
  "childTokens (set_children cs n) = cs" "starChild (set_children cs n) = starChild n"
  "hashChild (set_children cs n) = hashChild n" "routePattern (set_children cs n) = routePattern n"
  "node_bindings (set_star s n) = node_bindings n" "node_token (set_star s n) = node_token n"
  "childTokens (set_star s n) = childTokens n" "starChild (set_star s n) = s"
  "hashChild (set_star s n) = hashChild n" "routePattern (set_star s n) = routePattern n"
  "node_bindings (set_hash h n) = node_bindings n" "node_token (set_hash h n) = node_token n"
  "childTokens (set_hash h n) = childTokens n" "starChild (set_hash h n) = starChild n"
  "hashChild (set_hash h n) = h" "routePattern (set_hash h n) = routePattern n"
  by (cases n; simp)+

lemma new_node_simps [simp]:
  "node_bindings (new_node G t) = no_bindings G" "node_token (new_node G t) = t" "routePattern (new_node G t) = []"
  "hashChild (new_node G t) = None" "childTokens (new_node G t) = []" "node_child u (new_node G t) = None"
  by (simp_all add: new_node_def node_child_def)

lemma node_child_put: "node_child u (node_put t c n) = (if u = t then Some c else node_child u n)"
  by (simp add: node_child_def node_put_def map_of_put)

lemma node_child_erase: "node_child u (node_erase t n) = (if u = t then None else node_child u n)"
  by (simp add: node_child_def node_erase_def map_of_erase)

lemma node_put_simps [simp]:
  "node_bindings (node_put t c n) = node_bindings n" "node_token (node_put t c n) = node_token n"
  "routePattern (node_put t c n) = routePattern n"
  "node_bindings (node_erase t n) = node_bindings n" "node_token (node_erase t n) = node_token n"
  "routePattern (node_erase t n) = routePattern n"
  by (simp_all add: node_put_def node_erase_def)

lemma node_child_set [simp]:
  "node_child u (set_routePattern p n) = node_child u n" "node_child u (set_bindings b n) = node_child u n"
  by (simp_all add: node_child_def)

text \<open>The value at a path, or the default value where there is no node.\<close>

definition held :: "'b node_ops \<Rightarrow> string list \<Rightarrow> 'b TopicKeyNode \<Rightarrow> 'b" where
  "held G ts n = (case node_get ts n of None \<Rightarrow> no_bindings G | Some b \<Rightarrow> b)"

lemma node_get_simps [simp]:
  "node_get [] n = Some (node_bindings n)"
  "node_get (t # ts) n = (case node_child t n of None \<Rightarrow> None | Some c \<Rightarrow> node_get ts c)"
  by (simp_all add: node_get_def split: option.splits)

lemma held_simps:
  "held G [] n = node_bindings n"
  "held G (t # ts) n = (case node_child t n of None \<Rightarrow> no_bindings G | Some c \<Rightarrow> held G ts c)"
  by (simp_all add: held_def split: option.splits)

lemma held_new [simp]: "held G ts (new_node G t) = no_bindings G"
  by (cases ts) (simp_all add: held_simps)

lemma node_add_held:
  "node_add G full ts n = Inr n' \<Longrightarrow> held G us n' = held G us n \<and> node_get ts n' \<noteq> None"
proof (induction ts arbitrary: n n' us)
  case Nil
  then have "n' = n \<or> n' = set_routePattern full n" by (auto simp: throw_if_eq_Inr split: if_splits)
  then show ?case by (cases us) (auto simp: held_simps)
next
  case (Cons t ts)
  let ?c = "case node_child t n of None \<Rightarrow> new_node G t | Some c \<Rightarrow> c"
  from Cons.prems obtain c where c: "node_add G full ts ?c = Inr c" "n' = node_put t c n"
    by (auto simp: res_bind_eq_Inr)
  have "held G vs c = held G vs ?c \<and> node_get ts c \<noteq> None" for vs using Cons.IH [OF c(1)] by blast
  moreover have "held G vs ?c = (case node_child t n of None \<Rightarrow> no_bindings G | Some c \<Rightarrow> held G vs c)" for vs
    by (cases "node_child t n") simp_all
  ultimately show ?case unfolding c(2) by (cases us) (auto simp: held_simps node_child_put)
qed

lemma node_set_held:
  "node_get ts n \<noteq> None \<Longrightarrow> held G us (node_set ts b n) = (if us = ts then b else held G us n)"
proof (induction ts arbitrary: n us)
  case Nil
  then show ?case by (cases us) (auto simp: held_simps)
next
  case (Cons t ts)
  then obtain c where c: "node_child t n = Some c" "node_get ts c \<noteq> None" by (auto split: option.splits)
  then show ?case using Cons.IH [OF c(2)] by (cases us) (auto simp: held_simps node_child_put)
qed

lemma node_remove_held:
  assumes "is_unbound G (no_bindings G)"
  shows "held G us (snd (node_remove G ts n)) = held G us n
     \<or> (is_unbound G (held G us n) \<and> held G us (snd (node_remove G ts n)) = no_bindings G)"
proof (induction ts arbitrary: n us)
  case (Cons t ts)
  show ?case
  proof (cases "node_child t n")
    case None
    then show ?thesis by simp
  next
    case (Some c)
    obtain rm c' where r: "node_remove G ts c = (rm, c')" by (cases "node_remove G ts c")
    have ih: "held G vs c' = held G vs c \<or> (is_unbound G (held G vs c) \<and> held G vs c' = no_bindings G)" for vs
      using Cons.IH [of vs c] r by simp
    have n': "snd (node_remove G (t # ts) n) = (if rm then node_erase t n else node_put t c' n)"
      using Some r by (simp add: Let_def)
    show ?thesis
    proof (cases us)
      case Nil
      then show ?thesis unfolding n' by (simp add: held_simps)
    next
      case us: (Cons u vs)
      show ?thesis
      proof (cases "u = t \<and> rm")
        case True
        have "fst (node_remove G ts c)" using r True by simp
        then have leaf: "getChildCount c' = 0 \<and> is_unbound G (node_bindings c')"
          using r by (cases ts) (auto simp: Let_def)
        then have "held G vs c' = (if vs = [] then node_bindings c' else no_bindings G)"
          by (cases vs) (auto simp: held_simps getChildCount_def node_child_def split: if_splits)
        then have "is_unbound G (held G vs c')" using leaf assms by simp
        then have "is_unbound G (held G vs c)" using ih [of vs] by auto
        then show ?thesis using True us Some unfolding n' by (simp add: held_simps node_child_erase)
      next
        case False
        then show ?thesis using us Some ih [of vs] unfolding n'
          by (auto simp: held_simps node_child_erase node_child_put)
      qed
    qed
  qed
qed simp

lemma tree_wf_new: "tree_wf (new_node G t)"
  by (rule tree_wfI) simp_all

lemma tree_wf_same:
  "tree_wf n \<Longrightarrow> tree_wf (set_routePattern p n)" "tree_wf n \<Longrightarrow> tree_wf (set_bindings b n)"
  by (rule tree_wfI; use tree_wf_child [of n] tree_wf_keys [of n] in simp)+

lemma tree_wf_put:
  assumes "tree_wf n" "tree_wf c" "node_token c = t" "t = HASH \<longrightarrow> hashChild c = None"
  shows "tree_wf (node_put t c n)"
proof (rule tree_wfI)
  note keys = tree_wf_keys [OF assms(1)]
  show "node_token d = u \<and> tree_wf d \<and> (u = HASH \<longrightarrow> hashChild d = None)" if "node_child u (node_put t c n) = Some d" for u d
    using that assms tree_wf_child [OF assms(1), of u d] by (auto simp: node_child_put split: if_splits)
  have "fst ` set (childTokens (node_put t c n)) \<subseteq> fst ` set (childTokens n) \<union> ({t} - {STAR, HASH})"
    using map_put_keys [of t c "childTokens n"] by (auto simp: node_put_def)
  then show "STAR \<notin> fst ` set (childTokens (node_put t c n))" "HASH \<notin> fst ` set (childTokens (node_put t c n))"
    using keys by auto
  show "distinct (map fst (childTokens (node_put t c n)))" "sorted (map fst (childTokens (node_put t c n)))"
    using keys map_put_sorted [of "childTokens n" t c] by (auto simp: node_put_def)
qed

lemma tree_wf_erase:
  assumes "tree_wf n"
  shows "tree_wf (node_erase t n)"
proof (rule tree_wfI)
  note keys = tree_wf_keys [OF assms]
  show "node_token d = u \<and> tree_wf d \<and> (u = HASH \<longrightarrow> hashChild d = None)" if "node_child u (node_erase t n) = Some d" for u d
    using that tree_wf_child [OF assms, of u d] by (auto simp: node_child_erase split: if_splits)
  have "fst ` set (childTokens (node_erase t n)) \<subseteq> fst ` set (childTokens n)"
    using map_erase_keys(1) [of t "childTokens n"] by (auto simp: node_erase_def)
  then show "STAR \<notin> fst ` set (childTokens (node_erase t n))" "HASH \<notin> fst ` set (childTokens (node_erase t n))"
    using keys by auto
  show "distinct (map fst (childTokens (node_erase t n)))" "sorted (map fst (childTokens (node_erase t n)))"
    using keys map_erase_keys(2,3) [of "childTokens n" t] by (auto simp: node_erase_def)
qed

text \<open>A node is well placed if it does not put \<open>#\<close> below \<open>#\<close>.\<close>

definition placed :: "'b TopicKeyNode \<Rightarrow> bool" where
  "placed n \<longleftrightarrow> tree_wf n \<and> (node_token n = HASH \<longrightarrow> hashChild n = None)"

lemma placed_child: "placed n \<Longrightarrow> node_child t n = Some c \<Longrightarrow> placed c \<and> node_token c = t"
  using tree_wf_child [of n t c] by (auto simp: placed_def)

lemma placed_put:
  "placed n \<Longrightarrow> placed c \<Longrightarrow> node_token c = t \<Longrightarrow> \<not> (node_token n = HASH \<and> t = HASH) \<Longrightarrow> placed (node_put t c n)"
  using tree_wf_put [of n c t] node_child_put [of HASH t c n] by (auto simp: placed_def node_child_simps)

lemma placed_erase: "placed n \<Longrightarrow> placed (node_erase t n)"
  using tree_wf_erase [of n t] node_child_erase [of HASH t n] by (auto simp: placed_def node_child_simps)

text \<open>A path without two \<open>#\<close> in a row.\<close>

fun no_hash_hash :: "string list \<Rightarrow> bool" where
  "no_hash_hash (t # u # ts) \<longleftrightarrow> \<not> (t = HASH \<and> u = HASH) \<and> no_hash_hash (u # ts)"
| "no_hash_hash ts \<longleftrightarrow> True"

lemma no_hash_hash_tl: "no_hash_hash (t # ts) \<Longrightarrow> no_hash_hash ts"
  by (cases ts) auto

lemma node_add_placed:
  "node_add G full ts n = Inr n' \<Longrightarrow> placed n \<Longrightarrow> no_hash_hash (node_token n # ts) \<Longrightarrow> placed n' \<and> node_token n' = node_token n"
proof (induction ts arbitrary: n n')
  case Nil
  then have "n' = n \<or> n' = set_routePattern full n" by (auto simp: throw_if_eq_Inr split: if_splits)
  then show ?case using Nil tree_wf_same(1) [of n full] by (auto simp: placed_def)
next
  case (Cons t ts)
  let ?c = "case node_child t n of None \<Rightarrow> new_node G t | Some c \<Rightarrow> c"
  from Cons.prems obtain c where c: "node_add G full ts ?c = Inr c" "n' = node_put t c n"
    by (auto simp: res_bind_eq_Inr)
  have "placed ?c \<and> node_token ?c = t"
    using placed_child [OF Cons.prems(2), of t] tree_wf_new by (auto simp: placed_def split: option.splits)
  then have "placed c \<and> node_token c = t" using Cons.IH [OF c(1)] no_hash_hash_tl [OF Cons.prems(3)] by simp
  then show ?case unfolding c(2) using placed_put [OF Cons.prems(2), of c t] Cons.prems(3) by auto
qed

lemma node_set_placed: "placed n \<Longrightarrow> placed (node_set ts b n) \<and> node_token (node_set ts b n) = node_token n"
proof (induction ts arbitrary: n)
  case Nil
  then show ?case using tree_wf_same(2) [of n b] by (auto simp: placed_def)
next
  case (Cons t ts)
  show ?case
  proof (cases "node_child t n")
    case (Some c)
    then have "placed (node_set ts b c) \<and> node_token (node_set ts b c) = t"
      using Cons.IH [of c] placed_child [OF Cons.prems Some] by simp
    moreover have "\<not> (node_token n = HASH \<and> t = HASH)" using Some Cons.prems by (auto simp: placed_def node_child_simps)
    ultimately show ?thesis using Some placed_put [OF Cons.prems] by simp
  qed (use Cons.prems in simp)
qed

lemma node_remove_placed:
  "placed n \<Longrightarrow> placed (snd (node_remove G ts n)) \<and> node_token (snd (node_remove G ts n)) = node_token n"
proof (induction ts arbitrary: n)
  case (Cons t ts)
  show ?case
  proof (cases "node_child t n")
    case (Some c)
    obtain rm c' where r: "node_remove G ts c = (rm, c')" by (cases "node_remove G ts c")
    have "placed c' \<and> node_token c' = t"
      using Cons.IH [of c] placed_child [OF Cons.prems Some] r by simp
    moreover have "\<not> (node_token n = HASH \<and> t = HASH)" using Some Cons.prems by (auto simp: placed_def node_child_simps)
    ultimately show ?thesis using Some r placed_put [OF Cons.prems] placed_erase [OF Cons.prems] by (simp add: Let_def)
  qed (use Cons.prems in \<open>simp add: Let_def\<close>)
qed simp

section \<open>The pattern stored in a node\<close>

fun join_dots :: "string list \<Rightarrow> string" where
  "join_dots [] = []"
| "join_dots [t] = t"
| "join_dots (t # ts) = t @ CHR ''.'' # join_dots ts"

lemma TokenIterator_nonempty: "TokenIterator s \<noteq> []"
  by (induction s) (auto split: list.splits)

lemma join_TokenIterator: "join_dots (TokenIterator s) = s"
proof (induction s)
  case (Cons c s)
  then show ?case
    using TokenIterator_nonempty [of s] by (cases "TokenIterator s" rule: join_dots.cases) auto
qed simp

lemma TokenIterator_prefix: "CHR ''.'' \<notin> set t \<Longrightarrow> TokenIterator (t @ CHR ''.'' # s) = t # TokenIterator s"
  by (induction t) auto

lemma TokenIterator_single: "CHR ''.'' \<notin> set t \<Longrightarrow> TokenIterator t = [t]"
  by (induction t) auto

lemma TokenIterator_join: "ts \<noteq> [] \<Longrightarrow> list_all (\<lambda>t. CHR ''.'' \<notin> set t) ts \<Longrightarrow> TokenIterator (join_dots ts) = ts"
  by (induction ts rule: join_dots.induct) (simp_all add: TokenIterator_prefix TokenIterator_single)

lemma TokenIterator_dots: "list_all (\<lambda>t. CHR ''.'' \<notin> set t) (TokenIterator s)"
  by (induction s) (auto split: list.splits)

definition patterns_ok :: "string list \<Rightarrow> 'b TopicKeyNode \<Rightarrow> bool" where
  "patterns_ok pre n \<longleftrightarrow> (\<forall>us c. node_at us n = Some c \<longrightarrow> routePattern c = [] \<or> routePattern c = join_dots (pre @ us))"

lemma patterns_child: "patterns_ok pre n \<Longrightarrow> node_child t n = Some c \<Longrightarrow> patterns_ok (pre @ [t]) c"
  unfolding patterns_ok_def by (metis append.assoc append_Cons append_Nil node_at.simps(2) option.simps(5))

lemma patterns_new: "patterns_ok pre (new_node G t)"
proof -
  have "node_at us (new_node G t) = Some c \<Longrightarrow> routePattern c = []" for us c by (cases us) auto
  then show ?thesis by (auto simp: patterns_ok_def)
qed

lemma patterns_build:
  assumes "routePattern n = [] \<or> routePattern n = join_dots pre" "\<And>t c. node_child t n = Some c \<Longrightarrow> patterns_ok (pre @ [t]) c"
  shows "patterns_ok pre n"
  unfolding patterns_ok_def
proof (intro allI impI)
  fix us c
  assume c: "node_at us n = Some c"
  show "routePattern c = [] \<or> routePattern c = join_dots (pre @ us)"
  proof (cases us)
    case (Cons t vs)
    with c obtain d where "node_child t n = Some d" "node_at vs d = Some c" by (auto split: option.splits)
    then show ?thesis using assms(2) [of t d] Cons by (auto simp: patterns_ok_def)
  qed (use c assms(1) in simp)
qed

lemma patterns_own: "patterns_ok pre n \<Longrightarrow> routePattern n = [] \<or> routePattern n = join_dots pre"
  unfolding patterns_ok_def by (metis append_Nil2 node_at.simps(1))

lemma patterns_put:
  assumes "patterns_ok pre n" "patterns_ok (pre @ [t]) c"
  shows "patterns_ok pre (node_put t c n)"
  by (rule patterns_build)
    (use patterns_own [OF assms(1)] patterns_child [OF assms(1)] assms(2) in \<open>auto simp: node_child_put split: if_splits\<close>)

lemma patterns_erase:
  assumes "patterns_ok pre n"
  shows "patterns_ok pre (node_erase t n)"
  by (rule patterns_build)
    (use patterns_own [OF assms] patterns_child [OF assms] in \<open>auto simp: node_child_erase split: if_splits\<close>)

lemma node_add_succeeds:
  "patterns_ok pre n \<Longrightarrow> \<exists>n'. node_add G (join_dots (pre @ ts)) ts n = Inr n' \<and> patterns_ok pre n'"
proof (induction ts arbitrary: n pre)
  case Nil
  have "patterns_ok pre (set_routePattern (join_dots pre) n)"
    by (rule patterns_build) (use patterns_child [OF Nil] in auto)
  then show ?case using patterns_own [OF Nil] Nil by auto
next
  case (Cons t ts)
  let ?c = "case node_child t n of None \<Rightarrow> new_node G t | Some c \<Rightarrow> c"
  have "patterns_ok (pre @ [t]) ?c" using patterns_child [OF Cons.prems] patterns_new by (auto split: option.splits)
  from Cons.IH [OF this] obtain c where c: "node_add G (join_dots (pre @ t # ts)) ts ?c = Inr c" "patterns_ok (pre @ [t]) c"
    by auto
  then show ?case using patterns_put [OF Cons.prems c(2)] by simp
qed

lemma node_set_patterns: "patterns_ok pre n \<Longrightarrow> patterns_ok pre (node_set ts b n)"
proof (induction ts arbitrary: n pre)
  case Nil
  show ?case by (rule patterns_build) (use patterns_own [OF Nil] patterns_child [OF Nil] in auto)
next
  case (Cons t ts)
  show ?case
  proof (cases "node_child t n")
    case (Some c)
    have "patterns_ok (pre @ [t]) (node_set ts b c)" using Cons.IH [OF patterns_child [OF Cons.prems Some]] .
    then show ?thesis using Some patterns_put [OF Cons.prems] by simp
  qed (use Cons.prems in simp)
qed

lemma node_remove_patterns: "patterns_ok pre n \<Longrightarrow> patterns_ok pre (snd (node_remove G ts n))"
proof (induction ts arbitrary: n pre)
  case (Cons t ts)
  show ?case
  proof (cases "node_child t n")
    case (Some c)
    obtain rm c' where r: "node_remove G ts c = (rm, c')" by (cases "node_remove G ts c")
    have "patterns_ok (pre @ [t]) c'" using Cons.IH [OF patterns_child [OF Cons.prems Some]] r by simp
    then show ?thesis using Some r patterns_put [OF Cons.prems] patterns_erase [OF Cons.prems] by (simp add: Let_def)
  qed (use Cons.prems in \<open>simp add: Let_def\<close>)
qed simp

end
