(* ===== verification/Exchange_Base.thy ===== *)
theory Exchange_Base
  imports Prelude
begin

text \<open>
  What the exchanges share: bindings, the federation record \<open>FedBinding\<close>, and delivery of a routed message
  (\<open>src/qpid/broker/Exchange.h\<close>, \<open>Exchange.cpp\<close>). A queue is a value of a type \<open>'q\<close>, compared as the code
  compares pointers; its name is given by a function. Arguments of a binding other than the federation ones are a
  value of a type \<open>'a\<close>. Management counters and locks are left out.
\<close>

section \<open>Bindings\<close>

record ('q, 'a) Binding =
  b_queue :: 'q
  b_key :: string
  b_args :: "'a option"
  b_origin :: string

text \<open>The federation arguments of a bind or unbind request; an argument that is missing is the empty string.\<close>

record 'a bind_args =
  arg_fedOp :: string
  arg_fedTags :: string
  arg_fedOrigin :: string
  arg_table :: 'a

definition fedOpBind :: string where "fedOpBind = ''B''"
definition fedOpUnbind :: string where "fedOpUnbind = ''U''"
definition fedOpReorigin :: string where "fedOpReorigin = ''R''"

text \<open>Arguments that only add or remove a binding: no federation operation other than that.\<close>

definition plain_bind :: "'a bind_args option \<Rightarrow> bool" where
  "plain_bind args \<longleftrightarrow> (case args of None \<Rightarrow> True | Some a \<Rightarrow> arg_fedOp a = [] \<or> arg_fedOp a = fedOpBind)"

text \<open>What an operation of an exchange asks of the rest of the broker.\<close>

datatype exchange_event =
    PropagateFedOp string string string string
  | RouteIVE
  | CheckAutodelete

section \<open>Federation origins\<close>

record FedBinding =
  localBindings :: "32 word"
  fedBindings :: "string \<rightharpoonup> string set"

definition FedBinding_init :: FedBinding where
  "FedBinding_init = \<lparr> localBindings = 0, fedBindings = Map.empty \<rparr>"

definition hasLocal :: "FedBinding \<Rightarrow> bool" where
  "hasLocal f \<longleftrightarrow> localBindings f \<noteq> 0"

definition origins :: "FedBinding \<Rightarrow> string \<Rightarrow> string set" where
  "origins f q = (case fedBindings f q of None \<Rightarrow> {} | Some os \<Rightarrow> os)"

definition addOrigin :: "string \<Rightarrow> string \<Rightarrow> FedBinding \<Rightarrow> bool \<times> FedBinding" where
  "addOrigin q origin f =
     (if origin = []
      then let f = f \<lparr> localBindings := localBindings f + 1 \<rparr> in (localBindings f = 1, f)
      else (True, f \<lparr> fedBindings := (fedBindings f)(q \<mapsto> insert origin (origins f q)) \<rparr>))"

definition delOrigin :: "string \<Rightarrow> string \<Rightarrow> FedBinding \<Rightarrow> bool \<times> FedBinding" where
  "delOrigin q origin f =
     (if origin = []
      then let f = (if 0 < localBindings f then f \<lparr> localBindings := localBindings f - 1 \<rparr> else f)
           in (localBindings f = 0, f)
      else let os = origins f q - {origin}
           in (origin \<in> origins f q,
               f \<lparr> fedBindings := (if os = {} then (fedBindings f)(q := None) else (fedBindings f)(q \<mapsto> os)) \<rparr>))"

definition countFedBindings :: "string \<Rightarrow> FedBinding \<Rightarrow> nat" where
  "countFedBindings q f = card (origins f q)"

lemma origins_addOrigin:
  "origins (snd (addOrigin q origin f)) p = (if origin \<noteq> [] \<and> p = q then insert origin (origins f q) else origins f p)"
  by (simp add: addOrigin_def origins_def Let_def)

lemma origins_delOrigin:
  "origins (snd (delOrigin q origin f)) p = (if origin \<noteq> [] \<and> p = q then origins f q - {origin} else origins f p)"
  by (simp add: delOrigin_def origins_def Let_def)

section \<open>Delivery\<close>

text \<open>The severity of an exception, in the order of the enumeration.\<close>

datatype ExType = EX_NONE | EX_SESSION | EX_CONNECTION | EX_OTHER

fun severity :: "ExType \<Rightarrow> nat" where
  "severity EX_NONE = 0" | "severity EX_SESSION = 1" | "severity EX_CONNECTION = 2" | "severity EX_OTHER = 3"

record 'e ExInfo =
  ex_type :: ExType
  ex_exception :: "'e option"

definition ExInfo_init :: "'e ExInfo" where
  "ExInfo_init = \<lparr> ex_type = EX_NONE, ex_exception = None \<rparr>"

definition ExInfo_store :: "ExType \<Rightarrow> 'e \<Rightarrow> 'e ExInfo \<Rightarrow> 'e ExInfo" where
  "ExInfo_store ty e i = (if severity (ex_type i) < severity ty then \<lparr> ex_type = ty, ex_exception = Some e \<rparr> else i)"

text \<open>
  What a handler of \<open>doRoute\<close> catches: a \<open>SessionException\<close>, a \<open>ConnectionException\<close> or another
  \<open>std::exception\<close>.
\<close>

datatype caught = CaughtSession | CaughtConnection | CaughtOther

fun caught_type :: "caught \<Rightarrow> ExType" where
  "caught_type CaughtSession = EX_SESSION" | "caught_type CaughtConnection = EX_CONNECTION" | "caught_type CaughtOther = EX_OTHER"

text \<open>
  \<open>doRoute\<close>: the message is offered to the queue of each binding in turn; \<open>deliver\<close> gives the exception that
  delivery to a queue throws, or none, and the new state of the deliverable. The result is the exception thrown at
  the end, or none, and the final state.
\<close>

fun doRoute_loop ::
  "('q \<Rightarrow> 'd \<Rightarrow> (caught \<times> 'e) option \<times> 'd) \<Rightarrow> ('q, 'a) Binding list \<Rightarrow> 'e ExInfo \<times> 'd \<Rightarrow> 'e ExInfo \<times> 'd" where
  "doRoute_loop deliver [] (i, d) = (i, d)"
| "doRoute_loop deliver (b # bs) (i, d) =
     (case deliver (b_queue b) d of
        (None, d') \<Rightarrow> doRoute_loop deliver bs (i, d')
      | (Some (c, e), d') \<Rightarrow> doRoute_loop deliver bs (ExInfo_store (caught_type c) e i, d'))"

definition doRoute ::
  "('q \<Rightarrow> 'd \<Rightarrow> (caught \<times> 'e) option \<times> 'd) \<Rightarrow> ('q, 'a) Binding list \<Rightarrow> 'd \<Rightarrow> 'e option \<times> 'd" where
  "doRoute deliver bs d = (case doRoute_loop deliver bs (ExInfo_init, d) of (i, d') \<Rightarrow> (ex_exception i, d'))"

text \<open>Every queue is offered the message; the exceptions in the order they are thrown.\<close>

fun deliver_all :: "('q \<Rightarrow> 'd \<Rightarrow> 'x option \<times> 'd) \<Rightarrow> 'q list \<Rightarrow> 'd \<Rightarrow> 'x list \<times> 'd" where
  "deliver_all deliver [] d = ([], d)"
| "deliver_all deliver (q # qs) d =
     (case deliver q d of (r, d') \<Rightarrow> case deliver_all deliver qs d' of (rs, d'') \<Rightarrow>
        ((case r of None \<Rightarrow> rs | Some x \<Rightarrow> x # rs), d''))"

definition gravity :: "caught \<times> 'e \<Rightarrow> nat" where
  "gravity x = severity (caught_type (fst x))"

definition first_worst :: "(caught \<times> 'e) list \<Rightarrow> (caught \<times> 'e) option" where
  "first_worst rs = find (\<lambda>x. \<forall>y\<in>set rs. gravity y \<le> gravity x) rs"

lemma first_worst_Cons:
  "first_worst (x # rs) = (if \<forall>y\<in>set rs. gravity y \<le> gravity x then Some x else first_worst rs)"
proof (cases "\<forall>y\<in>set rs. gravity y \<le> gravity x")
  case False
  then obtain y where y: "y \<in> set rs" "gravity x < gravity y" by auto
  have "(\<forall>y\<in>set (x # rs). gravity y \<le> gravity z) \<longleftrightarrow> (\<forall>y\<in>set rs. gravity y \<le> gravity z)" for z
    using y by fastforce
  then have e: "(\<lambda>z. \<forall>y\<in>set (x # rs). gravity y \<le> gravity z) = (\<lambda>z. \<forall>y\<in>set rs. gravity y \<le> gravity z)" by (rule ext)
  show ?thesis unfolding first_worst_def e using False by auto
qed (simp add: first_worst_def)

lemma first_worst_None: "first_worst rs = None \<longleftrightarrow> rs = []"
  by (induction rs) (auto simp: first_worst_Cons first_worst_def [of "[]"])

lemma first_worst_max: "first_worst rs = Some x \<Longrightarrow> y \<in> set rs \<Longrightarrow> gravity y \<le> gravity x"
  by (auto simp: first_worst_def find_Some_iff)

definition store_caught :: "caught \<times> 'e \<Rightarrow> 'e ExInfo \<Rightarrow> 'e ExInfo" where
  "store_caught x = ExInfo_store (caught_type (fst x)) (snd x)"

lemma store_caught_fold:
  "fold store_caught rs i =
     (case first_worst rs of None \<Rightarrow> i | Some x \<Rightarrow> if severity (ex_type i) < gravity x
        then \<lparr> ex_type = caught_type (fst x), ex_exception = Some (snd x) \<rparr> else i)"
proof (induction rs arbitrary: i)
  case (Cons x rs)
  show ?case
  proof (cases "first_worst rs")
    case None
    then show ?thesis
      by (simp add: first_worst_None first_worst_Cons store_caught_def ExInfo_store_def gravity_def)
  next
    case (Some y)
    have "(\<forall>z\<in>set rs. gravity z \<le> gravity x) \<longleftrightarrow> gravity y \<le> gravity x"
      using first_worst_max [OF Some] Some by (fastforce simp: first_worst_def find_Some_iff)
    then show ?thesis using Some Cons.IH [of "store_caught x i"]
      by (auto simp: first_worst_Cons store_caught_def ExInfo_store_def gravity_def)
  qed
qed (simp add: first_worst_def)

lemma doRoute_loop_deliver_all:
  "doRoute_loop deliver bs (i, d) = (case deliver_all deliver (map b_queue bs) d of (rs, d') \<Rightarrow> (fold store_caught rs i, d'))"
  by (induction bs arbitrary: i d) (auto simp: store_caught_def split: prod.splits option.splits)

text \<open>
  Delivery of a routed message goes on after an exception: every queue is offered the message, in order, and the
  exception that is thrown in the end is the first among the most severe ones, if there was one.
\<close>

theorem doRoute_first_worst:
  fixes deliver :: "'q \<Rightarrow> 'd \<Rightarrow> (caught \<times> 'e) option \<times> 'd"
  shows "doRoute deliver bs d = (case deliver_all deliver (map b_queue bs) d of (rs, d') \<Rightarrow> (map_option snd (first_worst rs), d'))"
proof -
  have "gravity x \<noteq> 0" for x :: "caught \<times> 'e" by (cases x; cases "fst x") (simp_all add: gravity_def)
  then show ?thesis
    by (auto simp: neq0_conv [symmetric] simp del: neq0_conv simp: doRoute_def doRoute_loop_deliver_all store_caught_fold ExInfo_init_def split: prod.splits option.splits)
qed

section \<open>The contract of an exchange\<close>

text \<open>
  What every type of exchange promises its clients: the bindings are a relation between binding keys and queues,
  \<open>bind\<close> and \<open>unbind\<close> add and remove one pair and say whether they did, and \<open>route\<close> gives each queue that has a
  binding which matches the routing key once. Two queues with one name count as one.
\<close>

datatype ('q, 'g) exchange_op =
    BindOp 'q string 'g
  | UnbindOp 'q string 'g
  | RouteOp string

datatype 'q exchange_reply = Changed bool | Routed "'q list"

type_synonym ('q, 'g, 's) bind_fun = "'q \<Rightarrow> string \<Rightarrow> 'g \<Rightarrow> 's \<Rightarrow> (bool \<times> exchange_event list \<times> 's) result"
type_synonym ('q, 'a, 's) route_fun = "string \<Rightarrow> 's \<Rightarrow> ('q, 'a) Binding list \<times> 's"

fun exchange_step ::
  "('q, 'g, 's) bind_fun \<Rightarrow> ('q, 'g, 's) bind_fun \<Rightarrow> ('q, 'a, 's) route_fun \<Rightarrow> ('q, 'g) exchange_op \<Rightarrow> 's \<Rightarrow> ('q exchange_reply \<times> 's) result" where
  "exchange_step bnd unb rte (BindOp q k args) s = res_bind (bnd q k args s) (\<lambda>(r, evs, s'). Inr (Changed r, s'))"
| "exchange_step bnd unb rte (UnbindOp q k args) s = res_bind (unb q k args s) (\<lambda>(r, evs, s'). Inr (Changed r, s'))"
| "exchange_step bnd unb rte (RouteOp k) s = (case rte k s of (bs, s') \<Rightarrow> Inr (Routed (map b_queue bs), s'))"

fun exchange_run :: "('o \<Rightarrow> 's \<Rightarrow> ('r \<times> 's) result) \<Rightarrow> 'o list \<Rightarrow> 's \<Rightarrow> ('r list \<times> 's) result" where
  "exchange_run step [] s = Inr ([], s)"
| "exchange_run step (x # xs) s = res_bind (step x s) (\<lambda>(r, s'). res_bind (exchange_run step xs s') (\<lambda>(rs, s''). Inr (r # rs, s'')))"

text \<open>The specification, over the relation of bindings.\<close>

datatype 'q spec_reply = SpecChanged bool | SpecRouted "'q set"

fun spec_step :: "(string \<Rightarrow> 'k) \<Rightarrow> ('k \<Rightarrow> string \<Rightarrow> bool) \<Rightarrow> ('q, 'g) exchange_op \<Rightarrow> ('k \<times> 'q) set \<Rightarrow> 'q spec_reply \<times> ('k \<times> 'q) set" where
  "spec_step key_of matches (BindOp q k args) B = (SpecChanged ((key_of k, q) \<notin> B), insert (key_of k, q) B)"
| "spec_step key_of matches (UnbindOp q k args) B = (SpecChanged ((key_of k, q) \<in> B), B - {(key_of k, q)})"
| "spec_step key_of matches (RouteOp k) B = (SpecRouted {q. \<exists>p. (p, q) \<in> B \<and> matches p k}, B)"

fun spec_run :: "('o \<Rightarrow> 's \<Rightarrow> 'r \<times> 's) \<Rightarrow> 'o list \<Rightarrow> 's \<Rightarrow> 'r list \<times> 's" where
  "spec_run step [] s = ([], s)"
| "spec_run step (x # xs) s = (case step x s of (r, s') \<Rightarrow> case spec_run step xs s' of (rs, s'') \<Rightarrow> (r # rs, s''))"

fun reply_meets :: "('q \<Rightarrow> string) \<Rightarrow> 'q exchange_reply \<Rightarrow> 'q spec_reply \<Rightarrow> bool" where
  "reply_meets name (Changed b) (SpecChanged c) \<longleftrightarrow> b = c"
| "reply_meets name (Routed qs) (SpecRouted Q) \<longleftrightarrow> distinct qs \<and> set qs \<subseteq> Q \<and> name ` set qs = name ` Q"
| "reply_meets name r s \<longleftrightarrow> False"

fun plain_op :: "('g \<Rightarrow> bool) \<Rightarrow> ('q, 'g) exchange_op \<Rightarrow> bool" where
  "plain_op plain (BindOp q k args) \<longleftrightarrow> plain args"
| "plain_op plain (UnbindOp q k args) \<longleftrightarrow> plain args"
| "plain_op plain (RouteOp k) \<longleftrightarrow> True"

text \<open>
  A component implements a specification when each request it accepts is answered as the specification answers it, in
  states related by \<open>abs\<close>; then so is every sequence of requests.
\<close>

locale run_refinement =
  fixes step :: "'o \<Rightarrow> 's \<Rightarrow> ('r \<times> 's) result"
    and spec :: "'o \<Rightarrow> 'b \<Rightarrow> 'c \<times> 'b"
    and ok :: "'s \<Rightarrow> bool"
    and abs :: "'s \<Rightarrow> 'b"
    and meets :: "'r \<Rightarrow> 'c \<Rightarrow> bool"
    and accepted :: "'o \<Rightarrow> bool"
  assumes step_law: "ok s \<Longrightarrow> accepted x \<Longrightarrow> \<exists>r s'. step x s = Inr (r, s') \<and> ok s'
      \<and> meets r (fst (spec x (abs s))) \<and> abs s' = snd (spec x (abs s))"
begin

lemma run_refines:
  assumes "ok s" "list_all accepted xs"
  shows "\<exists>rs s'. exchange_run step xs s = Inr (rs, s') \<and> ok s'
    \<and> list_all2 meets rs (fst (spec_run spec xs (abs s))) \<and> abs s' = snd (spec_run spec xs (abs s))"
  using assms
proof (induction xs arbitrary: s)
  case (Cons x xs)
  then obtain r s1 where s1: "step x s = Inr (r, s1)" "ok s1" "meets r (fst (spec x (abs s)))" "abs s1 = snd (spec x (abs s))"
    using step_law [of s x] by auto
  moreover from Cons.IH [OF s1(2)] Cons.prems(2) obtain rs s2 where
    "exchange_run step xs s1 = Inr (rs, s2)" "ok s2"
    "list_all2 meets rs (fst (spec_run spec xs (abs s1)))" "abs s2 = snd (spec_run spec xs (abs s1))" by auto
  ultimately show ?case by (auto split: prod.splits)
qed simp

end

locale exchange_contract =
  fixes name :: "'q \<Rightarrow> string"
    and bnd :: "('q, 'g, 's) bind_fun"
    and unb :: "('q, 'g, 's) bind_fun"
    and rte :: "('q, 'a, 's) route_fun"
    and ok :: "'s \<Rightarrow> bool"
    and bindings_of :: "'s \<Rightarrow> ('k \<times> 'q) set"
    and key_of :: "string \<Rightarrow> 'k"
    and matches :: "'k \<Rightarrow> string \<Rightarrow> bool"
    and plain :: "'g \<Rightarrow> bool"
  assumes bind_law: "ok s \<Longrightarrow> plain args \<Longrightarrow> \<exists>evs s'. bnd q k args s = Inr ((key_of k, q) \<notin> bindings_of s, evs, s')
      \<and> ok s' \<and> bindings_of s' = insert (key_of k, q) (bindings_of s)"
    and unbind_law: "ok s \<Longrightarrow> plain args \<Longrightarrow> \<exists>evs s'. unb q k args s = Inr ((key_of k, q) \<in> bindings_of s, evs, s')
      \<and> ok s' \<and> bindings_of s' = bindings_of s - {(key_of k, q)}"
    and route_law: "ok s \<Longrightarrow> rte k s = (bs, s') \<Longrightarrow> ok s' \<and> bindings_of s' = bindings_of s
      \<and> reply_meets name (Routed (map b_queue bs)) (SpecRouted {q. \<exists>p. (p, q) \<in> bindings_of s \<and> matches p k})"
begin

lemma step_refines:
  assumes "ok s" "plain_op plain x"
  shows "\<exists>r s'. exchange_step bnd unb rte x s = Inr (r, s') \<and> ok s'
    \<and> reply_meets name r (fst (spec_step key_of matches x (bindings_of s)))
    \<and> bindings_of s' = snd (spec_step key_of matches x (bindings_of s))"
proof (cases x)
  case (BindOp q k args)
  then show ?thesis using bind_law [of s args q k] assms by auto
next
  case (UnbindOp q k args)
  then show ?thesis using unbind_law [of s args q k] assms by auto
next
  case (RouteOp k)
  then have "exchange_step bnd unb rte x s = Inr (Routed (map b_queue (fst (rte k s))), snd (rte k s))"
    by (simp add: case_prod_beta)
  moreover note route_law [OF assms(1), of k "fst (rte k s)" "snd (rte k s)"]
  ultimately show ?thesis using RouteOp by simp
qed

end

sublocale exchange_contract \<subseteq> run_refinement "exchange_step bnd unb rte" "spec_step key_of matches" ok bindings_of
    "reply_meets name" "plain_op plain"
  by unfold_locales (rule step_refines)

end
