(* ===== verification/Topic_Exchange.thy ===== *)
theory Topic_Exchange
  imports Topic_Tree Exchange_Base
begin

text \<open>
  The topic exchange, \<open>src/qpid/broker/TopicExchange.h\<close> and \<open>TopicExchange.cpp\<close>: bindings of queues to patterns are
  kept in the tree of \<open>Topic_Tree\<close>, the bindings that match a routing key are collected by a visitor and cached.
  The propagation to federated brokers, the redelivery of an initial value and the check whether the exchange
  deletes itself are events in the result of an operation.
\<close>

section \<open>Normal patterns\<close>

text \<open>
  \<open>Normalizer::normalize\<close> rewrites the pattern in place, \<open>#.#\<close> to \<open>#\<close> and \<open>#.*\<close> to \<open>*.#\<close>, and looks at the same
  place again after a step; here over the tokens.
\<close>

fun normalize_tokens :: "string list \<Rightarrow> string list" where
  "normalize_tokens (t # u # ts) =
     (if t = HASH
      then if u = HASH then normalize_tokens (HASH # ts)
           else if u = STAR then STAR # normalize_tokens (HASH # ts)
           else t # normalize_tokens (u # ts)
      else t # normalize_tokens (u # ts))"
| "normalize_tokens ts = ts"

definition normalize :: "string \<Rightarrow> string" where
  "normalize pattern = join_dots (normalize_tokens (TokenIterator pattern))"

section \<open>The exchange\<close>

record ('q, 'a) BindingKey =
  bindingVector :: "('q, 'a) Binding list"
  fedBinding :: FedBinding

definition binding_ops :: "('q, 'a) BindingKey node_ops" where
  "binding_ops = \<lparr> no_bindings = \<lparr> bindingVector = [], fedBinding = FedBinding_init \<rparr>,
     is_unbound = (\<lambda>bk. bindingVector bk = []) \<rparr>"

record ('q, 'a) TopicExchange =
  bindingTree :: "('q, 'a) BindingKey TopicKeyNode"
  nBindings :: nat
  bindingCache :: "string \<rightharpoonup> ('q, 'a) Binding list"

definition TopicExchange_init :: "('q, 'a) TopicExchange" where
  "TopicExchange_init = \<lparr> bindingTree = new_node binding_ops [], nBindings = 0, bindingCache = Map.empty \<rparr>"

text \<open>The visitors.\<close>

definition ReOriginIter_visit :: "(('q, 'a) BindingKey, string list) visitor" where
  "ReOriginIter_visit n keys = (True, if hasLocal (fedBinding (node_bindings n)) then keys @ [routePattern n] else keys)"

text \<open>\<open>BindingsFinderIter\<close>: the names of the queues found so far, and the bindings.\<close>

definition finder_add ::
  "('q \<Rightarrow> string) \<Rightarrow> ('q, 'a) Binding \<Rightarrow> string set \<times> ('q, 'a) Binding list \<Rightarrow> string set \<times> ('q, 'a) Binding list" where
  "finder_add name b s = (case s of (qSet, bs) \<Rightarrow>
     if name (b_queue b) \<in> qSet then (qSet, bs) else (insert (name (b_queue b)) qSet, bs @ [b]))"

definition BindingsFinderIter_visit ::
  "('q \<Rightarrow> string) \<Rightarrow> (('q, 'a) BindingKey, string set \<times> ('q, 'a) Binding list) visitor" where
  "BindingsFinderIter_visit name n s = (True, fold (finder_add name) (bindingVector (node_bindings n)) s)"

definition QueueFinderIter_visit :: "'q \<Rightarrow> (('q, 'a) BindingKey, bool) visitor" where
  "QueueFinderIter_visit q n found =
     (if q \<in> b_queue ` set (bindingVector (node_bindings n)) then (False, True) else (True, found))"

definition getQueueBinding :: "'q \<Rightarrow> string \<Rightarrow> ('q, 'a) TopicExchange \<Rightarrow> ('q, 'a) BindingKey option" where
  "getQueueBinding q pattern ex =
     (case node_get (TokenIterator pattern) (bindingTree ex) of
        None \<Rightarrow> None
      | Some bk \<Rightarrow> if q \<in> b_queue ` set (bindingVector bk) then Some bk else None)"

fun erase_queue :: "'q \<Rightarrow> ('q, 'a) Binding list \<Rightarrow> ('q, 'a) Binding list" where
  "erase_queue q [] = []"
| "erase_queue q (b # bs) = (if b_queue b = q then bs else b # erase_queue q bs)"

text \<open>\<open>deleteBinding\<close>, on the binding key at the pattern.\<close>

definition deleteBinding :: "'q \<Rightarrow> string \<Rightarrow> ('q, 'a) BindingKey \<Rightarrow> ('q, 'a) TopicExchange \<Rightarrow> (bool \<times> ('q, 'a) TopicExchange) result" where
  "deleteBinding q pattern bk ex =
     (if q \<notin> b_queue ` set (bindingVector bk) then Inr (False, ex)
      else let ts = TokenIterator pattern;
               bk' = bk \<lparr> bindingVector := erase_queue q (bindingVector bk) \<rparr>;
               tree = node_set ts bk' (bindingTree ex)
           in throw_if (\<not> 0 < nBindings ex) AssertionFailed
                (Inr (True, ex \<lparr> nBindings := nBindings ex - 1,
                   bindingTree := (if bindingVector bk' = [] then snd (node_remove binding_ops ts tree) else tree) \<rparr>)))"

definition clearCache :: "('q, 'a) TopicExchange \<Rightarrow> ('q, 'a) TopicExchange" where
  "clearCache ex = ex \<lparr> bindingCache := Map.empty \<rparr>"

definition bind_add ::
  "('q \<Rightarrow> string) \<Rightarrow> 'q \<Rightarrow> string \<Rightarrow> string \<Rightarrow> 'a option \<Rightarrow> ('q, 'a) TopicExchange
     \<Rightarrow> (bool \<times> bool \<times> ('q, 'a) TopicExchange) result" where
  "bind_add name q pattern origin tbl ex =
     (let ts = TokenIterator pattern in
      res_bind (node_add binding_ops pattern ts (bindingTree ex)) (\<lambda>tree.
        case node_get ts tree of
          None \<Rightarrow> Inr (True, False, ex \<lparr> bindingTree := tree \<rparr>)
        | Some bk \<Rightarrow>
            (case addOrigin (name q) origin (fedBinding bk) of (propagate, fed) \<Rightarrow>
               if q \<in> b_queue ` set (bindingVector bk)
               then Inr (False, False, ex \<lparr> bindingTree := node_set ts (bk \<lparr> fedBinding := fed \<rparr>) tree \<rparr>)
               else let b = \<lparr> b_queue = q, b_key = pattern, b_args = tbl, b_origin = origin \<rparr>
                    in Inr (True, propagate,
                         ex \<lparr> bindingTree := node_set ts \<lparr> bindingVector = bindingVector bk @ [b], fedBinding = fed \<rparr> tree,
                              nBindings := nBindings ex + 1 \<rparr>))))"

definition bind_fedUnbind ::
  "('q \<Rightarrow> string) \<Rightarrow> 'q \<Rightarrow> string \<Rightarrow> string \<Rightarrow> ('q, 'a) TopicExchange \<Rightarrow> (bool \<times> ('q, 'a) TopicExchange) result" where
  "bind_fedUnbind name q pattern origin ex =
     (case getQueueBinding q pattern ex of
        None \<Rightarrow> Inr (False, ex)
      | Some bk \<Rightarrow>
          (case delOrigin (name q) origin (fedBinding bk) of (propagate, fed) \<Rightarrow>
             let bk' = bk \<lparr> fedBinding := fed \<rparr>;
                 ex' = ex \<lparr> bindingTree := node_set (TokenIterator pattern) bk' (bindingTree ex) \<rparr>
             in if countFedBindings (name q) fed = 0
                then res_bind (deleteBinding q pattern bk' ex') (\<lambda>(r, ex''). Inr (propagate, ex''))
                else Inr (propagate, ex')))"

definition TopicExchange_bind ::
  "('q \<Rightarrow> string) \<Rightarrow> 'q \<Rightarrow> string \<Rightarrow> 'a bind_args option \<Rightarrow> ('q, 'a) TopicExchange
     \<Rightarrow> (bool \<times> exchange_event list \<times> ('q, 'a) TopicExchange) result" where
  "TopicExchange_bind name q routingKey args ex =
     (let fedOp = (case args of None \<Rightarrow> fedOpBind | Some a \<Rightarrow> arg_fedOp a);
          fedTags = (case args of None \<Rightarrow> [] | Some a \<Rightarrow> arg_fedTags a);
          fedOrigin = (case args of None \<Rightarrow> [] | Some a \<Rightarrow> arg_fedOrigin a);
          pattern = normalize routingKey;
          finish = (\<lambda>evs propagate ex. Inr (True,
            evs @ [RouteIVE] @ (if propagate then [PropagateFedOp routingKey fedTags fedOp fedOrigin] else []), clearCache ex))
      in if args = None \<or> fedOp = [] \<or> fedOp = fedOpBind
         then res_bind (bind_add name q pattern fedOrigin (map_option arg_table args) ex) (\<lambda>(new, propagate, ex').
           if new then finish [] propagate ex' else Inr (False, [], clearCache ex'))
         else if fedOp = fedOpUnbind
         then res_bind (bind_fedUnbind name q pattern fedOrigin ex) (\<lambda>(propagate, ex'). finish [] propagate ex')
         else if fedOp = fedOpReorigin
         then finish (map (\<lambda>k. PropagateFedOp k [] fedOpBind []) (snd (iterateAll ReOriginIter_visit (bindingTree ex) []))) False ex
         else finish [] False ex)"

definition TopicExchange_unbind ::
  "('q \<Rightarrow> string) \<Rightarrow> 'q \<Rightarrow> string \<Rightarrow> 'a bind_args option \<Rightarrow> ('q, 'a) TopicExchange
     \<Rightarrow> (bool \<times> exchange_event list \<times> ('q, 'a) TopicExchange) result" where
  "TopicExchange_unbind name q routingKey args ex =
     (let fedOrigin = (case args of None \<Rightarrow> [] | Some a \<Rightarrow> arg_fedOrigin a);
          pattern = normalize routingKey
      in case getQueueBinding q pattern ex of
           None \<Rightarrow> Inr (False, [], clearCache ex)
         | Some bk \<Rightarrow>
             (case delOrigin (name q) fedOrigin (fedBinding bk) of (propagate, fed) \<Rightarrow>
                let bk' = bk \<lparr> fedBinding := fed \<rparr>;
                    ex' = ex \<lparr> bindingTree := node_set (TokenIterator pattern) bk' (bindingTree ex) \<rparr>
                in res_bind (deleteBinding q pattern bk' ex') (\<lambda>(r, ex'').
                     Inr (True, (if propagate then [PropagateFedOp pattern [] fedOpUnbind []] else [])
                        @ (if nBindings ex'' = 0 then [CheckAutodelete] else []), clearCache ex''))))"

text \<open>\<open>route\<close>, up to the call of \<open>doRoute\<close> with the bindings that it returns.\<close>

definition find_bindings :: "('q \<Rightarrow> string) \<Rightarrow> string \<Rightarrow> ('q, 'a) BindingKey TopicKeyNode \<Rightarrow> ('q, 'a) Binding list" where
  "find_bindings name key tree =
     snd (snd (iterateMatch binding_ops (BindingsFinderIter_visit name) tree (TokenIterator key) ({}, [])))"

definition TopicExchange_route ::
  "('q \<Rightarrow> string) \<Rightarrow> string \<Rightarrow> ('q, 'a) TopicExchange \<Rightarrow> ('q, 'a) Binding list \<times> ('q, 'a) TopicExchange" where
  "TopicExchange_route name key ex =
     (case bindingCache ex key of
        Some bs \<Rightarrow> (bs, ex)
      | None \<Rightarrow> let bs = find_bindings name key (bindingTree ex)
                in (bs, ex \<lparr> bindingCache := (bindingCache ex)(key \<mapsto> bs) \<rparr>))"

definition TopicExchange_isBound :: "'q option \<Rightarrow> string option \<Rightarrow> ('q, 'a) TopicExchange \<Rightarrow> bool" where
  "TopicExchange_isBound queue routingKey ex =
     (case (routingKey, queue) of
        (Some k, Some q) \<Rightarrow> getQueueBinding q (normalize k) ex \<noteq> None
      | (None, None) \<Rightarrow> 0 < nBindings ex
      | (Some k, None) \<Rightarrow> node_get (TokenIterator k) (bindingTree ex) \<noteq> None
      | (None, Some q) \<Rightarrow> snd (iterateAll (QueueFinderIter_visit q) (bindingTree ex) False))"

definition hasBindings :: "('q, 'a) TopicExchange \<Rightarrow> bool" where
  "hasBindings ex \<longleftrightarrow> 0 < nBindings ex"

section \<open>Normalising a pattern keeps its meaning\<close>

lemma topic_match_cong:
  "(\<And>ks. topic_match ps ks \<longleftrightarrow> topic_match qs ks) \<Longrightarrow> topic_match (p # ps) ks \<longleftrightarrow> topic_match (p # qs) ks"
  by (induction ks) auto

lemma topic_match_hash_hash: "topic_match (HASH # HASH # ps) ks \<longleftrightarrow> topic_match (HASH # ps) ks"
  by (induction ks) auto

lemma topic_match_hash_star: "topic_match (HASH # STAR # ps) ks \<longleftrightarrow> topic_match (STAR # HASH # ps) ks"
proof (induction ks)
  case (Cons k ks)
  then show ?case by (cases ks) auto
qed simp

lemma normalize_tokens_match: "topic_match (normalize_tokens ps) ks \<longleftrightarrow> topic_match ps ks"
proof (induction ps arbitrary: ks rule: normalize_tokens.induct)
  case (1 t u ts)
  show ?case
  proof (cases "t = HASH \<and> (u = HASH \<or> u = STAR)")
    case True
    then have ih: "topic_match (normalize_tokens (HASH # ts)) ks = topic_match (HASH # ts) ks" for ks using 1 by auto
    show ?thesis
    proof (cases "u = HASH")
      case True
      with \<open>t = HASH \<and> (u = HASH \<or> u = STAR)\<close> show ?thesis by (simp only: normalize_tokens.simps if_True simp_thms topic_match_hash_hash ih)
    next
      case False
      with True have "normalize_tokens (t # u # ts) = STAR # normalize_tokens (HASH # ts)" "t # u # ts = HASH # STAR # ts" by auto
      then show ?thesis using topic_match_cong [of "normalize_tokens (HASH # ts)" "HASH # ts", OF ih]
        by (simp only: topic_match_hash_star)
    qed
  next
    case False
    have "normalize_tokens (t # u # ts) = t # normalize_tokens (u # ts)" using False by auto
    moreover have "topic_match (normalize_tokens (u # ts)) ks = topic_match (u # ts) ks" for ks using 1 False by auto
    ultimately show ?thesis using topic_match_cong [of "normalize_tokens (u # ts)" "u # ts" t ks] by simp
  qed
qed simp_all

lemma normalize_tokens_head: "u \<noteq> HASH \<Longrightarrow> \<exists>r. normalize_tokens (u # ts) = u # r"
  by (cases ts) auto

lemma normalize_tokens_nonempty: "ts \<noteq> [] \<Longrightarrow> normalize_tokens ts \<noteq> []"
  by (induction ts rule: normalize_tokens.induct) auto

lemma normalize_tokens_all: "P STAR \<Longrightarrow> P HASH \<Longrightarrow> list_all P ts \<Longrightarrow> list_all P (normalize_tokens ts)"
  by (induction ts rule: normalize_tokens.induct) auto

text \<open>In a normal pattern neither \<open>#\<close> nor \<open>*\<close> follows a \<open>#\<close>.\<close>

fun normal_tokens :: "string list \<Rightarrow> bool" where
  "normal_tokens (t # u # ts) \<longleftrightarrow> \<not> (t = HASH \<and> (u = HASH \<or> u = STAR)) \<and> normal_tokens (u # ts)"
| "normal_tokens ts \<longleftrightarrow> True"

lemma normal_tokens_Cons: "normal_tokens ts \<Longrightarrow> \<not> (t = HASH \<and> ts \<noteq> [] \<and> (hd ts = HASH \<or> hd ts = STAR)) \<Longrightarrow> normal_tokens (t # ts)"
  by (cases ts) auto

lemma normalize_tokens_normal: "normal_tokens (normalize_tokens ts)"
proof (induction ts rule: normalize_tokens.induct)
  case (1 t u ts)
  then show ?case
    using normalize_tokens_head [of u ts] by (auto intro!: normal_tokens_Cons)
qed simp_all

lemma normal_no_hash_hash: "normal_tokens ts \<Longrightarrow> no_hash_hash ts"
  by (induction ts rule: normal_tokens.induct) auto

lemma normalize_tokens_id: "normal_tokens ts \<Longrightarrow> normalize_tokens ts = ts"
  by (induction ts rule: normal_tokens.induct) auto

lemma TokenIterator_normalize: "TokenIterator (normalize p) = normalize_tokens (TokenIterator p)"
  unfolding normalize_def
  by (intro TokenIterator_join normalize_tokens_nonempty TokenIterator_nonempty normalize_tokens_all TokenIterator_dots)
    (simp_all add: STAR_def HASH_def)

text \<open>
  Normalising a binding pattern changes neither the routing keys it matches nor a pattern that is normal
  already, and in the result no \<open>#\<close> is followed by \<open>#\<close> or \<open>*\<close>.
\<close>

theorem normalize_meaning:
  "topic_match (TokenIterator (normalize p)) ks = topic_match (TokenIterator p) ks
   \<and> normal_tokens (TokenIterator (normalize p)) \<and> normalize (normalize p) = normalize p"
proof (intro conjI)
  show "topic_match (TokenIterator (normalize p)) ks = topic_match (TokenIterator p) ks"
    by (simp add: TokenIterator_normalize normalize_tokens_match)
  show n: "normal_tokens (TokenIterator (normalize p))" by (simp add: TokenIterator_normalize normalize_tokens_normal)
  show "normalize (normalize p) = normalize p"
    unfolding normalize_def [of "normalize p"] using normalize_tokens_id [OF n] join_TokenIterator by simp
qed

section \<open>The state of the exchange\<close>

text \<open>A number that is the sum of a function with finite support.\<close>

definition total :: "('k \<Rightarrow> nat) \<Rightarrow> nat \<Rightarrow> bool" where
  "total V n \<longleftrightarrow> finite {k. V k \<noteq> 0} \<and> n = sum V {k. V k \<noteq> 0}"

lemma total_upd:
  assumes "total V n"
  shows "total (V(k := x)) (n + x - V k)" and "V k \<le> n"
proof -
  let ?S = "insert k {k. V k \<noteq> 0}" and ?W = "V(k := x)"
  have fin: "finite ?S" using assms by (simp add: total_def)
  have n: "n = V k + sum V (?S - {k})"
  proof -
    have "sum V {k. V k \<noteq> 0} = sum V ?S" by (rule sum.mono_neutral_left) (use fin in auto)
    moreover have "sum V ?S = V k + sum V (?S - {k})" by (rule sum.remove) (use fin in auto)
    ultimately show ?thesis using assms by (simp add: total_def)
  qed
  then show "V k \<le> n" by simp
  have "sum ?W {k. ?W k \<noteq> 0} = sum ?W ?S" by (rule sum.mono_neutral_left) (use fin in auto)
  also have "\<dots> = x + sum ?W (?S - {k})" using sum.remove [OF fin, of k ?W] by simp
  also have "sum ?W (?S - {k}) = sum V (?S - {k})" by (rule sum.cong) auto
  finally have "sum ?W {k. ?W k \<noteq> 0} = n + x - V k" using n by simp
  moreover have "finite {k. ?W k \<noteq> 0}" by (rule finite_subset [OF _ fin]) auto
  ultimately show "total ?W (n + x - V k)" by (simp add: total_def)
qed

definition vec :: "string list \<Rightarrow> ('q, 'a) BindingKey TopicKeyNode \<Rightarrow> ('q, 'a) Binding list" where
  "vec ts tree = bindingVector (held binding_ops ts tree)"

definition tree_ok :: "('q, 'a) BindingKey TopicKeyNode \<Rightarrow> nat \<Rightarrow> bool" where
  "tree_ok tree n \<longleftrightarrow> placed tree \<and> node_token tree = [] \<and> patterns_ok [] tree
     \<and> (\<forall>ts. distinct (map b_queue (vec ts tree))) \<and> total (\<lambda>ts. length (vec ts tree)) n"

text \<open>The bindings as a relation between patterns, as lists of tokens, and queues.\<close>

definition bound :: "('q, 'a) TopicExchange \<Rightarrow> string list \<Rightarrow> 'q \<Rightarrow> bool" where
  "bound ex ts q \<longleftrightarrow> q \<in> b_queue ` set (vec ts (bindingTree ex))"

definition cache_ok :: "('q \<Rightarrow> string) \<Rightarrow> ('q, 'a) TopicExchange \<Rightarrow> bool" where
  "cache_ok name ex \<longleftrightarrow> (\<forall>k bs. bindingCache ex k = Some bs \<longrightarrow> bs = find_bindings name k (bindingTree ex))"

definition exchange_ok :: "('q \<Rightarrow> string) \<Rightarrow> ('q, 'a) TopicExchange \<Rightarrow> bool" where
  "exchange_ok name ex \<longleftrightarrow> tree_ok (bindingTree ex) (nBindings ex) \<and> cache_ok name ex"

lemma binding_ops_simps [simp]:
  "bindingVector (no_bindings binding_ops) = []" "is_unbound binding_ops bk \<longleftrightarrow> bindingVector bk = []"
  by (simp_all add: binding_ops_def)

lemma tree_ok_init: "tree_ok (new_node binding_ops []) 0"
  by (simp add: tree_ok_def placed_def tree_wf_new patterns_new vec_def total_def HASH_def)

lemma exchange_ok_init: "exchange_ok name TopicExchange_init"
  by (simp add: exchange_ok_def cache_ok_def TopicExchange_init_def tree_ok_init)

lemma tree_ok_add:
  assumes "tree_ok tree n" "no_hash_hash ts"
  shows "\<exists>tree'. node_add binding_ops (join_dots ts) ts tree = Inr tree' \<and> tree_ok tree' n
    \<and> (\<forall>us. vec us tree' = vec us tree) \<and> node_get ts tree' = Some (held binding_ops ts tree)"
proof -
  from assms(1) node_add_succeeds [of "[]" tree binding_ops ts] obtain tree' where
    t: "node_add binding_ops (join_dots ts) ts tree = Inr tree'" "patterns_ok [] tree'" by (auto simp: tree_ok_def)
  have h: "held binding_ops us tree' = held binding_ops us tree" "node_get ts tree' \<noteq> None" for us
    using node_add_held [OF t(1)] by auto
  have "no_hash_hash ([] # ts)" using assms(2) by (cases ts) (auto simp: HASH_def)
  then have "placed tree' \<and> node_token tree' = []"
    using node_add_placed [OF t(1)] assms(1) by (simp add: tree_ok_def)
  then have "tree_ok tree' n" using assms(1) t(2) h(1) by (simp add: tree_ok_def vec_def)
  moreover have "node_get ts tree' = Some (held binding_ops ts tree)"
    using h(1) [of ts] h(2) by (auto simp: held_def)
  ultimately show ?thesis using t(1) h(1) by (auto simp: vec_def)
qed

lemma tree_ok_set:
  assumes "tree_ok tree n" "node_get ts tree \<noteq> None" "distinct (map b_queue (bindingVector bk))"
  shows "tree_ok (node_set ts bk tree) (n + length (bindingVector bk) - length (vec ts tree))"
    and "vec us (node_set ts bk tree) = (if us = ts then bindingVector bk else vec us tree)"
    and "length (vec ts tree) \<le> n"
proof -
  show v: "vec us (node_set ts bk tree) = (if us = ts then bindingVector bk else vec us tree)" for us
    using node_set_held [OF assms(2), of binding_ops us bk] by (simp add: vec_def)
  have tot: "total (\<lambda>ts. length (vec ts tree)) n" using assms(1) by (simp add: tree_ok_def)
  show "length (vec ts tree) \<le> n" using total_upd(2) [OF tot] .
  have "(\<lambda>us. length (vec us (node_set ts bk tree))) = (\<lambda>us. length (vec us tree))(ts := length (bindingVector bk))"
    using v by auto
  then have "total (\<lambda>us. length (vec us (node_set ts bk tree))) (n + length (bindingVector bk) - length (vec ts tree))"
    using total_upd(1) [OF tot, of ts "length (bindingVector bk)"] by simp
  then show "tree_ok (node_set ts bk tree) (n + length (bindingVector bk) - length (vec ts tree))"
    using assms node_set_placed [of tree ts bk] node_set_patterns [of "[]" tree ts bk] v by (simp add: tree_ok_def)
qed

lemma tree_ok_remove:
  assumes "tree_ok tree n"
  shows "tree_ok (snd (node_remove binding_ops ts tree)) n" "vec us (snd (node_remove binding_ops ts tree)) = vec us tree"
proof -
  show v: "vec us (snd (node_remove binding_ops ts tree)) = vec us tree" for us
    using node_remove_held [of binding_ops us ts tree] by (auto simp: vec_def)
  show "tree_ok (snd (node_remove binding_ops ts tree)) n"
    using assms node_remove_placed [of tree binding_ops ts] node_remove_patterns [of "[]" tree binding_ops ts] v
    by (simp add: tree_ok_def)
qed

section \<open>Routing\<close>

text \<open>The name of the queue of a binding.\<close>

definition qname :: "('q \<Rightarrow> string) \<Rightarrow> ('q, 'a) Binding \<Rightarrow> string" where
  "qname name b = name (b_queue b)"

lemma finder_fold:
  fixes name :: "'q \<Rightarrow> string" and bs acc :: "('q, 'a) Binding list"
  assumes "S = (qname name) ` set acc" "distinct (map (qname name) acc)"
  shows "\<exists>acc'. fold (finder_add name) bs (S, acc) = ((qname name) ` set acc', acc')
    \<and> distinct (map (qname name) acc') \<and> set acc' \<subseteq> set acc \<union> set bs
    \<and> (qname name) ` set acc' = (qname name) ` (set acc \<union> set bs)"
  using assms
proof (induction bs arbitrary: S acc)
  case (Cons b bs)
  show ?case
  proof (cases "name (b_queue b) \<in> S")
    case True
    then have "fold (finder_add name) (b # bs) (S, acc) = fold (finder_add name) bs (S, acc)" by (simp add: finder_add_def)
    moreover have "(qname name) ` (set acc \<union> set (b # bs)) = (qname name) ` (set acc \<union> set bs)"
      using True Cons.prems(1) by (auto simp: qname_def)
    ultimately show ?thesis using Cons.IH [OF Cons.prems] by auto
  next
    case False
    have "fold (finder_add name) (b # bs) (S, acc) = fold (finder_add name) bs (insert (name (b_queue b)) S, acc @ [b])"
      using False by (simp add: finder_add_def)
    moreover have "insert (name (b_queue b)) S = (qname name) ` set (acc @ [b])" using Cons.prems(1) by (simp add: qname_def)
    moreover have "distinct (map (qname name) (acc @ [b]))"
    proof -
      have "qname name b \<notin> qname name ` set acc" using False Cons.prems(1) by (simp add: qname_def)
      then show ?thesis using Cons.prems(2) by simp
    qed
    ultimately show ?thesis using Cons.IH [of "insert (name (b_queue b)) S" "acc @ [b]"] by auto
  qed
qed auto

lemma fold_visit:
  "fold (\<lambda>n. fold (finder_add name) (bindingVector (node_bindings n))) L s =
     fold (finder_add name) (concat (map (\<lambda>n. bindingVector (node_bindings n)) L)) s"
  by (induction L arbitrary: s) simp_all

lemma node_at_held: "node_at ts n = Some c \<Longrightarrow> held G ts n = node_bindings c"
  by (simp add: held_def node_get_def)

lemma vec_node: "vec ts tree \<noteq> [] \<Longrightarrow> \<exists>c. node_at ts tree = Some c \<and> vec ts tree = bindingVector (node_bindings c)"
  by (cases "node_at ts tree") (auto simp: vec_def held_def node_get_def)

definition matching_bindings :: "string list \<Rightarrow> ('q, 'a) BindingKey TopicKeyNode \<Rightarrow> ('q, 'a) Binding set" where
  "matching_bindings key tree = {b. \<exists>ts. b \<in> set (vec ts tree) \<and> topic_match ts key}"

lemma find_bindings_correct:
  fixes name :: "'q \<Rightarrow> string" and tree :: "('q, 'a) BindingKey TopicKeyNode"
  assumes "tree_ok tree n"
  shows "distinct (map (qname name) (find_bindings name key tree))"
    "set (find_bindings name key tree) \<subseteq> matching_bindings (TokenIterator key) tree"
    "(qname name) ` set (find_bindings name key tree) = (qname name) ` matching_bindings (TokenIterator key) tree"
proof -
  let ?f = "\<lambda>n. fold (finder_add name) (bindingVector (node_bindings n))"
  have v: "BindingsFinderIter_visit name = (\<lambda>n s. (True, ?f n s))" by (auto simp: BindingsFinderIter_visit_def fun_eq_iff)
  have "match_ok binding_ops ?f tree" using assms by (intro node_match) (auto simp: tree_ok_def placed_def)
  moreover have "own_token tree = []" using assms by (simp add: own_token_def tree_ok_def STAR_def HASH_def)
  ultimately have "collects (iterateMatch binding_ops (\<lambda>n s. (True, ?f n s)) tree (TokenIterator key)) ?f ({}, [])
      (matching binding_ops tree (\<lambda>ts. topic_match ts (TokenIterator key)))"
    unfolding match_ok_def by (simp only: append_Nil)
  then obtain L where L: "iterateMatch binding_ops (\<lambda>n s. (True, ?f n s)) tree (TokenIterator key) ({}, []) = (True, fold ?f L ({}, []))"
    "set L = matching binding_ops tree (\<lambda>ts. topic_match ts (TokenIterator key))" unfolding collects_def by blast
  let ?bs = "concat (map (\<lambda>n. bindingVector (node_bindings n)) L)"
  have "set ?bs = matching_bindings (TokenIterator key) tree"
  proof (intro equalityI subsetI)
    fix b
    assume "b \<in> set ?bs"
    then obtain c where "c \<in> set L" "b \<in> set (bindingVector (node_bindings c))" by auto
    then obtain ts where ts: "node_at ts tree = Some c" "topic_match ts (TokenIterator key)" "b \<in> set (bindingVector (node_bindings c))"
      unfolding L(2) matching_def by blast
    then have "b \<in> set (vec ts tree)" by (simp add: vec_def node_at_held)
    then show "b \<in> matching_bindings (TokenIterator key) tree" using ts(2) unfolding matching_bindings_def by blast
  next
    fix b
    assume "b \<in> matching_bindings (TokenIterator key) tree"
    then obtain ts where ts: "b \<in> set (vec ts tree)" "topic_match ts (TokenIterator key)" by (auto simp: matching_bindings_def)
    then obtain c where "node_at ts tree = Some c" "vec ts tree = bindingVector (node_bindings c)"
      using vec_node [of ts tree] by (metis empty_iff empty_set)
    then have "c \<in> set L" "b \<in> set (bindingVector (node_bindings c))" using ts unfolding L(2) matching_def by auto
    then show "b \<in> set ?bs" by auto
  qed
  moreover obtain acc where acc: "fold (finder_add name) ?bs ({}, []) = ((qname name) ` set acc, acc)"
    "distinct (map (qname name) acc)" "set acc \<subseteq> set ?bs" "(qname name) ` set acc = (qname name) ` set ?bs"
    using finder_fold [of "{}" name "[]" ?bs] by auto
  moreover have "find_bindings name key tree = acc"
    unfolding find_bindings_def v L(1) fold_visit acc(1) by simp
  ultimately show "distinct (map (qname name) (find_bindings name key tree))"
    "set (find_bindings name key tree) \<subseteq> matching_bindings (TokenIterator key) tree"
    "(qname name) ` set (find_bindings name key tree) = (qname name) ` matching_bindings (TokenIterator key) tree"
    by auto
qed

lemma route_find:
  assumes "exchange_ok name ex"
  shows "fst (TopicExchange_route name key ex) = find_bindings name key (bindingTree ex)"
    and "bindingTree (snd (TopicExchange_route name key ex)) = bindingTree ex"
    and "exchange_ok name (snd (TopicExchange_route name key ex))"
  using assms by (auto simp: TopicExchange_route_def exchange_ok_def cache_ok_def Let_def split: option.splits)

section \<open>Binding and unbinding\<close>

lemma erase_queue_absent: "q \<notin> b_queue ` set bs \<Longrightarrow> erase_queue q bs = bs"
  by (induction bs) auto

lemma erase_queue_subset: "b_queue ` set (erase_queue q bs) \<subseteq> b_queue ` set bs"
  by (induction bs) auto

lemma erase_queue_distinct: "distinct (map b_queue bs) \<Longrightarrow> distinct (map b_queue (erase_queue q bs))"
proof (induction bs)
  case (Cons b bs)
  then show ?case using erase_queue_subset [of q bs] by auto
qed simp

lemma erase_queue_set: "distinct (map b_queue bs) \<Longrightarrow> b_queue ` set (erase_queue q bs) = b_queue ` set bs - {q}"
proof (induction bs)
  case (Cons b bs)
  show ?case
  proof (cases "b_queue b = q")
    case True
    then show ?thesis using Cons.prems by auto
  next
    case False
    then show ?thesis using Cons.IH Cons.prems by (simp add: insert_Diff_if)
  qed
qed simp

lemma erase_queue_length: "q \<in> b_queue ` set bs \<Longrightarrow> Suc (length (erase_queue q bs)) = length bs"
proof (induction bs)
  case (Cons b bs)
  then show ?case by (cases "b_queue b = q") simp_all
qed simp

lemma clearCache_ok: "tree_ok (bindingTree ex) (nBindings ex) \<Longrightarrow> exchange_ok name (clearCache ex)"
  by (simp add: exchange_ok_def cache_ok_def clearCache_def)

lemma clearCache_simps [simp]:
  "bindingTree (clearCache ex) = bindingTree ex" "nBindings (clearCache ex) = nBindings ex"
  "bound (clearCache ex) = bound ex"
  by (simp_all add: clearCache_def bound_def fun_eq_iff)

lemma getQueueBinding_iff:
  "getQueueBinding q p ex = Some bk \<longleftrightarrow>
     node_get (TokenIterator p) (bindingTree ex) = Some bk \<and> bound ex (TokenIterator p) q"
  by (auto simp: getQueueBinding_def bound_def vec_def held_def split: option.splits)

lemma getQueueBinding_None: "getQueueBinding q p ex = None \<longleftrightarrow> \<not> bound ex (TokenIterator p) q"
  by (auto simp: getQueueBinding_def bound_def vec_def held_def split: option.splits)

text \<open>Replacing the federation record of a binding key.\<close>

lemma set_fed:
  assumes "tree_ok tree n" "node_get ts tree = Some bk" "bindingVector bk' = bindingVector bk"
  shows "tree_ok (node_set ts bk' tree) n" "vec us (node_set ts bk' tree) = vec us tree"
    "node_get ts (node_set ts bk' tree) = Some bk'"
proof -
  have v: "vec ts tree = bindingVector bk" using assms(2) by (simp add: vec_def held_def)
  have d: "distinct (map b_queue (bindingVector bk'))" using assms(1,3) v by (metis tree_ok_def)
  have g: "node_get ts tree \<noteq> None" using assms(2) by simp
  note s = tree_ok_set [OF assms(1) g d]
  show "tree_ok (node_set ts bk' tree) n" using s(1) v assms(3) by simp
  show "vec us (node_set ts bk' tree) = vec us tree" using s(2) [of us] v assms(3) by simp
  show "node_get ts (node_set ts bk' tree) = Some bk'"
    using g by (induction ts arbitrary: tree) (auto simp: node_child_put split: option.splits)
qed

lemma deleteBinding_correct:
  assumes "tree_ok (bindingTree ex) (nBindings ex)" "node_get (TokenIterator p) (bindingTree ex) = Some bk"
    "q \<in> b_queue ` set (bindingVector bk)"
  shows "\<exists>ex'. deleteBinding q p bk ex = Inr (True, ex') \<and> tree_ok (bindingTree ex') (nBindings ex')
    \<and> (\<forall>us r. bound ex' us r \<longleftrightarrow> bound ex us r \<and> (us, r) \<noteq> (TokenIterator p, q))"
proof -
  let ?ts = "TokenIterator p" and ?bk = "bk \<lparr> bindingVector := erase_queue q (bindingVector bk) \<rparr>"
  let ?t = "node_set ?ts ?bk (bindingTree ex)"
  have v: "vec ?ts (bindingTree ex) = bindingVector bk" using assms(2) by (simp add: vec_def held_def)
  have dist: "distinct (map b_queue (bindingVector bk))" using assms(1) v unfolding tree_ok_def by metis
  have g: "node_get ?ts (bindingTree ex) \<noteq> None" using assms(2) by simp
  have d: "distinct (map b_queue (bindingVector ?bk))" using erase_queue_distinct [OF dist] by simp
  note s = tree_ok_set [OF assms(1) g d]
  have len: "Suc (length (erase_queue q (bindingVector bk))) = length (bindingVector bk)" using erase_queue_length [OF assms(3)] .
  have pos: "0 < nBindings ex" using s(3) v len by simp
  have ok: "tree_ok ?t (nBindings ex - 1)"
  proof -
    have "nBindings ex + length (bindingVector ?bk) - length (vec ?ts (bindingTree ex)) = nBindings ex - 1"
      using v len by simp
    then show ?thesis using s(1) by simp
  qed
  let ?t' = "if bindingVector ?bk = [] then snd (node_remove binding_ops ?ts ?t) else ?t"
  have ok': "tree_ok ?t' (nBindings ex - 1)" "vec us ?t' = vec us ?t" for us using ok tree_ok_remove [OF ok] by auto
  have "(r \<in> b_queue ` set (vec us ?t')) = (r \<in> b_queue ` set (vec us (bindingTree ex)) \<and> (us, r) \<noteq> (?ts, q))" for us r
    unfolding ok'(2) s(2) using erase_queue_set [OF dist, of q] v by auto
  then show ?thesis
    using ok'(1) pos assms(3)
    by (intro exI [of _ "ex \<lparr> nBindings := nBindings ex - 1, bindingTree := ?t' \<rparr>"]) (simp add: deleteBinding_def Let_def bound_def)
qed

lemma bind_add_correct:
  fixes key :: string
  assumes "tree_ok (bindingTree ex) (nBindings ex)"
  defines "ts \<equiv> TokenIterator (normalize key)"
  shows "\<exists>new propagate ex'. bind_add name q (normalize key) origin tbl ex = Inr (new, propagate, ex')
    \<and> tree_ok (bindingTree ex') (nBindings ex') \<and> (new \<longleftrightarrow> \<not> bound ex ts q)
    \<and> (\<forall>us r. bound ex' us r \<longleftrightarrow> bound ex us r \<or> (us, r) = (ts, q))"
proof -
  have nh: "no_hash_hash ts" unfolding ts_def TokenIterator_normalize by (rule normal_no_hash_hash [OF normalize_tokens_normal])
  have full: "normalize key = join_dots ts" unfolding ts_def by (rule join_TokenIterator [symmetric])
  let ?bk = "held binding_ops ts (bindingTree ex)"
  obtain tree where tr: "node_add binding_ops (normalize key) ts (bindingTree ex) = Inr tree" "tree_ok tree (nBindings ex)"
    "\<And>us. vec us tree = vec us (bindingTree ex)" "node_get ts tree = Some ?bk"
    using tree_ok_add [OF assms(1) nh] unfolding full by blast
  have v: "vec ts tree = bindingVector ?bk" "bound ex ts q \<longleftrightarrow> q \<in> b_queue ` set (bindingVector ?bk)"
    using tr(4) by (simp_all add: vec_def held_def bound_def)
  obtain propagate fed where fed: "addOrigin (name q) origin (fedBinding ?bk) = (propagate, fed)" by fastforce
  show ?thesis
  proof (cases "bound ex ts q")
    case True
    let ?b = "?bk \<lparr> fedBinding := fed \<rparr>"
    have "bind_add name q (normalize key) origin tbl ex = Inr (False, False, ex \<lparr> bindingTree := node_set ts ?b tree \<rparr>)"
      using tr fed True v(2) by (simp add: bind_add_def ts_def [symmetric])
    moreover note s = set_fed [OF tr(2,4), of ?b]
    moreover have "bound (ex \<lparr> bindingTree := node_set ts ?b tree \<rparr>) us r \<longleftrightarrow> bound ex us r" for us r
      using s(2) [of us] tr(3) by (simp add: bound_def)
    ultimately show ?thesis using True by auto
  next
    case False
    let ?b = "\<lparr> b_queue = q, b_key = normalize key, b_args = tbl, b_origin = origin \<rparr>"
    let ?b' = "\<lparr> bindingVector = bindingVector ?bk @ [?b], fedBinding = fed \<rparr>"
    let ?ex = "ex \<lparr> bindingTree := node_set ts ?b' tree, nBindings := nBindings ex + 1 \<rparr>"
    have r: "bind_add name q (normalize key) origin tbl ex = Inr (True, propagate, ?ex)"
      using tr fed False v(2) by (simp add: bind_add_def ts_def [symmetric])
    have g: "node_get ts tree \<noteq> None" using tr(4) by simp
    have "distinct (map b_queue (vec ts tree))" using tr(2) by (simp add: tree_ok_def)
    then have d: "distinct (map b_queue (bindingVector ?b'))" using False v by simp
    note s = tree_ok_set [OF tr(2) g d]
    have "tree_ok (bindingTree ?ex) (nBindings ?ex)" using s(1) v by simp
    moreover have "bound ?ex us r \<longleftrightarrow> bound ex us r \<or> (us, r) = (ts, q)" for us r
      using s(2) [of us] tr(3) v by (auto simp: bound_def)
    ultimately show ?thesis using r False by blast
  qed
qed

lemma fedUnbind_correct:
  assumes "tree_ok (bindingTree ex) (nBindings ex)"
  shows "\<exists>propagate ex'. bind_fedUnbind name q p origin ex = Inr (propagate, ex') \<and> tree_ok (bindingTree ex') (nBindings ex')"
proof (cases "getQueueBinding q p ex")
  case None
  then have "bind_fedUnbind name q p origin ex = Inr (False, ex)" by (simp add: bind_fedUnbind_def)
  with assms show ?thesis by blast
next
  case (Some bk)
  then have g: "node_get (TokenIterator p) (bindingTree ex) = Some bk" and b: "bound ex (TokenIterator p) q"
    by (simp_all add: getQueueBinding_iff)
  obtain propagate fed where fed: "delOrigin (name q) origin (fedBinding bk) = (propagate, fed)" by fastforce
  let ?bk = "bk \<lparr> fedBinding := fed \<rparr>"
  let ?ex = "ex \<lparr> bindingTree := node_set (TokenIterator p) ?bk (bindingTree ex) \<rparr>"
  note s = set_fed [OF assms g, of ?bk]
  have in_bk: "q \<in> b_queue ` set (bindingVector ?bk)" using b g by (simp add: bound_def vec_def held_def)
  have "tree_ok (bindingTree ?ex) (nBindings ?ex)" "node_get (TokenIterator p) (bindingTree ?ex) = Some ?bk" using s by simp_all
  then obtain ex' where "deleteBinding q p ?bk ?ex = Inr (True, ex')" "tree_ok (bindingTree ex') (nBindings ex')"
    using deleteBinding_correct [of ?ex p ?bk q] in_bk by blast
  then show ?thesis using Some fed s(1) by (simp add: bind_fedUnbind_def Let_def)
qed

lemma bind_correct:
  fixes key :: string
  assumes "exchange_ok name ex" "plain_bind args"
  defines "ts \<equiv> TokenIterator (normalize key)"
  shows "\<exists>evs ex'. TopicExchange_bind name q key args ex = Inr (\<not> bound ex ts q, evs, ex') \<and> exchange_ok name ex'
    \<and> (\<forall>us r. bound ex' us r \<longleftrightarrow> bound ex us r \<or> (us, r) = (ts, q))"
proof -
  let ?origin = "case args of None \<Rightarrow> [] | Some a \<Rightarrow> arg_fedOrigin a"
  have ok: "tree_ok (bindingTree ex) (nBindings ex)" using assms(1) by (simp add: exchange_ok_def)
  obtain new propagate ex' where b: "bind_add name q (normalize key) ?origin (map_option arg_table args) ex = Inr (new, propagate, ex')"
    "tree_ok (bindingTree ex') (nBindings ex')" "new \<longleftrightarrow> \<not> bound ex ts q"
    "\<And>us r. bound ex' us r \<longleftrightarrow> bound ex us r \<or> (us, r) = (ts, q)"
    using bind_add_correct [OF ok, of name q key ?origin "map_option arg_table args"] unfolding ts_def by blast
  have "args = None \<or> (case args of None \<Rightarrow> fedOpBind | Some a \<Rightarrow> arg_fedOp a) = []
      \<or> (case args of None \<Rightarrow> fedOpBind | Some a \<Rightarrow> arg_fedOp a) = fedOpBind"
    using assms(2) by (auto simp: plain_bind_def split: option.splits)
  then show ?thesis
    using b clearCache_ok [OF b(2)] by (cases new) (auto simp: TopicExchange_bind_def Let_def)
qed

lemma bind_any_ok:
  assumes "exchange_ok name ex"
  shows "\<exists>r evs ex'. TopicExchange_bind name q key args ex = Inr (r, evs, ex') \<and> exchange_ok name ex'"
proof (cases "plain_bind args")
  case True
  then show ?thesis using bind_correct [OF assms] by blast
next
  case False
  then obtain a where a: "args = Some a" "arg_fedOp a \<noteq> []" "arg_fedOp a \<noteq> fedOpBind"
    by (auto simp: plain_bind_def split: option.splits)
  have ok: "tree_ok (bindingTree ex) (nBindings ex)" using assms by (simp add: exchange_ok_def)
  obtain propagate ex' where u: "bind_fedUnbind name q (normalize key) (arg_fedOrigin a) ex = Inr (propagate, ex')"
    "tree_ok (bindingTree ex') (nBindings ex')" using fedUnbind_correct [OF ok] by blast
  show ?thesis using a u clearCache_ok [OF u(2)] clearCache_ok [OF ok] by (auto simp: TopicExchange_bind_def Let_def)
qed

lemma unbind_correct:
  fixes key :: string
  assumes "exchange_ok name ex"
  defines "ts \<equiv> TokenIterator (normalize key)"
  shows "\<exists>evs ex'. TopicExchange_unbind name q key args ex = Inr (bound ex ts q, evs, ex') \<and> exchange_ok name ex'
    \<and> (\<forall>us r. bound ex' us r \<longleftrightarrow> bound ex us r \<and> (us, r) \<noteq> (ts, q))"
proof (cases "getQueueBinding q (normalize key) ex")
  case None
  then have "\<not> bound ex ts q" by (simp add: getQueueBinding_None ts_def)
  then show ?thesis using None assms(1) clearCache_ok [of ex name] by (auto simp: TopicExchange_unbind_def exchange_ok_def)
next
  case (Some bk)
  have ok: "tree_ok (bindingTree ex) (nBindings ex)" using assms(1) by (simp add: exchange_ok_def)
  have g: "node_get ts (bindingTree ex) = Some bk" and b: "bound ex ts q"
    using Some by (simp_all add: getQueueBinding_iff ts_def)
  let ?origin = "case args of None \<Rightarrow> [] | Some a \<Rightarrow> arg_fedOrigin a"
  obtain propagate fed where fed: "delOrigin (name q) ?origin (fedBinding bk) = (propagate, fed)" by fastforce
  let ?bk = "bk \<lparr> fedBinding := fed \<rparr>"
  let ?ex = "ex \<lparr> bindingTree := node_set ts ?bk (bindingTree ex) \<rparr>"
  note s = set_fed [OF ok g, of ?bk]
  have in_bk: "q \<in> b_queue ` set (bindingVector ?bk)" using b g by (simp add: bound_def vec_def held_def)
  have "tree_ok (bindingTree ?ex) (nBindings ?ex)" "node_get (TokenIterator (normalize key)) (bindingTree ?ex) = Some ?bk"
    using s by (simp_all add: ts_def)
  then obtain ex' where d: "deleteBinding q (normalize key) ?bk ?ex = Inr (True, ex')" "tree_ok (bindingTree ex') (nBindings ex')"
    "\<And>us r. bound ex' us r \<longleftrightarrow> bound ?ex us r \<and> (us, r) \<noteq> (ts, q)"
    using deleteBinding_correct [of ?ex "normalize key" ?bk q] in_bk unfolding ts_def by blast
  have "bound ?ex us r \<longleftrightarrow> bound ex us r" for us r using s(2) [of us] by (simp add: bound_def)
  then show ?thesis using Some fed d clearCache_ok [OF d(2)] b
    by (auto simp: TopicExchange_unbind_def Let_def ts_def [symmetric])
qed

section \<open>The contract\<close>

definition topic_bindings :: "('q, 'a) TopicExchange \<Rightarrow> (string list \<times> 'q) set" where
  "topic_bindings ex = {(ts, q). bound ex ts q}"

definition topic_key :: "string \<Rightarrow> string list" where
  "topic_key key = TokenIterator (normalize key)"

definition topic_matches :: "string list \<Rightarrow> string \<Rightarrow> bool" where
  "topic_matches ts key = topic_match ts (TokenIterator key)"

lemma topic_route_meets:
  fixes ex :: "('q, 'a) TopicExchange"
  assumes "exchange_ok name ex" "TopicExchange_route name k ex = (bs, ex')"
  shows "exchange_ok name ex' \<and> topic_bindings ex' = topic_bindings ex
    \<and> reply_meets name (Routed (map b_queue bs)) (SpecRouted {q. \<exists>p. (p, q) \<in> topic_bindings ex \<and> topic_matches p k})"
proof -
  have ok: "tree_ok (bindingTree ex) (nBindings ex)" using assms(1) by (simp add: exchange_ok_def)
  have r: "bs = find_bindings name k (bindingTree ex)" "bindingTree ex' = bindingTree ex" "exchange_ok name ex'"
    using route_find [OF assms(1), of k] assms(2) by simp_all
  have q: "{q. \<exists>p. (p, q) \<in> topic_bindings ex \<and> topic_matches p k} = b_queue ` matching_bindings (TokenIterator k) (bindingTree ex)"
    by (auto simp: topic_bindings_def bound_def topic_matches_def matching_bindings_def)
  note f = find_bindings_correct [OF ok, of name k, folded r(1)]
  have "distinct (map b_queue bs)" using f(1) by (auto simp: distinct_map qname_def inj_on_def)
  moreover have "name ` b_queue ` B = qname name ` B" for B :: "('q, 'a) Binding set"
    by (auto simp: qname_def)
  ultimately have "reply_meets name (Routed (map b_queue bs)) (SpecRouted (b_queue ` matching_bindings (TokenIterator k) (bindingTree ex)))"
    using f by (simp add: image_mono)
  moreover have "topic_bindings ex' = topic_bindings ex" using r(2) by (simp add: topic_bindings_def bound_def)
  ultimately show ?thesis using r(3) by (simp only: q simp_thms)
qed

interpretation topic: exchange_contract name "TopicExchange_bind name" "TopicExchange_unbind name" "TopicExchange_route name"
    "exchange_ok name" topic_bindings topic_key topic_matches plain_bind
  for name
proof (unfold_locales, goal_cases)
  case (1 s args q k)
  then show ?case using bind_correct [of name s args q k] by (fastforce simp: topic_bindings_def topic_key_def)
next
  case (2 s args q k)
  then show ?case using unbind_correct [of name s q k args] by (fastforce simp: topic_bindings_def topic_key_def)
next
  case (3 s k bs s')
  then show ?case by (rule topic_route_meets)
qed

text \<open>
  The exchanges that a sequence of requests leads to, with any arguments: those of federated brokers, which add
  and withdraw origins, included.
\<close>

inductive topic_reachable :: "('q \<Rightarrow> string) \<Rightarrow> ('q, 'a) TopicExchange \<Rightarrow> bool" for name where
  start: "topic_reachable name TopicExchange_init"
| bind: "topic_reachable name ex \<Longrightarrow> TopicExchange_bind name q key args ex = Inr (r, evs, ex') \<Longrightarrow> topic_reachable name ex'"
| unbind: "topic_reachable name ex \<Longrightarrow> TopicExchange_unbind name q key args ex = Inr (r, evs, ex') \<Longrightarrow> topic_reachable name ex'"
| route: "topic_reachable name ex \<Longrightarrow> TopicExchange_route name key ex = (bs, ex') \<Longrightarrow> topic_reachable name ex'"

lemma topic_reachable_ok: "topic_reachable name ex \<Longrightarrow> exchange_ok name ex"
proof (induction rule: topic_reachable.induct)
  case start
  show ?case by (rule exchange_ok_init)
next
  case (bind ex q key args r evs ex')
  then show ?case using bind_any_ok [of name ex q key args] by auto
next
  case (unbind ex q key args r evs ex')
  then show ?case using unbind_correct [of name ex q key args] by auto
next
  case (route ex key bs ex')
  then show ?case using topic_route_meets by blast
qed

text \<open>
  C2. The topic exchange implements its specification: over every sequence of bind, unbind and route requests
  in which none carries an operation of a federated broker other than a bind (the pseudo-operations of links are outside), no
  assertion fails, bind and unbind change the relation of bindings by the normal form of the key and report whether
  they did, and a routed message goes, once each, to the queues with a binding whose pattern matches the routing key,
  whatever the cache of bindings held before.
\<close>

theorem topic_exchange_refines:
  fixes xs :: "('q, 'a bind_args option) exchange_op list"
  assumes "list_all (plain_op plain_bind) xs"
  shows "\<exists>rs ex. exchange_run (exchange_step (TopicExchange_bind name) (TopicExchange_unbind name) (TopicExchange_route name)) xs
      TopicExchange_init = Inr (rs, ex)
    \<and> list_all2 (reply_meets name) rs (fst (spec_run (spec_step topic_key topic_matches) xs {}))
    \<and> topic_bindings ex = snd (spec_run (spec_step topic_key topic_matches) xs {})"
proof -
  have "topic_bindings (TopicExchange_init :: ('q, 'a) TopicExchange) = {}"
    by (simp add: topic_bindings_def bound_def TopicExchange_init_def vec_def)
  then show ?thesis using topic.run_refines [OF exchange_ok_init assms, of name] by auto
qed

theorem topic_exchange_refines_witness:
  "\<exists>rs ex. exchange_run (exchange_step (TopicExchange_bind id) (TopicExchange_unbind id) (TopicExchange_route id))
      [BindOp ''q'' ''a.#'' (None :: unit bind_args option), RouteOp ''a.b'', UnbindOp ''q'' ''a.#'' None, RouteOp ''a.b'']
      TopicExchange_init = Inr (rs, ex)
    \<and> list_all2 (reply_meets id) rs [SpecChanged True, SpecRouted {''q''}, SpecChanged True, SpecRouted {}]"
proof -
  let ?xs = "[BindOp ''q'' ''a.#'' (None :: unit bind_args option), RouteOp ''a.b'', UnbindOp ''q'' ''a.#'' None, RouteOp ''a.b'']"
  have "topic_key ''a.#'' = [''a'', ''#'']" "topic_matches [''a'', ''#''] ''a.b''" by code_simp+
  then have "fst (spec_run (spec_step topic_key topic_matches) ?xs {}) = [SpecChanged True, SpecRouted {''q''}, SpecChanged True, SpecRouted {}]"
    by simp
  moreover have "list_all (plain_op plain_bind) ?xs" by (simp add: plain_bind_def)
  ultimately show ?thesis using topic_exchange_refines [of ?xs id] by metis
qed

text \<open>
  In every state that requests lead to, those of federated brokers included, the count of bindings is the number
  of bindings in the tree, no queue has two bindings under one pattern, every node carries the pattern of its place,
  and the cache holds for a routing key what a search of the tree would give.
\<close>

theorem topic_exchange_invariant:
  "topic_reachable name ex \<Longrightarrow> placed (bindingTree ex) \<and> patterns_ok [] (bindingTree ex)
     \<and> (\<forall>ts. distinct (map b_queue (vec ts (bindingTree ex))))
     \<and> total (\<lambda>ts. length (vec ts (bindingTree ex))) (nBindings ex)
     \<and> (\<forall>k bs. bindingCache ex k = Some bs \<longrightarrow> bs = find_bindings name k (bindingTree ex))"
  using topic_reachable_ok [of name ex] by (simp add: exchange_ok_def tree_ok_def cache_ok_def)

theorem topic_exchange_invariant_witness:
  "let ex = snd (snd (projr (TopicExchange_bind id ''q'' ''a.#.*'' (None :: unit bind_args option) TopicExchange_init))) in
     placed (bindingTree ex) \<and> nBindings ex = 1 \<and> total (\<lambda>ts. length (vec ts (bindingTree ex))) 1"
proof -
  let ?r = "TopicExchange_bind id ''q'' ''a.#.*'' (None :: unit bind_args option) TopicExchange_init"
  obtain r evs ex where r: "?r = Inr (r, evs, ex)" 
    using bind_any_ok [of id "TopicExchange_init :: (string, unit) TopicExchange"] exchange_ok_init by blast
  then have "topic_reachable id ex" by (rule topic_reachable.bind [OF topic_reachable.start])
  moreover have "nBindings (snd (snd (projr ?r))) = 1" by code_simp
  ultimately show ?thesis using r topic_exchange_invariant [of id ex] by simp
qed

text \<open>
  A query for a binding by routing key alone looks the key up as it is in the tree: after one bind with the key
  \<open>a.b\<close> it answers that \<open>a\<close> is bound, and after one bind with the key \<open>#.*\<close> that \<open>#.*\<close> is not, though the same
  query with the queue says the opposite.
\<close>

theorem isBound_key_divergence:
  "let bind1 = (\<lambda>k. snd (snd (projr (TopicExchange_bind id ''q'' k (None :: unit bind_args option) TopicExchange_init)))) in
     TopicExchange_isBound None (Some ''a'') (bind1 ''a.b'') \<and> \<not> TopicExchange_isBound (Some ''q'') (Some ''a'') (bind1 ''a.b'')
   \<and> \<not> TopicExchange_isBound None (Some ''#.*'') (bind1 ''#.*'') \<and> TopicExchange_isBound (Some ''q'') (Some ''#.*'') (bind1 ''#.*'')"
  by code_simp

end
