(* ===== verification/Field_Value.thy ===== *)
theory Field_Value
  imports Wire_Buffer Std_Containers
begin

text \<open>
  The values of AMQP 0-10 field tables and their encoding: \<open>FieldValue\<close>, \<open>List\<close>, \<open>Array\<close> and the wire format of
  \<open>FieldTable\<close> (\<open>src/qpid/framing/FieldValue.h\<close>, \<open>FieldValue.cpp\<close>, \<open>List.cpp\<close>, \<open>Array.cpp\<close>, \<open>FieldTable.cpp\<close>). A
  field table is decoded lazily: a table that arrives keeps its bytes until a value is read. Names are strings of
  octets. The depth of the recursion of \<open>decode\<close>, which follows the nesting of lists and arrays, is bounded by fuel;
  fuel above the number of bytes available is shown to be enough.
\<close>

section \<open>Values\<close>

text \<open>
  \<open>FieldValue::Data\<close> and its subclasses; the width of \<open>FixedWidthValue\<close> and the width of the length of
  \<open>VariableWidthValue\<close> are template parameters.
\<close>

datatype Data =
    FixedWidthValue nat "byte list"
  | UuidData "byte list"
  | VariableWidthValue nat "byte list"
  | TableData FieldTable
  | ListData "FieldValue list"
  | ArrayData byte "FieldValue list"
and FieldValue = FieldValue (typeOctet: byte) (fv_data: Data)
and FieldTable = FieldTable (ft_values: "(byte list \<times> FieldValue) list") (cachedBytes: "byte list option")
    (cachedSize: "32 word") (newBytes: bool)

definition FieldTable_init :: FieldTable where
  "FieldTable_init = FieldTable [] None 0 False"

text \<open>\<open>setType\<close> makes an empty value of a type; the octets of a fixed width value are not initialised, here they are 0.\<close>

definition setType :: "byte \<Rightarrow> Data result" where
  "setType t =
     (if t = 0xA8 then Inr (TableData FieldTable_init)
      else if t = 0xA9 then Inr (ListData [])
      else if t = 0xAA then Inr (ArrayData 0xF0 [])
      else if t = 0x48 then Inr (UuidData (replicate 16 0))
      else let fixed = (\<lambda>n. Inr (FixedWidthValue n (replicate n 0)));
               lenType = drop_bit 4 t
           in if lenType = 0 then fixed 1 else if lenType = 1 then fixed 2 else if lenType = 2 then fixed 4
              else if lenType = 3 then fixed 8 else if lenType = 4 then fixed 16 else if lenType = 5 then fixed 32
              else if lenType = 6 then fixed 64 else if lenType = 7 then fixed 128
              else if lenType = 8 then Inr (VariableWidthValue 1 [])
              else if lenType = 9 then Inr (VariableWidthValue 2 [])
              else if lenType = 0xA then Inr (VariableWidthValue 4 [])
              else if lenType = 0xC then fixed 5 else if lenType = 0xD then fixed 9
              else if lenType = 0xF then fixed 0
              else Inl IllegalArgumentException)"

section \<open>Sizes\<close>

text \<open>\<open>encodedSize\<close>, in 32 bits. That of a table is remembered in \<open>cachedSize\<close> unless that is 0.\<close>

lemma size_entry [termination_simp]: "(k, v) \<in> set es \<Longrightarrow> size v < Suc (size_list (size_prod size size) es)"
  by (induction es) auto

lemma size_element [termination_simp]: "v \<in> set vs \<Longrightarrow> size (fv_data v) < Suc (size_list size vs)"
proof (induction vs)
  case (Cons w vs)
  then show ?case by (cases v) auto
qed simp

fun Data_encodedSize :: "Data \<Rightarrow> 32 word" and FieldValue_encodedSize :: "FieldValue \<Rightarrow> 32 word" and table_size :: "FieldTable \<Rightarrow> 32 word" where
  "Data_encodedSize (FixedWidthValue n os) = of_nat n"
| "Data_encodedSize (UuidData os) = 16"
| "Data_encodedSize (VariableWidthValue n os) = of_nat n + of_nat (length os)"
| "Data_encodedSize (TableData t) = table_size t"
| "Data_encodedSize (ListData vs) = 4 + 4 + sum_list (map FieldValue_encodedSize vs)"
| "Data_encodedSize (ArrayData t vs) = 4 + 1 + 4 + sum_list (map (\<lambda>v. Data_encodedSize (fv_data v)) vs)"
| "FieldValue_encodedSize (FieldValue t d) = 1 + Data_encodedSize d"
| "table_size (FieldTable es bs n new) =
     (if n \<noteq> 0 then n else 4 + 4 + sum_list (map (\<lambda>(k, v). 1 + of_nat (length k) + FieldValue_encodedSize v) es))"

section \<open>Encoding\<close>

text \<open>Several put operations in a row.\<close>

fun put_all :: "(Buffer \<Rightarrow> Buffer result) list \<Rightarrow> Buffer \<Rightarrow> Buffer result" where
  "put_all [] b = Inr b"
| "put_all (p # ps) b = res_bind (p b) (put_all ps)"

fun Data_encode :: "Data \<Rightarrow> Buffer \<Rightarrow> Buffer result" and FieldValue_encode :: "FieldValue \<Rightarrow> Buffer \<Rightarrow> Buffer result"
  and table_encode :: "FieldTable \<Rightarrow> Buffer \<Rightarrow> Buffer result" where
  "Data_encode (FixedWidthValue n os) b = putRawData b os"
| "Data_encode (UuidData os) b = putRawData b os"
| "Data_encode (VariableWidthValue n os) b =
     res_bind (putUInt n b (of_nat (length os))) (\<lambda>b. if 0 < length os then putRawData b os else Inr b)"
| "Data_encode (TableData t) b = table_encode t b"
| "Data_encode (ListData vs) b =
     res_bind (putLong b (Data_encodedSize (ListData vs) - 4)) (\<lambda>b.
       res_bind (putLong b (of_nat (length vs))) (\<lambda>b. put_all (map (\<lambda>v. FieldValue_encode v) vs) b))"
| "Data_encode (ArrayData t vs) b =
     res_bind (putLong b (Data_encodedSize (ArrayData t vs) - 4)) (\<lambda>b.
       res_bind (putOctet b t) (\<lambda>b.
         res_bind (putLong b (of_nat (length vs))) (\<lambda>b. put_all (map (\<lambda>v. Data_encode (fv_data v)) vs) b)))"
| "FieldValue_encode (FieldValue t d) b = res_bind (putOctet b t) (\<lambda>b. Data_encode d b)"
| "table_encode (FieldTable es bs n new) b =
     (case bs of
        Some xs \<Rightarrow> putRawData b (take (unat n) xs)
      | None \<Rightarrow>
          res_bind (putLong b (table_size (FieldTable es bs n new) - 4)) (\<lambda>b.
            res_bind (putLong b (of_nat (length es))) (\<lambda>b.
              put_all (map (\<lambda>(k, v) b. res_bind (putShortString b k) (\<lambda>b. FieldValue_encode v b)) es) b)))"

section \<open>Decoding\<close>

text \<open>
  \<open>FieldTable::decode\<close> only records the bytes. \<open>setPosition(p)\<close> goes back to the length field, which is part of what
  is recorded.
\<close>

definition table_decode :: "Buffer \<Rightarrow> (FieldTable \<times> Buffer) result" where
  "table_decode b = throw_if (available b < 4) IllegalArgumentException
     (let p = buf_position b in
      res_bind (getLong b) (\<lambda>(len, b).
        throw_if (len \<noteq> 0 \<and> (available b < unat len \<or> available b < 4)) IllegalArgumentException
          (res_bind (getRawData (setPosition b p) (unat (len + 4))) (\<lambda>(bs, b).
             Inr (FieldTable [] (Some bs) (len + 4) True, b)))))"

text \<open>\<open>n\<close> values in a row.\<close>

fun get_n :: "nat \<Rightarrow> (Buffer \<Rightarrow> ('v \<times> Buffer) result) \<Rightarrow> Buffer \<Rightarrow> ('v list \<times> Buffer) result" where
  "get_n 0 g b = Inr ([], b)"
| "get_n (Suc n) g b = res_bind (g b) (\<lambda>(v, b). res_bind (get_n n g b) (\<lambda>(vs, b). Inr (v # vs, b)))"

text \<open>
  The decoders, with the decoder for the data of a nested value as an argument. \<open>decode\<close> is applied to the empty
  value that \<open>setType\<close> makes.
\<close>

type_synonym data_decoder = "Data \<Rightarrow> Buffer \<Rightarrow> (Data \<times> Buffer) result"

definition value_decode_with :: "data_decoder \<Rightarrow> Buffer \<Rightarrow> (FieldValue \<times> Buffer) result" where
  "value_decode_with dd b =
     res_bind (getOctet b) (\<lambda>(t, b). res_bind (setType t) (\<lambda>d. res_bind (dd d b) (\<lambda>(d, b). Inr (FieldValue t d, b))))"

definition List_decode :: "data_decoder \<Rightarrow> Buffer \<Rightarrow> (Data \<times> Buffer) result" where
  "List_decode dd b = throw_if (available b < 4) IllegalArgumentException
     (res_bind (getLong b) (\<lambda>(sz, b).
        throw_if (available b < unat sz) IllegalArgumentException
          (if sz \<noteq> 0
           then throw_if (available b < 4) IllegalArgumentException
             (res_bind (getLong b) (\<lambda>(count, b).
                res_bind (get_n (unat count) (value_decode_with dd) b) (\<lambda>(vs, b). Inr (ListData vs, b))))
           else Inr (ListData [], b))))"

definition Array_decode :: "data_decoder \<Rightarrow> byte \<Rightarrow> Buffer \<Rightarrow> (Data \<times> Buffer) result" where
  "Array_decode dd t0 b =
     res_bind (getLong b) (\<lambda>(sz, b).
       throw_if (available b < unat sz) IllegalArgumentException
         (if sz \<noteq> 0
          then res_bind (getOctet b) (\<lambda>(t, b).
            res_bind (getLong b) (\<lambda>(count, b).
              res_bind (setType t) (\<lambda>dummy.
                let elementSize = Data_encodedSize dummy in
                throw_if (available b < unat (count * elementSize)) IllegalArgumentException
                  (throw_if (elementSize = 0 \<and> 256 < count) IllegalArgumentException
                    (res_bind (get_n (unat count) (\<lambda>b. res_bind (dd dummy b) (\<lambda>(d, b). Inr (FieldValue t d, b))) b)
                      (\<lambda>(vs, b). Inr (ArrayData t vs, b)))))))
          else Inr (ArrayData t0 [], b)))"

fun data_decode_with :: "data_decoder \<Rightarrow> data_decoder" where
  "data_decode_with dd (FixedWidthValue n os) b =
     (if n = 0 then Inr (FixedWidthValue n os, b) else res_bind (getRawData b n) (\<lambda>(os, b). Inr (FixedWidthValue n os, b)))"
| "data_decode_with dd (UuidData os) b = res_bind (getRawData b 16) (\<lambda>(os, b). Inr (UuidData os, b))"
| "data_decode_with dd (VariableWidthValue w os) b =
     res_bind (getUInt w b) (\<lambda>(len64, b). let len = ucast len64 :: 32 word in
       checkAvailable b (unat len)
         (if 0 < len then res_bind (getRawData b (unat len)) (\<lambda>(os, b). Inr (VariableWidthValue w os, b))
          else Inr (VariableWidthValue w [], b)))"
| "data_decode_with dd (TableData t) b = res_bind (table_decode b) (\<lambda>(t, b). Inr (TableData t, b))"
| "data_decode_with dd (ListData vs) b = List_decode dd b"
| "data_decode_with dd (ArrayData t vs) b = Array_decode dd t b"

fun Data_decode :: "nat \<Rightarrow> data_decoder" where
  "Data_decode 0 d b = Inl OutOfFuel"
| "Data_decode (Suc fuel) d b = data_decode_with (Data_decode fuel) d b"

definition FieldValue_decode :: "nat \<Rightarrow> Buffer \<Rightarrow> (FieldValue \<times> Buffer) result" where
  "FieldValue_decode fuel b = value_decode_with (Data_decode fuel) b"

section \<open>Decoding any bytes\<close>

text \<open>
  A decoder on at most \<open>m\<close> bytes is sound if it throws one of the exceptions for malformed input or reads at least
  \<open>lo\<close> bytes and stays in the buffer.
\<close>

definition sound_get :: "nat \<Rightarrow> nat \<Rightarrow> (Buffer \<Rightarrow> ('v \<times> Buffer) result) \<Rightarrow> bool" where
  "sound_get m lo g \<longleftrightarrow> (\<forall>b. buf_wf b \<longrightarrow> available b \<le> m \<longrightarrow>
     g b = Inl OutOfBounds \<or> g b = Inl IllegalArgumentException
     \<or> (\<exists>v n. lo \<le> n \<and> n \<le> available b \<and> g b = Inr (v, advance b n)))"

lemma sound_getI:
  "(\<And>b. buf_wf b \<Longrightarrow> available b \<le> m \<Longrightarrow> g b = Inl OutOfBounds \<or> g b = Inl IllegalArgumentException
     \<or> (\<exists>v n. lo \<le> n \<and> n \<le> available b \<and> g b = Inr (v, advance b n))) \<Longrightarrow> sound_get m lo g"
  by (simp add: sound_get_def)

lemma sound_getE:
  assumes "sound_get m lo g" "buf_wf b" "available b \<le> m"
  obtains "g b = Inl OutOfBounds" | "g b = Inl IllegalArgumentException"
    | v n where "lo \<le> n" "n \<le> available b" "g b = Inr (v, advance b n)"
  using assms by (auto simp: sound_get_def)

lemma sound_get_checked: "(\<And>b. g b = checkAvailable b n (Inr (f b, advance b n))) \<Longrightarrow> sound_get m n g"
  by (rule sound_getI) (metis checkAvailable_simps not_le order_refl)

lemma sound_get_safe: "safe_get g \<Longrightarrow> sound_get m 0 g"
  by (auto simp: safe_get_def sound_get_def)

lemma sound_get_pure: "sound_get m 0 (\<lambda>b. Inr (v, b))"
  by (rule sound_getI) (metis advance_0 le0)

lemma sound_get_weaken: "sound_get m lo g \<Longrightarrow> m' \<le> m \<Longrightarrow> lo' \<le> lo \<Longrightarrow> sound_get m' lo' g"
  unfolding sound_get_def by (meson order_trans)

lemma sound_get_bind:
  assumes g: "sound_get m lo1 g" and h: "\<And>u. lo1 \<le> m \<Longrightarrow> sound_get (m - lo1) lo2 (h u)"
  shows "sound_get m (lo1 + lo2) (\<lambda>b. res_bind (g b) (\<lambda>(u, b). h u b))"
proof (rule sound_getI)
  fix b
  assume b: "buf_wf b" "available b \<le> m"
  show "res_bind (g b) (\<lambda>(u, b). h u b) = Inl OutOfBounds \<or> res_bind (g b) (\<lambda>(u, b). h u b) = Inl IllegalArgumentException
    \<or> (\<exists>v n. lo1 + lo2 \<le> n \<and> n \<le> available b \<and> res_bind (g b) (\<lambda>(u, b). h u b) = Inr (v, advance b n))"
    using g b
  proof (cases rule: sound_getE)
    case (3 u n)
    have "buf_wf (advance b n)" "available (advance b n) \<le> m - lo1" "lo1 \<le> m" using b 3 by auto
    then consider "h u (advance b n) = Inl OutOfBounds" | "h u (advance b n) = Inl IllegalArgumentException"
      | v k where "lo2 \<le> k" "k \<le> available b - n" "h u (advance b n) = Inr (v, advance b (n + k))"
      using sound_getE [OF h [OF \<open>lo1 \<le> m\<close>, of u] \<open>buf_wf (advance b n)\<close>] b 3 by (metis advance_advance advance_wf(2))
    then show ?thesis
    proof cases
      case c: (3 v k)
      then show ?thesis using 3 by (auto intro!: exI [of _ "n + k"])
    qed (use 3 in simp_all)
  qed simp_all
qed

lemma sound_get_throw: "sound_get m lo g \<Longrightarrow> sound_get m lo (\<lambda>b. throw_if (c b) IllegalArgumentException (g b))"
  by (auto simp: sound_get_def throw_if_def)

lemma sound_get_if: "(c \<Longrightarrow> sound_get m lo g) \<Longrightarrow> (\<not> c \<Longrightarrow> sound_get m lo h) \<Longrightarrow> sound_get m lo (\<lambda>b. if c then g b else h b)"
  by (cases c) auto

lemma sound_get_result:
  "(r = Inl OutOfBounds \<or> r = Inl IllegalArgumentException \<or> (\<exists>d. r = Inr d)) \<Longrightarrow> (\<And>d. sound_get m lo (h d))
    \<Longrightarrow> sound_get m lo (\<lambda>b. res_bind r (\<lambda>d. h d b))"
  by (elim disjE exE) (simp_all add: sound_get_def)

lemma sound_get_n:
  assumes "sound_get m 0 g"
  shows "sound_get m 0 (get_n n g)"
proof (induction n)
  case 0
  have "get_n 0 g = (\<lambda>b. Inr ([], b))" by (simp add: fun_eq_iff)
  then show ?case using sound_get_pure [of m "[]"] by simp
next
  case (Suc n)
  have "sound_get m (0 + 0) (\<lambda>b. res_bind (g b) (\<lambda>(v, b). res_bind (get_n n g b) (\<lambda>(vs, b). Inr (v # vs, b))))"
    using sound_get_bind [OF Suc sound_get_pure] by (intro sound_get_bind assms) simp
  then show ?case by (simp add: sound_get_def)
qed

lemma sound_getOctet: "sound_get m 1 getOctet"
  by (rule sound_get_checked) (simp add: getOctet_def skip_byte_conv)

lemma sound_getLong: "sound_get m 4 getLong"
  by (rule sound_get_checked) (simp add: getLong_def skip_byte_conv Let_def flip: numeral_2_eq_2)

lemma setType_result: "setType t = Inl IllegalArgumentException \<or> (\<exists>d. setType t = Inr d)"
  by (simp add: setType_def Let_def)

lemma setPosition_advance: "setPosition (advance b n) (buf_position b) = b"
  by (simp add: setPosition_def advance_def)

lemma table_decode_sound: "sound_get m 0 table_decode"
proof (rule sound_getI)
  fix b
  assume b: "buf_wf b" "available b \<le> m"
  show "table_decode b = Inl OutOfBounds \<or> table_decode b = Inl IllegalArgumentException
    \<or> (\<exists>v n. 0 \<le> n \<and> n \<le> available b \<and> table_decode b = Inr (v, advance b n))"
  proof (cases "available b < 4")
    case False
    obtain len where len: "getLong b = Inr (len, advance b 4)"
      using False by (simp add: getLong_def skip_byte_conv Let_def flip: numeral_2_eq_2)
    have a: "available (advance b 4) = available b - 4" using b False by simp
    have lt: "available b < 2 ^ 32" using unsigned_less [of "buf_size b - buf_position b", where 'a = nat] by (simp add: available_def)
    show ?thesis
    proof (cases "len \<noteq> 0 \<and> (available (advance b 4) < unat len \<or> available (advance b 4) < 4)")
      case True
      then show ?thesis using len False by (simp add: table_decode_def)
    next
      case ok: False
      then have "unat len + 4 \<le> available b" using a False by (auto simp: not_less)
      then have "unat (len + 4) \<le> available b" using lt by (simp add: unat_word_ariths)
      moreover have "table_decode b = res_bind (getRawData b (unat (len + 4))) (\<lambda>(bs, b). Inr (FieldTable [] (Some bs) (len + 4) True, b))"
        using ok False by (simp only: table_decode_def throw_if_def if_False len res_bind_simps case_prod_conv setPosition_advance Let_def)
      ultimately show ?thesis by (auto simp: getRawData_def get_bytes_def advance_def)
    qed
  qed (simp add: table_decode_def)
qed

lemma value_decode_sound:
  assumes "\<And>d. 1 \<le> m \<Longrightarrow> sound_get (m - 1) 0 (dd d)"
  shows "sound_get m 1 (value_decode_with dd)"
proof -
  have "sound_get (m - 1) 0 (\<lambda>b. res_bind (setType t) (\<lambda>d. res_bind (dd d b) (\<lambda>(d, b). Inr (FieldValue t d, b))))"
    if "1 \<le> m" for t
    using setType_result [of t] sound_get_bind [OF assms [OF that] sound_get_pure] by (intro sound_get_result) auto
  then have "sound_get m (1 + 0) (value_decode_with dd)"
    unfolding value_decode_with_def [abs_def] by (intro sound_get_bind sound_getOctet)
  then show ?thesis by simp
qed

lemma List_decode_sound:
  assumes "\<And>d. 9 \<le> m \<Longrightarrow> sound_get (m - 9) 0 (dd d)"
  shows "sound_get m 0 (List_decode dd)"
proof -
  have v: "sound_get (m - 4 - 4) 0 (value_decode_with dd)" if "4 \<le> m - 4"
    using value_decode_sound [of "m - 8" dd] assms that by (auto intro: sound_get_weaken)
  have "sound_get (m - 4) (4 + 0) (\<lambda>b. res_bind (getLong b) (\<lambda>(count, b).
      res_bind (get_n (unat count) (value_decode_with dd) b) (\<lambda>(vs, b). Inr (ListData vs, b))))" if "4 \<le> m"
    using sound_get_bind [OF sound_get_n [OF v] sound_get_pure]
    by (intro sound_get_bind sound_getLong) (simp only: add_0_left True_implies_equals)
  then have "sound_get m (4 + 0) (List_decode dd)"
    unfolding List_decode_def [abs_def]
    by (intro sound_get_throw sound_get_bind sound_getLong sound_get_if sound_get_pure) (auto intro: sound_get_weaken)
  then show ?thesis by (auto intro: sound_get_weaken)
qed

lemma Array_decode_sound:
  assumes "\<And>d. 9 \<le> m \<Longrightarrow> sound_get (m - 9) 0 (dd d)"
  shows "sound_get m 0 (Array_decode dd t0)"
proof -
  have e: "sound_get (m - 9) 0 (\<lambda>b. res_bind (get_n n (\<lambda>b. res_bind (dd d b) (\<lambda>(d, b). Inr (FieldValue t d, b))) b)
      (\<lambda>(vs, b). Inr (ArrayData t vs, b)))" if "9 \<le> m" for d n t
    using sound_get_bind [OF sound_get_n [OF sound_get_bind [OF assms [OF that] sound_get_pure, simplified]] sound_get_pure] by simp
  have "sound_get (m - 5) (4 + 0) (\<lambda>b. res_bind (getLong b) (\<lambda>(count, b).
      res_bind (setType t) (\<lambda>dummy.
        let elementSize = Data_encodedSize dummy in
        throw_if (available b < unat (count * elementSize)) IllegalArgumentException
          (throw_if (elementSize = 0 \<and> 256 < count) IllegalArgumentException
            (res_bind (get_n (unat count) (\<lambda>b. res_bind (dd dummy b) (\<lambda>(d, b). Inr (FieldValue t d, b))) b)
              (\<lambda>(vs, b). Inr (ArrayData t vs, b)))))))" if "5 \<le> m" for t
  proof (intro sound_get_bind sound_getLong sound_get_result)
    fix count :: "32 word" and d
    assume "4 \<le> m - 5"
    then have "9 \<le> m" by simp
    show "setType t = Inl OutOfBounds \<or> setType t = Inl IllegalArgumentException \<or> (\<exists>d. setType t = Inr d)"
      using setType_result [of t] by blast
    show "sound_get (m - 5 - 4) 0 (\<lambda>b. let elementSize = Data_encodedSize d in
        throw_if (available b < unat (count * elementSize)) IllegalArgumentException
          (throw_if (elementSize = 0 \<and> 256 < count) IllegalArgumentException
            (res_bind (get_n (unat count) (\<lambda>b. res_bind (dd d b) (\<lambda>(d, b). Inr (FieldValue t d, b))) b)
              (\<lambda>(vs, b). Inr (ArrayData t vs, b)))))"
      unfolding Let_def using e [OF \<open>9 \<le> m\<close>] by (intro sound_get_throw) (simp add: diff_diff_left)
  qed
  then have "sound_get (m - 4) (1 + 4) (\<lambda>b. res_bind (getOctet b) (\<lambda>(t, b). res_bind (getLong b) (\<lambda>(count, b).
      res_bind (setType t) (\<lambda>dummy.
        let elementSize = Data_encodedSize dummy in
        throw_if (available b < unat (count * elementSize)) IllegalArgumentException
          (throw_if (elementSize = 0 \<and> 256 < count) IllegalArgumentException
            (res_bind (get_n (unat count) (\<lambda>b. res_bind (dd dummy b) (\<lambda>(d, b). Inr (FieldValue t d, b))) b)
              (\<lambda>(vs, b). Inr (ArrayData t vs, b))))))))" if "4 \<le> m"
    using that by (intro sound_get_bind sound_getOctet) (simp add: diff_diff_left)
  then have "sound_get m (4 + 0) (Array_decode dd t0)"
    unfolding Array_decode_def [abs_def]
    by (intro sound_get_bind sound_getLong sound_get_throw sound_get_if sound_get_pure) (auto intro: sound_get_weaken)
  then show ?thesis by (auto intro: sound_get_weaken)
qed

lemma Data_decode_sound: "m < fuel \<Longrightarrow> sound_get m 0 (Data_decode fuel d)"
proof (induction fuel arbitrary: m d)
  case (Suc fuel)
  have ih: "sound_get (m - 9) 0 (Data_decode fuel d)" if "9 \<le> m" for d using Suc that by auto
  have e: "Data_decode (Suc fuel) d = data_decode_with (Data_decode fuel) d" by (simp add: fun_eq_iff)
  have raw: "sound_get m 0 (\<lambda>b. res_bind (getRawData b n) (\<lambda>(os, b). Inr (f os, b)))" for n m and f :: "byte list \<Rightarrow> Data"
    using sound_get_bind [OF sound_get_safe [OF safe_getRawData] sound_get_pure] by simp
  show ?case
  proof (cases d)
    case (FixedWidthValue n os)
    then have "Data_decode (Suc fuel) d = (\<lambda>b. if n = 0 then Inr (FixedWidthValue n os, b)
        else res_bind (getRawData b n) (\<lambda>(os, b). Inr (FixedWidthValue n os, b)))" by (simp add: fun_eq_iff)
    then show ?thesis by (simp only:) (intro sound_get_if raw sound_get_pure)
  next
    case (UuidData os)
    then show ?thesis using raw [of m 16 UuidData] by (simp add: e sound_get_def)
  next
    case (VariableWidthValue w os)
    have "sound_get m 0 (\<lambda>b. checkAvailable b (unat len)
         (if 0 < len then res_bind (getRawData b (unat len)) (\<lambda>(os, b). Inr (VariableWidthValue w os, b))
          else Inr (VariableWidthValue w [], b)))" for m and len :: "32 word"
    proof (cases "0 < len")
      case True
      then show ?thesis using raw [of m "unat len" "VariableWidthValue w"] by (auto simp: sound_get_def checkAvailable_def throw_if_def)
    next
      case False
      then show ?thesis using sound_get_pure [of m "VariableWidthValue w []"] by (auto simp: sound_get_def checkAvailable_def throw_if_def)
    qed
    then have "sound_get m (0 + 0) (data_decode_with (Data_decode fuel) (VariableWidthValue w os))"
      unfolding data_decode_with.simps(3) [abs_def] Let_def
      by (intro sound_get_bind [OF sound_get_safe [OF safe_getUInt]])
    then show ?thesis using e VariableWidthValue by (simp only: add_0_left)
  next
    case (TableData t)
    then show ?thesis using sound_get_bind [OF table_decode_sound [of m] sound_get_pure] by (simp add: e sound_get_def)
  next
    case (ListData vs)
    then show ?thesis using List_decode_sound [OF ih] by (simp add: e sound_get_def)
  next
    case (ArrayData t vs)
    then show ?thesis using Array_decode_sound [OF ih] by (simp add: e sound_get_def)
  qed
qed simp

text \<open>
  C38. Decoding a field value ends on any bytes: with fuel above the number of bytes available it throws \<open>OutOfBounds\<close>
  or \<open>IllegalArgumentException\<close>, or reads at least one byte and stops inside the buffer; the nesting of lists and
  arrays never exhausts the fuel.
\<close>

theorem FieldValue_decode_total:
  assumes "buf_wf b" "available b \<le> fuel"
  shows "FieldValue_decode fuel b = Inl OutOfBounds \<or> FieldValue_decode fuel b = Inl IllegalArgumentException
    \<or> (\<exists>v n. 1 \<le> n \<and> n \<le> available b \<and> FieldValue_decode fuel b = Inr (v, advance b n))"
proof -
  have "sound_get (available b) 1 (value_decode_with (Data_decode fuel))"
    by (rule value_decode_sound) (use assms Data_decode_sound in auto)
  then show ?thesis using assms(1) by (simp add: sound_get_def FieldValue_decode_def)
qed

theorem FieldValue_decode_total_witness:
  "\<exists>v n. 1 \<le> n \<and> n \<le> 10 \<and> FieldValue_decode 10 (Buffer_init [0xA9, 0, 0, 0, 5, 0, 0, 0, 1, 0xF0] 10)
     = Inr (v, advance (Buffer_init [0xA9, 0, 0, 0, 5, 0, 0, 0, 1, 0xF0] 10) n)"
proof -
  let ?b = "Buffer_init [0xA9, 0, 0, 0, 5, 0, 0, 0, 1, 0xF0] 10"
  have "buf_wf ?b" "available ?b = 10" by (simp_all add: Buffer_init_def buf_wf_def available_def)
  moreover have "FieldValue_decode 10 ?b \<noteq> Inl OutOfBounds" "FieldValue_decode 10 ?b \<noteq> Inl IllegalArgumentException"
    by code_simp+
  ultimately show ?thesis using FieldValue_decode_total [of ?b 10] by auto
qed

section \<open>The encoding\<close>

text \<open>The bytes of a value, and the values whose sizes fit their fields and whose type octet is that of their class.\<close>

definition be_len :: "nat \<Rightarrow> nat \<Rightarrow> byte list" where
  "be_len w n = (if w = 1 then [of_nat n] else if w = 2 then be16 (of_nat n) else be32 (of_nat n))"

fun enc_data :: "Data \<Rightarrow> byte list" and enc_value :: "FieldValue \<Rightarrow> byte list" and enc_table :: "FieldTable \<Rightarrow> byte list" where
  "enc_data (FixedWidthValue n os) = os"
| "enc_data (UuidData os) = os"
| "enc_data (VariableWidthValue w os) = be_len w (length os) @ os"
| "enc_data (TableData t) = enc_table t"
| "enc_data (ListData vs) =
     (let s = concat (map enc_value vs) in be32 (of_nat (4 + length s)) @ be32 (of_nat (length vs)) @ s)"
| "enc_data (ArrayData t vs) =
     (let s = concat (map (\<lambda>v. enc_data (fv_data v)) vs) in be32 (of_nat (5 + length s)) @ [t] @ be32 (of_nat (length vs)) @ s)"
| "enc_value (FieldValue t d) = t # enc_data d"
| "enc_table (FieldTable es bs n new) =
     (case bs of
        Some xs \<Rightarrow> xs
      | None \<Rightarrow> let s = concat (map (\<lambda>(k, v). of_nat (length k) # k @ enc_value v) es)
                in be32 (of_nat (4 + length s)) @ be32 (of_nat (length es)) @ s)"

fun same_class :: "Data \<Rightarrow> Data \<Rightarrow> bool" where
  "same_class (FixedWidthValue n _) (FixedWidthValue m _) \<longleftrightarrow> n = m"
| "same_class (UuidData _) (UuidData _) \<longleftrightarrow> True"
| "same_class (VariableWidthValue n _) (VariableWidthValue m _) \<longleftrightarrow> n = m"
| "same_class (TableData _) (TableData _) \<longleftrightarrow> True"
| "same_class (ListData _) (ListData _) \<longleftrightarrow> True"
| "same_class (ArrayData _ _) (ArrayData _ _) \<longleftrightarrow> True"
| "same_class _ _ \<longleftrightarrow> False"

definition typed :: "byte \<Rightarrow> Data \<Rightarrow> bool" where
  "typed t d = (case setType t of Inl e \<Rightarrow> False | Inr d0 \<Rightarrow> same_class d0 d)"

text \<open>The bytes of a table: the length field and, unless it is 0, at least the count.\<close>

definition raw_ok :: "byte list \<Rightarrow> bool" where
  "raw_ok xs \<longleftrightarrow> 4 \<le> length xs \<and> length xs < 2 ^ 32 \<and> take 4 xs = be32 (of_nat (length xs - 4)) \<and> (length xs = 4 \<or> 8 \<le> length xs)"

definition array_ok :: "byte \<Rightarrow> FieldValue list \<Rightarrow> bool" where
  "array_ok t vs = (length vs < 2 ^ 32 \<and> (case setType t of Inl e \<Rightarrow> False | Inr d0 \<Rightarrow>
     (\<forall>v\<in>set vs. unat (Data_encodedSize d0) \<le> length (enc_data (fv_data v))) \<and> (Data_encodedSize d0 = 0 \<longrightarrow> length vs \<le> 256)))"

fun data_ok :: "Data \<Rightarrow> bool" and value_ok :: "FieldValue \<Rightarrow> bool" and table_ok :: "FieldTable \<Rightarrow> bool" where
  "data_ok (FixedWidthValue n os) \<longleftrightarrow> length os = n"
| "data_ok (UuidData os) \<longleftrightarrow> length os = 16"
| "data_ok (VariableWidthValue w os) \<longleftrightarrow> w = 1 \<and> length os < 2 ^ 8 \<or> w = 2 \<and> length os < 2 ^ 16 \<or> w = 4 \<and> length os < 2 ^ 32"
| "data_ok (TableData t) \<longleftrightarrow> table_ok t"
| "data_ok (ListData vs) \<longleftrightarrow> list_all value_ok vs \<and> length (enc_data (ListData vs)) < 2 ^ 32"
| "data_ok (ArrayData t vs) \<longleftrightarrow> list_all (\<lambda>v. typeOctet v = t \<and> typed t (fv_data v) \<and> data_ok (fv_data v)) vs \<and> array_ok t vs
     \<and> length (enc_data (ArrayData t vs)) < 2 ^ 32"
| "value_ok (FieldValue t d) \<longleftrightarrow> typed t d \<and> data_ok d"
| "table_ok (FieldTable es bs n new) \<longleftrightarrow>
     (case bs of
        Some xs \<Rightarrow> n = of_nat (length xs) \<and> raw_ok xs
      | None \<Rightarrow> \<not> new \<and> list_all (\<lambda>(k, v). length k < 2 ^ 8 \<and> value_ok v) es \<and> length (enc_table (FieldTable es bs n new)) < 2 ^ 32
          \<and> (n = 0 \<or> n = of_nat (length (enc_table (FieldTable es bs n new)))))"

text \<open>The form in which a value arrives: tables in it are not decoded yet.\<close>

definition raw_table :: "byte list \<Rightarrow> FieldTable" where
  "raw_table xs = FieldTable [] (Some xs) (of_nat (length xs)) True"

fun wire_data :: "Data \<Rightarrow> Data" and wire_value :: "FieldValue \<Rightarrow> FieldValue" where
  "wire_data (FixedWidthValue n os) = FixedWidthValue n os"
| "wire_data (UuidData os) = UuidData os"
| "wire_data (VariableWidthValue w os) = VariableWidthValue w os"
| "wire_data (TableData t) = TableData (raw_table (enc_table t))"
| "wire_data (ListData vs) = ListData (map wire_value vs)"
| "wire_data (ArrayData t vs) = ArrayData t (map (\<lambda>v. FieldValue t (wire_data (fv_data v))) vs)"
| "wire_value (FieldValue t d) = FieldValue t (wire_data d)"

section \<open>Sizes are the lengths of the encodings\<close>

lemma of_nat_sum_lengths:
  "(\<And>x. x \<in> set xs \<Longrightarrow> f x = of_nat (length (g x))) \<Longrightarrow> sum_list (map f xs) = of_nat (length (concat (map g xs)))"
  by (induction xs) simp_all

lemma length_be_len [simp]: "w = 1 \<or> w = 2 \<or> w = 4 \<Longrightarrow> length (be_len w n) = w"
  by (auto simp: be_len_def)

lemma unat_len32: "n < 2 ^ 32 \<Longrightarrow> unat (of_nat n :: 32 word) = n"
  by (simp add: unat_of_nat)

lemma raw_ok_size: "raw_ok xs \<Longrightarrow> (of_nat (length xs) :: 32 word) \<noteq> 0"
  using unat_len32 [of "length xs"] by (auto simp: raw_ok_def)

lemma encodedSize_length:
  "data_ok d \<Longrightarrow> Data_encodedSize d = of_nat (length (enc_data d))"
  "value_ok v \<Longrightarrow> FieldValue_encodedSize v = of_nat (length (enc_value v))"
  "table_ok t \<Longrightarrow> table_size t = of_nat (length (enc_table t))"
proof (induction d and v and t rule: enc_data_enc_value_enc_table.induct)
  case (5 vs)
  then have "sum_list (map FieldValue_encodedSize vs) = of_nat (length (concat (map enc_value vs)))"
    by (intro of_nat_sum_lengths) (auto simp: list_all_iff)
  then show ?case by (simp add: Let_def)
next
  case (6 t vs)
  then have "sum_list (map (\<lambda>v. Data_encodedSize (fv_data v)) vs) = of_nat (length (concat (map (\<lambda>v. enc_data (fv_data v)) vs)))"
    by (intro of_nat_sum_lengths) (auto simp: list_all_iff)
  then show ?case by (simp add: Let_def)
next
  case (8 es bs n new)
  show ?case
  proof (cases bs)
    case None
    have "sum_list (map (\<lambda>(k, v). 1 + of_nat (length k) + FieldValue_encodedSize v) es)
        = of_nat (length (concat (map (\<lambda>(k, v). of_nat (length k) # k @ enc_value v) es)))"
      using 8 None by (intro of_nat_sum_lengths) (fastforce simp: list_all_iff)
    then show ?thesis using 8 None by (auto simp: Let_def)
  next
    case (Some xs)
    then show ?thesis using 8 raw_ok_size by auto
  qed
qed auto

section \<open>Encoding writes the encoding\<close>

definition put_spec :: "Buffer \<Rightarrow> byte list \<Rightarrow> Buffer result" where
  "put_spec b s = (if length s \<le> available b then Inr (put_bytes b s) else Inl OutOfBounds)"

lemma put_spec_bind:
  assumes "buf_wf b" "\<And>b'. buf_wf b' \<Longrightarrow> f b' = put_spec b' s'"
  shows "res_bind (put_spec b s) f = put_spec b (s @ s')"
  using assms(1) assms(2) [of "put_bytes b s"] by (auto simp: put_spec_def put_bytes_append)

lemma put_spec_Nil: "buf_wf b \<Longrightarrow> put_spec b [] = Inr b"
  by (simp add: put_spec_def put_bytes_def)

lemma put_all_spec:
  assumes "\<And>x b. x \<in> set xs \<Longrightarrow> buf_wf b \<Longrightarrow> f x b = put_spec b (g x)" "buf_wf b"
  shows "put_all (map f xs) b = put_spec b (concat (map g xs))"
  using assms
proof (induction xs arbitrary: b)
  case (Cons x xs)
  then show ?case using put_spec_bind [of b "put_all (map f xs)" "concat (map g xs)" "g x"] by simp
qed (simp add: put_spec_Nil)

lemma put_ops_spec:
  assumes "buf_wf b"
  shows "putOctet b i = put_spec b [i]" "putLong b j = put_spec b (be32 j)" "putRawData b s = put_spec b s"
    "length k < 2 ^ 8 \<Longrightarrow> putShortString b k = put_spec b (of_nat (length k) # k)"
  using assms octet.put_law [of b i] long.put_law [of b j] short_string.string.put_law [of b k]
  by (simp_all add: put_spec_def putRawData_def checkAvailable_def throw_if_def)

lemma putUInt_spec:
  assumes "buf_wf b" "data_ok (VariableWidthValue w os)"
  shows "putUInt w b (of_nat (length os)) = put_spec b (be_len w (length os))"
proof -
  have u: "unat (of_nat (length os) :: 64 word) = length os" using assms(2) by (auto simp: unat_of_nat)
  have le: "w = 1 \<Longrightarrow> (of_nat (length os) :: 64 word) \<le> 255" "w = 2 \<Longrightarrow> (of_nat (length os) :: 64 word) \<le> 65535"
    "w = 4 \<Longrightarrow> (of_nat (length os) :: 64 word) \<le> 4294967295"
    using assms(2) u by (auto simp: word_le_nat_alt)
  have c: "ucast (of_nat (length os) :: 64 word) = (of_nat (length os) :: 8 word)"
    "ucast (of_nat (length os) :: 64 word) = (of_nat (length os) :: 16 word)"
    "ucast (of_nat (length os) :: 64 word) = (of_nat (length os) :: 32 word)"
    using assms(2) by (auto simp: unsigned_of_nat take_bit_nat_eq_self)
  consider "w = 1" | "w = 2" | "w = 4" using assms(2) by auto
  then show ?thesis
    using le assms(1) octet.put_law [of b] short.put_law [of b] long.put_law [of b]
    by cases (simp_all add: putUInt_def be_len_def c put_spec_def)
qed

lemma encode_spec:
  "data_ok d \<Longrightarrow> buf_wf b \<Longrightarrow> Data_encode d b = put_spec b (enc_data d)"
  "value_ok v \<Longrightarrow> buf_wf b \<Longrightarrow> FieldValue_encode v b = put_spec b (enc_value v)"
  "table_ok t \<Longrightarrow> buf_wf b \<Longrightarrow> table_encode t b = put_spec b (enc_table t)"
proof (induction d and v and t arbitrary: b and b and b rule: enc_data_enc_value_enc_table.induct)
  case (3 w os)
  have "(if 0 < length os then putRawData b os else Inr b) = put_spec b os" if "buf_wf b" for b
    using that by (cases os) (simp_all add: put_ops_spec put_spec_Nil)
  then show ?case using put_spec_bind [OF 3(2), of _ os] putUInt_spec [OF 3(2,1)] by simp
next
  case (5 vs)
  let ?s = "concat (map enc_value vs)"
  have "Data_encodedSize (ListData vs) - 4 = of_nat (4 + length ?s)"
    using encodedSize_length(1) [OF 5(2)] by (simp add: Let_def)
  moreover have "put_all (map FieldValue_encode vs) b = put_spec b ?s" if "buf_wf b" for b
    using 5 that by (intro put_all_spec) (auto simp: list_all_iff)
  then have "res_bind (put_spec b (be32 (of_nat (length vs)))) (put_all (map FieldValue_encode vs))
      = put_spec b (be32 (of_nat (length vs)) @ ?s)" if "buf_wf b" for b using that by (intro put_spec_bind)
  ultimately show ?case
    using 5(3) by (simp add: put_ops_spec Let_def put_spec_bind del: Data_encodedSize.simps)
next
  case (6 t vs)
  let ?s = "concat (map (\<lambda>v. enc_data (fv_data v)) vs)"
  have "Data_encodedSize (ArrayData t vs) - 4 = of_nat (5 + length ?s)"
    using encodedSize_length(1) [OF 6(2)] by (simp add: Let_def)
  moreover have "put_all (map (\<lambda>v. Data_encode (fv_data v)) vs) b = put_spec b ?s" if "buf_wf b" for b
    using 6 that by (intro put_all_spec) (auto simp: list_all_iff)
  then have "res_bind (put_spec b (be32 (of_nat (length vs)))) (put_all (map (\<lambda>v. Data_encode (fv_data v)) vs))
      = put_spec b (be32 (of_nat (length vs)) @ ?s)" if "buf_wf b" for b using that by (intro put_spec_bind)
  ultimately show ?case
    using 6(3) by (simp add: put_ops_spec Let_def put_spec_bind del: Data_encodedSize.simps)
next
  case (7 t d)
  then show ?case using put_spec_bind [OF 7(3), of "Data_encode d" "enc_data d" "[t]"] by (simp add: put_ops_spec)
next
  case (8 es bs n new)
  show ?case
  proof (cases bs)
    case None
    let ?g = "\<lambda>(k, v). of_nat (length k) # k @ enc_value v"
    let ?s = "concat (map ?g es)" and ?f = "\<lambda>(k, v) b. res_bind (putShortString b k) (\<lambda>b. FieldValue_encode v b)"
    have "table_size (FieldTable es bs n new) - 4 = of_nat (4 + length ?s)"
      using encodedSize_length(3) [OF 8(2)] None by (simp add: Let_def)
    moreover have "?f e b = put_spec b (?g e)" if e: "e \<in> set es" and b: "buf_wf b" for e b
    proof -
      obtain k v where kv: "e = (k, v)" by fastforce
      then have "length k < 2 ^ 8" "\<And>b. buf_wf b \<Longrightarrow> FieldValue_encode v b = put_spec b (enc_value v)"
        using 8 None e by (auto simp: list_all_iff)
      then show ?thesis using put_spec_bind [OF b, of "FieldValue_encode v" "enc_value v" "of_nat (length k) # k"] b kv
        by (simp add: put_ops_spec)
    qed
    then have "put_all (map ?f es) b = put_spec b ?s" if "buf_wf b" for b using that by (intro put_all_spec)
    then have "res_bind (put_spec b (be32 (of_nat (length es)))) (put_all (map ?f es))
        = put_spec b (be32 (of_nat (length es)) @ ?s)" if "buf_wf b" for b using that by (intro put_spec_bind)
    ultimately show ?thesis
      using 8(3) None by (simp add: put_ops_spec Let_def put_spec_bind del: table_size.simps)
  next
    case (Some xs)
    then show ?thesis using 8 unat_len32 [of "length xs"] by (simp add: put_ops_spec raw_ok_def)
  qed
qed (auto simp: put_ops_spec)

section \<open>Decoding the encoding\<close>

definition gets :: "(Buffer \<Rightarrow> ('v \<times> Buffer) result) \<Rightarrow> 'v \<Rightarrow> byte list \<Rightarrow> bool" where
  "gets g v s \<longleftrightarrow> (\<forall>b xs. buf_wf b \<longrightarrow> buf_rest b = s @ xs \<longrightarrow> g b = Inr (v, advance b (length s)))"

lemma getsI: "(\<And>b xs. buf_wf b \<Longrightarrow> buf_rest b = s @ xs \<Longrightarrow> g b = Inr (v, advance b (length s))) \<Longrightarrow> gets g v s"
  by (simp add: gets_def)

lemma getsD: "gets g v s \<Longrightarrow> buf_wf b \<Longrightarrow> buf_rest b = s @ xs \<Longrightarrow> g b = Inr (v, advance b (length s))"
  by (simp add: gets_def)

lemma gets_pure: "gets (\<lambda>b. Inr (v, b)) v []"
  by (simp add: gets_def)

lemma rest_advance:
  assumes "buf_wf b" "buf_rest b = s @ xs"
  shows "buf_wf (advance b (length s))" "buf_rest (advance b (length s)) = xs" "available b = length s + length xs"
  using assms length_buf_rest [of b] by simp_all

lemma gets_bind:
  assumes "gets g u s" "gets (h u) v s'"
  shows "gets (\<lambda>b. res_bind (g b) (\<lambda>(u, b). h u b)) v (s @ s')"
proof (rule getsI)
  fix b xs
  assume b: "buf_wf b" "buf_rest b = (s @ s') @ xs"
  then have r: "buf_rest b = s @ (s' @ xs)" by simp
  show "res_bind (g b) (\<lambda>(u, b). h u b) = Inr (v, advance b (length (s @ s')))"
    using getsD [OF assms(1) b(1) r] getsD [OF assms(2) rest_advance(1,2) [OF b(1) r]] by simp
qed

lemma gets_map: "gets g u s \<Longrightarrow> gets (\<lambda>b. res_bind (g b) (\<lambda>(u, b). Inr (f u, b))) (f u) s"
  using gets_bind [OF _ gets_pure, of g u s f] by simp

text \<open>A check on the bytes available that passes.\<close>

lemma gets_throw:
  assumes "gets g v s" "\<And>n. length s \<le> n \<Longrightarrow> \<not> c n"
  shows "gets (\<lambda>b. throw_if (c (available b)) e (g b)) v s"
  using assms rest_advance(3) unfolding gets_def throw_if_def by (metis le_add1)

lemma gets_n:
  assumes "\<And>x. x \<in> set xs \<Longrightarrow> gets g (f x) (h x)"
  shows "gets (get_n (length xs) g) (map f xs) (concat (map h xs))"
  using assms
proof (induction xs)
  case (Cons x xs)
  have "gets (get_n (Suc (length xs)) g) (f x # map f xs) (h x @ concat (map h xs))"
    unfolding get_n.simps [abs_def] using Cons by (intro gets_bind [where g = g and u = "f x"] gets_map) simp_all
  then show ?case by (simp del: get_n.simps)
next
  case Nil
  have "get_n 0 g = (\<lambda>b. Inr ([], b))" by (simp add: fun_eq_iff)
  then show ?case using gets_pure [of "[]"] by simp
qed

lemma gets_ops: "gets getOctet i [i]" "gets getLong j (be32 j)" "gets (\<lambda>b. getRawData b (length s)) s s"
proof -
  show "gets getOctet i [i]" using octet.get_law [of _ i] by (intro getsI) simp
  show "gets getLong j (be32 j)" using long.get_law [of _ j] by (intro getsI) simp
  show "gets (\<lambda>b. getRawData b (length s)) s s"
    using rest_advance(3) by (intro getsI) (simp add: getRawData_def get_bytes_conv)
qed

lemma gets_getUInt:
  assumes "data_ok (VariableWidthValue w os)"
  shows "gets (getUInt w) (of_nat (length os)) (be_len w (length os))"
proof -
  have short: "gets getShort i (be16 i)" for i using short.get_law [of _ i] by (intro getsI) simp
  consider "w = 1" "length os < 2 ^ 8" | "w = 2" "length os < 2 ^ 16" | "w = 4" "length os < 2 ^ 32" using assms by auto
  then show ?thesis
  proof cases
    case 1
    then show ?thesis using gets_map [OF gets_ops(1) [of "of_nat (length os)"], of "ucast :: 8 word \<Rightarrow> 64 word"]
      by (simp add: getUInt_def [abs_def] be_len_def unsigned_of_nat take_bit_nat_eq_self)
  next
    case 2
    then show ?thesis using gets_map [OF short [of "of_nat (length os)"], of "ucast :: 16 word \<Rightarrow> 64 word"]
      by (simp add: getUInt_def [abs_def] be_len_def unsigned_of_nat take_bit_nat_eq_self)
  next
    case 3
    then show ?thesis using gets_map [OF gets_ops(2) [of "of_nat (length os)"], of "ucast :: 32 word \<Rightarrow> 64 word"]
      by (simp add: getUInt_def [abs_def] be_len_def unsigned_of_nat take_bit_nat_eq_self)
  qed
qed

lemma gets_table:
  assumes "raw_ok xs"
  shows "gets table_decode (raw_table xs) xs"
proof (rule getsI)
  fix b ys
  assume b: "buf_wf b" "buf_rest b = xs @ ys"
  let ?len = "of_nat (length xs - 4) :: 32 word"
  have x: "xs = be32 ?len @ drop 4 xs" using assms by (metis append_take_drop_id raw_ok_def)
  then have r: "buf_rest b = be32 ?len @ (drop 4 xs @ ys)" using b(2) by (metis append.assoc)
  have l: "4 \<le> length xs" "length xs < 2 ^ 32" "length xs = 4 \<or> 8 \<le> length xs" using assms by (simp_all add: raw_ok_def)
  have u: "unat ?len = length xs - 4" "?len + 4 = of_nat (length xs)" using l unat_len32 [of "length xs - 4"] by (simp_all add: of_nat_diff)
  have "getLong b = Inr (?len, advance b 4)" using getsD [OF gets_ops(2) b(1) r] by simp
  moreover have "available b = length xs + length ys" "available (advance b 4) = length xs + length ys - 4"
    using rest_advance [OF b(1) r] rest_advance(3) [OF b] l b by simp_all
  moreover have "?len = 0 \<longleftrightarrow> length xs = 4" using u(1) l by (metis diff_is_0_eq le_antisym unat_eq_zero)
  moreover have "getRawData b (length xs) = Inr (xs, advance b (length xs))" using getsD [OF gets_ops(3) b] .
  ultimately show "table_decode b = Inr (raw_table xs, advance b (length xs))"
    using l u unat_len32 [of "length xs"] by (auto simp: table_decode_def setPosition_advance raw_table_def throw_if_def)
qed

lemma table_ok_raw: "table_ok t \<Longrightarrow> raw_ok (enc_table t)"
  by (cases t) (auto simp: raw_ok_def Let_def split: option.splits)

lemma gets_eq: "gets g v s \<Longrightarrow> (\<And>b. g' b = g b) \<Longrightarrow> gets g' v s"
  by (simp add: gets_def)

lemma List_decode_gets:
  assumes "\<And>v. v \<in> set vs \<Longrightarrow> gets (value_decode_with dd) (wire_value v) (enc_value v)" "data_ok (ListData vs)"
  shows "gets (List_decode dd) (wire_data (ListData vs)) (enc_data (ListData vs))"
proof -
  let ?s = "concat (map enc_value vs)"
  let ?sz = "of_nat (4 + length ?s) :: 32 word" and ?n = "of_nat (length vs) :: 32 word"
  have sl: "8 + length ?s < 2 ^ 32" using assms(2) by (simp add: Let_def)
  have v: "1 \<le> length (enc_value v)" for v by (cases v) simp
  have "length vs \<le> length ?s"
  proof (induction vs)
    case (Cons v vs)
    then show ?case using v [of v] by simp
  qed simp
  then have n: "unat ?n = length vs" "unat ?sz = 4 + length ?s" using sl by (simp_all add: unat_len32 del: of_nat_add)
  then have nz: "?sz \<noteq> 0" by auto
  have "gets (\<lambda>b. res_bind (get_n (unat ?n) (value_decode_with dd) b) (\<lambda>(vs, b). Inr (ListData vs, b)))
      (ListData (map wire_value vs)) ?s" unfolding n by (intro gets_map gets_n assms(1))
  then have "gets (\<lambda>b. res_bind (getLong b) (\<lambda>(count, b).
      res_bind (get_n (unat count) (value_decode_with dd) b) (\<lambda>(vs, b). Inr (ListData vs, b))))
      (ListData (map wire_value vs)) (be32 ?n @ ?s)" by (intro gets_bind [OF gets_ops(2)])
  then have "gets (\<lambda>b. throw_if (available b < unat ?sz) IllegalArgumentException (throw_if (available b < 4) IllegalArgumentException
      (res_bind (getLong b) (\<lambda>(count, b).
        res_bind (get_n (unat count) (value_decode_with dd) b) (\<lambda>(vs, b). Inr (ListData vs, b))))))
      (ListData (map wire_value vs)) (be32 ?n @ ?s)"
    using n(2) by (intro gets_throw [where c = "\<lambda>a. a < unat ?sz"] gets_throw [where c = "\<lambda>a. a < 4"]) auto
  then have "gets (List_decode dd) (ListData (map wire_value vs)) (be32 ?sz @ (be32 ?n @ ?s))"
    unfolding List_decode_def [abs_def] using nz
    by (intro gets_throw [where c = "\<lambda>a. a < 4"] gets_bind [OF gets_ops(2) [of ?sz]]) simp_all
  then show ?thesis by (simp add: Let_def)
qed

lemma Array_decode_gets:
  assumes "\<And>v. v \<in> set vs \<Longrightarrow> gets (dd d0) (wire_data (fv_data v)) (enc_data (fv_data v))" "data_ok (ArrayData t vs)" "setType t = Inr d0"
  shows "gets (Array_decode dd t0) (wire_data (ArrayData t vs)) (enc_data (ArrayData t vs))"
proof -
  let ?s = "concat (map (\<lambda>v. enc_data (fv_data v)) vs)"
  let ?sz = "of_nat (5 + length ?s) :: 32 word" and ?n = "of_nat (length vs) :: 32 word"
  let ?w = "ArrayData t (map (\<lambda>v. FieldValue t (wire_data (fv_data v))) vs)"
  have sl: "9 + length ?s < 2 ^ 32" using assms(2) by (simp add: Let_def)
  have a: "length vs < 2 ^ 32" "\<And>v. v \<in> set vs \<Longrightarrow> unat (Data_encodedSize d0) \<le> length (enc_data (fv_data v))"
    "Data_encodedSize d0 = 0 \<Longrightarrow> length vs \<le> 256" using assms(2,3) by (auto simp: array_ok_def)
  have n: "unat ?n = length vs" "unat ?sz = 5 + length ?s" using sl a(1) by (simp_all add: unat_len32 del: of_nat_add)
  then have nz: "?sz \<noteq> 0" by auto
  have "length vs * unat (Data_encodedSize d0) \<le> length ?s"
    using a(2) by (induction vs) (auto simp: add_mono)
  then have e: "unat (?n * Data_encodedSize d0) \<le> length ?s"
    using n(1) by (simp add: unat_word_ariths)
  have c: "\<not> (Data_encodedSize d0 = 0 \<and> 256 < ?n)" using a(3) n(1) by (auto simp: word_less_nat_alt)
  have "gets (\<lambda>b. res_bind (get_n (unat ?n) (\<lambda>b. res_bind (dd d0 b) (\<lambda>(d, b). Inr (FieldValue t d, b))) b)
      (\<lambda>(vs, b). Inr (ArrayData t vs, b))) ?w ?s" unfolding n by (intro gets_map gets_n assms(1))
  then have "gets (\<lambda>b. throw_if (available b < unat (?n * Data_encodedSize d0)) IllegalArgumentException
      (throw_if (Data_encodedSize d0 = 0 \<and> 256 < ?n) IllegalArgumentException
        (res_bind (get_n (unat ?n) (\<lambda>b. res_bind (dd d0 b) (\<lambda>(d, b). Inr (FieldValue t d, b))) b)
          (\<lambda>(vs, b). Inr (ArrayData t vs, b))))) ?w ?s"
    using e c by (intro gets_throw [where c = "\<lambda>a. a < unat (?n * Data_encodedSize d0)"]) (auto simp: throw_if_def)
  then have "gets (\<lambda>b. res_bind (getOctet b) (\<lambda>(t, b). res_bind (getLong b) (\<lambda>(count, b). res_bind (setType t) (\<lambda>dummy.
        let elementSize = Data_encodedSize dummy in
        throw_if (available b < unat (count * elementSize)) IllegalArgumentException
          (throw_if (elementSize = 0 \<and> 256 < count) IllegalArgumentException
            (res_bind (get_n (unat count) (\<lambda>b. res_bind (dd dummy b) (\<lambda>(d, b). Inr (FieldValue t d, b))) b)
              (\<lambda>(vs, b). Inr (ArrayData t vs, b)))))))) ?w ([t] @ (be32 ?n @ ?s))"
    using assms(3) by (intro gets_bind [OF gets_ops(1)] gets_bind [OF gets_ops(2)]) (simp add: Let_def)
  then have "gets (Array_decode dd t0) ?w (be32 ?sz @ ([t] @ (be32 ?n @ ?s)))"
    unfolding Array_decode_def [abs_def] using nz n(2)
    by (intro gets_bind [OF gets_ops(2) [of ?sz]] gets_throw [where c = "\<lambda>a. a < unat ?sz"]) simp_all
  then show ?thesis by (simp add: Let_def)
qed

lemma setType_blank: "setType t = Inr (FixedWidthValue n os) \<Longrightarrow> length os = n"
  by (auto simp: setType_def Let_def split: if_splits)

lemma concat_length_le: "x \<in> set xs \<Longrightarrow> length (f x) \<le> length (concat (map f xs))"
  by (induction xs) (auto simp: trans_le_add2)

lemma typedD: "typed t d \<Longrightarrow> \<exists>d0. setType t = Inr d0 \<and> same_class d0 d"
  by (auto simp: typed_def split: sum.splits)

lemma decode_spec:
  "data_ok d \<Longrightarrow> setType ty = Inr d0 \<Longrightarrow> same_class d0 d \<Longrightarrow> length (enc_data d) < fuel \<Longrightarrow>
     gets (Data_decode fuel d0) (wire_data d) (enc_data d)"
  "value_ok v \<Longrightarrow> length (enc_value v) \<le> fuel \<Longrightarrow> gets (value_decode_with (Data_decode fuel)) (wire_value v) (enc_value v)"
  "table_ok t \<Longrightarrow> True"
proof (induction d and v and t arbitrary: ty d0 fuel and fuel and rule: enc_data_enc_value_enc_table.induct)
  case (1 n os)
  then obtain f os0 where f: "fuel = Suc f" "d0 = FixedWidthValue n os0" by (cases fuel; cases d0) auto
  show ?case
  proof (cases "n = 0")
    case True
    then show ?thesis using 1 f setType_blank [of ty n os0] gets_pure [of "FixedWidthValue 0 []"] by (auto intro: gets_eq)
  next
    case False
    then show ?thesis using gets_map [OF gets_ops(3) [of os], of "FixedWidthValue n"] 1 f by (auto intro: gets_eq)
  qed
next
  case (2 os)
  then obtain f os0 where "fuel = Suc f" "d0 = UuidData os0" by (cases fuel; cases d0) auto
  then show ?case using gets_map [OF gets_ops(3) [of os], of UuidData] 2 by (auto intro: gets_eq)
next
  case (3 w os)
  then obtain f os0 where f: "fuel = Suc f" "d0 = VariableWidthValue w os0" by (cases fuel; cases d0) auto
  have l: "ucast (of_nat (length os) :: 64 word) = (of_nat (length os) :: 32 word)" "length os < 2 ^ 32"
    using 3(1) by (auto simp: unsigned_of_nat take_bit_nat_eq_self)
  then have z: "(of_nat (length os) :: 32 word) = 0 \<longleftrightarrow> os = []" using unat_len32 [of "length os"] by (auto simp: unat_eq_zero [symmetric])
  have "gets (\<lambda>b. let len = ucast (of_nat (length os) :: 64 word) :: 32 word in
       checkAvailable b (unat len)
         (if 0 < len then res_bind (getRawData b (unat len)) (\<lambda>(os, b). Inr (VariableWidthValue w os, b))
          else Inr (VariableWidthValue w [], b))) (VariableWidthValue w os) os"
  proof (cases "os = []")
    case True
    then show ?thesis using gets_pure [of "VariableWidthValue w []"] by simp
  next
    case False
    have "gets (\<lambda>b. throw_if (available b < length os) OutOfBounds (res_bind (getRawData b (length os)) (\<lambda>(os, b). Inr (VariableWidthValue w os, b))))
        (VariableWidthValue w os) os"
      by (intro gets_throw [where c = "\<lambda>a. a < length os"] gets_map gets_ops(3)) auto
    then show ?thesis using False l z unat_len32 [of "length os"]
      by (simp add: checkAvailable_def Let_def word_gt_0)
  qed
  then have "gets (\<lambda>b. res_bind (getUInt w b) (\<lambda>(len64, b). let len = ucast len64 :: 32 word in
       checkAvailable b (unat len)
         (if 0 < len then res_bind (getRawData b (unat len)) (\<lambda>(os, b). Inr (VariableWidthValue w os, b))
          else Inr (VariableWidthValue w [], b)))) (VariableWidthValue w os) (be_len w (length os) @ os)"
    using 3(1) by (intro gets_bind [OF gets_getUInt])
  then show ?case using f by (auto intro: gets_eq)
next
  case (4 t)
  then obtain f t0 where "fuel = Suc f" "d0 = TableData t0" by (cases fuel; cases d0) auto
  then show ?case using gets_map [OF gets_table [OF table_ok_raw], of t TableData] 4 by (auto intro: gets_eq)
next
  case (5 vs)
  then obtain f vs0 where f: "fuel = Suc f" "d0 = ListData vs0" by (cases fuel; cases d0) auto
  have "gets (value_decode_with (Data_decode f)) (wire_value v) (enc_value v)" if v: "v \<in> set vs" for v
  proof -
    have "length (enc_value v) \<le> length (concat (map enc_value vs))" using v by (rule concat_length_le)
    then show ?thesis using 5 v f by (auto simp: list_all_iff Let_def)
  qed
  then show ?case using f List_decode_gets 5(2) by (auto intro: gets_eq simp del: data_ok.simps enc_data.simps wire_data.simps)
next
  case (6 t vs)
  then obtain f t0 vs0 where f: "fuel = Suc f" "d0 = ArrayData t0 vs0" by (cases fuel; cases d0) auto
  obtain d1 where d1: "setType t = Inr d1" using 6(2) by (auto simp: array_ok_def split: sum.splits)
  have "gets (Data_decode f d1) (wire_data (fv_data v)) (enc_data (fv_data v))" if v: "v \<in> set vs" for v
  proof -
    have "length (enc_data (fv_data v)) \<le> length (concat (map (\<lambda>v. enc_data (fv_data v)) vs))" using v by (rule concat_length_le)
    moreover have "same_class d1 (fv_data v)" using 6(2) v d1 by (auto simp: list_all_iff typed_def)
    ultimately show ?thesis using 6(1) [OF v _ d1] 6(2,5) v f by (auto simp: list_all_iff Let_def)
  qed
  then show ?case using f Array_decode_gets [OF _ 6(2) d1] by (auto intro: gets_eq simp del: data_ok.simps enc_data.simps wire_data.simps)
next
  case (7 t d)
  then obtain d1 where d1: "setType t = Inr d1" "same_class d1 d" using typedD [of t d] by auto
  have "gets (\<lambda>b. res_bind (setType t) (\<lambda>d. res_bind (Data_decode fuel d b) (\<lambda>(d, b). Inr (FieldValue t d, b)))) (FieldValue t (wire_data d)) (enc_data d)"
    using d1 7 by (auto intro!: gets_map)
  then show ?case unfolding value_decode_with_def [abs_def] using gets_bind [OF gets_ops(1)] by fastforce
qed simp_all

lemma FieldValue_decode_gets:
  "value_ok v \<Longrightarrow> length (enc_value v) \<le> fuel \<Longrightarrow> gets (FieldValue_decode fuel) (wire_value v) (enc_value v)"
  using decode_spec(2) [of v fuel] by (auto intro: gets_eq simp: FieldValue_decode_def)

text \<open>Values in the form in which they arrive are encoded as they were.\<close>

lemma wire_enc: "data_ok d \<Longrightarrow> enc_data (wire_data d) = enc_data d" "value_ok v \<Longrightarrow> enc_value (wire_value v) = enc_value v"
proof (induction d and v rule: wire_data_wire_value.induct)
  case (5 vs)
  then have "map enc_value (map wire_value vs) = map enc_value vs" by (auto simp: list_all_iff)
  then show ?case unfolding wire_data.simps enc_data.simps by (simp only: length_map)
next
  case (6 t vs)
  then have "map (\<lambda>v. enc_data (fv_data v)) (map (\<lambda>v. FieldValue t (wire_data (fv_data v))) vs) = map (\<lambda>v. enc_data (fv_data v)) vs"
    by (auto simp: list_all_iff)
  then show ?case unfolding wire_data.simps enc_data.simps by (simp only: length_map)
qed (simp_all add: raw_table_def)

interpretation field_value: wire_codec enc_value "\<lambda>b v. FieldValue_encode v b" "FieldValue_decode fuel"
    "\<lambda>v. value_ok v \<and> length (enc_value v) \<le> fuel \<and> wire_value v = v" for fuel
proof (unfold_locales, goal_cases)
  case (1 b v)
  then show ?case using encode_spec(2) [of v b] by (simp add: put_spec_def)
next
  case (2 b v xs)
  then show ?case using getsD [OF FieldValue_decode_gets [of v fuel]] by auto
qed

text \<open>
  C39. A field value survives the wire: the bytes that \<open>encode\<close> writes are as many as \<open>encodedSize\<close> says, they decode to
  the same value, with the tables in it in their encoded form, and that value is encoded as the same bytes again.
\<close>

theorem FieldValue_round_trip:
  assumes "value_ok v" "buf_wf b" "length (enc_value v) \<le> available b" "length (enc_value v) \<le> fuel" "length (enc_value v) < 2 ^ 32"
  shows "\<exists>b'. FieldValue_encode v b = Inr b' \<and> available b' = available b - unat (FieldValue_encodedSize v)
    \<and> FieldValue_decode fuel (setPosition b' (buf_position b)) = Inr (wire_value v, b')
    \<and> enc_value (wire_value v) = enc_value v"
proof -
  have e: "FieldValue_encode v b = Inr (put_bytes b (enc_value v))" using encode_spec(2) [of v b] assms by (simp add: put_spec_def)
  moreover have "unat (FieldValue_encodedSize v) = length (enc_value v)"
    using encodedSize_length(2) [OF assms(1)] assms(5) by (simp add: unat_len32)
  moreover note setPosition_put_bytes [OF assms(2,3)] getsD [OF FieldValue_decode_gets [OF assms(1,4)]]
  ultimately show ?thesis using assms wire_enc(2) by simp
qed

theorem FieldValue_round_trip_witness:
  "let v = FieldValue 0xA9 (ListData [FieldValue 0x95 (VariableWidthValue 2 [104, 105]), FieldValue 0xAA (ArrayData 0x01 [FieldValue 0x01 (FixedWidthValue 1 [7])])]);
       b = Buffer_init (replicate 40 0) 40
   in \<exists>b'. FieldValue_encode v b = Inr b' \<and> FieldValue_decode 40 (setPosition b' 0) = Inr (v, b')"
proof -
  let ?v = "FieldValue 0xA9 (ListData [FieldValue 0x95 (VariableWidthValue 2 [104, 105]), FieldValue 0xAA (ArrayData 0x01 [FieldValue 0x01 (FixedWidthValue 1 [7])])])"
  let ?b = "Buffer_init (replicate 40 0) 40"
  have "value_ok ?v" by (simp add: typed_def setType_def array_ok_def drop_bit_eq_div be_len_def Let_def)
  moreover have "length (enc_value ?v) \<le> 40" "wire_value ?v = ?v" by (simp_all add: be_len_def Let_def)
  moreover have "buf_wf ?b" "available ?b = 40" "buf_position ?b = 0" by (simp_all add: Buffer_init_def buf_wf_def available_def)
  ultimately show ?thesis using FieldValue_round_trip [of ?v ?b 40] by auto
qed

end
