(* ===== verification/Field_Table.thy ===== *)
theory Field_Table
  imports Field_Value
begin

text \<open>
  The field table as its clients use it (\<open>src/qpid/framing/FieldTable.cpp\<close>, the constructors and accessors of
  \<open>FieldValue.cpp\<close> and \<open>FieldValue.h\<close>): a map from names to values that is decoded on the first access and keeps
  the bytes it came from until it is changed. The fuel of the decoder is the number of those bytes. Where the code
  throws in the middle of \<open>realDecode\<close>, the values read so far stay in the table though its bytes still count as new;
  here the exception is the whole result. The memo of \<open>encodedSize\<close> in the tables nested in a value is left out.
\<close>

section \<open>Making values\<close>

text \<open>\<open>FixedWidthValue(uint64_t)\<close>: the low octets of a number, the most significant first.\<close>

fun low_octets :: "nat \<Rightarrow> 64 word \<Rightarrow> byte list" where
  "low_octets 0 v = []"
| "low_octets (Suc n) v = low_octets n (drop_bit 8 v) @ [ucast v]"

definition fixed_value :: "byte \<Rightarrow> nat \<Rightarrow> 64 word \<Rightarrow> FieldValue" where
  "fixed_value t n v = FieldValue t (FixedWidthValue n (low_octets n v))"

definition Str8Value :: "byte list \<Rightarrow> FieldValue" where "Str8Value s = FieldValue 0x85 (VariableWidthValue 1 s)"
definition Str16Value :: "byte list \<Rightarrow> FieldValue" where "Str16Value s = FieldValue 0x95 (VariableWidthValue 2 s)"
definition Var16Value :: "byte list \<Rightarrow> byte \<Rightarrow> FieldValue" where "Var16Value s code = FieldValue code (VariableWidthValue 2 s)"
definition Var32Value :: "byte list \<Rightarrow> byte \<Rightarrow> FieldValue" where "Var32Value s code = FieldValue code (VariableWidthValue 4 s)"
definition Struct32Value :: "byte list \<Rightarrow> FieldValue" where "Struct32Value s = FieldValue 0xAB (VariableWidthValue 4 s)"
definition IntegerValue :: "int \<Rightarrow> FieldValue" where "IntegerValue i = fixed_value 0x21 4 (word_of_int i)"
definition Integer64Value :: "int \<Rightarrow> FieldValue" where "Integer64Value i = fixed_value 0x31 8 (word_of_int i)"
definition Unsigned64Value :: "64 word \<Rightarrow> FieldValue" where "Unsigned64Value v = fixed_value 0x32 8 v"
definition TimeValue :: "64 word \<Rightarrow> FieldValue" where "TimeValue v = fixed_value 0x38 8 v"
definition FieldTableValue :: "FieldTable \<Rightarrow> FieldValue" where "FieldTableValue t = FieldValue 0xA8 (TableData t)"
definition ListValue :: "FieldValue list \<Rightarrow> FieldValue" where "ListValue vs = FieldValue 0xA9 (ListData vs)"
definition ArrayValue :: "byte \<Rightarrow> FieldValue list \<Rightarrow> FieldValue" where "ArrayValue t vs = FieldValue 0xAA (ArrayData t vs)"
definition VoidValue :: FieldValue where "VoidValue = FieldValue 0xF0 (FixedWidthValue 0 [])"
definition BoolValue :: "bool \<Rightarrow> FieldValue" where "BoolValue c = fixed_value 0x08 1 (if c then 1 else 0)"
definition Unsigned8Value :: "8 word \<Rightarrow> FieldValue" where "Unsigned8Value v = fixed_value 0x02 1 (ucast v)"
definition Unsigned16Value :: "16 word \<Rightarrow> FieldValue" where "Unsigned16Value v = fixed_value 0x12 2 (ucast v)"
definition Unsigned32Value :: "32 word \<Rightarrow> FieldValue" where "Unsigned32Value v = fixed_value 0x22 4 (ucast v)"
definition Integer8Value :: "int \<Rightarrow> FieldValue" where "Integer8Value i = fixed_value 0x01 1 (word_of_int i)"
definition Integer16Value :: "int \<Rightarrow> FieldValue" where "Integer16Value i = fixed_value 0x11 2 (word_of_int i)"
definition UuidValue :: "byte list \<Rightarrow> FieldValue" where "UuidValue s = FieldValue 0x48 (UuidData s)"

text \<open>
  Floating point numbers are given by their bits. The constructor puts the octets of the machine into network order.
\<close>

definition FloatValue :: "32 word \<Rightarrow> FieldValue" where "FloatValue f = FieldValue 0x23 (FixedWidthValue 4 (be32 f))"
definition DoubleValue :: "64 word \<Rightarrow> FieldValue" where "DoubleValue f = FieldValue 0x33 (FixedWidthValue 8 (be64 f))"

section \<open>Reading values\<close>

fun convertsToInt :: "Data \<Rightarrow> bool" where
  "convertsToInt (FixedWidthValue n os) \<longleftrightarrow> n \<noteq> 0"
| "convertsToInt (UuidData os) \<longleftrightarrow> True"
| "convertsToInt d \<longleftrightarrow> False"

fun convertsToString :: "Data \<Rightarrow> bool" where
  "convertsToString (VariableWidthValue w os) \<longleftrightarrow> True"
| "convertsToString (UuidData os) \<longleftrightarrow> True"
| "convertsToString d \<longleftrightarrow> False"

text \<open>\<open>getInt\<close> shifts the octets into a signed 64 bit number, given here by its bits.\<close>

definition join_octets :: "byte list \<Rightarrow> 64 word" where
  "join_octets os = foldl (\<lambda>v c. push_bit 8 v OR ucast c) 0 os"

fun getInt :: "Data \<Rightarrow> 64 word result" where
  "getInt (FixedWidthValue n os) = (if n = 0 then Inl InvalidConversionException else Inr (join_octets os))"
| "getInt (UuidData os) = Inr (join_octets os)"
| "getInt d = Inl InvalidConversionException"

text \<open>The text of a UUID is made by a library function, an argument here.\<close>

fun getString :: "(byte list \<Rightarrow> byte list) \<Rightarrow> Data \<Rightarrow> byte list result" where
  "getString uuid_str (VariableWidthValue w os) = Inr os"
| "getString uuid_str (UuidData os) = Inr (uuid_str os)"
| "getString uuid_str d = Inl InvalidConversionException"

definition getIntegerValue :: "nat \<Rightarrow> FieldValue \<Rightarrow> 64 word result" where
  "getIntegerValue w v =
     (case fv_data v of
        FixedWidthValue n os \<Rightarrow> if n = w then Inr (join_octets os) else Inl InvalidConversionException
      | UuidData os \<Rightarrow> if w = 16 then Inr (join_octets os) else Inl InvalidConversionException
      | _ \<Rightarrow> Inl InvalidConversionException)"

text \<open>
  \<open>getFloatingPointValue\<close> swaps the octets of the value itself where the machine is little endian, and reads them
  then: the bits, and the value afterwards.
\<close>

definition convertIfRequired :: "bool \<Rightarrow> byte list \<Rightarrow> byte list" where
  "convertIfRequired little os = (if little then rev os else os)"

definition native_bits :: "bool \<Rightarrow> byte list \<Rightarrow> 64 word" where
  "native_bits little os = join_octets (if little then rev os else os)"

definition getFloatingPointValue :: "bool \<Rightarrow> nat \<Rightarrow> FieldValue \<Rightarrow> (64 word \<times> FieldValue) result" where
  "getFloatingPointValue little w v =
     (case fv_data v of
        FixedWidthValue n os \<Rightarrow>
          if n = w then let os' = convertIfRequired little os in Inr (native_bits little os', FieldValue (typeOctet v) (FixedWidthValue n os'))
          else Inl InvalidConversionException
      | _ \<Rightarrow> Inl InvalidConversionException)"

section \<open>The lazy table\<close>

fun set_values :: "(byte list \<times> FieldValue) list \<Rightarrow> FieldTable \<Rightarrow> FieldTable" where
  "set_values es' (FieldTable es bs n new) = FieldTable es' bs n new"

text \<open>The loop of \<open>realDecode\<close>: \<open>count\<close> entries, or fewer if the bytes of the table end before.\<close>

fun realDecode_loop :: "nat \<Rightarrow> nat \<Rightarrow> 32 word \<Rightarrow> Buffer \<Rightarrow> (byte list \<times> FieldValue) list \<Rightarrow> (byte list \<times> FieldValue) list result" where
  "realDecode_loop fuel 0 leftover b es = Inr es"
| "realDecode_loop fuel (Suc count) leftover b es =
     (if unat leftover < available b
      then res_bind (getShortString b) (\<lambda>(name, b).
        res_bind (FieldValue_decode fuel b) (\<lambda>(v, b). realDecode_loop fuel count leftover b (map_put name v es)))
      else Inr es)"

definition realDecode :: "FieldTable \<Rightarrow> FieldTable result" where
  "realDecode t =
     (if \<not> newBytes t then Inr t
      else case cachedBytes t of
        None \<Rightarrow> Inl UndefinedBehaviour
      | Some bs \<Rightarrow>
          let done = (\<lambda>es. FieldTable es (cachedBytes t) (cachedSize t) False) in
          res_bind (getLong (Buffer_init bs (cachedSize t))) (\<lambda>(len, b).
            if len \<noteq> 0
            then let avail = of_nat (available b) in
              res_bind (getLong b) (\<lambda>(count, b).
                res_bind (realDecode_loop (length bs) (unat count) (avail - len) b (ft_values t)) (\<lambda>es. Inr (done es)))
            else Inr (done (ft_values t))))"

definition flushRawCache :: "FieldTable \<Rightarrow> FieldTable result" where
  "flushRawCache t = throw_if (newBytes t) AssertionFailed (Inr (FieldTable (ft_values t) None 0 (newBytes t)))"

definition FieldTable_set :: "byte list \<Rightarrow> FieldValue \<Rightarrow> FieldTable \<Rightarrow> FieldTable result" where
  "FieldTable_set name v t = res_bind (realDecode t) (\<lambda>t. flushRawCache (set_values (map_put name v (ft_values t)) t))"

definition setString :: "byte list \<Rightarrow> byte list \<Rightarrow> FieldTable \<Rightarrow> FieldTable result" where
  "setString name s = FieldTable_set name (Str16Value s)"
definition setInt :: "byte list \<Rightarrow> int \<Rightarrow> FieldTable \<Rightarrow> FieldTable result" where
  "setInt name i = FieldTable_set name (IntegerValue i)"
definition setInt64 :: "byte list \<Rightarrow> int \<Rightarrow> FieldTable \<Rightarrow> FieldTable result" where
  "setInt64 name i = FieldTable_set name (Integer64Value i)"
definition setTimestamp :: "byte list \<Rightarrow> 64 word \<Rightarrow> FieldTable \<Rightarrow> FieldTable result" where
  "setTimestamp name v = FieldTable_set name (TimeValue v)"
definition setUInt64 :: "byte list \<Rightarrow> 64 word \<Rightarrow> FieldTable \<Rightarrow> FieldTable result" where
  "setUInt64 name v = FieldTable_set name (Unsigned64Value v)"
definition setTable :: "byte list \<Rightarrow> FieldTable \<Rightarrow> FieldTable \<Rightarrow> FieldTable result" where
  "setTable name v = FieldTable_set name (FieldTableValue v)"
definition setArray :: "byte list \<Rightarrow> byte \<Rightarrow> FieldValue list \<Rightarrow> FieldTable \<Rightarrow> FieldTable result" where
  "setArray name t vs = FieldTable_set name (ArrayValue t vs)"
definition setFloat :: "byte list \<Rightarrow> 32 word \<Rightarrow> FieldTable \<Rightarrow> FieldTable result" where
  "setFloat name f = FieldTable_set name (FloatValue f)"
definition setDouble :: "byte list \<Rightarrow> 64 word \<Rightarrow> FieldTable \<Rightarrow> FieldTable result" where
  "setDouble name f = FieldTable_set name (DoubleValue f)"

text \<open>A read returns the table with its values decoded.\<close>

definition FieldTable_get :: "byte list \<Rightarrow> FieldTable \<Rightarrow> (FieldValue option \<times> FieldTable) result" where
  "FieldTable_get name t = res_bind (realDecode t) (\<lambda>t. Inr (map_of (ft_values t) name, t))"

definition getAsString :: "(byte list \<Rightarrow> byte list) \<Rightarrow> byte list \<Rightarrow> FieldTable \<Rightarrow> (byte list \<times> FieldTable) result" where
  "getAsString uuid_str name t = res_bind (FieldTable_get name t) (\<lambda>(v, t).
     case v of None \<Rightarrow> Inr ([], t)
     | Some v \<Rightarrow> if convertsToString (fv_data v) then res_bind (getString uuid_str (fv_data v)) (\<lambda>s. Inr (s, t)) else Inr ([], t))"

text \<open>\<open>getValue<int64_t>\<close>; \<open>getAsUInt64\<close> casts it.\<close>

definition getAsInt64_bits :: "byte list \<Rightarrow> FieldTable \<Rightarrow> (64 word \<times> FieldTable) result" where
  "getAsInt64_bits name t = res_bind (FieldTable_get name t) (\<lambda>(v, t).
     case v of None \<Rightarrow> Inr (0, t)
     | Some v \<Rightarrow> if convertsToInt (fv_data v) then res_bind (getInt (fv_data v)) (\<lambda>i. Inr (i, t)) else Inr (0, t))"

definition getAsInt :: "byte list \<Rightarrow> FieldTable \<Rightarrow> (int \<times> FieldTable) result" where
  "getAsInt name t = res_bind (getAsInt64_bits name t) (\<lambda>(v, t). Inr (sint (ucast v :: 32 word), t))"
definition getAsInt64 :: "byte list \<Rightarrow> FieldTable \<Rightarrow> (int \<times> FieldTable) result" where
  "getAsInt64 name t = res_bind (getAsInt64_bits name t) (\<lambda>(v, t). Inr (sint v, t))"
definition getAsUInt64 :: "byte list \<Rightarrow> FieldTable \<Rightarrow> (64 word \<times> FieldTable) result" where
  "getAsUInt64 name t = getAsInt64_bits name t"

definition getTable :: "byte list \<Rightarrow> FieldTable \<Rightarrow> (FieldTable option \<times> FieldTable) result" where
  "getTable name t = res_bind (FieldTable_get name t) (\<lambda>(v, t).
     Inr (case v of Some (FieldValue _ (TableData u)) \<Rightarrow> Some u | _ \<Rightarrow> None, t))"
definition getArray :: "byte list \<Rightarrow> FieldTable \<Rightarrow> ((byte \<times> FieldValue list) option \<times> FieldTable) result" where
  "getArray name t = res_bind (FieldTable_get name t) (\<lambda>(v, t).
     Inr (case v of Some (FieldValue _ (ArrayData ty vs)) \<Rightarrow> Some (ty, vs) | _ \<Rightarrow> None, t))"

text \<open>\<open>getRawFixedWidthValue\<close>: the value is shared with the table, so that the swap of its octets is seen there.\<close>

definition getRawFixedWidthValue :: "bool \<Rightarrow> nat \<Rightarrow> byte \<Rightarrow> byte list \<Rightarrow> FieldTable \<Rightarrow> (64 word option \<times> FieldTable) result" where
  "getRawFixedWidthValue little w code name t = res_bind (FieldTable_get name t) (\<lambda>(v, t).
     case v of None \<Rightarrow> Inr (None, t)
     | Some v \<Rightarrow> if typeOctet v = code
         then res_bind (getFloatingPointValue little w v) (\<lambda>(f, v'). Inr (Some f, set_values (map_put name v' (ft_values t)) t))
         else Inr (None, t))"

definition FieldTable_getFloat :: "bool \<Rightarrow> byte list \<Rightarrow> FieldTable \<Rightarrow> (64 word option \<times> FieldTable) result" where
  "FieldTable_getFloat little = getRawFixedWidthValue little 4 0x23"
definition FieldTable_getDouble :: "bool \<Rightarrow> byte list \<Rightarrow> FieldTable \<Rightarrow> (64 word option \<times> FieldTable) result" where
  "FieldTable_getDouble little = getRawFixedWidthValue little 8 0x33"

definition FieldTable_erase :: "byte list \<Rightarrow> FieldTable \<Rightarrow> FieldTable result" where
  "FieldTable_erase name t = res_bind (realDecode t) (\<lambda>t.
     if map_of (ft_values t) name \<noteq> None then flushRawCache (set_values (map_erase name (ft_values t)) t) else Inr t)"

definition FieldTable_clear :: "FieldTable \<Rightarrow> FieldTable result" where
  "FieldTable_clear t = flushRawCache (FieldTable [] (cachedBytes t) (cachedSize t) False)"

text \<open>\<open>begin\<close>, \<open>end\<close> and \<open>find\<close> for writing, and \<open>insert\<close>, which keeps a value that is there.\<close>

definition FieldTable_find :: "byte list \<Rightarrow> FieldTable \<Rightarrow> (FieldValue option \<times> FieldTable) result" where
  "FieldTable_find name t = res_bind (realDecode t) (\<lambda>t. res_bind (flushRawCache t) (\<lambda>t. Inr (map_of (ft_values t) name, t)))"
definition FieldTable_entries :: "FieldTable \<Rightarrow> ((byte list \<times> FieldValue) list \<times> FieldTable) result" where
  "FieldTable_entries t = res_bind (realDecode t) (\<lambda>t. Inr (ft_values t, t))"
definition FieldTable_insert :: "byte list \<times> FieldValue \<Rightarrow> FieldTable \<Rightarrow> (bool \<times> FieldTable) result" where
  "FieldTable_insert e t = res_bind (realDecode t) (\<lambda>t. res_bind (flushRawCache t) (\<lambda>t.
     if map_of (ft_values t) (fst e) = None then Inr (True, set_values (map_put (fst e) (snd e) (ft_values t)) t) else Inr (False, t)))"

definition FieldTable_count :: "FieldTable \<Rightarrow> nat" where
  "FieldTable_count t = length (ft_values t)"

definition FieldTable_encodedSize :: "FieldTable \<Rightarrow> 32 word \<times> FieldTable" where
  "FieldTable_encodedSize t = (table_size t, FieldTable (ft_values t) (cachedBytes t) (table_size t) (newBytes t))"

text \<open>
  The copy constructor encodes the source, unless it has its bytes, and copies the bytes. The result is the copy or the
  exception, and the source, which keeps the array. After an exception the array is there too: \<open>junk\<close> is what it
  holds then, the bytes written so far and what was in the memory.
\<close>

definition FieldTable_copy :: "byte list \<Rightarrow> FieldTable \<Rightarrow> FieldTable result \<times> FieldTable" where
  "FieldTable_copy junk ft =
     (case cachedBytes ft of
        Some bs \<Rightarrow> (Inr (FieldTable [] (Some bs) (cachedSize ft) True), ft)
      | None \<Rightarrow>
          if ft_values ft = [] then (Inr (FieldTable [] None (cachedSize ft) (newBytes ft)), ft)
          else let n = table_size ft in
            (case table_encode ft (Buffer_init (replicate (unat n) 0) n) of
               Inl e \<Rightarrow> (Inl e, FieldTable (ft_values ft) (Some junk) n (newBytes ft))
             | Inr b \<Rightarrow> (Inr (FieldTable [] (Some (buf_data b)) n True), FieldTable (ft_values ft) (Some (buf_data b)) n (newBytes ft))))"

text \<open>
  \<open>operator==\<close> of values and tables. The elements of a list are compared as pointers, which are different for lists that
  were made independently.
\<close>

fun Data_eq :: "nat \<Rightarrow> Data \<Rightarrow> Data \<Rightarrow> bool result" and table_eq :: "nat \<Rightarrow> FieldTable \<Rightarrow> FieldTable \<Rightarrow> bool result" where
  "Data_eq fuel (FixedWidthValue n os) d = Inr (case d of FixedWidthValue m ps \<Rightarrow> n = m \<and> os = ps | UuidData ps \<Rightarrow> n = 16 \<and> os = ps | _ \<Rightarrow> False)"
| "Data_eq fuel (UuidData os) d = Inr (case d of UuidData ps \<Rightarrow> os = ps | FixedWidthValue m ps \<Rightarrow> m = 16 \<and> os = ps | _ \<Rightarrow> False)"
| "Data_eq fuel (VariableWidthValue w os) d = Inr (case d of VariableWidthValue v ps \<Rightarrow> w = v \<and> os = ps | _ \<Rightarrow> False)"
| "Data_eq 0 (TableData t) d = Inl OutOfFuel"
| "Data_eq (Suc fuel) (TableData t) d = (case d of TableData u \<Rightarrow> table_eq fuel t u | _ \<Rightarrow> Inr False)"
| "Data_eq fuel (ListData vs) d = Inr (case d of ListData ws \<Rightarrow> vs = [] \<and> ws = [] | _ \<Rightarrow> False)"
| "Data_eq 0 (ArrayData t vs) d = Inl OutOfFuel"
| "Data_eq (Suc fuel) (ArrayData t vs) d =
     (case d of
        ArrayData u ws \<Rightarrow>
          if t \<noteq> u \<or> length vs \<noteq> length ws then Inr False
          else foldr (\<lambda>(v, w) r. if typeOctet v = typeOctet w
                 then res_bind (Data_eq fuel (fv_data v) (fv_data w)) (\<lambda>c. if c then r else Inr False) else Inr False)
               (zip vs ws) (Inr True)
      | _ \<Rightarrow> Inr False)"
| "table_eq 0 t u = Inl OutOfFuel"
| "table_eq (Suc fuel) t u =
     res_bind (realDecode t) (\<lambda>t. res_bind (realDecode u) (\<lambda>u.
       if length (ft_values t) \<noteq> length (ft_values u) then Inr False
       else foldr (\<lambda>(k, v) r. case map_of (ft_values u) k of
              None \<Rightarrow> Inr False
            | Some w \<Rightarrow> if typeOctet v = typeOctet w
                then res_bind (Data_eq fuel (fv_data v) (fv_data w)) (\<lambda>c. if c then r else Inr False) else Inr False)
            (ft_values t) (Inr True)))"

section \<open>A map with lazy decoding\<close>

text \<open>What a table holds, if its bytes can be decoded.\<close>

definition contents :: "FieldTable \<Rightarrow> (byte list \<rightharpoonup> FieldValue) option" where
  "contents t = (case realDecode t of Inl e \<Rightarrow> None | Inr t' \<Rightarrow> Some (map_of (ft_values t')))"

lemma realDecode_done:
  assumes "realDecode t = Inr t'"
  shows "\<not> newBytes t' \<and> cachedBytes t' = cachedBytes t \<and> cachedSize t' = cachedSize t \<and> (cachedBytes t = None \<longrightarrow> t' = t)"
  using assms by (cases t) (auto simp: realDecode_def Let_def res_bind_eq_Inr split: if_splits option.splits)

lemma realDecode_decoded [simp]: "\<not> newBytes t \<Longrightarrow> realDecode t = Inr t"
  by (simp add: realDecode_def)

lemma contentsE:
  assumes "contents t = Some m"
  obtains t' where "realDecode t = Inr t'" "\<not> newBytes t'" "map_of (ft_values t') = m" "cachedBytes t' = cachedBytes t"
    "cachedSize t' = cachedSize t" "cachedBytes t = None \<Longrightarrow> t' = t"
  using assms realDecode_done by (auto simp: contents_def split: sum.splits)

lemma set_values_simps [simp]:
  "ft_values (set_values es t) = es" "newBytes (set_values es t) = newBytes t" "cachedBytes (set_values es t) = cachedBytes t"
  by (cases t; simp)+

lemma flush_ok: "\<not> newBytes t \<Longrightarrow> flushRawCache t = Inr (FieldTable (ft_values t) None 0 False)"
  by (simp add: flushRawCache_def)

lemma contents_decoded: "\<not> newBytes t \<Longrightarrow> contents t = Some (map_of (ft_values t))"
  by (simp add: contents_def)

text \<open>A read that leaves the table as it was: the same map, encoded as the same bytes.\<close>

definition same_table :: "FieldTable \<Rightarrow> FieldTable \<Rightarrow> bool" where
  "same_table t t' \<longleftrightarrow> contents t' = contents t \<and> (\<forall>b. table_encode t' b = table_encode t b)"

definition only_reads :: "(FieldTable \<Rightarrow> ('x \<times> FieldTable) result) \<Rightarrow> FieldTable \<Rightarrow> bool" where
  "only_reads get t \<longleftrightarrow> (\<forall>x t'. get t = Inr (x, t') \<longrightarrow> same_table t t')"

lemma realDecode_same:
  assumes "realDecode t = Inr t'"
  shows "same_table t t'"
proof -
  note d = realDecode_done [OF assms]
  have "table_encode t' b = table_encode t b" for b using d by (cases t; cases t'; cases "cachedBytes t") auto
  then show ?thesis using assms d by (simp add: same_table_def contents_def)
qed

lemma only_reads_get: "only_reads (FieldTable_get name) t"
  by (auto simp: only_reads_def FieldTable_get_def res_bind_eq_Inr realDecode_same)

lemma only_reads_bind:
  assumes "only_reads get t" "\<And>v t x t'. f (v, t) = Inr (x, t') \<Longrightarrow> t' = t"
  shows "only_reads (\<lambda>t. res_bind (get t) f) t"
  using assms by (fastforce simp: only_reads_def res_bind_eq_Inr)

lemma only_reads_int: "only_reads (getAsInt64_bits name) t"
  unfolding getAsInt64_bits_def [abs_def]
  by (rule only_reads_bind [OF only_reads_get]) (auto simp: res_bind_eq_Inr split: option.splits if_splits)

lemma only_reads_getters:
  "only_reads (getAsString u name) t" "only_reads (getAsInt name) t" "only_reads (getAsInt64 name) t"
  "only_reads (getAsUInt64 name) t" "only_reads (getTable name) t" "only_reads (getArray name) t"
  "only_reads FieldTable_entries t"
  unfolding getAsString_def [abs_def] getAsInt_def [abs_def] getAsInt64_def [abs_def] getAsUInt64_def [abs_def]
    getTable_def [abs_def] getArray_def [abs_def]
  by (auto simp: only_reads_int only_reads_get res_bind_eq_Inr split: option.splits if_splits
        intro!: only_reads_bind [OF only_reads_get] only_reads_bind [OF only_reads_int])
    (auto simp: only_reads_def FieldTable_entries_def res_bind_eq_Inr realDecode_same)

text \<open>
  C14. A field table whose bytes can be decoded behaves as a map: \<open>get\<close> finds what the map holds and, like the typed reads
  \<open>getAsString\<close>, \<open>getAsInt\<close>, \<open>getAsInt64\<close>, \<open>getAsUInt64\<close>, \<open>getTable\<close>, \<open>getArray\<close> and the iteration over the
  entries, changes neither the map nor the bytes that the table is encoded as (\<open>getFloat\<close> and \<open>getDouble\<close> do change a
  value, as \<open>FieldTable_getDouble_swaps\<close> shows, and are not among them). \<open>set\<close>, \<open>erase\<close>, \<open>insert\<close> and \<open>clear\<close> have
  the effect of the map operation and drop the cached bytes, except that an \<open>erase\<close> of an absent name keeps them and
  the encoding; the assertion that no bytes are left to decode when the cache is dropped holds.
\<close>

theorem FieldTable_is_map:
  assumes "contents t = Some m"
  shows "(\<exists>t'. FieldTable_get name t = Inr (m name, t') \<and> contents t' = Some m \<and> (\<forall>b. table_encode t' b = table_encode t b))
    \<and> only_reads (getAsString u name) t \<and> only_reads (getAsInt name) t \<and> only_reads (getAsInt64 name) t
    \<and> only_reads (getAsUInt64 name) t \<and> only_reads (getTable name) t \<and> only_reads (getArray name) t
    \<and> only_reads FieldTable_entries t
    \<and> (\<exists>t'. FieldTable_set name v t = Inr t' \<and> contents t' = Some (m(name \<mapsto> v)) \<and> cachedBytes t' = None)
    \<and> (\<exists>t'. FieldTable_erase name t = Inr t' \<and> contents t' = Some (m(name := None)) \<and>
         (if m name = None then same_table t t' else cachedBytes t' = None))
    \<and> (\<exists>t'. FieldTable_insert (name, v) t = Inr (m name = None, t') \<and>
         contents t' = Some (if m name = None then m(name \<mapsto> v) else m) \<and> cachedBytes t' = None)
    \<and> (\<exists>t'. FieldTable_clear t = Inr t' \<and> contents t' = Some Map.empty \<and> cachedBytes t' = None)"
proof -
  obtain t' where t: "realDecode t = Inr t'" "\<not> newBytes t'" "map_of (ft_values t') = m" "cachedBytes t' = cachedBytes t"
    "cachedSize t' = cachedSize t" "cachedBytes t = None \<Longrightarrow> t' = t" using contentsE [OF assms] by blast
  have "same_table t t'" using realDecode_same [OF t(1)] .
  moreover have "\<forall>b. table_encode t' b = table_encode t b" using realDecode_same [OF t(1)] by (simp add: same_table_def)
  moreover have "FieldTable_get name t = Inr (m name, t')" "contents t' = Some m"
    using t by (simp_all add: FieldTable_get_def contents_decoded)
  moreover have "FieldTable_set name v t = Inr (FieldTable (map_put name v (ft_values t')) None 0 False)"
    using t by (simp add: FieldTable_set_def flush_ok)
  moreover have "FieldTable_erase name t = (if m name = None then Inr t' else Inr (FieldTable (map_erase name (ft_values t')) None 0 False))"
    using t by (auto simp: FieldTable_erase_def flush_ok)
  moreover have "FieldTable_insert (name, v) t = Inr (m name = None,
      if m name = None then FieldTable (map_put name v (ft_values t')) None 0 False else FieldTable (ft_values t') None 0 False)"
    using t by (auto simp: FieldTable_insert_def flush_ok)
  moreover have "FieldTable_clear t = Inr (FieldTable [] None 0 False)" by (simp add: FieldTable_clear_def flush_ok)
  ultimately show ?thesis
    using t(3) by (auto simp: only_reads_getters contents_decoded map_of_put map_of_erase fun_upd_idem)
qed

theorem FieldTable_is_map_witness:
  "\<exists>t'. FieldTable_get [97] (raw_table [0, 0, 0, 7, 0, 0, 0, 1, 1, 97, 0xF0]) = Inr (Some VoidValue, t')
     \<and> contents t' = Some [[97] \<mapsto> VoidValue]"
proof -
  let ?t = "raw_table [0, 0, 0, 7, 0, 0, 0, 1, 1, 97, 0xF0]"
  have "realDecode ?t = Inr (FieldTable [([97], VoidValue)] (Some [0, 0, 0, 7, 0, 0, 0, 1, 1, 97, 0xF0]) 11 False)" by code_simp
  then have "contents ?t = Some [[97] \<mapsto> VoidValue]" by (simp add: contents_def)
  then show ?thesis using FieldTable_is_map [of ?t "[[97] \<mapsto> VoidValue]" "[97]" id VoidValue] by auto
qed

section \<open>Tables on the wire\<close>

lemma map_put_last: "\<forall>e\<in>set es. fst e < k \<Longrightarrow> map_put k v es = es @ [(k, v)]"
  by (induction es) auto

lemma foldl_map_put:
  "sorted_wrt (<) (map fst acc @ map fst es) \<Longrightarrow>
     foldl (\<lambda>m (k, v). map_put k (f v) m) acc es = acc @ map (\<lambda>(k, v). (k, f v)) es"
proof (induction es arbitrary: acc)
  case (Cons e es)
  obtain k v where e: "e = (k, v)" by fastforce
  have "map_put k (f v) acc = acc @ [(k, f v)]" using Cons.prems e by (intro map_put_last) (auto simp: sorted_wrt_append)
  then show ?case using Cons.IH [of "acc @ [(k, f v)]"] Cons.prems e by simp
qed simp

abbreviation enc_entry :: "byte list \<times> FieldValue \<Rightarrow> byte list" where
  "enc_entry \<equiv> (\<lambda>(k, v). of_nat (length k) # k @ enc_value v)"

lemma realDecode_loop_entries:
  assumes "list_all (\<lambda>(k, v). length k < 2 ^ 8 \<and> value_ok v \<and> length (enc_value v) \<le> fuel) es"
    "buf_wf b" "buf_rest b = concat (map enc_entry es)"
  shows "realDecode_loop fuel (length es) 0 b acc = Inr (foldl (\<lambda>m (k, v). map_put k (wire_value v) m) acc es)"
  using assms
proof (induction es arbitrary: b acc)
  case (Cons e es)
  obtain k v where e: "e = (k, v)" by fastforce
  have ok: "length k < 2 ^ 8" "value_ok v" "length (enc_value v) \<le> fuel" using Cons.prems(1) e by auto
  let ?k = "of_nat (length k) # k" and ?rest = "concat (map enc_entry es)"
  have r: "buf_rest b = ?k @ (enc_value v @ ?rest)" using Cons.prems(3) e by simp
  have g: "getShortString b = Inr (k, advance b (length ?k))"
    using short_string.string.get_law [OF Cons.prems(2), of k "enc_value v @ ?rest"] r ok(1) by simp
  note a = rest_advance [OF Cons.prems(2) r]
  have d: "FieldValue_decode fuel (advance b (length ?k)) = Inr (wire_value v, advance (advance b (length ?k)) (length (enc_value v)))"
    using getsD [OF FieldValue_decode_gets [OF ok(2,3)] a(1,2)] .
  note a2 = rest_advance [OF a(1,2)]
  show ?case using Cons.IH [OF _ a2(1,2)] Cons.prems(1) g d a(3) e by simp
qed simp

lemma realDecode_raw:
  assumes "table_ok (FieldTable es None n new)" "sorted_wrt (<) (map fst es)"
  shows "realDecode (raw_table (enc_table (FieldTable es None n new))) =
    Inr (FieldTable (map (\<lambda>(k, v). (k, wire_value v)) es) (Some (enc_table (FieldTable es None n new)))
      (of_nat (length (enc_table (FieldTable es None n new)))) False)"
proof -
  let ?s = "concat (map enc_entry es)"
  let ?bs = "enc_table (FieldTable es None n new)" and ?len = "of_nat (4 + length ?s) :: 32 word" and ?n = "of_nat (length es) :: 32 word"
  let ?b = "Buffer_init ?bs (of_nat (length ?bs))"
  have bs: "?bs = be32 ?len @ (be32 ?n @ ?s)" by (simp add: Let_def)
  have l: "length ?bs = 8 + length ?s" "8 + length ?s < 2 ^ 32" using assms(1) by (simp_all add: Let_def)
  have "length es \<le> length ?s" by (induction es) auto
  then have u: "unat ?n = length es" "unat ?len = 4 + length ?s" "unat (of_nat (length ?bs) :: 32 word) = length ?bs"
    using l by (simp_all add: unat_len32 del: of_nat_add)
  have wf: "buf_wf ?b" "buf_rest ?b = be32 ?len @ (be32 ?n @ ?s)" using u(3) bs by (simp_all add: Buffer_init_def buf_wf_def buf_rest_def)
  note r1 = rest_advance [OF wf] note r2 = rest_advance [OF r1(1,2)]
  have g1: "getLong ?b = Inr (?len, advance ?b (length (be32 ?len)))" using getsD [OF gets_ops(2) wf] .
  have g2: "getLong (advance ?b (length (be32 ?len))) = Inr (?n, advance (advance ?b (length (be32 ?len))) (length (be32 ?n)))"
    using getsD [OF gets_ops(2) r1(1,2)] .
  have "length (enc_value v) \<le> length ?bs" if "(k, v) \<in> set es" for k v
    using concat_length_le [OF that, of enc_entry] l(1) by simp
  then have "list_all (\<lambda>(k, v). length k < 2 ^ 8 \<and> value_ok v \<and> length (enc_value v) \<le> length ?bs) es"
    using assms(1) by (auto simp: list_all_iff)
  then have "realDecode_loop (length ?bs) (length es) 0 (advance (advance ?b (length (be32 ?len))) (length (be32 ?n))) []
      = Inr (map (\<lambda>(k, v). (k, wire_value v)) es)"
    using realDecode_loop_entries [OF _ r2(1), of "length ?bs" es "[]"] r2(2) foldl_map_put [of "[]" es wire_value] assms(2) by simp
  moreover have "(of_nat (available (advance ?b (length (be32 ?len)))) :: 32 word) = ?len" using r2(3) by simp
  moreover have "?len \<noteq> 0" using u(2) by auto
  ultimately show ?thesis using g1 g2 u(1) by (simp add: realDecode_def raw_table_def Let_def del: enc_table.simps of_nat_add)
qed

text \<open>
  C40. A field table survives the wire: from the bytes that \<open>encode\<close> writes, as many as \<open>encodedSize\<close> says, a table is
  read that finds under every name the value that was there, the nested tables again in their encoded form, and that is
  encoded as the same bytes.
\<close>

theorem FieldTable_round_trip:
  assumes "table_ok t" "cachedBytes t = None" "sorted_wrt (<) (map fst (ft_values t))" "buf_wf b" "length (enc_table t) \<le> available b"
  shows "\<exists>b' u. table_encode t b = Inr b' \<and> available b' = available b - unat (fst (FieldTable_encodedSize t))
    \<and> table_decode (setPosition b' (buf_position b)) = Inr (u, b') \<and> table_encode u b = Inr b'
    \<and> contents u = Some (\<lambda>name. map_option wire_value (map_of (ft_values t) name))"
proof -
  obtain es n new where t: "t = FieldTable es None n new" using assms(2) by (cases t) auto
  let ?u = "raw_table (enc_table t)"
  have l: "length (enc_table t) < 2 ^ 32" using table_ok_raw [OF assms(1)] by (simp add: raw_ok_def)
  have e: "table_encode t b = Inr (put_bytes b (enc_table t))" using encode_spec(3) [OF assms(1,4)] assms(5) by (simp add: put_spec_def)
  have u: "table_encode ?u b = Inr (put_bytes b (enc_table t))"
    using put_ops_spec(3) [OF assms(4)] assms(5) unat_len32 [OF l] by (simp add: raw_table_def put_spec_def)
  have "unat (fst (FieldTable_encodedSize t)) = length (enc_table t)"
    using encodedSize_length(3) [OF assms(1)] unat_len32 [OF l] by (simp add: FieldTable_encodedSize_def)
  moreover have "available (put_bytes b (enc_table t)) = available b - length (enc_table t)" using assms by simp
  moreover note setPosition_put_bytes [OF assms(4,5)] getsD [OF gets_table [OF table_ok_raw [OF assms(1)]]]
  moreover have "map_of (map (\<lambda>(k, v). (k, wire_value v)) es) = (\<lambda>name. map_option wire_value (map_of es name))"
    by (induction es) auto
  then have "contents ?u = Some (\<lambda>name. map_option wire_value (map_of es name))"
    using realDecode_raw [of es n new] assms(1,3) t by (simp add: contents_def del: table_ok.simps enc_table.simps)
  ultimately show ?thesis using e u t by (intro exI [of _ "put_bytes b (enc_table t)"] exI [of _ ?u]) simp
qed

theorem FieldTable_round_trip_witness:
  "let t = FieldTable [([97], Str16Value [120]), ([98], VoidValue)] None 0 False; b = Buffer_init (replicate 30 0) 30
   in \<exists>b' u. table_encode t b = Inr b' \<and> table_decode (setPosition b' 0) = Inr (u, b')
        \<and> contents u = Some [[97] \<mapsto> Str16Value [120], [98] \<mapsto> VoidValue]"
proof -
  let ?t = "FieldTable [([97], Str16Value [120]), ([98], VoidValue)] None 0 False" and ?b = "Buffer_init (replicate 30 0) 30"
  have "table_ok ?t" "length (enc_table ?t) \<le> 30"
    by (simp_all add: typed_def setType_def drop_bit_eq_div be_len_def Let_def Str16Value_def VoidValue_def)
  moreover have "buf_wf ?b" "available ?b = 30" "buf_position ?b = 0" by (simp_all add: Buffer_init_def buf_wf_def available_def)
  moreover have "(\<lambda>name. map_option wire_value (map_of (ft_values ?t) name)) = [[97] \<mapsto> Str16Value [120], [98] \<mapsto> VoidValue]"
    by (auto simp: fun_eq_iff Str16Value_def VoidValue_def)
  moreover have "sorted_wrt (<) (map fst (ft_values ?t))" by simp
  ultimately show ?thesis unfolding Let_def using FieldTable_round_trip [of ?t ?b] by auto
qed

section \<open>Numbers and strings\<close>

lemma join_octets_snoc: "join_octets (os @ [c]) = push_bit 8 (join_octets os) OR ucast c"
  by (simp add: join_octets_def)

lemma join_low_octets: "join_octets (low_octets n v) = take_bit (8 * n) v"
proof (induction n arbitrary: v)
  case (Suc n)
  show ?case unfolding low_octets.simps join_octets_snoc Suc
    by (rule bit_word_eqI) (auto simp: bit_simps)
qed (simp add: join_octets_def)

lemma low_octets_be32: "low_octets (n + 4) v = low_octets n (drop_bit 32 v) @ be32 (ucast v)"
proof -
  have "n + 4 = Suc (Suc (Suc (Suc n)))" by simp
  then have "low_octets (n + 4) v = low_octets n (drop_bit 32 v) @ [ucast (drop_bit 24 v), ucast (drop_bit 16 v), ucast (drop_bit 8 v), ucast v]"
    by (simp only: low_octets.simps drop_bit_drop_bit) simp
  moreover have "[ucast (drop_bit 24 v), ucast (drop_bit 16 v), ucast (drop_bit 8 v), ucast v] = be32 (ucast v)"
    unfolding be32_def by (simp, intro conjI bit_word_eqI; simp add: bit_simps)
  ultimately show ?thesis by simp
qed

lemma be64_low_octets: "be64 f = low_octets 8 f"
  using low_octets_be32 [of 4 f] low_octets_be32 [of 0 "drop_bit 32 f"] by (simp add: be64_def)

lemma join_be64: "join_octets (be64 f) = f"
proof -
  have "take_bit 64 f = f" by (rule bit_word_eqI) (simp add: bit_simps)
  then show ?thesis by (simp add: be64_low_octets join_low_octets)
qed

text \<open>
  What a setter of a field table stores the getter of the same type returns: strings, signed 32 and 64 bit and unsigned
  64 bit integers. A 32 bit integer read as 64 bits is not sign extended: a negative one comes back larger by \<open>2 ^ 32\<close>.
\<close>

theorem FieldTable_getters:
  assumes "contents t = Some m"
  shows "(\<exists>t1 t2. setString name s t = Inr t1 \<and> getAsString uuid_str name t1 = Inr (s, t2))
    \<and> (\<exists>t1 t2. setUInt64 name w t = Inr t1 \<and> getAsUInt64 name t1 = Inr (w, t2))
    \<and> (- (2 ^ 63) \<le> j \<longrightarrow> j < 2 ^ 63 \<longrightarrow> (\<exists>t1 t2. setInt64 name j t = Inr t1 \<and> getAsInt64 name t1 = Inr (j, t2)))
    \<and> (- (2 ^ 31) \<le> i \<longrightarrow> i < 2 ^ 31 \<longrightarrow> (\<exists>t1 t2. setInt name i t = Inr t1 \<and> getAsInt name t1 = Inr (i, t2)
         \<and> getAsInt64 name t1 = Inr (if i < 0 then i + 2 ^ 32 else i, t2)))"
proof -
  obtain t' where t: "realDecode t = Inr t'" "\<not> newBytes t'" using contentsE [OF assms] by blast
  have g: "\<exists>t1. FieldTable_set name v t = Inr t1 \<and> FieldTable_get name t1 = Inr (Some v, t1)" for v
    using t by (simp add: FieldTable_set_def FieldTable_get_def flush_ok map_of_put)
  have j: "join_octets (low_octets 8 v) = v" for v using join_be64 [of v] by (simp add: be64_low_octets)
  have "ucast (word_of_int i :: 64 word) = (word_of_int i :: 32 word)" by (rule bit_word_eqI) (simp add: bit_simps)
  moreover have "ucast (take_bit 32 v) = (ucast v :: 32 word)" for v :: "64 word" by (rule bit_word_eqI) (simp add: bit_simps)
  moreover have "sint (take_bit 32 (word_of_int i :: 64 word)) = (if i < 0 then i + 2 ^ 32 else i)" if "- (2 ^ 31) \<le> i" "i < 2 ^ 31"
  proof -
    have m: "i mod 2 ^ 32 = (if i < 0 then i + 2 ^ 32 else i)"
      using that mod_add_self2 [of i "2 ^ 32"] mod_pos_pos_trivial [of "i + 2 ^ 32" "2 ^ 32"] by auto
    have "uint (take_bit 32 (word_of_int i :: 64 word)) = i mod 2 ^ 32"
      by (simp only: unsigned_take_bit_eq uint_word_of_int) (simp add: take_bit_eq_mod mod_mod_cancel)
    moreover have "i mod 2 ^ 32 < 2 ^ 32" by simp
    ultimately show ?thesis using m by (simp add: sint_uint signed_take_bit_int_eq_self)
  qed
  moreover have "- (2 ^ 31) \<le> i \<Longrightarrow> i < 2 ^ 31 \<Longrightarrow> sint (word_of_int i :: 32 word) = i"
    "- (2 ^ 63) \<le> j \<Longrightarrow> j < 2 ^ 63 \<Longrightarrow> sint (word_of_int j :: 64 word) = j"
    by (simp_all add: signed_of_int signed_take_bit_int_eq_self)
  ultimately show ?thesis
    using g [of "Str16Value s"] g [of "Unsigned64Value w"] g [of "Integer64Value j"] g [of "IntegerValue i"] j join_low_octets [of 4]
    by (auto simp: setString_def getAsString_def setUInt64_def getAsUInt64_def setInt64_def getAsInt64_def setInt_def getAsInt_def
        getAsInt64_bits_def Str16Value_def Unsigned64Value_def Integer64Value_def IntegerValue_def fixed_value_def)
qed

theorem FieldTable_getters_witness:
  "\<exists>t1 t2. setInt [97] (- 1) FieldTable_init = Inr t1 \<and> getAsInt [97] t1 = Inr (- 1, t2) \<and> getAsInt64 [97] t1 = Inr (4294967295, t2)"
  using FieldTable_getters [of FieldTable_init Map.empty "[97]" "[]" id 0 0 "- 1"]
  by (simp add: contents_def FieldTable_init_def)

text \<open>
  On a little endian machine, reading a double from a table swaps the octets of the stored value: the first read gives
  the number that was stored, the second gives it with its octets in reverse order.
\<close>

theorem FieldTable_getDouble_swaps:
  assumes "contents t = Some m"
  shows "\<exists>t1 t2 t3. setDouble name f t = Inr t1 \<and> FieldTable_getDouble True name t1 = Inr (Some f, t2)
    \<and> FieldTable_getDouble True name t2 = Inr (Some (join_octets (rev (be64 f))), t3)"
proof -
  obtain t' where t: "realDecode t = Inr t'" "\<not> newBytes t'" using contentsE [OF assms] by blast
  then show ?thesis
    by (simp add: setDouble_def FieldTable_getDouble_def getRawFixedWidthValue_def FieldTable_set_def FieldTable_get_def flush_ok map_of_put
        DoubleValue_def getFloatingPointValue_def convertIfRequired_def native_bits_def join_be64 Let_def)
qed

theorem FieldTable_getDouble_swaps_witness:
  "\<exists>t1 t2 t3. setDouble [97] 1 FieldTable_init = Inr t1 \<and> FieldTable_getDouble True [97] t1 = Inr (Some 1, t2)
     \<and> FieldTable_getDouble True [97] t2 = Inr (Some 0x0100000000000000, t3)"
proof -
  have "contents FieldTable_init = Some Map.empty" by (simp add: contents_def FieldTable_init_def)
  moreover have "join_octets (rev (be64 1)) = 0x0100000000000000" by code_simp
  ultimately show ?thesis using FieldTable_getDouble_swaps [of FieldTable_init Map.empty "[97]" 1] by simp
qed

text \<open>
  A copy of a table with a name too long for its length octet throws, but leaves the new array in the source as its
  bytes: the next copy succeeds and it and the source are encoded as whatever that memory held.
\<close>

theorem FieldTable_copy_failure:
  assumes "255 < length name" "8 \<le> length junk" "length junk = unat (table_size (FieldTable [(name, v)] None 0 False))" "length junk \<le> available b" "buf_wf b"
  shows "\<exists>t'. FieldTable_copy junk (FieldTable [(name, v)] None 0 False) = (Inl GeneralException, t')
    \<and> table_encode t' b = Inr (put_bytes b junk)
    \<and> (\<exists>c. FieldTable_copy junk2 t' = (Inr c, t') \<and> table_encode c b = Inr (put_bytes b junk))"
proof -
  let ?t = "FieldTable [(name, v)] None 0 False"
  let ?n = "table_size ?t"
  let ?b = "Buffer_init (replicate (unat ?n) 0) ?n"
  have wf: "buf_wf ?b" "available ?b = length junk" using assms(3) by (simp_all add: Buffer_init_def buf_wf_def available_def)
  have "putLong ?b x = Inr (put_bytes ?b (be32 x))" for x using wf assms(2) by (simp add: put_ops_spec put_spec_def)
  moreover have "putLong (put_bytes ?b (be32 x)) y = Inr (put_bytes (put_bytes ?b (be32 x)) (be32 y))" for x y
    using wf assms(2) by (simp add: put_ops_spec put_spec_def)
  ultimately have "table_encode ?t ?b = Inl GeneralException" using assms(1)
    by (simp add: putShortString_def del: table_size.simps)
  then show ?thesis using assms put_ops_spec(3) [OF assms(5), of junk]
    by (simp add: FieldTable_copy_def Let_def put_spec_def del: table_size.simps)
qed

theorem FieldTable_copy_failure_witness:
  "let t = FieldTable [(replicate 256 97, VoidValue)] None 0 False; junk = replicate 266 (0xAB :: byte); b = Buffer_init (replicate 300 0) 300
   in \<exists>t' c. FieldTable_copy junk t = (Inl GeneralException, t') \<and> FieldTable_copy [] t' = (Inr c, t') \<and> table_encode c b = Inr (put_bytes b junk)"
proof -
  let ?t = "FieldTable [(replicate 256 97, VoidValue)] None 0 False" and ?b = "Buffer_init (replicate 300 0) 300"
  have "table_size ?t = 266" by (simp add: VoidValue_def)
  moreover have "buf_wf ?b" "available ?b = 300" by (simp_all add: Buffer_init_def buf_wf_def available_def)
  ultimately show ?thesis
    using FieldTable_copy_failure [of "replicate 256 97" "replicate 266 (0xAB :: byte)" VoidValue ?b "[]"] by (auto simp: Let_def simp del: table_size.simps)
qed

end
