(* ===== verification/Direct_Exchange.thy ===== *)
theory Direct_Exchange
  imports Exchange_Base Field_Table
begin

text \<open>
  The direct and the fanout exchange (\<open>src/qpid/broker/DirectExchange.h\<close>, \<open>DirectExchange.cpp\<close>, \<open>FanOutExchange.h\<close>,
  \<open>FanOutExchange.cpp\<close>). Both keep their bindings in a \<open>CopyOnWriteArray\<close>, the direct exchange one for each key.
\<close>

section \<open>Arguments\<close>

text \<open>The names and the federation arguments in the table of a request, read as every \<open>bind\<close> and \<open>unbind\<close> reads them.\<close>

definition octets :: "string \<Rightarrow> byte list" where "octets s = map of_char s"
definition chars :: "byte list \<Rightarrow> string" where "chars s = map (\<lambda>c. char_of (unat c)) s"

definition qpidFedOp :: "byte list" where "qpidFedOp = octets ''qpid.fed.op''"
definition qpidFedTags :: "byte list" where "qpidFedTags = octets ''qpid.fed.tags''"
definition qpidFedOrigin :: "byte list" where "qpidFedOrigin = octets ''qpid.fed.origin''"
definition qpidExclusiveBinding :: "byte list" where "qpidExclusiveBinding = octets ''qpid.exclusive-binding''"

definition read_args :: "(byte list \<Rightarrow> byte list) \<Rightarrow> FieldTable option \<Rightarrow> FieldTable bind_args option result" where
  "read_args uuid_str args =
     (case args of
        None \<Rightarrow> Inr None
      | Some t \<Rightarrow>
          res_bind (getAsString uuid_str qpidFedOp t) (\<lambda>(op, t).
            res_bind (getAsString uuid_str qpidFedTags t) (\<lambda>(tags, t).
              res_bind (getAsString uuid_str qpidFedOrigin t) (\<lambda>(origin, t).
                Inr (Some \<lparr> arg_fedOp = chars op, arg_fedTags = chars tags, arg_fedOrigin = chars origin, arg_table = t \<rparr>)))))"

definition MatchQueue :: "'q \<Rightarrow> ('q, 'a) Binding \<Rightarrow> bool" where
  "MatchQueue q b \<longleftrightarrow> b_queue b = q"

definition fed_op :: "'a bind_args option \<Rightarrow> string" where
  "fed_op args = (case args of None \<Rightarrow> fedOpBind | Some a \<Rightarrow> arg_fedOp a)"
definition fed_tags :: "'a bind_args option \<Rightarrow> string" where
  "fed_tags args = (case args of None \<Rightarrow> [] | Some a \<Rightarrow> arg_fedTags a)"
definition fed_origin :: "'a bind_args option \<Rightarrow> string" where
  "fed_origin args = (case args of None \<Rightarrow> [] | Some a \<Rightarrow> arg_fedOrigin a)"

section \<open>The direct exchange\<close>

record 'q BoundKey =
  queues :: "('q, FieldTable) Binding CopyOnWriteArray"
  key_fedBinding :: FedBinding

type_synonym 'q DirectExchange = "(string \<times> 'q BoundKey) list"

definition DirectExchange_init :: "'q DirectExchange" where "DirectExchange_init = []"

text \<open>\<open>bindings[routingKey]\<close>, which inserts an empty entry if there is none.\<close>

definition bound_key :: "string \<Rightarrow> 'q DirectExchange \<Rightarrow> 'q BoundKey" where
  "bound_key k bs = (case map_of bs k of None \<Rightarrow> \<lparr> queues = None, key_fedBinding = FedBinding_init \<rparr> | Some bk \<Rightarrow> bk)"

definition isExclusive :: "FieldTable bind_args option \<Rightarrow> bool result" where
  "isExclusive args = (case args of None \<Rightarrow> Inr False
     | Some a \<Rightarrow> res_bind (FieldTable_get qpidExclusiveBinding (arg_table a)) (\<lambda>(v, t). Inr (v \<noteq> None)))"

definition DirectExchange_unbind ::
  "('q \<Rightarrow> string) \<Rightarrow> 'q \<Rightarrow> string \<Rightarrow> FieldTable bind_args option \<Rightarrow> 'q DirectExchange
     \<Rightarrow> (bool \<times> exchange_event list \<times> 'q DirectExchange) result" where
  "DirectExchange_unbind name q k args bs =
     (let bk = bound_key k bs in
      case remove_if (MatchQueue q) (queues bk) of
        (True, qs) \<Rightarrow>
          (case delOrigin (name q) (fed_origin args) (key_fedBinding bk) of (propagate, fed) \<Rightarrow>
             let bs' = (if array_empty qs then map_erase k bs else map_put k \<lparr> queues = qs, key_fedBinding = fed \<rparr> bs);
                 empty = (array_empty qs \<and> bs' = [])
             in Inr (True, (if propagate then [PropagateFedOp k [] fedOpUnbind []] else []) @ (if empty then [CheckAutodelete] else []), bs'))
      | (False, qs) \<Rightarrow> Inr (False, [], map_put k bk bs))"

definition DirectExchange_bind ::
  "('q \<Rightarrow> string) \<Rightarrow> 'q \<Rightarrow> string \<Rightarrow> FieldTable bind_args option \<Rightarrow> 'q DirectExchange
     \<Rightarrow> (bool \<times> exchange_event list \<times> 'q DirectExchange) result" where
  "DirectExchange_bind name q k args bs =
     res_bind (isExclusive args) (\<lambda>exclusiveBinding.
       let finish = (\<lambda>evs propagate bs. Inr (True,
             evs @ [RouteIVE] @ (if propagate then [PropagateFedOp k (fed_tags args) (fed_op args) (fed_origin args)] else []), bs));
           bk = bound_key k bs
       in if args = None \<or> fed_op args = [] \<or> fed_op args = fedOpBind
          then let b = \<lparr> b_queue = q, b_key = k, b_args = map_option arg_table args, b_origin = fed_origin args \<rparr>;
                   qs = (if exclusiveBinding then snd (array_clear (queues bk)) else queues bk)
               in (case add_unless b (MatchQueue q) qs of (added, qs') \<Rightarrow>
                    (case addOrigin (name q) (fed_origin args) (key_fedBinding bk) of (propagate, fed) \<Rightarrow>
                       let bs' = map_put k \<lparr> queues = qs', key_fedBinding = fed \<rparr> bs
                       in if added then finish [] propagate bs' else Inr (False, [], bs')))
          else if fed_op args = fedOpUnbind
          then (case delOrigin (name q) (fed_origin args) (key_fedBinding bk) of (propagate, fed) \<Rightarrow>
                  let bs' = map_put k (bk \<lparr> key_fedBinding := fed \<rparr>) bs
                  in if countFedBindings (name q) fed = 0
                     then res_bind (DirectExchange_unbind name q k args bs') (\<lambda>(r, evs, bs''). finish evs propagate bs'')
                     else finish [] propagate bs')
          else if fed_op args = fedOpReorigin
          then finish (map (\<lambda>(k', bk). PropagateFedOp k' [] fedOpBind []) (filter (\<lambda>(k', bk). hasLocal (key_fedBinding bk)) bs)) False bs
          else finish [] False bs)"

text \<open>\<open>route\<close>, up to the call of \<open>doRoute\<close> with the bindings that it returns; a null list delivers nothing.\<close>

definition DirectExchange_route :: "string \<Rightarrow> 'q DirectExchange \<Rightarrow> ('q, FieldTable) Binding list \<times> 'q DirectExchange" where
  "DirectExchange_route k bs = ((case map_of bs k of None \<Rightarrow> [] | Some bk \<Rightarrow> array_items (queues bk)), bs)"

definition DirectExchange_isBound :: "'q option \<Rightarrow> string option \<Rightarrow> 'q DirectExchange \<Rightarrow> bool" where
  "DirectExchange_isBound queue routingKey bs =
     (case routingKey of
        Some k \<Rightarrow>
          (case map_of bs k of
             None \<Rightarrow> False
           | Some bk \<Rightarrow> (case queue of None \<Rightarrow> True | Some q \<Rightarrow> list_ex (MatchQueue q) (array_items (queues bk))))
      | None \<Rightarrow> (case queue of None \<Rightarrow> bs \<noteq> []
          | Some q \<Rightarrow> list_ex (\<lambda>(k, bk). list_ex (MatchQueue q) (array_items (queues bk))) bs))"

definition DirectExchange_hasBindings :: "'q DirectExchange \<Rightarrow> bool" where
  "DirectExchange_hasBindings bs \<longleftrightarrow> bs \<noteq> []"

section \<open>The fanout exchange\<close>

record ('q, 'a) FanOutExchange =
  fan_bindings :: "('q, 'a) Binding CopyOnWriteArray"
  fan_fedBinding :: FedBinding

definition FanOutExchange_init :: "('q, 'a) FanOutExchange" where
  "FanOutExchange_init = \<lparr> fan_bindings = None, fan_fedBinding = FedBinding_init \<rparr>"

definition FanOutExchange_unbind ::
  "('q \<Rightarrow> string) \<Rightarrow> 'q \<Rightarrow> string \<Rightarrow> 'a bind_args option \<Rightarrow> ('q, 'a) FanOutExchange
     \<Rightarrow> (bool \<times> exchange_event list \<times> ('q, 'a) FanOutExchange) result" where
  "FanOutExchange_unbind name q k args ex =
     (case remove_if (MatchQueue q) (fan_bindings ex) of
        (True, bs) \<Rightarrow>
          (case delOrigin (name q) (fed_origin args) (fan_fedBinding ex) of (propagate, fed) \<Rightarrow>
             Inr (True, (if propagate then [PropagateFedOp [] [] fedOpUnbind []] else []) @ (if array_empty bs then [CheckAutodelete] else []),
               \<lparr> fan_bindings = bs, fan_fedBinding = fed \<rparr>))
      | (False, bs) \<Rightarrow> Inr (False, [], ex))"

definition FanOutExchange_bind ::
  "('q \<Rightarrow> string) \<Rightarrow> 'q \<Rightarrow> string \<Rightarrow> 'a bind_args option \<Rightarrow> ('q, 'a) FanOutExchange
     \<Rightarrow> (bool \<times> exchange_event list \<times> ('q, 'a) FanOutExchange) result" where
  "FanOutExchange_bind name q k args ex =
     (let finish = (\<lambda>evs propagate ex. Inr (True,
            evs @ [RouteIVE] @ (if propagate then [PropagateFedOp [] (fed_tags args) (fed_op args) (fed_origin args)] else []), ex))
      in if args = None \<or> fed_op args = [] \<or> fed_op args = fedOpBind
         then let b = \<lparr> b_queue = q, b_key = [], b_args = map_option arg_table args, b_origin = fed_origin args \<rparr>
              in (case add_unless b (MatchQueue q) (fan_bindings ex) of (added, bs) \<Rightarrow>
                   (case addOrigin (name q) (fed_origin args) (fan_fedBinding ex) of (propagate, fed) \<Rightarrow>
                      let ex' = \<lparr> fan_bindings = bs, fan_fedBinding = fed \<rparr>
                      in if added then finish [] propagate ex' else Inr (False, [], ex')))
         else if fed_op args = fedOpUnbind
         then (case delOrigin (name q) (fed_origin args) (fan_fedBinding ex) of (propagate, fed) \<Rightarrow>
                 let ex' = ex \<lparr> fan_fedBinding := fed \<rparr>
                 in if countFedBindings (name q) fed = 0
                    then res_bind (FanOutExchange_unbind name q [] args ex') (\<lambda>(r, evs, ex''). finish evs propagate ex'')
                    else finish [] propagate ex')
         else if fed_op args = fedOpReorigin
         then finish (if hasLocal (fan_fedBinding ex) then [PropagateFedOp [] [] fedOpBind []] else []) False ex
         else finish [] False ex)"

definition FanOutExchange_route :: "string \<Rightarrow> ('q, 'a) FanOutExchange \<Rightarrow> ('q, 'a) Binding list \<times> ('q, 'a) FanOutExchange" where
  "FanOutExchange_route k ex = (array_items (fan_bindings ex), ex)"

definition FanOutExchange_isBound :: "'q \<Rightarrow> ('q, 'a) FanOutExchange \<Rightarrow> bool" where
  "FanOutExchange_isBound q ex = list_ex (MatchQueue q) (array_items (fan_bindings ex))"

definition FanOutExchange_hasBindings :: "('q, 'a) FanOutExchange \<Rightarrow> bool" where
  "FanOutExchange_hasBindings ex \<longleftrightarrow> array_items (fan_bindings ex) \<noteq> []"

section \<open>Arrays of bindings\<close>

text \<open>An array with one binding for each queue, as the set of its queues.\<close>

definition array_queues :: "('q, 'a) Binding CopyOnWriteArray \<Rightarrow> 'q set" where
  "array_queues a = b_queue ` set (array_items a)"

definition array_distinct :: "('q, 'a) Binding CopyOnWriteArray \<Rightarrow> bool" where
  "array_distinct a \<longleftrightarrow> distinct (map b_queue (array_items a))"

lemma list_ex_MatchQueue: "list_ex (MatchQueue q) bs \<longleftrightarrow> q \<in> b_queue ` set bs"
  by (auto simp: list_ex_iff MatchQueue_def)

lemma add_unless_queues:
  assumes "add_unless b (MatchQueue (b_queue b)) a = (added, a')" "array_distinct a"
  shows "added \<longleftrightarrow> b_queue b \<notin> array_queues a" "array_queues a' = insert (b_queue b) (array_queues a)" "array_distinct a'"
  using add_unless_items [OF assms(1)] assms(2)
  by (auto simp: array_queues_def array_distinct_def list_ex_MatchQueue split: if_splits)

lemma remove_if_queues:
  assumes "remove_if (MatchQueue q) a = (removed, a')" "array_distinct a"
  shows "removed \<longleftrightarrow> q \<in> array_queues a" "array_queues a' = array_queues a - {q}" "array_distinct a'" "array_empty a' \<longleftrightarrow> array_queues a' = {}"
proof -
  note i = remove_if_items [OF assms(1)]
  show "removed \<longleftrightarrow> q \<in> array_queues a" using i by (simp add: array_queues_def list_ex_MatchQueue)
  show "array_queues a' = array_queues a - {q}" using i by (auto simp: array_queues_def MatchQueue_def)
  show "array_distinct a'" using i assms(2) by (simp add: array_distinct_def distinct_map_filter)
  show "array_empty a' \<longleftrightarrow> array_queues a' = {}" by (simp add: array_queues_def array_empty_items)
qed

lemma array_route_meets:
  "array_distinct a \<Longrightarrow> reply_meets name (Routed (map b_queue (array_items a))) (SpecRouted (array_queues a))"
  by (simp add: array_distinct_def array_queues_def)

section \<open>The contract\<close>

definition direct_bindings :: "'q DirectExchange \<Rightarrow> (string \<times> 'q) set" where
  "direct_bindings bs = {(k, q). q \<in> array_queues (queues (bound_key k bs))}"

definition direct_ok :: "'q DirectExchange \<Rightarrow> bool" where
  "direct_ok bs \<longleftrightarrow> distinct (map fst bs) \<and> sorted (map fst bs) \<and> (\<forall>k. array_distinct (queues (bound_key k bs)))"

definition direct_plain :: "FieldTable bind_args option \<Rightarrow> bool" where
  "direct_plain args \<longleftrightarrow> plain_bind args \<and> isExclusive args = Inr False"

lemma bound_key_put: "bound_key k' (map_put k bk bs) = (if k' = k then bk else bound_key k' bs)"
  by (simp add: bound_key_def map_of_put)

lemma bound_key_erase:
  "bound_key k' (map_erase k bs) = (if k' = k then \<lparr> queues = None, key_fedBinding = FedBinding_init \<rparr> else bound_key k' bs)"
  by (simp add: bound_key_def map_of_erase)

lemma array_none [simp]: "array_queues None = {}" "array_distinct None"
  by (simp_all add: array_queues_def array_distinct_def array_items_def)

lemma direct_put:
  assumes "direct_ok bs" "array_distinct (queues bk)"
  shows "direct_ok (map_put k bk bs)" "direct_bindings (map_put k bk bs) = direct_bindings bs - {k} \<times> UNIV \<union> {k} \<times> array_queues (queues bk)"
  using assms map_put_sorted [of bs k bk] by (auto simp: direct_ok_def direct_bindings_def bound_key_put split: if_splits)

lemma direct_erase:
  assumes "direct_ok bs"
  shows "direct_ok (map_erase k bs)" "direct_bindings (map_erase k bs) = direct_bindings bs - {k} \<times> UNIV"
  using assms map_erase_keys(2) [of bs k] map_erase_keys(3) [of bs k] by (auto simp: direct_ok_def direct_bindings_def bound_key_erase split: if_splits)

lemma direct_bind_correct:
  assumes "direct_ok bs" "direct_plain args"
  shows "\<exists>evs bs'. DirectExchange_bind name q k args bs = Inr ((k, q) \<notin> direct_bindings bs, evs, bs')
    \<and> direct_ok bs' \<and> direct_bindings bs' = insert (k, q) (direct_bindings bs)"
proof -
  let ?b = "\<lparr> b_queue = q, b_key = k, b_args = map_option arg_table args, b_origin = fed_origin args \<rparr>"
  let ?bk = "bound_key k bs"
  have op: "args = None \<or> fed_op args = [] \<or> fed_op args = fedOpBind" and ex: "isExclusive args = Inr False"
    using assms(2) by (auto simp: direct_plain_def plain_bind_def fed_op_def split: option.splits)
  have d: "array_distinct (queues ?bk)" using assms(1) by (simp add: direct_ok_def)
  obtain added qs where a: "add_unless ?b (MatchQueue q) (queues ?bk) = (added, qs)" by fastforce
  note u = add_unless_queues [of ?b, OF _ d, simplified, OF a]
  obtain propagate fed where f: "addOrigin (name q) (fed_origin args) (key_fedBinding ?bk) = (propagate, fed)" by fastforce
  note p = direct_put [OF assms(1), of "\<lparr> queues = qs, key_fedBinding = fed \<rparr>" k]
  have "(k, q) \<in> direct_bindings bs \<longleftrightarrow> q \<in> array_queues (queues ?bk)" by (simp add: direct_bindings_def)
  then show ?thesis using op ex a u f p
    by (cases added) (auto simp: DirectExchange_bind_def Let_def direct_bindings_def)
qed

lemma direct_unbind_correct:
  assumes "direct_ok bs"
  shows "\<exists>evs bs'. DirectExchange_unbind name q k args bs = Inr ((k, q) \<in> direct_bindings bs, evs, bs')
    \<and> direct_ok bs' \<and> direct_bindings bs' = direct_bindings bs - {(k, q)}"
proof -
  let ?bk = "bound_key k bs"
  have d: "array_distinct (queues ?bk)" using assms(1) by (simp add: direct_ok_def)
  obtain removed qs where a: "remove_if (MatchQueue q) (queues ?bk) = (removed, qs)" by fastforce
  note u = remove_if_queues [OF a d]
  obtain propagate fed where f: "delOrigin (name q) (fed_origin args) (key_fedBinding ?bk) = (propagate, fed)" by fastforce
  note p = direct_put [OF assms(1), of "\<lparr> queues = qs, key_fedBinding = fed \<rparr>" k] direct_put [OF assms(1), of ?bk k] direct_erase [OF assms, of k]
  have b: "(k, q) \<in> direct_bindings bs \<longleftrightarrow> q \<in> array_queues (queues ?bk)" by (simp add: direct_bindings_def)
  show ?thesis
  proof (cases removed)
    case False
    then have "DirectExchange_unbind name q k args bs = Inr (False, [], map_put k ?bk bs)" using a by (simp add: DirectExchange_unbind_def)
    then show ?thesis using False u(1) b p(3,4) d by (auto simp: direct_bindings_def)
  next
    case True
    then show ?thesis using a u f p b d
      by (cases "array_empty qs") (auto simp: DirectExchange_unbind_def Let_def direct_bindings_def)
  qed
qed

interpretation direct: exchange_contract name "DirectExchange_bind name" "DirectExchange_unbind name" DirectExchange_route
    direct_ok direct_bindings "\<lambda>k. k" "(=)" direct_plain
  for name
proof (unfold_locales, goal_cases)
  case (1 s args q k)
  then show ?case by (rule direct_bind_correct)
next
  case (2 s args q k)
  then show ?case by (intro direct_unbind_correct)
next
  case (3 s k bs s')
  have "bs = array_items (queues (bound_key k s))" "s' = s"
    using 3(2) by (auto simp: DirectExchange_route_def bound_key_def array_items_def split: option.splits)
  moreover have "{q. \<exists>p. (p, q) \<in> direct_bindings s \<and> p = k} = array_queues (queues (bound_key k s))"
    by (simp add: direct_bindings_def)
  ultimately show ?case using 3(1) array_route_meets [of "queues (bound_key k s)" name] by (simp only: direct_ok_def simp_thms)
qed

text \<open>The fanout exchange has one binding key.\<close>

definition fanout_ok :: "('q, 'a) FanOutExchange \<Rightarrow> bool" where
  "fanout_ok ex \<longleftrightarrow> array_distinct (fan_bindings ex)"

definition fanout_bindings :: "('q, 'a) FanOutExchange \<Rightarrow> (unit \<times> 'q) set" where
  "fanout_bindings ex = UNIV \<times> array_queues (fan_bindings ex)"

lemma fanout_bind_correct:
  assumes "fanout_ok ex" "plain_bind args"
  shows "\<exists>evs ex'. FanOutExchange_bind name q k args ex = Inr (((), q) \<notin> fanout_bindings ex, evs, ex')
    \<and> fanout_ok ex' \<and> fanout_bindings ex' = insert ((), q) (fanout_bindings ex)"
proof -
  let ?b = "\<lparr> b_queue = q, b_key = [], b_args = map_option arg_table args, b_origin = fed_origin args \<rparr>"
  have op: "args = None \<or> fed_op args = [] \<or> fed_op args = fedOpBind"
    using assms(2) by (auto simp: plain_bind_def fed_op_def split: option.splits)
  have d: "array_distinct (fan_bindings ex)" using assms(1) by (simp add: fanout_ok_def)
  obtain added bs where a: "add_unless ?b (MatchQueue q) (fan_bindings ex) = (added, bs)" by fastforce
  note u = add_unless_queues [of ?b, OF _ d, simplified, OF a]
  obtain propagate fed where f: "addOrigin (name q) (fed_origin args) (fan_fedBinding ex) = (propagate, fed)" by fastforce
  show ?thesis using op a u f
    by (cases added) (auto simp: FanOutExchange_bind_def Let_def fanout_bindings_def fanout_ok_def)
qed

lemma fanout_unbind_correct:
  assumes "fanout_ok ex"
  shows "\<exists>evs ex'. FanOutExchange_unbind name q k args ex = Inr (((), q) \<in> fanout_bindings ex, evs, ex')
    \<and> fanout_ok ex' \<and> fanout_bindings ex' = fanout_bindings ex - {((), q)}"
proof -
  have d: "array_distinct (fan_bindings ex)" using assms(1) by (simp add: fanout_ok_def)
  obtain removed bs where a: "remove_if (MatchQueue q) (fan_bindings ex) = (removed, bs)" by fastforce
  note u = remove_if_queues [OF a d]
  obtain propagate fed where f: "delOrigin (name q) (fed_origin args) (fan_fedBinding ex) = (propagate, fed)" by fastforce
  show ?thesis using a u f assms
    by (cases removed) (auto simp: FanOutExchange_unbind_def Let_def fanout_bindings_def fanout_ok_def)
qed

interpretation fanout: exchange_contract name "FanOutExchange_bind name" "FanOutExchange_unbind name" FanOutExchange_route
    fanout_ok fanout_bindings "\<lambda>_. ()" "\<lambda>_ _. True" plain_bind
  for name
proof (unfold_locales, goal_cases)
  case (1 s args q k)
  then show ?case by (rule fanout_bind_correct)
next
  case (2 s args q k)
  then show ?case by (intro fanout_unbind_correct)
next
  case (3 s k bs s')
  then show ?case using array_route_meets [of "fan_bindings s" name]
    by (auto simp: FanOutExchange_route_def fanout_ok_def fanout_bindings_def)
qed

text \<open>
  The specification of the direct exchange: a bind that asks for an exclusive binding first takes the key from every
  queue. The requests are those without an operation of a federated broker, in whose arguments, if the request is a
  bind, the mark of an exclusive binding can be looked up.
\<close>

fun direct_spec_step ::
  "('q, FieldTable bind_args option) exchange_op \<Rightarrow> (string \<times> 'q) set \<Rightarrow> 'q spec_reply \<times> (string \<times> 'q) set" where
  "direct_spec_step (BindOp q k args) B = spec_step (\<lambda>k. k) (=) (BindOp q k args)
     (if isExclusive args = Inr True then B - {k} \<times> UNIV else B)"
| "direct_spec_step x B = spec_step (\<lambda>k. k) (=) x B"

fun direct_request :: "('q, FieldTable bind_args option) exchange_op \<Rightarrow> bool" where
  "direct_request (BindOp q k args) \<longleftrightarrow> plain_bind args \<and> (case isExclusive args of Inl e \<Rightarrow> False | Inr b \<Rightarrow> True)"
| "direct_request (UnbindOp q k args) \<longleftrightarrow> True"
| "direct_request (RouteOp k) \<longleftrightarrow> True"

lemma direct_bind_exclusive:
  assumes "direct_ok bs" "plain_bind args" "isExclusive args = Inr True"
  shows "\<exists>evs bs'. DirectExchange_bind name q k args bs = Inr (True, evs, bs')
    \<and> direct_ok bs' \<and> direct_bindings bs' = insert (k, q) (direct_bindings bs - {k} \<times> UNIV)"
proof -
  let ?b = "\<lparr> b_queue = q, b_key = k, b_args = map_option arg_table args, b_origin = fed_origin args \<rparr>"
  let ?bk = "bound_key k bs" and ?cleared = "snd (array_clear (queues (bound_key k bs)))"
  have op: "args = None \<or> fed_op args = [] \<or> fed_op args = fedOpBind"
    using assms(2) by (auto simp: plain_bind_def fed_op_def split: option.splits)
  have d: "array_distinct ?cleared" "array_queues ?cleared = {}"
    by (simp_all add: array_distinct_def array_queues_def array_clear_items)
  obtain added qs where a: "add_unless ?b (MatchQueue q) ?cleared = (added, qs)" by fastforce
  note u = add_unless_queues [of ?b, OF _ d(1), simplified, OF a]
  obtain propagate fed where f: "addOrigin (name q) (fed_origin args) (key_fedBinding ?bk) = (propagate, fed)" by fastforce
  note p = direct_put [OF assms(1), of "\<lparr> queues = qs, key_fedBinding = fed \<rparr>" k]
  show ?thesis using op assms(3) a u f p d(2)
    by (cases added) (auto simp: DirectExchange_bind_def Let_def direct_bindings_def)
qed

lemma direct_step_refines:
  assumes "direct_ok s" "direct_request x"
  shows "\<exists>r s'. exchange_step (DirectExchange_bind name) (DirectExchange_unbind name) DirectExchange_route x s = Inr (r, s')
    \<and> direct_ok s' \<and> reply_meets name r (fst (direct_spec_step x (direct_bindings s)))
    \<and> direct_bindings s' = snd (direct_spec_step x (direct_bindings s))"
proof (cases x)
  case (BindOp q k args)
  then consider "direct_plain args" "isExclusive args \<noteq> Inr True" | "plain_bind args" "isExclusive args = Inr True"
    using assms(2) by (auto simp: direct_plain_def split: sum.splits)
  then show ?thesis
  proof cases
    case 1
    then show ?thesis using direct.step_refines [OF assms(1), of x name] BindOp by simp
  next
    case 2
    then show ?thesis using direct_bind_exclusive [OF assms(1) 2, of name q k] BindOp by auto
  qed
next
  case (UnbindOp q k args)
  then show ?thesis using direct_unbind_correct [OF assms(1), of name q k args] by auto
next
  case (RouteOp k)
  then show ?thesis using direct.step_refines [OF assms(1), of x name] by simp
qed

interpretation direct_runs: run_refinement
    "exchange_step (DirectExchange_bind name) (DirectExchange_unbind name) DirectExchange_route" direct_spec_step
    direct_ok direct_bindings "reply_meets name" direct_request
  for name
  by unfold_locales (rule direct_step_refines)

text \<open>
  C19. The direct exchange implements its specification: over every sequence of bind, unbind and route requests in which
  no bind carries an operation of a federated broker (unbind and reorigin of links are outside) or arguments that cannot
  be decoded, bind and unbind change the relation between keys and queues and report whether they did, an exclusive bind
  leaves its queue as the only one bound with the key, and a message goes, once each, to the queues bound with exactly
  its routing key.
\<close>

theorem direct_exchange_refines:
  assumes "list_all direct_request xs"
  shows "\<exists>rs bs. exchange_run (exchange_step (DirectExchange_bind name) (DirectExchange_unbind name) DirectExchange_route) xs
      DirectExchange_init = Inr (rs, bs)
    \<and> list_all2 (reply_meets name) rs (fst (spec_run direct_spec_step xs {}))
    \<and> direct_bindings bs = snd (spec_run direct_spec_step xs {})"
proof -
  have "direct_bindings DirectExchange_init = {}" "direct_ok DirectExchange_init"
    by (simp_all add: direct_bindings_def direct_ok_def DirectExchange_init_def bound_key_def)
  then show ?thesis using direct_runs.run_refines [of DirectExchange_init xs name] assms by metis
qed

definition exclusive_args :: "FieldTable bind_args" where
  "exclusive_args = \<lparr> arg_fedOp = [], arg_fedTags = [], arg_fedOrigin = [],
     arg_table = FieldTable [(qpidExclusiveBinding, VoidValue)] None 0 False \<rparr>"

theorem direct_exchange_refines_witness:
  "\<exists>rs bs. exchange_run (exchange_step (DirectExchange_bind id) (DirectExchange_unbind id) DirectExchange_route)
      [BindOp ''p'' ''k'' None, BindOp ''q'' ''k'' (Some exclusive_args), RouteOp ''k'', RouteOp ''j'']
      DirectExchange_init = Inr (rs, bs)
    \<and> list_all2 (reply_meets id) rs [SpecChanged True, SpecChanged True, SpecRouted {''q''}, SpecRouted {}]"
proof -
  let ?xs = "[BindOp ''p'' ''k'' None, BindOp ''q'' ''k'' (Some exclusive_args), RouteOp ''k'', RouteOp ''j'']"
  have e: "isExclusive (Some exclusive_args) = Inr True" "plain_bind (Some exclusive_args)"
    "isExclusive None = Inr False" "plain_bind None"
    by (simp_all add: isExclusive_def exclusive_args_def FieldTable_get_def plain_bind_def)
  then have "list_all direct_request ?xs" by simp
  moreover have "fst (spec_run direct_spec_step ?xs {}) =
      [SpecChanged True, SpecChanged True, SpecRouted {''q''}, SpecRouted {}]" using e by auto
  ultimately show ?thesis using direct_exchange_refines [of ?xs id] by metis
qed

text \<open>
  The fanout exchange implements its specification: a message goes, once each, to all the queues that are bound and
  not unbound since, whatever the keys.
\<close>

theorem fanout_exchange_refines:
  fixes xs :: "('q, 'a bind_args option) exchange_op list"
  assumes "list_all (plain_op plain_bind) xs"
  shows "\<exists>rs ex. exchange_run (exchange_step (FanOutExchange_bind name) (FanOutExchange_unbind name) FanOutExchange_route) xs
      FanOutExchange_init = Inr (rs, ex)
    \<and> list_all2 (reply_meets name) rs (fst (spec_run (spec_step (\<lambda>_. ()) (\<lambda>_ _. True)) xs {}))
    \<and> fanout_bindings ex = snd (spec_run (spec_step (\<lambda>_. ()) (\<lambda>_ _. True)) xs {})"
proof -
  have "fanout_bindings (FanOutExchange_init :: ('q, 'a) FanOutExchange) = {}" "fanout_ok (FanOutExchange_init :: ('q, 'a) FanOutExchange)"
    by (simp_all add: fanout_bindings_def fanout_ok_def FanOutExchange_init_def)
  then show ?thesis using fanout.run_refines [of FanOutExchange_init xs name] assms by metis
qed

theorem fanout_exchange_refines_witness:
  "\<exists>rs ex. exchange_run (exchange_step (FanOutExchange_bind id) (FanOutExchange_unbind id) FanOutExchange_route)
      [BindOp ''q'' ''k'' (None :: unit bind_args option), BindOp ''q'' ''j'' None, RouteOp ''x''] FanOutExchange_init = Inr (rs, ex)
    \<and> list_all2 (reply_meets id) rs [SpecChanged True, SpecChanged False, SpecRouted {''q''}]"
proof -
  let ?xs = "[BindOp ''q'' ''k'' (None :: unit bind_args option), BindOp ''q'' ''j'' None, RouteOp ''x'']"
  have "list_all (plain_op plain_bind) ?xs" by (simp add: plain_bind_def)
  moreover have "fst (spec_run (spec_step (\<lambda>_. ()) (\<lambda>_ _. True)) ?xs {}) = [SpecChanged True, SpecChanged False, SpecRouted {''q''}]" by simp
  ultimately show ?thesis using fanout_exchange_refines [of ?xs id] by metis
qed

text \<open>An entry stays in the exchange until an unbind of its own key removes its last queue.\<close>

fun other_key :: "string \<Rightarrow> ('q, 'g) exchange_op \<Rightarrow> bool" where
  "other_key k (BindOp q k' args) \<longleftrightarrow> k' \<noteq> k"
| "other_key k (UnbindOp q k' args) \<longleftrightarrow> k' \<noteq> k"
| "other_key k (RouteOp k') \<longleftrightarrow> True"

lemma direct_unbind_other:
  assumes "DirectExchange_unbind name q k' args bs = Inr (r, evs, bs')" "k' \<noteq> k"
  shows "map_of bs' k = map_of bs k \<and> (map_of bs k \<noteq> None \<longrightarrow> CheckAutodelete \<notin> set evs)"
proof -
  have "map_of bs k = None" if "map_erase k' bs = []"
    using that assms(2) map_of_erase [of k' bs] by (metis map_of.simps(1) fun_upd_other)
  then show ?thesis
    using assms by (auto simp: DirectExchange_unbind_def Let_def map_of_put map_of_erase split: prod.splits bool.splits if_splits)
qed

lemma direct_bind_other:
  assumes "DirectExchange_bind name q k' args bs = Inr (r, evs, bs')" "k' \<noteq> k"
  shows "map_of bs' k = map_of bs k"
  using assms direct_unbind_other [where name = name and q = q and k' = k' and args = args and k = k]
  by (fastforce simp: DirectExchange_bind_def Let_def map_of_put res_bind_eq_Inr split: prod.splits if_splits)

lemma direct_run_other:
  assumes "exchange_run (exchange_step (DirectExchange_bind name) (DirectExchange_unbind name) DirectExchange_route) xs bs
      = Inr (rs, bs')" "list_all (other_key k) xs"
  shows "map_of bs' k = map_of bs k"
  using assms
proof (induction xs arbitrary: bs rs)
  case (Cons x xs)
  then obtain r bs1 rs1 where s: "exchange_step (DirectExchange_bind name) (DirectExchange_unbind name) DirectExchange_route x bs
      = Inr (r, bs1)" "map_of bs' k = map_of bs1 k" by (auto simp: res_bind_eq_Inr)
  moreover have "map_of bs1 k = map_of bs k" using s(1) Cons.prems(2)
    by (cases x) (auto simp: res_bind_eq_Inr DirectExchange_route_def dest: direct_bind_other [where k = k] direct_unbind_other [where k = k])
  ultimately show ?case by simp
qed simp

text \<open>
  C37. An unbind with a key that has no entry leaves an empty entry in the direct exchange, whatever the exchange holds: the
  bindings are as before and the unbind answers that it changed nothing, but after any further requests with other keys the
  exchange answers that the key is bound and that it has bindings, and an unbind of the last real binding does not ask for
  the check whether the exchange deletes itself.
\<close>

theorem direct_unbind_leaves_entry:
  assumes "map_of bs k = None"
  shows "\<exists>bs1. DirectExchange_unbind name q k args bs = Inr (False, [], bs1) \<and> direct_bindings bs1 = direct_bindings bs \<and>
    (\<forall>xs rs bs2. list_all (other_key k) xs \<and>
       exchange_run (exchange_step (DirectExchange_bind name) (DirectExchange_unbind name) DirectExchange_route) xs bs1 = Inr (rs, bs2) \<longrightarrow>
       DirectExchange_isBound None (Some k) bs2 \<and> DirectExchange_hasBindings bs2 \<and>
       (\<forall>q' k' args' r evs bs3. k' \<noteq> k \<and> DirectExchange_unbind name q' k' args' bs2 = Inr (r, evs, bs3) \<longrightarrow>
          CheckAutodelete \<notin> set evs))"
proof (intro exI conjI allI impI; (elim conjE)?)
  let ?bs1 = "map_put k (bound_key k bs) bs"
  show "DirectExchange_unbind name q k args bs = Inr (False, [], ?bs1)"
    using assms by (simp add: DirectExchange_unbind_def bound_key_def remove_if_def)
  show "direct_bindings ?bs1 = direct_bindings bs"
    by (auto simp: direct_bindings_def bound_key_put split: if_splits)
  fix xs rs bs2
  assume run: "list_all (other_key k) xs"
    "exchange_run (exchange_step (DirectExchange_bind name) (DirectExchange_unbind name) DirectExchange_route) xs ?bs1 = Inr (rs, bs2)"
  have m: "map_of bs2 k = Some (bound_key k bs)"
    using direct_run_other [OF run(2,1)] by (simp add: map_of_put)
  then show "DirectExchange_isBound None (Some k) bs2" "DirectExchange_hasBindings bs2"
    by (auto simp: DirectExchange_isBound_def DirectExchange_hasBindings_def)
  show "CheckAutodelete \<notin> set evs" if "k' \<noteq> k" "DirectExchange_unbind name q' k' args' bs2 = Inr (r, evs, bs3)"
    for q' k' args' r evs bs3
    using direct_unbind_other [OF that(2,1)] m by simp
qed

theorem direct_unbind_leaves_entry_witness:
  "\<exists>bs1. DirectExchange_unbind id ''q'' ''k'' None DirectExchange_init = Inr (False, [], bs1)
     \<and> DirectExchange_isBound None (Some ''k'') bs1 \<and> direct_bindings bs1 = {}"
proof -
  have "map_of DirectExchange_init ''k'' = None" by (simp add: DirectExchange_init_def)
  from direct_unbind_leaves_entry [OF this, of id "''q''" None] obtain bs1 where bs1:
    "DirectExchange_unbind id ''q'' ''k'' None DirectExchange_init = Inr (False, [], bs1)"
    "direct_bindings bs1 = direct_bindings DirectExchange_init"
    "exchange_run (exchange_step (DirectExchange_bind id) (DirectExchange_unbind id) DirectExchange_route) [] bs1 = Inr ([], bs1)
      \<Longrightarrow> DirectExchange_isBound None (Some ''k'') bs1"
    by (metis list.pred_inject(1))
  then show ?thesis by (auto simp: direct_bindings_def DirectExchange_init_def bound_key_def)
qed

end
