(* ===== verification/Headers_Exchange.thy ===== *)
theory Headers_Exchange
  imports Direct_Exchange Map_Handler
begin

unbundle bit_operations_syntax

text \<open>
  The headers exchange (\<open>src/qpid/broker/HeadersExchange.h\<close>, \<open>HeadersExchange.cpp\<close>): a binding carries a table of
  headers and an \<open>x-match\<close> argument, \<open>all\<close> or \<open>any\<close>, and a message is matched by its properties. Matching reads the
  table of the binding, which is decoded on the first access and changed by reading a \<open>double\<close>, so that the table is
  part of its result. The arguments \<open>little\<close>, the byte order of the machine, and \<open>uuid_str\<close>, the text of a UUID, are those
  of the field table; \<open>deep\<close> bounds the nesting of the tables that \<open>operator==\<close> compares.
\<close>

section \<open>Matching\<close>

definition x_match :: "byte list" where "x_match = octets ''x-match''"
definition match_all :: "byte list" where "match_all = octets ''all''"
definition match_any :: "byte list" where "match_any = octets ''any''"
definition QPID_RESERVED :: "byte list" where "QPID_RESERVED = octets ''qpid.''"

definition getMatch :: "(byte list \<Rightarrow> byte list) \<Rightarrow> FieldTable option \<Rightarrow> (byte list \<times> FieldTable option) result" where
  "getMatch uuid_str args =
     (case args of
        None \<Rightarrow> Inl InternalErrorException
      | Some t \<Rightarrow>
          res_bind (FieldTable_get x_match t) (\<lambda>(what, t).
            case what of
              None \<Rightarrow> Inr ([], Some t)
            | Some v \<Rightarrow> if \<not> convertsToString (fv_data v) then Inl InternalErrorException
                else res_bind (getString uuid_str (fv_data v)) (\<lambda>s. Inr (s, Some t))))"

text \<open>The state of a \<open>Matcher\<close>: the table of the binding and the number of entries matched.\<close>

type_synonym Matcher = "FieldTable \<times> nat"

definition valueCheckRequired :: "byte list \<Rightarrow> Matcher \<Rightarrow> (bool \<times> Matcher) result" where
  "valueCheckRequired k M = (case M of (t, matched) \<Rightarrow>
     res_bind (FieldTable_get k t) (\<lambda>(v, t).
       Inr (case v of
              None \<Rightarrow> (False, t, matched)
            | Some v \<Rightarrow> if typeOctet v = 0xF0 then (False, t, matched + 1) else (True, t, matched))))"

text \<open>Equality of two numbers of type \<open>double\<close>, by their bits.\<close>

definition is_nan :: "64 word \<Rightarrow> bool" where
  "is_nan a \<longleftrightarrow> a AND 0x7FF0000000000000 = 0x7FF0000000000000 \<and> a AND 0x000FFFFFFFFFFFFF \<noteq> 0"

definition double_eq :: "64 word \<Rightarrow> 64 word \<Rightarrow> bool" where
  "double_eq a b \<longleftrightarrow> \<not> is_nan a \<and> \<not> is_nan b \<and> (a = b \<or> a AND 0x7FFFFFFFFFFFFFFF = 0 \<and> b AND 0x7FFFFFFFFFFFFFFF = 0)"

definition processValue :: "byte list \<Rightarrow> (FieldTable \<Rightarrow> (bool \<times> FieldTable) result) \<Rightarrow> Matcher \<Rightarrow> Matcher result" where
  "processValue k equal M = res_bind (valueCheckRequired k M) (\<lambda>(required, t, matched).
     if required then res_bind (equal t) (\<lambda>(e, t). Inr (t, if e then matched + 1 else matched)) else Inr (t, matched))"

definition Matcher_processString :: "(byte list \<Rightarrow> byte list) \<Rightarrow> byte list \<Rightarrow> byte list \<Rightarrow> Matcher \<Rightarrow> Matcher result" where
  "Matcher_processString uuid_str k actual = processValue k (\<lambda>t. res_bind (getAsString uuid_str k t) (\<lambda>(s, t). Inr (s = actual, t)))"
definition processFloat :: "bool \<Rightarrow> byte list \<Rightarrow> 64 word \<Rightarrow> Matcher \<Rightarrow> Matcher result" where
  "processFloat little k actual = processValue k (\<lambda>t. res_bind (FieldTable_getDouble little k t) (\<lambda>(f, t).
     Inr (case f of None \<Rightarrow> False | Some bound \<Rightarrow> double_eq bound actual, t)))"
definition processInt :: "byte list \<Rightarrow> int \<Rightarrow> Matcher \<Rightarrow> Matcher result" where
  "processInt k actual = processValue k (\<lambda>t. res_bind (getAsInt64 k t) (\<lambda>(i, t). Inr (i = actual, t)))"
definition processUint :: "byte list \<Rightarrow> 64 word \<Rightarrow> Matcher \<Rightarrow> Matcher result" where
  "processUint k actual = processValue k (\<lambda>t. res_bind (getAsUInt64 k t) (\<lambda>(i, t). Inr (i = actual, t)))"

fun Matcher_handle :: "bool \<Rightarrow> (byte list \<Rightarrow> byte list) \<Rightarrow> byte list \<times> (64 word) map_call \<Rightarrow> Matcher \<Rightarrow> Matcher result" where
  "Matcher_handle little uuid_str (k, MC_Void) M = res_bind (valueCheckRequired k M) (\<lambda>(required, M). Inr M)"
| "Matcher_handle little uuid_str (k, MC_Bool b) M = processUint k (if b then 1 else 0) M"
| "Matcher_handle little uuid_str (k, MC_Uint8 v) M = processUint k (ucast v) M"
| "Matcher_handle little uuid_str (k, MC_Uint16 v) M = processUint k (ucast v) M"
| "Matcher_handle little uuid_str (k, MC_Uint32 v) M = processUint k (ucast v) M"
| "Matcher_handle little uuid_str (k, MC_Uint64 v) M = processUint k v M"
| "Matcher_handle little uuid_str (k, MC_Int8 v) M = processInt k (sint v) M"
| "Matcher_handle little uuid_str (k, MC_Int16 v) M = processInt k (sint v) M"
| "Matcher_handle little uuid_str (k, MC_Int32 v) M = processInt k (sint v) M"
| "Matcher_handle little uuid_str (k, MC_Int64 v) M = processInt k (sint v) M"
| "Matcher_handle little uuid_str (k, MC_Float f) M = processFloat little k f M"
| "Matcher_handle little uuid_str (k, MC_Double f) M = processFloat little k f M"
| "Matcher_handle little uuid_str (k, MC_String s) M = Matcher_processString uuid_str k (octets s) M"

fun processProperties :: "bool \<Rightarrow> (byte list \<Rightarrow> byte list) \<Rightarrow> (byte list \<times> (64 word) map_call) list \<Rightarrow> Matcher \<Rightarrow> Matcher result" where
  "processProperties little uuid_str [] M = Inr M"
| "processProperties little uuid_str (p # ps) M = res_bind (Matcher_handle little uuid_str p M) (processProperties little uuid_str ps)"

definition Matcher_matches :: "(byte list \<Rightarrow> byte list) \<Rightarrow> Matcher \<Rightarrow> (bool \<times> FieldTable) result" where
  "Matcher_matches uuid_str M = (case M of (t, matched) \<Rightarrow>
     res_bind (getMatch uuid_str (Some t)) (\<lambda>(what, t'). let t = (case t' of None \<Rightarrow> t | Some u \<Rightarrow> u) in
       Inr (if what = match_all then matched = FieldTable_count t - 1
            else if what = match_any then 0 < matched else False, t)))"

definition HeadersExchange_match ::
  "bool \<Rightarrow> (byte list \<Rightarrow> byte list) \<Rightarrow> FieldTable \<Rightarrow> (byte list \<times> (64 word) map_call) list \<Rightarrow> (bool \<times> FieldTable) result" where
  "HeadersExchange_match little uuid_str bindArgs msg =
     res_bind (processProperties little uuid_str msg (bindArgs, 0)) (Matcher_matches uuid_str)"

section \<open>The exchange\<close>

record 'q HeadersBoundKey =
  hb_binding :: "('q, FieldTable) Binding"
  hb_args :: FieldTable
  hb_fedBinding :: FedBinding

type_synonym 'q HeadersExchange = "'q HeadersBoundKey CopyOnWriteArray"

fun insert_all :: "(byte list \<times> FieldValue) list \<Rightarrow> FieldTable \<Rightarrow> FieldTable result" where
  "insert_all [] t = Inr t"
| "insert_all (e # es) t = (if take (length QPID_RESERVED) (fst e) = QPID_RESERVED then insert_all es t
     else res_bind (FieldTable_insert e t) (\<lambda>(r, t). insert_all es t))"

definition getNonFedArgs :: "FieldTable option \<Rightarrow> FieldTable result" where
  "getNonFedArgs args =
     (case args of None \<Rightarrow> Inr FieldTable_init
      | Some t \<Rightarrow> res_bind (FieldTable_entries t) (\<lambda>(es, t). insert_all es FieldTable_init))"

definition MatchArgs :: "nat \<Rightarrow> 'q \<Rightarrow> FieldTable \<Rightarrow> 'q HeadersBoundKey \<Rightarrow> bool result" where
  "MatchArgs deep q args bk =
     (if b_queue (hb_binding bk) = q
      then table_eq deep (case b_args (hb_binding bk) of None \<Rightarrow> FieldTable_init | Some t \<Rightarrow> t) args else Inr False)"

definition MatchKey :: "'q \<Rightarrow> string \<Rightarrow> 'q HeadersBoundKey \<Rightarrow> bool" where
  "MatchKey q k bk \<longleftrightarrow> b_queue (hb_binding bk) = q \<and> b_key (hb_binding bk) = k"

text \<open>\<open>FedUnbindModifier\<close>, with its flags \<open>shouldUnbind\<close> and \<open>shouldPropagate\<close>.\<close>

definition FedUnbindModifier :: "string \<Rightarrow> string \<Rightarrow> 'q HeadersBoundKey \<Rightarrow> bool \<times> bool \<Rightarrow> 'q HeadersBoundKey \<times> bool \<times> bool" where
  "FedUnbindModifier qn origin bk m = (case m of (shouldUnbind, shouldPropagate) \<Rightarrow>
     case delOrigin qn origin (hb_fedBinding bk) of (propagate, fed) \<Rightarrow>
       (bk \<lparr> hb_fedBinding := fed \<rparr>, countFedBindings qn fed = 0 \<or> shouldUnbind, propagate))"

text \<open>
  A change of the array copies every element, and with it its table; a copy of a table that has its bytes is not decoded
  yet.
\<close>

definition fresh_key :: "'q HeadersBoundKey \<Rightarrow> 'q HeadersBoundKey" where
  "fresh_key bk = bk \<lparr> hb_args := (case fst (FieldTable_copy [] (hb_args bk)) of Inl e \<Rightarrow> hb_args bk | Inr t \<Rightarrow> t) \<rparr>"

definition fresh_array :: "'q HeadersExchange \<Rightarrow> 'q HeadersExchange" where
  "fresh_array bs = map_option (map fresh_key) bs"

definition HeadersExchange_unbind ::
  "('q \<Rightarrow> string) \<Rightarrow> 'q \<Rightarrow> string \<Rightarrow> FieldTable bind_args option \<Rightarrow> 'q HeadersExchange
     \<Rightarrow> (bool \<times> exchange_event list \<times> 'q HeadersExchange) result" where
  "HeadersExchange_unbind name q k args bs =
     (case modify_if (MatchKey q k) (FedUnbindModifier (name q) (fed_origin args)) bs (False, False) of
        (found, bs, shouldUnbind, propagate) \<Rightarrow>
          let bs = (if found then fresh_array bs else bs);
              done = (\<lambda>bs. Inr (True, (if propagate then [PropagateFedOp k [] fedOpUnbind []] else [])
                        @ (if array_empty bs then [CheckAutodelete] else []), bs))
          in if shouldUnbind
             then (case remove_if (MatchKey q k) bs of (True, bs') \<Rightarrow> done bs' | (False, bs') \<Rightarrow> Inr (False, [], bs'))
             else done bs)"

text \<open>The loop of \<open>bind\<close> that throws when the key is used with other arguments, and the search of \<open>add_unless\<close>.\<close>

fun duplicate_key :: "nat \<Rightarrow> 'q \<Rightarrow> string \<Rightarrow> FieldTable \<Rightarrow> 'q HeadersBoundKey list \<Rightarrow> bool result" where
  "duplicate_key deep q k extra [] = Inr False"
| "duplicate_key deep q k extra (bk # bks) =
     (if MatchKey q k bk
      then res_bind (MatchArgs deep q extra bk) (\<lambda>same. if \<not> same then Inr True else duplicate_key deep q k extra bks)
      else duplicate_key deep q k extra bks)"

fun find_args :: "nat \<Rightarrow> 'q \<Rightarrow> FieldTable \<Rightarrow> 'q HeadersBoundKey list \<Rightarrow> bool result" where
  "find_args deep q extra [] = Inr False"
| "find_args deep q extra (bk # bks) = res_bind (MatchArgs deep q extra bk) (\<lambda>same. if same then Inr True else find_args deep q extra bks)"

text \<open>
  The binding is copied into the array before its origin is recorded: \<open>addOrigin\<close> changes the local variable, and only
  its answer is used.
\<close>

definition HeadersExchange_bind ::
  "nat \<Rightarrow> (byte list \<Rightarrow> byte list) \<Rightarrow> ('q \<Rightarrow> string) \<Rightarrow> 'q \<Rightarrow> string \<Rightarrow> FieldTable bind_args option \<Rightarrow> 'q HeadersExchange
     \<Rightarrow> (bool \<times> exchange_event list \<times> 'q HeadersExchange) result" where
  "HeadersExchange_bind deep uuid_str name q k args bs =
     (let finish = (\<lambda>evs propagate bs. Inr (True,
            evs @ [RouteIVE] @ (if propagate then [PropagateFedOp k (fed_tags args) (fed_op args) (fed_origin args)] else []), bs))
      in res_bind (getNonFedArgs (map_option arg_table args)) (\<lambda>extra.
        if fed_op args = [] \<or> fed_op args = fedOpBind
        then res_bind (getMatch uuid_str (map_option arg_table args)) (\<lambda>(what, t).
          throw_if (what \<noteq> match_all \<and> what \<noteq> match_any) InternalErrorException
            (res_bind (duplicate_key deep q k extra (array_items bs)) (\<lambda>dup.
              throw_if dup InternalErrorException
                (res_bind (find_args deep q extra (array_items bs)) (\<lambda>found.
                  if found then Inr (False, [], bs)
                  else res_bind (fst (FieldTable_copy [] extra)) (\<lambda>extra.
                    let b = \<lparr> b_queue = q, b_key = k, b_args = map_option arg_table args, b_origin = [] \<rparr>;
                        bk = \<lparr> hb_binding = b, hb_args = extra, hb_fedBinding = FedBinding_init \<rparr>;
                        propagate = fst (addOrigin (name q) (fed_origin args) (hb_fedBinding bk))
                    in finish [] propagate (array_add bk (fresh_array bs))))))))
        else if fed_op args = fedOpUnbind
        then (case modify_if (MatchKey q k) (FedUnbindModifier (name q) (fed_origin args)) bs (False, False) of
                (found, bs, shouldUnbind, propagate) \<Rightarrow>
                  let bs = (if found then fresh_array bs else bs) in
                  if shouldUnbind then res_bind (HeadersExchange_unbind name q k args bs) (\<lambda>(r, evs, bs). finish evs propagate bs)
                  else finish [] propagate bs)
        else if fed_op args = fedOpReorigin
        then finish (map (\<lambda>bk. PropagateFedOp (b_key (hb_binding bk)) [] fedOpBind [])
               (filter (\<lambda>bk. hasLocal (hb_fedBinding bk)) (array_items bs))) False bs
        else finish [] False bs))"

text \<open>\<open>route\<close>: the bindings that match, one for each queue, and the array with the tables as matching leaves them.\<close>

fun route_loop ::
  "bool \<Rightarrow> (byte list \<Rightarrow> byte list) \<Rightarrow> (byte list \<times> (64 word) map_call) list \<Rightarrow> 'q HeadersBoundKey list \<Rightarrow> ('q, FieldTable) Binding list
     \<Rightarrow> (('q, FieldTable) Binding list \<times> 'q HeadersBoundKey list) result" where
  "route_loop little uuid_str msg [] b = Inr (b, [])"
| "route_loop little uuid_str msg (i # bks) b =
     res_bind (HeadersExchange_match little uuid_str (hb_args i) msg) (\<lambda>(m, t).
       let b' = (if m \<and> b_queue (hb_binding i) \<notin> b_queue ` set b then b @ [hb_binding i] else b)
       in res_bind (route_loop little uuid_str msg bks b') (\<lambda>(r, bks'). Inr (r, i \<lparr> hb_args := t \<rparr> # bks')))"

definition HeadersExchange_route ::
  "bool \<Rightarrow> (byte list \<Rightarrow> byte list) \<Rightarrow> (byte list \<times> (64 word) map_call) list \<Rightarrow> 'q HeadersExchange
     \<Rightarrow> (('q, FieldTable) Binding list \<times> 'q HeadersExchange) result" where
  "HeadersExchange_route little uuid_str msg bs =
     (case bs of
        None \<Rightarrow> Inr ([], None)
      | Some bks \<Rightarrow> res_bind (route_loop little uuid_str msg bks []) (\<lambda>(r, bks'). Inr (r, Some bks')))"

definition match_values :: "nat \<Rightarrow> FieldValue \<Rightarrow> FieldValue \<Rightarrow> bool result" where
  "match_values deep bind msg =
     (if typeOctet bind = 0xF0 then Inr True
      else if typeOctet bind = typeOctet msg then Data_eq deep (fv_data bind) (fv_data msg) else Inr False)"

definition HeadersExchange_equal :: "nat \<Rightarrow> FieldTable \<Rightarrow> FieldTable \<Rightarrow> bool result" where
  "HeadersExchange_equal deep a b =
     res_bind (realDecode a) (\<lambda>a. res_bind (realDecode b) (\<lambda>b.
       foldr (\<lambda>(k, v) r. case map_of (ft_values b) k of
           None \<Rightarrow> Inr False
         | Some w \<Rightarrow> res_bind (match_values deep v w) (\<lambda>m. if m then r else Inr False)) (ft_values a) (Inr True)))"

fun headers_isBound :: "nat \<Rightarrow> 'q option \<Rightarrow> FieldTable option \<Rightarrow> 'q HeadersBoundKey list \<Rightarrow> bool result" where
  "headers_isBound deep queue args [] = Inr False"
| "headers_isBound deep queue args (bk # bks) =
     res_bind (case args of None \<Rightarrow> Inr True | Some t \<Rightarrow> HeadersExchange_equal deep (hb_args bk) t) (\<lambda>e.
       if e \<and> (case queue of None \<Rightarrow> True | Some q \<Rightarrow> b_queue (hb_binding bk) = q) then Inr True
       else headers_isBound deep queue args bks)"

definition HeadersExchange_isBound :: "nat \<Rightarrow> 'q option \<Rightarrow> FieldTable option \<Rightarrow> 'q HeadersExchange \<Rightarrow> bool result" where
  "HeadersExchange_isBound deep queue args bs = headers_isBound deep queue args (array_items bs)"

definition HeadersExchange_hasBindings :: "'q HeadersExchange \<Rightarrow> bool" where
  "HeadersExchange_hasBindings bs \<longleftrightarrow> array_items bs \<noteq> []"

section \<open>What a match means\<close>

definition as_int :: "FieldValue \<Rightarrow> 64 word" where
  "as_int v = (if convertsToInt (fv_data v) then projr (getInt (fv_data v)) else 0)"

definition as_string :: "(byte list \<Rightarrow> byte list) \<Rightarrow> FieldValue \<Rightarrow> byte list" where
  "as_string uuid_str v = (if convertsToString (fv_data v) then projr (getString uuid_str (fv_data v)) else [])"

definition as_double :: "FieldValue \<Rightarrow> 64 word option" where
  "as_double v = (if typeOctet v = 0x33 then (case fv_data v of FixedWidthValue n os \<Rightarrow> Some (join_octets os) | _ \<Rightarrow> None) else None)"

text \<open>An entry of the binding and the property of the message with the same name.\<close>

fun call_equals :: "(byte list \<Rightarrow> byte list) \<Rightarrow> FieldValue \<Rightarrow> (64 word) map_call \<Rightarrow> bool" where
  "call_equals uuid_str v MC_Void \<longleftrightarrow> False"
| "call_equals uuid_str v (MC_Bool b) \<longleftrightarrow> as_int v = (if b then 1 else 0)"
| "call_equals uuid_str v (MC_Uint8 w) \<longleftrightarrow> as_int v = ucast w"
| "call_equals uuid_str v (MC_Uint16 w) \<longleftrightarrow> as_int v = ucast w"
| "call_equals uuid_str v (MC_Uint32 w) \<longleftrightarrow> as_int v = ucast w"
| "call_equals uuid_str v (MC_Uint64 w) \<longleftrightarrow> as_int v = w"
| "call_equals uuid_str v (MC_Int8 w) \<longleftrightarrow> sint (as_int v) = sint w"
| "call_equals uuid_str v (MC_Int16 w) \<longleftrightarrow> sint (as_int v) = sint w"
| "call_equals uuid_str v (MC_Int32 w) \<longleftrightarrow> sint (as_int v) = sint w"
| "call_equals uuid_str v (MC_Int64 w) \<longleftrightarrow> sint (as_int v) = sint w"
| "call_equals uuid_str v (MC_Float f) \<longleftrightarrow> (case as_double v of None \<Rightarrow> False | Some d \<Rightarrow> double_eq d f)"
| "call_equals uuid_str v (MC_Double f) \<longleftrightarrow> (case as_double v of None \<Rightarrow> False | Some d \<Rightarrow> double_eq d f)"
| "call_equals uuid_str v (MC_String s) \<longleftrightarrow> as_string uuid_str v = octets s"

definition entry_matches :: "(byte list \<Rightarrow> byte list) \<Rightarrow> FieldValue \<Rightarrow> (64 word) map_call \<Rightarrow> bool" where
  "entry_matches uuid_str v c \<longleftrightarrow> typeOctet v = 0xF0 \<or> call_equals uuid_str v c"

definition prop_matches :: "(byte list \<Rightarrow> byte list) \<Rightarrow> (byte list \<rightharpoonup> FieldValue) \<Rightarrow> byte list \<times> (64 word) map_call \<Rightarrow> bool" where
  "prop_matches uuid_str m p = (case m (fst p) of None \<Rightarrow> False | Some v \<Rightarrow> entry_matches uuid_str v (snd p))"

text \<open>A table that is decoded, with its names in order, and whose doubles have eight octets.\<close>

definition header_table :: "FieldTable \<Rightarrow> bool" where
  "header_table t \<longleftrightarrow> \<not> newBytes t \<and> sorted_wrt (<) (map fst (ft_values t))
     \<and> (\<forall>(k, v)\<in>set (ft_values t). typeOctet v = 0x33 \<longrightarrow> (\<exists>os. fv_data v = FixedWidthValue 8 os))"

lemma map_put_keys_same: "map_of es k = Some v \<Longrightarrow> sorted_wrt (<) (map fst es) \<Longrightarrow> map fst (map_put k w es) = map fst es"
proof (induction es)
  case (Cons e es)
  then show ?case by (cases e) (fastforce dest: map_of_SomeD split: if_splits)
qed simp

lemma getDouble_header:
  assumes "header_table t" "map_of (ft_values t) k = Some v"
  shows "\<exists>t'. FieldTable_getDouble little k t = Inr (as_double v, t') \<and> header_table t'
    \<and> map fst (ft_values t') = map fst (ft_values t) \<and> (\<forall>j. j \<noteq> k \<longrightarrow> map_of (ft_values t') j = map_of (ft_values t) j)"
proof (cases "typeOctet v = 0x33")
  case True
  have "(k, v) \<in> set (ft_values t)" using assms(2) by (rule map_of_SomeD)
  then obtain os where os: "fv_data v = FixedWidthValue 8 os" using assms(1) True by (auto simp: header_table_def)
  let ?v = "FieldValue 0x33 (FixedWidthValue 8 (convertIfRequired little os))"
  let ?t = "set_values (map_put k ?v (ft_values t)) t"
  have d: "native_bits little (convertIfRequired little os) = join_octets os" by (simp add: native_bits_def convertIfRequired_def)
  have keys: "map fst (map_put k ?v (ft_values t)) = map fst (ft_values t)"
    using assms by (intro map_put_keys_same) (auto simp: header_table_def)
  have "(j, w) \<in> set (map_put k ?v (ft_values t)) \<Longrightarrow> typeOctet w = 0x33 \<Longrightarrow> \<exists>os. fv_data w = FixedWidthValue 8 os" for j w
  proof -
    assume e: "(j, w) \<in> set (map_put k ?v (ft_values t))" "typeOctet w = 0x33"
    have "distinct (map fst (map_put k ?v (ft_values t)))" using assms(1) unfolding keys by (auto simp: header_table_def strict_sorted_iff)
    then have "map_of (map_put k ?v (ft_values t)) j = Some w" using e(1) by simp
    then have "w = ?v \<or> map_of (ft_values t) j = Some w" by (auto simp: map_of_put split: if_splits)
    then show ?thesis using e(2) assms(1) by (auto simp: header_table_def dest!: map_of_SomeD)
  qed
  then have "header_table ?t" using assms(1) keys by (auto simp: header_table_def)
  then show ?thesis
    using assms True os d keys by (auto simp: FieldTable_getDouble_def getRawFixedWidthValue_def FieldTable_get_def header_table_def
        getFloatingPointValue_def Let_def as_double_def map_of_put)
next
  case False
  then show ?thesis using assms
    by (auto simp: FieldTable_getDouble_def getRawFixedWidthValue_def FieldTable_get_def header_table_def as_double_def)
qed

lemma getInt_conv: "convertsToInt d \<Longrightarrow> \<exists>i. getInt d = Inr i"
  by (cases d) auto

lemma getString_conv: "convertsToString d \<Longrightarrow> \<exists>s. getString uuid_str d = Inr s"
  by (cases d) auto

lemma get_header:
  assumes "header_table t" "map_of (ft_values t) k = Some v"
  shows "getAsString uuid_str k t = Inr (as_string uuid_str v, t)" "getAsInt64_bits k t = Inr (as_int v, t)"
proof -
  show "getAsString uuid_str k t = Inr (as_string uuid_str v, t)"
    using assms getString_conv [of "fv_data v" uuid_str] by (auto simp: getAsString_def FieldTable_get_def header_table_def as_string_def)
  show "getAsInt64_bits k t = Inr (as_int v, t)"
    using assms getInt_conv [of "fv_data v"] by (auto simp: getAsInt64_bits_def FieldTable_get_def header_table_def as_int_def)
qed

lemma processValue_header:
  assumes "header_table t" "\<And>v. map_of (ft_values t) k = Some v \<Longrightarrow> \<exists>t'. equal t = Inr (e v, t') \<and> header_table t'
      \<and> map fst (ft_values t') = map fst (ft_values t) \<and> (\<forall>j. j \<noteq> k \<longrightarrow> map_of (ft_values t') j = map_of (ft_values t) j)"
  shows "\<exists>t'. processValue k equal (t, n) = Inr (t', n + (if \<exists>v. map_of (ft_values t) k = Some v \<and> (typeOctet v = 0xF0 \<or> e v) then 1 else 0))
    \<and> header_table t' \<and> map fst (ft_values t') = map fst (ft_values t) \<and> (\<forall>j. j \<noteq> k \<longrightarrow> map_of (ft_values t') j = map_of (ft_values t) j)"
proof (cases "map_of (ft_values t) k")
  case (Some v)
  then show ?thesis using assms by (auto simp: processValue_def valueCheckRequired_def FieldTable_get_def header_table_def)
qed (use assms in \<open>auto simp: processValue_def valueCheckRequired_def FieldTable_get_def header_table_def\<close>)

lemma handle_header:
  assumes "header_table t"
  shows "\<exists>t'. Matcher_handle little uuid_str (k, c) (t, n) = Inr (t', n + (if prop_matches uuid_str (map_of (ft_values t)) (k, c) then 1 else 0))
    \<and> header_table t' \<and> map fst (ft_values t') = map fst (ft_values t) \<and> (\<forall>j. j \<noteq> k \<longrightarrow> map_of (ft_values t') j = map_of (ft_values t) j)"
proof -
  let ?H = "\<lambda>r e. \<exists>t'. r = Inr (t', n + (if \<exists>v. map_of (ft_values t) k = Some v \<and> (typeOctet v = 0xF0 \<or> e v) then 1 else 0))
    \<and> header_table t' \<and> map fst (ft_values t') = map fst (ft_values t) \<and> (\<forall>j. j \<noteq> k \<longrightarrow> map_of (ft_values t') j = map_of (ft_values t) j)"
  have m: "prop_matches uuid_str (map_of (ft_values t)) (k, c) \<longleftrightarrow> (\<exists>v. map_of (ft_values t) k = Some v \<and> (typeOctet v = 0xF0 \<or> call_equals uuid_str v c))"
    by (auto simp: prop_matches_def entry_matches_def split: option.splits)
  have u: "?H (processUint k w (t, n)) (\<lambda>v. as_int v = w)" for w
    unfolding processUint_def by (rule processValue_header [OF assms]) (use get_header [OF assms] assms in \<open>simp add: getAsUInt64_def\<close>)
  have i: "?H (processInt k w (t, n)) (\<lambda>v. sint (as_int v) = w)" for w
    unfolding processInt_def by (rule processValue_header [OF assms]) (use get_header [OF assms] assms in \<open>simp add: getAsInt64_def\<close>)
  have s: "?H (Matcher_processString uuid_str k w (t, n)) (\<lambda>v. as_string uuid_str v = w)" for w
    unfolding Matcher_processString_def by (rule processValue_header [OF assms]) (use get_header [OF assms] assms in simp)
  have f: "?H (processFloat little k w (t, n)) (\<lambda>v. case as_double v of None \<Rightarrow> False | Some d \<Rightarrow> double_eq d w)" for w
    unfolding processFloat_def
  proof (rule processValue_header [OF assms])
    fix v
    assume "map_of (ft_values t) k = Some v"
    from getDouble_header [OF assms this, of little]
    show "\<exists>t'. res_bind (FieldTable_getDouble little k t) (\<lambda>(f, t). Inr (case f of None \<Rightarrow> False | Some bound \<Rightarrow> double_eq bound w, t))
        = Inr (case as_double v of None \<Rightarrow> False | Some d \<Rightarrow> double_eq d w, t') \<and> header_table t'
      \<and> map fst (ft_values t') = map fst (ft_values t) \<and> (\<forall>j. j \<noteq> k \<longrightarrow> map_of (ft_values t') j = map_of (ft_values t) j)" by auto
  qed
  show ?thesis
  proof (cases c)
    case MC_Void
    then show ?thesis using assms
      by (cases "map_of (ft_values t) k")
        (auto simp: prop_matches_def entry_matches_def valueCheckRequired_def FieldTable_get_def header_table_def)
  qed (unfold m, use u i s f in auto)
qed

lemma properties_header:
  assumes "header_table t" "distinct (map fst ps)"
  shows "\<exists>t'. processProperties little uuid_str ps (t, n) = Inr (t', n + length (filter (prop_matches uuid_str (map_of (ft_values t))) ps))
    \<and> header_table t' \<and> map fst (ft_values t') = map fst (ft_values t)
    \<and> (\<forall>j. j \<notin> fst ` set ps \<longrightarrow> map_of (ft_values t') j = map_of (ft_values t) j)"
  using assms
proof (induction ps arbitrary: t n)
  case (Cons p ps)
  obtain k c where p: "p = (k, c)" by fastforce
  let ?m = "if prop_matches uuid_str (map_of (ft_values t)) p then 1 else 0 :: nat"
  from handle_header [OF Cons.prems(1), of little uuid_str k c n] obtain t1 where
    t1: "Matcher_handle little uuid_str p (t, n) = Inr (t1, n + ?m)" "header_table t1" "map fst (ft_values t1) = map fst (ft_values t)"
    "\<forall>j. j \<noteq> k \<longrightarrow> map_of (ft_values t1) j = map_of (ft_values t) j" unfolding p by blast
  have "filter (prop_matches uuid_str (map_of (ft_values t1))) ps = filter (prop_matches uuid_str (map_of (ft_values t))) ps"
    using t1(4) Cons.prems(2) p by (intro filter_cong) (auto simp: prop_matches_def image_iff)
  then show ?case using Cons.IH [OF t1(2), of "n + ?m"] Cons.prems(2) t1 p by (auto split: if_splits)
qed simp

lemma processProperties_decoded:
  assumes "realDecode t = Inr t0"
  shows "ps \<noteq> [] \<Longrightarrow> processProperties little uuid_str ps (t, n) = processProperties little uuid_str ps (t0, n)"
proof -
  have "\<not> newBytes t0" using realDecode_done [OF assms] by simp
  then have "FieldTable_get k t = FieldTable_get k t0" for k using assms by (simp add: FieldTable_get_def)
  then have v: "valueCheckRequired k (t, n) = valueCheckRequired k (t0, n)" for k by (simp add: valueCheckRequired_def)
  then have "Matcher_handle little uuid_str p (t, n) = Matcher_handle little uuid_str p (t0, n)" for p
    by (cases "(little, uuid_str, p, (t, n))" rule: Matcher_handle.cases)
      (simp_all add: processUint_def processInt_def processFloat_def Matcher_processString_def processValue_def)
  then show "ps \<noteq> [] \<Longrightarrow> processProperties little uuid_str ps (t, n) = processProperties little uuid_str ps (t0, n)"
    by (cases ps) simp_all
qed

lemma prop_matches_iff: "prop_matches uuid_str m (k, c) \<longleftrightarrow> (\<exists>v. m k = Some v \<and> entry_matches uuid_str v c)"
  by (simp add: prop_matches_def split: option.splits)

text \<open>Counting the properties that match counts the entries that are matched.\<close>

lemma matched_count:
  assumes "distinct (map fst ps)" "x \<notin> fst ` set ps" "distinct (map fst es)" "x \<in> fst ` set es"
  shows "length (filter (prop_matches uuid_str (map_of es)) ps) = length es - 1
    \<longleftrightarrow> (\<forall>k v. map_of es k = Some v \<longrightarrow> k \<noteq> x \<longrightarrow> (\<exists>c. (k, c) \<in> set ps \<and> entry_matches uuid_str v c))" (is "?l \<longleftrightarrow> ?r")
proof -
  let ?M = "fst ` set (filter (prop_matches uuid_str (map_of es)) ps)" and ?K = "fst ` set es - {x}"
  have c1: "length (filter (prop_matches uuid_str (map_of es)) ps) = card ?M"
    using distinct_card [of "map fst (filter (prop_matches uuid_str (map_of es)) ps)"] assms(1) by (simp add: distinct_map_filter)
  have c2: "length es - 1 = card ?K" using distinct_card [of "map fst es"] assms(3,4) by simp
  have sub: "?M \<subseteq> ?K"
  proof
    fix k
    assume "k \<in> ?M"
    then obtain c v where "(k, c) \<in> set ps" "map_of es k = Some v" by (auto simp: prop_matches_iff)
    then show "k \<in> ?K" using assms(2) map_of_SomeD [of es k v] by (auto simp: rev_image_eqI)
  qed
  have "?l \<longleftrightarrow> ?M = ?K" unfolding c1 c2 using sub card_subset_eq [of ?K ?M] by auto
  also have "\<dots> \<longleftrightarrow> ?K \<subseteq> ?M" using sub by blast
  also have "\<dots> \<longleftrightarrow> ?r"
  proof
    assume k: "?K \<subseteq> ?M"
    show ?r
    proof (intro allI impI)
      fix k v
      assume v: "map_of es k = Some v" "k \<noteq> x"
      then have "k \<in> ?K" using map_of_SomeD [OF v(1)] by (auto simp: rev_image_eqI)
      with k have "k \<in> ?M" by (rule subsetD)
      then obtain p where "k = fst p" and p: "p \<in> set (filter (prop_matches uuid_str (map_of es)) ps)" by (rule imageE)
      then have kp: "p = (k, snd p)" by simp
      from p have "(k, snd p) \<in> set ps" "prop_matches uuid_str (map_of es) (k, snd p)" by (simp_all flip: kp)
      then show "\<exists>c. (k, c) \<in> set ps \<and> entry_matches uuid_str v c" using v(1) by (auto simp: prop_matches_iff)
    qed
  next
    assume r: ?r
    show "?K \<subseteq> ?M"
    proof
      fix k
      assume "k \<in> ?K"
      then obtain v where v: "map_of es k = Some v" "k \<noteq> x" using assms(3) by (auto simp: image_iff)
      then obtain c where "(k, c) \<in> set ps" "entry_matches uuid_str v c" using r by blast
      then show "k \<in> ?M" using v by (auto simp: prop_matches_def image_iff intro!: bexI [of _ "(k, c)"])
    qed
  qed
  finally show ?thesis .
qed

lemma getMatch_header:
  assumes "realDecode t = Inr t0" "map_of (ft_values t0) x_match = Some (FieldValue ty (VariableWidthValue w what))"
  shows "getMatch uuid_str (Some t) = Inr (what, Some t0)"
  using assms by (simp add: getMatch_def FieldTable_get_def)

text \<open>
  C15. The headers exchange matches as its \<open>x-match\<close> argument says, for a message without a property of that name: with
  \<open>all\<close> if every other entry of the binding is matched by the property with its name, with \<open>any\<close> if one is; an entry
  without a value is matched by any property.
\<close>

theorem headers_match_correct:
  assumes "realDecode t = Inr t0" "header_table t0" "map_of (ft_values t0) x_match = Some (FieldValue ty (VariableWidthValue w what))"
    "distinct (map fst ps)" "x_match \<notin> fst ` set ps" "what = match_all \<or> what = match_any"
  shows "\<exists>t'. HeadersExchange_match little uuid_str t ps = Inr
     (if what = match_all
      then \<forall>k v. map_of (ft_values t0) k = Some v \<longrightarrow> k \<noteq> x_match \<longrightarrow> (\<exists>c. (k, c) \<in> set ps \<and> entry_matches uuid_str v c)
      else \<exists>k v c. map_of (ft_values t0) k = Some v \<and> (k, c) \<in> set ps \<and> entry_matches uuid_str v c, t')"
proof -
  let ?n = "length (filter (prop_matches uuid_str (map_of (ft_values t0))) ps)"
  obtain t1 where t1: "processProperties little uuid_str ps (t0, 0) = Inr (t1, ?n)" "header_table t1"
    "map fst (ft_values t1) = map fst (ft_values t0)" "map_of (ft_values t1) x_match = map_of (ft_values t0) x_match"
    using properties_header [OF assms(2,4), of little uuid_str 0] assms(5) by auto
  have dec: "\<not> newBytes t0" "\<not> newBytes t1" using assms(2) t1(2) by (simp_all add: header_table_def)
  have same: "match_all \<noteq> match_any" by (simp add: match_all_def match_any_def octets_def)
  have any: "0 < ?n \<longleftrightarrow> (\<exists>k v c. map_of (ft_values t0) k = Some v \<and> (k, c) \<in> set ps \<and> entry_matches uuid_str v c)"
  proof -
    have "0 < ?n \<longleftrightarrow> (\<exists>k c. (k, c) \<in> set ps \<and> prop_matches uuid_str (map_of (ft_values t0)) (k, c))"
      by (auto simp: filter_empty_conv)
    then show ?thesis unfolding prop_matches_iff by blast
  qed
  have "distinct (map fst (ft_values t0))" using assms(2) by (simp add: header_table_def strict_sorted_iff)
  then have all: "?n = length (ft_values t0) - 1 \<longleftrightarrow>
      (\<forall>k v. map_of (ft_values t0) k = Some v \<longrightarrow> k \<noteq> x_match \<longrightarrow> (\<exists>c. (k, c) \<in> set ps \<and> entry_matches uuid_str v c))"
    using map_of_SomeD [OF assms(3)] by (intro matched_count [OF assms(4,5)]) (auto simp: rev_image_eqI)
  have len: "length (ft_values t1) = length (ft_values t0)" using t1(3) by (metis length_map)
  obtain t2 m2 where p: "processProperties little uuid_str ps (t, 0) = Inr (t2, ?n)" "realDecode t2 = Inr m2"
    "map_of (ft_values m2) x_match = map_of (ft_values t0) x_match" "length (ft_values m2) = length (ft_values t0)"
  proof (cases "ps = []")
    case True
    then show ?thesis using that [of t t0] assms(1) by simp
  next
    case False
    then show ?thesis using that [of t1 t1] processProperties_decoded [OF assms(1) False] t1 dec len by simp
  qed
  have "getMatch uuid_str (Some t2) = Inr (what, Some m2)" using p(2,3) assms(3) by (intro getMatch_header) simp_all
  then have "HeadersExchange_match little uuid_str t ps
      = Inr (if what = match_all then ?n = length (ft_values t0) - 1 else 0 < ?n, m2)"
    using p assms(6) same by (auto simp: HeadersExchange_match_def Matcher_matches_def FieldTable_count_def)
  then show ?thesis unfolding all any by blast
qed

theorem headers_match_correct_witness:
  "let t = FieldTable [(octets ''a'', Str16Value (octets ''v'')), (x_match, Str16Value match_all)] None 0 False in
     (\<exists>t'. HeadersExchange_match True id t [(octets ''a'', MC_String ''v''), (octets ''b'', MC_Void)] = Inr (True, t'))
   \<and> (\<exists>t'. HeadersExchange_match True id t [(octets ''a'', MC_String ''w'')] = Inr (False, t'))"
proof -
  let ?t = "FieldTable [(octets ''a'', Str16Value (octets ''v'')), (x_match, Str16Value match_all)] None 0 False"
  have n: "octets ''a'' \<noteq> x_match" "octets ''b'' \<noteq> x_match" "octets ''a'' < x_match" "octets ''v'' \<noteq> octets ''w''" "octets ''a'' \<noteq> octets ''b''"
    by (simp_all add: octets_def x_match_def)
  have h: "realDecode ?t = Inr ?t" "header_table ?t" "map_of (ft_values ?t) x_match = Some (FieldValue 0x95 (VariableWidthValue 2 match_all))"
    using n by (auto simp: header_table_def Str16Value_def)
  have e: "entry_matches id (Str16Value (octets ''v'')) (MC_String s) \<longleftrightarrow> octets ''v'' = octets s" for s
    by (simp add: entry_matches_def Str16Value_def as_string_def)
  show ?thesis unfolding Let_def
    using headers_match_correct [OF h, of "[(octets ''a'', MC_String ''v''), (octets ''b'', MC_Void)]" True id]
      headers_match_correct [OF h, of "[(octets ''a'', MC_String ''w'')]" True id] n
    by (auto simp: e split: if_splits)
qed

text \<open>
  Matches that the arguments do not ask for: a property named \<open>x-match\<close> counts as a header, so that a message with
  that property and no other matches a binding that requires one header; a property with the integer 0 matches an entry
  whose value is a string, and an empty string property an entry whose value is an integer.
\<close>

theorem headers_match_spurious:
  "let xm = (x_match, Str16Value match_all);
       matches = (\<lambda>es ps. map_sum id fst (HeadersExchange_match True id (FieldTable es None 0 False) ps)) in
     matches [(octets ''a'', Str16Value (octets ''v'')), xm] [(x_match, MC_String ''all'')] = Inr True
   \<and> matches [(octets ''a'', Str16Value (octets ''v'')), xm] [(octets ''a'', MC_Int32 0)] = Inr True
   \<and> matches [(octets ''a'', IntegerValue 5), xm] [(octets ''a'', MC_String [])] = Inr True"
  by code_simp

text \<open>
  A request of a federated broker, with its operation and origin in the table of arguments.
\<close>

definition new_state :: "(bool \<times> exchange_event list \<times> 's) result \<Rightarrow> 's" where
  "new_state r = snd (snd (projr r))"

definition fed_request :: "string \<Rightarrow> string \<Rightarrow> FieldTable bind_args option" where
  "fed_request op origin = projr (read_args id (Some (FieldTable [(qpidFedOp, Str16Value (octets op)),
     (qpidFedOrigin, Str16Value (octets origin)), (x_match, Str16Value match_all)] None 0 False)))"

text \<open>
  The headers exchange does not keep the origins of a federated binding, and compares the arguments of a new request
  without the federation arguments with those of a binding that has them: after a bind from one origin, a repetition of
  the request throws, and an unbind from another origin, which has no binding, removes the binding. The direct exchange
  answers the first with false and keeps the binding in the second case.
\<close>

theorem headers_fed_origin_lost:
  "let hbind = HeadersExchange_bind 4 id id ''q'' ''k''; dbind = DirectExchange_bind id ''q'' ''k'';
       h = new_state (hbind (fed_request fedOpBind ''A'') None); d = new_state (dbind (fed_request fedOpBind ''A'') [])
   in map_sum id fst (hbind (fed_request fedOpBind ''A'') h) = Inl InternalErrorException
    \<and> map_sum id fst (dbind (fed_request fedOpBind ''A'') d) = Inr False
    \<and> length (array_items h) = 1 \<and> length (array_items (new_state (hbind (fed_request fedOpUnbind ''B'') h))) = 0
    \<and> length (array_items (queues (bound_key ''k'' (new_state (dbind (fed_request fedOpUnbind ''B'') d))))) = 1"
  by code_simp

section \<open>Routing\<close>

definition key_matches :: "bool \<Rightarrow> (byte list \<Rightarrow> byte list) \<Rightarrow> (byte list \<times> (64 word) map_call) list \<Rightarrow> 'q HeadersBoundKey \<Rightarrow> bool" where
  "key_matches little uuid_str msg bk = (case HeadersExchange_match little uuid_str (hb_args bk) msg of Inl e \<Rightarrow> False | Inr (m, t) \<Rightarrow> m)"

lemma route_loop_correct:
  assumes "route_loop little uuid_str msg bks b = Inr (r, bks')" "distinct (map b_queue b)"
  shows "distinct (map b_queue r) \<and> b_queue ` set r = b_queue ` set b \<union> (b_queue \<circ> hb_binding) ` {bk \<in> set bks. key_matches little uuid_str msg bk}
    \<and> map hb_binding bks' = map hb_binding bks"
  using assms
proof (induction bks arbitrary: b r bks')
  case (Cons i bks)
  from Cons.prems(1) obtain m t r' bks'' where
    m: "HeadersExchange_match little uuid_str (hb_args i) msg = Inr (m, t)" and
    l: "route_loop little uuid_str msg bks (if m \<and> b_queue (hb_binding i) \<notin> b_queue ` set b then b @ [hb_binding i] else b) = Inr (r, bks'')"
    "bks' = i \<lparr> hb_args := t \<rparr> # bks''"
    by (auto simp: res_bind_eq_Inr Let_def)
  have "key_matches little uuid_str msg i = m" using m by (simp add: key_matches_def)
  moreover have "distinct (map b_queue (if m \<and> b_queue (hb_binding i) \<notin> b_queue ` set b then b @ [hb_binding i] else b))"
    using Cons.prems(2) by auto
  note Cons.IH [OF l(1) this]
  ultimately show ?case using l(2) by (cases m; cases "b_queue (hb_binding i) \<in> b_queue ` set b") (auto simp: image_iff)
qed auto

text \<open>
  The headers exchange routes a message, once each, to the queues that have a binding whose table matches it, and
  routing changes no binding.
\<close>

theorem headers_route_once:
  assumes "HeadersExchange_route little uuid_str msg bs = Inr (r, bs')"
  shows "distinct (map b_queue r) \<and> b_queue ` set r = (b_queue \<circ> hb_binding) ` {bk \<in> set (array_items bs). key_matches little uuid_str msg bk}
    \<and> map hb_binding (array_items bs') = map hb_binding (array_items bs)"
proof (cases bs)
  case None
  then show ?thesis using assms by (simp add: HeadersExchange_route_def array_items_def)
next
  case (Some bks)
  then obtain bks' where "route_loop little uuid_str msg bks [] = Inr (r, bks')" "bs' = Some bks'"
    using assms by (auto simp: HeadersExchange_route_def res_bind_eq_Inr)
  then show ?thesis using route_loop_correct [of little uuid_str msg bks "[]" r bks'] Some by (simp add: array_items_def)
qed

theorem headers_route_once_witness:
  "let t = FieldTable [(octets ''a'', VoidValue), (x_match, Str16Value match_any)] None 0 False;
       b = \<lparr> b_queue = ''q'', b_key = ''k'', b_args = None, b_origin = [] \<rparr>;
       bk = \<lparr> hb_binding = b, hb_args = t, hb_fedBinding = FedBinding_init \<rparr>
   in \<exists>r bs'. HeadersExchange_route True id [(octets ''a'', MC_Bool True)] (Some [bk, bk]) = Inr (r, bs') \<and> distinct (map b_queue r)"
proof -
  let ?t = "FieldTable [(octets ''a'', VoidValue), (x_match, Str16Value match_any)] None 0 False"
  let ?b = "\<lparr> b_queue = ''q'', b_key = ''k'', b_args = None, b_origin = [] \<rparr>"
  let ?bk = "\<lparr> hb_binding = ?b, hb_args = ?t, hb_fedBinding = FedBinding_init \<rparr>"
  let ?r = "HeadersExchange_route True id [(octets ''a'', MC_Bool True)] (Some [?bk, ?bk])"
  have "isl ?r = False" by code_simp
  then obtain r bs' where "?r = Inr (r, bs')" by (cases ?r) auto
  then show ?thesis using headers_route_once [of True id _ _ r bs'] by auto
qed

end
