(* ===== verification/Consumer_Credit.thy ===== *)
theory Consumer_Credit
  imports Prelude
begin

text \<open>
  The credit a subscription holds (\<open>broker/Credit.h\<close>, \<open>broker/Credit.cpp\<close>). A \<open>CreditBalance\<close> is
  spent by deliveries, a \<open>CreditWindow\<close> (a subclass that overrides \<open>check\<close>, \<open>consume\<close> and
  \<open>remaining\<close>) counts the deliveries in flight against an allocation, and a \<open>Credit\<close> holds one of
  each for messages and for bytes. Amounts are 32-bit words, so additions and subtractions wrap.
  The locale states what both kinds of account promise; the two interpretations discharge it.
\<close>

section \<open>Balances and windows\<close>

record CreditBalance =
  balance :: "32 word"

record CreditWindow = CreditBalance +
  used :: "32 word"

definition INFINITE_CREDIT :: "32 word" where
  "INFINITE_CREDIT = 0xFFFFFFFF"

definition CreditBalance_init :: CreditBalance where
  "CreditBalance_init = \<lparr> balance = 0 \<rparr>"

definition CreditBalance_clear :: "'a CreditBalance_scheme \<Rightarrow> 'a CreditBalance_scheme" where
  "CreditBalance_clear c = c \<lparr> balance := 0 \<rparr>"

definition CreditBalance_grant :: "32 word \<Rightarrow> 'a CreditBalance_scheme \<Rightarrow> 'a CreditBalance_scheme" where
  "CreditBalance_grant val c =
    (if balance c \<noteq> INFINITE_CREDIT then
       if val = INFINITE_CREDIT then c \<lparr> balance := INFINITE_CREDIT \<rparr>
       else if INFINITE_CREDIT - balance c > val then c \<lparr> balance := balance c + val \<rparr>
       else c \<lparr> balance := INFINITE_CREDIT - 1 \<rparr>
     else c)"

definition CreditBalance_unlimited :: "'a CreditBalance_scheme \<Rightarrow> bool" where
  "CreditBalance_unlimited c \<longleftrightarrow> balance c = INFINITE_CREDIT"

definition CreditBalance_consume :: "32 word \<Rightarrow> 'a CreditBalance_scheme \<Rightarrow> 'a CreditBalance_scheme" where
  "CreditBalance_consume val c =
    (if \<not> CreditBalance_unlimited c then c \<lparr> balance := balance c - val \<rparr> else c)"

definition CreditBalance_check :: "32 word \<Rightarrow> 'a CreditBalance_scheme \<Rightarrow> bool" where
  "CreditBalance_check required c \<longleftrightarrow> balance c \<ge> required"

definition CreditBalance_remaining :: "'a CreditBalance_scheme \<Rightarrow> 32 word" where
  "CreditBalance_remaining c = balance c"

definition CreditBalance_allocated :: "'a CreditBalance_scheme \<Rightarrow> 32 word" where
  "CreditBalance_allocated c = balance c"

definition CreditWindow_init :: CreditWindow where
  "CreditWindow_init = \<lparr> balance = 0, used = 0 \<rparr>"

definition CreditWindow_check :: "32 word \<Rightarrow> CreditWindow \<Rightarrow> bool" where
  "CreditWindow_check required w \<longleftrightarrow> CreditBalance_check (used w + required) w"

definition CreditWindow_consume :: "32 word \<Rightarrow> CreditWindow \<Rightarrow> CreditWindow" where
  "CreditWindow_consume val w =
    (if \<not> CreditBalance_unlimited w then w \<lparr> used := used w + val \<rparr> else w)"

definition CreditWindow_move :: "32 word \<Rightarrow> CreditWindow \<Rightarrow> CreditWindow" where
  "CreditWindow_move val w =
    (if \<not> CreditBalance_unlimited w then w \<lparr> used := used w - val \<rparr> else w)"

definition CreditWindow_remaining :: "CreditWindow \<Rightarrow> 32 word" where
  "CreditWindow_remaining w = CreditBalance_allocated w - used w"

definition CreditWindow_consumed :: "CreditWindow \<Rightarrow> 32 word" where
  "CreditWindow_consumed w = used w"

section \<open>The credit of a subscription\<close>

record 'a CreditPair =
  pair_messages :: 'a
  pair_bytes :: 'a

record Credit =
  windowing :: bool
  credit_balance :: "CreditBalance CreditPair"
  credit_window :: "CreditWindow CreditPair"

definition Credit_init :: Credit where
  "Credit_init = \<lparr> windowing = True,
     credit_balance = \<lparr> pair_messages = CreditBalance_init, pair_bytes = CreditBalance_init \<rparr>,
     credit_window = \<lparr> pair_messages = CreditWindow_init, pair_bytes = CreditWindow_init \<rparr> \<rparr>"

definition Credit_setWindowMode :: "bool \<Rightarrow> Credit \<Rightarrow> Credit" where
  "Credit_setWindowMode b c = c \<lparr> windowing := b \<rparr>"

definition Credit_isWindowMode :: "Credit \<Rightarrow> bool" where
  "Credit_isWindowMode c = windowing c"

text \<open>
  \<open>messages()\<close> and \<open>bytes()\<close> return a reference to the balance or to the window; a call on the
  reference is a call on the account of the current mode, by the method of its own class. The
  following two apply such a call to the message or to the byte account.
\<close>

definition Credit_messages ::
  "(CreditBalance \<Rightarrow> CreditBalance) \<Rightarrow> (CreditWindow \<Rightarrow> CreditWindow) \<Rightarrow> Credit \<Rightarrow> Credit" where
  "Credit_messages f g c =
    (if windowing c
     then c \<lparr> credit_window := credit_window c \<lparr> pair_messages := g (pair_messages (credit_window c)) \<rparr> \<rparr>
     else c \<lparr> credit_balance := credit_balance c \<lparr> pair_messages := f (pair_messages (credit_balance c)) \<rparr> \<rparr>)"

definition Credit_bytes ::
  "(CreditBalance \<Rightarrow> CreditBalance) \<Rightarrow> (CreditWindow \<Rightarrow> CreditWindow) \<Rightarrow> Credit \<Rightarrow> Credit" where
  "Credit_bytes f g c =
    (if windowing c
     then c \<lparr> credit_window := credit_window c \<lparr> pair_bytes := g (pair_bytes (credit_window c)) \<rparr> \<rparr>
     else c \<lparr> credit_balance := credit_balance c \<lparr> pair_bytes := f (pair_bytes (credit_balance c)) \<rparr> \<rparr>)"

definition Credit_addByteCredit :: "32 word \<Rightarrow> Credit \<Rightarrow> Credit" where
  "Credit_addByteCredit val = Credit_bytes (CreditBalance_grant val) (CreditBalance_grant val)"

definition Credit_addMessageCredit :: "32 word \<Rightarrow> Credit \<Rightarrow> Credit" where
  "Credit_addMessageCredit val = Credit_messages (CreditBalance_grant val) (CreditBalance_grant val)"

definition Credit_cancel :: "Credit \<Rightarrow> Credit" where
  "Credit_cancel c =
    Credit_bytes CreditBalance_clear CreditBalance_clear
      (Credit_messages CreditBalance_clear CreditBalance_clear c)"

definition Credit_moveWindow :: "32 word \<Rightarrow> 32 word \<Rightarrow> Credit \<Rightarrow> Credit" where
  "Credit_moveWindow m b c =
    (if windowing c then
       c \<lparr> credit_window := \<lparr> pair_messages = CreditWindow_move m (pair_messages (credit_window c)),
                              pair_bytes = CreditWindow_move b (pair_bytes (credit_window c)) \<rparr> \<rparr>
     else c)"

definition Credit_consume :: "32 word \<Rightarrow> 32 word \<Rightarrow> Credit \<Rightarrow> Credit" where
  "Credit_consume m b c =
    Credit_bytes (CreditBalance_consume b) (CreditWindow_consume b)
      (Credit_messages (CreditBalance_consume m) (CreditWindow_consume m) c)"

definition Credit_check :: "32 word \<Rightarrow> 32 word \<Rightarrow> Credit \<Rightarrow> bool" where
  "Credit_check m b c =
    (if windowing c
     then CreditWindow_check m (pair_messages (credit_window c)) \<and>
          CreditWindow_check b (pair_bytes (credit_window c))
     else CreditBalance_check m (pair_messages (credit_balance c)) \<and>
          CreditBalance_check b (pair_bytes (credit_balance c)))"

definition Credit_used :: "Credit \<Rightarrow> 32 word CreditPair" where
  "Credit_used c =
    (if windowing c
     then \<lparr> pair_messages = CreditWindow_consumed (pair_messages (credit_window c)),
            pair_bytes = CreditWindow_consumed (pair_bytes (credit_window c)) \<rparr>
     else \<lparr> pair_messages = 0, pair_bytes = 0 \<rparr>)"

definition Credit_allocated :: "Credit \<Rightarrow> 32 word CreditPair" where
  "Credit_allocated c =
    (if windowing c
     then \<lparr> pair_messages = CreditBalance_allocated (pair_messages (credit_window c)),
            pair_bytes = CreditBalance_allocated (pair_bytes (credit_window c)) \<rparr>
     else \<lparr> pair_messages = CreditBalance_allocated (pair_messages (credit_balance c)),
            pair_bytes = CreditBalance_allocated (pair_bytes (credit_balance c)) \<rparr>)"

definition Credit_bool :: "Credit \<Rightarrow> bool" where
  "Credit_bool c = Credit_check 1 1 c"

lemmas balance_defs = CreditBalance_init_def CreditBalance_clear_def CreditBalance_grant_def
  CreditBalance_unlimited_def CreditBalance_consume_def CreditBalance_check_def
  CreditBalance_remaining_def CreditBalance_allocated_def

lemmas window_defs = CreditWindow_init_def CreditWindow_check_def CreditWindow_consume_def
  CreditWindow_move_def CreditWindow_remaining_def CreditWindow_consumed_def

lemma INFINITE_CREDIT_minus_one: "INFINITE_CREDIT = - 1"
  by (simp add: INFINITE_CREDIT_def)

lemma INFINITE_CREDIT_max [simp]: "v \<le> INFINITE_CREDIT"
  using word_order.extremum [of v] by (simp only: INFINITE_CREDIT_minus_one)

lemma below_INFINITE_CREDIT: "v < INFINITE_CREDIT \<longleftrightarrow> v \<noteq> INFINITE_CREDIT"
  by (simp add: order_less_le)

lemma unat_INFINITE_CREDIT [simp]: "unat INFINITE_CREDIT = 2 ^ 32 - 1"
  by (simp add: INFINITE_CREDIT_def)

lemma unat32_less: "unat (v :: 32 word) < 2 ^ 32"
  using unsigned_less [of v, where ?'a = nat] by simp

lemma unat_add_fits:
  fixes a b :: "32 word"
  assumes "unat a + unat b < 2 ^ 32"
  shows "unat (a + b) = unat a + unat b"
  using assms by (simp add: unat_word_ariths)

section \<open>What an account promises\<close>

text \<open>
  An account has a room, an integer that can be negative once a window has been cancelled under
  deliveries in flight. A check that does not wrap decides whether the amount fits in the room,
  consuming an amount that fits lowers the room by it, and an unlimited account accepts anything
  and never changes.
\<close>

locale credit_account =
  fixes check :: "32 word \<Rightarrow> 'a \<Rightarrow> bool"
    and consume :: "32 word \<Rightarrow> 'a \<Rightarrow> 'a"
    and room :: "'a \<Rightarrow> int"
    and limited :: "'a \<Rightarrow> bool"
    and exact :: "32 word \<Rightarrow> 'a \<Rightarrow> bool"
  assumes check_room: "limited a \<Longrightarrow> exact v a \<Longrightarrow> check v a \<longleftrightarrow> uint v \<le> room a"
    and consume_room: "limited a \<Longrightarrow> exact v a \<Longrightarrow> check v a \<Longrightarrow> room (consume v a) = room a - uint v"
    and consume_limited: "limited a \<Longrightarrow> exact v a \<Longrightarrow> check v a \<Longrightarrow> limited (consume v a)"
    and unlimited: "\<not> limited a \<Longrightarrow> check v a \<and> consume v a = a"
begin

lemma room_never_negative:
  assumes "limited a" "exact v a" "check v a"
  shows "0 \<le> room (consume v a)"
  using assms check_room consume_room by simp

lemma two_deliveries:
  assumes "limited a" "exact v a" "check v a" "exact u (consume v a)" "check u (consume v a)"
  shows "uint v + uint u \<le> room a"
proof -
  have "uint u \<le> room (consume v a)"
    using assms check_room consume_limited by blast
  then show ?thesis
    using consume_room [OF assms(1-3)] by simp
qed

end

lemma balance_consume_limited:
  assumes "balance c \<noteq> INFINITE_CREDIT" "v \<le> balance c"
  shows "balance c - v \<noteq> INFINITE_CREDIT"
proof
  assume eq: "balance c - v = INFINITE_CREDIT"
  have "balance c - v \<le> balance c"
    using assms(2) by (simp add: word_le_nat_alt unat_sub)
  with eq have "balance c = INFINITE_CREDIT"
    by (simp add: order_antisym)
  with assms(1) show False ..
qed

interpretation balance_account: credit_account CreditBalance_check CreditBalance_consume
  "\<lambda>c. uint (balance c)" "\<lambda>c. \<not> CreditBalance_unlimited c" "\<lambda>v c. True"
proof unfold_locales
  fix a :: "'a CreditBalance_scheme" and v :: "32 word"
  assume "\<not> CreditBalance_unlimited a" "CreditBalance_check v a"
  then show "uint (balance (CreditBalance_consume v a)) = uint (balance a) - uint v"
    and "\<not> CreditBalance_unlimited (CreditBalance_consume v a)"
    by (simp_all add: balance_defs uint_sub_if_size word_le_def balance_consume_limited)
next
  fix a :: "'a CreditBalance_scheme" and v :: "32 word"
  assume "\<not> \<not> CreditBalance_unlimited a"
  then show "CreditBalance_check v a \<and> CreditBalance_consume v a = a"
    by (simp add: balance_defs)
qed (simp_all add: CreditBalance_check_def word_le_def)

interpretation window_account: credit_account CreditWindow_check CreditWindow_consume
  "\<lambda>w. uint (balance w) - uint (used w)" "\<lambda>w. \<not> CreditBalance_unlimited w"
  "\<lambda>v w. unat (used w) + unat v < 2 ^ 32"
proof unfold_locales
  fix a :: CreditWindow and v :: "32 word"
  assume lim: "\<not> CreditBalance_unlimited a" and ex: "unat (used a) + unat v < 2 ^ 32"
  have sum: "uint (used a + v) = uint (used a) + uint v"
    by (simp only: uint_nat unat_add_fits [OF ex] of_nat_add)
  show "CreditWindow_check v a \<longleftrightarrow> uint v \<le> uint (balance a) - uint (used a)"
    using sum by (auto simp: window_defs balance_defs word_le_def)
  show "uint (balance (CreditWindow_consume v a)) - uint (used (CreditWindow_consume v a)) =
      uint (balance a) - uint (used a) - uint v"
    using sum lim by (simp add: window_defs balance_defs)
  show "\<not> CreditBalance_unlimited (CreditWindow_consume v a)"
    using lim by (simp add: window_defs balance_defs)
qed (simp_all add: window_defs balance_defs)

section \<open>Granting\<close>

text \<open>
  A grant of a finite amount adds it, or saturates one below the amount that stands for unlimited
  credit; only the special amount makes an account unlimited, and it stays so until it is cleared.
\<close>

lemma CreditBalance_grant_saturates:
  assumes "balance c \<noteq> INFINITE_CREDIT" "v \<noteq> INFINITE_CREDIT"
  shows "unat (balance (CreditBalance_grant v c)) = min (unat (balance c) + unat v) (2 ^ 32 - 2)"
proof -
  have lt: "unat (balance c) < 2 ^ 32 - 1"
    using assms(1) unat32_less [of "balance c"] by (auto simp: INFINITE_CREDIT_def word_unat_eq_iff)
  have diff: "unat (INFINITE_CREDIT - balance c) = 2 ^ 32 - 1 - unat (balance c)"
    by (simp add: unat_sub)
  show ?thesis
  proof (cases "INFINITE_CREDIT - balance c > v")
    case True
    then have "unat v < 2 ^ 32 - 1 - unat (balance c)"
      by (simp add: word_less_nat_alt diff)
    then show ?thesis
      using assms True unat_add_fits [of "balance c" v] by (simp add: balance_defs)
  next
    case False
    then have "2 ^ 32 - 1 - unat (balance c) \<le> unat v"
      by (simp add: word_less_nat_alt diff)
    moreover have "unat (INFINITE_CREDIT - 1 :: 32 word) = 2 ^ 32 - 2"
      by (simp add: INFINITE_CREDIT_def)
    ultimately show ?thesis
      using assms False by (simp add: balance_defs)
  qed
qed

lemma CreditBalance_grant_limited:
  assumes "balance c \<noteq> INFINITE_CREDIT" "v \<noteq> INFINITE_CREDIT"
  shows "balance (CreditBalance_grant v c) \<noteq> INFINITE_CREDIT"
proof
  assume "balance (CreditBalance_grant v c) = INFINITE_CREDIT"
  with CreditBalance_grant_saturates [OF assms] show False
    by simp
qed

section \<open>Deliveries in flight\<close>

text \<open>
  The life of a window with finite grants: it is granted, cleared, charged for a delivery its check
  allows, and moved when a delivery in flight completes. The second component is the list of the
  amounts in flight, which the code keeps in the delivery records of the session. The parameters are
  an upper bound of the allocation and one of the amount of a single delivery: with \<open>2 ^ 32 - 2\<close>,
  where a grant saturates, and \<open>2 ^ 32 - 1\<close> they exclude nothing, and for an account of messages,
  where every delivery counts 1, the bounds are \<open>2 ^ 32 - 2\<close> and 1.
\<close>

inductive window_step :: "nat \<Rightarrow> nat \<Rightarrow> CreditWindow \<times> 32 word list \<Rightarrow> CreditWindow \<times> 32 word list \<Rightarrow> bool"
  for B D where
  grant: "v \<noteq> INFINITE_CREDIT \<Longrightarrow> unat (CreditBalance_allocated (CreditBalance_grant v w)) \<le> B \<Longrightarrow>
    window_step B D (w, out) (CreditBalance_grant v w, out)"
| clear: "window_step B D (w, out) (CreditBalance_clear w, out)"
| deliver: "CreditWindow_check v w \<Longrightarrow> unat v \<le> D \<Longrightarrow>
    window_step B D (w, out) (CreditWindow_consume v w, v # out)"
| complete: "v \<in> set out \<Longrightarrow> window_step B D (w, out) (CreditWindow_move v w, remove1 v out)"

inductive window_reachable :: "nat \<Rightarrow> nat \<Rightarrow> CreditWindow \<times> 32 word list \<Rightarrow> bool" for B D where
  start: "window_reachable B D (CreditWindow_init, [])"
| step: "window_reachable B D s \<Longrightarrow> window_step B D s t \<Longrightarrow> window_reachable B D t"

text \<open>
  The count of a window is the sum of what is in flight in the arithmetic of its word, and the sum
  itself, at most the bound of the allocation, when no delivery can take it past the width.
\<close>

definition window_inv :: "nat \<Rightarrow> nat \<Rightarrow> CreditWindow \<times> 32 word list \<Rightarrow> bool" where
  "window_inv B D s \<longleftrightarrow> balance (fst s) \<noteq> INFINITE_CREDIT \<and> unat (balance (fst s)) \<le> B \<and>
     used (fst s) = sum_list (snd s) \<and>
     (B + D < 2 ^ 32 \<longrightarrow> unat (used (fst s)) = sum_list (map unat (snd s)) \<and> unat (used (fst s)) \<le> B)"

lemma used_grant [simp]: "used (CreditBalance_grant v w) = used w"
  by (simp add: CreditBalance_grant_def)

lemma sum_remove1:
  "v \<in> set out \<Longrightarrow> sum_list (map f (remove1 v out)) = sum_list (map f out) - (f v :: nat)"
  by (metis add_diff_cancel_left' sum_list_map_remove1)

lemma sum_remove1_word: "v \<in> set out \<Longrightarrow> sum_list (remove1 v out) = sum_list out - (v :: 32 word)"
  using sum_list_map_remove1 [of v out "\<lambda>x. x"] by (simp add: eq_diff_eq add.commute)

lemma member_le_sum: "v \<in> set out \<Longrightarrow> f v \<le> sum_list (map f out)" for f :: "'a \<Rightarrow> nat"
  by (simp add: member_le_sum_list)

lemma window_check_word: "CreditWindow_check v w \<longleftrightarrow> used w + v \<le> balance w"
  by (simp add: window_defs balance_defs)

lemma window_step_inv:
  assumes "window_step B D s t" "window_inv B D s"
  shows "window_inv B D t"
  using assms
proof (induction rule: window_step.induct)
  case (grant v w out)
  then show ?case
    by (auto simp: window_inv_def CreditBalance_grant_limited CreditBalance_allocated_def)
next
  case (clear w out)
  then show ?case
    by (auto simp: window_inv_def CreditBalance_clear_def INFINITE_CREDIT_def)
next
  case (deliver v w out)
  have "unat (used w + v) = unat (used w) + unat v" if "B + D < 2 ^ 32"
    using deliver that by (intro unat_add_fits) (auto simp: window_inv_def)
  with deliver show ?case
    by (auto simp: window_inv_def window_check_word word_le_nat_alt)
      (simp_all add: window_defs balance_defs ac_simps)
next
  case (complete v out w)
  have "v \<le> used w" if "B + D < 2 ^ 32"
    using complete that member_le_sum [of v out unat] by (auto simp: window_inv_def word_le_nat_alt)
  with complete show ?case
    by (auto simp: window_inv_def window_defs balance_defs unat_sub sum_remove1 sum_remove1_word)
qed

lemma window_reachable_inv: "window_reachable B D s \<Longrightarrow> window_inv B D s"
  by (induction rule: window_reachable.induct)
    (simp add: window_inv_def window_defs INFINITE_CREDIT_def, simp add: window_step_inv)

text \<open>
  C27. What the check of a window allows, when the window is only ever granted finite credit, whatever
  was granted, cancelled, delivered and completed before: a delivery passes exactly if the amounts
  of the deliveries not yet completed, this one included, add up to no more than the credit allocated,
  where the sum is that of 32-bit words and may wrap. When the allocation never exceeds \<open>B\<close> and no
  delivery exceeds \<open>D\<close>, and \<open>B + D\<close> is below \<open>2 ^ 32\<close>, this is the sum of the amounts themselves, so
  everything in flight is within the allocation; for an account of messages, where each delivery counts
  1, every finite allocation qualifies.
\<close>

theorem CreditWindow_in_flight:
  assumes "window_reachable B D (w, out)"
  shows "(CreditWindow_check v w \<longleftrightarrow> sum_list out + v \<le> CreditBalance_allocated w) \<and>
    (B + D < 2 ^ 32 \<and> unat v \<le> D \<longrightarrow>
      (CreditWindow_check v w \<longleftrightarrow> sum_list (map unat out) + unat v \<le> unat (CreditBalance_allocated w)))"
proof -
  have inv: "window_inv B D (w, out)"
    using assms by (rule window_reachable_inv)
  have "unat (used w + v) = sum_list (map unat out) + unat v" if "B + D < 2 ^ 32" "unat v \<le> D"
  proof -
    have "unat (used w) = sum_list (map unat out)" "unat (used w) \<le> B"
      using inv that by (auto simp: window_inv_def)
    then show ?thesis
      using that unat_add_fits [of "used w" v] by simp
  qed
  with inv show ?thesis
    by (auto simp: window_inv_def window_check_word word_le_nat_alt CreditBalance_allocated_def)
qed

lemma message_window_step:
  assumes "window_reachable (2 ^ 32 - 2) 1 (w, out)"
  shows "v \<noteq> INFINITE_CREDIT \<Longrightarrow> window_reachable (2 ^ 32 - 2) 1 (CreditBalance_grant v w, out)"
    and "CreditWindow_check 1 w \<Longrightarrow> window_reachable (2 ^ 32 - 2) 1 (CreditWindow_consume 1 w, 1 # out)"
proof -
  have lim: "balance w \<noteq> INFINITE_CREDIT"
    using window_reachable_inv [OF assms] by (simp add: window_inv_def)
  show "window_reachable (2 ^ 32 - 2) 1 (CreditBalance_grant v w, out)" if "v \<noteq> INFINITE_CREDIT"
    using that CreditBalance_grant_saturates [OF lim that]
    by (intro window_reachable.step [OF assms] window_step.grant) (simp_all add: CreditBalance_allocated_def)
  show "window_reachable (2 ^ 32 - 2) 1 (CreditWindow_consume 1 w, 1 # out)" if "CreditWindow_check 1 w"
    using that by (intro window_reachable.step [OF assms] window_step.deliver) simp_all
qed

theorem CreditWindow_in_flight_witness:
  "CreditWindow_check 1 \<lparr> balance = 3, used = 2 \<rparr> \<and>
   sum_list (map unat [1, 1 :: 32 word]) + unat (1 :: 32 word) \<le>
     unat (CreditBalance_allocated \<lparr> balance = 3, used = 2 \<rparr>)"
proof -
  let ?w = "CreditBalance_grant 3 CreditWindow_init"
  have a: "window_reachable (2 ^ 32 - 2) 1 (?w, [])"
    by (rule message_window_step [OF window_reachable.start]) (simp add: INFINITE_CREDIT_def)
  have b: "window_reachable (2 ^ 32 - 2) 1 (CreditWindow_consume 1 ?w, [1])"
    by (rule message_window_step(2) [OF a]) (simp add: window_defs balance_defs INFINITE_CREDIT_def)
  have c: "window_reachable (2 ^ 32 - 2) 1 (CreditWindow_consume 1 (CreditWindow_consume 1 ?w), [1, 1])"
    by (rule message_window_step(2) [OF b]) (simp add: window_defs balance_defs INFINITE_CREDIT_def)
  have "CreditWindow_consume 1 (CreditWindow_consume 1 ?w) = \<lparr> balance = 3, used = 2 \<rparr>"
    by (simp add: window_defs balance_defs INFINITE_CREDIT_def)
  then show ?thesis
    using CreditWindow_in_flight [OF c, of 1] by (simp add: CreditBalance_allocated_def)
qed

text \<open>
  A delivery charged while the credit was unlimited is not counted, but its completion is: once the
  unlimited credit has been cancelled and a finite credit granted, completing the delivery takes the
  count of what is in flight below zero, and the next delivery fits although the window is full.
\<close>

theorem CreditWindow_cancel_unlimited:
  assumes "n \<noteq> INFINITE_CREDIT"
  defines "w \<equiv> CreditBalance_grant n (CreditBalance_clear
      (CreditWindow_consume 1 (CreditBalance_grant INFINITE_CREDIT CreditWindow_init)))"
  shows "CreditBalance_allocated w = n"
    and "CreditWindow_consumed (CreditWindow_move 1 w) = INFINITE_CREDIT"
    and "CreditWindow_check (n + 1) (CreditWindow_move 1 w)"
    and "\<not> CreditWindow_check (n + 1) w"
proof -
  have "n < - 1"
    using assms(1) below_INFINITE_CREDIT [of n] by (simp add: INFINITE_CREDIT_minus_one)
  then have w: "w = \<lparr> balance = n, used = 0 \<rparr>"
    using assms(1) by (simp add: w_def window_defs balance_defs INFINITE_CREDIT_minus_one)
  have "unat n + 1 < 2 ^ 32"
    using assms(1) unat32_less [of n]
    by (cases "unat n = 2 ^ 32 - 1") (auto simp: word_unat_eq_iff)
  then have "n < n + 1"
    using unat_add_fits [of n 1] by (simp add: word_less_nat_alt)
  then show "CreditBalance_allocated w = n" "\<not> CreditWindow_check (n + 1) w"
    "CreditWindow_consumed (CreditWindow_move 1 w) = INFINITE_CREDIT"
    "CreditWindow_check (n + 1) (CreditWindow_move 1 w)"
    using assms(1) unfolding w by (simp_all add: window_defs balance_defs INFINITE_CREDIT_minus_one)
qed

text \<open>
  The check of a window adds before it compares, so a requirement that takes the sum past the
  width of the word passes: here a full window accepts any amount that wraps.
\<close>

theorem CreditWindow_check_wraps:
  assumes "used w = balance w" "0 < v"
  shows "CreditWindow_check v w \<longleftrightarrow> 2 ^ 32 \<le> unat (balance w) + unat v"
proof -
  have pos: "0 < unat v"
    using assms(2) by (simp add: word_less_nat_alt)
  have "unat (balance w + v) \<le> unat (balance w) \<longleftrightarrow> 2 ^ 32 \<le> unat (balance w) + unat v"
  proof (cases "unat (balance w) + unat v < 2 ^ 32")
    case True
    then show ?thesis
      using pos unat_add_fits [OF True] by linarith
  next
    case False
    then have "unat (balance w + v) = unat (balance w) + unat v - 2 ^ 32"
      using unat32_less [of v] unat32_less [of "balance w"]
      by (simp add: unat_word_ariths mod_if)
    then show ?thesis
      using False unat32_less [of v] by linarith
  qed
  then show ?thesis
    using assms by (simp add: window_defs balance_defs word_le_nat_alt)
qed

end
