(* ===== verification/Queue_Message.thy ===== *)
theory Queue_Message
  imports Broker_Messages
begin

text \<open>
  What a queue reads and changes of the content of a message (\<open>broker/Message.h\<close>, \<open>broker/Message.cpp\<close>):
  the size, persistence and priority that its encoding reports, the count of deliveries and the time
  of expiry, which is absent when no expiry policy was set. Times are nanoseconds.
\<close>

record 'p MessageContent =
  message_size :: "64 word"
  persistent :: bool
  message_priority :: "8 word"
  deliveryCount :: int
  alreadyAcquired :: bool
  expiration :: "int option"
  payload :: 'p

type_synonym 'p QMessage = "'p MessageContent Message"

definition getMessageSize :: "'p QMessage \<Rightarrow> 64 word" where
  "getMessageSize m = message_size (msg_content m)"

definition isPersistent :: "'p QMessage \<Rightarrow> bool" where
  "isPersistent m = persistent (msg_content m)"

definition getPriority :: "'p QMessage \<Rightarrow> 8 word" where
  "getPriority m = message_priority (msg_content m)"

definition isRedelivered :: "'p QMessage \<Rightarrow> bool" where
  "isRedelivered m \<longleftrightarrow> deliveryCount (msg_content m) > 0"

definition Message_deliver :: "'p QMessage \<Rightarrow> 'p QMessage" where
  "Message_deliver m =
    (let n = deliveryCount (msg_content m) + 1
     in m \<lparr> msg_content := msg_content m \<lparr> deliveryCount := n,
                 alreadyAcquired := alreadyAcquired (msg_content m) \<or> n > 0 \<rparr> \<rparr>)"

definition Message_undeliver :: "'p QMessage \<Rightarrow> 'p QMessage" where
  "Message_undeliver m = m \<lparr> msg_content := msg_content m \<lparr> deliveryCount := deliveryCount (msg_content m) - 1 \<rparr> \<rparr>"

definition resetDeliveryCount :: "'p QMessage \<Rightarrow> 'p QMessage" where
  "resetDeliveryCount m = m \<lparr> msg_content := msg_content m \<lparr> deliveryCount := - 1, alreadyAcquired := False \<rparr> \<rparr>"

text \<open>\<open>Message::hasExpired\<close> and \<open>ExpiryPolicy::hasExpired\<close>, at the time \<open>now\<close>.\<close>

definition hasExpired :: "int \<Rightarrow> 'p QMessage \<Rightarrow> bool" where
  "hasExpired now m = (case expiration (msg_content m) of None \<Rightarrow> False | Some t \<Rightarrow> t < now)"

lemma message_fields [simp]:
  "msg_sequence (Message_deliver m) = msg_sequence m" "msg_state (Message_deliver m) = msg_state m"
  "getMessageSize (Message_deliver m) = getMessageSize m"
  "msg_sequence (Message_undeliver m) = msg_sequence m" "msg_state (Message_undeliver m) = msg_state m"
  "getMessageSize (Message_undeliver m) = getMessageSize m"
  "getMessageSize (m \<lparr> msg_state := s \<rparr>) = getMessageSize m"
  "getMessageSize (m \<lparr> msg_sequence := n \<rparr>) = getMessageSize m"
  by (simp_all add: Message_deliver_def Message_undeliver_def getMessageSize_def Let_def)

definition total_size :: "'p QMessage list \<Rightarrow> nat" where
  "total_size ms = sum_list (map (\<lambda>m. unat (getMessageSize m)) ms)"

lemma total_size_simps [simp]:
  "total_size [] = 0" "total_size (ms @ [m]) = total_size ms + unat (getMessageSize m)"
  "m \<in> set ms \<Longrightarrow> total_size (remove1 m ms) = total_size ms - unat (getMessageSize m)"
proof -
  assume "m \<in> set ms"
  then show "total_size (remove1 m ms) = total_size ms - unat (getMessageSize m)"
    unfolding total_size_def by (subst sum_list_map_remove1 [of m]) auto
qed (simp_all add: total_size_def)

lemma size_le_total: "m \<in> set ms \<Longrightarrow> unat (getMessageSize m) \<le> total_size ms"
  using member_le_sum_list [of "unat (getMessageSize m)" "map (\<lambda>m. unat (getMessageSize m)) ms"]
  by (simp add: total_size_def)

lemma total_size_append [simp]: "total_size (xs @ ys) = total_size xs + total_size ys"
  "total_size (m # xs) = unat (getMessageSize m) + total_size xs"
  by (simp_all add: total_size_def)

lemma total_size_remove1_le: "total_size (remove1 m ms) \<le> total_size ms"
  by (cases "m \<in> set ms") (simp_all add: remove1_idem)

end
