(* ===== verification/Queue_Depth.thy ===== *)
theory Queue_Depth
  imports Prelude
begin

text \<open>
  The depth of a queue (\<open>broker/QueueDepth.h\<close>, \<open>broker/QueueDepth.cpp\<close>): a number of messages and a
  number of bytes, each of which may be absent, in unsigned arithmetic of 32 and 64 bits; the
  settings of a queue (\<open>broker/QueueSettings.h\<close>) with the checks on them; and what the limits of the
  broker make of them (\<open>merge\<close> in \<open>broker/Queue.cpp\<close>).
\<close>

section \<open>Depths\<close>

record 'a Optional =
  opt_value :: 'a
  opt_valid :: bool

definition Optional_of :: "'a \<Rightarrow> 'a Optional" where
  "Optional_of v = \<lparr> opt_value = v, opt_valid = True \<rparr>"

definition Optional_none :: "'a::zero Optional" where
  "Optional_none = \<lparr> opt_value = 0, opt_valid = False \<rparr>"

record QueueDepth =
  depth_count :: "32 word Optional"
  depth_size :: "64 word Optional"

definition QueueDepth_init :: QueueDepth where
  "QueueDepth_init = \<lparr> depth_count = Optional_none, depth_size = Optional_none \<rparr>"

definition QueueDepth_of :: "32 word \<Rightarrow> 64 word \<Rightarrow> QueueDepth" where
  "QueueDepth_of c s = \<lparr> depth_count = Optional_of c, depth_size = Optional_of s \<rparr>"

definition hasCount :: "QueueDepth \<Rightarrow> bool" where
  "hasCount d = opt_valid (depth_count d)"

definition getCount :: "QueueDepth \<Rightarrow> 32 word" where
  "getCount d = opt_value (depth_count d)"

definition setCount :: "32 word \<Rightarrow> QueueDepth \<Rightarrow> QueueDepth" where
  "setCount c d = d \<lparr> depth_count := \<lparr> opt_value = c, opt_valid = True \<rparr> \<rparr>"

definition hasSize :: "QueueDepth \<Rightarrow> bool" where
  "hasSize d = opt_valid (depth_size d)"

definition getSize :: "QueueDepth \<Rightarrow> 64 word" where
  "getSize d = opt_value (depth_size d)"

definition setSize :: "64 word \<Rightarrow> QueueDepth \<Rightarrow> QueueDepth" where
  "setSize s d = d \<lparr> depth_size := \<lparr> opt_value = s, opt_valid = True \<rparr> \<rparr>"

definition QueueDepth_bool :: "QueueDepth \<Rightarrow> bool" where
  "QueueDepth_bool d \<longleftrightarrow> hasCount d \<or> hasSize d"

text \<open>\<open>operator+=\<close> and \<open>operator-=\<close> change the parts that are present, by the other's values.\<close>

definition Optional_change :: "('a \<Rightarrow> 'a \<Rightarrow> 'a) \<Rightarrow> 'a Optional \<Rightarrow> 'a Optional \<Rightarrow> 'a Optional" where
  "Optional_change f a b = (if opt_valid a then a \<lparr> opt_value := f (opt_value a) (opt_value b) \<rparr> else a)"

definition QueueDepth_add_assign :: "QueueDepth \<Rightarrow> QueueDepth \<Rightarrow> QueueDepth" where
  "QueueDepth_add_assign d other = d \<lparr>
     depth_count := Optional_change (+) (depth_count d) (depth_count other),
     depth_size := Optional_change (+) (depth_size d) (depth_size other) \<rparr>"

definition QueueDepth_sub_assign :: "QueueDepth \<Rightarrow> QueueDepth \<Rightarrow> QueueDepth" where
  "QueueDepth_sub_assign d other = d \<lparr>
     depth_count := Optional_change (-) (depth_count d) (depth_count other),
     depth_size := Optional_change (-) (depth_size d) (depth_size other) \<rparr>"

definition QueueDepth_eq :: "QueueDepth \<Rightarrow> QueueDepth \<Rightarrow> bool" where
  "QueueDepth_eq a b \<longleftrightarrow> getCount a = getCount b \<and> getSize a = getSize b"

definition QueueDepth_less :: "QueueDepth \<Rightarrow> QueueDepth \<Rightarrow> bool" where
  "QueueDepth_less a b =
    (if hasCount a \<and> hasSize a then getCount a < getCount b \<or> getSize a < getSize b
     else if hasCount a then getCount a < getCount b
     else getSize a < getSize b)"

definition QueueDepth_greater :: "QueueDepth \<Rightarrow> QueueDepth \<Rightarrow> bool" where
  "QueueDepth_greater a b =
    (if hasCount a \<and> hasSize a then getCount a > getCount b \<or> getSize a > getSize b
     else if hasCount a then getCount a > getCount b
     else getSize a > getSize b)"

definition Optional_add :: "'a::len word Optional \<Rightarrow> 'a word Optional \<Rightarrow> 'a word Optional" where
  "Optional_add a b =
    (if opt_valid a \<and> opt_valid b then \<lparr> opt_value = opt_value a + opt_value b, opt_valid = True \<rparr>
     else Optional_none)"

definition Optional_subtract :: "'a::len word Optional \<Rightarrow> 'a word Optional \<Rightarrow> 'a word Optional" where
  "Optional_subtract a b =
    (if opt_valid a \<and> opt_valid b then \<lparr> opt_value = opt_value a - opt_value b, opt_valid = True \<rparr>
     else Optional_none)"

definition QueueDepth_minus :: "QueueDepth \<Rightarrow> QueueDepth \<Rightarrow> QueueDepth" where
  "QueueDepth_minus a b =
    \<lparr> depth_count = Optional_subtract (depth_count a) (depth_count b),
      depth_size = Optional_subtract (depth_size a) (depth_size b) \<rparr>"

definition QueueDepth_plus :: "QueueDepth \<Rightarrow> QueueDepth \<Rightarrow> QueueDepth" where
  "QueueDepth_plus a b =
    \<lparr> depth_count = Optional_add (depth_count a) (depth_count b),
      depth_size = Optional_add (depth_size a) (depth_size b) \<rparr>"

section \<open>Settings\<close>

datatype LifetimePolicy =
  DELETE_IF_UNUSED | DELETE_IF_EMPTY | DELETE_IF_UNUSED_AND_EMPTY | DELETE_ON_CLOSE

text \<open>The settings that the modelled code reads, in the order of the struct.\<close>

record QueueSettings =
  durable :: bool
  autodelete :: bool
  lifetime :: LifetimePolicy
  lvqKey :: string
  priorities :: "32 word"
  defaultFairshare :: "32 word"
  fairshare :: "(nat \<times> 32 word) list"
  groupKey :: string
  shareGroups :: bool
  addTimestamp :: bool
  maxDepth :: QueueDepth
  dropMessagesAtLimit :: bool
  selfDestructAtLimit :: bool
  paging :: bool
  maxPages :: "32 word"
  pageFactor :: "32 word"
  isBrowseOnly :: bool
  autoDeleteDelay :: "64 word"
  flowStop :: QueueDepth
  flowResume :: QueueDepth
  alertThreshold :: QueueDepth
  alertThresholdDown :: QueueDepth

definition QueueSettings_init :: "bool \<Rightarrow> bool \<Rightarrow> QueueSettings" where
  "QueueSettings_init d a = \<lparr> durable = d, autodelete = a, lifetime = DELETE_IF_UNUSED, lvqKey = [],
     priorities = 0, defaultFairshare = 0, fairshare = [], groupKey = [], shareGroups = False,
     addTimestamp = False, maxDepth = QueueDepth_init, dropMessagesAtLimit = False,
     selfDestructAtLimit = False, paging = False, maxPages = 0, pageFactor = 0, isBrowseOnly = False,
     autoDeleteDelay = 0, flowStop = QueueDepth_init, flowResume = QueueDepth_init,
     alertThreshold = QueueDepth_init, alertThresholdDown = QueueDepth_init \<rparr>"

definition QueueSettings_validate :: "QueueSettings \<Rightarrow> unit result" where
  "QueueSettings_validate s =
    throw_if (lvqKey s \<noteq> [] \<and> priorities s > 0) InvalidArgumentException (
    throw_if ((fairshare s \<noteq> [] \<or> defaultFairshare s \<noteq> 0) \<and> priorities s = 0) InvalidArgumentException (
    throw_if (length (fairshare s) > unat (priorities s)) InvalidArgumentException (
    throw_if (groupKey s \<noteq> [] \<and> lvqKey s \<noteq> []) InvalidArgumentException (
    throw_if (groupKey s \<noteq> [] \<and> priorities s \<noteq> 0) InvalidArgumentException (
    throw_if (shareGroups s \<and> groupKey s = []) InvalidArgumentException (
    throw_if (addTimestamp s \<and> groupKey s = []) InvalidArgumentException (
    throw_if (\<not> shareGroups s \<and> groupKey s \<noteq> []) InvalidArgumentException (
    if paging s then
      throw_if (lvqKey s \<noteq> []) InvalidArgumentException (
      throw_if (priorities s \<noteq> 0) InvalidArgumentException (
      throw_if (groupKey s \<noteq> []) InvalidArgumentException (Inr ())))
    else
      throw_if (maxPages s \<noteq> 0) InvalidArgumentException (
      throw_if (pageFactor s \<noteq> 0) InvalidArgumentException (Inr ()))))))))))"

definition getLimitPolicy :: "QueueSettings \<Rightarrow> string" where
  "getLimitPolicy s =
    (if dropMessagesAtLimit s then ''ring''
     else if selfDestructAtLimit s then ''self-destruct''
     else ''reject'')"

text \<open>\<open>merge\<close>: the depth limits of a queue from its settings and the limit of the broker.\<close>

definition merge_settings :: "QueueSettings \<Rightarrow> 64 word \<Rightarrow> QueueSettings" where
  "merge_settings inputs queueLimit =
    (let d = QueueDepth_init;
         d = (if hasCount (maxDepth inputs) \<and> getCount (maxDepth inputs) \<noteq> 0
              then setCount (getCount (maxDepth inputs)) d else d);
         d = (if hasSize (maxDepth inputs) then
                (if getSize (maxDepth inputs) \<noteq> 0 then setSize (getSize (maxDepth inputs)) d else d)
              else if queueLimit \<noteq> 0 then setSize queueLimit d else d)
     in inputs \<lparr> maxDepth := d \<rparr>)"

text \<open>
  What the factory makes of the settings (\<open>broker/QueueFactory.cpp\<close>): the class of the queue, the
  structure of its messages and its distributor. Paging needs a broker, memory-mapped files and a
  paging directory, which \<open>can_page\<close> stands for.
\<close>

datatype queue_class = Plain_Queue | Lossy_Queue | SelfDestruct_Queue | Lvq_Queue

datatype messages_class = MessageDeque_class | PriorityQueue_class | Fairshare_class
  | PagedQueue_class | MessageMap_class

datatype distributor_class = FifoDistributor_class | MessageGroupManager_class

definition QueueFactory_queue :: "QueueSettings \<Rightarrow> queue_class" where
  "QueueFactory_queue s =
    (if dropMessagesAtLimit s then Lossy_Queue
     else if selfDestructAtLimit s then SelfDestruct_Queue
     else if lvqKey s \<noteq> [] then Lvq_Queue
     else Plain_Queue)"

definition QueueFactory_messages :: "bool \<Rightarrow> QueueSettings \<Rightarrow> messages_class" where
  "QueueFactory_messages can_page s =
    (let initial = (if QueueFactory_queue s = Lvq_Queue then MessageMap_class else MessageDeque_class)
     in if priorities s \<noteq> 0 then
          (if defaultFairshare s \<noteq> 0 \<or> fairshare s \<noteq> [] then Fairshare_class else PriorityQueue_class)
        else if paging s then (if can_page then PagedQueue_class else initial)
        else if lvqKey s = [] then MessageDeque_class
        else initial)"

definition QueueFactory_allocator :: "QueueSettings \<Rightarrow> distributor_class" where
  "QueueFactory_allocator s = (if groupKey s \<noteq> [] then MessageGroupManager_class else FifoDistributor_class)"

lemmas depth_defs = hasCount_def getCount_def setCount_def hasSize_def getSize_def setSize_def
  QueueDepth_init_def QueueDepth_of_def Optional_of_def Optional_none_def

section \<open>Depths within a limit\<close>

text \<open>
  A depth is within a limit when each part that the limit has is tracked and not above it.
\<close>

definition within :: "QueueDepth \<Rightarrow> QueueDepth \<Rightarrow> bool" where
  "within limit d \<longleftrightarrow>
     (hasCount limit \<longrightarrow> hasCount d \<and> getCount d \<le> getCount limit) \<and>
     (hasSize limit \<longrightarrow> hasSize d \<and> getSize d \<le> getSize limit)"

lemma add_within:
  fixes a b m :: "'a::len word"
  assumes "a \<le> m" "\<not> m - a < b"
  shows "a + b \<le> m" "unat (a + b) = unat a + unat b"
proof -
  have le: "unat b \<le> unat m - unat a"
    using assms by (simp add: word_less_nat_alt word_le_nat_alt unat_sub)
  moreover have "unat a \<le> unat m"
    using assms(1) by (simp add: word_le_nat_alt)
  ultimately have "unat a + unat b \<le> unat m"
    by linarith
  then have "unat a + unat b < 2 ^ LENGTH('a)"
    by (rule order_le_less_trans [OF _ unsigned_less])
  then show eq: "unat (a + b) = unat a + unat b"
    by (simp add: unat_word_ariths)
  show "a + b \<le> m"
    using eq \<open>unat a + unat b \<le> unat m\<close> by (simp add: word_le_nat_alt)
qed

lemma within_add:
  assumes "within limit d" "\<not> QueueDepth_less (QueueDepth_minus limit d) (QueueDepth_of c s)"
    "QueueDepth_bool limit"
  shows "within limit (QueueDepth_add_assign d (QueueDepth_of c s))"
proof -
  have "getCount d + c \<le> getCount limit" if "hasCount limit"
    using assms that add_within(1) [of "getCount d" "getCount limit" c]
    by (auto simp: within_def QueueDepth_less_def QueueDepth_minus_def QueueDepth_bool_def
        Optional_subtract_def depth_defs split: if_splits)
  moreover have "getSize d + s \<le> getSize limit" if "hasSize limit"
    using assms that add_within(1) [of "getSize d" "getSize limit" s]
    by (auto simp: within_def QueueDepth_less_def QueueDepth_minus_def QueueDepth_bool_def
        Optional_subtract_def depth_defs split: if_splits)
  ultimately show ?thesis
    using assms(1) by (auto simp: within_def QueueDepth_add_assign_def Optional_change_def depth_defs)
qed

text \<open>
  The settings that the check accepts never ask for two structures at once: of last-value key,
  priorities, message groups and paging at most one is set, fairshare comes with priorities, and
  the factory gives priorities a priority structure and groups a group distributor.
\<close>

theorem QueueSettings_validate_exclusive:
  assumes "QueueSettings_validate s = Inr ()"
  shows "length (filter id [lvqKey s \<noteq> [], priorities s \<noteq> 0, groupKey s \<noteq> [], paging s]) \<le> 1"
    and "fairshare s \<noteq> [] \<or> defaultFairshare s \<noteq> 0 \<Longrightarrow> QueueFactory_messages p s = Fairshare_class"
    and "priorities s \<noteq> 0 \<longleftrightarrow> QueueFactory_messages p s \<in> {PriorityQueue_class, Fairshare_class}"
    and "QueueFactory_allocator s = MessageGroupManager_class \<longleftrightarrow> groupKey s \<noteq> [] \<and> shareGroups s"
  using assms
  by (auto simp: QueueSettings_validate_def throw_if_eq_Inr QueueFactory_messages_def
      QueueFactory_allocator_def Let_def word_gt_0 split: if_splits)

text \<open>
  A last-value queue with the ring policy passes the check, but the factory makes it an ordinary
  lossy queue on a deque: the last-value key is ignored.
\<close>

theorem QueueFactory_ring_ignores_lvq:
  assumes "lvqKey s \<noteq> []" "dropMessagesAtLimit s" "QueueSettings_validate s = Inr ()"
  shows "QueueFactory_queue s = Lossy_Queue" "QueueFactory_messages p s = MessageDeque_class"
  using assms
  by (auto simp: QueueSettings_validate_def throw_if_eq_Inr QueueFactory_messages_def
      QueueFactory_queue_def Let_def word_gt_0 split: if_splits)

text \<open>
  The two comparisons are not opposites: with both parts present, a depth that is shallower in one
  and deeper in the other is both less and greater.
\<close>

theorem QueueDepth_less_and_greater:
  "QueueDepth_less (QueueDepth_of c s) (QueueDepth_of c' s') \<and>
   QueueDepth_greater (QueueDepth_of c s) (QueueDepth_of c' s') \<longleftrightarrow>
     (c < c' \<and> s > s') \<or> (c > c' \<and> s < s')"
  by (auto simp: QueueDepth_less_def QueueDepth_greater_def depth_defs)

end
