(* ===== verification/Queue_Flow_Limit.thy ===== *)
theory Queue_Flow_Limit
  imports Queue_Message Queue_Depth Field_Value "HOL-Library.Multiset"
begin

text \<open>
  Two observers of a queue: producer flow control (\<open>broker/QueueFlowLimit.h\<close>,
  \<open>broker/QueueFlowLimit.cpp\<close>), which holds back the completion of messages while the queue is too
  deep, and the threshold alerts (\<open>broker/ThresholdAlerts.cpp\<close>). The calls on the completion of a
  message are kept as a log in the state; the management object is left out. \<open>index\<close> is an
  \<open>std::map\<close> on sequence numbers; here it is the list of its entries in the order they were
  inserted, which is the order of the map for messages enqueued in sequence.
\<close>

section \<open>Producer flow control\<close>

datatype completion_call = StartCompleter SequenceNumber | FinishCompleter SequenceNumber

record 'p QueueFlowLimit =
  flowStopCount :: "32 word"
  flowResumeCount :: "32 word"
  flowStopSize :: "64 word"
  flowResumeSize :: "64 word"
  flowStopped :: bool
  flow_count :: "32 word"
  flow_size :: "64 word"
  flow_index :: "(SequenceNumber \<times> 'p QMessage) list"
  completions :: "completion_call list"

definition QueueFlowLimit_init :: "32 word \<Rightarrow> 32 word \<Rightarrow> 64 word \<Rightarrow> 64 word \<Rightarrow> 'p QueueFlowLimit" where
  "QueueFlowLimit_init stopCount resumeCount stopSize resumeSize =
    \<lparr> flowStopCount = stopCount, flowResumeCount = resumeCount, flowStopSize = stopSize,
      flowResumeSize = resumeSize, flowStopped = False, flow_count = 0, flow_size = 0,
      flow_index = [], completions = [] \<rparr>"

text \<open>
  A method that can throw returns the exception beside the state, because it changes the state
  before it throws.
\<close>

definition flow_enqueued :: "'p QueueFlowLimit \<Rightarrow> 'p QMessage \<Rightarrow> qpid_error option \<times> 'p QueueFlowLimit" where
  "flow_enqueued f msg =
    (let f = f \<lparr> flow_count := flow_count f + 1, flow_size := flow_size f + getMessageSize msg \<rparr>;
         f = (if \<not> flowStopped f then
                if flowStopCount f \<noteq> 0 \<and> flow_count f > flowStopCount f then f \<lparr> flowStopped := True \<rparr>
                else if flowStopSize f \<noteq> 0 \<and> flow_size f > flowStopSize f then f \<lparr> flowStopped := True \<rparr>
                else f
              else f)
     in if flowStopped f \<or> flow_index f \<noteq> [] then
          let f = f \<lparr> completions := completions f @ [StartCompleter (msg_sequence msg)] \<rparr>
          in if msg_sequence msg \<in> fst ` set (flow_index f) then (Some AssertionFailed, f)
             else (None, f \<lparr> flow_index := flow_index f @ [(msg_sequence msg, msg)] \<rparr>)
        else (None, f))"

definition release_all :: "'p QueueFlowLimit \<Rightarrow> 'p QueueFlowLimit" where
  "release_all f = f \<lparr> flow_index := [],
     completions := completions f @ map (\<lambda>e. FinishCompleter (msg_sequence (snd e))) (flow_index f) \<rparr>"

definition flow_dequeued :: "'p QueueFlowLimit \<Rightarrow> 'p QMessage \<Rightarrow> qpid_error option \<times> 'p QueueFlowLimit" where
  "flow_dequeued f msg =
    (if flow_count f > 0 then
       let f = f \<lparr> flow_count := flow_count f - 1 \<rparr> in
       if getMessageSize msg \<le> flow_size f then
         let f = f \<lparr> flow_size := flow_size f - getMessageSize msg \<rparr>;
             f = (if flowStopped f \<and> (flowResumeSize f = 0 \<or> flow_size f < flowResumeSize f) \<and>
                     (flowResumeCount f = 0 \<or> flow_count f < flowResumeCount f)
                  then f \<lparr> flowStopped := False \<rparr> else f)
         in if flow_index f \<noteq> [] then
              if \<not> flowStopped f then (None, release_all f)
              else if msg_sequence msg \<in> fst ` set (flow_index f) then
                (None, f \<lparr> completions := completions f @ [FinishCompleter (msg_sequence msg)],
                           flow_index := filter (\<lambda>e. fst e \<noteq> msg_sequence msg) (flow_index f) \<rparr>)
              else (None, f)
            else (None, f)
       else (Some GeneralException, f)
     else (Some GeneralException, f))"

text \<open>The destructor.\<close>

definition flow_destroy :: "'p QueueFlowLimit \<Rightarrow> 'p QueueFlowLimit" where
  "flow_destroy f = (if flow_index f \<noteq> [] then release_all f else f)"

definition monitorFlowControl :: "'p QueueFlowLimit \<Rightarrow> bool" where
  "monitorFlowControl f \<longleftrightarrow> flowStopCount f \<noteq> 0 \<or> flowStopSize f \<noteq> 0"

subsection \<open>Configuration\<close>

record FlowDefaults =
  defaultMaxSize :: "64 word"
  defaultFlowStopRatio :: "32 word"
  defaultFlowResumeRatio :: "32 word"

definition setDefaults :: "64 word \<Rightarrow> 32 word \<Rightarrow> 32 word \<Rightarrow> qpid_error option \<times> FlowDefaults" where
  "setDefaults maxQueueSize flowStopRatio flowResumeRatio =
    (let d = \<lparr> defaultMaxSize = maxQueueSize, defaultFlowStopRatio = flowStopRatio,
               defaultFlowResumeRatio = flowResumeRatio \<rparr>
     in if flowStopRatio > 100 \<or> flowResumeRatio > 100 then (Some InvalidArgumentException, d)
        else if flowResumeRatio > flowStopRatio then (Some InvalidArgumentException, d)
        else (None, d))"

text \<open>\<open>validateFlowConfig\<close> returns the two references it may change.\<close>

definition validateFlowConfig ::
  "'a::len word \<Rightarrow> 'a word \<Rightarrow> 'a word \<Rightarrow> ('a word \<times> 'a word) result" where
  "validateFlowConfig mx stop resume =
    (if stop \<noteq> 0 then
       throw_if (resume > stop) InvalidArgumentException (
       let resume = (if resume = 0 then stop else resume) in
       throw_if (mx \<noteq> 0 \<and> mx < stop) InvalidArgumentException (
       Inr (stop, resume)))
     else Inr (stop, resume))"

text \<open>
  \<open>createLimit\<close>. The share of a limit that a ratio gives is computed in double precision and
  truncated; the functions \<open>stop_share\<close> and \<open>resume_share\<close> stand for these two computations, as
  they are done for 64 and for 32 bits.
\<close>

record flow_shares =
  stop_share64 :: "64 word \<Rightarrow> 32 word \<Rightarrow> 64 word"
  stop_share32 :: "32 word \<Rightarrow> 32 word \<Rightarrow> 32 word"
  resume_share64 :: "64 word \<Rightarrow> 32 word \<Rightarrow> 64 word"
  resume_share32 :: "32 word \<Rightarrow> 32 word \<Rightarrow> 32 word"

definition createLimit ::
  "flow_shares \<Rightarrow> FlowDefaults \<Rightarrow> QueueSettings \<Rightarrow> 'p QueueFlowLimit option result" where
  "createLimit sh d s =
    (if dropMessagesAtLimit s then Inr None
     else
       let maxMsgCount = (if hasCount (maxDepth s) then getCount (maxDepth s) else 0);
           maxByteCount = (if hasSize (maxDepth s) then getSize (maxDepth s) else defaultMaxSize d);
           stopSize = (if defaultFlowStopRatio d \<noteq> 0 then stop_share64 sh maxByteCount (defaultFlowStopRatio d) else 0);
           stopCount = (if defaultFlowStopRatio d \<noteq> 0 then stop_share32 sh maxMsgCount (defaultFlowStopRatio d) else 0);
           resumeSize = (if defaultFlowResumeRatio d \<noteq> 0 then resume_share64 sh maxByteCount (defaultFlowResumeRatio d) else 0);
           resumeCount = (if defaultFlowResumeRatio d \<noteq> 0 then resume_share32 sh maxMsgCount (defaultFlowResumeRatio d) else 0);
           stopCount = (if hasCount (flowStop s) then getCount (flowStop s) else stopCount);
           stopSize = (if hasSize (flowStop s) then getSize (flowStop s) else stopSize);
           resumeCount = (if hasCount (flowResume s) then getCount (flowResume s) else resumeCount);
           resumeSize = (if hasSize (flowResume s) then getSize (flowResume s) else resumeSize)
       in if stopCount \<noteq> 0 \<or> stopSize \<noteq> 0 then
            res_bind (validateFlowConfig maxMsgCount stopCount resumeCount) (\<lambda>(stopCount, resumeCount).
            res_bind (validateFlowConfig maxByteCount stopSize resumeSize) (\<lambda>(stopSize, resumeSize).
            Inr (Some (QueueFlowLimit_init stopCount resumeCount stopSize resumeSize))))
          else Inr None)"

subsection \<open>Encoding\<close>

definition flow_encode :: "'p QueueFlowLimit \<Rightarrow> Buffer \<Rightarrow> Buffer result" where
  "flow_encode f b =
    res_bind (putLong b (flowStopCount f)) (\<lambda>b.
    res_bind (putLong b (flowResumeCount f)) (\<lambda>b.
    res_bind (putLongLong b (flowStopSize f)) (\<lambda>b.
    res_bind (putLongLong b (flowResumeSize f)) (\<lambda>b.
    res_bind (putLong b (flow_count f)) (\<lambda>b.
    putLongLong b (flow_size f))))))"

definition flow_decode :: "'p QueueFlowLimit \<Rightarrow> Buffer \<Rightarrow> ('p QueueFlowLimit \<times> Buffer) result" where
  "flow_decode f b =
    res_bind (getLong b) (\<lambda>(stopCount, b).
    res_bind (getLong b) (\<lambda>(resumeCount, b).
    res_bind (getLongLong b) (\<lambda>(stopSize, b).
    res_bind (getLongLong b) (\<lambda>(resumeSize, b).
    res_bind (getLong b) (\<lambda>(count, b).
    res_bind (getLongLong b) (\<lambda>(size, b).
    Inr (f \<lparr> flowStopCount := stopCount, flowResumeCount := resumeCount, flowStopSize := stopSize,
             flowResumeSize := resumeSize, flow_count := count, flow_size := size \<rparr>, b)))))))"

definition flow_encodedSize :: nat where
  "flow_encodedSize = 4 + 4 + 8 + 8 + 4 + 8"

section \<open>Threshold alerts\<close>

datatype threshold_event =
    CrossedUpward "64 word" "64 word"
  | ThresholdExceeded "64 word" "64 word"
  | CrossedDownward "64 word" "64 word"

record ThresholdAlerts =
  countThreshold :: "32 word"
  countThresholdDown :: "32 word"
  sizeThreshold :: "64 word"
  sizeThresholdDown :: "64 word"
  alert_count :: "64 word"
  alert_size :: "64 word"
  countGoingUp :: bool
  sizeGoingUp :: bool
  backwardCompat :: bool
  raised :: "threshold_event list"

definition ThresholdAlerts_init ::
  "32 word \<Rightarrow> 32 word \<Rightarrow> 64 word \<Rightarrow> 64 word \<Rightarrow> bool \<Rightarrow> ThresholdAlerts" where
  "ThresholdAlerts_init ctu ctd stu std bw =
    \<lparr> countThreshold = ctu, countThresholdDown = ctd, sizeThreshold = stu, sizeThresholdDown = std,
      alert_count = 0, alert_size = 0, countGoingUp = True, sizeGoingUp = True, backwardCompat = bw,
      raised = [] \<rparr>"

definition raise_upward :: "ThresholdAlerts \<Rightarrow> ThresholdAlerts" where
  "raise_upward t = t \<lparr> raised := raised t @ [CrossedUpward (alert_count t) (alert_size t)] @
     (if backwardCompat t then [ThresholdExceeded (alert_count t) (alert_size t)] else []) \<rparr>"

definition alerts_enqueued :: "ThresholdAlerts \<Rightarrow> 'p QMessage \<Rightarrow> ThresholdAlerts" where
  "alerts_enqueued t m =
    (let t = t \<lparr> alert_size := alert_size t + getMessageSize m, alert_count := alert_count t + 1 \<rparr>;
         t = (if sizeGoingUp t \<and> sizeThreshold t \<noteq> 0 \<and> alert_size t \<ge> sizeThreshold t
              then raise_upward (t \<lparr> sizeGoingUp := False \<rparr>) else t)
     in if countGoingUp t \<and> countThreshold t \<noteq> 0 \<and> alert_count t \<ge> ucast (countThreshold t)
        then raise_upward (t \<lparr> countGoingUp := False \<rparr>) else t)"

definition raise_downward :: "ThresholdAlerts \<Rightarrow> ThresholdAlerts" where
  "raise_downward t = t \<lparr> raised := raised t @ [CrossedDownward (alert_count t) (alert_size t)] \<rparr>"

definition alerts_dequeued :: "ThresholdAlerts \<Rightarrow> 'p QMessage \<Rightarrow> ThresholdAlerts" where
  "alerts_dequeued t m =
    (let t = t \<lparr> alert_size := alert_size t - getMessageSize m, alert_count := alert_count t - 1 \<rparr>;
         t = (if \<not> sizeGoingUp t \<and> sizeThreshold t \<noteq> 0 \<and> alert_size t \<le> sizeThresholdDown t
              then raise_downward (t \<lparr> sizeGoingUp := True \<rparr>) else t)
     in if \<not> countGoingUp t \<and> countThreshold t \<noteq> 0 \<and> alert_count t \<le> ucast (countThresholdDown t)
        then raise_downward (t \<lparr> countGoingUp := True \<rparr>) else t)"

text \<open>
  \<open>observe\<close> creates the observer; the thresholds are 64-bit parameters, and the constructor takes
  the two counts as 32-bit ones.
\<close>

definition alerts_observe ::
  "64 word \<Rightarrow> 64 word \<Rightarrow> 64 word \<Rightarrow> 64 word \<Rightarrow> ThresholdAlerts option" where
  "alerts_observe ctu ctd0 stu std0 =
    (if ctu \<noteq> 0 \<or> stu \<noteq> 0 then
       let ctd = (if ctd0 = 0 \<or> ctd0 \<ge> ctu then drop_bit 1 ctu else ctd0);
           std = (if std0 = 0 \<or> std0 \<ge> stu then drop_bit 1 stu else std0)
       in Some (ThresholdAlerts_init (ucast ctu) (ucast ctd) stu std (ctd0 = 0 \<and> std0 = 0))
     else None)"

text \<open>The version on settings keeps all four thresholds in 32-bit variables.\<close>

definition alerts_from_settings :: "QueueSettings \<Rightarrow> 16 word \<Rightarrow> ThresholdAlerts option" where
  "alerts_from_settings s limitRatio =
    (let ct = (if hasCount (alertThreshold s) then getCount (alertThreshold s)
               else getCount (maxDepth s) * ucast limitRatio div 100) :: 32 word;
         st = ucast (if hasSize (alertThreshold s) then getSize (alertThreshold s)
               else getSize (maxDepth s) * ucast limitRatio div 100) :: 32 word;
         ctd = (if hasCount (alertThresholdDown s) then getCount (alertThresholdDown s) else 0) :: 32 word;
         std = ucast (if hasSize (alertThresholdDown s) then getSize (alertThresholdDown s) else 0) :: 32 word
     in alerts_observe (ucast ct) (ucast ctd) (ucast st) (ucast std))"

section \<open>Flow control holds what it must and releases what it holds\<close>

text \<open>A configuration that \<open>createLimit\<close> accepts, for counts and for sizes.\<close>

definition flow_config :: "'p QueueFlowLimit \<Rightarrow> bool" where
  "flow_config f \<longleftrightarrow>
     (flowStopCount f \<noteq> 0 \<longrightarrow> flowResumeCount f \<noteq> 0 \<and> flowResumeCount f \<le> flowStopCount f) \<and>
     (flowStopSize f \<noteq> 0 \<longrightarrow> flowResumeSize f \<noteq> 0 \<and> flowResumeSize f \<le> flowStopSize f)"

lemma validateFlowConfig_ok:
  assumes "validateFlowConfig mx stop resume = Inr (stop', resume')"
  shows "stop' = stop" "stop \<noteq> 0 \<Longrightarrow> resume' \<noteq> 0 \<and> resume' \<le> stop" "mx \<noteq> 0 \<Longrightarrow> stop \<le> mx"
  using assms by (auto simp: validateFlowConfig_def throw_if_eq_Inr Let_def split: if_splits)

text \<open>
  The life of an observer: it is told of a message the queue does not hold yet, and of the removal
  of one that it holds. The second component is what the queue holds; the two bounds say that the
  counters of the observer have not wrapped.
\<close>

inductive flow_step ::
  "'p QueueFlowLimit \<times> 'p QMessage list \<Rightarrow> 'p QueueFlowLimit \<times> 'p QMessage list \<Rightarrow> bool" where
  enqueue: "msg_sequence m \<notin> msg_sequence ` set ms \<Longrightarrow> length ms + 1 < 2 ^ 32 \<Longrightarrow>
    total_size ms + unat (getMessageSize m) < 2 ^ 64 \<Longrightarrow>
    flow_step (f, ms) (snd (flow_enqueued f m), ms @ [m])"
| dequeue: "m \<in> set ms \<Longrightarrow> flow_step (f, ms) (snd (flow_dequeued f m), remove1 m ms)"

definition pending :: "completion_call list \<Rightarrow> SequenceNumber \<Rightarrow> int" where
  "pending cs s = int (count_list cs (StartCompleter s)) - int (count_list cs (FinishCompleter s))"

text \<open>The queue is above a level at which the flow must stop.\<close>

definition above_stop :: "'p QueueFlowLimit \<Rightarrow> bool" where
  "above_stop f \<longleftrightarrow> (flowStopCount f \<noteq> 0 \<and> flowStopCount f < flow_count f) \<or>
     (flowStopSize f \<noteq> 0 \<and> flowStopSize f < flow_size f)"

definition flow_inv :: "'p QueueFlowLimit \<times> 'p QMessage list \<Rightarrow> bool" where
  "flow_inv s \<longleftrightarrow> (case s of (f, ms) \<Rightarrow>
     flow_config f \<and> distinct (map msg_sequence ms) \<and>
     unat (flow_count f) = length ms \<and> unat (flow_size f) = total_size ms \<and>
     distinct (map fst (flow_index f)) \<and>
     (\<forall>e\<in>set (flow_index f). snd e \<in> set ms \<and> fst e = msg_sequence (snd e)) \<and>
     (\<not> flowStopped f \<longrightarrow> flow_index f = []) \<and>
     (flowStopped f \<longrightarrow> (flowResumeCount f \<noteq> 0 \<and> flowResumeCount f \<le> flow_count f) \<or>
        (flowResumeSize f \<noteq> 0 \<and> flowResumeSize f \<le> flow_size f)) \<and>
     (\<forall>n. pending (completions f) n = (if n \<in> fst ` set (flow_index f) then 1 else 0)) \<and>
     (above_stop f \<longrightarrow> flowStopped f))"


lemma flow_invI:
  assumes "flow_config f" "distinct (map msg_sequence ms)"
    and "unat (flow_count f) = length ms" "unat (flow_size f) = total_size ms"
    and "distinct (map fst (flow_index f))"
    and "\<And>e. e \<in> set (flow_index f) \<Longrightarrow> snd e \<in> set ms \<and> fst e = msg_sequence (snd e)"
    and "\<not> flowStopped f \<Longrightarrow> flow_index f = []"
    and "flowStopped f \<Longrightarrow> (flowResumeCount f \<noteq> 0 \<and> flowResumeCount f \<le> flow_count f) \<or>
        (flowResumeSize f \<noteq> 0 \<and> flowResumeSize f \<le> flow_size f)"
    and "\<And>n. pending (completions f) n = (if n \<in> fst ` set (flow_index f) then 1 else 0)"
    and "above_stop f \<Longrightarrow> flowStopped f"
  shows "flow_inv (f, ms)"
  using assms unfolding flow_inv_def by simp

lemma pending_simps [simp]:
  "pending [] n = 0"
  "pending (cs @ [StartCompleter k]) n = pending cs n + (if k = n then 1 else 0)"
  "pending (cs @ [FinishCompleter k]) n = pending cs n - (if k = n then 1 else 0)"
  by (simp_all add: pending_def)

lemma pending_finish_all:
  assumes "distinct ks"
  shows "pending (cs @ map FinishCompleter ks) n = pending cs n - (if n \<in> set ks then 1 else 0)"
proof -
  have "count_list (map FinishCompleter ks) (FinishCompleter n) = (if n \<in> set ks then 1 else 0)"
    using assms by (induction ks) auto
  moreover have "count_list (map FinishCompleter ks) (StartCompleter n) = 0" for ks
    by (induction ks) auto
  ultimately show ?thesis
    by (simp add: pending_def)
qed

lemma unat_Suc_count:
  fixes c :: "'a::len word"
  assumes "unat c = n" "n + 1 < 2 ^ LENGTH('a)"
  shows "unat (c + 1) = n + 1"
  using assms by (simp add: unat_word_ariths)

lemma unat_plus_size:
  fixes c z :: "'a::len word"
  assumes "unat c = n" "n + unat z < 2 ^ LENGTH('a)"
  shows "unat (c + z) = n + unat z"
  using assms by (simp add: unat_word_ariths)

lemma le_plus_fits:
  fixes r c z :: "'a::len word"
  assumes "r \<le> c" "unat c + unat z < 2 ^ LENGTH('a)"
  shows "r \<le> c + z"
  using assms unat_plus_size [OF refl assms(2)] by (simp add: word_le_nat_alt)

text \<open>The state after the counters and the stop flag have been updated.\<close>

definition stop_update :: "'p QueueFlowLimit \<Rightarrow> 'p QMessage \<Rightarrow> 'p QueueFlowLimit" where
  "stop_update f m = f \<lparr> flow_count := flow_count f + 1, flow_size := flow_size f + getMessageSize m,
     flowStopped := flowStopped f \<or> (flowStopCount f \<noteq> 0 \<and> flow_count f + 1 > flowStopCount f) \<or>
       (flowStopSize f \<noteq> 0 \<and> flow_size f + getMessageSize m > flowStopSize f) \<rparr>"

lemma flow_enqueued_conv:
  "flow_enqueued f m =
    (let f = stop_update f m in
     if flowStopped f \<or> flow_index f \<noteq> [] then
       let f = f \<lparr> completions := completions f @ [StartCompleter (msg_sequence m)] \<rparr>
       in if msg_sequence m \<in> fst ` set (flow_index f) then (Some AssertionFailed, f)
          else (None, f \<lparr> flow_index := flow_index f @ [(msg_sequence m, m)] \<rparr>)
     else (None, f))"
  by (cases "flowStopped f") (auto simp: flow_enqueued_def stop_update_def Let_def)

lemma flow_enqueued_inv:
  assumes inv: "flow_inv (f, ms)" and new: "msg_sequence m \<notin> msg_sequence ` set ms"
    and fits: "length ms + 1 < 2 ^ 32" "total_size ms + unat (getMessageSize m) < 2 ^ 64"
  shows "fst (flow_enqueued f m) = None" "flow_inv (snd (flow_enqueued f m), ms @ [m])"
proof -
  have c: "unat (flow_count f) = length ms" and z: "unat (flow_size f) = total_size ms"
    using inv by (auto simp: flow_inv_def)
  have c': "unat (flow_count f + 1) = length ms + 1"
    using unat_Suc_count [OF c] fits(1) by simp
  have z': "unat (flow_size f + getMessageSize m) = total_size ms + unat (getMessageSize m)"
    using unat_plus_size [OF z] fits(2) by simp
  have rc: "r \<le> flow_count f \<Longrightarrow> r \<le> flow_count f + 1" for r
    using le_plus_fits [of r "flow_count f" 1] c fits(1) by simp
  have rz: "r \<le> flow_size f \<Longrightarrow> r \<le> flow_size f + getMessageSize m" for r
    using le_plus_fits [of r "flow_size f" "getMessageSize m"] z fits(2) by simp
  have fresh: "msg_sequence m \<notin> fst ` set (flow_index f)"
    using inv new by (force simp: flow_inv_def)
  then show "fst (flow_enqueued f m) = None"
    by (simp add: flow_enqueued_conv stop_update_def Let_def)
  let ?f = "stop_update f m"
  have cfg: "flow_config ?f"
    using inv by (simp add: flow_inv_def flow_config_def stop_update_def)
  have stopped: "(flowResumeCount ?f \<noteq> 0 \<and> flowResumeCount ?f \<le> flow_count ?f) \<or>
      (flowResumeSize ?f \<noteq> 0 \<and> flowResumeSize ?f \<le> flow_size ?f)" if "flowStopped ?f"
  proof -
    have old: "flowStopped f \<Longrightarrow> (flowResumeCount f \<noteq> 0 \<and> flowResumeCount f \<le> flow_count f) \<or>
        (flowResumeSize f \<noteq> 0 \<and> flowResumeSize f \<le> flow_size f)"
      and cfg': "flowStopCount f \<noteq> 0 \<Longrightarrow> flowResumeCount f \<noteq> 0 \<and> flowResumeCount f \<le> flowStopCount f"
        "flowStopSize f \<noteq> 0 \<Longrightarrow> flowResumeSize f \<noteq> 0 \<and> flowResumeSize f \<le> flowStopSize f"
      using inv by (simp_all add: flow_inv_def flow_config_def)
    from that consider "flowStopped f" | "flowStopCount f \<noteq> 0" "flow_count f + 1 > flowStopCount f"
      | "flowStopSize f \<noteq> 0" "flow_size f + getMessageSize m > flowStopSize f"
      by (auto simp: stop_update_def)
    then have "(flowResumeCount f \<noteq> 0 \<and> flowResumeCount f \<le> flow_count f + 1) \<or>
        (flowResumeSize f \<noteq> 0 \<and> flowResumeSize f \<le> flow_size f + getMessageSize m)"
    proof cases
      case 1
      then show ?thesis
        using old rc rz by blast
    next
      case 2
      then show ?thesis
        using cfg'(1) order_trans less_imp_le by metis
    next
      case 3
      then show ?thesis
        using cfg'(2) order_trans less_imp_le by metis
    qed
    then show ?thesis
      by (simp add: stop_update_def)
  qed
  have idx: "flow_index f = []" if "\<not> flowStopped ?f"
    using that inv by (simp add: flow_inv_def stop_update_def)
  show "flow_inv (snd (flow_enqueued f m), ms @ [m])"
  proof (cases "flowStopped ?f")
    case True
    then have "snd (flow_enqueued f m) = ?f \<lparr> completions := completions f @ [StartCompleter (msg_sequence m)],
        flow_index := flow_index f @ [(msg_sequence m, m)] \<rparr>"
      using fresh by (simp add: flow_enqueued_conv Let_def) (simp add: stop_update_def)
    then show ?thesis
      using inv cfg stopped [OF True] True c' z' new fresh
      by (auto simp: flow_inv_def stop_update_def flow_config_def)
  next
    case False
    then have e: "snd (flow_enqueued f m) = ?f"
      using idx by (simp add: flow_enqueued_conv Let_def) (simp add: stop_update_def)
    show ?thesis
      using inv cfg False idx [OF False] c' z' new unfolding e
      by (auto simp: flow_inv_def stop_update_def flow_config_def above_stop_def)
  qed
qed


text \<open>The state after the counters and the stop flag have been updated on a dequeue.\<close>

definition resume_update :: "'p QueueFlowLimit \<Rightarrow> 'p QMessage \<Rightarrow> 'p QueueFlowLimit" where
  "resume_update f m = f \<lparr> flow_count := flow_count f - 1, flow_size := flow_size f - getMessageSize m,
     flowStopped := flowStopped f \<and>
       \<not> ((flowResumeSize f = 0 \<or> flow_size f - getMessageSize m < flowResumeSize f) \<and>
          (flowResumeCount f = 0 \<or> flow_count f - 1 < flowResumeCount f)) \<rparr>"

lemma resume_update_conv:
  "resume_update f m =
    (let f = f \<lparr> flow_count := flow_count f - 1, flow_size := flow_size f - getMessageSize m \<rparr>
     in if flowStopped f \<and> (flowResumeSize f = 0 \<or> flow_size f < flowResumeSize f) \<and>
           (flowResumeCount f = 0 \<or> flow_count f < flowResumeCount f)
        then f \<lparr> flowStopped := False \<rparr> else f)"
  by (cases "flowStopped f") (simp_all add: resume_update_def Let_def)

lemma flow_dequeued_conv:
  assumes "flow_count f > 0" "getMessageSize m \<le> flow_size f"
  shows "flow_dequeued f m =
    (let f = resume_update f m in
     if flow_index f \<noteq> [] then
       if \<not> flowStopped f then (None, release_all f)
       else if msg_sequence m \<in> fst ` set (flow_index f) then
         (None, f \<lparr> completions := completions f @ [FinishCompleter (msg_sequence m)],
                    flow_index := filter (\<lambda>e. fst e \<noteq> msg_sequence m) (flow_index f) \<rparr>)
       else (None, f)
     else (None, f))"
  using assms by (simp add: flow_dequeued_def resume_update_conv Let_def)

lemma flow_dequeued_inv:
  assumes inv: "flow_inv (f, ms)" and m: "m \<in> set ms"
  shows "fst (flow_dequeued f m) = None" "flow_inv (snd (flow_dequeued f m), remove1 m ms)"
proof -
  have c: "unat (flow_count f) = length ms" and z: "unat (flow_size f) = total_size ms"
    using inv by (auto simp: flow_inv_def)
  have pos: "flow_count f > 0"
    using c m by (cases ms) (auto simp: word_less_nat_alt)
  have le: "getMessageSize m \<le> flow_size f"
    using z size_le_total [OF m] by (simp add: word_le_nat_alt)
  note conv = flow_dequeued_conv [OF pos le]
  show "fst (flow_dequeued f m) = None"
    by (simp add: conv Let_def)
  have c': "unat (flow_count f - 1) = length ms - 1"
    using c m unat_sub [of 1 "flow_count f"] by (cases ms) (auto simp: word_le_nat_alt)
  have z': "unat (flow_size f - getMessageSize m) = total_size ms - unat (getMessageSize m)"
    using z le by (simp add: unat_sub)
  have dist: "distinct (map msg_sequence (remove1 m ms))"
    using inv by (simp add: flow_inv_def distinct_map inj_on_def set_remove1_eq)
  let ?f = "resume_update f m"
  have part: "flow_config ?f" "unat (flow_count ?f) = length (remove1 m ms)"
    "unat (flow_size ?f) = total_size (remove1 m ms)" "flow_index ?f = flow_index f"
    "completions ?f = completions f"
    using inv c' z' m by (simp_all add: flow_inv_def flow_config_def resume_update_def length_remove1)
  have above: "\<not> above_stop ?f" if "\<not> flowStopped ?f"
  proof (cases "flowStopped f")
    case True
    with that have "flowResumeCount f = 0 \<or> flow_count ?f < flowResumeCount f"
      "flowResumeSize f = 0 \<or> flow_size ?f < flowResumeSize f"
      by (auto simp: resume_update_def)
    with inv show ?thesis
      by (auto simp: above_stop_def flow_inv_def flow_config_def resume_update_def)
  next
    case False
    then have "\<not> above_stop f" using inv by (auto simp: flow_inv_def)
    moreover have "flow_count ?f \<le> flow_count f" "flow_size ?f \<le> flow_size f"
      using c c' z z' by (simp_all add: resume_update_def word_le_nat_alt)
    ultimately show ?thesis
      by (auto simp: above_stop_def resume_update_def)
  qed
  have others: "x \<in> set (remove1 m ms)" if "x \<in> set ms" "msg_sequence x \<noteq> msg_sequence m" for x
    using that by (metis in_set_remove1)
  show "flow_inv (snd (flow_dequeued f m), remove1 m ms)"
  proof (cases "flowStopped ?f")
    case True
    then have run: "(flowResumeCount ?f \<noteq> 0 \<and> flowResumeCount ?f \<le> flow_count ?f) \<or>
        (flowResumeSize ?f \<noteq> 0 \<and> flowResumeSize ?f \<le> flow_size ?f)"
      by (auto simp: resume_update_def not_less)
    have e: "snd (flow_dequeued f m) = ?f
        \<lparr> completions := completions f @ (if msg_sequence m \<in> fst ` set (flow_index f) then [FinishCompleter (msg_sequence m)] else []),
          flow_index := filter (\<lambda>e. fst e \<noteq> msg_sequence m) (flow_index f) \<rparr>"
    proof (cases "msg_sequence m \<in> fst ` set (flow_index f)")
      case inside: True
      then show ?thesis
        using True by (auto simp: conv Let_def part)
    next
      case False
      then have "filter (\<lambda>e. fst e \<noteq> msg_sequence m) (flow_index f) = flow_index f"
        by (auto simp: filter_id_conv image_iff)
      then show ?thesis
        using True False by (simp add: conv Let_def part)
    qed
    have keys: "fst ` set (filter (\<lambda>e. fst e \<noteq> k) ix) = fst ` set ix - {k}" for k :: SequenceNumber and ix :: "(SequenceNumber \<times> 'a QMessage) list"
      by auto
    have pend: "pending (completions f) n = (if n \<in> fst ` set (flow_index f) then 1 else 0)"
      and held: "\<forall>e\<in>set (flow_index f). snd e \<in> set ms \<and> fst e = msg_sequence (snd e)"
      and d: "distinct (map fst (flow_index f))" for n
      using inv by (simp_all add: flow_inv_def)
    show ?thesis
      unfolding e
    proof (rule flow_invI, goal_cases)
      case 1
      then show ?case
        using part(1) by (simp add: flow_config_def)
    next
      case 5
      then show ?case
        using d by (simp add: distinct_map_filter)
    next
      case (6 x)
      then show ?case
        using held others by fastforce
    next
      case (9 n)
      then show ?case
        by (simp add: pend keys del: set_filter)
    qed (use dist part(2,3) True run in simp_all)
  next
    case False
    then have e: "snd (flow_dequeued f m) = release_all ?f"
      by (simp add: conv Let_def release_all_def)
    have d: "distinct (map fst (flow_index f))"
      and eq: "map (\<lambda>e. FinishCompleter (msg_sequence (snd e))) (flow_index f) = map FinishCompleter (map fst (flow_index f))"
      using inv by (auto simp: flow_inv_def)
    have "pending (completions f @ map FinishCompleter (map fst (flow_index f))) n = 0" for n
      using pending_finish_all [OF d, of "completions f" n] inv by (simp add: flow_inv_def)
    then have zero: "pending (completions f @ map (\<lambda>e. FinishCompleter (msg_sequence (snd e))) (flow_index f)) n = 0" for n
      unfolding eq .
    show ?thesis
      unfolding e release_all_def
      by (rule flow_invI) (use dist part False zero above in \<open>simp_all add: flow_config_def above_stop_def\<close>)
  qed
qed


inductive flow_reachable ::
  "'p QueueFlowLimit \<Rightarrow> 'p QueueFlowLimit \<times> 'p QMessage list \<Rightarrow> bool" for f0 where
  start: "flow_reachable f0 (f0, [])"
| step: "flow_reachable f0 s \<Longrightarrow> flow_step s t \<Longrightarrow> flow_reachable f0 t"

lemma createLimit_inv:
  assumes "createLimit sh d s = Inr (Some f)"
  shows "flow_inv (f, [])" "monitorFlowControl f"
proof -
  obtain mc mb sc rc ss rs sc' rc' ss' rs' where ok:
    "validateFlowConfig mc sc rc = Inr (sc', rc')" "validateFlowConfig mb ss rs = Inr (ss', rs')"
    "f = QueueFlowLimit_init sc' rc' ss' rs'" "sc \<noteq> 0 \<or> ss \<noteq> 0"
    using assms by (fastforce simp: createLimit_def Let_def res_bind_eq_Inr split: if_splits)
  then show "flow_inv (f, [])" "monitorFlowControl f"
    using validateFlowConfig_ok [OF ok(1)] validateFlowConfig_ok [OF ok(2)]
    by (auto simp: flow_inv_def flow_config_def QueueFlowLimit_init_def monitorFlowControl_def above_stop_def)
qed

text \<open>An arriving message is held exactly if the flow is stopped after its arrival.\<close>

lemma flow_enqueued_held:
  assumes inv: "flow_inv (f, ms)" and new: "msg_sequence m \<notin> msg_sequence ` set ms"
  shows "msg_sequence m \<in> fst ` set (flow_index (snd (flow_enqueued f m))) \<longleftrightarrow>
    flowStopped (snd (flow_enqueued f m))"
proof -
  have "msg_sequence m \<notin> fst ` set (flow_index f)" "\<not> flowStopped f \<Longrightarrow> flow_index f = []"
    using inv new by (force simp: flow_inv_def)+
  then show ?thesis
    by (auto simp: flow_enqueued_conv stop_update_def Let_def)
qed

lemma flow_step_inv: "flow_step s t \<Longrightarrow> flow_inv s \<Longrightarrow> flow_inv t"
  by (induction rule: flow_step.induct) (simp_all add: flow_enqueued_inv flow_dequeued_inv)

lemma flow_reachable_inv:
  assumes "flow_reachable f0 s" "flow_inv (f0, [])"
  shows "flow_inv s"
  using assms by (induction rule: flow_reachable.induct) (auto intro: flow_step_inv)

lemma flow_inv_empty:
  assumes "flow_inv (f, [])"
  shows "\<not> flowStopped f" "flow_index f = []"
    "count_list (completions f) (StartCompleter n) = count_list (completions f) (FinishCompleter n)"
proof -
  have "flow_count f = 0" "flow_size f = 0"
    using assms by (simp_all add: flow_inv_def unat_eq_zero)
  then show run: "\<not> flowStopped f"
    using assms by (auto simp: flow_inv_def)
  then show "flow_index f = []"
    using assms by (simp add: flow_inv_def)
  then show "count_list (completions f) (StartCompleter n) = count_list (completions f) (FinishCompleter n)"
    using assms by (simp add: flow_inv_def pending_def)
qed

text \<open>
  C25. Flow control of a limit that the broker creates, along any run of its queue: the counters are
  the number and the total size of the messages on the queue, a message is held (its completion
  started once more than finished) exactly if it is in the index, nothing is held unless the flow is
  stopped, the flow is stopped whenever the count or the size is above its stop level, and it is
  stopped only while the count or the size has not fallen below its resume level. A further message
  whose position is new is taken without an exception, and is held exactly if the flow is stopped
  after its arrival; a further removal of a message on the queue does not throw. The runs are those in
  which the number and the total size of the messages fit the counters of 32 and 64 bits.
\<close>

theorem QueueFlowLimit_control:
  assumes "createLimit sh d s = Inr (Some f0)" "flow_reachable f0 (f, ms)"
  shows "unat (flow_count f) = length ms \<and> unat (flow_size f) = total_size ms \<and>
    (\<forall>n. pending (completions f) n = (if n \<in> fst ` set (flow_index f) then 1 else 0)) \<and>
    fst ` set (flow_index f) \<subseteq> msg_sequence ` set ms \<and>
    (flow_index f \<noteq> [] \<longrightarrow> flowStopped f) \<and>
    (flowStopped f \<longrightarrow> (flowResumeCount f \<noteq> 0 \<and> flowResumeCount f \<le> flow_count f) \<or>
       (flowResumeSize f \<noteq> 0 \<and> flowResumeSize f \<le> flow_size f)) \<and>
    (flowStopCount f \<noteq> 0 \<and> flowStopCount f < flow_count f \<longrightarrow> flowStopped f) \<and>
    (flowStopSize f \<noteq> 0 \<and> flowStopSize f < flow_size f \<longrightarrow> flowStopped f) \<and>
    (\<forall>m. msg_sequence m \<notin> msg_sequence ` set ms \<and> length ms + 1 < 2 ^ 32 \<and>
       total_size ms + unat (getMessageSize m) < 2 ^ 64 \<longrightarrow>
       fst (flow_enqueued f m) = None \<and>
       (msg_sequence m \<in> fst ` set (flow_index (snd (flow_enqueued f m))) \<longleftrightarrow>
          flowStopped (snd (flow_enqueued f m)))) \<and>
    (\<forall>m\<in>set ms. fst (flow_dequeued f m) = None)"
proof -
  have inv: "flow_inv (f, ms)"
    using flow_reachable_inv [OF assms(2)] createLimit_inv(1) [OF assms(1)] by simp
  then have "fst ` set (flow_index f) \<subseteq> msg_sequence ` set ms"
    by (fastforce simp: flow_inv_def)
  moreover have "flow_index f \<noteq> [] \<longrightarrow> flowStopped f"
    using inv by (auto simp: flow_inv_def)
  ultimately show ?thesis
    using inv flow_dequeued_inv(1) [OF inv] flow_enqueued_inv(1) [OF inv] flow_enqueued_held [OF inv]
    by (simp add: flow_inv_def above_stop_def)
qed

text \<open>
  C26. Whatever was held is released by the time the queue is drained: from any state of a run, when
  the messages on the queue are removed in any order, the flow ends up running, nothing is held, and
  every completion that was started has been finished exactly as often.
\<close>

theorem QueueFlowLimit_drains:
  assumes "createLimit sh d s = Inr (Some f0)" "flow_reachable f0 (f, ms)" "mset drained = mset ms"
  shows "let f' = fold (\<lambda>m f. snd (flow_dequeued f m)) drained f
    in \<not> flowStopped f' \<and> flow_index f' = [] \<and>
       (\<forall>n. count_list (completions f') (StartCompleter n) = count_list (completions f') (FinishCompleter n))"
proof -
  have "flow_inv (f, ms)"
    using flow_reachable_inv [OF assms(2)] createLimit_inv(1) [OF assms(1)] by simp
  then have "flow_inv (fold (\<lambda>m f. snd (flow_dequeued f m)) drained f, [])"
    using assms(3)
  proof (induction drained arbitrary: f ms)
    case (Cons m drained)
    then have "m \<in> set ms" "mset drained = mset (remove1 m ms)"
      by (metis list.set_intros(1) set_mset_mset, metis mset_remove1 add_mset_remove_trivial mset.simps(2))
    then show ?case
      using Cons.IH [OF flow_dequeued_inv(2) [OF Cons.prems(1)]] by simp
  qed simp
  from flow_inv_empty [OF this] show ?thesis
    by (simp add: Let_def)
qed


text \<open>
  The run of both witnesses: a limit that stops above one message and resumes below one, with three
  messages enqueued; the second stops the flow and is held, and so is the third.
\<close>

definition flow_example_settings :: QueueSettings where
  "flow_example_settings = QueueSettings_init False False
     \<lparr> maxDepth := setCount 10 QueueDepth_init, flowStop := setCount 1 QueueDepth_init \<rparr>"

definition flow_example_message :: "SequenceNumber \<Rightarrow> nat QMessage" where
  "flow_example_message n = \<lparr> msg_sequence = n, msg_state = AVAILABLE, msg_content =
     \<lparr> message_size = 5, persistent = False, message_priority = 4, deliveryCount = - 1,
       alreadyAcquired = False, expiration = None, payload = 0 \<rparr> \<rparr>"

definition flow_example_limit :: "nat QueueFlowLimit" where
  "flow_example_limit = QueueFlowLimit_init 1 1 0 0"

definition flow_example_state :: "nat QueueFlowLimit" where
  "flow_example_state = snd (flow_enqueued (snd (flow_enqueued (snd (flow_enqueued flow_example_limit
     (flow_example_message 1))) (flow_example_message 2))) (flow_example_message 3))"

lemmas flow_example_defs = flow_example_settings_def flow_example_message_def flow_example_limit_def
  flow_example_state_def QueueSettings_init_def QueueFlowLimit_init_def depth_defs getMessageSize_def

lemma flow_example_created:
  "createLimit sh \<lparr> defaultMaxSize = 0, defaultFlowStopRatio = 0, defaultFlowResumeRatio = 0 \<rparr>
     flow_example_settings = Inr (Some flow_example_limit)"
  by (simp add: createLimit_def validateFlowConfig_def throw_if_def flow_example_defs)

lemma flow_example_reachable:
  "flow_reachable flow_example_limit
     (flow_example_state, [flow_example_message 1, flow_example_message 2, flow_example_message 3])"
proof -
  let ?m = flow_example_message
  have a: "flow_reachable flow_example_limit (snd (flow_enqueued flow_example_limit (?m 1)), [] @ [?m 1])"
    by (rule flow_reachable.step [OF flow_reachable.start], rule flow_step.enqueue)
      (simp_all add: flow_example_defs total_size_def)
  have b: "flow_reachable flow_example_limit
      (snd (flow_enqueued (snd (flow_enqueued flow_example_limit (?m 1))) (?m 2)), ([] @ [?m 1]) @ [?m 2])"
    by (rule flow_reachable.step [OF a], rule flow_step.enqueue)
      (simp_all add: flow_example_message_def getMessageSize_def total_size_def)
  have "flow_reachable flow_example_limit (flow_example_state, (([] @ [?m 1]) @ [?m 2]) @ [?m 3])"
    unfolding flow_example_state_def
    by (rule flow_reachable.step [OF b], rule flow_step.enqueue)
      (simp_all add: flow_example_message_def getMessageSize_def total_size_def)
  then show ?thesis
    by simp
qed

theorem QueueFlowLimit_control_witness:
  "unat (flow_count flow_example_state) = 3 \<and> pending (completions flow_example_state) 3 = 1 \<and>
   flowStopped flow_example_state"
proof -
  have "map fst (flow_index flow_example_state) = [2, 3]" "flow_index flow_example_state \<noteq> []"
    by (simp_all add: flow_enqueued_def flow_example_defs)
  then have "3 \<in> fst ` set (flow_index flow_example_state)"
    by (metis insertCI list.set(2) list.set_map)
  then show ?thesis
    using QueueFlowLimit_control [OF flow_example_created flow_example_reachable]
      \<open>flow_index flow_example_state \<noteq> []\<close> by simp
qed

theorem QueueFlowLimit_drains_witness:
  "\<not> flowStopped (fold (\<lambda>m f. snd (flow_dequeued f m))
     [flow_example_message 3, flow_example_message 1, flow_example_message 2] flow_example_state)"
  using QueueFlowLimit_drains [OF flow_example_created flow_example_reachable,
      of "[flow_example_message 3, flow_example_message 1, flow_example_message 2]"]
  by (simp add: Let_def)

section \<open>Encoding and defaults\<close>

text \<open>
  The encoding of a limit is read back, whatever the limit it is read into: levels and counters are
  those encoded, and it takes as many octets as announced. The flag of the flow, the index and the
  completions are not part of it.
\<close>

theorem QueueFlowLimit_round_trip:
  assumes "buf_wf b" "flow_encode f b = Inr b'"
  shows "flow_decode g (setPosition b' (buf_position b)) =
      Inr (f \<lparr> flowStopped := flowStopped g, flow_index := flow_index g, completions := completions g \<rparr>, b') \<and>
    available b' + flow_encodedSize = available b"
proof -
  define bs where "bs = be32 (flowStopCount f) @ be32 (flowResumeCount f) @ be64 (flowStopSize f) @
    be64 (flowResumeSize f) @ be32 (flow_count f) @ be64 (flow_size f) @ []"
  have put: "flow_encode f b = (if length bs \<le> available b then Inr (put_bytes b bs) else Inl OutOfBounds)"
    using assms(1) unfolding flow_encode_def bs_def
    by (auto simp: long.put_law longlong.put_law put_bytes_append)
  then have len: "length bs \<le> available b" and b': "b' = put_bytes b bs"
    using assms(2) by (auto split: if_splits)
  have long8: "gets getLongLong k (be64 k)" for k
    using longlong.get_law [of _ k] by (intro getsI) simp
  have "gets (flow_decode g) (f \<lparr> flowStopped := flowStopped g, flow_index := flow_index g,
      completions := completions g \<rparr>) bs"
    unfolding flow_decode_def bs_def
    by (rule gets_bind gets_ops(2) long8)+ (simp add: gets_def)
  from getsD [OF this setPosition_put_bytes(1,2) [OF assms(1) len]] show ?thesis
    using setPosition_put_bytes(3) [OF assms(1) len] len assms(1)
    by (simp add: b' flow_encodedSize_def) (simp add: bs_def)
qed

theorem QueueFlowLimit_round_trip_witness:
  "\<exists>b'. flow_encode flow_example_state (Buffer_init (replicate 40 0) 40) = Inr b' \<and>
     available b' + flow_encodedSize = 40"
proof -
  have wf: "buf_wf (Buffer_init (replicate 40 0) 40)" and av: "available (Buffer_init (replicate 40 0) 40) = 40"
    by (simp_all add: buf_wf_def Buffer_init_def available_def)
  obtain b' where b': "flow_encode flow_example_state (Buffer_init (replicate 40 0) 40) = Inr b'"
    using wf av by (auto simp: flow_encode_def long.put_law longlong.put_law)
  then show ?thesis
    using QueueFlowLimit_round_trip [OF wf b'] av by simp
qed

text \<open>Defaults that are refused have been installed before they are checked.\<close>

theorem setDefaults_installs_refused:
  "setDefaults m stop resume = (Some InvalidArgumentException, \<lparr> defaultMaxSize = m,
      defaultFlowStopRatio = stop, defaultFlowResumeRatio = resume \<rparr>) \<longleftrightarrow>
   stop > 100 \<or> resume > 100 \<or> resume > stop"
  by (simp add: setDefaults_def Let_def)

text \<open>
  A dequeue that throws because the size would underflow has already lowered the count.
\<close>

theorem flow_dequeued_underflow:
  assumes "flow_count f > 0" "flow_size f < getMessageSize m"
  shows "flow_dequeued f m = (Some GeneralException, f \<lparr> flow_count := flow_count f - 1 \<rparr>)"
proof -
  have "\<not> getMessageSize m \<le> flow_size f"
    using assms(2) by simp
  then show ?thesis
    using assms(1) by (simp add: flow_dequeued_def Let_def)
qed

section \<open>Alerts alternate\<close>

text \<open>
  The thresholds have hysteresis: over any sequence of enqueues and dequeues, the upward crossings
  exceed the downward ones by the number of the two thresholds that are crossed at the moment, so
  between two alerts of the same direction for one threshold there is one of the other.
\<close>

datatype 'p alert_call = Enqueued "'p QMessage" | Dequeued "'p QMessage"

fun alerts_run :: "ThresholdAlerts \<Rightarrow> 'p alert_call list \<Rightarrow> ThresholdAlerts" where
  "alerts_run t [] = t"
| "alerts_run t (Enqueued m # cs) = alerts_run (alerts_enqueued t m) cs"
| "alerts_run t (Dequeued m # cs) = alerts_run (alerts_dequeued t m) cs"

definition upward :: "threshold_event list \<Rightarrow> nat" where
  "upward es = length (filter (\<lambda>e. case e of CrossedUpward _ _ \<Rightarrow> True | _ \<Rightarrow> False) es)"

definition downward :: "threshold_event list \<Rightarrow> nat" where
  "downward es = length (filter (\<lambda>e. case e of CrossedDownward _ _ \<Rightarrow> True | _ \<Rightarrow> False) es)"

lemma alert_raises:
  "upward (raised (raise_upward t)) = upward (raised t) + 1"
  "downward (raised (raise_upward t)) = downward (raised t)"
  "upward (raised (raise_downward t)) = upward (raised t)"
  "downward (raised (raise_downward t)) = downward (raised t) + 1"
  by (simp_all add: raise_upward_def raise_downward_def upward_def downward_def)

lemma raise_fields [simp]:
  "sizeGoingUp (raise_upward t) = sizeGoingUp t" "countGoingUp (raise_upward t) = countGoingUp t"
  "sizeGoingUp (raise_downward t) = sizeGoingUp t" "countGoingUp (raise_downward t) = countGoingUp t"
  by (simp_all add: raise_upward_def raise_downward_def)

definition alerts_balanced :: "ThresholdAlerts \<Rightarrow> bool" where
  "alerts_balanced t \<longleftrightarrow> upward (raised t) =
     downward (raised t) + of_bool (\<not> countGoingUp t) + of_bool (\<not> sizeGoingUp t)"

lemma alerts_step_balanced:
  assumes "alerts_balanced t"
  shows "alerts_balanced (alerts_enqueued t m)" "alerts_balanced (alerts_dequeued t m)"
  using assms
  by (simp_all add: alerts_balanced_def alerts_enqueued_def alerts_dequeued_def Let_def alert_raises)

lemma alerts_run_balanced: "alerts_balanced t \<Longrightarrow> alerts_balanced (alerts_run t cs)"
  by (induction t cs rule: alerts_run.induct) (simp_all add: alerts_step_balanced)

theorem ThresholdAlerts_alternate:
  assumes "alerts_from_settings s ratio = Some t"
  shows "upward (raised (alerts_run t cs)) = downward (raised (alerts_run t cs)) +
    of_bool (\<not> countGoingUp (alerts_run t cs)) + of_bool (\<not> sizeGoingUp (alerts_run t cs))"
proof -
  have "alerts_balanced t"
    using assms by (auto simp: alerts_from_settings_def alerts_observe_def Let_def alerts_balanced_def
        ThresholdAlerts_init_def upward_def downward_def split: if_splits)
  then show ?thesis
    using alerts_run_balanced [of t cs] by (simp add: alerts_balanced_def)
qed

text \<open>
  The size threshold of the settings is cut to 32 bits: with a threshold that is a multiple of four
  gigabytes and no count threshold, no alerts are set up.
\<close>

theorem alerts_size_truncated:
  assumes "hasSize (alertThreshold s)" "unat (getSize (alertThreshold s)) mod 2 ^ 32 = 0"
    and "hasCount (alertThreshold s)" "getCount (alertThreshold s) = 0"
  shows "alerts_from_settings s ratio = None"
proof -
  have "(ucast (getSize (alertThreshold s)) :: 32 word) = 0"
    using assms(2) by (simp add: word_unat_eq_iff unsigned_ucast_eq take_bit_eq_mod)
  then show ?thesis
    using assms by (simp add: alerts_from_settings_def alerts_observe_def Let_def)
qed

end
