(* ===== verification/Broker_Queue.thy ===== *)
theory Broker_Queue
  imports Queue_Message Queue_Depth "HOL-Library.Signed_Division"
begin

text \<open>
  The queue of the broker (\<open>broker/Queue.h\<close>, \<open>broker/Queue.cpp\<close>) on the deque of messages, with its
  listeners (\<open>broker/QueueListeners.cpp\<close>), its users, the first-in-first-out distributor
  (\<open>broker/FifoDistributor.cpp\<close>) and the lossy variant (\<open>broker/LossyQueue.cpp\<close>). The calls that a queue
  makes on its observers, on the store, on consumers and on exchanges are a log of events in its
  state, in the order they are made. Each operation is atomic here: the code holds the message lock
  throughout, except that notifications and calls on the store follow it. Statistics of the
  management object are left out, and so are trace ids, sequence annotations and interceptors.
\<close>

section \<open>Listeners\<close>

text \<open>
  Consumers are known by their names, which are unique in the broker. \<open>in_listeners\<close> is the flag
  \<open>inListeners\<close> of the consumers of this queue.
\<close>

record QueueListeners =
  listen_consumers :: "string list"
  listen_browsers :: "string list"
  in_listeners :: "string list"

record NotificationSet =
  ns_consumer :: "string option"
  ns_browsers :: "string list"

definition QueueListeners_init :: QueueListeners where
  "QueueListeners_init = \<lparr> listen_consumers = [], listen_browsers = [], in_listeners = [] \<rparr>"

definition NotificationSet_init :: NotificationSet where
  "NotificationSet_init = \<lparr> ns_consumer = None, ns_browsers = [] \<rparr>"

definition addListener :: "string \<Rightarrow> bool \<Rightarrow> QueueListeners \<Rightarrow> QueueListeners" where
  "addListener c acquires l =
    (if c \<notin> set (in_listeners l) then
       (if acquires then l \<lparr> listen_consumers := listen_consumers l @ [c] \<rparr>
        else l \<lparr> listen_browsers := listen_browsers l @ [c] \<rparr>)
         \<lparr> in_listeners := c # in_listeners l \<rparr>
     else l)"

definition removeListener :: "string \<Rightarrow> bool \<Rightarrow> QueueListeners \<Rightarrow> QueueListeners" where
  "removeListener c acquires l =
    (if c \<in> set (in_listeners l) then
       (if acquires then l \<lparr> listen_consumers := remove1 c (listen_consumers l) \<rparr>
        else l \<lparr> listen_browsers := remove1 c (listen_browsers l) \<rparr>)
         \<lparr> in_listeners := removeAll c (in_listeners l) \<rparr>
     else l)"

text \<open>\<open>populate\<close> overwrites the members of the set it is given.\<close>

definition populate :: "NotificationSet \<Rightarrow> QueueListeners \<Rightarrow> NotificationSet \<times> QueueListeners" where
  "populate s l =
    (let (s, l) =
       (case listen_consumers l of
          c # cs \<Rightarrow> (s \<lparr> ns_consumer := Some c \<rparr>,
                    l \<lparr> listen_consumers := cs, in_listeners := removeAll c (in_listeners l) \<rparr>)
        | [] \<Rightarrow> (s, l))
     in (s \<lparr> ns_browsers := listen_browsers l \<rparr>,
         l \<lparr> listen_browsers := [],
             in_listeners := filter (\<lambda>c. c \<notin> set (listen_browsers l)) (in_listeners l) \<rparr>))"

definition notify :: "NotificationSet \<Rightarrow> string list" where
  "notify s = (case ns_consumer s of Some c \<Rightarrow> [c] | None \<Rightarrow> []) @ ns_browsers s"

definition snapshot :: "QueueListeners \<Rightarrow> string list" where
  "snapshot l = listen_consumers l @ listen_browsers l"

section \<open>Users\<close>

record QueueUsers =
  users_consumers :: "32 word"
  users_browsers :: "32 word"
  users_others :: "32 word"
  users_controller :: bool

definition QueueUsers_init :: QueueUsers where
  "QueueUsers_init = \<lparr> users_consumers = 0, users_browsers = 0, users_others = 0, users_controller = False \<rparr>"

definition addConsumer :: "QueueUsers \<Rightarrow> QueueUsers" where
  "addConsumer u = u \<lparr> users_consumers := users_consumers u + 1 \<rparr>"

definition addBrowser :: "QueueUsers \<Rightarrow> QueueUsers" where
  "addBrowser u = u \<lparr> users_browsers := users_browsers u + 1 \<rparr>"

definition addOther :: "QueueUsers \<Rightarrow> QueueUsers" where
  "addOther u = u \<lparr> users_others := users_others u + 1 \<rparr>"

definition addLifecycleController :: "QueueUsers \<Rightarrow> QueueUsers result" where
  "addLifecycleController u =
    throw_if (users_controller u) AssertionFailed (Inr (u \<lparr> users_controller := True \<rparr>))"

definition removeConsumer :: "QueueUsers \<Rightarrow> QueueUsers result" where
  "removeConsumer u = throw_if (\<not> users_consumers u > 0) AssertionFailed
     (Inr (u \<lparr> users_consumers := users_consumers u - 1 \<rparr>))"

definition removeBrowser :: "QueueUsers \<Rightarrow> QueueUsers result" where
  "removeBrowser u = throw_if (\<not> users_browsers u > 0) AssertionFailed
     (Inr (u \<lparr> users_browsers := users_browsers u - 1 \<rparr>))"

definition removeLifecycleController :: "QueueUsers \<Rightarrow> QueueUsers result" where
  "removeLifecycleController u = throw_if (\<not> users_controller u) AssertionFailed
     (Inr (u \<lparr> users_controller := False \<rparr>))"

definition removeOther :: "QueueUsers \<Rightarrow> QueueUsers result" where
  "removeOther u = throw_if (\<not> users_others u > 0) AssertionFailed
     (Inr (u \<lparr> users_others := users_others u - 1 \<rparr>))"

definition isUsed :: "QueueUsers \<Rightarrow> bool" where
  "isUsed u \<longleftrightarrow> users_controller u \<or> users_consumers u \<noteq> 0 \<or> users_browsers u \<noteq> 0 \<or> users_others u \<noteq> 0"

definition getSubscriberCount :: "QueueUsers \<Rightarrow> 32 word" where
  "getSubscriberCount u = users_consumers u + users_browsers u"

definition hasConsumers :: "QueueUsers \<Rightarrow> bool" where
  "hasConsumers u \<longleftrightarrow> users_consumers u \<noteq> 0"

section \<open>The queue\<close>

datatype 'p queue_event =
    ObserveEnqueue "'p QMessage"
  | ObserveAcquire "'p QMessage"
  | ObserveRequeue "'p QMessage"
  | ObserveDequeue "'p QMessage"
  | ObserveConsumerAdd string
  | ObserveConsumerRemove string
  | StoreEnqueue "'p QMessage"
  | StoreDequeue "'p QMessage"
  | Notify string
  | Reroute "'p QMessage"
  | StartAutoDeleteTimer
  | Unbound
  | StoreDestroy

record 'p Queue =
  q_class :: queue_class
  q_settings :: QueueSettings
  q_store :: bool
  q_owner :: "string option"
  q_users :: QueueUsers
  q_exclusive :: "string option"
  q_listeners :: QueueListeners
  q_messages :: "'p QMessage IndexedDeque"
  q_current :: QueueDepth
  q_alternate :: bool
  q_sequence :: SequenceNumber
  q_deleted :: bool
  q_uses :: nat
  q_registered :: bool
  q_events :: "'p queue_event list"

text \<open>
  \<open>q_uses\<close> is the count of the usage barrier and \<open>q_registered\<close> says that the registry of the broker
  has the queue. The constructor, on settings already merged with those of the broker:
\<close>

definition Queue_init :: "queue_class \<Rightarrow> QueueSettings \<Rightarrow> bool \<Rightarrow> 'p Queue" where
  "Queue_init cls s store =
    \<lparr> q_class = cls, q_settings = s, q_store = store, q_owner = None, q_users = QueueUsers_init,
      q_exclusive = None, q_listeners = QueueListeners_init, q_messages = IndexedDeque_init,
      q_current = (let d = setCount 0 QueueDepth_init
                   in if getSize (maxDepth s) \<noteq> 0 then setSize 0 d else d),
      q_alternate = False, q_sequence = 0, q_deleted = False, q_uses = 0, q_registered = True,
      q_events = [] \<rparr>"

definition log_events :: "'p queue_event list \<Rightarrow> 'p Queue \<Rightarrow> 'p Queue" where
  "log_events es q = q \<lparr> q_events := q_events q @ es \<rparr>"

definition notify_all :: "string list \<Rightarrow> 'p Queue \<Rightarrow> 'p Queue" where
  "notify_all cs = log_events (map Notify cs)"

definition Queue_isEmpty :: "'p Queue \<Rightarrow> bool" where
  "Queue_isEmpty q \<longleftrightarrow> getCount (q_current q) = 0"

definition Queue_isUnused :: "'p Queue \<Rightarrow> bool" where
  "Queue_isUnused q \<longleftrightarrow> q_owner q = None \<and> \<not> isUsed (q_users q)"

definition checkAutoDelete :: "'p Queue \<Rightarrow> bool" where
  "checkAutoDelete q =
    (if autodelete (q_settings q) then
       (case lifetime (q_settings q) of
          DELETE_IF_UNUSED \<Rightarrow> Queue_isUnused q
        | DELETE_IF_EMPTY \<Rightarrow> \<not> users_controller (q_users q) \<and> Queue_isEmpty q
        | DELETE_IF_UNUSED_AND_EMPTY \<Rightarrow> Queue_isUnused q \<and> Queue_isEmpty q
        | DELETE_ON_CLOSE \<Rightarrow> \<not> users_controller (q_users q))
     else False)"

definition canAutoDelete :: "'p Queue \<Rightarrow> bool" where
  "canAutoDelete q \<longleftrightarrow> \<not> q_deleted q \<and> checkAutoDelete q"

definition depth_of :: "'p QMessage \<Rightarrow> QueueDepth" where
  "depth_of m = QueueDepth_of 1 (getMessageSize m)"

text \<open>
  \<open>observeDequeue\<close>, with \<open>auto\<close> for a \<open>ScopedAutoDelete\<close> that is given and \<open>eligible\<close> for its flag.
\<close>

definition observeDequeue :: "bool \<Rightarrow> 'p QMessage \<Rightarrow> bool \<Rightarrow> 'p Queue \<Rightarrow> bool \<times> 'p Queue" where
  "observeDequeue auto m eligible q =
    (let q = log_events [ObserveDequeue m] (q \<lparr> q_current := QueueDepth_sub_assign (q_current q) (depth_of m) \<rparr>)
     in (if auto \<and> Queue_isEmpty q then checkAutoDelete q else eligible, q))"

text \<open>A pointer to a message of the deque is its sequence number; this changes the message behind it.\<close>

definition modify_message :: "SequenceNumber \<Rightarrow> ('p QMessage \<Rightarrow> 'p QMessage) \<Rightarrow> 'p Queue \<Rightarrow> 'p Queue" where
  "modify_message p f q =
    q \<lparr> q_messages := (q_messages q) \<lparr> messages :=
          map (\<lambda>m. if msg_sequence m = p then f m else m) (messages (q_messages q)) \<rparr> \<rparr>"

definition delete_message :: "'p MessageContent \<Rightarrow> QueueCursor \<Rightarrow> 'p Queue \<Rightarrow> 'p Queue" where
  "delete_message e c q = q \<lparr> q_messages := snd (MessageDeque_deleted e (q_messages q) c) \<rparr>"

definition FifoDistributor_acquire :: "'p QMessage \<Rightarrow> bool \<times> 'p QMessage" where
  "FifoDistributor_acquire m =
    (if msg_state m = AVAILABLE then (True, m \<lparr> msg_state := ACQUIRED \<rparr>) else (False, m))"

definition dequeueFromStore :: "'p QMessage \<Rightarrow> 'p Queue \<Rightarrow> 'p Queue" where
  "dequeueFromStore m q =
    (if \<not> q_deleted q \<and> isPersistent m \<and> q_store q then log_events [StoreDequeue m] q else q)"

subsection \<open>Removing messages\<close>

text \<open>
  The loop of \<open>remove\<close>. The counts \<open>maxCount\<close> and \<open>maxTests\<close> are 0 for no limit; \<open>n\<close> and \<open>tests\<close> are
  the counters; the fuel bounds the calls of \<open>next\<close>.
\<close>

fun remove_loop :: "nat \<Rightarrow> 'p MessageContent \<Rightarrow> nat \<Rightarrow> ('p QMessage \<Rightarrow> bool) \<Rightarrow> bool \<Rightarrow> nat \<Rightarrow>
    QueueCursor \<Rightarrow> nat \<Rightarrow> nat \<Rightarrow> 'p QMessage list \<Rightarrow> bool \<Rightarrow> 'p Queue \<Rightarrow>
    ('p QMessage list \<times> bool \<times> 'p Queue) result" where
  "remove_loop 0 e maxCount p auto maxTests c n tests removed el q = Inl OutOfFuel"
| "remove_loop (Suc fuel) e maxCount p auto maxTests c n tests removed el q =
    (case MessageDeque_next e (q_messages q) c of
       (None, c) \<Rightarrow> Inr (removed, el, q)
     | (Some m, c) \<Rightarrow>
         if maxTests \<noteq> 0 \<and> tests \<ge> maxTests then Inr (removed, el, q)
         else if p m then
           if maxCount \<noteq> 0 \<and> n \<ge> maxCount then Inr (removed, el, q)
           else
             let q = (if msg_state m = AVAILABLE then log_events [ObserveAcquire m] q else q);
                 (el, q) = observeDequeue auto m el q;
                 (ok, d) = MessageDeque_deleted e (q_messages q) c
             in throw_if (\<not> ok) AssertionFailed
                  (remove_loop fuel e maxCount p auto maxTests c (n + 1) (tests + 1) (removed @ [m]) el
                     (q \<lparr> q_messages := d \<rparr>))
         else remove_loop fuel e maxCount p auto maxTests c n (tests + 1) removed el q)"

text \<open>\<open>remove\<close> up to the end of its \<open>ScopedAutoDelete\<close>, and the flag that this has then.\<close>

definition remove_messages :: "'p MessageContent \<Rightarrow> nat \<Rightarrow> ('p QMessage \<Rightarrow> bool) \<Rightarrow>
    ('p QMessage \<Rightarrow> 'p Queue \<Rightarrow> 'p Queue) \<Rightarrow> SubscriptionType \<Rightarrow> bool \<Rightarrow> nat \<Rightarrow> 'p Queue \<Rightarrow>
    ('p QMessage list \<times> bool \<times> 'p Queue) result" where
  "remove_messages e maxCount p f type auto maxTests q =
    res_bind (remove_loop (Suc (length (messages (q_messages q)))) e maxCount p auto maxTests
                (QueueCursor_init type) 0 0 [] False q)
      (\<lambda>(removed, el, q). Inr (removed, el, fold (\<lambda>m q. dequeueFromStore m (f m q)) removed q))"

text \<open>\<open>reroute\<close> to the alternate exchange of the queue, if it has one.\<close>

definition reroute_alternate :: "'p QMessage \<Rightarrow> 'p Queue \<Rightarrow> 'p Queue" where
  "reroute_alternate m q = (if q_alternate q then log_events [Reroute m] q else q)"

subsection \<open>Deletion\<close>

definition notifyDeleted :: "'p Queue \<Rightarrow> 'p Queue" where
  "notifyDeleted q = notify_all (snapshot (q_listeners q)) (q \<lparr> q_deleted := True \<rparr>)"

text \<open>
  \<open>UsageBarrier::destroy\<close> waits until nothing uses the queue. Between operations nothing does; a use
  that is still counted is that of the operation itself, which then waits for ever.
\<close>

definition UsageBarrier_destroy :: "'p Queue \<Rightarrow> 'p Queue result" where
  "UsageBarrier_destroy q = throw_if (q_uses q \<noteq> 0) Deadlock (Inr (q \<lparr> q_deleted := True \<rparr>))"

definition UsageBarrier_acquire :: "'p Queue \<Rightarrow> bool \<times> 'p Queue" where
  "UsageBarrier_acquire q = (if q_deleted q then (False, q) else (True, q \<lparr> q_uses := q_uses q + 1 \<rparr>))"

definition UsageBarrier_release :: "'p Queue \<Rightarrow> 'p Queue" where
  "UsageBarrier_release q = q \<lparr> q_uses := q_uses q - 1 \<rparr>"

text \<open>\<open>destroyed\<close>; messages that are abandoned go to the alternate exchange.\<close>

definition Queue_destroyed :: "'p MessageContent \<Rightarrow> 'p Queue \<Rightarrow> 'p Queue result" where
  "Queue_destroyed e q =
    res_bind (remove_messages e 0 (\<lambda>m. True) reroute_alternate REPLICATOR False 0 (log_events [Unbound] q))
      (\<lambda>(removed, el, q).
        let q = q \<lparr> q_alternate := False \<rparr> in
        res_bind (if q_store q then
                    res_bind (UsageBarrier_destroy q) (\<lambda>q. Inr (log_events [StoreDestroy] (q \<lparr> q_store := False \<rparr>)))
                  else Inr q)
          (\<lambda>q. Inr (notifyDeleted q)))"

text \<open>\<open>tryAutoDelete\<close>: the registry drops the queue if it still can be deleted.\<close>

definition tryAutoDelete :: "'p MessageContent \<Rightarrow> 'p Queue \<Rightarrow> 'p Queue result" where
  "tryAutoDelete e q =
    (if q_registered q \<and> canAutoDelete q then Queue_destroyed e (q \<lparr> q_registered := False \<rparr>) else Inr q)"

definition scheduleAutoDelete :: "'p MessageContent \<Rightarrow> 'p Queue \<Rightarrow> 'p Queue result" where
  "scheduleAutoDelete e q =
    (if canAutoDelete q then
       if autoDeleteDelay (q_settings q) \<noteq> 0 then Inr (log_events [StartAutoDeleteTimer] q)
       else tryAutoDelete e q
     else Inr q)"

text \<open>The destructor of \<open>ScopedAutoDelete\<close>.\<close>

definition end_autodelete :: "'p MessageContent \<Rightarrow> bool \<Rightarrow> 'p Queue \<Rightarrow> 'p Queue result" where
  "end_autodelete e eligible q = (if eligible then scheduleAutoDelete e q else Inr q)"

definition Queue_remove :: "'p MessageContent \<Rightarrow> nat \<Rightarrow> ('p QMessage \<Rightarrow> bool) \<Rightarrow>
    ('p QMessage \<Rightarrow> 'p Queue \<Rightarrow> 'p Queue) \<Rightarrow> SubscriptionType \<Rightarrow> bool \<Rightarrow> nat \<Rightarrow> 'p Queue \<Rightarrow>
    ('p QMessage list \<times> 'p Queue) result" where
  "Queue_remove e maxCount p f type auto maxTests q =
    res_bind (remove_messages e maxCount p f type auto maxTests q)
      (\<lambda>(removed, el, q). res_bind (end_autodelete e el q) (\<lambda>q. Inr (removed, q)))"

text \<open>
  \<open>purgeExpired\<close>, with the value of the counter \<open>dequeueSincePurge\<close> and the time since the last call in
  nanoseconds; no operation of the queue changes the counter otherwise.
\<close>

definition Queue_purgeExpired :: "'p MessageContent \<Rightarrow> int \<Rightarrow> int \<Rightarrow> int \<Rightarrow> 'p Queue \<Rightarrow>
    ('p QMessage list \<times> 'p Queue) result" where
  "Queue_purgeExpired e now since lapse q =
    (let seconds = lapse sdiv 1000000000
     in if seconds = 0 \<or> since sdiv seconds < 1
        then Queue_remove e 0 (hasExpired now) (\<lambda>m q. q) CONSUMER (autodelete (q_settings q)) 0 q
        else Inr ([], q))"

definition Queue_setPosition :: "'p MessageContent \<Rightarrow> SequenceNumber \<Rightarrow> 'p Queue \<Rightarrow> 'p Queue result" where
  "Queue_setPosition e n q =
    res_bind (if SequenceNumber_less n (q_sequence q)
              then Queue_remove e 0 (\<lambda>m. SequenceNumber_less n (msg_sequence m)) (\<lambda>m q. q) BROWSER False 0 q
              else Inr ([], q))
      (\<lambda>(removed, q). Inr (q \<lparr> q_sequence := n \<rparr>))"

subsection \<open>Limits\<close>

definition exceeds :: "'p Queue \<Rightarrow> QueueDepth \<Rightarrow> bool" where
  "exceeds q increment \<longleftrightarrow> QueueDepth_bool (maxDepth (q_settings q)) \<and>
     QueueDepth_less (QueueDepth_minus (maxDepth (q_settings q)) (q_current q)) increment"

definition Queue_checkDepth :: "QueueDepth \<Rightarrow> 'p Queue \<Rightarrow> (bool \<times> 'p Queue) result" where
  "Queue_checkDepth increment q =
    throw_if (exceeds q increment) ResourceLimitExceededException
      (Inr (True, q \<lparr> q_current := QueueDepth_add_assign (q_current q) increment \<rparr>))"

text \<open>
  \<open>LossyQueue::checkDepth\<close>. The loop purges one message at a time, or stops when none can be purged;
  every turn but the last removes a message, which bounds the fuel.
\<close>

definition isLowerPriorityThan :: "8 word \<Rightarrow> 'p QMessage \<Rightarrow> bool" where
  "isLowerPriorityThan priority m \<longleftrightarrow> getPriority m \<le> priority"

fun purge_loop :: "nat \<Rightarrow> 'p MessageContent \<Rightarrow> QueueDepth \<Rightarrow> 'p QMessage \<Rightarrow> 'p Queue \<Rightarrow> 'p Queue result" where
  "purge_loop 0 e increment msg q = Inl OutOfFuel"
| "purge_loop (Suc fuel) e increment msg q =
    (if exceeds q increment then
       res_bind (Queue_remove e 1
           (if priorities (q_settings q) \<noteq> 0 then isLowerPriorityThan (getPriority msg) else (\<lambda>m. True))
           reroute_alternate PURGE False (if priorities (q_settings q) \<noteq> 0 then 1 else 0) q)
         (\<lambda>(removed, q). if removed \<noteq> [] then purge_loop fuel e increment msg q else Inr q)
     else Inr q)"

definition LossyQueue_checkDepth ::
  "'p MessageContent \<Rightarrow> QueueDepth \<Rightarrow> 'p QMessage \<Rightarrow> 'p Queue \<Rightarrow> (bool \<times> 'p Queue) result" where
  "LossyQueue_checkDepth e increment msg q =
    throw_if (hasSize (maxDepth (q_settings q)) \<and> getSize increment > getSize (maxDepth (q_settings q)))
      ResourceLimitExceededException
      (res_bind (purge_loop (Suc (length (messages (q_messages q)))) e increment msg q)
        (\<lambda>q. if exceeds q increment then Inr (False, q)
             else Inr (True, q \<lparr> q_current := QueueDepth_add_assign (q_current q) increment \<rparr>)))"

text \<open>\<open>SelfDestructQueue::checkDepth\<close> deletes the queue and takes the message all the same.\<close>

definition SelfDestructQueue_checkDepth ::
  "'p MessageContent \<Rightarrow> QueueDepth \<Rightarrow> 'p Queue \<Rightarrow> (bool \<times> 'p Queue) result" where
  "SelfDestructQueue_checkDepth e increment q =
    res_bind (if exceeds q increment then Queue_destroyed e (q \<lparr> q_registered := False \<rparr>) else Inr q)
      (\<lambda>q. Inr (True, q \<lparr> q_current := QueueDepth_add_assign (q_current q) increment \<rparr>))"

definition checkDepth ::
  "'p MessageContent \<Rightarrow> QueueDepth \<Rightarrow> 'p QMessage \<Rightarrow> 'p Queue \<Rightarrow> (bool \<times> 'p Queue) result" where
  "checkDepth e increment msg q =
    (case q_class q of
       Lossy_Queue \<Rightarrow> LossyQueue_checkDepth e increment msg q
     | SelfDestruct_Queue \<Rightarrow> SelfDestructQueue_checkDepth e increment q
     | _ \<Rightarrow> Queue_checkDepth increment q)"

subsection \<open>Enqueueing\<close>

definition enqueueAborted :: "'p QMessage \<Rightarrow> 'p Queue \<Rightarrow> 'p Queue" where
  "enqueueAborted m q = q \<lparr> q_current := QueueDepth_sub_assign (q_current q) (depth_of m) \<rparr>"

text \<open>
  \<open>enqueue\<close> reserves the space and stores the message; the result says whether it is to be pushed.
  The store may throw, for the messages that \<open>store_fails\<close> holds of.
\<close>

definition Queue_enqueue :: "'p MessageContent \<Rightarrow> ('p QMessage \<Rightarrow> bool) \<Rightarrow> 'p QMessage \<Rightarrow> 'p Queue \<Rightarrow>
    bool result \<times> 'p Queue" where
  "Queue_enqueue e store_fails m q =
    (case UsageBarrier_acquire q of
       (False, q) \<Rightarrow> (Inr False, q)
     | (True, q) \<Rightarrow>
        (case checkDepth e (depth_of m) m q of
           Inl err \<Rightarrow> (Inl err, UsageBarrier_release q)
         | Inr (False, q) \<Rightarrow> (Inr False, UsageBarrier_release q)
         | Inr (True, q) \<Rightarrow>
             if isPersistent m \<and> q_store q then
               let q = log_events [StoreEnqueue m] q in
               if store_fails m then (Inl GeneralException, UsageBarrier_release (enqueueAborted m q))
               else (Inr True, UsageBarrier_release q)
             else (Inr True, UsageBarrier_release q)))"

text \<open>The push of a queue on the message deque; \<open>Lvq\<close> overrides it and is not modelled here.\<close>

definition Queue_push :: "'p MessageContent \<Rightarrow> 'p QMessage \<Rightarrow> 'p Queue \<Rightarrow> 'p Queue result" where
  "Queue_push e m q =
    (let n = q_sequence q + 1; m = m \<lparr> msg_sequence := n \<rparr> in
     res_bind (MessageDeque_publish e (q_messages q) m) (\<lambda>d.
     let (s, l) = populate NotificationSet_init (q_listeners q) in
     Inr (notify_all (notify s) (log_events [ObserveEnqueue m]
            (q \<lparr> q_sequence := n, q_messages := d, q_listeners := l \<rparr>)))))"

definition Queue_recoverPrepared :: "'p QMessage \<Rightarrow> 'p Queue \<Rightarrow> 'p Queue" where
  "Queue_recoverPrepared m q = q \<lparr> q_current := QueueDepth_add_assign (q_current q) (depth_of m) \<rparr>"

definition Queue_recover :: "'p MessageContent \<Rightarrow> 'p QMessage \<Rightarrow> 'p Queue \<Rightarrow> 'p Queue result" where
  "Queue_recover e m q = Queue_push e m (Queue_recoverPrepared m q)"

text \<open>
  What the queue is not to take, whatever its depth: \<open>local\<close> for a message published on the
  connection of an exclusive owner, \<open>excluded\<close> for one with an excluded trace id, and the selector
  of the queue, if it has one. Immediate delivery is never required of a message.
\<close>

record 'p queue_filters =
  filter_local :: "'p QMessage \<Rightarrow> bool"
  filter_excluded :: "'p QMessage \<Rightarrow> bool"
  filter_selector :: "('p QMessage \<Rightarrow> bool) option"

definition Queue_accept :: "'p queue_filters \<Rightarrow> 'p QMessage \<Rightarrow> bool" where
  "Queue_accept fs m =
    (if filter_local fs m then False
     else if filter_excluded fs m then False
     else case filter_selector fs of Some sel \<Rightarrow> sel m | None \<Rightarrow> True)"

text \<open>\<open>deliverTo\<close> outside a transaction.\<close>

definition Queue_deliverTo :: "'p MessageContent \<Rightarrow> ('p QMessage \<Rightarrow> bool) \<Rightarrow> 'p queue_filters \<Rightarrow>
    'p QMessage \<Rightarrow> 'p Queue \<Rightarrow> qpid_error option \<times> 'p Queue" where
  "Queue_deliverTo e store_fails fs m q =
    (if Queue_accept fs m then
       case Queue_enqueue e store_fails m q of
         (Inl err, q) \<Rightarrow> (Some err, q)
       | (Inr False, q) \<Rightarrow> (None, q)
       | (Inr True, q) \<Rightarrow> (case Queue_push e m q of Inl err \<Rightarrow> (Some err, q) | Inr q \<Rightarrow> (None, q))
     else (None, q))"

subsection \<open>Dequeueing\<close>

text \<open>\<open>dequeue\<close>, with \<open>ctxt\<close> for a transaction.\<close>

definition Queue_dequeue :: "'p MessageContent \<Rightarrow> bool \<Rightarrow> QueueCursor \<Rightarrow> 'p Queue \<Rightarrow> 'p Queue result" where
  "Queue_dequeue e ctxt c q =
    (case UsageBarrier_acquire q of
       (False, q) \<Rightarrow> Inr q
     | (True, q) \<Rightarrow>
        (case MessageDeque_find e (q_messages q) c of
           None \<Rightarrow> Inr (UsageBarrier_release q)
         | Some m \<Rightarrow>
             let (el, q) = (if \<not> ctxt then
                   (let (el, q) = observeDequeue (autodelete (q_settings q)) m False q
                    in (el, delete_message e c q))
                 else (False, q));
                 q = (if q_store q \<and> isPersistent m then log_events [StoreDequeue m] q else q)
             in res_bind (end_autodelete e el q) (\<lambda>q. Inr (UsageBarrier_release q))))"

definition Queue_dequeueCommitted :: "'p MessageContent \<Rightarrow> QueueCursor \<Rightarrow> 'p Queue \<Rightarrow> 'p Queue result" where
  "Queue_dequeueCommitted e c q =
    (case MessageDeque_find e (q_messages q) c of
       None \<Rightarrow> Inr q
     | Some m \<Rightarrow>
         let (el, q) = observeDequeue (autodelete (q_settings q)) m False q
         in end_autodelete e el (delete_message e c q))"

definition Queue_dequeueMessageAt ::
  "'p MessageContent \<Rightarrow> SequenceNumber \<Rightarrow> 'p Queue \<Rightarrow> (bool \<times> 'p Queue) result" where
  "Queue_dequeueMessageAt e p q =
    (case deque_find (message_ops e) (q_messages q) p (Some (QueueCursor_init BROWSER)) of
       (Some m, Some c) \<Rightarrow>
         let (el, q) = observeDequeue (autodelete (q_settings q)) m False q
         in res_bind (end_autodelete e el (dequeueFromStore m (delete_message e c q))) (\<lambda>q. Inr (True, q))
     | _ \<Rightarrow> Inr (False, q))"

text \<open>\<open>reject\<close>: the message goes to the alternate exchange, if there is one, as a new message.\<close>

definition Queue_reject :: "'p MessageContent \<Rightarrow> QueueCursor \<Rightarrow> 'p Queue \<Rightarrow> 'p Queue result" where
  "Queue_reject e c q =
    (case MessageDeque_find e (q_messages q) c of
       None \<Rightarrow> Inr q
     | Some m \<Rightarrow>
         let (el, q) = observeDequeue (autodelete (q_settings q)) m False q;
             q = delete_message e c q;
             q = (if q_alternate q then log_events [Reroute (resetDeliveryCount m)] q else q)
         in end_autodelete e el (dequeueFromStore m q))"

subsection \<open>Acquiring and releasing\<close>

definition Queue_release :: "'p MessageContent \<Rightarrow> QueueCursor \<Rightarrow> bool \<Rightarrow> 'p Queue \<Rightarrow> 'p Queue" where
  "Queue_release e c markRedelivered q =
    (if q_deleted q then q
     else case MessageDeque_release e (q_messages q) c of
       (None, d) \<Rightarrow> q \<lparr> q_messages := d \<rparr>
     | (Some m, d) \<Rightarrow>
         let q = q \<lparr> q_messages := d \<rparr>;
             q = (if \<not> markRedelivered then modify_message (msg_sequence m) Message_undeliver q else q);
             m = (if \<not> markRedelivered then Message_undeliver m else m);
             (s, l) = populate NotificationSet_init (q_listeners q)
         in notify_all (notify s) (log_events [ObserveRequeue m] (q \<lparr> q_listeners := l \<rparr>)))"

definition Queue_acquire :: "'p MessageContent \<Rightarrow> QueueCursor \<Rightarrow> 'p Queue \<Rightarrow> bool \<times> 'p Queue" where
  "Queue_acquire e c q =
    (case MessageDeque_find e (q_messages q) c of
       None \<Rightarrow> (False, q)
     | Some m \<Rightarrow>
         (case FifoDistributor_acquire m of
            (False, _) \<Rightarrow> (False, q)
          | (True, m') \<Rightarrow> (True, log_events [ObserveAcquire m'] (modify_message (msg_sequence m) (\<lambda>_. m') q))))"

subsection \<open>Dispatch\<close>

record Consumer =
  consumer_name :: string
  consumer_cursor :: QueueCursor
  consumer_acquires :: bool
  consumer_counted :: bool
  hideDeletedError :: bool
  consumer_session :: string

datatype 'p next_outcome = Found "'p QMessage" | Refused | Exhausted

text \<open>
  The loop of \<open>getNextMessage\<close>. \<open>flt\<close> and \<open>acc\<close> are the \<open>filter\<close> and \<open>accept\<close> methods of the consumer.
  It returns the outcome, the cursor of the consumer, the set to notify, the flag of the
  \<open>ScopedAutoDelete\<close> and the queue; the fuel bounds the calls of \<open>next\<close>.
\<close>

fun next_message_loop :: "nat \<Rightarrow> 'p MessageContent \<Rightarrow> int \<Rightarrow> ('p QMessage \<Rightarrow> bool) \<Rightarrow> ('p QMessage \<Rightarrow> bool) \<Rightarrow>
    Consumer \<Rightarrow> NotificationSet \<Rightarrow> bool \<Rightarrow> 'p Queue \<Rightarrow>
    ('p next_outcome \<times> Consumer \<times> NotificationSet \<times> bool \<times> 'p Queue) result" where
  "next_message_loop 0 e now flt acc c s el q = Inl OutOfFuel"
| "next_message_loop (Suc fuel) e now flt acc c s el q =
    (let saved = consumer_cursor c in
     case MessageDeque_next e (q_messages q) (consumer_cursor c) of
       (None, cur) \<Rightarrow>
         let c = c \<lparr> consumer_cursor := cur \<rparr>
         in Inr (Exhausted, c, s, el,
              q \<lparr> q_listeners := addListener (consumer_name c) (consumer_acquires c) (q_listeners q) \<rparr>)
     | (Some m, cur) \<Rightarrow>
         let c = c \<lparr> consumer_cursor := cur \<rparr> in
         if hasExpired now m then
           let (el, q) = observeDequeue (autodelete (q_settings q)) m el q;
               q = dequeueFromStore m q
           in next_message_loop fuel e now flt acc c s el (delete_message e cur q)
         else if flt m then
           if acc m then
             if consumer_acquires c then
               (case FifoDistributor_acquire m of
                  (True, m') \<Rightarrow>
                    let m'' = Message_deliver m'
                    in Inr (Found m'', c, s, el,
                         log_events [ObserveAcquire m'] (modify_message (msg_sequence m) (\<lambda>_. m'') q))
                | (False, _) \<Rightarrow> next_message_loop fuel e now flt acc c s el q)
             else Inr (Found m, c, s, el, q)
           else
             let c = c \<lparr> consumer_cursor := saved \<rparr>;
                 (s, l) = (if consumer_acquires c then populate s (q_listeners q) else (s, q_listeners q))
             in Inr (Refused, c, s, el, q \<lparr> q_listeners := l \<rparr>)
         else
           let (s, l) = (if consumer_acquires c then populate s (q_listeners q) else (s, q_listeners q))
           in next_message_loop fuel e now flt acc c s el (q \<lparr> q_listeners := l \<rparr>))"

definition checkNotDeleted :: "Consumer \<Rightarrow> 'p Queue \<Rightarrow> bool result" where
  "checkNotDeleted c q =
    throw_if (q_deleted q \<and> \<not> hideDeletedError c) ResourceDeletedException (Inr (\<not> q_deleted q))"

definition getNextMessage :: "'p MessageContent \<Rightarrow> int \<Rightarrow> ('p QMessage \<Rightarrow> bool) \<Rightarrow> ('p QMessage \<Rightarrow> bool) \<Rightarrow>
    Consumer \<Rightarrow> 'p Queue \<Rightarrow> ('p next_outcome \<times> Consumer \<times> 'p Queue) result" where
  "getNextMessage e now flt acc c q =
    res_bind (checkNotDeleted c q) (\<lambda>alive.
    if \<not> alive then Inr (Exhausted, c, q)
    else res_bind (next_message_loop (Suc (length (messages (q_messages q)))) e now flt acc c
                     NotificationSet_init False q)
      (\<lambda>(out, c, s, el, q). res_bind (end_autodelete e el (notify_all (notify s) q)) (\<lambda>q. Inr (out, c, q))))"

subsection \<open>Consumers\<close>

definition Queue_removeListener :: "'p MessageContent \<Rightarrow> Consumer \<Rightarrow> 'p Queue \<Rightarrow> 'p Queue" where
  "Queue_removeListener e c q =
    (let l = removeListener (consumer_name c) (consumer_acquires c) (q_listeners q);
         (s, l) = (if MessageDeque_size e (q_messages q) \<noteq> 0 then populate NotificationSet_init l
                   else (NotificationSet_init, l))
     in notify_all (notify s) (q \<lparr> q_listeners := l \<rparr>))"

definition Queue_consume :: "Consumer \<Rightarrow> bool \<Rightarrow> 'p Queue \<Rightarrow> 'p Queue result" where
  "Queue_consume c requestExclusive q =
    res_bind
      (if consumer_acquires c then
         throw_if (isBrowseOnly (q_settings q)) NotAllowedException (
         throw_if (q_exclusive q \<noteq> None) ResourceLockedException (
         throw_if (requestExclusive \<and> hasConsumers (q_users q)) ResourceLockedException (
         Inr ((if requestExclusive then q \<lparr> q_exclusive := Some (consumer_session c) \<rparr> else q)
                \<lparr> q_users := addConsumer (q_users q) \<rparr>))))
       else if consumer_counted c then Inr (q \<lparr> q_users := addBrowser (q_users q) \<rparr>)
       else Inr q)
      (\<lambda>q. Inr (if consumer_counted c then log_events [ObserveConsumerAdd (consumer_name c)] q else q))"

definition Queue_cancel :: "'p MessageContent \<Rightarrow> Consumer \<Rightarrow> 'p Queue \<Rightarrow> 'p Queue result" where
  "Queue_cancel e c q =
    (let q = Queue_removeListener e c q in
     if consumer_counted c then
       res_bind
         (if consumer_acquires c then
            res_bind (removeConsumer (q_users q)) (\<lambda>u. Inr (q \<lparr> q_users := u, q_exclusive := None \<rparr>))
          else res_bind (removeBrowser (q_users q)) (\<lambda>u. Inr (q \<lparr> q_users := u \<rparr>)))
         (\<lambda>q. let q = log_events [ObserveConsumerRemove (consumer_name c)] q
              in if \<not> isUsed (q_users q) \<and> autodelete (q_settings q) then scheduleAutoDelete e q else Inr q)
     else Inr q)"

definition markInUse :: "bool \<Rightarrow> 'p Queue \<Rightarrow> 'p Queue result" where
  "markInUse controlling q =
    (if controlling then res_bind (addLifecycleController (q_users q)) (\<lambda>u. Inr (q \<lparr> q_users := u \<rparr>))
     else Inr (q \<lparr> q_users := addOther (q_users q) \<rparr>))"

definition releaseFromUse :: "'p MessageContent \<Rightarrow> bool \<Rightarrow> 'p Queue \<Rightarrow> 'p Queue result" where
  "releaseFromUse e controlling q =
    (if controlling then
       res_bind (removeLifecycleController (q_users q)) (\<lambda>u. scheduleAutoDelete e (q \<lparr> q_users := u \<rparr>))
     else
       res_bind (removeOther (q_users q)) (\<lambda>u.
         let q = q \<lparr> q_users := u \<rparr> in if Queue_isUnused q then scheduleAutoDelete e q else Inr q))"

definition setExclusiveOwner :: "string \<Rightarrow> 'p Queue \<Rightarrow> bool \<times> 'p Queue" where
  "setExclusiveOwner x q =
    (if q_owner q \<noteq> None \<or> hasConsumers (q_users q) then (False, q) else (True, q \<lparr> q_owner := Some x \<rparr>))"

definition releaseExclusiveOwnership :: "'p MessageContent \<Rightarrow> 'p Queue \<Rightarrow> 'p Queue result" where
  "releaseExclusiveOwnership e q =
    (let q = q \<lparr> q_owner := None \<rparr>
     in if \<not> isUsed (q_users q) \<and> autodelete (q_settings q) then scheduleAutoDelete e q else Inr q)"

definition getMessageCount :: "'p MessageContent \<Rightarrow> 'p Queue \<Rightarrow> nat" where
  "getMessageCount e q = MessageDeque_size e (q_messages q)"

text \<open>\<open>seek\<close> with a predicate; the fuel bounds the calls of \<open>next\<close>.\<close>

fun seek_loop :: "nat \<Rightarrow> 'p MessageContent \<Rightarrow> ('p QMessage \<Rightarrow> bool) \<Rightarrow> QueueCursor \<Rightarrow> 'p Queue \<Rightarrow>
    (bool \<times> QueueCursor) result" where
  "seek_loop 0 e p c q = Inl OutOfFuel"
| "seek_loop (Suc fuel) e p c q =
    (case MessageDeque_next e (q_messages q) c of
       (None, c) \<Rightarrow> Inr (False, c)
     | (Some m, c) \<Rightarrow> if p m then Inr (True, c) else seek_loop fuel e p c q)"

definition Queue_seek :: "'p MessageContent \<Rightarrow> ('p QMessage \<Rightarrow> bool) \<Rightarrow> QueueCursor \<Rightarrow> 'p Queue \<Rightarrow>
    (bool \<times> QueueCursor) result" where
  "Queue_seek e p c q = seek_loop (Suc (length (messages (q_messages q)))) e p c q"

end
