(* ===== verification/Queue_Invariant.thy ===== *)
theory Queue_Invariant
  imports Broker_Queue
begin

text \<open>
  What the queue guarantees: a cursor that moves through the deque while messages are removed under
  it sees every message once, the loops of \<open>remove\<close> and \<open>getNextMessage\<close> end within their fuel, and
  the depth that the queue reports is that of the messages it holds or has reserved space for.
\<close>

section \<open>A cursor while messages are deleted\<close>

text \<open>The messages that a cursor has before it: a tail of the deque from which \<open>next\<close> continues.\<close>

definition rest :: "'t item_ops \<Rightarrow> 't IndexedDeque \<Rightarrow> QueueCursor \<Rightarrow> 't list \<Rightarrow> bool" where
  "rest G d c xs \<longleftrightarrow> (\<exists>ys. messages d = ys @ xs) \<and> deque_next G d c = next_loop G (version d) c xs"

lemma rest_init:
  assumes "deque_inv G d"
  shows "rest G d (QueueCursor_init t) (messages d)"
  using assms by (simp add: rest_def deque_next_def deque_reset_def QueueCursor_init_def deque_inv_def)

lemma rest_none:
  assumes "rest G d c xs" "filter (viewable G (cursor_type c)) xs = []"
  shows "fst (deque_next G d c) = None"
  using assms next_loop_none [of G c xs] by (simp add: rest_def)

lemma rest_at:
  assumes "deque_inv G d" "messages d = us @ m # vs" "valid c" "position c = getSequence G m"
    "cursor_version c = version d"
  shows "rest G d c vs"
proof -
  have "deque_next G d c = next_loop G (version d) c (drop (Suc (length us)) (messages d))"
    using next_from [of G d "length us" c] assms by (simp add: nth_append)
  then show ?thesis
    using assms(2) by (auto simp: rest_def intro: exI [of _ "us @ [m]"])
qed

lemma rest_step:
  assumes inv: "deque_inv G d" and r: "rest G d c xs"
    and f: "filter (viewable G (cursor_type c)) xs = m # ms"
  obtains c' us vs where "deque_next G d c = (Some m, c')" "valid c'" "position c' = getSequence G m"
    "cursor_version c' = version d" "cursor_type c' = cursor_type c" "messages d = us @ m # vs"
    "filter (viewable G (cursor_type c)) vs = ms" "length vs < length xs" "rest G d c' vs"
proof -
  obtain c' where c': "deque_next G d c = (Some m, c')" "valid c'" "position c' = getSequence G m"
    "cursor_version c' = version d" "cursor_type c' = cursor_type c"
    using next_loop_some [OF f, of "version d"] r unfolding rest_def by metis
  obtain ys where ys: "messages d = ys @ xs"
    using r by (auto simp: rest_def)
  obtain us vs where xs: "xs = us @ m # vs" "filter (viewable G (cursor_type c)) vs = ms"
    using f by (auto simp: filter_eq_Cons_iff)
  have "messages d = (ys @ us) @ m # vs"
    using ys xs by simp
  from that [OF c' this xs(2) _ rest_at [OF inv this c'(2-4)]] xs(1) show ?thesis
    by simp
qed

lemma drop_append_Cons:
  "\<exists>zs j. drop k (us @ m # vs) = zs @ drop j vs \<and> (zs \<noteq> [] \<longrightarrow> j = 0 \<and> (\<exists>us'. zs = us' @ [m])) \<and>
     (zs = [] \<longrightarrow> k = length us + 1 + j)"
proof (cases "k \<le> length us")
  case True
  then have "drop k (us @ m # vs) = (drop k us @ [m]) @ drop 0 vs"
    by simp
  then show ?thesis
    by blast
next
  case False
  then have "drop k (us @ m # vs) = [] @ drop (k - length us - 1) vs"
    by (cases "k - length us") auto
  then show ?thesis
    using False by (intro exI [of _ "[]"] exI [of _ "k - length us - 1"]) simp
qed

text \<open>
  Cleaning the front of the deque does not change what is before a cursor, apart from deleted
  messages that the cursor would have passed over.
\<close>

lemma next_loop_skip_deleted:
  "\<forall>m\<in>set us. getState G m = DELETED \<Longrightarrow> next_loop G v c (us @ vs) = next_loop G v c vs"
  by (induction us) auto

lemma filter_viewable_deleted:
  "\<forall>m\<in>set us. getState G m = DELETED \<Longrightarrow> filter (viewable G t) us = []"
  by (auto simp: viewable_def filter_empty_conv)

lemma less_offset:
  assumes "0 < j" "j < 2 ^ 31"
  shows "SequenceNumber_less p (p + of_nat j)"
proof -
  have "in_window p p" "in_window p (p + of_nat j)" "window_pos p (p + of_nat j) = j" "window_pos p p = 0"
    using assms unat_of_nat32 [of j] by (simp_all add: in_window_def window_pos_def)
  then show ?thesis
    using SequenceNumber_less_window [of p p "p + of_nat j"] assms(1) by simp
qed

lemma rest_clean:
  assumes inv: "deque_inv G d" and ms: "messages d = us @ m # vs"
    and c: "valid c" "position c = getSequence G m" "cursor_version c = version d"
  obtains vs' where "rest G (clean G d) c vs'" "filter (viewable G (cursor_type c)) vs' = filter (viewable G (cursor_type c)) vs"
    "length vs' \<le> length vs"
proof -
  obtain k where k: "clean_loop G 0 (messages d) = (k, drop k (messages d))"
    "\<forall>x\<in>set (take k (messages d)). getState G x = DELETED"
    using clean_loop_drop [of G 0 "messages d"] by auto
  have md: "messages (clean G d) = drop k (us @ m # vs)" and ver: "version (clean G d) = version d"
    using k(1) ms clean_correct(4) [OF inv] by (simp_all add: clean_def)
  have inv': "deque_inv G (clean G d)"
    using inv by (rule clean_correct(1))
  obtain zs j where zj: "drop k (us @ m # vs) = zs @ drop j vs"
    "zs \<noteq> [] \<longrightarrow> j = 0 \<and> (\<exists>us'. zs = us' @ [m])" "zs = [] \<longrightarrow> k = length us + 1 + j"
    using drop_append_Cons [of k us m vs] by blast
  show ?thesis
  proof (cases "zs = []")
    case False
    then obtain us' where "messages (clean G d) = us' @ m # vs"
      using zj md by auto
    from rest_at [OF inv' this c(1,2)] c(3) ver show ?thesis
      by (intro that [of vs]) simp_all
  next
    case True
    then have kj: "k = length us + 1 + j" and md': "messages (clean G d) = drop j vs"
      using zj md by auto
    then have "take k (messages d) = us @ m # take j vs"
      using ms by simp
    then have del: "\<forall>x\<in>set (take j vs). getState G x = DELETED"
      using k(2) by simp
    then have "filter (viewable G (cursor_type c)) (take j vs) = []"
      by (rule filter_viewable_deleted)
    then have flt: "filter (viewable G (cursor_type c)) (drop j vs) = filter (viewable G (cursor_type c)) vs"
      by (metis append.left_neutral append_take_drop_id filter_append)
    have "deque_next G (clean G d) c = next_loop G (version (clean G d)) c (drop j vs)"
    proof (cases "drop j vs")
      case Nil
      then show ?thesis
        using md' inv' by (simp add: deque_next_def)
    next
      case (Cons x xs)
      have cont: "contiguous G (messages d)"
        using inv by (simp add: deque_inv_def)
      have jl: "j < length vs"
        using Cons by (metis drop_eq_Nil linorder_not_less list.distinct(1))
      have "length (messages d) = length us + 1 + length vs"
        using ms by simp
      then have kl: "k < length (messages d)" and ul: "length us < length (messages d)" and l31: "length (messages d) < 2 ^ 31"
        using kj jl cont by (auto simp: contiguous_def)
      have "messages d ! k = vs ! j" "messages d ! length us = m"
        using ms kj by (simp_all add: nth_append)
      then have seq: "getSequence G (vs ! j) = position c + of_nat (1 + j)"
        using contiguous_nth [OF cont ul kl] kj c(2) by simp
      have x: "x = vs ! j"
        using Cons jl by (metis Cons_nth_drop_Suc list.inject)
      have i0: "snd (index_seq G (clean G d) (position c + 1) 0) = 0"
      proof (cases "j = 0")
        case True
        then have "index_seq G (clean G d) (position c + 1) 0 = (True, 0)"
          using index_seq_found [of G "clean G d" "position c + 1" 0 0] inv' md' Cons seq x jl
          by (simp add: deque_inv_def)
        then show ?thesis by simp
      next
        case False
        have "getSequence G x = (position c + 1) + of_nat j" "j < 2 ^ 31"
          using seq x jl kj kl l31 by simp_all
        then have "SequenceNumber_less (position c + 1) (getSequence G x)"
          using False less_offset [of j "position c + 1"] by simp
        then show ?thesis
          using md' Cons by (simp add: index_seq_def Let_def)
      qed
      have "\<not> deque_reset (clean G d) c"
        using c ver by (simp add: deque_reset_def)
      then show ?thesis
        using c(1) i0 md' by (simp add: deque_next_def index_cursor_def)
    qed
    then have "rest G (clean G d) c (drop j vs)"
      using md' by (auto simp: rest_def intro: exI [of _ "[]"])
    then show ?thesis
      using flt by (intro that [of "drop j vs"]) simp_all
  qed
qed

lemma rest_deleted:
  assumes inv: "deque_inv (message_ops e) d" and ms: "messages d = us @ m # vs"
    and c: "valid c" "position c = msg_sequence m" "cursor_version c = version d"
  obtains vs' where "fst (MessageDeque_deleted e d c)"
    "rest (message_ops e) (snd (MessageDeque_deleted e d c)) c vs'"
    "filter (viewable (message_ops e) (cursor_type c)) vs' = filter (viewable (message_ops e) (cursor_type c)) vs"
    "length vs' \<le> length vs"
proof -
  let ?G = "message_ops e"
  have cont: "contiguous ?G (messages d)"
    using inv by (simp add: deque_inv_def)
  have ix: "index_seq ?G d (position c) 0 = (True, length us)"
    using index_seq_found [OF cont] ms c(2) by simp
  define d' where "d' = d \<lparr> messages := (messages d)[length us := setState ?G DELETED (messages d ! length us)] \<rparr>"
  have del: "MessageDeque_deleted e d c = (True, clean ?G d')"
    using ix c(1) by (simp add: MessageDeque_deleted_def deque_deleted_def d'_def)
  have "deque_inv ?G d'"
    using inv message_items.contiguous_update [OF cont] by (simp add: deque_inv_def d'_def)
  moreover have "messages d' = us @ m \<lparr> msg_state := DELETED \<rparr> # vs" "version d' = version d"
    using ms by (simp_all add: d'_def nth_append)
  ultimately obtain vs' where "rest ?G (clean ?G d') c vs'"
    "filter (viewable ?G (cursor_type c)) vs' = filter (viewable ?G (cursor_type c)) vs" "length vs' \<le> length vs"
    using rest_clean [of ?G d' us "m \<lparr> msg_state := DELETED \<rparr>" vs c] c by auto
  with that del show ?thesis
    by simp
qed

section \<open>The invariant of a queue\<close>

text \<open>
  \<open>contents\<close> are the messages of the queue that are not deleted. The invariant has the messages for
  which space is reserved as a parameter: those enqueued and not yet pushed or aborted.
\<close>

definition contents :: "'p MessageContent \<Rightarrow> 'p Queue \<Rightarrow> 'p QMessage list" where
  "contents e q = live (message_ops e) (messages (q_messages q))"

definition sizes :: "'p QMessage list \<Rightarrow> 64 word" where
  "sizes ms = sum_list (map getMessageSize ms)"

definition depth_ok :: "'p MessageContent \<Rightarrow> 'p QMessage list \<Rightarrow> 'p Queue \<Rightarrow> bool" where
  "depth_ok e rs q \<longleftrightarrow> hasCount (q_current q) \<and>
     getCount (q_current q) = of_nat (length (contents e q) + length rs) \<and>
     (hasSize (q_current q) \<longrightarrow> getSize (q_current q) = sizes (contents e q) + sizes rs)"

definition last_sequence :: "'p Queue \<Rightarrow> bool" where
  "last_sequence q \<longleftrightarrow> messages (q_messages q) = [] \<or> msg_sequence (last (messages (q_messages q))) = q_sequence q"

definition queue_inv :: "'p MessageContent \<Rightarrow> 'p QMessage list \<Rightarrow> 'p Queue \<Rightarrow> bool" where
  "queue_inv e rs q \<longleftrightarrow> deque_inv (message_ops e) (q_messages q) \<and> last_sequence q \<and>
     (\<forall>m\<in>set (contents e q). msg_state m = AVAILABLE \<or> msg_state m = ACQUIRED) \<and> depth_ok e rs q"

lemma sizes_simps [simp]:
  "sizes [] = 0" "sizes (m # ms) = getMessageSize m + sizes ms" "sizes (xs @ ys) = sizes xs + sizes ys"
  by (simp_all add: sizes_def)

lemma sizes_remove1: "m \<in> set ms \<Longrightarrow> sizes (remove1 m ms) = sizes ms - getMessageSize m"
  by (induction ms) (auto simp: algebra_simps)

text \<open>Fields that the invariant does not read.\<close>

lemma queue_inv_update [simp]:
  "queue_inv e rs (log_events es q) = queue_inv e rs q"
  "queue_inv e rs (notify_all cs q) = queue_inv e rs q"
  "queue_inv e rs (q \<lparr> q_listeners := l \<rparr>) = queue_inv e rs q"
  "queue_inv e rs (q \<lparr> q_users := u \<rparr>) = queue_inv e rs q"
  "queue_inv e rs (q \<lparr> q_uses := n \<rparr>) = queue_inv e rs q"
  "queue_inv e rs (q \<lparr> q_deleted := b \<rparr>) = queue_inv e rs q"
  "queue_inv e rs (q \<lparr> q_store := b \<rparr>) = queue_inv e rs q"
  "queue_inv e rs (q \<lparr> q_alternate := b \<rparr>) = queue_inv e rs q"
  "queue_inv e rs (q \<lparr> q_registered := b \<rparr>) = queue_inv e rs q"
  "queue_inv e rs (q \<lparr> q_exclusive := x \<rparr>) = queue_inv e rs q"
  "queue_inv e rs (q \<lparr> q_owner := y \<rparr>) = queue_inv e rs q"
  by (simp_all add: queue_inv_def depth_ok_def contents_def last_sequence_def log_events_def notify_all_def)

lemma queue_contents_update [simp]:
  "contents e (log_events es q) = contents e q" "contents e (notify_all cs q) = contents e q"
  "contents e (q \<lparr> q_listeners := l \<rparr>) = contents e q" "contents e (q \<lparr> q_current := d \<rparr>) = contents e q"
  "contents e (q \<lparr> q_uses := n \<rparr>) = contents e q" "contents e (q \<lparr> q_deleted := b \<rparr>) = contents e q"
  by (simp_all add: contents_def log_events_def notify_all_def)

lemma log_events_fields [simp]:
  "q_messages (log_events es q) = q_messages q" "q_settings (log_events es q) = q_settings q"
  "q_current (log_events es q) = q_current q" "q_sequence (log_events es q) = q_sequence q"
  "q_listeners (log_events es q) = q_listeners q" "q_deleted (log_events es q) = q_deleted q"
  "q_messages (notify_all cs q) = q_messages q" "q_settings (notify_all cs q) = q_settings q"
  "q_current (notify_all cs q) = q_current q" "q_sequence (notify_all cs q) = q_sequence q"
  by (simp_all add: log_events_def notify_all_def)

lemma dequeueFromStore_inv [simp]:
  "queue_inv e rs (dequeueFromStore m q) = queue_inv e rs q"
  "contents e (dequeueFromStore m q) = contents e q"
  "q_messages (dequeueFromStore m q) = q_messages q"
  by (simp_all add: dequeueFromStore_def)

lemma contents_distinct:
  "queue_inv e rs q \<Longrightarrow> distinct (map msg_sequence (contents e q))"
  using message_deque.distinct_contents [of e "q_messages q"] by (simp add: queue_inv_def contents_def)

lemma contents_memberD: "m \<in> set (contents e q) \<Longrightarrow> m \<in> set (messages (q_messages q)) \<and> msg_state m \<noteq> DELETED"
  by (simp add: contents_def live_def)

lemma filter_other:
  assumes "distinct (map msg_sequence ms)" "m \<in> set ms"
  shows "filter (\<lambda>x. msg_sequence x \<noteq> msg_sequence m) ms = remove1 m ms"
  using assms
proof (induction ms)
  case (Cons a ms)
  show ?case
  proof (cases "a = m")
    case True
    then have "filter (\<lambda>x. msg_sequence x \<noteq> msg_sequence m) ms = ms"
      using Cons.prems(1) by (auto simp: filter_id_conv image_iff)
    then show ?thesis
      using True by simp
  next
    case False
    then have "msg_sequence a \<noteq> msg_sequence m"
      using Cons.prems by auto
    then show ?thesis
      using Cons False by simp
  qed
qed simp

lemma last_deleted:
  assumes "MessageDeque_deleted e d c = (b, d')"
  shows "messages d' = [] \<or> (messages d \<noteq> [] \<and> msg_sequence (last (messages d')) = msg_sequence (last (messages d)))"
proof (cases "messages d = [] \<or> \<not> (valid c \<and> fst (index_seq (message_ops e) d (position c) 0))")
  case True
  then show ?thesis
    using assms by (cases "messages d = []")
      (auto simp: MessageDeque_deleted_def deque_deleted_def index_seq_def split: prod.splits)
next
  case False
  define i where "i = snd (index_seq (message_ops e) d (position c) 0)"
  define d1 where "d1 = d \<lparr> messages := (messages d)[i := (messages d ! i) \<lparr> msg_state := DELETED \<rparr>] \<rparr>"
  have d': "d' = clean (message_ops e) d1"
    using assms False
    by (auto simp: MessageDeque_deleted_def deque_deleted_def d1_def i_def split: prod.splits)
  obtain k where "clean_loop (message_ops e) 0 (messages d1) = (k, drop k (messages d1))"
    using clean_loop_drop [of "message_ops e" 0 "messages d1"] by auto
  then have md: "messages d' = drop k (messages d1)"
    unfolding d' by (simp add: clean_def)
  have "msg_sequence (last (messages d1)) = msg_sequence (last (messages d))"
    using False by (cases "i = length (messages d) - Suc 0") (auto simp: d1_def last_conv_nth nth_list_update)
  moreover have "last (drop k (messages d1)) = last (messages d1)" if "drop k (messages d1) \<noteq> []"
    using that by (simp add: last_drop)
  ultimately show ?thesis
    using False md by (cases "messages d' = []") auto
qed


text \<open>Removing a message and accounting for it.\<close>

lemma depth_sub:
  assumes "hasCount d"
  shows "hasCount (QueueDepth_sub_assign d (depth_of m))"
    "getCount (QueueDepth_sub_assign d (depth_of m)) = getCount d - 1"
    "hasSize (QueueDepth_sub_assign d (depth_of m)) = hasSize d"
    "hasSize d \<Longrightarrow> getSize (QueueDepth_sub_assign d (depth_of m)) = getSize d - getMessageSize m"
  using assms by (simp_all add: QueueDepth_sub_assign_def Optional_change_def depth_of_def depth_defs)

lemma depth_add:
  assumes "hasCount d"
  shows "hasCount (QueueDepth_add_assign d (depth_of m))"
    "getCount (QueueDepth_add_assign d (depth_of m)) = getCount d + 1"
    "hasSize (QueueDepth_add_assign d (depth_of m)) = hasSize d"
    "hasSize d \<Longrightarrow> getSize (QueueDepth_add_assign d (depth_of m)) = getSize d + getMessageSize m"
  using assms by (simp_all add: QueueDepth_add_assign_def Optional_change_def depth_of_def depth_defs)

definition dropped :: "'p MessageContent \<Rightarrow> QueueCursor \<Rightarrow> 'p QMessage \<Rightarrow> 'p Queue \<Rightarrow> 'p Queue" where
  "dropped e c m q = q \<lparr> q_current := QueueDepth_sub_assign (q_current q) (depth_of m),
     q_messages := snd (MessageDeque_deleted e (q_messages q) c) \<rparr>"

lemma dropped_inv:
  assumes inv: "queue_inv e rs q" and c: "valid c" "position c = msg_sequence m" and m: "m \<in> set (contents e q)"
  shows "queue_inv e rs (dropped e c m q)" "contents e (dropped e c m q) = remove1 m (contents e q)"
proof -
  have law: "deque_inv (message_ops e) (snd (MessageDeque_deleted e (q_messages q) c))"
    "live (message_ops e) (messages (snd (MessageDeque_deleted e (q_messages q) c))) =
      filter (\<lambda>x. msg_sequence x \<noteq> msg_sequence m) (contents e q)"
    using message_deque.deleted_law [of e "q_messages q" c] inv c by (simp_all add: queue_inv_def contents_def)
  then show cont: "contents e (dropped e c m q) = remove1 m (contents e q)"
    using filter_other [OF contents_distinct [OF inv] m] by (simp add: dropped_def contents_def)
  have "last_sequence (dropped e c m q)"
    using inv last_deleted [of e "q_messages q" c "fst (MessageDeque_deleted e (q_messages q) c)"
        "snd (MessageDeque_deleted e (q_messages q) c)"]
    by (auto simp: queue_inv_def last_sequence_def dropped_def)
  moreover have "depth_ok e rs (dropped e c m q)"
  proof -
    have pos: "length (contents e q) = Suc (length (remove1 m (contents e q)))"
      using m length_remove1 [of m "contents e q"] by (cases "contents e q") auto
    show ?thesis
      using inv pos cont m depth_sub [of "q_current q" m]
      by (auto simp: queue_inv_def depth_ok_def sizes_remove1 dropped_def)
  qed
  moreover have "\<forall>x\<in>set (contents e (dropped e c m q)). msg_state x = AVAILABLE \<or> msg_state x = ACQUIRED"
    using inv notin_set_remove1 unfolding cont queue_inv_def by metis
  ultimately show "queue_inv e rs (dropped e c m q)"
    using law(1) by (simp add: queue_inv_def dropped_def)
qed

lemma log_events_commute:
  "(log_events es q) \<lparr> q_messages := d \<rparr> = log_events es (q \<lparr> q_messages := d \<rparr>)"
  "(log_events es q) \<lparr> q_current := k \<rparr> = log_events es (q \<lparr> q_current := k \<rparr>)"
  "log_events fs (log_events es q) = log_events (es @ fs) q"
  by (cases q, simp add: log_events_def)+

lemma snd_observeDequeue [simp]:
  "snd (observeDequeue auto m el q) =
     log_events [ObserveDequeue m] (q \<lparr> q_current := QueueDepth_sub_assign (q_current q) (depth_of m) \<rparr>)"
  by (simp add: observeDequeue_def Let_def)

lemma observeDequeue_auto: "\<not> auto \<Longrightarrow> fst (observeDequeue auto m el q) = el"
  by (simp add: observeDequeue_def Let_def)

text \<open>The parts of the state that no operation on messages changes.\<close>

definition frame :: "'p Queue \<Rightarrow> 'p Queue \<Rightarrow> bool" where
  "frame q q' \<longleftrightarrow> q_settings q' = q_settings q \<and> q_class q' = q_class q \<and>
     hasSize (q_current q') = hasSize (q_current q)"

lemma frame_refl [simp]: "frame q q"
  by (simp add: frame_def)

lemma frame_trans: "frame q q' \<Longrightarrow> frame q' q'' \<Longrightarrow> frame q q''"
  by (simp add: frame_def)

lemma frame_update [simp]:
  "frame q (log_events es q') = frame q q'" "frame (log_events es q) q' = frame q q'"
  "frame q (notify_all cs q') = frame q q'"
  "frame q (q' \<lparr> q_listeners := l \<rparr>) = frame q q'" "frame (q \<lparr> q_listeners := l \<rparr>) q' = frame q q'"
  "frame q (q' \<lparr> q_messages := d \<rparr>) = frame q q'" "frame q (q' \<lparr> q_deleted := b \<rparr>) = frame q q'"
  "frame q (q' \<lparr> q_store := b \<rparr>) = frame q q'" "frame q (q' \<lparr> q_alternate := b \<rparr>) = frame q q'"
  "frame q (q' \<lparr> q_uses := n \<rparr>) = frame q q'" "frame (q \<lparr> q_uses := n \<rparr>) q' = frame q q'"
  "frame (q \<lparr> q_registered := b \<rparr>) q' = frame q q'" "frame q (q' \<lparr> q_users := u \<rparr>) = frame q q'"
  by (simp_all add: frame_def log_events_def notify_all_def)

lemma frame_store [simp]: "frame q (dequeueFromStore m q') = frame q q'"
  "frame (dequeueFromStore m q) q' = frame q q'" "frame (notify_all cs q) q' = frame q q'"
  by (simp_all add: dequeueFromStore_def notify_all_def)

lemma frame_dropped [simp]: "frame (dropped e c m q) q' = frame q q'" "frame q (dropped e c m q) = True"
  by (simp_all add: frame_def dropped_def QueueDepth_sub_assign_def Optional_change_def hasSize_def)

lemma frame_modify [simp]: "frame q (modify_message p f q') = frame q q'"
  by (simp add: modify_message_def)

text \<open>What the loop of \<open>remove\<close> does, with respect to the messages that its cursor has before it.\<close>

fun chosen :: "nat \<Rightarrow> ('p QMessage \<Rightarrow> bool) \<Rightarrow> nat \<Rightarrow> nat \<Rightarrow> nat \<Rightarrow> 'p QMessage list \<Rightarrow> 'p QMessage list" where
  "chosen maxCount p maxTests n tests [] = []"
| "chosen maxCount p maxTests n tests (m # ms) =
    (if maxTests \<noteq> 0 \<and> tests \<ge> maxTests then []
     else if p m then
       if maxCount \<noteq> 0 \<and> n \<ge> maxCount then []
       else m # chosen maxCount p maxTests (n + 1) (tests + 1) ms
     else chosen maxCount p maxTests n (tests + 1) ms)"

definition minus_all :: "'a list \<Rightarrow> 'a list \<Rightarrow> 'a list" where
  "minus_all xs ms = fold remove1 ms xs"

lemma viewable_contents:
  assumes "messages (q_messages q) = us @ m # vs" "viewable (message_ops e) t m"
  shows "m \<in> set (contents e q)"
  using assms by (auto simp: contents_def live_def viewable_def)

lemma remove_loop_correct:
  assumes "queue_inv e rs q" "rest (message_ops e) (q_messages q) c xs" "length xs < fuel"
  shows "\<exists>el' q'. remove_loop fuel e maxCount p auto maxTests c n tests removed el q =
      Inr (removed @ chosen maxCount p maxTests n tests (filter (viewable (message_ops e) (cursor_type c)) xs), el', q') \<and>
    queue_inv e rs q' \<and>
    contents e q' = minus_all (contents e q)
      (chosen maxCount p maxTests n tests (filter (viewable (message_ops e) (cursor_type c)) xs)) \<and> frame q q' \<and> (\<not> auto \<longrightarrow> el' = el)"
  using assms
proof (induction fuel arbitrary: c n tests removed el q xs)
  case (Suc fuel)
  have dinv: "deque_inv (message_ops e) (q_messages q)"
    using Suc.prems(1) by (simp add: queue_inv_def)
  show ?case
  proof (cases "filter (viewable (message_ops e) (cursor_type c)) xs")
    case Nil
    then show ?thesis
      using rest_none [OF Suc.prems(2) Nil] Suc.prems(1)
      by (cases "deque_next (message_ops e) (q_messages q) c") (simp add: MessageDeque_next_def minus_all_def)
  next
    case (Cons m ms)
    obtain c' us vs where c': "deque_next (message_ops e) (q_messages q) c = (Some m, c')" "valid c'"
      "position c' = msg_sequence m" "cursor_version c' = version (q_messages q)" "cursor_type c' = cursor_type c"
      and split: "messages (q_messages q) = us @ m # vs" "filter (viewable (message_ops e) (cursor_type c)) vs = ms"
      "length vs < length xs" "rest (message_ops e) (q_messages q) c' vs"
      using rest_step [OF dinv Suc.prems(2) Cons] by (metis message_ops_simps(1))
    have mc: "m \<in> set (contents e q)"
      using viewable_contents [OF split(1), of e "cursor_type c"] Cons by (metis filter_eq_Cons_iff)
    show ?thesis
    proof (cases "maxTests \<noteq> 0 \<and> tests \<ge> maxTests \<or> (p m \<and> maxCount \<noteq> 0 \<and> n \<ge> maxCount)")
      case True
      then show ?thesis
        using c'(1) Cons Suc.prems(1) by (auto simp: MessageDeque_next_def minus_all_def)
    next
      case go: False
      show ?thesis
      proof (cases "p m")
        case False
        from Suc.IH [of q c' vs n "tests + 1" removed el] Suc.prems(1,3) split(2-4) c'(5)
        show ?thesis
          using go False Cons c'(1) by (auto simp: MessageDeque_next_def)
      next
        case True
        let ?es = "(if msg_state m = AVAILABLE then [ObserveAcquire m] else []) @ [ObserveDequeue m]"
        let ?q = "log_events ?es (dropped e c' m q)"
        obtain vs' where vs': "fst (MessageDeque_deleted e (q_messages q) c')"
          "rest (message_ops e) (snd (MessageDeque_deleted e (q_messages q) c')) c' vs'"
          "filter (viewable (message_ops e) (cursor_type c')) vs' = filter (viewable (message_ops e) (cursor_type c')) vs"
          "length vs' \<le> length vs"
          using rest_deleted [OF dinv split(1) c'(2-4)] .
        have q: "queue_inv e rs ?q" "contents e ?q = remove1 m (contents e q)"
          using dropped_inv [OF Suc.prems(1) c'(2,3) mc] by simp_all
        have rq: "rest (message_ops e) (q_messages ?q) c' vs'"
          using vs'(2) by (simp add: dropped_def)
        have step: "\<exists>el'. remove_loop (Suc fuel) e maxCount p auto maxTests c n tests removed el q =
            remove_loop fuel e maxCount p auto maxTests c' (n + 1) (tests + 1) (removed @ [m]) el' ?q \<and>
            (\<not> auto \<longrightarrow> el' = el)"
          using go True c'(1) vs'(1)
          by (cases "msg_state m = AVAILABLE")
            (auto simp: MessageDeque_next_def Let_def split_beta dropped_def log_events_commute observeDequeue_auto)
        from Suc.IH [of ?q c' vs' "n + 1" "tests + 1" "removed @ [m]"] q rq vs'(3,4) Suc.prems(3) split(2,3) c'(5)
        show ?thesis
          using step go True Cons by (auto simp: minus_all_def)
      qed
    qed
  qed
qed simp


text \<open>\<open>remove\<close> up to the end of its scope, on the whole deque.\<close>

definition keeps :: "'p MessageContent \<Rightarrow> ('p QMessage \<Rightarrow> 'p Queue \<Rightarrow> 'p Queue) \<Rightarrow> bool" where
  "keeps e f \<longleftrightarrow> (\<forall>rs m q. queue_inv e rs q \<longrightarrow>
     queue_inv e rs (f m q) \<and> contents e (f m q) = contents e q \<and> frame q (f m q))"

lemma fold_keeps_inv:
  assumes "keeps e f" and "queue_inv e rs q"
  shows "queue_inv e rs (fold (\<lambda>m q. dequeueFromStore m (f m q)) ms q) \<and>
    contents e (fold (\<lambda>m q. dequeueFromStore m (f m q)) ms q) = contents e q \<and>
    frame q (fold (\<lambda>m q. dequeueFromStore m (f m q)) ms q)"
  using assms(2)
proof (induction ms arbitrary: q)
  case (Cons m ms)
  have "queue_inv e rs (dequeueFromStore m (f m q))" "contents e (dequeueFromStore m (f m q)) = contents e q"
    "frame q (dequeueFromStore m (f m q))"
    using assms(1) Cons.prems by (simp_all add: keeps_def)
  then show ?case
    using Cons.IH [of "dequeueFromStore m (f m q)"] frame_trans by fastforce
qed simp

lemma remove_messages_correct:
  fixes maxCount maxTests :: nat and p :: "'p QMessage \<Rightarrow> bool" and t :: SubscriptionType
  assumes "queue_inv e rs q" and "keeps e f"
  defines "ms \<equiv> chosen maxCount p maxTests 0 0
    (filter (viewable (message_ops e) t) (messages (q_messages q)))"
  shows "\<exists>el q'. remove_messages e maxCount p f t auto maxTests q = Inr (ms, el, q') \<and>
    queue_inv e rs q' \<and> contents e q' = minus_all (contents e q) ms \<and> frame q q' \<and> (\<not> auto \<longrightarrow> \<not> el)"
proof -
  have "deque_inv (message_ops e) (q_messages q)"
    using assms(1) by (simp add: queue_inv_def)
  from rest_init [OF this] remove_loop_correct [OF assms(1), of "QueueCursor_init t" "messages (q_messages q)"
      "Suc (length (messages (q_messages q)))" maxCount p auto maxTests 0 0 "[]" False]
  obtain el q' where run: "remove_loop (Suc (length (messages (q_messages q)))) e maxCount p auto maxTests
      (QueueCursor_init t) 0 0 [] False q = Inr (ms, el, q')"
    "queue_inv e rs q'" "contents e q' = minus_all (contents e q) ms" "frame q q'" "\<not> auto \<longrightarrow> \<not> el"
    by (auto simp: ms_def QueueCursor_init_def)
  then show ?thesis
    using fold_keeps_inv [OF assms(2) run(2)] frame_trans by (fastforce simp: remove_messages_def)
qed

lemma viewable_live:
  "filter (viewable (message_ops e) t) (live (message_ops e) ms) = filter (viewable (message_ops e) t) ms"
  by (induction ms) (auto simp: live_def viewable_def)

lemma keeps_simps [simp]: "keeps e reroute_alternate" "keeps e (\<lambda>m q. q)"
  by (simp_all add: keeps_def reroute_alternate_def)

lemma notifyDeleted_inv [simp]: "queue_inv e rs (notifyDeleted q) = queue_inv e rs q"
  by (simp add: notifyDeleted_def)

text \<open>The operations that do not take in a message leave the queue no deeper.\<close>

definition shrinks :: "'p MessageContent \<Rightarrow> 'p Queue \<Rightarrow> 'p Queue \<Rightarrow> bool" where
  "shrinks e q q' \<longleftrightarrow> frame q q' \<and> length (contents e q') \<le> length (contents e q) \<and>
     total_size (contents e q') \<le> total_size (contents e q)"

lemma shrinks_refl [simp]: "shrinks e q q"
  by (simp add: shrinks_def)

lemma shrinks_trans: "shrinks e q q' \<Longrightarrow> shrinks e q' q'' \<Longrightarrow> shrinks e q q''"
  by (auto simp: shrinks_def intro: frame_trans)

lemma contents_more [simp]:
  "contents e (q \<lparr> q_store := b \<rparr>) = contents e q" "contents e (q \<lparr> q_alternate := b \<rparr>) = contents e q"
  "contents e (q \<lparr> q_registered := b \<rparr>) = contents e q" "contents e (q \<lparr> q_users := u \<rparr>) = contents e q"
  "contents e (notifyDeleted q) = contents e q"
  by (simp_all add: contents_def notifyDeleted_def notify_all_def log_events_def)

lemma frame_notifyDeleted [simp]: "frame q (notifyDeleted q') = frame q q'"
  by (simp add: notifyDeleted_def)

lemma shrinks_update [simp]:
  "shrinks e q (log_events es q') = shrinks e q q'" "shrinks e q (notify_all cs q') = shrinks e q q'"
  "shrinks e q (q' \<lparr> q_listeners := l \<rparr>) = shrinks e q q'" "shrinks e q (q' \<lparr> q_uses := n \<rparr>) = shrinks e q q'"
  "shrinks e (q \<lparr> q_uses := n \<rparr>) q' = shrinks e q q'" "shrinks e (log_events es q) q' = shrinks e q q'"
  "shrinks e (q \<lparr> q_registered := b \<rparr>) q' = shrinks e q q'" "shrinks e q (q' \<lparr> q_store := b \<rparr>) = shrinks e q q'"
  "shrinks e q (q' \<lparr> q_alternate := b \<rparr>) = shrinks e q q'" "shrinks e q (q' \<lparr> q_deleted := b \<rparr>) = shrinks e q q'"
  "shrinks e q (notifyDeleted q') = shrinks e q q'" "shrinks e q (dequeueFromStore m q') = shrinks e q q'"
  "shrinks e q (q' \<lparr> q_users := u \<rparr>) = shrinks e q q'"
  "shrinks e (dequeueFromStore m q) q' = shrinks e q q'" "shrinks e (notify_all cs q) q' = shrinks e q q'"
  by (simp_all add: shrinks_def)

lemma minus_all_le: "length (minus_all xs ms) \<le> length xs" "total_size (minus_all xs ms) \<le> total_size xs"
proof -
  have le: "length (remove1 a xs) \<le> length xs" for a and xs :: "'x list"
    by (simp add: length_remove1)
  show "length (minus_all xs ms) \<le> length xs"
    unfolding minus_all_def by (induction ms arbitrary: xs) (auto intro: order_trans [OF _ le])
  show "total_size (minus_all xs ms) \<le> total_size xs"
    unfolding minus_all_def by (induction ms arbitrary: xs) (auto intro: order_trans [OF _ total_size_remove1_le])
qed

lemma remove_messages_shrinks:
  assumes "queue_inv e rs q" "keeps e f" "remove_messages e maxCount p f t auto maxTests q = Inr (ms, el, q')"
  shows "queue_inv e rs q'" "shrinks e q q'"
  using remove_messages_correct [OF assms(1,2), of maxCount p t auto maxTests] assms(3) minus_all_le
  by (auto simp: shrinks_def)

lemma destroyed_inv:
  assumes "queue_inv e rs q" "Queue_destroyed e q = Inr q'"
  shows "queue_inv e rs q'" "shrinks e q q'"
proof -
  obtain ms el q1 where q1: "remove_messages e 0 (\<lambda>m. True) reroute_alternate REPLICATOR False 0 (log_events [Unbound] q) =
      Inr (ms, el, q1)"
    using assms(2) by (auto simp: Queue_destroyed_def res_bind_eq_Inr)
  have inv: "queue_inv e rs q1" "shrinks e q q1"
    using remove_messages_shrinks [OF _ keeps_simps(1) q1, of rs] assms(1) by simp_all
  have "q' = notifyDeleted (q1 \<lparr> q_alternate := False \<rparr>) \<or>
      q' = notifyDeleted (log_events [StoreDestroy] ((q1 \<lparr> q_alternate := False \<rparr>) \<lparr> q_deleted := True \<rparr> \<lparr> q_store := False \<rparr>))"
    using assms(2) q1
    by (auto simp: Queue_destroyed_def Let_def res_bind_eq_Inr UsageBarrier_destroy_def throw_if_eq_Inr split: if_splits)
  then show "queue_inv e rs q'" "shrinks e q q'"
    using inv by auto
qed

lemma scheduleAutoDelete_inv:
  assumes "queue_inv e rs q" "scheduleAutoDelete e q = Inr q'"
  shows "queue_inv e rs q'" "shrinks e q q'"
  using assms destroyed_inv [of e rs "q \<lparr> q_registered := False \<rparr>" q']
  by (auto simp: scheduleAutoDelete_def tryAutoDelete_def split: if_splits)

lemma end_autodelete_inv:
  assumes "queue_inv e rs q" "end_autodelete e el q = Inr q'"
  shows "queue_inv e rs q'" "shrinks e q q'"
  using assms scheduleAutoDelete_inv [of e rs q q'] by (auto simp: end_autodelete_def split: if_splits)

lemma remove_inv:
  assumes "queue_inv e rs q" "Queue_remove e maxCount p f t auto maxTests q = Inr (ms, q')" "keeps e f"
  shows "queue_inv e rs q'" "shrinks e q q'"
proof -
  obtain el q1 where q1: "remove_messages e maxCount p f t auto maxTests q = Inr (ms, el, q1)" "end_autodelete e el q1 = Inr q'"
    using assms(2) by (auto simp: Queue_remove_def res_bind_eq_Inr)
  note s1 = remove_messages_shrinks [OF assms(1,3) q1(1)]
  show "queue_inv e rs q'" "shrinks e q q'"
    using end_autodelete_inv [OF s1(1) q1(2)] shrinks_trans [OF s1(2)] by auto
qed

section \<open>Pushing\<close>

lemma pop_deleted_none:
  "ms \<noteq> [] \<Longrightarrow> SequenceNumber_less (getSequence G (last ms)) s \<Longrightarrow> pop_deleted G s (rev ms) = rev ms"
  by (cases ms rule: rev_cases) auto

lemma publish_next:
  assumes inv: "deque_inv (message_ops e) d"
    and seq: "messages d = [] \<or> msg_sequence (last (messages d)) + 1 = msg_sequence m"
  shows "\<exists>k. MessageDeque_publish e d m = Inr (d \<lparr> messages := drop k (messages d) @ [m \<lparr> msg_state := AVAILABLE \<rparr>], head := 0 \<rparr>) \<and>
    (\<forall>x\<in>set (take k (messages d)). msg_state x = DELETED)"
proof -
  let ?G = "message_ops e"
  obtain k where k: "clean_loop ?G 0 (messages d) = (k, drop k (messages d))"
    "\<forall>x\<in>set (take k (messages d)). msg_state x = DELETED"
    using clean_loop_drop [of ?G 0 "messages d"] by auto
  have h: "head d = 0"
    using inv by (simp add: deque_inv_def)
  have c: "clean ?G d = d \<lparr> messages := drop k (messages d), head := 0 \<rparr>"
    using k(1) h by (simp add: clean_def)
  let ?ms = "drop k (messages d)"
  have less: "SequenceNumber_less (msg_sequence (last ?ms)) (msg_sequence m)"
    and diff: "nat (SequenceNumber_minus (msg_sequence m) (msg_sequence (last ?ms))) = Suc 0" if "?ms \<noteq> []"
  proof -
    have "last ?ms = last (messages d)" "messages d \<noteq> []"
      using that by (auto simp: last_drop)
    then have "msg_sequence m = msg_sequence (last ?ms) + of_nat 1"
      using seq by simp
    then show "SequenceNumber_less (msg_sequence (last ?ms)) (msg_sequence m)"
      "nat (SequenceNumber_minus (msg_sequence m) (msg_sequence (last ?ms))) = Suc 0"
      using less_offset [of 1 "msg_sequence (last ?ms)"] nat_minus_small(1) [of 1 "msg_sequence (last ?ms)"]
      by simp_all
  qed
  have pop: "pop_deleted ?G (msg_sequence m) (rev ?ms) = rev ?ms"
    using less pop_deleted_none [of ?ms ?G "msg_sequence m"] by (cases "?ms = []") simp_all
  have "MessageDeque_publish e d m = Inr (d \<lparr> messages := ?ms @ [m \<lparr> msg_state := AVAILABLE \<rparr>], head := 0 \<rparr>)"
  proof (cases "?ms = []")
    case True
    then show ?thesis
      unfolding MessageDeque_publish_def deque_publish_def Let_def c message_ops_simps by simp
  next
    case False
    then show ?thesis
      unfolding MessageDeque_publish_def deque_publish_def Let_def c message_ops_simps
      by (simp add: pop less [OF False] diff [OF False] del: drop_eq_Nil last_drop)
  qed
  then show ?thesis
    using k(2) by blast
qed

lemma push_inv:
  assumes inv: "queue_inv e rs q" and m: "m \<in> set rs" and room: "length (messages (q_messages q)) + 1 < 2 ^ 31"
  shows "\<exists>q'. Queue_push e m q = Inr q' \<and> queue_inv e (remove1 m rs) q' \<and>
    contents e q' = contents e q @ [m \<lparr> msg_sequence := q_sequence q + 1, msg_state := AVAILABLE \<rparr>] \<and>
    q_sequence q' = q_sequence q + 1 \<and> frame q q' \<and>
    length (messages (q_messages q')) \<le> length (messages (q_messages q)) + 1"
proof -
  let ?G = "message_ops e"
  let ?m = "m \<lparr> msg_sequence := q_sequence q + 1 \<rparr>"
  let ?x = "m \<lparr> msg_sequence := q_sequence q + 1, msg_state := AVAILABLE \<rparr>"
  have d: "deque_inv ?G (q_messages q)" and l: "last_sequence q" and dep: "depth_ok e rs q"
    using inv by (simp_all add: queue_inv_def)
  obtain k where k: "MessageDeque_publish e (q_messages q) ?m =
      Inr ((q_messages q) \<lparr> messages := drop k (messages (q_messages q)) @ [?x], head := 0 \<rparr>)"
    "\<forall>x\<in>set (take k (messages (q_messages q))). msg_state x = DELETED"
    using publish_next [OF d, of ?m] l by (auto simp: last_sequence_def)
  let ?d = "(q_messages q) \<lparr> messages := drop k (messages (q_messages q)) @ [?x], head := 0 \<rparr>"
  obtain ns ls where pop: "populate NotificationSet_init (q_listeners q) = (ns, ls)"
    by fastforce
  let ?q = "notify_all (notify ns) (log_events [ObserveEnqueue ?m]
    (q \<lparr> q_sequence := q_sequence q + 1, q_messages := ?d, q_listeners := ls \<rparr>))"
  have run: "Queue_push e m q = Inr ?q"
    using k(1) pop by (simp add: Queue_push_def Let_def)
  have "live ?G (messages (q_messages q)) = live ?G (take k (messages (q_messages q))) @ live ?G (drop k (messages (q_messages q)))"
    by (metis append_take_drop_id live_append)
  then have live: "live ?G (drop k (messages (q_messages q))) = contents e q"
    using live_deleted [of "take k (messages (q_messages q))" ?G] k(2) by (simp add: contents_def)
  then have cont: "contents e ?q = contents e q @ [?x]"
    by (simp add: contents_def) (simp add: live_def)
  have "contiguous ?G (drop k (messages (q_messages q)) @ [?x])"
  proof (cases "drop k (messages (q_messages q))")
    case Nil
    then show ?thesis by (simp add: contiguous_def)
  next
    case (Cons y ys)
    have c: "contiguous ?G (drop k (messages (q_messages q)))"
      using d contiguous_drop by (auto simp: deque_inv_def)
    have "last (drop k (messages (q_messages q))) = last (messages (q_messages q))"
      using Cons by (metis drop_Nil last_drop list.distinct(1) drop_eq_Nil linorder_not_less)
    then have "getSequence ?G ?x = getSequence ?G (last (drop k (messages (q_messages q)))) + 1"
      using l Cons by (auto simp: last_sequence_def)
    then show ?thesis
      using room by (intro contiguous_snoc [OF c]) simp_all
  qed
  then have "deque_inv ?G ?d"
    by (simp add: deque_inv_def)
  moreover have "depth_ok e (remove1 m rs) ?q"
  proof -
    have "length rs = Suc (length (remove1 m rs))"
      using m length_pos_if_in_set [OF m] by (simp add: length_remove1)
    then show ?thesis
      using dep unfolding depth_ok_def cont by (simp add: sizes_remove1 [OF m] algebra_simps)
  qed
  ultimately have "queue_inv e (remove1 m rs) ?q"
    using inv cont by (auto simp: queue_inv_def last_sequence_def)
  then show ?thesis
    using run cont by (simp add: log_events_def notify_all_def frame_def)
qed

section \<open>Acquiring, releasing and dispatch\<close>

text \<open>Changing one message without its sequence number, its size or its life keeps the invariant.\<close>

lemma live_modify:
  assumes "msg_state y \<noteq> DELETED" "msg_state m \<noteq> DELETED"
  shows "live (message_ops e) (map (\<lambda>x. if x = m then y else x) ms) =
    map (\<lambda>x. if x = m then y else x) (live (message_ops e) ms)"
  using assms by (induction ms) (auto simp: live_def)

lemma modify_inv:
  assumes inv: "queue_inv e rs q" and m: "m \<in> set (contents e q)"
    and f: "msg_sequence (f m) = msg_sequence m" "getMessageSize (f m) = getMessageSize m"
      "msg_state (f m) = AVAILABLE \<or> msg_state (f m) = ACQUIRED"
  shows "queue_inv e rs (modify_message (msg_sequence m) f q)"
    "contents e (modify_message (msg_sequence m) f q) = map (\<lambda>x. if x = m then f m else x) (contents e q)"
proof -
  let ?G = "message_ops e" and ?ms = "messages (q_messages q)"
  let ?f = "\<lambda>x. if msg_sequence x = msg_sequence m then f x else x"
  have cont: "contiguous ?G ?ms" and dist: "distinct (map msg_sequence ?ms)"
    using inv contiguous_distinct_sequences [of ?G ?ms] by (simp_all add: queue_inv_def deque_inv_def)
  have mm: "m \<in> set ?ms" "msg_state m \<noteq> DELETED"
    using contents_memberD [OF m] by auto
  have uniq: "x = m" if "x \<in> set ?ms" "msg_sequence x = msg_sequence m" for x
    using that mm dist by (auto simp: distinct_map dest: inj_onD)
  have fx: "map ?f ?ms = map (\<lambda>x. if x = m then f m else x) ?ms"
    using uniq by (intro map_cong) auto
  have seqs: "map msg_sequence (map ?f ?ms) = map msg_sequence ?ms"
    using f(1) unfolding fx by (simp add: comp_def)
  have nth_seq: "msg_sequence (map ?f ?ms ! i) = msg_sequence (?ms ! i)" if "i < length ?ms" for i
    using arg_cong [OF seqs, of "\<lambda>xs. xs ! i"] that by (simp only: nth_map length_map)
  have c': "contiguous ?G (map ?f ?ms)"
  proof (rule contiguousI)
    show "length (map ?f ?ms) < 2 ^ 31"
      using cont by (simp add: contiguous_def)
    fix i
    assume "i < length (map ?f ?ms)"
    then have "i < length ?ms" "0 < length ?ms"
      by auto
    then show "getSequence ?G (map ?f ?ms ! i) = getSequence ?G (map ?f ?ms ! 0) + of_nat i"
      using nth_seq [of i] nth_seq [of 0] contiguousD [OF cont, of i] by (simp only: message_ops_simps)
  qed
  have lv: "live ?G (map ?f ?ms) = map (\<lambda>x. if x = m then f m else x) (live ?G ?ms)"
    using live_modify [of "f m" m e ?ms] f(3) mm(2) unfolding fx by auto
  then show cts: "contents e (modify_message (msg_sequence m) f q) = map (\<lambda>x. if x = m then f m else x) (contents e q)"
    by (simp add: contents_def modify_message_def)
  have "sizes (map (\<lambda>x. if x = m then f m else x) xs) = sizes xs" for xs
    using f(2) by (induction xs) auto
  then have "depth_ok e rs (modify_message (msg_sequence m) f q)"
    using inv cts by (simp add: queue_inv_def depth_ok_def modify_message_def)
  moreover have "last_sequence (modify_message (msg_sequence m) f q)"
  proof (cases "?ms = []")
    case False
    then have "msg_sequence (last (map ?f ?ms)) = msg_sequence (last ?ms)"
      using arg_cong [OF seqs, of last] by (simp only: last_map list.map_disc_iff not_False_eq_True)
    then show ?thesis
      using inv by (simp add: queue_inv_def last_sequence_def modify_message_def)
  qed (simp add: last_sequence_def modify_message_def)
  moreover have "\<forall>x\<in>set (contents e (modify_message (msg_sequence m) f q)). msg_state x = AVAILABLE \<or> msg_state x = ACQUIRED"
    using inv f(3) unfolding cts by (auto simp: queue_inv_def)
  ultimately show "queue_inv e rs (modify_message (msg_sequence m) f q)"
    using inv c' by (simp add: queue_inv_def deque_inv_def modify_message_def)
qed

lemma find_contents:
  assumes "queue_inv e rs q" "valid c"
  shows "MessageDeque_find e (q_messages q) c = Some m \<longleftrightarrow> m \<in> set (contents e q) \<and> msg_sequence m = position c"
proof -
  have d: "deque_inv (message_ops e) (q_messages q)"
    using assms by (simp add: queue_inv_def)
  show ?thesis
  proof
    assume l: "MessageDeque_find e (q_messages q) c = Some m"
    show "m \<in> set (contents e q) \<and> msg_sequence m = position c"
    proof (cases "\<exists>x\<in>set (contents e q). msg_sequence x = position c")
      case True
      then show ?thesis
        using message_deque.find_law [OF d assms(2)] assms(1) l
        by (auto simp: queue_inv_def contents_def)
    next
      case False
      then show ?thesis
        using message_deque.find_none [OF d assms(2)] l by (auto simp: contents_def)
    qed
  next
    assume "m \<in> set (contents e q) \<and> msg_sequence m = position c"
    then show "MessageDeque_find e (q_messages q) c = Some m"
      using message_deque.find_law [OF d assms(2), of m] assms(1) by (auto simp: queue_inv_def contents_def)
  qed
qed

lemma find_invalid: "\<not> valid c \<Longrightarrow> MessageDeque_find e d c = None"
  by (simp add: MessageDeque_find_def deque_find_cursor_def)

lemma find_valid: "MessageDeque_find e d c = Some m \<Longrightarrow> valid c"
  using find_invalid [of c e d] by (cases "valid c") simp_all


text \<open>
  What dispatch is to do with the messages before the cursor of a consumer: those that have expired
  and come before the first wanted one are dropped, and that one is offered.
\<close>

definition wanted :: "int \<Rightarrow> ('p QMessage \<Rightarrow> bool) \<Rightarrow> 'p QMessage list \<Rightarrow> 'p QMessage option" where
  "wanted now flt ms = find (\<lambda>m. \<not> hasExpired now m \<and> flt m) ms"

definition gone :: "int \<Rightarrow> ('p QMessage \<Rightarrow> bool) \<Rightarrow> 'p QMessage list \<Rightarrow> 'p QMessage list" where
  "gone now flt ms = filter (hasExpired now) (takeWhile (\<lambda>m. hasExpired now m \<or> \<not> flt m) ms)"

definition taken :: "bool \<Rightarrow> 'p QMessage \<Rightarrow> 'p QMessage" where
  "taken acquires m = (if acquires then Message_deliver (m \<lparr> msg_state := ACQUIRED \<rparr>) else m)"

definition dispatched :: "bool \<Rightarrow> ('p QMessage \<Rightarrow> bool) \<Rightarrow> 'p QMessage option \<Rightarrow> 'p next_outcome" where
  "dispatched acquires acc w =
    (case w of None \<Rightarrow> Exhausted | Some m \<Rightarrow> if acc m then Found (taken acquires m) else Refused)"

definition after_dispatch ::
  "bool \<Rightarrow> ('p QMessage \<Rightarrow> bool) \<Rightarrow> 'p QMessage option \<Rightarrow> 'p QMessage list \<Rightarrow> 'p QMessage list" where
  "after_dispatch acquires acc w ms =
    (case w of None \<Rightarrow> ms
     | Some m \<Rightarrow> if acc m then map (\<lambda>x. if x = m then taken acquires m else x) ms else ms)"

lemma taken_False: "taken False m = m"
  by (simp add: taken_def)

lemma map_same: "map (\<lambda>x. if x = m then taken False m else x) xs = xs"
  by (induction xs) (auto simp: taken_False)

lemma wanted_gone_simps:
  "wanted now flt [] = None" "gone now flt [] = []"
  "wanted now flt (m # ms) = (if \<not> hasExpired now m \<and> flt m then Some m else wanted now flt ms)"
  "gone now flt (m # ms) = (if hasExpired now m then m # gone now flt ms
     else if flt m then [] else gone now flt ms)"
  by (simp_all add: wanted_def gone_def)

lemma next_message_loop_correct:
  assumes "queue_inv e rs q" "rest (message_ops e) (q_messages q) (consumer_cursor c) xs" "length xs < fuel"
    and "consumer_acquires c \<Longrightarrow> cursor_type (consumer_cursor c) = CONSUMER"
  defines "ws \<equiv> filter (viewable (message_ops e) (cursor_type (consumer_cursor c))) xs"
  shows "\<exists>cur s' el' q'. next_message_loop fuel e now flt acc c s el q =
      Inr (dispatched (consumer_acquires c) acc (wanted now flt ws), c \<lparr> consumer_cursor := cur \<rparr>, s', el', q') \<and>
    queue_inv e rs q' \<and>
    contents e q' = after_dispatch (consumer_acquires c) acc (wanted now flt ws)
      (minus_all (contents e q) (gone now flt ws)) \<and>
    (\<not> autodelete (q_settings q) \<longrightarrow> el' = el) \<and> frame q q'"
  using assms(1-4) unfolding ws_def
proof (induction fuel arbitrary: c s el q xs)
  case (Suc fuel)
  let ?G = "message_ops e" and ?cur = "consumer_cursor c"
  let ?v = "viewable ?G (cursor_type ?cur)"
  have dinv: "deque_inv ?G (q_messages q)"
    using Suc.prems(1) by (simp add: queue_inv_def)
  show ?case
  proof (cases "filter ?v xs")
    case Nil
    obtain cur where "deque_next ?G (q_messages q) ?cur = (None, cur)"
      using rest_none [OF Suc.prems(2) Nil] by (cases "deque_next ?G (q_messages q) ?cur") simp
    then show ?thesis
      using Suc.prems(1) Nil
      by (auto simp: MessageDeque_next_def Let_def wanted_gone_simps dispatched_def after_dispatch_def minus_all_def)
  next
    case (Cons m ms)
    obtain cur us vs where nx: "deque_next ?G (q_messages q) ?cur = (Some m, cur)"
      and cur: "valid cur" "position cur = msg_sequence m" "cursor_version cur = version (q_messages q)"
        "cursor_type cur = cursor_type ?cur"
      and split: "messages (q_messages q) = us @ m # vs" "filter ?v vs = ms" "length vs < length xs"
        "rest ?G (q_messages q) cur vs"
      using rest_step [OF dinv Suc.prems(2) Cons] by (metis message_ops_simps(1))
    have vm: "?v m"
      using Cons by (metis filter_eq_Cons_iff)
    have mc: "m \<in> set (contents e q)"
      using viewable_contents [OF split(1) vm] .
    consider (expired) "hasExpired now m" | (skip) "\<not> hasExpired now m" "\<not> flt m"
      | (refuse) "\<not> hasExpired now m" "flt m" "\<not> acc m" | (take) "\<not> hasExpired now m" "flt m" "acc m"
      by blast
    then show ?thesis
    proof cases
      case expired
      obtain vs' where vs': "rest ?G (snd (MessageDeque_deleted e (q_messages q) cur)) cur vs'"
        "filter (viewable ?G (cursor_type cur)) vs' = filter (viewable ?G (cursor_type cur)) vs" "length vs' \<le> length vs"
        using rest_deleted [OF dinv split(1) cur(1-3)] by metis
      define q1 where "q1 = delete_message e cur (dequeueFromStore m (log_events [ObserveDequeue m]
        (q \<lparr> q_current := QueueDepth_sub_assign (q_current q) (depth_of m) \<rparr>)))"
      have q1: "q1 = log_events ([ObserveDequeue m] @ (if \<not> q_deleted q \<and> isPersistent m \<and> q_store q then [StoreDequeue m] else []))
          (dropped e cur m q)"
        by (simp add: q1_def delete_message_def dequeueFromStore_def dropped_def log_events_commute)
          (simp add: log_events_def)
      have inv1: "queue_inv e rs q1" "contents e q1 = remove1 m (contents e q)" "q_settings q1 = q_settings q"
        "rest ?G (q_messages q1) cur vs'"
        using dropped_inv [OF Suc.prems(1) cur(1,2) mc] vs'(1) by (simp_all add: q1) (simp_all add: dropped_def)
      define el1 where "el1 = fst (observeDequeue (autodelete (q_settings q)) m el q)"
      have el1: "\<not> autodelete (q_settings q) \<longrightarrow> el1 = el"
        by (simp add: el1_def observeDequeue_def Let_def)
      have step: "next_message_loop (Suc fuel) e now flt acc c s el q =
          next_message_loop fuel e now flt acc (c \<lparr> consumer_cursor := cur \<rparr>) s el1 q1"
        using expired nx by (simp add: MessageDeque_next_def Let_def split_beta q1_def el1_def)
      have fr: "frame q1 x = frame q x" for x
        by (simp add: q1)
      from Suc.IH [of q1 "c \<lparr> consumer_cursor := cur \<rparr>" vs' s el1] obtain cur' s' el' q' where
        "next_message_loop fuel e now flt acc (c \<lparr> consumer_cursor := cur \<rparr>) s el1 q1 =
          Inr (dispatched (consumer_acquires c) acc (wanted now flt ms), c \<lparr> consumer_cursor := cur' \<rparr>, s', el', q')"
        "queue_inv e rs q'"
        "contents e q' = after_dispatch (consumer_acquires c) acc (wanted now flt ms)
          (minus_all (remove1 m (contents e q)) (gone now flt ms))"
        "\<not> autodelete (q_settings q) \<longrightarrow> el' = el1" "frame q q'"
        using inv1 vs'(2,3) cur(4) split(2,3) Suc.prems(3,4) fr by auto
      then show ?thesis
        using expired Cons el1 unfolding step by (auto simp: wanted_gone_simps minus_all_def)
    next
      case skip
      obtain s1 l1 where p: "(if consumer_acquires c then populate s (q_listeners q) else (s, q_listeners q)) = (s1, l1)"
        by fastforce
      have step: "next_message_loop (Suc fuel) e now flt acc c s el q =
          next_message_loop fuel e now flt acc (c \<lparr> consumer_cursor := cur \<rparr>) s1 el (q \<lparr> q_listeners := l1 \<rparr>)"
        using skip nx p by (simp add: MessageDeque_next_def Let_def)
      show ?thesis
        using Suc.IH [of "q \<lparr> q_listeners := l1 \<rparr>" "c \<lparr> consumer_cursor := cur \<rparr>" vs s1 el] Suc.prems(1,3,4) cur(4) split(2-4) skip Cons
        unfolding step by (fastforce simp: wanted_gone_simps)
    next
      case refuse
      obtain s1 l1 where p: "(if consumer_acquires c then populate s (q_listeners q) else (s, q_listeners q)) = (s1, l1)"
        by fastforce
      have "next_message_loop (Suc fuel) e now flt acc c s el q =
          Inr (Refused, c, s1, el, q \<lparr> q_listeners := l1 \<rparr>)"
        using refuse nx p by (simp add: MessageDeque_next_def Let_def)
      then show ?thesis
        using Suc.prems(1) refuse Cons
        by (auto simp: wanted_gone_simps dispatched_def after_dispatch_def minus_all_def intro!: exI [of _ ?cur])
    next
      case take
      show ?thesis
      proof (cases "consumer_acquires c")
        case True
        then have av: "msg_state m = AVAILABLE"
          using Suc.prems(4) vm by (simp add: viewable_def)
        let ?t = "Message_deliver (m \<lparr> msg_state := ACQUIRED \<rparr>)"
        have run: "next_message_loop (Suc fuel) e now flt acc c s el q = Inr (Found ?t, c \<lparr> consumer_cursor := cur \<rparr>, s, el,
            log_events [ObserveAcquire (m \<lparr> msg_state := ACQUIRED \<rparr>)] (modify_message (msg_sequence m) (\<lambda>_. ?t) q))"
          using take nx True av by (simp add: MessageDeque_next_def Let_def FifoDistributor_acquire_def)
        have "queue_inv e rs (modify_message (msg_sequence m) (\<lambda>_. ?t) q)"
          "contents e (modify_message (msg_sequence m) (\<lambda>_. ?t) q) = map (\<lambda>x. if x = m then ?t else x) (contents e q)"
          using modify_inv [OF Suc.prems(1) mc, of "\<lambda>_. ?t"] by simp_all
        then show ?thesis
          unfolding run using take Cons True
          by (auto simp: wanted_gone_simps dispatched_def after_dispatch_def minus_all_def taken_def modify_message_def)
      next
        case False
        then have run: "next_message_loop (Suc fuel) e now flt acc c s el q =
            Inr (Found m, c \<lparr> consumer_cursor := cur \<rparr>, s, el, q)"
          using take nx by (simp add: MessageDeque_next_def Let_def)
        show ?thesis
          unfolding run using take Cons False Suc.prems(1)
          by (auto simp: wanted_gone_simps dispatched_def after_dispatch_def minus_all_def map_same taken_False cong: if_cong)
      qed
    qed
  qed
qed simp


text \<open>The messages that the cursor of a consumer has before it, for any cursor.\<close>

definition ahead :: "'p MessageContent \<Rightarrow> 'p Queue \<Rightarrow> QueueCursor \<Rightarrow> 'p QMessage list" where
  "ahead e q c =
    (let d = q_messages q;
         i = (if deque_reset d c then head d else snd (index_cursor (message_ops e) d c 0))
     in filter (viewable (message_ops e) (cursor_type c)) (drop i (messages d)))"

lemma next_message_loop_ahead:
  assumes "queue_inv e rs q" "consumer_acquires c \<Longrightarrow> cursor_type (consumer_cursor c) = CONSUMER"
  shows "\<exists>cur s' el' q'. next_message_loop (Suc (length (messages (q_messages q)))) e now flt acc c s el q =
      Inr (dispatched (consumer_acquires c) acc (wanted now flt (ahead e q (consumer_cursor c))),
           c \<lparr> consumer_cursor := cur \<rparr>, s', el', q') \<and>
    queue_inv e rs q' \<and>
    contents e q' = after_dispatch (consumer_acquires c) acc (wanted now flt (ahead e q (consumer_cursor c)))
      (minus_all (contents e q) (gone now flt (ahead e q (consumer_cursor c)))) \<and>
    (\<not> autodelete (q_settings q) \<longrightarrow> el' = el) \<and> frame q q'"
proof -
  let ?d = "q_messages q" and ?c = "consumer_cursor c"
  define i where "i = (if deque_reset ?d ?c then head ?d else snd (index_cursor (message_ops e) ?d ?c 0))"
  have "rest (message_ops e) ?d ?c (drop i (messages ?d))"
    unfolding rest_def i_def by (metis append_take_drop_id deque_next_def)
  moreover have "length (drop i (messages ?d)) < Suc (length (messages ?d))"
    by simp
  ultimately show ?thesis
    using next_message_loop_correct [OF assms(1), of c "drop i (messages ?d)" "Suc (length (messages ?d))"]
      assms(2) unfolding ahead_def Let_def i_def by blast
qed

lemma after_dispatch_le:
  "length (after_dispatch acq acc w ms) = length ms" "total_size (after_dispatch acq acc w ms) = total_size ms"
proof -
  have "total_size (map (\<lambda>x. if x = m then taken acq m else x) xs) = total_size xs" for m and xs :: "'a QMessage list"
    by (induction xs) (auto simp: taken_def)
  then show "length (after_dispatch acq acc w ms) = length ms" "total_size (after_dispatch acq acc w ms) = total_size ms"
    by (auto simp: after_dispatch_def split: option.splits)
qed

lemma getNextMessage_inv:
  assumes "queue_inv e rs q" "consumer_acquires c \<Longrightarrow> cursor_type (consumer_cursor c) = CONSUMER"
    and "getNextMessage e now flt acc c q = Inr (out, c', q')"
  shows "queue_inv e rs q'" "shrinks e q q'"
proof -
  obtain cur s' el' q1 where loop: "next_message_loop (Suc (length (messages (q_messages q)))) e now flt acc c NotificationSet_init False q =
      Inr (dispatched (consumer_acquires c) acc (wanted now flt (ahead e q (consumer_cursor c))),
           c \<lparr> consumer_cursor := cur \<rparr>, s', el', q1)" "queue_inv e rs q1" "frame q q1"
    and cts: "contents e q1 = after_dispatch (consumer_acquires c) acc (wanted now flt (ahead e q (consumer_cursor c)))
      (minus_all (contents e q) (gone now flt (ahead e q (consumer_cursor c))))"
    using next_message_loop_ahead [OF assms(1,2)] by blast
  have s1: "shrinks e q (notify_all (notify s') q1)"
    using loop(3) cts by (simp add: shrinks_def after_dispatch_le minus_all_le)
  show "queue_inv e rs q'"
    using assms(1,3) loop end_autodelete_inv(1) [of e rs "notify_all (notify s') q1" el' q']
    by (auto simp: getNextMessage_def res_bind_eq_Inr split: if_splits)
  show "shrinks e q q'"
    using assms(3) loop end_autodelete_inv(2) [of e rs "notify_all (notify s') q1" el' q'] shrinks_trans [OF s1]
    by (auto simp: getNextMessage_def res_bind_eq_Inr split: if_splits)
qed

lemma delete_observed:
  "delete_message e c (snd (observeDequeue auto m el q)) = log_events [ObserveDequeue m] (dropped e c m q)"
  by (simp add: delete_message_def dropped_def log_events_commute)

lemma dropped_shrinks:
  assumes "queue_inv e rs q" "valid c" "position c = msg_sequence m" "m \<in> set (contents e q)"
  shows "queue_inv e rs (dropped e c m q)" "shrinks e q (dropped e c m q)"
  using dropped_inv [OF assms] total_size_remove1_le [of m "contents e q"]
  by (simp_all add: shrinks_def length_remove1)

lemma found_dropped:
  assumes "queue_inv e rs q" "MessageDeque_find e (q_messages q) c = Some m"
  shows "queue_inv e rs (dropped e c m q)" "shrinks e q (dropped e c m q)"
  using dropped_shrinks [OF assms(1) find_valid [OF assms(2)]] find_contents [OF assms(1) find_valid [OF assms(2)], of m] assms(2)
  by simp_all

lemma dequeue_inv:
  assumes "queue_inv e rs q" "Queue_dequeue e ctxt c q = Inr q'"
  shows "queue_inv e rs q' \<and> shrinks e q q'"
proof (cases "q_deleted q \<or> MessageDeque_find e (q_messages q) c = None \<or> ctxt")
  case True
  then show ?thesis
    using assms by (cases "MessageDeque_find e (q_messages q) c")
      (auto simp: Queue_dequeue_def UsageBarrier_acquire_def UsageBarrier_release_def end_autodelete_def Let_def split: if_splits)
next
  case False
  then obtain m where m: "MessageDeque_find e (q_messages q) c = Some m"
    by auto
  let ?q = "q \<lparr> q_uses := q_uses q + 1 \<rparr>"
  have found: "queue_inv e rs (dropped e c m ?q)" "shrinks e q (dropped e c m ?q)"
    using found_dropped [of e rs ?q c m] assms(1) m by simp_all
  obtain el es q1 where "end_autodelete e el (log_events es (dropped e c m ?q)) = Inr q1" "q' = UsageBarrier_release q1"
    using assms(2) False m
    by (auto simp: Queue_dequeue_def UsageBarrier_acquire_def Let_def split_beta res_bind_eq_Inr delete_observed
        log_events_commute simp del: snd_observeDequeue split: if_splits)
  then show ?thesis
    using found end_autodelete_inv [of e rs "log_events es (dropped e c m ?q)" el q1] shrinks_trans [OF found(2)]
    by (auto simp: UsageBarrier_release_def)
qed

lemma dequeueCommitted_inv:
  assumes "queue_inv e rs q" "Queue_dequeueCommitted e c q = Inr q'"
  shows "queue_inv e rs q' \<and> shrinks e q q'"
proof (cases "MessageDeque_find e (q_messages q) c")
  case (Some m)
  note found = found_dropped [OF assms(1) Some]
  have "end_autodelete e (fst (observeDequeue (autodelete (q_settings q)) m False q))
      (log_events [ObserveDequeue m] (dropped e c m q)) = Inr q'"
    using assms(2) Some by (simp add: Queue_dequeueCommitted_def Let_def split_beta delete_observed del: snd_observeDequeue)
  then show ?thesis
    using found end_autodelete_inv [of e rs "log_events [ObserveDequeue m] (dropped e c m q)"] shrinks_trans [OF found(2)]
    by auto
qed (use assms in \<open>simp add: Queue_dequeueCommitted_def\<close>)

lemma reject_inv:
  assumes "queue_inv e rs q" "Queue_reject e c q = Inr q'"
  shows "queue_inv e rs q' \<and> shrinks e q q'"
proof (cases "MessageDeque_find e (q_messages q) c")
  case (Some m)
  note found = found_dropped [OF assms(1) Some]
  obtain el es where "end_autodelete e el (dequeueFromStore m (log_events es (dropped e c m q))) = Inr q'"
    using assms(2) Some
    by (auto simp: Queue_reject_def Let_def split_beta delete_observed log_events_commute
        simp del: snd_observeDequeue split: if_splits)
  then show ?thesis
    using found end_autodelete_inv [of e rs "dequeueFromStore m (log_events es (dropped e c m q))"] shrinks_trans [OF found(2)]
    by auto
qed (use assms in \<open>simp add: Queue_reject_def\<close>)

lemma acquire_inv:
  assumes "queue_inv e rs q" "Queue_acquire e c q = (b, q')"
  shows "queue_inv e rs q' \<and> shrinks e q q'"
proof (cases "MessageDeque_find e (q_messages q) c")
  case (Some m)
  have m: "m \<in> set (contents e q)"
    using find_contents [OF assms(1) find_valid [OF Some]] Some by blast
  show ?thesis
  proof (cases "msg_state m = AVAILABLE")
    case True
    let ?m = "m \<lparr> msg_state := ACQUIRED \<rparr>"
    have q': "q' = log_events [ObserveAcquire ?m] (modify_message (msg_sequence m) (\<lambda>_. ?m) q)"
      using assms(2) Some True by (simp add: Queue_acquire_def FifoDistributor_acquire_def)
    have "total_size (map (\<lambda>x. if x = m then ?m else x) xs) = total_size xs" for xs
      by (induction xs) auto
    then show ?thesis
      using modify_inv [OF assms(1) m, of "\<lambda>_. ?m"] unfolding q' by (simp add: shrinks_def)
  qed (use assms Some in \<open>simp add: Queue_acquire_def FifoDistributor_acquire_def\<close>)
qed (use assms in \<open>simp add: Queue_acquire_def\<close>)

end
