(* ===== verification/Queue_Limits.thy ===== *)
theory Queue_Limits
  imports Queue_Invariant
begin

text \<open>
  The depth limits of a queue: the space that \<open>enqueue\<close> reserves, the eviction of a ring queue, and
  the reachable states of a queue, in which the depth is that of the messages and, unless messages
  are recovered, within the limits.
\<close>

section \<open>Releasing\<close>

lemma queue_inv_cong:
  assumes "messages (q_messages q') = messages (q_messages q)" "head (q_messages q') = head (q_messages q)"
    "q_current q' = q_current q" "q_sequence q' = q_sequence q"
  shows "queue_inv e rs q' = queue_inv e rs q" "contents e q' = contents e q"
  using assms by (simp_all add: queue_inv_def depth_ok_def contents_def last_sequence_def deque_inv_def)

lemma map_modify_shrinks:
  assumes "getMessageSize m' = getMessageSize m"
  shows "total_size (map (\<lambda>x. if x = m then m' else x) xs) = total_size xs"
  using assms by (induction xs) auto

lemma modify_shrinks:
  assumes "queue_inv e rs q" "m \<in> set (contents e q)" "msg_sequence (f m) = msg_sequence m"
    "getMessageSize (f m) = getMessageSize m" "msg_state (f m) = AVAILABLE \<or> msg_state (f m) = ACQUIRED"
  shows "shrinks e q (modify_message (msg_sequence m) f q)"
  using modify_inv(2) [of e rs q m f] assms by (simp add: shrinks_def map_modify_shrinks)

text \<open>A message as \<open>release\<close> leaves it.\<close>

definition released :: "bool \<Rightarrow> 'p QMessage \<Rightarrow> 'p QMessage" where
  "released b m = (let m = m \<lparr> msg_state := AVAILABLE \<rparr> in if b then m else Message_undeliver m)"

lemma released_fields [simp]: "msg_sequence (released b m) = msg_sequence m" "msg_state (released b m) = AVAILABLE"
  by (simp_all add: released_def Let_def)

lemma release_inv:
  assumes inv: "queue_inv e rs q" and c: "valid c" "position c = msg_sequence m" and m: "m \<in> set (contents e q)"
  shows "queue_inv e rs (Queue_release e c b q) \<and> shrinks e q (Queue_release e c b q) \<and>
    q_deleted (Queue_release e c b q) = q_deleted q \<and>
    (\<not> q_deleted q \<longrightarrow> contents e (Queue_release e c b q) = map (\<lambda>x. if x = m then released b m else x) (contents e q))"
proof (cases "q_deleted q")
  case False
  define f where "f = (\<lambda>x :: 'a QMessage. x \<lparr> msg_state := AVAILABLE \<rparr>)"
  define g where "g = (\<lambda>x. if b then f x else Message_undeliver (f x))"
  have gr: "g = released b"
    by (auto simp: g_def f_def released_def)
  define d where "d = snd (MessageDeque_release e (q_messages q) c)"
  note rel = message_items.release_correct [of e "q_messages q" c m]
  have rel: "fst (MessageDeque_release e (q_messages q) c) = Some (f m)"
    "messages d = messages (q_messages (modify_message (msg_sequence m) f q))" "head d = head (q_messages q)"
    using rel inv c contents_memberD [OF m]
    by (auto simp: queue_inv_def MessageDeque_release_def f_def d_def modify_message_def cong: if_cong)
      (auto simp: deque_release_def Let_def split: prod.splits)
  define q1 where "q1 = (if b then q \<lparr> q_messages := d \<rparr> else modify_message (msg_sequence m) Message_undeliver (q \<lparr> q_messages := d \<rparr>))"
  have "messages (q_messages q1) = messages (q_messages (modify_message (msg_sequence m) g q))"
    using rel(2) by (auto simp: q1_def g_def f_def modify_message_def)
  moreover have "head (q_messages q1) = head (q_messages (modify_message (msg_sequence m) g q))"
    "q_current q1 = q_current (modify_message (msg_sequence m) g q)"
    "q_sequence q1 = q_sequence (modify_message (msg_sequence m) g q)" and fr: "frame q q1" and del: "q_deleted q1 = q_deleted q"
    using rel(3) by (simp_all add: q1_def modify_message_def frame_def)
  ultimately have "queue_inv e rs q1 = queue_inv e rs (modify_message (msg_sequence m) g q)"
    "contents e q1 = contents e (modify_message (msg_sequence m) g q)"
    using queue_inv_cong [of q1 "modify_message (msg_sequence m) g q"] by simp_all
  moreover have g: "msg_sequence (g m) = msg_sequence m" "getMessageSize (g m) = getMessageSize m" "msg_state (g m) = AVAILABLE \<or> msg_state (g m) = ACQUIRED"
    by (simp_all add: g_def f_def)
  ultimately have q1: "queue_inv e rs q1" "shrinks e q q1" "contents e q1 = map (\<lambda>x. if x = m then released b m else x) (contents e q)"
    using modify_inv [of e rs q m g] gr modify_shrinks [of e rs q m g] inv m fr by (simp_all add: shrinks_def)
  obtain ns ls where pop: "populate NotificationSet_init (q_listeners q1) = (ns, ls)"
    by fastforce
  have "\<exists>es. Queue_release e c b q = notify_all (notify ns) (log_events es (q1 \<lparr> q_listeners := ls \<rparr>))"
    using False rel(1) pop unfolding Queue_release_def q1_def d_def
    by (cases b) (auto simp: Let_def f_def split: prod.splits)
  then show ?thesis
    using q1 del by (auto simp: notify_all_def)
qed (use inv in \<open>simp add: Queue_release_def\<close>)

section \<open>Fitting a limit\<close>

definition fits :: "QueueDepth \<Rightarrow> 'p QMessage list \<Rightarrow> bool" where
  "fits limit ms \<longleftrightarrow> (hasCount limit \<longrightarrow> length ms \<le> unat (getCount limit)) \<and>
     (hasSize limit \<longrightarrow> total_size ms \<le> unat (getSize limit))"

definition within_limit :: "'p MessageContent \<Rightarrow> 'p QMessage list \<Rightarrow> 'p Queue \<Rightarrow> bool" where
  "within_limit e rs q \<longleftrightarrow> (hasSize (maxDepth (q_settings q)) \<longrightarrow> hasSize (q_current q)) \<and>
     fits (maxDepth (q_settings q)) (rs @ contents e q)"

lemma sizes_total: "sizes ms = of_nat (total_size ms)"
  by (induction ms) simp_all

lemma minus_less_iff:
  fixes a b m :: "'a::len word"
  assumes "a = of_nat n" "n \<le> unat m"
  shows "m - a < b \<longleftrightarrow> unat m < n + unat b"
proof -
  have "n < 2 ^ LENGTH('a)"
    using assms(2) unsigned_less [of m, where ?'a = nat] by linarith
  then have "unat a = n"
    using assms(1) by (simp add: unat_of_nat take_bit_eq_mod)
  then have "unat (m - a) = unat m - n"
    using assms(2) by (simp add: unat_sub word_le_nat_alt)
  then show ?thesis
    using assms(2) by (auto simp: word_less_nat_alt)
qed

lemma exceeds_iff:
  assumes "queue_inv e rs q" "within_limit e rs q"
  shows "exceeds q (depth_of m) \<longleftrightarrow> \<not> fits (maxDepth (q_settings q)) (m # rs @ contents e q)"
proof -
  let ?L = "maxDepth (q_settings q)"
  let ?n = "length (contents e q) + length rs" and ?s = "total_size (contents e q) + total_size rs"
  have n: "getCount (q_current q) = of_nat ?n" "hasCount (q_current q)"
    "hasSize (q_current q) \<Longrightarrow> getSize (q_current q) = of_nat ?s"
    using assms(1) by (simp_all add: queue_inv_def depth_ok_def sizes_total)
  have c: "getCount ?L - getCount (q_current q) < 1 \<longleftrightarrow> unat (getCount ?L) < ?n + 1" if "hasCount ?L"
    using minus_less_iff [OF n(1), of "getCount ?L" 1] assms(2) that by (simp add: within_limit_def fits_def)
  have s: "getSize ?L - getSize (q_current q) < getMessageSize m \<longleftrightarrow> unat (getSize ?L) < ?s + unat (getMessageSize m)"
    "hasSize (q_current q)" if "hasSize ?L"
    using minus_less_iff [OF n(3), of "getSize ?L" "getMessageSize m"] assms(2) that
    by (simp_all add: within_limit_def fits_def)
  have fits: "fits ?L (m # rs @ contents e q) \<longleftrightarrow> (hasCount ?L \<longrightarrow> \<not> unat (getCount ?L) < ?n + 1) \<and>
      (hasSize ?L \<longrightarrow> \<not> unat (getSize ?L) < ?s + unat (getMessageSize m))"
    by (auto simp: fits_def)
  have ex: "exceeds q (depth_of m) \<longleftrightarrow> (hasCount ?L \<or> hasSize ?L) \<and>
      QueueDepth_less (QueueDepth_minus ?L (q_current q)) (depth_of m)"
    by (simp add: exceeds_def QueueDepth_bool_def)
  show ?thesis
    unfolding fits ex using c s n(2)
    by (cases "hasCount ?L"; cases "hasSize ?L")
      (simp_all add: QueueDepth_less_def QueueDepth_minus_def Optional_subtract_def depth_of_def depth_defs)
qed

section \<open>Reserving space\<close>

text \<open>
  What a ring queue evicts for the messages \<open>new\<close>: the oldest message, as long as they do not fit
  and the oldest one may be purged.
\<close>

fun evict :: "QueueDepth \<Rightarrow> ('p QMessage \<Rightarrow> bool) \<Rightarrow> 'p QMessage list \<Rightarrow> 'p QMessage list \<Rightarrow> 'p QMessage list" where
  "evict limit p new [] = []"
| "evict limit p new (m # ms) = (if fits limit (new @ m # ms) \<or> \<not> p m then m # ms else evict limit p new ms)"

definition purgeable :: "'p QMessage \<Rightarrow> 'p Queue \<Rightarrow> 'p QMessage \<Rightarrow> bool" where
  "purgeable msg q = (if priorities (q_settings q) \<noteq> 0 then isLowerPriorityThan (getPriority msg) else (\<lambda>m. True))"

lemma chosen_full: "maxCount \<noteq> 0 \<Longrightarrow> maxCount \<le> n \<Longrightarrow> chosen maxCount p maxTests n tests ms = []"
  by (induction ms arbitrary: tests) auto

lemma chosen_tested: "maxTests \<noteq> 0 \<Longrightarrow> maxTests \<le> tests \<Longrightarrow> chosen maxCount p maxTests n tests ms = []"
  by (cases ms) auto

lemma chosen_head:
  assumes "maxTests = 1 \<or> (maxTests = 0 \<and> p m)"
  shows "chosen 1 p maxTests 0 0 (m # ms) = (if p m then [m] else [])"
  using assms by (auto simp: chosen_full chosen_tested)

lemma viewable_all:
  assumes "queue_inv e rs q"
  shows "filter (viewable (message_ops e) PURGE) (messages (q_messages q)) = contents e q"
    "filter (viewable (message_ops e) REPLICATOR) (messages (q_messages q)) = contents e q"
  using assms viewable_live [of e _ "messages (q_messages q)", symmetric]
  by (auto simp: queue_inv_def contents_def viewable_def intro!: filter_True)

lemma purge_one:
  fixes msg :: "'p QMessage"
  assumes "queue_inv e rs q"
  defines "p \<equiv> purgeable msg q" and "t \<equiv> (if priorities (q_settings q) \<noteq> 0 then 1 else 0)"
  shows "\<exists>q'. Queue_remove e 1 p reroute_alternate PURGE False t q =
      Inr (case contents e q of [] \<Rightarrow> [] | x # xs \<Rightarrow> if p x then [x] else [], q') \<and>
    queue_inv e rs q' \<and> frame q q' \<and>
    contents e q' = (case contents e q of [] \<Rightarrow> [] | x # xs \<Rightarrow> if p x then xs else x # xs)"
proof -
  have "chosen 1 p t 0 0 (contents e q) = (case contents e q of [] \<Rightarrow> [] | x # xs \<Rightarrow> if p x then [x] else [])"
    by (cases "contents e q") (auto simp: p_def t_def purgeable_def chosen_full chosen_tested)
  then show ?thesis
    using remove_messages_correct [OF assms(1) keeps_simps(1), where maxCount = 1 and p = p and maxTests = t and t = PURGE and auto = False]
    unfolding viewable_all(1) [OF assms(1)]
    by (auto simp: Queue_remove_def end_autodelete_def minus_all_def split: list.splits)
qed

lemma within_limit_shrinks:
  assumes "shrinks e q q'" "within_limit e rs q"
  shows "within_limit e rs q'"
  using assms by (auto simp: within_limit_def shrinks_def frame_def fits_def)

lemma purge_loop_correct:
  assumes "queue_inv e rs q" "within_limit e rs q" "length (contents e q) < fuel"
  shows "\<exists>q'. purge_loop fuel e (depth_of m) m q = Inr q' \<and> queue_inv e rs q' \<and> frame q q' \<and> within_limit e rs q' \<and>
    contents e q' = evict (maxDepth (q_settings q)) (purgeable m q) (m # rs) (contents e q)"
  using assms
proof (induction fuel arbitrary: q)
  case (Suc fuel)
  let ?p = "purgeable m q" and ?L = "maxDepth (q_settings q)"
  obtain q1 where q1: "Queue_remove e 1 ?p reroute_alternate PURGE False (if priorities (q_settings q) \<noteq> 0 then 1 else 0) q =
      Inr (case contents e q of [] \<Rightarrow> [] | x # xs \<Rightarrow> if ?p x then [x] else [], q1)" "queue_inv e rs q1" "frame q q1"
    "contents e q1 = (case contents e q of [] \<Rightarrow> [] | x # xs \<Rightarrow> if ?p x then xs else x # xs)"
    using purge_one [OF Suc.prems(1), of m] by blast
  have "shrinks e q q1"
    using remove_inv(2) [OF Suc.prems(1) q1(1)] by simp
  then have w1: "within_limit e rs q1"
    using Suc.prems(2) by (rule within_limit_shrinks)
  have same: "purgeable m q1 = ?p" "q_settings q1 = q_settings q"
    using q1(3) by (simp_all add: frame_def purgeable_def)
  have step: "purge_loop (Suc fuel) e (depth_of m) m q =
      (if fits ?L (m # rs @ contents e q) then Inr q
       else if (case contents e q of [] \<Rightarrow> False | x # xs \<Rightarrow> ?p x) then purge_loop fuel e (depth_of m) m q1 else Inr q1)"
    using q1(1) exceeds_iff [OF Suc.prems(1,2), of m] by (auto simp: purgeable_def split: list.splits)
  consider (fits) "fits ?L (m # rs @ contents e q)" | (empty) "\<not> fits ?L (m # rs @ contents e q)" "contents e q = []"
    | (kept) x xs where "\<not> fits ?L (m # rs @ contents e q)" "contents e q = x # xs" "\<not> ?p x"
    | (purged) x xs where "\<not> fits ?L (m # rs @ contents e q)" "contents e q = x # xs" "?p x"
    by (cases "contents e q") blast+
  then show ?case
  proof cases
    case fits
    then show ?thesis
      using Suc.prems step by (cases "contents e q") auto
  next
    case purged
    then show ?thesis
      using Suc.IH [OF q1(2) w1] Suc.prems(3) q1(3,4) same step frame_trans by fastforce
  qed (use step q1 w1 in auto)
qed simp

text \<open>The same without the limit: what the purge keeps.\<close>

lemma purge_loop_shrinks:
  assumes "purge_loop fuel e increment m q = Inr q'" "queue_inv e rs q"
  shows "queue_inv e rs q' \<and> shrinks e q q'"
  using assms
proof (induction fuel arbitrary: q)
  case (Suc fuel)
  show ?case
  proof (cases "exceeds q increment")
    case True
    then obtain removed q1 where q1: "Queue_remove e 1
        (if priorities (q_settings q) \<noteq> 0 then isLowerPriorityThan (getPriority m) else (\<lambda>m. True))
        reroute_alternate PURGE False (if priorities (q_settings q) \<noteq> 0 then 1 else 0) q = Inr (removed, q1)"
      "(if removed \<noteq> [] then purge_loop fuel e increment m q1 else Inr q1) = Inr q'"
      using Suc.prems(1) by (simp add: res_bind_eq_Inr) blast
    have "queue_inv e rs q1" "shrinks e q q1"
      using remove_inv [OF Suc.prems(2) q1(1)] by simp_all
    then show ?thesis
      using q1(2) Suc.IH [of q1] shrinks_trans by (cases "removed = []") auto
  qed (use Suc.prems in simp)
qed simp

lemma reserve_inv:
  assumes "queue_inv e rs q"
  shows "queue_inv e (m # rs) (q \<lparr> q_current := QueueDepth_add_assign (q_current q) (depth_of m) \<rparr>)"
    "frame q (q \<lparr> q_current := QueueDepth_add_assign (q_current q) (depth_of m) \<rparr>)"
  using assms depth_add [of "q_current q" m]
  by (auto simp: queue_inv_def depth_ok_def last_sequence_def contents_def frame_def algebra_simps)

lemma abort_inv:
  assumes "queue_inv e rs q" "m \<in> set rs"
  shows "queue_inv e (remove1 m rs) (enqueueAborted m q)" "frame q (enqueueAborted m q)"
proof -
  have len: "length rs = Suc (length (remove1 m rs))"
    using assms(2) length_pos_if_in_set [OF assms(2)] by (simp add: length_remove1)
  show "queue_inv e (remove1 m rs) (enqueueAborted m q)" "frame q (enqueueAborted m q)"
    using assms len depth_sub [of "q_current q" m]
    by (auto simp: queue_inv_def depth_ok_def last_sequence_def contents_def frame_def enqueueAborted_def sizes_remove1
        algebra_simps)
qed

lemma aborted_log: "enqueueAborted m (log_events es q) = log_events es (enqueueAborted m q)"
  by (simp add: enqueueAborted_def log_events_commute)

lemma reserve_limit:
  assumes "queue_inv e rs q" "within_limit e rs q" "\<not> exceeds q (depth_of m)"
  shows "within_limit e (m # rs) (q \<lparr> q_current := QueueDepth_add_assign (q_current q) (depth_of m) \<rparr>)"
  using assms exceeds_iff [OF assms(1,2), of m] depth_add [of "q_current q" m]
  by (auto simp: within_limit_def queue_inv_def depth_ok_def)

lemma checkDepth_inv:
  assumes inv: "queue_inv e rs q" and run: "checkDepth e (depth_of m) m q = Inr (b, q')"
  shows "queue_inv e (if b then m # rs else rs) q' \<and> frame q q' \<and>
    (q_class q \<noteq> SelfDestruct_Queue \<and> within_limit e rs q \<longrightarrow> within_limit e (if b then m # rs else rs) q')"
proof -
  let ?r = "\<lambda>q. q \<lparr> q_current := QueueDepth_add_assign (q_current q) (depth_of m) \<rparr>"
  consider (lossy) q1 where "q_class q = Lossy_Queue" "purge_loop (Suc (length (messages (q_messages q)))) e (depth_of m) m q = Inr q1"
      "if exceeds q1 (depth_of m) then b = False \<and> q' = q1 else b = True \<and> q' = ?r q1"
    | (destruct) q1 where "q_class q = SelfDestruct_Queue" "b" "q' = ?r q1"
      "(if exceeds q (depth_of m) then Queue_destroyed e (q \<lparr> q_registered := False \<rparr>) else Inr q) = Inr q1"
    | (plain) "q_class q \<noteq> SelfDestruct_Queue" "b" "q' = ?r q" "\<not> exceeds q (depth_of m)"
    using run by (auto simp: checkDepth_def LossyQueue_checkDepth_def SelfDestructQueue_checkDepth_def Queue_checkDepth_def
        throw_if_eq_Inr res_bind_eq_Inr split: queue_class.splits if_splits)
  then show ?thesis
  proof cases
    case lossy
    have q1: "queue_inv e rs q1" "shrinks e q q1"
      using purge_loop_shrinks [OF lossy(2) inv] by simp_all
    then show ?thesis
      using lossy(3) reserve_inv [OF q1(1), of m] reserve_limit [OF q1(1), of m] within_limit_shrinks [OF q1(2), of rs]
        frame_trans [of q q1] by (auto simp: shrinks_def split: if_splits)
  next
    case destruct
    have "queue_inv e rs q1" "shrinks e q q1"
      using destruct(4) inv destroyed_inv [of e rs "q \<lparr> q_registered := False \<rparr>" q1] by (auto split: if_splits)
    then show ?thesis
      using destruct(1-3) reserve_inv [of e rs q1 m] frame_trans [of q q1] by (auto simp: shrinks_def)
  qed (use reserve_inv [OF inv, of m] reserve_limit [OF inv, of m] in auto)
qed

lemma within_limit_update [simp]:
  "within_limit e rs (q \<lparr> q_uses := n \<rparr>) = within_limit e rs q"
  "within_limit e rs (log_events es q) = within_limit e rs q"
  by (simp_all add: within_limit_def)

lemma enqueue_inv:
  assumes inv: "queue_inv e rs q" and run: "Queue_enqueue e store_fails m q = (r, q')"
  shows "queue_inv e (if r = Inr True then m # rs else rs) q' \<and> frame q q' \<and>
    (q_class q \<noteq> SelfDestruct_Queue \<and> within_limit e rs q \<longrightarrow> within_limit e (if r = Inr True then m # rs else rs) q')"
proof (cases "q_deleted q")
  case True
  then show ?thesis
    using run inv by (auto simp: Queue_enqueue_def UsageBarrier_acquire_def)
next
  case False
  let ?q = "q \<lparr> q_uses := q_uses q + 1 \<rparr>"
  show ?thesis
  proof (cases "checkDepth e (depth_of m) m ?q")
    case (Inl err)
    then show ?thesis
      using run inv False by (auto simp: Queue_enqueue_def UsageBarrier_acquire_def UsageBarrier_release_def)
  next
    case (Inr res)
    obtain b q1 where res: "res = (b, q1)"
      by (cases res)
    have c: "queue_inv e (if b then m # rs else rs) q1" "frame q q1"
      "q_class q \<noteq> SelfDestruct_Queue \<Longrightarrow> within_limit e rs q \<Longrightarrow> within_limit e (if b then m # rs else rs) q1"
      using checkDepth_inv [of e rs ?q m b q1] inv Inr res by auto
    have "queue_inv e rs (enqueueAborted m q1)" "frame q (enqueueAborted m q1)" if b
      using abort_inv [of e "m # rs" q1 m] c(1) that frame_trans [OF c(2)] by simp_all
    moreover have "within_limit e rs (enqueueAborted m q1)" if b "within_limit e (m # rs) q1"
      using that c(1) depth_sub [of "q_current q1" m]
      by (auto simp: within_limit_def fits_def enqueueAborted_def queue_inv_def depth_ok_def)
    ultimately show ?thesis
      using run False Inr res c
      by (cases b)
        (auto simp: Queue_enqueue_def UsageBarrier_acquire_def UsageBarrier_release_def Let_def aborted_log
          split: if_splits)
  qed
qed

section \<open>The reachable states\<close>

text \<open>
  The steps of a queue, on the messages with reserved space and the queue. A message is pushed or
  aborted after its \<open>enqueue\<close>; the deque holds less than half of the sequence numbers; and a cursor
  that is given to \<open>release\<close> is that of a message still on the queue (the deque would revive a deleted
  one). \<open>setPosition\<close>, which replication uses, is not a step, and neither is the push of a last-value
  queue: \<open>Lvq::push\<close> replaces the message with the same key in a map (\<open>MessageMap_update\<close> in
  \<open>Message_Map\<close>), and what is stated here of a queue of that class is about a queue that nothing has
  been pushed on.
\<close>

inductive queue_step ::
  "'p MessageContent \<Rightarrow> 'p QMessage list \<times> 'p Queue \<Rightarrow> 'p QMessage list \<times> 'p Queue \<Rightarrow> bool" for e where
  step_enqueue: "Queue_enqueue e store_fails m q = (r, q') \<Longrightarrow>
    queue_step e (rs, q) (if r = Inr True then m # rs else rs, q')"
| step_push: "m \<in> set rs \<Longrightarrow> q_class q \<noteq> Lvq_Queue \<Longrightarrow> length (messages (q_messages q)) + 1 < 2 ^ 31 \<Longrightarrow> Queue_push e m q = Inr q' \<Longrightarrow>
    queue_step e (rs, q) (remove1 m rs, q')"
| step_abort: "m \<in> set rs \<Longrightarrow> queue_step e (rs, q) (remove1 m rs, enqueueAborted m q)"
| step_next: "(consumer_acquires c \<Longrightarrow> cursor_type (consumer_cursor c) = CONSUMER) \<Longrightarrow>
    getNextMessage e now flt acc c q = Inr (out, c', q') \<Longrightarrow> queue_step e (rs, q) (rs, q')"
| step_dequeue: "Queue_dequeue e ctxt cur q = Inr q' \<Longrightarrow> queue_step e (rs, q) (rs, q')"
| step_committed: "Queue_dequeueCommitted e cur q = Inr q' \<Longrightarrow> queue_step e (rs, q) (rs, q')"
| step_dequeue_at: "Queue_dequeueMessageAt e p q = Inr (b, q') \<Longrightarrow> queue_step e (rs, q) (rs, q')"
| step_reject: "Queue_reject e cur q = Inr q' \<Longrightarrow> queue_step e (rs, q) (rs, q')"
| step_acquire: "Queue_acquire e cur q = (b, q') \<Longrightarrow> queue_step e (rs, q) (rs, q')"
| step_release: "MessageDeque_find e (q_messages q) cur = Some m \<Longrightarrow>
    queue_step e (rs, q) (rs, Queue_release e cur b q)"
| step_remove: "Queue_remove e maxCount p reroute_alternate type auto maxTests q = Inr (ms, q') \<Longrightarrow>
    queue_step e (rs, q) (rs, q')"
| step_purge: "Queue_purgeExpired e now since lapse q = Inr (ms, q') \<Longrightarrow> queue_step e (rs, q) (rs, q')"
| step_consume: "Queue_consume c excl q = Inr q' \<Longrightarrow> queue_step e (rs, q) (rs, q')"
| step_cancel: "Queue_cancel e c q = Inr q' \<Longrightarrow> queue_step e (rs, q) (rs, q')"
| step_mark: "markInUse controlling q = Inr q' \<Longrightarrow> queue_step e (rs, q) (rs, q')"
| step_unmark: "releaseFromUse e controlling q = Inr q' \<Longrightarrow> queue_step e (rs, q) (rs, q')"
| step_own: "setExclusiveOwner x q = (b, q') \<Longrightarrow> queue_step e (rs, q) (rs, q')"
| step_disown: "releaseExclusiveOwnership e q = Inr q' \<Longrightarrow> queue_step e (rs, q) (rs, q')"
| step_schedule: "tryAutoDelete e q = Inr q' \<Longrightarrow> queue_step e (rs, q) (rs, q')"

text \<open>With \<open>recovers\<close>, messages of the store may be recovered on the way.\<close>

inductive queue_reachable ::
  "'p MessageContent \<Rightarrow> bool \<Rightarrow> 'p Queue \<Rightarrow> 'p QMessage list \<Rightarrow> 'p Queue \<Rightarrow> bool" for e recovers q0 where
  queue_start: "queue_reachable e recovers q0 [] q0"
| queue_steps: "queue_reachable e recovers q0 rs q \<Longrightarrow> queue_step e (rs, q) (rs', q') \<Longrightarrow> queue_reachable e recovers q0 rs' q'"
| queue_recovers: "queue_reachable e recovers q0 rs q \<Longrightarrow> recovers \<Longrightarrow>
    queue_reachable e recovers q0 (m # rs) (Queue_recoverPrepared m q)"

lemma shrinks_owner [simp]:
  "shrinks e (q \<lparr> q_users := u \<rparr>) q' = shrinks e q q'" "shrinks e (q \<lparr> q_owner := x \<rparr>) q' = shrinks e q q'"
  "shrinks e (q \<lparr> q_exclusive := x \<rparr>) q' = shrinks e q q'" "shrinks e (q \<lparr> q_listeners := l \<rparr>) q' = shrinks e q q'"
  "shrinks e q (q' \<lparr> q_owner := x \<rparr>) = shrinks e q q'" "shrinks e q (q' \<lparr> q_exclusive := x \<rparr>) = shrinks e q q'"
  by (simp_all add: shrinks_def frame_def contents_def)

lemma removeListener_inv [simp]:
  "queue_inv e rs (Queue_removeListener e c q) = queue_inv e rs q"
  "shrinks e (Queue_removeListener e c q) q' = shrinks e q q'"
  "shrinks e q (Queue_removeListener e c q') = shrinks e q q'"
  by (simp_all add: Queue_removeListener_def Let_def split: prod.splits)

lemma scheduled_as:
  assumes "queue_inv e rs q1" "scheduleAutoDelete e q1 = Inr q'" "shrinks e q1 q' = shrinks e q q'"
  shows "queue_inv e rs q' \<and> shrinks e q q'"
  using scheduleAutoDelete_inv [OF assms(1,2)] assms(3) by simp

lemma scheduled:
  assumes "queue_inv e rs q"
  shows "scheduleAutoDelete e (q \<lparr> q_users := u \<rparr>) = Inr q' \<Longrightarrow> queue_inv e rs q' \<and> shrinks e q q'"
    and "scheduleAutoDelete e (q \<lparr> q_owner := x \<rparr>) = Inr q' \<Longrightarrow> queue_inv e rs q' \<and> shrinks e q q'"
    and "scheduleAutoDelete e (log_events es ((Queue_removeListener e c q) \<lparr> q_users := u \<rparr>)) = Inr q' \<Longrightarrow>
      queue_inv e rs q' \<and> shrinks e q q'"
    and "scheduleAutoDelete e (log_events es ((Queue_removeListener e c q) \<lparr> q_users := u, q_exclusive := y \<rparr>)) = Inr q' \<Longrightarrow>
      queue_inv e rs q' \<and> shrinks e q q'"
  by (erule scheduled_as [rotated]; simp add: assms)+

lemma users_inv:
  assumes "queue_inv e rs q"
  shows "Queue_consume c excl q = Inr q' \<Longrightarrow> queue_inv e rs q' \<and> shrinks e q q'"
    and "markInUse controlling q = Inr q' \<Longrightarrow> queue_inv e rs q' \<and> shrinks e q q'"
    and "setExclusiveOwner x q = (b, q') \<Longrightarrow> queue_inv e rs q' \<and> shrinks e q q'"
    and "releaseExclusiveOwnership e q = Inr q' \<Longrightarrow> queue_inv e rs q' \<and> shrinks e q q'"
    and "releaseFromUse e controlling q = Inr q' \<Longrightarrow> queue_inv e rs q' \<and> shrinks e q q'"
    and "Queue_cancel e c q = Inr q' \<Longrightarrow> queue_inv e rs q' \<and> shrinks e q q'"
  using assms
  by (auto simp: Queue_consume_def markInUse_def setExclusiveOwner_def releaseExclusiveOwnership_def releaseFromUse_def
      Queue_cancel_def throw_if_eq_Inr res_bind_eq_Inr Let_def split: if_splits dest: scheduled [OF assms])

lemma dequeueMessageAt_inv:
  assumes inv: "queue_inv e rs q" and run: "Queue_dequeueMessageAt e p q = Inr (b, q')"
  shows "queue_inv e rs q' \<and> shrinks e q q'"
proof (cases "deque_find (message_ops e) (q_messages q) p (Some (QueueCursor_init BROWSER))")
  case (Pair mo co)
  show ?thesis
  proof (cases "mo = None \<or> co = None")
    case True
    then show ?thesis
      using Pair run inv by (auto simp: Queue_dequeueMessageAt_def split: option.splits)
  next
    case False
    then obtain m c where mc: "mo = Some m" "co = Some c"
      by auto
    obtain f i where ix: "index_seq (message_ops e) (q_messages q) p 0 = (f, i)"
      by (cases "index_seq (message_ops e) (q_messages q) p 0")
    then have m: "f" "m = messages (q_messages q) ! i" "msg_state m = AVAILABLE \<or> msg_state m = ACQUIRED"
      "valid c" "position c = p"
      using Pair mc by (auto simp: deque_find_def cursor_setPosition_def split: if_splits)
    have "i < length (messages (q_messages q))" "msg_sequence m = p"
      using index_seq_found [of "message_ops e" "q_messages q" p 0 i] inv ix m(1,2)
      by (auto simp: queue_inv_def deque_inv_def)
    then have "m \<in> set (contents e q)"
      using m(2,3) by (auto simp: contents_def live_def)
    note d = dropped_shrinks [OF inv m(4) _ this]
    have seq: "position c = msg_sequence m"
      using m(5) \<open>msg_sequence m = p\<close> by simp
    obtain el where "end_autodelete e el (dequeueFromStore m (log_events [ObserveDequeue m] (dropped e c m q))) = Inr q'"
      using run Pair mc
      by (auto simp: Queue_dequeueMessageAt_def Let_def split_beta delete_observed res_bind_eq_Inr simp del: snd_observeDequeue)
    then show ?thesis
      using d [OF seq] end_autodelete_inv [of e rs "dequeueFromStore m (log_events [ObserveDequeue m] (dropped e c m q))" el q']
        shrinks_trans [OF d(2) [OF seq]] by auto
  qed
qed

lemma tryAutoDelete_inv:
  assumes "queue_inv e rs q" "tryAutoDelete e q = Inr q'"
  shows "queue_inv e rs q' \<and> shrinks e q q'"
  using assms destroyed_inv [of e rs "q \<lparr> q_registered := False \<rparr>" q'] by (auto simp: tryAutoDelete_def split: if_splits)

lemma purgeExpired_inv:
  assumes "queue_inv e rs q" "Queue_purgeExpired e now since lapse q = Inr (ms, q')"
  shows "queue_inv e rs q' \<and> shrinks e q q'"
  using assms remove_inv [OF assms(1)] by (auto simp: Queue_purgeExpired_def Let_def split: if_splits)

lemmas op_shrinks = users_inv dequeue_inv dequeueCommitted_inv dequeueMessageAt_inv reject_inv acquire_inv
  tryAutoDelete_inv purgeExpired_inv

lemma step_shrinks:
  assumes "queue_inv e rs q' \<and> shrinks e q q'"
  shows "queue_inv e rs q' \<and> frame q q' \<and>
    (q_class q \<noteq> SelfDestruct_Queue \<and> within_limit e rs q \<longrightarrow> within_limit e rs q')"
  using assms within_limit_shrinks by (auto simp: shrinks_def)

text \<open>Every step keeps the invariant; all but a push and an accepted message only shrink the queue.\<close>

lemma queue_step_inv:
  assumes "queue_step e (rs, q) (rs', q')" "queue_inv e rs q"
  shows "queue_inv e rs' q' \<and> frame q q' \<and>
    (q_class q \<noteq> SelfDestruct_Queue \<and> within_limit e rs q \<longrightarrow> within_limit e rs' q')"
  using assms(1)
proof cases
  case (step_enqueue store_fails m r)
  then show ?thesis
    using enqueue_inv [OF assms(2)] by blast
next
  case (step_push m)
  obtain q1 where q1: "Queue_push e m q = Inr q1" "queue_inv e (remove1 m rs) q1" "frame q q1"
    "contents e q1 = contents e q @ [m \<lparr> msg_sequence := q_sequence q + 1, msg_state := AVAILABLE \<rparr>]"
    using push_inv [OF assms(2) step_push(2,4)] by blast
  moreover have "length rs = Suc (length (remove1 m rs))"
    using step_push(2) length_pos_if_in_set [OF step_push(2)] by (simp add: length_remove1)
  moreover have "total_size rs = total_size (remove1 m rs) + unat (getMessageSize m)"
    using step_push(2) size_le_total [of m rs] by simp
  ultimately show ?thesis
    using step_push by (auto simp: within_limit_def fits_def frame_def)
next
  case (step_abort m)
  then show ?thesis
    using abort_inv [OF assms(2)] total_size_remove1_le [of m rs]
    by (auto simp: within_limit_def fits_def frame_def enqueueAborted_def length_remove1)
next
  case (step_release cur m b)
  have "valid cur"
    using step_release(3) by (rule find_valid)
  then have "queue_inv e rs q' \<and> shrinks e q q'"
    using release_inv [OF assms(2), of cur m b] find_contents [OF assms(2), of cur m] step_release by auto
  then show ?thesis
    using within_limit_shrinks step_release(1) by (auto simp: shrinks_def)
next
  case (step_remove maxCount p type auto maxTests ms)
  then show ?thesis
    using remove_inv [OF assms(2) step_remove(2)] within_limit_shrinks by (auto simp: shrinks_def)
next
  case (step_next c now flt acc out c')
  then show ?thesis
    using getNextMessage_inv [OF assms(2) step_next(2,3)] within_limit_shrinks by (auto simp: shrinks_def)
qed (use op_shrinks [OF assms(2)] step_shrinks in \<open>metis (no_types)\<close>)+

lemma init_inv:
  "queue_inv e [] (Queue_init cls s store)"
  "within_limit e [] (Queue_init cls (merge_settings s limit) store)"
  by (auto simp: queue_inv_def deque_inv_def contiguous_def last_sequence_def depth_ok_def contents_def live_def
      Queue_init_def IndexedDeque_init_def Let_def within_limit_def fits_def merge_settings_def depth_defs split: if_splits)

lemma reachable_inv:
  assumes "queue_reachable e recovers (Queue_init cls s store) rs q"
  shows "queue_inv e rs q \<and> frame (Queue_init cls s store) q"
  using assms
proof induction
  case queue_start
  show ?case by (simp add: init_inv)
next
  case (queue_steps rs q rs' q')
  then show ?case
    using queue_step_inv [of e rs q rs' q'] frame_trans by blast
next
  case (queue_recovers rs q m)
  then show ?case
    using reserve_inv [of e rs q m] frame_trans by (auto simp: Queue_recoverPrepared_def)
qed

lemma reachable_limit:
  assumes "queue_reachable e False (Queue_init cls (merge_settings s limit) store) rs q" "cls \<noteq> SelfDestruct_Queue"
  shows "within_limit e rs q"
  using assms
proof induction
  case queue_start
  show ?case by (rule init_inv)
next
  case (queue_steps rs q rs' q')
  have "queue_inv e rs q" "q_class q = cls"
    using reachable_inv [OF queue_steps(1)] by (simp_all add: frame_def Queue_init_def)
  then show ?case
    using queue_step_inv [OF queue_steps(2)] queue_steps by simp
qed simp

section \<open>The guarantees\<close>

text \<open>
  C7. In every state that a queue reaches by the operations of \<open>queue_step\<close>, with recovery or without,
  (a release names a message that is still on the queue, and the position is not set from outside), the depth it keeps is that of
  the messages on the queue together with those that space is reserved for: their number modulo
  \<open>2 ^ 32\<close> and, if the size is tracked, the sum of their sizes modulo \<open>2 ^ 64\<close>. No two messages have
  the same sequence number and all are available or acquired.
\<close>

theorem queue_depth_accounts:
  assumes "queue_reachable e recovers (Queue_init cls s store) rs q"
  shows "getCount (q_current q) = of_nat (length (contents e q) + length rs) \<and>
    (getSize (maxDepth s) \<noteq> 0 \<longrightarrow> getSize (q_current q) = sum_list (map getMessageSize (contents e q @ rs))) \<and>
    distinct (map msg_sequence (contents e q)) \<and>
    (\<forall>m\<in>set (contents e q). msg_state m \<in> {AVAILABLE, ACQUIRED})"
proof -
  have inv: "queue_inv e rs q" and fr: "frame (Queue_init cls s store) q"
    using reachable_inv [OF assms] by simp_all
  have "hasSize (q_current q)" if "getSize (maxDepth s) \<noteq> 0"
    using fr that by (simp add: frame_def Queue_init_def Let_def depth_defs)
  then show ?thesis
    using inv contents_distinct [OF inv] by (auto simp: queue_inv_def depth_ok_def sizes_def)
qed

text \<open>
  C5. As long as no message is recovered from the store, a queue that rejects at its limit, or a ring
  queue, never holds more than its limits allow, reserved space included: neither the number of
  messages nor the sum of their sizes, as natural numbers, exceeds the limits merged from the settings
  of the queue and of the broker. The runs are those of \<open>queue_step\<close> without recovery: recovery takes a
  queue past its limit and the check does not hold it back then (\<open>count_limit_only_at_limit\<close>), and a
  release of a message that is no longer on the queue and a position set from outside are not steps.
\<close>

theorem queue_within_limit:
  assumes "queue_reachable e False (Queue_init cls (merge_settings s limit) store) rs q"
    and "cls \<in> {Plain_Queue, Lossy_Queue}"
  shows "fits (maxDepth (merge_settings s limit)) (rs @ contents e q)"
proof -
  have "q_settings q = merge_settings s limit"
    using reachable_inv [OF assms(1)] by (simp add: frame_def Queue_init_def)
  then show ?thesis
    using reachable_limit [OF assms(1)] assms(2) by (auto simp: within_limit_def)
qed

lemma evict_drop:
  "\<exists>k\<le>length ms. evict limit (\<lambda>m. True) new ms = drop k ms \<and> (\<forall>j<k. \<not> fits limit (new @ drop j ms)) \<and>
     (fits limit (new @ drop k ms) \<or> k = length ms)"
proof (induction ms)
  case (Cons m ms)
  show ?case
  proof (cases "fits limit (new @ m # ms)")
    case False
    obtain k where "k \<le> length ms" "evict limit (\<lambda>m. True) new ms = drop k ms" "\<forall>j<k. \<not> fits limit (new @ drop j ms)"
      "fits limit (new @ drop k ms) \<or> k = length ms"
      using Cons.IH by blast
    then show ?thesis
      using False by (intro exI [of _ "Suc k"]) (auto simp: less_Suc_eq_0_disj)
  qed (intro exI [of _ 0], simp)
qed simp

text \<open>
  C13. In a run without recovery, a ring queue without priorities that is not deleted makes room for a message no larger than its limit by dropping
  the oldest messages, acquired ones included, and no more of them than it must: the first \<open>k\<close>, for
  the least \<open>k\<close> with which the new message fits, or all of them. The message is taken exactly if it
  fits then, which fails only for space that is reserved.
\<close>

theorem ring_queue_evicts_oldest:
  assumes reach: "queue_reachable e False (Queue_init Lossy_Queue (merge_settings s limit) store) rs q"
    and "priorities s = 0" and live: "\<not> q_deleted q"
    and small: "hasSize (maxDepth (merge_settings s limit)) \<longrightarrow> getMessageSize m \<le> getSize (maxDepth (merge_settings s limit))"
  shows "\<exists>k q'. Queue_enqueue e (\<lambda>_. False) m q =
      (Inr (fits (maxDepth (merge_settings s limit)) (m # rs @ drop k (contents e q))), q') \<and>
    contents e q' = drop k (contents e q) \<and> k \<le> length (contents e q) \<and>
    (\<forall>j<k. \<not> fits (maxDepth (merge_settings s limit)) (m # rs @ drop j (contents e q))) \<and>
    (fits (maxDepth (merge_settings s limit)) (m # rs @ drop k (contents e q)) \<or> k = length (contents e q))"
proof -
  let ?L = "maxDepth (merge_settings s limit)"
  let ?q = "q \<lparr> q_uses := q_uses q + 1 \<rparr>"
  have inv: "queue_inv e rs ?q" and set: "q_settings q = merge_settings s limit" "q_class q = Lossy_Queue"
    using reachable_inv [OF reach] by (simp_all add: frame_def Queue_init_def)
  have lim: "within_limit e rs ?q"
    using reachable_limit [OF reach] by simp
  have p: "purgeable m ?q = (\<lambda>m. True)"
    using assms(2) set by (simp add: purgeable_def merge_settings_def Let_def)
  have "length (contents e ?q) < Suc (length (messages (q_messages ?q)))"
    by (simp add: contents_def live_def le_imp_less_Suc)
  from purge_loop_correct [OF inv lim this, of m]
  obtain q1 where q1: "purge_loop (Suc (length (messages (q_messages q)))) e (depth_of m) m ?q = Inr q1" "queue_inv e rs q1"
    "frame q q1" "within_limit e rs q1" "contents e q1 = evict ?L (\<lambda>m. True) (m # rs) (contents e q)"
    unfolding p using set by auto
  obtain k where k: "k \<le> length (contents e q)" "contents e q1 = drop k (contents e q)"
    "\<forall>j<k. \<not> fits ?L (m # rs @ drop j (contents e q))" "fits ?L (m # rs @ drop k (contents e q)) \<or> k = length (contents e q)"
    using evict_drop [of "contents e q" ?L "m # rs"] q1(5) by auto
  have ex: "exceeds q1 (depth_of m) \<longleftrightarrow> \<not> fits ?L (m # rs @ drop k (contents e q))"
    using exceeds_iff [OF q1(2,4), of m] q1(3) set k(2) by (simp add: frame_def)
  have "\<not> (hasSize ?L \<and> getSize (depth_of m) > getSize ?L)"
    using small by (auto simp: depth_of_def depth_defs)
  then have "\<exists>q'. Queue_enqueue e (\<lambda>_. False) m q = (Inr (fits ?L (m # rs @ drop k (contents e q))), q') \<and>
      contents e q' = contents e q1"
    using live set q1(1) ex
    by (auto simp: Queue_enqueue_def UsageBarrier_acquire_def UsageBarrier_release_def checkDepth_def
        LossyQueue_checkDepth_def throw_if_def Let_def)
  with k show ?thesis
    by auto
qed

lemma ahead_fresh: "queue_inv e rs q \<Longrightarrow> \<not> valid c \<Longrightarrow> ahead e q c = filter (viewable (message_ops e) (cursor_type c)) (contents e q)"
  by (simp add: ahead_def Let_def deque_reset_def queue_inv_def deque_inv_def contents_def viewable_live)

text \<open>
  A consumer that finds nothing waits: it is flagged as a listener and, unless it was one before, is in
  the list of its kind.
\<close>

definition waits :: "Consumer \<Rightarrow> QueueListeners \<Rightarrow> QueueListeners \<Rightarrow> bool" where
  "waits c l l' \<longleftrightarrow> consumer_name c \<in> set (in_listeners l') \<and>
     (consumer_name c \<notin> set (in_listeners l) \<longrightarrow>
        consumer_name c \<in> set (if consumer_acquires c then listen_consumers l' else listen_browsers l'))"

lemma waits_added: "waits c l (addListener (consumer_name c) (consumer_acquires c) l)"
  by (auto simp: waits_def addListener_def)

lemma populate_listeners: "set (in_listeners (snd (populate s l))) \<subseteq> set (in_listeners l)"
  by (auto simp: populate_def Let_def split: list.splits)

lemma waits_populate: "waits c (snd (populate s l)) l' \<Longrightarrow> waits c l l'"
  using populate_listeners [of s l] by (auto simp: waits_def)

lemma waits_cong: "set (in_listeners l1) \<subseteq> set (in_listeners l) \<Longrightarrow> waits (c \<lparr> consumer_cursor := cur \<rparr>) l1 l' \<Longrightarrow> waits c l l'"
  by (auto simp: waits_def)

lemma exhausted_waits:
  assumes "next_message_loop fuel e now flt acc c s el q = Inr (Exhausted, c', s', el', q')"
  shows "waits c (q_listeners q) (q_listeners q')"
  using assms
proof (induction fuel arbitrary: c s el q)
  case (Suc fuel)
  obtain mo cur where nx: "MessageDeque_next e (q_messages q) (consumer_cursor c) = (mo, cur)"
    by fastforce
  have l: "q_listeners (delete_message e cur x) = q_listeners x" "q_listeners (dequeueFromStore m x) = q_listeners x"
    "q_listeners (snd (observeDequeue b m el x)) = q_listeners x" for m b el and x :: "'a Queue"
    by (simp_all add: delete_message_def dequeueFromStore_def observeDequeue_def log_events_def Let_def)
  note IH = Suc.IH [THEN waits_cong [rotated]]
  show ?case
  proof (cases mo)
    case None
    then show ?thesis
      using Suc.prems nx waits_added [of c "q_listeners q"] by (auto simp: Let_def)
  next
    case (Some m)
    consider "hasExpired now m" | "\<not> hasExpired now m" "flt m" | "\<not> hasExpired now m" "\<not> flt m" by blast
    then show ?thesis
    proof cases
      case 1
      then show ?thesis
        using Suc.prems nx Some by (auto simp: Let_def split_beta l dest!: IH)
    next
      case 2
      then show ?thesis
        using Suc.prems nx Some
        by (auto simp: Let_def split_beta FifoDistributor_acquire_def split: if_splits dest!: IH)
    next
      case 3
      then show ?thesis
        using Suc.prems nx Some
        by (cases "consumer_acquires c") (auto simp: Let_def split_beta dest!: IH intro: waits_populate)
    qed
  qed
qed simp

text \<open>
  C12. Dispatch always ends with an answer on a queue that is not deleted and not to be auto-deleted,
  for a consumer whose cursor, if the consumer acquires, is of the acquiring kind. The consumer is
  offered the first message before its cursor that has not expired and passes its filter: it gets that
  message, acquired and with its delivery counted if it acquires, or refuses it, or there is none. If
  there is none it is a listener of the queue afterwards, in the list of its kind unless it was a
  listener already. The expired messages before the one offered are dropped; everything else stays in
  its order. A consumer that starts has all messages before it that it may see. The states are those
  of the runs \<open>queue_reachable\<close>.
\<close>

theorem getNextMessage_dispatches:
  assumes "queue_reachable e recovers (Queue_init cls s store) rs q" "\<not> q_deleted q" "\<not> autodelete s"
    and "consumer_acquires c \<longrightarrow> cursor_type (consumer_cursor c) = CONSUMER"
  shows "\<exists>c' q'. getNextMessage e now flt acc c q =
      Inr (dispatched (consumer_acquires c) acc (wanted now flt (ahead e q (consumer_cursor c))), c', q') \<and>
    contents e q' = after_dispatch (consumer_acquires c) acc (wanted now flt (ahead e q (consumer_cursor c)))
      (minus_all (contents e q) (gone now flt (ahead e q (consumer_cursor c)))) \<and>
    (wanted now flt (ahead e q (consumer_cursor c)) = None \<longrightarrow> waits c (q_listeners q) (q_listeners q')) \<and>
    (\<not> valid (consumer_cursor c) \<longrightarrow>
      ahead e q (consumer_cursor c) = filter (viewable (message_ops e) (cursor_type (consumer_cursor c))) (contents e q))"
proof -
  have inv: "queue_inv e rs q" and a: "\<not> autodelete (q_settings q)"
    using reachable_inv [OF assms(1)] assms(3) by (simp_all add: frame_def Queue_init_def)
  obtain cur s' el' q' where loop: "next_message_loop (Suc (length (messages (q_messages q)))) e now flt acc c NotificationSet_init False q =
      Inr (dispatched (consumer_acquires c) acc (wanted now flt (ahead e q (consumer_cursor c))),
           c \<lparr> consumer_cursor := cur \<rparr>, s', el', q')"
    "contents e q' = after_dispatch (consumer_acquires c) acc (wanted now flt (ahead e q (consumer_cursor c)))
      (minus_all (contents e q) (gone now flt (ahead e q (consumer_cursor c))))" "\<not> el'"
    using next_message_loop_ahead [OF inv, of c now flt acc NotificationSet_init False] assms(4) a by blast
  have "wanted now flt (ahead e q (consumer_cursor c)) = None \<longrightarrow> waits c (q_listeners q) (q_listeners (notify_all (notify s') q'))"
    using exhausted_waits [of "Suc (length (messages (q_messages q)))" e now flt acc c NotificationSet_init False q] loop(1)
    by (auto simp: dispatched_def notify_all_def log_events_def)
  then show ?thesis
    using loop assms(2) ahead_fresh [OF inv, of "consumer_cursor c"]
    by (simp add: getNextMessage_def checkNotDeleted_def end_autodelete_def)
qed

section \<open>Examples\<close>

text \<open>A ring queue for one message, and its state after the first.\<close>

definition sample_content :: "64 word \<Rightarrow> unit MessageContent" where
  "sample_content n = \<lparr> message_size = n, persistent = False, message_priority = 4, deliveryCount = - 1,
     alreadyAcquired = False, expiration = None, payload = () \<rparr>"

definition sample_message :: "64 word \<Rightarrow> unit QMessage" where
  "sample_message n = \<lparr> msg_sequence = 0, msg_state = AVAILABLE, msg_content = sample_content n \<rparr>"

definition sample_settings :: QueueSettings where
  "sample_settings = (QueueSettings_init False False) \<lparr> maxDepth := setCount 1 QueueDepth_init \<rparr>"

definition sample_queue :: "queue_class \<Rightarrow> unit Queue" where
  "sample_queue cls = Queue_init cls (merge_settings sample_settings 0) False"

definition sample_pushed :: "unit QMessage \<Rightarrow> unit Queue \<Rightarrow> unit Queue" where
  "sample_pushed m q = (case Queue_push (sample_content 0) m (snd (Queue_enqueue (sample_content 0) (\<lambda>_. False) m q)) of
     Inr q \<Rightarrow> q | Inl _ \<Rightarrow> q)"

lemma sample_reachable:
  assumes "cls \<in> {Plain_Queue, Lossy_Queue}"
  shows "queue_reachable (sample_content 0) recovers (sample_queue cls) [] (sample_pushed (sample_message 7) (sample_queue cls))"
proof -
  let ?e = "sample_content 0" and ?m = "sample_message 7"
  let ?q = "snd (Queue_enqueue ?e (\<lambda>_. False) ?m (sample_queue cls))"
  have "fst (Queue_enqueue ?e (\<lambda>_. False) ?m (sample_queue Plain_Queue)) = Inr True"
    "fst (Queue_enqueue ?e (\<lambda>_. False) ?m (sample_queue Lossy_Queue)) = Inr True"
    by code_simp+
  then have "Queue_enqueue ?e (\<lambda>_. False) ?m (sample_queue cls) = (Inr True, ?q)"
    using assms by (auto simp: prod_eq_iff)
  from queue_steps [OF queue_start step_enqueue [OF this]]
  have reach: "queue_reachable ?e recovers (sample_queue cls) [?m] ?q"
    by simp
  have inv: "queue_inv ?e [?m] ?q"
    using reachable_inv [OF reach [unfolded sample_queue_def]] by (simp add: sample_queue_def)
  have "messages (q_messages (snd (Queue_enqueue ?e (\<lambda>_. False) ?m (sample_queue Plain_Queue)))) = []"
    "messages (q_messages (snd (Queue_enqueue ?e (\<lambda>_. False) ?m (sample_queue Lossy_Queue)))) = []"
    by code_simp+
  then have len: "length (messages (q_messages ?q)) + 1 < 2 ^ 31"
    using assms by auto
  then obtain q' where "Queue_push ?e ?m ?q = Inr q'"
    using push_inv [OF inv, of ?m] by auto
  moreover have "q_class ?q \<noteq> Lvq_Queue"
    using reachable_inv [OF reach [unfolded sample_queue_def]] assms by (auto simp: frame_def Queue_init_def sample_queue_def)
  ultimately show ?thesis
    using queue_steps [OF reach step_push [OF _ _ len, of ?m]] by (simp add: sample_pushed_def)
qed

theorem queue_depth_accounts_witness:
  "getCount (q_current (sample_pushed (sample_message 7) (sample_queue Plain_Queue))) =
    of_nat (length (contents (sample_content 0) (sample_pushed (sample_message 7) (sample_queue Plain_Queue))))"
  using queue_depth_accounts [OF sample_reachable [of Plain_Queue True, unfolded sample_queue_def]]
  by (simp add: sample_queue_def)

theorem queue_within_limit_witness:
  "fits (setCount 1 QueueDepth_init) (contents (sample_content 0) (sample_pushed (sample_message 7) (sample_queue Plain_Queue)))"
proof -
  have "maxDepth (merge_settings sample_settings 0) = setCount 1 QueueDepth_init"
    by (simp add: merge_settings_def sample_settings_def QueueSettings_init_def depth_defs)
  then show ?thesis
    using queue_within_limit [OF sample_reachable [of Plain_Queue False, unfolded sample_queue_def]]
    by (simp add: sample_queue_def)
qed

theorem ring_queue_evicts_oldest_witness:
  "\<exists>k q'. Queue_enqueue (sample_content 0) (\<lambda>_. False) (sample_message 9) (sample_pushed (sample_message 7) (sample_queue Lossy_Queue)) =
      (Inr True, q') \<and> contents (sample_content 0) q' =
        drop k (contents (sample_content 0) (sample_pushed (sample_message 7) (sample_queue Lossy_Queue)))"
proof -
  have "\<not> q_deleted (sample_pushed (sample_message 7) (sample_queue Lossy_Queue))" "priorities sample_settings = 0"
    "\<not> hasSize (maxDepth (merge_settings sample_settings 0))"
    "fst (Queue_enqueue (sample_content 0) (\<lambda>_. False) (sample_message 9)
       (sample_pushed (sample_message 7) (sample_queue Lossy_Queue))) = Inr True"
    by code_simp+
  then show ?thesis
    using ring_queue_evicts_oldest [OF sample_reachable [of Lossy_Queue False, unfolded sample_queue_def], of "sample_message 9"]
    by (auto simp: sample_queue_def)
qed

definition sample_consumer :: Consumer where
  "sample_consumer = \<lparr> consumer_name = ''c'', consumer_cursor = QueueCursor_init CONSUMER, consumer_acquires = True,
     consumer_counted = True, hideDeletedError = False, consumer_session = ''s'' \<rparr>"

theorem getNextMessage_dispatches_witness:
  "\<exists>m c' q'. getNextMessage (sample_content 0) 0 (\<lambda>m. getMessageSize m = 7) (\<lambda>m. True) sample_consumer
      (sample_pushed (sample_message 7) (sample_queue Plain_Queue)) = Inr (Found (taken True m), c', q') \<and>
    getMessageSize m = 7"
proof -
  let ?q = "sample_pushed (sample_message 7) (sample_queue Plain_Queue)"
  have "\<not> q_deleted ?q" "\<not> autodelete (merge_settings sample_settings 0)" "consumer_acquires sample_consumer"
    "cursor_type (consumer_cursor sample_consumer) = CONSUMER"
    "map_option getMessageSize (wanted 0 (\<lambda>m. getMessageSize m = 7) (ahead (sample_content 0) ?q (consumer_cursor sample_consumer))) = Some 7"
    by code_simp+
  then show ?thesis
    using getNextMessage_dispatches [OF sample_reachable [of Plain_Queue True, unfolded sample_queue_def],
        of sample_consumer 0 "\<lambda>m. getMessageSize m = 7" "\<lambda>m. True"]
    by (auto simp: sample_queue_def dispatched_def)
qed

section \<open>Where the code falls short\<close>

text \<open>
  The check subtracts in unsigned arithmetic. A limit on the number of messages alone refuses a
  message at exactly the limit and at no other depth: once recovery, which does not check, has taken
  a queue past its limit, nothing holds it back.
\<close>

theorem count_limit_only_at_limit:
  assumes "hasCount (maxDepth (q_settings q))" "\<not> hasSize (maxDepth (q_settings q))" "hasCount (q_current q)"
  shows "exceeds q (depth_of m) \<longleftrightarrow> getCount (q_current q) = getCount (maxDepth (q_settings q))"
proof -
  have "x < 1 \<longleftrightarrow> x = 0" for x :: "32 word"
    by (simp add: word_less_nat_alt unat_eq_zero)
  then show ?thesis
    using assms by (auto simp: exceeds_def QueueDepth_bool_def QueueDepth_less_def QueueDepth_minus_def
        Optional_subtract_def depth_of_def depth_defs)
qed

text \<open>
  Each message that its filter passes over makes \<open>getNextMessage\<close> populate the set of listeners to
  notify, which forgets the consumer that the previous one put there: of two waiting consumers only
  the second is notified, and the first no longer waits for a notification either.
\<close>

theorem getNextMessage_loses_wakeup:
  "case getNextMessage (sample_content 0) 0 (\<lambda>m. False) (\<lambda>m. True) sample_consumer
      (sample_pushed (sample_message 7) (sample_pushed (sample_message 7) (Queue_init Plain_Queue (QueueSettings_init False False) False))
        \<lparr> q_listeners := addListener ''b'' True (addListener ''a'' True QueueListeners_init) \<rparr>) of
    Inr (out, c, q) \<Rightarrow> filter (\<lambda>ev. case ev of Notify x \<Rightarrow> True | _ \<Rightarrow> False) (q_events q) = [Notify ''b''] \<and>
      listen_consumers (q_listeners q) = [''c'']
  | Inl err \<Rightarrow> False"
  by code_simp

text \<open>What removing messages leaves alone of the use of the queue.\<close>

lemma log_events_more [simp]:
  "q_store (log_events es q) = q_store q" "q_uses (log_events es q) = q_uses q" "q_users (log_events es q) = q_users q"
  "q_registered (log_events es q) = q_registered q" "q_class (log_events es q) = q_class q"
  by (simp_all add: log_events_def)

lemma remove_loop_use:
  assumes "remove_loop fuel e maxCount p auto maxTests c n tests removed el q = Inr (ms, el', q')"
  shows "q_store q' = q_store q \<and> q_uses q' = q_uses q"
  using assms
proof (induction fuel arbitrary: c n tests removed el q)
  case (Suc fuel)
  obtain mo c' where nx: "MessageDeque_next e (q_messages q) c = (mo, c')"
    by fastforce
  show ?case
  proof (cases mo)
    case (Some m)
    show ?thesis
      using Suc.prems nx Some by (auto simp: Let_def split_beta throw_if_eq_Inr split: if_splits dest!: Suc.IH)
  qed (use Suc.prems nx in auto)
qed simp

lemma remove_messages_use:
  assumes "remove_messages e maxCount p reroute_alternate t auto maxTests q = Inr (ms, el, q')"
  shows "q_store q' = q_store q \<and> q_uses q' = q_uses q"
proof -
  have "q_store (fold (\<lambda>m q. dequeueFromStore m (reroute_alternate m q)) xs q) = q_store q \<and>
      q_uses (fold (\<lambda>m q. dequeueFromStore m (reroute_alternate m q)) xs q) = q_uses q" for xs and q :: "'a Queue"
    by (induction xs arbitrary: q) (simp_all add: dequeueFromStore_def reroute_alternate_def)
  moreover obtain q1 where "remove_loop (Suc (length (messages (q_messages q)))) e maxCount p auto maxTests
      (QueueCursor_init t) 0 0 [] False q = Inr (ms, el, q1)" "q' = fold (\<lambda>m q. dequeueFromStore m (reroute_alternate m q)) ms q1"
    using assms by (auto simp: remove_messages_def res_bind_eq_Inr)
  ultimately show ?thesis
    using remove_loop_use by metis
qed

lemma destroyed_in_use:
  assumes "queue_inv e rs q" "q_store q" "q_uses q \<noteq> 0"
  shows "Queue_destroyed e q = Inl Deadlock"
proof -
  have "queue_inv e rs (log_events [Unbound] q)"
    using assms(1) by simp
  from remove_messages_correct [OF this keeps_simps(1), where maxCount = 0 and p = "\<lambda>m. True" and maxTests = 0
      and t = REPLICATOR and auto = False]
  obtain ms el q1 where q1: "remove_messages e 0 (\<lambda>m. True) reroute_alternate REPLICATOR False 0 (log_events [Unbound] q) = Inr (ms, el, q1)"
    by blast
  have "q_store q1" "q_uses q1 \<noteq> 0"
    using remove_messages_use [OF q1] assms(2,3) by simp_all
  then show ?thesis
    using q1 by (simp add: Queue_destroyed_def UsageBarrier_destroy_def)
qed

text \<open>
  Deleting a queue that has a store waits until nothing uses the queue. A queue that deletes itself
  at its limit does so within \<open>enqueue\<close>, which uses the queue: if it is durable, it waits for itself.
\<close>

theorem self_destruct_durable_deadlocks:
  assumes "queue_inv e rs q" "q_class q = SelfDestruct_Queue" "q_store q" "\<not> q_deleted q" "exceeds q (depth_of m)"
  shows "fst (Queue_enqueue e store_fails m q) = Inl Deadlock"
proof -
  have "Queue_destroyed e (q \<lparr> q_uses := q_uses q + 1, q_registered := False \<rparr>) = Inl Deadlock"
    using assms by (intro destroyed_in_use [of e rs]) simp_all
  then show ?thesis
    using assms by (simp add: Queue_enqueue_def UsageBarrier_acquire_def checkDepth_def SelfDestructQueue_checkDepth_def
        exceeds_def)
qed

text \<open>
  The same happens in \<open>dequeue\<close>: the object that deletes the queue goes out of scope before the one
  that marks it as used, so the last message taken from a durable queue that is deleted when empty
  leaves the caller waiting for itself.
\<close>

theorem autodelete_durable_deadlocks:
  assumes inv: "queue_inv e [] q" and find: "MessageDeque_find e (q_messages q) c = Some m" and last: "contents e q = [m]"
    and "q_store q" "\<not> q_deleted q" "q_registered q" and auto: "autodelete (q_settings q)" "lifetime (q_settings q) = DELETE_IF_EMPTY"
      "autoDeleteDelay (q_settings q) = 0" and "\<not> users_controller (q_users q)"
  shows "Queue_dequeue e False c q = Inl Deadlock"
proof -
  let ?q = "q \<lparr> q_uses := q_uses q + 1 \<rparr>"
  let ?d = "log_events [ObserveDequeue m] (dropped e c m ?q)"
  have d: "queue_inv e [] ?d" "contents e ?d = []"
    using dropped_inv [of e "[]" ?q c m] find_valid [OF find] find_contents [OF inv find_valid [OF find], of m] find inv last
    by simp_all
  then have empty: "getCount (q_current ?d) = 0"
    by (simp add: queue_inv_def depth_ok_def)
  have el: "fst (observeDequeue True m False ?q)"
    using empty auto assms(10)
    by (simp add: observeDequeue_def Let_def Queue_isEmpty_def checkAutoDelete_def dropped_def)
  define es where "es = (if isPersistent m then [StoreDequeue m] else [])"
  have dead: "Queue_destroyed e ((log_events es ?d) \<lparr> q_registered := False \<rparr>) = Inl Deadlock"
    using d(1) assms(4) by (intro destroyed_in_use [of e "[]"]) (simp, simp_all add: dropped_def)
  have fields: "q_registered (log_events es ?d)" "autodelete (q_settings (log_events es ?d))"
    "lifetime (q_settings (log_events es ?d)) = DELETE_IF_EMPTY" "autoDeleteDelay (q_settings (log_events es ?d)) = 0"
    "\<not> users_controller (q_users (log_events es ?d))" "\<not> q_deleted (log_events es ?d)" "q_store ?d"
    using assms by (simp_all add: dropped_def)
  then have "end_autodelete e True (log_events es ?d) = Inl Deadlock"
    using dead empty by (simp add: end_autodelete_def scheduleAutoDelete_def tryAutoDelete_def canAutoDelete_def
        checkAutoDelete_def Queue_isEmpty_def)
  moreover have "Queue_dequeue e False c q = res_bind (end_autodelete e True (log_events es ?d)) (\<lambda>q. Inr (UsageBarrier_release q))"
    using assms(4,5) auto(1) find el
    by (auto simp: Queue_dequeue_def UsageBarrier_acquire_def Let_def split_beta delete_observed es_def dropped_def log_events_commute
        log_events_def [of "[]"] simp del: snd_observeDequeue)
  ultimately show ?thesis
    by simp
qed

end
