(* ===== verification/Delivery_Record.thy ===== *)
theory Delivery_Record
  imports Queue_Limits Sequence_Set
begin

text \<open>
  Records of deliveries that wait for an acknowledgement (\<open>broker/DeliveryRecord.h\<close>,
  \<open>broker/DeliveryRecord.cpp\<close>), with what they do to the queue of the message, and the walk over the
  records of a session that an acknowledgement in a transaction covers (\<open>TxAccept::each\<close> in
  \<open>broker/TxAccept.cpp\<close>). Queues are known by their names.
\<close>

section \<open>Records\<close>

record DeliveryRecord =
  dr_msg :: QueueCursor
  dr_queue :: string
  dr_tag :: string
  dr_id :: SequenceNumber
  dr_acquired :: bool
  dr_acceptExpected :: bool
  dr_cancelled :: bool
  dr_completed :: bool
  dr_ended :: bool
  dr_windowing :: bool
  dr_credit :: "32 word"
  dr_msgId :: SequenceNumber
  dr_replicationId :: SequenceNumber

type_synonym 'p queues = "string \<Rightarrow> 'p Queue"

definition DeliveryRecord_init :: "QueueCursor \<Rightarrow> SequenceNumber \<Rightarrow> SequenceNumber \<Rightarrow> string \<Rightarrow> string \<Rightarrow>
    bool \<Rightarrow> bool \<Rightarrow> bool \<Rightarrow> 32 word \<Rightarrow> DeliveryRecord" where
  "DeliveryRecord_init msg msgId replicationId queue tag acquired accepted windowing credit =
    \<lparr> dr_msg = msg, dr_queue = queue, dr_tag = tag, dr_id = 0, dr_acquired = acquired,
      dr_acceptExpected = (\<not> accepted), dr_cancelled = False, dr_completed = False,
      dr_ended = (accepted \<and> acquired), dr_windowing = windowing, dr_credit = credit, dr_msgId = msgId,
      dr_replicationId = replicationId \<rparr>"

definition isRedundant :: "DeliveryRecord \<Rightarrow> bool" where
  "isRedundant r \<longleftrightarrow> dr_ended r \<and> (\<not> dr_windowing r \<or> dr_completed r \<or> dr_cancelled r)"

definition setEnded :: "DeliveryRecord \<Rightarrow> bool \<times> DeliveryRecord" where
  "setEnded r = (let r = r \<lparr> dr_ended := True \<rparr> in (isRedundant r, r))"

definition coveredBy :: "SequenceSet \<Rightarrow> DeliveryRecord \<Rightarrow> bool" where
  "coveredBy s r = SequenceSet_contains s (dr_id r)"

definition at_queue :: "('p Queue \<Rightarrow> 'p Queue result) \<Rightarrow> DeliveryRecord \<Rightarrow> 'p queues \<Rightarrow> 'p queues result" where
  "at_queue f r qs = res_bind (f (qs (dr_queue r))) (\<lambda>q. Inr (qs(dr_queue r := q)))"

definition DeliveryRecord_requeue :: "'p MessageContent \<Rightarrow> DeliveryRecord \<Rightarrow> 'p queues \<Rightarrow> 'p queues" where
  "DeliveryRecord_requeue e r qs =
    (if dr_acquired r \<and> \<not> dr_ended r
     then qs(dr_queue r := Queue_release e (dr_msg r) True (qs (dr_queue r))) else qs)"

definition DeliveryRecord_release ::
  "'p MessageContent \<Rightarrow> bool \<Rightarrow> DeliveryRecord \<Rightarrow> 'p queues \<Rightarrow> DeliveryRecord \<times> 'p queues" where
  "DeliveryRecord_release e setRedelivered r qs =
    (if dr_acquired r \<and> \<not> dr_ended r
     then (snd (setEnded (r \<lparr> dr_acquired := False \<rparr>)),
           qs(dr_queue r := Queue_release e (dr_msg r) setRedelivered (qs (dr_queue r))))
     else (r, qs))"

definition DeliveryRecord_complete :: "DeliveryRecord \<Rightarrow> DeliveryRecord" where
  "DeliveryRecord_complete r = r \<lparr> dr_completed := True \<rparr>"

definition DeliveryRecord_accept ::
  "'p MessageContent \<Rightarrow> bool \<Rightarrow> DeliveryRecord \<Rightarrow> 'p queues \<Rightarrow> (bool \<times> DeliveryRecord \<times> 'p queues) result" where
  "DeliveryRecord_accept e ctxt r qs =
    (if \<not> dr_ended r then
       res_bind (if dr_acquired r then at_queue (Queue_dequeue e ctxt (dr_msg r)) r qs else Inr qs)
         (\<lambda>qs. let (b, r) = setEnded r in Inr (b, r, qs))
     else Inr (isRedundant r, r, qs))"

definition DeliveryRecord_dequeue ::
  "'p MessageContent \<Rightarrow> bool \<Rightarrow> DeliveryRecord \<Rightarrow> 'p queues \<Rightarrow> 'p queues result" where
  "DeliveryRecord_dequeue e ctxt r qs =
    (if dr_acquired r \<and> \<not> dr_ended r then at_queue (Queue_dequeue e ctxt (dr_msg r)) r qs else Inr qs)"

definition DeliveryRecord_committed :: "'p MessageContent \<Rightarrow> DeliveryRecord \<Rightarrow> 'p queues \<Rightarrow> 'p queues result" where
  "DeliveryRecord_committed e r qs =
    (if dr_acquired r \<and> \<not> dr_ended r then at_queue (Queue_dequeueCommitted e (dr_msg r)) r qs else Inr qs)"

definition DeliveryRecord_reject ::
  "'p MessageContent \<Rightarrow> DeliveryRecord \<Rightarrow> 'p queues \<Rightarrow> (DeliveryRecord \<times> 'p queues) result" where
  "DeliveryRecord_reject e r qs =
    (if dr_acquired r \<and> \<not> dr_ended r then
       res_bind (at_queue (Queue_reject e (dr_msg r)) r qs) (\<lambda>qs. Inr (snd (setEnded r), qs))
     else Inr (r, qs))"

text \<open>\<open>acquire\<close>, with the ids that were acquired.\<close>

definition DeliveryRecord_acquire :: "'p MessageContent \<Rightarrow> DeliveryRecord \<Rightarrow> SequenceNumber list \<Rightarrow> 'p queues \<Rightarrow>
    (DeliveryRecord \<times> SequenceNumber list \<times> 'p queues) result" where
  "DeliveryRecord_acquire e r results qs =
    (case Queue_acquire e (dr_msg r) (qs (dr_queue r)) of
       (False, q) \<Rightarrow> Inr (r, results, qs(dr_queue r := q))
     | (True, q) \<Rightarrow>
         let qs = qs(dr_queue r := q); r = r \<lparr> dr_acquired := True \<rparr>; results = results @ [dr_id r] in
         if \<not> dr_acceptExpected r \<and> \<not> dr_ended r then
           res_bind (at_queue (Queue_dequeue e False (dr_msg r)) r qs) (\<lambda>qs. Inr (snd (setEnded r), results, qs))
         else Inr (r, results, qs))"

definition DeliveryRecord_cancel :: "string \<Rightarrow> DeliveryRecord \<Rightarrow> DeliveryRecord" where
  "DeliveryRecord_cancel tag r = (if dr_tag r = tag then r \<lparr> dr_cancelled := True \<rparr> else r)"

text \<open>
  \<open>findRange\<close>: the records are in the order of their ids, so that the binary search is the number of
  records before.
\<close>

definition lower_record :: "DeliveryRecord list \<Rightarrow> SequenceNumber \<Rightarrow> nat" where
  "lower_record rs i = length (takeWhile (\<lambda>r. SequenceNumber_less (dr_id r) i) rs)"

definition findRange :: "DeliveryRecord list \<Rightarrow> SequenceNumber \<Rightarrow> SequenceNumber \<Rightarrow> nat \<times> nat" where
  "findRange rs first_id last_id =
    (let start = lower_record rs first_id; stop = lower_record rs last_id
     in (start, if stop < length rs \<and> dr_id (rs ! stop) = last_id then stop + 1 else stop))"

text \<open>Erasing the records of a range that satisfy a predicate.\<close>

definition erase_range :: "(DeliveryRecord \<Rightarrow> bool) \<Rightarrow> nat \<times> nat \<Rightarrow> DeliveryRecord list \<Rightarrow> DeliveryRecord list" where
  "erase_range p rg rs =
    take (fst rg) rs @ filter (\<lambda>r. \<not> p r) (drop (fst rg) (take (snd rg) rs)) @ drop (snd rg) rs"

section \<open>The walk of an acknowledgement\<close>

text \<open>
  \<open>TxAccept::each\<close>: the records and the set are walked together. The function may change the record
  and a state, or throw. The fuel bounds the turns of the loop.
\<close>

fun each_loop :: "nat \<Rightarrow> (DeliveryRecord \<Rightarrow> 's \<Rightarrow> (DeliveryRecord \<times> 's) result) \<Rightarrow> DeliveryRecord list \<Rightarrow>
    SequenceNumber iterator \<Rightarrow> 's \<Rightarrow> unit result \<times> DeliveryRecord list \<times> 's" where
  "each_loop 0 f rs seq s = (Inl OutOfFuel, rs, s)"
| "each_loop (Suc fuel) f [] seq s = (Inr (), [], s)"
| "each_loop (Suc fuel) f (r # rs) None s = (Inr (), r # rs, s)"
| "each_loop (Suc fuel) f (r # rs) (Some (ranges, v)) s =
    (let next = iterator_increment SequenceNumber_less SequenceNumber_incr (Some (ranges, v)) in
     if dr_id r = v then
       (case f r s of
          Inl e \<Rightarrow> (Inl e, r # rs, s)
        | Inr (r, s) \<Rightarrow> (case each_loop fuel f rs next s of (res, rs, s) \<Rightarrow> (res, r # rs, s)))
     else if SequenceNumber_less (dr_id r) v then
       (case each_loop fuel f rs (Some (ranges, v)) s of (res, rs, s) \<Rightarrow> (res, r # rs, s))
     else if SequenceNumber_less v (dr_id r) then each_loop fuel f (r # rs) next s
     else each_loop fuel f (r # rs) (Some (ranges, v)) s)"

definition TxAccept_each :: "(DeliveryRecord \<Rightarrow> 's \<Rightarrow> (DeliveryRecord \<times> 's) result) \<Rightarrow> SequenceSet \<Rightarrow>
    DeliveryRecord list \<Rightarrow> 's \<Rightarrow> unit result \<times> DeliveryRecord list \<times> 's" where
  "TxAccept_each f acked unacked s =
    each_loop (Suc (length unacked + unat (RangeSet_size acked))) f unacked (RangeSet_iterator_begin acked) s"

text \<open>The plain way to say it: the function is applied to the records that the set covers.\<close>

fun each_covered :: "(DeliveryRecord \<Rightarrow> 's \<Rightarrow> (DeliveryRecord \<times> 's) result) \<Rightarrow> (DeliveryRecord \<Rightarrow> bool) \<Rightarrow>
    DeliveryRecord list \<Rightarrow> 's \<Rightarrow> unit result \<times> DeliveryRecord list \<times> 's" where
  "each_covered f p [] s = (Inr (), [], s)"
| "each_covered f p (r # rs) s =
    (if p r then
       (case f r s of
          Inl e \<Rightarrow> (Inl e, r # rs, s)
        | Inr (r, s) \<Rightarrow> (case each_covered f p rs s of (res, rs, s) \<Rightarrow> (res, r # rs, s)))
     else (case each_covered f p rs s of (res, rs, s) \<Rightarrow> (res, r # rs, s)))"

text \<open>The records of a session, in the order of delivery: their ids increase within a window.\<close>

definition records_wf :: "SequenceNumber \<Rightarrow> DeliveryRecord list \<Rightarrow> bool" where
  "records_wf base rs \<longleftrightarrow> sorted_wrt SequenceNumber_less (map dr_id rs) \<and> (\<forall>r\<in>set rs. in_window base (dr_id r))"

lemma each_covered_none: "\<forall>r\<in>set rs. \<not> p r \<Longrightarrow> each_covered f p rs s = (Inr (), rs, s)"
  by (induction rs) simp_all

lemma each_covered_cong: "(\<And>r. r \<in> set rs \<Longrightarrow> p r = p' r) \<Longrightarrow> each_covered f p rs s = each_covered f p' rs s"
  by (induction rs arbitrary: s) (auto split: sum.splits prod.splits)

lemma in_window_less:
  assumes "in_window base a" "in_window base b"
  shows "SequenceNumber_less a b \<longleftrightarrow> window_pos base a < window_pos base b" "a = b \<longleftrightarrow> window_pos base a = window_pos base b"
  using SequenceNumber_less_window [OF assms] word_unat_eq_iff [of "a - base" "b - base"] by (auto simp: window_pos_def)

lemma each_loop_covered:
  assumes "iterator_values SequenceNumber_less SequenceNumber_incr k it = (vs, None)" "length rs + length vs < fuel"
    "records_wf base rs" "sorted_wrt SequenceNumber_less vs" "\<forall>v\<in>set vs. in_window base v"
  shows "each_loop fuel f rs it s = each_covered f (\<lambda>r. dr_id r \<in> set vs) rs s"
  using assms
proof (induction fuel arbitrary: k it vs rs s)
  case (Suc fuel)
  show ?case
  proof (cases rs)
    case (Cons r rs')
    show ?thesis
    proof (cases it)
      case None
      then have "vs = []"
        using Suc.prems(1) by (cases k) simp_all
      then show ?thesis
        using None Cons each_covered_none [of rs "\<lambda>r. dr_id r \<in> set vs" f s] by simp
    next
      case (Some p)
      obtain ranges v where p: "p = (ranges, v)"
        by (cases p)
      then obtain k' vs' where vs: "k = Suc k'" "vs = v # vs'"
        and it': "iterator_values SequenceNumber_less SequenceNumber_incr k'
          (iterator_increment SequenceNumber_less SequenceNumber_incr (Some (ranges, v))) = (vs', None)"
        using Suc.prems(1) Some by (cases k) (auto split: prod.splits)
      have win: "in_window base (dr_id r)" "in_window base v"
        using Suc.prems(3,5) Cons vs by (simp_all add: records_wf_def)
      have wf': "records_wf base rs'" "sorted_wrt SequenceNumber_less vs'" "\<forall>v\<in>set vs'. in_window base v"
        using Suc.prems(3-5) Cons vs by (simp_all add: records_wf_def)
      consider (eq) "dr_id r = v" | (less) "dr_id r \<noteq> v" "SequenceNumber_less (dr_id r) v"
        | (greater) "dr_id r \<noteq> v" "\<not> SequenceNumber_less (dr_id r) v" "SequenceNumber_less v (dr_id r)"
        using in_window_less [OF win] in_window_less [OF win(2,1)] by fastforce
      then show ?thesis
      proof cases
        case eq
        have "dr_id x \<noteq> v" if "x \<in> set rs'" for x
          using that Suc.prems(3) Cons eq in_window_less(1) [of base v v] win(2) by (auto simp: records_wf_def)
        then have "each_covered f (\<lambda>r. dr_id r \<in> set vs) rs' t = each_covered f (\<lambda>r. dr_id r \<in> set vs') rs' t" for t
          using vs by (intro each_covered_cong) auto
        moreover have "each_loop fuel f rs' (iterator_increment SequenceNumber_less SequenceNumber_incr (Some (ranges, v))) t =
            each_covered f (\<lambda>r. dr_id r \<in> set vs') rs' t" for t
          using Suc.IH [OF it' _ wf'] Suc.prems(2) Cons vs by simp
        ultimately show ?thesis
          using Cons Some p eq vs by (simp add: Let_def split: sum.splits prod.splits)
      next
        case less
        have "dr_id r \<notin> set vs"
          using less Suc.prems(4) vs in_window_less(1) [OF win] Suc.prems(5) in_window_less(1) [of base v]
          by (auto dest: bspec)
        moreover have "each_loop fuel f rs' (Some (ranges, v)) s = each_covered f (\<lambda>r. dr_id r \<in> set vs) rs' s"
          using Suc.IH [of k "Some (ranges, v)" vs rs'] Suc.prems Some p Cons wf'(1) by simp
        ultimately show ?thesis
          using Cons Some p less by (simp add: Let_def)
      next
        case greater
        have "dr_id x \<noteq> v" if "x \<in> set rs" for x
        proof (cases "x = r")
          case False
          then have "SequenceNumber_less (dr_id r) (dr_id x)" "in_window base (dr_id x)"
            using that Suc.prems(3) Cons by (auto simp: records_wf_def)
          then show ?thesis
            using greater in_window_less(1) [OF win(1)] in_window_less(1) [OF win(2,1)] in_window_less(1) [OF win] by auto
        qed (use greater in simp)
        then have "each_covered f (\<lambda>r. dr_id r \<in> set vs) rs s = each_covered f (\<lambda>r. dr_id r \<in> set vs') rs s"
          using vs by (intro each_covered_cong) auto
        moreover have "each_loop fuel f rs (iterator_increment SequenceNumber_less SequenceNumber_incr (Some (ranges, v))) s =
            each_covered f (\<lambda>r. dr_id r \<in> set vs') rs s"
          using Suc.IH [OF it' _ Suc.prems(3) wf'(2,3)] Suc.prems(2) vs by simp
        ultimately show ?thesis
          using Cons Some p greater by (simp add: Let_def)
      qed
    qed
  qed simp
qed simp

lemma coveredBy_iff:
  assumes "seq_set_wf base s" "in_window base (dr_id r)"
  shows "coveredBy s r \<longleftrightarrow> dr_id r \<in> seq_elements base s"
  using RangeSet_contains_iff [OF assms] by (simp add: coveredBy_def SequenceSet_contains_def)

lemma TxAccept_each_covered:
  assumes "seq_set_wf base acked" "records_wf base unacked"
  shows "TxAccept_each f acked unacked s = each_covered f (coveredBy acked) unacked s"
proof -
  obtain vs where vs: "iterator_values SequenceNumber_less SequenceNumber_incr (card (seq_elements base acked))
      (RangeSet_iterator_begin acked) = (vs, None)" "set vs = seq_elements base acked" "distinct vs" "sorted_wrt SequenceNumber_less vs"
    using RangeSet_iterates [OF assms(1)] by blast
  have len: "length unacked + length vs < Suc (length unacked + unat (RangeSet_size acked))"
    using RangeSet_size_card [OF assms(1)] vs(2,3) distinct_card [of vs] by simp
  have "\<forall>v\<in>set vs. in_window base v"
    unfolding vs(2) by (simp add: elements_def)
  then have "TxAccept_each f acked unacked s = each_covered f (\<lambda>r. dr_id r \<in> set vs) unacked s"
    unfolding TxAccept_each_def by (intro each_loop_covered [OF vs(1) len assms(2) vs(4)])
  also have "\<dots> = each_covered f (coveredBy acked) unacked s"
    using assms by (intro each_covered_cong) (simp add: vs(2) coveredBy_iff records_wf_def)
  finally show ?thesis .
qed

text \<open>
  The merge of the records of a session with an acknowledged set always ends and finds exactly
  the records that the set covers: it applies the function to them, in order, and stops at the first
  exception, for records whose ids increase and a set, both within a window of half the sequence
  numbers.
\<close>

theorem TxAccept_each_covers:
  assumes "seq_set_wf base acked" "records_wf base unacked"
  shows "TxAccept_each f acked unacked s = each_covered f (coveredBy acked) unacked s"
  using assms by (rule TxAccept_each_covered)

theorem TxAccept_each_covers_witness:
  "TxAccept_each (\<lambda>r n. Inr (snd (setEnded r), n + 1)) [\<lparr>range_begin = 5, range_end = 7\<rparr>]
     [(DeliveryRecord_init (QueueCursor_init CONSUMER) 0 0 ''q'' ''t'' True False False 0) \<lparr> dr_id := 4 \<rparr>,
      (DeliveryRecord_init (QueueCursor_init CONSUMER) 0 0 ''q'' ''t'' True False False 0) \<lparr> dr_id := 6 \<rparr>] (0::nat) =
   each_covered (\<lambda>r n. Inr (snd (setEnded r), n + 1)) (coveredBy [\<lparr>range_begin = 5, range_end = 7\<rparr>])
     [(DeliveryRecord_init (QueueCursor_init CONSUMER) 0 0 ''q'' ''t'' True False False 0) \<lparr> dr_id := 4 \<rparr>,
      (DeliveryRecord_init (QueueCursor_init CONSUMER) 0 0 ''q'' ''t'' True False False 0) \<lparr> dr_id := 6 \<rparr>] 0"
  by (rule TxAccept_each_covers [where base = 0])
    (simp_all add: seq_set_wf_def RangeSet_inv_def Range_in_def Range_less_def in_window_def window_pos_def
      SequenceNumber_less_def records_wf_def)

text \<open>
  \<open>findRange\<close> delimits exactly the records whose ids lie between the two, both included.
\<close>

lemma takeWhile_filter:
  assumes "sorted_wrt (\<lambda>x y. q y \<longrightarrow> q x) xs"
  shows "takeWhile q xs = filter q xs" "dropWhile q xs = filter (\<lambda>x. \<not> q x) xs"
  using assms by (induction xs) (auto simp: filter_empty_conv filter_id_conv)

theorem findRange_exact:
  assumes "records_wf base rs" "in_window base a" "in_window base b" "findRange rs a b = (i, j)" "\<not> SequenceNumber_less b a"
  shows "drop i (take j rs) = filter (\<lambda>r. \<not> SequenceNumber_less (dr_id r) a \<and> \<not> SequenceNumber_less b (dr_id r)) rs"
proof -
  let ?w = "\<lambda>r. window_pos base (dr_id r)"
  have win: "SequenceNumber_less (dr_id r) a \<longleftrightarrow> ?w r < window_pos base a"
    "SequenceNumber_less (dr_id r) b \<longleftrightarrow> ?w r < window_pos base b" "SequenceNumber_less b (dr_id r) \<longleftrightarrow> window_pos base b < ?w r"
    "dr_id r = b \<longleftrightarrow> ?w r = window_pos base b" if "r \<in> set rs" for r
    using that assms(1) in_window_less [OF _ assms(2)] in_window_less [OF _ assms(3)] in_window_less [OF assms(3)]
    by (auto simp: records_wf_def)
  have ab: "window_pos base a \<le> window_pos base b"
    using assms(5) in_window_less(1) [OF assms(3,2)] by simp
  have sorted: "sorted_wrt (\<lambda>x y. ?w x < ?w y) rs"
  proof (rule sorted_wrt_mono_rel)
    show "sorted_wrt (\<lambda>x y. SequenceNumber_less (dr_id x) (dr_id y)) rs"
      using assms(1) by (simp add: records_wf_def sorted_wrt_map)
    show "?w x < ?w y" if "x \<in> set rs" "y \<in> set rs" "SequenceNumber_less (dr_id x) (dr_id y)" for x y
      using that assms(1) in_window_less(1) [of base "dr_id x" "dr_id y"] by (simp add: records_wf_def)
  qed
  have low: "takeWhile (\<lambda>r. SequenceNumber_less (dr_id r) c) rs = filter (\<lambda>r. ?w r < window_pos base c) rs"
    "dropWhile (\<lambda>r. SequenceNumber_less (dr_id r) c) rs = filter (\<lambda>r. \<not> ?w r < window_pos base c) rs"
    if "c = a \<or> c = b" for c
  proof -
    have "sorted_wrt (\<lambda>x y. ?w y < window_pos base c \<longrightarrow> ?w x < window_pos base c) rs"
      using sorted by (rule sorted_wrt_mono_rel [rotated]) auto
    note tw = takeWhile_filter [OF this]
    have "takeWhile (\<lambda>r. SequenceNumber_less (dr_id r) c) rs = takeWhile (\<lambda>r. ?w r < window_pos base c) rs"
      "dropWhile (\<lambda>r. SequenceNumber_less (dr_id r) c) rs = dropWhile (\<lambda>r. ?w r < window_pos base c) rs"
      using that win by (auto intro: takeWhile_cong dropWhile_cong)
    then show "takeWhile (\<lambda>r. SequenceNumber_less (dr_id r) c) rs = filter (\<lambda>r. ?w r < window_pos base c) rs"
      "dropWhile (\<lambda>r. SequenceNumber_less (dr_id r) c) rs = filter (\<lambda>r. \<not> ?w r < window_pos base c) rs"
      using tw by simp_all
  qed
  let ?T = "\<lambda>c. takeWhile (\<lambda>r. SequenceNumber_less (dr_id r) c) rs"
  define k where "k = length (?T b)"
  have upper: "take j rs = filter (\<lambda>r. ?w r \<le> window_pos base b) rs"
  proof (cases "dropWhile (\<lambda>r. SequenceNumber_less (dr_id r) b) rs")
    case Nil
    then have all: "\<forall>r\<in>set rs. ?w r < window_pos base b"
      using low(2) [of b] by (simp add: filter_empty_conv)
    then have "length (?T b) = length rs"
      unfolding low(1) [of b, simplified] by simp
    then have "j = length rs"
      using assms(4) by (simp add: findRange_def lower_record_def)
    with all show ?thesis
      by (auto intro!: filter_True [symmetric] less_imp_le)
  next
    case (Cons x xs)
    define us where "us = ?T b"
    have us: "us = ?T b" "length us = k"
      by (simp_all add: us_def k_def)
    have rs: "rs = us @ x # xs"
      using Cons takeWhile_dropWhile_id [of "\<lambda>r. SequenceNumber_less (dr_id r) b" rs] us_def by simp
    have after: "\<forall>y\<in>set xs. ?w x < ?w y"
      using sorted rs by (simp add: sorted_wrt_append)
    have x: "x \<in> set rs" "\<not> ?w x < window_pos base b"
      using low(2) [of b] Cons rs by (simp, metis filter_eq_Cons_iff)
    have before: "\<forall>y\<in>set us. ?w y < window_pos base b"
      unfolding us(1) low(1) [of b, simplified] by simp
    have "lower_record rs b = k"
      by (simp add: lower_record_def k_def)
    moreover have "rs ! k = x" "k < length rs"
      using us(2) by (simp_all add: rs nth_append)
    ultimately have j: "j = (if dr_id x = b then k + 1 else k)"
      using assms(4) by (auto simp: findRange_def Let_def)
    have "take j rs = us @ (if dr_id x = b then [x] else [])"
      using j rs us(2) by simp
    also have "\<dots> = filter (\<lambda>r. ?w r \<le> window_pos base b) us @ filter (\<lambda>r. ?w r \<le> window_pos base b) (x # xs)"
    proof -
      have "filter (\<lambda>r. ?w r \<le> window_pos base b) us = us" "filter (\<lambda>r. ?w r \<le> window_pos base b) xs = []"
        using before after x(2) by (auto intro!: filter_True simp: filter_empty_conv)
      then show ?thesis
        using x win(4) [OF x(1)] by auto
    qed
    finally show ?thesis
      using rs by simp
  qed
  have "i = length (?T a)"
    using assms(4) by (simp add: findRange_def lower_record_def Let_def)
  moreover have "take j rs = ?T a @ filter (\<lambda>r. \<not> ?w r < window_pos base a \<and> ?w r \<le> window_pos base b) rs"
  proof -
    have "rs = ?T a @ filter (\<lambda>r. \<not> ?w r < window_pos base a) rs"
      using low(2) [of a] takeWhile_dropWhile_id [of "\<lambda>r. SequenceNumber_less (dr_id r) a" rs] by simp
    then have "filter (\<lambda>r. ?w r \<le> window_pos base b) rs =
        filter (\<lambda>r. ?w r \<le> window_pos base b) (?T a) @ filter (\<lambda>r. ?w r \<le> window_pos base b) (filter (\<lambda>r. \<not> ?w r < window_pos base a) rs)"
      by (metis filter_append)
    also have "filter (\<lambda>r. ?w r \<le> window_pos base b) (?T a) = ?T a"
      unfolding low(1) [of a, simplified] by (rule filter_True) (use ab in auto)
    finally show ?thesis
      unfolding upper by (simp add: conj_commute)
  qed
  ultimately show ?thesis
    using win by (auto intro: filter_cong simp: not_less)
qed

end
