(* ===== verification/Tx_Buffer.thy ===== *)
theory Tx_Buffer
  imports Prelude "HOL-Library.Multiset"
begin

text \<open>
  Transactions of the broker. The operations of a transaction implement an interface
  (\<open>broker/TxOp.h\<close>): they are prepared, then committed or rolled back. A buffer
  (\<open>broker/TxBuffer.cpp\<close>) collects them for a local transaction. This theory has the buffer over
  any implementation of that interface, of the observer and of the store, and the contract under
  which a local transaction is atomic.
\<close>

section \<open>The interfaces that a transaction uses\<close>

text \<open>
  The virtual methods of \<open>TxOp\<close>, \<open>TransactionObserver\<close> and \<open>TransactionalStore\<close>, as functions on a
  state \<open>'w\<close> that stands for what they change. An operation may change itself when it is prepared.
  No method of \<open>TxOp\<close> throws; calls on the observer and the store are taken to return.
\<close>

record ('op, 'ctx, 'w) tx_methods =
  op_prepare :: "'ctx \<Rightarrow> 'op \<Rightarrow> 'w \<Rightarrow> bool \<times> 'op \<times> 'w"
  op_commit :: "'op \<Rightarrow> 'w \<Rightarrow> 'w"
  op_rollback :: "'op \<Rightarrow> 'w \<Rightarrow> 'w"
  op_callObserver :: "'op \<Rightarrow> 'w \<Rightarrow> 'w"
  observer_prepare :: "'w \<Rightarrow> bool \<times> 'w"
  observer_commit :: "'w \<Rightarrow> 'w"
  observer_rollback :: "'w \<Rightarrow> 'w"
  store_begin :: "'w \<Rightarrow> 'ctx \<times> 'w"
  store_begin_xid :: "string \<Rightarrow> 'w \<Rightarrow> 'ctx \<times> 'w"
  store_prepare :: "'ctx \<Rightarrow> 'w \<Rightarrow> 'w"
  store_commit :: "'ctx \<Rightarrow> 'w \<Rightarrow> 'w"
  store_abort :: "'ctx \<Rightarrow> 'w \<Rightarrow> 'w"

section \<open>The buffer\<close>

record ('op, 'ctx) TxBuffer =
  tx_ops :: "'op list"
  txContext :: "'ctx option"
  tx_error :: string

definition TxBuffer_init :: "('op, 'ctx) TxBuffer" where
  "TxBuffer_init = \<lparr> tx_ops = [], txContext = None, tx_error = [] \<rparr>"

fun prepare_ops :: "('op, 'ctx, 'w) tx_methods \<Rightarrow> 'ctx \<Rightarrow> 'op list \<Rightarrow> 'w \<Rightarrow> bool \<times> 'op list \<times> 'w" where
  "prepare_ops M ctxt [] w = (True, [], w)"
| "prepare_ops M ctxt (op # ops) w =
    (case op_prepare M ctxt op w of
       (False, op, w) \<Rightarrow> (False, op # ops, w)
     | (True, op, w) \<Rightarrow> (case prepare_ops M ctxt ops w of (b, ops, w) \<Rightarrow> (b, op # ops, w)))"

definition TxBuffer_prepare ::
  "('op, 'ctx, 'w) tx_methods \<Rightarrow> 'ctx \<Rightarrow> ('op, 'ctx, 'z) TxBuffer_scheme \<Rightarrow> 'w \<Rightarrow>
   bool \<times> ('op, 'ctx, 'z) TxBuffer_scheme \<times> 'w" where
  "TxBuffer_prepare M ctxt b w =
    (case observer_prepare M w of
       (False, w) \<Rightarrow> (False, b, w)
     | (True, w) \<Rightarrow> (case prepare_ops M ctxt (tx_ops b) w of (ok, ops, w) \<Rightarrow> (ok, b \<lparr> tx_ops := ops \<rparr>, w)))"

definition TxBuffer_commit ::
  "('op, 'ctx, 'w) tx_methods \<Rightarrow> ('op, 'ctx, 'z) TxBuffer_scheme \<Rightarrow> 'w \<Rightarrow> ('op, 'ctx, 'z) TxBuffer_scheme \<times> 'w" where
  "TxBuffer_commit M b w = (b \<lparr> tx_ops := [] \<rparr>, fold (op_commit M) (tx_ops b) (observer_commit M w))"

definition TxBuffer_rollback ::
  "('op, 'ctx, 'w) tx_methods \<Rightarrow> ('op, 'ctx, 'z) TxBuffer_scheme \<Rightarrow> 'w \<Rightarrow> ('op, 'ctx, 'z) TxBuffer_scheme \<times> 'w" where
  "TxBuffer_rollback M b w = (b \<lparr> tx_ops := [] \<rparr>, fold (op_rollback M) (tx_ops b) (observer_rollback M w))"

definition enlist ::
  "('op, 'ctx, 'w) tx_methods \<Rightarrow> 'op \<Rightarrow> ('op, 'ctx, 'z) TxBuffer_scheme \<Rightarrow> 'w \<Rightarrow> ('op, 'ctx, 'z) TxBuffer_scheme \<times> 'w" where
  "enlist M op b w = (b \<lparr> tx_ops := tx_ops b @ [op] \<rparr>, op_callObserver M op w)"

definition setError :: "string \<Rightarrow> ('op, 'ctx, 'z) TxBuffer_scheme \<Rightarrow> ('op, 'ctx, 'z) TxBuffer_scheme" where
  "setError e b = b \<lparr> tx_error := e \<rparr>"

text \<open>Exceptions of the two halves of a commit leave the state they were thrown in.\<close>

definition startCommit ::
  "('op, 'ctx, 'w) tx_methods \<Rightarrow> bool \<Rightarrow> ('op, 'ctx, 'z) TxBuffer_scheme \<Rightarrow> 'w \<Rightarrow>
   unit result \<times> ('op, 'ctx, 'z) TxBuffer_scheme \<times> 'w" where
  "startCommit M store b w =
    (if \<not> store then (Inl GeneralException, b, w)
     else
       let (ctxt, w) = store_begin M w;
           b = b \<lparr> txContext := Some ctxt \<rparr>
       in case TxBuffer_prepare M ctxt b w of
            (True, b, w) \<Rightarrow> (Inr (), b, w)
          | (False, b, w) \<Rightarrow> (Inr (), setError ''Transaction prepare failed.'' b, w))"

definition endCommit ::
  "('op, 'ctx, 'w) tx_methods \<Rightarrow> ('op, 'ctx, 'z) TxBuffer_scheme \<Rightarrow> 'w \<Rightarrow>
   string result \<times> ('op, 'ctx, 'z) TxBuffer_scheme \<times> 'w" where
  "endCommit M b w =
    (case txContext b of
       None \<Rightarrow> (Inl UndefinedBehaviour, b, w)
     | Some ctxt \<Rightarrow>
         if tx_error b \<noteq> [] then
           let (b, w) = TxBuffer_rollback M b (store_abort M ctxt w) in (Inl InternalErrorException, b, w)
         else
           let (b, w) = TxBuffer_commit M b (store_commit M ctxt w) in (Inr [], b, w))"

section \<open>The contract of an operation\<close>

text \<open>
  What an implementation of \<open>TxOp\<close> promises. \<open>view\<close> is what the rest of the broker sees of the state,
  \<open>eff\<close> the change that an operation stands for. \<open>inv k F P\<close> is an invariant of the state in which the
  operations \<open>F\<close> are outstanding, the operations \<open>P\<close> are prepared and there is room to prepare \<open>k\<close> more.
  Preparing does not show; committing a prepared operation has its effect; rolling an operation
  back, prepared or not, has none. The observer and the store do not change what is seen.
\<close>

locale two_phase =
  fixes M :: "('op, 'ctx, 'w) tx_methods"
    and inv :: "nat \<Rightarrow> 'op multiset \<Rightarrow> 'op multiset \<Rightarrow> 'w \<Rightarrow> bool"
    and view :: "'w \<Rightarrow> 'v"
    and eff :: "'op \<Rightarrow> 'v \<Rightarrow> 'v"
  assumes prepare_law: "inv (Suc k) (add_mset op F) P w \<Longrightarrow> op_prepare M ctxt op w = (ok, op', w') \<Longrightarrow>
      view w' = view w \<and> (if ok then inv k F (add_mset op' P) w' else inv k (add_mset op' F) P w')"
    and commit_law: "inv k F (add_mset op P) w \<Longrightarrow>
      inv k F P (op_commit M op w) \<and> view (op_commit M op w) = eff op (view w)"
    and rollback_law: "inv k F (add_mset op P) w \<Longrightarrow>
      inv k F P (op_rollback M op w) \<and> view (op_rollback M op w) = view w"
    and rollback_fresh_law: "inv k (add_mset op F) P w \<Longrightarrow>
      inv k F P (op_rollback M op w) \<and> view (op_rollback M op w) = view w"
    and observer_law: "inv k F P (snd (observer_prepare M w)) = inv k F P w \<and> view (snd (observer_prepare M w)) = view w"
      "inv k F P (observer_commit M w) = inv k F P w \<and> view (observer_commit M w) = view w"
      "inv k F P (observer_rollback M w) = inv k F P w \<and> view (observer_rollback M w) = view w"
    and store_law: "inv k F P (snd (store_begin M w)) = inv k F P w \<and> view (snd (store_begin M w)) = view w"
      "inv k F P (snd (store_begin_xid M x w)) = inv k F P w \<and> view (snd (store_begin_xid M x w)) = view w"
      "inv k F P (store_prepare M ctxt w) = inv k F P w \<and> view (store_prepare M ctxt w) = view w"
      "inv k F P (store_commit M ctxt w) = inv k F P w \<and> view (store_commit M ctxt w) = view w"
      "inv k F P (store_abort M ctxt w) = inv k F P w \<and> view (store_abort M ctxt w) = view w"
    and less_room: "inv (Suc k) F P w \<Longrightarrow> inv k F P w"
begin

lemma inv_mono: "inv (k + n) F P w \<Longrightarrow> inv k F P w"
  by (induction n) (auto dest: less_room)

text \<open>Operations of which the first are prepared and the others are not.\<close>

definition holds :: "nat \<Rightarrow> 'op list \<Rightarrow> 'op multiset \<Rightarrow> 'op multiset \<Rightarrow> 'w \<Rightarrow> bool" where
  "holds k ops F P w \<longleftrightarrow> (\<exists>ps qs. ops = ps @ qs \<and> inv k (mset qs + F) (mset ps + P) w)"

lemma holds_Nil [simp]: "holds k [] F P w \<longleftrightarrow> inv k F P w"
  by (simp add: holds_def)

lemma holds_new: "inv k (mset ops + F) P w \<Longrightarrow> holds k ops F P w"
  unfolding holds_def by (intro exI [of _ "[]"] exI [of _ ops]) simp

lemma holds_prepared: "inv k F (mset ops + P) w \<Longrightarrow> holds k ops F P w"
  unfolding holds_def by (intro exI [of _ "[]"] exI [of _ ops]) simp

lemma holds_calls [simp]:
  "holds k ops F P (observer_rollback M w) = holds k ops F P w"
  "holds k ops F P (store_abort M ctxt w) = holds k ops F P w"
  by (simp_all add: holds_def observer_law store_law)

lemma holds_Cons_prepared:
  assumes "holds k ops F (add_mset op P) w"
  shows "holds k (op # ops) F P w"
proof -
  obtain ps qs where "ops = ps @ qs" "inv k (mset qs + F) (mset ps + add_mset op P) w"
    using assms by (auto simp: holds_def)
  then show ?thesis
    unfolding holds_def by (intro exI [of _ "op # ps"] exI [of _ qs]) simp
qed

lemma prepare_ops_correct:
  assumes "inv (length ops + k) (mset ops + F) P w" "prepare_ops M ctxt ops w = (ok, ops', w')"
  shows "view w' = view w \<and> holds k ops' F P w' \<and> (ok \<longrightarrow> inv k F (mset ops' + P) w') \<and> length ops' = length ops"
  using assms
proof (induction ops arbitrary: P w ok ops' w')
  case (Cons op ops)
  obtain ok1 op1 w1 where p: "op_prepare M ctxt op w = (ok1, op1, w1)"
    by (cases "op_prepare M ctxt op w")
  have law: "view w1 = view w" "if ok1 then inv (length ops + k) (mset ops + F) (add_mset op1 P) w1
      else inv (length ops + k) (add_mset op1 (mset ops + F)) P w1"
    using prepare_law [OF _ p, of "length ops + k" "mset ops + F" P] Cons.prems(1) by simp_all
  show ?case
  proof (cases ok1)
    case False
    then have "ops' = op1 # ops" "w' = w1" "\<not> ok" "inv k (mset (op1 # ops) + F) P w1"
      using p Cons.prems(2) law(2) inv_mono [of k "length ops" "add_mset op1 (mset ops + F)" P w1]
      by (auto simp: add.commute)
    then show ?thesis
      using law(1) holds_new by simp
  next
    case True
    obtain ok2 ops2 w2 where rest: "prepare_ops M ctxt ops w1 = (ok2, ops2, w2)"
      by (cases "prepare_ops M ctxt ops w1")
    then have res: "ops' = op1 # ops2" "w' = w2" "ok = ok2"
      using p True Cons.prems(2) by simp_all
    have "inv (length ops + k) (mset ops + F) (add_mset op1 P) w1"
      using law(2) True by simp
    from Cons.IH [OF this rest] show ?thesis
      unfolding res using law(1) holds_Cons_prepared by simp
  qed
qed simp

lemma commit_ops_correct:
  assumes "inv k F (mset ps + P) w"
  shows "inv k F P (fold (op_commit M) ps w) \<and> view (fold (op_commit M) ps w) = fold eff ps (view w)"
  using assms
proof (induction ps arbitrary: w)
  case (Cons p ps)
  then show ?case
    using commit_law [of k F p "mset ps + P" w] by simp
qed simp

text \<open>Rolling back the first operations leaves the others as they were.\<close>

lemma holds_Cons:
  assumes "holds k (op # ops) F P w"
  shows "holds k ops F P (op_rollback M op w)" "view (op_rollback M op w) = view w"
proof -
  obtain ps qs where split: "op # ops = ps @ qs" "inv k (mset qs + F) (mset ps + P) w"
    using assms by (auto simp: holds_def)
  have "holds k ops F P (op_rollback M op w) \<and> view (op_rollback M op w) = view w"
  proof (cases ps)
    case Nil
    then show ?thesis
      using split rollback_fresh_law [of k op "mset ops + F" P w] holds_new by auto
  next
    case (Cons p ps')
    then have "inv k (mset qs + F) (mset ps' + P) (op_rollback M op w)" "view (op_rollback M op w) = view w"
      using split rollback_law [of k "mset qs + F" op "mset ps' + P" w] by simp_all
    then show ?thesis
      using split Cons unfolding holds_def by (intro conjI exI [of _ ps'] exI [of _ qs]) auto
  qed
  then show "holds k ops F P (op_rollback M op w)" "view (op_rollback M op w) = view w"
    by simp_all
qed

lemma holds_prefix:
  assumes "holds k (ops @ rest) F P w"
  shows "holds k rest F P (fold (op_rollback M) ops w) \<and> view (fold (op_rollback M) ops w) = view w"
  using assms
proof (induction ops arbitrary: w)
  case (Cons op ops)
  then show ?case
    using holds_Cons [of k op "ops @ rest" F P w] by simp
qed simp

lemma holds_rollback:
  assumes "holds k (tx_ops b) F P w" "TxBuffer_rollback M b w = (b', w')"
  shows "tx_ops b' = []" "inv k F P w'" "view w' = view w"
  using assms holds_prefix [of k "tx_ops b" "[]" F P "observer_rollback M w"] observer_law(3)
  by (auto simp: TxBuffer_rollback_def)

lemma prepare_correct:
  assumes "inv (length (tx_ops b) + k) (mset (tx_ops b) + F) P w" "TxBuffer_prepare M ctxt b w = (ok, b', w')"
  shows "view w' = view w" "holds k (tx_ops b') F P w'" "ok \<Longrightarrow> inv k F (mset (tx_ops b') + P) w'"
    "b' = b \<lparr> tx_ops := tx_ops b' \<rparr>"
proof -
  obtain ok1 w1 where o: "observer_prepare M w = (ok1, w1)"
    by (cases "observer_prepare M w")
  then have w1: "inv (length (tx_ops b) + k) (mset (tx_ops b) + F) P w1" "view w1 = view w"
    using observer_law(1) [of _ _ P w] assms(1) by simp_all
  have "view w' = view w \<and> holds k (tx_ops b') F P w' \<and> (ok \<longrightarrow> inv k F (mset (tx_ops b') + P) w') \<and> b' = b \<lparr> tx_ops := tx_ops b' \<rparr>"
  proof (cases ok1)
    case False
    then have "ok = False" "b' = b" "w' = w1"
      using assms(2) o by (simp_all add: TxBuffer_prepare_def)
    then show ?thesis
      using w1 inv_mono [of k "length (tx_ops b)" "mset (tx_ops b) + F" P w1] holds_new by (simp add: add.commute)
  next
    case True
    obtain ok2 ops2 w2 where p: "prepare_ops M ctxt (tx_ops b) w1 = (ok2, ops2, w2)"
      by (cases "prepare_ops M ctxt (tx_ops b) w1")
    then have res: "ok = ok2" "b' = b \<lparr> tx_ops := ops2 \<rparr>" "w' = w2"
      using assms(2) o True by (simp_all add: TxBuffer_prepare_def)
    show ?thesis
      unfolding res using prepare_ops_correct [OF w1(1) p] w1(2) by auto
  qed
  then show "view w' = view w" "holds k (tx_ops b') F P w'" "ok \<Longrightarrow> inv k F (mset (tx_ops b') + P) w'"
    "b' = b \<lparr> tx_ops := tx_ops b' \<rparr>"
    by simp_all
qed

lemma commit_correct:
  assumes "inv k F (mset (tx_ops b) + P) w" "TxBuffer_commit M b w = (b', w')"
  shows "tx_ops b' = []" "inv k F P w'" "view w' = fold eff (tx_ops b) (view w)"
  using assms commit_ops_correct [of k F "tx_ops b" P "observer_commit M w"] observer_law(2)
  by (auto simp: TxBuffer_commit_def)

text \<open>
  A local transaction is atomic: after \<open>startCommit\<close> and \<open>endCommit\<close> the buffer is empty, nothing of it
  is left prepared, and either all effects have taken place, in order, or none, and the client gets
  an error. The first happens exactly if every operation could be prepared.
\<close>

lemma local_transaction_atomic:
  assumes "inv (length (tx_ops b) + k) (mset (tx_ops b) + F) P w" "tx_error b = []"
    "startCommit M True b w = (r1, b1, w1)" "endCommit M b1 w1 = (r, b', w')"
  shows "tx_ops b' = [] \<and> inv k F P w' \<and>
    (if fst (TxBuffer_prepare M (fst (store_begin M w)) (b \<lparr> txContext := Some (fst (store_begin M w)) \<rparr>) (snd (store_begin M w)))
     then r = Inr [] \<and> view w' = fold eff (tx_ops b1) (view w)
     else r = Inl InternalErrorException \<and> view w' = view w)"
proof -
  obtain ctxt w0 where s: "store_begin M w = (ctxt, w0)"
    by (cases "store_begin M w")
  then have w0: "inv (length (tx_ops b) + k) (mset (tx_ops b) + F) P w0" "view w0 = view w"
    using store_law(1) [of _ _ P w] assms(1) by simp_all
  let ?b = "b \<lparr> txContext := Some ctxt \<rparr>"
  obtain ok b2 w2 where p: "TxBuffer_prepare M ctxt ?b w0 = (ok, b2, w2)"
    by (cases "TxBuffer_prepare M ctxt ?b w0")
  have pc: "view w2 = view w0" "holds k (tx_ops b2) F P w2" "ok \<Longrightarrow> inv k F (mset (tx_ops b2) + P) w2"
    "b2 = ?b \<lparr> tx_ops := tx_ops b2 \<rparr>"
    using prepare_correct [OF _ p, of k F P] w0(1) by simp_all
  have b2: "txContext b2 = Some ctxt" "tx_error b2 = []"
    using arg_cong [OF pc(4), of txContext] arg_cong [OF pc(4), of tx_error] assms(2) by simp_all
  show ?thesis
  proof (cases ok)
    case True
    then have res: "b1 = b2" "w1 = w2"
      using assms(3) s p by (simp_all add: startCommit_def)
    obtain b3 w3 where c: "TxBuffer_commit M b2 (store_commit M ctxt w2) = (b3, w3)"
      by (cases "TxBuffer_commit M b2 (store_commit M ctxt w2)")
    have "r = Inr []" "b' = b3" "w' = w3"
      using assms(4) res b2 c by (simp_all add: endCommit_def)
    then show ?thesis
      using commit_correct [OF _ c, of k F P] pc(1,3) True store_law(4) w0(2) res s p by simp
  next
    case False
    then have res: "b1 = setError ''Transaction prepare failed.'' b2" "w1 = w2"
      using assms(3) s p by (simp_all add: startCommit_def)
    obtain b3 w3 where c: "TxBuffer_rollback M b1 (store_abort M ctxt w2) = (b3, w3)"
      by (cases "TxBuffer_rollback M b1 (store_abort M ctxt w2)")
    have "r = Inl InternalErrorException" "b' = b3" "w' = w3"
      using assms(4) res b2 c by (simp_all add: endCommit_def setError_def)
    moreover have "holds k (tx_ops b1) F P (store_abort M ctxt w2)"
      using pc(2) by (simp add: res setError_def)
    ultimately show ?thesis
      using holds_rollback [OF _ c, of k F P] pc(1) w0(2) store_law(5) False s p by simp
  qed
qed

end

end
