(* ===== verification/Dtx_Manager.thy ===== *)
theory Dtx_Manager
  imports Tx_Buffer
begin

text \<open>
  Distributed transactions: the buffer of a branch (\<open>broker/DtxBuffer.cpp\<close>), the record of the work
  done under an xid (\<open>broker/DtxWorkRecord.cpp\<close>) and the manager of all of them
  (\<open>broker/DtxManager.cpp\<close>). Buffers are shared between sessions and records, so they have addresses.
\<close>

section \<open>Branches\<close>

record ('op, 'ctx) DtxBuffer = "('op, 'ctx) TxBuffer" +
  db_xid :: string
  db_ended :: bool
  db_suspended :: bool
  db_failed :: bool
  db_expired :: bool

definition DtxBuffer_init :: "string \<Rightarrow> ('op, 'ctx) DtxBuffer" where
  "DtxBuffer_init x = \<lparr> tx_ops = [], txContext = None, tx_error = [], db_xid = x, db_ended = False,
     db_suspended = False, db_failed = False, db_expired = False \<rparr>"

definition markEnded :: "('op, 'ctx) DtxBuffer \<Rightarrow> ('op, 'ctx) DtxBuffer" where
  "markEnded b = b \<lparr> db_ended := True \<rparr>"

definition setSuspended :: "bool \<Rightarrow> ('op, 'ctx) DtxBuffer \<Rightarrow> ('op, 'ctx) DtxBuffer" where
  "setSuspended s b = b \<lparr> db_suspended := s \<rparr>"

definition DtxBuffer_fail ::
  "('op, 'ctx, 'w) tx_methods \<Rightarrow> ('op, 'ctx) DtxBuffer \<Rightarrow> 'w \<Rightarrow> ('op, 'ctx) DtxBuffer \<times> 'w" where
  "DtxBuffer_fail M b w =
    (let (b, w) = TxBuffer_rollback M b w in (b \<lparr> db_failed := True, db_ended := True \<rparr>, w))"

definition DtxBuffer_timedout ::
  "('op, 'ctx, 'w) tx_methods \<Rightarrow> ('op, 'ctx) DtxBuffer \<Rightarrow> 'w \<Rightarrow> ('op, 'ctx) DtxBuffer \<times> 'w" where
  "DtxBuffer_timedout M b w = DtxBuffer_fail M (b \<lparr> db_expired := True \<rparr>) w"

section \<open>The work under an xid\<close>

record 'ctx DtxWorkRecord =
  wr_completed :: bool
  wr_rolledback :: bool
  wr_prepared :: bool
  wr_expired :: bool
  wr_timeout :: "32 word option"
  wr_work :: "nat list"
  wr_txn :: "'ctx option"

definition DtxWorkRecord_init :: "'ctx DtxWorkRecord" where
  "DtxWorkRecord_init = \<lparr> wr_completed = False, wr_rolledback = False, wr_prepared = False, wr_expired = False,
     wr_timeout = None, wr_work = [], wr_txn = None \<rparr>"

type_synonym ('op, 'ctx, 'w) dtx_heap = "(nat \<Rightarrow> ('op, 'ctx) DtxBuffer) \<times> 'w"

definition at_buffer :: "(('op, 'ctx) DtxBuffer \<Rightarrow> 'w \<Rightarrow> ('op, 'ctx) DtxBuffer \<times> 'w) \<Rightarrow> nat \<Rightarrow>
    ('op, 'ctx, 'w) dtx_heap \<Rightarrow> ('op, 'ctx, 'w) dtx_heap" where
  "at_buffer f a hw = (let (h, w) = hw; (b, w) = f (h a) w in (h(a := b), w))"

text \<open>\<open>check\<close>; a record that it throws on may have been marked as rolled back on the way.\<close>

fun DtxWorkRecord_check_loop :: "(nat \<Rightarrow> ('op, 'ctx) DtxBuffer) \<Rightarrow> nat list \<Rightarrow> 'ctx DtxWorkRecord \<Rightarrow>
    unit result \<times> 'ctx DtxWorkRecord" where
  "DtxWorkRecord_check_loop h [] r = (Inr (), r)"
| "DtxWorkRecord_check_loop h (a # as) r =
    (if \<not> db_ended (h a) then (Inl IllegalStateException, r)
     else DtxWorkRecord_check_loop h as (if db_failed (h a) then r \<lparr> wr_rolledback := True \<rparr> else r))"

definition DtxWorkRecord_check :: "(nat \<Rightarrow> ('op, 'ctx) DtxBuffer) \<Rightarrow> 'ctx DtxWorkRecord \<Rightarrow>
    bool result \<times> 'ctx DtxWorkRecord" where
  "DtxWorkRecord_check h r =
    (if wr_expired r then (Inl DtxTimeoutException, r)
     else if \<not> wr_completed r then
       (case DtxWorkRecord_check_loop h (wr_work r) r of
          (Inl e, r) \<Rightarrow> (Inl e, r)
        | (Inr _, r) \<Rightarrow> let r = r \<lparr> wr_completed := True \<rparr> in (Inr (\<not> wr_rolledback r), r))
     else (Inr (\<not> wr_rolledback r), r))"

definition DtxWorkRecord_abort :: "('op, 'ctx, 'w) tx_methods \<Rightarrow> 'ctx DtxWorkRecord \<Rightarrow>
    ('op, 'ctx, 'w) dtx_heap \<Rightarrow> 'ctx DtxWorkRecord \<times> ('op, 'ctx, 'w) dtx_heap" where
  "DtxWorkRecord_abort M r hw =
    (let (h, w) = hw;
         (r, w) = (case wr_txn r of Some txn \<Rightarrow> (r \<lparr> wr_txn := None \<rparr>, store_abort M txn w) | None \<Rightarrow> (r, w))
     in (r, fold (at_buffer (TxBuffer_rollback M)) (wr_work r) (h, w)))"

fun prepare_work :: "('op, 'ctx, 'w) tx_methods \<Rightarrow> 'ctx \<Rightarrow> nat list \<Rightarrow> ('op, 'ctx, 'w) dtx_heap \<Rightarrow>
    bool \<times> ('op, 'ctx, 'w) dtx_heap" where
  "prepare_work M txn [] hw = (True, hw)"
| "prepare_work M txn (a # as) (h, w) =
    (case TxBuffer_prepare M txn (h a) w of
       (True, b, w) \<Rightarrow> prepare_work M txn as (h(a := b), w)
     | (False, b, w) \<Rightarrow> (False, h(a := b), w))"

definition DtxWorkRecord_prepare :: "('op, 'ctx, 'w) tx_methods \<Rightarrow> string \<Rightarrow> 'ctx DtxWorkRecord \<Rightarrow>
    ('op, 'ctx, 'w) dtx_heap \<Rightarrow> bool result \<times> 'ctx DtxWorkRecord \<times> ('op, 'ctx, 'w) dtx_heap" where
  "DtxWorkRecord_prepare M xid r hw =
    (case DtxWorkRecord_check (fst hw) r of
       (Inl e, r) \<Rightarrow> (Inl e, r, hw)
     | (Inr True, r) \<Rightarrow>
         let (h, w) = hw; (txn, w) = store_begin_xid M xid w; r = r \<lparr> wr_txn := Some txn \<rparr> in
         (case prepare_work M txn (wr_work r) (h, w) of
            (True, h, w) \<Rightarrow> (Inr True, r \<lparr> wr_prepared := True \<rparr>, h, store_prepare M txn w)
          | (False, h, w) \<Rightarrow> let (r, hw) = DtxWorkRecord_abort M r (h, w) in (Inr (wr_prepared r), r, hw))
     | (Inr False, r) \<Rightarrow> let (r, hw) = DtxWorkRecord_abort M r hw in (Inr (wr_prepared r), r, hw))"

definition DtxWorkRecord_commit :: "('op, 'ctx, 'w) tx_methods \<Rightarrow> bool \<Rightarrow> 'ctx DtxWorkRecord \<Rightarrow>
    ('op, 'ctx, 'w) dtx_heap \<Rightarrow> bool result \<times> 'ctx DtxWorkRecord \<times> ('op, 'ctx, 'w) dtx_heap" where
  "DtxWorkRecord_commit M onePhase r hw =
    (case DtxWorkRecord_check (fst hw) r of
       (Inl e, r) \<Rightarrow> (Inl e, r, hw)
     | (Inr True, r) \<Rightarrow>
         let (h, w) = hw in
         if wr_prepared r then
           if onePhase then (Inl IllegalStateException, r, hw)
           else (case wr_txn r of
                   None \<Rightarrow> (Inl UndefinedBehaviour, r, hw)
                 | Some txn \<Rightarrow>
                     (Inr True, r \<lparr> wr_txn := None \<rparr>,
                      fold (at_buffer (TxBuffer_commit M)) (wr_work r) (h, store_commit M txn w)))
         else if \<not> onePhase then (Inl IllegalStateException, r, hw)
         else
           let (localtxn, w) = store_begin M w in
           (case prepare_work M localtxn (wr_work r) (h, w) of
              (True, h, w) \<Rightarrow>
                (Inr True, r, fold (at_buffer (TxBuffer_commit M)) (wr_work r) (h, store_commit M localtxn w))
            | (False, h, w) \<Rightarrow>
                let (r, hw) = DtxWorkRecord_abort M r (h, store_abort M localtxn w) in (Inr False, r, hw))
     | (Inr False, r) \<Rightarrow> let (r, hw) = DtxWorkRecord_abort M r hw in (Inr False, r, hw))"

definition DtxWorkRecord_rollback :: "('op, 'ctx, 'w) tx_methods \<Rightarrow> 'ctx DtxWorkRecord \<Rightarrow>
    ('op, 'ctx, 'w) dtx_heap \<Rightarrow> unit result \<times> 'ctx DtxWorkRecord \<times> ('op, 'ctx, 'w) dtx_heap" where
  "DtxWorkRecord_rollback M r hw =
    (case DtxWorkRecord_check (fst hw) r of
       (Inl e, r) \<Rightarrow> (Inl e, r, hw)
     | (Inr _, r) \<Rightarrow> let (r, hw) = DtxWorkRecord_abort M r hw in (Inr (), r, hw))"

definition DtxWorkRecord_add :: "nat \<Rightarrow> 'ctx DtxWorkRecord \<Rightarrow> 'ctx DtxWorkRecord result" where
  "DtxWorkRecord_add a r =
    throw_if (wr_expired r) DtxTimeoutException (
    throw_if (wr_completed r) CommandInvalidException (
    Inr (r \<lparr> wr_work := wr_work r @ [a] \<rparr>)))"

definition DtxWorkRecord_recover :: "'ctx \<Rightarrow> nat \<Rightarrow> 'ctx DtxWorkRecord \<Rightarrow> ('op, 'ctx, 'w) dtx_heap \<Rightarrow>
    ('ctx DtxWorkRecord \<times> ('op, 'ctx, 'w) dtx_heap) result" where
  "DtxWorkRecord_recover txn a r hw =
    res_bind (DtxWorkRecord_add a r) (\<lambda>r.
    Inr (r \<lparr> wr_txn := Some txn, wr_completed := True, wr_prepared := True \<rparr>,
         at_buffer (\<lambda>b w. (markEnded b, w)) a hw))"

definition DtxWorkRecord_timedout :: "('op, 'ctx, 'w) tx_methods \<Rightarrow> 'ctx DtxWorkRecord \<Rightarrow>
    ('op, 'ctx, 'w) dtx_heap \<Rightarrow> 'ctx DtxWorkRecord \<times> ('op, 'ctx, 'w) dtx_heap" where
  "DtxWorkRecord_timedout M r hw =
    (let r = r \<lparr> wr_expired := True, wr_rolledback := True \<rparr>;
         hw = (if \<not> wr_completed r then
                 fold (at_buffer (\<lambda>b w. if \<not> db_ended b then DtxBuffer_timedout M b w else (b, w))) (wr_work r) hw
               else hw)
     in DtxWorkRecord_abort M r hw)"

section \<open>The manager\<close>

text \<open>\<open>mgr_timers\<close> are the pending tasks of the timer; the heap of buffers and the state are here too.\<close>

record ('op, 'ctx, 'w) DtxManager =
  mgr_work :: "string \<rightharpoonup> 'ctx DtxWorkRecord"
  mgr_defaultTimeout :: "32 word"
  mgr_timers :: "(string \<times> 32 word) list"
  mgr_heap :: "('op, 'ctx, 'w) dtx_heap"

definition getWork :: "string \<Rightarrow> ('op, 'ctx, 'w) DtxManager \<Rightarrow> 'ctx DtxWorkRecord result" where
  "getWork xid m = (case mgr_work m xid of None \<Rightarrow> Inl NotFoundException | Some r \<Rightarrow> Inr r)"

definition putWork :: "string \<Rightarrow> 'ctx DtxWorkRecord \<Rightarrow> ('op, 'ctx, 'w) dtx_heap \<Rightarrow>
    ('op, 'ctx, 'w) DtxManager \<Rightarrow> ('op, 'ctx, 'w) DtxManager" where
  "putWork xid r hw m = m \<lparr> mgr_work := (mgr_work m)(xid \<mapsto> r), mgr_heap := hw \<rparr>"

definition DtxManager_exists :: "string \<Rightarrow> ('op, 'ctx, 'w) DtxManager \<Rightarrow> bool" where
  "DtxManager_exists xid m \<longleftrightarrow> mgr_work m xid \<noteq> None"

text \<open>Erasing a record cancels its timeout.\<close>

definition DtxManager_remove :: "string \<Rightarrow> ('op, 'ctx, 'w) DtxManager \<Rightarrow> ('op, 'ctx, 'w) DtxManager result" where
  "DtxManager_remove xid m =
    (case mgr_work m xid of
       None \<Rightarrow> Inl NotFoundException
     | Some r \<Rightarrow> Inr (m \<lparr> mgr_work := (mgr_work m)(xid := None),
                         mgr_timers := filter (\<lambda>t. fst t \<noteq> xid) (mgr_timers m) \<rparr>))"

definition DtxManager_setTimeout ::
  "string \<Rightarrow> 32 word \<Rightarrow> ('op, 'ctx, 'w) DtxManager \<Rightarrow> ('op, 'ctx, 'w) DtxManager result" where
  "DtxManager_setTimeout xid secs m =
    res_bind (getWork xid m) (\<lambda>r.
    if wr_timeout r = Some secs then Inr m
    else Inr (m \<lparr> mgr_work := (mgr_work m)(xid \<mapsto> r \<lparr> wr_timeout := Some secs \<rparr>),
                  mgr_timers := filter (\<lambda>t. fst t \<noteq> xid) (mgr_timers m) @ [(xid, secs)] \<rparr>))"

definition DtxManager_getTimeout :: "string \<Rightarrow> ('op, 'ctx, 'w) DtxManager \<Rightarrow> (32 word) result" where
  "DtxManager_getTimeout xid m =
    res_bind (getWork xid m) (\<lambda>r. Inr (case wr_timeout r of None \<Rightarrow> 0 | Some t \<Rightarrow> t))"

definition createWork :: "string \<Rightarrow> ('op, 'ctx, 'w) DtxManager \<Rightarrow> ('op, 'ctx, 'w) DtxManager result" where
  "createWork xid m =
    throw_if (mgr_work m xid \<noteq> None) NotAllowedException (
    let m = m \<lparr> mgr_work := (mgr_work m)(xid \<mapsto> DtxWorkRecord_init) \<rparr>
    in if mgr_defaultTimeout m > 0 then DtxManager_setTimeout xid (mgr_defaultTimeout m) m else Inr m)"

text \<open>\<open>join\<close> and \<open>start\<close>; the record that \<open>start\<close> has created stays if adding to it throws.\<close>

definition DtxManager_join :: "string \<Rightarrow> nat \<Rightarrow> ('op, 'ctx, 'w) DtxManager \<Rightarrow> ('op, 'ctx, 'w) DtxManager result" where
  "DtxManager_join xid a m =
    res_bind (getWork xid m) (\<lambda>r. res_bind (DtxWorkRecord_add a r) (\<lambda>r. Inr (putWork xid r (mgr_heap m) m)))"

definition DtxManager_start :: "string \<Rightarrow> nat \<Rightarrow> ('op, 'ctx, 'w) DtxManager \<Rightarrow> ('op, 'ctx, 'w) DtxManager result" where
  "DtxManager_start xid a m = res_bind (createWork xid m) (DtxManager_join xid a)"

definition DtxManager_recover ::
  "string \<Rightarrow> 'ctx \<Rightarrow> nat \<Rightarrow> ('op, 'ctx, 'w) DtxManager \<Rightarrow> ('op, 'ctx, 'w) DtxManager result" where
  "DtxManager_recover xid txn a m =
    res_bind (createWork xid m) (\<lambda>m. res_bind (getWork xid m) (\<lambda>r.
    res_bind (DtxWorkRecord_recover txn a r (mgr_heap m)) (\<lambda>(r, hw). Inr (putWork xid r hw m))))"

text \<open>What the three ends of a branch share: a timeout removes the record and is thrown again.\<close>

definition on_timeout :: "string \<Rightarrow> 'a result \<times> ('op, 'ctx, 'w) DtxManager \<Rightarrow>
    'a result \<times> ('op, 'ctx, 'w) DtxManager" where
  "on_timeout xid res =
    (case res of
       (Inl DtxTimeoutException, m) \<Rightarrow>
         (case DtxManager_remove xid m of Inl e \<Rightarrow> (Inl e, m) | Inr m \<Rightarrow> (Inl DtxTimeoutException, m))
     | _ \<Rightarrow> res)"

definition with_work :: "string \<Rightarrow> ('ctx DtxWorkRecord \<Rightarrow> ('op, 'ctx, 'w) dtx_heap \<Rightarrow>
      'a result \<times> 'ctx DtxWorkRecord \<times> ('op, 'ctx, 'w) dtx_heap) \<Rightarrow>
    ('op, 'ctx, 'w) DtxManager \<Rightarrow> 'a result \<times> ('op, 'ctx, 'w) DtxManager" where
  "with_work xid f m =
    (case getWork xid m of
       Inl e \<Rightarrow> (Inl e, m)
     | Inr r \<Rightarrow> (case f r (mgr_heap m) of (res, r, hw) \<Rightarrow> (res, putWork xid r hw m)))"

definition then_remove :: "string \<Rightarrow> 'a result \<times> ('op, 'ctx, 'w) DtxManager \<Rightarrow>
    'a result \<times> ('op, 'ctx, 'w) DtxManager" where
  "then_remove xid res =
    (case res of
       (Inl e, m) \<Rightarrow> (Inl e, m)
     | (Inr v, m) \<Rightarrow> (case DtxManager_remove xid m of Inl e \<Rightarrow> (Inl e, m) | Inr m \<Rightarrow> (Inr v, m)))"

definition DtxManager_prepare :: "('op, 'ctx, 'w) tx_methods \<Rightarrow> string \<Rightarrow> ('op, 'ctx, 'w) DtxManager \<Rightarrow>
    bool result \<times> ('op, 'ctx, 'w) DtxManager" where
  "DtxManager_prepare M xid m = on_timeout xid (with_work xid (DtxWorkRecord_prepare M xid) m)"

definition DtxManager_commit :: "('op, 'ctx, 'w) tx_methods \<Rightarrow> string \<Rightarrow> bool \<Rightarrow> ('op, 'ctx, 'w) DtxManager \<Rightarrow>
    bool result \<times> ('op, 'ctx, 'w) DtxManager" where
  "DtxManager_commit M xid onePhase m =
    on_timeout xid (then_remove xid (with_work xid (DtxWorkRecord_commit M onePhase) m))"

definition DtxManager_rollback :: "('op, 'ctx, 'w) tx_methods \<Rightarrow> string \<Rightarrow> ('op, 'ctx, 'w) DtxManager \<Rightarrow>
    unit result \<times> ('op, 'ctx, 'w) DtxManager" where
  "DtxManager_rollback M xid m =
    on_timeout xid (then_remove xid (with_work xid (DtxWorkRecord_rollback M) m))"

text \<open>The task of a timeout fires; without a record this only logs a warning.\<close>

definition DtxManager_timedout :: "('op, 'ctx, 'w) tx_methods \<Rightarrow> string \<Rightarrow> ('op, 'ctx, 'w) DtxManager \<Rightarrow>
    ('op, 'ctx, 'w) DtxManager" where
  "DtxManager_timedout M xid m =
    (let m = m \<lparr> mgr_timers := filter (\<lambda>t. fst t \<noteq> xid) (mgr_timers m) \<rparr> in
     case mgr_work m xid of
       None \<Rightarrow> m
     | Some r \<Rightarrow> (case DtxWorkRecord_timedout M r (mgr_heap m) of (r, hw) \<Rightarrow> putWork xid r hw m))"

section \<open>A branch is atomic\<close>

text \<open>The operations of a branch, over its buffers in the order they were added.\<close>

definition branch_ops :: "(nat \<Rightarrow> ('op, 'ctx) DtxBuffer) \<Rightarrow> nat list \<Rightarrow> 'op list" where
  "branch_ops h as = concat (map (\<lambda>a. tx_ops (h a)) as)"

lemma branch_ops_simps [simp]:
  "branch_ops h [] = []" "branch_ops h (a # as) = tx_ops (h a) @ branch_ops h as"
  "a \<notin> set as \<Longrightarrow> branch_ops (h(a := b)) as = branch_ops h as"
  by (auto simp: branch_ops_def intro!: arg_cong [of _ _ concat])

lemma at_buffer_simps:
  "at_buffer (TxBuffer_commit M) a (h, w) =
    (h(a := h a \<lparr> tx_ops := [] \<rparr>), fold (op_commit M) (tx_ops (h a)) (observer_commit M w))"
  "at_buffer (TxBuffer_rollback M) a (h, w) =
    (h(a := h a \<lparr> tx_ops := [] \<rparr>), fold (op_rollback M) (tx_ops (h a)) (observer_rollback M w))"
  by (simp_all add: at_buffer_def TxBuffer_commit_def TxBuffer_rollback_def)

context two_phase
begin

lemma rollback_work:
  assumes "distinct as" "holds k (branch_ops h as) F P w" "fold (at_buffer (TxBuffer_rollback M)) as (h, w) = (h', w')"
  shows "inv k F P w' \<and> view w' = view w \<and> h' = (\<lambda>a. if a \<in> set as then h a \<lparr> tx_ops := [] \<rparr> else h a)"
  using assms
proof (induction as arbitrary: h w)
  case Nil
  then show ?case by auto
next
  case (Cons a as)
  let ?w = "fold (op_rollback M) (tx_ops (h a)) (observer_rollback M w)" and ?h = "h(a := h a \<lparr> tx_ops := [] \<rparr>)"
  have step: "fold (at_buffer (TxBuffer_rollback M)) as (?h, ?w) = (h', w')"
    using Cons.prems(3) by (simp only: fold_simps at_buffer_simps)
  have d: "distinct as" "a \<notin> set as"
    using Cons.prems(1) by simp_all
  have "holds k (branch_ops ?h as) F P ?w" "view ?w = view w"
    using holds_prefix [of k "tx_ops (h a)" "branch_ops h as" F P "observer_rollback M w"] Cons.prems(2) observer_law(3)
    unfolding branch_ops_simps(3) [OF d(2)] by simp_all
  then have "inv k F P w' \<and> view w' = view w \<and> h' = (\<lambda>c. if c \<in> set as then ?h c \<lparr> tx_ops := [] \<rparr> else ?h c)"
    using Cons.IH [OF d(1) _ step] by (simp del: fun_upd_apply)
  then show ?case
    using d(2) by auto
qed

lemma commit_work:
  assumes "distinct as" "inv k F (mset (branch_ops h as) + P) w" "fold (at_buffer (TxBuffer_commit M)) as (h, w) = (h', w')"
  shows "inv k F P w' \<and> view w' = fold eff (branch_ops h as) (view w) \<and>
    h' = (\<lambda>a. if a \<in> set as then h a \<lparr> tx_ops := [] \<rparr> else h a)"
  using assms
proof (induction as arbitrary: h w)
  case (Cons a as)
  let ?w = "fold (op_commit M) (tx_ops (h a)) (observer_commit M w)" and ?h = "h(a := h a \<lparr> tx_ops := [] \<rparr>)"
  have step: "fold (at_buffer (TxBuffer_commit M)) as (?h, ?w) = (h', w')"
    using Cons.prems(3) by (simp only: fold_simps at_buffer_simps)
  have d: "distinct as" "a \<notin> set as"
    using Cons.prems(1) by simp_all
  have "inv k F (mset (branch_ops ?h as) + P) ?w" "view ?w = fold eff (tx_ops (h a)) (view w)"
    using commit_ops_correct [of k F "tx_ops (h a)" "mset (branch_ops h as) + P" "observer_commit M w"] Cons.prems(2) observer_law(2)
    unfolding branch_ops_simps(3) [OF d(2)] by (simp_all add: add.assoc)
  then have "inv k F P w' \<and> view w' = fold eff (branch_ops ?h as) (fold eff (tx_ops (h a)) (view w)) \<and>
      h' = (\<lambda>c. if c \<in> set as then ?h c \<lparr> tx_ops := [] \<rparr> else ?h c)"
    using Cons.IH [OF d(1) _ step] by (simp del: fun_upd_apply)
  then show ?case
    unfolding branch_ops_simps(3) [OF d(2)] using d(2) by auto
qed auto

lemma holds_append:
  assumes "holds k qs F (mset ps + P) w"
  shows "holds k (ps @ qs) F P w"
proof -
  obtain xs ys where "qs = xs @ ys" "inv k (mset ys + F) (mset xs + (mset ps + P)) w"
    using assms by (auto simp: holds_def)
  then show ?thesis
    unfolding holds_def by (intro exI [of _ "ps @ xs"] exI [of _ ys]) (simp add: add.assoc add.left_commute)
qed

lemma holds_more:
  assumes "holds k ps (mset qs + F) P w"
  shows "holds k (ps @ qs) F P w"
proof -
  obtain xs ys where "ps = xs @ ys" "inv k (mset ys + (mset qs + F)) (mset xs + P) w"
    using assms by (auto simp: holds_def)
  then show ?thesis
    unfolding holds_def by (intro exI [of _ xs] exI [of _ "ys @ qs"]) (simp add: add.assoc)
qed

lemma holds_mono:
  assumes "holds (n + k) ops F P w"
  shows "holds k ops F P w"
proof -
  obtain xs ys where "ops = xs @ ys" "inv (n + k) (mset ys + F) (mset xs + P) w"
    using assms by (auto simp: holds_def)
  then show ?thesis
    unfolding holds_def using inv_mono [of k n "mset ys + F" "mset xs + P" w]
    by (intro exI [of _ xs] exI [of _ ys]) (simp add: add.commute)
qed

lemma prepare_work_correct:
  assumes "distinct as" "inv (length (branch_ops h as) + k) (mset (branch_ops h as) + F) P w"
    "prepare_work M txn as (h, w) = (ok, h', w')"
  shows "view w' = view w \<and> holds k (branch_ops h' as) F P w' \<and> (ok \<longrightarrow> inv k F (mset (branch_ops h' as) + P) w') \<and>
    (\<forall>a. h' a = h a \<lparr> tx_ops := tx_ops (h' a) \<rparr>) \<and> (\<forall>a. a \<notin> set as \<longrightarrow> h' a = h a)"
  using assms
proof (induction as arbitrary: h w P)
  case (Cons a as)
  have d: "distinct as" "a \<notin> set as"
    using Cons.prems(1) by simp_all
  obtain ok1 b w1 where p: "TxBuffer_prepare M txn (h a) w = (ok1, b, w1)"
    by (cases "TxBuffer_prepare M txn (h a) w")
  have "inv (length (tx_ops (h a)) + (length (branch_ops h as) + k)) (mset (tx_ops (h a)) + (mset (branch_ops h as) + F)) P w"
    using Cons.prems(2) by (simp add: add.assoc)
  note pc = prepare_correct [OF this p]
  show ?case
  proof (cases ok1)
    case False
    then have res: "\<not> ok" "h' = h(a := b)" "w' = w1"
      using Cons.prems(3) p by simp_all
    have "holds k (branch_ops h' (a # as)) F P w1"
      using holds_more [OF holds_mono [OF pc(2)]] d(2) res by simp
    then show ?thesis
      using pc(1,4) res by (simp del: branch_ops_simps fun_upd_apply) simp
  next
    case True
    then have rest: "prepare_work M txn as (h(a := b), w1) = (ok, h', w')"
      using Cons.prems(3) p by simp
    have "inv (length (branch_ops (h(a := b)) as) + k) (mset (branch_ops (h(a := b)) as) + F) (mset (tx_ops b) + P) w1"
      using pc(3) True d(2) by simp
    from Cons.IH [OF d(1) this rest]
    have ih: "view w' = view w1" "holds k (branch_ops h' as) F (mset (tx_ops b) + P) w'"
      "ok \<longrightarrow> inv k F (mset (branch_ops h' as) + (mset (tx_ops b) + P)) w'"
      "\<forall>c. h' c = (h(a := b)) c \<lparr> tx_ops := tx_ops (h' c) \<rparr>" "\<forall>c. c \<notin> set as \<longrightarrow> h' c = (h(a := b)) c"
      by simp_all
    have b: "h' a = b"
      using ih(5) d(2) by simp
    have "h' c = h c \<lparr> tx_ops := tx_ops (h' c) \<rparr>" for c
    proof (cases "c = a")
      case False
      then show ?thesis
        using ih(4) [rule_format, of c] by simp
    qed (use b pc(4) in simp)
    then show ?thesis
      using ih b d holds_append [OF ih(2)] pc(1) by (auto simp: add.assoc add.commute add.left_commute)
  qed
qed auto

end

text \<open>What \<open>check\<close> establishes.\<close>

lemma check_loop_result:
  assumes "DtxWorkRecord_check_loop h as r = (res, r')"
  shows "r' = r \<lparr> wr_rolledback := wr_rolledback r' \<rparr>"
    "res = Inr () \<Longrightarrow> (\<forall>a\<in>set as. db_ended (h a)) \<and> (wr_rolledback r' \<longleftrightarrow> wr_rolledback r \<or> (\<exists>a\<in>set as. db_failed (h a)))"
    "res \<noteq> Inr () \<Longrightarrow> res = Inl IllegalStateException \<and> (\<exists>a\<in>set as. \<not> db_ended (h a))"
  using assms by (induction h as r rule: DtxWorkRecord_check_loop.induct) (auto split: if_splits)

lemma DtxWorkRecord_check_result:
  assumes "DtxWorkRecord_check h r = (res, r')"
  shows "wr_work r' = wr_work r" "wr_txn r' = wr_txn r" "wr_prepared r' = wr_prepared r" "wr_expired r' = wr_expired r"
    and "res = Inr ok \<Longrightarrow> \<not> wr_expired r \<and> wr_completed r' \<and> (ok \<longleftrightarrow> \<not> wr_rolledback r') \<and>
      (\<not> wr_completed r \<longrightarrow> (\<forall>a\<in>set (wr_work r). db_ended (h a)) \<and>
        (ok \<longleftrightarrow> \<not> wr_rolledback r \<and> (\<forall>a\<in>set (wr_work r). \<not> db_failed (h a))))"
    and "res = Inl e \<Longrightarrow> (wr_expired r \<and> e = DtxTimeoutException) \<or>
      (\<not> wr_expired r \<and> \<not> wr_completed r \<and> e = IllegalStateException \<and> (\<exists>a\<in>set (wr_work r). \<not> db_ended (h a)))"
proof -
  obtain l r1 where l: "DtxWorkRecord_check_loop h (wr_work r) r = (l, r1)"
    by fastforce
  have r1: "wr_work r1 = wr_work r" "wr_txn r1 = wr_txn r" "wr_prepared r1 = wr_prepared r" "wr_expired r1 = wr_expired r"
    using check_loop_result(1) [OF l] by (metis DtxWorkRecord.select_convs DtxWorkRecord.update_convs(2) DtxWorkRecord.surjective)+
  have cases: "l = Inr () \<or> l = Inl IllegalStateException"
    using check_loop_result(3) [OF l] by blast
  show "wr_work r' = wr_work r" "wr_txn r' = wr_txn r" "wr_prepared r' = wr_prepared r" "wr_expired r' = wr_expired r"
    using assms l r1 cases by (auto simp: DtxWorkRecord_check_def Let_def split: if_splits)
  show "res = Inr ok \<Longrightarrow> \<not> wr_expired r \<and> wr_completed r' \<and> (ok \<longleftrightarrow> \<not> wr_rolledback r') \<and>
      (\<not> wr_completed r \<longrightarrow> (\<forall>a\<in>set (wr_work r). db_ended (h a)) \<and>
        (ok \<longleftrightarrow> \<not> wr_rolledback r \<and> (\<forall>a\<in>set (wr_work r). \<not> db_failed (h a))))"
    using assms l cases check_loop_result(2) [OF l] by (auto simp: DtxWorkRecord_check_def Let_def split: if_splits)
  show "res = Inl e \<Longrightarrow> (wr_expired r \<and> e = DtxTimeoutException) \<or>
      (\<not> wr_expired r \<and> \<not> wr_completed r \<and> e = IllegalStateException \<and> (\<exists>a\<in>set (wr_work r). \<not> db_ended (h a)))"
    using assms l cases check_loop_result(3) [OF l] by (auto simp: DtxWorkRecord_check_def Let_def split: if_splits)
qed

context two_phase
begin

text \<open>A branch that is prepared, or whose operations are all still new.\<close>

definition branch :: "nat \<Rightarrow> 'ctx DtxWorkRecord \<Rightarrow> (nat \<Rightarrow> ('op, 'ctx) DtxBuffer) \<Rightarrow> 'op multiset \<Rightarrow> 'op multiset \<Rightarrow> 'w \<Rightarrow> bool" where
  "branch k r h F P w \<longleftrightarrow> distinct (wr_work r) \<and>
    (if wr_prepared r then wr_txn r \<noteq> None \<and> inv k F (mset (branch_ops h (wr_work r)) + P) w
     else inv (length (branch_ops h (wr_work r)) + k) (mset (branch_ops h (wr_work r)) + F) P w)"

lemma branch_holds: "branch k r h F P w \<Longrightarrow> holds k (branch_ops h (wr_work r)) F P w"
  using holds_prepared [of k F "branch_ops h (wr_work r)" P w]
    holds_new [THEN holds_mono, of "length (branch_ops h (wr_work r))" k "branch_ops h (wr_work r)" F P w]
  by (auto simp: branch_def split: if_splits)

lemma branch_ops_cleared: "branch_ops (\<lambda>a. if a \<in> set as then h a \<lparr> tx_ops := [] \<rparr> else h a) as = []"
  by (simp add: branch_ops_def)

lemma abort_branch:
  assumes "distinct (wr_work r)" "holds k (branch_ops h (wr_work r)) F P w" "DtxWorkRecord_abort M r (h, w) = (r', h', w')"
  shows "inv k F P w'" "view w' = view w" "branch_ops h' (wr_work r) = []" "r' = r \<lparr> wr_txn := None \<rparr>"
proof -
  define w0 where "w0 = (case wr_txn r of Some txn \<Rightarrow> store_abort M txn w | None \<Rightarrow> w)"
  have "fold (at_buffer (TxBuffer_rollback M)) (wr_work r) (h, w0) = (h', w')" and r: "r' = r \<lparr> wr_txn := None \<rparr>"
    using assms(3) by (auto simp: DtxWorkRecord_abort_def w0_def split: option.splits)
  moreover have "holds k (branch_ops h (wr_work r)) F P w0" "view w0 = view w"
    using assms(2) store_law(5) by (auto simp: w0_def split: option.splits)
  ultimately show "inv k F P w'" "view w' = view w" "branch_ops h' (wr_work r) = []" "r' = r \<lparr> wr_txn := None \<rparr>"
    using rollback_work [of "wr_work r" k h F P w0 h' w'] assms(1) by (simp_all add: branch_ops_cleared)
qed

lemma branch_prepare:
  assumes b: "branch k r h F P w" and new: "\<not> wr_prepared r"
    and run: "DtxWorkRecord_prepare M xid r (h, w) = (res, r', h', w')"
  shows "res = Inr True \<Longrightarrow> branch k r' h' F P w' \<and> wr_prepared r' \<and> view w' = view w \<and> wr_work r' = wr_work r"
    and "res = Inr False \<Longrightarrow> inv k F P w' \<and> view w' = view w \<and> branch_ops h' (wr_work r) = []"
    and "res = Inl e \<Longrightarrow> h' = h \<and> w' = w"
proof -
  obtain c r1 where c: "DtxWorkRecord_check h r = (c, r1)"
    by (cases "DtxWorkRecord_check h r")
  note cr = DtxWorkRecord_check_result [OF c]
  obtain txn w0 where s: "store_begin_xid M xid w = (txn, w0)"
    by (cases "store_begin_xid M xid w")
  obtain ok h2 w2 where p: "prepare_work M txn (wr_work r) (h, w0) = (ok, h2, w2)"
    by (cases "prepare_work M txn (wr_work r) (h, w0)")
  have w0: "view w0 = view w" "inv (length (branch_ops h (wr_work r)) + k) (mset (branch_ops h (wr_work r)) + F) P w0"
    using s store_law(2) [of _ _ P xid w] b new by (simp_all add: branch_def)
  have d: "distinct (wr_work r)"
    using b by (simp add: branch_def)
  note pc = prepare_work_correct [OF d w0(2) p]
  consider (error) e where "c = Inl e" | (no) "c = Inr False" | (fail) "c = Inr True" "\<not> ok" | (good) "c = Inr True" ok
    by (cases c) auto
  then have "(res = Inr True \<longrightarrow> branch k r' h' F P w' \<and> wr_prepared r' \<and> view w' = view w \<and> wr_work r' = wr_work r) \<and>
    (res = Inr False \<longrightarrow> inv k F P w' \<and> view w' = view w \<and> branch_ops h' (wr_work r) = []) \<and>
    (\<forall>e. res = Inl e \<longrightarrow> h' = h \<and> w' = w)"
  proof cases
    case error
    then show ?thesis
      using run c by (auto simp: DtxWorkRecord_prepare_def)
  next
    case no
    obtain r2 h3 w3 where a: "DtxWorkRecord_abort M r1 (h, w) = (r2, h3, w3)"
      by (metis prod.exhaust)
    note ab = abort_branch [OF _ _ a, of k F P]
    show ?thesis
      using run c no a ab d branch_holds [OF b] cr(1,3) new by (auto simp: DtxWorkRecord_prepare_def)
  next
    case fail
    obtain r2 h3 w3 where a: "DtxWorkRecord_abort M (r1 \<lparr> wr_txn := Some txn \<rparr>) (h2, w2) = (r2, h3, w3)"
      by (metis prod.exhaust)
    note ab = abort_branch [OF _ _ a, of k F P]
    show ?thesis
      using run c fail s p a ab d pc w0(1) cr(1,3) new by (auto simp: DtxWorkRecord_prepare_def)
  next
    case good
    then show ?thesis
      using run c s p pc w0(1) cr(1,3) d store_law(3) by (auto simp: DtxWorkRecord_prepare_def branch_def)
  qed
  then show "res = Inr True \<Longrightarrow> branch k r' h' F P w' \<and> wr_prepared r' \<and> view w' = view w \<and> wr_work r' = wr_work r"
    "res = Inr False \<Longrightarrow> inv k F P w' \<and> view w' = view w \<and> branch_ops h' (wr_work r) = []"
    "res = Inl e \<Longrightarrow> h' = h \<and> w' = w"
    by simp_all
qed

lemma branch_commit:
  assumes b: "branch k r h F P w" and run: "DtxWorkRecord_commit M onePhase r (h, w) = (res, r', h', w')"
  shows "res = Inr True \<Longrightarrow> inv k F P w' \<and> branch_ops h' (wr_work r) = [] \<and> onePhase = (\<not> wr_prepared r) \<and>
      (if wr_prepared r then view w' = fold eff (branch_ops h (wr_work r)) (view w)
       else \<exists>txn w0 h1 w1. store_begin M w = (txn, w0) \<and> prepare_work M txn (wr_work r) (h, w0) = (True, h1, w1) \<and>
         view w' = fold eff (branch_ops h1 (wr_work r)) (view w))"
    and "res = Inr False \<Longrightarrow> inv k F P w' \<and> view w' = view w \<and> branch_ops h' (wr_work r) = []"
    and "res = Inl e \<Longrightarrow> h' = h \<and> w' = w"
proof -
  obtain c r1 where c: "DtxWorkRecord_check h r = (c, r1)"
    by (cases "DtxWorkRecord_check h r")
  note cr = DtxWorkRecord_check_result [OF c]
  have d: "distinct (wr_work r)"
    using b by (simp add: branch_def)
  let ?good = "inv k F P w' \<and> branch_ops h' (wr_work r) = [] \<and> onePhase = (\<not> wr_prepared r) \<and>
      (if wr_prepared r then view w' = fold eff (branch_ops h (wr_work r)) (view w)
       else \<exists>txn w0 h1 w1. store_begin M w = (txn, w0) \<and> prepare_work M txn (wr_work r) (h, w0) = (True, h1, w1) \<and>
         view w' = fold eff (branch_ops h1 (wr_work r)) (view w))"
  let ?bad = "inv k F P w' \<and> view w' = view w \<and> branch_ops h' (wr_work r) = []"
  consider (error) e where "c = Inl e" | (no) "c = Inr False"
    | (wrong) "c = Inr True" "onePhase = wr_prepared r" | (two) txn where "c = Inr True" "wr_prepared r" "\<not> onePhase" "wr_txn r = Some txn"
    | (one) "c = Inr True" "\<not> wr_prepared r" onePhase
    using b by (cases c) (auto simp: branch_def split: if_splits)
  then have "(res = Inr True \<longrightarrow> ?good) \<and> (res = Inr False \<longrightarrow> ?bad) \<and> (\<forall>e. res = Inl e \<longrightarrow> h' = h \<and> w' = w)"
  proof cases
    case error
    then show ?thesis
      using run c by (auto simp: DtxWorkRecord_commit_def)
  next
    case no
    obtain r2 h3 w3 where a: "DtxWorkRecord_abort M r1 (h, w) = (r2, h3, w3)"
      by (metis prod.exhaust)
    note ab = abort_branch [OF _ _ a, of k F P]
    show ?thesis
      using run c no a ab d branch_holds [OF b] cr(1) by (auto simp: DtxWorkRecord_commit_def)
  next
    case wrong
    then show ?thesis
      using run c cr(3) by (auto simp: DtxWorkRecord_commit_def split: if_splits)
  next
    case two
    obtain h2 w2 where f: "fold (at_buffer (TxBuffer_commit M)) (wr_work r) (h, store_commit M txn w) = (h2, w2)"
      by fastforce
    have "inv k F (mset (branch_ops h (wr_work r)) + P) (store_commit M txn w)" "view (store_commit M txn w) = view w"
      using b two store_law(4) by (simp_all add: branch_def)
    with commit_work [OF d _ f, of k F P] show ?thesis
      using run c two f cr(1-3) by (auto simp: DtxWorkRecord_commit_def branch_ops_cleared)
  next
    case one
    obtain txn w0 where s: "store_begin M w = (txn, w0)"
      by (cases "store_begin M w")
    obtain ok h1 w1 where p: "prepare_work M txn (wr_work r) (h, w0) = (ok, h1, w1)"
      by (cases "prepare_work M txn (wr_work r) (h, w0)")
    have w0: "view w0 = view w" "inv (length (branch_ops h (wr_work r)) + k) (mset (branch_ops h (wr_work r)) + F) P w0"
      using s store_law(1) [of _ _ P w] b one(2) by (simp_all add: branch_def)
    note pc = prepare_work_correct [OF d w0(2) p]
    show ?thesis
    proof (cases ok)
      case True
      obtain h2 w2 where f: "fold (at_buffer (TxBuffer_commit M)) (wr_work r) (h1, store_commit M txn w1) = (h2, w2)"
        by fastforce
      have "inv k F (mset (branch_ops h1 (wr_work r)) + P) (store_commit M txn w1)" "view (store_commit M txn w1) = view w"
        using pc True store_law(4) w0(1) by simp_all
      with commit_work [OF d _ f, of k F P] have "inv k F P w2" "view w2 = fold eff (branch_ops h1 (wr_work r)) (view w)"
        "branch_ops h2 (wr_work r) = []"
        by (simp_all add: branch_ops_cleared)
      moreover have "res = Inr True" "h' = h2" "w' = w2"
        using run c one s p f True cr(1,3) by (simp_all add: DtxWorkRecord_commit_def)
      ultimately show ?thesis
        using one s p True by auto
    next
      case False
      obtain r2 h3 w3 where a: "DtxWorkRecord_abort M r1 (h1, store_abort M txn w1) = (r2, h3, w3)"
        by (metis prod.exhaust)
      have "holds k (branch_ops h1 (wr_work r1)) F P (store_abort M txn w1)" "view (store_abort M txn w1) = view w"
        using pc store_law(5) w0(1) cr(1) by simp_all
      with abort_branch [OF _ _ a, of k F P] have "inv k F P w3" "view w3 = view w" "branch_ops h3 (wr_work r) = []"
        using d cr(1) by simp_all
      moreover have "res = Inr False" "h' = h3" "w' = w3"
        using run c one s p a False cr(1,3) by (simp_all add: DtxWorkRecord_commit_def)
      ultimately show ?thesis
        by simp
    qed
  qed
  then show "res = Inr True \<Longrightarrow> ?good" "res = Inr False \<Longrightarrow> ?bad" "res = Inl e \<Longrightarrow> h' = h \<and> w' = w"
    by blast+
qed

lemma branch_rollback:
  assumes b: "branch k r h F P w" and run: "DtxWorkRecord_rollback M r (h, w) = (res, r', h', w')"
  shows "res = Inr () \<Longrightarrow> inv k F P w' \<and> view w' = view w \<and> branch_ops h' (wr_work r) = []"
proof -
  assume "res = Inr ()"
  then obtain ok r1 where c: "DtxWorkRecord_check h r = (Inr ok, r1)" "DtxWorkRecord_abort M r1 (h, w) = (r', h', w')"
    using run by (auto simp: DtxWorkRecord_rollback_def split: prod.splits sum.splits)
  then show ?thesis
    using abort_branch [OF _ _ c(2), of k F P] DtxWorkRecord_check_result(1) [OF c(1)] branch_holds [OF b] b by (simp add: branch_def)
qed

end

lemma prepare_success:
  assumes "DtxWorkRecord_prepare M xid r (h, w) = (Inr True, r1, h1, w1)" "\<not> wr_prepared r"
  shows "\<exists>txn w0 w2. store_begin_xid M xid w = (txn, w0) \<and> prepare_work M txn (wr_work r) (h, w0) = (True, h1, w2)"
proof -
  obtain c r2 where c: "DtxWorkRecord_check h r = (c, r2)"
    by (cases "DtxWorkRecord_check h r")
  note cr = DtxWorkRecord_check_result [OF c]
  obtain txn w0 where s: "store_begin_xid M xid w = (txn, w0)"
    by (cases "store_begin_xid M xid w")
  obtain ok h2 w2 where p: "prepare_work M txn (wr_work r) (h, w0) = (ok, h2, w2)"
    by (cases "prepare_work M txn (wr_work r) (h, w0)")
  show ?thesis
    using assms c s p cr(1,3) by (cases c; cases ok)
      (auto simp: DtxWorkRecord_prepare_def DtxWorkRecord_abort_def Let_def split_beta split: bool.splits option.splits)
qed

section \<open>The protocol of the manager\<close>

lemma on_timeout_Inr: "on_timeout xid res = (Inr v, m') \<longleftrightarrow> res = (Inr v, m')"
  by (auto simp: on_timeout_def split: prod.splits sum.splits qpid_error.splits)

lemma then_remove_Inr:
  "then_remove xid res = (Inr v, m') \<longleftrightarrow> (\<exists>m. res = (Inr v, m) \<and> DtxManager_remove xid m = Inr m')"
  by (auto simp: then_remove_def split: prod.splits sum.splits)

lemma with_work_Inr:
  "with_work xid f m = (Inr v, m') \<longleftrightarrow>
    (\<exists>r r' hw. mgr_work m xid = Some r \<and> f r (mgr_heap m) = (Inr v, r', hw) \<and> m' = putWork xid r' hw m)"
  by (auto simp: with_work_def getWork_def split: prod.splits sum.splits option.splits)

lemma commit_check:
  assumes "DtxWorkRecord_commit M onePhase r hw = (Inr True, r', hw')"
  shows "\<exists>r1. DtxWorkRecord_check (fst hw) r = (Inr True, r1) \<and> onePhase = (\<not> wr_prepared r1)"
proof -
  obtain h w c r1 where hw: "hw = (h, w)" and c: "DtxWorkRecord_check h r = (c, r1)"
    by (metis prod.exhaust)
  consider (error) e where "c = Inl e" | (no) "c = Inr False" | (wrong) "c = Inr True" "onePhase = wr_prepared r1"
    | (right) "c = Inr True" "onePhase = (\<not> wr_prepared r1)"
    by (cases c) auto
  then show ?thesis
  proof cases
    case error
    then show ?thesis
      using assms c hw by (simp add: DtxWorkRecord_commit_def)
  next
    case no
    then show ?thesis
      using assms c hw by (simp add: DtxWorkRecord_commit_def split_beta Let_def)
  next
    case wrong
    then show ?thesis
      using assms c hw by (cases "wr_prepared r1") (simp_all add: DtxWorkRecord_commit_def)
  next
    case right
    then show ?thesis
      using c hw by simp
  qed
qed

text \<open>
  C24. A branch is committed only when it may be: if the manager answers a commit with success, the
  xid was known, the branch had neither expired nor been marked for rollback, and the one-phase option
  was used exactly if the branch had not been prepared. Unless the branch was complete before the call,
  every buffer of it had been ended and none had failed; a branch that was complete had its buffers
  examined by the earlier call that completed it (\<open>DtxWorkRecord_check_result\<close>), and they are not
  examined again. The record is gone afterwards and its timer cancelled.
\<close>

theorem DtxManager_commit_requires:
  assumes "DtxManager_commit M xid onePhase m = (Inr True, m')"
  shows "\<exists>r. mgr_work m xid = Some r \<and> \<not> wr_expired r \<and> onePhase = (\<not> wr_prepared r) \<and>
    \<not> wr_rolledback r \<and>
    (\<not> wr_completed r \<longrightarrow> (\<forall>a\<in>set (wr_work r). db_ended (fst (mgr_heap m) a) \<and> \<not> db_failed (fst (mgr_heap m) a))) \<and>
    mgr_work m' = (mgr_work m)(xid := None) \<and> (\<forall>t\<in>set (mgr_timers m'). fst t \<noteq> xid)"
proof -
  obtain r r' hw where r: "mgr_work m xid = Some r" and c: "DtxWorkRecord_commit M onePhase r (mgr_heap m) = (Inr True, r', hw)"
    and m': "DtxManager_remove xid (putWork xid r' hw m) = Inr m'"
    using assms by (auto simp: DtxManager_commit_def on_timeout_Inr then_remove_Inr with_work_Inr)
  obtain r1 where r1: "DtxWorkRecord_check (fst (mgr_heap m)) r = (Inr True, r1)" "onePhase = (\<not> wr_prepared r1)"
    using commit_check [OF c] by blast
  have "\<not> wr_expired r" "wr_prepared r1 = wr_prepared r"
    "\<not> wr_completed r \<longrightarrow> (\<forall>a\<in>set (wr_work r). db_ended (fst (mgr_heap m) a) \<and> \<not> db_failed (fst (mgr_heap m) a))"
    using DtxWorkRecord_check_result(3,5) [OF r1(1)] by simp_all
  moreover have "\<not> wr_rolledback r"
    using r1(1) \<open>\<not> wr_expired r\<close> DtxWorkRecord_check_result(5) [OF r1(1)]
    by (cases "wr_completed r") (auto simp: DtxWorkRecord_check_def)
  moreover have "mgr_work m' = (mgr_work m)(xid := None)" "mgr_timers m' = filter (\<lambda>t. fst t \<noteq> xid) (mgr_timers m)"
    using m' by (auto simp: DtxManager_remove_def putWork_def)
  ultimately show ?thesis
    using r r1(2) by simp
qed

lemma rollback_clears:
  "a \<in> set as \<Longrightarrow> tx_ops (fst (fold (at_buffer (TxBuffer_rollback M)) as (h, w)) a) = []"
proof (induction as arbitrary: h w rule: rev_induct)
  case (snoc b as)
  then show ?case
    by (cases "fold (at_buffer (TxBuffer_rollback M)) as (h, w)")
      (auto simp: at_buffer_simps dest!: meta_spec [of _ h] meta_spec [of _ w])
qed simp

lemma prepare_empty:
  assumes "\<forall>w. fst (observer_prepare M w)" "\<forall>a\<in>set as. tx_ops (h a) = []"
  shows "fst (prepare_work M txn as (h, w))"
  using assms(2)
proof (induction as arbitrary: h w)
  case (Cons a as)
  obtain w1 where "observer_prepare M w = (True, w1)"
    using assms(1) by (metis prod.collapse)
  then show ?case
    using Cons by (simp add: TxBuffer_prepare_def)
qed simp

text \<open>
  A prepare that fails because an operation cannot be prepared rolls the branch back, but its record
  stays, neither prepared nor marked as rolled back. A one-phase commit then finds empty buffers and
  reports success, though none of the work of the branch has been done.
\<close>

theorem dtx_failed_prepare_then_commit:
  assumes "DtxWorkRecord_prepare M xid r hw = (Inr False, r', hw')" "\<not> wr_rolledback r'" "\<forall>w. fst (observer_prepare M w)"
  shows "fst (DtxWorkRecord_commit M True r' hw') = Inr True"
proof -
  obtain h w where hw: "hw = (h, w)"
    by (cases hw)
  obtain c r1 where c: "DtxWorkRecord_check h r = (c, r1)"
    by (cases "DtxWorkRecord_check h r")
  obtain txn w0 where s: "store_begin_xid M xid w = (txn, w0)"
    by (cases "store_begin_xid M xid w")
  obtain ok h2 w2 where p: "prepare_work M txn (wr_work r1) (h, w0) = (ok, h2, w2)"
    by (cases "prepare_work M txn (wr_work r1) (h, w0)")
  have ab: "\<exists>w''. hw' = fold (at_buffer (TxBuffer_rollback M)) (wr_work r1) w''" "wr_work r' = wr_work r1" "\<not> wr_prepared r'"
    "wr_completed r' = wr_completed r1" "wr_expired r' = wr_expired r1" "wr_rolledback r' = wr_rolledback r1" "\<exists>b. c = Inr b"
    using assms(1) c s p unfolding hw
    by (auto simp: DtxWorkRecord_prepare_def DtxWorkRecord_abort_def Let_def split_beta
        split: sum.splits if_splits option.splits bool.splits)
  then obtain b where b: "c = Inr b"
    by blast
  have done_: "wr_completed r'" "\<not> wr_expired r'" "b = (\<not> wr_rolledback r1)"
    using DtxWorkRecord_check_result(4,5) [OF c] b ab by simp_all
  have "\<forall>a\<in>set (wr_work r'). tx_ops (fst hw' a) = []"
    using ab(1,2) rollback_clears by (metis prod.collapse)
  then have prep: "fst (prepare_work M t (wr_work r') (fst hw', w))" for t w
    using prepare_empty [OF assms(3)] by blast
  have "DtxWorkRecord_check (fst hw') r' = (Inr True, r')"
    using done_ assms(2) by (simp add: DtxWorkRecord_check_def)
  then show ?thesis
    using prep [of "fst (store_begin M (snd hw'))" "snd (store_begin M (snd hw'))"] ab(3)
    by (cases hw') (auto simp: DtxWorkRecord_commit_def Let_def split: prod.splits bool.splits)
qed

end
