(* ===== verification/Tx_Operations.thy ===== *)
theory Tx_Operations
  imports Delivery_Record Dtx_Manager
begin

text \<open>
  The operations of a transaction: a message published to a queue (\<open>TxPublish\<close> in \<open>broker/Queue.cpp\<close>),
  the acknowledgement of a session's deliveries in a local transaction (\<open>broker/TxAccept.cpp\<close>) and in
  a distributed one (\<open>broker/DtxAck.cpp\<close>), as an implementation of the interface of transactions. The
  observer is the default one, which does nothing; the calls on the store are a log.
\<close>

section \<open>The operations\<close>

datatype 'p TxOp =
    TxPublish "'p QMessage" string bool
  | TxAccept SequenceSet
  | DtxAck "DeliveryRecord list"

datatype store_call =
    StoreBegin
  | StoreBeginXid string
  | StorePrepare nat
  | StoreCommit nat
  | StoreAbort nat

text \<open>\<open>TxAccept\<close> refers to the records of its session, \<open>tw_unacked\<close>. A context of the store is its place in the log.\<close>

record 'p tx_world =
  tw_queues :: "'p queues"
  tw_unacked :: "DeliveryRecord list"
  tw_store :: "store_call list"

definition TxPublish_prepare :: "'p MessageContent \<Rightarrow> ('p QMessage \<Rightarrow> bool) \<Rightarrow> 'p QMessage \<Rightarrow> string \<Rightarrow> bool \<Rightarrow>
    'p tx_world \<Rightarrow> bool \<times> 'p TxOp \<times> 'p tx_world" where
  "TxPublish_prepare e store_fails m qn prepared w =
    (case Queue_enqueue e store_fails m (tw_queues w qn) of
       (Inr b, q) \<Rightarrow> (True, TxPublish m qn b, w \<lparr> tw_queues := (tw_queues w)(qn := q) \<rparr>)
     | (Inl err, q) \<Rightarrow> (False, TxPublish m qn prepared, w \<lparr> tw_queues := (tw_queues w)(qn := q) \<rparr>))"

definition TxPublish_commit :: "'p MessageContent \<Rightarrow> 'p QMessage \<Rightarrow> string \<Rightarrow> bool \<Rightarrow> 'p tx_world \<Rightarrow> 'p tx_world" where
  "TxPublish_commit e m qn prepared w =
    (if prepared then
       (case Queue_push e m (tw_queues w qn) of
          Inr q \<Rightarrow> w \<lparr> tw_queues := (tw_queues w)(qn := q) \<rparr>
        | Inl err \<Rightarrow> w)
     else w)"

definition TxPublish_rollback :: "'p QMessage \<Rightarrow> string \<Rightarrow> bool \<Rightarrow> 'p tx_world \<Rightarrow> 'p tx_world" where
  "TxPublish_rollback m qn prepared w =
    (if prepared then w \<lparr> tw_queues := (tw_queues w)(qn := enqueueAborted m (tw_queues w qn)) \<rparr> else w)"

definition TxAccept_prepare :: "'p MessageContent \<Rightarrow> SequenceSet \<Rightarrow> 'p tx_world \<Rightarrow> bool \<times> 'p TxOp \<times> 'p tx_world" where
  "TxAccept_prepare e acked w =
    (case TxAccept_each (\<lambda>r qs. res_bind (DeliveryRecord_dequeue e True r qs) (\<lambda>qs. Inr (r, qs)))
            acked (tw_unacked w) (tw_queues w) of
       (res, unacked, qs) \<Rightarrow> (res = Inr (), TxAccept acked, w \<lparr> tw_queues := qs, tw_unacked := unacked \<rparr>))"

definition TxAccept_commit :: "'p MessageContent \<Rightarrow> SequenceSet \<Rightarrow> 'p tx_world \<Rightarrow> 'p tx_world" where
  "TxAccept_commit e acked w =
    (case TxAccept_each (\<lambda>r qs. res_bind (DeliveryRecord_committed e r qs) (\<lambda>qs. Inr (r, qs)))
            acked (tw_unacked w) (tw_queues w) of
       (Inl err, unacked, qs) \<Rightarrow> w \<lparr> tw_queues := qs, tw_unacked := unacked \<rparr>
     | (Inr _, unacked, qs) \<Rightarrow>
         (case TxAccept_each (\<lambda>r qs. Inr (snd (setEnded r), qs)) acked unacked qs of
            (Inl err, unacked, qs) \<Rightarrow> w \<lparr> tw_queues := qs, tw_unacked := unacked \<rparr>
          | (Inr _, unacked, qs) \<Rightarrow>
              let unacked =
                (case (RangeSet_front acked, RangeSet_back acked) of
                   (Some f, Some b) \<Rightarrow> erase_range isRedundant (findRange unacked f b) unacked
                 | _ \<Rightarrow> unacked)
              in w \<lparr> tw_queues := qs, tw_unacked := unacked \<rparr>))"

text \<open>The loops of \<open>DtxAck\<close>; an exception ends them.\<close>

fun each_pending :: "(DeliveryRecord \<Rightarrow> 'p queues \<Rightarrow> 'p queues result) \<Rightarrow> DeliveryRecord list \<Rightarrow> 'p queues \<Rightarrow>
    bool \<times> 'p queues" where
  "each_pending f [] qs = (True, qs)"
| "each_pending f (r # rs) qs = (case f r qs of Inl err \<Rightarrow> (False, qs) | Inr qs \<Rightarrow> each_pending f rs qs)"

definition DtxAck_init :: "SequenceSet \<Rightarrow> DeliveryRecord list \<Rightarrow> 'p TxOp" where
  "DtxAck_init acked unacked = DtxAck (filter (coveredBy acked) unacked)"

definition DtxAck_prepare :: "'p MessageContent \<Rightarrow> DeliveryRecord list \<Rightarrow> 'p tx_world \<Rightarrow> bool \<times> 'p TxOp \<times> 'p tx_world" where
  "DtxAck_prepare e pending w =
    (case each_pending (DeliveryRecord_dequeue e True) pending (tw_queues w) of
       (ok, qs) \<Rightarrow> (ok, DtxAck pending, w \<lparr> tw_queues := qs \<rparr>))"

definition DtxAck_commit :: "'p MessageContent \<Rightarrow> DeliveryRecord list \<Rightarrow> 'p tx_world \<Rightarrow> 'p tx_world" where
  "DtxAck_commit e pending w =
    w \<lparr> tw_queues := snd (each_pending (DeliveryRecord_committed e) pending (tw_queues w)) \<rparr>"

definition DtxAck_rollback :: "'p MessageContent \<Rightarrow> DeliveryRecord list \<Rightarrow> 'p tx_world \<Rightarrow> 'p tx_world" where
  "DtxAck_rollback e pending w =
    w \<lparr> tw_queues := fold (DeliveryRecord_requeue e) pending (tw_queues w) \<rparr>"

section \<open>The interface\<close>

definition log_store :: "store_call \<Rightarrow> 'p tx_world \<Rightarrow> 'p tx_world" where
  "log_store c w = w \<lparr> tw_store := tw_store w @ [c] \<rparr>"

definition broker_tx :: "'p MessageContent \<Rightarrow> ('p QMessage \<Rightarrow> bool) \<Rightarrow> ('p TxOp, nat, 'p tx_world) tx_methods" where
  "broker_tx e store_fails =
    \<lparr> op_prepare = (\<lambda>ctxt op w. case op of
        TxPublish m qn prepared \<Rightarrow> TxPublish_prepare e store_fails m qn prepared w
      | TxAccept acked \<Rightarrow> TxAccept_prepare e acked w
      | DtxAck pending \<Rightarrow> DtxAck_prepare e pending w),
      op_commit = (\<lambda>op w. case op of
        TxPublish m qn prepared \<Rightarrow> TxPublish_commit e m qn prepared w
      | TxAccept acked \<Rightarrow> TxAccept_commit e acked w
      | DtxAck pending \<Rightarrow> DtxAck_commit e pending w),
      op_rollback = (\<lambda>op w. case op of
        TxPublish m qn prepared \<Rightarrow> TxPublish_rollback m qn prepared w
      | TxAccept acked \<Rightarrow> w
      | DtxAck pending \<Rightarrow> DtxAck_rollback e pending w),
      op_callObserver = (\<lambda>op w. w),
      observer_prepare = (\<lambda>w. (True, w)),
      observer_commit = (\<lambda>w. w),
      observer_rollback = (\<lambda>w. w),
      store_begin = (\<lambda>w. (length (tw_store w), log_store StoreBegin w)),
      store_begin_xid = (\<lambda>xid w. (length (tw_store w), log_store (StoreBeginXid xid) w)),
      store_prepare = (\<lambda>ctxt. log_store (StorePrepare ctxt)),
      store_commit = (\<lambda>ctxt. log_store (StoreCommit ctxt)),
      store_abort = (\<lambda>ctxt. log_store (StoreAbort ctxt)) \<rparr>"

end
