(* ===== verification/Tx_Atomic.thy ===== *)
theory Tx_Atomic
  imports Tx_Operations "HOL-Library.Sublist"
begin

text \<open>
  The operations of the broker satisfy the contract of two-phase operations on queues that reject
  at their limit: local transactions and the branches of distributed ones are atomic.
\<close>

section \<open>What the operations do to a queue\<close>

definition quiet :: "'p Queue \<Rightarrow> 'p Queue \<Rightarrow> bool" where
  "quiet q q' \<longleftrightarrow> q_messages q' = q_messages q \<and> q_current q' = q_current q \<and> q_sequence q' = q_sequence q \<and>
     q_class q' = q_class q \<and> q_settings q' = q_settings q \<and> q_deleted q' = q_deleted q"

lemma quiet_inv:
  assumes "quiet q q'"
  shows "queue_inv e rs q' = queue_inv e rs q" "contents e q' = contents e q"
  using assms queue_inv_cong [of q' q] by (simp_all add: quiet_def)

lemma quiet_refl [simp]: "quiet q q"
  by (simp add: quiet_def)

lemma quiet_trans: "quiet q q' \<Longrightarrow> quiet q' q'' \<Longrightarrow> quiet q q''"
  by (simp add: quiet_def)

lemma dequeue_ctxt_quiet: "\<exists>q'. Queue_dequeue e True c q = Inr q' \<and> quiet q q'"
  by (cases "MessageDeque_find e (q_messages q) c")
    (auto simp: Queue_dequeue_def UsageBarrier_acquire_def UsageBarrier_release_def end_autodelete_def quiet_def
      log_events_def Let_def)

lemma enqueue_plain:
  assumes "q_class q = Plain_Queue" "Queue_enqueue e store_fails m q = (r, q')"
  shows "q_messages q' = q_messages q \<and> q_sequence q' = q_sequence q \<and> q_class q' = q_class q \<and> q_settings q' = q_settings q \<and>
    q_deleted q' = q_deleted q \<and> (r = Inr b \<longrightarrow> b = (\<not> q_deleted q))"
  using assms
  by (auto simp: Queue_enqueue_def UsageBarrier_acquire_def UsageBarrier_release_def checkDepth_def Queue_checkDepth_def
      throw_if_def enqueueAborted_def log_events_def Let_def split: if_splits)

lemma deleted_length:
  fixes e :: "'p MessageContent" and d :: "'p QMessage IndexedDeque"
  shows "length (messages (snd (MessageDeque_deleted e d c))) \<le> length (messages d)"
proof -
  have clean: "length (messages (clean G d)) \<le> length (messages d)" for G and d :: "'p QMessage IndexedDeque"
    using clean_loop_drop [of G 0 "messages d"] by (auto simp: clean_def)
  show ?thesis
    using clean [of "message_ops e" "d \<lparr> messages := (messages d)[i := x] \<rparr>" for i x]
    by (auto simp: MessageDeque_deleted_def deque_deleted_def Let_def split: prod.splits)
qed

lemma committed_queue:
  assumes inv: "queue_inv e rs q" and auto: "\<not> autodelete (q_settings q)"
  shows "\<exists>q'. Queue_dequeueCommitted e c q = Inr q' \<and> queue_inv e rs q' \<and>
    contents e q' = filter (\<lambda>m. \<not> (valid c \<and> msg_sequence m = position c)) (contents e q) \<and>
    q_sequence q' = q_sequence q \<and> q_class q' = q_class q \<and> q_settings q' = q_settings q \<and>
    length (messages (q_messages q')) \<le> length (messages (q_messages q))"
proof (cases "MessageDeque_find e (q_messages q) c")
  case None
  have "\<not> (valid c \<and> msg_sequence m = position c)" if "m \<in> set (contents e q)" for m
    using that find_contents [OF inv, of c m] None by auto
  then show ?thesis
    using None inv by (auto simp: Queue_dequeueCommitted_def intro!: filter_True [symmetric])
next
  case (Some m)
  have v: "valid c"
    using Some by (rule find_valid)
  have m: "m \<in> set (contents e q)" "position c = msg_sequence m"
    using find_contents [OF inv v, of m] Some by simp_all
  have "Queue_dequeueCommitted e c q = Inr (log_events [ObserveDequeue m] (dropped e c m q))"
    using Some auto observeDequeue_auto [of False m False q]
    by (simp add: Queue_dequeueCommitted_def Let_def split_beta delete_observed end_autodelete_def del: snd_observeDequeue)
  moreover have "remove1 m (contents e q) = filter (\<lambda>x. \<not> (valid c \<and> msg_sequence x = position c)) (contents e q)"
    using filter_other [OF contents_distinct [OF inv] m(1)] v m(2) by simp
  ultimately show ?thesis
    using dropped_inv [OF inv v m(2,1)] deleted_length [of e "q_messages q" c] by (auto simp: dropped_def)
qed

text \<open>A message without regard to its state: what transactions promise about.\<close>

definition messages_of :: "'p MessageContent \<Rightarrow> 'p Queue \<Rightarrow> 'p QMessage list" where
  "messages_of e q = map (\<lambda>m. m \<lparr> msg_state := AVAILABLE \<rparr>) (contents e q)"

lemma messages_of_sequences: "msg_sequence ` set (messages_of e q) = msg_sequence ` set (contents e q)"
  by (simp add: messages_of_def image_image)

lemma release_queue:
  assumes inv: "queue_inv e rs q" and c: "valid c" "position c \<in> msg_sequence ` set (contents e q)"
  shows "queue_inv e rs (Queue_release e c True q) \<and> messages_of e (Queue_release e c True q) = messages_of e q \<and>
    q_sequence (Queue_release e c True q) = q_sequence q \<and> q_class (Queue_release e c True q) = q_class q \<and>
    q_settings (Queue_release e c True q) = q_settings q \<and>
    length (messages (q_messages (Queue_release e c True q))) = length (messages (q_messages q))"
proof (cases "q_deleted q")
  case False
  obtain m where m: "m \<in> set (contents e q)" "position c = msg_sequence m"
    using c(2) by auto
  have law: "fst (MessageDeque_release e (q_messages q) c) = Some (m \<lparr> msg_state := AVAILABLE \<rparr>)"
    "live (message_ops e) (messages (snd (MessageDeque_release e (q_messages q) c))) =
      map (\<lambda>x. if msg_sequence x = position c then x \<lparr> msg_state := AVAILABLE \<rparr> else x) (contents e q)"
    using message_deque.release_law [of e "q_messages q" c m] inv c(1) m by (simp_all add: queue_inv_def contents_def)
  obtain d where d: "MessageDeque_release e (q_messages q) c = (Some (m \<lparr> msg_state := AVAILABLE \<rparr>), d)"
    using law(1) by (metis prod.collapse)
  obtain ns ls where pop: "populate NotificationSet_init (q_listeners q) = (ns, ls)"
    by fastforce
  have run: "Queue_release e c True q = notify_all (notify ns) (log_events [ObserveRequeue (m \<lparr> msg_state := AVAILABLE \<rparr>)]
      (q \<lparr> q_messages := d, q_listeners := ls \<rparr>))"
    using False d pop by (simp add: Queue_release_def Let_def)
  have "contents e (Queue_release e c True q) =
      map (\<lambda>x. if msg_sequence x = position c then x \<lparr> msg_state := AVAILABLE \<rparr> else x) (contents e q)"
    using law(2) d by (simp add: run contents_def)
  then have "messages_of e (Queue_release e c True q) = messages_of e q"
    by (simp add: messages_of_def)
  moreover have "length (messages d) = length (messages (q_messages q))"
    using d by (auto simp: MessageDeque_release_def deque_release_def Let_def split: prod.splits if_splits)
  ultimately show ?thesis
    using release_inv [OF inv c(1) m(2,1), of True] by (simp add: run) (simp add: log_events_def notify_all_def)
qed (use inv in \<open>simp add: Queue_release_def\<close>)

section \<open>The invariant\<close>

text \<open>The messages for which prepared operations have reserved space on a queue.\<close>

definition reserved :: "string \<Rightarrow> 'p TxOp multiset \<Rightarrow> 'p QMessage multiset" where
  "reserved qn P = (\<Sum>op\<in>#P. case op of TxPublish m n prepared \<Rightarrow> if prepared \<and> n = qn then {#m#} else {#} | _ \<Rightarrow> {#})"

text \<open>The messages that records still hold.\<close>

definition holding :: "DeliveryRecord \<Rightarrow> bool" where
  "holding r \<longleftrightarrow> dr_acquired r \<and> \<not> dr_ended r"

definition refs :: "DeliveryRecord list \<Rightarrow> (string \<times> SequenceNumber) list" where
  "refs rs = map (\<lambda>r. (dr_queue r, position (dr_msg r))) (filter holding rs)"

definition op_refs :: "'p TxOp \<Rightarrow> (string \<times> SequenceNumber) list" where
  "op_refs op = (case op of DtxAck pending \<Rightarrow> refs pending | _ \<Rightarrow> [])"

definition ack_refs :: "'p TxOp multiset \<Rightarrow> (string \<times> SequenceNumber) multiset" where
  "ack_refs X = (\<Sum>op\<in>#X. mset (op_refs op))"

text \<open>Sets are within the window of the session; the cursors of records that hold a message are valid.\<close>

definition op_wf :: "SequenceNumber \<Rightarrow> 'p TxOp \<Rightarrow> bool" where
  "op_wf base op = (case op of
     TxPublish m qn prepared \<Rightarrow> True
   | TxAccept acked \<Rightarrow> seq_set_wf base acked
   | DtxAck pending \<Rightarrow> \<forall>r\<in>set pending. holding r \<longrightarrow> valid (dr_msg r))"

definition unprepared :: "'p TxOp \<Rightarrow> bool" where
  "unprepared op = (case op of TxPublish m qn prepared \<Rightarrow> \<not> prepared | _ \<Rightarrow> True)"

definition queue_ok :: "'p MessageContent \<Rightarrow> nat \<Rightarrow> 'p TxOp multiset \<Rightarrow> string \<Rightarrow> 'p Queue \<Rightarrow> bool" where
  "queue_ok e k P qn q \<longleftrightarrow> (\<exists>rs. mset rs = reserved qn P \<and> queue_inv e rs q) \<and> q_class q = Plain_Queue \<and>
     \<not> autodelete (q_settings q) \<and> length (messages (q_messages q)) + k + size P < 2 ^ 31"

definition acks_ok :: "'p MessageContent \<Rightarrow> (string \<times> SequenceNumber) multiset \<Rightarrow> 'p tx_world \<Rightarrow> bool" where
  "acks_ok e A w \<longleftrightarrow> (\<forall>x. count A x \<le> 1) \<and> (\<forall>x\<in>#A. x \<notin> set (refs (tw_unacked w)) \<and>
     snd x \<in> msg_sequence ` set (contents e (tw_queues w (fst x))))"

definition tx_inv :: "'p MessageContent \<Rightarrow> SequenceNumber \<Rightarrow> nat \<Rightarrow> 'p TxOp multiset \<Rightarrow> 'p TxOp multiset \<Rightarrow>
    'p tx_world \<Rightarrow> bool" where
  "tx_inv e base k F P w \<longleftrightarrow> records_wf base (tw_unacked w) \<and> (\<forall>qn. queue_ok e k P qn (tw_queues w qn)) \<and>
     (\<forall>op\<in>#F. unprepared op \<and> op_wf base op) \<and> (\<forall>op\<in>#P. op_wf base op) \<and> acks_ok e (ack_refs F + ack_refs P) w"

definition tx_view :: "'p MessageContent \<Rightarrow> 'p tx_world \<Rightarrow>
    (string \<Rightarrow> 'p QMessage list \<times> SequenceNumber) \<times> DeliveryRecord list" where
  "tx_view e w = (\<lambda>qn. (messages_of e (tw_queues w qn), q_sequence (tw_queues w qn)), tw_unacked w)"

lemma reserved_simps [simp]:
  "reserved qn {#} = {#}"
  "reserved qn (add_mset op P) =
    (case op of TxPublish m n prepared \<Rightarrow> if prepared \<and> n = qn then {#m#} else {#} | _ \<Rightarrow> {#}) + reserved qn P"
  by (simp_all add: reserved_def)

lemma ack_refs_simps [simp]:
  "ack_refs {#} = {#}" "ack_refs (add_mset op X) = mset (op_refs op) + ack_refs X"
  by (simp_all add: ack_refs_def)

text \<open>The invariant of a queue does not depend on the order of the reserved messages.\<close>

lemma queue_inv_mset:
  assumes "mset rs = mset rs'"
  shows "queue_inv e rs q = queue_inv e rs' q"
proof -
  have "length rs = length rs'"
    using assms by (rule mset_eq_length)
  moreover have "sizes rs = sizes rs'"
    unfolding sizes_def using assms by (metis mset_map sum_mset_sum_list)
  ultimately show ?thesis
    by (simp add: queue_inv_def depth_ok_def)
qed

lemma queue_ok_reserved:
  assumes "queue_ok e k P qn q" "mset rs = reserved qn P"
  shows "queue_inv e rs q"
  using assms queue_inv_mset [of rs] by (metis queue_ok_def)

lemma quiet_ok: "quiet q q' \<Longrightarrow> queue_ok e k P qn q' = queue_ok e k P qn q"
  by (auto simp: queue_ok_def quiet_inv) (auto simp: quiet_def)

text \<open>Changes that only the store sees.\<close>

definition quiet_world :: "'p tx_world \<Rightarrow> 'p tx_world \<Rightarrow> bool" where
  "quiet_world w w' \<longleftrightarrow> tw_unacked w' = tw_unacked w \<and> (\<forall>qn. quiet (tw_queues w qn) (tw_queues w' qn))"

lemma quiet_world_inv:
  assumes "quiet_world w w'"
  shows "tx_inv e base k F P w' = tx_inv e base k F P w" "tx_view e w' = tx_view e w"
proof -
  have u: "tw_unacked w' = tw_unacked w" and q: "quiet (tw_queues w qn) (tw_queues w' qn)" for qn
    using assms by (simp_all add: quiet_world_def)
  have c: "queue_ok e k P qn (tw_queues w' qn) = queue_ok e k P qn (tw_queues w qn)"
    "contents e (tw_queues w' qn) = contents e (tw_queues w qn)" "q_sequence (tw_queues w' qn) = q_sequence (tw_queues w qn)" for qn
    using quiet_ok [OF q] quiet_inv(2) [OF q] q by (simp_all add: quiet_def)
  show "tx_inv e base k F P w' = tx_inv e base k F P w" "tx_view e w' = tx_view e w"
    by (simp_all add: tx_inv_def acks_ok_def tx_view_def messages_of_def u c)
qed

section \<open>The effects\<close>

definition dropped_by :: "DeliveryRecord list \<Rightarrow> string \<Rightarrow> 'p QMessage \<Rightarrow> bool" where
  "dropped_by rs qn m \<longleftrightarrow> (\<exists>r\<in>set rs. holding r \<and> valid (dr_msg r) \<and> dr_queue r = qn \<and> position (dr_msg r) = msg_sequence m)"

text \<open>The records of a session after an acknowledgement is committed.\<close>

definition settled :: "SequenceSet \<Rightarrow> DeliveryRecord list \<Rightarrow> DeliveryRecord list" where
  "settled acked rs =
    (let rs = map (\<lambda>r. if coveredBy acked r then r \<lparr> dr_ended := True \<rparr> else r) rs in
     case (RangeSet_front acked, RangeSet_back acked) of
       (Some f, Some b) \<Rightarrow> erase_range isRedundant (findRange rs f b) rs
     | _ \<Rightarrow> rs)"

definition tx_eff :: "'p TxOp \<Rightarrow> (string \<Rightarrow> 'p QMessage list \<times> SequenceNumber) \<times> DeliveryRecord list \<Rightarrow>
    (string \<Rightarrow> 'p QMessage list \<times> SequenceNumber) \<times> DeliveryRecord list" where
  "tx_eff op v =
    (case op of
       TxPublish m qn prepared \<Rightarrow>
         if prepared then
           ((fst v)(qn := (fst (fst v qn) @ [m \<lparr> msg_sequence := snd (fst v qn) + 1, msg_state := AVAILABLE \<rparr>],
                           snd (fst v qn) + 1)), snd v)
         else v
     | TxAccept acked \<Rightarrow>
         (\<lambda>qn. (filter (\<lambda>m. \<not> dropped_by (filter (coveredBy acked) (snd v)) qn m) (fst (fst v qn)), snd (fst v qn)),
          settled acked (snd v))
     | DtxAck pending \<Rightarrow>
         (\<lambda>qn. (filter (\<lambda>m. \<not> dropped_by pending qn m) (fst (fst v qn)), snd (fst v qn)), snd v))"

text \<open>Committing records: each queue loses their messages and nothing else.\<close>

definition lost :: "'p MessageContent \<Rightarrow> DeliveryRecord list \<Rightarrow> 'p queues \<Rightarrow> 'p queues \<Rightarrow> bool" where
  "lost e rs qs qs' \<longleftrightarrow> (\<forall>qn. contents e (qs' qn) = filter (\<lambda>m. \<not> dropped_by rs qn m) (contents e (qs qn)) \<and>
     q_sequence (qs' qn) = q_sequence (qs qn) \<and> (\<forall>k P. queue_ok e k P qn (qs qn) \<longrightarrow> queue_ok e k P qn (qs' qn)))"

lemma lost_refl: "lost e [] qs qs"
  by (simp add: lost_def dropped_by_def)

lemma lost_trans:
  assumes "lost e rs qs qs'" "lost e rs' qs' qs''"
  shows "lost e (rs @ rs') qs qs''"
  using assms by (auto simp: lost_def dropped_by_def intro!: filter_cong)

lemma lost_ok: "lost e rs qs qs' \<Longrightarrow> \<forall>qn. queue_ok e k P qn (qs qn) \<Longrightarrow> \<forall>qn. queue_ok e k P qn (qs' qn)"
  by (simp add: lost_def)

lemma committed_lost:
  assumes "\<forall>qn. queue_ok e k P qn (qs qn)"
  shows "\<exists>qs'. DeliveryRecord_committed e r qs = Inr qs' \<and> lost e [r] qs qs'"
proof (cases "holding r")
  case False
  then show ?thesis
    by (auto simp: DeliveryRecord_committed_def holding_def lost_def dropped_by_def)
next
  case True
  let ?qn = "dr_queue r" and ?c = "dr_msg r"
  obtain rs where rs: "queue_inv e rs (qs ?qn)" and a: "\<not> autodelete (q_settings (qs ?qn))"
    using assms by (auto simp: queue_ok_def)
  obtain q' where q': "Queue_dequeueCommitted e ?c (qs ?qn) = Inr q'"
    "contents e q' = filter (\<lambda>m. \<not> (valid ?c \<and> msg_sequence m = position ?c)) (contents e (qs ?qn))"
    "q_sequence q' = q_sequence (qs ?qn)" "q_class q' = q_class (qs ?qn)" "q_settings q' = q_settings (qs ?qn)"
    "length (messages (q_messages q')) \<le> length (messages (q_messages (qs ?qn)))"
    using committed_queue [OF rs a, of ?c] by blast
  have inv: "queue_inv e rs q'" if "queue_inv e rs (qs ?qn)" for rs
    using committed_queue [OF that a, of ?c] q'(1) by auto
  have "queue_ok e k P ?qn q'" if "queue_ok e k P ?qn (qs ?qn)" for k P
    using that inv q'(4-6) by (fastforce simp: queue_ok_def)
  then have "lost e [r] qs (qs(?qn := q'))"
    using True q'(2,3) by (auto simp: lost_def dropped_by_def intro!: filter_cong)
  then show ?thesis
    using True q'(1) by (auto simp: DeliveryRecord_committed_def holding_def at_queue_def)
qed

lemma committed_each:
  assumes "\<forall>qn. queue_ok e k P qn (qs qn)"
  shows "\<exists>qs'. each_covered (\<lambda>r qs. res_bind (DeliveryRecord_committed e r qs) (\<lambda>qs. Inr (r, qs))) p rs qs = (Inr (), rs, qs') \<and>
    lost e (filter p rs) qs qs'"
  using assms
proof (induction rs arbitrary: qs)
  case (Cons r rs)
  show ?case
  proof (cases "p r")
    case True
    obtain qs1 where qs1: "DeliveryRecord_committed e r qs = Inr qs1" "lost e [r] qs qs1"
      using committed_lost [OF Cons.prems] by blast
    then obtain qs' where "each_covered (\<lambda>r qs. res_bind (DeliveryRecord_committed e r qs) (\<lambda>qs. Inr (r, qs))) p rs qs1 = (Inr (), rs, qs')"
      "lost e (filter p rs) qs1 qs'"
      using Cons.IH [OF lost_ok [OF qs1(2) Cons.prems]] by blast
    then show ?thesis
      using True qs1 lost_trans [OF qs1(2)] by fastforce
  next
    case False
    then show ?thesis
      using Cons.IH [OF Cons.prems] by auto
  qed
qed (simp add: lost_refl)

lemma committed_pending:
  assumes "\<forall>qn. queue_ok e k P qn (qs qn)"
  shows "\<exists>qs'. each_pending (DeliveryRecord_committed e) rs qs = (True, qs') \<and> lost e rs qs qs'"
  using assms
proof (induction rs arbitrary: qs)
  case (Cons r rs)
  obtain qs1 where qs1: "DeliveryRecord_committed e r qs = Inr qs1" "lost e [r] qs qs1"
    using committed_lost [OF Cons.prems] by blast
  then obtain qs' where "each_pending (DeliveryRecord_committed e) rs qs1 = (True, qs')" "lost e rs qs1 qs'"
    using Cons.IH [OF lost_ok [OF qs1(2) Cons.prems]] by blast
  then show ?case
    using qs1 lost_trans [OF qs1(2)] by fastforce
qed (simp add: lost_refl)

lemma ended_each:
  "each_covered (\<lambda>r qs. Inr (snd (setEnded r), qs)) p rs qs =
    (Inr (), map (\<lambda>r. if p r then r \<lparr> dr_ended := True \<rparr> else r) rs, qs)"
  by (induction rs) (simp_all add: setEnded_def Let_def)

text \<open>Preparing records changes nothing that is seen.\<close>

lemma dequeue_quiet: "\<exists>qs'. DeliveryRecord_dequeue e True r qs = Inr qs' \<and> (\<forall>qn. quiet (qs qn) (qs' qn))"
  using dequeue_ctxt_quiet [of e "dr_msg r" "qs (dr_queue r)"] by (auto simp: DeliveryRecord_dequeue_def at_queue_def)

lemma dequeue_each:
  "\<exists>qs'. each_covered (\<lambda>r qs. res_bind (DeliveryRecord_dequeue e True r qs) (\<lambda>qs. Inr (r, qs))) p rs qs = (Inr (), rs, qs') \<and>
    (\<forall>qn. quiet (qs qn) (qs' qn))"
proof (induction rs arbitrary: qs)
  case (Cons r rs)
  obtain qs1 where qs1: "DeliveryRecord_dequeue e True r qs = Inr qs1" "\<forall>qn. quiet (qs qn) (qs1 qn)"
    using dequeue_quiet by blast
  show ?case
  proof (cases "p r")
    case True
    obtain qs' where "each_covered (\<lambda>r qs. res_bind (DeliveryRecord_dequeue e True r qs) (\<lambda>qs. Inr (r, qs))) p rs qs1 = (Inr (), rs, qs')"
      "\<forall>qn. quiet (qs1 qn) (qs' qn)"
      using Cons.IH by blast
    then show ?thesis
      using True qs1 quiet_trans by fastforce
  next
    case False
    then show ?thesis
      using Cons.IH [of qs] by auto
  qed
qed simp

lemma dequeue_pending:
  "\<exists>qs'. each_pending (DeliveryRecord_dequeue e True) rs qs = (True, qs') \<and> (\<forall>qn. quiet (qs qn) (qs' qn))"
proof (induction rs arbitrary: qs)
  case (Cons r rs)
  obtain qs1 where qs1: "DeliveryRecord_dequeue e True r qs = Inr qs1" "\<forall>qn. quiet (qs qn) (qs1 qn)"
    using dequeue_quiet by blast
  obtain qs' where "each_pending (DeliveryRecord_dequeue e True) rs qs1 = (True, qs')" "\<forall>qn. quiet (qs1 qn) (qs' qn)"
    using Cons.IH by blast
  then show ?case
    using qs1 quiet_trans by fastforce
qed simp

section \<open>The laws\<close>

lemma tx_inv_parts:
  assumes "tx_inv e base k F P w"
  shows "records_wf base (tw_unacked w)" "\<forall>qn. queue_ok e k P qn (tw_queues w qn)"
    "\<forall>op\<in>#F. unprepared op \<and> op_wf base op" "\<forall>op\<in>#P. op_wf base op" "acks_ok e (ack_refs F + ack_refs P) w"
  using assms by (simp_all add: tx_inv_def)

text \<open>Moving an operation that reserves nothing from the outstanding to the prepared ones.\<close>

lemma queue_ok_move:
  assumes "queue_ok e (Suc k) P qn q" "reserved qn (add_mset op P) = reserved qn P"
  shows "queue_ok e k (add_mset op P) qn q"
  using assms by (auto simp: queue_ok_def simp del: reserved_simps)

lemma queue_ok_drop:
  assumes "queue_ok e k (add_mset op P) qn q" "reserved qn (add_mset op P) = reserved qn P"
  shows "queue_ok e k P qn q"
  using assms by (auto simp: queue_ok_def simp del: reserved_simps)

lemma queue_ok_less: "queue_ok e (Suc k) P qn q \<Longrightarrow> queue_ok e k P qn q"
  by (auto simp: queue_ok_def)

lemma tx_inv_less: "tx_inv e base (Suc k) F P w \<Longrightarrow> tx_inv e base k F P w"
  by (simp add: tx_inv_def queue_ok_less)

lemma tx_inv_move:
  assumes "tx_inv e base (Suc k) (add_mset op F) P w" "\<forall>m qn. op \<noteq> TxPublish m qn True"
  shows "tx_inv e base k F (add_mset op P) w"
  using assms queue_ok_move [of e k P _ _ op]
  by (auto simp: tx_inv_def acks_ok_def algebra_simps split: TxOp.splits if_splits)

lemma publish_prepare_law:
  assumes inv: "tx_inv e base (Suc k) (add_mset (TxPublish m qn prepared) F) P w"
    and run: "TxPublish_prepare e store_fails m qn prepared w = (ok, op', w')"
  shows "tx_view e w' = tx_view e w \<and> (if ok then tx_inv e base k F (add_mset op' P) w' else tx_inv e base k (add_mset op' F) P w')"
proof -
  let ?q = "tw_queues w qn"
  obtain r q' where r: "Queue_enqueue e store_fails m ?q = (r, q')"
    by (cases "Queue_enqueue e store_fails m ?q")
  have ok0: "queue_ok e (Suc k) P qn ?q" and plain: "q_class ?q = Plain_Queue"
    using inv by (simp_all add: tx_inv_def queue_ok_def)
  note same = enqueue_plain [OF plain r]
  have w': "w' = w \<lparr> tw_queues := (tw_queues w)(qn := q') \<rparr>" "ok \<longleftrightarrow> (\<exists>b. r = Inr b)" "op' = TxPublish m qn (r = Inr True)"
    using run r inv by (auto simp: TxPublish_prepare_def tx_inv_def unprepared_def split: sum.splits)
  have cts: "contents e q' = contents e ?q"
    using same by (simp add: contents_def)
  have "queue_ok e k (if ok then add_mset op' P else P) qn q'"
  proof -
    obtain rs where rs: "mset rs = reserved qn P" "queue_inv e rs ?q"
      using ok0 by (auto simp: queue_ok_def)
    have "queue_inv e (if r = Inr True then m # rs else rs) q'"
      using enqueue_inv [OF rs(2) r] by simp
    moreover have "mset (if r = Inr True then m # rs else rs) = reserved qn (if ok then add_mset op' P else P)"
      using rs(1) w'(2,3) by auto
    ultimately have "\<exists>rs. mset rs = reserved qn (if ok then add_mset op' P else P) \<and> queue_inv e rs q'"
      by blast
    then show ?thesis
      using ok0 same unfolding queue_ok_def by auto
  qed
  moreover have "queue_ok e k (if ok then add_mset op' P else P) n (tw_queues w n)" if "n \<noteq> qn" for n
    using that inv queue_ok_move [of e k P n "tw_queues w n" op'] queue_ok_less [of e k P n "tw_queues w n"] w'(3)
    by (auto simp: tx_inv_def)
  moreover have "acks_ok e A w' = acks_ok e A w" for A
    using cts w'(1) by (auto simp: acks_ok_def)
  ultimately show ?thesis
    using inv w' same cts by (auto simp: tx_inv_def tx_view_def messages_of_def op_refs_def unprepared_def op_wf_def fun_eq_iff
        split: if_splits)
qed

lemma accept_prepare_quiet:
  assumes "tx_inv e base k F P w" "seq_set_wf base acked"
  shows "\<exists>w'. TxAccept_prepare e acked w = (True, TxAccept acked, w') \<and> quiet_world w w'"
  using dequeue_each [of e "coveredBy acked" "tw_unacked w" "tw_queues w"]
  unfolding TxAccept_prepare_def TxAccept_each_covered [OF assms(2) tx_inv_parts(1) [OF assms(1)]]
  by (auto simp: quiet_world_def)

lemma dtx_prepare_quiet: "\<exists>w'. DtxAck_prepare e pending w = (True, DtxAck pending, w') \<and> quiet_world w w'"
  using dequeue_pending [of e pending "tw_queues w"] by (auto simp: DtxAck_prepare_def quiet_world_def)

lemma publish_commit_law:
  assumes inv: "tx_inv e base k F (add_mset (TxPublish m qn prepared) P) w"
  shows "tx_inv e base k F P (TxPublish_commit e m qn prepared w) \<and>
    tx_view e (TxPublish_commit e m qn prepared w) = tx_eff (TxPublish m qn prepared) (tx_view e w)"
proof (cases prepared)
  case False
  have "queue_ok e k P n q" if "queue_ok e k (add_mset (TxPublish m qn False) P) n q" for n q
    using queue_ok_drop [OF that] by simp
  then show ?thesis
    using inv False by (auto simp: TxPublish_commit_def tx_eff_def tx_inv_def op_refs_def)
next
  case True
  let ?q = "tw_queues w qn"
  obtain rs where rs: "mset rs = reserved qn P" "queue_inv e (m # rs) ?q"
  proof -
    obtain rs where "mset rs = reserved qn P"
      by (metis ex_mset)
    then show ?thesis
      using queue_ok_reserved [of e k "add_mset (TxPublish m qn prepared) P" qn ?q "m # rs"] inv True that
      by (auto simp: tx_inv_def)
  qed
  have room: "length (messages (q_messages ?q)) + 1 < 2 ^ 31" and len: "length (messages (q_messages ?q)) + 1 + k + size P < 2 ^ 31"
    using inv by (auto simp: tx_inv_def queue_ok_def dest: spec [of _ qn])
  obtain q' where q': "Queue_push e m ?q = Inr q'" "queue_inv e rs q'"
    "contents e q' = contents e ?q @ [m \<lparr> msg_sequence := q_sequence ?q + 1, msg_state := AVAILABLE \<rparr>]"
    "q_sequence q' = q_sequence ?q + 1" "frame ?q q'" "length (messages (q_messages q')) \<le> length (messages (q_messages ?q)) + 1"
    using push_inv [OF rs(2) _ room, of m] by auto
  have w': "TxPublish_commit e m qn prepared w = w \<lparr> tw_queues := (tw_queues w)(qn := q') \<rparr>"
    using q'(1) True by (simp add: TxPublish_commit_def)
  have "q_class ?q = Plain_Queue" "\<not> autodelete (q_settings ?q)"
    using inv by (simp_all add: tx_inv_def queue_ok_def)
  moreover have "length (messages (q_messages q')) + k + size P < 2 ^ 31"
    using q'(6) len by linarith
  ultimately have "queue_ok e k P qn q'"
    using rs(1) q'(2,5) by (auto simp: queue_ok_def frame_def)
  moreover have "queue_ok e k P n (tw_queues w n)" if "n \<noteq> qn" for n
    using inv that queue_ok_drop [of e k "TxPublish m qn prepared" P n "tw_queues w n"] by (auto simp: tx_inv_def)
  moreover have "acks_ok e A (w \<lparr> tw_queues := (tw_queues w)(qn := q') \<rparr>)" if "acks_ok e A w" for A
    using that q'(3) by (auto simp: acks_ok_def)
  ultimately have "tx_inv e base k F P (w \<lparr> tw_queues := (tw_queues w)(qn := q') \<rparr>)"
    using inv by (simp add: tx_inv_def op_refs_def)
  moreover have "tx_view e (w \<lparr> tw_queues := (tw_queues w)(qn := q') \<rparr>) = tx_eff (TxPublish m qn prepared) (tx_view e w)"
    using True q'(3,4) by (simp add: tx_view_def tx_eff_def messages_of_def fun_eq_iff)
  ultimately show ?thesis
    unfolding w' by simp
qed

lemma publish_rollback_law:
  assumes inv: "tx_inv e base k F (add_mset (TxPublish m qn prepared) P) w"
  shows "tx_inv e base k F P (TxPublish_rollback m qn prepared w) \<and> tx_view e (TxPublish_rollback m qn prepared w) = tx_view e w"
proof (cases prepared)
  case False
  have "queue_ok e k P n q" if "queue_ok e k (add_mset (TxPublish m qn False) P) n q" for n q
    using queue_ok_drop [OF that] by simp
  then show ?thesis
    using inv False by (auto simp: TxPublish_rollback_def tx_inv_def op_refs_def)
next
  case True
  let ?q = "tw_queues w qn"
  obtain rs where rs: "mset rs = reserved qn P"
    by (metis ex_mset)
  then have "queue_inv e (m # rs) ?q"
    using queue_ok_reserved [of e k "add_mset (TxPublish m qn prepared) P" qn ?q "m # rs"] inv True by (auto simp: tx_inv_def)
  then have "queue_inv e rs (enqueueAborted m ?q)"
    using abort_inv(1) [of e "m # rs" ?q m] by simp
  then have "queue_ok e k P qn (enqueueAborted m ?q)"
    using rs inv by (auto simp: queue_ok_def tx_inv_def enqueueAborted_def dest: spec [of _ qn])
  moreover have "queue_ok e k P n (tw_queues w n)" if "n \<noteq> qn" for n
    using inv that queue_ok_drop [of e k "TxPublish m qn prepared" P n "tw_queues w n"] by (auto simp: tx_inv_def)
  moreover have "contents e (enqueueAborted m ?q) = contents e ?q"
    by (simp add: enqueueAborted_def)
  ultimately show ?thesis
    using inv True
    by (auto simp: TxPublish_rollback_def tx_inv_def acks_ok_def op_refs_def tx_view_def messages_of_def fun_eq_iff enqueueAborted_def)
qed

text \<open>Settling records keeps their order.\<close>

lemma front_back:
  assumes "seq_set_wf base acked" "RangeSet_front acked = Some f" "RangeSet_back acked = Some b"
  shows "in_window base f" "in_window base b" "SequenceNumber_less f b"
proof -
  obtain r rs where rs: "acked = r # rs" "f = range_begin r" "b = range_end (last acked)"
    using assms(2,3) by (auto simp: RangeSet_front_def RangeSet_back_def split: list.splits if_splits)
  have win: "\<forall>x\<in>set acked. in_window base (range_begin x) \<and> in_window base (range_end x) \<and>
      SequenceNumber_less (range_begin x) (range_end x)"
    using assms(1) by (auto simp: seq_set_wf_def RangeSet_inv_def Range_in_def)
  have l: "last acked \<in> set acked" "r \<in> set acked"
    using rs by auto
  then show "in_window base f" "in_window base b"
    using win rs by auto
  show "SequenceNumber_less f b"
  proof (cases "rs = []")
    case True
    then show ?thesis
      using win rs by simp
  next
    case False
    then have "Range_less SequenceNumber_less r (last acked)"
      using assms(1) rs(1) by (simp add: seq_set_wf_def RangeSet_inv_def)
    then have "window_pos base (range_end r) < window_pos base (range_begin (last acked))"
      using win l in_window_less(1) [of base "range_end r" "range_begin (last acked)"] by (simp add: Range_less_def)
    moreover have "window_pos base (range_begin x) < window_pos base (range_end x)" if "x \<in> set acked" for x
      using win that in_window_less(1) [of base "range_begin x" "range_end x"] by simp
    ultimately show ?thesis
      using win l rs(2,3) in_window_less(1) [of base f b] by (metis order.strict_trans)
  qed
qed

lemma findRange_ordered:
  assumes "records_wf base rs" "in_window base f" "in_window base b" "SequenceNumber_less f b" "findRange rs f b = (i, j)"
  shows "i \<le> j"
proof -
  have "SequenceNumber_less (dr_id r) b" if "r \<in> set rs" "SequenceNumber_less (dr_id r) f" for r
    using that assms(1-4) in_window_less(1) [of base] by (fastforce simp: records_wf_def)
  then have "length (takeWhile (\<lambda>r. SequenceNumber_less (dr_id r) f) rs) \<le> length (takeWhile (\<lambda>r. SequenceNumber_less (dr_id r) b) rs)"
    by (induction rs) auto
  then show ?thesis
    using assms(5) by (auto simp: findRange_def lower_record_def Let_def split: if_splits)
qed

lemma erase_range_subseq:
  assumes "fst rg \<le> snd rg"
  shows "subseq (erase_range p rg rs) rs"
proof -
  have "rs = take (fst rg) rs @ drop (fst rg) (take (snd rg) rs) @ drop (snd rg) rs"
    using assms by (metis append_assoc append_take_drop_id min.absorb_iff1 take_take)
  moreover have "subseq (erase_range p rg rs) (take (fst rg) rs @ drop (fst rg) (take (snd rg) rs) @ drop (snd rg) rs)"
    unfolding erase_range_def by (intro list_emb_append_mono subseq_filter_left subseq_order.refl)
  ultimately show ?thesis
    by simp
qed

lemma subseq_subset: "subseq xs ys \<Longrightarrow> set xs \<subseteq> set ys"
  by (induction rule: list_emb.induct) auto

lemma sorted_wrt_subseq: "subseq xs ys \<Longrightarrow> sorted_wrt P ys \<Longrightarrow> sorted_wrt P xs"
proof (induction rule: list_emb.induct)
  case (list_emb_Cons2 x y xs ys)
  have "set xs \<subseteq> set ys"
    using list_emb_Cons2(2) by (rule subseq_subset)
  then show ?case
    using list_emb_Cons2 by auto
qed simp_all

lemma records_wf_subseq:
  assumes "records_wf base rs" "subseq rs' rs"
  shows "records_wf base rs'"
proof -
  have "subseq (map dr_id rs') (map dr_id rs)"
    using assms(2) by (rule subseq_map)
  then have "sorted_wrt SequenceNumber_less (map dr_id rs')"
    using assms(1) sorted_wrt_subseq by (auto simp: records_wf_def)
  moreover have "set rs' \<subseteq> set rs"
    using assms(2) by (rule subseq_subset)
  ultimately show ?thesis
    using assms(1) by (auto simp: records_wf_def)
qed

lemma settled_wf:
  assumes "records_wf base rs" "seq_set_wf base acked"
  shows "records_wf base (settled acked rs)" "set (refs (settled acked rs)) \<subseteq> set (refs rs)"
proof -
  let ?rs = "map (\<lambda>r. if coveredBy acked r then r \<lparr> dr_ended := True \<rparr> else r) rs"
  have ids: "map dr_id ?rs = map dr_id rs"
    by simp
  have wf: "records_wf base ?rs"
    using assms(1) unfolding records_wf_def ids by auto
  have sub: "subseq (settled acked rs) ?rs"
  proof (cases "(RangeSet_front acked, RangeSet_back acked)")
    case (Pair fo bo)
    show ?thesis
    proof (cases "\<exists>f b. fo = Some f \<and> bo = Some b")
      case True
      then obtain f b where fb: "RangeSet_front acked = Some f" "RangeSet_back acked = Some b"
        using Pair by auto
      note win = front_back [OF assms(2) fb]
      have "fst (findRange ?rs f b) \<le> snd (findRange ?rs f b)"
        using findRange_ordered [OF wf win] by (metis prod.collapse)
      from erase_range_subseq [OF this] show ?thesis
        using fb by (simp add: settled_def Let_def)
    qed (use Pair in \<open>auto simp: settled_def Let_def split: option.splits\<close>)
  qed
  then show "records_wf base (settled acked rs)"
    using records_wf_subseq [OF wf] by blast
  have "set (settled acked rs) \<subseteq> set ?rs"
    using sub by (rule subseq_subset)
  moreover have "r \<in> set rs" if r: "r \<in> set ?rs" "holding r" for r
  proof -
    obtain x where "x \<in> set rs" "r = (if coveredBy acked x then x \<lparr> dr_ended := True \<rparr> else x)"
      using r(1) by auto
    then show ?thesis
      using r(2) by (cases "coveredBy acked x") (simp_all add: holding_def)
  qed
  ultimately show "set (refs (settled acked rs)) \<subseteq> set (refs rs)"
    unfolding refs_def set_map set_filter by (intro image_mono) blast
qed

text \<open>A message that records drop is one that they refer to.\<close>

lemma dropped_by_refs: "dropped_by rs qn m \<Longrightarrow> (qn, msg_sequence m) \<in> set (refs rs)"
  by (force simp: dropped_by_def refs_def)

lemma lost_keeps:
  assumes "lost e rs qs qs'" "x \<notin> set (refs rs)" "snd x \<in> msg_sequence ` set (contents e (qs (fst x)))"
  shows "snd x \<in> msg_sequence ` set (contents e (qs' (fst x)))"
proof -
  obtain m where m: "m \<in> set (contents e (qs (fst x)))" "snd x = msg_sequence m"
    using assms(3) by auto
  have "\<not> dropped_by rs (fst x) m"
    using dropped_by_refs [of rs "fst x" m] assms(2) m(2) by (metis prod.collapse)
  then show ?thesis
    using assms(1) m by (auto simp: lost_def)
qed

lemma lost_view:
  assumes "lost e rs (tw_queues w) qs'"
  shows "tx_view e (w \<lparr> tw_queues := qs', tw_unacked := un \<rparr>) =
    (\<lambda>qn. (filter (\<lambda>m. \<not> dropped_by rs qn m) (fst (fst (tx_view e w) qn)), snd (fst (tx_view e w) qn)), un)"
proof -
  have "dropped_by rs qn (m \<lparr> msg_state := AVAILABLE \<rparr>) = dropped_by rs qn m" for qn and m :: "'a QMessage"
    by (simp add: dropped_by_def)
  then show ?thesis
    using assms by (simp add: tx_view_def messages_of_def lost_def fun_eq_iff filter_map comp_def)
qed

lemma dropped_by_covered_refs: "set (refs (filter p rs)) \<subseteq> set (refs rs)"
  by (auto simp: refs_def)

lemma accept_commit_law:
  assumes inv: "tx_inv e base k F (add_mset (TxAccept acked) P) w"
  shows "tx_inv e base k F P (TxAccept_commit e acked w) \<and>
    tx_view e (TxAccept_commit e acked w) = tx_eff (TxAccept acked) (tx_view e w)"
proof -
  have wf: "seq_set_wf base acked" "records_wf base (tw_unacked w)"
    using inv by (simp_all add: tx_inv_def op_wf_def)
  have ok: "\<forall>qn. queue_ok e k P qn (tw_queues w qn)"
    using inv queue_ok_drop [of e k "TxAccept acked" P] by (simp add: tx_inv_def)
  let ?cov = "filter (coveredBy acked) (tw_unacked w)"
  obtain qs' where qs': "TxAccept_each (\<lambda>r qs. res_bind (DeliveryRecord_committed e r qs) (\<lambda>qs. Inr (r, qs))) acked (tw_unacked w) (tw_queues w) =
      (Inr (), tw_unacked w, qs')" "lost e ?cov (tw_queues w) qs'"
    using committed_each [OF ok, of "coveredBy acked" "tw_unacked w"] TxAccept_each_covered [OF wf] by metis
  have run: "TxAccept_commit e acked w = w \<lparr> tw_queues := qs', tw_unacked := settled acked (tw_unacked w) \<rparr>"
    using qs'(1) TxAccept_each_covered [OF wf, where s = qs']
    by (simp add: TxAccept_commit_def ended_each settled_def Let_def)
  have keep: "acks_ok e A (w \<lparr> tw_queues := qs', tw_unacked := settled acked (tw_unacked w) \<rparr>)" if A: "acks_ok e A w" for A
  proof -
    have "x \<notin> set (refs (settled acked (tw_unacked w)))" "x \<notin> set (refs ?cov)" if "x \<in># A" for x
      using that A settled_wf(2) [OF wf(2,1)] dropped_by_covered_refs [of "coveredBy acked" "tw_unacked w"]
      by (auto simp: acks_ok_def)
    then show ?thesis
      using A lost_keeps [OF qs'(2)] by (auto simp: acks_ok_def)
  qed
  have "tx_inv e base k F P (w \<lparr> tw_queues := qs', tw_unacked := settled acked (tw_unacked w) \<rparr>)"
    using inv keep settled_wf(1) [OF wf(2,1)] lost_ok [OF qs'(2) ok] by (simp add: tx_inv_def op_refs_def)
  then show ?thesis
    unfolding run lost_view [OF qs'(2)] by (simp add: tx_eff_def) (simp add: tx_view_def)
qed

text \<open>Each message is acknowledged by one branch at most.\<close>

lemma acks_ok_count: "acks_ok e A w \<Longrightarrow> count A x \<le> 1"
  unfolding acks_ok_def by blast

lemma acks_ok_held:
  "acks_ok e A w \<Longrightarrow> x \<in># A \<Longrightarrow> snd x \<in> msg_sequence ` set (contents e (tw_queues w (fst x)))"
  unfolding acks_ok_def by blast

lemma acks_ok_part:
  assumes "acks_ok e (mset xs + A) w" "x \<in># A"
  shows "x \<notin> set xs"
proof
  assume "x \<in> set xs"
  then have "1 \<le> count (mset xs) x" "1 \<le> count A x"
    using assms(2) by (simp_all add: Suc_leI count_greater_zero_iff)
  moreover have "count (mset xs) x + count A x \<le> 1"
    using acks_ok_count [OF assms(1), of x] by simp
  ultimately show False
    by linarith
qed

lemma acks_ok_drop:
  assumes "acks_ok e (mset xs + A) w"
  shows "acks_ok e A w"
proof -
  have "count A x \<le> 1" for x
    using acks_ok_count [OF assms, of x] by simp
  then show ?thesis
    using assms by (simp add: acks_ok_def)
qed

lemma dtx_commit_law:
  assumes inv: "tx_inv e base k F (add_mset (DtxAck pending) P) w"
  shows "tx_inv e base k F P (DtxAck_commit e pending w) \<and>
    tx_view e (DtxAck_commit e pending w) = tx_eff (DtxAck pending) (tx_view e w)"
proof -
  have ok: "\<forall>qn. queue_ok e k P qn (tw_queues w qn)"
    using inv queue_ok_drop [of e k "DtxAck pending" P] by (simp add: tx_inv_def)
  obtain qs' where qs': "each_pending (DeliveryRecord_committed e) pending (tw_queues w) = (True, qs')" "lost e pending (tw_queues w) qs'"
    using committed_pending [OF ok] by blast
  let ?w = "w \<lparr> tw_queues := qs', tw_unacked := tw_unacked w \<rparr>"
  have run: "DtxAck_commit e pending w = ?w"
    using qs'(1) by (simp add: DtxAck_commit_def)
  have A: "acks_ok e (mset (refs pending) + (ack_refs F + ack_refs P)) w"
    using inv by (simp add: tx_inv_def op_refs_def ac_simps)
  have "acks_ok e (ack_refs F + ack_refs P) ?w"
    using acks_ok_drop [OF A] acks_ok_part [OF A] lost_keeps [OF qs'(2)] by (auto simp: acks_ok_def)
  then have "tx_inv e base k F P ?w"
    using inv lost_ok [OF qs'(2) ok] by (simp add: tx_inv_def)
  then show ?thesis
    unfolding run lost_view [OF qs'(2)] by (simp add: tx_eff_def) (simp add: tx_view_def)
qed

text \<open>Requeueing the records of a branch: nothing that is seen changes.\<close>

definition requeued :: "'p MessageContent \<Rightarrow> 'p queues \<Rightarrow> 'p queues \<Rightarrow> bool" where
  "requeued e qs qs' \<longleftrightarrow> (\<forall>qn. messages_of e (qs' qn) = messages_of e (qs qn) \<and> q_sequence (qs' qn) = q_sequence (qs qn) \<and>
     (\<forall>k P. queue_ok e k P qn (qs qn) \<longrightarrow> queue_ok e k P qn (qs' qn)))"

lemma requeue_one:
  assumes ok: "\<forall>qn. queue_ok e k P qn (qs qn)"
    and r: "holding r \<longrightarrow> valid (dr_msg r) \<and> position (dr_msg r) \<in> msg_sequence ` set (messages_of e (qs (dr_queue r)))"
  shows "requeued e qs (DeliveryRecord_requeue e r qs)"
proof (cases "holding r")
  case False
  then have "DeliveryRecord_requeue e r qs = qs"
    by (auto simp: DeliveryRecord_requeue_def holding_def)
  then show ?thesis
    by (simp add: requeued_def)
next
  case True
  let ?qn = "dr_queue r" and ?q' = "Queue_release e (dr_msg r) True (qs (dr_queue r))"
  have run: "DeliveryRecord_requeue e r qs = qs(?qn := ?q')"
    using True by (simp add: DeliveryRecord_requeue_def holding_def)
  have c: "valid (dr_msg r)" "position (dr_msg r) \<in> msg_sequence ` set (contents e (qs ?qn))"
    using r True by (simp_all add: messages_of_sequences)
  obtain rs where rs: "queue_inv e rs (qs ?qn)"
    using ok by (auto simp: queue_ok_def)
  have q': "queue_inv e rs ?q'" if "queue_inv e rs (qs ?qn)" for rs
    using release_queue [OF that c] by simp
  have "queue_ok e k P ?qn ?q'" if "queue_ok e k P ?qn (qs ?qn)" for k P
    using that q' release_queue [OF rs c] unfolding queue_ok_def by auto
  then show ?thesis
    using release_queue [OF rs c] unfolding run requeued_def by simp
qed

lemma requeue_all:
  assumes "\<forall>qn. queue_ok e k P qn (qs qn)"
    "\<forall>r\<in>set rs. holding r \<longrightarrow> valid (dr_msg r) \<and> position (dr_msg r) \<in> msg_sequence ` set (messages_of e (qs (dr_queue r)))"
  shows "requeued e qs (fold (DeliveryRecord_requeue e) rs qs)"
  using assms
proof (induction rs arbitrary: qs)
  case Nil
  show ?case by (simp add: requeued_def)
next
  case (Cons r rs)
  have one: "requeued e qs (DeliveryRecord_requeue e r qs)"
    using requeue_one [OF Cons.prems(1)] Cons.prems(2) by simp
  moreover have "requeued e (DeliveryRecord_requeue e r qs) (fold (DeliveryRecord_requeue e) rs (DeliveryRecord_requeue e r qs))"
    using one Cons.prems by (intro Cons.IH) (simp_all add: requeued_def)
  ultimately show ?case
    by (simp add: requeued_def)
qed

lemma dtx_rollback_law:
  fixes w :: "'p tx_world"
  assumes queues: "\<forall>qn. queue_ok e k P qn (tw_queues w qn)" and rec: "records_wf base (tw_unacked w)"
    and ops: "\<forall>op\<in>#F. unprepared op \<and> op_wf base op" "\<forall>op\<in>#P. op_wf base op" "op_wf base (DtxAck pending :: 'p TxOp)"
    and A: "acks_ok e (mset (refs pending) + (ack_refs F + ack_refs P)) w"
  shows "tx_inv e base k F P (DtxAck_rollback e pending w) \<and> tx_view e (DtxAck_rollback e pending w) = tx_view e w"
proof -
  have "\<forall>r\<in>set pending. holding r \<longrightarrow> valid (dr_msg r) \<and>
      position (dr_msg r) \<in> msg_sequence ` set (messages_of e (tw_queues w (dr_queue r)))"
  proof (intro ballI impI conjI)
    fix r assume r: "r \<in> set pending" "holding r"
    show "valid (dr_msg r)"
      using ops(3) r by (simp add: op_wf_def)
    have "(dr_queue r, position (dr_msg r)) \<in># mset (refs pending)"
      using r by (simp add: refs_def)
    then have "(dr_queue r, position (dr_msg r)) \<in># mset (refs pending) + (ack_refs F + ack_refs P)"
      by (rule union_iff [THEN iffD2, OF disjI1])
    from acks_ok_held [OF A this] show "position (dr_msg r) \<in> msg_sequence ` set (messages_of e (tw_queues w (dr_queue r)))"
      by (simp add: messages_of_sequences)
  qed
  from requeue_all [OF queues this]
  have req: "requeued e (tw_queues w) (fold (DeliveryRecord_requeue e) pending (tw_queues w))" .
  have "acks_ok e X (DtxAck_rollback e pending w)" if "acks_ok e X w" for X
    using that req by (simp add: acks_ok_def DtxAck_rollback_def requeued_def flip: messages_of_sequences)
  then have "tx_inv e base k F P (DtxAck_rollback e pending w)"
    using assms acks_ok_drop [OF A] req by (simp add: tx_inv_def requeued_def DtxAck_rollback_def)
  moreover have "tx_view e (DtxAck_rollback e pending w) = tx_view e w"
    using req by (simp add: tx_view_def DtxAck_rollback_def requeued_def)
  ultimately show ?thesis
    by simp
qed

section \<open>Transactions are atomic\<close>

lemma quiet_store [simp]:
  "tx_inv e base k F P (log_store c w) = tx_inv e base k F P w" "tx_view e (log_store c w) = tx_view e w"
proof -
  have "quiet_world w (log_store c w)"
    by (simp add: quiet_world_def log_store_def)
  then show "tx_inv e base k F P (log_store c w) = tx_inv e base k F P w" "tx_view e (log_store c w) = tx_view e w"
    by (rule quiet_world_inv)+
qed

lemma broker_tx_calls [simp]:
  "observer_prepare (broker_tx e store_fails) w = (True, w)" "observer_commit (broker_tx e store_fails) w = w"
  "observer_rollback (broker_tx e store_fails) w = w" "op_callObserver (broker_tx e store_fails) op w = w"
  "store_begin (broker_tx e store_fails) w = (length (tw_store w), log_store StoreBegin w)"
  "store_begin_xid (broker_tx e store_fails) xid w = (length (tw_store w), log_store (StoreBeginXid xid) w)"
  "store_prepare (broker_tx e store_fails) ctxt w = log_store (StorePrepare ctxt) w"
  "store_commit (broker_tx e store_fails) ctxt w = log_store (StoreCommit ctxt) w"
  "store_abort (broker_tx e store_fails) ctxt w = log_store (StoreAbort ctxt) w"
  by (simp_all add: broker_tx_def)

lemma prepare_contract:
  assumes inv: "tx_inv e base (Suc k) (add_mset op F) P w" and run: "op_prepare (broker_tx e store_fails) ctxt op w = (ok, op', w')"
  shows "tx_view e w' = tx_view e w \<and> (if ok then tx_inv e base k F (add_mset op' P) w' else tx_inv e base k (add_mset op' F) P w')"
proof (cases op)
  case (TxPublish m qn prepared)
  then show ?thesis
    using publish_prepare_law [of e base k m qn prepared F P w] inv run by (simp add: broker_tx_def)
next
  case (TxAccept acked)
  then have "seq_set_wf base acked"
    using inv by (simp add: tx_inv_def op_wf_def)
  then obtain w1 where w1: "TxAccept_prepare e acked w = (True, TxAccept acked, w1)" "quiet_world w w1"
    using accept_prepare_quiet [OF inv] by blast
  then show ?thesis
    using run TxAccept tx_inv_move [OF inv] quiet_world_inv [OF w1(2)] by (auto simp: broker_tx_def)
next
  case (DtxAck pending)
  obtain w1 where w1: "DtxAck_prepare e pending w = (True, DtxAck pending, w1)" "quiet_world w w1"
    using dtx_prepare_quiet by blast
  then show ?thesis
    using run DtxAck tx_inv_move [OF inv] quiet_world_inv [OF w1(2)] by (auto simp: broker_tx_def)
qed

lemma commit_contract:
  assumes "tx_inv e base k F (add_mset op P) w"
  shows "tx_inv e base k F P (op_commit (broker_tx e store_fails) op w) \<and>
    tx_view e (op_commit (broker_tx e store_fails) op w) = tx_eff op (tx_view e w)"
  using assms publish_commit_law accept_commit_law dtx_commit_law by (cases op) (simp_all add: broker_tx_def)

lemma rollback_contract:
  assumes inv: "tx_inv e base k F (add_mset op P) w"
  shows "tx_inv e base k F P (op_rollback (broker_tx e store_fails) op w) \<and>
    tx_view e (op_rollback (broker_tx e store_fails) op w) = tx_view e w"
proof (cases op)
  case (TxAccept acked)
  then show ?thesis
    using inv queue_ok_drop [of e k op P] by (simp add: broker_tx_def tx_inv_def op_refs_def)
next
  case (DtxAck pending)
  have "\<forall>qn. queue_ok e k P qn (tw_queues w qn)"
    using inv queue_ok_drop [of e k op P] DtxAck by (simp add: tx_inv_def)
  moreover have "acks_ok e (mset (refs pending) + (ack_refs F + ack_refs P)) w"
    using inv DtxAck by (simp add: tx_inv_def op_refs_def ac_simps)
  ultimately have "tx_inv e base k F P (DtxAck_rollback e pending w) \<and> tx_view e (DtxAck_rollback e pending w) = tx_view e w"
    using inv DtxAck by (intro dtx_rollback_law) (simp_all add: tx_inv_def)
  then show ?thesis
    using DtxAck by (simp add: broker_tx_def)
qed (use publish_rollback_law inv in \<open>simp add: broker_tx_def\<close>)

lemma rollback_fresh_contract:
  assumes inv: "tx_inv e base k (add_mset op F) P w"
  shows "tx_inv e base k F P (op_rollback (broker_tx e store_fails) op w) \<and>
    tx_view e (op_rollback (broker_tx e store_fails) op w) = tx_view e w"
proof (cases op)
  case (TxPublish m qn prepared)
  then show ?thesis
    using inv by (simp add: broker_tx_def tx_inv_def op_refs_def unprepared_def TxPublish_rollback_def)
next
  case (TxAccept acked)
  then show ?thesis
    using inv by (simp add: broker_tx_def tx_inv_def op_refs_def)
next
  case (DtxAck pending)
  have "acks_ok e (mset (refs pending) + (ack_refs F + ack_refs P)) w"
    using inv DtxAck by (simp add: tx_inv_def op_refs_def ac_simps)
  then have "tx_inv e base k F P (DtxAck_rollback e pending w) \<and> tx_view e (DtxAck_rollback e pending w) = tx_view e w"
    using inv DtxAck by (intro dtx_rollback_law) (simp_all add: tx_inv_def)
  then show ?thesis
    using DtxAck by (simp add: broker_tx_def)
qed

interpretation tx: two_phase "broker_tx e store_fails" "tx_inv e base" "tx_view e" tx_eff for e store_fails base
  by unfold_locales
    (fact prepare_contract commit_contract rollback_contract rollback_fresh_contract tx_inv_less | simp)+

text \<open>
  C3. A local transaction of the broker is atomic. When the publishes and acknowledgements of a
  transaction are committed on queues that reject at their limit, the client is told of success
  exactly if all of them could be prepared, and then each has had its effect, in order: messages
  are appended to their queues with the next sequence numbers, acknowledged messages are gone and
  their records settled. Otherwise the client gets an error and every queue has the messages it had.
  Either way no space stays reserved for the transaction.
\<close>

theorem broker_transaction_atomic:
  assumes "tx_inv e base (length (tx_ops b) + k) (mset (tx_ops b) + F) P w" "tx_error b = []"
    and "startCommit (broker_tx e store_fails) True b w = (r1, b1, w1)"
    and "endCommit (broker_tx e store_fails) b1 w1 = (r, b', w')"
  shows "tx_ops b' = [] \<and> tx_inv e base k F P w' \<and>
    (if fst (prepare_ops (broker_tx e store_fails) (length (tw_store w)) (tx_ops b) (log_store StoreBegin w))
     then r = Inr [] \<and> tx_view e w' = fold tx_eff (tx_ops b1) (tx_view e w)
     else r = Inl InternalErrorException \<and> tx_view e w' = tx_view e w)"
proof -
  have "fst (TxBuffer_prepare (broker_tx e store_fails) ctxt (b \<lparr> txContext := c \<rparr>) w0) =
      fst (prepare_ops (broker_tx e store_fails) ctxt (tx_ops b) w0)" for ctxt c w0
    by (simp add: TxBuffer_prepare_def split: prod.splits)
  then show ?thesis
    using tx.local_transaction_atomic [OF assms] by simp
qed

text \<open>
  What a successful preparation makes of the operations: a publish is marked as prepared, unless its
  queue has been deleted and drops the message; the acknowledgements are as they were.
\<close>

definition prepared_op :: "(string \<Rightarrow> bool) \<Rightarrow> 'p TxOp \<Rightarrow> 'p TxOp" where
  "prepared_op deleted op = (case op of TxPublish m qn prepared \<Rightarrow> TxPublish m qn (\<not> deleted qn) | _ \<Rightarrow> op)"

abbreviation deleted_queues :: "'p tx_world \<Rightarrow> string \<Rightarrow> bool" where
  "deleted_queues w \<equiv> (\<lambda>qn. q_deleted (tw_queues w qn))"

lemma quiet_deleted: "quiet_world w w' \<Longrightarrow> deleted_queues w' = deleted_queues w"
  by (simp add: quiet_world_def quiet_def)

lemma prepare_marks:
  assumes inv: "tx_inv e base (Suc k) (add_mset op F) P w" and run: "op_prepare (broker_tx e store_fails) ctxt op w = (ok, op', w')"
  shows "deleted_queues w' = deleted_queues w \<and> (ok \<longrightarrow> op' = prepared_op (deleted_queues w) op)"
proof (cases op)
  case (TxPublish m qn prepared)
  obtain r q' where r: "Queue_enqueue e store_fails m (tw_queues w qn) = (r, q')"
    by (cases "Queue_enqueue e store_fails m (tw_queues w qn)")
  have "q_class (tw_queues w qn) = Plain_Queue"
    using inv by (simp add: tx_inv_def queue_ok_def)
  note same = enqueue_plain [OF this r]
  have "op_prepare (broker_tx e store_fails) ctxt op w = TxPublish_prepare e store_fails m qn prepared w"
    using TxPublish by (simp add: broker_tx_def)
  then have "w' = w \<lparr> tw_queues := (tw_queues w)(qn := q') \<rparr>" "ok \<Longrightarrow> \<exists>b. r = Inr b \<and> op' = TxPublish m qn b"
    using run r by (auto simp: TxPublish_prepare_def split: sum.splits)
  then show ?thesis
    using same TxPublish by (auto simp: prepared_op_def fun_eq_iff)
next
  case (TxAccept acked)
  then have "seq_set_wf base acked"
    using inv by (simp add: tx_inv_def op_wf_def)
  then obtain w1 where "TxAccept_prepare e acked w = (True, TxAccept acked, w1)" "quiet_world w w1"
    using accept_prepare_quiet [OF inv] by blast
  then show ?thesis
    using run TxAccept quiet_deleted [of w w1] by (auto simp: broker_tx_def prepared_op_def)
next
  case (DtxAck pending)
  obtain w1 where "DtxAck_prepare e pending w = (True, DtxAck pending, w1)" "quiet_world w w1"
    using dtx_prepare_quiet by blast
  then show ?thesis
    using run DtxAck quiet_deleted [of w w1] by (auto simp: broker_tx_def prepared_op_def)
qed

lemma prepare_ops_marks:
  assumes "tx_inv e base (length ops + k) (mset ops + F) P w"
    and "prepare_ops (broker_tx e store_fails) ctxt ops w = (True, ops', w')"
  shows "deleted_queues w' = deleted_queues w \<and> ops' = map (prepared_op (deleted_queues w)) ops"
  using assms
proof (induction ops arbitrary: P w ops' w')
  case (Cons op ops)
  obtain ok1 op1 w1 where p: "op_prepare (broker_tx e store_fails) ctxt op w = (ok1, op1, w1)"
    by (cases "op_prepare (broker_tx e store_fails) ctxt op w")
  then have ok1: ok1
    using Cons.prems(2) by (cases ok1) auto
  then obtain ops1 where rest: "prepare_ops (broker_tx e store_fails) ctxt ops w1 = (True, ops1, w')" "ops' = op1 # ops1"
    using Cons.prems(2) p by (auto split: prod.splits)
  have inv: "tx_inv e base (Suc (length ops + k)) (add_mset op (mset ops + F)) P w"
    using Cons.prems(1) by simp
  have "tx_inv e base (length ops + k) (mset ops + F) (add_mset op1 P) w1"
    using prepare_contract [OF inv p] ok1 by simp
  from Cons.IH [OF this rest(1)] show ?case
    using prepare_marks [OF inv p] ok1 rest(2) by simp
qed simp

lemma prepare_work_marks:
  assumes "distinct as" "tx_inv e base (length (branch_ops h as) + k) (mset (branch_ops h as) + F) P w"
    and "prepare_work (broker_tx e store_fails) txn as (h, w) = (True, h', w')"
  shows "branch_ops h' as = map (prepared_op (deleted_queues w)) (branch_ops h as)"
  using assms
proof (induction as arbitrary: h w P)
  case (Cons a as)
  let ?M = "broker_tx e store_fails"
  have d: "distinct as" "a \<notin> set as"
    using Cons.prems(1) by simp_all
  obtain ok1 b w1 where p: "TxBuffer_prepare ?M txn (h a) w = (ok1, b, w1)"
    by (cases "TxBuffer_prepare ?M txn (h a) w")
  then have ok1: ok1 and rest: "prepare_work ?M txn as (h(a := b), w1) = (True, h', w')"
    using Cons.prems(3) by (cases ok1; simp)+
  have inv: "tx_inv e base (length (tx_ops (h a)) + (length (branch_ops h as) + k)) (mset (tx_ops (h a)) + (mset (branch_ops h as) + F)) P w"
    using Cons.prems(2) by (simp add: add.assoc)
  have "prepare_ops ?M txn (tx_ops (h a)) w = (True, tx_ops b, w1)"
    using p ok1 by (auto simp: TxBuffer_prepare_def broker_tx_def split: prod.splits)
  from prepare_ops_marks [OF inv this] have m: "deleted_queues w1 = deleted_queues w" "tx_ops b = map (prepared_op (deleted_queues w)) (tx_ops (h a))"
    by simp_all
  have inv1: "tx_inv e base (length (branch_ops (h(a := b)) as) + k) (mset (branch_ops (h(a := b)) as) + F) (mset (tx_ops b) + P) w1"
    using tx.prepare_correct [OF inv p] ok1 d(2) by simp
  have "h' a = b"
    using tx.prepare_work_correct [OF d(1) inv1 rest] d(2) by simp
  then show ?case
    using Cons.IH [OF d(1) inv1 rest] m by (simp add: branch_ops_simps(3) [OF d(2)] del: fun_upd_apply)
qed simp

text \<open>
  How an operation on a branch may end: with an exception and nothing changed, or with the buffers
  empty, nothing reserved or held for the branch any more, and either all or none of the effects.
\<close>

definition settles :: "'p MessageContent \<Rightarrow> SequenceNumber \<Rightarrow> nat \<Rightarrow> 'p TxOp multiset \<Rightarrow> 'p TxOp multiset \<Rightarrow>
    (string \<Rightarrow> 'p QMessage list \<times> SequenceNumber) \<times> DeliveryRecord list \<Rightarrow> nat list \<Rightarrow> ('p TxOp, nat, 'p tx_world) dtx_heap \<Rightarrow>
    ('x \<Rightarrow> bool) \<Rightarrow> 'x result \<times> nat DtxWorkRecord \<times> ('p TxOp, nat, 'p tx_world) dtx_heap \<Rightarrow> bool" where
  "settles e base k F P effects as hw committed out \<longleftrightarrow>
    (case out of
       (Inl err, r', hw') \<Rightarrow> hw' = hw
     | (Inr x, r', (h', w')) \<Rightarrow> tx_inv e base k F P w' \<and> branch_ops h' as = [] \<and>
         tx_view e w' = (if committed x then effects else tx_view e (snd hw)))"

lemma commit_settles:
  assumes b: "tx.branch e base k r h F P w"
    and all: "wr_prepared r \<Longrightarrow> branch_ops h (wr_work r) = ops"
      "\<not> wr_prepared r \<Longrightarrow> ops = map (prepared_op (deleted_queues w)) (branch_ops h (wr_work r))"
  shows "settles e base k F P (fold tx_eff ops (tx_view e w)) (wr_work r) (h, w) id
    (DtxWorkRecord_commit (broker_tx e store_fails) onePhase r (h, w))"
proof -
  obtain res r' h' w' where c: "DtxWorkRecord_commit (broker_tx e store_fails) onePhase r (h, w) = (res, r', h', w')"
    by (metis prod.exhaust)
  note cc = tx.branch_commit [OF b c]
  have "tx_view e w' = fold tx_eff ops (tx_view e w)" if res: "res = Inr True"
  proof (cases "wr_prepared r")
    case True
    then show ?thesis using cc(1) [OF res] all(1) by simp
  next
    case False
    then obtain txn w0 h1 w1 where one: "store_begin (broker_tx e store_fails) w = (txn, w0)"
      "prepare_work (broker_tx e store_fails) txn (wr_work r) (h, w0) = (True, h1, w1)"
      "tx_view e w' = fold tx_eff (branch_ops h1 (wr_work r)) (tx_view e w)"
      using cc(1) [OF res] by auto
    have "tx_inv e base (length (branch_ops h (wr_work r)) + k) (mset (branch_ops h (wr_work r)) + F) P w0" "deleted_queues w0 = deleted_queues w"
      "distinct (wr_work r)"
      using b False one(1) tx.store_law(1) [of e base _ _ P store_fails w]
      by (auto simp: tx.branch_def broker_tx_def log_store_def)
    with prepare_work_marks [OF _ _ one(2)] show ?thesis
      using one(3) all(2) False by simp
  qed
  then show ?thesis
    unfolding c settles_def using cc by (cases res) (auto split: if_splits)
qed

lemma rollback_settles:
  assumes "tx.branch e base k r h F P w"
  shows "settles e base k F P v (wr_work r) (h, w) (\<lambda>_. False)
    (DtxWorkRecord_rollback (broker_tx e store_fails) r (h, w))"
proof -
  obtain res r' h' w' where c: "DtxWorkRecord_rollback (broker_tx e store_fails) r (h, w) = (res, r', h', w')"
    by (metis prod.exhaust)
  have "h' = h \<and> w' = w" if "res = Inl err" for err
    using c that by (auto simp: DtxWorkRecord_rollback_def split: prod.splits sum.splits)
  then show ?thesis
    unfolding c settles_def using tx.branch_rollback [OF assms c] by (cases res) auto
qed

text \<open>
  C8. A branch of a distributed transaction that has not been prepared is atomic, over all its buffers.
  Committing it in one phase either throws and changes nothing, or has the effects of all its
  operations, in the order of the buffers, if it is answered with success, and none otherwise; rolling
  it back has none; and what was reserved and held is given back. Preparing it shows nothing: if it
  fails, everything has been given back, and if it succeeds, a later commit and a later rollback are
  again all or nothing in the same sense. The queues are plain ones that reject at their limit; a
  message for a deleted queue is dropped. What a commit answers after a prepare that failed is not
  covered: it reports success with no effect (\<open>dtx_failed_prepare_then_commit\<close>).
\<close>

theorem dtx_branch_atomic:
  fixes e :: "'p MessageContent" and store_fails :: "'p QMessage \<Rightarrow> bool"
  assumes inv: "tx_inv e base (length (branch_ops h (wr_work r)) + k) (mset (branch_ops h (wr_work r)) + F) P w"
    and r: "distinct (wr_work r)" "\<not> wr_prepared r"
  defines "M \<equiv> broker_tx e store_fails"
    and "effects \<equiv> fold tx_eff (map (prepared_op (deleted_queues w)) (branch_ops h (wr_work r))) (tx_view e w)"
  shows "settles e base k F P effects (wr_work r) (h, w) id (DtxWorkRecord_commit M onePhase r (h, w)) \<and>
    settles e base k F P effects (wr_work r) (h, w) (\<lambda>_. False) (DtxWorkRecord_rollback M r (h, w)) \<and>
    (case DtxWorkRecord_prepare M xid r (h, w) of (res, r1, h1, w1) \<Rightarrow>
       if res = Inr True
       then tx_view e w1 = tx_view e w \<and>
         settles e base k F P effects (wr_work r) (h1, w1) id (DtxWorkRecord_commit M onePhase r1 (h1, w1)) \<and>
         settles e base k F P effects (wr_work r) (h1, w1) (\<lambda>_. False) (DtxWorkRecord_rollback M r1 (h1, w1))
       else settles e base k F P effects (wr_work r) (h, w) (\<lambda>_. False) (res, r1, h1, w1))"
proof -
  have b: "tx.branch e base k r h F P w"
    using inv r by (simp add: tx.branch_def)
  obtain res r1 h1 w1 where p: "DtxWorkRecord_prepare M xid r (h, w) = (res, r1, h1, w1)"
    by (metis prod.exhaust)
  note pp = tx.branch_prepare [OF b r(2) p [unfolded M_def]]
  have two: "tx_view e w1 = tx_view e w \<and>
      settles e base k F P effects (wr_work r) (h1, w1) id (DtxWorkRecord_commit M onePhase r1 (h1, w1)) \<and>
      settles e base k F P effects (wr_work r) (h1, w1) (\<lambda>_. False) (DtxWorkRecord_rollback M r1 (h1, w1))" if res: "res = Inr True"
  proof -
    obtain txn w0 w2 where run: "store_begin_xid M xid w = (txn, w0)" "prepare_work M txn (wr_work r) (h, w0) = (True, h1, w2)"
      using prepare_success [OF p [unfolded res] r(2)] by blast
    have "tx_inv e base (length (branch_ops h (wr_work r)) + k) (mset (branch_ops h (wr_work r)) + F) P w0" "deleted_queues w0 = deleted_queues w"
      using inv run(1) tx.store_law(2) [of e base _ _ P store_fails xid w] by (auto simp: M_def broker_tx_def log_store_def)
    with prepare_work_marks [OF r(1) _ run(2) [unfolded M_def]]
    have ops: "branch_ops h1 (wr_work r) = map (prepared_op (deleted_queues w)) (branch_ops h (wr_work r))"
      by simp
    show ?thesis
      using commit_settles [of e base k r1 h1 F P w1 _ store_fails onePhase] rollback_settles [of e base k r1 h1 F P w1 effects store_fails]
        pp(1) [OF res] ops by (simp add: M_def effects_def)
  qed
  have "settles e base k F P effects (wr_work r) (h, w) (\<lambda>_. False) (res, r1, h1, w1)" if "res \<noteq> Inr True"
    using that pp by (cases res) (auto simp: settles_def)
  moreover have "settles e base k F P effects (wr_work r) (h, w) id (DtxWorkRecord_commit M onePhase r (h, w))"
    unfolding effects_def M_def by (rule commit_settles [OF b]) (use r(2) in simp_all)
  moreover have "settles e base k F P effects (wr_work r) (h, w) (\<lambda>_. False) (DtxWorkRecord_rollback M r (h, w))"
    unfolding M_def by (rule rollback_settles [OF b])
  ultimately show ?thesis
    using two by (simp only: p prod.case split: if_split) blast
qed

section \<open>Examples\<close>

definition sample_world :: "unit tx_world" where
  "sample_world = \<lparr> tw_queues = (\<lambda>_. Queue_init Plain_Queue (QueueSettings_init False False) False), tw_unacked = [],
     tw_store = [] \<rparr>"

definition sample_op :: "unit TxOp" where
  "sample_op = TxPublish (sample_message 7) ''q'' False"

lemma sample_world_inv: "tx_inv (sample_content 0) 0 1 {#sample_op#} {#} sample_world"
proof -
  have "queue_ok (sample_content 0) 1 {#} qn (Queue_init Plain_Queue (QueueSettings_init False False) False)" for qn
    unfolding queue_ok_def
    by (intro conjI exI [of _ "[]"] init_inv) (simp_all add: Queue_init_def QueueSettings_init_def IndexedDeque_init_def)
  then show ?thesis
    by (simp add: tx_inv_def sample_world_def sample_op_def unprepared_def op_wf_def acks_ok_def op_refs_def records_wf_def)
qed

theorem broker_transaction_atomic_witness:
  "\<exists>b1 w1 r b' w'. startCommit (broker_tx (sample_content 0) (\<lambda>_. False)) True (TxBuffer_init \<lparr> tx_ops := [sample_op] \<rparr>) sample_world =
      (Inr (), b1, w1) \<and> endCommit (broker_tx (sample_content 0) (\<lambda>_. False)) b1 w1 = (r, b', w') \<and>
    tx_ops b' = [] \<and> tx_inv (sample_content 0) 0 0 {#} {#} w'"
proof -
  let ?M = "broker_tx (sample_content 0) (\<lambda>_. False)" and ?b = "TxBuffer_init \<lparr> tx_ops := [sample_op] \<rparr> :: (unit TxOp, nat) TxBuffer"
  obtain r1 b1 w1 where s: "startCommit ?M True ?b sample_world = (r1, b1, w1)"
    by (metis prod.exhaust)
  obtain r b' w' where c: "endCommit ?M b1 w1 = (r, b', w')"
    by (metis prod.exhaust)
  have "r1 = Inr ()"
    using s by (auto simp: startCommit_def split: prod.splits bool.splits)
  then show ?thesis
    using s c broker_transaction_atomic [OF _ _ s c, of 0 0 "{#}" "{#}"] sample_world_inv by (auto simp: TxBuffer_init_def)
qed

definition sample_branch :: "nat DtxWorkRecord" where
  "sample_branch = DtxWorkRecord_init \<lparr> wr_work := [0] \<rparr>"

definition sample_heap :: "nat \<Rightarrow> (unit TxOp, nat) DtxBuffer" where
  "sample_heap a = markEnded (DtxBuffer_init ''x'') \<lparr> tx_ops := [sample_op] \<rparr>"

theorem dtx_branch_atomic_witness:
  "\<exists>r1 h1 w1 r2 h2 w2. DtxWorkRecord_prepare (broker_tx (sample_content 0) (\<lambda>_. False)) ''x'' sample_branch (sample_heap, sample_world) =
      (Inr True, r1, h1, w1) \<and>
    DtxWorkRecord_commit (broker_tx (sample_content 0) (\<lambda>_. False)) False r1 (h1, w1) = (Inr True, r2, h2, w2) \<and>
    tx_view (sample_content 0) w2 =
      fold tx_eff [TxPublish (sample_message 7) ''q'' True] (tx_view (sample_content 0) sample_world)"
proof -
  let ?M = "broker_tx (sample_content 0) (\<lambda>_. False)"
  obtain p r1 h1 w1 where p: "DtxWorkRecord_prepare ?M ''x'' sample_branch (sample_heap, sample_world) = (p, r1, h1, w1)"
    by (metis prod.exhaust)
  obtain c r2 h2 w2 where c: "DtxWorkRecord_commit ?M False r1 (h1, w1) = (c, r2, h2, w2)"
    by (metis prod.exhaust)
  have "fst (DtxWorkRecord_prepare ?M ''x'' sample_branch (sample_heap, sample_world)) = Inr True"
    "fst (case DtxWorkRecord_prepare ?M ''x'' sample_branch (sample_heap, sample_world) of (_, r, hw) \<Rightarrow>
       DtxWorkRecord_commit ?M False r hw) = Inr True"
    by code_simp+
  then have res: "p = Inr True" "c = Inr True"
    using p c by simp_all
  have "tx_inv (sample_content 0) 0 (length (branch_ops sample_heap (wr_work sample_branch)) + 0)
      (mset (branch_ops sample_heap (wr_work sample_branch)) + {#}) {#} sample_world"
    using sample_world_inv by (simp add: sample_branch_def sample_heap_def)
  from dtx_branch_atomic [OF this, of "\<lambda>_. False" False "''x''"] show ?thesis
    using p c res by (auto simp: sample_branch_def sample_heap_def sample_op_def sample_world_def DtxWorkRecord_init_def Queue_init_def
        prepared_op_def settles_def)
qed

definition sample_manager :: "(unit TxOp, nat, unit tx_world) DtxManager" where
  "sample_manager = \<lparr> mgr_work = [''x'' \<mapsto> sample_branch], mgr_defaultTimeout = 60, mgr_timers = [(''x'', 60)],
     mgr_heap = (sample_heap, sample_world) \<rparr>"

theorem DtxManager_commit_requires_witness:
  "\<exists>m'. DtxManager_commit (broker_tx (sample_content 0) (\<lambda>_. False)) ''x'' True sample_manager = (Inr True, m') \<and>
    \<not> wr_prepared sample_branch \<and> mgr_work m' = Map.empty \<and> (\<forall>t\<in>set (mgr_timers m'). fst t \<noteq> ''x'')"
proof -
  let ?r = "DtxManager_commit (broker_tx (sample_content 0) (\<lambda>_. False)) ''x'' True sample_manager"
  have "fst ?r = Inr True"
    by code_simp
  then have "?r = (Inr True, snd ?r)"
    by (metis prod.collapse)
  then show ?thesis
    using DtxManager_commit_requires [of "broker_tx (sample_content 0) (\<lambda>_. False)" "''x''" True sample_manager "snd ?r"]
    by (auto simp: sample_manager_def)
qed

end
