(* ===== verification/Semantic_State.thy ===== *)
theory Semantic_State
  imports Tx_Operations Consumer_Credit Std_Containers
begin

text \<open>
  The state of an open session of the broker (\<open>broker/SemanticState.h\<close>, \<open>broker/SemanticState.cpp\<close>): its
  consumers with their credit, the records of what they were sent, and the transaction that it works
  in. The queues, the records and the store are the state of the transactions (\<open>tx_world\<close>), which the
  manager of distributed transactions holds together with the buffers; a pointer to a buffer is its
  address there. What is sent to the client and asked of the connection is a log of events. The
  selector of a consumer and the credit that the encoding of a message requires are arguments.
  Session-scoped bindings, routing and management are left out.
\<close>

section \<open>Walking a set in order\<close>

text \<open>\<open>operator<=\<close> is that of \<open>boost::less_than_comparable\<close>.\<close>

definition SequenceNumber_le :: "SequenceNumber \<Rightarrow> SequenceNumber \<Rightarrow> bool" where
  "SequenceNumber_le a b \<longleftrightarrow> \<not> SequenceNumber_less b a"

text \<open>\<open>IsInSequenceSet\<close>: the functor and the ranges that it still looks at.\<close>

definition IsInSequenceSet :: "SequenceNumber \<Rightarrow> SequenceSet \<Rightarrow> bool \<times> SequenceSet" where
  "IsInSequenceSet n i =
    (let i = dropWhile (\<lambda>r. SequenceNumber_le (range_end r) n) i
     in (i \<noteq> [] \<and> SequenceNumber_le (range_begin (hd i)) n, i))"

text \<open>
  \<open>remove_if\<close> of the records with \<open>isInSequenceSetAnd\<close>. The predicate may change the record that it is
  applied to. The records kept are moved to the front as the walk goes on: when the predicate
  throws, they have overwritten the first of those already seen.
\<close>

fun remove_in_set :: "(DeliveryRecord \<Rightarrow> 's \<Rightarrow> (bool \<times> DeliveryRecord \<times> 's) result) \<Rightarrow> SequenceSet \<Rightarrow>
    DeliveryRecord list \<Rightarrow> DeliveryRecord list \<Rightarrow> DeliveryRecord list \<Rightarrow> 's \<Rightarrow>
    unit result \<times> DeliveryRecord list \<times> 's" where
  "remove_in_set p i kept seen [] s = (Inr (), kept, s)"
| "remove_in_set p i kept seen (r # rs) s =
    (case IsInSequenceSet (dr_id r) i of
       (False, i) \<Rightarrow> remove_in_set p i (kept @ [r]) (seen @ [r]) rs s
     | (True, i) \<Rightarrow>
         (case p r s of
            Inl err \<Rightarrow> (Inl err, kept @ drop (length kept) (seen @ r # rs), s)
          | Inr (True, r, s) \<Rightarrow> remove_in_set p i kept (seen @ [r]) rs s
          | Inr (False, r, s) \<Rightarrow> remove_in_set p i (kept @ [r]) (seen @ [r]) rs s))"

section \<open>The state\<close>

text \<open>\<open>ci_base\<close> is the part of the base class; the selector is not kept.\<close>

record ConsumerImpl =
  ci_base :: Consumer
  ci_queue :: string
  ci_ackExpected :: bool
  ci_acquire :: bool
  ci_blocked :: bool
  ci_exclusive :: bool
  ci_tag :: string
  ci_credit :: Credit
  ci_notifyEnabled :: bool
  ci_syncFrequency :: int
  ci_deliveryCount :: int

datatype 'p tx_pointer = LocalTx "('p TxOp, nat) TxBuffer" | EnlistedTx nat

datatype 'p session_event =
    Transfer SequenceNumber string "'p QMessage" bool
  | AddOutputTask string
  | RemoveOutputTask string
  | ActivateOutput

text \<open>
  \<open>ss_command\<close> is the id of the next command that the session sends, \<open>ss_fresh\<close> the address of the next
  buffer. A suspended xid that \<open>operator[]\<close> inserts has no buffer, like one that is not in the map.
\<close>

record 'p SemanticState =
  ss_session :: string
  ss_attached :: bool
  ss_consumers :: "(string \<times> ConsumerImpl) list"
  ss_txBuffer :: "'p tx_pointer option"
  ss_dtxBuffer :: "nat option"
  ss_dtxSelected :: bool
  ss_suspendedXids :: "string \<Rightarrow> nat option"
  ss_accumulatedAck :: SequenceSet
  ss_closeComplete :: bool
  ss_command :: SequenceNumber
  ss_events :: "'p session_event list"
  ss_fresh :: nat
  ss_mgr :: "('p TxOp, nat, 'p tx_world) DtxManager"

definition SemanticState_init :: "string \<Rightarrow> bool \<Rightarrow> nat \<Rightarrow> ('p TxOp, nat, 'p tx_world) DtxManager \<Rightarrow> 'p SemanticState" where
  "SemanticState_init session attached fresh mgr =
    \<lparr> ss_session = session, ss_attached = attached, ss_consumers = [], ss_txBuffer = None, ss_dtxBuffer = None,
      ss_dtxSelected = False, ss_suspendedXids = (\<lambda>_. None), ss_accumulatedAck = [], ss_closeComplete = False,
      ss_command = 0, ss_events = [], ss_fresh = fresh, ss_mgr = mgr \<rparr>"

definition ss_world :: "'p SemanticState \<Rightarrow> 'p tx_world" where
  "ss_world s = snd (mgr_heap (ss_mgr s))"

definition set_heap :: "('p TxOp, nat, 'p tx_world) dtx_heap \<Rightarrow> 'p SemanticState \<Rightarrow> 'p SemanticState" where
  "set_heap hw s = s \<lparr> ss_mgr := (ss_mgr s) \<lparr> mgr_heap := hw \<rparr> \<rparr>"

definition set_world :: "'p tx_world \<Rightarrow> 'p SemanticState \<Rightarrow> 'p SemanticState" where
  "set_world w s = set_heap (fst (mgr_heap (ss_mgr s)), w) s"

definition ss_unacked :: "'p SemanticState \<Rightarrow> DeliveryRecord list" where
  "ss_unacked s = tw_unacked (ss_world s)"

definition ss_queues :: "'p SemanticState \<Rightarrow> 'p queues" where
  "ss_queues s = tw_queues (ss_world s)"

definition set_unacked :: "DeliveryRecord list \<Rightarrow> 'p SemanticState \<Rightarrow> 'p SemanticState" where
  "set_unacked rs s = set_world (ss_world s \<lparr> tw_unacked := rs \<rparr>) s"

definition set_queues :: "'p queues \<Rightarrow> 'p SemanticState \<Rightarrow> 'p SemanticState" where
  "set_queues qs s = set_world (ss_world s \<lparr> tw_queues := qs \<rparr>) s"

definition emit :: "'p session_event list \<Rightarrow> 'p SemanticState \<Rightarrow> 'p SemanticState" where
  "emit es s = s \<lparr> ss_events := ss_events s @ es \<rparr>"

definition put_consumer :: "ConsumerImpl \<Rightarrow> 'p SemanticState \<Rightarrow> 'p SemanticState" where
  "put_consumer c s = s \<lparr> ss_consumers := map_put (ci_tag c) c (ss_consumers s) \<rparr>"

section \<open>Subscriptions\<close>

definition ConsumerImpl_init :: "string \<Rightarrow> string \<Rightarrow> string \<Rightarrow> bool \<Rightarrow> SubscriptionType \<Rightarrow> bool \<Rightarrow> string \<Rightarrow> int \<Rightarrow> ConsumerImpl" where
  "ConsumerImpl_init session name queue ack type exclusive tag syncFrequency =
    \<lparr> ci_base = \<lparr> consumer_name = name, consumer_cursor = QueueCursor_init type, consumer_acquires = (type = CONSUMER),
                  consumer_counted = True, hideDeletedError = False, consumer_session = session \<rparr>,
      ci_queue = queue, ci_ackExpected = ack, ci_acquire = (type = CONSUMER), ci_blocked = True,
      ci_exclusive = exclusive, ci_tag = tag, ci_credit = Credit_init, ci_notifyEnabled = True,
      ci_syncFrequency = syncFrequency, ci_deliveryCount = 0 \<rparr>"

definition session_find :: "string \<Rightarrow> 'p SemanticState \<Rightarrow> ConsumerImpl result" where
  "session_find destination s =
    (case map_of (ss_consumers s) destination of None \<Rightarrow> Inl NotFoundException | Some c \<Rightarrow> Inr c)"

text \<open>\<open>consume\<close> of a plain consumer; no factory makes a special one.\<close>

definition session_consume :: "string \<Rightarrow> string \<Rightarrow> bool \<Rightarrow> bool \<Rightarrow> bool \<Rightarrow> int \<Rightarrow> 'p SemanticState \<Rightarrow>
    unit result \<times> 'p SemanticState" where
  "session_consume tag queue ackRequired acquire exclusive syncFrequency s =
    (let c = ConsumerImpl_init (ss_session s) (ss_session s @ ''::'' @ tag) queue ackRequired
               (if acquire then CONSUMER else BROWSER) exclusive tag syncFrequency
     in case Queue_consume (ci_base c) exclusive (ss_queues s queue) of
          Inl err \<Rightarrow> (Inl err, s)
        | Inr q \<Rightarrow> (Inr (), put_consumer c (set_queues ((ss_queues s)(queue := q)) s)))"

definition session_disable :: "ConsumerImpl \<Rightarrow> 'p SemanticState \<Rightarrow> 'p SemanticState" where
  "session_disable c s =
    (let s = put_consumer (c \<lparr> ci_notifyEnabled := False \<rparr>) s
     in if ss_attached s then emit [RemoveOutputTask (ci_tag c)] s else s)"

definition cancel_consumer :: "'p MessageContent \<Rightarrow> ConsumerImpl \<Rightarrow> 'p SemanticState \<Rightarrow> unit result \<times> 'p SemanticState" where
  "cancel_consumer e c s =
    (let s = session_disable c s
     in case Queue_cancel e (ci_base c) (ss_queues s (ci_queue c)) of
          Inl err \<Rightarrow> (Inl err, s)
        | Inr q \<Rightarrow> (Inr (), set_queues ((ss_queues s)(ci_queue c := q)) s))"

definition session_cancel :: "'p MessageContent \<Rightarrow> string \<Rightarrow> 'p SemanticState \<Rightarrow> bool result \<times> 'p SemanticState" where
  "session_cancel e tag s =
    (case map_of (ss_consumers s) tag of
       None \<Rightarrow> (Inr False, s)
     | Some c \<Rightarrow>
         (case cancel_consumer e c s of
            (Inl err, s) \<Rightarrow> (Inl err, s)
          | (Inr _, s) \<Rightarrow>
              let s = s \<lparr> ss_consumers := map_erase tag (ss_consumers s) \<rparr>;
                  rs = map (DeliveryRecord_cancel tag) (ss_unacked s)
              in (Inr True, set_unacked (filter (\<lambda>r. \<not> isRedundant r) rs) s)))"

section \<open>Credit\<close>

definition requestDispatch :: "ConsumerImpl \<Rightarrow> 'p SemanticState \<Rightarrow> 'p SemanticState" where
  "requestDispatch c s =
    (if ci_blocked c
     then put_consumer (c \<lparr> ci_blocked := False \<rparr>) (emit [AddOutputTask (ci_tag c), ActivateOutput] s)
     else s)"

definition session_requestDispatch :: "'p SemanticState \<Rightarrow> 'p SemanticState" where
  "session_requestDispatch s = fold (\<lambda>(tag, c). requestDispatch c) (ss_consumers s) s"

definition session_setMode :: "bool \<Rightarrow> string \<Rightarrow> 'p SemanticState \<Rightarrow> 'p SemanticState result" where
  "session_setMode window destination s =
    res_bind (session_find destination s) (\<lambda>c.
    Inr (put_consumer (c \<lparr> ci_credit := Credit_setWindowMode window (ci_credit c) \<rparr>) s))"

definition session_addByteCredit :: "string \<Rightarrow> 32 word \<Rightarrow> 'p SemanticState \<Rightarrow> 'p SemanticState result" where
  "session_addByteCredit destination n s =
    res_bind (session_find destination s) (\<lambda>c.
    let c = c \<lparr> ci_credit := Credit_addByteCredit n (ci_credit c) \<rparr>
    in Inr (requestDispatch c (put_consumer c s)))"

definition session_addMessageCredit :: "string \<Rightarrow> 32 word \<Rightarrow> 'p SemanticState \<Rightarrow> 'p SemanticState result" where
  "session_addMessageCredit destination n s =
    res_bind (session_find destination s) (\<lambda>c.
    let c = c \<lparr> ci_credit := Credit_addMessageCredit n (ci_credit c) \<rparr>
    in Inr (requestDispatch c (put_consumer c s)))"

definition session_stop :: "string \<Rightarrow> 'p SemanticState \<Rightarrow> 'p SemanticState result" where
  "session_stop destination s =
    res_bind (session_find destination s) (\<lambda>c.
    Inr (put_consumer (c \<lparr> ci_credit := Credit_cancel (ci_credit c) \<rparr>) s))"

section \<open>Transactions\<close>

definition session_startTx :: "'p SemanticState \<Rightarrow> 'p SemanticState" where
  "session_startTx s = s \<lparr> ss_accumulatedAck := [], ss_txBuffer := Some (LocalTx TxBuffer_init) \<rparr>"

text \<open>
  The two halves of a commit, which follow each other when nothing delays the completion.
\<close>

definition commit_buffer :: "('p TxOp, nat, 'p tx_world) tx_methods \<Rightarrow> bool \<Rightarrow> SequenceSet \<Rightarrow>
    ('p TxOp, nat, 'z) TxBuffer_scheme \<Rightarrow> 'p tx_world \<Rightarrow> unit result \<times> ('p TxOp, nat, 'z) TxBuffer_scheme \<times> 'p tx_world" where
  "commit_buffer M store acked b w =
    (let (b, w) = enlist M (TxAccept acked) b w
     in case startCommit M store b w of
          (Inl err, b, w) \<Rightarrow> (Inl err, b, w)
        | (Inr _, b, w) \<Rightarrow>
            (case endCommit M b w of
               (Inl err, b, w) \<Rightarrow> (Inl err, b, w)
             | (Inr _, b, w) \<Rightarrow> (Inr (), b, w)))"

definition session_commit :: "('p TxOp, nat, 'p tx_world) tx_methods \<Rightarrow> bool \<Rightarrow> 'p SemanticState \<Rightarrow>
    unit result \<times> 'p SemanticState" where
  "session_commit M store s =
    (case ss_txBuffer s of
       None \<Rightarrow> (Inl CommandInvalidException, s)
     | Some (LocalTx b) \<Rightarrow>
         (case commit_buffer M store (ss_accumulatedAck s) b (ss_world s) of
            (res, b, w) \<Rightarrow> (res, session_startTx (set_world w s)))
     | Some (EnlistedTx a) \<Rightarrow>
         (let (h, w) = mgr_heap (ss_mgr s) in
          case commit_buffer M store (ss_accumulatedAck s) (h a) w of
            (res, b, w) \<Rightarrow> (res, session_startTx (set_heap (h(a := b), w) s))))"

definition session_rollback :: "('p TxOp, nat, 'p tx_world) tx_methods \<Rightarrow> 'p SemanticState \<Rightarrow>
    unit result \<times> 'p SemanticState" where
  "session_rollback M s =
    (case ss_txBuffer s of
       None \<Rightarrow> (Inl CommandInvalidException, s)
     | Some (LocalTx b) \<Rightarrow> (Inr (), session_startTx (set_world (snd (TxBuffer_rollback M b (ss_world s))) s))
     | Some (EnlistedTx a) \<Rightarrow>
         (Inr (), session_startTx (set_heap (at_buffer (TxBuffer_rollback M) a (mgr_heap (ss_mgr s))) s)))"

definition session_selectDtx :: "'p SemanticState \<Rightarrow> 'p SemanticState" where
  "session_selectDtx s = s \<lparr> ss_dtxSelected := True \<rparr>"

text \<open>\<open>startDtx\<close> sets the buffers before the manager may throw.\<close>

definition session_startDtx :: "string \<Rightarrow> bool \<Rightarrow> 'p SemanticState \<Rightarrow> unit result \<times> 'p SemanticState" where
  "session_startDtx xid join s =
    (if \<not> ss_dtxSelected s then (Inl CommandInvalidException, s)
     else
       let a = ss_fresh s; (h, w) = mgr_heap (ss_mgr s);
           s = set_heap (h(a := DtxBuffer_init xid), w) s
                 \<lparr> ss_fresh := a + 1, ss_dtxBuffer := Some a, ss_txBuffer := Some (EnlistedTx a) \<rparr>
       in case (if join then DtxManager_join xid a (ss_mgr s) else DtxManager_start xid a (ss_mgr s)) of
            Inl err \<Rightarrow> (Inl err, s)
          | Inr m \<Rightarrow> (Inr (), s \<lparr> ss_mgr := m \<rparr>))"

definition buffer_at :: "nat \<Rightarrow> 'p SemanticState \<Rightarrow> ('p TxOp, nat) DtxBuffer" where
  "buffer_at a s = fst (mgr_heap (ss_mgr s)) a"

definition change_buffer :: "(('p TxOp, nat) DtxBuffer \<Rightarrow> 'p tx_world \<Rightarrow> ('p TxOp, nat) DtxBuffer \<times> 'p tx_world) \<Rightarrow> nat \<Rightarrow>
    'p SemanticState \<Rightarrow> 'p SemanticState" where
  "change_buffer f a s = set_heap (at_buffer f a (mgr_heap (ss_mgr s))) s"

definition checkDtxTimeout :: "nat \<Rightarrow> 'p SemanticState \<Rightarrow> unit result \<times> 'p SemanticState" where
  "checkDtxTimeout a s =
    (if db_expired (buffer_at a s) then (Inl DtxTimeoutException, s \<lparr> ss_dtxBuffer := None \<rparr>) else (Inr (), s))"

definition session_endDtx :: "('p TxOp, nat, 'p tx_world) tx_methods \<Rightarrow> string \<Rightarrow> bool \<Rightarrow> 'p SemanticState \<Rightarrow>
    unit result \<times> 'p SemanticState" where
  "session_endDtx M xid fail s =
    (case ss_dtxBuffer s of
       None \<Rightarrow> (Inl IllegalStateException, s)
     | Some a \<Rightarrow>
         if db_xid (buffer_at a s) \<noteq> xid then (Inl CommandInvalidException, s)
         else
           (case checkDtxTimeout a (s \<lparr> ss_txBuffer := None \<rparr>) of
              (Inl err, s) \<Rightarrow> (Inl err, s)
            | (Inr _, s) \<Rightarrow>
                let s = (if fail then change_buffer (DtxBuffer_fail M) a s
                         else change_buffer (\<lambda>b w. (markEnded b, w)) a s)
                in (Inr (), s \<lparr> ss_dtxBuffer := None \<rparr>)))"

text \<open>\<open>suspendDtx\<close> reads the xid of the buffer without a look at the pointer.\<close>

definition session_suspendDtx :: "string \<Rightarrow> 'p SemanticState \<Rightarrow> unit result \<times> 'p SemanticState" where
  "session_suspendDtx xid s =
    (case ss_dtxBuffer s of
       None \<Rightarrow> (Inl UndefinedBehaviour, s)
     | Some a \<Rightarrow>
         if db_xid (buffer_at a s) \<noteq> xid then (Inl CommandInvalidException, s)
         else
           (case checkDtxTimeout a (s \<lparr> ss_txBuffer := None \<rparr>) of
              (Inl err, s) \<Rightarrow> (Inl err, s)
            | (Inr _, s) \<Rightarrow>
                let s = change_buffer (\<lambda>b w. (setSuspended True b, w)) a s
                in (Inr (), s \<lparr> ss_suspendedXids := (ss_suspendedXids s)(xid := Some a), ss_dtxBuffer := None \<rparr>)))"

definition session_resumeDtx :: "string \<Rightarrow> 'p SemanticState \<Rightarrow> unit result \<times> 'p SemanticState" where
  "session_resumeDtx xid s =
    (if \<not> ss_dtxSelected s then (Inl CommandInvalidException, s)
     else
       let s = s \<lparr> ss_dtxBuffer := ss_suspendedXids s xid \<rparr>
       in case ss_dtxBuffer s of
            None \<Rightarrow> (Inl CommandInvalidException, s)
          | Some a \<Rightarrow>
              let s = s \<lparr> ss_suspendedXids := (ss_suspendedXids s)(xid := None) \<rparr> in
              if db_xid (buffer_at a s) \<noteq> xid then (Inl CommandInvalidException, s)
              else if \<not> db_suspended (buffer_at a s) then (Inl CommandInvalidException, s)
              else
                (case checkDtxTimeout a s of
                   (Inl err, s) \<Rightarrow> (Inl err, s)
                 | (Inr _, s) \<Rightarrow>
                     (Inr (), change_buffer (\<lambda>b w. (setSuspended False b, w)) a s \<lparr> ss_txBuffer := Some (EnlistedTx a) \<rparr>)))"

section \<open>Deliveries\<close>

definition session_record :: "DeliveryRecord \<Rightarrow> 'p SemanticState \<Rightarrow> 'p SemanticState" where
  "session_record r s = set_unacked (ss_unacked s @ [r]) s"

definition allocateCredit :: "('p QMessage \<Rightarrow> 32 word) \<Rightarrow> 'p QMessage \<Rightarrow> ConsumerImpl \<Rightarrow> ConsumerImpl" where
  "allocateCredit required m c = c \<lparr> ci_credit := Credit_consume 1 (required m) (ci_credit c) \<rparr>"

definition checkCredit :: "('p QMessage \<Rightarrow> 32 word) \<Rightarrow> ConsumerImpl \<Rightarrow> 'p QMessage \<Rightarrow> bool" where
  "checkCredit required c m = Credit_check 1 (required m) (ci_credit c)"

text \<open>The record that \<open>deliver\<close> makes, with the id of the command; replication ids are not kept.\<close>

definition delivery_of :: "('p QMessage \<Rightarrow> 32 word) \<Rightarrow> SequenceNumber \<Rightarrow> QueueCursor \<Rightarrow> 'p QMessage \<Rightarrow> ConsumerImpl \<Rightarrow> DeliveryRecord" where
  "delivery_of required cmd cursor m c =
    (DeliveryRecord_init cursor (msg_sequence m) 0 (ci_queue c) (ci_tag c) (ci_acquire c) (\<not> ci_ackExpected c)
       (Credit_isWindowMode (ci_credit c)) (required m)) \<lparr> dr_id := cmd \<rparr>"

text \<open>Every \<open>syncFrequency\<close> deliveries the client is asked to confirm.\<close>

definition count_delivery :: "ConsumerImpl \<Rightarrow> bool \<times> ConsumerImpl" where
  "count_delivery c =
    (if ci_syncFrequency c \<noteq> 0 then
       let n = ci_deliveryCount c + 1; sync = (n \<ge> ci_syncFrequency c)
       in (sync, c \<lparr> ci_deliveryCount := if sync then 0 else n \<rparr>)
     else (False, c))"

definition session_deliver :: "'p MessageContent \<Rightarrow> ('p QMessage \<Rightarrow> 32 word) \<Rightarrow> QueueCursor \<Rightarrow> 'p QMessage \<Rightarrow> ConsumerImpl \<Rightarrow>
    'p SemanticState \<Rightarrow> unit result \<times> 'p SemanticState" where
  "session_deliver e required cursor m c s =
    (let (sync, c) = count_delivery (allocateCredit required m c);
         r = delivery_of required (ss_command s) cursor m c;
         s = emit [Transfer (ss_command s) (ci_tag c) m sync] (put_consumer c s) \<lparr> ss_command := ss_command s + 1 \<rparr>;
         s = (if Credit_isWindowMode (ci_credit c) \<or> ci_ackExpected c \<or> \<not> ci_acquire c then session_record r s else s)
     in if ci_acquire c \<and> \<not> ci_ackExpected c then
          (case Queue_dequeue e False cursor (ss_queues s (ci_queue c)) of
             Inl err \<Rightarrow> (Inl err, s)
           | Inr q \<Rightarrow> (Inr (), set_queues ((ss_queues s)(ci_queue c := q)) s))
        else (Inr (), s))"

text \<open>
  \<open>doDispatch\<close>, that is \<open>Queue::dispatch\<close>. The \<open>accept\<close> of the consumer checks its credit and records
  in \<open>blocked\<close> what it found; \<open>flt\<close> is the selector.
\<close>

definition session_dispatch :: "'p MessageContent \<Rightarrow> int \<Rightarrow> ('p QMessage \<Rightarrow> bool) \<Rightarrow> ('p QMessage \<Rightarrow> 32 word) \<Rightarrow> ConsumerImpl \<Rightarrow>
    'p SemanticState \<Rightarrow> bool result \<times> 'p SemanticState" where
  "session_dispatch e now flt required c s =
    (case getNextMessage e now flt (checkCredit required c) (ci_base c) (ss_queues s (ci_queue c)) of
       Inl err \<Rightarrow> (Inl err, s)
     | Inr (out, base, q) \<Rightarrow>
         let s = set_queues ((ss_queues s)(ci_queue c := q)) s in
         (case out of
            Found m \<Rightarrow>
              (case session_deliver e required (consumer_cursor base) m
                      (c \<lparr> ci_base := base, ci_blocked := False \<rparr>) s of
                 (Inl err, s) \<Rightarrow> (Inl err, s)
               | (Inr _, s) \<Rightarrow> (Inr True, s))
          | Refused \<Rightarrow> (Inr False, put_consumer (c \<lparr> ci_base := base, ci_blocked := True \<rparr>) s)
          | Exhausted \<Rightarrow> (Inr False, put_consumer (c \<lparr> ci_base := base \<rparr>) s)))"

text \<open>\<open>doOutput\<close> with \<open>haveCredit\<close>.\<close>

definition session_doOutput :: "'p MessageContent \<Rightarrow> int \<Rightarrow> ('p QMessage \<Rightarrow> bool) \<Rightarrow> ('p QMessage \<Rightarrow> 32 word) \<Rightarrow> string \<Rightarrow>
    'p SemanticState \<Rightarrow> bool result \<times> 'p SemanticState" where
  "session_doOutput e now flt required tag s =
    (case session_find tag s of
       Inl err \<Rightarrow> (Inl err, s)
     | Inr c \<Rightarrow>
         if Credit_bool (ci_credit c) then session_dispatch e now flt required c s
         else (Inr False, put_consumer (c \<lparr> ci_blocked := True \<rparr>) s))"

text \<open>
  \<open>flush\<close>, which dispatches until there is nothing more to send. The loop is bounded by \<open>fuel\<close>; the
  \<open>clock\<close> gives the time of each turn.
\<close>

fun flush_loop :: "nat \<Rightarrow> 'p MessageContent \<Rightarrow> (nat \<Rightarrow> int) \<Rightarrow> ('p QMessage \<Rightarrow> bool) \<Rightarrow> ('p QMessage \<Rightarrow> 32 word) \<Rightarrow> string \<Rightarrow>
    'p SemanticState \<Rightarrow> (unit result \<times> 'p SemanticState) option" where
  "flush_loop 0 e clock flt required tag s = None"
| "flush_loop (Suc fuel) e clock flt required tag s =
    (case session_doOutput e (clock fuel) flt required tag s of
       (Inl err, s) \<Rightarrow> Some (Inl err, s)
     | (Inr True, s) \<Rightarrow> flush_loop fuel e clock flt required tag s
     | (Inr False, s) \<Rightarrow> Some (Inr (), s))"

definition session_flush :: "nat \<Rightarrow> 'p MessageContent \<Rightarrow> (nat \<Rightarrow> int) \<Rightarrow> ('p QMessage \<Rightarrow> bool) \<Rightarrow> ('p QMessage \<Rightarrow> 32 word) \<Rightarrow> string \<Rightarrow>
    'p SemanticState \<Rightarrow> (unit result \<times> 'p SemanticState) option" where
  "session_flush fuel e clock flt required tag s =
    (case session_find tag s of
       Inl err \<Rightarrow> Some (Inl err, s)
     | Inr _ \<Rightarrow>
         map_option (\<lambda>(res, s). case res of
             Inl err \<Rightarrow> (Inl err, s)
           | Inr _ \<Rightarrow> (case session_stop tag s of Inl err \<Rightarrow> (Inl err, s) | Inr s \<Rightarrow> (Inr (), s)))
           (flush_loop fuel e clock flt required tag s))"

definition session_notify :: "ConsumerImpl \<Rightarrow> 'p SemanticState \<Rightarrow> 'p SemanticState" where
  "session_notify c s = (if ci_notifyEnabled c then emit [AddOutputTask (ci_tag c), ActivateOutput] s else s)"

section \<open>Completion and acknowledgement\<close>

text \<open>The consumer of a delivery is looked up by its tag.\<close>

definition session_complete :: "DeliveryRecord \<Rightarrow> (string \<times> ConsumerImpl) list \<Rightarrow>
    (bool \<times> DeliveryRecord \<times> (string \<times> ConsumerImpl) list) result" where
  "session_complete r cs =
    (case map_of cs (dr_tag r) of
       None \<Rightarrow> Inr (isRedundant r, r, cs)
     | Some c \<Rightarrow>
         if \<not> dr_completed r then
           let r = DeliveryRecord_complete r;
               c = (if Credit_isWindowMode (ci_credit c)
                    then c \<lparr> ci_credit := Credit_moveWindow 1 (dr_credit r) (ci_credit c) \<rparr> else c)
           in Inr (isRedundant r, r, map_put (dr_tag r) c cs)
         else Inr (isRedundant r, r, cs))"

definition session_completed :: "SequenceSet \<Rightarrow> 'p SemanticState \<Rightarrow> 'p SemanticState" where
  "session_completed commands s =
    (case remove_in_set session_complete commands [] [] (ss_unacked s) (ss_consumers s) of
       (res, rs, cs) \<Rightarrow> session_requestDispatch (set_unacked rs (s \<lparr> ss_consumers := cs \<rparr>)))"

definition session_accepted :: "'p MessageContent \<Rightarrow> ('p TxOp, nat, 'p tx_world) tx_methods \<Rightarrow> SequenceSet \<Rightarrow> 'p SemanticState \<Rightarrow>
    unit result \<times> 'p SemanticState" where
  "session_accepted e M commands s =
    (case ss_txBuffer s of
       Some _ \<Rightarrow>
         let s = s \<lparr> ss_accumulatedAck := SequenceSet_add_set (ss_accumulatedAck s) commands \<rparr> in
         (case ss_dtxBuffer s of
            None \<Rightarrow> (Inr (), s)
          | Some a \<Rightarrow>
              let op = DtxAck_init (ss_accumulatedAck s) (ss_unacked s);
                  s = change_buffer (enlist M op) a (s \<lparr> ss_accumulatedAck := [] \<rparr>)
              in case remove_in_set (\<lambda>r u. Inr (fst (setEnded r), snd (setEnded r), u)) commands [] [] (ss_unacked s) () of
                   (res, rs, _) \<Rightarrow> (res, set_unacked rs s))
     | None \<Rightarrow>
         (case remove_in_set (DeliveryRecord_accept e False) commands [] [] (ss_unacked s) (ss_queues s) of
            (res, rs, qs) \<Rightarrow> (res, set_unacked rs (set_queues qs s))))"

text \<open>
  Operations on a range of deliveries. The last one of an inverted range would come before its
  first.
\<close>

definition on_range :: "SequenceNumber \<Rightarrow> SequenceNumber \<Rightarrow> 'p SemanticState \<Rightarrow> (nat \<times> nat) result" where
  "on_range first_id last_id s =
    (let (i, j) = findRange (ss_unacked s) first_id last_id in throw_if (j < i) UndefinedBehaviour (Inr (i, j)))"

definition slice :: "nat \<times> nat \<Rightarrow> 'a list \<Rightarrow> 'a list" where
  "slice rg xs = drop (fst rg) (take (snd rg) xs)"

definition replace_slice :: "nat \<times> nat \<Rightarrow> 'a list \<Rightarrow> 'a list \<Rightarrow> 'a list" where
  "replace_slice rg ys xs = take (fst rg) xs @ ys @ drop (snd rg) xs"

fun acquire_each :: "'p MessageContent \<Rightarrow> DeliveryRecord list \<Rightarrow> SequenceNumber list \<Rightarrow> 'p queues \<Rightarrow>
    unit result \<times> DeliveryRecord list \<times> SequenceNumber list \<times> 'p queues" where
  "acquire_each e [] ids qs = (Inr (), [], ids, qs)"
| "acquire_each e (r # rs) ids qs =
    (case DeliveryRecord_acquire e r ids qs of
       Inl err \<Rightarrow> (Inl err, r # rs, ids, qs)
     | Inr (r, ids, qs) \<Rightarrow> (case acquire_each e rs ids qs of (res, rs, ids, qs) \<Rightarrow> (res, r # rs, ids, qs)))"

definition session_acquire :: "'p MessageContent \<Rightarrow> SequenceNumber \<Rightarrow> SequenceNumber \<Rightarrow> 'p SemanticState \<Rightarrow>
    SequenceNumber list result \<times> 'p SemanticState" where
  "session_acquire e first_id last_id s =
    (case on_range first_id last_id s of
       Inl err \<Rightarrow> (Inl err, s)
     | Inr rg \<Rightarrow>
         (case acquire_each e (slice rg (ss_unacked s)) [] (ss_queues s) of
            (res, rs, ids, qs) \<Rightarrow>
              (res_bind res (\<lambda>_. Inr ids), set_unacked (replace_slice rg rs (ss_unacked s)) (set_queues qs s))))"

text \<open>Records are released from the last to the first.\<close>

fun release_each :: "'p MessageContent \<Rightarrow> bool \<Rightarrow> DeliveryRecord list \<Rightarrow> 'p queues \<Rightarrow> DeliveryRecord list \<times> 'p queues" where
  "release_each e b [] qs = ([], qs)"
| "release_each e b (r # rs) qs =
    (let (rs, qs) = release_each e b rs qs; (r, qs) = DeliveryRecord_release e b r qs in (r # rs, qs))"

definition session_release :: "'p MessageContent \<Rightarrow> SequenceNumber \<Rightarrow> SequenceNumber \<Rightarrow> bool \<Rightarrow> 'p SemanticState \<Rightarrow>
    'p SemanticState result" where
  "session_release e first_id last_id setRedelivered s =
    res_bind (on_range first_id last_id s) (\<lambda>rg.
    let (rs, qs) = release_each e setRedelivered (slice rg (ss_unacked s)) (ss_queues s)
    in Inr (set_unacked (erase_range isRedundant rg (replace_slice rg rs (ss_unacked s))) (set_queues qs s)))"

fun reject_each :: "'p MessageContent \<Rightarrow> DeliveryRecord list \<Rightarrow> 'p queues \<Rightarrow> unit result \<times> DeliveryRecord list \<times> 'p queues" where
  "reject_each e [] qs = (Inr (), [], qs)"
| "reject_each e (r # rs) qs =
    (case DeliveryRecord_reject e r qs of
       Inl err \<Rightarrow> (Inl err, r # rs, qs)
     | Inr (r, qs) \<Rightarrow> (case reject_each e rs qs of (res, rs, qs) \<Rightarrow> (res, r # rs, qs)))"

fun erase_upto :: "SequenceNumber \<Rightarrow> DeliveryRecord list \<Rightarrow> DeliveryRecord list" where
  "erase_upto last_id [] = []"
| "erase_upto last_id (r # rs) =
    (if SequenceNumber_le (dr_id r) last_id then
       if isRedundant r then erase_upto last_id rs else r # erase_upto last_id rs
     else r # rs)"

definition session_reject :: "'p MessageContent \<Rightarrow> SequenceNumber \<Rightarrow> SequenceNumber \<Rightarrow> 'p SemanticState \<Rightarrow>
    unit result \<times> 'p SemanticState" where
  "session_reject e first_id last_id s =
    (case on_range first_id last_id s of
       Inl err \<Rightarrow> (Inl err, s)
     | Inr rg \<Rightarrow>
         (case reject_each e (slice rg (ss_unacked s)) (ss_queues s) of
            (res, rs, qs) \<Rightarrow>
              let rs = replace_slice rg rs (ss_unacked s);
                  rs = (if res = Inr () then take (fst rg) rs @ erase_upto last_id (drop (fst rg) rs) else rs)
              in (res, set_unacked rs (set_queues qs s))))"

section \<open>The life of a session\<close>

definition session_requeue :: "'p MessageContent \<Rightarrow> 'p SemanticState \<Rightarrow> 'p SemanticState" where
  "session_requeue e s =
    (let copy = ss_unacked s; s = set_unacked [] s
     in set_queues (fold (DeliveryRecord_requeue e) (rev copy) (ss_queues s)) s)"

definition session_attach :: "'p SemanticState \<Rightarrow> 'p SemanticState" where
  "session_attach s =
    (let s = fold (\<lambda>(tag, c) s. emit [AddOutputTask tag] (put_consumer (c \<lparr> ci_notifyEnabled := True \<rparr>) s)) (ss_consumers s) s
     in emit [ActivateOutput] s)"

definition session_detach :: "'p SemanticState \<Rightarrow> 'p SemanticState" where
  "session_detach s =
    fold (\<lambda>(tag, c) s. emit [RemoveOutputTask tag] (put_consumer (c \<lparr> ci_notifyEnabled := False \<rparr>) s)) (ss_consumers s) s"

fun cancel_all :: "'p MessageContent \<Rightarrow> ConsumerImpl list \<Rightarrow> 'p SemanticState \<Rightarrow> unit result \<times> 'p SemanticState" where
  "cancel_all e [] s = (Inr (), s)"
| "cancel_all e (c # cs) s =
    (case cancel_consumer e c s of (Inl err, s) \<Rightarrow> (Inl err, s) | (Inr _, s) \<Rightarrow> cancel_all e cs s)"

text \<open>\<open>closed\<close>, without the session-scoped bindings.\<close>

definition session_closed :: "'p MessageContent \<Rightarrow> ('p TxOp, nat, 'p tx_world) tx_methods \<Rightarrow> 'p SemanticState \<Rightarrow>
    unit result \<times> 'p SemanticState" where
  "session_closed e M s =
    (if ss_closeComplete s then (Inr (), s)
     else
       let s = fold (\<lambda>(tag, c). session_disable c) (ss_consumers s) s;
           s = (case ss_dtxBuffer s of None \<Rightarrow> s | Some a \<Rightarrow> change_buffer (DtxBuffer_fail M) a s);
           s = session_requeue e s
       in case cancel_all e (map snd (ss_consumers s)) s of
            (Inl err, s) \<Rightarrow> (Inl err, s)
          | (Inr _, s) \<Rightarrow>
              let s = s \<lparr> ss_closeComplete := True \<rparr>
              in (Inr (), case ss_txBuffer s of
                    None \<Rightarrow> s
                  | Some (LocalTx b) \<Rightarrow>
                      (let (b, w) = TxBuffer_rollback M b (ss_world s) in set_world w s \<lparr> ss_txBuffer := Some (LocalTx b) \<rparr>)
                  | Some (EnlistedTx a) \<Rightarrow> change_buffer (TxBuffer_rollback M) a s))"

end
