(* ===== verification/Session_Custody.thy ===== *)
theory Session_Custody
  imports Semantic_State Tx_Atomic
begin

text \<open>
  Who has which message. Outside transactions the messages that a session has acquired and neither
  accepted, rejected nor released are exactly those that its records hold, each once, whatever the
  session does, and a session that is closed gives all of them back.
\<close>

section \<open>Single queues\<close>

text \<open>A queue that rejects at its limit and is deleted by nobody.\<close>

definition steady :: "'p MessageContent \<Rightarrow> 'p Queue \<Rightarrow> bool" where
  "steady e q \<longleftrightarrow> queue_inv e [] q \<and> \<not> q_deleted q \<and> q_class q = Plain_Queue \<and> \<not> autodelete (q_settings q)"

lemma steady_update [simp]:
  "steady e (log_events es q) = steady e q" "steady e (notify_all cs q) = steady e q"
  "steady e (q \<lparr> q_listeners := l \<rparr>) = steady e q" "steady e (q \<lparr> q_users := u \<rparr>) = steady e q"
  "steady e (q \<lparr> q_uses := n \<rparr>) = steady e q" "steady e (q \<lparr> q_exclusive := x \<rparr>) = steady e q"
  by (simp_all add: steady_def log_events_def notify_all_def queue_inv_def depth_ok_def contents_def last_sequence_def)

lemma steady_dropped:
  assumes "steady e q" "valid c" "position c = msg_sequence m" "m \<in> set (contents e q)"
  shows "steady e (dropped e c m q)" "contents e (dropped e c m q) = remove1 m (contents e q)"
  using assms dropped_inv [of e "[]" q c m] by (simp_all add: steady_def) (simp add: dropped_def)

lemma dequeue_steady:
  assumes "steady e q" "valid c" "position c = msg_sequence m" "m \<in> set (contents e q)"
  shows "\<exists>q'. Queue_dequeue e False c q = Inr q' \<and> steady e q' \<and> contents e q' = remove1 m (contents e q)"
proof -
  have f: "MessageDeque_find e (q_messages q) c = Some m"
    using find_contents [of e "[]" q c m] assms by (simp add: steady_def)
  have d: "\<not> q_deleted q" "\<not> autodelete (q_settings q)"
    using assms(1) by (simp_all add: steady_def)
  have "Queue_dequeue e False c q = Inr (log_events (ObserveDequeue m # (if q_store q \<and> isPersistent m then [StoreDequeue m] else []))
      (dropped e c m q))"
    using f d observeDequeue_auto [of False m False "q \<lparr> q_uses := Suc (q_uses q) \<rparr>"]
    by (auto simp: Queue_dequeue_def UsageBarrier_acquire_def UsageBarrier_release_def end_autodelete_def Let_def split_beta
        dropped_def delete_message_def log_events_def)
  then show ?thesis
    using steady_dropped [OF assms] by auto
qed

lemma reject_steady:
  assumes "steady e q" "valid c" "position c = msg_sequence m" "m \<in> set (contents e q)"
  shows "\<exists>q'. Queue_reject e c q = Inr q' \<and> steady e q' \<and> contents e q' = remove1 m (contents e q)"
proof -
  have f: "MessageDeque_find e (q_messages q) c = Some m"
    using find_contents [of e "[]" q c m] assms by (simp add: steady_def)
  have d: "\<not> q_deleted q" "\<not> autodelete (q_settings q)"
    using assms(1) by (simp_all add: steady_def)
  have "Queue_reject e c q = Inr (log_events (ObserveDequeue m # (if q_alternate q then [Reroute (resetDeliveryCount m)] else []) @
      (if isPersistent m \<and> q_store q then [StoreDequeue m] else [])) (dropped e c m q))"
    using f d observeDequeue_auto [of False m False q]
    by (auto simp: Queue_reject_def end_autodelete_def Let_def split_beta dropped_def delete_message_def log_events_def
        dequeueFromStore_def)
  then show ?thesis
    using steady_dropped [OF assms] by auto
qed

lemma next_loop_cursor:
  "next_loop G v c ms = (Some m, c') \<Longrightarrow> valid c' \<and> position c' = getSequence G m"
  by (induction G v c ms rule: next_loop.induct) (auto simp: Let_def cursor_setPosition_def split: if_splits)

lemma next_cursor: "MessageDeque_next e d c = (Some m, c') \<Longrightarrow> valid c' \<and> position c' = msg_sequence m"
  using next_loop_cursor [of "message_ops e"] by (fastforce simp: MessageDeque_next_def deque_next_def Let_def message_ops_def)

lemma next_loop_type: "next_loop G v c ms = (mo, c') \<Longrightarrow> cursor_type c' = cursor_type c"
  by (induction G v c ms rule: next_loop.induct) (auto simp: Let_def cursor_setPosition_def split: if_splits)

lemma next_type: "MessageDeque_next e d c = (mo, c') \<Longrightarrow> cursor_type c' = cursor_type c"
  using next_loop_type by (fastforce simp: MessageDeque_next_def deque_next_def Let_def)

lemma next_message_loop_cursor:
  assumes "next_message_loop fuel e now flt acc c s el q = Inr (out, c', s', el', q')"
  shows "q_deleted q' = q_deleted q \<and> cursor_type (consumer_cursor c') = cursor_type (consumer_cursor c) \<and> (\<forall>m. out = Found m \<longrightarrow> valid (consumer_cursor c') \<and> position (consumer_cursor c') = msg_sequence m)"
  using assms
proof (induction fuel arbitrary: c s el q)
  case (Suc fuel)
  obtain mo cur where nx: "MessageDeque_next e (q_messages q) (consumer_cursor c) = (mo, cur)"
    by fastforce
  have d: "q_deleted (delete_message e cur x) = q_deleted x" "q_deleted (dequeueFromStore m x) = q_deleted x"
    "q_deleted (snd (observeDequeue b m el x)) = q_deleted x" "q_deleted (modify_message i f x) = q_deleted x" for m b el i f and x :: "'a Queue"
    by (simp_all add: delete_message_def dequeueFromStore_def modify_message_def)
  show ?case
  proof (cases mo)
    case None
    then show ?thesis
      using Suc.prems nx next_type [OF nx] by (auto simp: Let_def)
  next
    case (Some m)
    then show ?thesis
      using Suc.prems nx next_cursor [of e "q_messages q" "consumer_cursor c" m cur] next_type [OF nx]
      by (auto simp: Let_def split_beta FifoDistributor_acquire_def d split: if_splits dest!: Suc.IH)
  qed
qed simp

lemma release_steady:
  assumes "steady e q" "valid c" "position c = msg_sequence m" "m \<in> set (contents e q)"
  shows "steady e (Queue_release e c b q)"
    "contents e (Queue_release e c b q) = map (\<lambda>x. if x = m then released b m else x) (contents e q)"
  using assms release_inv [of e "[]" q c m b] by (auto simp: steady_def shrinks_def frame_def)

lemma modify_steady:
  assumes "steady e q" "m \<in> set (contents e q)" "msg_sequence (f m) = msg_sequence m" "getMessageSize (f m) = getMessageSize m"
    "msg_state (f m) = AVAILABLE \<or> msg_state (f m) = ACQUIRED"
  shows "steady e (modify_message (msg_sequence m) f q)"
    "contents e (modify_message (msg_sequence m) f q) = map (\<lambda>x. if x = m then f m else x) (contents e q)"
  using assms modify_inv [of e "[]" q m f] by (simp_all add: steady_def) (simp add: modify_message_def)

lemma acquire_steady:
  assumes "steady e q" "Queue_acquire e c q = (b, q')"
  shows "if b then valid c \<and> steady e q' \<and> (\<exists>m\<in>set (contents e q). msg_state m = AVAILABLE \<and> msg_sequence m = position c \<and>
      contents e q' = map (\<lambda>x. if x = m then m \<lparr> msg_state := ACQUIRED \<rparr> else x) (contents e q)) else q' = q"
proof (cases "MessageDeque_find e (q_messages q) c")
  case (Some m)
  have m: "valid c" "m \<in> set (contents e q)" "msg_sequence m = position c"
    using find_valid [OF Some] find_contents [of e "[]" q c m] Some assms(1) by (simp_all add: steady_def)
  show ?thesis
  proof (cases "msg_state m = AVAILABLE")
    case True
    then show ?thesis
      using assms(2) Some m modify_steady [OF assms(1) m(2), of "\<lambda>_. m \<lparr> msg_state := ACQUIRED \<rparr>"]
      by (auto simp: Queue_acquire_def FifoDistributor_acquire_def)
  qed (use assms(2) Some in \<open>auto simp: Queue_acquire_def FifoDistributor_acquire_def\<close>)
qed (use assms(2) in \<open>simp add: Queue_acquire_def\<close>)

text \<open>Dispatch: what it takes from the queue has expired, and what it finds is marked if it is acquired.\<close>

lemma ahead_contents:
  assumes "x \<in> set (ahead e q c)" "cursor_type c = CONSUMER \<or> cursor_type c = BROWSER"
  shows "x \<in> set (contents e q)" "msg_state x = AVAILABLE"
  using assms by (auto simp: ahead_def Let_def contents_def live_def viewable_def message_ops_def dest: in_set_dropD)

lemma wanted_gone_sets:
  "wanted now flt ms = Some m \<Longrightarrow> m \<in> set ms \<and> \<not> hasExpired now m" "x \<in> set (gone now flt ms) \<Longrightarrow> x \<in> set ms \<and> hasExpired now x"
  by (auto simp: wanted_def gone_def find_Some_iff dest: set_takeWhileD)

lemma dispatch_steady:
  assumes q: "steady e q" and ty: "cursor_type (consumer_cursor c) = (if consumer_acquires c then CONSUMER else BROWSER)"
    and run: "getNextMessage e now flt acc c q = Inr (out, c', q')"
  shows "steady e q'" "consumer_acquires c' = consumer_acquires c" "cursor_type (consumer_cursor c') = cursor_type (consumer_cursor c)"
    "\<exists>xs. (\<forall>x\<in>set xs. x \<in> set (contents e q) \<and> msg_state x = AVAILABLE) \<and>
    (case out of
       Found m' \<Rightarrow> \<exists>m\<in>set (contents e q). m \<notin> set xs \<and> msg_state m = AVAILABLE \<and> m' = taken (consumer_acquires c) m \<and>
         contents e q' = map (\<lambda>x. if x = m then m' else x) (minus_all (contents e q) xs) \<and>
         valid (consumer_cursor c') \<and> position (consumer_cursor c') = msg_sequence m
     | _ \<Rightarrow> contents e q' = minus_all (contents e q) xs)"
proof -
  let ?ws = "ahead e q (consumer_cursor c)"
  have inv: "queue_inv e [] q" and st: "\<not> q_deleted q" "\<not> autodelete (q_settings q)" "q_class q = Plain_Queue"
    using q by (simp_all add: steady_def)
  obtain cur s' q1 where loop: "next_message_loop (Suc (length (messages (q_messages q)))) e now flt acc c NotificationSet_init False q =
      Inr (dispatched (consumer_acquires c) acc (wanted now flt ?ws), c \<lparr> consumer_cursor := cur \<rparr>, s', False, q1)"
    and q1: "queue_inv e [] q1" "frame q q1"
    and cts: "contents e q1 = after_dispatch (consumer_acquires c) acc (wanted now flt ?ws) (minus_all (contents e q) (gone now flt ?ws))"
    using next_message_loop_ahead [OF inv, of c now flt acc NotificationSet_init False] ty st(2) by auto
  have r: "out = dispatched (consumer_acquires c) acc (wanted now flt ?ws)" "c' = c \<lparr> consumer_cursor := cur \<rparr>"
    "q' = notify_all (notify s') q1"
    using run loop st(1) by (simp_all add: getNextMessage_def checkNotDeleted_def end_autodelete_def)
  note lc = next_message_loop_cursor [OF loop]
  show "steady e q'" "consumer_acquires c' = consumer_acquires c" "cursor_type (consumer_cursor c') = cursor_type (consumer_cursor c)"
    using q1 st lc r by (simp_all add: steady_def frame_def notify_all_def)
  have sets: "\<forall>x\<in>set (gone now flt ?ws). x \<in> set (contents e q) \<and> msg_state x = AVAILABLE"
    using wanted_gone_sets(2) ahead_contents [of _ e q "consumer_cursor c"] ty by (metis (full_types))
  show "\<exists>xs. (\<forall>x\<in>set xs. x \<in> set (contents e q) \<and> msg_state x = AVAILABLE) \<and>
    (case out of
       Found m' \<Rightarrow> \<exists>m\<in>set (contents e q). m \<notin> set xs \<and> msg_state m = AVAILABLE \<and> m' = taken (consumer_acquires c) m \<and>
         contents e q' = map (\<lambda>x. if x = m then m' else x) (minus_all (contents e q) xs) \<and>
         valid (consumer_cursor c') \<and> position (consumer_cursor c') = msg_sequence m
     | _ \<Rightarrow> contents e q' = minus_all (contents e q) xs)"
  proof (intro exI [of _ "gone now flt ?ws"] conjI sets)
    show "case out of
       Found m' \<Rightarrow> \<exists>m\<in>set (contents e q). m \<notin> set (gone now flt ?ws) \<and> msg_state m = AVAILABLE \<and> m' = taken (consumer_acquires c) m \<and>
         contents e q' = map (\<lambda>x. if x = m then m' else x) (minus_all (contents e q) (gone now flt ?ws)) \<and>
         valid (consumer_cursor c') \<and> position (consumer_cursor c') = msg_sequence m
     | _ \<Rightarrow> contents e q' = minus_all (contents e q) (gone now flt ?ws)"
    proof (cases "wanted now flt ?ws")
      case (Some m)
      have m: "m \<in> set (contents e q)" "msg_state m = AVAILABLE" "m \<notin> set (gone now flt ?ws)"
        using wanted_gone_sets(1) [OF Some] wanted_gone_sets(2) [of m now flt ?ws] ahead_contents [of m e q "consumer_cursor c"] ty
        by (auto split: if_splits)
      show ?thesis
        using m r lc cts Some by (auto simp: dispatched_def after_dispatch_def taken_def)
    qed (use r cts in \<open>simp add: dispatched_def after_dispatch_def\<close>)
  qed
qed

lemma getNextMessage_steady:
  assumes q: "steady e q" and ty: "cursor_type (consumer_cursor c) = (if consumer_acquires c then CONSUMER else BROWSER)"
  shows "\<exists>out c' q'. getNextMessage e now flt acc c q = Inr (out, c', q')"
  using next_message_loop_ahead [of e "[]" q c now flt acc NotificationSet_init False] assms
  by (auto simp: steady_def getNextMessage_def checkNotDeleted_def end_autodelete_def split: if_splits)

section \<open>Custody\<close>

text \<open>
  The references \<open>H\<close> of records that hold a message are those of the acquired messages of the queues,
  each once.
\<close>

definition acquired :: "'p MessageContent \<Rightarrow> 'p queues \<Rightarrow> (string \<times> SequenceNumber) set" where
  "acquired e qs = {x. \<exists>m\<in>set (contents e (qs (fst x))). msg_state m = ACQUIRED \<and> msg_sequence m = snd x}"

definition custody :: "'p MessageContent \<Rightarrow> (string \<times> SequenceNumber) multiset \<Rightarrow> 'p queues \<Rightarrow> bool" where
  "custody e H qs \<longleftrightarrow> (\<forall>qn. steady e (qs qn)) \<and> (\<forall>x. count H x = (if x \<in> acquired e qs then 1 else 0))"

lemma custody_steady: "custody e H qs \<Longrightarrow> steady e (qs qn)"
  by (simp add: custody_def)

lemma steady_distinct: "steady e q \<Longrightarrow> distinct (map msg_sequence (contents e q))"
  using contents_distinct by (auto simp: steady_def)

lemma custody_change:
  assumes "custody e H qs" "steady e q'"
    and "\<And>p. count H' (qn, p) = (if \<exists>m\<in>set (contents e q'). msg_state m = ACQUIRED \<and> msg_sequence m = p then 1 else 0)"
    and "\<And>x. fst x \<noteq> qn \<Longrightarrow> count H' x = count H x"
  shows "custody e H' (qs(qn := q'))"
proof -
  have "count H' x = (if x \<in> acquired e (qs(qn := q')) then 1 else 0)" for x
    using assms(1) assms(3) [of "snd x"] assms(4) [of x] by (cases x) (auto simp: custody_def acquired_def)
  then show ?thesis
    using assms(1,2) by (simp add: custody_def)
qed

lemma custody_count: "custody e H qs \<Longrightarrow> count H (qn, p) = (if \<exists>m\<in>set (contents e (qs qn)). msg_state m = ACQUIRED \<and> msg_sequence m = p then 1 else 0)"
  by (auto simp: custody_def acquired_def)

text \<open>A reference that is held, and its message.\<close>

lemma custody_held:
  assumes "custody e (add_mset (qn, p) H) qs"
  obtains m where "m \<in> set (contents e (qs qn))" "msg_sequence m = p" "msg_state m = ACQUIRED"
    "count H (qn, p) = 0"
proof -
  have c: "count (add_mset (qn, p) H) (qn, p) = Suc (count H (qn, p))"
    by simp
  show thesis
    using that custody_count [OF assms, of qn p] unfolding c by (auto split: if_splits)
qed

lemma distinct_sequence: "distinct (map msg_sequence ms) \<Longrightarrow> m \<in> set ms \<Longrightarrow> x \<in> set ms \<Longrightarrow> msg_sequence x = msg_sequence m \<longleftrightarrow> x = m"
  by (auto simp: distinct_map inj_on_def)

lemma custody_remove:
  assumes c: "custody e (add_mset (qn, p) H) qs" and m: "m \<in> set (contents e (qs qn))" "msg_sequence m = p"
    and q': "steady e q'" "contents e q' = remove1 m (contents e (qs qn))"
  shows "custody e H (qs(qn := q'))"
proof (rule custody_change [OF c q'(1)])
  have d: "distinct (map msg_sequence (contents e (qs qn)))"
    using custody_steady [OF c] by (rule steady_distinct)
  then have mem: "x \<in> set (contents e q') \<longleftrightarrow> x \<in> set (contents e (qs qn)) \<and> msg_sequence x \<noteq> p" for x
    using distinct_sequence [OF d m(1)] m(2) q'(2) by (auto simp: distinct_map)
  fix k
  show "count H (qn, k) = (if \<exists>m\<in>set (contents e q'). msg_state m = ACQUIRED \<and> msg_sequence m = k then 1 else 0)"
  proof (cases "k = p")
    case True
    then show ?thesis
      using custody_held [OF c] mem by auto
  next
    case False
    then show ?thesis
      using custody_count [OF c, of qn k] mem by auto
  qed
qed auto

lemma custody_available:
  assumes c: "custody e (add_mset (qn, p) H) qs" and m: "m \<in> set (contents e (qs qn))" "msg_sequence m = p"
    and q': "steady e q'" "contents e q' = map (\<lambda>x. if x = m then m' else x) (contents e (qs qn))"
    and m': "msg_sequence m' = p" "msg_state m' = AVAILABLE"
  shows "custody e H (qs(qn := q'))"
proof (rule custody_change [OF c q'(1)])
  have d: "distinct (map msg_sequence (contents e (qs qn)))"
    using custody_steady [OF c] by (rule steady_distinct)
  fix k
  have "(\<exists>x\<in>set (contents e q'). msg_state x = ACQUIRED \<and> msg_sequence x = k) \<longleftrightarrow>
      k \<noteq> p \<and> (\<exists>x\<in>set (contents e (qs qn)). msg_state x = ACQUIRED \<and> msg_sequence x = k)"
    using distinct_sequence [OF d m(1)] m(2) m' q'(2) by (auto split: if_splits)
  then show "count H (qn, k) = (if \<exists>m\<in>set (contents e q'). msg_state m = ACQUIRED \<and> msg_sequence m = k then 1 else 0)"
    using custody_held [OF c] custody_count [OF c, of qn k] by (cases "k = p") auto
qed auto

lemma set_minus_all: "distinct xs \<Longrightarrow> set (minus_all xs ms) = set xs - set ms"
  unfolding minus_all_def by (induction ms arbitrary: xs) auto

lemma custody_less:
  assumes c: "custody e H qs" and xs: "\<forall>x\<in>set xs. x \<in> set (contents e (qs qn)) \<and> msg_state x = AVAILABLE"
    and q': "steady e q'" "contents e q' = minus_all (contents e (qs qn)) xs"
  shows "custody e H (qs(qn := q'))"
proof (rule custody_change [OF c q'(1)])
  have "distinct (contents e (qs qn))"
    using steady_distinct [OF custody_steady [OF c]] distinct_map by blast
  then have "set (contents e q') = set (contents e (qs qn)) - set xs"
    using q'(2) set_minus_all by metis
  then show "count H (qn, k) = (if \<exists>m\<in>set (contents e q'). msg_state m = ACQUIRED \<and> msg_sequence m = k then 1 else 0)" for k
    using custody_count [OF c, of qn k] xs by auto
qed simp

lemma custody_add:
  assumes c: "custody e H qs" and m: "m \<in> set (contents e (qs qn))" "msg_state m = AVAILABLE"
    and q': "steady e q'" "contents e q' = map (\<lambda>x. if x = m then m' else x) (minus_all (contents e (qs qn)) xs)"
    and m': "msg_sequence m' = msg_sequence m" "msg_state m' = ACQUIRED"
    and xs: "\<forall>x\<in>set xs. x \<in> set (contents e (qs qn)) \<and> msg_state x = AVAILABLE" "m \<notin> set xs"
  shows "custody e (add_mset (qn, msg_sequence m) H) (qs(qn := q'))"
proof (rule custody_change [OF c q'(1)])
  have d: "distinct (map msg_sequence (contents e (qs qn)))"
    using custody_steady [OF c] by (rule steady_distinct)
  then have set: "set (minus_all (contents e (qs qn)) xs) = set (contents e (qs qn)) - set xs"
    using set_minus_all distinct_map by blast
  fix k
  have "(\<exists>x\<in>set (contents e q'). msg_state x = ACQUIRED \<and> msg_sequence x = k) \<longleftrightarrow>
      k = msg_sequence m \<or> (\<exists>x\<in>set (contents e (qs qn)). msg_state x = ACQUIRED \<and> msg_sequence x = k)"
    using m m' xs unfolding q'(2) set_map set by (auto simp: image_iff split: if_splits)
  moreover have "\<not> (\<exists>x\<in>set (contents e (qs qn)). msg_state x = ACQUIRED \<and> msg_sequence x = msg_sequence m)"
    using distinct_sequence [OF d m(1)] m(2) by auto
  ultimately show "count (add_mset (qn, msg_sequence m) H) (qn, k) =
      (if \<exists>m\<in>set (contents e q'). msg_state m = ACQUIRED \<and> msg_sequence m = k then 1 else 0)"
    using custody_count [OF c, of qn k] by auto
qed auto

section \<open>Records\<close>

definition cursors_ok :: "DeliveryRecord list \<Rightarrow> bool" where
  "cursors_ok rs \<longleftrightarrow> (\<forall>r\<in>set rs. holding r \<longrightarrow> valid (dr_msg r))"

lemma refs_simps [simp]:
  "refs [] = []" "refs (r # rs) = (if holding r then [(dr_queue r, position (dr_msg r))] else []) @ refs rs"
  "refs (rs @ rs') = refs rs @ refs rs'"
  by (simp_all add: refs_def)

lemma cursors_ok_simps [simp]:
  "cursors_ok []" "cursors_ok (r # rs) \<longleftrightarrow> (holding r \<longrightarrow> valid (dr_msg r)) \<and> cursors_ok rs"
  "cursors_ok (rs @ rs') \<longleftrightarrow> cursors_ok rs \<and> cursors_ok rs'"
  by (auto simp: cursors_ok_def)

lemma accept_custody:
  assumes "custody e (mset (refs [r]) + H) qs" "cursors_ok [r]"
  shows "\<exists>b r' qs'. DeliveryRecord_accept e False r qs = Inr (b, r', qs') \<and> \<not> holding r' \<and> custody e H qs'"
proof (cases "holding r")
  case True
  then have h: "dr_acquired r" "\<not> dr_ended r" "valid (dr_msg r)"
    using assms(2) by (simp_all add: holding_def)
  have c: "custody e (add_mset (dr_queue r, position (dr_msg r)) H) qs"
    using assms(1) True by simp
  obtain m where m: "m \<in> set (contents e (qs (dr_queue r)))" "msg_sequence m = position (dr_msg r)"
    using custody_held [OF c] by metis
  obtain q' where "Queue_dequeue e False (dr_msg r) (qs (dr_queue r)) = Inr q'" "steady e q'"
    "contents e q' = remove1 m (contents e (qs (dr_queue r)))"
    using dequeue_steady [OF custody_steady [OF c] h(3) _ m(1)] m(2) by metis
  then show ?thesis
    using h custody_remove [OF c m] by (auto simp: DeliveryRecord_accept_def at_queue_def setEnded_def holding_def Let_def)
next
  case False
  then show ?thesis
    using assms(1) by (auto simp: DeliveryRecord_accept_def setEnded_def holding_def Let_def)
qed

lemma reject_custody:
  assumes "custody e (mset (refs [r]) + H) qs" "cursors_ok [r]"
  shows "\<exists>r' qs'. DeliveryRecord_reject e r qs = Inr (r', qs') \<and> \<not> holding r' \<and> custody e H qs'"
proof (cases "holding r")
  case True
  then have h: "dr_acquired r" "\<not> dr_ended r" "valid (dr_msg r)"
    using assms(2) by (simp_all add: holding_def)
  have c: "custody e (add_mset (dr_queue r, position (dr_msg r)) H) qs"
    using assms(1) True by simp
  obtain m where m: "m \<in> set (contents e (qs (dr_queue r)))" "msg_sequence m = position (dr_msg r)"
    using custody_held [OF c] by metis
  obtain q' where "Queue_reject e (dr_msg r) (qs (dr_queue r)) = Inr q'" "steady e q'"
    "contents e q' = remove1 m (contents e (qs (dr_queue r)))"
    using reject_steady [OF custody_steady [OF c] h(3) _ m(1)] m(2) by metis
  then show ?thesis
    using h custody_remove [OF c m] by (auto simp: DeliveryRecord_reject_def at_queue_def setEnded_def holding_def Let_def)
next
  case False
  then show ?thesis
    using assms(1) by (auto simp: DeliveryRecord_reject_def holding_def)
qed

text \<open>Releasing a reference on its queue.\<close>

lemma release_reference:
  assumes c: "custody e (add_mset (qn, position cur) H) qs" and "valid cur"
  shows "custody e H (qs(qn := Queue_release e cur b (qs qn)))"
    "contents e (Queue_release e cur b (qs qn)) = map (\<lambda>x. if msg_sequence x = position cur then released b x else x) (contents e (qs qn))"
proof -
  obtain m where m: "m \<in> set (contents e (qs qn))" "msg_sequence m = position cur"
    using custody_held [OF c] by metis
  note r = release_steady [OF custody_steady [OF c] assms(2) m(2) [symmetric] m(1), of b]
  show "custody e H (qs(qn := Queue_release e cur b (qs qn)))"
    using custody_available [OF c m r] m(2) by simp
  show "contents e (Queue_release e cur b (qs qn)) = map (\<lambda>x. if msg_sequence x = position cur then released b x else x) (contents e (qs qn))"
    unfolding r(2) using distinct_sequence [OF steady_distinct [OF custody_steady [OF c]] m(1)] m(2) by (intro map_cong) auto
qed

lemma release_custody:
  assumes "custody e (mset (refs [r]) + H) qs" "cursors_ok [r]" "DeliveryRecord_release e b r qs = (r', qs')"
  shows "\<not> holding r' \<and> custody e H qs'"
proof (cases "holding r")
  case True
  then show ?thesis
    using assms release_reference(1) [of e "dr_queue r" "dr_msg r" H qs b]
    by (auto simp: DeliveryRecord_release_def setEnded_def holding_def Let_def)
qed (use assms in \<open>auto simp: DeliveryRecord_release_def holding_def\<close>)

text \<open>
  Acquiring a delivery takes its message if the message is available. The record then holds it, unless
  the delivery was settled before: then nobody does.
\<close>

definition strand :: "'p MessageContent \<Rightarrow> DeliveryRecord \<Rightarrow> 'p queues \<Rightarrow> (string \<times> SequenceNumber) list" where
  "strand e r qs =
    (if dr_ended r \<and> fst (Queue_acquire e (dr_msg r) (qs (dr_queue r))) then [(dr_queue r, position (dr_msg r))] else [])"

lemma acquire_taken:
  assumes c: "custody e (mset (refs [r]) + H) qs" and a: "Queue_acquire e (dr_msg r) (qs (dr_queue r)) = (True, q')"
  shows "valid (dr_msg r)" "custody e (add_mset (dr_queue r, position (dr_msg r)) H) (qs(dr_queue r := q'))" "\<not> holding r"
proof -
  obtain m where m: "m \<in> set (contents e (qs (dr_queue r)))" "msg_state m = AVAILABLE" "msg_sequence m = position (dr_msg r)"
    and q': "valid (dr_msg r)" "steady e q'" "contents e q' = map (\<lambda>x. if x = m then m \<lparr> msg_state := ACQUIRED \<rparr> else x) (contents e (qs (dr_queue r)))"
    using acquire_steady [OF custody_steady [OF c] a] by auto
  have c': "custody e (add_mset (dr_queue r, position (dr_msg r)) (mset (refs [r]) + H)) (qs(dr_queue r := q'))"
    using custody_add [OF c m(1,2) q'(2), of "m \<lparr> msg_state := ACQUIRED \<rparr>" "[]"] q'(3) m(3) by (simp add: minus_all_def)
  show "valid (dr_msg r)" "\<not> holding r"
    using q'(1) custody_count [OF c', of "dr_queue r" "position (dr_msg r)"] by (auto split: if_splits)
  then show "custody e (add_mset (dr_queue r, position (dr_msg r)) H) (qs(dr_queue r := q'))"
    using c' by simp
qed

lemma acquire_custody:
  assumes c: "custody e (mset (refs [r]) + H) qs" "cursors_ok [r]"
  shows "\<exists>r' ids' qs'. DeliveryRecord_acquire e r ids qs = Inr (r', ids', qs') \<and>
    custody e (mset (refs [r']) + (mset (strand e r qs) + H)) qs' \<and> cursors_ok [r']"
proof (cases "Queue_acquire e (dr_msg r) (qs (dr_queue r))")
  case (Pair b q')
  define r1 where "r1 = r \<lparr> dr_acquired := True \<rparr>"
  consider (no) "\<not> b" | (settled) b "dr_ended r" | (kept) b "\<not> dr_ended r" "dr_acceptExpected r" | (gone) b "\<not> dr_ended r" "\<not> dr_acceptExpected r"
    by blast
  then show ?thesis
  proof cases
    case no
    then show ?thesis
      using Pair acquire_steady [OF custody_steady [OF c(1)] Pair] c by (simp add: DeliveryRecord_acquire_def strand_def)
  next
    case settled
    then have "\<not> holding r1"
      by (simp add: r1_def holding_def)
    then show ?thesis
      using Pair settled acquire_taken(2) [OF c(1)]
      by (auto simp: DeliveryRecord_acquire_def strand_def Let_def simp flip: r1_def) (simp add: r1_def)
  next
    case kept
    note t = acquire_taken [OF c(1) Pair [unfolded eqTrueI [OF kept(1)]]]
    have "holding r1" "dr_queue r1 = dr_queue r" "dr_msg r1 = dr_msg r" "dr_acceptExpected r1" "dr_id r1 = dr_id r"
      using kept by (simp_all add: r1_def holding_def)
    then show ?thesis
      using Pair kept t by (auto simp: DeliveryRecord_acquire_def strand_def Let_def simp flip: r1_def)
  next
    case gone
    note t = acquire_taken [OF c(1) Pair [unfolded eqTrueI [OF gone(1)]]]
    have r1: "holding r1" "dr_queue r1 = dr_queue r" "dr_msg r1 = dr_msg r" "dr_acquired r1" "\<not> dr_ended r1"
      "\<not> dr_acceptExpected r1" "dr_id r1 = dr_id r"
      using gone by (simp_all add: r1_def holding_def)
    have "custody e (mset (refs [r1]) + H) (qs(dr_queue r := q'))" "cursors_ok [r1]"
      using t r1 by simp_all
    then obtain b2 r2 qs2 where "DeliveryRecord_accept e False r1 (qs(dr_queue r := q')) = Inr (b2, r2, qs2)" "\<not> holding r2" "custody e H qs2"
      using accept_custody by blast
    then show ?thesis
      using Pair gone r1
      by (auto simp: DeliveryRecord_acquire_def DeliveryRecord_accept_def strand_def res_bind_eq_Inr at_queue_def setEnded_def Let_def
          simp flip: r1_def)
  qed
qed

section \<open>Lists of records\<close>

lemma redundant_not_holding: "isRedundant r \<Longrightarrow> \<not> holding r"
  by (simp add: isRedundant_def holding_def)

lemma refs_filter: "\<forall>r\<in>set rs. p r \<longrightarrow> \<not> holding r \<Longrightarrow> refs (filter (\<lambda>r. \<not> p r) rs) = refs rs"
  by (induction rs) auto

lemma cursors_ok_subset: "cursors_ok rs \<Longrightarrow> set rs' \<subseteq> set rs \<Longrightarrow> cursors_ok rs'"
  by (auto simp: cursors_ok_def)

lemma slice_split: "fst rg \<le> snd rg \<Longrightarrow> take (fst rg) xs @ slice rg xs @ drop (snd rg) xs = xs"
  by (metis append_assoc append_take_drop_id min.absorb_iff1 slice_def take_take)

lemma erase_range_keeps:
  assumes "fst rg \<le> snd rg"
  shows "refs (erase_range isRedundant rg rs) = refs rs" "set (erase_range isRedundant rg rs) \<subseteq> set rs"
proof -
  have e: "erase_range isRedundant rg rs = take (fst rg) rs @ filter (\<lambda>r. \<not> isRedundant r) (slice rg rs) @ drop (snd rg) rs"
    by (simp add: erase_range_def slice_def)
  have "refs (take (fst rg) rs @ slice rg rs @ drop (snd rg) rs) = refs rs"
    using slice_split [OF assms, of rs] by simp
  then show "refs (erase_range isRedundant rg rs) = refs rs"
    unfolding e using refs_filter [of "slice rg rs" isRedundant] redundant_not_holding by simp
  show "set (erase_range isRedundant rg rs) \<subseteq> set rs"
    unfolding e by (auto simp: slice_def dest: in_set_takeD in_set_dropD)
qed

lemma erase_upto_keeps: "refs (erase_upto n rs) = refs rs \<and> set (erase_upto n rs) \<subseteq> set rs"
  by (induction rs) (auto dest: redundant_not_holding)

lemma accepted_custody:
  assumes "custody e (mset (refs kept) + mset (refs rs) + H) qs" "cursors_ok (kept @ rs)"
  shows "\<exists>rs' qs'. remove_in_set (DeliveryRecord_accept e False) i kept seen rs qs = (Inr (), rs', qs') \<and>
    custody e (mset (refs rs') + H) qs' \<and> cursors_ok rs'"
  using assms
proof (induction rs arbitrary: i kept seen qs)
  case (Cons r rs)
  obtain b i' where i: "IsInSequenceSet (dr_id r) i = (b, i')"
    by fastforce
  show ?case
  proof (cases b)
    case True
    have "custody e (mset (refs [r]) + (mset (refs kept) + mset (refs rs) + H)) qs"
      using Cons.prems(1) by (simp add: ac_simps)
    then obtain b' r' qs' where r': "DeliveryRecord_accept e False r qs = Inr (b', r', qs')" "\<not> holding r'"
      "custody e (mset (refs kept) + mset (refs rs) + H) qs'"
      using accept_custody [of e r] Cons.prems(2) by (metis cursors_ok_simps)
    then show ?thesis
      using i True Cons.IH [of kept qs' i' "seen @ [r']"] Cons.IH [of "kept @ [r']" qs' i' "seen @ [r']"] Cons.prems(2)
      by (cases b') auto
  next
    case False
    then show ?thesis
      using i Cons.IH [of "kept @ [r]" qs i' "seen @ [r]"] Cons.prems by (auto simp: ac_simps)
  qed
qed auto

text \<open>Completion changes nothing that a record refers to.\<close>

lemma complete_keeps:
  "\<exists>b r' cs'. session_complete r cs = Inr (b, r', cs') \<and> refs [r'] = refs [r] \<and> cursors_ok [r'] = cursors_ok [r] \<and> (b \<longrightarrow> \<not> holding r')"
  by (cases "map_of cs (dr_tag r)")
    (auto simp: session_complete_def DeliveryRecord_complete_def Let_def holding_def isRedundant_def)

lemma completed_custody:
  assumes "cursors_ok (kept @ rs)"
  shows "\<exists>rs' cs'. remove_in_set session_complete i kept seen rs cs = (Inr (), rs', cs') \<and> refs rs' = refs kept @ refs rs \<and> cursors_ok rs'"
  using assms
proof (induction rs arbitrary: i kept seen cs)
  case (Cons r rs)
  obtain b i' where i: "IsInSequenceSet (dr_id r) i = (b, i')"
    by fastforce
  obtain b' r' cs' where r': "session_complete r cs = Inr (b', r', cs')" "refs [r'] = refs [r]" "cursors_ok [r'] = cursors_ok [r]"
    "b' \<longrightarrow> \<not> holding r'"
    using complete_keeps by blast
  have ok: "cursors_ok kept" "cursors_ok rs" "cursors_ok [r]" "cursors_ok [r']"
    using Cons.prems r'(3) by simp_all
  have h: "holding r' = holding r"
    using r'(2) by (auto split: if_splits)
  show ?case
  proof (cases b)
    case True
    then show ?thesis
      using i r' h ok Cons.IH [of kept i' "seen @ [r']" cs'] Cons.IH [of "kept @ [r']" i' "seen @ [r']" cs']
      by (cases b') auto
  next
    case False
    then show ?thesis
      using i ok Cons.IH [of "kept @ [r]" i' "seen @ [r]" cs] by simp
  qed
qed auto

lemma release_each_custody:
  assumes "custody e (mset (refs rs) + H) qs" "cursors_ok rs" "release_each e b rs qs = (rs', qs')"
  shows "custody e H qs' \<and> refs rs' = [] \<and> cursors_ok rs'"
  using assms
proof (induction rs arbitrary: H rs' qs')
  case (Cons r rs)
  obtain rs1 qs1 where 1: "release_each e b rs qs = (rs1, qs1)"
    by fastforce
  obtain r' qs2 where 2: "DeliveryRecord_release e b r qs1 = (r', qs2)"
    by fastforce
  have "custody e (mset (refs [r]) + H) qs1 \<and> refs rs1 = [] \<and> cursors_ok rs1"
    using Cons.IH [OF _ _ 1, of "mset (refs [r]) + H"] Cons.prems(1,2) by (simp add: ac_simps)
  then show ?case
    using release_custody [OF _ _ 2, of H] Cons.prems(2,3) 1 2 by auto
qed simp

lemma reject_each_custody:
  assumes "custody e (mset (refs rs) + H) qs" "cursors_ok rs"
  shows "\<exists>rs' qs'. reject_each e rs qs = (Inr (), rs', qs') \<and> custody e H qs' \<and> refs rs' = [] \<and> cursors_ok rs'"
  using assms
proof (induction rs arbitrary: qs)
  case (Cons r rs)
  have "custody e (mset (refs [r]) + (mset (refs rs) + H)) qs"
    using Cons.prems(1) by (simp add: ac_simps)
  then obtain r' qs' where "DeliveryRecord_reject e r qs = Inr (r', qs')" "\<not> holding r'" "custody e (mset (refs rs) + H) qs'"
    using reject_custody [of e r] Cons.prems(2) by (metis cursors_ok_simps)
  then show ?case
    using Cons.IH [of qs'] Cons.prems(2) by auto
qed simp

text \<open>The messages that an acquire of a range of deliveries takes and that no record holds.\<close>

fun strands :: "'p MessageContent \<Rightarrow> DeliveryRecord list \<Rightarrow> 'p queues \<Rightarrow> (string \<times> SequenceNumber) list" where
  "strands e [] qs = []"
| "strands e (r # rs) qs = strand e r qs @
    (case DeliveryRecord_acquire e r [] qs of Inl err \<Rightarrow> [] | Inr (r', ids, qs') \<Rightarrow> strands e rs qs')"

lemma acquire_any_ids:
  "DeliveryRecord_acquire e r ids qs = Inr (r', ids', qs') \<Longrightarrow> \<exists>ids''. DeliveryRecord_acquire e r [] qs = Inr (r', ids'', qs')"
  by (auto simp: DeliveryRecord_acquire_def Let_def res_bind_eq_Inr split: prod.splits bool.splits if_splits)

lemma acquire_each_custody:
  assumes "custody e (mset (refs rs) + H) qs" "cursors_ok rs"
  shows "\<exists>rs' ids' qs'. acquire_each e rs ids qs = (Inr (), rs', ids', qs') \<and>
    custody e (mset (refs rs') + (mset (strands e rs qs) + H)) qs' \<and> cursors_ok rs'"
  using assms
proof (induction rs arbitrary: ids qs H)
  case (Cons r rs)
  have "custody e (mset (refs [r]) + (mset (refs rs) + H)) qs" "cursors_ok [r]"
    using Cons.prems by (simp_all add: ac_simps)
  then obtain r' ids1 qs1 where r': "DeliveryRecord_acquire e r ids qs = Inr (r', ids1, qs1)"
    "custody e (mset (refs [r']) + (mset (strand e r qs) + (mset (refs rs) + H))) qs1" "cursors_ok [r']"
    using acquire_custody [of e r "mset (refs rs) + H" qs ids] by blast
  have st: "strands e (r # rs) qs = strand e r qs @ strands e rs qs1"
    using acquire_any_ids [OF r'(1)] by auto
  have "custody e (mset (refs rs) + (mset (refs [r']) + (mset (strand e r qs) + H))) qs1"
    using r'(2) by (simp only: ac_simps)
  then obtain rs2 ids2 qs2 where rs2: "acquire_each e rs ids1 qs1 = (Inr (), rs2, ids2, qs2)"
    "custody e (mset (refs rs2) + (mset (strands e rs qs1) + (mset (refs [r']) + (mset (strand e r qs) + H)))) qs2" "cursors_ok rs2"
    using Cons.IH [of "mset (refs [r']) + (mset (strand e r qs) + H)" qs1 ids1] Cons.prems(2) by auto
  have "custody e (mset (refs [r'] @ refs rs2) + (mset (strand e r qs @ strands e rs qs1) + H)) qs2"
    using rs2(2) by (simp only: mset_append ac_simps)
  then have "custody e (mset (refs (r' # rs2)) + (mset (strands e (r # rs) qs) + H)) qs2"
    unfolding st using refs_simps(3) [of "[r']" rs2] by simp
  then show ?case
    using r'(1,3) rs2(1,3) by (simp del: refs_simps strands.simps)
qed simp

section \<open>The session\<close>

text \<open>Consumers and browsers as the session makes them.\<close>

definition consumer_ok :: "string \<Rightarrow> ConsumerImpl \<Rightarrow> bool" where
  "consumer_ok tag c \<longleftrightarrow> ci_tag c = tag \<and> consumer_acquires (ci_base c) = ci_acquire c \<and>
     cursor_type (consumer_cursor (ci_base c)) = (if ci_acquire c then CONSUMER else BROWSER)"

text \<open>\<open>S\<close> are the messages that were taken by an acquire of settled deliveries.\<close>

definition session_inv :: "'p MessageContent \<Rightarrow> (string \<times> SequenceNumber) multiset \<Rightarrow> 'p SemanticState \<Rightarrow> bool" where
  "session_inv e S s \<longleftrightarrow> custody e (mset (refs (ss_unacked s)) + S) (ss_queues s) \<and> cursors_ok (ss_unacked s) \<and>
     ss_txBuffer s = None \<and> ss_dtxBuffer s = None \<and> (\<forall>(tag, c)\<in>set (ss_consumers s). consumer_ok tag c)"

lemma session_update [simp]:
  "ss_unacked (set_unacked rs s) = rs" "ss_queues (set_unacked rs s) = ss_queues s"
  "ss_unacked (set_queues qs s) = ss_unacked s" "ss_queues (set_queues qs s) = qs"
  "ss_txBuffer (set_unacked rs s) = ss_txBuffer s" "ss_dtxBuffer (set_unacked rs s) = ss_dtxBuffer s"
  "ss_txBuffer (set_queues qs s) = ss_txBuffer s" "ss_dtxBuffer (set_queues qs s) = ss_dtxBuffer s"
  "ss_consumers (set_unacked rs s) = ss_consumers s" "ss_consumers (set_queues qs s) = ss_consumers s"
  "ss_unacked (emit es s) = ss_unacked s" "ss_queues (emit es s) = ss_queues s"
  "ss_txBuffer (emit es s) = ss_txBuffer s" "ss_dtxBuffer (emit es s) = ss_dtxBuffer s" "ss_consumers (emit es s) = ss_consumers s"
  "ss_unacked (put_consumer c s) = ss_unacked s" "ss_queues (put_consumer c s) = ss_queues s"
  "ss_txBuffer (put_consumer c s) = ss_txBuffer s" "ss_dtxBuffer (put_consumer c s) = ss_dtxBuffer s"
  "ss_unacked (s \<lparr> ss_consumers := cs \<rparr>) = ss_unacked s" "ss_queues (s \<lparr> ss_consumers := cs \<rparr>) = ss_queues s"
  "ss_unacked (s \<lparr> ss_command := n \<rparr>) = ss_unacked s" "ss_queues (s \<lparr> ss_command := n \<rparr>) = ss_queues s"
  "ss_unacked (session_record r s) = ss_unacked s @ [r]" "ss_queues (session_record r s) = ss_queues s"
  "ss_txBuffer (session_record r s) = ss_txBuffer s" "ss_dtxBuffer (session_record r s) = ss_dtxBuffer s"
  "ss_consumers (session_record r s) = ss_consumers s"
  by (simp_all add: ss_unacked_def ss_queues_def set_unacked_def set_queues_def set_world_def set_heap_def ss_world_def emit_def
      put_consumer_def session_record_def)

lemma ss_consumers_put [simp]: "ss_consumers (put_consumer c s) = map_put (ci_tag c) c (ss_consumers s)"
  by (simp add: put_consumer_def)

lemma set_map_put: "set (map_put k v cs) \<subseteq> insert (k, v) (set cs)"
  by (induction k v cs rule: map_put.induct) auto

lemma session_inv_put [simp]: "session_inv e S s \<Longrightarrow> consumer_ok (ci_tag c) c \<Longrightarrow> session_inv e S (put_consumer c s)"
  using set_map_put by (fastforce simp: session_inv_def)

lemma session_inv_emit [simp]: "session_inv e S (emit es s) = session_inv e S s"
  by (simp add: session_inv_def)

lemma session_inv_found:
  "session_inv e S s \<Longrightarrow> session_find tag s = Inr c \<Longrightarrow> consumer_ok (ci_tag c) c \<and> ci_tag c = tag"
  by (auto simp: session_find_def session_inv_def consumer_ok_def split: option.splits dest!: map_of_SomeD)

lemma consumer_ok_update [simp]:
  "consumer_ok tag (c \<lparr> ci_credit := k \<rparr>) = consumer_ok tag c" "consumer_ok tag (c \<lparr> ci_blocked := b \<rparr>) = consumer_ok tag c"
  "consumer_ok tag (c \<lparr> ci_notifyEnabled := b \<rparr>) = consumer_ok tag c" "consumer_ok tag (c \<lparr> ci_deliveryCount := n \<rparr>) = consumer_ok tag c"
  by (simp_all add: consumer_ok_def)

lemma requestDispatch_inv [simp]: "session_inv e S s \<Longrightarrow> consumer_ok (ci_tag c) c \<Longrightarrow> session_inv e S (requestDispatch c s)"
  by (simp add: requestDispatch_def)

lemma credit_inv:
  assumes "session_inv e S s"
  shows "session_setMode b tag s = Inr s' \<Longrightarrow> session_inv e S s'" "session_addByteCredit tag n s = Inr s' \<Longrightarrow> session_inv e S s'"
    "session_addMessageCredit tag n s = Inr s' \<Longrightarrow> session_inv e S s'" "session_stop tag s = Inr s' \<Longrightarrow> session_inv e S s'"
  using assms
  by (auto simp: session_setMode_def session_addByteCredit_def session_addMessageCredit_def session_stop_def res_bind_eq_Inr Let_def
      dest!: session_inv_found [OF assms])

lemma session_inv_custody: "session_inv e S s \<Longrightarrow> custody e (mset (refs (ss_unacked s)) + S) (ss_queues s)"
  by (simp add: session_inv_def)

lemma session_inv_queues: "session_inv e S s \<Longrightarrow> custody e (mset (refs (ss_unacked s)) + S) qs \<Longrightarrow> session_inv e S (set_queues qs s)"
  by (simp add: session_inv_def)

lemma cancel_steady:
  assumes "steady e q" "Queue_cancel e c q = Inr q'"
  shows "steady e q' \<and> contents e q' = contents e q"
proof -
  have rl: "steady e (Queue_removeListener e c q)" "contents e (Queue_removeListener e c q) = contents e q"
    "q_settings (Queue_removeListener e c q) = q_settings q"
    using assms(1) by (simp_all add: Queue_removeListener_def Let_def split_beta)
  then show ?thesis
    using assms by (auto simp: Queue_cancel_def res_bind_eq_Inr Let_def steady_def contents_def split: if_splits)
qed

lemma consume_steady:
  assumes "steady e q" "Queue_consume c b q = Inr q'"
  shows "steady e q' \<and> contents e q' = contents e q"
  using assms by (auto simp: Queue_consume_def res_bind_eq_Inr throw_if_eq_Inr Let_def contents_def split: if_splits)

lemma custody_same:
  assumes c: "custody e H qs" and q': "steady e q'" "contents e q' = contents e (qs qn)"
  shows "custody e H (qs(qn := q'))"
  using custody_count [OF c] q'(2) by (intro custody_change [OF c q'(1)]) auto

lemma custody_append:
  assumes c: "custody e H qs" and q': "steady e q'" "contents e q' = contents e (qs qn) @ [m]" and "msg_state m \<noteq> ACQUIRED"
  shows "custody e H (qs(qn := q'))"
  using custody_count [OF c] assms(3,4) by (intro custody_change [OF c q'(1)]) auto

lemma consume_inv:
  assumes "session_inv e S s" "session_consume tag queue ack acq excl n s = (res, s')"
  shows "session_inv e S s'"
proof (cases res)
  case (Inr u)
  let ?c = "ConsumerImpl_init (ss_session s) (ss_session s @ ''::'' @ tag) queue ack (if acq then CONSUMER else BROWSER) excl tag n"
  obtain q where q: "Queue_consume (ci_base ?c) excl (ss_queues s queue) = Inr q"
    "s' = put_consumer ?c (set_queues ((ss_queues s)(queue := q)) s)"
    using assms(2) Inr by (auto simp: session_consume_def Let_def split: sum.splits)
  note cu = session_inv_custody [OF assms(1)]
  have "custody e (mset (refs (ss_unacked s)) + S) ((ss_queues s)(queue := q))"
    using custody_same [OF cu] consume_steady [OF custody_steady [OF cu] q(1)] by blast
  moreover have "consumer_ok (ci_tag ?c) ?c"
    by (simp add: consumer_ok_def ConsumerImpl_init_def QueueCursor_init_def)
  ultimately show ?thesis
    using assms(1) q(2) by (simp add: session_inv_queues)
qed (use assms in \<open>auto simp: session_consume_def Let_def split: sum.splits\<close>)

lemma disable_inv [simp]: "session_inv e S s \<Longrightarrow> consumer_ok (ci_tag c) c \<Longrightarrow> session_inv e S (session_disable c s)"
  by (simp add: session_disable_def Let_def)

lemma cancel_consumer_inv:
  assumes "session_inv e S s" "consumer_ok (ci_tag c) c" "cancel_consumer e c s = (res, s')"
  shows "session_inv e S s'"
proof (cases res)
  case (Inr u)
  let ?s = "session_disable c s"
  obtain q where q: "Queue_cancel e (ci_base c) (ss_queues ?s (ci_queue c)) = Inr q"
    "s' = set_queues ((ss_queues ?s)(ci_queue c := q)) ?s"
    using assms(3) Inr by (auto simp: cancel_consumer_def Let_def split: sum.splits)
  note cu = session_inv_custody [OF disable_inv [OF assms(1,2)]]
  have "custody e (mset (refs (ss_unacked ?s)) + S) ((ss_queues ?s)(ci_queue c := q))"
    using custody_same [OF cu] cancel_steady [OF custody_steady [OF cu] q(1)] by blast
  then show ?thesis
    using disable_inv [OF assms(1,2)] q(2) by (simp add: session_inv_queues)
qed (use assms in \<open>auto simp: cancel_consumer_def Let_def split: sum.splits\<close>)

lemma refs_cancelled: "refs (map (DeliveryRecord_cancel tag) rs) = refs rs" "cursors_ok (map (DeliveryRecord_cancel tag) rs) = cursors_ok rs"
  by (induction rs) (simp_all add: DeliveryRecord_cancel_def holding_def)

lemma session_cancel_inv:
  assumes "session_inv e S s" "session_cancel e tag s = (res, s')"
  shows "session_inv e S s'"
proof (cases "map_of (ss_consumers s) tag")
  case (Some c)
  have c: "consumer_ok (ci_tag c) c"
    using assms(1) map_of_SomeD [OF Some] by (auto simp: session_inv_def consumer_ok_def)
  obtain r1 s1 where s1: "cancel_consumer e c s = (r1, s1)"
    by fastforce
  have inv: "session_inv e S s1"
    using cancel_consumer_inv [OF assms(1) c s1] .
  let ?rs = "map (DeliveryRecord_cancel tag) (ss_unacked s1)"
  have "refs (filter (\<lambda>r. \<not> isRedundant r) ?rs) = refs (ss_unacked s1)"
    using refs_filter [of ?rs isRedundant] redundant_not_holding refs_cancelled(1) by metis
  moreover have "cursors_ok (filter (\<lambda>r. \<not> isRedundant r) ?rs)"
    using inv refs_cancelled(2) cursors_ok_subset [of ?rs] by (auto simp: session_inv_def)
  moreover have "set (map_erase tag (ss_consumers s1)) \<subseteq> set (ss_consumers s1)"
    by (auto simp: map_erase_def)
  ultimately show ?thesis
    using assms(2) Some s1 inv by (cases r1) (auto simp: session_cancel_def Let_def session_inv_def)
qed (use assms in \<open>simp add: session_cancel_def\<close>)

text \<open>Deliveries. The subscription stays what it is, and the queue loses an available message if it is acquired.\<close>

definition available_count :: "'p MessageContent \<Rightarrow> 'p Queue \<Rightarrow> nat" where
  "available_count e q = length (filter (\<lambda>m. msg_state m = AVAILABLE) (contents e q))"

definition subscribed :: "ConsumerImpl \<Rightarrow> 'p SemanticState \<Rightarrow> bool" where
  "subscribed c s \<longleftrightarrow> (\<exists>c'. session_find (ci_tag c) s = Inr c' \<and> ci_tag c' = ci_tag c \<and> ci_acquire c' = ci_acquire c \<and> ci_queue c' = ci_queue c)"

lemma subscribed_put:
  "ss_consumers s = map_put (ci_tag c') c' cs \<Longrightarrow> ci_tag c' = ci_tag c \<Longrightarrow> ci_acquire c' = ci_acquire c \<Longrightarrow> ci_queue c' = ci_queue c \<Longrightarrow>
   subscribed c s"
  by (auto simp: subscribed_def session_find_def map_of_put)

lemma subscribed_put_consumer [simp]:
  "ci_tag c' = ci_tag c \<Longrightarrow> ci_acquire c' = ci_acquire c \<Longrightarrow> ci_queue c' = ci_queue c \<Longrightarrow> subscribed c (put_consumer c' s)"
  by (rule subscribed_put [of _ c']) simp_all

lemma available_count_remove1: "contents e q' = remove1 m (contents e q) \<Longrightarrow> available_count e q' \<le> available_count e q"
  by (simp add: available_count_def filter_remove1 length_remove1)

lemma filter_minus_all: "length (filter P (minus_all ys xs)) \<le> length (filter P ys)"
proof -
  have le: "length (filter P (remove1 x ys)) \<le> length (filter P ys)" for x ys
    by (simp add: filter_remove1 length_remove1)
  show ?thesis
    unfolding minus_all_def by (induction xs arbitrary: ys) (auto intro: order_trans [OF _ le])
qed

lemma available_count_taken:
  assumes q': "contents e q' = map (\<lambda>x. if x = m then m' else x) (minus_all (contents e q) xs)"
    and m: "m \<in> set (contents e q)" "m \<notin> set xs" "msg_state m = AVAILABLE" "msg_state m' = ACQUIRED" and "distinct (contents e q)"
  shows "available_count e q' < available_count e q"
proof -
  let ?P = "\<lambda>m. msg_state m = AVAILABLE" and ?f = "\<lambda>x. if x = m then m' else x"
  have le: "length (filter ?P (map ?f ys)) \<le> length (filter ?P ys)" for ys
    using m(3,4) by (induction ys) auto
  have less: "m \<in> set ys \<Longrightarrow> length (filter ?P (map ?f ys)) < length (filter ?P ys)" for ys
    using m(3,4) le by (induction ys) (auto simp: less_Suc_eq_le)
  have "available_count e q' < length (filter ?P (minus_all (contents e q) xs))"
    unfolding available_count_def q' by (rule less) (use m(1,2) set_minus_all [OF assms(6)] in blast)
  also have "\<dots> \<le> available_count e q"
    unfolding available_count_def by (rule filter_minus_all)
  finally show ?thesis .
qed

lemma deliver_inv:
  assumes cu: "custody e (mset (refs (ss_unacked s)) + S + (if ci_acquire c then {#(ci_queue c, position cur)#} else {#})) (ss_queues s)"
    and rest: "cursors_ok (ss_unacked s)" "ss_txBuffer s = None" "ss_dtxBuffer s = None" "\<forall>(tag, c)\<in>set (ss_consumers s). consumer_ok tag c"
    and c: "consumer_ok (ci_tag c) c" "valid cur" and run: "session_deliver e required cur m c s = (res, s')"
  shows "session_inv e S s' \<and> res = Inr () \<and> subscribed c s' \<and> available_count e (ss_queues s' (ci_queue c)) \<le> available_count e (ss_queues s (ci_queue c))"
proof -
  obtain sync c1 where k: "count_delivery (allocateCredit required m c) = (sync, c1)"
    by fastforce
  have c1: "ci_acquire c1 = ci_acquire c" "ci_ackExpected c1 = ci_ackExpected c" "ci_queue c1 = ci_queue c" "ci_tag c1 = ci_tag c" "consumer_ok (ci_tag c1) c1"
    using c(1) k by (auto simp: count_delivery_def allocateCredit_def Let_def split: if_splits)
  define r where "r = delivery_of required (ss_command s) cur m c1"
  have r: "holding r \<longleftrightarrow> ci_acquire c \<and> ci_ackExpected c" "dr_queue r = ci_queue c" "dr_msg r = cur"
    using c1 by (auto simp: r_def delivery_of_def DeliveryRecord_init_def holding_def)
  define s1 where "s1 = emit [Transfer (ss_command s) (ci_tag c1) m sync] (put_consumer c1 s) \<lparr> ss_command := ss_command s + 1 \<rparr>"
  define w where "w \<longleftrightarrow> Credit_isWindowMode (ci_credit c1) \<or> ci_ackExpected c \<or> \<not> ci_acquire c"
  define s2 where "s2 = (if w then session_record r s1 else s1)"
  have s1: "ss_unacked s1 = ss_unacked s" "ss_queues s1 = ss_queues s" "ss_txBuffer s1 = None" "ss_dtxBuffer s1 = None"
    "\<forall>(tag, c)\<in>set (ss_consumers s1). consumer_ok tag c"
    using rest c1(5) set_map_put [of "ci_tag c1" c1 "ss_consumers s"] by (auto simp: s1_def)
  have s2: "refs (ss_unacked s2) = refs (ss_unacked s) @ (if ci_acquire c \<and> ci_ackExpected c then [(ci_queue c, position cur)] else [])"
    "cursors_ok (ss_unacked s2)" "ss_queues s2 = ss_queues s" "ss_txBuffer s2 = None" "ss_dtxBuffer s2 = None"
    "\<forall>(tag, c)\<in>set (ss_consumers s2). consumer_ok tag c" "ss_consumers s2 = map_put (ci_tag c1) c1 (ss_consumers s)"
    using s1 r c(2) rest(1) by (auto simp: s2_def w_def s1_def)
  have sub: "subscribed c s''" if "ss_consumers s'' = ss_consumers s2" for s'' :: "'a SemanticState"
    using that s2(7) c1 by (intro subscribed_put [of _ c1]) simp_all
  have run': "session_deliver e required cur m c s =
      (if ci_acquire c \<and> \<not> ci_ackExpected c then
         (case Queue_dequeue e False cur (ss_queues s2 (ci_queue c)) of
            Inl err \<Rightarrow> (Inl err, s2)
          | Inr q \<Rightarrow> (Inr (), set_queues ((ss_queues s2)(ci_queue c := q)) s2))
       else (Inr (), s2))"
    unfolding session_deliver_def Let_def k prod.case c1(1-3) s2_def s1_def w_def r_def by (rule refl)
  show ?thesis
  proof (cases "ci_acquire c \<and> \<not> ci_ackExpected c")
    case True
    then have cu': "custody e (add_mset (ci_queue c, position cur) (mset (refs (ss_unacked s2)) + S)) (ss_queues s)"
      using cu s2(1) by simp
    obtain m0 where m0: "m0 \<in> set (contents e (ss_queues s (ci_queue c)))" "msg_sequence m0 = position cur"
      using custody_held [OF cu'] by metis
    obtain q' where q': "Queue_dequeue e False cur (ss_queues s (ci_queue c)) = Inr q'" "steady e q'"
      "contents e q' = remove1 m0 (contents e (ss_queues s (ci_queue c)))"
      using dequeue_steady [OF custody_steady [OF cu'] c(2) _ m0(1)] m0(2) by metis
    show ?thesis
      using run run' True q'(1) s2(2-6) custody_remove [OF cu' m0 q'(2,3)] available_count_remove1 [OF q'(3)] sub by (auto simp: session_inv_def)
  next
    case False
    then have "mset (refs (ss_unacked s2)) = mset (refs (ss_unacked s)) + (if ci_acquire c then {#(ci_queue c, position cur)#} else {#})"
      using s2(1) by auto
    then show ?thesis
      using run run' False s2(2-6) cu sub by (auto simp: session_inv_def)
  qed
qed

lemma dispatch_inv:
  assumes inv: "session_inv e S s" and c: "consumer_ok (ci_tag c) c" and run: "session_dispatch e now flt required c s = (res, s')"
  shows "session_inv e S s' \<and> subscribed c s' \<and>
    (\<exists>b. res = Inr b \<and> (b \<and> ci_acquire c \<longrightarrow> available_count e (ss_queues s' (ci_queue c)) < available_count e (ss_queues s (ci_queue c))))"
proof -
  note cu = session_inv_custody [OF inv]
  have ty: "cursor_type (consumer_cursor (ci_base c)) = (if consumer_acquires (ci_base c) then CONSUMER else BROWSER)"
    "consumer_acquires (ci_base c) = ci_acquire c"
    using c by (simp_all add: consumer_ok_def)
  obtain out base q where x: "getNextMessage e now flt (checkCredit required c) (ci_base c) (ss_queues s (ci_queue c)) = Inr (out, base, q)"
    using getNextMessage_steady [OF custody_steady [OF cu] ty(1)] by blast
  note d = dispatch_steady [OF custody_steady [OF cu] ty(1) x]
  let ?s = "set_queues ((ss_queues s)(ci_queue c := q)) s" and ?c = "c \<lparr> ci_base := base, ci_blocked := False \<rparr>"
  have ok: "consumer_ok (ci_tag c) (c \<lparr> ci_base := base, ci_blocked := b \<rparr>)" "consumer_ok (ci_tag c) (c \<lparr> ci_base := base \<rparr>)" for b
    using c d(2,3) by (simp_all add: consumer_ok_def)
  obtain xs where xs: "\<forall>x\<in>set xs. x \<in> set (contents e (ss_queues s (ci_queue c))) \<and> msg_state x = AVAILABLE"
    and o: "case out of
       Found m' \<Rightarrow> \<exists>m\<in>set (contents e (ss_queues s (ci_queue c))). m \<notin> set xs \<and> msg_state m = AVAILABLE \<and> m' = taken (ci_acquire c) m \<and>
         contents e q = map (\<lambda>x. if x = m then m' else x) (minus_all (contents e (ss_queues s (ci_queue c))) xs) \<and>
         valid (consumer_cursor base) \<and> position (consumer_cursor base) = msg_sequence m
     | _ \<Rightarrow> contents e q = minus_all (contents e (ss_queues s (ci_queue c))) xs"
    using d(4) unfolding ty(2) by blast
  show ?thesis
  proof (cases out)
    case (Found m')
    then obtain m where m: "m \<in> set (contents e (ss_queues s (ci_queue c)))" "m \<notin> set xs" "msg_state m = AVAILABLE" "m' = taken (ci_acquire c) m"
      "contents e q = map (\<lambda>x. if x = m then m' else x) (minus_all (contents e (ss_queues s (ci_queue c))) xs)"
      "valid (consumer_cursor base)" "position (consumer_cursor base) = msg_sequence m"
      using o by auto
    have "custody e (mset (refs (ss_unacked s)) + S + (if ci_acquire c then {#(ci_queue c, position (consumer_cursor base))#} else {#}))
        ((ss_queues s)(ci_queue c := q))"
    proof (cases "ci_acquire c")
      case True
      then show ?thesis
        using custody_add [OF cu m(1,3) d(1) m(5) _ _ xs m(2)] m(4,7) by (simp add: taken_def)
    next
      case False
      then have "contents e q = minus_all (contents e (ss_queues s (ci_queue c))) xs"
        using m(4,5) by (simp add: taken_False map_idI)
      then show ?thesis
        using custody_less [OF cu xs d(1)] False by simp
    qed
    then have cu': "custody e (mset (refs (ss_unacked ?s)) + S + (if ci_acquire ?c then {#(ci_queue ?c, position (consumer_cursor base))#} else {#}))
        (ss_queues ?s)"
      by (cases "ci_acquire c") simp_all
    obtain r1 s1 where dl: "session_deliver e required (consumer_cursor base) m' ?c ?s = (r1, s1)"
      by fastforce
    note dl' = deliver_inv [OF cu' _ _ _ _ _ m(6) dl]
    have dl': "session_inv e S s1" "r1 = Inr ()" "subscribed ?c s1" "available_count e (ss_queues s1 (ci_queue c)) \<le> available_count e q"
      using dl' ok(1) inv by (simp_all add: session_inv_def)
    have less: "ci_acquire c \<Longrightarrow> available_count e q < available_count e (ss_queues s (ci_queue c))"
      using available_count_taken [OF m(5,1,2,3)] m(4) steady_distinct [OF custody_steady [OF cu]] by (simp add: taken_def distinct_map)
    have run': "s' = s1" "res = Inr True"
      using run dl dl'(2) by (simp_all add: session_dispatch_def x Found Let_def)
    have "subscribed c s1"
      using dl'(3) by (simp add: subscribed_def)
    then show ?thesis
      unfolding run' using dl'(1) order.strict_trans1 [OF dl'(4) less] by blast
  next
    case Refused
    then show ?thesis
      using o run x ok custody_less [OF cu xs d(1)] inv
      by (auto simp: session_dispatch_def Let_def intro!: session_inv_put session_inv_queues)
  next
    case Exhausted
    then show ?thesis
      using o run x ok custody_less [OF cu xs d(1)] inv
      by (auto simp: session_dispatch_def Let_def intro!: session_inv_put session_inv_queues)
  qed
qed

lemma subscribed_found: "session_inv e S s \<Longrightarrow> session_find tag s = Inr c \<Longrightarrow> ci_tag c = tag \<and> subscribed c s"
  using session_inv_found by (fastforce simp: subscribed_def)

lemma doOutput_inv:
  assumes inv: "session_inv e S s" and run: "session_doOutput e now flt required tag s = (res, s')"
  shows "session_inv e S s'" "session_find tag s = Inr c \<Longrightarrow> subscribed c s' \<and>
    (\<exists>b. res = Inr b \<and> (b \<and> ci_acquire c \<longrightarrow> available_count e (ss_queues s' (ci_queue c)) < available_count e (ss_queues s (ci_queue c))))"
proof -
  have found: "session_inv e S s' \<and> subscribed c s' \<and>
      (\<exists>b. res = Inr b \<and> (b \<and> ci_acquire c \<longrightarrow> available_count e (ss_queues s' (ci_queue c)) < available_count e (ss_queues s (ci_queue c))))"
    if c: "session_find tag s = Inr c" for c
  proof (cases "Credit_bool (ci_credit c)")
    case True
    then show ?thesis
      using run c dispatch_inv [OF inv _, of c now flt required res s'] session_inv_found [OF inv c] by (auto simp: session_doOutput_def)
  next
    case False
    then show ?thesis
      using run c inv session_inv_found [OF inv c] by (auto simp: session_doOutput_def)
  qed
  then show "session_inv e S s'"
    using run inv by (cases "session_find tag s") (auto simp: session_doOutput_def)
  show "session_find tag s = Inr c \<Longrightarrow> subscribed c s' \<and>
    (\<exists>b. res = Inr b \<and> (b \<and> ci_acquire c \<longrightarrow> available_count e (ss_queues s' (ci_queue c)) < available_count e (ss_queues s (ci_queue c))))"
    using found by blast
qed

text \<open>Acknowledgements.\<close>

lemma session_inv_records:
  assumes "session_inv e S s" "custody e (mset (refs rs) + S') qs" "cursors_ok rs"
  shows "session_inv e S' (set_unacked rs (set_queues qs s))"
  using assms by (simp add: session_inv_def)

lemma accepted_inv:
  assumes inv: "session_inv e S s" and run: "session_accepted e M commands s = (res, s')"
  shows "session_inv e S s'" "res = Inr ()"
proof -
  obtain rs qs where r: "remove_in_set (DeliveryRecord_accept e False) commands [] [] (ss_unacked s) (ss_queues s) = (Inr (), rs, qs)"
    "custody e (mset (refs rs) + S) qs" "cursors_ok rs"
    using accepted_custody [of e "[]" "ss_unacked s" S "ss_queues s" commands "[]"] inv by (auto simp: session_inv_def)
  then show "session_inv e S s'" "res = Inr ()"
    using run inv by (auto simp: session_accepted_def session_inv_def)
qed

lemma complete_consumers:
  assumes "session_complete r cs = Inr (b, r', cs')" "\<forall>(tag, c)\<in>set cs. consumer_ok tag c"
  shows "\<forall>(tag, c)\<in>set cs'. consumer_ok tag c"
proof (cases "map_of cs (dr_tag r)")
  case (Some c)
  then have "consumer_ok (dr_tag r) c"
    using assms(2) by (auto dest!: map_of_SomeD)
  then show ?thesis
    using assms Some set_map_put [of "dr_tag r" _ cs]
    by (fastforce simp: session_complete_def DeliveryRecord_complete_def Let_def split: if_splits)
qed (use assms in \<open>auto simp: session_complete_def\<close>)

lemma completed_consumers:
  assumes "remove_in_set session_complete i kept seen rs cs = (res, rs', cs')" "\<forall>(tag, c)\<in>set cs. consumer_ok tag c"
  shows "\<forall>(tag, c)\<in>set cs'. consumer_ok tag c"
  using assms
proof (induction rs arbitrary: i kept seen cs)
  case (Cons r rs)
  obtain b i' where i: "IsInSequenceSet (dr_id r) i = (b, i')"
    by fastforce
  obtain b' r' cs1 where r': "session_complete r cs = Inr (b', r', cs1)"
    using complete_keeps by metis
  note ok = complete_consumers [OF r' Cons.prems(2)]
  show ?case
    using Cons.prems i r' ok Cons.IH by (cases b; cases b') auto
qed simp

text \<open>An operation on each consumer of the map in turn.\<close>

lemma fold_consumers_inv:
  assumes "session_inv e S s" "\<forall>(tag, c)\<in>set cs. consumer_ok tag c"
    and f: "\<And>tag c s. session_inv e S s \<Longrightarrow> consumer_ok tag c \<Longrightarrow> session_inv e S (f tag c s)"
  shows "session_inv e S (fold (\<lambda>(tag, c). f tag c) cs s)"
  using assms(1,2)
proof (induction cs arbitrary: s)
  case (Cons x cs)
  then show ?case
    by (cases x) (simp add: f)
qed simp

lemma consumer_ok_tag: "consumer_ok tag c \<Longrightarrow> consumer_ok (ci_tag c) c"
  by (simp add: consumer_ok_def)

lemma completed_inv:
  assumes inv: "session_inv e S s"
  shows "session_inv e S (session_completed commands s)"
proof -
  obtain rs cs where r: "remove_in_set session_complete commands [] [] (ss_unacked s) (ss_consumers s) = (Inr (), rs, cs)"
    "refs rs = refs (ss_unacked s)" "cursors_ok rs"
    using completed_custody [of "[]" "ss_unacked s" commands "[]" "ss_consumers s"] inv by (auto simp: session_inv_def)
  have "\<forall>(tag, c)\<in>set cs. consumer_ok tag c"
    using completed_consumers [OF r(1)] inv by (simp add: session_inv_def)
  then show ?thesis
    using r inv fold_consumers_inv [of e S "set_unacked rs (s \<lparr> ss_consumers := cs \<rparr>)" cs "\<lambda>tag. requestDispatch"] consumer_ok_tag
    by (simp add: session_completed_def session_requestDispatch_def session_inv_def [of e S "set_unacked rs _"] session_inv_def [of e S s])
qed

lemma on_range_ok: "on_range a b s = Inr rg \<Longrightarrow> fst rg \<le> snd rg"
  by (auto simp: on_range_def throw_if_eq_Inr split_beta Let_def)

lemma range_custody:
  assumes "session_inv e S s" "on_range a b s = Inr rg"
  shows "custody e (mset (refs (slice rg (ss_unacked s))) + (mset (refs (take (fst rg) (ss_unacked s) @ drop (snd rg) (ss_unacked s))) + S)) (ss_queues s)"
    "cursors_ok (slice rg (ss_unacked s))"
    "custody e (mset (refs rs) + (mset (refs (take (fst rg) (ss_unacked s) @ drop (snd rg) (ss_unacked s))) + S')) qs \<Longrightarrow> cursors_ok rs \<Longrightarrow>
       session_inv e S' (set_unacked (replace_slice rg rs (ss_unacked s)) (set_queues qs s))"
proof -
  let ?us = "ss_unacked s"
  have "refs ?us = refs (take (fst rg) ?us) @ refs (slice rg ?us) @ refs (drop (snd rg) ?us)"
    using slice_split [OF on_range_ok [OF assms(2)], of ?us] refs_simps(3) by metis
  then show "custody e (mset (refs (slice rg ?us)) + (mset (refs (take (fst rg) ?us @ drop (snd rg) ?us)) + S)) (ss_queues s)"
    using session_inv_custody [OF assms(1)] by (simp add: ac_simps)
  have ok: "cursors_ok ?us"
    using assms(1) by (simp add: session_inv_def)
  show "cursors_ok (slice rg ?us)"
    by (rule cursors_ok_subset [OF ok]) (auto simp: slice_def dest: in_set_takeD in_set_dropD)
  have parts: "cursors_ok (take (fst rg) ?us)" "cursors_ok (drop (snd rg) ?us)"
    by (rule cursors_ok_subset [OF ok], auto dest: in_set_takeD in_set_dropD)+
  assume "custody e (mset (refs rs) + (mset (refs (take (fst rg) ?us @ drop (snd rg) ?us)) + S')) qs" "cursors_ok rs"
  then show "session_inv e S' (set_unacked (replace_slice rg rs ?us) (set_queues qs s))"
    using parts by (intro session_inv_records [OF assms(1)]) (simp_all add: replace_slice_def ac_simps)
qed

lemma session_inv_less:
  assumes "session_inv e S (set_unacked rs s)" "refs rs' = refs rs" "set rs' \<subseteq> set rs"
  shows "session_inv e S (set_unacked rs' s)"
  using assms cursors_ok_subset [of rs rs'] by (simp add: session_inv_def)

definition session_strands :: "'p MessageContent \<Rightarrow> SequenceNumber \<Rightarrow> SequenceNumber \<Rightarrow> 'p SemanticState \<Rightarrow>
    (string \<times> SequenceNumber) multiset" where
  "session_strands e a b s =
    (case on_range a b s of Inl err \<Rightarrow> {#} | Inr rg \<Rightarrow> mset (strands e (slice rg (ss_unacked s)) (ss_queues s)))"

lemma session_acquire_inv:
  assumes inv: "session_inv e S s" and run: "session_acquire e a b s = (res, s')"
  shows "session_inv e (S + session_strands e a b s) s'"
proof (cases "on_range a b s")
  case (Inr rg)
  let ?rest = "refs (take (fst rg) (ss_unacked s) @ drop (snd rg) (ss_unacked s))" and ?X = "session_strands e a b s"
  note c = range_custody [OF inv Inr]
  have X: "?X = mset (strands e (slice rg (ss_unacked s)) (ss_queues s))"
    using Inr by (simp add: session_strands_def)
  obtain rs ids qs where r: "acquire_each e (slice rg (ss_unacked s)) [] (ss_queues s) = (Inr (), rs, ids, qs)"
    "custody e (mset (refs rs) + (?X + (mset ?rest + S))) qs" "cursors_ok rs"
    using acquire_each_custody [OF c(1,2), of "[]"] unfolding X by metis
  have "custody e (mset (refs rs) + (mset ?rest + (S + ?X))) qs"
    using r(2) by (simp only: ac_simps)
  then show ?thesis
    using run Inr c(3) [OF _ r(3)] r(1) by (auto simp: session_acquire_def)
qed (use assms in \<open>simp add: session_acquire_def session_strands_def\<close>)

lemma session_release_inv:
  assumes inv: "session_inv e S s" and run: "session_release e a b rd s = Inr s'"
  shows "session_inv e S s'"
proof -
  obtain rg where rg: "on_range a b s = Inr rg"
    using run by (auto simp: session_release_def res_bind_eq_Inr)
  note c = range_custody [OF inv rg]
  obtain rs qs where r: "release_each e rd (slice rg (ss_unacked s)) (ss_queues s) = (rs, qs)"
    by fastforce
  have "session_inv e S (set_unacked (replace_slice rg rs (ss_unacked s)) (set_queues qs s))"
    using c(3) [of rs S qs] release_each_custody [OF c(1,2) r] by simp
  then show ?thesis
    using run rg r session_inv_less [OF _ erase_range_keeps [OF on_range_ok [OF rg]]] by (auto simp: session_release_def)
qed

lemma session_reject_inv:
  assumes inv: "session_inv e S s" and run: "session_reject e a b s = (res, s')"
  shows "session_inv e S s'"
proof (cases "on_range a b s")
  case (Inr rg)
  note c = range_custody [OF inv Inr]
  obtain rs qs where r: "reject_each e (slice rg (ss_unacked s)) (ss_queues s) = (Inr (), rs, qs)"
    "custody e (mset (refs (take (fst rg) (ss_unacked s) @ drop (snd rg) (ss_unacked s))) + S) qs" "refs rs = []" "cursors_ok rs"
    using reject_each_custody [OF c(1,2)] by metis
  let ?rs = "replace_slice rg rs (ss_unacked s)"
  have i: "session_inv e S (set_unacked ?rs (set_queues qs s))"
    using c(3) [of rs S qs] r(2-4) by simp
  have u: "refs (drop n xs) = refs (erase_upto b (drop n xs))" "set (erase_upto b (drop n xs)) \<subseteq> set xs" for n xs
    using erase_upto_keeps [of b "drop n xs"] by (auto dest: in_set_dropD)
  have "refs (take (fst rg) ?rs @ erase_upto b (drop (fst rg) ?rs)) = refs ?rs"
    using u(1) refs_simps(3) append_take_drop_id by metis
  moreover have "set (take (fst rg) ?rs @ erase_upto b (drop (fst rg) ?rs)) \<subseteq> set ?rs"
    using u(2) [of "fst rg" ?rs] by (auto dest: in_set_takeD)
  ultimately show ?thesis
    using run Inr r(1) session_inv_less [OF i] by (auto simp: session_reject_def Let_def)
qed (use assms in \<open>simp add: session_reject_def\<close>)

text \<open>Publishing.\<close>

lemma deliverTo_steady:
  assumes q: "steady e q" and room: "length (messages (q_messages q)) + 1 < 2 ^ 31" and run: "Queue_deliverTo e store_fails fs m q = (err, q')"
  shows "steady e q' \<and> (contents e q' = contents e q \<or>
    (\<exists>n. contents e q' = contents e q @ [m \<lparr> msg_sequence := n, msg_state := AVAILABLE \<rparr>]))"
proof -
  have plain: "q_class q = Plain_Queue" and inv: "queue_inv e [] q"
    using q by (simp_all add: steady_def)
  obtain r q1 where q1: "Queue_enqueue e store_fails m q = (r, q1)"
    by fastforce
  note eq = enqueue_plain [OF plain q1]
  have del: "q_deleted q1 = q_deleted q"
    using q1 plain by (auto simp: Queue_enqueue_def UsageBarrier_acquire_def UsageBarrier_release_def checkDepth_def Queue_checkDepth_def
        throw_if_def enqueueAborted_def log_events_def Let_def split: if_splits)
  have i1: "queue_inv e (if r = Inr True then [m] else []) q1"
    using enqueue_inv [OF inv q1] by simp
  have c1: "contents e q1 = contents e q"
    using eq by (simp add: contents_def)
  show ?thesis
  proof (cases "Queue_accept fs m \<and> r = Inr True")
    case True
    then obtain q2 where q2: "Queue_push e m q1 = Inr q2" "queue_inv e [] q2" "frame q1 q2"
      "contents e q2 = contents e q1 @ [m \<lparr> msg_sequence := q_sequence q1 + 1, msg_state := AVAILABLE \<rparr>]"
      using push_inv [of e "[m]" q1 m] i1 room eq by auto
    have "q_deleted q2 = q_deleted q1"
      using q2(1) by (auto simp: Queue_push_def res_bind_eq_Inr Let_def split_beta notify_all_def log_events_def)
    then show ?thesis
      using run True q1 q2 eq del c1 q by (auto simp: Queue_deliverTo_def steady_def frame_def)
  next
    case False
    then have "q' = q \<or> (q' = q1 \<and> r \<noteq> Inr True)"
      using run q1 by (auto simp: Queue_deliverTo_def split: sum.splits bool.splits if_splits)
    then show ?thesis
      using i1 eq del c1 q by (auto simp: steady_def)
  qed
qed

lemma publish_inv:
  assumes inv: "session_inv e S s" and room: "length (messages (q_messages (ss_queues s qn))) + 1 < 2 ^ 31"
    and run: "Queue_deliverTo e store_fails fs m (ss_queues s qn) = (err, q')"
  shows "session_inv e S (set_queues ((ss_queues s)(qn := q')) s)"
proof -
  note cu = session_inv_custody [OF inv]
  note d = deliverTo_steady [OF custody_steady [OF cu] room run]
  have "custody e (mset (refs (ss_unacked s)) + S) ((ss_queues s)(qn := q'))"
    using d custody_same [OF cu, of q' qn] custody_append [OF cu, of q' qn] by auto
  then show ?thesis
    using inv by (rule session_inv_queues [rotated])
qed

text \<open>Closing: every record gives its message back.\<close>

lemma released_twice: "released True (released True m) = released True m"
  by (simp add: released_def)

lemma requeue_records:
  assumes "custody e (mset (refs rs) + H) qs" "cursors_ok rs"
  shows "custody e H (fold (DeliveryRecord_requeue e) rs qs)"
    "contents e (fold (DeliveryRecord_requeue e) rs qs qn) =
       map (\<lambda>m. if (qn, msg_sequence m) \<in> set (refs rs) then released True m else m) (contents e (qs qn))"
proof -
  have "custody e H (fold (DeliveryRecord_requeue e) rs qs) \<and> contents e (fold (DeliveryRecord_requeue e) rs qs qn) =
       map (\<lambda>m. if (qn, msg_sequence m) \<in> set (refs rs) then released True m else m) (contents e (qs qn))"
    using assms
  proof (induction rs arbitrary: qs)
    case (Cons r rs)
    show ?case
    proof (cases "holding r")
      case True
      let ?qs = "qs(dr_queue r := Queue_release e (dr_msg r) True (qs (dr_queue r)))"
      have c: "custody e (add_mset (dr_queue r, position (dr_msg r)) (mset (refs rs) + H)) qs" "valid (dr_msg r)"
        using Cons.prems True by (simp_all add: ac_simps)
      note rl = release_reference [OF c, of True]
      have ok: "cursors_ok rs"
        using Cons.prems(2) by simp
      have "DeliveryRecord_requeue e r qs = ?qs"
        using True by (simp add: DeliveryRecord_requeue_def holding_def)
      then have f: "fold (DeliveryRecord_requeue e) (r # rs) qs = fold (DeliveryRecord_requeue e) rs ?qs"
        by simp
      have ih: "custody e H (fold (DeliveryRecord_requeue e) rs ?qs)" "contents e (fold (DeliveryRecord_requeue e) rs ?qs qn) =
          map (\<lambda>m. if (qn, msg_sequence m) \<in> set (refs rs) then released True m else m) (contents e (?qs qn))"
        using Cons.IH [OF rl(1)] ok by blast+
      show ?thesis
        unfolding f ih(2) using ih(1) rl(2) True by (simp add: released_twice cong: if_cong)
    next
      case False
      then have "DeliveryRecord_requeue e r qs = qs"
        by (auto simp: DeliveryRecord_requeue_def holding_def)
      then show ?thesis
        using Cons False by simp
    qed
  qed simp
  then show "custody e H (fold (DeliveryRecord_requeue e) rs qs)"
    "contents e (fold (DeliveryRecord_requeue e) rs qs qn) =
       map (\<lambda>m. if (qn, msg_sequence m) \<in> set (refs rs) then released True m else m) (contents e (qs qn))"
    by blast+
qed

text \<open>What a queue holds when its acquired messages, but for those in \<open>S\<close>, are given back.\<close>

definition given_back :: "(string \<times> SequenceNumber) multiset \<Rightarrow> string \<Rightarrow> 'p QMessage list \<Rightarrow> 'p QMessage list" where
  "given_back S qn ms = map (\<lambda>m. if (qn, msg_sequence m) \<in># S then m else m \<lparr> msg_state := AVAILABLE \<rparr>) ms"

lemma refs_rev: "refs (rev rs) = rev (refs rs)"
  by (induction rs) simp_all

lemma requeue_inv:
  assumes inv: "session_inv e S s"
  shows "session_inv e S (session_requeue e s)" "ss_unacked (session_requeue e s) = []"
    "contents e (ss_queues (session_requeue e s) qn) = given_back S qn (contents e (ss_queues s qn))"
proof -
  let ?us = "rev (ss_unacked s)"
  have c: "custody e (mset (refs ?us) + S) (ss_queues s)" "cursors_ok ?us"
    using inv cursors_ok_subset [of "ss_unacked s" ?us] by (simp_all add: session_inv_def refs_rev)
  note r = requeue_records(2) [OF c, of qn]
  show "session_inv e S (session_requeue e s)" "ss_unacked (session_requeue e s) = []"
    using requeue_records(1) [OF c] inv by (simp_all add: session_requeue_def Let_def session_inv_def)
  have "(qn, msg_sequence m) \<in> set (refs ?us) \<longleftrightarrow> msg_state m = ACQUIRED \<and> (qn, msg_sequence m) \<notin># S"
    if m: "m \<in> set (contents e (ss_queues s qn))" for m
  proof -
    let ?p = "(qn, msg_sequence m)"
    have "(\<exists>x\<in>set (contents e (ss_queues s qn)). msg_state x = ACQUIRED \<and> msg_sequence x = msg_sequence m) \<longleftrightarrow> msg_state m = ACQUIRED"
      using distinct_sequence [OF steady_distinct [OF custody_steady [OF c(1)]] m] m by blast
    then have n: "count (mset (refs ?us)) ?p + count S ?p = (if msg_state m = ACQUIRED then 1 else 0)"
      using custody_count [OF c(1), of qn "msg_sequence m"] by simp
    have k: "?p \<in> set (refs ?us) \<longleftrightarrow> count (mset (refs ?us)) ?p > 0" "?p \<in># S \<longleftrightarrow> count S ?p > 0"
      using count_greater_zero_iff [of "mset (refs ?us)" ?p] count_greater_zero_iff [of S ?p] by simp_all
    have one: "x + y = (if b then 1 else 0) \<Longrightarrow> 0 < x \<longleftrightarrow> b \<and> \<not> 0 < y" for x y :: nat and b
      by (auto split: if_splits)
    show ?thesis
      unfolding k by (rule one [OF n])
  qed
  moreover have "msg_state m = AVAILABLE" if "m \<in> set (contents e (ss_queues s qn))" "msg_state m \<noteq> ACQUIRED" for m
    using custody_steady [OF c(1), of qn] that by (auto simp: steady_def queue_inv_def)
  ultimately show "contents e (ss_queues (session_requeue e s) qn) = given_back S qn (contents e (ss_queues s qn))"
    using r by (auto simp: session_requeue_def Let_def given_back_def released_def)
qed

lemma attach_inv: "session_inv e S s \<Longrightarrow> session_inv e S (session_attach s)" "session_inv e S s \<Longrightarrow> session_inv e S (session_detach s)"
  unfolding session_attach_def session_detach_def Let_def session_inv_emit
  by (rule fold_consumers_inv; simp add: session_inv_def [of e S s] consumer_ok_tag)+

lemma flush_inv:
  assumes "session_inv e S s" "session_flush fuel e clock flt required tag s = Some (res, s')"
  shows "session_inv e S s'"
proof -
  have "session_inv e S s1 \<Longrightarrow> flush_loop fuel e clock flt required tag s1 = Some (r, s2) \<Longrightarrow> session_inv e S s2" for s1 r s2
  proof (induction fuel arbitrary: s1)
    case (Suc fuel)
    then show ?case
      by (auto split: prod.splits sum.splits bool.splits dest: doOutput_inv)
  qed simp
  note loop = this
  show ?thesis
  proof (cases "session_find tag s")
    case (Inr c)
    then obtain r s1 where r: "flush_loop fuel e clock flt required tag s = Some (r, s1)"
      using assms(2) by (auto simp: session_flush_def)
    then have "s' = s1 \<or> session_stop tag s1 = Inr s'"
      using assms(2) Inr by (cases r; cases "session_stop tag s1") (auto simp: session_flush_def)
    then show ?thesis
      using loop [OF assms(1) r] credit_inv(4) by blast
  qed (use assms in \<open>simp add: session_flush_def\<close>)
qed

lemma disable_all:
  assumes "session_inv e S s" "\<forall>(tag, c)\<in>set cs. consumer_ok tag c"
  shows "session_inv e S (fold (\<lambda>(tag, c). session_disable c) cs s)"
    "ss_queues (fold (\<lambda>(tag, c). session_disable c) cs s) = ss_queues s"
  using fold_consumers_inv [OF assms, of "\<lambda>tag. session_disable"] consumer_ok_tag
  by simp (induction cs arbitrary: s, auto simp: session_disable_def Let_def)

lemma cancel_all_inv:
  assumes "session_inv e S s" "\<forall>c\<in>set cs. consumer_ok (ci_tag c) c" "cancel_all e cs s = (res, s')"
  shows "session_inv e S s' \<and> ss_unacked s' = ss_unacked s \<and> contents e (ss_queues s' qn) = contents e (ss_queues s qn)"
  using assms
proof (induction cs arbitrary: s)
  case (Cons c cs)
  obtain r1 s1 where s1: "cancel_consumer e c s = (r1, s1)"
    by fastforce
  have inv: "session_inv e S s1"
    using cancel_consumer_inv [OF Cons.prems(1) _ s1] Cons.prems(2) by simp
  have same: "ss_unacked s1 = ss_unacked s" "contents e (ss_queues s1 qn) = contents e (ss_queues s qn)"
    using s1 cancel_steady [OF custody_steady [OF session_inv_custody [OF Cons.prems(1)]]]
    by (auto simp: cancel_consumer_def session_disable_def Let_def split: sum.splits if_splits)
  show ?case
    using Cons.prems Cons.IH [OF inv] s1 inv same by (cases r1) auto
qed simp

lemma closed_inv:
  assumes inv: "session_inv e S s" and run: "session_closed e M s = (res, s')"
  shows "session_inv e S s'"
    "\<not> ss_closeComplete s \<Longrightarrow> ss_unacked s' = [] \<and> contents e (ss_queues s' qn) = given_back S qn (contents e (ss_queues s qn))"
proof -
  define s1 where "s1 = fold (\<lambda>(tag, c). session_disable c) (ss_consumers s) s"
  define s2 where "s2 = session_requeue e s1"
  obtain r s3 where s3: "cancel_all e (map snd (ss_consumers s2)) s2 = (r, s3)"
    by fastforce
  have "\<forall>(tag, c)\<in>set (ss_consumers s). consumer_ok tag c"
    using inv by (simp add: session_inv_def)
  note s1 = disable_all [OF inv this, folded s1_def]
  note s2 = requeue_inv [OF s1(1), folded s2_def]
  have "\<forall>c\<in>set (map snd (ss_consumers s2)). consumer_ok (ci_tag c) c"
    using s2(1) consumer_ok_tag by (fastforce simp: session_inv_def)
  note s3' = cancel_all_inv [OF s2(1) this s3]
  have "s' = (if ss_closeComplete s then s else if r = Inr () then s3 \<lparr> ss_closeComplete := True \<rparr> else s3)"
    using run s3 s1(1) s3' [of qn] by (auto simp: session_closed_def Let_def session_inv_def simp flip: s1_def s2_def split: sum.splits)
  moreover have "session_inv e S (s3 \<lparr> ss_closeComplete := True \<rparr>) = session_inv e S s3" "ss_unacked (s3 \<lparr> ss_closeComplete := True \<rparr>) = ss_unacked s3"
    "ss_queues (s3 \<lparr> ss_closeComplete := True \<rparr>) = ss_queues s3"
    by (simp_all add: session_inv_def ss_unacked_def ss_queues_def ss_world_def)
  ultimately show "session_inv e S s'" "\<not> ss_closeComplete s \<Longrightarrow> ss_unacked s' = [] \<and> contents e (ss_queues s' qn) = given_back S qn (contents e (ss_queues s qn))"
    using inv s3' [of qn] s2 s1 by auto
qed

end
