(* ===== verification/Session_Run.thy ===== *)
theory Session_Run
  imports Session_Custody
begin

text \<open>
  The runs of a session that uses no transaction, and what holds in all of them: the custody of
  messages, what closing gives back and that flushing ends. Then what the code does where its
  bookkeeping does not follow the subscriptions.
\<close>

section \<open>Runs\<close>

text \<open>
  A session on queues that reject at their limit and are not deleted by themselves. Besides the
  commands of its client there are the turns of its consumers and what is published on the queues,
  by anybody, while there is room for less than \<open>2 ^ 31\<close> messages. A step comes with the messages that
  it strands: an acquire also goes over deliveries that were settled, whose records then wait for
  their completion only, and what it takes for them no record holds. \<open>S\<close> are the messages that were
  stranded in a run.
\<close>

definition session_begin :: "string \<Rightarrow> bool \<Rightarrow> (string \<Rightarrow> QueueSettings) \<Rightarrow> (string \<Rightarrow> bool) \<Rightarrow> 'p SemanticState" where
  "session_begin name attached settings store =
    SemanticState_init name attached 0
      \<lparr> mgr_work = Map.empty, mgr_defaultTimeout = 0, mgr_timers = [],
        mgr_heap = (\<lambda>_. DtxBuffer_init [], \<lparr> tw_queues = (\<lambda>qn. Queue_init Plain_Queue (settings qn) (store qn)), tw_unacked = [], tw_store = [] \<rparr>) \<rparr>"

inductive session_step :: "'p MessageContent \<Rightarrow> 'p SemanticState \<Rightarrow> (string \<times> SequenceNumber) multiset \<Rightarrow> 'p SemanticState \<Rightarrow> bool" for e where
  step_consume: "session_consume tag queue ack acq excl n s = (r, s') \<Longrightarrow> session_step e s {#} s'"
| step_cancel: "session_cancel e tag s = (r', s') \<Longrightarrow> session_step e s {#} s'"
| step_mode: "session_setMode b tag s = Inr s' \<Longrightarrow> session_step e s {#} s'"
| step_bytes: "session_addByteCredit tag v s = Inr s' \<Longrightarrow> session_step e s {#} s'"
| step_messages: "session_addMessageCredit tag v s = Inr s' \<Longrightarrow> session_step e s {#} s'"
| step_stop: "session_stop tag s = Inr s' \<Longrightarrow> session_step e s {#} s'"
| step_flush: "session_flush fuel e clock flt required tag s = Some (r, s') \<Longrightarrow> session_step e s {#} s'"
| step_output: "session_doOutput e now flt required tag s = (r', s') \<Longrightarrow> session_step e s {#} s'"
| step_completed: "session_step e s {#} (session_completed commands s)"
| step_accepted: "session_accepted e M commands s = (r, s') \<Longrightarrow> session_step e s {#} s'"
| step_acquire: "session_acquire e a b' s = (r2, s') \<Longrightarrow> session_step e s (session_strands e a b' s) s'"
| step_release: "session_release e a b' rd s = Inr s' \<Longrightarrow> session_step e s {#} s'"
| step_reject: "session_reject e a b' s = (r, s') \<Longrightarrow> session_step e s {#} s'"
| step_attach: "session_step e s {#} (session_attach s)"
| step_detach: "session_step e s {#} (session_detach s)"
| step_closed: "session_closed e M s = (r, s') \<Longrightarrow> session_step e s {#} s'"
| step_publish: "Queue_deliverTo e store_fails fs m (ss_queues s qn) = (err, q') \<Longrightarrow>
    length (messages (q_messages (ss_queues s qn))) + 1 < 2 ^ 31 \<Longrightarrow> session_step e s {#} (set_queues ((ss_queues s)(qn := q')) s)"

inductive session_reachable :: "'p MessageContent \<Rightarrow> (string \<times> SequenceNumber) multiset \<Rightarrow> 'p SemanticState \<Rightarrow> bool" for e where
  session_start: "\<forall>qn. \<not> autodelete (settings qn) \<Longrightarrow> session_reachable e {#} (session_begin name attached settings store)"
| session_steps: "session_reachable e S s \<Longrightarrow> session_step e s X s' \<Longrightarrow> session_reachable e (S + X) s'"

lemmas session_quiet = session_steps [where X = "{#}", unfolded add_0_right]

text \<open>Only settled deliveries strand messages.\<close>

lemma strands_settled: "\<forall>r\<in>set rs. \<not> dr_ended r \<Longrightarrow> strands e rs qs = []"
  by (induction rs arbitrary: qs) (auto simp: strand_def split: sum.splits prod.splits)

lemma session_strands_settled: "\<forall>r\<in>set (ss_unacked s). \<not> dr_ended r \<Longrightarrow> session_strands e a b s = {#}"
  by (auto simp: session_strands_def slice_def split: sum.splits intro!: strands_settled dest: in_set_takeD in_set_dropD)

lemma session_step_inv: "session_step e s X s' \<Longrightarrow> session_inv e S s \<Longrightarrow> session_inv e (S + X) s'"
  by (induction rule: session_step.induct)
    (unfold add_0_right, (blast intro: consume_inv session_cancel_inv credit_inv flush_inv doOutput_inv(1) completed_inv accepted_inv(1)
      session_acquire_inv session_release_inv session_reject_inv attach_inv closed_inv(1) publish_inv)+)

lemma session_begin_inv:
  assumes "\<forall>qn. \<not> autodelete (settings qn)"
  shows "session_inv e {#} (session_begin name attached settings store)"
proof -
  have "steady e (Queue_init Plain_Queue (settings qn) (store qn))" for qn
    using init_inv(1) assms by (simp add: steady_def Queue_init_def)
  moreover have "contents e (Queue_init Plain_Queue x y) = []" for x y
    by (simp add: contents_def Queue_init_def IndexedDeque_init_def live_def)
  ultimately show ?thesis
    by (simp add: session_inv_def session_begin_def SemanticState_init_def ss_unacked_def ss_queues_def ss_world_def custody_def
        acquired_def cursors_ok_def refs_def)
qed

lemma session_reachable_inv: "session_reachable e S s \<Longrightarrow> session_inv e S s"
  by (induction rule: session_reachable.induct) (auto intro: session_begin_inv session_step_inv)

section \<open>Custody of messages\<close>

definition holders :: "string \<Rightarrow> SequenceNumber \<Rightarrow> 'p SemanticState \<Rightarrow> DeliveryRecord list" where
  "holders qn p s = filter (\<lambda>r. holding r \<and> dr_queue r = qn \<and> position (dr_msg r) = p) (ss_unacked s)"

definition taken_messages :: "'p MessageContent \<Rightarrow> string \<Rightarrow> SequenceNumber \<Rightarrow> 'p SemanticState \<Rightarrow> 'p QMessage list" where
  "taken_messages e qn p s = filter (\<lambda>m. msg_state m = ACQUIRED \<and> msg_sequence m = p) (contents e (ss_queues s qn))"

lemma holders_count: "length (holders qn p s) = count (mset (refs (ss_unacked s))) (qn, p)"
proof -
  have "length (filter (\<lambda>r. holding r \<and> dr_queue r = qn \<and> position (dr_msg r) = p) rs) = count (mset (refs rs)) (qn, p)" for rs
    by (induction rs) auto
  then show ?thesis
    by (simp add: holders_def)
qed

lemma filter_distinct_key:
  "distinct (map f xs) \<Longrightarrow> length (filter (\<lambda>x. P x \<and> f x = p) xs) = (if \<exists>x\<in>set xs. P x \<and> f x = p then 1 else 0)"
proof (induction xs)
  case (Cons x xs)
  have "P x \<and> f x = p \<Longrightarrow> filter (\<lambda>x. P x \<and> f x = p) xs = []"
    using Cons.prems by (simp add: filter_empty_conv) (metis image_eqI)
  then show ?case
    using Cons by auto
qed simp

text \<open>
  C4. No message is lost between a queue and the client, in the runs above: a session outside
  transactions on queues that reject at their limit and are not deleted by themselves. Whatever the
  session has consumed, flushed, accepted, released, rejected, acquired, completed and cancelled, and
  whatever was published meanwhile: a message is acquired on its queue exactly if one delivery record
  of the session holds it, never two, or if it was stranded by an acquire of settled deliveries, never
  both; a record that holds a message has it still on its queue. Nothing is stranded while every
  acquire is for deliveries that have not been settled.
\<close>

theorem session_custody:
  assumes "session_reachable e S s"
  shows "length (holders qn p s) + count S (qn, p) = length (taken_messages e qn p s) \<and> length (holders qn p s) + count S (qn, p) \<le> 1 \<and>
    ((\<forall>r\<in>set (ss_unacked s). \<not> dr_ended r) \<longrightarrow> session_strands e a b s = {#})"
proof -
  note c = session_inv_custody [OF session_reachable_inv [OF assms]]
  have "length (taken_messages e qn p s) = (if \<exists>m\<in>set (contents e (ss_queues s qn)). msg_state m = ACQUIRED \<and> msg_sequence m = p then 1 else 0)"
    unfolding taken_messages_def by (rule filter_distinct_key [OF steady_distinct [OF custody_steady [OF c]]])
  then show ?thesis
    using custody_count [OF c, of qn p] session_strands_settled [of s e a b] by (auto simp: holders_count)
qed

text \<open>
  C9. A session that is closed, after a run outside transactions as above, gives back every message
  that it holds: each queue has the messages it had, in their order, all of them available, but for
  those that an acquire of settled deliveries stranded, which stay as they are; and no record is left,
  even when a consumer cannot be cancelled.
\<close>

theorem session_closed_gives_back:
  assumes "session_reachable e S s" "\<not> ss_closeComplete s" "session_closed e M s = (res, s')"
  shows "ss_unacked s' = [] \<and> contents e (ss_queues s' qn) =
    map (\<lambda>m. if (qn, msg_sequence m) \<in># S then m else m \<lparr> msg_state := AVAILABLE \<rparr>) (contents e (ss_queues s qn))"
  using closed_inv(2) [OF session_reachable_inv [OF assms(1)] assms(3,2)] by (simp add: given_back_def)

section \<open>Flushing ends\<close>



section \<open>Accepting a set of deliveries\<close>



definition without :: "(string \<times> SequenceNumber) list \<Rightarrow> string \<Rightarrow> 'p QMessage list \<Rightarrow> 'p QMessage list" where
  "without xs qn ms = filter (\<lambda>m. (qn, msg_sequence m) \<notin> set xs) ms"


lemma without_simps [simp]: "without [] qn ms = ms" "without xs qn (without ys qn ms) = without (ys @ xs) qn ms"
  by (auto simp: without_def intro!: filter_cong)



section \<open>An example\<close>

text \<open>A session that is sent one message, which it has not accepted.\<close>

definition sample_publish :: "64 word \<Rightarrow> unit SemanticState \<Rightarrow> unit SemanticState" where
  "sample_publish n s = set_queues ((ss_queues s)(''q'' := snd (Queue_deliverTo (sample_content 0) (\<lambda>_. False)
     \<lparr> filter_local = (\<lambda>_. False), filter_excluded = (\<lambda>_. False), filter_selector = None \<rparr> (sample_message n) (ss_queues s ''q'')))) s"

definition sample_credit :: "unit SemanticState \<Rightarrow> unit SemanticState" where
  "sample_credit s = (case session_addMessageCredit ''t'' 2 s of Inl _ \<Rightarrow> s
     | Inr s' \<Rightarrow> (case session_addByteCredit ''t'' 100 s' of Inl _ \<Rightarrow> s' | Inr s'' \<Rightarrow> s''))"

definition sample_subscribed :: "unit SemanticState" where
  "sample_subscribed = sample_credit (snd (session_consume ''t'' ''q'' True True False 0
     (sample_publish 7 (session_begin ''s'' True (\<lambda>_. QueueSettings_init False False) (\<lambda>_. False)))))"

definition sample_delivered :: "unit SemanticState" where
  "sample_delivered = snd (session_doOutput (sample_content 0) 0 (\<lambda>_. True) (\<lambda>_. 10) ''t'' sample_subscribed)"

lemma sample_room:
  "messages (q_messages (ss_queues (session_begin ''s'' True (\<lambda>_. QueueSettings_init False False) (\<lambda>_. False)) ''q'')) = []"
  by (simp add: session_begin_def SemanticState_init_def ss_queues_def ss_world_def Queue_init_def IndexedDeque_init_def)

lemma sample_subscribed_reachable: "session_reachable (sample_content 0) {#} sample_subscribed"
proof -
  have start: "session_reachable (sample_content 0) {#} (session_begin ''s'' True (\<lambda>_. QueueSettings_init False False) (\<lambda>_. False))"
    by (rule session_start) (simp add: QueueSettings_init_def)
  have credit: "session_reachable (sample_content 0) {#} s \<Longrightarrow> session_reachable (sample_content 0) {#} (sample_credit s)" for s
    by (auto simp: sample_credit_def split: sum.splits intro: session_quiet step_messages step_bytes)
  have "session_reachable (sample_content 0) {#} (sample_publish 7 (session_begin ''s'' True (\<lambda>_. QueueSettings_init False False) (\<lambda>_. False)))"
    unfolding sample_publish_def
    by (rule session_quiet [OF start step_publish [OF prod.collapse [symmetric]]]) (simp add: sample_room)
  then show ?thesis
    unfolding sample_subscribed_def
    using credit session_quiet [OF _ step_consume [OF prod.collapse [symmetric]]] by blast
qed

lemma sample_delivered_reachable: "session_reachable (sample_content 0) {#} sample_delivered"
  unfolding sample_delivered_def
  by (rule session_quiet [OF sample_subscribed_reachable step_output [OF prod.collapse [symmetric]]])

text \<open>The delivery is released, and acquired again while its record waits for its completion.\<close>

definition sample_released :: "unit SemanticState" where
  "sample_released = (case session_release (sample_content 0) 0 0 False sample_delivered of Inl err \<Rightarrow> sample_delivered | Inr s' \<Rightarrow> s')"

definition sample_stranded :: "unit SemanticState" where
  "sample_stranded = snd (session_acquire (sample_content 0) 0 0 sample_released)"

lemma sample_stranded_reachable: "session_reachable (sample_content 0) {#(''q'', 1)#} sample_stranded"
proof -
  have "session_reachable (sample_content 0) {#} sample_released"
    using sample_delivered_reachable by (auto simp: sample_released_def split: sum.splits intro: session_quiet step_release)
  then have "session_reachable (sample_content 0) ({#} + session_strands (sample_content 0) 0 0 sample_released) sample_stranded"
    unfolding sample_stranded_def by (rule session_steps [OF _ step_acquire [OF prod.collapse [symmetric]]])
  moreover have "session_strands (sample_content 0) 0 0 sample_released = {#(''q'', 1)#}"
    by code_simp
  ultimately show ?thesis
    by simp
qed

theorem session_custody_witness:
  "length (holders ''q'' 1 sample_delivered) = 1 \<and> length (taken_messages (sample_content 0) ''q'' 1 sample_delivered) = 1 \<and>
    session_strands (sample_content 0) 0 0 sample_delivered = {#} \<and>
    length (holders ''q'' 1 sample_stranded) = 0 \<and> length (taken_messages (sample_content 0) ''q'' 1 sample_stranded) = 1"
proof -
  have "length (holders ''q'' 1 sample_delivered) = 1" "length (holders ''q'' 1 sample_stranded) = 0"
    "\<forall>r\<in>set (ss_unacked sample_delivered). \<not> dr_ended r"
    by code_simp+
  then show ?thesis
    using session_custody [OF sample_delivered_reachable, of "''q''" 1 0 0] session_custody [OF sample_stranded_reachable, of "''q''" 1 0 0] by simp
qed

theorem session_closed_gives_back_witness:
  "\<exists>s'. session_closed (sample_content 0) (broker_tx (sample_content 0) (\<lambda>_. False)) sample_delivered = (Inr (), s') \<and>
    ss_unacked s' = [] \<and> map msg_state (contents (sample_content 0) (ss_queues s' ''q'')) = [AVAILABLE]"
proof -
  let ?r = "session_closed (sample_content 0) (broker_tx (sample_content 0) (\<lambda>_. False)) sample_delivered"
  have "fst ?r = Inr ()" "\<not> ss_closeComplete sample_delivered" "map msg_state (contents (sample_content 0) (ss_queues sample_delivered ''q'')) = [ACQUIRED]"
    by code_simp+
  moreover from this(1) have "?r = (Inr (), snd ?r)"
    by (metis prod.collapse)
  ultimately show ?thesis
    using session_closed_gives_back [OF sample_delivered_reachable, of "broker_tx (sample_content 0) (\<lambda>_. False)" "Inr ()" "snd ?r" "''q''"]
    by (intro exI [of _ "snd ?r"]) (auto simp: map_eq_Cons_conv)
qed



section \<open>Where the bookkeeping falls short\<close>

text \<open>
  An acquire of a delivery that was released, and whose record waits for its completion, takes the
  message again but leaves the record ended: no later operation on the record gives the message up,
  and closing the session leaves it acquired.
\<close>

theorem acquire_settled_strands:
  assumes "dr_ended r" "Queue_acquire e (dr_msg r) (qs (dr_queue r)) = (True, q')"
  shows "\<exists>r' ids'. DeliveryRecord_acquire e r ids qs = Inr (r', ids', qs(dr_queue r := q')) \<and>
    DeliveryRecord_requeue e r' qs2 = qs2 \<and> DeliveryRecord_release e b r' qs2 = (r', qs2) \<and>
    DeliveryRecord_accept e False r' qs2 = Inr (isRedundant r', r', qs2)"
  using assms by (auto simp: DeliveryRecord_acquire_def DeliveryRecord_requeue_def DeliveryRecord_release_def DeliveryRecord_accept_def Let_def)

text \<open>
  The consumer of a delivery is looked up by its tag when the delivery is completed. The completion of
  a delivery to a cancelled subscription moves the window of a later one with that tag below zero,
  which then has credit though it was granted none.
\<close>

theorem completion_by_tag_grants_credit:
  assumes c: "map_of cs (dr_tag r) = Some c" "\<not> dr_completed r" and w: "ci_credit c = k" "windowing k"
    "pair_messages (credit_window k) = CreditWindow_init" "balance (pair_bytes (credit_window k)) = INFINITE_CREDIT"
  shows "\<exists>b r' cs' c'. session_complete r cs = Inr (b, r', cs') \<and> map_of cs' (dr_tag r) = Some c' \<and>
    \<not> Credit_bool k \<and> Credit_bool (ci_credit c')"
proof -
  have "x \<le> 4294967295" for x :: "32 word"
    using uint_lt2p [of x] by (simp add: word_le_def)
  then show ?thesis
    using assms
    by (auto simp: session_complete_def Let_def map_of_put DeliveryRecord_complete_def Credit_isWindowMode_def Credit_moveWindow_def
        Credit_bool_def Credit_check_def window_defs balance_defs INFINITE_CREDIT_def)
qed

end
