(* ===== verification/Message_Groups.thy ===== *)
theory Message_Groups
  imports Sequence_Number
begin

text \<open>
  Message groups (\<open>broker/MessageGroupManager.cpp\<close>). The manager observes a queue and is its distributor: it
  gives the messages of a group to one consumer at a time. A group that is held in the map is named by
  its key, which stands for the pointers to it in the cache and in the list of free groups. A message is
  its sequence number and the value of the header that names its group. The counters of the cache and
  management queries are left out.
\<close>

section \<open>The manager\<close>

record GroupState =
  gs_group :: string
  gs_owner :: string
  gs_acquired :: "32 word"
  gs_members :: "(SequenceNumber \<times> bool) list"

record MessageGroupManager =
  mg_default :: string
  mg_groups :: "string \<rightharpoonup> GroupState"
  mg_free :: "SequenceNumber \<rightharpoonup> string"
  mg_lastMsg :: SequenceNumber
  mg_lastGroup :: string
  mg_cached :: "string option"

record group_message =
  gm_sequence :: SequenceNumber
  gm_header :: string

definition GroupState_init :: GroupState where
  "GroupState_init = \<lparr> gs_group = [], gs_owner = [], gs_acquired = 0, gs_members = [] \<rparr>"

definition MessageGroupManager_init :: "string \<Rightarrow> MessageGroupManager" where
  "MessageGroupManager_init defaultGroupId =
    \<lparr> mg_default = defaultGroupId, mg_groups = Map.empty, mg_free = Map.empty, mg_lastMsg = 0, mg_lastGroup = [], mg_cached = None \<rparr>"

definition owned :: "GroupState \<Rightarrow> bool" where
  "owned st \<longleftrightarrow> gs_owner st \<noteq> []"

text \<open>\<open>findMsg\<close> looks at what \<open>lower_bound\<close> returns, also at the end; all callers assert that it finds the message.\<close>

definition findMsg :: "SequenceNumber \<Rightarrow> GroupState \<Rightarrow> nat result" where
  "findMsg position st =
    (let i = length (takeWhile (\<lambda>m. SequenceNumber_less (fst m) position) (gs_members st)) in
     throw_if (length (gs_members st) \<le> i) UndefinedBehaviour
       (throw_if (fst (gs_members st ! i) \<noteq> position) AssertionFailed (Inr i)))"

text \<open>The group that a pointer points to.\<close>

definition deref :: "string \<Rightarrow> MessageGroupManager \<Rightarrow> GroupState result" where
  "deref g mg = (case mg_groups mg g of None \<Rightarrow> Inl UndefinedBehaviour | Some st \<Rightarrow> Inr st)"

definition store_group :: "string \<Rightarrow> GroupState \<Rightarrow> MessageGroupManager \<Rightarrow> MessageGroupManager" where
  "store_group g st mg = mg \<lparr> mg_groups := (mg_groups mg)(g \<mapsto> st) \<rparr>"

definition unFree :: "string \<Rightarrow> GroupState \<Rightarrow> MessageGroupManager \<Rightarrow> MessageGroupManager result" where
  "unFree g st mg =
    (case gs_members st of
       [] \<Rightarrow> Inl UndefinedBehaviour
     | front # _ \<Rightarrow>
         throw_if (mg_free mg (fst front) \<noteq> Some g) AssertionFailed
           (Inr (mg \<lparr> mg_free := (mg_free mg)(fst front := None) \<rparr>)))"

definition own :: "string \<Rightarrow> GroupState \<Rightarrow> string \<Rightarrow> MessageGroupManager \<Rightarrow> MessageGroupManager result" where
  "own g st consumer mg =
    (let st = st \<lparr> gs_owner := consumer \<rparr> in unFree g st (store_group g st mg))"

definition disown :: "string \<Rightarrow> GroupState \<Rightarrow> MessageGroupManager \<Rightarrow> MessageGroupManager result" where
  "disown g st mg =
    (let st = st \<lparr> gs_owner := [] \<rparr>; mg = store_group g st mg in
     case gs_members st of
       [] \<Rightarrow> Inl AssertionFailed
     | front # _ \<Rightarrow>
         throw_if (mg_free mg (fst front) \<noteq> None) AssertionFailed
           (Inr (mg \<lparr> mg_free := (mg_free mg)(fst front \<mapsto> g) \<rparr>)))"

text \<open>\<open>findGroup\<close>: \<open>operator[]\<close> makes the group if there is none, and the message and the group are remembered.\<close>

definition lookup_group :: "string \<Rightarrow> group_message \<Rightarrow> MessageGroupManager \<Rightarrow> string \<times> MessageGroupManager" where
  "lookup_group gid m mg =
    (let st = (case mg_groups mg gid of None \<Rightarrow> GroupState_init | Some st \<Rightarrow> st);
         st = (if gs_group st = [] then st \<lparr> gs_group := gid \<rparr> else st)
     in (gid, store_group gid st (mg \<lparr> mg_lastMsg := gm_sequence m, mg_lastGroup := gid, mg_cached := Some gid \<rparr>)))"

definition group_of :: "string \<Rightarrow> group_message \<Rightarrow> string" where
  "group_of dflt m = (if gm_header m = [] then dflt else gm_header m)"

definition findGroup :: "group_message \<Rightarrow> MessageGroupManager \<Rightarrow> string \<times> MessageGroupManager" where
  "findGroup m mg =
    (let gid = group_of (mg_default mg) m in
     case mg_cached mg of
       Some g \<Rightarrow>
         if mg_lastMsg mg = gm_sequence m then (g, mg)
         else if gid = mg_lastGroup mg then (g, mg \<lparr> mg_lastMsg := gm_sequence m \<rparr>)
         else lookup_group gid m mg
     | None \<Rightarrow> lookup_group gid m mg)"

section \<open>The events of the queue\<close>

definition group_enqueued :: "group_message \<Rightarrow> MessageGroupManager \<Rightarrow> MessageGroupManager result" where
  "group_enqueued m mg =
    (let (g, mg) = findGroup m mg in
     res_bind (deref g mg) (\<lambda>st.
     let st = st \<lparr> gs_members := gs_members st @ [(gm_sequence m, False)] \<rparr>;
         total = of_nat (length (gs_members st)) :: 32 word;
         mg = store_group g st mg
     in if total = 1 then
          throw_if (mg_free mg (gm_sequence m) \<noteq> None) AssertionFailed
            (Inr (mg \<lparr> mg_free := (mg_free mg)(gm_sequence m \<mapsto> g) \<rparr>))
        else Inr mg))"

definition group_acquired :: "group_message \<Rightarrow> MessageGroupManager \<Rightarrow> MessageGroupManager result" where
  "group_acquired m mg =
    (let (g, mg) = findGroup m mg in
     res_bind (deref g mg) (\<lambda>st.
     res_bind (findMsg (gm_sequence m) st) (\<lambda>i.
     Inr (store_group g (st \<lparr> gs_members := (gs_members st)[i := (fst (gs_members st ! i), True)], gs_acquired := gs_acquired st + 1 \<rparr>) mg))))"

definition group_requeued :: "group_message \<Rightarrow> MessageGroupManager \<Rightarrow> MessageGroupManager result" where
  "group_requeued m mg =
    (let (g, mg) = findGroup m mg in
     res_bind (deref g mg) (\<lambda>st.
     throw_if (gs_acquired st = 0) AssertionFailed
     (let st = st \<lparr> gs_acquired := gs_acquired st - 1 \<rparr> in
      res_bind (findMsg (gm_sequence m) st) (\<lambda>i.
      let st = st \<lparr> gs_members := (gs_members st)[i := (fst (gs_members st ! i), False)] \<rparr>;
          mg = store_group g st mg
      in if gs_acquired st = 0 \<and> owned st then disown g st mg else Inr mg))))"

text \<open>\<open>dequeued\<close>, from the removal of the message on; the second result is whether the cursors of the queue are reset.\<close>

definition remove_member :: "string \<Rightarrow> nat \<Rightarrow> bool \<Rightarrow> GroupState \<Rightarrow> MessageGroupManager \<Rightarrow> (MessageGroupManager \<times> bool) result" where
  "remove_member g i reFreeNeeded st mg =
    (let st = st \<lparr> gs_members := take i (gs_members st) @ drop (Suc i) (gs_members st) \<rparr>;
         total = of_nat (length (gs_members st)) :: 32 word;
         mg = store_group g st mg
     in if total = 0 then
          Inr (mg \<lparr> mg_cached := if mg_cached mg = Some g then None else mg_cached mg,
                    mg_groups := (mg_groups mg)(gs_group st := None) \<rparr>, False)
        else if gs_acquired st = 0 \<and> owned st then res_bind (disown g st mg) (\<lambda>mg. Inr (mg, True))
        else if reFreeNeeded then res_bind (disown g st mg) (\<lambda>mg. Inr (mg, False))
        else Inr (mg, False))"

definition group_dequeued :: "group_message \<Rightarrow> MessageGroupManager \<Rightarrow> (MessageGroupManager \<times> bool) result" where
  "group_dequeued m mg =
    (let (g, mg) = findGroup m mg in
     res_bind (deref g mg) (\<lambda>st.
     res_bind (findMsg (gm_sequence m) st) (\<lambda>i.
     throw_if (snd (gs_members st ! i) \<and> gs_acquired st = 0) AssertionFailed
     (let st = (if snd (gs_members st ! i) then st \<lparr> gs_acquired := gs_acquired st - 1 \<rparr> else st);
          reFreeNeeded = (i = 0 \<and> \<not> owned st)
      in res_bind (if reFreeNeeded then unFree g st mg else Inr mg) (remove_member g i reFreeNeeded st)))))"

text \<open>\<open>acquire\<close>, for a message that is available or not.\<close>

definition group_acquire :: "string \<Rightarrow> bool \<Rightarrow> group_message \<Rightarrow> MessageGroupManager \<Rightarrow> (bool \<times> MessageGroupManager) result" where
  "group_acquire consumer available m mg =
    (if available then
       let (g, mg) = findGroup m mg in
       res_bind (deref g mg) (\<lambda>st.
       res_bind (if \<not> owned st then own g st consumer mg else Inr mg) (\<lambda>mg.
       res_bind (deref g mg) (\<lambda>st. Inr (gs_owner st = consumer, mg))))
     else Inr (False, mg))"

text \<open>How the queue acquires a message: it asks the distributor and tells its observers.\<close>

definition group_take :: "string \<Rightarrow> bool \<Rightarrow> group_message \<Rightarrow> MessageGroupManager \<Rightarrow> (bool \<times> MessageGroupManager) result" where
  "group_take consumer available m mg =
    res_bind (group_acquire consumer available m mg) (\<lambda>(b, mg).
    if b then res_bind (group_acquired m mg) (\<lambda>mg. Inr (True, mg)) else Inr (False, mg))"

section \<open>What the manager knows of the queue\<close>

text \<open>
  The queue, as the manager should see it: its messages in order, with their groups and with the
  consumers that hold them. Everything that the manager keeps of a group is a function of the messages
  of that group.
\<close>

record queued =
  qd_sequence :: SequenceNumber
  qd_group :: string
  qd_holder :: "string option"

definition grp :: "queued list \<Rightarrow> string \<Rightarrow> queued list" where
  "grp Q g = filter (\<lambda>x. qd_group x = g) Q"

definition held :: "queued list \<Rightarrow> queued list" where
  "held xs = filter (\<lambda>x. qd_holder x \<noteq> None) xs"

definition owner_of :: "queued list \<Rightarrow> string" where
  "owner_of xs = (case held xs of [] \<Rightarrow> [] | x # _ \<Rightarrow> the (qd_holder x))"

definition state_of :: "string \<Rightarrow> queued list \<Rightarrow> GroupState" where
  "state_of g xs = \<lparr> gs_group = g, gs_owner = owner_of xs, gs_acquired = of_nat (length (held xs)),
     gs_members = map (\<lambda>x. (qd_sequence x, qd_holder x \<noteq> None)) xs \<rparr>"

definition free_at :: "queued list \<Rightarrow> SequenceNumber option" where
  "free_at xs = (if held xs = [] \<and> xs \<noteq> [] then Some (qd_sequence (hd xs)) else None)"

definition inverse_of :: "('a \<rightharpoonup> 'b) \<Rightarrow> ('b \<rightharpoonup> 'a) \<Rightarrow> bool" where
  "inverse_of F f \<longleftrightarrow> (\<forall>p g. F p = Some g \<longleftrightarrow> f g = Some p)"

definition follows :: "SequenceNumber \<Rightarrow> SequenceNumber \<Rightarrow> bool" where
  "follows p n \<longleftrightarrow> SequenceNumber_less p n \<and> \<not> SequenceNumber_less n p"

text \<open>One consumer for each group.\<close>

definition shared_by_one :: "queued list \<Rightarrow> bool" where
  "shared_by_one xs \<longleftrightarrow> (\<forall>x\<in>set (held xs). qd_holder x = Some (owner_of xs) \<and> owner_of xs \<noteq> [])"

definition groups_inv :: "MessageGroupManager \<Rightarrow> queued list \<Rightarrow> bool" where
  "groups_inv mg Q \<longleftrightarrow>
     mg_groups mg = (\<lambda>g. if grp Q g = [] then None else Some (state_of g (grp Q g))) \<and>
     inverse_of (mg_free mg) (\<lambda>g. free_at (grp Q g)) \<and>
     sorted_wrt follows (map qd_sequence Q) \<and> length Q < 2 ^ 31 \<and> (\<forall>g. shared_by_one (grp Q g)) \<and>
     (\<forall>g. mg_cached mg = Some g \<longrightarrow> mg_lastGroup mg = g \<and> grp Q g \<noteq> [] \<and> (\<forall>x\<in>set Q. qd_sequence x = mg_lastMsg mg \<longrightarrow> qd_group x = g))"

lemma held_list_simps [simp]: "held [] = []" "held (xs @ ys) = held xs @ held ys" "held (x # xs) = (if qd_holder x = None then held xs else x # held xs)"
  by (simp_all add: held_def)

lemma grp_simps [simp]: "grp [] g = []" "grp (xs @ ys) g = grp xs g @ grp ys g" "grp (x # xs) g = (if qd_group x = g then x # grp xs g else grp xs g)"
  by (simp_all add: grp_def)

lemma set_grp: "x \<in> set (grp Q g) \<longleftrightarrow> x \<in> set Q \<and> qd_group x = g"
  by (auto simp: grp_def)

lemma length_grp: "length (grp Q g) \<le> length Q" "length (held xs) \<le> length xs"
  by (simp_all add: grp_def held_def)

lemma inverse_of_drop: "inverse_of F f \<Longrightarrow> f g = Some p \<Longrightarrow> inverse_of (F(p := None)) (f(g := None))"
  unfolding inverse_of_def by (metis fun_upd_apply option.distinct(1) option.inject)

lemma inverse_of_add:
  assumes "inverse_of F f" "f g = None" "F p = None"
  shows "inverse_of (F(p \<mapsto> g)) (f(g \<mapsto> p))"
proof -
  have "(F(p \<mapsto> g)) q = Some h \<longleftrightarrow> (f(g \<mapsto> p)) h = Some q" for q h
    using assms(2,3) assms(1) [unfolded inverse_of_def, rule_format, of q h] by (cases "q = p"; cases "h = g") auto
  then show ?thesis
    by (simp add: inverse_of_def)
qed

lemma state_of_sel [simp]:
  "gs_group (state_of g xs) = g" "gs_owner (state_of g xs) = owner_of xs" "gs_acquired (state_of g xs) = of_nat (length (held xs))"
  "gs_members (state_of g xs) = map (\<lambda>x. (qd_sequence x, qd_holder x \<noteq> None)) xs"
  by (simp_all add: state_of_def)

text \<open>Finding the group of a message, and the message in it.\<close>

definition located :: "SequenceNumber \<Rightarrow> string \<Rightarrow> GroupState \<Rightarrow> MessageGroupManager \<Rightarrow> MessageGroupManager" where
  "located n g st mg = mg \<lparr> mg_lastMsg := n, mg_lastGroup := g, mg_cached := Some g, mg_groups := (mg_groups mg)(g \<mapsto> st) \<rparr>"

lemma findGroup_located:
  assumes inv: "groups_inv mg Q" and g: "group_of (mg_default mg) m = g"
    and m: "(\<exists>x\<in>set Q. qd_sequence x = gm_sequence m \<and> qd_group x = g) \<or> mg_cached mg = None \<or> mg_lastMsg mg \<noteq> gm_sequence m"
  shows "findGroup m mg = (g, located (gm_sequence m) g (state_of g (grp Q g)) mg)"
proof -
  have st: "(case mg_groups mg g of None \<Rightarrow> GroupState_init | Some st \<Rightarrow> st) = (if grp Q g = [] then GroupState_init else state_of g (grp Q g))"
    using inv by (simp add: groups_inv_def)
  have empty: "GroupState_init \<lparr> gs_group := g \<rparr> = state_of g []"
    by (simp add: GroupState_init_def state_of_def owner_of_def)
  have look: "lookup_group g m mg = (g, located (gm_sequence m) g (state_of g (grp Q g)) mg)"
    unfolding lookup_group_def st using empty
    by (cases "grp Q g = []") (auto simp: Let_def located_def store_group_def GroupState_init_def state_of_def)
  have same: "(mg_groups mg)(g \<mapsto> state_of g (grp Q g)) = mg_groups mg" if "grp Q g \<noteq> []"
    using inv that by (auto simp: groups_inv_def)
  show ?thesis
  proof (cases "mg_cached mg")
    case (Some h)
    then have h: "mg_lastGroup mg = h" "grp Q h \<noteq> []" "\<forall>x\<in>set Q. qd_sequence x = mg_lastMsg mg \<longrightarrow> qd_group x = h"
      using inv by (auto simp: groups_inv_def)
    show ?thesis
    proof (cases "mg_lastMsg mg = gm_sequence m")
      case True
      then have "g = h"
        using m h(3) Some by auto
      then show ?thesis
        using True Some h same by (auto simp: findGroup_def located_def Let_def)
    next
      case False
      then show ?thesis
        using Some h g look same by (auto simp: findGroup_def Let_def located_def)
    qed
  qed (use look g in \<open>simp add: findGroup_def Let_def\<close>)
qed

lemma findMsg_found:
  assumes "sorted_wrt follows (map qd_sequence (us @ x # vs))" "gs_members st = map (\<lambda>x. (qd_sequence x, qd_holder x \<noteq> None)) (us @ x # vs)"
  shows "findMsg (qd_sequence x) st = Inr (length us)"
proof -
  have "\<forall>y\<in>set us. SequenceNumber_less (qd_sequence y) (qd_sequence x)" "\<not> SequenceNumber_less (qd_sequence x) (qd_sequence x)"
    using assms(1) by (auto simp: sorted_wrt_append follows_def SequenceNumber_less_def)
  then have "takeWhile (\<lambda>m. SequenceNumber_less (fst m) (qd_sequence x)) (gs_members st) = map (\<lambda>x. (qd_sequence x, qd_holder x \<noteq> None)) us"
    using assms(2) by (simp add: takeWhile_append)
  then show ?thesis
    using assms(2) by (simp add: findMsg_def Let_def nth_append)
qed

text \<open>The part of the invariant that an operation on one group changes.\<close>

lemma groups_invD:
  assumes "groups_inv mg Q"
  shows "mg_groups mg g = (if grp Q g = [] then None else Some (state_of g (grp Q g)))"
    "inverse_of (mg_free mg) (\<lambda>g. free_at (grp Q g))" "sorted_wrt follows (map qd_sequence Q)" "length Q < 2 ^ 31" "shared_by_one (grp Q g)"
  using assms by (simp_all add: groups_inv_def)

lemma groups_inv_change:
  assumes inv: "groups_inv mg Q" and same: "\<forall>h. h \<noteq> g \<longrightarrow> grp Q' h = grp Q h"
    and sorted: "sorted_wrt follows (map qd_sequence Q')" "length Q' < 2 ^ 31" "shared_by_one (grp Q' g)"
    and groups: "mg_groups mg' = (mg_groups mg)(g := if grp Q' g = [] then None else Some (state_of g (grp Q' g)))"
    and free: "inverse_of (mg_free mg') ((\<lambda>h. free_at (grp Q h))(g := free_at (grp Q' g)))"
    and cache: "\<forall>h. mg_cached mg' = Some h \<longrightarrow> mg_lastGroup mg' = h \<and> grp Q' h \<noteq> [] \<and> (\<forall>x\<in>set Q'. qd_sequence x = mg_lastMsg mg' \<longrightarrow> qd_group x = h)"
  shows "groups_inv mg' Q'"
proof -
  have f: "(\<lambda>h. free_at (grp Q h))(g := free_at (grp Q' g)) = (\<lambda>h. free_at (grp Q' h))"
    using same by auto
  have "mg_groups mg' h = (if grp Q' h = [] then None else Some (state_of h (grp Q' h)))" for h
    using groups same groups_invD(1) [OF inv, of h] by auto
  moreover have "shared_by_one (grp Q' h)" for h
    using same sorted(3) groups_invD(5) [OF inv, of h] by (cases "h = g") auto
  ultimately show ?thesis
    using sorted cache free [unfolded f] by (auto simp: groups_inv_def)
qed

lemma follows_distinct: "sorted_wrt follows (map qd_sequence Q) \<Longrightarrow> distinct (map qd_sequence Q)"
  by (induction Q) (auto simp: follows_def SequenceNumber_less_def)

text \<open>A message on the queue, with its group around it.\<close>

lemma around:
  assumes "groups_inv mg (A @ x # B)"
  shows "grp (A @ y # B) (qd_group x) = (if qd_group y = qd_group x then grp A (qd_group x) @ y # grp B (qd_group x) else grp A (qd_group x) @ grp B (qd_group x))"
    "sorted_wrt follows (map qd_sequence (grp A g @ x # grp B g))"
    "\<forall>z\<in>set A \<union> set B. qd_sequence z \<noteq> qd_sequence x"
proof -
  note s = groups_invD(3) [OF assms]
  show "sorted_wrt follows (map qd_sequence (grp A g @ x # grp B g))"
    using s by (auto simp: sorted_wrt_append sorted_wrt_map grp_def intro: sorted_wrt_filter)
  show "\<forall>z\<in>set A \<union> set B. qd_sequence z \<noteq> qd_sequence x"
    using follows_distinct [OF s] by (simp add: image_iff) (metis Un_iff)
qed simp

lemma located_inv:
  assumes inv: "groups_inv mg Q" and x: "x \<in> set Q"
  shows "groups_inv (located (qd_sequence x) (qd_group x) (state_of (qd_group x) (grp Q (qd_group x))) mg) Q"
proof (rule groups_inv_change [OF inv, of "qd_group x"])
  have ne: "grp Q (qd_group x) \<noteq> []"
    using x by (force simp: grp_def filter_empty_conv)
  show "mg_groups (located (qd_sequence x) (qd_group x) (state_of (qd_group x) (grp Q (qd_group x))) mg) =
      (mg_groups mg)(qd_group x := if grp Q (qd_group x) = [] then None else Some (state_of (qd_group x) (grp Q (qd_group x))))"
    using ne by (simp add: located_def)
  have "distinct (map qd_sequence Q)"
    by (rule follows_distinct [OF groups_invD(3) [OF inv]])
  then have "\<forall>y\<in>set Q. qd_sequence y = qd_sequence x \<longrightarrow> y = x"
    using x by (auto simp: distinct_map inj_on_def)
  then show "\<forall>h. mg_cached (located (qd_sequence x) (qd_group x) (state_of (qd_group x) (grp Q (qd_group x))) mg) = Some h \<longrightarrow>
      mg_lastGroup (located (qd_sequence x) (qd_group x) (state_of (qd_group x) (grp Q (qd_group x))) mg) = h \<and> grp Q h \<noteq> [] \<and>
      (\<forall>y\<in>set Q. qd_sequence y = mg_lastMsg (located (qd_sequence x) (qd_group x) (state_of (qd_group x) (grp Q (qd_group x))) mg) \<longrightarrow> qd_group y = h)"
    using ne by (auto simp: located_def)
  show "inverse_of (mg_free (located (qd_sequence x) (qd_group x) (state_of (qd_group x) (grp Q (qd_group x))) mg))
      ((\<lambda>h. free_at (grp Q h))(qd_group x := free_at (grp Q (qd_group x))))"
    using groups_invD(2) [OF inv] by (simp add: located_def fun_upd_idem)
qed (use groups_invD [OF inv] in auto)

section \<open>The operations keep it\<close>

lemma count_word:
  assumes "n < 2 ^ 31"
  shows "of_nat n = (0 :: 32 word) \<longleftrightarrow> n = 0" "of_nat n = (1 :: 32 word) \<longleftrightarrow> n = 1"
proof -
  have "unat (of_nat n :: 32 word) = n"
    using assms by (simp add: unsigned_of_nat take_bit_nat_eq_self)
  then show "of_nat n = (0 :: 32 word) \<longleftrightarrow> n = 0" "of_nat n = (1 :: 32 word) \<longleftrightarrow> n = 1"
    by (auto simp: word_unat_eq_iff)
qed

lemma count_step:
  assumes "Suc n < 2 ^ 31"
  shows "of_nat (Suc n) \<noteq> (0 :: 32 word)" "of_nat (Suc n) - 1 = (of_nat n :: 32 word)" "of_nat n = (0 :: 32 word) \<longleftrightarrow> n = 0"
  using count_word(1) [OF assms] count_word(1) [of n] assms by (simp_all del: of_nat_Suc) simp

lemma free_none:
  assumes inv: "groups_inv mg Q" and x: "x \<in> set Q" and F: "inverse_of F ((\<lambda>h. free_at (grp Q h))(qd_group x := None))"
  shows "F (qd_sequence x) = None"
proof (rule ccontr)
  assume "F (qd_sequence x) \<noteq> None"
  then obtain h where ne: "h \<noteq> qd_group x" and "free_at (grp Q h) = Some (qd_sequence x)"
    using F by (auto simp: inverse_of_def split: if_splits)
  then have h: "grp Q h \<noteq> []" "qd_sequence (hd (grp Q h)) = qd_sequence x"
    by (auto simp: free_at_def split: if_splits)
  then have "hd (grp Q h) \<in> set Q" "qd_group (hd (grp Q h)) = h"
    using hd_in_set [OF h(1)] by (auto simp: set_grp)
  then have "h = qd_group x"
    using follows_distinct [OF groups_invD(3) [OF inv]] x h(2) by (auto simp: distinct_map inj_on_def)
  with ne show False ..
qed

lemma not_free_idem: "free_at (grp Q g) = None \<Longrightarrow> (\<lambda>h. free_at (grp Q h))(g := None) = (\<lambda>h. free_at (grp Q h))"
  by (simp add: fun_upd_idem)

lemma enqueued_inv:
  assumes inv: "groups_inv mg Q" and new: "\<forall>x\<in>set Q. follows (qd_sequence x) (gm_sequence m)" "length Q + 1 < 2 ^ 31"
    "mg_cached mg = None \<or> mg_lastMsg mg \<noteq> gm_sequence m" and g: "group_of (mg_default mg) m = g"
  shows "\<exists>mg'. group_enqueued m mg = Inr mg' \<and> mg_default mg' = mg_default mg \<and> mg_lastMsg mg' = gm_sequence m \<and>
    groups_inv mg' (Q @ [\<lparr> qd_sequence = gm_sequence m, qd_group = g, qd_holder = None \<rparr>])"
proof -
  let ?x = "\<lparr> qd_sequence = gm_sequence m, qd_group = g, qd_holder = None \<rparr>" and ?xs = "grp Q g" and ?n = "gm_sequence m"
  let ?mg = "located ?n g (state_of g ?xs) mg"
  have f: "findGroup m mg = (g, ?mg)"
    using findGroup_located [OF inv g] new(3) by blast
  have free: "mg_free mg ?n = None"
  proof (rule ccontr)
    assume "mg_free mg ?n \<noteq> None"
    then obtain h where h: "free_at (grp Q h) = Some ?n"
      using groups_invD(2) [OF inv] by (auto simp: inverse_of_def)
    then have ne: "grp Q h \<noteq> []" "qd_sequence (hd (grp Q h)) = ?n"
      by (auto simp: free_at_def split: if_splits)
    then have "hd (grp Q h) \<in> set Q"
      using hd_in_set [OF ne(1)] by (auto simp: set_grp)
    then show False
      using new(1) ne(2) by (force simp: follows_def SequenceNumber_less_def)
  qed
  have len: "of_nat (Suc (length ?xs)) = (1 :: 32 word) \<longleftrightarrow> ?xs = []"
  proof -
    have "Suc (length ?xs) < 2 ^ 31"
      using length_grp(1) [of Q g] new(2) by simp
    then show ?thesis
      using count_word(2) [of "Suc (length ?xs)"] by (simp del: of_nat_Suc)
  qed
  let ?st = "state_of g (?xs @ [?x])"
  have st: "state_of g ?xs \<lparr> gs_members := gs_members (state_of g ?xs) @ [(?n, False)] \<rparr> = ?st"
    by (simp add: state_of_def owner_of_def)
  define mg' where "mg' = (store_group g ?st ?mg) \<lparr> mg_free := if ?xs = [] then (mg_free mg)(?n \<mapsto> g) else mg_free mg \<rparr>"
  have run: "group_enqueued m mg = Inr mg'"
    using f free len st by (auto simp: group_enqueued_def deref_def Let_def located_def store_group_def mg'_def state_of_def simp del: of_nat_Suc)
  have "groups_inv mg' (Q @ [?x])"
  proof (rule groups_inv_change [OF inv, of g])
    show "sorted_wrt follows (map qd_sequence (Q @ [?x]))"
      using groups_invD(3) [OF inv] new(1) by (auto simp: sorted_wrt_append)
    show "shared_by_one (grp (Q @ [?x]) g)"
      using groups_invD(5) [OF inv, of g] by (simp add: shared_by_one_def owner_of_def)
    have "free_at (?xs @ [?x]) = (if ?xs = [] then Some ?n else free_at ?xs)"
      by (auto simp: free_at_def hd_append)
    then show "inverse_of (mg_free mg') ((\<lambda>h. free_at (grp Q h))(g := free_at (grp (Q @ [?x]) g)))"
      using groups_invD(2) [OF inv] inverse_of_add [OF groups_invD(2) [OF inv], of g ?n] free
      by (auto simp: mg'_def free_at_def fun_upd_idem)
    show "\<forall>h. mg_cached mg' = Some h \<longrightarrow> mg_lastGroup mg' = h \<and> grp (Q @ [?x]) h \<noteq> [] \<and> (\<forall>x\<in>set (Q @ [?x]). qd_sequence x = mg_lastMsg mg' \<longrightarrow> qd_group x = h)"
      using new(1) by (auto simp: mg'_def located_def store_group_def follows_def SequenceNumber_less_def)
  qed (use new(2) in \<open>auto simp: mg'_def located_def store_group_def\<close>)
  then show ?thesis
    using run by (simp add: mg'_def located_def store_group_def)
qed

text \<open>The other events are for a message \<open>x\<close> on the queue, between \<open>A\<close> and \<open>B\<close>.\<close>

lemma at_message:
  assumes inv: "groups_inv mg (A @ x # B)" and m: "gm_sequence m = qd_sequence x" "group_of (mg_default mg) m = qd_group x"
  shows "findGroup m mg = (qd_group x, located (qd_sequence x) (qd_group x) (state_of (qd_group x) (grp A (qd_group x) @ x # grp B (qd_group x))) mg)"
    "gs_members st = map (\<lambda>x. (qd_sequence x, qd_holder x \<noteq> None)) (grp A (qd_group x) @ x # grp B (qd_group x)) \<Longrightarrow>
      findMsg (gm_sequence m) st = Inr (length (grp A (qd_group x)))"
    "mg_cached mg = Some (qd_group x) \<Longrightarrow> mg_lastMsg mg = qd_sequence x \<Longrightarrow> findGroup m mg = (qd_group x, mg)"
proof -
  have "\<exists>y\<in>set (A @ x # B). qd_sequence y = gm_sequence m \<and> qd_group y = qd_group x"
    using m(1) by simp
  then show "findGroup m mg = (qd_group x, located (qd_sequence x) (qd_group x) (state_of (qd_group x) (grp A (qd_group x) @ x # grp B (qd_group x))) mg)"
    using findGroup_located [OF inv m(2)] m(1) by simp
  show "findMsg (gm_sequence m) st = Inr (length (grp A (qd_group x)))"
    if "gs_members st = map (\<lambda>x. (qd_sequence x, qd_holder x \<noteq> None)) (grp A (qd_group x) @ x # grp B (qd_group x))"
    unfolding m(1) by (rule findMsg_found [OF around(2) [OF inv] that])
  show "mg_cached mg = Some (qd_group x) \<Longrightarrow> mg_lastMsg mg = qd_sequence x \<Longrightarrow> findGroup m mg = (qd_group x, mg)"
    using m(1) by (simp add: findGroup_def)
qed

lemma replaced_inv:
  assumes inv: "groups_inv mg (A @ x # B)" and y: "qd_sequence y = qd_sequence x" "qd_group y = qd_group x"
    and one: "shared_by_one (grp A (qd_group x) @ y # grp B (qd_group x))"
    and free: "inverse_of F ((\<lambda>h. free_at (grp (A @ x # B) h))(qd_group x := free_at (grp A (qd_group x) @ y # grp B (qd_group x))))"
  shows "groups_inv (mg \<lparr> mg_lastMsg := qd_sequence x, mg_lastGroup := qd_group x, mg_cached := Some (qd_group x),
      mg_groups := (mg_groups mg)(qd_group x \<mapsto> state_of (qd_group x) (grp A (qd_group x) @ y # grp B (qd_group x))), mg_free := F \<rparr>) (A @ y # B)"
proof (rule groups_inv_change [OF inv, of "qd_group x"])
  show "sorted_wrt follows (map qd_sequence (A @ y # B))" "length (A @ y # B) < 2 ^ 31"
    using groups_invD(3,4) [OF inv] y(1) by simp_all
qed (use y one free around(3) [OF inv] in auto)

lemma owner_shared:
  assumes "shared_by_one xs"
  shows "owner_of xs = [] \<longleftrightarrow> held xs = []" "x \<in> set (held xs) \<Longrightarrow> qd_holder x = Some (owner_of xs)"
proof -
  show "owner_of xs = [] \<longleftrightarrow> held xs = []"
    using assms by (cases "held xs") (simp add: owner_of_def, simp add: shared_by_one_def)
  show "x \<in> set (held xs) \<Longrightarrow> qd_holder x = Some (owner_of xs)"
    using assms unfolding shared_by_one_def by blast
qed

lemma shared_by_oneI:
  assumes "\<forall>x\<in>set (held xs). qd_holder x = Some c" "c \<noteq> []"
  shows "shared_by_one xs" "held xs \<noteq> [] \<Longrightarrow> owner_of xs = c"
proof -
  show o: "owner_of xs = c" if "held xs \<noteq> []"
    using assms(1) that by (cases "held xs") (simp_all add: owner_of_def)
  show "shared_by_one xs"
    using assms o unfolding shared_by_one_def by (cases "held xs = []") simp_all
qed

lemma take_inv:
  assumes inv: "groups_inv mg (A @ x # B)" and m: "gm_sequence m = qd_sequence x" "group_of (mg_default mg) m = qd_group x" and c: "c \<noteq> []"
  defines "ok \<equiv> qd_holder x = None \<and> (\<forall>y\<in>set (A @ B). qd_group y = qd_group x \<longrightarrow> qd_holder y \<in> {None, Some c})"
  shows "\<exists>mg'. group_take c (qd_holder x = None) m mg = Inr (ok, mg') \<and> mg_default mg' = mg_default mg \<and> (mg' = mg \<or> mg_lastMsg mg' = qd_sequence x) \<and>
    groups_inv mg' (A @ (if ok then x \<lparr> qd_holder := Some c \<rparr> else x) # B)"
proof (cases "qd_holder x")
  case None
  let ?g = "qd_group x" and ?y = "x \<lparr> qd_holder := Some c \<rparr>"
  let ?us = "grp A ?g" and ?vs = "grp B ?g"
  let ?xs = "?us @ x # ?vs" and ?ys = "?us @ ?y # ?vs"
  let ?mg = "located (qd_sequence x) ?g (state_of ?g ?xs) mg"
  note f = at_message [OF inv m]
  have sh: "shared_by_one ?xs"
    using groups_invD(5) [OF inv, of ?g] by simp
  have heldx: "held ?xs = held ?us @ held ?vs" "held ?ys = held ?us @ ?y # held ?vs"
    using None by simp_all
  have "set (held ?xs) = {y \<in> set (A @ B). qd_group y = ?g \<and> qd_holder y \<noteq> None}"
    unfolding heldx by (auto simp: held_def grp_def)
  then have ok: "ok \<longleftrightarrow> (\<forall>y\<in>set (held ?xs). qd_holder y = Some c)"
    unfolding ok_def using None by blast
  have ok': "ok \<longleftrightarrow> held ?xs = [] \<or> owner_of ?xs = c"
    unfolding ok using owner_shared(2) [OF sh] by (metis all_not_in_conv option.inject set_empty)
  have hys: "set (held ?ys) = insert ?y (set (held ?xs))"
    unfolding heldx by auto
  have all: "\<forall>y\<in>set (held ?ys). qd_holder y = Some c" if ok
  proof -
    have "qd_holder ?y = Some c"
      by simp
    then show ?thesis
      unfolding hys using ok that by blast
  qed
  have acq: "group_acquired m (?mg \<lparr> mg_groups := (mg_groups mg)(?g \<mapsto> (state_of ?g ?xs) \<lparr> gs_owner := c \<rparr>), mg_free := F \<rparr>) =
      Inr (?mg \<lparr> mg_groups := (mg_groups mg)(?g \<mapsto> state_of ?g ?ys), mg_free := F \<rparr>)" if ok for F
  proof -
    let ?st = "(state_of ?g ?xs) \<lparr> gs_owner := c \<rparr>"
    have m': "findMsg (gm_sequence m) ?st = Inr (length ?us)"
      by (rule f(2)) (simp add: state_of_def)
    have "owner_of ?ys = c"
      using all [OF that] c by (rule shared_by_oneI(2)) simp
    then have "?st \<lparr> gs_members := (gs_members ?st)[length ?us := (fst (gs_members ?st ! length ?us), True)], gs_acquired := gs_acquired ?st + 1 \<rparr> = state_of ?g ?ys"
      using None by (simp add: state_of_def nth_append list_update_append)
    then show ?thesis
      using m' m(1) by (simp add: group_acquired_def findGroup_def located_def deref_def store_group_def Let_def)
  qed
  have fin: "groups_inv (?mg \<lparr> mg_groups := (mg_groups mg)(?g \<mapsto> state_of ?g ?ys), mg_free := F \<rparr>) (A @ ?y # B)"
    if ok "inverse_of F ((\<lambda>h. free_at (grp (A @ x # B) h))(?g := None))" for F
  proof -
    have "free_at ?ys = None"
      by (simp add: free_at_def)
    moreover note shared_by_oneI(1) [OF all [OF that(1)] c]
    ultimately have "groups_inv (mg \<lparr> mg_lastMsg := qd_sequence x, mg_lastGroup := ?g, mg_cached := Some ?g,
        mg_groups := (mg_groups mg)(?g \<mapsto> state_of ?g ?ys), mg_free := F \<rparr>) (A @ ?y # B)"
      using that(2) by (intro replaced_inv [OF inv]) simp_all
    then show ?thesis
      by (simp add: located_def)
  qed
  show ?thesis
  proof (cases "held ?xs = []")
    case True
    let ?p = "qd_sequence (hd ?xs)"
    have fr: "free_at (grp (A @ x # B) ?g) = Some ?p"
      using True by (simp add: free_at_def)
    then have F: "mg_free mg ?p = Some ?g"
      using groups_invD(2) [OF inv] by (simp add: inverse_of_def)
    have hd: "\<exists>b ms. gs_members (state_of ?g ?xs) = (?p, b) # ms"
      by (cases ?us) (auto simp: state_of_def)
    have "owner_of ?xs = []"
      using True owner_shared(1) [OF sh] by blast
    then have "group_acquire c True m mg = Inr (True, ?mg \<lparr> mg_groups := (mg_groups mg)(?g \<mapsto> (state_of ?g ?xs) \<lparr> gs_owner := c \<rparr>), mg_free := (mg_free mg)(?p := None) \<rparr>)"
      using f(1) F hd
      by (auto simp: group_acquire_def deref_def located_def owned_def own_def unFree_def store_group_def Let_def simp del: state_of_sel(4))
    then show ?thesis
      using acq fin [of "(mg_free mg)(?p := None)"] inverse_of_drop [OF groups_invD(2) [OF inv] fr] ok' True None
      by (auto simp: group_take_def located_def)
  next
    case False
    have "owner_of ?xs \<noteq> []"
      using False owner_shared(1) [OF sh] by blast
    then have own: "group_acquire c True m mg = Inr (owner_of ?xs = c, ?mg)"
      using f(1) by (simp add: group_acquire_def deref_def located_def owned_def Let_def)
    show ?thesis
    proof (cases ok)
      case True
      have "free_at (grp (A @ x # B) ?g) = None"
        using False by (simp add: free_at_def)
      then have "inverse_of (mg_free mg) ((\<lambda>h. free_at (grp (A @ x # B) h))(?g := None))"
        using groups_invD(2) [OF inv] by (simp add: fun_upd_idem)
      note fin = fin [OF True this]
      have oc: "owner_of ?xs = c"
        using True ok' False by blast
      then have "(state_of ?g ?xs) \<lparr> gs_owner := c \<rparr> = state_of ?g ?xs"
        by (simp add: state_of_def)
      then have "group_acquired m ?mg = Inr (?mg \<lparr> mg_groups := (mg_groups mg)(?g \<mapsto> state_of ?g ?ys), mg_free := mg_free mg \<rparr>)"
        using acq [OF True, of "mg_free mg"] by (simp add: located_def)
      then show ?thesis
        using own oc True fin None by (simp add: group_take_def located_def)
    next
      case False
      then show ?thesis
        using own ok' None located_inv [OF inv, of x] by (auto simp: group_take_def located_def)
    qed
  qed
qed (use inv in \<open>auto simp: group_take_def group_acquire_def ok_def\<close>)

text \<open>Giving a group up: the owner is forgotten and the group is free at its first message.\<close>

lemma disown_run:
  assumes "ys \<noteq> []" "held ys = []" "gs_group st = g" "gs_acquired st = 0" "gs_members st = gs_members (state_of g ys)"
    and "mg_free mg (qd_sequence (hd ys)) = None"
  shows "disown g st mg = Inr (mg \<lparr> mg_groups := (mg_groups mg)(g \<mapsto> state_of g ys), mg_free := (mg_free mg)(qd_sequence (hd ys) \<mapsto> g) \<rparr>)"
proof -
  have "st \<lparr> gs_owner := [] \<rparr> = state_of g ys"
    using assms(2-5) by (cases st) (simp add: state_of_def owner_of_def)
  then show ?thesis
    using assms(1,6) by (cases ys) (simp_all add: disown_def store_group_def Let_def)
qed

lemma owner_kept:
  assumes "shared_by_one xs" "set (held ys) \<subseteq> set (held xs)"
  shows "shared_by_one ys" "held ys \<noteq> [] \<Longrightarrow> owner_of ys = owner_of xs"
proof -
  have "\<forall>y\<in>set (held ys). qd_holder y = Some (owner_of xs)"
    using assms owner_shared(2) [OF assms(1)] by blast
  moreover have "held ys \<noteq> [] \<Longrightarrow> owner_of xs \<noteq> []"
    using assms(2) owner_shared(1) [OF assms(1)] by (metis set_empty subset_empty)
  ultimately show "shared_by_one ys" "held ys \<noteq> [] \<Longrightarrow> owner_of ys = owner_of xs"
    using shared_by_oneI [of ys "owner_of xs"] by (cases "held ys = []"; simp add: shared_by_one_def)+
qed

lemma requeued_run:
  assumes "findGroup m mg = (g, mg1)" "mg_groups mg1 g = Some st0" "gs_acquired st0 \<noteq> 0" "gs_acquired st0 - 1 = k" "gs_owner st0 \<noteq> []"
    and "findMsg (gm_sequence m) (st0 \<lparr> gs_acquired := k \<rparr>) = Inr i"
    and "st0 \<lparr> gs_acquired := k, gs_members := (gs_members st0)[i := (fst (gs_members st0 ! i), False)] \<rparr> = st"
  shows "group_requeued m mg = (if k = 0 then disown g st (store_group g st mg1) else Inr (store_group g st mg1))"
  unfolding assms(7) [symmetric] assms(4) [symmetric] using assms(1-3,5) assms(6) [folded assms(4)]
  by (simp add: group_requeued_def deref_def owned_def Let_def)

lemma requeued_inv:
  assumes inv: "groups_inv mg (A @ x # B)" and m: "gm_sequence m = qd_sequence x" "group_of (mg_default mg) m = qd_group x" and x: "qd_holder x = Some d"
  shows "\<exists>mg'. group_requeued m mg = Inr mg' \<and> mg_default mg' = mg_default mg \<and> mg_lastMsg mg' = qd_sequence x \<and> groups_inv mg' (A @ x \<lparr> qd_holder := None \<rparr> # B)"
proof -
  let ?g = "qd_group x" and ?y = "x \<lparr> qd_holder := None \<rparr>"
  let ?us = "grp A ?g" and ?vs = "grp B ?g"
  let ?xs = "?us @ x # ?vs" and ?ys = "?us @ ?y # ?vs"
  let ?mg = "located (qd_sequence x) ?g (state_of ?g ?xs) mg"
  note f = at_message [OF inv m]
  have sh: "shared_by_one ?xs"
    using groups_invD(5) [OF inv, of ?g] by simp
  have sub: "set (held ?ys) \<subseteq> set (held ?xs)" and len: "length (held ?xs) = Suc (length (held ?ys))" and ne: "held ?xs \<noteq> []"
    using x by auto
  have owner: "owner_of ?xs \<noteq> []"
    using ne owner_shared(1) [OF sh] by blast
  have small: "length (held ?xs) < 2 ^ 31"
    using length_grp(1) [of "A @ x # B" ?g] length_grp(2) [of ?xs] groups_invD(4) [OF inv] by simp
  have zero: "of_nat (length (held ?xs)) \<noteq> (0 :: 32 word)" "of_nat (length (held ?xs)) - 1 = (of_nat (length (held ?ys)) :: 32 word)"
    "of_nat (length (held ?ys)) = (0 :: 32 word) \<longleftrightarrow> held ?ys = []"
    using count_step [OF small [unfolded len]] unfolding len by (simp_all del: held_list_simps of_nat_Suc)
  define st where "st = (state_of ?g ?ys) \<lparr> gs_owner := owner_of ?xs \<rparr>"
  have st: "(state_of ?g ?xs) \<lparr> gs_acquired := of_nat (length (held ?ys)), gs_members := (gs_members (state_of ?g ?xs))[length ?us := (fst (gs_members (state_of ?g ?xs) ! length ?us), False)] \<rparr> = st"
    by (simp add: st_def state_of_def nth_append list_update_append)
  have fm: "findMsg (gm_sequence m) (state_of ?g ?xs \<lparr> gs_acquired := n \<rparr>) = Inr (length ?us)" for n
    by (rule f(2)) simp
  have sel: "gs_owner st = owner_of ?xs" "gs_acquired st = of_nat (length (held ?ys))" "gs_group st = ?g" "gs_members st = gs_members (state_of ?g ?ys)"
    by (simp_all add: st_def)
  have run: "group_requeued m mg = (if held ?ys = [] then disown ?g st (?mg \<lparr> mg_groups := (mg_groups mg)(?g \<mapsto> st) \<rparr>)
      else Inr (?mg \<lparr> mg_groups := (mg_groups mg)(?g \<mapsto> st) \<rparr>))"
    using requeued_run [OF f(1) _ _ _ _ fm st] zero owner by (simp add: located_def store_group_def del: held_list_simps)
  have no: "free_at (grp (A @ x # B) ?g) = None"
    using ne by (simp add: free_at_def)
  have F: "inverse_of (mg_free mg) ((\<lambda>h. free_at (grp (A @ x # B) h))(?g := None))"
    unfolding not_free_idem [OF no] by (rule groups_invD(2) [OF inv])
  show ?thesis
  proof (cases "held ?ys = []")
    case True
    let ?p = "qd_sequence (hd ?ys)"
    have p: "\<exists>z\<in>set (A @ x # B). qd_sequence z = ?p \<and> qd_group z = ?g"
      by (cases ?us) (use set_grp [of _ A ?g] in \<open>auto\<close>)
    then have free: "mg_free mg ?p = None"
      using free_none [OF inv] F by metis
    have zero': "gs_acquired st = 0"
      unfolding sel True by simp
    have run': "group_requeued m mg = Inr (?mg \<lparr> mg_groups := (mg_groups mg)(?g \<mapsto> state_of ?g ?ys), mg_free := (mg_free mg)(?p \<mapsto> ?g) \<rparr>)"
      unfolding run using True disown_run [OF _ True sel(3) zero' sel(4), of "?mg \<lparr> mg_groups := (mg_groups mg)(?g \<mapsto> st) \<rparr>"] free
      by (simp add: located_def del: held_list_simps)
    have "free_at ?ys = Some ?p"
      using True by (simp add: free_at_def)
    then have "inverse_of ((mg_free mg)(?p \<mapsto> ?g)) ((\<lambda>h. free_at (grp (A @ x # B) h))(?g := free_at ?ys))"
      using inverse_of_add [OF F, of ?g ?p] free by simp
    note replaced_inv [OF inv, of ?y, OF _ _ owner_kept(1) [OF sh sub] this]
    then show ?thesis
      using run' by (simp add: located_def)
  next
    case False
    have "st = state_of ?g ?ys"
      unfolding st_def using owner_kept(2) [OF sh sub False] by (simp add: state_of_def)
    then have run': "group_requeued m mg = Inr (?mg \<lparr> mg_groups := (mg_groups mg)(?g \<mapsto> state_of ?g ?ys), mg_free := mg_free mg \<rparr>)"
      unfolding run using False by (simp add: located_def del: held_list_simps)
    have "free_at ?ys = None"
      using False by (simp add: free_at_def)
    then have "inverse_of (mg_free mg) ((\<lambda>h. free_at (grp (A @ x # B) h))(?g := free_at ?ys))"
      using F by simp
    note replaced_inv [OF inv, of ?y, OF _ _ owner_kept(1) [OF sh sub] this]
    then show ?thesis
      using run' by (simp add: located_def)
  qed
qed

lemma removed_inv:
  assumes inv: "groups_inv mg (A @ x # B)" and one: "shared_by_one (grp A (qd_group x) @ grp B (qd_group x))"
    and free: "inverse_of F ((\<lambda>h. free_at (grp (A @ x # B) h))(qd_group x := free_at (grp A (qd_group x) @ grp B (qd_group x))))"
    and groups: "gs = (mg_groups mg)(qd_group x := if grp A (qd_group x) @ grp B (qd_group x) = [] then None
        else Some (state_of (qd_group x) (grp A (qd_group x) @ grp B (qd_group x))))"
    and cached: "cached = (if grp A (qd_group x) @ grp B (qd_group x) = [] then None else Some (qd_group x))"
  shows "groups_inv (mg \<lparr> mg_lastMsg := qd_sequence x, mg_lastGroup := qd_group x, mg_cached := cached, mg_groups := gs, mg_free := F \<rparr>) (A @ B)"
proof (rule groups_inv_change [OF inv, of "qd_group x"])
  show "sorted_wrt follows (map qd_sequence (A @ B))" "length (A @ B) < 2 ^ 31"
    using groups_invD(3,4) [OF inv] by (simp_all add: sorted_wrt_append)
qed (use one free groups cached around(3) [OF inv] in \<open>auto split: if_splits\<close>)

lemma dequeued_run:
  assumes "findGroup m mg = (g, mg1)" "mg_groups mg1 g = Some st0" "findMsg (gm_sequence m) st0 = Inr i"
    and "snd (gs_members st0 ! i) \<Longrightarrow> gs_acquired st0 \<noteq> 0"
    and "(if snd (gs_members st0 ! i) then gs_acquired st0 - 1 else gs_acquired st0) = k"
    and free: "(if i = 0 \<and> \<not> owned st0 then unFree g (st0 \<lparr> gs_acquired := k \<rparr>) mg1 else Inr mg1) = Inr mg2"
  shows "group_dequeued m mg = remove_member g i (i = 0 \<and> \<not> owned st0) (st0 \<lparr> gs_acquired := k \<rparr>) mg2"
proof -
  have st: "(if snd (gs_members st0 ! i) then st0 \<lparr> gs_acquired := gs_acquired st0 - 1 \<rparr> else st0) = st0 \<lparr> gs_acquired := k \<rparr>"
    using assms(5) by (cases st0) auto
  have own: "owned (st0 \<lparr> gs_acquired := k \<rparr>) = owned st0"
    by (simp add: owned_def)
  have nf: "\<not> (snd (gs_members st0 ! i) \<and> gs_acquired st0 = 0)"
    using assms(4) by blast
  have "group_dequeued m mg = res_bind (if i = 0 \<and> \<not> owned st0 then unFree g (st0 \<lparr> gs_acquired := k \<rparr>) mg1 else Inr mg1)
      (remove_member g i (i = 0 \<and> \<not> owned st0) (st0 \<lparr> gs_acquired := k \<rparr>))"
    unfolding group_dequeued_def assms(1) Let_def prod.case deref_def assms(2) option.case res_bind_simps assms(3) st own
      throw_if_def if_not_P [OF nf] by (rule refl)
  then show ?thesis
    unfolding free by simp
qed

lemma remove_member_run:
  assumes "gs_members st0 = gs_members (state_of g (us @ x # vs))" "gs_acquired st0 = of_nat (length (held (us @ vs)))" "gs_group st0 = g"
    "gs_owner st0 = owner_of (us @ x # vs)" "shared_by_one (us @ x # vs)" "length (us @ x # vs) < 2 ^ 31" "mg_cached mg = Some g"
  shows "us @ vs = [] \<Longrightarrow> remove_member g (length us) b st0 mg = Inr (mg \<lparr> mg_groups := (mg_groups mg)(g := None), mg_cached := None \<rparr>, False)"
    "us @ vs \<noteq> [] \<Longrightarrow> held (us @ vs) = [] \<Longrightarrow> held (us @ x # vs) \<noteq> [] \<or> b \<Longrightarrow> mg_free mg (qd_sequence (hd (us @ vs))) = None \<Longrightarrow>
      \<exists>r. remove_member g (length us) b st0 mg =
        Inr (mg \<lparr> mg_groups := (mg_groups mg)(g \<mapsto> state_of g (us @ vs)), mg_free := (mg_free mg)(qd_sequence (hd (us @ vs)) \<mapsto> g) \<rparr>, r)"
    "us @ vs \<noteq> [] \<Longrightarrow> held (us @ vs) \<noteq> [] \<or> held (us @ x # vs) = [] \<and> \<not> b \<Longrightarrow> held (us @ vs) \<noteq> [] \<longrightarrow> \<not> b \<Longrightarrow>
      remove_member g (length us) b st0 mg = Inr (mg \<lparr> mg_groups := (mg_groups mg)(g \<mapsto> state_of g (us @ vs)) \<rparr>, False)"
proof -
  let ?ys = "us @ vs" and ?xs = "us @ x # vs"
  define st where "st = st0 \<lparr> gs_members := take (length us) (gs_members st0) @ drop (Suc (length us)) (gs_members st0) \<rparr>"
  have mem: "gs_members st = gs_members (state_of g ?ys)" and sel: "gs_group st = g" "gs_acquired st = of_nat (length (held ?ys))" "gs_owner st = owner_of ?xs"
    using assms(1-4) by (simp_all add: st_def)
  have len: "of_nat (length (gs_members st)) = (0 :: 32 word) \<longleftrightarrow> ?ys = []" "gs_acquired st = 0 \<longleftrightarrow> held ?ys = []"
    using count_word(1) [of "length ?ys"] count_word(1) [of "length (held ?ys)"] length_grp(2) [of ?ys] assms(6) mem sel
    by (simp_all del: held_list_simps of_nat_add)
  have own: "owned st \<longleftrightarrow> held ?xs \<noteq> []"
    unfolding owned_def sel using owner_shared(1) [OF assms(5)] by blast
  have run: "remove_member g (length us) b st0 mg = (if ?ys = [] then Inr (mg \<lparr> mg_groups := (mg_groups mg)(g := None), mg_cached := None \<rparr>, False)
      else if held ?ys = [] \<and> held ?xs \<noteq> [] then res_bind (disown g st (store_group g st mg)) (\<lambda>mg. Inr (mg, True))
      else if b then res_bind (disown g st (store_group g st mg)) (\<lambda>mg. Inr (mg, False)) else Inr (store_group g st mg, False))"
    unfolding remove_member_def Let_def st_def [symmetric] len own using assms(7) sel by (simp add: store_group_def del: held_list_simps append_is_Nil_conv)
  show "?ys = [] \<Longrightarrow> remove_member g (length us) b st0 mg = Inr (mg \<lparr> mg_groups := (mg_groups mg)(g := None), mg_cached := None \<rparr>, False)"
    unfolding run by simp
  show "\<exists>r. remove_member g (length us) b st0 mg =
        Inr (mg \<lparr> mg_groups := (mg_groups mg)(g \<mapsto> state_of g ?ys), mg_free := (mg_free mg)(qd_sequence (hd ?ys) \<mapsto> g) \<rparr>, r)"
    if c: "?ys \<noteq> []" "held ?ys = []" "held ?xs \<noteq> [] \<or> b" "mg_free mg (qd_sequence (hd ?ys)) = None"
    unfolding run using c disown_run [OF c(1,2) sel(1) _ mem, of "store_group g st mg"] len(2)
    by (auto simp: store_group_def simp del: held_list_simps)
  show "remove_member g (length us) b st0 mg = Inr (mg \<lparr> mg_groups := (mg_groups mg)(g \<mapsto> state_of g ?ys) \<rparr>, False)"
    if c: "?ys \<noteq> []" "held ?ys \<noteq> [] \<or> held ?xs = [] \<and> \<not> b" "held ?ys \<noteq> [] \<longrightarrow> \<not> b"
  proof -
    have sub: "set (held ?ys) \<subseteq> set (held ?xs)"
      by auto
    have "owner_of ?ys = owner_of ?xs"
    proof (cases "held ?ys = []")
      case True
      then have "held ?xs = []"
        using c(2) by blast
      then show ?thesis
        using True by (simp add: owner_of_def del: held_list_simps)
    qed (rule owner_kept(2) [OF assms(5) sub])
    then have "st = state_of g ?ys"
      using mem sel by (cases st) (simp add: state_of_def)
    then show ?thesis
      unfolding run using c by (auto simp: store_group_def simp del: held_list_simps)
  qed
qed

lemma dequeued_inv:
  assumes inv: "groups_inv mg (A @ x # B)" and m: "gm_sequence m = qd_sequence x" "group_of (mg_default mg) m = qd_group x"
  shows "\<exists>mg' r. group_dequeued m mg = Inr (mg', r) \<and> mg_default mg' = mg_default mg \<and> mg_lastMsg mg' = qd_sequence x \<and> groups_inv mg' (A @ B)"
proof -
  let ?g = "qd_group x"
  let ?us = "grp A ?g" and ?vs = "grp B ?g"
  let ?xs = "?us @ x # ?vs" and ?ys = "?us @ ?vs"
  let ?mg = "located (qd_sequence x) ?g (state_of ?g ?xs) mg" and ?k = "of_nat (length (held ?ys)) :: 32 word"
  define b where "b \<longleftrightarrow> length ?us = 0 \<and> held ?xs = []"
  define F where "F = (if b then (mg_free mg)(qd_sequence x := None) else mg_free mg)"
  note f = at_message [OF inv m]
  have sh: "shared_by_one ?xs" and gx: "grp (A @ x # B) ?g = ?xs"
    using groups_invD(5) [OF inv, of ?g] by simp_all
  have own: "owned (state_of ?g ?xs) \<longleftrightarrow> held ?xs \<noteq> []"
    unfolding owned_def state_of_sel using owner_shared(1) [OF sh] by blast
  have small: "length ?xs < 2 ^ 31" "length (held ?xs) < 2 ^ 31"
    using length_grp(1) [of "A @ x # B" ?g] length_grp(2) [of ?xs] groups_invD(4) [OF inv] by simp_all
  have len: "length (held ?xs) = (if qd_holder x = None then length (held ?ys) else Suc (length (held ?ys)))"
    by simp
  have snd: "snd (gs_members (state_of ?g ?xs) ! length ?us) \<longleftrightarrow> qd_holder x \<noteq> None"
    by (simp add: nth_append)
  have acq: "qd_holder x \<noteq> None \<Longrightarrow> gs_acquired (state_of ?g ?xs) \<noteq> 0"
    "(if qd_holder x \<noteq> None then gs_acquired (state_of ?g ?xs) - 1 else gs_acquired (state_of ?g ?xs)) = ?k"
    using count_step [of "length (held ?ys)"] small(2) unfolding state_of_sel len by (simp_all del: held_list_simps of_nat_Suc length_append split: if_splits)
  have fr: "free_at ?xs = (if held ?xs = [] then Some (qd_sequence (hd ?xs)) else None)"
    by (simp add: free_at_def del: held_list_simps)
  have inverse: "inverse_of F ((\<lambda>h. free_at (grp (A @ x # B) h))(?g := if b then None else free_at ?xs))"
  proof (cases b)
    case True
    then have "free_at (grp (A @ x # B) ?g) = Some (qd_sequence x)"
      unfolding gx fr by (simp add: b_def)
    from inverse_of_drop [OF groups_invD(2) [OF inv] this] show ?thesis
      using True by (simp add: F_def)
  next
    case False
    then show ?thesis
      using groups_invD(2) [OF inv] by (simp add: F_def gx fun_upd_idem)
  qed
  have pre: "mg_groups ?mg ?g = Some (state_of ?g ?xs)" "findMsg (gm_sequence m) (state_of ?g ?xs) = Inr (length ?us)"
    by (simp add: located_def) (rule f(2), simp)
  have pre': "snd (gs_members (state_of ?g ?xs) ! length ?us) \<Longrightarrow> gs_acquired (state_of ?g ?xs) \<noteq> 0"
    "(if snd (gs_members (state_of ?g ?xs) ! length ?us) then gs_acquired (state_of ?g ?xs) - 1 else gs_acquired (state_of ?g ?xs)) = ?k"
    unfolding snd using acq by blast+
  have "(if length ?us = 0 \<and> \<not> owned (state_of ?g ?xs) then unFree ?g (state_of ?g ?xs \<lparr> gs_acquired := ?k \<rparr>) ?mg else Inr ?mg) = Inr (?mg \<lparr> mg_free := F \<rparr>)"
  proof (cases b)
    case True
    then have "free_at (grp (A @ x # B) ?g) = Some (qd_sequence x)"
      unfolding gx fr by (simp add: b_def)
    then have "mg_free mg (qd_sequence x) = Some ?g"
      using groups_invD(2) [OF inv] by (simp add: inverse_of_def)
    then show ?thesis
      using True own by (simp add: b_def F_def unFree_def located_def)
  next
    case False
    then show ?thesis
      using own by (auto simp: b_def F_def located_def)
  qed
  from dequeued_run [OF f(1) pre pre' this] have run: "group_dequeued m mg = remove_member ?g (length ?us) b (state_of ?g ?xs \<lparr> gs_acquired := ?k \<rparr>) (?mg \<lparr> mg_free := F \<rparr>)"
    unfolding own b_def not_not .
  have rm: "gs_members (state_of ?g ?xs \<lparr> gs_acquired := ?k \<rparr>) = gs_members (state_of ?g ?xs)" "gs_acquired (state_of ?g ?xs \<lparr> gs_acquired := ?k \<rparr>) = ?k"
    "gs_group (state_of ?g ?xs \<lparr> gs_acquired := ?k \<rparr>) = ?g" "gs_owner (state_of ?g ?xs \<lparr> gs_acquired := ?k \<rparr>) = owner_of ?xs"
    by simp_all
  have "mg_cached (?mg \<lparr> mg_free := F \<rparr>) = Some ?g"
    by (simp add: located_def)
  note rm = remove_member_run [OF rm sh small(1) this]
  have sub: "set (held ?ys) \<subseteq> set (held ?xs)"
    by auto
  note one = owner_kept(1) [OF sh sub]
  have drop: "held ?xs \<noteq> [] \<or> b \<Longrightarrow> inverse_of F ((\<lambda>h. free_at (grp (A @ x # B) h))(?g := None))"
    using inverse fr by (cases b) (simp_all del: held_list_simps grp_simps)
  show ?thesis
  proof (cases "?ys = []")
    case True
    then have "held ?xs \<noteq> [] \<or> b" "free_at ?ys = None"
      unfolding b_def by (simp_all add: free_at_def del: held_list_simps(3))
    then have "groups_inv (mg \<lparr> mg_lastMsg := qd_sequence x, mg_lastGroup := ?g, mg_cached := None, mg_groups := (mg_groups mg)(?g := None), mg_free := F \<rparr>) (A @ B)"
      using drop True by (intro removed_inv [OF inv one]) simp_all
    then show ?thesis
      unfolding run rm(1) [OF True] by (cases mg) (auto simp: located_def)
  next
    case ne: False
    have fin: "groups_inv (mg \<lparr> mg_lastMsg := qd_sequence x, mg_lastGroup := ?g, mg_cached := Some ?g, mg_groups := (mg_groups mg)(?g \<mapsto> state_of ?g ?ys), mg_free := G \<rparr>) (A @ B)"
      if "inverse_of G ((\<lambda>h. free_at (grp (A @ x # B) h))(?g := free_at ?ys))" for G
      using that ne by (intro removed_inv [OF inv one]) (simp_all del: append_is_Nil_conv)
    show ?thesis
    proof (cases "held ?ys = [] \<and> (held ?xs \<noteq> [] \<or> b)")
      case True
      let ?p = "qd_sequence (hd ?ys)"
      have "hd ?ys \<in> set (A @ x # B)" "qd_group (hd ?ys) = ?g"
        using hd_in_set [OF ne] by (auto simp: set_grp)
      then have "F ?p = None"
        using free_none [OF inv, of "hd ?ys" F] drop True by simp
      moreover have "free_at ?ys = Some ?p"
        using True ne by (simp add: free_at_def del: held_list_simps append_is_Nil_conv)
      ultimately have "inverse_of (F(?p \<mapsto> ?g)) ((\<lambda>h. free_at (grp (A @ x # B) h))(?g := free_at ?ys))" "mg_free (?mg \<lparr> mg_free := F \<rparr>) ?p = None"
        using inverse_of_add [OF drop, of ?g ?p] True by simp_all
      note G = this
      obtain r where r: "group_dequeued m mg = Inr (?mg \<lparr> mg_free := F, mg_groups := (mg_groups (?mg \<lparr> mg_free := F \<rparr>))(?g \<mapsto> state_of ?g ?ys),
          mg_free := (mg_free (?mg \<lparr> mg_free := F \<rparr>))(?p \<mapsto> ?g) \<rparr>, r)"
        unfolding run using rm(2) [OF ne _ _ G(2)] True by blast
      show ?thesis
        unfolding r using fin [OF G(1)] by (cases mg) (auto simp: located_def)
    next
      case False
      then have c: "held ?ys \<noteq> [] \<or> held ?xs = [] \<and> \<not> b" "held ?ys \<noteq> [] \<longrightarrow> \<not> b"
        using sub by (auto simp: b_def simp del: held_list_simps)
      have nb: "\<not> b"
        using c by blast
      have "free_at ?ys = free_at ?xs"
      proof (cases "held ?ys = []")
        case True
        then have h: "held ?xs = []" "?us \<noteq> []"
          using c(1) nb unfolding b_def by auto
        then show ?thesis
          unfolding free_at_def using True ne by (simp add: hd_append del: held_list_simps)
      next
        case False
        then have "held ?xs \<noteq> []"
          using sub by (metis set_empty subset_empty)
        then show ?thesis
          unfolding free_at_def using False by (simp del: held_list_simps)
      qed
      then have G: "inverse_of F ((\<lambda>h. free_at (grp (A @ x # B) h))(?g := free_at ?ys))"
        using inverse nb by simp
      show ?thesis
        unfolding run rm(3) [OF ne c] using fin [OF G] by (cases mg) (auto simp: located_def)
    qed
  qed
qed

section \<open>Runs\<close>

text \<open>
  \<open>Queue::remove\<close> tells the observers that an available message is acquired, without asking the
  distributor, and then that it is dequeued; to the manager this is the same as the dequeue alone.
\<close>

definition group_removed :: "bool \<Rightarrow> group_message \<Rightarrow> MessageGroupManager \<Rightarrow> (MessageGroupManager \<times> bool) result" where
  "group_removed available m mg =
    res_bind (if available then group_acquired m mg else Inr mg) (group_dequeued m)"

lemma findMsg_fst: "map fst (gs_members st) = map fst (gs_members st') \<Longrightarrow> findMsg p st = findMsg p st'"
proof -
  assume f: "map fst (gs_members st) = map fst (gs_members st')"
  have w: "length (takeWhile (\<lambda>m. SequenceNumber_less (fst m) p) ms) = length (takeWhile (\<lambda>q. SequenceNumber_less q p) (map fst ms))" for ms :: "(SequenceNumber \<times> bool) list"
    by (simp add: takeWhile_map comp_def)
  have l: "length (gs_members st) = length (gs_members st')"
    using f map_eq_imp_length_eq by blast
  then have "fst (gs_members st ! i) = fst (gs_members st' ! i)" if "i < length (gs_members st)" for i
    using f that by (metis nth_map)
  then show ?thesis
    unfolding findMsg_def Let_def w f using l by (auto simp: throw_if_def)
qed

lemma acquired_then_dequeued:
  assumes g: "findGroup m mg = (g, mg1)" and st: "mg_groups mg1 g = Some st"
    and cache: "mg_cached mg1 = Some g" "mg_lastMsg mg1 = gm_sequence m"
    and i: "findMsg (gm_sequence m) st = Inr i" "i < length (gs_members st)" "\<not> snd (gs_members st ! i)"
    and count: "gs_acquired st + 1 \<noteq> 0"
  shows "res_bind (group_acquired m mg) (group_dequeued m) = group_dequeued m mg"
proof -
  let ?st2 = "st \<lparr> gs_members := (gs_members st)[i := (fst (gs_members st ! i), True)] \<rparr>"
  let ?st1 = "?st2 \<lparr> gs_acquired := gs_acquired st + 1 \<rparr>"
  let ?mg1 = "store_group g ?st1 mg1" and ?b = "i = 0 \<and> \<not> owned st"
  have acq: "group_acquired m mg = Inr ?mg1"
    using g st i(1) by (simp add: group_acquired_def deref_def)
  have fst_id: "(map fst (gs_members st))[i := fst (gs_members st ! i)] = map fst (gs_members st)"
    by (metis i(2) list_update_id nth_map)
  have "findMsg (gm_sequence m) ?st1 = findMsg (gm_sequence m) st"
    by (rule findMsg_fst) (simp add: map_update fst_id)
  then have i1: "findMsg (gm_sequence m) ?st1 = Inr i" "snd (gs_members ?st1 ! i)"
    using i by simp_all
  have g1: "findGroup m ?mg1 = (g, ?mg1)"
    using cache by (simp add: findGroup_def store_group_def)
  have own: "owned ?st2 = owned st" "?st1 \<lparr> gs_acquired := gs_acquired ?st1 - 1 \<rparr> = ?st2"
    by (simp_all add: owned_def)
  have new: "group_dequeued m ?mg1 = res_bind (if ?b then unFree g ?st2 ?mg1 else Inr ?mg1) (remove_member g i ?b ?st2)"
    using g1 i1 count own by (auto simp: group_dequeued_def deref_def store_group_def throw_if_def Let_def)
  have old: "group_dequeued m mg = res_bind (if ?b then unFree g st mg1 else Inr mg1) (remove_member g i ?b st)"
    using g st i by (auto simp: group_dequeued_def deref_def throw_if_def Let_def)
  have free: "unFree g ?st2 (store_group g s mg') = res_bind (unFree g st mg') (\<lambda>mg'. Inr (store_group g s mg'))" if ?b for s mg'
    using that i(2) by (cases "gs_members st") (simp_all add: unFree_def store_group_def throw_if_def)
  have rest: "remove_member g i ?b ?st2 (store_group g s mg') = remove_member g i ?b st mg'" for s mg'
    by (simp add: remove_member_def store_group_def Let_def owned_def disown_def)
  have "group_dequeued m ?mg1 = group_dequeued m mg"
  proof (cases ?b)
    case True
    show ?thesis
      unfolding new old if_P [OF True] free [OF True] by (cases "unFree g st mg1") (simp_all only: res_bind_simps rest)
  next
    case False
    show ?thesis
      unfolding new old if_not_P [OF False] res_bind_simps rest ..
  qed
  then show ?thesis
    by (simp add: acq)
qed

lemma removed_as_dequeued:
  assumes inv: "groups_inv mg (A @ x # B)" and m: "gm_sequence m = qd_sequence x" "group_of (mg_default mg) m = qd_group x"
  shows "group_removed (qd_holder x = None) m mg = group_dequeued m mg"
proof (cases "qd_holder x = None")
  case True
  let ?g = "qd_group x"
  let ?xs = "grp A ?g @ x # grp B ?g"
  note f = at_message [OF inv m]
  have "Suc (length (held ?xs)) < 2 ^ 31"
    using length_grp(1) [of "A @ x # B" ?g] length_grp(2) [of "grp A ?g @ grp B ?g"] groups_invD(4) [OF inv] True by simp
  then have "gs_acquired (state_of ?g ?xs) + 1 \<noteq> 0"
    using count_step(1) [of "length (held ?xs)"] by (simp add: add.commute)
  moreover have "findMsg (gm_sequence m) (state_of ?g ?xs) = Inr (length (grp A ?g))"
    by (rule f(2)) simp
  ultimately have "res_bind (group_acquired m mg) (group_dequeued m) = group_dequeued m mg"
    using m(1) True
    by (intro acquired_then_dequeued [OF f(1), where st = "state_of ?g ?xs" and i = "length (grp A ?g)"])
      (simp_all add: located_def nth_append)
  then show ?thesis
    using True by (simp add: group_removed_def)
qed (auto simp: group_removed_def)

text \<open>
  A run of the manager on a queue, with what the queue holds, who was given which message, and the last
  sequence number. The queue numbers its messages one after the other, and those that it holds are
  within half the sequence numbers. Consumers have names.
\<close>

definition concerns :: "string \<Rightarrow> group_message \<Rightarrow> queued \<Rightarrow> bool" where
  "concerns dflt m x \<longleftrightarrow> gm_sequence m = qd_sequence x \<and> group_of dflt m = qd_group x"

inductive groups_run :: "string \<Rightarrow> MessageGroupManager \<Rightarrow> queued list \<Rightarrow> SequenceNumber \<Rightarrow> bool" for dflt where
  run_start: "groups_run dflt (MessageGroupManager_init dflt) [] n"
| run_enqueued: "groups_run dflt mg Q n \<Longrightarrow> gm_sequence m = n + 1 \<Longrightarrow> \<forall>x\<in>set Q. follows (qd_sequence x) (n + 1) \<Longrightarrow> length Q + 1 < 2 ^ 31 \<Longrightarrow>
    group_enqueued m mg = Inr mg' \<Longrightarrow> groups_run dflt mg' (Q @ [\<lparr> qd_sequence = n + 1, qd_group = group_of dflt m, qd_holder = None \<rparr>]) (n + 1)"
| run_take: "groups_run dflt mg (A @ x # B) n \<Longrightarrow> concerns dflt m x \<Longrightarrow> c \<noteq> [] \<Longrightarrow> group_take c (qd_holder x = None) m mg = Inr (b, mg') \<Longrightarrow>
    groups_run dflt mg' (A @ (if b then x \<lparr> qd_holder := Some c \<rparr> else x) # B) n"
| run_requeued: "groups_run dflt mg (A @ x # B) n \<Longrightarrow> concerns dflt m x \<Longrightarrow> qd_holder x \<noteq> None \<Longrightarrow> group_requeued m mg = Inr mg' \<Longrightarrow>
    groups_run dflt mg' (A @ x \<lparr> qd_holder := None \<rparr> # B) n"
| run_dequeued: "groups_run dflt mg (A @ x # B) n \<Longrightarrow> concerns dflt m x \<Longrightarrow> group_dequeued m mg = Inr (mg', r) \<Longrightarrow> groups_run dflt mg' (A @ B) n"
| run_removed: "groups_run dflt mg (A @ x # B) n \<Longrightarrow> concerns dflt m x \<Longrightarrow> group_removed (qd_holder x = None) m mg = Inr (mg', r) \<Longrightarrow> groups_run dflt mg' (A @ B) n"

definition upto_last :: "SequenceNumber \<Rightarrow> SequenceNumber \<Rightarrow> bool" where
  "upto_last n p \<longleftrightarrow> p = n \<or> follows p n"

lemma upto_last_fresh: "upto_last n p \<Longrightarrow> p \<noteq> n + 1"
  by (auto simp: upto_last_def follows_def SequenceNumber_less_def)

lemma groups_run_inv:
  assumes "groups_run dflt mg Q n"
  shows "groups_inv mg Q \<and> mg_default mg = dflt \<and> (\<forall>x\<in>set Q. upto_last n (qd_sequence x)) \<and> (mg_cached mg \<noteq> None \<longrightarrow> upto_last n (mg_lastMsg mg))"
  using assms
proof induction
  case (run_start n)
  have "groups_inv (MessageGroupManager_init dflt) []"
    by (simp add: groups_inv_def MessageGroupManager_init_def inverse_of_def free_at_def shared_by_one_def)
  then show ?case
    by (simp add: MessageGroupManager_init_def)
next
  case (run_enqueued mg Q n m mg')
  then have "mg_cached mg = None \<or> mg_lastMsg mg \<noteq> gm_sequence m"
    using upto_last_fresh by metis
  then show ?case
    using run_enqueued enqueued_inv [of mg Q m "group_of dflt m"] by (auto simp: upto_last_def)
next
  case (run_take mg A x B n m c b mg')
  then show ?case
    using take_inv [of mg A x B m c] by (auto simp: concerns_def split: if_splits)
next
  case (run_requeued mg A x B n m mg')
  then show ?case
    using requeued_inv [of mg A x B m] by (auto simp: concerns_def)
next
  case (run_dequeued mg A x B n m mg' r)
  then show ?case
    using dequeued_inv [of mg A x B m] by (auto simp: concerns_def)
next
  case (run_removed mg A x B n m mg' r)
  then have "group_removed (qd_holder x = None) m mg = group_dequeued m mg"
    by (intro removed_as_dequeued [of mg A x B]) (simp_all add: concerns_def)
  then show ?case
    using run_removed dequeued_inv [of mg A x B m] by (auto simp: concerns_def)
qed

text \<open>
  C11. Message groups keep their promise: whatever is enqueued, acquired, released and dequeued, by consumers,
  by management or by the queue itself, the messages of one group that are acquired at the same time are acquired by
  one consumer.
\<close>

theorem message_group_one_consumer:
  assumes "groups_run dflt mg Q n" "x \<in> set Q" "y \<in> set Q" "qd_group x = qd_group y"
    and "qd_holder x = Some c" "qd_holder y = Some d"
  shows "c = d"
proof -
  have "shared_by_one (grp Q (qd_group x))"
    using groups_run_inv [OF assms(1)] groups_invD(5) by blast
  moreover have "x \<in> set (held (grp Q (qd_group x)))" "y \<in> set (held (grp Q (qd_group x)))"
    using assms(2-6) by (simp_all add: held_def set_grp)
  ultimately have "Some c = Some d"
    using owner_shared(2) assms(5,6) by metis
  then show ?thesis
    by simp
qed

text \<open>
  C20. No event makes the manager fail, with an assertion or a dangling pointer: neither an enqueue, an
  acquisition, a requeue or a dequeue, nor the removal of a message by the queue itself, which reports
  an available message as acquired before it reports the dequeue. And a consumer is given
  a message of the queue exactly if it is available and no other consumer holds a message of its group, in
  every state that a run reaches.
\<close>

theorem message_groups_serve:
  assumes "groups_run dflt mg (A @ x # B) n" "concerns dflt m x"
  shows "(c \<noteq> [] \<longrightarrow> (\<exists>mg'. group_take c (qd_holder x = None) m mg =
        Inr (qd_holder x = None \<and> (\<forall>y\<in>set (A @ B). qd_group y = qd_group x \<longrightarrow> qd_holder y \<in> {None, Some c}), mg'))) \<and>
    (qd_holder x \<noteq> None \<longrightarrow> (\<exists>mg'. group_requeued m mg = Inr mg')) \<and> (\<exists>mg' r. group_dequeued m mg = Inr (mg', r)) \<and>
    (\<exists>mg' r. group_removed (qd_holder x = None) m mg = Inr (mg', r)) \<and>
    (\<forall>m'. gm_sequence m' = n + 1 \<and> (\<forall>y\<in>set (A @ x # B). follows (qd_sequence y) (n + 1)) \<and> length (A @ x # B) + 1 < 2 ^ 31 \<longrightarrow>
       (\<exists>mg'. group_enqueued m' mg = Inr mg'))"
proof -
  have inv: "groups_inv mg (A @ x # B)" "mg_default mg = dflt" "mg_cached mg \<noteq> None \<longrightarrow> upto_last n (mg_lastMsg mg)"
    using groups_run_inv [OF assms(1)] by blast+
  have m: "gm_sequence m = qd_sequence x" "group_of (mg_default mg) m = qd_group x"
    using assms(2) inv(2) by (simp_all add: concerns_def)
  have enq: "\<exists>mg'. group_enqueued m' mg = Inr mg'"
    if "gm_sequence m' = n + 1" "\<forall>y\<in>set (A @ x # B). follows (qd_sequence y) (n + 1)" "length (A @ x # B) + 1 < 2 ^ 31" for m'
    using enqueued_inv [OF inv(1), of m'] that inv(3) upto_last_fresh [of n "mg_lastMsg mg"] by metis
  have "c \<noteq> [] \<Longrightarrow> \<exists>mg'. group_take c (qd_holder x = None) m mg =
      Inr (qd_holder x = None \<and> (\<forall>y\<in>set (A @ B). qd_group y = qd_group x \<longrightarrow> qd_holder y \<in> {None, Some c}), mg')"
    using take_inv [OF inv(1) m] by blast
  moreover have "qd_holder x \<noteq> None \<Longrightarrow> \<exists>mg'. group_requeued m mg = Inr mg'"
    using requeued_inv [OF inv(1) m] by blast
  moreover have "\<exists>mg' r. group_removed (qd_holder x = None) m mg = Inr (mg', r)"
    unfolding removed_as_dequeued [OF inv(1) m] using dequeued_inv [OF inv(1) m] by blast
  ultimately show ?thesis
    using dequeued_inv [OF inv(1) m] enq by blast
qed

section \<open>An example\<close>

text \<open>Two messages of a group, which one consumer is given.\<close>

definition sample_member :: "SequenceNumber \<Rightarrow> group_message" where
  "sample_member n = \<lparr> gm_sequence = n, gm_header = ''g'' \<rparr>"

definition sample_enqueue :: "SequenceNumber \<Rightarrow> MessageGroupManager \<Rightarrow> MessageGroupManager" where
  "sample_enqueue n mg = (case group_enqueued (sample_member n) mg of Inl _ \<Rightarrow> mg | Inr mg \<Rightarrow> mg)"

definition sample_take :: "SequenceNumber \<Rightarrow> MessageGroupManager \<Rightarrow> MessageGroupManager" where
  "sample_take n mg = (case group_take ''c'' True (sample_member n) mg of Inl _ \<Rightarrow> mg | Inr (_, mg) \<Rightarrow> mg)"

definition sample_queued :: "SequenceNumber \<Rightarrow> string option \<Rightarrow> queued" where
  "sample_queued n h = \<lparr> qd_sequence = n, qd_group = ''g'', qd_holder = h \<rparr>"

definition sample_manager_two :: MessageGroupManager where
  "sample_manager_two = sample_enqueue 2 (sample_enqueue 1 (MessageGroupManager_init ''x''))"

lemma sample_group_of: "group_of d (sample_member n) = ''g''" "concerns d (sample_member n) (sample_queued n h)"
  by (simp_all add: sample_member_def group_of_def concerns_def sample_queued_def)

lemma sample_run_two: "groups_run ''x'' sample_manager_two [sample_queued 1 None, sample_queued 2 None] 2"
proof -
  let ?mg = "MessageGroupManager_init ''x''"
  have ok: "case group_enqueued (sample_member 1) ?mg of Inl _ \<Rightarrow> False | Inr _ \<Rightarrow> True"
    "case group_enqueued (sample_member 2) (sample_enqueue 1 ?mg) of Inl _ \<Rightarrow> False | Inr _ \<Rightarrow> True"
    by code_simp+
  have run: "case group_enqueued (sample_member n) mg of Inl _ \<Rightarrow> False | Inr _ \<Rightarrow> True \<Longrightarrow> group_enqueued (sample_member n) mg = Inr (sample_enqueue n mg)" for n mg
    by (auto simp: sample_enqueue_def split: sum.splits)
  have "groups_run ''x'' (sample_enqueue 1 ?mg) ([] @ [\<lparr> qd_sequence = 0 + 1, qd_group = group_of ''x'' (sample_member 1), qd_holder = None \<rparr>]) (0 + 1)"
    by (rule run_enqueued [OF run_start _ _ _ run [OF ok(1)]]) (simp_all add: sample_member_def)
  then have one: "groups_run ''x'' (sample_enqueue 1 ?mg) [sample_queued 1 None] 1"
    by (simp add: sample_group_of sample_queued_def)
  have "groups_run ''x'' (sample_enqueue 2 (sample_enqueue 1 ?mg))
      ([sample_queued 1 None] @ [\<lparr> qd_sequence = 1 + 1, qd_group = group_of ''x'' (sample_member 2), qd_holder = None \<rparr>]) (1 + 1)"
    by (rule run_enqueued [OF one _ _ _ run [OF ok(2)]]) (simp_all add: sample_member_def sample_queued_def follows_def SequenceNumber_less_def)
  then show ?thesis
    by (simp add: sample_group_of sample_queued_def sample_manager_two_def)
qed

lemma sample_run_first: "groups_run ''x'' (sample_take 1 sample_manager_two) [sample_queued 1 (Some ''c''), sample_queued 2 None] 2"
proof -
  have "case group_take ''c'' True (sample_member 1) sample_manager_two of Inl _ \<Rightarrow> False | Inr (b, _) \<Rightarrow> b"
    by code_simp
  then have "group_take ''c'' (qd_holder (sample_queued 1 None) = None) (sample_member 1) sample_manager_two = Inr (True, sample_take 1 sample_manager_two)"
    by (auto simp: sample_take_def sample_queued_def split: sum.splits)
  from run_take [OF _ sample_group_of(2) _ this, of "''x''" "[]" "[sample_queued 2 None]" 2] sample_run_two show ?thesis
    by (simp add: sample_queued_def)
qed

theorem message_groups_serve_witness:
  "\<exists>mg'. group_take ''d'' True (sample_member 2) (sample_take 1 sample_manager_two) = Inr (False, mg')"
proof -
  have "groups_run ''x'' (sample_take 1 sample_manager_two) ([sample_queued 1 (Some ''c'')] @ sample_queued 2 None # []) 2"
    using sample_run_first by simp
  from message_groups_serve [OF this sample_group_of(2), of "''d''"] show ?thesis
    by (simp add: sample_queued_def)
qed

theorem message_group_one_consumer_witness:
  "\<exists>h. qd_holder (sample_queued 1 (Some ''c'')) = Some ''c'' \<and> qd_holder (sample_queued 2 (Some h)) = Some h \<and> ''c'' = h \<and>
    groups_run ''x'' (sample_take 2 (sample_take 1 sample_manager_two)) [sample_queued 1 (Some ''c''), sample_queued 2 (Some h)] 2"
proof -
  have "case group_take ''c'' True (sample_member 2) (sample_take 1 sample_manager_two) of Inl _ \<Rightarrow> False | Inr (b, _) \<Rightarrow> b"
    by code_simp
  then have "group_take ''c'' (qd_holder (sample_queued 2 None) = None) (sample_member 2) (sample_take 1 sample_manager_two) =
      Inr (True, sample_take 2 (sample_take 1 sample_manager_two))"
    by (auto simp: sample_take_def sample_queued_def split: sum.splits)
  from run_take [OF _ sample_group_of(2) _ this, of "''x''" "[sample_queued 1 (Some ''c'')]" "[]" 2] sample_run_first
  have run: "groups_run ''x'' (sample_take 2 (sample_take 1 sample_manager_two)) [sample_queued 1 (Some ''c''), sample_queued 2 (Some ''c'')] 2"
    by (simp add: sample_queued_def)
  from message_group_one_consumer [OF run, of "sample_queued 1 (Some ''c'')" "sample_queued 2 (Some ''c'')"] run show ?thesis
    by (simp add: sample_queued_def)
qed

end
