(* ===== verification/Spec2Isabelle.thy ===== *)
theory Spec2Isabelle
  imports Session_State AMQ_Connection Message_Map Selector_Env Topic_Exchange Headers_Exchange
    Consumer_Credit Queue_Flow_Limit Queue_Limits Tx_Atomic Session_Run Message_Groups
begin

text \<open>
  A verification library for the C++ broker of Apache Qpid (AMQP 0-10), sources under \<open>src/src/qpid\<close>.

  \<^bold>\<open>The program.\<close> A connection turns bytes into frames and frames into bytes (\<open>amqp_0_10\<close>, \<open>framing\<close>). A session numbers
  the commands that the frames make up, replays what a lost connection dropped and filters what arrives twice
  (\<open>SessionState\<close>). A message is given to an exchange (\<open>broker/Exchange\<close> and its subclasses), which finds the queues
  with a matching binding and delivers it to each; binding arguments and headers are field tables. A queue
  (\<open>broker/Queue\<close>) checks its limits, keeps messages in a container (\<open>broker/MessageDeque\<close>, \<open>broker/MessageMap\<close>),
  tells its observers (\<open>broker/QueueFlowLimit\<close>, \<open>broker/ThresholdAlerts\<close>) and hands messages to consumers as far as
  their credit goes (\<open>broker/Credit\<close>); a consumer may filter them with a selector (\<open>broker/Selector\<close>). What a
  session has been sent and not acknowledged is kept in delivery records, and publishes and acknowledgements can be
  buffered in a local or distributed transaction (\<open>broker/TxBuffer\<close>, \<open>broker/DtxManager\<close>); the state of a session
  (\<open>broker/SemanticState\<close>) keeps its subscriptions, records and transaction.

  \<^bold>\<open>Conventions.\<close> A class is a record or a datatype with the fields of the source, a method a function from the object and
  the arguments to the result and the new object, with the name of the method, prefixed by its class where it would clash.
  A method that throws returns \<open>Inl\<close> of the exception (\<open>Prelude\<close>); the failure of an \<open>assert\<close> and undefined behaviour are
  such values too, so that a theorem which gives a result \<open>Inr\<close> shows that they do not occur. Unsigned integers that can
  wrap are machine words. \<open>std::map\<close> is an association list in the order of its keys where the order is observed and a
  function otherwise. Locks, logging, printing and management counters are left out: an operation is one atomic step.
  What an operation asks of the rest of the broker is a list of events in its result.

  \<^bold>\<open>Theories.\<close>
  \<^item> \<open>Prelude\<close>, \<open>Std_Containers\<close>, \<open>Map_Handler\<close>: exceptions and results; \<open>std::map\<close> and \<open>sys/CopyOnWriteArray.h\<close>; the calls of
    \<open>amqp/MapHandler.h\<close>.
  \<^item> \<open>Sequence_Number\<close> (\<open>framing/SequenceNumber.h\<close>): serial number arithmetic; inside a window of \<open>2 ^ 31\<close> numbers the
    comparison is a linear order.
  \<^item> \<open>Range_Set\<close> (\<open>RangeSet.h\<close>), \<open>Sequence_Set\<close> (\<open>framing/SequenceSet.cpp\<close>): sets of ranges over any order that a locale
    describes, interpreted for sequence numbers in a window; addition is union, removal difference, iteration visits each
    element once, and sets survive their encoding.
  \<^item> \<open>Wire_Buffer\<close> (\<open>framing/Buffer.cpp\<close>): reading and writing of integers and strings; the locale \<open>wire_codec\<close> is the contract
    of a pair of put and get operations, interpreted for each of them and for field values.
  \<^item> \<open>AMQ_Frame\<close>, \<open>AMQ_Header_Body\<close>, \<open>AMQ_Connection\<close> (\<open>framing/AMQFrame.cpp\<close>, \<open>framing/FrameDecoder.cpp\<close>,
    \<open>framing/ProtocolInitiation.cpp\<close>, \<open>framing/AMQHeaderBody.cpp\<close>, \<open>amqp_0_10/Connection.cpp\<close>): frames, their reassembly from
    fragments, the body of a header frame, and the queue of frames of a connection; what one connection encodes the peer
    decodes. Frames take the operations of their bodies as the record \<open>bodies\<close> and rely on \<open>bodies_ok\<close>. The record is built
    (\<open>frame_bodies\<close>) from the methods and the structs of header properties, which are generated code and parameters, and the
    modelled header body; \<open>frame_bodies_ok\<close> derives \<open>bodies_ok\<close> from the laws of the generated code.
  \<^item> \<open>Field_Value\<close>, \<open>Field_Table\<close> (\<open>framing/FieldValue.cpp\<close>, \<open>framing/List.cpp\<close>, \<open>framing/Array.cpp\<close>, \<open>framing/FieldTable.cpp\<close>):
    typed values, nested lists, arrays and tables; decoding ends on any bytes, values and tables survive the wire, and the
    lazily decoded table behaves as a map.
  \<^item> \<open>Session_State\<close> (\<open>SessionState.cpp\<close>): the invariant of the replay list of a session that keeps one (its timeout is not 0)
    while frames are recorded in sequence, and delivery of every frame
    exactly once over a reconnection.
  \<^item> \<open>Broker_Messages\<close>, \<open>Message_Map\<close> (\<open>broker/IndexedDeque.h\<close>, \<open>broker/MessageDeque.cpp\<close>, \<open>broker/QueueCursor.cpp\<close>,
    \<open>broker/MessageMap.cpp\<close>): the containers of a queue, which satisfy one locale, and browsing with cursors.
  \<^item> \<open>Selector_Expression\<close>, \<open>Selector_Token\<close>, \<open>Selector_Parse\<close>, \<open>Selector_Env\<close> (\<open>broker/Selector*.cpp\<close>): evaluation in three-valued
    logic, the tokeniser, which returns exactly the tokens of a lexical grammar, the parser against the grammar of selectors, and the caching lookup of
    properties.
  \<^item> \<open>Exchange_Base\<close>, \<open>Topic_Tree\<close>, \<open>Topic_Exchange\<close>, \<open>Direct_Exchange\<close>, \<open>Headers_Exchange\<close> (\<open>broker/Exchange.cpp\<close>,
    \<open>broker/TopicKeyNode.h\<close>, \<open>broker/TopicExchange.cpp\<close>, \<open>broker/DirectExchange.cpp\<close>, \<open>broker/FanOutExchange.cpp\<close>,
    \<open>broker/HeadersExchange.cpp\<close>): the locale \<open>exchange_contract\<close> says what an exchange promises, a relation between keys
    and queues that bind and unbind change and that route reads; it extends the locale \<open>run_refinement\<close>, in which a run of
    requests refines its specification. It is interpreted for the topic, the direct and the fanout exchange, and
    \<open>run_refinement\<close> once more for the direct exchange with exclusive bindings. Operations of federated brokers are modelled but
    are not requests of these runs. For the headers exchange the meaning of a match is shown.
  \<^item> \<open>Queue_Message\<close>, \<open>Queue_Depth\<close> (\<open>broker/Message.cpp\<close>, \<open>broker/QueueDepth.cpp\<close>, \<open>broker/QueueSettings.cpp\<close>,
    \<open>broker/QueueFactory.cpp\<close>): what a queue reads of a message, depths of a queue and their comparison, settings.
  \<^item> \<open>Broker_Queue\<close>, \<open>Queue_Invariant\<close>, \<open>Queue_Limits\<close> (\<open>broker/Queue.cpp\<close>, \<open>broker/QueueListeners.cpp\<close>,
    \<open>broker/LossyQueue.cpp\<close>, \<open>broker/SelfDestructQueue.cpp\<close>, \<open>broker/FifoDistributor.cpp\<close>): the operations of a queue, the
    invariant that ties its depth to its messages and to the space reserved by transactions, and what follows for
    every state reached by \<open>queue_step\<close> (release of a message that left the queue and setting the position are not steps, and
    \<open>Queue_push\<close> is not a step of a last-value queue, whose own \<open>push\<close> is not modelled): limits hold without recovery, a ring queue drops the oldest, dispatch finds the first message that is wanted.
  \<^item> \<open>Queue_Flow_Limit\<close> (\<open>broker/QueueFlowLimit.cpp\<close>, \<open>broker/ThresholdAlerts.cpp\<close>), \<open>Consumer_Credit\<close> (\<open>broker/Credit.cpp\<close>):
    the observers that hold producers back and raise alerts; the credit of a consumer, whose two modes satisfy one locale. A window sums in 32 bits, exactly
    while allocation and delivery together stay below \<open>2 ^ 32\<close>.
  \<^item> \<open>Delivery_Record\<close>, \<open>Tx_Buffer\<close>, \<open>Dtx_Manager\<close>, \<open>Tx_Operations\<close>, \<open>Tx_Atomic\<close> (\<open>broker/DeliveryRecord.cpp\<close>,
    \<open>broker/TxBuffer.cpp\<close>, \<open>broker/TxAccept.cpp\<close>, \<open>broker/DtxAck.cpp\<close>, \<open>broker/DtxBuffer.cpp\<close>, \<open>broker/DtxWorkRecord.cpp\<close>,
    \<open>broker/DtxManager.cpp\<close>): the locale \<open>two_phase\<close> is the contract of the operations of a transaction, under which local
    transactions and the branches of distributed ones are atomic; it is interpreted for the publishes and
    acknowledgements of the broker on its queues. A branch is followed through one-phase commit, rollback and prepare, with
    what comes after a successful prepare.
  \<^item> \<open>Semantic_State\<close>, \<open>Session_Custody\<close>, \<open>Session_Run\<close> (\<open>broker/SemanticState.cpp\<close>, \<open>framing/IsInSequenceSet.h\<close>): the state of an
    open session, which puts queues, credit, records and transactions together. In every run without transactions on
    plain queues a message is acquired exactly if one record holds it or an acquire of settled deliveries has stranded it;
    \<open>session_reachable e S s\<close> keeps the stranded ones in \<open>S\<close>. An accept settles exactly what it names, a flush ends, and closing
    gives back every message but those in \<open>S\<close>.
  \<^item> \<open>Message_Groups\<close> (\<open>broker/MessageGroupManager.cpp\<close>): the distributor of a queue with message groups. What it keeps is a
    function of the messages of each group, no event makes it fail, and a group is consumed by one consumer at a time.

  \<^bold>\<open>Bounds and fuel.\<close> The parser of selectors and the decoder of field values recurse as deep as their input is nested; both
  take fuel, and it is proved that \<open>6 * length + 6\<close> steps for a selector and one step for each byte available for a field value
  are enough on every input. Comparison of field tables takes a bound on the nesting. The loops of a queue over its messages
  (removal, purging, dispatch, search) and the merge of delivery records with a set take fuel that the calling operation
  computes from the lengths, and it is proved to suffice. Flushing a subscription takes fuel too; one turn more than there are
  available messages is enough for a subscription that acquires them. The loop over the structs of a header body takes one turn more than there
  are bytes, which is enough while a struct does not move the position back (\<open>header_loop_enough\<close>). All other functions are total.
  Floating point arithmetic and regular expressions in selectors, the text of a UUID, the key of a last-value queue and the
  content of messages are parameters.

  \<^bold>\<open>Where the code departs from what it says.\<close> Several theorems show a behaviour that a comment, an interface or the specification
  contradicts, such as \<open>FieldTable_getDouble_swaps\<close>, \<open>FieldTable_copy_failure\<close>, \<open>headers_match_spurious\<close>,
  \<open>headers_fed_origin_lost\<close>, \<open>direct_unbind_leaves_entry\<close>, \<open>isBound_key_divergence\<close>, \<open>Connection_header_in_two_parts\<close>,
  \<open>SequenceSet_size_field_overflow\<close>, \<open>MessageDeque_release_revives\<close>, \<open>parse_unary_plus\<close>, \<open>getNextMessage_loses_wakeup\<close>,
  \<open>self_destruct_durable_deadlocks\<close>, \<open>CreditWindow_check_wraps\<close>, \<open>dtx_failed_prepare_then_commit\<close>,
  \<open>acquire_settled_strands\<close> and \<open>completion_by_tag_grants_credit\<close>.

  \<^bold>\<open>Not modelled.\<close> Threads, sockets, timers and the stores on disk (\<open>sys\<close>, \<open>legacystore\<close>, \<open>linearstore\<close>, \<open>store\<close>); management and
  the generated protocol and management classes; AMQP 1.0, which rests on a library that is not in the repository; the
  client library, replication (\<open>ha\<close>) and access control. Of the broker, the adapters between
  the protocol and a session, federation links, priority queues and the registries are not modelled; of the
  state of a session, routing and session-scoped bindings are left out. A queue is modelled on the message
  deque and with the FIFO distributor only, and the store of a transaction is a log of the calls made on it.
\<close>

end
